(* ===== verification/Prelude.thy ===== *)
theory Prelude
  imports Main "HOL-Library.Word" "HOL-Library.Monad_Syntax"
begin

text \<open>
  Shared vocabulary of the development: the machine types of the programs
  (64-bit sizes and addresses, bytes), the arithmetic of rounding to a multiple,
  byte ranges of a memory (the C library's memset and memcpy), and ordered maps
  (C++'s std::map), given as an interface (locale \<open>ordered_map\<close>) and as the
  key-sorted association lists that implement it.
\<close>

unbundle bit_operations_syntax

section \<open>Machine types\<close>

type_synonym u8 = "8 word"
type_synonym u64 = "64 word"

named_theorems mem_simps "reading a byte after a block write"
named_theorems om_simps "lookups in ordered maps"

text \<open>The signed reading of a 64-bit word.\<close>

lemma sint64_small:
  assumes "unat (w :: u64) < 2 ^ 63"
  shows "sint w = int (unat w)"
proof -
  have len: "LENGTH(64) - Suc 0 = 63" by simp
  have "uint w < 2 ^ 63" using assms by (metis of_nat_less_iff of_nat_numeral of_nat_power uint_nat)
  moreover have "- (2 ^ 63) \<le> uint w" by (rule order_trans [OF _ uint_ge_0]) simp
  ultimately have t: "signed_take_bit 63 (uint w) = uint w" by (intro signed_take_bit_int_eq_self)
  show ?thesis unfolding sint_uint len t by (rule uint_nat)
qed

lemma sint64_nonneg:
  assumes "0 \<le> sint (w :: u64)"
  shows "sint w = int (unat w)"
proof -
  have len: "LENGTH(64) = 64" by simp
  have "sint w < 2 ^ 64" using sint_less [of w] by simp
  then have t: "take_bit 64 (sint w) = sint w" by (rule take_bit_int_eq_self [OF assms])
  have u: "uint w = take_bit LENGTH(64) (sint w)" by (rule uint_sint)
  have v: "int (unat w) = uint w" by (rule uint_nat [symmetric])
  show ?thesis unfolding v u len t ..
qed

lemma unat64_of_nat: "n < 2 ^ 64 \<Longrightarrow> unat (of_nat n :: u64) = n"
  by (simp add: unat_of_nat take_bit_nat_eq_self)

lemma uint_not_eof: "uint (b :: u8) \<noteq> -1"
  using uint_ge_0 [of b] by linarith

section \<open>Assertions\<close>

text \<open>C's assert: a failed assertion aborts the program, so the computation has no
  result.\<close>

definition assert_ok :: "bool \<Rightarrow> unit option" where
  "assert_ok b = (if b then Some () else None)"

lemma assert_ok_simps [simp]: "assert_ok True = Some ()" "assert_ok False = None"
  by (simp_all add: assert_ok_def)

section \<open>Lists\<close>

lemma take_drop_split: "take a (drop k xs) @ drop (k + a) xs = drop k xs"
  by (metis append_take_drop_id drop_drop add.commute)

section \<open>Rounding\<close>

definition round_up_to :: "nat \<Rightarrow> nat \<Rightarrow> nat" where
  "round_up_to a n = (n + a - 1) div a * a"

lemma round_up_to_dvd [simp]: "a dvd round_up_to a n"
  by (simp add: round_up_to_def)

lemma round_up_to_ge: "0 < a \<Longrightarrow> n \<le> round_up_to a n"
proof -
  assume "0 < a"
  then have "n + a - 1 < round_up_to a n + a"
    unfolding round_up_to_def by (metis add.commute div_mult_mod_eq mod_less_divisor nat_add_left_cancel_less)
  with \<open>0 < a\<close> show ?thesis by simp
qed

lemma round_up_to_less: "0 < a \<Longrightarrow> round_up_to a n < n + a"
proof -
  assume "0 < a"
  then have "round_up_to a n \<le> n + a - 1"
    unfolding round_up_to_def by simp
  with \<open>0 < a\<close> show ?thesis by simp
qed

lemma round_up_to_mono: "m \<le> n \<Longrightarrow> round_up_to a m \<le> round_up_to a n"
  unfolding round_up_to_def by (intro mult_le_mono1 div_le_mono) simp

lemma round_up_to_id: "0 < a \<Longrightarrow> a dvd n \<Longrightarrow> round_up_to a n = n"
proof -
  assume "0 < a" and "a dvd n"
  then obtain q where n: "n = a * q" by auto
  have "(n + a - 1) div a = q"
    using \<open>0 < a\<close> n by (simp add: div_nat_eqI)
  then show ?thesis unfolding round_up_to_def using n by simp
qed

lemma round_up_to_least:
  assumes "0 < a" and "n \<le> m" and "a dvd m"
  shows "round_up_to a n \<le> m"
  using round_up_to_mono [OF assms(2), of a] round_up_to_id [OF assms(1,3)] by simp

lemma round_up_to_pos: "0 < a \<Longrightarrow> 0 < n \<Longrightarrow> 0 < round_up_to a n"
  using round_up_to_ge [of a n] by simp

section \<open>Bytes of a memory\<close>

text \<open>A memory is a function from an index to a byte; \<open>memset\<close> and \<open>memcpy\<close> are
  those of the C library.\<close>

definition memset :: "(nat \<Rightarrow> u8) \<Rightarrow> nat \<Rightarrow> u8 \<Rightarrow> nat \<Rightarrow> (nat \<Rightarrow> u8)" where
  "memset m p v n = (\<lambda>i. if p \<le> i \<and> i < p + n then v else m i)"

definition memcpy :: "(nat \<Rightarrow> u8) \<Rightarrow> nat \<Rightarrow> nat \<Rightarrow> nat \<Rightarrow> (nat \<Rightarrow> u8)" where
  "memcpy m dst src n = (\<lambda>i. if dst \<le> i \<and> i < dst + n then m (src + (i - dst)) else m i)"

lemma memset_in [mem_simps]: "p \<le> i \<Longrightarrow> i < p + n \<Longrightarrow> memset m p v n i = v"
  and memset_out [mem_simps]: "i < p \<or> p + n \<le> i \<Longrightarrow> memset m p v n i = m i"
  by (auto simp: memset_def)

lemma memcpy_in [mem_simps]: "i < n \<Longrightarrow> memcpy m dst src n (dst + i) = m (src + i)"
  and memcpy_out [mem_simps]: "i < dst \<or> dst + n \<le> i \<Longrightarrow> memcpy m dst src n i = m i"
  by (auto simp: memcpy_def)

section \<open>Ordered maps\<close>

text \<open>
  The interface of std::map that the programs use: \<open>insert\<close> does nothing when the key
  is there, \<open>erase\<close> removes it, \<open>put\<close> is an assignment through an iterator or an index.
\<close>

locale ordered_map =
  fixes find :: "'m \<Rightarrow> 'k::linorder \<Rightarrow> 'v option"
    and insert :: "'k \<Rightarrow> 'v \<Rightarrow> 'm \<Rightarrow> 'm"
    and put :: "'k \<Rightarrow> 'v \<Rightarrow> 'm \<Rightarrow> 'm"
    and erase :: "'k \<Rightarrow> 'm \<Rightarrow> 'm"
    and invar :: "'m \<Rightarrow> bool"
  assumes find_insert: "invar m \<Longrightarrow>
      find (insert k v m) = (if find m k = None then (find m)(k \<mapsto> v) else find m)"
    and find_put: "invar m \<Longrightarrow> find (put k v m) = (find m)(k \<mapsto> v)"
    and find_erase: "invar m \<Longrightarrow> find (erase k m) = (find m)(k := None)"
    and invar_insert: "invar m \<Longrightarrow> invar (insert k v m)"
    and invar_put: "invar m \<Longrightarrow> invar (put k v m)"
    and invar_erase: "invar m \<Longrightarrow> invar (erase k m)"
begin

lemma find_insert_new: "invar m \<Longrightarrow> find m k = None \<Longrightarrow> find (insert k v m) = (find m)(k \<mapsto> v)"
  by (simp add: find_insert)

lemma find_erase_insert:
  "invar m \<Longrightarrow> find m k = None \<Longrightarrow> find (erase k (insert k v m)) = find m"
  by (auto simp: find_erase find_insert invar_insert fun_upd_idem_iff)

lemma insert_present: "invar m \<Longrightarrow> find m k = Some u \<Longrightarrow> find (insert k v m) = find m"
  by (simp add: find_insert)

end

text \<open>The implementation: association lists sorted by key, without duplicates.\<close>

fun om_insert :: "'k::linorder \<Rightarrow> 'v \<Rightarrow> ('k \<times> 'v) list \<Rightarrow> ('k \<times> 'v) list" where
  "om_insert k v [] = [(k, v)]"
| "om_insert k v ((a, b) # m) =
     (if k < a then (k, v) # (a, b) # m
      else if k = a then (a, b) # m
      else (a, b) # om_insert k v m)"

fun om_put :: "'k::linorder \<Rightarrow> 'v \<Rightarrow> ('k \<times> 'v) list \<Rightarrow> ('k \<times> 'v) list" where
  "om_put k v [] = [(k, v)]"
| "om_put k v ((a, b) # m) =
     (if k < a then (k, v) # (a, b) # m
      else if k = a then (a, v) # m
      else (a, b) # om_put k v m)"

fun om_erase :: "'k \<Rightarrow> ('k \<times> 'v) list \<Rightarrow> ('k \<times> 'v) list" where
  "om_erase k [] = []"
| "om_erase k ((a, b) # m) = (if k = a then m else (a, b) # om_erase k m)"

definition om_ok :: "('k::linorder \<times> 'v) list \<Rightarrow> bool" where
  "om_ok m \<longleftrightarrow> sorted_wrt (<) (map fst m)"

lemma om_ok_Nil [simp]: "om_ok []"
  by (simp add: om_ok_def)

lemma om_ok_Cons: "om_ok (p # m) \<longleftrightarrow> (\<forall>x \<in> set m. fst p < fst x) \<and> om_ok m"
  by (simp add: om_ok_def)

lemma om_set_insert: "x \<in> set (om_insert k v m) \<Longrightarrow> x = (k, v) \<or> x \<in> set m"
  and om_set_put: "x \<in> set (om_put k v m) \<Longrightarrow> x = (k, v) \<or> x \<in> set m"
  and om_set_erase: "x \<in> set (om_erase k m) \<Longrightarrow> x \<in> set m"
  by (induction m) (auto split: if_splits)

lemma om_ok_insert: "om_ok m \<Longrightarrow> om_ok (om_insert k v m)"
proof (induction m)
  case (Cons p m)
  then show ?case
    by (cases p) (auto simp: om_ok_Cons not_less dest!: om_set_insert intro: less_trans)
qed (simp add: om_ok_Cons)

lemma om_ok_put: "om_ok m \<Longrightarrow> om_ok (om_put k v m)"
proof (induction m)
  case (Cons p m)
  then show ?case
    by (cases p) (auto simp: om_ok_Cons not_less dest!: om_set_put intro: less_trans)
qed (simp add: om_ok_Cons)

lemma om_ok_erase: "om_ok m \<Longrightarrow> om_ok (om_erase k m)"
proof (induction m)
  case (Cons p m)
  then show ?case
    by (cases p) (auto simp: om_ok_Cons dest!: om_set_erase)
qed simp

lemma om_find_None: "\<forall>x \<in> set m. (k::'k::linorder) < fst x \<Longrightarrow> map_of m k = None"
  by (induction m) auto

lemma om_find_insert: "om_ok m \<Longrightarrow>
    map_of (om_insert k v m) = (if map_of m k = None then (map_of m)(k \<mapsto> v) else map_of m)"
proof (induction m)
  case (Cons p m)
  obtain a b where p: "p = (a, b)" by (cases p)
  have *: "map_of m k = None" if "k < a"
    using that Cons.prems by (intro om_find_None) (auto simp: p om_ok_Cons intro: less_trans)
  from Cons show ?case by (auto simp: p om_ok_Cons fun_eq_iff * split: if_splits)
qed (simp add: fun_eq_iff)

lemma om_find_put: "om_ok m \<Longrightarrow> map_of (om_put k v m) = (map_of m)(k \<mapsto> v)"
  by (induction m) (auto simp: om_ok_Cons fun_eq_iff)

lemma om_find_erase: "om_ok m \<Longrightarrow> map_of (om_erase k m) = (map_of m)(k := None)"
proof (induction m)
  case (Cons p m)
  obtain a b where p: "p = (a, b)" by (cases p)
  from Cons.prems have "map_of m a = None"
    by (intro om_find_None) (auto simp: p om_ok_Cons)
  with Cons show ?case by (auto simp: p om_ok_Cons fun_eq_iff)
qed (simp add: fun_eq_iff)

interpretation om: ordered_map map_of om_insert om_put om_erase om_ok
  by unfold_locales
    (simp_all add: om_find_insert om_find_put om_find_erase om_ok_insert om_ok_put om_ok_erase)

lemmas om_lookup [om_simps] = om.find_insert om.find_put om.find_erase
lemmas om_invar [om_simps] = om.invar_insert om.invar_put om.invar_erase

text \<open>A sorted association list is determined by its lookups.\<close>

lemma om_ok_distinct: "om_ok m \<Longrightarrow> distinct (map fst m)"
  by (simp add: om_ok_def strict_sorted_iff)

lemma om_set_iff: "om_ok m \<Longrightarrow> (k, v) \<in> set m \<longleftrightarrow> map_of m k = Some v"
  by (simp add: om_ok_distinct)

lemma om_ext:
  assumes "om_ok m" and "om_ok m'" and "map_of m = map_of m'"
  shows "m = m'"
proof -
  have eq: "set m = set m'"
    using assms by (auto simp: om_set_iff)
  have inj: "inj_on fst (set m \<union> set m')"
    using assms(1,2) om_set_iff by (intro inj_onI) (fastforce simp: eq [symmetric])
  show ?thesis
    using assms(1,2) eq inj by (intro map_sorted_distinct_set_unique) (auto simp: om_ok_def strict_sorted_iff)
qed

end
