(* ===== verification/M61.thy ===== *)
theory M61
  imports Prelude
begin

text \<open>
  The debugging allocator of problem set 1, \<^verbatim>\<open>pset1/m61.cc\<close>: \<open>m61_malloc\<close>,
  \<open>m61_free\<close>, \<open>m61_calloc\<close>, \<open>m61_realloc\<close>, the statistics and the leak report.

  The 8 MiB buffer returned by mmap is a base address and a byte function over indices
  (\<open>itop\<close> and \<open>ptoi\<close> convert, with the wrap-around of pointer subtraction). Positions
  and block sizes inside the buffer are naturals, since the code only computes with
  values below 2^24 once the guard on \<open>sz\<close> has passed; sizes that come from the
  caller and the statistics are 64-bit words. The two std::maps are ordered maps, the
  std::set of freed pointers is a set. A call that aborts the program returns \<open>Inl\<close>
  of the diagnosis it prints; the text of the diagnosis is not modelled.
\<close>

section \<open>State\<close>

definition HEAP_SIZE :: nat where
  "HEAP_SIZE = 8 * 2 ^ 20"

definition ALIGNMENT :: nat where
  "ALIGNMENT = 16"

definition MARKER :: u8 where
  "MARKER = 33"

record m61_statistics =
  nactive :: u64
  active_size :: u64
  ntotal :: u64
  total_size :: u64
  nfail :: u64
  fail_size :: u64
  heap_min :: u64
  heap_max :: u64

record metadata =
  blk_sz :: nat
  blk_align :: nat
  blk_line :: u64

definition make_metadata :: "nat \<Rightarrow> nat \<Rightarrow> u64 \<Rightarrow> metadata" where
  "make_metadata sz alignment_sz line = \<lparr>blk_sz = sz, blk_align = alignment_sz, blk_line = line\<rparr>"

record m61_state =
  buffer :: u64
  mem :: "nat \<Rightarrow> u8"
  allocated_blocks :: "(nat \<times> metadata) list"
  free_blocks :: "(nat \<times> nat) list"
  freed :: "u64 set"
  global_stats :: m61_statistics
  curr_file :: string

definition m61_init :: "u64 \<Rightarrow> m61_state" where
  "m61_init base = \<lparr>buffer = base, mem = (\<lambda>_. 0), allocated_blocks = [],
     free_blocks = [(0, HEAP_SIZE)], freed = {},
     global_stats = \<lparr>nactive = 0, active_size = 0, ntotal = 0, total_size = 0,
       nfail = 0, fail_size = 0, heap_min = 0, heap_max = 0\<rparr>,
     curr_file = []\<rparr>"

definition itop :: "m61_state \<Rightarrow> nat \<Rightarrow> u64" where
  "itop s x = buffer s + of_nat x"

definition ptoi :: "m61_state \<Rightarrow> u64 \<Rightarrow> nat" where
  "ptoi s p = unat (p - itop s 0)"

section \<open>m61\_malloc\<close>

text \<open>The loop over \<open>free_blocks\<close>: the first block with enough room, none at all when
  the request is as large as the whole buffer.\<close>

fun find_block :: "nat \<Rightarrow> (nat \<times> nat) list \<Rightarrow> (nat \<times> nat) option" where
  "find_block n [] = None"
| "find_block n ((pos, len) # rest) =
     (if HEAP_SIZE \<le> n then None
      else if n + (if n mod ALIGNMENT = 0 then ALIGNMENT else 0) \<le> len then Some (pos, len)
      else find_block n rest)"

definition padding :: "nat \<Rightarrow> nat \<Rightarrow> nat" where
  "padding pos n = (ALIGNMENT - (pos + n) mod ALIGNMENT) mod ALIGNMENT
     + (if n mod ALIGNMENT = 0 then ALIGNMENT else 0)"

definition stats_fail :: "u64 \<Rightarrow> m61_statistics \<Rightarrow> m61_statistics" where
  "stats_fail sz st = st\<lparr>nfail := nfail st + 1, fail_size := fail_size st + sz\<rparr>"

definition stats_alloc :: "u64 \<Rightarrow> u64 \<Rightarrow> m61_statistics \<Rightarrow> m61_statistics" where
  "stats_alloc ptr sz st =
     (let st = st\<lparr>nactive := nactive st + 1, ntotal := ntotal st + 1,
                  total_size := total_size st + sz, active_size := active_size st + sz\<rparr>
      in if ntotal st = 1 then st\<lparr>heap_min := ptr, heap_max := ptr + sz\<rparr>
         else st\<lparr>heap_min := min (heap_min st) ptr, heap_max := max (heap_max st) (ptr + sz)\<rparr>)"

definition m61_malloc :: "u64 \<Rightarrow> string \<Rightarrow> int \<Rightarrow> m61_state \<Rightarrow> u64 \<times> m61_state" where
  "m61_malloc sz fname line s =
     (let s = s\<lparr>curr_file := fname\<rparr>; n = unat sz in
      case find_block n (free_blocks s) of
        None \<Rightarrow> (0, s\<lparr>global_stats := stats_fail sz (global_stats s)\<rparr>)
      | Some (block_start, len) \<Rightarrow>
          let block_end = block_start + len;
              pad = padding block_start n;
              new_start = block_start + n + pad;
              fb = om_erase block_start (free_blocks s);
              ptr = itop s block_start
          in (ptr, s\<lparr>mem := memset (mem s) (block_start + n) MARKER pad,
                     free_blocks := (if new_start < block_end
                        then om_insert new_start (block_end - new_start) fb else fb),
                     allocated_blocks := om_insert block_start
                        (make_metadata n pad (word_of_int line)) (allocated_blocks s),
                     freed := freed s - {ptr},
                     global_stats := stats_alloc ptr sz (global_stats s)\<rparr>))"

section \<open>m61\_free\<close>

text \<open>
  What a call that does not return reports: the three kinds of invalid free (the last
  with the enclosing allocation, if there is one: its line, the offset inside it and
  its size), an overwritten marker, or undefined behaviour of the code itself:
  \<open>upper_bound(...)\<close> followed by \<open>it--\<close> on the first element, which the code then reads. (Coalescing also moves an iterator before
  the first free block, but does not look at it there; the model has no iterator for this.)
\<close>

datatype m61_error =
    DoubleFree u64
  | NotInHeap u64
  | NotAllocated u64 "(u64 \<times> nat \<times> nat) option"
  | WildWrite u64
  | UndefinedBehaviour

definition om_before_upper_bound :: "nat \<Rightarrow> (nat \<times> 'v) list \<Rightarrow> (nat \<times> 'v) option" where
  "om_before_upper_bound p m =
     (case filter (\<lambda>(k, _). k \<le> p) m of [] \<Rightarrow> None | x # xs \<Rightarrow> Some (last (x # xs)))"

definition invalid_free :: "u64 \<Rightarrow> m61_state \<Rightarrow> m61_error" where
  "invalid_free ptr s =
     (if ptr \<in> freed s then DoubleFree ptr
      else if sint (ptr - itop s 0) \<ge> int HEAP_SIZE \<or> sint (ptr - itop s 0) < 0
      then NotInHeap ptr
      else case om_before_upper_bound (ptoi s ptr) (allocated_blocks s) of
          None \<Rightarrow> UndefinedBehaviour
        | Some (k, b) \<Rightarrow>
            if k < ptoi s ptr \<and> k + blk_sz b > ptoi s ptr
            then NotAllocated ptr (Some (blk_line b, ptoi s ptr - k, blk_sz b))
            else NotAllocated ptr None)"

definition markers_intact :: "m61_state \<Rightarrow> nat \<Rightarrow> metadata \<Rightarrow> bool" where
  "markers_intact s pos b =
     list_all (\<lambda>i. mem s (pos + i) = MARKER) [blk_sz b ..< blk_sz b + blk_align b]"

text \<open>
  Coalescing. The iterators \<open>r_ptr\<close> and \<open>l_ptr\<close> are the entries after and before the
  one just inserted; \<open>r_ptr\<close> may be end(), and the branch on \<open>l_ptr\<close> is taken only when
  the entry is not the first one.
\<close>

definition coalesce_right :: "nat \<Rightarrow> (nat \<times> nat) list \<Rightarrow> (nat \<times> nat) list" where
  "coalesce_right p fb =
     (case (map_of fb p, filter (\<lambda>(k, _). p < k) fb) of
        (Some len, (rk, rlen) # _) \<Rightarrow>
          if len = rk - p then om_put p (len + rlen) (om_erase rk fb) else fb
      | _ \<Rightarrow> fb)"

definition coalesce_left :: "nat \<Rightarrow> (nat \<times> nat) list \<Rightarrow> (nat \<times> nat) list" where
  "coalesce_left p fb =
     (case (map_of fb p, filter (\<lambda>(k, _). k < p) fb) of
        (Some len, x # xs) \<Rightarrow>
          (case last (x # xs) of (lk, llen) \<Rightarrow>
             if llen = p - lk then om_put lk (llen + len) (om_erase p fb) else fb)
      | _ \<Rightarrow> fb)"

definition m61_free :: "u64 \<Rightarrow> m61_state \<Rightarrow> m61_error + m61_state" where
  "m61_free ptr s =
     (if ptr = 0 then Inr s
      else case map_of (allocated_blocks s) (ptoi s ptr) of
        None \<Rightarrow> Inl (invalid_free ptr s)
      | Some b \<Rightarrow>
          let start_pos = ptoi s ptr; s = s\<lparr>freed := insert ptr (freed s)\<rparr> in
          if \<not> markers_intact s start_pos b then Inl (WildWrite ptr)
          else
            let st = global_stats s;
                fb = om_insert start_pos (blk_sz b + blk_align b) (free_blocks s)
            in Inr (s\<lparr>global_stats := st\<lparr>active_size := active_size st - of_nat (blk_sz b),
                                           nactive := nactive st - 1\<rparr>,
                      allocated_blocks := om_erase start_pos (allocated_blocks s),
                      free_blocks := coalesce_left start_pos (coalesce_right start_pos fb)\<rparr>))"

section \<open>m61\_calloc and m61\_realloc\<close>

definition m61_calloc :: "u64 \<Rightarrow> u64 \<Rightarrow> string \<Rightarrow> int \<Rightarrow> m61_state \<Rightarrow> u64 \<times> m61_state" where
  "m61_calloc count sz fname line s =
     (if unat count > HEAP_SIZE \<or> unat sz > HEAP_SIZE
      then (0, s\<lparr>global_stats := stats_fail (count * sz) (global_stats s)\<rparr>)
      else case m61_malloc (count * sz) fname line s of (ptr, s') \<Rightarrow>
        if ptr \<noteq> 0
        then (ptr, s'\<lparr>mem := memset (mem s') (ptoi s' ptr) 0 (unat (count * sz))\<rparr>)
        else (ptr, s'))"

text \<open>
  \<open>m61_realloc\<close>. In the shrinking branch the size is overwritten before the padding
  is adjusted, so the adjustment \<open>alignment_sz += allocation->second.sz - sz\<close> adds
  \<open>sz - sz\<close>; it is kept as the code has it.
\<close>

definition m61_realloc ::
  "u64 \<Rightarrow> u64 \<Rightarrow> string \<Rightarrow> int \<Rightarrow> m61_state \<Rightarrow> m61_error + (u64 \<times> m61_state)" where
  "m61_realloc ptr sz fname line s =
     (if ptr = 0 then Inr (m61_malloc sz fname line s)
      else if sz = 0 then
        (case m61_free ptr s of Inl e \<Rightarrow> Inl e | Inr s' \<Rightarrow> Inr (0, s'))
      else if map_of (free_blocks s) (ptoi s ptr) \<noteq> None then Inr (0, s)
      else case map_of (allocated_blocks s) (ptoi s ptr) of
        None \<Rightarrow> Inr (0, s)
      | Some b \<Rightarrow>
          if unat sz \<le> blk_sz b then
            let b = b\<lparr>blk_sz := unat sz\<rparr>;
                b = b\<lparr>blk_align := blk_align b + (blk_sz b - unat sz)\<rparr>;
                b = b\<lparr>blk_line := word_of_int line\<rparr>
            in Inr (ptr, s\<lparr>allocated_blocks := om_put (ptoi s ptr) b (allocated_blocks s),
                           mem := memset (mem s) (ptoi s ptr + unat sz) MARKER (blk_align b)\<rparr>)
          else
            (case m61_malloc sz fname line s of (new_alloc, s') \<Rightarrow>
               if new_alloc \<noteq> 0 then
                 (case m61_free ptr (s'\<lparr>mem := memcpy (mem s') (ptoi s' new_alloc)
                                               (ptoi s' ptr) (blk_sz b)\<rparr>) of
                    Inl e \<Rightarrow> Inl e
                  | Inr s'' \<Rightarrow> Inr (new_alloc, s''))
               else Inr (new_alloc, s')))"

section \<open>Statistics, leak report, container allocator\<close>

definition m61_get_statistics :: "m61_state \<Rightarrow> m61_statistics" where
  "m61_get_statistics s = global_stats s"

definition m61_print_statistics :: "m61_state \<Rightarrow> (u64 \<times> u64 \<times> u64) \<times> (u64 \<times> u64 \<times> u64)" where
  "m61_print_statistics s =
     (let stats = m61_get_statistics s
      in ((nactive stats, ntotal stats, nfail stats),
          (active_size stats, total_size stats, fail_size stats)))"

text \<open>One line of the report: file, line, address and size of an active allocation.\<close>

definition m61_print_leak_report :: "m61_state \<Rightarrow> (string \<times> u64 \<times> u64 \<times> nat) list" where
  "m61_print_leak_report s =
     map (\<lambda>(k, b). (curr_file s, blk_line b, itop s k, blk_sz b)) (allocated_blocks s)"

definition allocator_allocate :: "u64 \<Rightarrow> u64 \<Rightarrow> m61_state \<Rightarrow> u64 \<times> m61_state" where
  "allocator_allocate sizeof_T n s = m61_malloc (n * sizeof_T) ''?'' 0 s"

definition allocator_deallocate :: "u64 \<Rightarrow> m61_state \<Rightarrow> m61_error + m61_state" where
  "allocator_deallocate ptr s = m61_free ptr s"

section \<open>Block maps\<close>

text \<open>
  The abstract view: a partial function from the start of a block, allocated or free, to
  its length. \<open>blocks_ok\<close> says that blocks start at aligned positions, lie in the buffer
  and do not overlap, a length being rounded up to the alignment; \<open>tiled\<close> that every
  byte of the buffer belongs to a block.
\<close>

abbreviation extent :: "nat \<Rightarrow> nat" where
  "extent \<equiv> round_up_to ALIGNMENT"

definition blocks_ok :: "(nat \<rightharpoonup> nat) \<Rightarrow> bool" where
  "blocks_ok f \<longleftrightarrow>
     (\<forall>k l. f k = Some l \<longrightarrow> ALIGNMENT dvd k \<and> 0 < l \<and> k + extent l \<le> HEAP_SIZE) \<and>
     (\<forall>k l k' l'. f k = Some l \<longrightarrow> f k' = Some l' \<longrightarrow> k < k' \<longrightarrow> k + extent l \<le> k')"

definition tiled :: "(nat \<rightharpoonup> nat) \<Rightarrow> bool" where
  "tiled f \<longleftrightarrow> (\<forall>x < HEAP_SIZE. \<exists>k l. f k = Some l \<and> k \<le> x \<and> x < k + l)"

lemma ALIGNMENT_pos [simp]: "0 < ALIGNMENT"
  by (simp add: ALIGNMENT_def)

lemma ALIGNMENT_dvd_HEAP [simp]: "ALIGNMENT dvd HEAP_SIZE"
  by (simp add: ALIGNMENT_def HEAP_SIZE_def)

lemmas extent_ge = round_up_to_ge [OF ALIGNMENT_pos]
lemmas extent_pos = round_up_to_pos [OF ALIGNMENT_pos]
lemmas extent_id = round_up_to_id [OF ALIGNMENT_pos]

lemma extent_mult: "ALIGNMENT dvd m \<Longrightarrow> extent (m + n) = m + extent n"
proof -
  assume "ALIGNMENT dvd m"
  then obtain q where m: "m = ALIGNMENT * q" ..
  have "(ALIGNMENT * q + n + ALIGNMENT - 1) div ALIGNMENT = q + (n + ALIGNMENT - 1) div ALIGNMENT"
    by (simp add: ALIGNMENT_def)
  then show ?thesis by (simp add: round_up_to_def m algebra_simps)
qed

lemma blocks_okD:
  assumes "blocks_ok f" and "f k = Some l"
  shows "ALIGNMENT dvd k" and "0 < l" and "k + extent l \<le> HEAP_SIZE"
  using assms by (auto simp: blocks_ok_def)

lemma blocks_ok_disjoint:
  "blocks_ok f \<Longrightarrow> f k = Some l \<Longrightarrow> f k' = Some l' \<Longrightarrow> k < k' \<Longrightarrow> k + extent l \<le> k'"
  by (simp add: blocks_ok_def)

lemma blocks_okI:
  assumes "\<And>k l. f k = Some l \<Longrightarrow> ALIGNMENT dvd k \<and> 0 < l \<and> k + extent l \<le> HEAP_SIZE"
    and "\<And>k l k' l'. f k = Some l \<Longrightarrow> f k' = Some l' \<Longrightarrow> k < k' \<Longrightarrow> k + extent l \<le> k'"
  shows "blocks_ok f"
  using assms by (simp add: blocks_ok_def)

text \<open>No block starts strictly inside another one.\<close>

lemma blocks_ok_gap:
  assumes "blocks_ok f" and "f k = Some l" and "k < x" and "x < k + extent l"
  shows "f x = None"
  using blocks_ok_disjoint [OF assms(1,2) _ assms(3)] assms(4) by (cases "f x") auto

text \<open>Resizing a block within its extent, splitting it, and merging two neighbours.\<close>

lemma blocks_ok_resize:
  assumes ok: "blocks_ok f" and k: "f k = Some l" and "0 < l'" and le: "extent l' \<le> extent l"
  shows "blocks_ok (f(k \<mapsto> l'))"
proof (rule blocks_okI)
  fix j m assume "(f(k \<mapsto> l')) j = Some m"
  then show "ALIGNMENT dvd j \<and> 0 < m \<and> j + extent m \<le> HEAP_SIZE"
    using blocks_okD [OF ok k] blocks_okD [OF ok, of j m] assms(3) le by (auto split: if_splits)
next
  fix j m j' m'
  assume *: "(f(k \<mapsto> l')) j = Some m" "(f(k \<mapsto> l')) j' = Some m'" "j < j'"
  then show "j + extent m \<le> j'"
    using blocks_ok_disjoint [OF ok, of j m j' m'] blocks_ok_disjoint [OF ok k, of j' m']
      blocks_ok_disjoint [OF ok _ k, of j m] le
    by (auto split: if_splits)
qed

lemma blocks_ok_split:
  assumes ok: "blocks_ok f" and k: "f k = Some l" and "0 < t" and dvd: "ALIGNMENT dvd t" and "t < l"
  shows "blocks_ok (f(k \<mapsto> t, k + t \<mapsto> l - t))"
proof (rule blocks_okI)
  have e: "t + extent (l - t) = extent l" and t: "extent t = t"
    using extent_mult [OF dvd, of "l - t"] extent_id [OF dvd] \<open>t < l\<close> by simp_all
  fix j m assume j: "(f(k \<mapsto> t, k + t \<mapsto> l - t)) j = Some m"
  show "ALIGNMENT dvd j \<and> 0 < m \<and> j + extent m \<le> HEAP_SIZE"
    using j blocks_okD [OF ok k] blocks_okD [OF ok, of j m] assms(3,5) dvd e t
    by (auto split: if_splits)
  fix j' m' assume j': "(f(k \<mapsto> t, k + t \<mapsto> l - t)) j' = Some m'" "j < j'"
  have gap: "f x = None" if "k < x" "x < k + t + extent (l - t)" for x
    using blocks_ok_gap [OF ok k] that e by simp
  show "j + extent m \<le> j'"
    using j j' e t gap [of j] gap [of j'] blocks_ok_disjoint [OF ok, of j m j' m']
      blocks_ok_disjoint [OF ok k, of j' m'] blocks_ok_disjoint [OF ok _ k, of j m] assms(3)
    by (cases "j < k") (auto split: if_splits)
qed

lemma blocks_ok_merge:
  assumes ok: "blocks_ok f" and k: "f k = Some l" and k': "f (k + l) = Some l'"
  shows "blocks_ok ((f(k + l := None))(k \<mapsto> l + l'))"
proof (rule blocks_okI)
  have dvd: "ALIGNMENT dvd l"
    using blocks_okD(1) [OF ok k] blocks_okD(1) [OF ok k'] by (simp add: dvd_add_right_iff)
  note e = extent_mult [OF dvd, of l'] and l = extent_id [OF dvd]
  fix j m assume j: "((f(k + l := None))(k \<mapsto> l + l')) j = Some m"
  show "ALIGNMENT dvd j \<and> 0 < m \<and> j + extent m \<le> HEAP_SIZE"
    using j blocks_okD [OF ok k] blocks_okD [OF ok k'] blocks_okD [OF ok, of j m] e
    by (auto split: if_splits)
  fix j' m' assume j': "((f(k + l := None))(k \<mapsto> l + l')) j' = Some m'" "j < j'"
  show "j + extent m \<le> j'"
    using j j' e l blocks_ok_disjoint [OF ok, of j m j' m'] blocks_ok_disjoint [OF ok k, of j' m']
      blocks_ok_disjoint [OF ok k', of j' m'] blocks_ok_disjoint [OF ok _ k, of j m]
      blocks_ok_gap [OF ok k, of j'] blocks_okD(2) [OF ok k]
    by (auto split: if_splits)
qed

text \<open>The same three changes keep the buffer tiled when they keep the total length.\<close>

lemma tiled_split:
  assumes "tiled f" and "f k = Some l" and "t < l" and "0 < t" and "f (k + t) = None"
  shows "tiled (f(k \<mapsto> t, k + t \<mapsto> l - t))"
  unfolding tiled_def
proof (intro allI impI)
  fix x assume "x < HEAP_SIZE"
  with assms(1) obtain j m where jm: "f j = Some m" "j \<le> x" "x < j + m"
    unfolding tiled_def by blast
  show "\<exists>j m. (f(k \<mapsto> t, k + t \<mapsto> l - t)) j = Some m \<and> j \<le> x \<and> x < j + m"
  proof (cases "j = k")
    case True
    with assms(2) jm have "m = l" by simp
    with True jm show ?thesis
      using assms(3,4)
      by (intro exI [of _ "if x < k + t then k else k + t"] exI [of _ "if x < k + t then t else l - t"])
        auto
  next
    case False
    with jm assms(2,5) show ?thesis by (intro exI [of _ j] exI [of _ m]) auto
  qed
qed

lemma tiled_merge:
  assumes "tiled f" and "f k = Some l" and "f (k + l) = Some l'" and "0 < l"
  shows "tiled ((f(k + l := None))(k \<mapsto> l + l'))"
  unfolding tiled_def
proof (intro allI impI)
  fix x assume "x < HEAP_SIZE"
  with assms(1) obtain j m where jm: "f j = Some m" "j \<le> x" "x < j + m"
    unfolding tiled_def by blast
  show "\<exists>j m. ((f(k + l := None))(k \<mapsto> l + l')) j = Some m \<and> j \<le> x \<and> x < j + m"
  proof (cases "j = k \<or> j = k + l")
    case True
    with assms(2,3) jm show ?thesis by (intro exI [of _ k] exI [of _ "l + l'"]) auto
  next
    case False
    with jm show ?thesis by (intro exI [of _ j] exI [of _ m]) auto
  qed
qed

text \<open>In a tiled map lengths are multiples of the alignment, and a block is followed by
  another block or the end of the buffer.\<close>

lemma tiled_dvd:
  assumes ok: "blocks_ok f" and "tiled f" and k: "f k = Some l"
  shows "ALIGNMENT dvd l"
proof (cases "k + l < HEAP_SIZE")
  case False
  then have "k + l = HEAP_SIZE"
    using blocks_okD(3) [OF ok k] extent_ge [of l] by linarith
  then show ?thesis
    using blocks_okD(1) [OF ok k] ALIGNMENT_dvd_HEAP by (metis dvd_add_right_iff)
next
  case True
  with assms(2) obtain j m where jm: "f j = Some m" "j \<le> k + l" "k + l < j + m"
    unfolding tiled_def by blast
  have "k \<le> j"
    using blocks_ok_disjoint [OF ok jm(1) k] extent_ge [of m] jm(3) by linarith
  moreover have "k \<noteq> j" using jm k by auto
  ultimately have "k + extent l \<le> j"
    using blocks_ok_disjoint [OF ok k jm(1)] by simp
  then have "extent l = l" using jm(2) extent_ge [of l] by linarith
  then show ?thesis by (metis round_up_to_dvd)
qed

section \<open>The heap invariant\<close>

definition span :: "m61_state \<Rightarrow> nat \<rightharpoonup> nat" where
  "span s k = (case map_of (allocated_blocks s) k of
      Some b \<Rightarrow> Some (blk_sz b + blk_align b)
    | None \<Rightarrow> map_of (free_blocks s) k)"

definition base_ok :: "u64 \<Rightarrow> bool" where
  "base_ok b \<longleftrightarrow> b \<noteq> 0 \<and> ALIGNMENT dvd unat b \<and> unat b + HEAP_SIZE < 2 ^ 64"

definition heap_ok :: "m61_state \<Rightarrow> bool" where
  "heap_ok s \<longleftrightarrow>
     om_ok (allocated_blocks s) \<and> om_ok (free_blocks s) \<and>
     dom (map_of (allocated_blocks s)) \<inter> dom (map_of (free_blocks s)) = {} \<and>
     blocks_ok (span s) \<and> base_ok (buffer s) \<and>
     (\<forall>p \<in> freed s. map_of (allocated_blocks s) (ptoi s p) = None)"

lemma heap_okD:
  assumes "heap_ok s"
  shows "om_ok (allocated_blocks s)" and "om_ok (free_blocks s)" and "blocks_ok (span s)"
    and "base_ok (buffer s)"
    and "map_of (allocated_blocks s) k = Some b \<Longrightarrow> map_of (free_blocks s) k = None"
    and "map_of (free_blocks s) k = Some l \<Longrightarrow> map_of (allocated_blocks s) k = None"
    and "p \<in> freed s \<Longrightarrow> map_of (allocated_blocks s) (ptoi s p) = None"
  using assms by (auto simp: heap_ok_def)

lemma span_allocated: "map_of (allocated_blocks s) k = Some b \<Longrightarrow> span s k = Some (blk_sz b + blk_align b)"
  by (simp add: span_def)

lemma span_free: "heap_ok s \<Longrightarrow> map_of (free_blocks s) k = Some l \<Longrightarrow> span s k = Some l"
  by (simp add: span_def heap_okD(6))

lemma span_cong:
  "allocated_blocks s' = allocated_blocks s \<Longrightarrow> free_blocks s' = free_blocks s \<Longrightarrow> span s' = span s"
  by (rule ext) (simp add: span_def split: option.split)

lemma heap_ok_cong:
  "allocated_blocks s' = allocated_blocks s \<Longrightarrow> free_blocks s' = free_blocks s \<Longrightarrow>
   buffer s' = buffer s \<Longrightarrow> freed s' = freed s \<Longrightarrow> heap_ok s' \<longleftrightarrow> heap_ok s"
  by (simp add: heap_ok_def ptoi_def itop_def span_cong [of s' s])

subsection \<open>Addresses\<close>

lemma HEAP_SIZE_less: "HEAP_SIZE < 2 ^ 64"
  by (simp add: HEAP_SIZE_def)

lemma ptoi_eq [simp]: "ptoi s p = unat (p - buffer s)"
  by (simp add: ptoi_def itop_def)

lemma ptoi_itop: "x \<le> HEAP_SIZE \<Longrightarrow> unat (itop s x - buffer s) = x"
  using HEAP_SIZE_less by (simp add: itop_def unat_of_nat)

lemma itop_ptoi: "itop s (unat (p - buffer s)) = p"
  by (simp add: itop_def)

lemma ptoi_inj: "unat (p - buffer s) = unat (q - buffer s) \<longleftrightarrow> p = q"
  by (simp flip: word_unat_eq_iff)

lemma unat_itop: "base_ok (buffer s) \<Longrightarrow> x \<le> HEAP_SIZE \<Longrightarrow> unat (itop s x) = unat (buffer s) + x"
  by (simp add: itop_def base_ok_def unat_word_ariths unat_of_nat HEAP_SIZE_def)

lemma itop_nonnull:
  assumes "base_ok (buffer s)" and "x \<le> HEAP_SIZE"
  shows "itop s x \<noteq> 0"
proof -
  have "unat (buffer s) \<noteq> 0" using assms(1) by (simp add: base_ok_def unat_eq_0)
  then have "unat (itop s x) \<noteq> 0" using unat_itop [OF assms] by simp
  then show ?thesis by auto
qed

lemma itop_inj: "x \<le> HEAP_SIZE \<Longrightarrow> y \<le> HEAP_SIZE \<Longrightarrow> itop s x = itop s y \<longleftrightarrow> x = y"
  by (metis ptoi_itop)

lemma block_start_bound:
  assumes "heap_ok s" and "map_of (allocated_blocks s) k = Some b"
  shows "k \<le> HEAP_SIZE" and "k + blk_sz b + blk_align b \<le> HEAP_SIZE"
  using blocks_okD(3) [OF heap_okD(3) [OF assms(1)] span_allocated [OF assms(2)]]
    extent_ge [of "blk_sz b + blk_align b"] by simp_all

section \<open>Correctness of m61\_malloc\<close>

definition need :: "nat \<Rightarrow> nat" where
  "need n = n + (if n mod ALIGNMENT = 0 then ALIGNMENT else 0)"

definition total :: "nat \<Rightarrow> nat" where
  "total n = ALIGNMENT * (n div ALIGNMENT + 1)"

lemma align_split:
  obtains d r where "n = ALIGNMENT * d + r" and "r < ALIGNMENT"
    and "n div ALIGNMENT = d" and "n mod ALIGNMENT = r"
  by (rule that [of "n div ALIGNMENT" "n mod ALIGNMENT"]) auto

lemma total_padding: "ALIGNMENT dvd pos \<Longrightarrow> n + padding pos n = total n"
proof -
  assume "ALIGNMENT dvd pos"
  then have r: "(pos + n) mod ALIGNMENT = n mod ALIGNMENT"
    by (metis mod_add_left_eq add_0 dvd_imp_mod_0)
  show ?thesis
  proof (rule align_split [of n])
    fix d t assume n: "n = ALIGNMENT * d + t" "t < ALIGNMENT"
      and dt: "n div ALIGNMENT = d" "n mod ALIGNMENT = t"
    have "padding pos n = (ALIGNMENT - t) mod ALIGNMENT + (if t = 0 then ALIGNMENT else 0)"
      by (simp only: padding_def r dt)
    then show ?thesis unfolding total_def dt using n by (cases "t = 0") auto
  qed
qed

lemma total_bounds: "n < total n" "ALIGNMENT dvd total n" "0 < total n"
  by (rule align_split [of n], simp add: total_def)+

lemma extent_need: "extent (need n) = total n"
proof (rule align_split [of n])
  fix d r assume n: "n = ALIGNMENT * d + r" "r < ALIGNMENT"
    and dr: "n div ALIGNMENT = d" "n mod ALIGNMENT = r"
  show ?thesis
  proof (cases "r = 0")
    case True
    then show ?thesis
      using extent_id [OF total_bounds(2), of n] n dr by (simp add: need_def total_def add.commute)
  next
    case False
    then have "(r + ALIGNMENT - 1) div ALIGNMENT = 1"
      using n(2) by (intro div_nat_eqI) auto
    then have "extent r = ALIGNMENT" by (simp add: round_up_to_def)
    with False show ?thesis
      using extent_mult [of "ALIGNMENT * d" r] dr(1,2) unfolding need_def total_def
      by (simp add: n(1))
  qed
qed

lemma find_block_Some:
  assumes "find_block n fb = Some (p, l)"
  shows "(p, l) \<in> set fb" and "n < HEAP_SIZE" and "need n \<le> l"
  using assms by (induction n fb rule: find_block.induct) (auto simp: need_def split: if_splits)

lemma find_block_None:
  "find_block n fb = None \<longleftrightarrow> fb = [] \<or> HEAP_SIZE \<le> n \<or> (\<forall>(p, l) \<in> set fb. l < need n)"
  by (induction n fb rule: find_block.induct) (auto simp: need_def)

text \<open>A successful call in terms of the total length \<open>total (unat sz)\<close> of the new block.\<close>

definition after_malloc :: "u64 \<Rightarrow> string \<Rightarrow> int \<Rightarrow> nat \<Rightarrow> nat \<Rightarrow> m61_state \<Rightarrow> m61_state" where
  "after_malloc sz fname line p l s =
     (let n = unat sz; t = total n; fb = om_erase p (free_blocks s) in
      s\<lparr>curr_file := fname,
        mem := memset (mem s) (p + n) MARKER (t - n),
        free_blocks := (if t < l then om_insert (p + t) (l - t) fb else fb),
        allocated_blocks := om_insert p (make_metadata n (t - n) (word_of_int line)) (allocated_blocks s),
        freed := freed s - {itop s p},
        global_stats := stats_alloc (itop s p) sz (global_stats s)\<rparr>)"

lemma find_block_facts:
  assumes ok: "heap_ok s" and fb: "find_block n (free_blocks s) = Some (p, l)"
  shows "map_of (free_blocks s) p = Some l" and "span s p = Some l"
    and "map_of (allocated_blocks s) p = None" and "ALIGNMENT dvd p" and "n < HEAP_SIZE"
    and "p + extent l \<le> HEAP_SIZE" and "total n \<le> extent l"
proof -
  show *: "map_of (free_blocks s) p = Some l"
    using find_block_Some(1) [OF fb] heap_okD(2) [OF ok] by (simp add: om_set_iff)
  then show sp: "span s p = Some l" and "map_of (allocated_blocks s) p = None"
    using ok by (simp_all add: span_free heap_okD(6))
  show "ALIGNMENT dvd p" and "p + extent l \<le> HEAP_SIZE"
    using blocks_okD [OF heap_okD(3) [OF ok] sp] by auto
  show "n < HEAP_SIZE" by (rule find_block_Some(2) [OF fb])
  show "total n \<le> extent l"
    using round_up_to_mono [OF find_block_Some(3) [OF fb], of ALIGNMENT] by (simp add: extent_need)
qed

lemma m61_malloc_Some:
  assumes "heap_ok s" and "find_block (unat sz) (free_blocks s) = Some (p, l)"
  shows "m61_malloc sz fname line s = (itop s p, after_malloc sz fname line p l s)"
proof -
  define n where "n = unat sz"
  have t: "n + padding p n = total n"
    using total_padding [OF find_block_facts(4) [OF assms]] by simp
  then have pad: "padding p n = total n - n" by simp
  have new: "p + n + (total n - n) = p + total n" "n + (total n - n) = total n"
    using t pad by simp_all
  show ?thesis
    using assms(2) unfolding m61_malloc_def after_malloc_def
    by (simp add: Let_def new pad itop_def flip: n_def)
qed

lemma m61_malloc_None:
  "find_block (unat sz) (free_blocks s) = None \<Longrightarrow> m61_malloc sz fname line s =
     (0, s\<lparr>curr_file := fname, global_stats := stats_fail sz (global_stats s)\<rparr>)"
  by (simp add: m61_malloc_def Let_def)

lemma span_after_malloc:
  assumes ok: "heap_ok s" and fb: "find_block (unat sz) (free_blocks s) = Some (p, l)"
  defines "t \<equiv> total (unat sz)"
  shows "span (after_malloc sz fname line p l s) =
    (if t < l then (span s)(p \<mapsto> t, p + t \<mapsto> l - t) else (span s)(p \<mapsto> t))"
proof -
  note f = find_block_facts [OF assms(1,2)]
  have gap: "span s (p + t) = None" if "t < l"
    using that f(7) extent_ge [of l] total_bounds(3) [of "unat sz"]
    by (intro blocks_ok_gap [OF heap_okD(3) [OF ok] f(2)]) (simp_all add: t_def)
  then have "map_of (free_blocks s) (p + t) = None \<and> map_of (allocated_blocks s) (p + t) = None"
    if "t < l"
    using that by (auto simp: span_def split: option.splits)
  moreover have "unat sz + (t - unat sz) = t"
    using total_bounds(1) [of "unat sz"] by (simp add: t_def)
  ultimately show ?thesis
    using f(3) heap_okD(1,2) [OF ok] total_bounds(3) [of "unat sz"]
    by (intro ext) (auto simp: span_def after_malloc_def Let_def om_simps make_metadata_def
        simp flip: t_def split: option.splits)
qed

lemma heap_ok_after_malloc:
  assumes ok: "heap_ok s" and fb: "find_block (unat sz) (free_blocks s) = Some (p, l)"
  shows "heap_ok (after_malloc sz fname line p l s)"
proof -
  note f = find_block_facts [OF assms]
  define t where "t = total (unat sz)"
  let ?s = "after_malloc sz fname line p l s"
  have t: "0 < t" "ALIGNMENT dvd t" "extent t \<le> extent l"
    using total_bounds [of "unat sz"] f(7) extent_id [OF total_bounds(2)] by (simp_all add: t_def)
  have "blocks_ok (span ?s)"
    unfolding span_after_malloc [OF assms] t_def [symmetric]
    using blocks_ok_split [OF heap_okD(3) [OF ok] f(2) t(1,2)]
      blocks_ok_resize [OF heap_okD(3) [OF ok] f(2) t(1,3)] by simp
  moreover have "map_of (allocated_blocks s) (p + t) = None" if "t < l"
    using blocks_ok_gap [OF heap_okD(3) [OF ok] f(2), of "p + t"] that t(1) extent_ge [of l]
    by (auto simp: span_def split: option.splits)
  moreover have "p \<le> HEAP_SIZE" using f(6) by simp
  ultimately show ?thesis
    using ok f(1,3) t(1) ptoi_itop [of p s] unfolding heap_ok_def
    by (auto simp: after_malloc_def Let_def om_simps t_def itop_ptoi split: if_splits)
qed

lemma m61_malloc_heap_ok:
  assumes "heap_ok s"
  shows "heap_ok (snd (m61_malloc sz fname line s))"
proof (cases "find_block (unat sz) (free_blocks s)")
  case None
  then show ?thesis
    using assms heap_ok_cong [of "snd (m61_malloc sz fname line s)" s] by (simp add: m61_malloc_None)
next
  case (Some a)
  then show ?thesis
    using assms by (cases a) (simp add: m61_malloc_Some heap_ok_after_malloc)
qed

section \<open>Coalescing\<close>

lemma next_key:
  assumes "om_ok m" and "filter (\<lambda>(k, _). p < k) m = (rk, rv) # rest"
  shows "map_of m rk = Some rv" and "p < rk" and "map_of m k = Some v \<Longrightarrow> p < k \<Longrightarrow> rk \<le> k"
proof -
  have mem: "(rk, rv) \<in> set (filter (\<lambda>(k, _). p < k) m)" using assms(2) by simp
  then show "map_of m rk = Some rv" "p < rk" using assms(1) by (auto simp: om_set_iff)
  have "sorted_wrt (\<lambda>x y. fst x < fst y) (filter (\<lambda>(k, _). p < k) m)"
    using assms(1) by (simp add: om_ok_def sorted_wrt_map sorted_wrt_filter)
  then have "\<forall>x \<in> set rest. rk < fst x" by (simp add: assms(2))
  moreover have "(k, v) \<in> set ((rk, rv) # rest)" if "map_of m k = Some v" "p < k"
    using that assms(1) by (simp flip: assms(2) add: om_set_iff)
  ultimately show "map_of m k = Some v \<Longrightarrow> p < k \<Longrightarrow> rk \<le> k" by fastforce
qed

lemma prev_key:
  assumes "om_ok m" and "filter (\<lambda>(k, _). k < p) m = x # xs" and "last (x # xs) = (lk, lv)"
  shows "map_of m lk = Some lv" and "lk < p" and "map_of m k = Some v \<Longrightarrow> k < p \<Longrightarrow> k \<le> lk"
proof -
  let ?f = "filter (\<lambda>(k, _). k < p) m"
  have split: "?f = butlast ?f @ [(lk, lv)]"
    using assms(2,3) by (metis append_butlast_last_id list.distinct(1))
  then have "(lk, lv) \<in> set ?f" by (metis in_set_conv_decomp)
  then show "map_of m lk = Some lv" "lk < p" using assms(1) by (auto simp: om_set_iff)
  have "sorted_wrt (\<lambda>x y. fst x < fst y) (butlast ?f @ [(lk, lv)])"
    unfolding split [symmetric] using assms(1) by (simp add: om_ok_def sorted_wrt_map sorted_wrt_filter)
  then have "\<forall>x \<in> set (butlast ?f). fst x < lk" by (simp add: sorted_wrt_append)
  moreover have "(k, v) \<in> set (butlast ?f @ [(lk, lv)])" if "map_of m k = Some v" "k < p"
    unfolding split [symmetric] using that assms(1) by (simp add: om_set_iff)
  ultimately show "map_of m k = Some v \<Longrightarrow> k < p \<Longrightarrow> k \<le> lk" by fastforce
qed

lemma om_filter_empty:
  "om_ok m \<Longrightarrow> filter P m = [] \<Longrightarrow> map_of m k = Some v \<Longrightarrow> \<not> P (k, v)"
  by (auto simp: filter_empty_conv om_set_iff)

lemma coalesce_right_merge:
  assumes "om_ok fb" and p: "map_of fb p = Some len" and r: "map_of fb (p + len) = Some rlen"
    and "0 < len" and gap: "\<And>k l. map_of fb k = Some l \<Longrightarrow> p < k \<Longrightarrow> p + len \<le> k"
  shows "coalesce_right p fb = om_put p (len + rlen) (om_erase (p + len) fb)"
proof (cases "filter (\<lambda>(k, _). p < k) fb")
  case Nil
  then show ?thesis using om_filter_empty [OF assms(1) Nil r] \<open>0 < len\<close> by simp
next
  case (Cons a rest)
  obtain rk rv where a: "a = (rk, rv)" by (cases a)
  note nk = next_key [OF assms(1) Cons [unfolded a]]
  have "rk = p + len"
    using nk(3) [OF r] gap [OF nk(1,2)] \<open>0 < len\<close> by simp
  then show ?thesis using nk(1) r p by (simp add: coalesce_right_def Cons a)
qed

lemma coalesce_right_none:
  assumes "om_ok fb" and p: "map_of fb p = Some len" and r: "map_of fb (p + len) = None"
  shows "coalesce_right p fb = fb"
proof (cases "filter (\<lambda>(k, _). p < k) fb")
  case Nil
  then show ?thesis by (simp add: coalesce_right_def p)
next
  case (Cons a rest)
  obtain rk rv where a: "a = (rk, rv)" by (cases a)
  note nk = next_key [OF assms(1) Cons [unfolded a]]
  have "len \<noteq> rk - p" using nk(1,2) r by auto
  then show ?thesis by (simp add: coalesce_right_def Cons a p)
qed

lemma coalesce_left_merge:
  assumes "om_ok fb" and p: "map_of fb p = Some len" and l: "map_of fb lk = Some llen"
    and "lk + llen = p" and "0 < llen"
    and gap: "\<And>k l. map_of fb k = Some l \<Longrightarrow> lk < k \<Longrightarrow> lk + llen \<le> k"
  shows "coalesce_left p fb = om_put lk (llen + len) (om_erase p fb)"
proof (cases "filter (\<lambda>(k, _). k < p) fb")
  case Nil
  then show ?thesis using om_filter_empty [OF assms(1) Nil l] assms(4,5) by simp
next
  case (Cons x xs)
  obtain k v where kv: "last (x # xs) = (k, v)" by (cases "last (x # xs)")
  note pk = prev_key [OF assms(1) Cons kv]
  have "k = lk"
    using pk(3) [OF l] gap [OF pk(1)] pk(2) assms(4,5) by (cases "lk < k") auto
  then show ?thesis using pk(1) l p assms(4) kv by (auto simp: coalesce_left_def Cons)
qed

lemma coalesce_left_none:
  assumes "om_ok fb" and p: "map_of fb p = Some len"
    and none: "\<And>k l. map_of fb k = Some l \<Longrightarrow> k < p \<Longrightarrow> k + l \<noteq> p"
  shows "coalesce_left p fb = fb"
proof (cases "filter (\<lambda>(k, _). k < p) fb")
  case Nil
  then show ?thesis by (simp add: coalesce_left_def p)
next
  case (Cons x xs)
  obtain k v where kv: "last (x # xs) = (k, v)" by (cases "last (x # xs)")
  note pk = prev_key [OF assms(1) Cons kv]
  have "v \<noteq> p - k" using none [OF pk(1,2)] pk(2) by auto
  then show ?thesis using p kv by (simp add: coalesce_left_def Cons)
qed

text \<open>What the two steps do to the block map, for a fixed map \<open>A\<close> of allocations.\<close>

definition spans :: "(nat \<rightharpoonup> metadata) \<Rightarrow> (nat \<times> nat) list \<Rightarrow> nat \<rightharpoonup> nat" where
  "spans A fb k = (case A k of Some b \<Rightarrow> Some (blk_sz b + blk_align b) | None \<Rightarrow> map_of fb k)"

definition free_ok :: "(nat \<rightharpoonup> metadata) \<Rightarrow> (nat \<times> nat) list \<Rightarrow> bool" where
  "free_ok A fb \<longleftrightarrow> om_ok fb \<and> dom A \<inter> dom (map_of fb) = {} \<and> blocks_ok (spans A fb)"

lemma span_spans: "span s = spans (map_of (allocated_blocks s)) (free_blocks s)"
  by (rule ext) (simp add: span_def spans_def)

lemma heap_ok_free_ok: "heap_ok s \<Longrightarrow> free_ok (map_of (allocated_blocks s)) (free_blocks s)"
  by (simp add: heap_ok_def free_ok_def span_spans)

lemma free_okD:
  assumes "free_ok A fb" and "map_of fb k = Some l"
  shows "A k = None" and "spans A fb k = Some l" and "0 < l"
    and "map_of fb k' = Some l' \<Longrightarrow> k < k' \<Longrightarrow> k + l \<le> k'"
proof -
  from assms show "A k = None" by (auto simp: free_ok_def)
  with assms(2) show k: "spans A fb k = Some l" by (simp add: spans_def)
  have ok: "blocks_ok (spans A fb)" using assms(1) by (simp add: free_ok_def)
  show "0 < l" using blocks_okD(2) [of _ k l] ok k by blast
  show "k + l \<le> k'" if k': "map_of fb k' = Some l'" and "k < k'"
  proof -
    have "A k' = None" using assms(1) k' by (auto simp: free_ok_def)
    with k' have "spans A fb k' = Some l'" by (simp add: spans_def)
    from blocks_ok_disjoint [OF ok k this \<open>k < k'\<close>] show ?thesis using extent_ge [of l] by simp
  qed
qed

text \<open>Merging the free block at \<open>k\<close> with its right neighbour.\<close>

lemma free_ok_merge:
  assumes ok: "free_ok A fb" and k: "map_of fb k = Some l" and k': "map_of fb (k + l) = Some l'"
  defines "fb' \<equiv> om_put k (l + l') (om_erase (k + l) fb)"
  shows "free_ok A fb'" and "map_of fb' = (map_of fb)(k + l := None, k \<mapsto> l + l')"
    and "tiled (spans A fb) \<Longrightarrow> tiled (spans A fb')"
proof -
  have om: "om_ok fb" using ok by (simp add: free_ok_def)
  show m: "map_of fb' = (map_of fb)(k + l := None, k \<mapsto> l + l')"
    using om by (simp add: fb'_def om_simps)
  note d = free_okD [OF ok k] free_okD [OF ok k']
  have sp: "spans A fb' = (spans A fb)(k + l := None, k \<mapsto> l + l')"
    using d(1,5) by (intro ext) (simp add: spans_def m split: option.split)
  show "free_ok A fb'"
    using ok d(1) om blocks_ok_merge [OF _ d(2,6)] sp m unfolding free_ok_def
    by (auto simp: fb'_def om_simps split: if_splits)
  show "tiled (spans A fb')" if "tiled (spans A fb)"
    unfolding sp by (rule tiled_merge [OF that d(2,6,3)])
qed

lemma coalesce_right_ok:
  assumes ok: "free_ok A fb" and p: "map_of fb p = Some len"
  shows "free_ok A (coalesce_right p fb)"
    and "tiled (spans A fb) \<Longrightarrow> tiled (spans A (coalesce_right p fb))"
    and "\<exists>len'. map_of (coalesce_right p fb) p = Some len'"
proof -
  have om: "om_ok fb" using ok by (simp add: free_ok_def)
  note d = free_okD [OF ok p]
  have "free_ok A (coalesce_right p fb) \<and>
      (tiled (spans A fb) \<longrightarrow> tiled (spans A (coalesce_right p fb))) \<and>
      (\<exists>len'. map_of (coalesce_right p fb) p = Some len')"
  proof (cases "map_of fb (p + len)")
    case None
    then show ?thesis using ok p by (simp add: coalesce_right_none [OF om p None])
  next
    case (Some rlen)
    show ?thesis
      using free_ok_merge [OF ok p Some] coalesce_right_merge [OF om p Some d(3,4)] by simp
  qed
  then show "free_ok A (coalesce_right p fb)"
    and "tiled (spans A fb) \<Longrightarrow> tiled (spans A (coalesce_right p fb))"
    and "\<exists>len'. map_of (coalesce_right p fb) p = Some len'" by simp_all
qed

lemma coalesce_left_ok:
  assumes ok: "free_ok A fb" and p: "map_of fb p = Some len"
  shows "free_ok A (coalesce_left p fb)"
    and "tiled (spans A fb) \<Longrightarrow> tiled (spans A (coalesce_left p fb))"
proof -
  have om: "om_ok fb" using ok by (simp add: free_ok_def)
  have "free_ok A (coalesce_left p fb) \<and>
      (tiled (spans A fb) \<longrightarrow> tiled (spans A (coalesce_left p fb)))"
  proof (cases "\<exists>lk llen. map_of fb lk = Some llen \<and> lk + llen = p")
    case False
    then show ?thesis using ok by (simp add: coalesce_left_none [OF om p])
  next
    case True
    then obtain lk llen where l: "map_of fb lk = Some llen" "p = lk + llen" by auto
    note d = free_okD [OF ok l(1)]
    show ?thesis
      using free_ok_merge [OF ok l(1) p [unfolded l(2)]]
        coalesce_left_merge [OF om p l(1) l(2) [symmetric] d(3,4)] by (simp add: l(2))
  qed
  then show "free_ok A (coalesce_left p fb)"
    and "tiled (spans A fb) \<Longrightarrow> tiled (spans A (coalesce_left p fb))" by simp_all
qed

section \<open>Correctness of m61\_free\<close>

definition after_free :: "u64 \<Rightarrow> metadata \<Rightarrow> m61_state \<Rightarrow> m61_state" where
  "after_free ptr b s =
     (let p = unat (ptr - buffer s); st = global_stats s in
      s\<lparr>freed := insert ptr (freed s),
        global_stats := st\<lparr>active_size := active_size st - of_nat (blk_sz b), nactive := nactive st - 1\<rparr>,
        allocated_blocks := om_erase p (allocated_blocks s),
        free_blocks := coalesce_left p (coalesce_right p
          (om_insert p (blk_sz b + blk_align b) (free_blocks s)))\<rparr>)"

text \<open>The outcome of \<open>m61_free\<close> on every branch.\<close>

lemma m61_free_cases:
  shows m61_free_null: "m61_free 0 s = Inr s"
    and m61_free_invalid: "ptr \<noteq> 0 \<Longrightarrow> map_of (allocated_blocks s) (unat (ptr - buffer s)) = None \<Longrightarrow>
      m61_free ptr s = Inl (invalid_free ptr s)"
    and m61_free_wild: "ptr \<noteq> 0 \<Longrightarrow> map_of (allocated_blocks s) (unat (ptr - buffer s)) = Some b \<Longrightarrow>
      \<not> markers_intact s (unat (ptr - buffer s)) b \<Longrightarrow> m61_free ptr s = Inl (WildWrite ptr)"
    and m61_free_valid: "ptr \<noteq> 0 \<Longrightarrow> map_of (allocated_blocks s) (unat (ptr - buffer s)) = Some b \<Longrightarrow>
      markers_intact s (unat (ptr - buffer s)) b \<Longrightarrow> m61_free ptr s = Inr (after_free ptr b s)"
  by (simp_all add: m61_free_def after_free_def markers_intact_def Let_def)

lemma m61_free_Inr:
  assumes "m61_free ptr s = Inr s'"
  obtains "ptr = 0" "s' = s"
  | b where "map_of (allocated_blocks s) (unat (ptr - buffer s)) = Some b"
      "markers_intact s (unat (ptr - buffer s)) b" "s' = after_free ptr b s"
proof (cases "ptr = 0")
  case True
  with assms show ?thesis by (intro that(1)) (simp_all add: m61_free_cases)
next
  case False
  show ?thesis
  proof (cases "map_of (allocated_blocks s) (unat (ptr - buffer s))")
    case None
    with False assms show ?thesis by (simp add: m61_free_cases)
  next
    case (Some b)
    with False assms show ?thesis
      by (cases "markers_intact s (unat (ptr - buffer s)) b") (auto simp: m61_free_cases intro: that(2))
  qed
qed

text \<open>Moving a block from the allocated to the free map leaves the block map as it is.\<close>

lemma free_ok_release:
  assumes ok: "heap_ok s" and b: "map_of (allocated_blocks s) p = Some b"
  defines "fb \<equiv> om_insert p (blk_sz b + blk_align b) (free_blocks s)"
  shows "free_ok (map_of (om_erase p (allocated_blocks s))) fb"
    and "map_of fb = (map_of (free_blocks s))(p \<mapsto> blk_sz b + blk_align b)"
    and "spans (map_of (om_erase p (allocated_blocks s))) fb = span s"
proof -
  note f = heap_okD(5) [OF ok b]
  show m: "map_of fb = (map_of (free_blocks s))(p \<mapsto> blk_sz b + blk_align b)"
    using heap_okD(2) [OF ok] f by (simp add: fb_def om_simps)
  show sp: "spans (map_of (om_erase p (allocated_blocks s))) fb = span s"
    using b heap_okD(1) [OF ok] by (intro ext) (simp add: spans_def span_def m om_simps split: option.split)
  show "free_ok (map_of (om_erase p (allocated_blocks s))) fb"
    unfolding free_ok_def sp m
    using ok heap_okD(1,2) [OF ok] by (auto simp: heap_ok_def om_simps fb_def split: if_splits)
qed

lemma after_free_ok:
  assumes ok: "heap_ok s" and b: "map_of (allocated_blocks s) (unat (ptr - buffer s)) = Some b"
  shows "heap_ok (after_free ptr b s)"
    and "tiled (span s) \<Longrightarrow> tiled (span (after_free ptr b s))"
proof -
  define p where "p = unat (ptr - buffer s)"
  define A fb where "A = om_erase p (allocated_blocks s)"
    and "fb = om_insert p (blk_sz b + blk_align b) (free_blocks s)"
  note b' = b [folded p_def]
  note rel = free_ok_release [OF ok b', folded A_def fb_def]
  have p: "map_of fb p = Some (blk_sz b + blk_align b)" using rel(2) by simp
  note right = coalesce_right_ok [OF rel(1) p]
  obtain len where len: "map_of (coalesce_right p fb) p = Some len" using right(3) by auto
  note left = coalesce_left_ok [OF right(1) len]
  have s': "allocated_blocks (after_free ptr b s) = A"
      "free_blocks (after_free ptr b s) = coalesce_left p (coalesce_right p fb)"
      "buffer (after_free ptr b s) = buffer s" "freed (after_free ptr b s) = insert ptr (freed s)"
    by (simp_all add: after_free_def Let_def A_def fb_def p_def)
  show "heap_ok (after_free ptr b s)"
    using left(1) ok by (auto simp: heap_ok_def free_ok_def span_spans s' A_def om_simps p_def)
  show "tiled (span (after_free ptr b s))" if "tiled (span s)"
    using left(2) right(2) that by (simp add: span_spans s' rel(3) [unfolded span_spans])
qed

lemma m61_free_heap_ok: "heap_ok s \<Longrightarrow> m61_free ptr s = Inr s' \<Longrightarrow> heap_ok s'"
  by (erule m61_free_Inr) (auto intro: after_free_ok)

section \<open>All calls keep the heap invariant\<close>

lemma heap_ok_mem [simp]: "heap_ok (s\<lparr>mem := m\<rparr>) = heap_ok s"
  and heap_ok_stats [simp]: "heap_ok (s\<lparr>global_stats := g\<rparr>) = heap_ok s"
  by (rule heap_ok_cong; simp)+

lemma m61_calloc_heap_ok: "heap_ok s \<Longrightarrow> heap_ok (snd (m61_calloc count sz fname line s))"
  using m61_malloc_heap_ok [of s "count * sz" fname line]
  by (auto simp: m61_calloc_def split: prod.split)

lemma m61_realloc_heap_ok:
  assumes ok: "heap_ok s" and r: "m61_realloc ptr sz fname line s = Inr (q, s')"
  shows "heap_ok s'"
proof -
  note mal = m61_malloc_heap_ok [OF ok, of sz fname line]
  consider (null) "ptr = 0" | (zero) "ptr \<noteq> 0" "sz = 0"
    | (bad) "ptr \<noteq> 0" "sz \<noteq> 0" "map_of (allocated_blocks s) (unat (ptr - buffer s)) = None"
    | (blk) b where "ptr \<noteq> 0" "sz \<noteq> 0" "map_of (allocated_blocks s) (unat (ptr - buffer s)) = Some b"
    by (cases "map_of (allocated_blocks s) (unat (ptr - buffer s))") auto
  then show ?thesis
  proof cases
    case null
    then show ?thesis using r mal by (auto simp: m61_realloc_def)
  next
    case zero
    then show ?thesis using r m61_free_heap_ok [OF ok] by (auto simp: m61_realloc_def split: sum.splits)
  next
    case bad
    then show ?thesis using r ok by (auto simp: m61_realloc_def split: if_splits)
  next
    case blk
    define p where "p = unat (ptr - buffer s)"
    note b = blk(3) [folded p_def]
    have F: "map_of (free_blocks s) p = None" by (rule heap_okD(5) [OF ok b])
    show ?thesis
    proof (cases "unat sz \<le> blk_sz b")
      case True
      define b' where "b' = b\<lparr>blk_sz := unat sz, blk_line := word_of_int line\<rparr>"
      have s': "s' = s\<lparr>allocated_blocks := om_put p b' (allocated_blocks s),
          mem := memset (mem s) (p + unat sz) MARKER (blk_align b')\<rparr>"
        using r blk True F by (auto simp: m61_realloc_def Let_def p_def b'_def)
      have sp: "span s' = (span s)(p \<mapsto> unat sz + blk_align b)"
        using heap_okD(1) [OF ok] by (intro ext) (simp add: span_def s' om_simps b'_def split: option.split)
      have pos: "0 < unat sz" using blk(2) by (simp add: unat_gt_0)
      have "blocks_ok (span s')"
        unfolding sp
        by (rule blocks_ok_resize [OF heap_okD(3) [OF ok] span_allocated [OF b]])
          (use pos True in \<open>auto intro: round_up_to_mono\<close>)
      then show ?thesis
        using ok F b by (auto simp: heap_ok_def s' om_simps dest: span_allocated)
    next
      case False
      obtain na s1 where m: "m61_malloc sz fname line s = (na, s1)" by force
      show ?thesis
      proof (cases "na = 0")
        case True
        with r blk False F m mal show ?thesis by (simp add: m61_realloc_def p_def)
      next
        case na: False
        from mal m have "heap_ok (s1\<lparr>mem := memcpy (mem s1) (ptoi s1 na) (ptoi s1 ptr) (blk_sz b)\<rparr>)"
          by simp
        then show ?thesis
          using r blk False F m na
          by (auto simp: m61_realloc_def p_def intro: m61_free_heap_ok [rotated] split: sum.splits)
      qed
    qed
  qed
qed

text \<open>
  The histories of a client: calls of the allocator, and writes of the client to bytes
  of the buffer. A call that aborts ends the program, so it has no step.
\<close>

inductive m61_step :: "m61_state \<Rightarrow> m61_state \<Rightarrow> bool" where
  malloc: "m61_malloc sz fname line s = (p, s') \<Longrightarrow> m61_step s s'"
| free: "m61_free p s = Inr s' \<Longrightarrow> m61_step s s'"
| calloc: "m61_calloc count sz fname line s = (p, s') \<Longrightarrow> m61_step s s'"
| realloc: "m61_realloc q sz fname line s = Inr (p, s') \<Longrightarrow> m61_step s s'"
| client_write: "m61_step s (s\<lparr>mem := (mem s)(i := v)\<rparr>)"

inductive m61_reachable :: "u64 \<Rightarrow> m61_state \<Rightarrow> bool" for base where
  init: "m61_reachable base (m61_init base)"
| step: "m61_reachable base s \<Longrightarrow> m61_step s s' \<Longrightarrow> m61_reachable base s'"

lemma m61_step_heap_ok: "m61_step s s' \<Longrightarrow> heap_ok s \<Longrightarrow> heap_ok s'"
proof (induction rule: m61_step.induct)
  case (malloc sz fname line s p s')
  then show ?case using m61_malloc_heap_ok [of s sz fname line] by simp
next
  case (calloc count sz fname line s p s')
  then show ?case using m61_calloc_heap_ok [of s count sz fname line] by simp
qed (auto intro: m61_free_heap_ok m61_realloc_heap_ok)

lemma span_init: "span (m61_init base) = [0 \<mapsto> HEAP_SIZE]"
  by (rule ext) (simp add: span_def m61_init_def)

lemma blocks_ok_init: "blocks_ok [0 \<mapsto> HEAP_SIZE]"
  by (auto simp: blocks_ok_def extent_id split: if_splits) (simp add: HEAP_SIZE_def)

lemma heap_ok_init: "base_ok base \<Longrightarrow> heap_ok (m61_init base)"
  by (simp add: heap_ok_def span_init blocks_ok_init) (simp add: m61_init_def om_ok_def)

lemma m61_reachable_heap_ok: "m61_reachable base s \<Longrightarrow> base_ok base \<Longrightarrow> heap_ok s"
  by (induction rule: m61_reachable.induct) (auto intro: heap_ok_init m61_step_heap_ok)

section \<open>No byte is lost: tiling and coalescing\<close>

definition coalesced :: "(nat \<times> nat) list \<Rightarrow> bool" where
  "coalesced fb \<longleftrightarrow> (\<forall>k l. map_of fb k = Some l \<longrightarrow> map_of fb (k + l) = None)"

text \<open>A free map that is coalesced but for the neighbours of the block at \<open>p\<close>.\<close>

definition coalesced_but :: "nat \<Rightarrow> (nat \<times> nat) list \<Rightarrow> bool" where
  "coalesced_but p fb \<longleftrightarrow>
     (\<forall>k l. map_of fb k = Some l \<longrightarrow> k \<noteq> p \<longrightarrow> k + l \<noteq> p \<longrightarrow> map_of fb (k + l) = None)"

lemma coalesce_right_coalesced:
  assumes ok: "free_ok A fb" and p: "map_of fb p = Some len" and c: "coalesced_but p fb"
  shows "coalesced_but p (coalesce_right p fb)"
    and "map_of (coalesce_right p fb) p = Some len' \<Longrightarrow> map_of (coalesce_right p fb) (p + len') = None"
proof -
  have om: "om_ok fb" using ok by (simp add: free_ok_def)
  note d = free_okD [OF ok p]
  have "coalesced_but p (coalesce_right p fb) \<and>
    (map_of (coalesce_right p fb) p = Some len' \<longrightarrow> map_of (coalesce_right p fb) (p + len') = None)"
  proof (cases "map_of fb (p + len)")
    case None
    then show ?thesis using c p by (auto simp: coalesce_right_none [OF om p None])
  next
    case (Some rlen)
    note d' = free_okD [OF ok Some]
    have m: "map_of (coalesce_right p fb) = (map_of fb)(p + len := None, p \<mapsto> len + rlen)"
      using free_ok_merge(2) [OF ok p Some] coalesce_right_merge [OF om p Some d(3,4)] by simp
    have end_none: "map_of fb (p + (len + rlen)) = None"
      using c Some d(3) d'(3) unfolding coalesced_but_def
      by (metis add.assoc add_eq_self_zero less_irrefl trans_less_add1)
    show ?thesis
      using c d(3) end_none unfolding m coalesced_but_def by auto
  qed
  then show "coalesced_but p (coalesce_right p fb)"
    and "map_of (coalesce_right p fb) p = Some len' \<Longrightarrow> map_of (coalesce_right p fb) (p + len') = None"
    by simp_all
qed

lemma coalesce_left_coalesced:
  assumes ok: "free_ok A fb" and p: "map_of fb p = Some len" and c: "coalesced_but p fb"
    and r: "map_of fb (p + len) = None"
  shows "coalesced (coalesce_left p fb)"
proof -
  have om: "om_ok fb" using ok by (simp add: free_ok_def)
  show ?thesis
  proof (cases "\<exists>lk llen. map_of fb lk = Some llen \<and> lk + llen = p")
    case False
    have "coalesce_left p fb = fb" using False by (intro coalesce_left_none [OF om p]) auto
    then show ?thesis using c r p False unfolding coalesced_def coalesced_but_def
      by (metis option.inject)
  next
    case True
    then obtain lk llen where l: "map_of fb lk = Some llen" "p = lk + llen" by auto
    note d = free_okD [OF ok l(1)]
    have m: "map_of (coalesce_left p fb) = (map_of fb)(lk + llen := None, lk \<mapsto> llen + len)"
      using free_ok_merge(2) [OF ok l(1) p [unfolded l(2)]]
        coalesce_left_merge [OF om p l(1) l(2) [symmetric] d(3,4)] by (simp add: l(2))
    have uniq: "k + v \<noteq> lk" if "map_of fb k = Some v" for k v
    proof
      assume kv: "k + v = lk"
      from free_okD(3) [OF ok that] kv have "k \<noteq> p" "k + v \<noteq> p" using l(2) d(3) by auto
      with c that have "map_of fb (k + v) = None" by (simp add: coalesced_but_def)
      with kv l(1) show False by simp
    qed
    have single: "k = lk" if "map_of fb k = Some v" "k + v = p" for k v
      using that free_okD(4) [OF ok that(1) l(1)] d(4) [OF that(1)] free_okD(3) [OF ok that(1)] l(2) d(3)
      by (cases k lk rule: linorder_cases) auto
    show ?thesis
      unfolding coalesced_def m
    proof (intro allI impI)
      fix k v assume kv: "((map_of fb)(lk + llen := None, lk \<mapsto> llen + len)) k = Some v"
      show "((map_of fb)(lk + llen := None, lk \<mapsto> llen + len)) (k + v) = None"
      proof (cases "k = lk")
        case True
        then show ?thesis using kv r l(2) d(3) by (auto simp: add.assoc)
      next
        case False
        with kv have k: "map_of fb k = Some v" "k \<noteq> p" using l(2) by (auto split: if_splits)
        with single False have "k + v \<noteq> p" by auto
        with k c have "map_of fb (k + v) = None" by (simp add: coalesced_but_def)
        then show ?thesis using uniq [OF k(1)] by simp
      qed
    qed
  qed
qed

lemma after_free_coalesced:
  assumes ok: "heap_ok s" and b: "map_of (allocated_blocks s) (unat (ptr - buffer s)) = Some b"
    and c: "coalesced (free_blocks s)"
  shows "coalesced (free_blocks (after_free ptr b s))"
proof -
  define p where "p = unat (ptr - buffer s)"
  define fb where "fb = om_insert p (blk_sz b + blk_align b) (free_blocks s)"
  note rel = free_ok_release [OF ok b [folded p_def], folded fb_def]
  have p: "map_of fb p = Some (blk_sz b + blk_align b)" using rel(2) by simp
  have cb: "coalesced_but p fb"
    using c heap_okD(5) [OF ok b [folded p_def]] by (auto simp: coalesced_def coalesced_but_def rel(2))
  note right = coalesce_right_ok [OF rel(1) p]
  obtain len where len: "map_of (coalesce_right p fb) p = Some len" using right(3) by auto
  note rc = coalesce_right_coalesced [OF rel(1) p cb]
  have "coalesced (coalesce_left p (coalesce_right p fb))"
    by (rule coalesce_left_coalesced [OF right(1) len rc(1) rc(2) [OF len]])
  then show ?thesis by (simp add: after_free_def Let_def fb_def p_def)
qed

definition full_ok :: "m61_state \<Rightarrow> bool" where
  "full_ok s \<longleftrightarrow> heap_ok s \<and> tiled (span s) \<and> coalesced (free_blocks s)"

lemma full_ok_init: "base_ok base \<Longrightarrow> full_ok (m61_init base)"
  by (auto simp: full_ok_def heap_ok_init tiled_def coalesced_def span_init)
    (simp add: m61_init_def HEAP_SIZE_def split: if_splits)

lemma full_ok_after_free:
  "full_ok s \<Longrightarrow> map_of (allocated_blocks s) (unat (ptr - buffer s)) = Some b \<Longrightarrow>
   full_ok (after_free ptr b s)"
  by (simp add: full_ok_def after_free_ok after_free_coalesced)

lemma full_ok_after_malloc:
  assumes ok: "full_ok s" and fb: "find_block (unat sz) (free_blocks s) = Some (p, l)"
  shows "full_ok (after_malloc sz fname line p l s)"
proof -
  have hok: "heap_ok s" and ti: "tiled (span s)" and co: "coalesced (free_blocks s)"
    using ok by (simp_all add: full_ok_def)
  note f = find_block_facts [OF hok fb]
  define t where "t = total (unat sz)"
  have "ALIGNMENT dvd l" by (rule tiled_dvd [OF heap_okD(3) [OF hok] ti f(2)])
  then have tl: "t \<le> l" using f(7) by (simp add: extent_id t_def)
  have t0: "0 < t" using total_bounds by (simp add: t_def)
  have "0 < l" using blocks_okD(2) [OF heap_okD(3) [OF hok] f(2)] .
  have gap: "span s (p + t) = None" if "t < l"
    using that t0 extent_ge [of l] by (intro blocks_ok_gap [OF heap_okD(3) [OF hok] f(2)]) simp_all
  then have F: "map_of (free_blocks s) (p + t) = None" if "t < l"
    using that by (auto simp: span_def split: option.splits)
  have "tiled (span (after_malloc sz fname line p l s))"
    unfolding span_after_malloc [OF hok fb] t_def [symmetric]
    using tiled_split [OF ti f(2) _ t0] gap tl ti f(2) by (auto simp: fun_upd_idem)
  moreover have m: "map_of (free_blocks (after_malloc sz fname line p l s)) =
      (if t < l then (map_of (free_blocks s))(p := None, p + t \<mapsto> l - t)
       else (map_of (free_blocks s))(p := None))"
    using heap_okD(2) [OF hok] F by (auto simp: after_malloc_def Let_def om_simps simp flip: t_def)
  have "coalesced (free_blocks (after_malloc sz fname line p l s))"
    unfolding coalesced_def m
  proof (intro allI impI)
    fix k v
    assume k: "(if t < l then (map_of (free_blocks s))(p := None, p + t \<mapsto> l - t)
       else (map_of (free_blocks s))(p := None)) k = Some v"
    have other: "k + v \<noteq> p + t" if "t < l" "map_of (free_blocks s) k = Some v" "k \<noteq> p"
      using free_okD(4) [OF heap_ok_free_ok [OF hok] that(2) f(1)]
        free_okD(4) [OF heap_ok_free_ok [OF hok] f(1) that(2)]
        free_okD(3) [OF heap_ok_free_ok [OF hok] that(2)] that(1,3) t0
      by (cases k p rule: linorder_cases) auto
    show "(if t < l then (map_of (free_blocks s))(p := None, p + t \<mapsto> l - t)
       else (map_of (free_blocks s))(p := None)) (k + v) = None"
      using k co f(1) tl other \<open>0 < l\<close> unfolding coalesced_def by (auto split: if_splits)
  qed
  ultimately show ?thesis using heap_ok_after_malloc [OF hok fb] by (simp add: full_ok_def)
qed

lemma full_ok_malloc: "full_ok s \<Longrightarrow> full_ok (snd (m61_malloc sz fname line s))"
proof (cases "find_block (unat sz) (free_blocks s)")
  case None
  assume "full_ok s"
  then show ?thesis
    using None m61_malloc_heap_ok [of s sz fname line]
      span_cong [of "snd (m61_malloc sz fname line s)" s]
    by (simp add: full_ok_def m61_malloc_None)
next
  case (Some a)
  assume "full_ok s"
  with Some show ?thesis
    by (cases a) (simp add: full_ok_def m61_malloc_Some full_ok_after_malloc [unfolded full_ok_def])
qed

lemma full_ok_mem [simp]: "full_ok (s\<lparr>mem := m\<rparr>) = full_ok s"
  and full_ok_stats [simp]: "full_ok (s\<lparr>global_stats := g\<rparr>) = full_ok s"
  using span_cong [of "s\<lparr>mem := m\<rparr>" s] span_cong [of "s\<lparr>global_stats := g\<rparr>" s]
  by (simp_all add: full_ok_def)

lemma full_ok_calloc: "full_ok s \<Longrightarrow> full_ok (snd (m61_calloc count sz fname line s))"
  using full_ok_malloc [of s "count * sz" fname line] by (auto simp: m61_calloc_def split: prod.split)

lemma full_ok_free: "full_ok s \<Longrightarrow> m61_free ptr s = Inr s' \<Longrightarrow> full_ok s'"
  by (erule m61_free_Inr) (auto intro: full_ok_after_free)

text \<open>When nothing is allocated any more, the free list is the one of the start.\<close>

lemma full_ok_empty:
  assumes ok: "full_ok s" and e: "allocated_blocks s = []"
  shows "free_blocks s = [(0, HEAP_SIZE)]"
proof -
  have hok: "heap_ok s" using ok by (simp add: full_ok_def)
  have sp: "span s = map_of (free_blocks s)" by (rule ext) (simp add: span_def e)
  have bok: "blocks_ok (map_of (free_blocks s))" using heap_okD(3) [OF hok] by (simp add: sp)
  have cover: "\<exists>k l. map_of (free_blocks s) k = Some l \<and> k \<le> x \<and> x < k + l" if "x < HEAP_SIZE" for x
    using ok that by (simp add: full_ok_def tiled_def sp)
  obtain l where l: "map_of (free_blocks s) 0 = Some l"
    using cover [of 0] by (auto simp: HEAP_SIZE_def)
  have "\<not> l < HEAP_SIZE"
  proof
    assume "l < HEAP_SIZE"
    from cover [OF this] obtain k v where k: "map_of (free_blocks s) k = Some v" "k \<le> l" "l < k + v"
      by auto
    have "k \<noteq> 0" by (rule notI) (use k l in auto)
    then have "extent l \<le> k" using blocks_ok_disjoint [OF bok l k(1)] by simp
    then have "k = l" using k(2) extent_ge [of l] by simp
    have "map_of (free_blocks s) (0 + l) = None"
      using ok l unfolding full_ok_def coalesced_def by blast
    with k(1) \<open>k = l\<close> show False by simp
  qed
  then have "l = HEAP_SIZE" using blocks_okD(3) [OF bok l] extent_ge [of l] by simp
  have "map_of (free_blocks s) k = None" if "k \<noteq> 0" for k
  proof (rule ccontr)
    assume "map_of (free_blocks s) k \<noteq> None"
    then obtain v where k: "map_of (free_blocks s) k = Some v" by auto
    from blocks_ok_disjoint [OF bok l k] blocks_okD(2,3) [OF bok k] that \<open>l = HEAP_SIZE\<close>
      extent_ge [of l] extent_pos [of v]
    show False by simp
  qed
  then have "map_of (free_blocks s) = map_of [(0, HEAP_SIZE)]"
    using l \<open>l = HEAP_SIZE\<close> by auto
  then show ?thesis using heap_okD(2) [OF hok] by (intro om_ext) (simp_all add: om_ok_Cons)
qed

section \<open>Statistics\<close>

definition stats_ok :: "m61_state \<Rightarrow> bool" where
  "stats_ok s \<longleftrightarrow>
     nactive (global_stats s) = of_nat (length (allocated_blocks s)) \<and>
     active_size (global_stats s) = of_nat (sum_list (map (\<lambda>(k, b). blk_sz b) (allocated_blocks s)))"

lemma om_insert_new:
  "om_ok m \<Longrightarrow> map_of m k = None \<Longrightarrow> length (om_insert k v m) = Suc (length m) \<and>
   sum_list (map f (om_insert k v m)) = f (k, v) + (sum_list (map f m) :: nat)"
  by (induction m) (auto simp: om_ok_Cons split: if_splits)

lemma om_erase_old:
  "om_ok m \<Longrightarrow> map_of m k = Some v \<Longrightarrow> Suc (length (om_erase k m)) = length m \<and>
   f (k, v) + sum_list (map f (om_erase k m)) = (sum_list (map f m) :: nat)"
  by (induction m) (auto simp: om_ok_Cons split: if_splits)

lemma stats_alloc_simps [simp]:
  "nactive (stats_alloc p n st) = nactive st + 1"
  "active_size (stats_alloc p n st) = active_size st + n"
  by (simp_all add: stats_alloc_def Let_def)

lemma stats_ok_malloc:
  assumes "heap_ok s" and "stats_ok s"
  shows "stats_ok (snd (m61_malloc sz fname line s))"
proof (cases "find_block (unat sz) (free_blocks s)")
  case None
  with assms(2) show ?thesis by (simp add: m61_malloc_None stats_ok_def stats_fail_def)
next
  case (Some a)
  obtain p l where a: "a = (p, l)" by (cases a)
  note f = find_block_facts [OF assms(1) Some [unfolded a]]
  note new = om_insert_new [OF heap_okD(1) [OF assms(1)] f(3)]
  show ?thesis
    using assms(2) new
    by (simp add: m61_malloc_Some [OF assms(1) Some [unfolded a]] after_malloc_def Let_def
        stats_ok_def make_metadata_def)
qed

lemma stats_ok_free:
  assumes "heap_ok s" and "stats_ok s" and "m61_free ptr s = Inr s'"
  shows "stats_ok s'"
  using assms(3)
proof (rule m61_free_Inr)
  fix b
  assume b: "map_of (allocated_blocks s) (unat (ptr - buffer s)) = Some b" and s': "s' = after_free ptr b s"
  let ?E = "om_erase (unat (ptr - buffer s)) (allocated_blocks s)" and ?f = "\<lambda>(k, b). blk_sz b"
  have "length (allocated_blocks s) = Suc (length ?E)"
    and "sum_list (map ?f (allocated_blocks s)) = blk_sz b + sum_list (map ?f ?E)"
    using om_erase_old [OF heap_okD(1) [OF assms(1)] b, of ?f] by simp_all
  with assms(2) show ?thesis by (simp add: stats_ok_def s' after_free_def Let_def)
qed (use assms(2) in simp)

lemma stats_ok_calloc:
  assumes "heap_ok s" and "stats_ok s"
  shows "stats_ok (snd (m61_calloc count sz fname line s))"
  using stats_ok_malloc [OF assms, of "count * sz" fname line] assms(2)
  by (auto simp: m61_calloc_def stats_ok_def stats_fail_def split: prod.split)

text \<open>The histories without m61\_realloc.\<close>

inductive m61_basic :: "u64 \<Rightarrow> m61_state \<Rightarrow> bool" for base where
  basic_init: "m61_basic base (m61_init base)"
| basic_malloc: "m61_basic base s \<Longrightarrow> m61_malloc sz fname line s = (p, s') \<Longrightarrow> m61_basic base s'"
| basic_free: "m61_basic base s \<Longrightarrow> m61_free p s = Inr s' \<Longrightarrow> m61_basic base s'"
| basic_calloc: "m61_basic base s \<Longrightarrow> m61_calloc count sz fname line s = (p, s') \<Longrightarrow> m61_basic base s'"
| basic_write: "m61_basic base s \<Longrightarrow> m61_basic base (s\<lparr>mem := (mem s)(i := v)\<rparr>)"

lemma m61_basic_ok: "m61_basic base s \<Longrightarrow> base_ok base \<Longrightarrow> full_ok s \<and> stats_ok s"
proof (induction rule: m61_basic.induct)
  case basic_init
  then show ?case by (simp add: full_ok_init) (simp add: stats_ok_def m61_init_def)
next
  case (basic_malloc s sz fname line p s')
  then show ?case
    using full_ok_malloc [of s sz fname line] stats_ok_malloc [of s sz fname line]
    by (simp add: full_ok_def)
next
  case (basic_free s p s')
  then show ?case by (metis full_ok_def full_ok_free stats_ok_free)
next
  case (basic_calloc s count sz fname line p s')
  then show ?case
    using full_ok_calloc [of s count sz fname line] stats_ok_calloc [of s count sz fname line]
    by (simp add: full_ok_def)
next
  case (basic_write s i v)
  then show ?case by (simp add: stats_ok_def)
qed

section \<open>Properties\<close>

lemma base_ok_65536: "base_ok 65536"
  by (simp add: base_ok_def ALIGNMENT_def HEAP_SIZE_def)

lemma m61_malloc_init:
  assumes "base_ok base" and "unat sz < HEAP_SIZE - 32"
  shows "m61_malloc sz fname line (m61_init base)
    = (itop (m61_init base) 0, after_malloc sz fname line 0 HEAP_SIZE (m61_init base))"
proof -
  have "find_block (unat sz) (free_blocks (m61_init base)) = Some (0, HEAP_SIZE)"
    using assms(2) by (auto simp: m61_init_def ALIGNMENT_def)
  then show ?thesis by (rule m61_malloc_Some [OF heap_ok_init [OF assms(1)]])
qed

lemma after_malloc_fields [simp]:
  "buffer (after_malloc sz fname line p l s) = buffer s"
  "allocated_blocks (after_malloc sz fname line p l s) =
     om_insert p (make_metadata (unat sz) (total (unat sz) - unat sz) (word_of_int line)) (allocated_blocks s)"
  "mem (after_malloc sz fname line p l s) = memset (mem s) (p + unat sz) MARKER (total (unat sz) - unat sz)"
  by (simp_all add: after_malloc_def Let_def)

lemma m61_init_fields [simp]:
  "buffer (m61_init base) = base" "allocated_blocks (m61_init base) = []"
  "free_blocks (m61_init base) = [(0, HEAP_SIZE)]" "mem (m61_init base) = (\<lambda>_. 0)"
  "freed (m61_init base) = {}"
  by (simp_all add: m61_init_def)

text \<open>C2: in every history of allocator calls and client writes, active allocations
  (with their padding) start at multiples of 16, lie in the 8 MiB buffer, are disjoint
  from each other and from every free block.\<close>

theorem m61_blocks_disjoint:
  assumes "base_ok base" and "m61_reachable base s"
    and "map_of (allocated_blocks s) k = Some b"
  shows "ALIGNMENT dvd k \<and> k + blk_sz b + blk_align b \<le> HEAP_SIZE \<and>
    (\<forall>k' b'. map_of (allocated_blocks s) k' = Some b' \<longrightarrow> k < k' \<longrightarrow> k + blk_sz b + blk_align b \<le> k') \<and>
    (\<forall>k' l. map_of (free_blocks s) k' = Some l \<longrightarrow>
       k + blk_sz b + blk_align b \<le> k' \<or> k' + l \<le> k)"
proof -
  have ok: "heap_ok s" using m61_reachable_heap_ok [OF assms(2,1)] .
  note bok = heap_okD(3) [OF ok] and k = span_allocated [OF assms(3)]
  have "k + blk_sz b + blk_align b \<le> k' \<or> k' + l \<le> k" if "map_of (free_blocks s) k' = Some l" for k' l
    using blocks_ok_disjoint [OF bok k span_free [OF ok that]] extent_ge [of "blk_sz b + blk_align b"]
      blocks_ok_disjoint [OF bok span_free [OF ok that] k] extent_ge [of l] heap_okD(6) [OF ok that] assms(3)
    by (cases k k' rule: linorder_cases) auto
  moreover have "k + blk_sz b + blk_align b \<le> k'" if "map_of (allocated_blocks s) k' = Some b'" "k < k'" for k' b'
    using blocks_ok_disjoint [OF bok k span_allocated [OF that(1)] that(2)]
      extent_ge [of "blk_sz b + blk_align b"] by simp
  ultimately show ?thesis
    using blocks_okD(1) [OF bok k] block_start_bound(2) [OF ok assms(3)] by auto
qed

theorem m61_blocks_disjoint_witness:
  "map_of (allocated_blocks (snd (m61_malloc 10 [] 1 (m61_init 65536)))) 0 = Some (make_metadata 10 6 1) \<and>
     ALIGNMENT dvd 0 \<and> 0 + 10 + 6 \<le> HEAP_SIZE"
proof -
  let ?s = "snd (m61_malloc 10 [] 1 (m61_init 65536))"
  have r: "m61_reachable 65536 ?s"
    by (rule m61_reachable.step [OF m61_reachable.init m61_step.malloc]) (rule surjective_pairing)
  have m: "m61_malloc 10 [] 1 (m61_init 65536)
    = (itop (m61_init 65536) 0, after_malloc 10 [] 1 0 HEAP_SIZE (m61_init 65536))"
    by (rule m61_malloc_init [OF base_ok_65536]) (simp add: HEAP_SIZE_def)
  have b: "map_of (allocated_blocks ?s) 0 = Some (make_metadata 10 6 1)"
    by (simp add: m total_def ALIGNMENT_def)
  show ?thesis
    using m61_blocks_disjoint [OF base_ok_65536 r b] b by (simp add: make_metadata_def)
qed

text \<open>C8: a successful \<open>m61_malloc\<close> returns a 16-byte-aligned address inside the buffer
  for a block of exactly the requested size that was not active before; every other
  active allocation keeps its record and all of its bytes, and does not overlap it.\<close>

theorem m61_malloc_correct:
  assumes "heap_ok s" and "m61_malloc sz fname line s = (p, s')" and "p \<noteq> 0"
  shows "ALIGNMENT dvd unat p \<and> unat (buffer s) \<le> unat p \<and>
    unat p + unat sz \<le> unat (buffer s) + HEAP_SIZE \<and>
    map_of (allocated_blocks s) (ptoi s p) = None \<and>
    (\<exists>b. blk_sz b = unat sz \<and> blk_line b = word_of_int line \<and>
       map_of (allocated_blocks s') = (map_of (allocated_blocks s))(ptoi s p \<mapsto> b)) \<and>
    (\<forall>k b. map_of (allocated_blocks s) k = Some b \<longrightarrow>
       (ptoi s p + unat sz \<le> k \<or> k + blk_sz b + blk_align b \<le> ptoi s p) \<and>
       (\<forall>i. k \<le> i \<and> i < k + blk_sz b + blk_align b \<longrightarrow> mem s' i = mem s i))"
proof -
  obtain k l where fb: "find_block (unat sz) (free_blocks s) = Some (k, l)"
    using assms(2,3) by (cases "find_block (unat sz) (free_blocks s)") (auto simp: m61_malloc_None)
  note f = find_block_facts [OF assms(1) fb]
  have p: "p = itop s k" and s': "s' = after_malloc sz fname line k l s"
    using m61_malloc_Some [OF assms(1) fb, of fname line] assms(2) by simp_all
  have k: "k \<le> HEAP_SIZE" using f(6) by simp
  have up: "unat p = unat (buffer s) + k" and pk: "ptoi s p = k"
    using unat_itop [OF heap_okD(4) [OF assms(1)] k] ptoi_itop [OF k] by (simp_all add: p)
  have "ALIGNMENT dvd unat p"
    using f(4) heap_okD(4) [OF assms(1)] by (simp add: up base_ok_def)
  moreover have "k + unat sz \<le> HEAP_SIZE"
    using f(6,7) total_bounds(1) [of "unat sz"] by simp
  moreover have disj: "k + total (unat sz) \<le> j \<or> j + blk_sz b + blk_align b \<le> k"
    if "map_of (allocated_blocks s) j = Some b" for j b
    using blocks_ok_disjoint [OF heap_okD(3) [OF assms(1)] f(2) span_allocated [OF that]]
      blocks_ok_disjoint [OF heap_okD(3) [OF assms(1)] span_allocated [OF that] f(2)]
      extent_ge [of "blk_sz b + blk_align b"] f(3,7) that
    by (cases j k rule: linorder_cases) auto
  moreover have "mem s' i = mem s i"
    if "map_of (allocated_blocks s) j = Some b" "j \<le> i \<and> i < j + blk_sz b + blk_align b" for j b i
    unfolding s' after_malloc_fields using disj [OF that(1)] that(2) total_bounds(1) [of "unat sz"]
    by (intro memset_out) auto
  moreover have "\<exists>b. blk_sz b = unat sz \<and> blk_line b = word_of_int line \<and>
      map_of (allocated_blocks s') = (map_of (allocated_blocks s))(k \<mapsto> b)"
    by (rule exI [of _ "make_metadata (unat sz) (total (unat sz) - unat sz) (word_of_int line)"])
      (use f(3) heap_okD(1) [OF assms(1)] in \<open>simp add: s' om_simps, simp add: make_metadata_def\<close>)
  ultimately show ?thesis
    unfolding pk up using f(3) total_bounds(1) [of "unat sz"] by fastforce
qed

theorem m61_malloc_correct_witness:
  "ALIGNMENT dvd unat (fst (m61_malloc 10 [] 1 (m61_init 65536)))"
proof -
  have m: "m61_malloc 10 [] 1 (m61_init 65536)
    = (itop (m61_init 65536) 0, after_malloc 10 [] 1 0 HEAP_SIZE (m61_init 65536))"
    by (rule m61_malloc_init [OF base_ok_65536]) (simp add: HEAP_SIZE_def)
  have "itop (m61_init 65536) 0 \<noteq> 0" by (simp add: itop_def)
  from m61_malloc_correct [OF heap_ok_init [OF base_ok_65536] m this] show ?thesis
    by (simp add: m)
qed

text \<open>C18: \<open>m61_malloc\<close> returns null exactly when the request is at least the buffer
  size or no free block has room for it and its padding; then only the failure
  statistics (and the recorded file name) change.\<close>

theorem m61_malloc_fails_iff:
  assumes "heap_ok s"
  shows "(fst (m61_malloc sz fname line s) = 0 \<longleftrightarrow>
      HEAP_SIZE \<le> unat sz \<or>
      (\<forall>(k, l) \<in> set (free_blocks s). l < unat sz + (if unat sz mod 16 = 0 then 16 else 0))) \<and>
    (fst (m61_malloc sz fname line s) = 0 \<longrightarrow>
      snd (m61_malloc sz fname line s) =
        s\<lparr>curr_file := fname, global_stats := (global_stats s)\<lparr>
            nfail := nfail (global_stats s) + 1, fail_size := fail_size (global_stats s) + sz\<rparr>\<rparr>)"
proof (cases "find_block (unat sz) (free_blocks s)")
  case None
  then show ?thesis
    using find_block_None [of "unat sz" "free_blocks s"]
    by (auto simp: m61_malloc_None stats_fail_def need_def ALIGNMENT_def)
next
  case (Some a)
  obtain k l where a: "a = (k, l)" by (cases a)
  note fb = Some [unfolded a] and f = find_block_facts [OF assms Some [unfolded a]]
  have "itop s k \<noteq> 0"
    using f(6) by (intro itop_nonnull [OF heap_okD(4) [OF assms]]) simp
  then have nz: "fst (m61_malloc sz fname line s) \<noteq> 0"
    by (simp add: m61_malloc_Some [OF assms fb])
  have "\<not> l < unat sz + (if unat sz mod 16 = 0 then 16 else 0)"
    using find_block_Some(3) [OF fb] by (simp add: need_def ALIGNMENT_def split: if_splits)
  then have "\<not> (\<forall>(k, l) \<in> set (free_blocks s). l < unat sz + (if unat sz mod 16 = 0 then 16 else 0))"
    using find_block_Some(1) [OF fb] by blast
  with nz show ?thesis using find_block_Some(2) [OF fb] by simp
qed

theorem m61_malloc_fails_iff_witness:
  "fst (m61_malloc 8388608 [] 1 (m61_init 65536)) = 0"
  using m61_malloc_fails_iff [OF heap_ok_init [OF base_ok_65536], of 8388608 "[]" 1]
  by (simp add: HEAP_SIZE_def)

text \<open>C17: in a heap that is tiled by its blocks and has no two adjacent free blocks (\<open>full_ok\<close>: true at the start and
  kept by \<open>m61_malloc\<close> and \<open>m61_free\<close>, but not by an \<open>m61_realloc\<close> that shrinks a block, which leaks
  bytes), freeing a block right after it was allocated succeeds and gives back the very
  same free list and allocation list (first fit, the split and both merges cancel out)
  and the same active counts.\<close>

theorem m61_malloc_free_roundtrip:
  assumes "full_ok s" and "m61_malloc sz fname line s = (p, s')" and "p \<noteq> 0"
  shows "\<exists>s''. m61_free p s' = Inr s'' \<and> free_blocks s'' = free_blocks s \<and>
    allocated_blocks s'' = allocated_blocks s \<and>
    nactive (global_stats s'') = nactive (global_stats s) \<and>
    active_size (global_stats s'') = active_size (global_stats s)"
proof -
  have hok: "heap_ok s" using assms(1) by (simp add: full_ok_def)
  obtain k l where fb: "find_block (unat sz) (free_blocks s) = Some (k, l)"
    using assms(2,3) by (cases "find_block (unat sz) (free_blocks s)") (auto simp: m61_malloc_None)
  note f = find_block_facts [OF hok fb]
  have p: "p = itop s k" and s': "s' = after_malloc sz fname line k l s"
    using m61_malloc_Some [OF hok fb, of fname line] assms(2) by simp_all
  define t b where "t = total (unat sz)"
    and "b = make_metadata (unat sz) (t - unat sz) (word_of_int line)"
  have b: "blk_sz b = unat sz" "blk_sz b + blk_align b = t"
    using total_bounds(1) [of "unat sz"] by (simp_all add: b_def t_def make_metadata_def)
  have kH: "k \<le> HEAP_SIZE" using f(6) by simp
  have pk: "unat (p - buffer s') = k" using ptoi_itop [OF kH] by (simp add: p s')
  have A': "map_of (allocated_blocks s') k = Some b"
    using f(3) heap_okD(1) [OF hok] by (simp add: s' om_simps b_def t_def)
  have "markers_intact s' k b"
    using b by (auto simp: markers_intact_def list_all_iff s' b_def t_def make_metadata_def mem_simps)
  then have free: "m61_free p s' = Inr (after_free p b s')"
    using assms(3) A' by (intro m61_free_valid) (simp_all add: pk)
  have "om_erase k (allocated_blocks s') = allocated_blocks s"
    using f(3) heap_okD(1) [OF hok]
    by (intro om_ext) (auto simp: s' om_simps fun_upd_idem)
  then have A'': "allocated_blocks (after_free p b s') = allocated_blocks s"
    by (simp add: after_free_def Let_def pk)
  have ok': "full_ok s'" using full_ok_after_malloc [OF assms(1) fb] by (simp add: s')
  then have hok': "heap_ok s'" by (simp add: full_ok_def)
  have tl: "t \<le> l" and t0: "0 < t"
    using f(7) tiled_dvd [OF heap_okD(3) [OF hok] _ f(2)] assms(1) total_bounds(3)
    by (simp_all add: extent_id t_def full_ok_def)
  define fb1 where "fb1 = om_insert k (blk_sz b + blk_align b) (free_blocks s')"
  note rel = free_ok_release [OF hok' A', folded fb1_def]
  have F1: "map_of fb1 = (map_of (free_blocks s'))(k \<mapsto> t)" using rel(2) b(2) by simp
  have kt: "map_of (free_blocks s) (k + t) = None" if "t < l"
    using free_okD(4) [OF heap_ok_free_ok [OF hok] f(1), of "k + t"] that t0
    by (cases "map_of (free_blocks s) (k + t)") auto
  have F': "map_of (free_blocks s') = (if t < l then (map_of (free_blocks s))(k := None, k + t \<mapsto> l - t)
       else (map_of (free_blocks s))(k := None))"
    using heap_okD(2) [OF hok] kt by (auto simp: s' after_malloc_def Let_def om_simps simp flip: t_def)
  have kl: "map_of (free_blocks s) (k + l) = None"
    using assms(1) f(1) by (simp add: full_ok_def coalesced_def)
  have om1: "om_ok fb1" using rel(1) by (simp add: free_ok_def)
  have k1: "map_of fb1 k = Some t" by (simp add: F1)
  note d1 = free_okD [OF rel(1) k1]
  have right: "map_of (coalesce_right k fb1) = map_of (free_blocks s) \<and> om_ok (coalesce_right k fb1)"
  proof (cases "t < l")
    case True
    have r: "map_of fb1 (k + t) = Some (l - t)" using True t0 by (simp add: F1 F')
    have cr: "coalesce_right k fb1 = om_put k (t + (l - t)) (om_erase (k + t) fb1)"
      by (rule coalesce_right_merge [OF om1 k1 r d1(3)]) (rule d1(4))
    then have "map_of (coalesce_right k fb1) = (map_of fb1)(k + t := None, k \<mapsto> t + (l - t))"
      using om1 by (simp add: om_simps)
    also have "\<dots> = map_of (free_blocks s)"
      using True kt f(1) t0 by (auto simp: F1 F')
    finally show ?thesis
      using om1 by (simp add: cr om_simps)
  next
    case False
    with tl have "t = l" by simp
    have r: "map_of fb1 (k + t) = None" using False kl t0 \<open>t = l\<close> by (simp add: F1 F')
    show ?thesis
      using om1 f(1) \<open>t = l\<close> unfolding coalesce_right_none [OF om1 k1 r] by (auto simp: F1 F')
  qed
  then have R: "coalesce_right k fb1 = free_blocks s"
    using heap_okD(2) [OF hok] by (intro om_ext) simp_all
  have "coalesce_left k (free_blocks s) = free_blocks s"
  proof (rule coalesce_left_none [OF heap_okD(2) [OF hok] f(1)])
    fix j m assume "map_of (free_blocks s) j = Some m"
    then have "map_of (free_blocks s) (j + m) = None"
      using assms(1) unfolding full_ok_def coalesced_def by blast
    then show "j + m \<noteq> k" using f(1) by auto
  qed
  then have F'': "free_blocks (after_free p b s') = free_blocks s"
    by (simp add: after_free_def Let_def pk flip: fb1_def add: R)
  have "global_stats s' = stats_alloc p sz (global_stats s)"
    by (simp add: s' after_malloc_def Let_def p)
  then show ?thesis
    using free A'' F'' b(1) by (simp add: after_free_def Let_def)
qed

theorem m61_malloc_free_roundtrip_witness:
  "\<exists>s''. m61_free (fst (m61_malloc 10 [] 1 (m61_init 65536))) (snd (m61_malloc 10 [] 1 (m61_init 65536)))
     = Inr s'' \<and> free_blocks s'' = [(0, HEAP_SIZE)]"
proof -
  have m: "m61_malloc 10 [] 1 (m61_init 65536)
    = (itop (m61_init 65536) 0, after_malloc 10 [] 1 0 HEAP_SIZE (m61_init 65536))"
    by (rule m61_malloc_init [OF base_ok_65536]) (simp add: HEAP_SIZE_def)
  have "itop (m61_init 65536) 0 \<noteq> 0" by (simp add: itop_def)
  from m61_malloc_free_roundtrip [OF full_ok_init [OF base_ok_65536] m this] show ?thesis
    by (auto simp: m)
qed

text \<open>C16: as long as the client does not call \<open>m61_realloc\<close>, no byte of the buffer is
  ever lost: whenever every allocation has been freed, the free list is again the one
  block that covers the whole buffer. The active statistics always count the active
  allocations and their sizes.\<close>

theorem m61_no_leak:
  assumes "base_ok base" and "m61_basic base s"
  shows "(allocated_blocks s = [] \<longrightarrow> free_blocks s = [(0, HEAP_SIZE)]) \<and>
    nactive (global_stats s) = of_nat (length (allocated_blocks s)) \<and>
    active_size (global_stats s) = of_nat (sum_list (map (\<lambda>(k, b). blk_sz b) (allocated_blocks s)))"
  using m61_basic_ok [OF assms(2,1)] full_ok_empty [of s] by (simp add: stats_ok_def)

theorem m61_no_leak_witness:
  "nactive (global_stats (snd (m61_malloc 10 [] 1 (m61_init 65536)))) = 1"
proof -
  have r: "m61_basic 65536 (snd (m61_malloc 10 [] 1 (m61_init 65536)))"
    by (rule m61_basic.basic_malloc [OF m61_basic.basic_init]) (rule surjective_pairing)
  have m: "m61_malloc 10 [] 1 (m61_init 65536)
    = (itop (m61_init 65536) 0, after_malloc 10 [] 1 0 HEAP_SIZE (m61_init 65536))"
    by (rule m61_malloc_init [OF base_ok_65536]) (simp add: HEAP_SIZE_def)
  show ?thesis using m61_no_leak [OF base_ok_65536 r] by (simp add: m)
qed

text \<open>C19: a write of anything but the marker just past the end of an allocation (at
  any offset of its padding) makes the next \<open>m61_free\<close> of it abort with a wild-write
  report.\<close>

theorem m61_overrun_detected:
  assumes "heap_ok s" and "m61_malloc sz fname line s = (p, s')" and "p \<noteq> 0" and "v \<noteq> MARKER"
    and "i < total (unat sz) - unat sz"
  shows "m61_free p (s'\<lparr>mem := (mem s')(ptoi s' p + unat sz + i := v)\<rparr>) = Inl (WildWrite p) \<and>
    total (unat sz) - unat sz \<ge> 1"
proof -
  obtain k l where fb: "find_block (unat sz) (free_blocks s) = Some (k, l)"
    using assms(2,3) by (cases "find_block (unat sz) (free_blocks s)") (auto simp: m61_malloc_None)
  note f = find_block_facts [OF assms(1) fb]
  have p: "p = itop s k" and s': "s' = after_malloc sz fname line k l s"
    using m61_malloc_Some [OF assms(1) fb, of fname line] assms(2) by simp_all
  have pk: "unat (p - buffer s') = k" using ptoi_itop [of k s] f(6) by (simp add: p s')
  let ?b = "make_metadata (unat sz) (total (unat sz) - unat sz) (word_of_int line)"
  let ?t = "s'\<lparr>mem := (mem s')(k + unat sz + i := v)\<rparr>"
  have b: "map_of (allocated_blocks ?t) (unat (p - buffer ?t)) = Some ?b"
    using f(3) heap_okD(1) [OF assms(1)] pk by (simp add: s' om_simps)
  have "\<not> markers_intact ?t k ?b"
    using assms(4,5) by (auto simp: markers_intact_def list_all_iff make_metadata_def
        intro!: bexI [of _ "unat sz + i"])
  then have "m61_free p ?t = Inl (WildWrite p)"
    using assms(3) b pk by (intro m61_free_wild) simp_all
  then show ?thesis using assms(5) by (simp add: pk)
qed

theorem m61_overrun_detected_witness:
  "m61_free (itop (m61_init 65536) 0)
     ((after_malloc 10 [] 1 0 HEAP_SIZE (m61_init 65536))\<lparr>mem :=
        (mem (after_malloc 10 [] 1 0 HEAP_SIZE (m61_init 65536)))(10 := 0)\<rparr>)
   = Inl (WildWrite (itop (m61_init 65536) 0))"
proof -
  have m: "m61_malloc 10 [] 1 (m61_init 65536)
    = (itop (m61_init 65536) 0, after_malloc 10 [] 1 0 HEAP_SIZE (m61_init 65536))"
    by (rule m61_malloc_init [OF base_ok_65536]) (simp add: HEAP_SIZE_def)
  have nz: "itop (m61_init 65536) 0 \<noteq> 0" by (simp add: itop_def)
  have v: "(0::u8) \<noteq> MARKER" by (simp add: MARKER_def)
  have i: "0 < total (unat (10::u64)) - unat (10::u64)" by (simp add: total_def ALIGNMENT_def)
  show ?thesis
    using m61_overrun_detected [OF heap_ok_init [OF base_ok_65536] m nz v i]
    by (simp add: itop_def)
qed

text \<open>C20: invalid frees are told apart. A second \<open>m61_free\<close> of the same pointer is a
  double free; a pointer strictly inside an active allocation that was never freed is
  reported as not allocated, with that allocation's line, the offset and its size; any
  address outside the buffer that was never freed is not in the heap.\<close>

theorem m61_free_classified:
  assumes "heap_ok s" and "p \<noteq> 0"
  shows "(m61_free p s = Inr s' \<longrightarrow> m61_free p s' = Inl (DoubleFree p)) \<and>
    (p \<notin> freed s \<longrightarrow> map_of (allocated_blocks s) k = Some b \<longrightarrow> k < ptoi s p \<longrightarrow> ptoi s p < k + blk_sz b \<longrightarrow>
       m61_free p s = Inl (NotAllocated p (Some (blk_line b, ptoi s p - k, blk_sz b)))) \<and>
    (p \<notin> freed s \<longrightarrow> HEAP_SIZE \<le> ptoi s p \<longrightarrow> m61_free p s = Inl (NotInHeap p))"
proof (intro conjI impI)
  assume free: "m61_free p s = Inr s'"
  then obtain b where s': "s' = after_free p b s" using assms(2) by (auto elim: m61_free_Inr)
  have "map_of (allocated_blocks s') (unat (p - buffer s')) = None" and "p \<in> freed s'"
    using heap_okD(1) [OF assms(1)] by (simp_all add: s' after_free_def Let_def om_simps)
  then show "m61_free p s' = Inl (DoubleFree p)"
    using assms(2) by (simp add: m61_free_invalid invalid_free_def)
next
  assume nf: "p \<notin> freed s" and b: "map_of (allocated_blocks s) k = Some b"
    and in1: "k < ptoi s p" and in2: "ptoi s p < k + blk_sz b"
  define x where "x = unat (p - buffer s)"
  have kx: "k < x" "x < k + blk_sz b" using in1 in2 by (simp_all add: x_def)
  have small: "x < HEAP_SIZE" using kx block_start_bound(2) [OF assms(1) b] by simp
  have gap: "span s j = None" if "k < j" "j \<le> x" for j
    using that kx extent_ge [of "blk_sz b + blk_align b"]
    by (intro blocks_ok_gap [OF heap_okD(3) [OF assms(1)] span_allocated [OF b]]) simp_all
  then have none: "map_of (allocated_blocks s) j = None" if "k < j" "j \<le> x" for j
    using gap [OF that] by (auto simp: span_def split: option.splits)
  have sint: "sint (p - itop s 0) = int x"
    using small by (simp add: sint64_small x_def itop_def HEAP_SIZE_def)
  have "om_before_upper_bound x (allocated_blocks s) = Some (k, b)"
  proof (cases "filter (\<lambda>(j, _). j \<le> x) (allocated_blocks s)")
    case Nil
    then show ?thesis using om_filter_empty [OF heap_okD(1) [OF assms(1)] Nil b] kx by simp
  next
    case (Cons y ys)
    obtain j c where jc: "last (y # ys) = (j, c)" by (cases "last (y # ys)")
    have "(\<lambda>(j, _). j \<le> x) = (\<lambda>(j, _::metadata). j < Suc x)" by auto
    note pk = prev_key [OF heap_okD(1) [OF assms(1)] Cons [unfolded this] jc]
    have "j = k" using pk(3) [OF b] pk(1,2) kx none [of j] by (cases "k < j") auto
    then show ?thesis using pk(1) b jc by (simp add: om_before_upper_bound_def Cons)
  qed
  then show "m61_free p s = Inl (NotAllocated p (Some (blk_line b, ptoi s p - k, blk_sz b)))"
    using assms(2) nf none [of x] kx small sint
    by (simp add: m61_free_invalid invalid_free_def flip: x_def)
next
  assume nf: "p \<notin> freed s" and big: "HEAP_SIZE \<le> ptoi s p"
  have "map_of (allocated_blocks s) (unat (p - buffer s)) = None"
    using block_start_bound(2) [OF assms(1)] blocks_okD(2) [OF heap_okD(3) [OF assms(1)] span_allocated]
      big by (cases "map_of (allocated_blocks s) (unat (p - buffer s))") fastforce+
  moreover have "int HEAP_SIZE \<le> int (unat (p - itop s 0))"
    using big by (simp only: zle_int ptoi_def)
  then have "sint (p - itop s 0) \<ge> int HEAP_SIZE \<or> sint (p - itop s 0) < 0"
    using sint64_nonneg [of "p - itop s 0"] by linarith
  ultimately show "m61_free p s = Inl (NotInHeap p)"
    using assms(2) nf by (simp add: m61_free_invalid invalid_free_def)
qed

theorem m61_free_classified_witness:
  "m61_free (65536 + 4) (snd (m61_malloc 10 [] 1 (m61_init 65536)))
     = Inl (NotAllocated (65536 + 4) (Some (1, 4, 10)))"
proof -
  have m: "m61_malloc 10 [] 1 (m61_init 65536)
    = (itop (m61_init 65536) 0, after_malloc 10 [] 1 0 HEAP_SIZE (m61_init 65536))"
    by (rule m61_malloc_init [OF base_ok_65536]) (simp add: HEAP_SIZE_def)
  let ?s = "snd (m61_malloc 10 [] 1 (m61_init 65536))"
  have ok: "heap_ok ?s" by (rule m61_malloc_heap_ok [OF heap_ok_init [OF base_ok_65536]])
  have p: "(65536 + 4 :: u64) \<noteq> 0" by simp
  have nf: "65536 + 4 \<notin> freed ?s" by (simp add: m after_malloc_def Let_def)
  have b: "map_of (allocated_blocks ?s) 0 = Some (make_metadata 10 6 1)"
    by (simp add: m total_def ALIGNMENT_def)
  show ?thesis
    using m61_free_classified [OF ok p, THEN conjunct2, THEN conjunct1, rule_format, OF nf b]
    by (simp add: make_metadata_def m)
qed

text \<open>A successful \<open>m61_calloc\<close> never suffers from overflow of the product: the
  block has exactly \<open>count * sz\<close> bytes, computed without wrap-around, they are all
  zero, and the padding still holds its markers.\<close>

theorem m61_calloc_zeroed:
  assumes "heap_ok s" and "m61_calloc count sz fname line s = (p, s')" and "p \<noteq> 0"
  shows "(\<exists>b. map_of (allocated_blocks s') (ptoi s p) = Some b \<and>
        blk_sz b = unat count * unat sz \<and> markers_intact s' (ptoi s p) b) \<and>
    (\<forall>i < unat count * unat sz. mem s' (ptoi s p + i) = 0)"
proof -
  have small: "unat count \<le> HEAP_SIZE" "unat sz \<le> HEAP_SIZE"
    using assms(2,3) by (auto simp: m61_calloc_def split: if_splits)
  then have "unat count * unat sz \<le> HEAP_SIZE * HEAP_SIZE" by (rule mult_le_mono)
  then have "unat count * unat sz < 2 ^ 64" by (rule le_less_trans) (simp add: HEAP_SIZE_def)
  then have prod: "unat (count * sz) = unat count * unat sz" by (simp add: unat_word_ariths)
  obtain s1 where m: "m61_malloc (count * sz) fname line s = (p, s1)"
    and s': "s' = s1\<lparr>mem := memset (mem s1) (ptoi s1 p) 0 (unat (count * sz))\<rparr>"
    using assms(2,3) small by (auto simp: m61_calloc_def split: prod.splits if_splits)
  obtain k l where fb: "find_block (unat (count * sz)) (free_blocks s) = Some (k, l)"
    using m assms(3) by (cases "find_block (unat (count * sz)) (free_blocks s)") (auto simp: m61_malloc_None)
  note f = find_block_facts [OF assms(1) fb]
  have p: "p = itop s k" and s1: "s1 = after_malloc (count * sz) fname line k l s"
    using m61_malloc_Some [OF assms(1) fb, of fname line] m by simp_all
  have pk: "unat (p - buffer s) = k" using ptoi_itop [of k s] f(6) by (simp add: p)
  let ?n = "unat count * unat sz"
  let ?b = "make_metadata ?n (total ?n - ?n) (word_of_int line)"
  have "map_of (allocated_blocks s') k = Some ?b"
    using f(3) heap_okD(1) [OF assms(1)] by (simp add: s' s1 om_simps prod)
  moreover have "markers_intact s' k ?b"
    by (auto simp: markers_intact_def list_all_iff s' s1 pk prod make_metadata_def mem_simps)
  moreover have "blk_sz ?b = ?n" by (simp add: make_metadata_def)
  ultimately show ?thesis by (auto simp: pk s' s1 prod mem_simps)
qed

theorem m61_calloc_zeroed_witness:
  "mem (snd (m61_calloc 2 5 [] 1 (m61_init 65536)))
     (ptoi (m61_init 65536) (fst (m61_calloc 2 5 [] 1 (m61_init 65536))) + 9) = 0"
proof -
  have m: "m61_malloc (2 * 5) [] 1 (m61_init 65536)
    = (itop (m61_init 65536) 0, after_malloc (2 * 5) [] 1 0 HEAP_SIZE (m61_init 65536))"
    by (rule m61_malloc_init [OF base_ok_65536]) (simp add: HEAP_SIZE_def)
  have nz: "itop (m61_init 65536) 0 \<noteq> 0" by (simp add: itop_def)
  have "fst (m61_calloc 2 5 [] 1 (m61_init 65536)) \<noteq> 0"
    using m nz by (simp add: m61_calloc_def HEAP_SIZE_def)
  from m61_calloc_zeroed [OF heap_ok_init [OF base_ok_65536] surjective_pairing this]
  show ?thesis by simp
qed

text \<open>When \<open>m61_realloc\<close> enlarges an allocation and does not abort, it either
  returns null and leaves every allocation as it was, or returns a block of the new
  size that starts with the bytes of the old one, and the old block is released.\<close>

theorem m61_realloc_grow:
  assumes "heap_ok s" and "p \<noteq> 0" and "map_of (allocated_blocks s) (ptoi s p) = Some b"
    and "blk_sz b < unat sz" and "m61_realloc p sz fname line s = Inr (q, s')"
  shows "if q = 0 then allocated_blocks s' = allocated_blocks s
    else map_of (allocated_blocks s') (ptoi s p) = None \<and>
      (\<exists>b'. map_of (allocated_blocks s') (ptoi s q) = Some b' \<and> blk_sz b' = unat sz) \<and>
      (\<forall>i < blk_sz b. mem s' (ptoi s q + i) = mem s (ptoi s p + i))"
proof -
  define x where "x = unat (p - buffer s)"
  have b: "map_of (allocated_blocks s) x = Some b" using assms(3) by (simp add: x_def)
  have F: "map_of (free_blocks s) x = None" by (rule heap_okD(5) [OF assms(1) b])
  have sz: "sz \<noteq> 0" "\<not> unat sz \<le> blk_sz b" using assms(4) by auto
  obtain n s1 where m: "m61_malloc sz fname line s = (n, s1)" by force
  show ?thesis
  proof (cases "find_block (unat sz) (free_blocks s)")
    case None
    with m assms(2,5) sz F b show ?thesis by (auto simp: m61_malloc_None m61_realloc_def x_def)
  next
    case (Some a)
    obtain k l where fb: "find_block (unat sz) (free_blocks s) = Some (k, l)"
      using Some by (cases a) auto
    note f = find_block_facts [OF assms(1) fb]
    have n: "n = itop s k" and s1: "s1 = after_malloc sz fname line k l s"
      using m61_malloc_Some [OF assms(1) fb, of fname line] m by simp_all
    have nz: "n \<noteq> 0" using f(6) by (simp add: n itop_nonnull [OF heap_okD(4) [OF assms(1)]])
    have nk: "unat (n - buffer s) = k" using ptoi_itop [of k s] f(6) by (simp add: n)
    let ?t = "s1\<lparr>mem := memcpy (mem s1) k x (blk_sz b)\<rparr>"
    have free: "m61_free p ?t = Inr s'" and q: "q = n"
      using assms(2,5) sz F b m nz nk
      by (auto simp: m61_realloc_def x_def s1 split: sum.splits)
    have kx: "k \<noteq> x" using f(3) b by auto
    have A: "map_of (allocated_blocks ?t) (unat (p - buffer ?t)) = Some b"
      using b kx heap_okD(1) [OF assms(1)] f(3) by (simp add: s1 om_simps flip: x_def)
    obtain b0 where s': "s' = after_free p b0 ?t"
      using free by (rule m61_free_Inr) (use assms(2) in auto)
    have disj: "k + total (unat sz) \<le> x \<or> x + blk_sz b + blk_align b \<le> k"
      using blocks_ok_disjoint [OF heap_okD(3) [OF assms(1)] f(2) span_allocated [OF b]]
        blocks_ok_disjoint [OF heap_okD(3) [OF assms(1)] span_allocated [OF b] f(2)]
        extent_ge [of "blk_sz b + blk_align b"] f(7) kx
      by (cases x k rule: linorder_cases) auto
    have "mem s' (k + i) = mem s (x + i)" if "i < blk_sz b" for i
      using that disj total_bounds(1) [of "unat sz"]
      by (auto simp: s' after_free_def Let_def s1 mem_simps)
    moreover have "map_of (allocated_blocks s') x = None \<and>
        (\<exists>b'. map_of (allocated_blocks s') k = Some b' \<and> blk_sz b' = unat sz)"
      using kx f(3) heap_okD(1) [OF assms(1)]
      by (simp add: s' after_free_def Let_def s1 om_simps make_metadata_def flip: x_def)
    ultimately show ?thesis using nz nk q by (simp flip: x_def)
  qed
qed

theorem m61_realloc_grow_witness:
  "\<exists>q s'. m61_realloc 65536 20 [] 2 (snd (m61_malloc 10 [] 1 (m61_init 65536))) = Inr (q, s') \<and>
     (if q = 0 then True else map_of (allocated_blocks s') 0 = None)"
proof -
  have m: "m61_malloc 10 [] 1 (m61_init 65536)
    = (itop (m61_init 65536) 0, after_malloc 10 [] 1 0 HEAP_SIZE (m61_init 65536))"
    by (rule m61_malloc_init [OF base_ok_65536]) (simp add: HEAP_SIZE_def)
  define s where "s = snd (m61_malloc 10 [] 1 (m61_init 65536))"
  define b where "b = make_metadata 10 6 1"
  have ok: "heap_ok s" unfolding s_def by (rule m61_malloc_heap_ok [OF heap_ok_init [OF base_ok_65536]])
  have p: "(65536 :: u64) \<noteq> 0" by simp
  have s: "buffer s = 65536" "allocated_blocks s = [(0, b)]" "free_blocks s = [(16, HEAP_SIZE - 16)]"
      "mem s = memset (\<lambda>_. 0) 10 MARKER 6"
    by (simp_all add: s_def m b_def total_def ALIGNMENT_def) (simp add: after_malloc_def total_def ALIGNMENT_def HEAP_SIZE_def)
  have bA: "map_of (allocated_blocks s) (ptoi s 65536) = Some b" by (simp add: s)
  have lt: "blk_sz b < unat (20 :: u64)" by (simp add: make_metadata_def b_def)
  have fb: "find_block (unat (20::u64)) (free_blocks s) = Some (16, HEAP_SIZE - 16)"
    by (simp add: s ALIGNMENT_def HEAP_SIZE_def)
  let ?s1 = "after_malloc 20 [] 2 16 (HEAP_SIZE - 16) s"
  let ?t = "?s1\<lparr>mem := memcpy (mem ?s1) 16 0 10\<rparr>"
  have "m61_free 65536 ?t = Inr (after_free 65536 b ?t)"
  proof (rule m61_free_valid)
    show "map_of (allocated_blocks ?t) (unat (65536 - buffer ?t)) = Some b"
      by (simp add: s)
    show "markers_intact ?t (unat (65536 - buffer ?t)) b"
      by (auto simp: markers_intact_def list_all_iff s b_def make_metadata_def mem_simps)
  qed simp
  moreover have "itop s 16 \<noteq> 0" "unat (itop s 16 - 65536) = 16" by (simp_all add: s itop_def)
  moreover have "\<not> unat (20 :: u64) \<le> blk_sz b" "blk_sz b = 10" by (simp_all add: b_def make_metadata_def)
  ultimately have r: "m61_realloc 65536 20 [] 2 s = Inr (itop s 16, after_free 65536 b ?t)"
    using m61_malloc_Some [OF ok fb, of "[]" 2] by (simp add: m61_realloc_def s)
  from m61_realloc_grow [OF ok p bA lt r] r show ?thesis
    unfolding s_def [symmetric] by (auto simp: s split: if_splits)
qed

text \<open>Shrinking with \<open>m61_realloc\<close> loses memory and falsifies the statistics. In a
  tiled buffer the call succeeds, but the bytes cut off the block belong to no block any
  more (so no later call can hand them out again), and the active size keeps counting
  them.\<close>

theorem m61_realloc_shrink_leaks:
  assumes "full_ok s" and "map_of (allocated_blocks s) (ptoi s p) = Some b" and "p \<noteq> 0"
    and "sz \<noteq> 0" and "unat sz < blk_sz b"
  shows "\<exists>s'. m61_realloc p sz fname line s = Inr (p, s') \<and> \<not> tiled (span s') \<and>
    active_size (global_stats s') = active_size (global_stats s) \<and>
    map_of (allocated_blocks s') (ptoi s p) =
      Some \<lparr>blk_sz = unat sz, blk_align = blk_align b, blk_line = word_of_int line\<rparr>"
proof -
  have hok: "heap_ok s" using assms(1) by (simp add: full_ok_def)
  define x where "x = unat (p - buffer s)"
  have b: "map_of (allocated_blocks s) x = Some b" using assms(2) by (simp add: x_def)
  have F: "map_of (free_blocks s) x = None" by (rule heap_okD(5) [OF hok b])
  define b' where "b' = b\<lparr>blk_sz := unat sz, blk_line := word_of_int line\<rparr>"
  let ?s = "s\<lparr>allocated_blocks := om_put x b' (allocated_blocks s),
      mem := memset (mem s) (x + unat sz) MARKER (blk_align b')\<rparr>"
  have r: "m61_realloc p sz fname line s = Inr (p, ?s)"
    using assms(3,4,5) F b by (simp add: m61_realloc_def Let_def b'_def flip: x_def)
  have sp: "span ?s = (span s)(x \<mapsto> unat sz + blk_align b)"
    using heap_okD(1) [OF hok] by (intro ext) (simp add: span_def om_simps b'_def split: option.split)
  note bok = heap_okD(3) [OF hok] and k = span_allocated [OF b]
  let ?y = "x + unat sz + blk_align b"
  have "?y < HEAP_SIZE" using block_start_bound(2) [OF hok b] assms(5) by simp
  moreover have "\<not> (\<exists>j m. span ?s j = Some m \<and> j \<le> ?y \<and> ?y < j + m)"
  proof
    assume "\<exists>j m. span ?s j = Some m \<and> j \<le> ?y \<and> ?y < j + m"
    then obtain j m where j: "span ?s j = Some m" "j \<le> ?y" "?y < j + m" by auto
    then have jx: "j \<noteq> x" by (auto simp: sp)
    with j(1) have sj: "span s j = Some m" by (simp add: sp)
    show False
      using blocks_ok_disjoint [OF bok k sj] blocks_ok_disjoint [OF bok sj k] jx j(2,3) assms(5)
        extent_ge [of "blk_sz b + blk_align b"] extent_ge [of m]
      by (cases j x rule: linorder_cases) auto
  qed
  ultimately have "\<not> tiled (span ?s)" unfolding tiled_def by blast
  moreover have "map_of (allocated_blocks ?s) x = Some b'"
    using heap_okD(1) [OF hok] by (simp add: om_simps)
  ultimately show ?thesis
    using r by (intro exI [of _ ?s]) (simp add: b'_def flip: x_def)
qed

theorem m61_realloc_shrink_leaks_witness:
  "\<exists>s'. m61_realloc 65536 4 [] 2 (after_malloc 10 [] 1 0 HEAP_SIZE (m61_init 65536)) = Inr (65536, s') \<and>
     \<not> tiled (span s')"
proof -
  let ?s = "after_malloc 10 [] 1 0 HEAP_SIZE (m61_init 65536)"
  have "find_block (unat (10::u64)) (free_blocks (m61_init 65536)) = Some (0, HEAP_SIZE)"
    by (simp add: ALIGNMENT_def HEAP_SIZE_def)
  then have ok: "full_ok ?s" by (rule full_ok_after_malloc [OF full_ok_init [OF base_ok_65536]])
  have b: "map_of (allocated_blocks ?s) (ptoi ?s 65536) = Some (make_metadata 10 6 1)"
    by (simp add: total_def ALIGNMENT_def)
  have nz: "(65536 :: u64) \<noteq> 0" "(4 :: u64) \<noteq> 0" by simp_all
  have lt: "unat (4 :: u64) < blk_sz (make_metadata 10 6 1)" by (simp add: make_metadata_def)
  show ?thesis using m61_realloc_shrink_leaks [OF ok b nz lt, of "[]" 2] by blast
qed

text \<open>Freeing an address inside the buffer when no active allocation starts at or
  below it makes the code decrement the first iterator of \<open>allocated_blocks\<close>: undefined
  behaviour instead of the intended report, for example in a fresh heap.\<close>

theorem m61_free_below_first_allocation:
  assumes "heap_ok s" and "p \<notin> freed s" and "p \<noteq> 0" and "ptoi s p < HEAP_SIZE"
  shows "m61_free p s = Inl UndefinedBehaviour \<longleftrightarrow>
    (\<forall>k b. map_of (allocated_blocks s) k = Some b \<longrightarrow> ptoi s p < k)"
proof -
  define x where "x = unat (p - buffer s)"
  have small: "x < HEAP_SIZE" using assms(4) by (simp add: x_def)
  have sint: "sint (p - itop s 0) = int x"
    using small by (simp add: sint64_small x_def itop_def HEAP_SIZE_def)
  have om: "om_ok (allocated_blocks s)" by (rule heap_okD(1) [OF assms(1)])
  show ?thesis
  proof (cases "map_of (allocated_blocks s) x")
    case (Some b)
    then have "m61_free p s \<noteq> Inl UndefinedBehaviour"
      using assms(3) by (cases "markers_intact s x b") (auto simp: m61_free_wild m61_free_valid x_def)
    with Some show ?thesis by (auto simp flip: x_def)
  next
    case None
    have "invalid_free p s = UndefinedBehaviour \<longleftrightarrow>
        om_before_upper_bound x (allocated_blocks s) = None"
      using assms(2) sint small
      by (auto simp: invalid_free_def simp flip: x_def split: option.split)
    also have "\<dots> \<longleftrightarrow> filter (\<lambda>(j, _). j \<le> x) (allocated_blocks s) = []"
      by (simp add: om_before_upper_bound_def split: list.split)
    also have "\<dots> \<longleftrightarrow> (\<forall>k b. map_of (allocated_blocks s) k = Some b \<longrightarrow> x < k)"
      by (fastforce simp: filter_empty_conv not_le om_set_iff [OF om, symmetric] simp del: map_of_eq_Some_iff)
    finally show ?thesis using None assms(3) by (simp add: m61_free_invalid flip: x_def)
  qed
qed

theorem m61_free_below_first_allocation_witness:
  "m61_free 65600 (m61_init 65536) = Inl UndefinedBehaviour"
  using m61_free_below_first_allocation [OF heap_ok_init [OF base_ok_65536], of 65600]
  by (simp add: HEAP_SIZE_def)

end
