(* ===== verification/Posix.thy ===== *)
theory Posix
  imports Prelude
begin

text \<open>
  The operating system that the I/O libraries and their clients run on. It is not part of
  the repository, so it is a parameter: a record of functions, one for each system call
  the sources make, over an arbitrary type \<open>'w\<close> of states of the system. What the code
  relies on is stated as laws of an \<^emph>\<open>open file\<close> (\<open>afile\<close>: an offset and the bytes of
  the file): \<open>reads_file\<close>, \<open>writes_file\<close>, \<open>seeks_file\<close>, \<open>maps_file\<close> and
  \<open>positions_file\<close>. They allow short transfers, interrupted calls and hard errors. The
  theory ends with one system that satisfies them (\<open>mem_os\<close>: one file held in memory,
  with short transfers and interruptions), on which the properties are evaluated.
\<close>

section \<open>System calls\<close>

datatype whence = SEEK_SET | SEEK_CUR

text \<open>A pointer to mapped memory: \<open>nullptr\<close>, \<open>MAP_FAILED\<close>, or an address.\<close>

datatype mapping = NullMap | MapFailed | Mapped nat

record 'w posix =
  p_read :: "int \<Rightarrow> nat \<Rightarrow> 'w \<Rightarrow> (int + u8 list) \<times> 'w"
  p_write :: "int \<Rightarrow> u8 list \<Rightarrow> 'w \<Rightarrow> (int + nat) \<times> 'w"
  p_pread :: "int \<Rightarrow> nat \<Rightarrow> int \<Rightarrow> 'w \<Rightarrow> (int + u8 list) \<times> 'w"
  p_pwrite :: "int \<Rightarrow> u8 list \<Rightarrow> int \<Rightarrow> 'w \<Rightarrow> (int + nat) \<times> 'w"
  p_lseek :: "int \<Rightarrow> int \<Rightarrow> whence \<Rightarrow> 'w \<Rightarrow> (int + int) \<times> 'w"
  p_mmap :: "u64 \<Rightarrow> int \<Rightarrow> 'w \<Rightarrow> (int + nat) \<times> 'w"
  p_munmap :: "mapping \<Rightarrow> u64 \<Rightarrow> 'w \<Rightarrow> (int + unit) \<times> 'w"
  p_peek :: "nat \<Rightarrow> 'w \<Rightarrow> u8 option"
  p_fadvise :: "int \<Rightarrow> u64 \<Rightarrow> bool \<Rightarrow> 'w \<Rightarrow> 'w"
  p_fstat :: "int \<Rightarrow> 'w \<Rightarrow> (int + bool \<times> int) \<times> 'w"
  p_open :: "string \<Rightarrow> int \<Rightarrow> 'w \<Rightarrow> (int + int) \<times> 'w"
  p_close :: "int \<Rightarrow> 'w \<Rightarrow> (int + unit) \<times> 'w"

text \<open>The state a program sees of the system: \<open>errno\<close> and the system itself.\<close>

record 'w machine =
  errno :: int
  world :: 'w

text \<open>A system call that fails returns -1 (here \<open>None\<close>) and sets \<open>errno\<close>; one that
  succeeds leaves \<open>errno\<close> alone.\<close>

definition syscall :: "('w \<Rightarrow> (int + 'a) \<times> 'w) \<Rightarrow> 'w machine \<Rightarrow> 'a option \<times> 'w machine" where
  "syscall c m = (case c (world m) of
     (Inl e, w) \<Rightarrow> (None, m\<lparr>errno := e, world := w\<rparr>)
   | (Inr a, w) \<Rightarrow> (Some a, m\<lparr>world := w\<rparr>))"

definition EINTR :: int where "EINTR = 4"
definition EAGAIN :: int where "EAGAIN = 11"
definition EINVAL :: int where "EINVAL = 22"
definition O_RDONLY :: int where "O_RDONLY = 0"
definition O_WRONLY :: int where "O_WRONLY = 1"
definition O_RDWR :: int where "O_RDWR = 2"
definition O_ACCMODE :: int where "O_ACCMODE = 3"
definition O_APPEND :: int where "O_APPEND = 1024"

lemmas errno_defs = EINTR_def EAGAIN_def EINVAL_def
lemmas mode_defs = O_RDONLY_def O_WRONLY_def O_RDWR_def

text \<open>The conversion from \<open>off_t\<close> or \<open>ssize_t\<close> to \<open>size_t\<close>, and back.\<close>

definition to_size :: "int \<Rightarrow> nat" where "to_size i = nat (i mod 2 ^ 64)"

lemma to_size_id: "0 \<le> i \<Longrightarrow> i < 2 ^ 64 \<Longrightarrow> to_size i = nat i"
  by (simp add: to_size_def)

text \<open>\<open>n\<close> bytes of a mapping, if all of them are mapped.\<close>

primrec peek_bytes :: "'w posix \<Rightarrow> nat \<Rightarrow> nat \<Rightarrow> 'w \<Rightarrow> u8 list option" where
  "peek_bytes P a 0 w = Some []"
| "peek_bytes P a (Suc n) w = do {
     b \<leftarrow> p_peek P a w;
     bs \<leftarrow> peek_bytes P (a + 1) n w;
     Some (b # bs) }"

section \<open>Open files\<close>

record afile =
  a_pos :: nat
  a_bytes :: "u8 list"

text \<open>\<open>overwrite bs off ys\<close>: the bytes \<open>bs\<close> with \<open>ys\<close> written at \<open>off\<close>; a gap past the
  end is filled with zeros.\<close>

definition overwrite :: "u8 list \<Rightarrow> nat \<Rightarrow> u8 list \<Rightarrow> u8 list" where
  "overwrite bs off ys = (if ys = [] then bs else
     take off bs @ replicate (off - length bs) 0 @ ys @ drop (off + length ys) bs)"

definition afile_put :: "u8 list \<Rightarrow> afile \<Rightarrow> afile" where
  "afile_put ys a = a\<lparr>a_pos := a_pos a + length ys, a_bytes := overwrite (a_bytes a) (a_pos a) ys\<rparr>"

definition afile_get :: "nat \<Rightarrow> afile \<Rightarrow> u8 list" where
  "afile_get n a = take n (drop (a_pos a) (a_bytes a))"

definition afile_skip :: "nat \<Rightarrow> afile \<Rightarrow> afile" where
  "afile_skip n a = a\<lparr>a_pos := a_pos a + n\<rparr>"

definition afile_seek :: "nat \<Rightarrow> afile \<Rightarrow> afile" where
  "afile_seek off a = a\<lparr>a_pos := off\<rparr>"

lemma overwrite_Nil [simp]: "overwrite bs off [] = bs"
  by (simp add: overwrite_def)

lemma length_overwrite:
  "length (overwrite bs off ys) = (if ys = [] then length bs else max (length bs) (off + length ys))"
  by (auto simp: overwrite_def)

lemma nth_overwrite:
  assumes "ys \<noteq> []" and "i < max (length bs) (off + length ys)"
  shows "overwrite bs off ys ! i =
    (if off \<le> i \<and> i < off + length ys then ys ! (i - off) else if i < length bs then bs ! i else 0)"
  using assms by (auto simp: overwrite_def nth_append min_def)

lemma overwrite_append:
  "overwrite bs off (xs @ ys) = overwrite (overwrite bs off xs) (off + length xs) ys"
proof (cases "xs = [] \<or> ys = []")
  case True
  then show ?thesis by (auto simp: overwrite_def)
next
  case False
  then have ne: "xs \<noteq> []" "ys \<noteq> []" "xs @ ys \<noteq> []" by auto
  have len: "length (overwrite bs off (xs @ ys)) = length (overwrite (overwrite bs off xs) (off + length xs) ys)"
    using ne by (simp add: length_overwrite)
  show ?thesis
  proof (rule nth_equalityI [OF len])
    fix i assume "i < length (overwrite bs off (xs @ ys))"
    then have i: "i < max (length bs) (off + length (xs @ ys))" using ne by (simp add: length_overwrite)
    then have i': "i < max (length (overwrite bs off xs)) (off + length xs + length ys)"
      using ne by (simp add: length_overwrite)
    show "overwrite bs off (xs @ ys) ! i = overwrite (overwrite bs off xs) (off + length xs) ys ! i"
      unfolding nth_overwrite [OF ne(3) i] nth_overwrite [OF ne(2) i']
      using i ne nth_overwrite [OF ne(1), of i bs off]
      by (auto simp: length_overwrite nth_append)
  qed
qed

lemma afile_put_Nil [simp]: "afile_put [] a = a"
  by (simp add: afile_put_def)

lemma afile_put_append: "afile_put (xs @ ys) a = afile_put ys (afile_put xs a)"
  by (simp add: afile_put_def overwrite_append)

lemma afile_put_end:
  "a_pos a = length (a_bytes a) \<Longrightarrow>
   a_bytes (afile_put ys a) = a_bytes a @ ys \<and> a_pos (afile_put ys a) = length (a_bytes (afile_put ys a))"
  by (auto simp: afile_put_def overwrite_def)

lemma afile_skip_0 [simp]: "afile_skip 0 a = a"
  by (simp add: afile_skip_def)

lemma afile_skip_skip [simp]: "afile_skip n (afile_skip k a) = afile_skip (k + n) a"
  by (simp add: afile_skip_def add.assoc)

lemma afile_get_add: "afile_get (k + n) a = afile_get k a @ afile_get n (afile_skip k a)"
  by (simp add: afile_get_def afile_skip_def take_add add.commute)

lemma a_bytes_skip [simp]: "a_bytes (afile_skip n a) = a_bytes a"
  and a_pos_skip [simp]: "a_pos (afile_skip n a) = a_pos a + n"
  and a_bytes_seek [simp]: "a_bytes (afile_seek n a) = a_bytes a"
  and a_pos_seek [simp]: "a_pos (afile_seek n a) = n"
  by (simp_all add: afile_skip_def afile_seek_def)

section \<open>What the code relies on\<close>

text \<open>
  \<open>\<alpha>\<close> reads the open file behind descriptor \<open>fd\<close> off the system's state. A read returns a
  prefix of the bytes at the offset, not empty unless the offset is at the end, and moves
  the offset past them; a write stores a prefix of the bytes it is given. A call that fails
  leaves the file as it was. \<open>hard\<close> holds the errors that a program cannot wait out; the
  others (an interrupted call, for instance) are bounded by the measure \<open>pat\<close>: they do not
  happen forever. \<open>\<beta>\<close> is the rest of the system the program looks at (the other open
  file), which calls on \<open>fd\<close> leave alone; memory that is mapped stays mapped.
\<close>

definition keeps :: "'w posix \<Rightarrow> ('w \<Rightarrow> 'b) \<Rightarrow> 'w \<Rightarrow> 'w \<Rightarrow> bool" where
  "keeps P \<beta> w w' \<longleftrightarrow> \<beta> w' = \<beta> w \<and> (\<forall>a b. p_peek P a w = Some b \<longrightarrow> p_peek P a w' = Some b)"

definition reads_file :: "'w posix \<Rightarrow> int \<Rightarrow> ('w \<Rightarrow> afile) \<Rightarrow> ('w \<Rightarrow> nat) \<Rightarrow> int set \<Rightarrow> ('w \<Rightarrow> 'b) \<Rightarrow> bool" where
  "reads_file P fd \<alpha> pat hard \<beta> \<longleftrightarrow> (\<forall>n w. 0 < n \<longrightarrow>
     (case p_read P fd n w of
        (Inr bs, w') \<Rightarrow> keeps P \<beta> w w' \<and> length bs \<le> n \<and> afile_get (length bs) (\<alpha> w) = bs
          \<and> (bs = [] \<longrightarrow> length (a_bytes (\<alpha> w)) \<le> a_pos (\<alpha> w))
          \<and> \<alpha> w' = afile_skip (length bs) (\<alpha> w)
      | (Inl e, w') \<Rightarrow> keeps P \<beta> w w' \<and> \<alpha> w' = \<alpha> w \<and> 0 < e \<and>
          (e \<in> hard - {EINTR, EAGAIN} \<or> e \<in> {EINTR, EAGAIN} \<and> pat w' < pat w)))"

definition writes_file :: "'w posix \<Rightarrow> int \<Rightarrow> ('w \<Rightarrow> afile) \<Rightarrow> ('w \<Rightarrow> nat) \<Rightarrow> int set \<Rightarrow> ('w \<Rightarrow> 'b) \<Rightarrow> bool" where
  "writes_file P fd \<alpha> pat hard \<beta> \<longleftrightarrow> (\<forall>bs w. bs \<noteq> [] \<longrightarrow>
     (case p_write P fd bs w of
        (Inr n, w') \<Rightarrow> keeps P \<beta> w w' \<and> n \<le> length bs \<and> \<alpha> w' = afile_put (take n bs) (\<alpha> w)
          \<and> (n = 0 \<longrightarrow> pat w' < pat w)
      | (Inl e, w') \<Rightarrow> keeps P \<beta> w w' \<and> \<alpha> w' = \<alpha> w \<and> 0 < e \<and>
          (e \<in> hard - {EINTR, EINVAL} \<or> e \<in> {EINTR, EINVAL} \<and> pat w' < pat w)))"

text \<open>A seek to an offset that is not negative succeeds, on a seekable file; \<open>lseek\<close> with
  \<open>SEEK_CUR\<close> and 0 reports the offset.\<close>

definition seeks_file :: "'w posix \<Rightarrow> int \<Rightarrow> ('w \<Rightarrow> afile) \<Rightarrow> ('w \<Rightarrow> 'b) \<Rightarrow> bool" where
  "seeks_file P fd \<alpha> \<beta> \<longleftrightarrow> (\<forall>w.
     (\<forall>off \<ge> 0. case p_lseek P fd off SEEK_SET w of
        (Inr r, w') \<Rightarrow> keeps P \<beta> w w' \<and> r = off \<and> \<alpha> w' = afile_seek (nat off) (\<alpha> w)
      | (Inl e, w') \<Rightarrow> False) \<and>
     (case p_lseek P fd 0 SEEK_CUR w of
        (Inr r, w') \<Rightarrow> keeps P \<beta> w w' \<and> r = int (a_pos (\<alpha> w)) \<and> \<alpha> w' = \<alpha> w
      | (Inl e, w') \<Rightarrow> False))"

text \<open>A mapping of the whole file, if the system grants one, shows the file's bytes. \<open>mmap\<close>
  may be refused (a pipe, an empty file). Advice changes nothing that a program can see.\<close>

definition maps_file :: "'w posix \<Rightarrow> int \<Rightarrow> ('w \<Rightarrow> afile) \<Rightarrow> ('w \<Rightarrow> 'b) \<Rightarrow> bool" where
  "maps_file P fd \<alpha> \<beta> \<longleftrightarrow> (\<forall>n w.
     (case p_mmap P n fd w of
        (Inr a, w') \<Rightarrow> keeps P \<beta> w w' \<and> \<alpha> w' = \<alpha> w \<and> unat n = length (a_bytes (\<alpha> w)) \<and>
          (\<forall>i < length (a_bytes (\<alpha> w)). p_peek P (a + i) w' = Some (a_bytes (\<alpha> w) ! i))
      | (Inl e, w') \<Rightarrow> keeps P \<beta> w w' \<and> \<alpha> w' = \<alpha> w \<and> 0 < e) \<and>
     (\<forall>b. keeps P \<beta> w (p_fadvise P fd n b w) \<and> \<alpha> (p_fadvise P fd n b w) = \<alpha> w))"

text \<open>\<open>fstat\<close> tells a regular file's size; \<open>close\<close> and \<open>munmap\<close> leave the rest alone.\<close>

definition stats_file :: "'w posix \<Rightarrow> int \<Rightarrow> ('w \<Rightarrow> afile) \<Rightarrow> ('w \<Rightarrow> 'b) \<Rightarrow> bool" where
  "stats_file P fd \<alpha> \<beta> \<longleftrightarrow> (\<forall>w. case p_fstat P fd w of
        (Inr (isreg, n), w') \<Rightarrow> keeps P \<beta> w w' \<and> \<alpha> w' = \<alpha> w \<and> (isreg \<longrightarrow> n = int (length (a_bytes (\<alpha> w))))
      | (Inl e, w') \<Rightarrow> keeps P \<beta> w w' \<and> \<alpha> w' = \<alpha> w)"

definition regular_file :: "'w posix \<Rightarrow> int \<Rightarrow> ('w \<Rightarrow> afile) \<Rightarrow> bool" where
  "regular_file P fd \<alpha> \<longleftrightarrow> (\<forall>w. \<exists>w'. p_fstat P fd w = (Inr (True, int (length (a_bytes (\<alpha> w)))), w')
     \<and> (\<forall>a b. p_peek P a w = Some b \<longrightarrow> p_peek P a w' = Some b))"

definition closes_file :: "'w posix \<Rightarrow> int \<Rightarrow> ('w \<Rightarrow> 'b) \<Rightarrow> bool" where
  "closes_file P fd \<beta> \<longleftrightarrow> (\<forall>w. \<beta> (snd (p_close P fd w)) = \<beta> w \<and> (\<forall>a n. \<beta> (snd (p_munmap P a n w)) = \<beta> w))"

text \<open>\<open>pread\<close> and \<open>pwrite\<close> work at a given offset and leave the file's offset alone.\<close>

definition positions_file :: "'w posix \<Rightarrow> int \<Rightarrow> ('w \<Rightarrow> afile) \<Rightarrow> ('w \<Rightarrow> nat) \<Rightarrow> int set \<Rightarrow> bool" where
  "positions_file P fd \<alpha> pat hard \<longleftrightarrow>
     (\<forall>n off w. 0 < n \<longrightarrow> 0 \<le> off \<longrightarrow>
     (case p_pread P fd n off w of
        (Inr bs, w') \<Rightarrow> bs = take n (drop (nat off) (a_bytes (\<alpha> w))) \<and> \<alpha> w' = \<alpha> w
      | (Inl e, w') \<Rightarrow> \<alpha> w' = \<alpha> w \<and> e \<in> hard)) \<and>
     (\<forall>bs off w. bs \<noteq> [] \<longrightarrow> 0 \<le> off \<longrightarrow>
     (case p_pwrite P fd bs off w of
        (Inr n, w') \<Rightarrow> n \<le> length bs \<and> (n = 0 \<longrightarrow> pat w' < pat w) \<and>
          \<alpha> w' = (\<alpha> w)\<lparr>a_bytes := overwrite (a_bytes (\<alpha> w)) (nat off) (take n bs)\<rparr>
      | (Inl e, w') \<Rightarrow> \<alpha> w' = \<alpha> w \<and>
          (e \<in> hard - {EINTR, EINVAL} \<or> e \<in> {EINTR, EINVAL} \<and> pat w' < pat w)))"

text \<open>The laws at one call.\<close>

lemma reads_fileD:
  assumes "reads_file P fd \<alpha> pat hard \<beta>" and "0 < n" and "p_read P fd n w = (x, w')"
  shows "keeps P \<beta> w w'"
    and "x = Inr bs \<Longrightarrow> length bs \<le> n \<and> afile_get (length bs) (\<alpha> w) = bs
          \<and> (bs = [] \<longrightarrow> length (a_bytes (\<alpha> w)) \<le> a_pos (\<alpha> w)) \<and> \<alpha> w' = afile_skip (length bs) (\<alpha> w)"
    and "x = Inl e \<Longrightarrow> \<alpha> w' = \<alpha> w \<and> 0 < e \<and>
          (e \<in> hard - {EINTR, EAGAIN} \<or> e \<in> {EINTR, EAGAIN} \<and> pat w' < pat w)"
  using assms(1) [unfolded reads_file_def, rule_format, OF assms(2), of w] assms(3)
  by (cases x; simp)+

lemma writes_fileD:
  assumes "writes_file P fd \<alpha> pat hard \<beta>" and "bs \<noteq> []" and "p_write P fd bs w = (x, w')"
  shows "keeps P \<beta> w w'"
    and "x = Inr n \<Longrightarrow> n \<le> length bs \<and> \<alpha> w' = afile_put (take n bs) (\<alpha> w) \<and> (n = 0 \<longrightarrow> pat w' < pat w)"
    and "x = Inl e \<Longrightarrow> \<alpha> w' = \<alpha> w \<and> 0 < e \<and>
          (e \<in> hard - {EINTR, EINVAL} \<or> e \<in> {EINTR, EINVAL} \<and> pat w' < pat w)"
  using assms(1) [unfolded writes_file_def, rule_format, OF assms(2), of w] assms(3)
  by (cases x; simp)+

lemma seeks_fileD:
  assumes "seeks_file P fd \<alpha> \<beta>" and "0 \<le> off"
  shows "\<exists>w'. p_lseek P fd off SEEK_SET w = (Inr off, w') \<and> keeps P \<beta> w w' \<and> \<alpha> w' = afile_seek (nat off) (\<alpha> w)"
proof -
  obtain x w' where x: "p_lseek P fd off SEEK_SET w = (x, w')" by fastforce
  from assms(1) [unfolded seeks_file_def, rule_format, THEN conjunct1, rule_format, OF assms(2), of w]
  show ?thesis unfolding x by (cases x) simp_all
qed

lemma seeks_file_curD:
  assumes "seeks_file P fd \<alpha> \<beta>"
  shows "\<exists>w'. p_lseek P fd 0 SEEK_CUR w = (Inr (int (a_pos (\<alpha> w))), w') \<and> keeps P \<beta> w w' \<and> \<alpha> w' = \<alpha> w"
proof -
  obtain x w' where x: "p_lseek P fd 0 SEEK_CUR w = (x, w')" by fastforce
  from assms(1) [unfolded seeks_file_def, rule_format, THEN conjunct2, of w]
  show ?thesis unfolding x by (cases x) simp_all
qed

lemma maps_fileD:
  assumes "maps_file P fd \<alpha> \<beta>" and "p_mmap P n fd w = (x, w')"
  shows "keeps P \<beta> w w'" and "\<alpha> w' = \<alpha> w"
    and "x = Inr a \<Longrightarrow> unat n = length (a_bytes (\<alpha> w)) \<and>
          (\<forall>i < length (a_bytes (\<alpha> w)). p_peek P (a + i) w' = Some (a_bytes (\<alpha> w) ! i))"
    and "x = Inl e \<Longrightarrow> 0 < e"
  using assms(1) [unfolded maps_file_def, THEN spec [of _ n], THEN spec [of _ w], THEN conjunct1] assms(2)
  by (cases x; simp)+

lemma advice_fileD:
  assumes "maps_file P fd \<alpha> \<beta>"
  shows "keeps P \<beta> w (p_fadvise P fd n b w)" and "\<alpha> (p_fadvise P fd n b w) = \<alpha> w"
  using assms [unfolded maps_file_def, THEN spec [of _ n], THEN spec [of _ w], THEN conjunct2, THEN spec [of _ b]] by blast+

lemma stats_fileD:
  assumes "stats_file P fd \<alpha> \<beta>" and "p_fstat P fd w = (x, w')"
  shows "keeps P \<beta> w w'" and "\<alpha> w' = \<alpha> w"
    and "x = Inr (True, n) \<Longrightarrow> n = int (length (a_bytes (\<alpha> w)))"
  using assms(1) [unfolded stats_file_def, rule_format, of w] assms(2)
  by (cases x; auto)+

section \<open>A system with files in memory\<close>

text \<open>
  The descriptors name files in memory. \<open>glitch\<close> interrupted calls come first, a transfer
  moves at most \<open>chunk + 1\<close> bytes, and, in the system \<open>mem_os True\<close>, a write fails with
  ENOSPC when \<open>room\<close> is used up. A mapping is a copy of the file at the time of the call,
  the \<open>k\<close>-th at address \<open>(k + 1) * 2 ^ 32\<close>.
\<close>

record memfile =
  mf_bytes :: "u8 list"
  mf_pos :: nat
  mf_chunk :: nat
  mf_glitch :: nat
  mf_room :: nat
  mf_mappable :: bool

record memsys =
  ms_file :: "int \<Rightarrow> memfile"
  ms_maps :: "u8 list list"

definition ms_afile :: "int \<Rightarrow> memsys \<Rightarrow> afile" where
  "ms_afile fd s = \<lparr>a_pos = mf_pos (ms_file s fd), a_bytes = mf_bytes (ms_file s fd)\<rparr>"

definition ms_glitch :: "int \<Rightarrow> memsys \<Rightarrow> nat" where
  "ms_glitch fd s = mf_glitch (ms_file s fd)"

text \<open>What operations on \<open>fd\<close> and new mappings leave alone.\<close>

definition ms_frame :: "int \<Rightarrow> (memsys \<Rightarrow> 'b) \<Rightarrow> bool" where
  "ms_frame fd \<beta> \<longleftrightarrow> (\<forall>s x. \<beta> (s\<lparr>ms_file := (ms_file s)(fd := x)\<rparr>) = \<beta> s) \<and> (\<forall>s y. \<beta> (s\<lparr>ms_maps := y\<rparr>) = \<beta> s)"

lemma ms_frame_other: "d \<noteq> e \<Longrightarrow> ms_frame d (ms_afile e)"
  by (simp add: ms_frame_def ms_afile_def)

lemma ms_frame_unit: "ms_frame d (\<lambda>s. ())"
  by (simp add: ms_frame_def)

definition mf_read :: "nat \<Rightarrow> memfile \<Rightarrow> (int + u8 list) \<times> memfile" where
  "mf_read n w = (case mf_glitch w of
     Suc k \<Rightarrow> (Inl EINTR, w\<lparr>mf_glitch := k\<rparr>)
   | 0 \<Rightarrow> (let bs = take (min n (Suc (mf_chunk w))) (drop (mf_pos w) (mf_bytes w))
           in (Inr bs, w\<lparr>mf_pos := mf_pos w + length bs\<rparr>)))"

definition mf_write :: "bool \<Rightarrow> u8 list \<Rightarrow> memfile \<Rightarrow> (int + nat) \<times> memfile" where
  "mf_write limited bs w = (case mf_glitch w of
     Suc k \<Rightarrow> (Inl EINTR, w\<lparr>mf_glitch := k\<rparr>)
   | 0 \<Rightarrow> if limited \<and> mf_room w = 0 then (Inl 28, w)
          else (let n = min (length bs) (Suc (mf_chunk w));
                    n = (if limited then min n (mf_room w) else n)
                in (Inr n, w\<lparr>mf_bytes := overwrite (mf_bytes w) (mf_pos w) (take n bs),
                              mf_pos := mf_pos w + n, mf_room := mf_room w - n\<rparr>)))"

definition on_file :: "int \<Rightarrow> (memfile \<Rightarrow> 'r \<times> memfile) \<Rightarrow> memsys \<Rightarrow> 'r \<times> memsys" where
  "on_file fd op s = (let (r, mf) = op (ms_file s fd) in (r, s\<lparr>ms_file := (ms_file s)(fd := mf)\<rparr>))"

definition ms_mmap :: "u64 \<Rightarrow> int \<Rightarrow> memsys \<Rightarrow> (int + nat) \<times> memsys" where
  "ms_mmap n fd s = (let w = ms_file s fd in
     if mf_mappable w \<and> unat n = length (mf_bytes w) \<and> n \<noteq> 0 \<and> length (mf_bytes w) < 2 ^ 32
     then (Inr ((length (ms_maps s) + 1) * 2 ^ 32), s\<lparr>ms_maps := ms_maps s @ [mf_bytes w]\<rparr>)
     else (Inl 19, s))"

definition ms_peek :: "nat \<Rightarrow> memsys \<Rightarrow> u8 option" where
  "ms_peek a s = (let k = a div 2 ^ 32; i = a mod 2 ^ 32 in
     if 0 < k \<and> k \<le> length (ms_maps s) \<and> i < length (ms_maps s ! (k - 1))
     then Some (ms_maps s ! (k - 1) ! i) else None)"

definition mem_os :: "bool \<Rightarrow> memsys posix" where
  "mem_os limited = \<lparr>
     p_read = (\<lambda>fd n. on_file fd (mf_read n)),
     p_write = (\<lambda>fd bs. on_file fd (mf_write limited bs)),
     p_pread = (\<lambda>fd n off s. (Inr (take n (drop (nat off) (mf_bytes (ms_file s fd)))), s)),
     p_pwrite = (\<lambda>fd bs off. on_file fd (\<lambda>w. let n = min (length bs) (Suc (mf_chunk w))
        in (Inr n, w\<lparr>mf_bytes := overwrite (mf_bytes w) (nat off) (take n bs)\<rparr>))),
     p_lseek = (\<lambda>fd off wh. on_file fd (\<lambda>w. case wh of
        SEEK_SET \<Rightarrow> if off < 0 then (Inl EINVAL, w) else (Inr off, w\<lparr>mf_pos := nat off\<rparr>)
      | SEEK_CUR \<Rightarrow> (Inr (int (mf_pos w)), w))),
     p_mmap = ms_mmap,
     p_munmap = (\<lambda>a n s. (Inr (), s)),
     p_peek = ms_peek,
     p_fadvise = (\<lambda>fd n b s. s),
     p_fstat = (\<lambda>fd s. (Inr (True, int (length (mf_bytes (ms_file s fd)))), s)),
     p_open = (\<lambda>name mode s. (Inr (if mode AND 3 = O_RDONLY then 3 else 4), s)),
     p_close = (\<lambda>fd s. (Inr (), s))\<rparr>"

lemma ms_peek_file [simp]: "ms_peek a (s\<lparr>ms_file := x\<rparr>) = ms_peek a s"
  by (simp add: ms_peek_def Let_def)

lemma ms_peek_append: "ms_peek a s = Some b \<Longrightarrow> ms_peek a (s\<lparr>ms_maps := ms_maps s @ [x]\<rparr>) = Some b"
  by (auto simp: ms_peek_def Let_def nth_append split: if_splits)

lemma ms_peek_new:
  assumes "length x < 2 ^ 32" and "i < length x"
  shows "ms_peek ((length (ms_maps s) + 1) * 2 ^ 32 + i) (s\<lparr>ms_maps := ms_maps s @ [x]\<rparr>) = Some (x ! i)"
proof -
  have i: "i < 2 ^ 32" using assms by simp
  have "((length (ms_maps s) + 1) * 2 ^ 32 + i) div 2 ^ 32 = length (ms_maps s) + 1"
    and "((length (ms_maps s) + 1) * 2 ^ 32 + i) mod 2 ^ 32 = i"
    using i by (simp_all only: div_mult_self3 div_less mod_mult_self3 mod_less)
  then show ?thesis unfolding ms_peek_def Let_def using assms by simp
qed

lemmas ms_defs = mem_os_def on_file_def ms_afile_def ms_glitch_def ms_frame_def keeps_def Let_def

lemma mem_os_reads: "ms_frame fd \<beta> \<Longrightarrow> reads_file (mem_os l) fd (ms_afile fd) (ms_glitch fd) {} \<beta>"
  by (auto simp: reads_file_def ms_defs mf_read_def afile_get_def afile_skip_def
        errno_defs min_def split: nat.split)

lemma mem_os_writes: "ms_frame fd \<beta> \<Longrightarrow> writes_file (mem_os False) fd (ms_afile fd) (ms_glitch fd) {} \<beta>"
  by (auto simp: writes_file_def ms_defs mf_write_def afile_put_def errno_defs min_def split: nat.split)

lemma mem_os_writes_limited: "ms_frame fd \<beta> \<Longrightarrow> writes_file (mem_os True) fd (ms_afile fd) (ms_glitch fd) {28} \<beta>"
  by (auto simp: writes_file_def ms_defs mf_write_def afile_put_def errno_defs min_def split: nat.split)

lemma mem_os_seeks: "ms_frame fd \<beta> \<Longrightarrow> seeks_file (mem_os l) fd (ms_afile fd) \<beta>"
  by (auto simp: seeks_file_def ms_defs afile_seek_def)

lemma mem_os_maps: "ms_frame fd \<beta> \<Longrightarrow> maps_file (mem_os l) fd (ms_afile fd) \<beta>"
  by (auto simp: maps_file_def ms_defs ms_mmap_def ms_peek_append
        intro: ms_peek_new [simplified] split: if_splits)

lemma mem_os_stats: "ms_frame fd \<beta> \<Longrightarrow> stats_file (mem_os l) fd (ms_afile fd) \<beta>"
  by (auto simp: stats_file_def ms_defs)

lemma mem_os_regular: "regular_file (mem_os l) fd (ms_afile fd)"
  by (auto simp: regular_file_def ms_defs)

lemma mem_os_closes: "closes_file (mem_os l) fd \<beta>"
  by (auto simp: closes_file_def ms_defs)

lemma mem_os_positions: "positions_file (mem_os l) fd (ms_afile fd) (ms_glitch fd) {}"
  by (auto simp: positions_file_def ms_defs min_def)

text \<open>A machine with the bytes \<open>ins\<close> behind descriptor 3 and an empty file behind every
  other; transfers move two bytes at most, and the first two calls on a file are interrupted.\<close>

definition demo_machine :: "bool \<Rightarrow> u8 list \<Rightarrow> memsys machine" where
  "demo_machine mappable ins = \<lparr>errno = 0, world = \<lparr>
     ms_file = (\<lambda>d. \<lparr>mf_bytes = (if d = 3 then ins else []), mf_pos = 0, mf_chunk = 1, mf_glitch = 2,
       mf_room = 2, mf_mappable = mappable\<rparr>), ms_maps = []\<rparr>\<rparr>"

lemma demo_afile: "ms_afile d (world (demo_machine b ins)) = \<lparr>a_pos = 0, a_bytes = (if d = 3 then ins else [])\<rparr>"
  by (simp add: ms_afile_def demo_machine_def)

end
