(* ===== verification/Io61.thy ===== *)
theory Io61
  imports Posix "HOL-Library.Signed_Division"
begin

text \<open>
  The caching I/O library, \<open>src/pset6/io61.cc\<close> (the same text as
  \<open>src/pset4/io61.cc\<close>), except its file locks (theory Filelock). A function of the source
  takes the open file \<open>f\<close> and the machine and returns them updated; \<open>None\<close> is a run that
  does not return: a failed assertion, an access outside \<open>cbuf\<close> or outside mapped memory,
  or a system call retried forever. Bytes that the source stores in a caller's buffer are
  returned as a list. Offsets are integers; \<open>size\<close> is a 64-bit word because the code
  relies on -1 becoming the largest \<open>size_t\<close>. Every function runs with \<open>f->m\<close> held, so
  it is one step of its thread.
\<close>

section \<open>The open file\<close>

record io61_file =
  fd :: int
  mode :: int
  seekable :: bool
  fsize :: u64
  cbuf :: "nat \<Rightarrow> u8"
  tag :: int
  pos_tag :: int
  end_tag :: int
  map_ptr :: mapping
  is_seq :: bool
  dirty :: bool
  positioned :: bool
  chunk_sz :: int
  nlocked :: "nat \<Rightarrow> int"
  owner :: "nat \<Rightarrow> nat"

abbreviation cbufsz :: int where "cbufsz \<equiv> 8192"

definition nchunks :: nat where "nchunks = 262144"

text \<open>\<open>memcpy\<close> out of and into \<open>cbuf\<close>, from the given index.\<close>

definition cbuf_load :: "io61_file \<Rightarrow> int \<Rightarrow> nat \<Rightarrow> u8 list option" where
  "cbuf_load f i n = (if 0 \<le> i \<and> i + int n \<le> cbufsz
     then Some (map (cbuf f) [nat i ..< nat i + n]) else None)"

definition cbuf_put :: "int \<Rightarrow> u8 list \<Rightarrow> io61_file \<Rightarrow> io61_file" where
  "cbuf_put i bs f = f\<lparr>cbuf := (\<lambda>k. if nat i \<le> k \<and> k < nat i + length bs then bs ! (k - nat i) else cbuf f k)\<rparr>"

definition cbuf_store :: "io61_file \<Rightarrow> int \<Rightarrow> u8 list \<Rightarrow> io61_file option" where
  "cbuf_store f i bs = (if 0 \<le> i \<and> i + int (length bs) \<le> cbufsz then Some (cbuf_put i bs f) else None)"

definition io61_check_assertions :: "io61_file \<Rightarrow> bool" where
  "io61_check_assertions f \<longleftrightarrow>
     tag f \<le> pos_tag f \<and> pos_tag f \<le> end_tag f
     \<and> (map_ptr f = MapFailed \<longrightarrow> end_tag f - pos_tag f \<le> cbufsz)
     \<and> (mode f = O_WRONLY \<longrightarrow> pos_tag f = end_tag f)"

section \<open>Opening\<close>

definition io61_filesize :: "'w posix \<Rightarrow> int \<Rightarrow> 'w machine \<Rightarrow> int \<times> 'w machine" where
  "io61_filesize P d m = (case syscall (p_fstat P d) m of
     (Some (isreg, sz), m) \<Rightarrow> (if isreg then sz else -1, m)
   | (None, m) \<Rightarrow> (-1, m))"

text \<open>\<open>new\<close> leaves \<open>cbuf\<close> with whatever the memory held: \<open>junk\<close>.\<close>

definition io61_fdopen :: "'w posix \<Rightarrow> (nat \<Rightarrow> u8) \<Rightarrow> int \<Rightarrow> int \<Rightarrow> 'w machine \<Rightarrow>
    (io61_file \<times> 'w machine) option" where
  "io61_fdopen P junk d md m = do {
     assert_ok (0 \<le> d);
     assert_ok (md AND O_APPEND = 0);
     let (off, m) = syscall (p_lseek P d 0 SEEK_CUR) m;
     let (sk, off) = (case off of Some r \<Rightarrow> (True, r) | None \<Rightarrow> (False, 0));
     let (sz, m) = io61_filesize P d m;
     let (sz2, m) = io61_filesize P d m;
     let chunk = int (to_size sz2 div nchunks);
     let chunk = (if chunk < 16 then 16 else chunk);
     Some (\<lparr>fd = d, mode = md AND O_ACCMODE, seekable = sk, fsize = of_int sz,
            cbuf = junk, tag = off, pos_tag = off, end_tag = off, map_ptr = NullMap,
            is_seq = True, dirty = False, positioned = False,
            chunk_sz = chunk, nlocked = (\<lambda>i. 0), owner = (\<lambda>i. 0)\<rparr>, m) }"

section \<open>Filling the cache\<close>

text \<open>The retry loop of \<open>io61_fill\<close>: \<open>None\<close> inside the result is -1.\<close>

partial_function (option) fill_read :: "'w posix \<Rightarrow> int \<Rightarrow> 'w machine \<Rightarrow>
    (u8 list option \<times> 'w machine) option" where
  "fill_read P d m = (case syscall (p_read P d (nat cbufsz)) m of
     (Some bs, m) \<Rightarrow> Some (Some bs, m)
   | (None, m) \<Rightarrow> if errno m \<noteq> EINTR \<and> errno m \<noteq> EAGAIN then Some (None, m)
                  else fill_read P d m)"

definition io61_fill :: "'w posix \<Rightarrow> io61_file \<Rightarrow> 'w machine \<Rightarrow> (int \<times> io61_file \<times> 'w machine) option" where
  "io61_fill P f m = do {
     let f = f\<lparr>tag := end_tag f, pos_tag := end_tag f\<rparr>;
     (r, m) \<leftarrow> fill_read P (fd f) m;
     case r of
       None \<Rightarrow> Some (-1, f, m)
     | Some bs \<Rightarrow> do {
         f \<leftarrow> cbuf_store f 0 bs;
         Some (0, f\<lparr>end_tag := end_tag f + int (length bs)\<rparr>, m) } }"

text \<open>The first read of a file tries to map it.\<close>

definition try_map :: "'w posix \<Rightarrow> io61_file \<Rightarrow> 'w machine \<Rightarrow> io61_file \<times> 'w machine" where
  "try_map P f m = (if map_ptr f \<noteq> NullMap then (f, m) else
     (case syscall (p_mmap P (fsize f) (fd f)) m of
        (Some a, m) \<Rightarrow>
          (f\<lparr>map_ptr := Mapped a, tag := 0, end_tag := sint (fsize f)\<rparr>,
           if is_seq f then m\<lparr>world := p_fadvise P (fd f) (fsize f) True (world m)\<rparr> else m)
      | (None, m) \<Rightarrow> (f\<lparr>map_ptr := MapFailed\<rparr>, m)))"

section \<open>Reading\<close>

text \<open>A refill of an empty cache; false is the \<open>break\<close> or the return on an error or at
  the end of the file.\<close>

definition refill :: "'w posix \<Rightarrow> io61_file \<Rightarrow> 'w machine \<Rightarrow> (bool \<times> io61_file \<times> 'w machine) option" where
  "refill P f m = (if pos_tag f = end_tag f then do {
       (r, f, m) \<leftarrow> io61_fill P f m;
       Some (\<not> (r < 0 \<or> pos_tag f = end_tag f), f, m) }
     else Some (True, f, m))"

definition io61_readc :: "'w posix \<Rightarrow> io61_file \<Rightarrow> 'w machine \<Rightarrow> (int \<times> io61_file \<times> 'w machine) option" where
  "io61_readc P f m = do {
     assert_ok (io61_check_assertions f);
     let (f, m) = try_map P f m;
     case map_ptr f of
       Mapped a \<Rightarrow>
         if pos_tag f < end_tag f then do {
           let f = f\<lparr>pos_tag := pos_tag f + 1\<rparr>;
           assert_ok (io61_check_assertions f);
           assert_ok (0 \<le> pos_tag f - 1);
           ch \<leftarrow> p_peek P (a + nat (pos_tag f - 1)) (world m);
           Some (uint ch, f, m) }
         else Some (-1, f, m)
     | _ \<Rightarrow> do {
         (ok, f, m) \<leftarrow> refill P f m;
         if \<not> ok then Some (-1, f, m) else do {
           bs \<leftarrow> cbuf_load f (pos_tag f - tag f) 1;
           let f = f\<lparr>pos_tag := pos_tag f + 1\<rparr>;
           assert_ok (io61_check_assertions f);
           Some (uint (hd bs), f, m) } } }"

partial_function (option) read_cache_loop :: "'w posix \<Rightarrow> nat \<Rightarrow> u8 list \<Rightarrow> io61_file \<Rightarrow> 'w machine \<Rightarrow>
    (u8 list \<times> io61_file \<times> 'w machine) option" where
  "read_cache_loop P sz buf f m = (if length buf < sz then do {
       (ok, f, m) \<leftarrow> refill P f m;
       if \<not> ok then Some (buf, f, m) else do {
         let curr_read = min (to_size (end_tag f - pos_tag f)) (sz - length buf);
         bs \<leftarrow> cbuf_load f (pos_tag f - tag f) curr_read;
         read_cache_loop P sz (buf @ bs) (f\<lparr>pos_tag := pos_tag f + int curr_read\<rparr>) m } }
     else Some (buf, f, m))"

definition io61_read_cache :: "'w posix \<Rightarrow> io61_file \<Rightarrow> nat \<Rightarrow> 'w machine \<Rightarrow>
    (int \<times> u8 list \<times> io61_file \<times> 'w machine) option" where
  "io61_read_cache P f sz m = do {
     assert_ok (io61_check_assertions f);
     (buf, f, m) \<leftarrow> read_cache_loop P sz [] f m;
     Some (if length buf \<noteq> 0 \<or> sz = 0 \<or> errno m = 0 then int (length buf) else -1, buf, f, m) }"

definition io61_read :: "'w posix \<Rightarrow> io61_file \<Rightarrow> nat \<Rightarrow> 'w machine \<Rightarrow>
    (int \<times> u8 list \<times> io61_file \<times> 'w machine) option" where
  "io61_read P f sz m = do {
     let (f, m) = try_map P f m;
     case map_ptr f of
       Mapped a \<Rightarrow> do {
         let nread = min sz (unat (fsize f - of_int (pos_tag f)));
         assert_ok (0 \<le> pos_tag f);
         bs \<leftarrow> peek_bytes P (a + nat (pos_tag f)) nread (world m);
         Some (int nread, bs, f\<lparr>pos_tag := pos_tag f + int nread\<rparr>, m) }
     | _ \<Rightarrow> io61_read_cache P f sz m }"

section \<open>Flushing\<close>

text \<open>The retry loops of the two flushes; false is the return of -1.\<close>

partial_function (option) flush_loop :: "'w posix \<Rightarrow> io61_file \<Rightarrow> int \<Rightarrow> 'w machine \<Rightarrow> (bool \<times> 'w machine) option" where
  "flush_loop P f flush_tag m = (if flush_tag = end_tag f then Some (True, m) else do {
       bs \<leftarrow> cbuf_load f (flush_tag - tag f) (to_size (end_tag f - flush_tag));
       case syscall (p_write P (fd f) bs) m of
         (Some nw, m) \<Rightarrow> flush_loop P f (flush_tag + int nw) m
       | (None, m) \<Rightarrow> if errno m \<noteq> EINTR \<and> errno m \<noteq> EINVAL then Some (False, m)
                      else flush_loop P f flush_tag m })"

definition io61_flush_dirty :: "'w posix \<Rightarrow> io61_file \<Rightarrow> 'w machine \<Rightarrow> (int \<times> io61_file \<times> 'w machine) option" where
  "io61_flush_dirty P f m = do {
     (ok, m) \<leftarrow> flush_loop P f (tag f) m;
     Some (if ok then (0, f\<lparr>dirty := False, tag := end_tag f, pos_tag := end_tag f\<rparr>, m)
           else (-1, f, m)) }"

partial_function (option) pflush_loop :: "'w posix \<Rightarrow> io61_file \<Rightarrow> int \<Rightarrow> 'w machine \<Rightarrow> (bool \<times> 'w machine) option" where
  "pflush_loop P f flush_tag m = (if flush_tag = end_tag f then Some (True, m) else do {
       bs \<leftarrow> cbuf_load f (flush_tag - tag f) (to_size (end_tag f - flush_tag));
       case syscall (p_pwrite P (fd f) bs flush_tag) m of
         (Some nw, m) \<Rightarrow> pflush_loop P f (flush_tag + int nw) m
       | (None, m) \<Rightarrow> if errno m \<noteq> EINTR \<and> errno m \<noteq> EINVAL then Some (False, m)
                      else pflush_loop P f flush_tag m })"

definition io61_flush_dirty_positioned :: "'w posix \<Rightarrow> io61_file \<Rightarrow> 'w machine \<Rightarrow>
    (int \<times> io61_file \<times> 'w machine) option" where
  "io61_flush_dirty_positioned P f m = do {
     (ok, m) \<leftarrow> pflush_loop P f (tag f) m;
     Some (if ok then (0, f\<lparr>dirty := False\<rparr>, m) else (-1, f, m)) }"

definition io61_flush_clean :: "'w posix \<Rightarrow> io61_file \<Rightarrow> 'w machine \<Rightarrow> int \<times> io61_file \<times> 'w machine" where
  "io61_flush_clean P f m = (if \<not> positioned f \<and> seekable f then
       (case syscall (p_lseek P (fd f) (pos_tag f) SEEK_SET) m of
          (None, m) \<Rightarrow> (-1, f, m)
        | (Some r, m) \<Rightarrow> (0, f\<lparr>tag := pos_tag f, end_tag := pos_tag f\<rparr>, m))
     else (0, f, m))"

definition io61_flush :: "'w posix \<Rightarrow> io61_file \<Rightarrow> 'w machine \<Rightarrow> (int \<times> io61_file \<times> 'w machine) option" where
  "io61_flush P f m =
     (if dirty f \<and> positioned f then io61_flush_dirty_positioned P f m
      else if dirty f then io61_flush_dirty P f m
      else Some (io61_flush_clean P f m))"

text \<open>The results of the three calls that \<open>io61_close\<close> makes, with the library's own
  record dropped. The result is that of \<open>close\<close>.\<close>

definition io61_close :: "'w posix \<Rightarrow> io61_file \<Rightarrow> 'w machine \<Rightarrow> (int \<times> 'w machine) option" where
  "io61_close P f m = do {
     (_, f, m) \<leftarrow> io61_flush P f m;
     let (r, m) = syscall (p_close P (fd f)) m;
     let (_, m) = syscall (p_munmap P (map_ptr f) (if 0 < fsize f then fsize f else of_int cbufsz)) m;
     Some (if r = None then -1 else 0, m) }"

section \<open>Writing\<close>

definition io61_writec :: "'w posix \<Rightarrow> io61_file \<Rightarrow> int \<Rightarrow> 'w machine \<Rightarrow> (int \<times> io61_file \<times> 'w machine) option" where
  "io61_writec P f c m = do {
     assert_ok (io61_check_assertions f);
     assert_ok (\<not> positioned f);
     (r, f, m) \<leftarrow> (if end_tag f = tag f + cbufsz then io61_flush P f m else Some (0, f, m));
     if r < 0 then Some (-1, f, m) else do {
       f \<leftarrow> cbuf_store f (pos_tag f - tag f) [of_int c];
       let f = f\<lparr>pos_tag := pos_tag f + 1, end_tag := end_tag f + 1, dirty := True\<rparr>;
       assert_ok (io61_check_assertions f);
       Some (0, f, m) } }"

partial_function (option) write_loop :: "'w posix \<Rightarrow> u8 list \<Rightarrow> nat \<Rightarrow> io61_file \<Rightarrow> 'w machine \<Rightarrow>
    (nat \<times> io61_file \<times> 'w machine) option" where
  "write_loop P buf nwritten f m = (if nwritten < length buf then do {
       (r, f, m) \<leftarrow> (if end_tag f = tag f + cbufsz then io61_flush P f m else Some (0, f, m));
       if r = -1 then Some (nwritten, f, m) else do {
         let curr_write = min (to_size (cbufsz + tag f - pos_tag f)) (length buf - nwritten);
         if curr_write = 0 then Some (nwritten, f, m) else do {
           f \<leftarrow> cbuf_store f (pos_tag f - tag f) (take curr_write (drop nwritten buf));
           write_loop P buf (nwritten + curr_write)
             (f\<lparr>pos_tag := pos_tag f + int curr_write, end_tag := end_tag f + int curr_write,
                dirty := True\<rparr>) m } } }
     else Some (nwritten, f, m))"

definition io61_write :: "'w posix \<Rightarrow> io61_file \<Rightarrow> u8 list \<Rightarrow> 'w machine \<Rightarrow> (int \<times> io61_file \<times> 'w machine) option" where
  "io61_write P f buf m = do {
     assert_ok (io61_check_assertions f);
     assert_ok (\<not> positioned f);
     (nwritten, f, m) \<leftarrow> write_loop P buf 0 f m;
     Some (if nwritten \<noteq> 0 \<or> buf = [] then int nwritten else -1, f, m) }"

section \<open>Seeking\<close>

definition io61_seek :: "'w posix \<Rightarrow> io61_file \<Rightarrow> int \<Rightarrow> 'w machine \<Rightarrow> (int \<times> io61_file \<times> 'w machine) option" where
  "io61_seek P f off m = do {
     assert_ok (io61_check_assertions f);
     if mode f = O_RDONLY \<and> tag f \<le> off \<and> end_tag f > off then Some (0, f\<lparr>pos_tag := off\<rparr>, m)
     else do {
       (r, f, m) \<leftarrow> (if mode f = O_WRONLY then io61_flush P f m else Some (0, f, m));
       if r < 0 then Some (-1, f, m) else
       (case syscall (p_lseek P (fd f) off SEEK_SET) m of
          (None, m) \<Rightarrow> Some (-1, f, m)
        | (Some _, m) \<Rightarrow>
            let f = f\<lparr>pos_tag := off, positioned := False\<rparr> in
            if mode f = O_WRONLY then Some (0, f\<lparr>tag := off, end_tag := off\<rparr>, m) else
            let (f, m) = (if map_ptr f = NullMap then
                (case syscall (p_mmap P (fsize f) (fd f)) m of
                   (Some a, m) \<Rightarrow> (f\<lparr>map_ptr := Mapped a, tag := 0, end_tag := sint (fsize f)\<rparr>, m)
                 | (None, m) \<Rightarrow> (f\<lparr>map_ptr := MapFailed, tag := 0, end_tag := sint (fsize f)\<rparr>, m))
              else (f, m)) in
            if map_ptr f = MapFailed then Some (0, f\<lparr>tag := off, end_tag := off\<rparr>, m) else
            let m = (if is_seq f then m\<lparr>world := p_fadvise P (fd f) (fsize f) False (world m)\<rparr> else m) in
            Some (0, f\<lparr>is_seq := False\<rparr>, m)) } }"

section \<open>Positioned reads and writes\<close>

definition io61_pfill :: "'w posix \<Rightarrow> io61_file \<Rightarrow> int \<Rightarrow> 'w machine \<Rightarrow> (int \<times> io61_file \<times> 'w machine) option" where
  "io61_pfill P f off m = do {
     assert_ok (mode f = O_RDWR);
     (r, f, m) \<leftarrow> (if dirty f then io61_flush P f m else Some (0, f, m));
     if r = -1 then Some (-1, f, m) else do {
       let off = off - off smod 8192;
       case syscall (p_pread P (fd f) (nat cbufsz) off) m of
         (None, m) \<Rightarrow> Some (-1, f, m)
       | (Some bs, m) \<Rightarrow> do {
           f \<leftarrow> cbuf_store f 0 bs;
           Some (0, f\<lparr>tag := off, end_tag := off + int (length bs), positioned := True\<rparr>, m) } } }"

definition pcache :: "'w posix \<Rightarrow> io61_file \<Rightarrow> int \<Rightarrow> 'w machine \<Rightarrow> (int \<times> io61_file \<times> 'w machine) option" where
  "pcache P f off m = (if \<not> positioned f \<or> off < tag f \<or> end_tag f \<le> off then io61_pfill P f off m
     else Some (0, f, m))"

definition io61_pread :: "'w posix \<Rightarrow> io61_file \<Rightarrow> nat \<Rightarrow> int \<Rightarrow> 'w machine \<Rightarrow>
    (int \<times> u8 list \<times> io61_file \<times> 'w machine) option" where
  "io61_pread P f sz off m = do {
     (r, f, m) \<leftarrow> pcache P f off m;
     if r = -1 then Some (-1, [], f, m) else do {
       let ncopy = min sz (to_size (end_tag f - off));
       bs \<leftarrow> cbuf_load f (off - tag f) ncopy;
       Some (int ncopy, bs, f, m) } }"

definition io61_pwrite :: "'w posix \<Rightarrow> io61_file \<Rightarrow> u8 list \<Rightarrow> int \<Rightarrow> 'w machine \<Rightarrow>
    (int \<times> io61_file \<times> 'w machine) option" where
  "io61_pwrite P f buf off m = do {
     (r, f, m) \<leftarrow> pcache P f off m;
     if r = -1 then Some (-1, f, m) else do {
       let ncopy = min (length buf) (to_size (end_tag f - off));
       f \<leftarrow> cbuf_store f (off - tag f) (take ncopy buf);
       Some (int ncopy, f\<lparr>dirty := True\<rparr>, m) } }"

section \<open>Opening by name\<close>

definition io61_open_check :: "'w posix \<Rightarrow> (nat \<Rightarrow> u8) \<Rightarrow> string option \<Rightarrow> int \<Rightarrow> 'w machine \<Rightarrow>
    (io61_file \<times> 'w machine) option" where
  "io61_open_check P junk filename md m = do {
     let (r, m) = (case filename of
        Some name \<Rightarrow> syscall (p_open P name md) m
      | None \<Rightarrow> (Some (if md AND O_ACCMODE = O_RDONLY then 0 else 1), m));
     case r of
       None \<Rightarrow> None
     | Some d \<Rightarrow> io61_fdopen P junk d (md AND O_ACCMODE) m }"

definition io61_fileno :: "io61_file \<Rightarrow> int" where
  "io61_fileno f = fd f"

end
