(* ===== verification/Io61Read.thy ===== *)
theory Io61Read
  imports Io61
begin

text \<open>
  The reading side of \<open>io61.cc\<close>: on a file opened read-only, the cached or mapped
  file behaves as the plain file \<open>rabs\<close> (an offset and bytes), for \<open>io61_readc\<close>,
  \<open>io61_read\<close> and \<open>io61_seek\<close>. The invariant \<open>rinv\<close> ties the cache or the mapping to the
  system's state of the file.
\<close>

section \<open>Helpers\<close>

lemma keeps_refl [simp]: "keeps P \<beta> w w"
  by (simp add: keeps_def)

lemma keeps_trans: "keeps P \<beta> w w' \<Longrightarrow> keeps P \<beta> w' w'' \<Longrightarrow> keeps P \<beta> w w''"
  by (simp add: keeps_def)

lemma keeps_peek: "keeps P \<beta> w w' \<Longrightarrow> p_peek P a w = Some b \<Longrightarrow> p_peek P a w' = Some b"
  by (simp add: keeps_def)

lemma afile_get_length_le: "length bs \<le> n \<Longrightarrow> bs = afile_get (length bs) a \<Longrightarrow> bs = take (length bs) (afile_get n a)"
  by (simp add: afile_get_def)

lemma afile_get_full: "length (afile_get n a) = min n (length (a_bytes a) - a_pos a)"
  by (simp add: afile_get_def)

lemma cbuf_load_Some: "0 \<le> i \<Longrightarrow> i + int n \<le> cbufsz \<Longrightarrow> cbuf_load f i n = Some (map (cbuf f) [nat i ..< nat i + n])"
  by (simp add: cbuf_load_def)

lemma cbuf_put_simps [simp]:
  "fd (cbuf_put i bs f) = fd f" "mode (cbuf_put i bs f) = mode f" "seekable (cbuf_put i bs f) = seekable f"
  "fsize (cbuf_put i bs f) = fsize f" "tag (cbuf_put i bs f) = tag f" "pos_tag (cbuf_put i bs f) = pos_tag f"
  "end_tag (cbuf_put i bs f) = end_tag f" "map_ptr (cbuf_put i bs f) = map_ptr f"
  "is_seq (cbuf_put i bs f) = is_seq f" "dirty (cbuf_put i bs f) = dirty f"
  "positioned (cbuf_put i bs f) = positioned f"
  by (simp_all add: cbuf_put_def)

lemma cbuf_put_0: "map (cbuf (cbuf_put 0 bs f)) [0..<length bs] = bs"
  by (rule nth_equalityI) (simp_all add: cbuf_put_def)

lemma peek_bytes_Some:
  "\<forall>i < n. p_peek P (a + i) w = Some (g i) \<Longrightarrow> peek_bytes P a n w = Some (map g [0..<n])"
proof (induction n arbitrary: a g)
  case (Suc n)
  have "\<forall>i < n. p_peek P (a + 1 + i) w = Some (g (Suc i))"
    using Suc.prems by (metis Suc_less_eq add.commute add_Suc_right plus_1_eq_Suc)
  from Suc.IH [OF this] have "peek_bytes P (a + 1) n w = Some (map (\<lambda>i. g (Suc i)) [0..<n])" .
  moreover have "p_peek P a w = Some (g 0)" using Suc.prems [rule_format, of 0] by simp
  ultimately show ?case by (simp add: map_upt_Suc del: upt_Suc)
qed simp

section \<open>The invariant\<close>

definition rinv :: "'w posix \<Rightarrow> ('w \<Rightarrow> afile) \<Rightarrow> ('w \<Rightarrow> nat) \<Rightarrow> int set \<Rightarrow> ('w \<Rightarrow> 'b) \<Rightarrow> io61_file \<Rightarrow> 'w machine \<Rightarrow> bool" where
  "rinv P \<alpha> pat hard \<beta> f m \<longleftrightarrow>
     reads_file P (fd f) \<alpha> pat hard \<beta> \<and> maps_file P (fd f) \<alpha> \<beta>
     \<and> (seekable f \<longrightarrow> seeks_file P (fd f) \<alpha> \<beta>) \<and> mode f = O_RDONLY \<and> \<not> dirty f \<and> \<not> positioned f
     \<and> length (a_bytes (\<alpha> (world m))) < 2 ^ 63
     \<and> (let a = \<alpha> (world m); bytes = a_bytes a in
        case map_ptr f of
          NullMap \<Rightarrow> tag f = int (a_pos a) \<and> pos_tag f = int (a_pos a) \<and> end_tag f = int (a_pos a)
        | MapFailed \<Rightarrow> 0 \<le> tag f \<and> tag f \<le> pos_tag f \<and> pos_tag f \<le> end_tag f \<and> end_tag f \<le> tag f + cbufsz
            \<and> end_tag f = int (a_pos a)
            \<and> map (cbuf f) [0..<nat (end_tag f - tag f)] = take (nat (end_tag f - tag f)) (drop (nat (tag f)) bytes)
        | Mapped p \<Rightarrow> tag f = 0 \<and> end_tag f = int (length bytes) \<and> unat (fsize f) = length bytes
            \<and> 0 \<le> pos_tag f \<and> (\<forall>i < length bytes. p_peek P (p + i) (world m) = Some (bytes ! i)))"

text \<open>The file as the program sees it: the offset is that of the next byte to read.\<close>

definition rabs :: "('w \<Rightarrow> afile) \<Rightarrow> io61_file \<Rightarrow> 'w machine \<Rightarrow> afile" where
  "rabs \<alpha> f m = afile_seek (nat (pos_tag f)) (\<alpha> (world m))"

lemma rinv_check:
  "rinv P \<alpha> pat hard \<beta> f m \<Longrightarrow> pos_tag f \<le> int (length (a_bytes (\<alpha> (world m)))) \<Longrightarrow> io61_check_assertions f"
  by (auto simp: rinv_def io61_check_assertions_def mode_defs Let_def split: mapping.splits)

section \<open>Refilling\<close>

lemma fill_read_spec:
  assumes "reads_file P d \<alpha> pat hard \<beta>"
  shows "\<exists>r m'. fill_read P d m = Some (r, m') \<and> keeps P \<beta> (world m) (world m') \<and>
    (case r of
       Some bs \<Rightarrow> length bs \<le> 8192 \<and> afile_get (length bs) (\<alpha> (world m)) = bs
         \<and> (bs = [] \<longrightarrow> length (a_bytes (\<alpha> (world m))) \<le> a_pos (\<alpha> (world m)))
         \<and> \<alpha> (world m') = afile_skip (length bs) (\<alpha> (world m))
     | None \<Rightarrow> \<alpha> (world m') = \<alpha> (world m) \<and> errno m' \<in> hard \<and> 0 < errno m')"
proof (induction "pat (world m)" arbitrary: m rule: less_induct)
  case less
  have *: "fill_read P d m = (case syscall (p_read P d (nat cbufsz)) m of
     (Some bs, m) \<Rightarrow> Some (Some bs, m)
   | (None, m) \<Rightarrow> if errno m \<noteq> EINTR \<and> errno m \<noteq> EAGAIN then Some (None, m) else fill_read P d m)"
    by (rule fill_read.simps)
  obtain x w' where pr: "p_read P d 8192 (world m) = (x, w')" by fastforce
  have pos: "0 < (8192::nat)" by simp
  note law = reads_fileD [OF assms pos pr]
  show ?case
  proof (cases x)
    case (Inr bs)
    then show ?thesis using law(1) law(2) [OF Inr] unfolding * by (simp add: syscall_def pr)
  next
    case (Inl e)
    let ?m = "m\<lparr>errno := e, world := w'\<rparr>"
    have l: "keeps P \<beta> (world m) w'" "\<alpha> w' = \<alpha> (world m)" "0 < e"
       "e \<in> hard - {EINTR, EAGAIN} \<or> e \<in> {EINTR, EAGAIN} \<and> pat w' < pat (world m)"
      using law(1) law(3) [OF Inl] by simp_all
    show ?thesis
    proof (cases "e \<in> {EINTR, EAGAIN}")
      case False
      then show ?thesis using l unfolding * by (auto simp: syscall_def pr Inl)
    next
      case True
      have "pat w' < pat (world m)" using l(4) True by blast
      moreover have wm: "world ?m = w'" by simp
      ultimately obtain r m' where r: "fill_read P d ?m = Some (r, m')" and
        k: "keeps P \<beta> w' (world m')" and c: "case r of
       Some bs \<Rightarrow> length bs \<le> 8192 \<and> afile_get (length bs) (\<alpha> w') = bs
         \<and> (bs = [] \<longrightarrow> length (a_bytes (\<alpha> w')) \<le> a_pos (\<alpha> w'))
         \<and> \<alpha> (world m') = afile_skip (length bs) (\<alpha> w')
     | None \<Rightarrow> \<alpha> (world m') = \<alpha> w' \<and> errno m' \<in> hard \<and> 0 < errno m'" using less [of ?m, unfolded wm] by blast
      have "fill_read P d m = Some (r, m')" unfolding * using True r by (auto simp: syscall_def pr Inl)
      then show ?thesis using keeps_trans [OF l(1) k] c unfolding l(2) by blast
    qed
  qed
qed

lemma refill_spec:
  assumes inv: "rinv P \<alpha> pat hard \<beta> f m" and mf: "map_ptr f = MapFailed"
  shows "\<exists>ok f' m'. refill P f m = Some (ok, f', m') \<and> rinv P \<alpha> pat hard \<beta> f' m' \<and> map_ptr f' = MapFailed
    \<and> fd f' = fd f \<and> rabs \<alpha> f' m' = rabs \<alpha> f m \<and> pos_tag f' = pos_tag f \<and> keeps P \<beta> (world m) (world m')
    \<and> (if ok then pos_tag f' < end_tag f' else
         length (a_bytes (rabs \<alpha> f m)) \<le> a_pos (rabs \<alpha> f m) \<or> errno m' \<in> hard \<and> 0 < errno m')"
proof (cases "pos_tag f = end_tag f")
  case False
  moreover have "pos_tag f \<le> end_tag f" using inv mf by (simp add: rinv_def Let_def)
  moreover have "refill P f m = Some (True, f, m)" using False by (simp add: refill_def)
  ultimately show ?thesis using False inv mf by (intro exI [of _ True] exI [of _ f] exI [of _ m]) simp
next
  case True
  let ?f = "f\<lparr>tag := end_tag f, pos_tag := end_tag f\<rparr>"
  note d = inv [unfolded rinv_def Let_def mf mapping.case]
  have e: "end_tag f = int (a_pos (\<alpha> (world m)))" "0 \<le> tag f" using d by auto
  obtain r m' where r: "fill_read P (fd f) m = Some (r, m')" and k: "keeps P \<beta> (world m) (world m')" and
    c: "case r of
       Some bs \<Rightarrow> length bs \<le> 8192 \<and> afile_get (length bs) (\<alpha> (world m)) = bs
         \<and> (bs = [] \<longrightarrow> length (a_bytes (\<alpha> (world m))) \<le> a_pos (\<alpha> (world m)))
         \<and> \<alpha> (world m') = afile_skip (length bs) (\<alpha> (world m))
     | None \<Rightarrow> \<alpha> (world m') = \<alpha> (world m) \<and> errno m' \<in> hard \<and> 0 < errno m'"
    using fill_read_spec d by blast
  show ?thesis
  proof (cases r)
    case None
    then show ?thesis using r c k d e True mf
      by (auto simp: refill_def io61_fill_def rinv_def rabs_def)
  next
    case (Some bs)
    let ?g = "(cbuf_put 0 bs ?f)\<lparr>end_tag := end_tag f + int (length bs)\<rparr>"
    have c': "length bs \<le> 8192" "afile_get (length bs) (\<alpha> (world m)) = bs"
      "bs = [] \<longrightarrow> length (a_bytes (\<alpha> (world m))) \<le> a_pos (\<alpha> (world m))"
      "\<alpha> (world m') = afile_skip (length bs) (\<alpha> (world m))" using c Some by auto
    have res: "refill P f m = Some (bs \<noteq> [], ?g, m')"
      using True r Some c'(1) by (simp add: refill_def io61_fill_def cbuf_store_def)
    have cb: "map (cbuf ?g) [0..<length bs] = bs" using cbuf_put_0 [of bs ?f] by simp
    have "rinv P \<alpha> pat hard \<beta> ?g m'"
      unfolding rinv_def Let_def using d e c' mf cb by (simp add: afile_get_def)
    then show ?thesis using res k c' e True mf d by (auto simp: rabs_def afile_seek_def afile_skip_def)
  qed
qed

lemma try_map_spec:
  assumes inv: "rinv P \<alpha> pat hard \<beta> f m"
  shows "\<exists>f' m'. try_map P f m = (f', m') \<and> rinv P \<alpha> pat hard \<beta> f' m' \<and> map_ptr f' \<noteq> NullMap
    \<and> fd f' = fd f \<and> pos_tag f' = pos_tag f \<and> rabs \<alpha> f' m' = rabs \<alpha> f m \<and> keeps P \<beta> (world m) (world m')"
proof (cases "map_ptr f = NullMap")
  case False
  then show ?thesis using inv by (auto simp: try_map_def)
next
  case True
  note d = inv [unfolded rinv_def Let_def True mapping.case]
  obtain x w' where pr: "p_mmap P (fsize f) (fd f) (world m) = (x, w')" by fastforce
  have maps: "maps_file P (fd f) \<alpha> \<beta>" using inv by (simp add: rinv_def)
  note law = maps_fileD [OF maps pr] and adv = advice_fileD [OF maps]
  show ?thesis
  proof (cases x)
    case (Inl e)
    then show ?thesis using d True law
      by (auto simp: try_map_def syscall_def pr rinv_def rabs_def)
  next
    case (Inr a)
    have l: "keeps P \<beta> (world m) w'" "\<alpha> w' = \<alpha> (world m)" "unat (fsize f) = length (a_bytes (\<alpha> (world m)))"
      "\<forall>i < length (a_bytes (\<alpha> (world m))). p_peek P (a + i) w' = Some (a_bytes (\<alpha> (world m)) ! i)"
      using law(1,2) law(3) [OF Inr] by simp_all
    have si: "sint (fsize f) = int (length (a_bytes (\<alpha> (world m))))"
      using sint64_small [of "fsize f"] l(3) d by simp
    let ?w = "if is_seq f then p_fadvise P (fd f) (fsize f) True w' else w'"
    have kw: "keeps P \<beta> w' ?w" "\<alpha> ?w = \<alpha> (world m)" using adv l(2) by simp_all
    have tm: "try_map P f m = (f\<lparr>map_ptr := Mapped a, tag := 0, end_tag := sint (fsize f)\<rparr>, m\<lparr>world := ?w\<rparr>)"
      using True by (simp add: try_map_def syscall_def pr Inr)
    have "rinv P \<alpha> pat hard \<beta> (f\<lparr>map_ptr := Mapped a, tag := 0, end_tag := sint (fsize f)\<rparr>) (m\<lparr>world := ?w\<rparr>)"
      using d l kw si keeps_peek [OF kw(1)] by (auto simp: rinv_def)
    then show ?thesis using tm kw l keeps_trans [OF l(1) kw(1)] by (simp add: rabs_def)
  qed
qed

section \<open>Reading\<close>

lemma rabs_pos: "rinv P \<alpha> pat hard \<beta> f m \<Longrightarrow> 0 \<le> pos_tag f \<and> a_pos (rabs \<alpha> f m) = nat (pos_tag f)
    \<and> a_bytes (rabs \<alpha> f m) = a_bytes (\<alpha> (world m))"
  by (auto simp: rabs_def rinv_def Let_def split: mapping.splits)

lemma rinv_check':
  assumes "rinv P \<alpha> pat hard \<beta> f m" and "a_pos (rabs \<alpha> f m) \<le> length (a_bytes (rabs \<alpha> f m))"
  shows "io61_check_assertions f"
proof (rule rinv_check [OF assms(1)])
  show "pos_tag f \<le> int (length (a_bytes (\<alpha> (world m))))"
    using rabs_pos [OF assms(1)] assms(2) by simp
qed

text \<open>Bytes of the cache, from the next offset on, are the file's.\<close>

lemma cache_bytes:
  assumes inv: "rinv P \<alpha> pat hard \<beta> f m" and mf: "map_ptr f = MapFailed"
    and n: "int n \<le> end_tag f - pos_tag f"
  shows "cbuf_load f (pos_tag f - tag f) n = Some (afile_get n (rabs \<alpha> f m))"
    and "length (afile_get n (rabs \<alpha> f m)) = n"
proof -
  note d = inv [unfolded rinv_def Let_def mf mapping.case]
  let ?k = "nat (end_tag f - tag f)" and ?i = "nat (pos_tag f - tag f)" and ?B = "a_bytes (\<alpha> (world m))"
  have o: "0 \<le> tag f" "tag f \<le> pos_tag f" "pos_tag f \<le> end_tag f" "end_tag f \<le> tag f + 8192"
    and c: "map (cbuf f) [0..<?k] = take ?k (drop (nat (tag f)) ?B)" using d by blast+
  have ik: "?i + n \<le> ?k" using o n by linarith
  have "map (cbuf f) [?i..<?i + n] = take n (drop ?i (map (cbuf f) [0..<?k]))"
    using ik by (simp add: drop_map take_map)
  also have "\<dots> = take n (drop ?i (drop (nat (tag f)) ?B))"
    unfolding c using ik by (simp add: drop_take)
  also have "\<dots> = afile_get n (rabs \<alpha> f m)"
    using o by (simp add: afile_get_def rabs_def add.commute flip: nat_add_distrib)
  finally have *: "map (cbuf f) [?i..<?i + n] = afile_get n (rabs \<alpha> f m)" .
  show "cbuf_load f (pos_tag f - tag f) n = Some (afile_get n (rabs \<alpha> f m))"
    using o n * by (simp add: cbuf_load_def)
  show "length (afile_get n (rabs \<alpha> f m)) = n" unfolding * [symmetric] by simp
qed

lemma rinv_advance:
  assumes "rinv P \<alpha> pat hard \<beta> f m" and "map_ptr f \<noteq> NullMap" and "map_ptr f = MapFailed \<Longrightarrow> int n \<le> end_tag f - pos_tag f"
  shows "rinv P \<alpha> pat hard \<beta> (f\<lparr>pos_tag := pos_tag f + int n\<rparr>) m"
    and "rabs \<alpha> (f\<lparr>pos_tag := pos_tag f + int n\<rparr>) m = afile_skip n (rabs \<alpha> f m)"
proof -
  show "rinv P \<alpha> pat hard \<beta> (f\<lparr>pos_tag := pos_tag f + int n\<rparr>) m"
    using assms by (cases "map_ptr f") (auto simp add: rinv_def Let_def)
  show "rabs \<alpha> (f\<lparr>pos_tag := pos_tag f + int n\<rparr>) m = afile_skip n (rabs \<alpha> f m)"
    using rabs_pos [OF assms(1)] by (simp add: rabs_def afile_seek_def afile_skip_def nat_add_distrib)
qed

lemma read_cache_loop_spec:
  assumes "rinv P \<alpha> pat hard \<beta> f m" and "map_ptr f = MapFailed" and "length buf \<le> sz" and "sz < 2 ^ 63"
  shows "\<exists>bs f' m'. read_cache_loop P sz buf f m = Some (buf @ bs, f', m')
    \<and> rinv P \<alpha> pat hard \<beta> f' m' \<and> map_ptr f' = MapFailed \<and> fd f' = fd f \<and> keeps P \<beta> (world m) (world m')
    \<and> bs = afile_get (length bs) (rabs \<alpha> f m) \<and> rabs \<alpha> f' m' = afile_skip (length bs) (rabs \<alpha> f m)
    \<and> length (buf @ bs) \<le> sz
    \<and> (length (buf @ bs) < sz \<longrightarrow>
        length (a_bytes (rabs \<alpha> f m)) \<le> a_pos (rabs \<alpha> f' m') \<or> errno m' \<in> hard \<and> 0 < errno m')"
  using assms
proof (induction "sz - length buf" arbitrary: buf f m rule: less_induct)
  case less
  show ?case
  proof (cases "length buf < sz")
    case False
    then have "read_cache_loop P sz buf f m = Some (buf @ [], f, m)"
      by (subst read_cache_loop.simps) simp
    then show ?thesis using less.prems False
      by (intro exI [of _ "[]"] exI [of _ f] exI [of _ m]) (simp add: afile_get_def)
  next
    case True
    obtain ok f1 m1 where r: "refill P f m = Some (ok, f1, m1)" and i1: "rinv P \<alpha> pat hard \<beta> f1 m1"
      and mf1: "map_ptr f1 = MapFailed" and fd1: "fd f1 = fd f" and a1: "rabs \<alpha> f1 m1 = rabs \<alpha> f m"
      and k1: "keeps P \<beta> (world m) (world m1)"
      and ok: "if ok then pos_tag f1 < end_tag f1 else
         length (a_bytes (rabs \<alpha> f m)) \<le> a_pos (rabs \<alpha> f m) \<or> errno m1 \<in> hard \<and> 0 < errno m1"
      using refill_spec [OF less.prems(1,2)] by blast
    show ?thesis
    proof (cases ok)
      case False
      then have "read_cache_loop P sz buf f m = Some (buf @ [], f1, m1)"
        using True r by (subst read_cache_loop.simps) simp
      then show ?thesis using less.prems False i1 mf1 fd1 a1 k1 ok
        by (intro exI [of _ "[]"] exI [of _ f1] exI [of _ m1]) (simp add: afile_get_def)
    next
      case ok': True
      let ?n = "min (to_size (end_tag f1 - pos_tag f1)) (sz - length buf)"
      let ?f2 = "f1\<lparr>pos_tag := pos_tag f1 + int ?n\<rparr>"
      have lt: "pos_tag f1 < end_tag f1" using ok ok' by simp
      have "end_tag f1 \<le> tag f1 + 8192" "tag f1 \<le> pos_tag f1"
        using i1 mf1 by (simp_all add: rinv_def Let_def)
      then have ts: "to_size (end_tag f1 - pos_tag f1) = nat (end_tag f1 - pos_tag f1)"
        using lt by (intro to_size_id) simp_all
      have n: "int ?n \<le> end_tag f1 - pos_tag f1" "0 < ?n" using lt True unfolding ts by auto
      note cb = cache_bytes [OF i1 mf1 n(1)]
      let ?bs = "afile_get ?n (rabs \<alpha> f1 m1)"
      have step: "read_cache_loop P sz buf f m = read_cache_loop P sz (buf @ ?bs) ?f2 m1"
        using True r ok' cb(1) by (subst read_cache_loop.simps) (simp add: Let_def)
      have i2: "rinv P \<alpha> pat hard \<beta> ?f2 m1" "rabs \<alpha> ?f2 m1 = afile_skip ?n (rabs \<alpha> f1 m1)"
        using rinv_advance [OF i1 _ n(1)] mf1 by simp_all
      have dec: "sz - length (buf @ ?bs) < sz - length buf" and le: "length (buf @ ?bs) \<le> sz"
        using True n(2) cb(2) by auto
      obtain bs f' m' where ih: "read_cache_loop P sz (buf @ ?bs) ?f2 m1 = Some ((buf @ ?bs) @ bs, f', m')"
        "rinv P \<alpha> pat hard \<beta> f' m'" "map_ptr f' = MapFailed" "fd f' = fd ?f2" "keeps P \<beta> (world m1) (world m')"
        "bs = afile_get (length bs) (rabs \<alpha> ?f2 m1)" "rabs \<alpha> f' m' = afile_skip (length bs) (rabs \<alpha> ?f2 m1)"
        "length ((buf @ ?bs) @ bs) \<le> sz"
        "length ((buf @ ?bs) @ bs) < sz \<longrightarrow>
          length (a_bytes (rabs \<alpha> ?f2 m1)) \<le> a_pos (rabs \<alpha> f' m') \<or> errno m' \<in> hard \<and> 0 < errno m'"
        using less.hyps [OF dec i2(1) _ le less.prems(4)] mf1 by fastforce
      have len: "length (?bs @ bs) = ?n + length bs" using cb(2) by simp
      have "?bs @ bs = afile_get (?n + length bs) (rabs \<alpha> f m)"
        using ih(6) unfolding afile_get_add i2(2) a1 by simp
      then have all: "?bs @ bs = afile_get (length (?bs @ bs)) (rabs \<alpha> f m)" unfolding len .
      have skip: "rabs \<alpha> f' m' = afile_skip (length (?bs @ bs)) (rabs \<alpha> f m)"
        using ih(7) unfolding i2(2) a1 len [unfolded a1] afile_skip_skip .
      have run: "read_cache_loop P sz buf f m = Some (buf @ (?bs @ bs), f', m')"
        unfolding step using ih(1) by simp
      have "length (buf @ ?bs @ bs) < sz \<longrightarrow>
          length (a_bytes (rabs \<alpha> f m)) \<le> a_pos (rabs \<alpha> f' m') \<or> errno m' \<in> hard \<and> 0 < errno m'"
        using ih(9) unfolding i2(2) a1 by simp
      moreover have "fd f' = fd f" using ih(4) fd1 by simp
      moreover have "length (buf @ (?bs @ bs)) \<le> sz" using ih(8) by simp
      ultimately show ?thesis using run ih(2,3) keeps_trans [OF k1 ih(5)] all skip by blast
    qed
  qed
qed

text \<open>What a read may return: the next bytes, all that was asked for unless the file ends
  or the system fails.\<close>

definition read_post :: "int set \<Rightarrow> nat \<Rightarrow> afile \<Rightarrow> int \<Rightarrow> u8 list \<Rightarrow> afile \<Rightarrow> int \<Rightarrow> bool" where
  "read_post hard sz a r bs a' err \<longleftrightarrow>
     bs = afile_get (length bs) a \<and> a' = afile_skip (length bs) a \<and> length bs \<le> sz
     \<and> (length bs < sz \<longrightarrow> length (a_bytes a) \<le> a_pos a' \<or> err \<in> hard \<and> 0 < err)
     \<and> (r = int (length bs) \<or> r = -1 \<and> bs = [] \<and> 0 < sz \<and> err \<noteq> 0)"

lemma read_post_bound: "read_post hard sz a r bs a' err \<Longrightarrow> a_pos a \<le> length (a_bytes a) \<Longrightarrow>
    a_pos a' \<le> length (a_bytes a') \<and> a_bytes a' = a_bytes a"
  unfolding read_post_def
  by (metis a_bytes_skip a_pos_skip add.commute afile_get_full le_diff_conv2 min.cobounded2)

lemma io61_read_spec:
  assumes inv: "rinv P \<alpha> pat hard \<beta> f m"
    and pos: "a_pos (rabs \<alpha> f m) \<le> length (a_bytes (rabs \<alpha> f m))" and sz: "sz < 2 ^ 63"
  shows "\<exists>r bs f' m'. io61_read P f sz m = Some (r, bs, f', m') \<and> rinv P \<alpha> pat hard \<beta> f' m'
    \<and> keeps P \<beta> (world m) (world m') \<and> fd f' = fd f
    \<and> read_post hard sz (rabs \<alpha> f m) r bs (rabs \<alpha> f' m') (errno m')"
proof -
  obtain f1 m1 where t: "try_map P f m = (f1, m1)" and i1: "rinv P \<alpha> pat hard \<beta> f1 m1"
    and nn: "map_ptr f1 \<noteq> NullMap" and fd1: "fd f1 = fd f" and a1: "rabs \<alpha> f1 m1 = rabs \<alpha> f m"
    and k1: "keeps P \<beta> (world m) (world m1)"
    using try_map_spec [OF inv] by blast
  note p1 = rabs_pos [OF i1]
  show ?thesis
  proof (cases "map_ptr f1")
    case NullMap then show ?thesis using nn by simp
  next
    case MapFailed
    obtain bs f' m' where l: "read_cache_loop P sz [] f1 m1 = Some (bs, f', m')"
      "rinv P \<alpha> pat hard \<beta> f' m'" "fd f' = fd f1" "keeps P \<beta> (world m1) (world m')"
      "bs = afile_get (length bs) (rabs \<alpha> f1 m1)" "rabs \<alpha> f' m' = afile_skip (length bs) (rabs \<alpha> f1 m1)"
      "length bs \<le> sz" "length bs < sz \<longrightarrow>
        length (a_bytes (rabs \<alpha> f1 m1)) \<le> a_pos (rabs \<alpha> f' m') \<or> errno m' \<in> hard \<and> 0 < errno m'"
      using read_cache_loop_spec [OF i1 MapFailed _ sz, of "[]"] by auto
    have "io61_check_assertions f1" by (rule rinv_check' [OF i1 pos [folded a1]])
    then have "io61_read P f sz m = Some (if length bs \<noteq> 0 \<or> sz = 0 \<or> errno m' = 0 then int (length bs) else -1, bs, f', m')"
      using t l(1) MapFailed by (simp add: io61_read_def io61_read_cache_def)
    moreover have "read_post hard sz (rabs \<alpha> f m)
        (if length bs \<noteq> 0 \<or> sz = 0 \<or> errno m' = 0 then int (length bs) else -1) bs (rabs \<alpha> f' m') (errno m')"
      unfolding read_post_def a1 [symmetric] using l(5-8) by (intro conjI) (assumption | simp)+
    ultimately show ?thesis using l(2) l(3) fd1 keeps_trans [OF k1 l(4)] by metis
  next
    case (Mapped p)
    note d = i1 [unfolded rinv_def Let_def Mapped mapping.case]
    let ?B = "a_bytes (\<alpha> (world m1))"
    let ?n = "min sz (unat (fsize f1 - of_int (pos_tag f1)))"
    have u: "unat (fsize f1) = length ?B" and peek: "\<forall>i < length ?B. p_peek P (p + i) (world m1) = Some (?B ! i)"
      using d by blast+
    have pl: "nat (pos_tag f1) \<le> length ?B" using pos p1 unfolding a1 [symmetric] by simp
    have wp: "of_int (pos_tag f1) = (of_nat (nat (pos_tag f1)) :: u64)" using p1 by simp
    have lb: "length ?B < 2 ^ 64" using d by simp
    have un: "unat (of_nat (nat (pos_tag f1)) :: u64) = nat (pos_tag f1)"
      using pl lb by (intro unat64_of_nat) simp
    have "unat (fsize f1 - of_int (pos_tag f1)) = length ?B - nat (pos_tag f1)"
      unfolding wp using pl u un by (subst unat_sub) (simp_all add: word_le_nat_alt)
    then have n: "?n = min sz (length ?B - nat (pos_tag f1))" by simp
    have "\<forall>i < ?n. p_peek P (p + nat (pos_tag f1) + i) (world m1) = Some (?B ! (nat (pos_tag f1) + i))"
      using peek pl unfolding n add.assoc by (auto simp: less_diff_conv2 less_diff_conv add.commute)
    note pk = peek_bytes_Some [OF this]
    have bs: "map (\<lambda>i. ?B ! (nat (pos_tag f1) + i)) [0..<?n] = afile_get ?n (rabs \<alpha> f1 m1)"
      unfolding n using p1 pl by (intro nth_equalityI) (auto simp: afile_get_def)
    have run: "io61_read P f sz m = Some (int ?n, afile_get ?n (rabs \<alpha> f1 m1), f1\<lparr>pos_tag := pos_tag f1 + int ?n\<rparr>, m1)"
      using t Mapped p1 pk unfolding bs by (simp add: io61_read_def Let_def)
    have len: "length (afile_get ?n (rabs \<alpha> f1 m1)) = ?n" unfolding afile_get_full n using p1 by simp
    have adv: "rinv P \<alpha> pat hard \<beta> (f1\<lparr>pos_tag := pos_tag f1 + int ?n\<rparr>) m1"
      "rabs \<alpha> (f1\<lparr>pos_tag := pos_tag f1 + int ?n\<rparr>) m1 = afile_skip ?n (rabs \<alpha> f1 m1)"
      using rinv_advance [OF i1 nn, of ?n] Mapped by auto
    have "read_post hard sz (rabs \<alpha> f m) (int ?n) (afile_get ?n (rabs \<alpha> f1 m1))
        (rabs \<alpha> (f1\<lparr>pos_tag := pos_tag f1 + int ?n\<rparr>) m1) (errno m1)"
      unfolding read_post_def len adv(2) a1 [symmetric] using p1 n by auto
    then show ?thesis using run adv(1) k1 fd1 by fastforce
  qed
qed

lemma io61_readc_spec:
  assumes inv: "rinv P \<alpha> pat hard \<beta> f m"
    and pos: "a_pos (rabs \<alpha> f m) \<le> length (a_bytes (rabs \<alpha> f m))"
  shows "\<exists>c f' m'. io61_readc P f m = Some (c, f', m') \<and> rinv P \<alpha> pat hard \<beta> f' m'
    \<and> keeps P \<beta> (world m) (world m') \<and> fd f' = fd f
    \<and> (let a = rabs \<alpha> f m; a' = rabs \<alpha> f' m' in
       if c = -1 then a' = a \<and> (length (a_bytes a) \<le> a_pos a \<or> errno m' \<in> hard \<and> 0 < errno m')
       else a_pos a < length (a_bytes a) \<and> c = uint (a_bytes a ! a_pos a) \<and> a' = afile_skip 1 a)"
proof -
  obtain f1 m1 where t: "try_map P f m = (f1, m1)" and i1: "rinv P \<alpha> pat hard \<beta> f1 m1"
    and nn: "map_ptr f1 \<noteq> NullMap" and fd1: "fd f1 = fd f" and a1: "rabs \<alpha> f1 m1 = rabs \<alpha> f m"
    and k1: "keeps P \<beta> (world m) (world m1)" and pt1: "pos_tag f1 = pos_tag f"
    using try_map_spec [OF inv] by blast
  note p1 = rabs_pos [OF i1]
  have chk: "io61_check_assertions f" by (rule rinv_check' [OF inv pos])
  show ?thesis
  proof (cases "map_ptr f1")
    case NullMap then show ?thesis using nn by simp
  next
    case MapFailed
    obtain ok f2 m2 where r: "refill P f1 m1 = Some (ok, f2, m2)" and i2: "rinv P \<alpha> pat hard \<beta> f2 m2"
      and mf2: "map_ptr f2 = MapFailed" and fd2: "fd f2 = fd f1" and a2: "rabs \<alpha> f2 m2 = rabs \<alpha> f1 m1"
      and k2: "keeps P \<beta> (world m1) (world m2)"
      and ok: "if ok then pos_tag f2 < end_tag f2 else
         length (a_bytes (rabs \<alpha> f1 m1)) \<le> a_pos (rabs \<alpha> f1 m1) \<or> errno m2 \<in> hard \<and> 0 < errno m2"
      using refill_spec [OF i1 MapFailed] by blast
    show ?thesis
    proof (cases ok)
      case False
      then have "io61_readc P f m = Some (-1, f2, m2)"
        using chk t r MapFailed by (simp add: io61_readc_def)
      then show ?thesis using i2 keeps_trans [OF k1 k2] fd1 fd2 a1 a2 ok False by (simp add: Let_def)
    next
      case True
      then have lt: "int 1 \<le> end_tag f2 - pos_tag f2" using ok by simp
      note cb = cache_bytes [OF i2 mf2 lt]
      let ?f3 = "f2\<lparr>pos_tag := pos_tag f2 + 1\<rparr>" and ?a = "rabs \<alpha> f m"
      have adv: "rinv P \<alpha> pat hard \<beta> ?f3 m2" "rabs \<alpha> ?f3 m2 = afile_skip 1 (rabs \<alpha> f2 m2)"
        using rinv_advance [OF i2 _ lt] mf2 by auto
      have le: "a_pos ?a < length (a_bytes ?a)"
        using cb(2) unfolding a2 a1 afile_get_full by simp
      have hd: "afile_get 1 ?a = [a_bytes ?a ! a_pos ?a]"
        using le by (simp add: afile_get_def take_Suc_conv_app_nth)
      have p3: "a_pos (rabs \<alpha> ?f3 m2) \<le> length (a_bytes (rabs \<alpha> ?f3 m2))"
        unfolding adv(2) a2 a1 using le by simp
      have "io61_check_assertions ?f3" by (rule rinv_check' [OF adv(1) p3])
      then have "io61_readc P f m = Some (uint (a_bytes ?a ! a_pos ?a), ?f3, m2)"
        using chk t r MapFailed True cb(1) hd unfolding a2 a1 by (simp add: io61_readc_def Let_def)
      moreover have "uint (a_bytes ?a ! a_pos ?a) \<noteq> -1"
        using uint_ge_0 [of "a_bytes ?a ! a_pos ?a"] by linarith
      ultimately show ?thesis using adv keeps_trans [OF k1 k2] fd1 fd2 a1 a2 le by (simp add: Let_def)
    qed
  next
    case (Mapped p)
    note d = i1 [unfolded rinv_def Let_def Mapped mapping.case]
    let ?B = "a_bytes (\<alpha> (world m1))" and ?a = "rabs \<alpha> f m"
    have e: "end_tag f1 = int (length ?B)" and peek: "\<forall>i < length ?B. p_peek P (p + i) (world m1) = Some (?B ! i)"
      using d by blast+
    have aB: "a_bytes ?a = ?B" "a_pos ?a = nat (pos_tag f1)" using p1 unfolding a1 by simp_all
    show ?thesis
    proof (cases "pos_tag f1 < end_tag f1")
      case False
      then have "io61_readc P f m = Some (-1, f1, m1)"
        using chk t Mapped by (simp add: io61_readc_def)
      moreover have "length ?B \<le> nat (pos_tag f1)" using False e by linarith
      ultimately show ?thesis using i1 k1 fd1 a1 aB by (simp add: Let_def)
    next
      case True
      let ?f3 = "f1\<lparr>pos_tag := pos_tag f1 + 1\<rparr>"
      have le: "nat (pos_tag f1) < length ?B" using True e p1 by linarith
      have adv: "rinv P \<alpha> pat hard \<beta> ?f3 m1" "rabs \<alpha> ?f3 m1 = afile_skip 1 (rabs \<alpha> f1 m1)"
        using rinv_advance [OF i1 nn, of 1] Mapped by auto
      have p3: "a_pos (rabs \<alpha> ?f3 m1) \<le> length (a_bytes (rabs \<alpha> ?f3 m1))"
        unfolding adv(2) a1 using le aB by simp
      have "io61_check_assertions ?f3" by (rule rinv_check' [OF adv(1) p3])
      then have "io61_readc P f m = Some (uint (?B ! nat (pos_tag f1)), ?f3, m1)"
        using chk t Mapped True p1 peek le by (simp add: io61_readc_def Let_def)
      moreover have "uint (?B ! nat (pos_tag f1)) \<noteq> -1"
        using uint_ge_0 [of "?B ! nat (pos_tag f1)"] by linarith
      ultimately show ?thesis using adv k1 fd1 a1 aB le by (simp add: Let_def)
    qed
  qed
qed

section \<open>Seeking\<close>

lemma io61_seek_read_spec:
  assumes inv: "rinv P \<alpha> pat hard \<beta> f m" and sk: "seeks_file P (fd f) \<alpha> \<beta>"
    and pos: "a_pos (rabs \<alpha> f m) \<le> length (a_bytes (rabs \<alpha> f m))" and off: "0 \<le> off"
  shows "\<exists>f' m'. io61_seek P f off m = Some (0, f', m') \<and> rinv P \<alpha> pat hard \<beta> f' m'
    \<and> keeps P \<beta> (world m) (world m') \<and> fd f' = fd f \<and> rabs \<alpha> f' m' = afile_seek (nat off) (rabs \<alpha> f m)"
proof -
  have chk: "io61_check_assertions f" by (rule rinv_check' [OF inv pos])
  have md: "mode f = O_RDONLY" and rd: "reads_file P (fd f) \<alpha> pat hard \<beta>"
    and mp: "maps_file P (fd f) \<alpha> \<beta>" and nd: "\<not> dirty f"
    and lb: "length (a_bytes (\<alpha> (world m))) < 2 ^ 63" using inv by (simp_all add: rinv_def)
  show ?thesis
  proof (cases "tag f \<le> off \<and> off < end_tag f")
    case True
    have "rinv P \<alpha> pat hard \<beta> (f\<lparr>pos_tag := off\<rparr>) m"
      using inv True off by (cases "map_ptr f") (auto simp: rinv_def Let_def)
    then show ?thesis using chk md True
      by (simp add: io61_seek_def rabs_def afile_seek_def)
  next
    case False
    obtain w' where l: "p_lseek P (fd f) off SEEK_SET (world m) = (Inr off, w')"
      and kw: "keeps P \<beta> (world m) w'" and aw: "\<alpha> w' = afile_seek (nat off) (\<alpha> (world m))"
      using seeks_fileD [OF sk off] by blast
    let ?f = "f\<lparr>pos_tag := off, positioned := False\<rparr>"
    show ?thesis
    proof (cases "map_ptr f")
      case MapFailed
      have "io61_seek P f off m = Some (0, ?f\<lparr>tag := off, end_tag := off\<rparr>, m\<lparr>world := w'\<rparr>)"
        using chk md False MapFailed l by (auto simp: io61_seek_def syscall_def mode_defs Let_def)
      moreover have "rinv P \<alpha> pat hard \<beta> (?f\<lparr>tag := off, end_tag := off\<rparr>) (m\<lparr>world := w'\<rparr>)"
        using rd mp sk md nd lb MapFailed off aw by (simp add: rinv_def)
      ultimately show ?thesis using kw aw by (simp add: rabs_def afile_seek_def)
    next
      case (Mapped p)
      note d = inv [unfolded rinv_def Let_def Mapped mapping.case]
      let ?w = "if is_seq f then p_fadvise P (fd f) (fsize f) False w' else w'"
      have ka: "keeps P \<beta> w' ?w" "\<alpha> ?w = \<alpha> w'" using advice_fileD [OF mp] by simp_all
      have run: "io61_seek P f off m = Some (0, ?f\<lparr>is_seq := False\<rparr>, m\<lparr>world := ?w\<rparr>)"
        using chk md False Mapped l by (auto simp: io61_seek_def syscall_def mode_defs Let_def)
      have k: "keeps P \<beta> (world m) ?w" by (rule keeps_trans [OF kw ka(1)])
      have "rinv P \<alpha> pat hard \<beta> (?f\<lparr>is_seq := False\<rparr>) (m\<lparr>world := ?w\<rparr>)"
        using d off aw ka(2) Mapped keeps_peek [OF k] by (auto simp: rinv_def)
      then show ?thesis using run k aw ka(2)
        by (intro exI [of _ "?f\<lparr>is_seq := False\<rparr>"] exI [of _ "m\<lparr>world := ?w\<rparr>"]) (simp add: rabs_def afile_seek_def)
    next
      case NullMap
      obtain x w2 where pm: "p_mmap P (fsize f) (fd f) w' = (x, w2)" by fastforce
      note law = maps_fileD [OF mp pm]
      show ?thesis
      proof (cases x)
        case (Inl e)
        have run: "io61_seek P f off m = Some (0, ?f\<lparr>map_ptr := MapFailed, tag := off, end_tag := off\<rparr>,
            m\<lparr>errno := e, world := w2\<rparr>)"
          using chk md False NullMap l Inl pm by (auto simp: io61_seek_def syscall_def mode_defs Let_def)
        have "rinv P \<alpha> pat hard \<beta> (?f\<lparr>map_ptr := MapFailed, tag := off, end_tag := off\<rparr>) (m\<lparr>errno := e, world := w2\<rparr>)"
          using rd mp sk md nd lb off aw law(2) by (simp add: rinv_def)
        then show ?thesis using run keeps_trans [OF kw law(1)] aw law(2)
          by (simp add: rabs_def afile_seek_def)
      next
        case (Inr a)
        let ?w = "if is_seq f then p_fadvise P (fd f) (fsize f) False w2 else w2"
        have ka: "keeps P \<beta> w2 ?w" "\<alpha> ?w = \<alpha> w2" using advice_fileD [OF mp] by simp_all
        let ?g = "?f\<lparr>map_ptr := Mapped a, tag := 0, end_tag := sint (fsize f), is_seq := False\<rparr>"
        have run: "io61_seek P f off m = Some (0, ?g, m\<lparr>world := ?w\<rparr>)"
          using chk md False NullMap l Inr pm by (auto simp: io61_seek_def syscall_def mode_defs Let_def)
        have k: "keeps P \<beta> (world m) ?w" by (rule keeps_trans [OF kw keeps_trans [OF law(1) ka(1)]])
        have si: "sint (fsize f) = int (unat (fsize f))"
          using law(3) [OF Inr] aw lb by (intro sint64_small) simp
        have "rinv P \<alpha> pat hard \<beta> ?g (m\<lparr>world := ?w\<rparr>)"
          using rd mp sk md nd lb off aw law(2) law(3) [OF Inr] ka(2) keeps_peek [OF ka(1)] si
          by (auto simp: rinv_def)
        then show ?thesis using run k aw ka(2) law(2)
          by (intro exI [of _ ?g] exI [of _ "m\<lparr>world := ?w\<rparr>"]) (simp add: rabs_def afile_seek_def)
      qed
    qed
  qed
qed

section \<open>Opening and closing\<close>

lemma io61_filesize_spec:
  assumes "stats_file P d \<alpha> \<beta>"
  shows "\<exists>n m'. io61_filesize P d m = (n, m') \<and> keeps P \<beta> (world m) (world m') \<and> \<alpha> (world m') = \<alpha> (world m)"
proof -
  obtain x w' where x: "p_fstat P d (world m) = (x, w')" by fastforce
  show ?thesis using stats_fileD(1,2) [OF assms x] x
    by (cases x) (auto simp: io61_filesize_def syscall_def)
qed

lemma close_calls_spec:
  assumes cl: "closes_file P d \<beta>"
  shows "\<exists>r m'. (let (r, m) = syscall (p_close P d) m; (_, m) = syscall (p_munmap P a n) m
    in Some (if r = None then (-1::int) else 0, m)) = Some (r, m') \<and> \<beta> (world m') = \<beta> (world m)"
proof -
  obtain x w2 where c: "p_close P d (world m) = (x, w2)" by fastforce
  have b2: "\<beta> w2 = \<beta> (world m)" using cl c unfolding closes_file_def by (metis snd_conv)
  have b3: "\<beta> (snd (p_munmap P a n w2)) = \<beta> w2" using cl unfolding closes_file_def by blast
  have sys: "\<beta> (world m3) = \<beta> w2" if "syscall (p_munmap P a n) m2 = (z, m3)" "world m2 = w2" for m2 z m3
    using b3 that by (cases "p_munmap P a n w2") (auto simp: syscall_def split: sum.splits)
  obtain m2 y where c2: "syscall (p_close P d) m = (y, m2)" "world m2 = w2"
    using c by (cases x) (auto simp: syscall_def)
  show ?thesis using c2 sys [OF _ c2(2)] b2 by (auto simp: Let_def split: prod.split)
qed

text \<open>A freshly opened read-only file.\<close>

lemma io61_fdopen_read_spec:
  assumes "reads_file P d \<alpha> pat hard \<beta>" and "maps_file P d \<alpha> \<beta>" and "stats_file P d \<alpha> \<beta>"
    and sk: "seeks_file P d \<alpha> \<beta>" and "length (a_bytes (\<alpha> (world m))) < 2 ^ 63" and "0 \<le> d"
  shows "\<exists>f m'. io61_fdopen P junk d O_RDONLY m = Some (f, m') \<and> rinv P \<alpha> pat hard \<beta> f m'
    \<and> keeps P \<beta> (world m) (world m') \<and> fd f = d \<and> rabs \<alpha> f m' = \<alpha> (world m) \<and> seekable f"
proof -
  obtain w1 where l: "p_lseek P d 0 SEEK_CUR (world m) = (Inr (int (a_pos (\<alpha> (world m)))), w1)"
    and k1: "keeps P \<beta> (world m) w1" and a1: "\<alpha> w1 = \<alpha> (world m)"
    using seeks_file_curD [OF sk] by blast
  let ?m1 = "m\<lparr>world := w1\<rparr>"
  obtain n1 m2 where f1: "io61_filesize P d ?m1 = (n1, m2)" "keeps P \<beta> w1 (world m2)" "\<alpha> (world m2) = \<alpha> w1"
    using io61_filesize_spec [OF assms(3), of ?m1] by auto
  obtain n2 m3 where f2: "io61_filesize P d m2 = (n2, m3)" "keeps P \<beta> (world m2) (world m3)" "\<alpha> (world m3) = \<alpha> (world m2)"
    using io61_filesize_spec [OF assms(3), of m2] by auto
  have ap: "O_RDONLY AND O_APPEND = 0" "O_RDONLY AND O_ACCMODE = 0"
    by (simp_all add: O_APPEND_def O_ACCMODE_def O_RDONLY_def)
  show ?thesis
    unfolding io61_fdopen_def syscall_def l
    using assms l f1 f2 ap a1 keeps_trans [OF k1 keeps_trans [OF f1(2) f2(2)]]
    by (simp add: Let_def rinv_def rabs_def afile_seek_def O_RDONLY_def)
qed

lemma io61_close_read_spec:
  assumes inv: "rinv P \<alpha> pat hard \<beta> f m" and cl: "closes_file P (fd f) \<beta>"
  shows "\<exists>r m'. io61_close P f m = Some (r, m') \<and> \<beta> (world m') = \<beta> (world m)"
proof -
  have nd: "\<not> dirty f" "\<not> positioned f" and p: "0 \<le> pos_tag f"
    using inv rabs_pos [OF inv] by (auto simp: rinv_def)
  have "\<exists>r f1 m1. io61_flush P f m = Some (r, f1, m1) \<and> \<beta> (world m1) = \<beta> (world m) \<and> fd f1 = fd f"
  proof (cases "seekable f")
    case True
    then have sk: "seeks_file P (fd f) \<alpha> \<beta>" using inv by (simp add: rinv_def)
    obtain w' where "p_lseek P (fd f) (pos_tag f) SEEK_SET (world m) = (Inr (pos_tag f), w')"
      "keeps P \<beta> (world m) w'" using seeks_fileD [OF sk p] by blast
    then show ?thesis using nd True by (simp add: io61_flush_def io61_flush_clean_def syscall_def keeps_def)
  next
    case False
    then show ?thesis using nd by (simp add: io61_flush_def io61_flush_clean_def)
  qed
  then obtain r f1 m1 where fl: "io61_flush P f m = Some (r, f1, m1)" "\<beta> (world m1) = \<beta> (world m)" "fd f1 = fd f"
    by blast
  show ?thesis unfolding io61_close_def
    using fl close_calls_spec [OF cl, of m1 "map_ptr f1" "if 0 < fsize f1 then fsize f1 else of_int cbufsz"]
    by (auto simp: Let_def split: prod.splits)
qed

section \<open>Properties\<close>

text \<open>C9: \<open>io61_read\<close> returns exactly the next bytes of the file, whether it is mapped or
  cached and however the system splits its transfers; it returns fewer than asked for only
  at the end of the file or after an error that cannot be waited out, and it always
  returns.\<close>

theorem io61_read_exact:
  assumes "rinv P \<alpha> pat hard \<beta> f m" and "a_pos (rabs \<alpha> f m) \<le> length (a_bytes (rabs \<alpha> f m))" and "sz < 2 ^ 63"
  shows "\<exists>r bs f' m'. io61_read P f sz m = Some (r, bs, f', m') \<and> rinv P \<alpha> pat hard \<beta> f' m'
    \<and> bs = take (length bs) (drop (a_pos (rabs \<alpha> f m)) (a_bytes (rabs \<alpha> f m))) \<and> length bs \<le> sz
    \<and> rabs \<alpha> f' m' = (rabs \<alpha> f m)\<lparr>a_pos := a_pos (rabs \<alpha> f m) + length bs\<rparr>
    \<and> (length bs = sz \<or> a_pos (rabs \<alpha> f' m') = length (a_bytes (rabs \<alpha> f m)) \<or> errno m' \<in> hard)
    \<and> (r = int (length bs) \<or> r = -1 \<and> bs = [] \<and> errno m' \<noteq> 0)"
proof -
  obtain r bs f' m' where x: "io61_read P f sz m = Some (r, bs, f', m')" "rinv P \<alpha> pat hard \<beta> f' m'"
    "read_post hard sz (rabs \<alpha> f m) r bs (rabs \<alpha> f' m') (errno m')"
    using io61_read_spec [OF assms] by blast
  note b = read_post_bound [OF x(3) assms(2)]
  note p = x(3) [unfolded read_post_def afile_get_def afile_skip_def]
  have "length bs = sz \<or> a_pos (rabs \<alpha> f' m') = length (a_bytes (rabs \<alpha> f m)) \<or> errno m' \<in> hard"
  proof (cases "length bs < sz")
    case True
    then have "length (a_bytes (rabs \<alpha> f m)) \<le> a_pos (rabs \<alpha> f' m') \<or> errno m' \<in> hard" using p by blast
    then show ?thesis using b by (metis le_antisym)
  next
    case False
    moreover have "length bs \<le> sz" using p by blast
    ultimately show ?thesis by linarith
  qed
  then show ?thesis using x(1,2) p by blast
qed

lemma demo_open_read:
  "\<exists>f m'. io61_fdopen (mem_os l) junk 3 O_RDONLY (demo_machine b [1, 2, 3, 4, 5]) = Some (f, m')
    \<and> rinv (mem_os l) (ms_afile 3) (ms_glitch 3) {} (\<lambda>s. ()) f m'
    \<and> rabs (ms_afile 3) f m' = \<lparr>a_pos = 0, a_bytes = [1, 2, 3, 4, 5]\<rparr> \<and> fd f = 3 \<and> seekable f"
proof -
  have fr: "ms_frame 3 (\<lambda>s. ())" by (rule ms_frame_unit)
  have "length (a_bytes (ms_afile 3 (world (demo_machine b [1, 2, 3, 4, 5])))) < 2 ^ 63" unfolding demo_afile by simp
  from io61_fdopen_read_spec [OF mem_os_reads [OF fr] mem_os_maps [OF fr] mem_os_stats [OF fr] mem_os_seeks [OF fr] this]
  show ?thesis unfolding demo_afile by simp blast
qed

lemma io61_read_exact_witness:
  "\<exists>f m r bs f' m'. io61_fdopen (mem_os False) (\<lambda>i. 0) 3 O_RDONLY (demo_machine False [1, 2, 3, 4, 5]) = Some (f, m)
    \<and> io61_read (mem_os False) f 4 m = Some (r, bs, f', m') \<and> bs = [1, 2, 3, 4] \<and> r = 4"
proof -
  obtain f m where o: "io61_fdopen (mem_os False) (\<lambda>i. 0) 3 O_RDONLY (demo_machine False [1, 2, 3, 4, 5]) = Some (f, m)"
    and i: "rinv (mem_os False) (ms_afile 3) (ms_glitch 3) {} (\<lambda>s. ()) f m"
    and a: "rabs (ms_afile 3) f m = \<lparr>a_pos = 0, a_bytes = [1, 2, 3, 4, 5]\<rparr>"
    using demo_open_read by blast
  have p: "a_pos (rabs (ms_afile 3) f m) \<le> length (a_bytes (rabs (ms_afile 3) f m))" unfolding a by simp
  obtain r bs f' m' where x: "io61_read (mem_os False) f 4 m = Some (r, bs, f', m')"
    "bs = take (length bs) (drop 0 [1, 2, 3, 4, 5])" "length bs \<le> 4"
    "rabs (ms_afile 3) f' m' = \<lparr>a_pos = 0, a_bytes = [1, 2, 3, 4, 5]\<rparr>\<lparr>a_pos := 0 + length bs\<rparr>"
    "length bs = 4 \<or> a_pos (rabs (ms_afile 3) f' m') = length [1 :: u8, 2, 3, 4, 5] \<or> errno m' \<in> {}"
    "r = int (length bs) \<or> r = -1 \<and> bs = [] \<and> errno m' \<noteq> 0"
    using io61_read_exact [OF i p, of 4] unfolding a by auto
  then have l: "length bs = 4" by auto
  have "bs = [1, 2, 3, 4]" using x(2) unfolding l by simp
  then show ?thesis using o x(1,6) l by auto
qed

text \<open>A defect: after \<open>io61_flush\<close> on a seekable file that is mapped, \<open>io61_readc\<close>
  reports the end of the file although bytes are left, because the flush moves
  \<open>end_tag\<close> back to the offset and nothing sets it again.\<close>

theorem io61_flush_mapped_eof:
  assumes "rinv P \<alpha> pat hard \<beta> f m" and "map_ptr f = Mapped a" and "seekable f"
    and "pos_tag f < int (length (a_bytes (\<alpha> (world m))))"
  shows "\<exists>f' m'. io61_flush P f m = Some (0, f', m') \<and> io61_readc P f' m' = Some (-1, f', m')
    \<and> a_pos (rabs \<alpha> f' m') < length (a_bytes (rabs \<alpha> f' m'))"
proof -
  have nd: "\<not> dirty f" "\<not> positioned f" "seeks_file P (fd f) \<alpha> \<beta>" "mode f = O_RDONLY" and p: "0 \<le> pos_tag f"
    using assms(1,3) rabs_pos [OF assms(1)] by (auto simp: rinv_def)
  obtain w' where l: "p_lseek P (fd f) (pos_tag f) SEEK_SET (world m) = (Inr (pos_tag f), w')"
    and aw: "\<alpha> w' = afile_seek (nat (pos_tag f)) (\<alpha> (world m))" using seeks_fileD [OF nd(3) p] by blast
  let ?f = "f\<lparr>tag := pos_tag f, end_tag := pos_tag f\<rparr>" and ?m = "m\<lparr>world := w'\<rparr>"
  have "io61_flush P f m = Some (0, ?f, ?m)"
    using nd assms(3) l by (simp add: io61_flush_def io61_flush_clean_def syscall_def)
  moreover have "io61_readc P ?f ?m = Some (-1, ?f, ?m)"
    using assms(2) nd(4) by (simp add: io61_readc_def try_map_def io61_check_assertions_def mode_defs)
  moreover have "a_pos (rabs \<alpha> ?f ?m) < length (a_bytes (rabs \<alpha> ?f ?m))"
    using assms(4) p aw by (simp add: rabs_def)
  ultimately show ?thesis by blast
qed

lemma io61_flush_mapped_eof_witness:
  "\<exists>f m r bs f1 m1 f2 m2. io61_fdopen (mem_os False) (\<lambda>i. 0) 3 O_RDONLY (demo_machine True [1, 2, 3, 4, 5]) = Some (f, m)
    \<and> io61_read (mem_os False) f 2 m = Some (r, bs, f1, m1)
    \<and> io61_flush (mem_os False) f1 m1 = Some (0, f2, m2) \<and> io61_readc (mem_os False) f2 m2 = Some (-1, f2, m2)
    \<and> a_pos (rabs (ms_afile 3) f2 m2) < length (a_bytes (rabs (ms_afile 3) f2 m2))"
proof -
  obtain f m where o: "io61_fdopen (mem_os False) (\<lambda>i. 0) 3 O_RDONLY (demo_machine True [1, 2, 3, 4, 5]) = Some (f, m)"
    and i: "rinv (mem_os False) (ms_afile 3) (ms_glitch 3) {} (\<lambda>s. ()) f m"
    and a: "rabs (ms_afile 3) f m = \<lparr>a_pos = 0, a_bytes = [1, 2, 3, 4, 5]\<rparr>"
    using demo_open_read by blast
  have f: "f = \<lparr>fd = 3, mode = 0, seekable = True, fsize = 5, cbuf = (\<lambda>i. 0), tag = 0, pos_tag = 0, end_tag = 0,
      map_ptr = NullMap, is_seq = True, dirty = False, positioned = False, chunk_sz = 16,
      nlocked = (\<lambda>i. 0), owner = (\<lambda>i. 0)\<rparr>" and w: "ms_maps (world m) = []"
      "ms_file (world m) 3 = \<lparr>mf_bytes = [1, 2, 3, 4, 5], mf_pos = 0, mf_chunk = 1, mf_glitch = 2, mf_room = 2, mf_mappable = True\<rparr>"
    using o by (auto simp: io61_fdopen_def io61_filesize_def syscall_def mem_os_def on_file_def demo_machine_def Let_def
        to_size_def nchunks_def O_APPEND_def O_ACCMODE_def O_RDONLY_def)
  have p: "a_pos (rabs (ms_afile 3) f m) \<le> length (a_bytes (rabs (ms_afile 3) f m))" unfolding a by simp
  let ?f1 = "f\<lparr>map_ptr := Mapped 4294967296, tag := 0, end_tag := 5, pos_tag := 2\<rparr>"
  let ?m1 = "m\<lparr>world := (world m)\<lparr>ms_maps := [[1, 2, 3, 4, 5]]\<rparr>\<rparr>"
  have two: "peek_bytes P a 2 w = do { b \<leftarrow> p_peek P a w; c \<leftarrow> p_peek P (a + 1) w; Some [b, c] }" for P :: "memsys posix" and a w
    unfolding numeral_2_eq_2 peek_bytes.simps by simp
  have run: "io61_read (mem_os False) f 2 m = Some (2, [1, 2], ?f1, ?m1)"
    by (simp add: f w io61_read_def try_map_def syscall_def mem_os_def ms_mmap_def ms_peek_def Let_def two)
  obtain r bs f1 m1 where x: "io61_read (mem_os False) f 2 m = Some (r, bs, f1, m1)"
    "rinv (mem_os False) (ms_afile 3) (ms_glitch 3) {} (\<lambda>s. ()) f1 m1"
    using io61_read_spec [OF i p, of 2] by auto
  have f1: "map_ptr f1 = Mapped 4294967296" "seekable f1" "pos_tag f1 = 2" "ms_afile 3 (world m1) = \<lparr>a_pos = 0, a_bytes = [1, 2, 3, 4, 5]\<rparr>"
    using x(1) run w(2) by (auto simp: f ms_afile_def)
  have lt: "pos_tag f1 < int (length (a_bytes (ms_afile 3 (world m1))))" unfolding f1 by simp
  show ?thesis using o x(1) io61_flush_mapped_eof [OF x(2) f1(1,2) lt] by blast
qed

end
