(* ===== verification/Io61Write.thy ===== *)
theory Io61Write
  imports Io61Read
begin

text \<open>
  The writing side of \<open>io61.cc\<close>: on a file opened write-only, the bytes already given to
  the system together with those in the cache are the plain file \<open>wabs\<close>.
  \<open>io61_writec\<close>, \<open>io61_write\<close>, \<open>io61_seek\<close>, \<open>io61_flush\<close> and \<open>io61_close\<close>
  are shown to be the operations of that file, as long as the system does not fail for good.
\<close>

section \<open>The invariant\<close>

definition cached :: "io61_file \<Rightarrow> u8 list" where
  "cached f = map (cbuf f) [0..<nat (end_tag f - tag f)]"

definition wabs :: "('w \<Rightarrow> afile) \<Rightarrow> io61_file \<Rightarrow> 'w machine \<Rightarrow> afile" where
  "wabs \<alpha> f m = afile_put (cached f) (\<alpha> (world m))"

definition winv :: "'w posix \<Rightarrow> ('w \<Rightarrow> afile) \<Rightarrow> ('w \<Rightarrow> nat) \<Rightarrow> int set \<Rightarrow> ('w \<Rightarrow> 'b) \<Rightarrow> io61_file \<Rightarrow> 'w machine \<Rightarrow> bool" where
  "winv P \<alpha> pat hard \<beta> f m \<longleftrightarrow>
     writes_file P (fd f) \<alpha> pat hard \<beta>
     \<and> mode f = O_WRONLY \<and> \<not> positioned f \<and> map_ptr f = NullMap
     \<and> 0 \<le> tag f \<and> tag f \<le> pos_tag f \<and> pos_tag f = end_tag f \<and> end_tag f \<le> tag f + cbufsz
     \<and> (dirty f \<or> tag f = end_tag f)
     \<and> (seekable f \<longrightarrow> seeks_file P (fd f) \<alpha> \<beta> \<and> tag f = int (a_pos (\<alpha> (world m))))"

lemma winv_check: "winv P \<alpha> pat hard \<beta> f m \<Longrightarrow> io61_check_assertions f"
  by (auto simp: winv_def io61_check_assertions_def)

lemma length_cached: "length (cached f) = nat (end_tag f - tag f)"
  by (simp add: cached_def)

lemma cached_put:
  assumes "end_tag f = tag f + int n"
  shows "cached (cbuf_put (int n) bs f\<lparr>pos_tag := p, end_tag := end_tag f + int (length bs), dirty := True\<rparr>) = cached f @ bs"
  unfolding cached_def using assms
  by (intro nth_equalityI) (auto simp: cbuf_put_def nth_append nat_add_distrib)

section \<open>Flushing\<close>

lemma flush_loop_spec:
  assumes w: "writes_file P (fd f) \<alpha> pat hard \<beta>" and "0 \<le> tag f" and "tag f \<le> end_tag f"
    and "end_tag f \<le> tag f + cbufsz" and "k \<le> length (cached f)"
  shows "\<exists>ok m'. flush_loop P f (tag f + int k) m = Some (ok, m') \<and> keeps P \<beta> (world m) (world m') \<and>
    (if ok then \<alpha> (world m') = afile_put (drop k (cached f)) (\<alpha> (world m))
     else (\<exists>j. \<alpha> (world m') = afile_put (take j (drop k (cached f))) (\<alpha> (world m))) \<and> errno m' \<in> hard \<and> 0 < errno m')"
  using assms(5)
proof (induction "(length (cached f) - k, pat (world m))" arbitrary: k m
    rule: wf_induct_rule [OF wf_lex_prod [OF wf_less_than wf_less_than]])
  case less: 1
  let ?c = "cached f"
  have n: "length ?c = nat (end_tag f - tag f)" by (rule length_cached)
  show ?case
  proof (cases "k = length ?c")
    case True
    then have "tag f + int k = end_tag f" using assms(3) n by simp
    then have "flush_loop P f (tag f + int k) m = Some (True, m)" by (subst flush_loop.simps) simp
    then show ?thesis using True by (intro exI [of _ True] exI [of _ m]) simp
  next
    case False
    then have lt: "k < length ?c" using less.prems by simp
    then have ne: "tag f + int k \<noteq> end_tag f" using assms(3) n by linarith
    have ts: "to_size (end_tag f - (tag f + int k)) = length ?c - k"
      using assms(3,4) lt n by (subst to_size_id) (simp_all; linarith)+
    have "cbuf_load f (tag f + int k - tag f) (length ?c - k) = Some (map (cbuf f) [k..<length ?c])"
      using assms(3,4) lt n by (simp add: cbuf_load_def)
    also have "map (cbuf f) [k..<length ?c] = drop k ?c" by (simp add: cached_def drop_map)
    finally have ld: "cbuf_load f (tag f + int k - tag f) (length ?c - k) = Some (drop k ?c)" .
    have dne: "drop k ?c \<noteq> []" using lt by simp
    obtain x w' where pr: "p_write P (fd f) (drop k ?c) (world m) = (x, w')" by fastforce
    note law = writes_fileD [OF w dne pr]
    have unf: "flush_loop P f (tag f + int k) m =
      (case syscall (p_write P (fd f) (drop k ?c)) m of
         (Some nw, m) \<Rightarrow> flush_loop P f (tag f + int k + int nw) m
       | (None, m) \<Rightarrow> if errno m \<noteq> EINTR \<and> errno m \<noteq> EINVAL then Some (False, m)
                      else flush_loop P f (tag f + int k) m)"
      using ne ts ld by (subst flush_loop.simps) simp
    show ?thesis
    proof (cases x)
      case (Inr nw)
      note l = law(2) [OF Inr]
      have nw: "nw \<le> length ?c - k" and a: "\<alpha> w' = afile_put (take nw (drop k ?c)) (\<alpha> (world m))"
        using l by simp_all
      have step: "flush_loop P f (tag f + int k) m = flush_loop P f (tag f + int (k + nw)) (m\<lparr>world := w'\<rparr>)"
        unfolding unf by (simp add: syscall_def pr Inr add.assoc)
      have dec: "((length ?c - (k + nw), pat (world (m\<lparr>world := w'\<rparr>))), (length ?c - k, pat (world m)))
          \<in> less_than <*lex*> less_than"
        using l lt by (cases "nw = 0") auto
      have wm: "world (m\<lparr>world := w'\<rparr>) = w'" by simp
      have kn: "k + nw \<le> length ?c" using nw lt by simp
      obtain ok m' where ih: "flush_loop P f (tag f + int (k + nw)) (m\<lparr>world := w'\<rparr>) = Some (ok, m')"
        "keeps P \<beta> w' (world m')"
        "if ok then \<alpha> (world m') = afile_put (drop (k + nw) ?c) (\<alpha> w')
         else (\<exists>j. \<alpha> (world m') = afile_put (take j (drop (k + nw) ?c)) (\<alpha> w')) \<and> errno m' \<in> hard \<and> 0 < errno m'"
        using less.hyps [OF dec kn, unfolded wm] by blast
      have dd: "take nw (drop k ?c) @ drop (k + nw) ?c = drop k ?c"
        by (rule take_drop_split)
      have tt: "take nw (drop k ?c) @ take j (drop (k + nw) ?c) = take (nw + j) (drop k ?c)" for j
        by (simp only: take_add drop_drop add.commute [of nw k])
      have "if ok then \<alpha> (world m') = afile_put (drop k ?c) (\<alpha> (world m))
         else (\<exists>j. \<alpha> (world m') = afile_put (take j (drop k ?c)) (\<alpha> (world m))) \<and> errno m' \<in> hard \<and> 0 < errno m'"
        using ih(3) dd tt unfolding a by (metis afile_put_append)
      then show ?thesis unfolding step using ih(1) keeps_trans [OF law(1) ih(2)] by blast
    next
      case (Inl e)
      note l = law(3) [OF Inl]
      let ?m = "m\<lparr>errno := e, world := w'\<rparr>"
      show ?thesis
      proof (cases "e \<in> {EINTR, EINVAL}")
        case False
        then have "flush_loop P f (tag f + int k) m = Some (False, ?m)"
          unfolding unf by (auto simp: syscall_def pr Inl)
        moreover have "\<exists>j. \<alpha> (world ?m) = afile_put (take j (drop k ?c)) (\<alpha> (world m))"
          using l by (intro exI [of _ 0]) simp
        ultimately show ?thesis using l False law(1) by (intro exI [of _ False] exI [of _ ?m]) simp
      next
        case True
        then have step: "flush_loop P f (tag f + int k) m = flush_loop P f (tag f + int k) ?m"
          unfolding unf by (auto simp: syscall_def pr Inl)
        have dec: "((length ?c - k, pat (world ?m)), (length ?c - k, pat (world m))) \<in> less_than <*lex*> less_than"
          using l True by auto
        have wm: "world ?m = w'" by simp
        have al: "\<alpha> w' = \<alpha> (world m)" using l by simp
        obtain ok m' where ih: "flush_loop P f (tag f + int k) ?m = Some (ok, m')" "keeps P \<beta> w' (world m')"
          "if ok then \<alpha> (world m') = afile_put (drop k ?c) (\<alpha> w')
           else (\<exists>j. \<alpha> (world m') = afile_put (take j (drop k ?c)) (\<alpha> w')) \<and> errno m' \<in> hard \<and> 0 < errno m'"
          using less.hyps [OF dec less.prems, unfolded wm] by blast
        show ?thesis unfolding step using ih(1) keeps_trans [OF law(1) ih(2)] ih(3) unfolding al by blast
      qed
    qed
  qed
qed

lemma io61_flush_write_spec:
  assumes inv: "winv P \<alpha> pat hard \<beta> f m"
  shows "\<exists>r f' m'. io61_flush P f m = Some (r, f', m') \<and> keeps P \<beta> (world m) (world m') \<and>
    (if r = 0 then winv P \<alpha> pat hard \<beta> f' m' \<and> fd f' = fd f \<and> seekable f' = seekable f
        \<and> \<alpha> (world m') = wabs \<alpha> f m \<and> cached f' = [] \<and> tag f' = end_tag f'
     else r = -1 \<and> f' = f \<and> errno m' \<in> hard \<and> 0 < errno m'
        \<and> (\<exists>j. \<alpha> (world m') = afile_put (take j (cached f)) (\<alpha> (world m))))"
proof -
  have d: "writes_file P (fd f) \<alpha> pat hard \<beta>" "0 \<le> tag f" "tag f \<le> end_tag f" "end_tag f \<le> tag f + cbufsz"
    "pos_tag f = end_tag f" "\<not> positioned f" "dirty f \<or> tag f = end_tag f" "mode f = O_WRONLY" "map_ptr f = NullMap"
    "seekable f \<longrightarrow> seeks_file P (fd f) \<alpha> \<beta> \<and> tag f = int (a_pos (\<alpha> (world m)))"
    using inv by (auto simp: winv_def)
  show ?thesis
  proof (cases "dirty f")
    case True
    have z: "tag f + int 0 = tag f" by simp
    obtain ok m' where l: "flush_loop P f (tag f) m = Some (ok, m')" "keeps P \<beta> (world m) (world m')"
      "if ok then \<alpha> (world m') = afile_put (cached f) (\<alpha> (world m))
       else (\<exists>j. \<alpha> (world m') = afile_put (take j (cached f)) (\<alpha> (world m))) \<and> errno m' \<in> hard \<and> 0 < errno m'"
      using flush_loop_spec [OF d(1-4) le0, of m, unfolded z drop_0] by blast
    let ?f = "f\<lparr>dirty := False, tag := end_tag f, pos_tag := end_tag f\<rparr>"
    have run: "io61_flush P f m = Some (if ok then (0, ?f, m') else (-1, f, m'))"
      using True d(6) l(1) by (simp add: io61_flush_def io61_flush_dirty_def)
    show ?thesis
    proof (cases ok)
      case False
      then show ?thesis using run l by auto
    next
      case ok: True
      then have a: "\<alpha> (world m') = afile_put (cached f) (\<alpha> (world m))" using l by simp
      have "end_tag f = int (a_pos (\<alpha> (world m')))" if "seekable f"
        using d(3,10) that length_cached [of f] unfolding a by (simp add: afile_put_def)
      then have "winv P \<alpha> pat hard \<beta> ?f m'" using d by (auto simp: winv_def)
      then show ?thesis using run ok l(2) a by (simp add: wabs_def cached_def)
    qed
  next
    case False
    then have te: "tag f = end_tag f" using d by simp
    then have c: "cached f = []" by (simp add: cached_def)
    show ?thesis
    proof (cases "seekable f")
      case True
      then have sk: "seeks_file P (fd f) \<alpha> \<beta>" and tp: "tag f = int (a_pos (\<alpha> (world m)))" using d by auto
      obtain w' where s: "p_lseek P (fd f) (pos_tag f) SEEK_SET (world m) = (Inr (pos_tag f), w')"
        "keeps P \<beta> (world m) w'" "\<alpha> w' = afile_seek (nat (pos_tag f)) (\<alpha> (world m))"
        using seeks_fileD [OF sk, of "pos_tag f"] d te by fastforce
      have a: "\<alpha> w' = \<alpha> (world m)" using s(3) tp te d(5) by (simp add: afile_seek_def)
      have "io61_flush P f m = Some (0, f\<lparr>tag := pos_tag f, end_tag := pos_tag f\<rparr>, m\<lparr>world := w'\<rparr>)"
        using False True d(6) s(1) by (simp add: io61_flush_def io61_flush_clean_def syscall_def)
      moreover have "winv P \<alpha> pat hard \<beta> (f\<lparr>tag := pos_tag f, end_tag := pos_tag f\<rparr>) (m\<lparr>world := w'\<rparr>)"
        using d te a by (auto simp: winv_def)
      ultimately show ?thesis using s(2) a c by (simp add: wabs_def cached_def)
    next
      case ns: False
      then have "io61_flush P f m = Some (0, f, m)"
        using False by (simp add: io61_flush_def io61_flush_clean_def)
      then show ?thesis using inv c te by (simp add: wabs_def)
    qed
  qed
qed

section \<open>Writing\<close>

text \<open>Room for at least one byte, made by a flush when the cache is full.\<close>

lemma make_room_spec:
  assumes inv: "winv P \<alpha> pat hard \<beta> f m"
  shows "\<exists>r f' m'. (if end_tag f = tag f + cbufsz then io61_flush P f m else Some (0, f, m)) = Some (r, f', m')
    \<and> keeps P \<beta> (world m) (world m') \<and>
    (if r = 0 then winv P \<alpha> pat hard \<beta> f' m' \<and> fd f' = fd f \<and> seekable f' = seekable f \<and> wabs \<alpha> f' m' = wabs \<alpha> f m \<and> end_tag f' < tag f' + cbufsz
     else r = -1 \<and> errno m' \<in> hard \<and> 0 < errno m')"
proof (cases "end_tag f = tag f + cbufsz")
  case True
  obtain r f' m' where "io61_flush P f m = Some (r, f', m')" "keeps P \<beta> (world m) (world m')"
    "if r = 0 then winv P \<alpha> pat hard \<beta> f' m' \<and> fd f' = fd f \<and> seekable f' = seekable f
        \<and> \<alpha> (world m') = wabs \<alpha> f m \<and> cached f' = [] \<and> tag f' = end_tag f'
     else r = -1 \<and> f' = f \<and> errno m' \<in> hard \<and> 0 < errno m'
        \<and> (\<exists>j. \<alpha> (world m') = afile_put (take j (cached f)) (\<alpha> (world m)))"
    using io61_flush_write_spec [OF inv] by blast
  then show ?thesis using True by (cases "r = 0") (simp_all add: wabs_def)
next
  case False
  then have "end_tag f < tag f + cbufsz" using inv by (simp add: winv_def)
  then show ?thesis using inv False
    by (intro exI [of _ 0] exI [of _ f] exI [of _ m]) simp
qed

lemma winv_put:
  assumes inv: "winv P \<alpha> pat hard \<beta> f m" and "bs \<noteq> []" and "end_tag f + int (length bs) \<le> tag f + cbufsz"
  defines "g \<equiv> cbuf_put (pos_tag f - tag f) bs f\<lparr>pos_tag := pos_tag f + int (length bs),
      end_tag := end_tag f + int (length bs), dirty := True\<rparr>"
  shows "cbuf_store f (pos_tag f - tag f) bs = Some (cbuf_put (pos_tag f - tag f) bs f)"
    and "winv P \<alpha> pat hard \<beta> g m" and "wabs \<alpha> g m = afile_put bs (wabs \<alpha> f m)" and "fd g = fd f" and "seekable g = seekable f"
proof -
  have pe: "pos_tag f = end_tag f" "tag f \<le> end_tag f" using inv by (auto simp: winv_def)
  then have e: "end_tag f = tag f + int (nat (end_tag f - tag f))" by simp
  show "cbuf_store f (pos_tag f - tag f) bs = Some (cbuf_put (pos_tag f - tag f) bs f)"
    using assms(3) pe by (simp add: cbuf_store_def)
  show "winv P \<alpha> pat hard \<beta> g m" using inv assms(3) by (auto simp: winv_def g_def)
  show "wabs \<alpha> g m = afile_put bs (wabs \<alpha> f m)"
    using cached_put [OF e, of bs "pos_tag f + int (length bs)"] pe
    by (simp add: wabs_def g_def afile_put_append)
  show "fd g = fd f" "seekable g = seekable f" by (simp_all add: g_def)
qed

lemma io61_writec_spec:
  assumes inv: "winv P \<alpha> pat hard \<beta> f m"
  shows "\<exists>r f' m'. io61_writec P f c m = Some (r, f', m') \<and> keeps P \<beta> (world m) (world m') \<and>
    (if r = 0 then winv P \<alpha> pat hard \<beta> f' m' \<and> fd f' = fd f \<and> seekable f' = seekable f \<and> wabs \<alpha> f' m' = afile_put [of_int c] (wabs \<alpha> f m)
     else r = -1 \<and> errno m' \<in> hard \<and> 0 < errno m')"
proof -
  obtain r f1 m1 where r: "(if end_tag f = tag f + cbufsz then io61_flush P f m else Some (0, f, m)) = Some (r, f1, m1)"
    and k: "keeps P \<beta> (world m) (world m1)" and
    p: "if r = 0 then winv P \<alpha> pat hard \<beta> f1 m1 \<and> fd f1 = fd f \<and> seekable f1 = seekable f \<and> wabs \<alpha> f1 m1 = wabs \<alpha> f m \<and> end_tag f1 < tag f1 + cbufsz
     else r = -1 \<and> errno m1 \<in> hard \<and> 0 < errno m1"
    using make_room_spec [OF inv] by blast
  have np: "\<not> positioned f" using inv by (simp add: winv_def)
  note chk = winv_check [OF inv]
  show ?thesis
  proof (cases "r = 0")
    case False
    then have "io61_writec P f c m = Some (-1, f1, m1)"
      unfolding io61_writec_def r using chk np p by simp
    then show ?thesis using False p k by auto
  next
    case True
    then have i1: "winv P \<alpha> pat hard \<beta> f1 m1" and rm: "end_tag f1 + int (length [of_int c]) \<le> tag f1 + cbufsz"
      using p by auto
    note wp = winv_put [OF i1 _ rm, simplified]
    show ?thesis
      unfolding io61_writec_def r using chk np True wp winv_check [OF wp(2)] p k by (simp add: Let_def)
  qed
qed

lemma write_loop_spec:
  assumes "winv P \<alpha> pat hard \<beta> f m" and "n \<le> length buf" and "length buf < 2 ^ 63"
  shows "\<exists>k f' m'. write_loop P buf n f m = Some (k, f', m') \<and> keeps P \<beta> (world m) (world m') \<and>
    (if k = length buf then winv P \<alpha> pat hard \<beta> f' m' \<and> fd f' = fd f \<and> seekable f' = seekable f
        \<and> wabs \<alpha> f' m' = afile_put (drop n buf) (wabs \<alpha> f m)
     else k < length buf \<and> errno m' \<in> hard \<and> 0 < errno m')"
  using assms
proof (induction "length buf - n" arbitrary: n f m rule: less_induct)
  case less
  show ?case
  proof (cases "n < length buf")
    case False
    then have "write_loop P buf n f m = Some (n, f, m)" by (subst write_loop.simps) simp
    then show ?thesis using less.prems False
      by (intro exI [of _ n] exI [of _ f] exI [of _ m]) simp
  next
    case True
    obtain r f1 m1 where r: "(if end_tag f = tag f + cbufsz then io61_flush P f m else Some (0, f, m)) = Some (r, f1, m1)"
      and k: "keeps P \<beta> (world m) (world m1)" and
      p: "if r = 0 then winv P \<alpha> pat hard \<beta> f1 m1 \<and> fd f1 = fd f \<and> seekable f1 = seekable f \<and> wabs \<alpha> f1 m1 = wabs \<alpha> f m \<and> end_tag f1 < tag f1 + cbufsz
       else r = -1 \<and> errno m1 \<in> hard \<and> 0 < errno m1"
      using make_room_spec [OF less.prems(1)] by blast
    show ?thesis
    proof (cases "r = 0")
      case False
      then have "write_loop P buf n f m = Some (n, f1, m1)"
        using True p by (subst write_loop.simps) (simp only: r, simp)
      then show ?thesis using False p k True by (intro exI [of _ n] exI [of _ f1] exI [of _ m1]) simp
    next
      case r0: True
      then have i1: "winv P \<alpha> pat hard \<beta> f1 m1" and rm: "end_tag f1 < tag f1 + cbufsz" and a1: "wabs \<alpha> f1 m1 = wabs \<alpha> f m"
        and fd1: "fd f1 = fd f" "seekable f1 = seekable f" using p by auto
      have pe: "pos_tag f1 = end_tag f1" "tag f1 \<le> end_tag f1" using i1 by (auto simp: winv_def)
      let ?cw = "min (to_size (cbufsz + tag f1 - pos_tag f1)) (length buf - n)"
      let ?bs = "take ?cw (drop n buf)"
      have ts: "to_size (cbufsz + tag f1 - pos_tag f1) = nat (cbufsz + tag f1 - pos_tag f1)"
        using rm pe by (intro to_size_id) simp_all
      have cw: "0 < ?cw" "end_tag f1 + int ?cw \<le> tag f1 + cbufsz" "?cw \<le> length buf - n"
        using rm pe True unfolding ts by auto
      have cwne: "?cw \<noteq> 0" using cw(1) by linarith
      have lb: "length ?bs = ?cw" using True by simp
      have ne: "?bs \<noteq> []" using cw(1) lb by (metis length_0_conv neq0_conv)
      let ?g = "cbuf_put (pos_tag f1 - tag f1) ?bs f1\<lparr>pos_tag := pos_tag f1 + int ?cw, end_tag := end_tag f1 + int ?cw, dirty := True\<rparr>"
      note wp = winv_put [OF i1 ne, unfolded lb, OF cw(2)]
      have step: "write_loop P buf n f m = write_loop P buf (n + ?cw) ?g m1"
        using True r0 wp(1) by (subst write_loop.simps) (simp only: r, simp add: Let_def cwne)
      have dec: "length buf - (n + ?cw) < length buf - n" and le: "n + ?cw \<le> length buf" using cw True by auto
      obtain k' f' m' where ih: "write_loop P buf (n + ?cw) ?g m1 = Some (k', f', m')" "keeps P \<beta> (world m1) (world m')"
        "if k' = length buf then winv P \<alpha> pat hard \<beta> f' m' \<and> fd f' = fd ?g \<and> seekable f' = seekable ?g
           \<and> wabs \<alpha> f' m' = afile_put (drop (n + ?cw) buf) (wabs \<alpha> ?g m1)
         else k' < length buf \<and> errno m' \<in> hard \<and> 0 < errno m'"
        using less.hyps [OF dec wp(2) le less.prems(3)] by blast
      have "?bs @ drop (n + ?cw) buf = drop n buf" by (rule take_drop_split)
      then have "afile_put (drop (n + ?cw) buf) (wabs \<alpha> ?g m1) = afile_put (drop n buf) (wabs \<alpha> f m)"
        unfolding wp(3) a1 by (metis afile_put_append)
      then show ?thesis unfolding step using ih fd1 wp(4,5) keeps_trans [OF k ih(2)] by metis
    qed
  qed
qed

lemma io61_write_spec:
  assumes inv: "winv P \<alpha> pat hard \<beta> f m" and "length buf < 2 ^ 63"
  shows "\<exists>r f' m'. io61_write P f buf m = Some (r, f', m') \<and> keeps P \<beta> (world m) (world m') \<and>
    (if r = int (length buf) then winv P \<alpha> pat hard \<beta> f' m' \<and> fd f' = fd f \<and> seekable f' = seekable f \<and> wabs \<alpha> f' m' = afile_put buf (wabs \<alpha> f m)
     else r < int (length buf) \<and> errno m' \<in> hard \<and> 0 < errno m')"
proof -
  obtain k f' m' where l: "write_loop P buf 0 f m = Some (k, f', m')" "keeps P \<beta> (world m) (world m')"
    "if k = length buf then winv P \<alpha> pat hard \<beta> f' m' \<and> fd f' = fd f \<and> seekable f' = seekable f
        \<and> wabs \<alpha> f' m' = afile_put (drop 0 buf) (wabs \<alpha> f m)
     else k < length buf \<and> errno m' \<in> hard \<and> 0 < errno m'"
    using write_loop_spec [OF inv _ assms(2), of 0] by blast
  have np: "\<not> positioned f" using inv by (simp add: winv_def)
  have run: "io61_write P f buf m = Some (if k \<noteq> 0 \<or> buf = [] then int k else -1, f', m')"
    using winv_check [OF inv] np l(1) by (simp add: io61_write_def)
  show ?thesis
  proof (cases "k = length buf")
    case True
    then show ?thesis using run l(2,3) by (intro exI [of _ "int (length buf)"] exI [of _ f'] exI [of _ m']) simp
  next
    case False
    then have "buf \<noteq> []" using l(3) by auto
    then show ?thesis using False run l(2,3)
      by (intro exI [of _ "if k \<noteq> 0 then int k else -1"] exI [of _ f'] exI [of _ m']) auto
  qed
qed

section \<open>Seeking, opening and closing\<close>

lemma io61_seek_write_spec:
  assumes inv: "winv P \<alpha> pat hard \<beta> f m" and sk: "seekable f" and off: "0 \<le> off"
  shows "\<exists>r f' m'. io61_seek P f off m = Some (r, f', m') \<and> keeps P \<beta> (world m) (world m') \<and>
    (if r = 0 then winv P \<alpha> pat hard \<beta> f' m' \<and> fd f' = fd f \<and> seekable f' \<and> wabs \<alpha> f' m' = afile_seek (nat off) (wabs \<alpha> f m)
     else r = -1 \<and> errno m' \<in> hard \<and> 0 < errno m')"
proof -
  have md: "mode f = O_WRONLY" using inv by (simp add: winv_def)
  obtain r f1 m1 where fl: "io61_flush P f m = Some (r, f1, m1)" and k1: "keeps P \<beta> (world m) (world m1)" and
    p: "if r = 0 then winv P \<alpha> pat hard \<beta> f1 m1 \<and> fd f1 = fd f \<and> seekable f1 = seekable f
        \<and> \<alpha> (world m1) = wabs \<alpha> f m \<and> cached f1 = [] \<and> tag f1 = end_tag f1
     else r = -1 \<and> f1 = f \<and> errno m1 \<in> hard \<and> 0 < errno m1
        \<and> (\<exists>j. \<alpha> (world m1) = afile_put (take j (cached f)) (\<alpha> (world m)))"
    using io61_flush_write_spec [OF inv] by blast
  note chk = winv_check [OF inv]
  show ?thesis
  proof (cases "r = 0")
    case False
    then have "io61_seek P f off m = Some (-1, f1, m1)"
      using chk md fl p by (simp add: io61_seek_def mode_defs)
    then show ?thesis using False p k1 by auto
  next
    case True
    then have i1: "winv P \<alpha> pat hard \<beta> f1 m1" and d1: "fd f1 = fd f" "seekable f1" "\<alpha> (world m1) = wabs \<alpha> f m"
      using p sk by simp_all
    have s1: "seeks_file P (fd f1) \<alpha> \<beta>" and md1: "mode f1 = O_WRONLY" using i1 d1(2) by (simp_all add: winv_def)
    obtain w' where l: "p_lseek P (fd f1) off SEEK_SET (world m1) = (Inr off, w')"
      and kw: "keeps P \<beta> (world m1) w'" and aw: "\<alpha> w' = afile_seek (nat off) (\<alpha> (world m1))"
      using seeks_fileD [OF s1 off] by blast
    let ?g = "f1\<lparr>pos_tag := off, positioned := False, tag := off, end_tag := off\<rparr>"
    have run: "io61_seek P f off m = Some (0, ?g, m1\<lparr>world := w'\<rparr>)"
      using chk md fl True md1 l by (simp add: io61_seek_def syscall_def mode_defs Let_def)
    have "winv P \<alpha> pat hard \<beta> ?g (m1\<lparr>world := w'\<rparr>)"
      using i1 off aw by (auto simp: winv_def)
    then show ?thesis using run keeps_trans [OF k1 kw] aw d1
      by (intro exI [of _ 0] exI [of _ ?g] exI [of _ "m1\<lparr>world := w'\<rparr>"]) (simp add: wabs_def cached_def)
  qed
qed

lemma io61_fdopen_write_spec:
  assumes "writes_file P d \<alpha> pat hard \<beta>" and "stats_file P d \<alpha> \<beta>"
    and sk: "seeks_file P d \<alpha> \<beta>" and "0 \<le> d"
  shows "\<exists>f m'. io61_fdopen P junk d O_WRONLY m = Some (f, m') \<and> winv P \<alpha> pat hard \<beta> f m'
    \<and> keeps P \<beta> (world m) (world m') \<and> fd f = d \<and> wabs \<alpha> f m' = \<alpha> (world m) \<and> seekable f"
proof -
  obtain w1 where l: "p_lseek P d 0 SEEK_CUR (world m) = (Inr (int (a_pos (\<alpha> (world m)))), w1)"
    and k1: "keeps P \<beta> (world m) w1" and a1: "\<alpha> w1 = \<alpha> (world m)"
    using seeks_file_curD [OF sk] by blast
  let ?m1 = "m\<lparr>world := w1\<rparr>"
  obtain n1 m2 where f1: "io61_filesize P d ?m1 = (n1, m2)" "keeps P \<beta> w1 (world m2)" "\<alpha> (world m2) = \<alpha> w1"
    using io61_filesize_spec [OF assms(2), of ?m1] by auto
  obtain n2 m3 where f2: "io61_filesize P d m2 = (n2, m3)" "keeps P \<beta> (world m2) (world m3)" "\<alpha> (world m3) = \<alpha> (world m2)"
    using io61_filesize_spec [OF assms(2), of m2] by auto
  have ap: "O_WRONLY AND O_APPEND = 0" "O_WRONLY AND O_ACCMODE = 1"
    by (simp_all add: O_APPEND_def O_ACCMODE_def O_WRONLY_def)
  show ?thesis
    unfolding io61_fdopen_def syscall_def l
    using assms l f1 f2 ap a1 keeps_trans [OF k1 keeps_trans [OF f1(2) f2(2)]]
    by (simp add: Let_def winv_def wabs_def cached_def O_WRONLY_def)
qed

lemma io61_close_write_spec:
  assumes inv: "winv P \<alpha> pat hard \<beta> f m" and cl: "closes_file P (fd f) (\<lambda>w. (\<alpha> w, \<beta> w))"
  shows "\<exists>r m'. io61_close P f m = Some (r, m') \<and> \<beta> (world m') = \<beta> (world m)
    \<and> ((\<exists>j. \<alpha> (world m') = afile_put (take j (cached f)) (\<alpha> (world m)) \<and> hard \<noteq> {}) \<or> \<alpha> (world m') = wabs \<alpha> f m)"
proof -
  obtain r f1 m1 where fl: "io61_flush P f m = Some (r, f1, m1)" and k1: "keeps P \<beta> (world m) (world m1)" and
    p: "if r = 0 then winv P \<alpha> pat hard \<beta> f1 m1 \<and> fd f1 = fd f \<and> seekable f1 = seekable f
        \<and> \<alpha> (world m1) = wabs \<alpha> f m \<and> cached f1 = [] \<and> tag f1 = end_tag f1
     else r = -1 \<and> f1 = f \<and> errno m1 \<in> hard \<and> 0 < errno m1
        \<and> (\<exists>j. \<alpha> (world m1) = afile_put (take j (cached f)) (\<alpha> (world m)))"
    using io61_flush_write_spec [OF inv] by blast
  have fd1: "fd f1 = fd f" using p by (auto split: if_splits)
  have a1: "(\<exists>j. \<alpha> (world m1) = afile_put (take j (cached f)) (\<alpha> (world m)) \<and> hard \<noteq> {}) \<or> \<alpha> (world m1) = wabs \<alpha> f m"
    using p by (auto split: if_splits)
  obtain r' m' where "(let (r, m) = syscall (p_close P (fd f1)) m1;
      (_, m) = syscall (p_munmap P (map_ptr f1) (if 0 < fsize f1 then fsize f1 else of_int cbufsz)) m
      in Some (if r = None then (-1::int) else 0, m)) = Some (r', m')" "(\<alpha> (world m'), \<beta> (world m')) = (\<alpha> (world m1), \<beta> (world m1))"
    using close_calls_spec [OF cl, of m1 "map_ptr f1" "if 0 < fsize f1 then fsize f1 else of_int cbufsz"] fd1 by auto
  then show ?thesis using fl a1 k1 by (auto simp: io61_close_def keeps_def)
qed

section \<open>Properties\<close>

text \<open>A program that writes a list of buffers and checks each result.\<close>

fun write_all :: "'w posix \<Rightarrow> io61_file \<Rightarrow> u8 list list \<Rightarrow> 'w machine \<Rightarrow> (io61_file \<times> 'w machine) option" where
  "write_all P f [] m = Some (f, m)"
| "write_all P f (b # bs) m = do {
     (r, f, m) \<leftarrow> io61_write P f b m;
     assert_ok (r = int (length b));
     write_all P f bs m }"

lemma write_all_spec:
  assumes "winv P \<alpha> pat {} \<beta> f m" and "\<forall>b \<in> set bs. length b < 2 ^ 63"
  shows "\<exists>f' m'. write_all P f bs m = Some (f', m') \<and> winv P \<alpha> pat {} \<beta> f' m' \<and> fd f' = fd f
    \<and> wabs \<alpha> f' m' = afile_put (concat bs) (wabs \<alpha> f m)"
  using assms
proof (induction bs arbitrary: f m)
  case (Cons b bs)
  then have lb: "length b < 2 ^ 63" by simp
  obtain r f1 m1 where x: "io61_write P f b m = Some (r, f1, m1)"
    "if r = int (length b) then winv P \<alpha> pat {} \<beta> f1 m1 \<and> fd f1 = fd f \<and> seekable f1 = seekable f \<and> wabs \<alpha> f1 m1 = afile_put b (wabs \<alpha> f m)
     else r < int (length b) \<and> errno m1 \<in> {} \<and> 0 < errno m1"
    using io61_write_spec [OF Cons.prems(1) lb] by blast
  then have r: "r = int (length b)" and i: "winv P \<alpha> pat {} \<beta> f1 m1" and d: "fd f1 = fd f"
    and a: "wabs \<alpha> f1 m1 = afile_put b (wabs \<alpha> f m)" by (auto split: if_splits)
  show ?case using Cons.IH [OF i] Cons.prems(2) x(1) r d a by (simp add: afile_put_append)
qed simp

text \<open>C4: everything written through a fresh \<open>io61_file\<close> reaches the file, once and in
  order, by the time \<open>io61_close\<close> returns, for any sequence of write sizes, when the system
  only makes short transfers or interrupts calls.\<close>

theorem io61_write_close_delivers:
  assumes "writes_file P d \<alpha> pat {} \<beta>" and "stats_file P d \<alpha> \<beta>" and "seeks_file P d \<alpha> \<beta>"
    and "closes_file P d (\<lambda>w. (\<alpha> w, \<beta> w))" and "0 \<le> d" and "\<forall>b \<in> set bs. length b < 2 ^ 63"
  shows "\<exists>f m1 g m2 r m3. io61_fdopen P junk d O_WRONLY m = Some (f, m1)
    \<and> write_all P f bs m1 = Some (g, m2) \<and> io61_close P g m2 = Some (r, m3)
    \<and> \<alpha> (world m3) = afile_put (concat bs) (\<alpha> (world m))"
proof -
  obtain f m1 where o: "io61_fdopen P junk d O_WRONLY m = Some (f, m1)" "winv P \<alpha> pat {} \<beta> f m1" "fd f = d"
    "wabs \<alpha> f m1 = \<alpha> (world m)"
    using io61_fdopen_write_spec [OF assms(1,2,3,5)] by blast
  obtain g m2 where w: "write_all P f bs m1 = Some (g, m2)" "winv P \<alpha> pat {} \<beta> g m2" "fd g = fd f"
    "wabs \<alpha> g m2 = afile_put (concat bs) (wabs \<alpha> f m1)"
    using write_all_spec [OF o(2) assms(6)] by blast
  have "closes_file P (fd g) (\<lambda>w. (\<alpha> w, \<beta> w))" using assms(4) w(3) o(3) by simp
  from io61_close_write_spec [OF w(2) this] show ?thesis using o w by auto
qed

lemma io61_write_close_delivers_witness:
  "\<exists>f m1 g m2 r m3. io61_fdopen (mem_os False) (\<lambda>i. 0) 4 O_WRONLY (demo_machine False []) = Some (f, m1)
    \<and> write_all (mem_os False) f [[1, 2, 3], [4]] m1 = Some (g, m2) \<and> io61_close (mem_os False) g m2 = Some (r, m3)
    \<and> ms_afile 4 (world m3) = \<lparr>a_pos = 4, a_bytes = [1, 2, 3, 4]\<rparr>"
proof -
  have fr: "ms_frame 4 (\<lambda>s. ())" by (rule ms_frame_unit)
  have a: "afile_put (concat [[1, 2, 3], [4]]) (ms_afile 4 (world (demo_machine False []))) = \<lparr>a_pos = 4, a_bytes = [1, 2, 3, 4 :: u8]\<rparr>"
    unfolding demo_afile by (simp add: afile_put_def overwrite_def)
  show ?thesis unfolding a [symmetric]
    by (rule io61_write_close_delivers [OF mem_os_writes [OF fr] mem_os_stats [OF fr] mem_os_seeks [OF fr] mem_os_closes]) simp_all
qed

text \<open>C25: a defect: when the system fails part way through a flush, the bytes that did get
  out stay in the cache, so the next flush that succeeds writes them a second time.\<close>

theorem io61_flush_error_duplicates:
  assumes "winv P \<alpha> pat hard \<beta> f m" and "dirty f"
    and "io61_flush P f m = Some (-1, f1, m1)"
    and "\<alpha> (world m2) = \<alpha> (world m1)" and "io61_flush P f1 m2 = Some (0, f3, m3)"
  shows "\<exists>j. \<alpha> (world m1) = afile_put (take j (cached f)) (\<alpha> (world m))
    \<and> \<alpha> (world m3) = afile_put (take j (cached f) @ cached f) (\<alpha> (world m))"
proof -
  obtain j where j: "f1 = f" "\<alpha> (world m1) = afile_put (take j (cached f)) (\<alpha> (world m))"
    using io61_flush_write_spec [OF assms(1)] assms(3) by (auto split: if_splits)
  have np: "\<not> positioned f" and t: "0 \<le> tag f" "tag f \<le> end_tag f" "end_tag f \<le> tag f + cbufsz"
    and w: "writes_file P (fd f) \<alpha> pat hard \<beta>" using assms(1) by (auto simp: winv_def)
  have z: "tag f + int 0 = tag f" by simp
  obtain ok m' where l: "flush_loop P f (tag f) m2 = Some (ok, m')"
    "if ok then \<alpha> (world m') = afile_put (cached f) (\<alpha> (world m2))
     else (\<exists>j. \<alpha> (world m') = afile_put (take j (cached f)) (\<alpha> (world m2))) \<and> errno m' \<in> hard \<and> 0 < errno m'"
    using flush_loop_spec [OF w t le0, of m2, unfolded z drop_0] by blast
  have "ok \<and> m' = m3" using assms(2,5) np l(1) j(1)
    by (simp add: io61_flush_def io61_flush_dirty_def split: if_splits)
  then show ?thesis using l(2) j(2) assms(4) by (auto simp: afile_put_append)
qed

text \<open>The demonstration: there is room for two bytes at first, and then for ten more.\<close>

definition more_room :: "memsys machine \<Rightarrow> memsys machine" where
  "more_room m = m\<lparr>world := (world m)\<lparr>ms_file := (ms_file (world m))(4 := (ms_file (world m) 4)\<lparr>mf_room := 10\<rparr>)\<rparr>\<rparr>"

definition dup_file :: io61_file where
  "dup_file = \<lparr>fd = 4, mode = 1, seekable = False, fsize = 0, cbuf = (\<lambda>i. of_nat (i + 1)), tag = 0, pos_tag = 3,
     end_tag = 3, map_ptr = NullMap, is_seq = True, dirty = True, positioned = False, chunk_sz = 16,
     nlocked = (\<lambda>i. 0), owner = (\<lambda>i. 0)\<rparr>"

lemma dup_run:
  "\<exists>m1 f3 m3. io61_flush (mem_os True) dup_file (demo_machine False []) = Some (-1, dup_file, m1)
    \<and> io61_flush (mem_os True) dup_file (more_room m1) = Some (0, f3, m3)
    \<and> a_bytes (ms_afile 4 (world m1)) = [1, 2]"
  by (simp add: dup_file_def io61_flush_def io61_flush_dirty_def flush_loop.simps cbuf_load_def to_size_def syscall_def
      mem_os_def on_file_def demo_machine_def mf_write_def errno_defs more_room_def ms_afile_def upt_rec overwrite_def Let_def)

lemma io61_flush_error_duplicates_witness:
  "\<exists>m1 f3 m3. io61_flush (mem_os True) dup_file (demo_machine False []) = Some (-1, dup_file, m1)
    \<and> io61_flush (mem_os True) dup_file (more_room m1) = Some (0, f3, m3)
    \<and> a_bytes (ms_afile 4 (world m3)) = [1, 2, 1, 2, 3]"
proof -
  have c: "cached dup_file = [1, 2, 3]" by (simp add: cached_def dup_file_def upt_rec)
  have i: "winv (mem_os True) (ms_afile 4) (ms_glitch 4) {28} (\<lambda>s. ()) dup_file (demo_machine False [])"
    using mem_os_writes_limited [OF ms_frame_unit, of 4] by (simp add: winv_def mode_defs dup_file_def)
  have d: "dirty dup_file" by (simp add: dup_file_def)
  obtain m1 f3 m3 where r: "io61_flush (mem_os True) dup_file (demo_machine False []) = Some (-1, dup_file, m1)"
    "io61_flush (mem_os True) dup_file (more_room m1) = Some (0, f3, m3)" "a_bytes (ms_afile 4 (world m1)) = [1, 2]"
    using dup_run by blast
  have m: "ms_afile 4 (world (more_room m1)) = ms_afile 4 (world m1)" by (simp add: ms_afile_def more_room_def)
  have p: "a_bytes (afile_put ys (ms_afile 4 (world (demo_machine False [])))) = ys" for ys
    unfolding demo_afile by (simp add: afile_put_def overwrite_def)
  have "a_bytes (ms_afile 4 (world m3)) = [1, 2] @ cached dup_file"
    using io61_flush_error_duplicates [OF i d r(1) m r(2)] r(3) p by metis
  then show ?thesis using r unfolding c by auto
qed

end
