(* ===== verification/Io61Pos.thy ===== *)
theory Io61Pos
  imports Io61Write
begin

text \<open>
  Positioned I/O (\<open>io61_pread\<close>, \<open>io61_pwrite\<close>) on a read/write file: with the
  single-slot cache laid over the system's file, the library keeps the contents \<open>pabs\<close>.
  Writing the slot back is idempotent, so a failed flush loses nothing.
\<close>

lemma smod_nonneg: "0 \<le> (off :: int) \<Longrightarrow> off smod 8192 = off mod 8192"
  by (simp add: signed_modulo_int_def signed_divide_int_def sgn_if minus_div_mult_eq_mod)

lemma overwrite_within:
  assumes "off + length ys \<le> length bs"
  shows "overwrite bs off ys = take off bs @ ys @ drop (off + length ys) bs"
  using assms by (cases "ys = []") (simp_all add: overwrite_def)

lemma overwrite_same: "overwrite bs off (take n (drop off bs)) = bs"
proof (cases "take n (drop off bs) = []")
  case False
  then have "off < length bs" by (metis drop_eq_Nil not_le take_Nil)
  then have *: "off + length (take n (drop off bs)) \<le> length bs" by simp
  have "drop (off + length (take n (drop off bs))) bs = drop n (drop off bs)"
    using \<open>off < length bs\<close> by (cases "n \<le> length bs - off") (simp_all add: add.commute)
  then show ?thesis unfolding overwrite_within [OF *]
    by (metis append_take_drop_id take_drop_split add.commute)
next
  case True
  then show ?thesis by (simp only: overwrite_Nil)
qed

lemma length_overwrite_within: "off + length ys \<le> length bs \<Longrightarrow> length (overwrite bs off ys) = length bs"
  by (simp add: length_overwrite)

lemma nth_overwrite_within:
  assumes "off + length ys \<le> length bs" and "i < length bs"
  shows "overwrite bs off ys ! i = (if off \<le> i \<and> i < off + length ys then ys ! (i - off) else bs ! i)"
  using assms by (cases "ys = []") (auto simp add: nth_overwrite)

lemma overwrite_nested:
  assumes "off + length ys \<le> length bs" and "k + length zs \<le> length ys"
  shows "overwrite (overwrite bs off ys) (off + k) zs = overwrite bs off (overwrite ys k zs)"
proof (rule nth_equalityI)
  show "length (overwrite (overwrite bs off ys) (off + k) zs) = length (overwrite bs off (overwrite ys k zs))"
    using assms by (auto simp: length_overwrite)
next
  fix i assume "i < length (overwrite (overwrite bs off ys) (off + k) zs)"
  then have i: "i < length bs" using assms by (simp add: length_overwrite_within)
  have l: "length (overwrite bs off ys) = length bs" "length (overwrite ys k zs) = length ys"
    using assms by (simp_all add: length_overwrite_within)
  have a: "off + k + length zs \<le> length (overwrite bs off ys)" "i < length (overwrite bs off ys)"
    "off + length (overwrite ys k zs) \<le> length bs" using assms i unfolding l by simp_all
  have b: "off \<le> i \<and> i < off + length ys \<Longrightarrow> i - off < length ys" by linarith
  show "overwrite (overwrite bs off ys) (off + k) zs ! i = overwrite bs off (overwrite ys k zs) ! i"
    unfolding nth_overwrite_within [OF a(1,2)] nth_overwrite_within [OF a(3) i] nth_overwrite_within [OF assms(1) i] l
    using assms(2) nth_overwrite_within [OF assms(2) b] by auto
qed

lemma overwrite_prefix_again:
  assumes "off + length ys \<le> length bs"
  shows "overwrite (overwrite bs off (take j ys)) off ys = overwrite bs off ys"
proof (rule nth_equalityI)
  show "length (overwrite (overwrite bs off (take j ys)) off ys) = length (overwrite bs off ys)"
    by (auto simp: length_overwrite)
next
  fix i assume "i < length (overwrite (overwrite bs off (take j ys)) off ys)"
  then have i: "i < length bs" using assms by (auto simp: length_overwrite split: if_splits)
  show "overwrite (overwrite bs off (take j ys)) off ys ! i = overwrite bs off ys ! i"
    using assms i by (cases "take j ys = []"; cases "ys = []")
      (auto simp: nth_overwrite length_overwrite)
qed

lemma drop_overwrite:
  assumes "off + length ys \<le> length bs" and "off \<le> p" and "p + n \<le> off + length ys"
  shows "take n (drop p (overwrite bs off ys)) = take n (drop (p - off) ys)"
  unfolding overwrite_within [OF assms(1)] using assms by simp

section \<open>The invariant\<close>

definition pinv :: "'w posix \<Rightarrow> ('w \<Rightarrow> afile) \<Rightarrow> ('w \<Rightarrow> nat) \<Rightarrow> int set \<Rightarrow> io61_file \<Rightarrow> 'w machine \<Rightarrow> bool" where
  "pinv P \<alpha> pat hard f m \<longleftrightarrow>
     positions_file P (fd f) \<alpha> pat hard \<and> mode f = O_RDWR
     \<and> length (a_bytes (\<alpha> (world m))) < 2 ^ 63 \<and> (dirty f \<longrightarrow> positioned f)
     \<and> (positioned f \<longrightarrow> 0 \<le> tag f \<and> tag f mod 8192 = 0
          \<and> end_tag f = tag f + int (min 8192 (length (a_bytes (\<alpha> (world m))) - nat (tag f)))
          \<and> (\<not> dirty f \<longrightarrow> overwrite (a_bytes (\<alpha> (world m))) (nat (tag f)) (cached f) = a_bytes (\<alpha> (world m))))"

text \<open>The contents of the file as the program sees them.\<close>

definition pabs :: "('w \<Rightarrow> afile) \<Rightarrow> io61_file \<Rightarrow> 'w machine \<Rightarrow> u8 list" where
  "pabs \<alpha> f m = (if positioned f then overwrite (a_bytes (\<alpha> (world m))) (nat (tag f)) (cached f)
     else a_bytes (\<alpha> (world m)))"

lemma pinv_fits:
  assumes "pinv P \<alpha> pat hard f m" and "positioned f" and "cached f \<noteq> []"
  shows "nat (tag f) + length (cached f) \<le> length (a_bytes (\<alpha> (world m)))"
proof -
  have "nat (tag f) < length (a_bytes (\<alpha> (world m)))"
    using assms unfolding cached_def by (cases "nat (tag f) < length (a_bytes (\<alpha> (world m)))") (simp_all add: pinv_def)
  then show ?thesis using assms(1,2) by (simp add: pinv_def length_cached)
qed

lemma pinv_slot: "pinv P \<alpha> pat hard f m \<Longrightarrow> positioned f \<Longrightarrow>
    0 \<le> tag f \<and> tag f \<le> end_tag f \<and> end_tag f \<le> tag f + cbufsz"
  by (simp add: pinv_def)

lemma length_pabs: "pinv P \<alpha> pat hard f m \<Longrightarrow> length (pabs \<alpha> f m) = length (a_bytes (\<alpha> (world m)))"
  using pinv_fits [of P \<alpha> pat hard f m] by (auto simp: pabs_def length_overwrite)

section \<open>Writing the slot back\<close>

lemma pwrite_law:
  assumes "positions_file P d \<alpha> pat hard" and "bs \<noteq> []" and "0 \<le> off" and "p_pwrite P d bs off w = (x, w')"
  shows "x = Inr n \<Longrightarrow> n \<le> length bs \<and> (n = 0 \<longrightarrow> pat w' < pat w) \<and>
          \<alpha> w' = (\<alpha> w)\<lparr>a_bytes := overwrite (a_bytes (\<alpha> w)) (nat off) (take n bs)\<rparr>"
    and "x = Inl e \<Longrightarrow> \<alpha> w' = \<alpha> w \<and>
          (e \<in> hard - {EINTR, EINVAL} \<or> e \<in> {EINTR, EINVAL} \<and> pat w' < pat w)"
  using assms(1) [unfolded positions_file_def, THEN conjunct2, rule_format, OF assms(2,3), of w] assms(4)
  by (cases x; simp)+

lemma pread_law:
  assumes "positions_file P d \<alpha> pat hard" and "0 < n" and "0 \<le> off" and "p_pread P d n off w = (x, w')"
  shows "\<alpha> w' = \<alpha> w" and "x = Inr bs \<Longrightarrow> bs = take n (drop (nat off) (a_bytes (\<alpha> w)))"
    and "x = Inl e \<Longrightarrow> e \<in> hard"
  using assms(1) [unfolded positions_file_def, THEN conjunct1, rule_format, OF assms(2,3), of w] assms(4)
  by (cases x; simp)+

lemma pflush_loop_spec:
  assumes w: "positions_file P (fd f) \<alpha> pat hard" and "0 \<le> tag f" and "tag f \<le> end_tag f"
    and "end_tag f \<le> tag f + cbufsz" and "k \<le> length (cached f)"
  shows "\<exists>ok m'. pflush_loop P f (tag f + int k) m = Some (ok, m') \<and>
    (\<exists>j. (ok \<longrightarrow> j \<ge> length (cached f)) \<and> (\<not> ok \<longrightarrow> hard \<noteq> {}) \<and> \<alpha> (world m') = (\<alpha> (world m))\<lparr>a_bytes :=
        overwrite (a_bytes (\<alpha> (world m))) (nat (tag f) + k) (take j (drop k (cached f)))\<rparr>)"
  using assms(5)
proof (induction "(length (cached f) - k, pat (world m))" arbitrary: k m
    rule: wf_induct_rule [OF wf_lex_prod [OF wf_less_than wf_less_than]])
  case less: 1
  let ?c = "cached f"
  have n: "length ?c = nat (end_tag f - tag f)" by (rule length_cached)
  show ?case
  proof (cases "k = length ?c")
    case True
    then have "tag f + int k = end_tag f" using assms(3) n by simp
    then have "pflush_loop P f (tag f + int k) m = Some (True, m)" by (subst pflush_loop.simps) simp
    then show ?thesis using True by (intro exI [of _ True] exI [of _ m]) auto
  next
    case False
    then have lt: "k < length ?c" using less.prems by simp
    then have ne: "tag f + int k \<noteq> end_tag f" using assms(3) n by linarith
    have ts: "to_size (end_tag f - (tag f + int k)) = length ?c - k"
      using assms(3,4) lt n by (subst to_size_id) (simp_all; linarith)+
    have "cbuf_load f (tag f + int k - tag f) (length ?c - k) = Some (map (cbuf f) [k..<length ?c])"
      using assms(3,4) lt n by (simp add: cbuf_load_def)
    also have "map (cbuf f) [k..<length ?c] = drop k ?c" by (simp add: cached_def drop_map)
    finally have ld: "cbuf_load f (tag f + int k - tag f) (length ?c - k) = Some (drop k ?c)" .
    have dne: "drop k ?c \<noteq> []" using lt by simp
    have o0: "0 \<le> tag f + int k" and no: "nat (tag f + int k) = nat (tag f) + k" using assms(2) by simp_all
    obtain x w' where pr: "p_pwrite P (fd f) (drop k ?c) (tag f + int k) (world m) = (x, w')" by fastforce
    note law = pwrite_law [OF w dne o0 pr, unfolded no]
    have unf: "pflush_loop P f (tag f + int k) m =
      (case syscall (p_pwrite P (fd f) (drop k ?c) (tag f + int k)) m of
         (Some nw, m) \<Rightarrow> pflush_loop P f (tag f + int k + int nw) m
       | (None, m) \<Rightarrow> if errno m \<noteq> EINTR \<and> errno m \<noteq> EINVAL then Some (False, m)
                      else pflush_loop P f (tag f + int k) m)"
      using ne ts ld by (subst pflush_loop.simps) simp
    show ?thesis
    proof (cases x)
      case (Inr nw)
      note l = law(1) [OF Inr]
      let ?m = "m\<lparr>world := w'\<rparr>"
      have wm: "world ?m = w'" by simp
      have step: "pflush_loop P f (tag f + int k) m = pflush_loop P f (tag f + int (k + nw)) ?m"
        unfolding unf by (simp add: syscall_def pr Inr add.assoc)
      have dec: "((length ?c - (k + nw), pat (world ?m)), (length ?c - k, pat (world m))) \<in> less_than <*lex*> less_than"
        using l lt by (cases "nw = 0") auto
      have kn: "k + nw \<le> length ?c" using l lt by auto
      obtain ok m' j where ih: "pflush_loop P f (tag f + int (k + nw)) ?m = Some (ok, m')"
        "ok \<longrightarrow> j \<ge> length ?c" "\<not> ok \<longrightarrow> hard \<noteq> {}" "\<alpha> (world m') = (\<alpha> w')\<lparr>a_bytes :=
          overwrite (a_bytes (\<alpha> w')) (nat (tag f) + (k + nw)) (take j (drop (k + nw) ?c))\<rparr>"
        using less.hyps [OF dec kn, unfolded wm] by blast
      have tt: "take (nw + j) (drop k ?c) = take nw (drop k ?c) @ take j (drop (k + nw) ?c)"
        by (simp only: take_add drop_drop add.commute [of nw k])
      have lw: "length (take nw (drop k ?c)) = nw" using kn lt by simp
      have "\<alpha> (world m') = (\<alpha> (world m))\<lparr>a_bytes :=
          overwrite (a_bytes (\<alpha> (world m))) (nat (tag f) + k) (take (nw + j) (drop k ?c))\<rparr>"
        unfolding tt overwrite_append lw ih(4) using l by (simp add: add.assoc)
      moreover have "ok \<longrightarrow> nw + j \<ge> length ?c" using ih(2) by auto
      ultimately show ?thesis unfolding step using ih(1,3) by blast
    next
      case (Inl e)
      note l = law(2) [OF Inl]
      let ?m = "m\<lparr>errno := e, world := w'\<rparr>"
      have wm: "world ?m = w'" and al: "\<alpha> w' = \<alpha> (world m)" using l by simp_all
      show ?thesis
      proof (cases "e \<in> {EINTR, EINVAL}")
        case False
        then have "pflush_loop P f (tag f + int k) m = Some (False, ?m)"
          unfolding unf by (auto simp: syscall_def pr Inl)
        moreover have "\<alpha> (world ?m) = (\<alpha> (world m))\<lparr>a_bytes :=
            overwrite (a_bytes (\<alpha> (world m))) (nat (tag f) + k) (take 0 (drop k ?c))\<rparr>" using al by simp
        moreover have "hard \<noteq> {}" using l False by blast
        ultimately show ?thesis by blast
      next
        case True
        then have step: "pflush_loop P f (tag f + int k) m = pflush_loop P f (tag f + int k) ?m"
          unfolding unf by (auto simp: syscall_def pr Inl)
        have dec: "((length ?c - k, pat (world ?m)), (length ?c - k, pat (world m))) \<in> less_than <*lex*> less_than"
          using l True by auto
        show ?thesis unfolding step using less.hyps [OF dec less.prems, unfolded wm al] by blast
      qed
    qed
  qed
qed

lemma pflush_spec:
  assumes inv: "pinv P \<alpha> pat hard f m" and dt: "dirty f"
  shows "\<exists>r f' m'. io61_flush P f m = Some (r, f', m') \<and> pinv P \<alpha> pat hard f' m' \<and> fd f' = fd f
    \<and> pabs \<alpha> f' m' = pabs \<alpha> f m \<and> length (a_bytes (\<alpha> (world m'))) = length (a_bytes (\<alpha> (world m)))
    \<and> (if r = 0 then \<not> dirty f' \<and> a_bytes (\<alpha> (world m')) = pabs \<alpha> f m else r = -1 \<and> hard \<noteq> {})"
proof -
  have ps: "positioned f" and pf: "positions_file P (fd f) \<alpha> pat hard" using inv dt by (simp_all add: pinv_def)
  have t: "0 \<le> tag f" "tag f \<le> end_tag f" "end_tag f \<le> tag f + cbufsz" using pinv_slot [OF inv ps] by simp_all
  let ?B = "a_bytes (\<alpha> (world m))" and ?c = "cached f"
  have z: "tag f + int 0 = tag f" "nat (tag f) + 0 = nat (tag f)" by simp_all
  obtain ok m' j where l: "pflush_loop P f (tag f) m = Some (ok, m')" "ok \<longrightarrow> j \<ge> length ?c" "\<not> ok \<longrightarrow> hard \<noteq> {}"
    "\<alpha> (world m') = (\<alpha> (world m))\<lparr>a_bytes := overwrite ?B (nat (tag f)) (take j ?c)\<rparr>"
    using pflush_loop_spec [OF pf t le0, of m, unfolded z drop_0] by blast
  have again: "overwrite (overwrite ?B (nat (tag f)) (take j ?c)) (nat (tag f)) ?c = overwrite ?B (nat (tag f)) ?c"
    using overwrite_prefix_again pinv_fits [OF inv ps] by (cases "?c = []") auto
  have len: "length (overwrite ?B (nat (tag f)) (take j ?c)) = length ?B"
    using pinv_fits [OF inv ps] by (cases "?c = []") (auto simp: length_overwrite)
  have B': "a_bytes (\<alpha> (world m')) = overwrite ?B (nat (tag f)) (take j ?c)" unfolding l(4) by simp
  have run: "io61_flush P f m = Some (if ok then (0, f\<lparr>dirty := False\<rparr>, m') else (-1, f, m'))"
    using ps dt l(1) by (simp add: io61_flush_def io61_flush_dirty_positioned_def)
  have cd: "cached (f\<lparr>dirty := False\<rparr>) = ?c" by (simp add: cached_def)
  have iv: "pinv P \<alpha> pat hard f m'" using inv dt len by (simp add: pinv_def B')
  show ?thesis
  proof (cases ok)
    case False
    then show ?thesis using run iv again ps len l(3) by (auto simp: pabs_def B')
  next
    case True
    then have tj: "take j ?c = ?c" using l(2) by simp
    have "pinv P \<alpha> pat hard (f\<lparr>dirty := False\<rparr>) m'"
      using iv again by (simp add: pinv_def B' tj cd)
    then show ?thesis using run True again ps len by (simp add: pabs_def B' tj cd)
  qed
qed

section \<open>Reading and writing through the slot\<close>

lemma pcache_spec:
  assumes inv: "pinv P \<alpha> pat hard f m" and off: "0 \<le> off" "nat off < length (pabs \<alpha> f m)"
  shows "\<exists>r f' m'. pcache P f off m = Some (r, f', m') \<and> pinv P \<alpha> pat hard f' m' \<and> fd f' = fd f
    \<and> pabs \<alpha> f' m' = pabs \<alpha> f m
    \<and> (r = -1 \<and> hard \<noteq> {} \<or> r = 0 \<and> positioned f' \<and> tag f' \<le> off \<and> off < end_tag f')"
proof (cases "positioned f \<and> tag f \<le> off \<and> off < end_tag f")
  case True
  then show ?thesis using inv by (auto simp: pcache_def)
next
  case False
  then have pc: "pcache P f off m = io61_pfill P f off m" by (auto simp: pcache_def)
  have md: "mode f = O_RDWR" using inv by (simp add: pinv_def)
  obtain r f1 m1 where fl: "(if dirty f then io61_flush P f m else Some (0, f, m)) = Some (r, f1, m1)"
    and i1: "pinv P \<alpha> pat hard f1 m1" and fd1: "fd f1 = fd f" and a1: "pabs \<alpha> f1 m1 = pabs \<alpha> f m"
    and r1: "r = -1 \<and> hard \<noteq> {} \<or> r = 0 \<and> \<not> dirty f1"
    using pflush_spec [OF inv] inv by (cases "dirty f") (auto split: if_splits)
  show ?thesis
  proof (cases "r = -1")
    case True
    then have "io61_pfill P f off m = Some (-1, f1, m1)" unfolding io61_pfill_def fl using md by simp
    then show ?thesis using pc i1 fd1 a1 True r1 by simp
  next
    case False
    then have nd: "\<not> dirty f1" using r1 by simp
    let ?B = "a_bytes (\<alpha> (world m1))"
    define q where "q = off - off mod 8192"
    have BB: "pabs \<alpha> f1 m1 = ?B" using i1 nd by (auto simp: pabs_def pinv_def)
    have o: "0 \<le> q" "q \<le> off" "off < q + 8192" using off(1) unfolding q_def by (auto simp: algebra_simps intro: zmod_le_nonneg_dividend)
    have qm: "q mod 8192 = 0" by (simp add: q_def mod_diff_right_eq)
    have sm: "off - off smod 8192 = q" using smod_nonneg [OF off(1)] by (simp add: q_def)
    have pf: "positions_file P (fd f1) \<alpha> pat hard" and md1: "mode f1 = O_RDWR" and lb: "length ?B < 2 ^ 63"
      using i1 by (simp_all add: pinv_def)
    have oB: "nat off < length ?B" using off(2) a1 BB by simp
    obtain x w' where pr: "p_pread P (fd f1) 8192 q (world m1) = (x, w')" by fastforce
    note law = pread_law [OF pf _ o(1) pr, simplified]
    show ?thesis
    proof (cases x)
      case (Inl e)
      have run: "io61_pfill P f off m = Some (-1, f1, m1\<lparr>errno := e, world := w'\<rparr>)"
        unfolding io61_pfill_def fl using md False pr Inl sm by (simp add: syscall_def)
      have "pinv P \<alpha> pat hard f1 (m1\<lparr>errno := e, world := w'\<rparr>)" using i1 law(1) by (simp add: pinv_def)
      moreover have "pabs \<alpha> f1 (m1\<lparr>errno := e, world := w'\<rparr>) = pabs \<alpha> f1 m1"
        using law(1) by (simp add: pabs_def)
      ultimately show ?thesis using pc run fd1 a1 law(3) [OF Inl] by auto
    next
      case (Inr bs)
      let ?g = "(cbuf_put 0 bs f1)\<lparr>tag := q, end_tag := q + int (length bs), positioned := True\<rparr>"
      have b: "bs = take 8192 (drop (nat q) ?B)" using law(2) [OF Inr] by simp
      have lbs: "length bs = min 8192 (length ?B - nat q)" unfolding b by (simp add: min.commute)
      have fit: "nat q + length bs \<le> length ?B" and inn: "off < q + int (length bs)"
        using o oB lbs by linarith+
      have st: "cbuf_store f1 0 bs = Some (cbuf_put 0 bs f1)" using lbs by (simp add: cbuf_store_def)
      have run: "io61_pfill P f off m = Some (0, ?g, m1\<lparr>world := w'\<rparr>)"
        unfolding io61_pfill_def fl using md False pr Inr st sm by (simp add: syscall_def Let_def)
      have cg: "cached ?g = bs" using cbuf_put_0 [of bs f1] by (simp add: cached_def)
      have same: "overwrite ?B (nat q) bs = ?B" unfolding b by (rule overwrite_same)
      have "pinv P \<alpha> pat hard ?g (m1\<lparr>world := w'\<rparr>)"
        using pf md1 lb nd o(1) qm lbs same law(1) cg by (simp add: pinv_def)
      moreover have "pabs \<alpha> ?g (m1\<lparr>world := w'\<rparr>) = pabs \<alpha> f m"
        using same law(1) cg BB a1 by (simp add: pabs_def)
      ultimately show ?thesis using pc run fd1 o(2) inn by simp
    qed
  qed
qed

text \<open>A transfer of at most \<open>sz\<close> bytes at \<open>off\<close> stops at the end of the slot or of the file.\<close>

definition slot_room :: "nat \<Rightarrow> nat \<Rightarrow> nat \<Rightarrow> nat" where
  "slot_room sz off len = min sz (min (8192 - off mod 8192) (len - off))"

lemma slot_room_pos: "off < len \<Longrightarrow> 0 < sz \<Longrightarrow> 0 < slot_room sz off len"
  by (simp add: slot_room_def)

lemma slot_room_eq:
  assumes "pinv P \<alpha> pat hard f m" and "positioned f" and "tag f \<le> off" and "off < end_tag f"
  shows "min sz (to_size (end_tag f - off)) = slot_room sz (nat off) (length (pabs \<alpha> f m))"
proof -
  let ?L = "length (a_bytes (\<alpha> (world m)))"
  have t: "0 \<le> tag f" "tag f mod 8192 = 0" "end_tag f = tag f + int (min 8192 (?L - nat (tag f)))"
    using assms(1,2) by (simp_all add: pinv_def)
  then obtain k where k: "tag f = 8192 * int k" by (metis mult_div_mod_eq add.right_neutral nonneg_int_cases pos_imp_zdiv_nonneg_iff zero_less_numeral)
  obtain j where j: "nat off = 8192 * k + j" "j < 8192" "off = 8192 * int k + int j"
  proof
    show "nat off = 8192 * k + (nat off - 8192 * k)" "nat off - 8192 * k < 8192" "off = 8192 * int k + int (nat off - 8192 * k)"
      using assms(3,4) t(1,3) k by linarith+
  qed
  have m: "nat off mod 8192 = j" unfolding j(1) using j(2) by simp
  have nt: "nat (tag f) = 8192 * k" using k by simp
  have "to_size (end_tag f - off) = nat (end_tag f - off)"
    using assms(3,4) pinv_slot [OF assms(1,2)] by (intro to_size_id) simp_all
  also have "\<dots> = min (8192 - j) (?L - nat off)"
    unfolding t(3) nt unfolding k j(1,3) using j(2) by linarith
  finally show ?thesis unfolding slot_room_def m length_pabs [OF assms(1)] by simp
qed

lemma io61_pread_spec:
  assumes inv: "pinv P \<alpha> pat hard f m" and off: "0 \<le> off" "nat off < length (pabs \<alpha> f m)"
  shows "\<exists>r bs f' m'. io61_pread P f sz off m = Some (r, bs, f', m') \<and> pinv P \<alpha> pat hard f' m' \<and> fd f' = fd f
    \<and> pabs \<alpha> f' m' = pabs \<alpha> f m
    \<and> (r = -1 \<and> bs = [] \<and> hard \<noteq> {} \<or> r = int (length bs)
        \<and> bs = take (slot_room sz (nat off) (length (pabs \<alpha> f m))) (drop (nat off) (pabs \<alpha> f m)))"
proof -
  obtain r f1 m1 where c: "pcache P f off m = Some (r, f1, m1)" and i1: "pinv P \<alpha> pat hard f1 m1" and fd1: "fd f1 = fd f"
    and a1: "pabs \<alpha> f1 m1 = pabs \<alpha> f m"
    and r1: "r = -1 \<and> hard \<noteq> {} \<or> r = 0 \<and> positioned f1 \<and> tag f1 \<le> off \<and> off < end_tag f1"
    using pcache_spec [OF inv off] by blast
  show ?thesis
  proof (cases "r = -1")
    case True
    then have "io61_pread P f sz off m = Some (-1, [], f1, m1)" using c by (simp add: io61_pread_def)
    then show ?thesis using i1 fd1 a1 True r1 by simp
  next
    case False
    then have r0: "r = 0" and ps: "positioned f1" and o: "tag f1 \<le> off" "off < end_tag f1" using r1 by auto
    have t: "0 \<le> tag f1" "end_tag f1 \<le> tag f1 + cbufsz" using pinv_slot [OF i1 ps] by simp_all
    let ?n = "min sz (to_size (end_tag f1 - off))" and ?c = "cached f1"
    have ts: "to_size (end_tag f1 - off) = nat (end_tag f1 - off)" using o t by (intro to_size_id) simp_all
    have ne: "?c \<noteq> []" using o by (simp add: cached_def)
    note fit = pinv_fits [OF i1 ps ne]
    have k: "nat (off - tag f1) + ?n \<le> length ?c" unfolding length_cached ts using o by linarith
    have "map (cbuf f1) [nat (off - tag f1)..<nat (off - tag f1) + ?n] = take ?n (drop (nat (off - tag f1)) ?c)"
      using k unfolding length_cached by (simp add: cached_def drop_map take_map)
    then have ld: "cbuf_load f1 (off - tag f1) ?n = Some (take ?n (drop (nat (off - tag f1)) ?c))"
      using o t ts by (simp add: cbuf_load_def)
    have len: "length (take ?n (drop (nat (off - tag f1)) ?c)) = ?n" using k by simp
    have run: "io61_pread P f sz off m = Some (int ?n, take ?n (drop (nat (off - tag f1)) ?c), f1, m1)"
      using c r0 ld by (simp add: io61_pread_def Let_def)
    have p: "nat (tag f1) \<le> nat off" "nat off + ?n \<le> nat (tag f1) + length ?c"
      using o t k by linarith+
    have nn: "nat off - nat (tag f1) = nat (off - tag f1)" using o t by simp
    have "take ?n (drop (nat off) (pabs \<alpha> f1 m1)) = take ?n (drop (nat (off - tag f1)) ?c)"
      using drop_overwrite [OF fit p] ps unfolding nn by (simp add: pabs_def)
    then have eq: "take ?n (drop (nat (off - tag f1)) ?c) = take ?n (drop (nat off) (pabs \<alpha> f m))" unfolding a1 by simp
    have room: "?n = slot_room sz (nat off) (length (pabs \<alpha> f m))"
      unfolding a1 [symmetric] by (rule slot_room_eq [OF i1 ps o])
    show ?thesis
      by (intro exI [of _ "int ?n"] exI [of _ "take ?n (drop (nat (off - tag f1)) ?c)"] exI [of _ f1] exI [of _ m1]
          conjI disjI2) (use run i1 fd1 a1 len eq [unfolded room] room in \<open>simp_all only: room\<close>)
  qed
qed

lemma cached_overwrite:
  assumes "0 \<le> i" and "nat i + length bs \<le> length (cached f)"
  shows "cached (cbuf_put i bs f\<lparr>dirty := True\<rparr>) = overwrite (cached f) (nat i) bs"
proof (rule nth_equalityI)
  show "length (cached (cbuf_put i bs f\<lparr>dirty := True\<rparr>)) = length (overwrite (cached f) (nat i) bs)"
    using assms(2) by (simp add: length_overwrite_within length_cached)
next
  fix k assume "k < length (cached (cbuf_put i bs f\<lparr>dirty := True\<rparr>))"
  then have k: "k < length (cached f)" by (simp add: length_cached)
  show "cached (cbuf_put i bs f\<lparr>dirty := True\<rparr>) ! k = overwrite (cached f) (nat i) bs ! k"
    unfolding nth_overwrite_within [OF assms(2) k] using k
    by (simp add: cached_def cbuf_put_def)
qed

lemma io61_pwrite_spec:
  assumes inv: "pinv P \<alpha> pat hard f m" and off: "0 \<le> off" "nat off < length (pabs \<alpha> f m)"
  shows "\<exists>r f' m'. io61_pwrite P f buf off m = Some (r, f', m') \<and> pinv P \<alpha> pat hard f' m' \<and> fd f' = fd f
    \<and> (if r = -1 then pabs \<alpha> f' m' = pabs \<alpha> f m \<and> hard \<noteq> {}
       else r = int (slot_room (length buf) (nat off) (length (pabs \<alpha> f m)))
        \<and> pabs \<alpha> f' m' = overwrite (pabs \<alpha> f m) (nat off) (take (nat r) buf)
        \<and> length (pabs \<alpha> f' m') = length (pabs \<alpha> f m))"
proof -
  obtain r f1 m1 where c: "pcache P f off m = Some (r, f1, m1)" and i1: "pinv P \<alpha> pat hard f1 m1" and fd1: "fd f1 = fd f"
    and a1: "pabs \<alpha> f1 m1 = pabs \<alpha> f m"
    and r1: "r = -1 \<and> hard \<noteq> {} \<or> r = 0 \<and> positioned f1 \<and> tag f1 \<le> off \<and> off < end_tag f1"
    using pcache_spec [OF inv off] by blast
  show ?thesis
  proof (cases "r = -1")
    case True
    then have "io61_pwrite P f buf off m = Some (-1, f1, m1)" using c by (simp add: io61_pwrite_def)
    then show ?thesis using i1 fd1 a1 True r1 by (intro exI [of _ "-1"] exI [of _ f1] exI [of _ m1]) simp
  next
    case False
    then have r0: "r = 0" and ps: "positioned f1" and o: "tag f1 \<le> off" "off < end_tag f1" using r1 by auto
    have t: "0 \<le> tag f1" "end_tag f1 \<le> tag f1 + cbufsz" using pinv_slot [OF i1 ps] by simp_all
    let ?n = "min (length buf) (to_size (end_tag f1 - off))" and ?c = "cached f1" and ?i = "off - tag f1"
    let ?g = "cbuf_put ?i (take ?n buf) f1\<lparr>dirty := True\<rparr>" and ?B = "a_bytes (\<alpha> (world m1))"
    have ts: "to_size (end_tag f1 - off) = nat (end_tag f1 - off)" using o t by (intro to_size_id) simp_all
    have ne: "?c \<noteq> []" using o by (simp add: cached_def)
    note fit = pinv_fits [OF i1 ps ne]
    have ln: "length (take ?n buf) = ?n" by (metis length_take min.absorb2 min.cobounded1)
    have k: "nat ?i + length (take ?n buf) \<le> length ?c" unfolding ln unfolding length_cached ts using o by linarith
    have st: "cbuf_store f1 ?i (take ?n buf) = Some (cbuf_put ?i (take ?n buf) f1)"
      using o t ts by (simp add: cbuf_store_def)
    have run: "io61_pwrite P f buf off m = Some (int ?n, ?g, m1)"
      using c r0 st by (simp add: io61_pwrite_def Let_def)
    have cg: "cached ?g = overwrite ?c (nat ?i) (take ?n buf)"
      using o k by (intro cached_overwrite) simp_all
    have at: "nat (tag f1) + nat ?i = nat off" using o t by simp
    have pg: "pabs \<alpha> ?g m1 = overwrite (pabs \<alpha> f m) (nat off) (take ?n buf)"
      unfolding a1 [symmetric] using overwrite_nested [OF fit k] ps unfolding at by (simp add: pabs_def cg)
    have ig: "pinv P \<alpha> pat hard ?g m1" using i1 ps o by (auto simp: pinv_def)
    have lp: "length (pabs \<alpha> ?g m1) = length (pabs \<alpha> f m)"
      using length_pabs [OF ig] length_pabs [OF i1] a1 by simp
    have room: "?n = slot_room (length buf) (nat off) (length (pabs \<alpha> f m))"
      unfolding a1 [symmetric] by (rule slot_room_eq [OF i1 ps o])
    show ?thesis
      by (intro exI [of _ "int ?n"] exI [of _ ?g] exI [of _ m1] conjI) (use run ig fd1 pg lp room in simp_all)
  qed
qed

section \<open>Properties\<close>

text \<open>C22: positioned writes are seen by positioned reads, both at any offset before the end of the file, through the
  single-slot cache and its write-backs: \<open>io61_pread\<close> after \<open>io61_pwrite\<close> returns the
  bytes of the file with the written bytes laid over it, a transfer stopping at the end of
  the 8192-byte slot or of the file; a call that fails, which takes a hard error of the
  system, changes nothing that can be read.\<close>

theorem io61_pwrite_pread:
  assumes "pinv P \<alpha> pat hard f m" and "0 \<le> off" "nat off < length (pabs \<alpha> f m)"
    and "0 \<le> off'" "nat off' < length (pabs \<alpha> f m)"
  shows "\<exists>r f1 m1 n bs f2 m2. io61_pwrite P f buf off m = Some (r, f1, m1)
    \<and> io61_pread P f1 sz off' m1 = Some (n, bs, f2, m2) \<and> pinv P \<alpha> pat hard f2 m2
    \<and> (r = -1 \<and> hard \<noteq> {} \<or> r = int (slot_room (length buf) (nat off) (length (pabs \<alpha> f m))))
    \<and> (let new = (if r = -1 then pabs \<alpha> f m else overwrite (pabs \<alpha> f m) (nat off) (take (nat r) buf)) in
       pabs \<alpha> f2 m2 = new \<and> (n = -1 \<and> bs = [] \<and> hard \<noteq> {} \<or> n = int (length bs)
         \<and> bs = take (slot_room sz (nat off') (length (pabs \<alpha> f m))) (drop (nat off') new)))"
proof -
  obtain r f1 m1 where w: "io61_pwrite P f buf off m = Some (r, f1, m1)" "pinv P \<alpha> pat hard f1 m1"
    "if r = -1 then pabs \<alpha> f1 m1 = pabs \<alpha> f m \<and> hard \<noteq> {}
       else r = int (slot_room (length buf) (nat off) (length (pabs \<alpha> f m)))
        \<and> pabs \<alpha> f1 m1 = overwrite (pabs \<alpha> f m) (nat off) (take (nat r) buf)
        \<and> length (pabs \<alpha> f1 m1) = length (pabs \<alpha> f m)"
    using io61_pwrite_spec [OF assms(1-3)] by blast
  let ?new = "if r = -1 then pabs \<alpha> f m else overwrite (pabs \<alpha> f m) (nat off) (take (nat r) buf)"
  have new: "pabs \<alpha> f1 m1 = ?new" and len: "length (pabs \<alpha> f1 m1) = length (pabs \<alpha> f m)"
    and r: "r = -1 \<and> hard \<noteq> {} \<or> r = int (slot_room (length buf) (nat off) (length (pabs \<alpha> f m)))"
    using w(3) by (auto split: if_splits)
  obtain n bs f2 m2 where rd: "io61_pread P f1 sz off' m1 = Some (n, bs, f2, m2)" "pinv P \<alpha> pat hard f2 m2"
    "pabs \<alpha> f2 m2 = pabs \<alpha> f1 m1" "n = -1 \<and> bs = [] \<and> hard \<noteq> {} \<or> n = int (length bs)
        \<and> bs = take (slot_room sz (nat off') (length (pabs \<alpha> f m))) (drop (nat off') (pabs \<alpha> f1 m1))"
    using io61_pread_spec [OF w(2) assms(4), of sz] assms(5) unfolding len by blast
  show ?thesis unfolding Let_def using w(1) rd r unfolding new by blast
qed

lemma io61_fdopen_rdwr_spec:
  assumes "positions_file P d \<alpha> pat hard" and "stats_file P d \<alpha> \<beta>"
    and sk: "seeks_file P d \<alpha> \<beta>" and "length (a_bytes (\<alpha> (world m))) < 2 ^ 63" and "0 \<le> d"
  shows "\<exists>f m'. io61_fdopen P junk d O_RDWR m = Some (f, m') \<and> pinv P \<alpha> pat hard f m'
    \<and> pabs \<alpha> f m' = a_bytes (\<alpha> (world m))"
proof -
  obtain w1 where l: "p_lseek P d 0 SEEK_CUR (world m) = (Inr (int (a_pos (\<alpha> (world m)))), w1)"
    and a1: "\<alpha> w1 = \<alpha> (world m)"
    using seeks_file_curD [OF sk] by blast
  let ?m1 = "m\<lparr>world := w1\<rparr>"
  obtain n1 m2 where f1: "io61_filesize P d ?m1 = (n1, m2)" "\<alpha> (world m2) = \<alpha> w1"
    using io61_filesize_spec [OF assms(2), of ?m1] by auto
  obtain n2 m3 where f2: "io61_filesize P d m2 = (n2, m3)" "\<alpha> (world m3) = \<alpha> (world m2)"
    using io61_filesize_spec [OF assms(2), of m2] by auto
  have ap: "O_RDWR AND O_APPEND = 0" "O_RDWR AND O_ACCMODE = 2"
    by (simp_all add: O_APPEND_def O_ACCMODE_def O_RDWR_def)
  show ?thesis
    unfolding io61_fdopen_def syscall_def l
    using assms l f1 f2 ap a1 by (simp add: Let_def pinv_def pabs_def O_RDWR_def)
qed

lemma io61_pwrite_pread_witness:
  "\<exists>f m r f1 m1 n bs f2 m2. pabs (ms_afile 3) f m = [1, 2, 3, 4, 5]
    \<and> io61_pwrite (mem_os False) f [7, 8] 1 m = Some (r, f1, m1)
    \<and> io61_pread (mem_os False) f1 4 0 m1 = Some (n, bs, f2, m2) \<and> r = 2 \<and> bs = [1, 7, 8, 4]"
proof -
  obtain f m where i: "pinv (mem_os False) (ms_afile 3) (ms_glitch 3) {} f m" and a: "pabs (ms_afile 3) f m = [1, 2, 3, 4, 5]"
    using io61_fdopen_rdwr_spec [OF mem_os_positions mem_os_stats [OF ms_frame_unit] mem_os_seeks [OF ms_frame_unit],
      of 3 "demo_machine False [1, 2, 3, 4, 5]" False "\<lambda>i. 0"] unfolding demo_afile by auto
  have sr: "slot_room (length [7 :: u8, 8]) (nat 1) (length [1 :: u8, 2, 3, 4, 5]) = 2"
    "slot_room 4 (nat 0) (length [1 :: u8, 2, 3, 4, 5]) = 4" by (simp_all add: slot_room_def)
  have ov: "take 4 (drop (nat 0) (overwrite [1, 2, 3, 4, 5] (nat 1) (take (nat (int 2)) [7, 8]))) = [1, 7, 8, 4 :: u8]"
    by (simp add: overwrite_def numeral_eq_Suc)
  have "0 \<le> (1 :: int)" "nat 1 < length (pabs (ms_afile 3) f m)" "0 \<le> (0 :: int)" "nat 0 < length (pabs (ms_afile 3) f m)"
    unfolding a by simp_all
  from io61_pwrite_pread [OF i this, of "[7, 8]" 4, unfolded a sr]
  obtain r f1 m1 n bs f2 m2 where x: "io61_pwrite (mem_os False) f [7, 8] 1 m = Some (r, f1, m1)"
    "io61_pread (mem_os False) f1 4 0 m1 = Some (n, bs, f2, m2)" "r = int 2"
    "bs = take 4 (drop (nat 0) (if r = -1 then [1, 2, 3, 4, 5] else overwrite [1, 2, 3, 4, 5] (nat 1) (take (nat r) [7, 8])))"
    unfolding Let_def by blast
  have "bs = [1, 7, 8, 4]" using x(4) ov unfolding x(3) by simp
  moreover have "r = 2" using x(3) by simp
  ultimately show ?thesis using a x(1,2) by blast
qed

text \<open>C23: a flush in positioned mode makes the written bytes durable: if it succeeds, the
  system's file is what the program sees, and if it fails part way, the cache still holds
  the rest and nothing is lost.\<close>

theorem io61_positioned_flush_durable:
  assumes "pinv P \<alpha> pat hard f m" and "dirty f"
  shows "\<exists>r f' m'. io61_flush P f m = Some (r, f', m') \<and> pinv P \<alpha> pat hard f' m' \<and> pabs \<alpha> f' m' = pabs \<alpha> f m
    \<and> (r = 0 \<and> a_bytes (\<alpha> (world m')) = pabs \<alpha> f m \<or> r = -1 \<and> hard \<noteq> {})"
proof -
  obtain r f' m' where "io61_flush P f m = Some (r, f', m')" "pinv P \<alpha> pat hard f' m'" "pabs \<alpha> f' m' = pabs \<alpha> f m"
    "if r = 0 then \<not> dirty f' \<and> a_bytes (\<alpha> (world m')) = pabs \<alpha> f m else r = -1 \<and> hard \<noteq> {}"
    using pflush_spec [OF assms] by blast
  then show ?thesis by (cases "r = 0") auto
qed

definition slot_file :: io61_file where
  "slot_file = \<lparr>fd = 3, mode = 2, seekable = True, fsize = 5, cbuf = (\<lambda>i. of_nat (i + 7)), tag = 0, pos_tag = 0,
     end_tag = 5, map_ptr = NullMap, is_seq = True, dirty = True, positioned = True, chunk_sz = 16,
     nlocked = (\<lambda>i. 0), owner = (\<lambda>i. 0)\<rparr>"

lemma io61_positioned_flush_durable_witness:
  "pabs (ms_afile 3) slot_file (demo_machine False [1, 2, 3, 4, 5]) = [7, 8, 9, 10, 11] \<and>
   (\<exists>r f' m'. io61_flush (mem_os False) slot_file (demo_machine False [1, 2, 3, 4, 5]) = Some (r, f', m')
      \<and> r = 0 \<and> a_bytes (ms_afile 3 (world m')) = [7, 8, 9, 10, 11])"
proof -
  have c: "cached slot_file = [7, 8, 9, 10, 11]" by (simp add: cached_def slot_file_def upt_rec)
  have a: "pabs (ms_afile 3) slot_file (demo_machine False [1, 2, 3, 4, 5]) = [7, 8, 9, 10, 11]"
    unfolding pabs_def c demo_afile by (simp add: slot_file_def overwrite_def)
  have i: "pinv (mem_os False) (ms_afile 3) (ms_glitch 3) {} slot_file (demo_machine False [1, 2, 3, 4, 5])"
    unfolding pinv_def demo_afile c using mem_os_positions [of False 3] by (simp add: slot_file_def mode_defs)
  have d: "dirty slot_file" by (simp add: slot_file_def)
  show ?thesis using a io61_positioned_flush_durable [OF i d] unfolding a by blast
qed

end
