(* ===== verification/IoClients.thy ===== *)
theory IoClients
  imports Posix
begin

text \<open>
  The programs of \<open>src/pset4\<close> that copy a file to another through the io61 interface.
  They are linked with one of several implementations of that interface
  (\<open>io61.cc\<close>, \<open>slow-io61.cc\<close>, \<open>syscall-io61.cc\<close>), so the model takes the interface
  as a record of functions. The locale \<open>io_pair\<close> states what the programs rely on: the
  input behaves as a plain file that is read, the output as one that is written, and
  neither disturbs the other. The programs' correctness is proved there once.

  A program is modelled from the point where its files are open. The result of a run is
  the machine after both files were closed; \<open>None\<close> is an abort (a failed assertion) or a
  run that does not end.
\<close>

section \<open>The interface\<close>

record ('f, 'm) io61_api =
  a_readc :: "'f \<Rightarrow> 'm \<Rightarrow> (int \<times> 'f \<times> 'm) option"
  a_read :: "'f \<Rightarrow> nat \<Rightarrow> 'm \<Rightarrow> (int \<times> u8 list \<times> 'f \<times> 'm) option"
  a_writec :: "'f \<Rightarrow> int \<Rightarrow> 'm \<Rightarrow> (int \<times> 'f \<times> 'm) option"
  a_write :: "'f \<Rightarrow> u8 list \<Rightarrow> 'm \<Rightarrow> (int \<times> 'f \<times> 'm) option"
  a_seek :: "'f \<Rightarrow> int \<Rightarrow> 'm \<Rightarrow> (int \<times> 'f \<times> 'm) option"
  a_flush :: "'f \<Rightarrow> 'm \<Rightarrow> (int \<times> 'f \<times> 'm) option"
  a_close :: "'f \<Rightarrow> 'm \<Rightarrow> (int \<times> 'm) option"
  a_filesize :: "'f \<Rightarrow> 'm \<Rightarrow> int \<times> 'm"

section \<open>The programs\<close>

text \<open>\<open>io61_args::after_write\<close>: with \<open>-F\<close>, flush the output. (The pause of \<open>-y\<close> changes
  nothing.)\<close>

definition after_write :: "('f, 'm) io61_api \<Rightarrow> bool \<Rightarrow> 'f \<Rightarrow> 'm \<Rightarrow> ('f \<times> 'm) option" where
  "after_write A fl g m = (if fl then do {
       (r, g, m) \<leftarrow> a_flush A g m;
       assert_ok (r = 0);
       Some (g, m) }
     else Some (g, m))"

definition close_both :: "('f, 'm) io61_api \<Rightarrow> 'f \<Rightarrow> 'f \<Rightarrow> 'm \<Rightarrow> 'm option" where
  "close_both A f g m = do {
     (_, m) \<leftarrow> a_close A f m;
     (_, m) \<leftarrow> a_close A g m;
     Some m }"

text \<open>\<open>cat61\<close>: at most \<open>sz\<close> characters, one at a time.\<close>

partial_function (option) cat61_loop :: "('f, 'm) io61_api \<Rightarrow> bool \<Rightarrow> nat \<Rightarrow> 'f \<Rightarrow> 'f \<Rightarrow> 'm \<Rightarrow> ('f \<times> 'f \<times> 'm) option" where
  "cat61_loop A fl sz f g m = (if sz \<noteq> 0 then do {
       (ch, f, m) \<leftarrow> a_readc A f m;
       if ch = -1 then Some (f, g, m) else do {
         (r, g, m) \<leftarrow> a_writec A g ch m;
         assert_ok (r = 0);
         (g, m) \<leftarrow> after_write A fl g m;
         cat61_loop A fl (sz - 1) f g m } }
     else Some (f, g, m))"

definition cat61 :: "('f, 'm) io61_api \<Rightarrow> bool \<Rightarrow> nat \<Rightarrow> 'f \<Rightarrow> 'f \<Rightarrow> 'm \<Rightarrow> 'm option" where
  "cat61 A fl sz f g m = do {
     (f, g, m) \<leftarrow> cat61_loop A fl sz f g m;
     close_both A f g m }"

text \<open>\<open>blockcat61\<close>, and \<open>randblockcat61\<close>, which draws the size of each read: \<open>szs i\<close> is
  the size of the \<open>i\<close>-th read.\<close>

partial_function (option) blockcat61_loop :: "('f, 'm) io61_api \<Rightarrow> bool \<Rightarrow> (nat \<Rightarrow> nat) \<Rightarrow> nat \<Rightarrow> 'f \<Rightarrow> 'f \<Rightarrow> 'm \<Rightarrow>
    ('f \<times> 'f \<times> 'm) option" where
  "blockcat61_loop A fl szs i f g m = do {
     (nr, buf, f, m) \<leftarrow> a_read A f (szs i) m;
     if nr \<le> 0 then Some (f, g, m) else do {
       (nw, g, m) \<leftarrow> a_write A g (take (nat nr) buf) m;
       assert_ok (nw = nr);
       (g, m) \<leftarrow> after_write A fl g m;
       blockcat61_loop A fl szs (i + 1) f g m } }"

definition blockcat61 :: "('f, 'm) io61_api \<Rightarrow> bool \<Rightarrow> nat \<Rightarrow> 'f \<Rightarrow> 'f \<Rightarrow> 'm \<Rightarrow> 'm option" where
  "blockcat61 A fl block_size f g m = do {
     (f, g, m) \<leftarrow> blockcat61_loop A fl (\<lambda>i. block_size) 0 f g m;
     close_both A f g m }"

definition randblockcat61 :: "('f, 'm) io61_api \<Rightarrow> bool \<Rightarrow> (nat \<Rightarrow> nat) \<Rightarrow> 'f \<Rightarrow> 'f \<Rightarrow> 'm \<Rightarrow> 'm option" where
  "randblockcat61 A fl szs f g m = do {
     (f, g, m) \<leftarrow> blockcat61_loop A fl szs 0 f g m;
     close_both A f g m }"

text \<open>The size of the input when none was given on the command line (\<open>None\<close>).\<close>

definition input_size :: "('f, 'm) io61_api \<Rightarrow> nat option \<Rightarrow> 'f \<Rightarrow> 'm \<Rightarrow> (nat \<times> 'm) option" where
  "input_size A sz f m = (case sz of
     Some n \<Rightarrow> Some (n, m)
   | None \<Rightarrow> (let (n, m) = a_filesize A f m in if n < 0 then None else Some (nat n, m)))"

text \<open>\<open>reverse61\<close> seeks in its input, \<open>wreverse61\<close> in its output. \<open>quiet\<close> is \<open>-q\<close>.\<close>

primrec reverse61_loop :: "('f, 'm) io61_api \<Rightarrow> bool \<Rightarrow> bool \<Rightarrow> nat \<Rightarrow> 'f \<Rightarrow> 'f \<Rightarrow> 'm \<Rightarrow> ('f \<times> 'f \<times> 'm) option" where
  "reverse61_loop A fl quiet 0 f g m = Some (f, g, m)"
| "reverse61_loop A fl quiet (Suc n) f g m = do {
     (r, f, m) \<leftarrow> a_seek A f (int n) m;
     assert_ok (r = 0 \<or> quiet);
     (ch, f, m) \<leftarrow> a_readc A f m;
     assert_ok (0 \<le> ch);
     (r, g, m) \<leftarrow> a_writec A g ch m;
     assert_ok (r = 0);
     (g, m) \<leftarrow> after_write A fl g m;
     reverse61_loop A fl quiet n f g m }"

definition reverse61 :: "('f, 'm) io61_api \<Rightarrow> bool \<Rightarrow> bool \<Rightarrow> nat option \<Rightarrow> 'f \<Rightarrow> 'f \<Rightarrow> 'm \<Rightarrow> 'm option" where
  "reverse61 A fl quiet sz f g m = do {
     (n, m) \<leftarrow> input_size A sz f m;
     (r, f, m) \<leftarrow> a_seek A f 0 m;
     if r < 0 then None else do {
       (f, g, m) \<leftarrow> reverse61_loop A fl quiet n f g m;
       close_both A f g m } }"

primrec wreverse61_loop :: "('f, 'm) io61_api \<Rightarrow> bool \<Rightarrow> nat \<Rightarrow> 'f \<Rightarrow> 'f \<Rightarrow> 'm \<Rightarrow> ('f \<times> 'f \<times> 'm) option" where
  "wreverse61_loop A fl 0 f g m = Some (f, g, m)"
| "wreverse61_loop A fl (Suc n) f g m = do {
     (ch, f, m) \<leftarrow> a_readc A f m;
     assert_ok (0 \<le> ch);
     (r, g, m) \<leftarrow> a_seek A g (int n) m;
     assert_ok (r = 0);
     (r, g, m) \<leftarrow> a_writec A g ch m;
     assert_ok (r = 0);
     (g, m) \<leftarrow> after_write A fl g m;
     wreverse61_loop A fl n f g m }"

definition wreverse61 :: "('f, 'm) io61_api \<Rightarrow> bool \<Rightarrow> nat option \<Rightarrow> 'f \<Rightarrow> 'f \<Rightarrow> 'm \<Rightarrow> 'm option" where
  "wreverse61 A fl sz f g m = do {
     (n, m) \<leftarrow> input_size A sz f m;
     (r, g, m) \<leftarrow> a_seek A g 0 m;
     if r < 0 then None else do {
       (f, g, m) \<leftarrow> wreverse61_loop A fl n f g m;
       close_both A f g m } }"

text \<open>The position of the next block in \<open>stridecat61\<close> and \<open>wstridecat61\<close>, with the block
  size, which shrinks at the end of a stride.\<close>

definition next_stride :: "nat \<Rightarrow> nat \<Rightarrow> nat \<Rightarrow> nat \<Rightarrow> nat \<times> nat" where
  "next_stride fsz stride block_size pos = (let pos = pos + stride in
     if fsz \<le> pos then
       (let pos = pos mod stride + block_size in
        (pos, if stride < pos + block_size then to_size (int stride - int pos) else block_size))
     else (pos, block_size))"

partial_function (option) stridecat61_loop :: "('f, 'm) io61_api \<Rightarrow> bool \<Rightarrow> nat \<Rightarrow> nat \<Rightarrow> nat \<Rightarrow> nat \<Rightarrow> nat \<Rightarrow> 'f \<Rightarrow> 'f \<Rightarrow> 'm \<Rightarrow>
    ('f \<times> 'f \<times> 'm) option" where
  "stridecat61_loop A fl fsz stride block_size pos written f g m = (if written < fsz then do {
       (r, f, m) \<leftarrow> a_seek A f (int pos) m;
       assert_ok (0 \<le> r);
       (nr, buf, f, m) \<leftarrow> a_read A f block_size m;
       if nr \<le> 0 then Some (f, g, m) else do {
         (nw, g, m) \<leftarrow> a_write A g (take (nat nr) buf) m;
         assert_ok (nw = nr);
         let (pos, block_size) = next_stride fsz stride block_size pos;
         (g, m) \<leftarrow> after_write A fl g m;
         stridecat61_loop A fl fsz stride block_size pos (written + nat nw) f g m } }
     else Some (f, g, m))"

definition stridecat61 :: "('f, 'm) io61_api \<Rightarrow> bool \<Rightarrow> nat option \<Rightarrow> nat \<Rightarrow> nat \<Rightarrow> nat \<Rightarrow> 'f \<Rightarrow> 'f \<Rightarrow> 'm \<Rightarrow> 'm option" where
  "stridecat61 A fl sz stride block_size initial_offset f g m = do {
     (n, m) \<leftarrow> input_size A sz f m;
     (r, f, m) \<leftarrow> a_seek A f 0 m;
     if r < 0 then None else do {
       (f, g, m) \<leftarrow> stridecat61_loop A fl n stride block_size initial_offset 0 f g m;
       close_both A f g m } }"

partial_function (option) wstridecat61_loop :: "('f, 'm) io61_api \<Rightarrow> bool \<Rightarrow> nat \<Rightarrow> nat \<Rightarrow> nat \<Rightarrow> nat \<Rightarrow> nat \<Rightarrow> 'f \<Rightarrow> 'f \<Rightarrow> 'm \<Rightarrow>
    ('f \<times> 'f \<times> 'm) option" where
  "wstridecat61_loop A fl fsz stride block_size pos written f g m = (if written < fsz then do {
       (nr, buf, f, m) \<leftarrow> a_read A f block_size m;
       if nr \<le> 0 then Some (f, g, m) else do {
         (nw, g, m) \<leftarrow> a_write A g (take (nat nr) buf) m;
         assert_ok (nw = nr);
         let (pos, block_size) = next_stride fsz stride block_size pos;
         (r, g, m) \<leftarrow> a_seek A g (int pos) m;
         assert_ok (r = 0);
         (g, m) \<leftarrow> after_write A fl g m;
         wstridecat61_loop A fl fsz stride block_size pos (written + nat nw) f g m } }
     else Some (f, g, m))"

definition wstridecat61 :: "('f, 'm) io61_api \<Rightarrow> bool \<Rightarrow> nat option \<Rightarrow> nat \<Rightarrow> nat \<Rightarrow> 'f \<Rightarrow> 'f \<Rightarrow> 'm \<Rightarrow> 'm option" where
  "wstridecat61 A fl sz stride block_size f g m = do {
     (r, g, m) \<leftarrow> a_seek A g 0 m;
     if r < 0 then None else do {
       (n, m) \<leftarrow> input_size A sz f m;
       (f, g, m) \<leftarrow> wstridecat61_loop A fl n stride block_size 0 0 f g m;
       close_both A f g m } }"

text \<open>\<open>reordercat61\<close> moves the blocks in a random order: \<open>draw k\<close> is the index drawn when
  \<open>k\<close> blocks are left. The array \<open>blockpos\<close> holds the blocks left.\<close>

fun reordercat61_loop :: "('f, 'm) io61_api \<Rightarrow> bool \<Rightarrow> (nat \<Rightarrow> nat) \<Rightarrow> nat \<Rightarrow> nat \<Rightarrow> nat list \<Rightarrow> 'f \<Rightarrow> 'f \<Rightarrow> 'm \<Rightarrow>
    ('f \<times> 'f \<times> 'm) option" where
  "reordercat61_loop A fl draw block_size 0 blockpos f g m = Some (f, g, m)"
| "reordercat61_loop A fl draw block_size (Suc n) blockpos f g m = do {
     let index = draw (Suc n);
     let pos = (blockpos ! index) * block_size;
     let blockpos = blockpos[index := blockpos ! n];
     (r, f, m) \<leftarrow> a_seek A f (int pos) m;
     assert_ok (r = 0);
     (nr, buf, f, m) \<leftarrow> a_read A f block_size m;
     if nr \<le> 0 then Some (f, g, m) else do {
       (r, g, m) \<leftarrow> a_seek A g (int pos) m;
       assert_ok (r = 0);
       (nw, g, m) \<leftarrow> a_write A g (take (nat nr) buf) m;
       assert_ok (nw = nr);
       (g, m) \<leftarrow> after_write A fl g m;
       reordercat61_loop A fl draw block_size n blockpos f g m } }"

definition reordercat61 :: "('f, 'm) io61_api \<Rightarrow> bool \<Rightarrow> (nat \<Rightarrow> nat) \<Rightarrow> nat \<Rightarrow> nat option \<Rightarrow> 'f \<Rightarrow> 'f \<Rightarrow> 'm \<Rightarrow> 'm option" where
  "reordercat61 A fl draw block_size sz f g m = do {
     (fsz, m) \<leftarrow> input_size A sz f m;
     (r, f, m) \<leftarrow> a_seek A f 0 m;
     if r < 0 then None else do {
       (r, g, m) \<leftarrow> a_seek A g 0 m;
       if r < 0 then None else do {
         let nblocks = fsz div block_size;
         if 31457280 < nblocks \<or> nblocks * block_size \<noteq> fsz then None else do {
           (f, g, m) \<leftarrow> reordercat61_loop A fl draw block_size nblocks [0..<nblocks] f g m;
           close_both A f g m } } } }"

text \<open>\<open>read_line\<close> of \<open>scattergather61\<close>: a line or a block.\<close>

primrec read_line_loop :: "('f, 'm) io61_api \<Rightarrow> nat \<Rightarrow> u8 list \<Rightarrow> 'f \<Rightarrow> 'm \<Rightarrow> (u8 list \<times> 'f \<times> 'm) option" where
  "read_line_loop A 0 buf f m = Some (buf, f, m)"
| "read_line_loop A (Suc k) buf f m = do {
     (ch, f, m) \<leftarrow> a_readc A f m;
     if ch = -1 then Some (buf, f, m)
     else if ch = 10 then Some (buf @ [of_int ch], f, m)
     else read_line_loop A k (buf @ [of_int ch]) f m }"

definition read_line :: "('f, 'm) io61_api \<Rightarrow> 'f \<Rightarrow> nat \<Rightarrow> bool \<Rightarrow> 'm \<Rightarrow> (int \<times> u8 list \<times> 'f \<times> 'm) option" where
  "read_line A f sz lines m = (if lines then do {
       (buf, f, m) \<leftarrow> read_line_loop A sz [] f m;
       Some (int (length buf), buf, f, m) }
     else a_read A f sz m)"

text \<open>\<open>scattergather61\<close>: blocks (or lines) from the inputs in turn, to the outputs in turn.
  An input at its end is closed and dropped; \<open>ini\<close> is the index of the last input, with -1
  for the wrapped \<open>size_t\<close>.\<close>

partial_function (option) scattergather61_loop :: "('f, 'm) io61_api \<Rightarrow> nat \<Rightarrow> bool \<Rightarrow> int \<Rightarrow> nat \<Rightarrow> 'f list \<Rightarrow> 'f list \<Rightarrow> 'm \<Rightarrow>
    ('f list \<times> 'm) option" where
  "scattergather61_loop A sz lines ini outi infs outfs m = (if infs = [] then Some (outfs, m) else do {
     let ini = nat ((ini + 1) mod int (length infs));
     (nr, buf, f, m) \<leftarrow> read_line A (infs ! ini) sz lines m;
     if nr \<le> 0 then do {
       (_, m) \<leftarrow> a_close A f m;
       scattergather61_loop A sz lines (int ini - 1) outi (take ini infs @ drop (ini + 1) infs) outfs m }
     else do {
       let infs = infs[ini := f];
       (nw, g, m) \<leftarrow> a_write A (outfs ! outi) (take (nat nr) buf) m;
       assert_ok (nw = nr);
       scattergather61_loop A sz lines (int ini) ((outi + 1) mod length outfs) infs (outfs[outi := g]) m } })"

fun close_all :: "('f, 'm) io61_api \<Rightarrow> 'f list \<Rightarrow> 'm \<Rightarrow> 'm option" where
  "close_all A [] m = Some m"
| "close_all A (f # fs) m = do { (_, m) \<leftarrow> a_close A f m; close_all A fs m }"

definition scattergather61 :: "('f, 'm) io61_api \<Rightarrow> nat \<Rightarrow> bool \<Rightarrow> 'f list \<Rightarrow> 'f list \<Rightarrow> 'm \<Rightarrow> 'm option" where
  "scattergather61 A sz lines infs outfs m = do {
     (outfs, m) \<leftarrow> scattergather61_loop A sz lines (-1) 0 infs outfs m;
     close_all A outfs m }"

section \<open>What the programs rely on\<close>

locale io_pair =
  fixes A :: "('f, 'm) io61_api"
    and R :: "'f \<Rightarrow> 'm \<Rightarrow> bool"
    and W :: "'f \<Rightarrow> 'm \<Rightarrow> bool"
    and ain :: "'f \<Rightarrow> 'm \<Rightarrow> afile"
    and aout :: "'f \<Rightarrow> 'm \<Rightarrow> afile"
    and out :: "'m \<Rightarrow> afile"
  assumes readc_law: "R f m \<Longrightarrow> W g m \<Longrightarrow> \<exists>c f' m'. a_readc A f m = Some (c, f', m') \<and> R f' m' \<and> W g m'
      \<and> aout g m' = aout g m
      \<and> (if a_pos (ain f m) < length (a_bytes (ain f m))
         then c = uint (a_bytes (ain f m) ! a_pos (ain f m)) \<and> ain f' m' = afile_skip 1 (ain f m)
         else c = -1 \<and> ain f' m' = ain f m)"
    and read_law: "R f m \<Longrightarrow> W g m \<Longrightarrow> 0 < sz \<Longrightarrow> sz < 2 ^ 63 \<Longrightarrow>
      \<exists>r bs f' m'. a_read A f sz m = Some (r, bs, f', m') \<and> R f' m' \<and> W g m' \<and> aout g m' = aout g m
      \<and> afile_get (length bs) (ain f m) = bs \<and> ain f' m' = afile_skip (length bs) (ain f m) \<and> length bs \<le> sz
      \<and> (if bs = [] then r \<le> 0 \<and> length (a_bytes (ain f m)) \<le> a_pos (ain f m) else r = int (length bs))"
    and writec_law: "R f m \<Longrightarrow> W g m \<Longrightarrow> \<exists>g' m'. a_writec A g c m = Some (0, g', m') \<and> W g' m' \<and> R f m'
      \<and> ain f m' = ain f m \<and> aout g' m' = afile_put [of_int c] (aout g m)"
    and write_law: "R f m \<Longrightarrow> W g m \<Longrightarrow> length buf < 2 ^ 63 \<Longrightarrow>
      \<exists>g' m'. a_write A g buf m = Some (int (length buf), g', m') \<and> W g' m' \<and> R f m'
      \<and> ain f m' = ain f m \<and> aout g' m' = afile_put buf (aout g m)"
    and flush_law: "R f m \<Longrightarrow> W g m \<Longrightarrow> \<exists>g' m'. a_flush A g m = Some (0, g', m') \<and> W g' m' \<and> R f m'
      \<and> ain f m' = ain f m \<and> aout g' m' = aout g m"
    and close_in_law: "R f m \<Longrightarrow> W g m \<Longrightarrow> \<exists>r m'. a_close A f m = Some (r, m') \<and> W g m' \<and> aout g m' = aout g m"
    and close_out_law: "W g m \<Longrightarrow> \<exists>r m'. a_close A g m = Some (r, m') \<and> out m' = aout g m"
begin

lemma after_write_ok:
  assumes "R f m" and "W g m"
  shows "\<exists>g' m'. after_write A fl g m = Some (g', m') \<and> W g' m' \<and> R f m' \<and> ain f m' = ain f m \<and> aout g' m' = aout g m"
  using flush_law [OF assms] assms by (cases fl) (auto simp: after_write_def)

lemma writec_after:
  assumes "R f m" and "W g m"
  shows "\<exists>g1 m1 g' m'. a_writec A g c m = Some (0, g1, m1) \<and> after_write A fl g1 m1 = Some (g', m')
    \<and> W g' m' \<and> R f m' \<and> ain f m' = ain f m \<and> aout g' m' = afile_put [of_int c] (aout g m)"
proof -
  obtain g1 m1 where w: "a_writec A g c m = Some (0, g1, m1)" "W g1 m1" "R f m1"
    "ain f m1 = ain f m" "aout g1 m1 = afile_put [of_int c] (aout g m)"
    using writec_law [OF assms] by blast
  then show ?thesis using after_write_ok [OF w(3,2), of fl] by auto
qed

lemma close_both_ok:
  assumes "R f m" and "W g m"
  shows "\<exists>m'. close_both A f g m = Some m' \<and> out m' = aout g m"
proof -
  obtain r m1 where "a_close A f m = Some (r, m1)" "W g m1" "aout g m1 = aout g m"
    using close_in_law [OF assms] by blast
  then show ?thesis using close_out_law [of g m1] by (auto simp: close_both_def)
qed

lemma cat61_loop_ok:
  assumes "R f m" and "W g m"
  shows "\<exists>f' g' m'. cat61_loop A fl sz f g m = Some (f', g', m') \<and> R f' m' \<and> W g' m'
    \<and> aout g' m' = afile_put (afile_get sz (ain f m)) (aout g m)"
  using assms
proof (induction sz arbitrary: f g m)
  case 0
  then show ?case by (subst cat61_loop.simps) (simp add: afile_get_def)
next
  case (Suc n)
  let ?a = "ain f m"
  obtain c f1 m1 where r: "a_readc A f m = Some (c, f1, m1)" "R f1 m1" "W g m1" "aout g m1 = aout g m"
    "if a_pos ?a < length (a_bytes ?a) then c = uint (a_bytes ?a ! a_pos ?a) \<and> ain f1 m1 = afile_skip 1 ?a
     else c = -1 \<and> ain f1 m1 = ?a"
    using readc_law [OF Suc.prems] by blast
  show ?case
  proof (cases "a_pos ?a < length (a_bytes ?a)")
    case False
    then have "cat61_loop A fl (Suc n) f g m = Some (f1, g, m1)" using r by (subst cat61_loop.simps) simp
    then show ?thesis using False r by (simp add: afile_get_def)
  next
    case True
    then have "c = uint (a_bytes ?a ! a_pos ?a) \<and> ain f1 m1 = afile_skip 1 ?a" using r(5) by simp
    then have c: "c = uint (a_bytes ?a ! a_pos ?a)" "ain f1 m1 = afile_skip 1 ?a" "c \<noteq> -1"
      using uint_not_eof by simp_all
    obtain g1 m2 g2 m3 where w: "a_writec A g c m1 = Some (0, g1, m2)" "after_write A fl g1 m2 = Some (g2, m3)"
      "W g2 m3" "R f1 m3" "ain f1 m3 = ain f1 m1" "aout g2 m3 = afile_put [of_int c] (aout g m1)"
      using writec_after [OF r(2,3)] by blast
    have step: "cat61_loop A fl (Suc n) f g m = cat61_loop A fl n f1 g2 m3"
      using r(1) c(3) w(1,2) by (subst cat61_loop.simps) simp
    have get: "afile_get (Suc n) ?a = (of_int c :: u8) # afile_get n (afile_skip 1 ?a)"
      using True c(1) by (simp add: afile_get_def afile_skip_def Cons_nth_drop_Suc [symmetric])
    have put: "afile_put (afile_get n (ain f1 m3)) (aout g2 m3) = afile_put (afile_get (Suc n) ?a) (aout g m)"
      unfolding get w(5,6) r(4) c(2) afile_put_append [symmetric] by simp
    show ?thesis unfolding step put [symmetric] by (rule Suc.IH [OF w(4,3)])
  qed
qed

lemma cat61_ok:
  assumes "R f m" and "W g m"
  shows "\<exists>m'. cat61 A fl sz f g m = Some m' \<and> out m' = afile_put (afile_get sz (ain f m)) (aout g m)"
proof -
  obtain f' g' m1 where l: "cat61_loop A fl sz f g m = Some (f', g', m1)" "R f' m1" "W g' m1"
    "aout g' m1 = afile_put (afile_get sz (ain f m)) (aout g m)"
    using cat61_loop_ok [OF assms] by blast
  then show ?thesis using close_both_ok [OF l(2,3)] by (auto simp: cat61_def)
qed

lemma blockcat61_loop_ok:
  assumes "R f m" and "W g m" and "\<And>i. 0 < szs i \<and> szs i < 2 ^ 63"
  shows "\<exists>f' g' m'. blockcat61_loop A fl szs i f g m = Some (f', g', m') \<and> R f' m' \<and> W g' m'
    \<and> aout g' m' = afile_put (drop (a_pos (ain f m)) (a_bytes (ain f m))) (aout g m)"
  using assms(1,2)
proof (induction "length (a_bytes (ain f m)) - a_pos (ain f m)" arbitrary: i f g m rule: less_induct)
  case less
  let ?a = "ain f m"
  have s: "0 < szs i" "szs i < 2 ^ 63" using assms(3) [of i] by simp_all
  obtain r bs f1 m1 where rd: "a_read A f (szs i) m = Some (r, bs, f1, m1)" "R f1 m1" "W g m1" "aout g m1 = aout g m"
    "afile_get (length bs) ?a = bs" "ain f1 m1 = afile_skip (length bs) ?a" "length bs \<le> szs i"
    "if bs = [] then r \<le> 0 \<and> length (a_bytes ?a) \<le> a_pos ?a else r = int (length bs)"
    using read_law [OF less.prems s] by blast
  show ?case
  proof (cases "bs = []")
    case True
    then have "blockcat61_loop A fl szs i f g m = Some (f1, g, m1)" using rd by (subst blockcat61_loop.simps) simp
    then show ?thesis using True rd by simp
  next
    case False
    have lb: "length bs < 2 ^ 63" using rd(7) assms(3) [of i] by simp
    obtain g1 m2 where w: "a_write A g bs m1 = Some (int (length bs), g1, m2)" "W g1 m2" "R f1 m2"
      "ain f1 m2 = ain f1 m1" "aout g1 m2 = afile_put bs (aout g m1)"
      using write_law [OF rd(2,3) lb] by blast
    obtain g2 m3 where fl: "after_write A fl g1 m2 = Some (g2, m3)" "W g2 m3" "R f1 m3" "ain f1 m3 = ain f1 m2"
      "aout g2 m3 = aout g1 m2"
      using after_write_ok [OF w(3,2)] by blast
    have step: "blockcat61_loop A fl szs i f g m = blockcat61_loop A fl szs (i + 1) f1 g2 m3"
      using rd(1,8) False w(1) fl(1) by (subst blockcat61_loop.simps) simp
    have a3: "ain f1 m3 = afile_skip (length bs) ?a" unfolding fl(4) w(4) rd(6) ..
    have "length bs = min (length bs) (length (a_bytes ?a) - a_pos ?a)"
      using rd(5) by (metis afile_get_def length_drop length_take min.commute)
    then have dec: "length (a_bytes (ain f1 m3)) - a_pos (ain f1 m3) < length (a_bytes ?a) - a_pos ?a"
      unfolding a3 using False by (cases bs) auto
    have "bs @ drop (a_pos (ain f1 m3)) (a_bytes (ain f1 m3)) = drop (a_pos ?a) (a_bytes ?a)"
      unfolding a3 using rd(5) by (metis a_bytes_skip a_pos_skip afile_get_def take_drop_split)
    then have put: "afile_put (drop (a_pos (ain f1 m3)) (a_bytes (ain f1 m3))) (aout g2 m3) =
        afile_put (drop (a_pos ?a) (a_bytes ?a)) (aout g m)"
      unfolding fl(5) w(5) rd(4) by (metis afile_put_append)
    show ?thesis unfolding step put [symmetric] by (rule less.hyps [OF dec fl(3,2)])
  qed
qed

lemma blockcat61_ok:
  assumes "R f m" and "W g m" and "0 < bsz" and "bsz < 2 ^ 63"
  shows "\<exists>m'. blockcat61 A fl bsz f g m = Some m'
    \<and> out m' = afile_put (drop (a_pos (ain f m)) (a_bytes (ain f m))) (aout g m)"
proof -
  obtain f' g' m1 where l: "blockcat61_loop A fl (\<lambda>i. bsz) 0 f g m = Some (f', g', m1)" "R f' m1" "W g' m1"
    "aout g' m1 = afile_put (drop (a_pos (ain f m)) (a_bytes (ain f m))) (aout g m)"
    using blockcat61_loop_ok [OF assms(1,2), of "\<lambda>i. bsz" fl 0] assms(3,4) by blast
  then show ?thesis using close_both_ok [OF l(2,3)] by (auto simp: blockcat61_def)
qed

lemma randblockcat61_ok:
  assumes "R f m" and "W g m" and "\<And>i. 0 < szs i \<and> szs i < 2 ^ 63"
  shows "\<exists>m'. randblockcat61 A fl szs f g m = Some m'
    \<and> out m' = afile_put (drop (a_pos (ain f m)) (a_bytes (ain f m))) (aout g m)"
proof -
  obtain f' g' m1 where l: "blockcat61_loop A fl szs 0 f g m = Some (f', g', m1)" "R f' m1" "W g' m1"
    "aout g' m1 = afile_put (drop (a_pos (ain f m)) (a_bytes (ain f m))) (aout g m)"
    using blockcat61_loop_ok [OF assms(1,2), of szs fl 0] assms(3) by blast
  then show ?thesis using close_both_ok [OF l(2,3)] by (auto simp: randblockcat61_def)
qed

end

text \<open>Files in which one can seek.\<close>

locale io_seek_pair = io_pair +
  assumes seek_in_law: "R f m \<Longrightarrow> W g m \<Longrightarrow> off \<le> length (a_bytes (ain f m)) \<Longrightarrow>
      \<exists>f' m'. a_seek A f (int off) m = Some (0, f', m') \<and> R f' m' \<and> W g m' \<and> aout g m' = aout g m
      \<and> ain f' m' = afile_seek off (ain f m)"
    and seek_out_law: "R f m \<Longrightarrow> W g m \<Longrightarrow>
      \<exists>g' m'. a_seek A g (int off) m = Some (0, g', m') \<and> W g' m' \<and> R f m' \<and> ain f m' = ain f m
      \<and> aout g' m' = afile_seek off (aout g m)"
    and filesize_law: "R f m \<Longrightarrow> W g m \<Longrightarrow>
      \<exists>n m'. a_filesize A f m = (n, m') \<and> R f m' \<and> W g m' \<and> ain f m' = ain f m \<and> aout g m' = aout g m
      \<and> n = int (length (a_bytes (ain f m)))"
begin

lemma input_size_ok:
  assumes "R f m" and "W g m" and "sz = None \<or> sz = Some n \<and> n \<le> length (a_bytes (ain f m))"
  shows "\<exists>k m'. input_size A sz f m = Some (k, m') \<and> R f m' \<and> W g m' \<and> ain f m' = ain f m \<and> aout g m' = aout g m
    \<and> k \<le> length (a_bytes (ain f m)) \<and> k = (case sz of None \<Rightarrow> length (a_bytes (ain f m)) | Some n \<Rightarrow> n)"
proof (cases sz)
  case None
  then show ?thesis using filesize_law [OF assms(1,2)] by (auto simp: input_size_def)
next
  case (Some k)
  then show ?thesis using assms by (auto simp: input_size_def)
qed

lemma reverse61_loop_ok:
  assumes "R f m" and "W g m" and "n \<le> length (a_bytes (ain f m))"
  shows "\<exists>f' g' m'. reverse61_loop A fl quiet n f g m = Some (f', g', m') \<and> R f' m' \<and> W g' m'
    \<and> aout g' m' = afile_put (rev (take n (a_bytes (ain f m)))) (aout g m)"
  using assms
proof (induction n arbitrary: f g m)
  case 0
  then show ?case by simp
next
  case (Suc n)
  let ?B = "a_bytes (ain f m)"
  obtain f1 m1 where s: "a_seek A f (int n) m = Some (0, f1, m1)" "R f1 m1" "W g m1" "aout g m1 = aout g m"
    "ain f1 m1 = afile_seek n (ain f m)"
    using seek_in_law [OF Suc.prems(1,2), of n] Suc.prems(3) by auto
  obtain c f2 m2 where r: "a_readc A f1 m1 = Some (c, f2, m2)" "R f2 m2" "W g m2" "aout g m2 = aout g m1"
    "c = uint (?B ! n)" "ain f2 m2 = afile_skip 1 (afile_seek n (ain f m))"
    using readc_law [OF s(2,3)] Suc.prems(3) unfolding s(5) by auto
  obtain g1 m3 g2 m4 where w: "a_writec A g c m2 = Some (0, g1, m3)" "after_write A fl g1 m3 = Some (g2, m4)"
    "W g2 m4" "R f2 m4" "ain f2 m4 = ain f2 m2" "aout g2 m4 = afile_put [of_int c] (aout g m2)"
    using writec_after [OF r(2,3)] by blast
  have step: "reverse61_loop A fl quiet (Suc n) f g m = reverse61_loop A fl quiet n f2 g2 m4"
    using s(1) r(1,5) w(1,2) by simp
  have B: "a_bytes (ain f2 m4) = ?B" unfolding w(5) r(6) by simp
  have "rev (take (Suc n) ?B) = (of_int c :: u8) # rev (take n ?B)"
    using Suc.prems(3) r(5) by (simp add: take_Suc_conv_app_nth)
  then have put: "afile_put (rev (take n ?B)) (aout g2 m4) = afile_put (rev (take (Suc n) ?B)) (aout g m)"
    unfolding w(6) r(4) s(4) by (simp add: afile_put_append [symmetric])
  have le: "n \<le> length (a_bytes (ain f2 m4))" using Suc.prems(3) unfolding B by simp
  show ?case unfolding step put [symmetric] using Suc.IH [OF w(4,3) le] unfolding B .
qed

lemma reverse61_ok:
  assumes "R f m" and "W g m" and "sz = None \<or> sz = Some n \<and> n \<le> length (a_bytes (ain f m))"
  shows "\<exists>m'. reverse61 A fl quiet sz f g m = Some m' \<and> out m' = afile_put
    (rev (take (case sz of None \<Rightarrow> length (a_bytes (ain f m)) | Some n \<Rightarrow> n) (a_bytes (ain f m)))) (aout g m)"
proof -
  obtain k m0 where i: "input_size A sz f m = Some (k, m0)" "R f m0" "W g m0" "ain f m0 = ain f m" "aout g m0 = aout g m"
    "k \<le> length (a_bytes (ain f m))" "k = (case sz of None \<Rightarrow> length (a_bytes (ain f m)) | Some n \<Rightarrow> n)"
    using input_size_ok [OF assms] by blast
  obtain f1 m1 where s: "a_seek A f 0 m0 = Some (0, f1, m1)" "R f1 m1" "W g m1" "aout g m1 = aout g m0"
    "ain f1 m1 = afile_seek 0 (ain f m0)"
    using seek_in_law [OF i(2,3), of 0] by auto
  have k: "k \<le> length (a_bytes (ain f1 m1))" using i(4,6) s(5) by simp
  obtain f' g' m2 where l: "reverse61_loop A fl quiet k f1 g m1 = Some (f', g', m2)" "R f' m2" "W g' m2"
    "aout g' m2 = afile_put (rev (take k (a_bytes (ain f1 m1)))) (aout g m1)"
    using reverse61_loop_ok [OF s(2,3) k] by blast
  have a: "aout g' m2 = afile_put (rev (take k (a_bytes (ain f m)))) (aout g m)"
    unfolding l(4) s(4,5) i(4,5) by simp
  show ?thesis using close_both_ok [OF l(2,3)] i(1) s(1) l(1) a i(7) by (auto simp: reverse61_def)
qed

lemma overwrite_swap:
  "overwrite (overwrite bs 0 xs) (length xs) [c] = overwrite (overwrite bs (length xs) [c]) 0 xs"
proof (cases "xs = []")
  case False
  show ?thesis
  proof (rule nth_equalityI)
    show "length (overwrite (overwrite bs 0 xs) (length xs) [c]) = length (overwrite (overwrite bs (length xs) [c]) 0 xs)"
      using False by (simp add: length_overwrite)
  next
    fix i assume i: "i < length (overwrite (overwrite bs 0 xs) (length xs) [c])"
    have a: "i < max (length (overwrite bs 0 xs)) (length xs + length [c])"
      "i < max (length (overwrite bs (length xs) [c])) (0 + length xs)"
      using i False by (simp_all add: length_overwrite split: if_splits)
    show "overwrite (overwrite bs 0 xs) (length xs) [c] ! i = overwrite (overwrite bs (length xs) [c]) 0 xs ! i"
      unfolding nth_overwrite [OF _ a(1), simplified] nth_overwrite [OF False a(2)]
      using False a nth_overwrite [OF False, of i bs 0] nth_overwrite [of "[c]" i bs "length xs"]
      by (auto simp: length_overwrite)
  qed
qed simp

lemma wreverse61_loop_ok:
  assumes "R f m" and "W g m" and "length (afile_get n (ain f m)) = n"
  shows "\<exists>f' g' m'. wreverse61_loop A fl n f g m = Some (f', g', m') \<and> R f' m' \<and> W g' m'
    \<and> a_bytes (aout g' m') = overwrite (a_bytes (aout g m)) 0 (rev (afile_get n (ain f m)))"
  using assms
proof (induction n arbitrary: f g m)
  case 0
  then show ?case by (simp add: afile_get_def)
next
  case (Suc n)
  let ?a = "ain f m"
  have lt: "a_pos ?a < length (a_bytes ?a)" using Suc.prems(3) by (simp add: afile_get_def)
  obtain c f2 m2 where r: "a_readc A f m = Some (c, f2, m2)" "R f2 m2" "W g m2" "aout g m2 = aout g m"
    "c = uint (a_bytes ?a ! a_pos ?a)" "ain f2 m2 = afile_skip 1 ?a"
    using readc_law [OF Suc.prems(1,2)] lt by auto
  obtain g1 m1 where s: "a_seek A g (int n) m2 = Some (0, g1, m1)" "W g1 m1" "R f2 m1" "ain f2 m1 = ain f2 m2"
    "aout g1 m1 = afile_seek n (aout g m2)"
    using seek_out_law [OF r(2,3)] by blast
  obtain g2 m3 g3 m4 where w: "a_writec A g1 c m1 = Some (0, g2, m3)" "after_write A fl g2 m3 = Some (g3, m4)"
    "W g3 m4" "R f2 m4" "ain f2 m4 = ain f2 m1" "aout g3 m4 = afile_put [of_int c] (aout g1 m1)"
    using writec_after [OF s(3,2)] by blast
  have step: "wreverse61_loop A fl (Suc n) f g m = wreverse61_loop A fl n f2 g3 m4"
    using s(1) r(1,5) w(1,2) by simp
  have get: "afile_get (Suc n) ?a = (of_int c :: u8) # afile_get n (ain f2 m4)"
    using lt r(5) unfolding w(5) s(4) r(6) by (simp add: afile_get_def afile_skip_def Cons_nth_drop_Suc [symmetric])
  have le: "length (afile_get n (ain f2 m4)) = n" using Suc.prems(3) unfolding get by simp
  have B: "a_bytes (aout g3 m4) = overwrite (a_bytes (aout g m)) n [of_int c]"
    unfolding w(6) s(5) r(4) by (simp add: afile_put_def)
  let ?xs = "rev (afile_get n (ain f2 m4))"
  have "overwrite (a_bytes (aout g m)) 0 (rev (afile_get (Suc n) ?a)) =
      overwrite (overwrite (a_bytes (aout g m)) 0 ?xs) (length ?xs) [of_int c]"
    unfolding get by (simp add: overwrite_append)
  also have "\<dots> = overwrite (a_bytes (aout g3 m4)) 0 ?xs" unfolding overwrite_swap B using le by simp
  finally show ?case unfolding step using Suc.IH [OF w(4,3) le] by simp
qed

lemma wreverse61_ok:
  assumes "R f m" and "W g m" and "a_pos (ain f m) = 0" and "sz = None \<or> sz = Some n \<and> n \<le> length (a_bytes (ain f m))"
  shows "\<exists>m'. wreverse61 A fl sz f g m = Some m' \<and> a_bytes (out m') = overwrite (a_bytes (aout g m)) 0
    (rev (take (case sz of None \<Rightarrow> length (a_bytes (ain f m)) | Some n \<Rightarrow> n) (a_bytes (ain f m))))"
proof -
  obtain k m0 where i: "input_size A sz f m = Some (k, m0)" "R f m0" "W g m0" "ain f m0 = ain f m" "aout g m0 = aout g m"
    "k \<le> length (a_bytes (ain f m))" "k = (case sz of None \<Rightarrow> length (a_bytes (ain f m)) | Some n \<Rightarrow> n)"
    using input_size_ok [OF assms(1,2,4)] by blast
  obtain g1 m1 where s: "a_seek A g 0 m0 = Some (0, g1, m1)" "W g1 m1" "R f m1" "ain f m1 = ain f m0"
    "aout g1 m1 = afile_seek 0 (aout g m0)"
    using seek_out_law [OF i(2,3), of 0] by auto
  have gt: "afile_get k (ain f m1) = take k (a_bytes (ain f m))" unfolding s(4) i(4) by (simp add: afile_get_def assms(3))
  have k: "length (afile_get k (ain f m1)) = k" unfolding gt using i(6) by simp
  obtain f' g' m2 where l: "wreverse61_loop A fl k f g1 m1 = Some (f', g', m2)" "R f' m2" "W g' m2"
    "a_bytes (aout g' m2) = overwrite (a_bytes (aout g1 m1)) 0 (rev (afile_get k (ain f m1)))"
    using wreverse61_loop_ok [OF s(3,2) k] by blast
  have a: "a_bytes (aout g' m2) = overwrite (a_bytes (aout g m)) 0 (rev (take k (a_bytes (ain f m))))"
    unfolding l(4) gt s(5) i(5) by simp
  show ?thesis using close_both_ok [OF l(2,3)] i(1) s(1) l(1) a i(7) by (auto simp: wreverse61_def)
qed

end

end
