(* ===== verification/Io61Api.thy ===== *)
theory Io61Api
  imports Io61Pos IoClients
begin

text \<open>
  \<open>io61.cc\<close> as an implementation of the io61 interface: the operations of an input and
  an output file over the same system satisfy the laws of \<open>io_pair\<close> and, for files in
  which one can seek, of \<open>io_seek_pair\<close>. The copying programs linked with \<open>io61.cc\<close>
  are correct by interpretation.
\<close>

definition fast_api :: "'w posix \<Rightarrow> (io61_file, 'w machine) io61_api" where
  "fast_api P = \<lparr>a_readc = io61_readc P, a_read = io61_read P, a_writec = io61_writec P,
     a_write = io61_write P, a_seek = io61_seek P, a_flush = io61_flush P, a_close = io61_close P,
     a_filesize = (\<lambda>f. io61_filesize P (io61_fileno f))\<rparr>"

section \<open>An input and an output\<close>

definition in_ok :: "'w posix \<Rightarrow> ('w \<Rightarrow> afile) \<Rightarrow> ('w \<Rightarrow> nat) \<Rightarrow> ('w \<Rightarrow> afile) \<Rightarrow> io61_file \<Rightarrow> 'w machine \<Rightarrow> bool" where
  "in_ok P \<alpha> pat \<gamma> f m \<longleftrightarrow> rinv P \<alpha> pat {} \<gamma> f m \<and> a_pos (rabs \<alpha> f m) \<le> length (a_bytes (rabs \<alpha> f m))
     \<and> closes_file P (fd f) \<gamma>"

definition out_ok :: "'w posix \<Rightarrow> ('w \<Rightarrow> afile) \<Rightarrow> ('w \<Rightarrow> nat) \<Rightarrow> ('w \<Rightarrow> afile) \<Rightarrow> io61_file \<Rightarrow> 'w machine \<Rightarrow> bool" where
  "out_ok P \<alpha> pat \<gamma> f m \<longleftrightarrow> winv P \<alpha> pat {} \<gamma> f m \<and> closes_file P (fd f) (\<lambda>w. (\<alpha> w, \<gamma> w))"

lemma keeps_same: "keeps P \<gamma> w w' \<Longrightarrow> \<gamma> w' = \<gamma> w"
  by (simp add: keeps_def)

lemma winv_keep: "winv P \<alpha> pat hard \<beta> f m \<Longrightarrow> \<alpha> (world m') = \<alpha> (world m) \<Longrightarrow> winv P \<alpha> pat hard \<beta> f m'"
  by (simp add: winv_def)

lemma rinv_keep:
  assumes "rinv P \<alpha> pat hard \<beta> f m" and "keeps P \<alpha> (world m) (world m')"
  shows "rinv P \<alpha> pat hard \<beta> f m'"
  using assms keeps_peek [OF assms(2)] by (cases "map_ptr f") (auto simp: rinv_def keeps_def Let_def)

lemma out_keep: "out_ok P \<alpha> pat \<gamma> f m \<Longrightarrow> \<alpha> (world m') = \<alpha> (world m) \<Longrightarrow>
    out_ok P \<alpha> pat \<gamma> f m' \<and> wabs \<alpha> f m' = wabs \<alpha> f m"
  using winv_keep by (auto simp: out_ok_def wabs_def)

lemma in_keep:
  assumes "in_ok P \<alpha> pat \<gamma> f m" and "keeps P \<alpha> (world m) (world m')"
  shows "in_ok P \<alpha> pat \<gamma> f m' \<and> rabs \<alpha> f m' = rabs \<alpha> f m"
proof -
  have "rabs \<alpha> f m' = rabs \<alpha> f m" unfolding rabs_def keeps_same [OF assms(2)] ..
  moreover have "rinv P \<alpha> pat {} \<gamma> f m'"
    using assms(1) unfolding in_ok_def by (intro rinv_keep [OF _ assms(2)]) blast
  ultimately show ?thesis using assms(1) by (simp add: in_ok_def)
qed

lemma api_readc:
  assumes i: "in_ok P \<alpha> pat \<gamma> f m" and o: "out_ok P \<gamma> pat' \<alpha> g m"
  shows "\<exists>c f' m'. io61_readc P f m = Some (c, f', m') \<and> in_ok P \<alpha> pat \<gamma> f' m' \<and> out_ok P \<gamma> pat' \<alpha> g m'
      \<and> wabs \<gamma> g m' = wabs \<gamma> g m \<and> fd f' = fd f
      \<and> (if a_pos (rabs \<alpha> f m) < length (a_bytes (rabs \<alpha> f m))
         then c = uint (a_bytes (rabs \<alpha> f m) ! a_pos (rabs \<alpha> f m)) \<and> rabs \<alpha> f' m' = afile_skip 1 (rabs \<alpha> f m)
         else c = -1 \<and> rabs \<alpha> f' m' = rabs \<alpha> f m)"
proof -
  have r: "rinv P \<alpha> pat {} \<gamma> f m" and p: "a_pos (rabs \<alpha> f m) \<le> length (a_bytes (rabs \<alpha> f m))"
    and cl: "closes_file P (fd f) \<gamma>" using i by (simp_all add: in_ok_def)
  obtain c f' m' where x: "io61_readc P f m = Some (c, f', m')" "rinv P \<alpha> pat {} \<gamma> f' m'"
    "keeps P \<gamma> (world m) (world m')" "fd f' = fd f"
    "let a = rabs \<alpha> f m; a' = rabs \<alpha> f' m' in
       if c = -1 then a' = a \<and> (length (a_bytes a) \<le> a_pos a \<or> errno m' \<in> {} \<and> 0 < errno m')
       else a_pos a < length (a_bytes a) \<and> c = uint (a_bytes a ! a_pos a) \<and> a' = afile_skip 1 a"
    using io61_readc_spec [OF r p] by blast
  have ip: "a_pos (rabs \<alpha> f' m') \<le> length (a_bytes (rabs \<alpha> f' m'))"
    using x(5) p by (auto simp: Let_def split: if_splits)
  have "in_ok P \<alpha> pat \<gamma> f' m'" using x(2,4) ip cl by (simp add: in_ok_def)
  moreover note out_keep [OF o keeps_same [OF x(3)]]
  moreover have "if a_pos (rabs \<alpha> f m) < length (a_bytes (rabs \<alpha> f m))
         then c = uint (a_bytes (rabs \<alpha> f m) ! a_pos (rabs \<alpha> f m)) \<and> rabs \<alpha> f' m' = afile_skip 1 (rabs \<alpha> f m)
         else c = -1 \<and> rabs \<alpha> f' m' = rabs \<alpha> f m"
    using x(5) by (auto simp: Let_def split: if_splits)
  ultimately show ?thesis using x(1,4) by blast
qed

lemma api_read:
  assumes i: "in_ok P \<alpha> pat \<gamma> f m" and o: "out_ok P \<gamma> pat' \<alpha> g m" and sz: "0 < sz" "sz < 2 ^ 63"
  shows "\<exists>r bs f' m'. io61_read P f sz m = Some (r, bs, f', m') \<and> in_ok P \<alpha> pat \<gamma> f' m' \<and> out_ok P \<gamma> pat' \<alpha> g m'
      \<and> wabs \<gamma> g m' = wabs \<gamma> g m \<and> fd f' = fd f
      \<and> afile_get (length bs) (rabs \<alpha> f m) = bs \<and> rabs \<alpha> f' m' = afile_skip (length bs) (rabs \<alpha> f m) \<and> length bs \<le> sz
      \<and> (if bs = [] then r \<le> 0 \<and> length (a_bytes (rabs \<alpha> f m)) \<le> a_pos (rabs \<alpha> f m) else r = int (length bs))"
proof -
  have r: "rinv P \<alpha> pat {} \<gamma> f m" and p: "a_pos (rabs \<alpha> f m) \<le> length (a_bytes (rabs \<alpha> f m))"
    and cl: "closes_file P (fd f) \<gamma>" using i by (simp_all add: in_ok_def)
  obtain r bs f' m' where x: "io61_read P f sz m = Some (r, bs, f', m')" "rinv P \<alpha> pat {} \<gamma> f' m'"
    "keeps P \<gamma> (world m) (world m')" "fd f' = fd f"
    "read_post {} sz (rabs \<alpha> f m) r bs (rabs \<alpha> f' m') (errno m')"
    using io61_read_spec [OF r p sz(2)] by blast
  note rp = x(5) [unfolded read_post_def]
  have "in_ok P \<alpha> pat \<gamma> f' m'" unfolding in_ok_def using x(2,4) cl read_post_bound [OF x(5) p, THEN conjunct1] by simp
  moreover note out_keep [OF o keeps_same [OF x(3)]]
  moreover have "if bs = [] then r \<le> 0 \<and> length (a_bytes (rabs \<alpha> f m)) \<le> a_pos (rabs \<alpha> f m) else r = int (length bs)"
  proof (cases "bs = []")
    case True
    then have "rabs \<alpha> f' m' = rabs \<alpha> f m" using rp by simp
    then show ?thesis using True rp sz(1) by auto
  next
    case False
    then show ?thesis using rp by auto
  qed
  moreover have "afile_get (length bs) (rabs \<alpha> f m) = bs" using rp by metis
  ultimately show ?thesis using x(1,4) rp by blast
qed

lemma api_put:
  assumes i: "in_ok P \<alpha> pat \<gamma> f m" and o: "out_ok P \<gamma> pat' \<alpha> g m"
  shows "\<exists>g' m'. io61_writec P g c m = Some (0, g', m') \<and> out_ok P \<gamma> pat' \<alpha> g' m' \<and> in_ok P \<alpha> pat \<gamma> f m'
      \<and> rabs \<alpha> f m' = rabs \<alpha> f m \<and> seekable g' = seekable g \<and> wabs \<gamma> g' m' = afile_put [of_int c] (wabs \<gamma> g m)"
    and "length buf < 2 ^ 63 \<Longrightarrow> \<exists>g' m'. io61_write P g buf m = Some (int (length buf), g', m') \<and> out_ok P \<gamma> pat' \<alpha> g' m'
      \<and> in_ok P \<alpha> pat \<gamma> f m' \<and> rabs \<alpha> f m' = rabs \<alpha> f m \<and> seekable g' = seekable g
      \<and> wabs \<gamma> g' m' = afile_put buf (wabs \<gamma> g m)"
    and "\<exists>g' m'. io61_flush P g m = Some (0, g', m') \<and> out_ok P \<gamma> pat' \<alpha> g' m' \<and> in_ok P \<alpha> pat \<gamma> f m'
      \<and> rabs \<alpha> f m' = rabs \<alpha> f m \<and> seekable g' = seekable g \<and> wabs \<gamma> g' m' = wabs \<gamma> g m"
proof -
  have w: "winv P \<gamma> pat' {} \<alpha> g m" and cl: "closes_file P (fd g) (\<lambda>w. (\<gamma> w, \<alpha> w))"
    using o by (simp_all add: out_ok_def)
  obtain r g' m' where x: "io61_writec P g c m = Some (r, g', m')" "keeps P \<alpha> (world m) (world m')"
    "if r = 0 then winv P \<gamma> pat' {} \<alpha> g' m' \<and> fd g' = fd g \<and> seekable g' = seekable g
        \<and> wabs \<gamma> g' m' = afile_put [of_int c] (wabs \<gamma> g m)
     else r = -1 \<and> errno m' \<in> {} \<and> 0 < errno m'"
    using io61_writec_spec [OF w] by blast
  then show "\<exists>g' m'. io61_writec P g c m = Some (0, g', m') \<and> out_ok P \<gamma> pat' \<alpha> g' m' \<and> in_ok P \<alpha> pat \<gamma> f m'
      \<and> rabs \<alpha> f m' = rabs \<alpha> f m \<and> seekable g' = seekable g \<and> wabs \<gamma> g' m' = afile_put [of_int c] (wabs \<gamma> g m)"
    using in_keep [OF i x(2)] cl by (cases "r = 0") (auto simp: out_ok_def)
  show "\<exists>g' m'. io61_write P g buf m = Some (int (length buf), g', m') \<and> out_ok P \<gamma> pat' \<alpha> g' m'
      \<and> in_ok P \<alpha> pat \<gamma> f m' \<and> rabs \<alpha> f m' = rabs \<alpha> f m \<and> seekable g' = seekable g
      \<and> wabs \<gamma> g' m' = afile_put buf (wabs \<gamma> g m)" if lb: "length buf < 2 ^ 63"
  proof -
    obtain r g' m' where x: "io61_write P g buf m = Some (r, g', m')" "keeps P \<alpha> (world m) (world m')"
      "if r = int (length buf) then winv P \<gamma> pat' {} \<alpha> g' m' \<and> fd g' = fd g \<and> seekable g' = seekable g
          \<and> wabs \<gamma> g' m' = afile_put buf (wabs \<gamma> g m)
       else r < int (length buf) \<and> errno m' \<in> {} \<and> 0 < errno m'"
      using io61_write_spec [OF w lb] by blast
    then show ?thesis using in_keep [OF i x(2)] cl by (cases "r = int (length buf)") (auto simp: out_ok_def)
  qed
  obtain r g' m' where y: "io61_flush P g m = Some (r, g', m')" "keeps P \<alpha> (world m) (world m')"
    "if r = 0 then winv P \<gamma> pat' {} \<alpha> g' m' \<and> fd g' = fd g \<and> seekable g' = seekable g
        \<and> \<gamma> (world m') = wabs \<gamma> g m \<and> cached g' = [] \<and> tag g' = end_tag g'
     else r = -1 \<and> g' = g \<and> errno m' \<in> {} \<and> 0 < errno m'
        \<and> (\<exists>j. \<gamma> (world m') = afile_put (take j (cached g)) (\<gamma> (world m)))"
    using io61_flush_write_spec [OF w] by blast
  then show "\<exists>g' m'. io61_flush P g m = Some (0, g', m') \<and> out_ok P \<gamma> pat' \<alpha> g' m' \<and> in_ok P \<alpha> pat \<gamma> f m'
      \<and> rabs \<alpha> f m' = rabs \<alpha> f m \<and> seekable g' = seekable g \<and> wabs \<gamma> g' m' = wabs \<gamma> g m"
    using in_keep [OF i y(2)] cl by (cases "r = 0") (auto simp: out_ok_def wabs_def)
qed

lemma api_close:
  assumes "in_ok P \<alpha> pat \<gamma> f m" and "out_ok P \<gamma> pat' \<alpha> g m"
  shows "\<exists>r m'. io61_close P f m = Some (r, m') \<and> out_ok P \<gamma> pat' \<alpha> g m' \<and> wabs \<gamma> g m' = wabs \<gamma> g m"
    and "\<exists>r m'. io61_close P g m = Some (r, m') \<and> \<gamma> (world m') = wabs \<gamma> g m"
proof -
  obtain r m' where "io61_close P f m = Some (r, m')" "\<gamma> (world m') = \<gamma> (world m)"
    using io61_close_read_spec assms(1) unfolding in_ok_def by blast
  then show "\<exists>r m'. io61_close P f m = Some (r, m') \<and> out_ok P \<gamma> pat' \<alpha> g m' \<and> wabs \<gamma> g m' = wabs \<gamma> g m"
    using out_keep [OF assms(2)] by blast
  have "winv P \<gamma> pat' {} \<alpha> g m" "closes_file P (fd g) (\<lambda>w. (\<gamma> w, \<alpha> w))"
    using assms(2) by (simp_all add: out_ok_def)
  from io61_close_write_spec [OF this]
  show "\<exists>r m'. io61_close P g m = Some (r, m') \<and> \<gamma> (world m') = wabs \<gamma> g m" by auto
qed

lemma api_close_out: "out_ok P \<gamma> pat' \<alpha> g m \<Longrightarrow> \<exists>r m'. io61_close P g m = Some (r, m') \<and> \<gamma> (world m') = wabs \<gamma> g m"
  using io61_close_write_spec unfolding out_ok_def by blast

interpretation fast: io_pair "fast_api P" "in_ok P \<alpha> pat \<gamma>" "out_ok P \<gamma> pat' \<alpha>" "rabs \<alpha>" "wabs \<gamma>" "\<lambda>m. \<gamma> (world m)"
  for P :: "'w posix" and \<alpha> \<gamma> :: "'w \<Rightarrow> afile" and pat pat' :: "'w \<Rightarrow> nat"
proof
  fix f :: io61_file and m :: "'w machine" and g :: io61_file and sz :: nat and c :: int and buf :: "u8 list"
  assume i: "in_ok P \<alpha> pat \<gamma> f m" and o: "out_ok P \<gamma> pat' \<alpha> g m"
  show "\<exists>c f' m'. a_readc (fast_api P) f m = Some (c, f', m') \<and> in_ok P \<alpha> pat \<gamma> f' m' \<and> out_ok P \<gamma> pat' \<alpha> g m'
      \<and> wabs \<gamma> g m' = wabs \<gamma> g m
      \<and> (if a_pos (rabs \<alpha> f m) < length (a_bytes (rabs \<alpha> f m))
         then c = uint (a_bytes (rabs \<alpha> f m) ! a_pos (rabs \<alpha> f m)) \<and> rabs \<alpha> f' m' = afile_skip 1 (rabs \<alpha> f m)
         else c = -1 \<and> rabs \<alpha> f' m' = rabs \<alpha> f m)"
    using api_readc [OF i o] unfolding fast_api_def io61_api.simps by blast
  show "\<exists>r bs f' m'. a_read (fast_api P) f sz m = Some (r, bs, f', m') \<and> in_ok P \<alpha> pat \<gamma> f' m' \<and> out_ok P \<gamma> pat' \<alpha> g m'
      \<and> wabs \<gamma> g m' = wabs \<gamma> g m
      \<and> afile_get (length bs) (rabs \<alpha> f m) = bs \<and> rabs \<alpha> f' m' = afile_skip (length bs) (rabs \<alpha> f m) \<and> length bs \<le> sz
      \<and> (if bs = [] then r \<le> 0 \<and> length (a_bytes (rabs \<alpha> f m)) \<le> a_pos (rabs \<alpha> f m) else r = int (length bs))"
    if "0 < sz" "sz < 2 ^ 63"
    using api_read [OF i o that] unfolding fast_api_def io61_api.simps by blast
  show "\<exists>g' m'. a_writec (fast_api P) g c m = Some (0, g', m') \<and> out_ok P \<gamma> pat' \<alpha> g' m' \<and> in_ok P \<alpha> pat \<gamma> f m'
      \<and> rabs \<alpha> f m' = rabs \<alpha> f m \<and> wabs \<gamma> g' m' = afile_put [of_int c] (wabs \<gamma> g m)"
    using api_put(1) [OF i o] unfolding fast_api_def io61_api.simps by blast
  show "\<exists>g' m'. a_write (fast_api P) g buf m = Some (int (length buf), g', m') \<and> out_ok P \<gamma> pat' \<alpha> g' m'
      \<and> in_ok P \<alpha> pat \<gamma> f m' \<and> rabs \<alpha> f m' = rabs \<alpha> f m \<and> wabs \<gamma> g' m' = afile_put buf (wabs \<gamma> g m)"
    if "length buf < 2 ^ 63"
    using api_put(2) [OF i o that] unfolding fast_api_def io61_api.simps by blast
  show "\<exists>g' m'. a_flush (fast_api P) g m = Some (0, g', m') \<and> out_ok P \<gamma> pat' \<alpha> g' m' \<and> in_ok P \<alpha> pat \<gamma> f m'
      \<and> rabs \<alpha> f m' = rabs \<alpha> f m \<and> wabs \<gamma> g' m' = wabs \<gamma> g m"
    using api_put(3) [OF i o] unfolding fast_api_def io61_api.simps by blast
  show "\<exists>r m'. a_close (fast_api P) f m = Some (r, m') \<and> out_ok P \<gamma> pat' \<alpha> g m' \<and> wabs \<gamma> g m' = wabs \<gamma> g m"
    using api_close(1) [OF i o] unfolding fast_api_def io61_api.simps by blast
next
  fix m :: "'w machine" and g :: io61_file
  assume o: "out_ok P \<gamma> pat' \<alpha> g m"
  show "\<exists>r m'. a_close (fast_api P) g m = Some (r, m') \<and> \<gamma> (world m') = wabs \<gamma> g m"
    using api_close_out [OF o] unfolding fast_api_def io61_api.simps by blast
qed

section \<open>Files in which one can seek\<close>

definition in_seek_ok :: "'w posix \<Rightarrow> ('w \<Rightarrow> afile) \<Rightarrow> ('w \<Rightarrow> nat) \<Rightarrow> ('w \<Rightarrow> afile) \<Rightarrow> io61_file \<Rightarrow> 'w machine \<Rightarrow> bool" where
  "in_seek_ok P \<alpha> pat \<gamma> f m \<longleftrightarrow> in_ok P \<alpha> pat \<gamma> f m \<and> seeks_file P (fd f) \<alpha> \<gamma> \<and> stats_file P (fd f) \<alpha> \<gamma>
     \<and> regular_file P (fd f) \<alpha>"

definition out_seek_ok :: "'w posix \<Rightarrow> ('w \<Rightarrow> afile) \<Rightarrow> ('w \<Rightarrow> nat) \<Rightarrow> ('w \<Rightarrow> afile) \<Rightarrow> io61_file \<Rightarrow> 'w machine \<Rightarrow> bool" where
  "out_seek_ok P \<alpha> pat \<gamma> g m \<longleftrightarrow> out_ok P \<alpha> pat \<gamma> g m \<and> seekable g"

lemma api_filesize:
  assumes "in_seek_ok P \<alpha> pat \<gamma> f m" and "out_ok P \<gamma> pat' \<alpha> g m"
  shows "\<exists>n m'. io61_filesize P (io61_fileno f) m = (n, m') \<and> in_seek_ok P \<alpha> pat \<gamma> f m' \<and> out_ok P \<gamma> pat' \<alpha> g m'
    \<and> rabs \<alpha> f m' = rabs \<alpha> f m \<and> wabs \<gamma> g m' = wabs \<gamma> g m \<and> n = int (length (a_bytes (rabs \<alpha> f m)))"
proof -
  have st: "stats_file P (fd f) \<alpha> \<gamma>" and rg: "regular_file P (fd f) \<alpha>" and i: "in_ok P \<alpha> pat \<gamma> f m"
    using assms(1) by (simp_all add: in_seek_ok_def)
  obtain w' where x: "p_fstat P (fd f) (world m) = (Inr (True, int (length (a_bytes (\<alpha> (world m))))), w')"
    and kp: "\<forall>a b. p_peek P a (world m) = Some b \<longrightarrow> p_peek P a w' = Some b"
    using rg unfolding regular_file_def by blast
  have k: "keeps P \<gamma> (world m) w'" "\<alpha> w' = \<alpha> (world m)" using stats_fileD [OF st x] by simp_all
  have run: "io61_filesize P (io61_fileno f) m = (int (length (a_bytes (\<alpha> (world m)))), m\<lparr>world := w'\<rparr>)"
    by (simp add: io61_filesize_def io61_fileno_def syscall_def x)
  have ka: "keeps P \<alpha> (world m) (world (m\<lparr>world := w'\<rparr>))" using k(2) kp by (simp add: keeps_def)
  have kg: "\<gamma> (world (m\<lparr>world := w'\<rparr>)) = \<gamma> (world m)" using keeps_same [OF k(1)] by simp
  show ?thesis
    using run in_keep [OF i ka] out_keep [OF assms(2) kg] assms(1)
    by (simp add: in_seek_ok_def rabs_def)
qed

lemma api_seek_in:
  assumes "in_seek_ok P \<alpha> pat \<gamma> f m" and "out_ok P \<gamma> pat' \<alpha> g m" and off: "off \<le> length (a_bytes (rabs \<alpha> f m))"
  shows "\<exists>f' m'. io61_seek P f (int off) m = Some (0, f', m') \<and> in_seek_ok P \<alpha> pat \<gamma> f' m' \<and> out_ok P \<gamma> pat' \<alpha> g m'
    \<and> wabs \<gamma> g m' = wabs \<gamma> g m \<and> rabs \<alpha> f' m' = afile_seek off (rabs \<alpha> f m)"
proof -
  have r: "rinv P \<alpha> pat {} \<gamma> f m" and p: "a_pos (rabs \<alpha> f m) \<le> length (a_bytes (rabs \<alpha> f m))"
    and sk: "seeks_file P (fd f) \<alpha> \<gamma>" using assms(1) by (simp_all add: in_seek_ok_def in_ok_def)
  obtain f' m' where x: "io61_seek P f (int off) m = Some (0, f', m')" "rinv P \<alpha> pat {} \<gamma> f' m'"
    "keeps P \<gamma> (world m) (world m')" "fd f' = fd f" "rabs \<alpha> f' m' = afile_seek (nat (int off)) (rabs \<alpha> f m)"
    using io61_seek_read_spec [OF r sk p, of "int off"] by auto
  have "in_seek_ok P \<alpha> pat \<gamma> f' m'" using assms(1) x(2,4,5) off by (simp add: in_seek_ok_def in_ok_def)
  then show ?thesis using x(1,5) out_keep [OF assms(2) keeps_same [OF x(3)]] by auto
qed

lemma api_seek_out:
  assumes "in_ok P \<alpha> pat \<gamma> f m" and "out_seek_ok P \<gamma> pat' \<alpha> g m"
  shows "\<exists>g' m'. io61_seek P g (int off) m = Some (0, g', m') \<and> out_seek_ok P \<gamma> pat' \<alpha> g' m' \<and> in_ok P \<alpha> pat \<gamma> f m'
    \<and> rabs \<alpha> f m' = rabs \<alpha> f m \<and> wabs \<gamma> g' m' = afile_seek off (wabs \<gamma> g m)"
proof -
  have w: "winv P \<gamma> pat' {} \<alpha> g m" and cl: "closes_file P (fd g) (\<lambda>w. (\<gamma> w, \<alpha> w))" and sk: "seekable g"
    using assms(2) by (simp_all add: out_seek_ok_def out_ok_def)
  obtain r g' m' where x: "io61_seek P g (int off) m = Some (r, g', m')" "keeps P \<alpha> (world m) (world m')"
    "if r = 0 then winv P \<gamma> pat' {} \<alpha> g' m' \<and> fd g' = fd g \<and> seekable g' \<and> wabs \<gamma> g' m' = afile_seek (nat (int off)) (wabs \<gamma> g m)
     else r = -1 \<and> errno m' \<in> {} \<and> 0 < errno m'"
    using io61_seek_write_spec [OF w sk, of "int off"] by auto
  then show ?thesis using in_keep [OF assms(1) x(2)] cl
    by (cases "r = 0") (auto simp: out_seek_ok_def out_ok_def)
qed

interpretation fast_seek: io_seek_pair "fast_api P" "in_seek_ok P \<alpha> pat \<gamma>" "out_seek_ok P \<gamma> pat' \<alpha>" "rabs \<alpha>" "wabs \<gamma>"
    "\<lambda>m. \<gamma> (world m)"
  for P :: "'w posix" and \<alpha> \<gamma> :: "'w \<Rightarrow> afile" and pat pat' :: "'w \<Rightarrow> nat"
proof
  fix f :: io61_file and m :: "'w machine" and g :: io61_file and sz off :: nat and c :: int and buf :: "u8 list"
  assume i: "in_seek_ok P \<alpha> pat \<gamma> f m" and o: "out_seek_ok P \<gamma> pat' \<alpha> g m"
  have i': "in_ok P \<alpha> pat \<gamma> f m" and o': "out_ok P \<gamma> pat' \<alpha> g m" and sk: "seekable g"
    and l: "seeks_file P (fd f) \<alpha> \<gamma>" "stats_file P (fd f) \<alpha> \<gamma>" "regular_file P (fd f) \<alpha>"
    using i o by (simp_all add: in_seek_ok_def out_seek_ok_def)
  show "\<exists>c f' m'. a_readc (fast_api P) f m = Some (c, f', m') \<and> in_seek_ok P \<alpha> pat \<gamma> f' m' \<and> out_seek_ok P \<gamma> pat' \<alpha> g m'
      \<and> wabs \<gamma> g m' = wabs \<gamma> g m
      \<and> (if a_pos (rabs \<alpha> f m) < length (a_bytes (rabs \<alpha> f m))
         then c = uint (a_bytes (rabs \<alpha> f m) ! a_pos (rabs \<alpha> f m)) \<and> rabs \<alpha> f' m' = afile_skip 1 (rabs \<alpha> f m)
         else c = -1 \<and> rabs \<alpha> f' m' = rabs \<alpha> f m)"
    using api_readc [OF i' o'] l sk unfolding fast_api_def io61_api.simps in_seek_ok_def out_seek_ok_def by metis
  show "\<exists>r bs f' m'. a_read (fast_api P) f sz m = Some (r, bs, f', m') \<and> in_seek_ok P \<alpha> pat \<gamma> f' m' \<and> out_seek_ok P \<gamma> pat' \<alpha> g m'
      \<and> wabs \<gamma> g m' = wabs \<gamma> g m
      \<and> afile_get (length bs) (rabs \<alpha> f m) = bs \<and> rabs \<alpha> f' m' = afile_skip (length bs) (rabs \<alpha> f m) \<and> length bs \<le> sz
      \<and> (if bs = [] then r \<le> 0 \<and> length (a_bytes (rabs \<alpha> f m)) \<le> a_pos (rabs \<alpha> f m) else r = int (length bs))"
    if "0 < sz" "sz < 2 ^ 63"
    using api_read [OF i' o' that] l sk unfolding fast_api_def io61_api.simps in_seek_ok_def out_seek_ok_def by metis
  show "\<exists>g' m'. a_writec (fast_api P) g c m = Some (0, g', m') \<and> out_seek_ok P \<gamma> pat' \<alpha> g' m' \<and> in_seek_ok P \<alpha> pat \<gamma> f m'
      \<and> rabs \<alpha> f m' = rabs \<alpha> f m \<and> wabs \<gamma> g' m' = afile_put [of_int c] (wabs \<gamma> g m)"
    using api_put(1) [OF i' o'] l sk unfolding fast_api_def io61_api.simps in_seek_ok_def out_seek_ok_def by metis
  show "\<exists>g' m'. a_write (fast_api P) g buf m = Some (int (length buf), g', m') \<and> out_seek_ok P \<gamma> pat' \<alpha> g' m'
      \<and> in_seek_ok P \<alpha> pat \<gamma> f m' \<and> rabs \<alpha> f m' = rabs \<alpha> f m \<and> wabs \<gamma> g' m' = afile_put buf (wabs \<gamma> g m)"
    if "length buf < 2 ^ 63"
    using api_put(2) [OF i' o' that] l sk unfolding fast_api_def io61_api.simps in_seek_ok_def out_seek_ok_def by metis
  show "\<exists>g' m'. a_flush (fast_api P) g m = Some (0, g', m') \<and> out_seek_ok P \<gamma> pat' \<alpha> g' m' \<and> in_seek_ok P \<alpha> pat \<gamma> f m'
      \<and> rabs \<alpha> f m' = rabs \<alpha> f m \<and> wabs \<gamma> g' m' = wabs \<gamma> g m"
    using api_put(3) [OF i' o'] l sk unfolding fast_api_def io61_api.simps in_seek_ok_def out_seek_ok_def by metis
  show "\<exists>r m'. a_close (fast_api P) f m = Some (r, m') \<and> out_seek_ok P \<gamma> pat' \<alpha> g m' \<and> wabs \<gamma> g m' = wabs \<gamma> g m"
    using api_close(1) [OF i' o'] sk unfolding fast_api_def io61_api.simps out_seek_ok_def by metis
  show "\<exists>f' m'. a_seek (fast_api P) f (int off) m = Some (0, f', m') \<and> in_seek_ok P \<alpha> pat \<gamma> f' m'
      \<and> out_seek_ok P \<gamma> pat' \<alpha> g m' \<and> wabs \<gamma> g m' = wabs \<gamma> g m \<and> rabs \<alpha> f' m' = afile_seek off (rabs \<alpha> f m)"
    if "off \<le> length (a_bytes (rabs \<alpha> f m))"
    using api_seek_in [OF i o' that] sk unfolding fast_api_def io61_api.simps out_seek_ok_def by metis
  show "\<exists>g' m'. a_seek (fast_api P) g (int off) m = Some (0, g', m') \<and> out_seek_ok P \<gamma> pat' \<alpha> g' m'
      \<and> in_seek_ok P \<alpha> pat \<gamma> f m' \<and> rabs \<alpha> f m' = rabs \<alpha> f m \<and> wabs \<gamma> g' m' = afile_seek off (wabs \<gamma> g m)"
    using api_seek_out [OF i' o] l unfolding fast_api_def io61_api.simps in_seek_ok_def by metis
  show "\<exists>n m'. a_filesize (fast_api P) f m = (n, m') \<and> in_seek_ok P \<alpha> pat \<gamma> f m' \<and> out_seek_ok P \<gamma> pat' \<alpha> g m'
      \<and> rabs \<alpha> f m' = rabs \<alpha> f m \<and> wabs \<gamma> g m' = wabs \<gamma> g m \<and> n = int (length (a_bytes (rabs \<alpha> f m)))"
    using api_filesize [OF i o'] sk unfolding fast_api_def io61_api.simps out_seek_ok_def by metis
next
  fix m :: "'w machine" and g :: io61_file
  assume "out_seek_ok P \<gamma> pat' \<alpha> g m"
  then show "\<exists>r m'. a_close (fast_api P) g m = Some (r, m') \<and> \<gamma> (world m') = wabs \<gamma> g m"
    using api_close_out unfolding fast_api_def io61_api.simps out_seek_ok_def by blast
qed

section \<open>Properties\<close>

text \<open>What the programs need of the system: an input behind \<open>d\<close> and an output behind \<open>e\<close>,
  two different open files.\<close>

definition two_files :: "'w posix \<Rightarrow> int \<Rightarrow> ('w \<Rightarrow> afile) \<Rightarrow> ('w \<Rightarrow> nat) \<Rightarrow> int \<Rightarrow> ('w \<Rightarrow> afile) \<Rightarrow> ('w \<Rightarrow> nat) \<Rightarrow> bool" where
  "two_files P d \<alpha> pat e \<gamma> pat' \<longleftrightarrow> 0 \<le> d \<and> 0 \<le> e
     \<and> reads_file P d \<alpha> pat {} \<gamma> \<and> maps_file P d \<alpha> \<gamma> \<and> stats_file P d \<alpha> \<gamma> \<and> seeks_file P d \<alpha> \<gamma>
     \<and> closes_file P d \<gamma> \<and> regular_file P d \<alpha>
     \<and> writes_file P e \<gamma> pat' {} \<alpha> \<and> stats_file P e \<gamma> \<alpha> \<and> seeks_file P e \<gamma> \<alpha>
     \<and> closes_file P e (\<lambda>w. (\<gamma> w, \<alpha> w))"

lemma mem_os_two_files: "two_files (mem_os False) 3 (ms_afile 3) (ms_glitch 3) 4 (ms_afile 4) (ms_glitch 4)"
  by (simp add: two_files_def mem_os_reads mem_os_maps mem_os_stats mem_os_seeks mem_os_closes mem_os_regular
      mem_os_writes ms_frame_other)

lemma open_two:
  assumes t: "two_files P d \<alpha> pat e \<gamma> pat'" and len: "length (a_bytes (\<alpha> (world m))) < 2 ^ 63"
    and pos: "a_pos (\<alpha> (world m)) \<le> length (a_bytes (\<alpha> (world m)))"
  shows "\<exists>f g m1 m2. io61_fdopen P junk d O_RDONLY m = Some (f, m1) \<and> io61_fdopen P junk e O_WRONLY m1 = Some (g, m2)
    \<and> in_seek_ok P \<alpha> pat \<gamma> f m2 \<and> out_seek_ok P \<gamma> pat' \<alpha> g m2
    \<and> rabs \<alpha> f m2 = \<alpha> (world m) \<and> wabs \<gamma> g m2 = \<gamma> (world m)"
proof -
  note d = t [unfolded two_files_def]
  have l: "reads_file P d \<alpha> pat {} \<gamma>" "maps_file P d \<alpha> \<gamma>" "stats_file P d \<alpha> \<gamma>" "seeks_file P d \<alpha> \<gamma>" "0 \<le> d"
    "writes_file P e \<gamma> pat' {} \<alpha>" "stats_file P e \<gamma> \<alpha>" "seeks_file P e \<gamma> \<alpha>" "0 \<le> e" using d by blast+
  obtain f m1 where f: "io61_fdopen P junk d O_RDONLY m = Some (f, m1)" "rinv P \<alpha> pat {} \<gamma> f m1"
    "keeps P \<gamma> (world m) (world m1)" "fd f = d" "rabs \<alpha> f m1 = \<alpha> (world m)"
    using io61_fdopen_read_spec [OF l(1-4) len l(5)] by blast
  obtain g m2 where g: "io61_fdopen P junk e O_WRONLY m1 = Some (g, m2)" "winv P \<gamma> pat' {} \<alpha> g m2"
    "keeps P \<alpha> (world m1) (world m2)" "fd g = e" "wabs \<gamma> g m2 = \<gamma> (world m1)" "seekable g"
    using io61_fdopen_write_spec [OF l(6-9)] by blast
  have "in_ok P \<alpha> pat \<gamma> f m1" using f d pos by (simp add: in_ok_def)
  from in_keep [OF this g(3)] have "in_seek_ok P \<alpha> pat \<gamma> f m2 \<and> rabs \<alpha> f m2 = \<alpha> (world m)"
    using f(4,5) d by (simp add: in_seek_ok_def)
  moreover have "out_seek_ok P \<gamma> pat' \<alpha> g m2" using g d by (simp add: out_seek_ok_def out_ok_def)
  moreover have "wabs \<gamma> g m2 = \<gamma> (world m)" unfolding g(5) by (rule keeps_same [OF f(3)])
  ultimately show ?thesis using f(1) g(1) by blast
qed

text \<open>C22: \<open>blockcat61\<close> linked with \<open>io61.cc\<close>, from the opening of the files to their
  closing: it ends without a failed assertion and the output file has received all the
  bytes of the input, in order, whatever the block size.\<close>

theorem blockcat61_copies:
  assumes "two_files P d \<alpha> pat e \<gamma> pat'" and "length (a_bytes (\<alpha> (world m))) < 2 ^ 63"
    and "a_pos (\<alpha> (world m)) \<le> length (a_bytes (\<alpha> (world m)))" and "0 < bsz" and "bsz < 2 ^ 63"
  shows "\<exists>f g m1 m2 m'. io61_fdopen P junk d O_RDONLY m = Some (f, m1) \<and> io61_fdopen P junk e O_WRONLY m1 = Some (g, m2)
    \<and> blockcat61 (fast_api P) fl bsz f g m2 = Some m'
    \<and> \<gamma> (world m') = afile_put (drop (a_pos (\<alpha> (world m))) (a_bytes (\<alpha> (world m)))) (\<gamma> (world m))"
proof -
  obtain f g m1 m2 where o: "io61_fdopen P junk d O_RDONLY m = Some (f, m1)" "io61_fdopen P junk e O_WRONLY m1 = Some (g, m2)"
    "in_seek_ok P \<alpha> pat \<gamma> f m2" "out_seek_ok P \<gamma> pat' \<alpha> g m2"
    and a: "rabs \<alpha> f m2 = \<alpha> (world m)" "wabs \<gamma> g m2 = \<gamma> (world m)"
    using open_two [OF assms(1-3)] by blast
  from fast_seek.blockcat61_ok [OF o(3,4) assms(4,5), of fl] show ?thesis unfolding a using o(1,2) by blast
qed

lemma blockcat61_copies_witness:
  "\<exists>f g m1 m2 m'. io61_fdopen (mem_os False) (\<lambda>i. 0) 3 O_RDONLY (demo_machine True [1, 2, 3, 4, 5]) = Some (f, m1)
    \<and> io61_fdopen (mem_os False) (\<lambda>i. 0) 4 O_WRONLY m1 = Some (g, m2)
    \<and> blockcat61 (fast_api (mem_os False)) True 2 f g m2 = Some m'
    \<and> ms_afile 4 (world m') = \<lparr>a_pos = 5, a_bytes = [1, 2, 3, 4, 5]\<rparr>"
proof -
  have a: "afile_put (drop (a_pos (ms_afile 3 (world (demo_machine True [1, 2, 3, 4, 5]))))
      (a_bytes (ms_afile 3 (world (demo_machine True [1, 2, 3, 4, 5]))))) (ms_afile 4 (world (demo_machine True [1, 2, 3, 4, 5])))
      = \<lparr>a_pos = 5, a_bytes = [1, 2, 3, 4, 5]\<rparr>"
    unfolding demo_afile by (simp add: afile_put_def overwrite_def)
  show ?thesis unfolding a [symmetric]
    by (rule blockcat61_copies [OF mem_os_two_files]) (simp_all add: demo_afile)
qed

text \<open>C21: \<open>reverse61\<close> and \<open>wreverse61\<close> linked with \<open>io61.cc\<close> write the input's bytes in
  reverse order, the one by seeking back in its input, the other by seeking back in its
  output.\<close>

theorem reverse61_reverses:
  assumes "two_files P d \<alpha> pat e \<gamma> pat'" and "length (a_bytes (\<alpha> (world m))) < 2 ^ 63" and "a_pos (\<alpha> (world m)) = 0"
    and "\<gamma> (world m) = \<lparr>a_pos = 0, a_bytes = []\<rparr>"
  shows "\<exists>f g m1 m2 m' m''. io61_fdopen P junk d O_RDONLY m = Some (f, m1) \<and> io61_fdopen P junk e O_WRONLY m1 = Some (g, m2)
    \<and> reverse61 (fast_api P) fl q None f g m2 = Some m' \<and> a_bytes (\<gamma> (world m')) = rev (a_bytes (\<alpha> (world m)))
    \<and> wreverse61 (fast_api P) fl None f g m2 = Some m'' \<and> a_bytes (\<gamma> (world m'')) = rev (a_bytes (\<alpha> (world m)))"
proof -
  have p: "a_pos (\<alpha> (world m)) \<le> length (a_bytes (\<alpha> (world m)))" using assms(3) by simp
  obtain f g m1 m2 where o: "io61_fdopen P junk d O_RDONLY m = Some (f, m1)" "io61_fdopen P junk e O_WRONLY m1 = Some (g, m2)"
    "in_seek_ok P \<alpha> pat \<gamma> f m2" "out_seek_ok P \<gamma> pat' \<alpha> g m2"
    and a: "rabs \<alpha> f m2 = \<alpha> (world m)" "wabs \<gamma> g m2 = \<gamma> (world m)"
    using open_two [OF assms(1,2) p] by blast
  have put: "a_bytes (afile_put ys (\<gamma> (world m))) = ys" and ov: "overwrite (a_bytes (\<gamma> (world m))) 0 ys = ys" for ys
    unfolding assms(4) by (simp_all add: afile_put_def overwrite_def)
  have n: "None = None \<or> None = Some (0 :: nat) \<and> 0 \<le> length (a_bytes (rabs \<alpha> f m2))" by simp
  have p0: "a_pos (rabs \<alpha> f m2) = 0" unfolding a by (rule assms(3))
  obtain m' where r: "reverse61 (fast_api P) fl q None f g m2 = Some m'" "a_bytes (\<gamma> (world m')) = rev (a_bytes (\<alpha> (world m)))"
    using fast_seek.reverse61_ok [OF o(3,4) n, of fl q] unfolding a by (auto simp: put)
  obtain m'' where w: "wreverse61 (fast_api P) fl None f g m2 = Some m''" "a_bytes (\<gamma> (world m'')) = rev (a_bytes (\<alpha> (world m)))"
    using fast_seek.wreverse61_ok [OF o(3,4) p0 n, of fl] unfolding a by (auto simp: ov)
  show ?thesis using o(1,2) r w by blast
qed

lemma reverse61_reverses_witness:
  "\<exists>f g m1 m2 m' m''. io61_fdopen (mem_os False) (\<lambda>i. 0) 3 O_RDONLY (demo_machine True [1, 2, 3, 4, 5]) = Some (f, m1)
    \<and> io61_fdopen (mem_os False) (\<lambda>i. 0) 4 O_WRONLY m1 = Some (g, m2)
    \<and> reverse61 (fast_api (mem_os False)) False False None f g m2 = Some m'
    \<and> a_bytes (ms_afile 4 (world m')) = [5, 4, 3, 2, 1]
    \<and> wreverse61 (fast_api (mem_os False)) False None f g m2 = Some m''
    \<and> a_bytes (ms_afile 4 (world m'')) = [5, 4, 3, 2, 1]"
proof -
  have a: "rev (a_bytes (ms_afile 3 (world (demo_machine True [1, 2, 3, 4, 5])))) = [5, 4, 3, 2, 1]"
    unfolding demo_afile by simp
  show ?thesis unfolding a [symmetric]
    by (rule reverse61_reverses [OF mem_os_two_files]) (simp_all add: demo_afile)
qed

end
