(* ===== verification/IoCareful.thy ===== *)
theory IoCareful
  imports Io61Api
begin

text \<open>
  The two programs of \<open>src/pset4\<close> that wait out interrupted calls: \<open>carefulcat61\<close> and
  \<open>carefulblockcat61\<close>. They look at \<open>errno\<close> after a call that failed, so they are modelled over a
  machine with \<open>errno\<close>, with the interface of the library as a parameter like the other programs.
  The locale \<open>careful_pair\<close> states what else they rely on.
\<close>

section \<open>The programs\<close>

definition try_again :: "'w machine \<Rightarrow> bool" where
  "try_again m \<longleftrightarrow> errno m = EINTR \<or> errno m = EAGAIN"

partial_function (option) retry_readc :: "('f, 'w machine) io61_api \<Rightarrow> 'f \<Rightarrow> 'w machine \<Rightarrow> (int \<times> 'f \<times> 'w machine) option" where
  "retry_readc A f m = do {
     (ch, f, m) \<leftarrow> a_readc A f (m\<lparr>errno := 0\<rparr>);
     if ch = -1 \<and> try_again m then retry_readc A f m else Some (ch, f, m) }"

partial_function (option) retry_writec :: "('f, 'w machine) io61_api \<Rightarrow> 'f \<Rightarrow> int \<Rightarrow> 'w machine \<Rightarrow> (int \<times> 'f \<times> 'w machine) option" where
  "retry_writec A g ch m = do {
     (r, g, m) \<leftarrow> a_writec A g ch (m\<lparr>errno := 0\<rparr>);
     if r = -1 \<and> try_again m then retry_writec A g ch m else Some (r, g, m) }"

partial_function (option) carefulcat61_loop :: "('f, 'w machine) io61_api \<Rightarrow> bool \<Rightarrow> nat \<Rightarrow> 'f \<Rightarrow> 'f \<Rightarrow> 'w machine \<Rightarrow>
    ('f \<times> 'f \<times> 'w machine) option" where
  "carefulcat61_loop A fl sz f g m = (if sz \<noteq> 0 then do {
       (ch, f, m) \<leftarrow> retry_readc A f m;
       if ch = -1 then Some (f, g, m) else do {
         (r, g, m) \<leftarrow> retry_writec A g ch m;
         assert_ok (r = 0);
         (g, m) \<leftarrow> after_write A fl g m;
         carefulcat61_loop A fl (sz - 1) f g m } }
     else Some (f, g, m))"

definition carefulcat61 :: "('f, 'w machine) io61_api \<Rightarrow> bool \<Rightarrow> nat \<Rightarrow> 'f \<Rightarrow> 'f \<Rightarrow> 'w machine \<Rightarrow> 'w machine option" where
  "carefulcat61 A fl sz f g m = do {
     (f, g, m) \<leftarrow> carefulcat61_loop A fl sz f g m;
     close_both A f g m }"

text \<open>\<open>carefulblockcat61\<close> does not reset \<open>errno\<close> before its calls.\<close>

partial_function (option) retry_read :: "('f, 'w machine) io61_api \<Rightarrow> 'f \<Rightarrow> nat \<Rightarrow> 'w machine \<Rightarrow> (int \<times> u8 list \<times> 'f \<times> 'w machine) option" where
  "retry_read A f sz m = do {
     (nr, buf, f, m) \<leftarrow> a_read A f sz m;
     if nr = -1 \<and> try_again m then retry_read A f sz m else Some (nr, buf, f, m) }"

text \<open>The first \<open>n\<close> rounds of this loop: it exists if each of them calls \<open>io61_read\<close>, gets an error that asks for
  another try, and goes back to \<open>reread\<close>.\<close>

primrec rereads :: "('f, 'w machine) io61_api \<Rightarrow> nat \<Rightarrow> nat \<Rightarrow> 'f \<Rightarrow> 'w machine \<Rightarrow> ('f \<times> 'w machine) option" where
  "rereads A sz 0 f m = Some (f, m)"
| "rereads A sz (Suc n) f m = do {
     (nr, buf, f, m) \<leftarrow> a_read A f sz m;
     if nr = -1 \<and> try_again m then rereads A sz n f m else None }"

partial_function (option) careful_write :: "('f, 'w machine) io61_api \<Rightarrow> 'f \<Rightarrow> u8 list \<Rightarrow> 'w machine \<Rightarrow> ('f \<times> 'w machine) option" where
  "careful_write A g buf m = (if buf \<noteq> [] then do {
       (nw, g, m) \<leftarrow> a_write A g buf m;
       if nw = -1 \<and> try_again m then careful_write A g buf m else do {
         assert_ok (0 < nw);
         careful_write A g (drop (nat nw) buf) m } }
     else Some (g, m))"

partial_function (option) carefulblockcat61_loop :: "('f, 'w machine) io61_api \<Rightarrow> bool \<Rightarrow> nat \<Rightarrow> 'f \<Rightarrow> 'f \<Rightarrow> 'w machine \<Rightarrow>
    ('f \<times> 'f \<times> 'w machine) option" where
  "carefulblockcat61_loop A fl block_size f g m = do {
     (nr, buf, f, m) \<leftarrow> retry_read A f block_size m;
     if nr \<le> 0 then Some (f, g, m) else do {
       (g, m) \<leftarrow> careful_write A g (take (nat nr) buf) m;
       (g, m) \<leftarrow> after_write A fl g m;
       carefulblockcat61_loop A fl block_size f g m } }"

definition carefulblockcat61 :: "('f, 'w machine) io61_api \<Rightarrow> bool \<Rightarrow> nat \<Rightarrow> 'f \<Rightarrow> 'f \<Rightarrow> 'w machine \<Rightarrow> 'w machine option" where
  "carefulblockcat61 A fl block_size f g m = do {
     (f, g, m) \<leftarrow> carefulblockcat61_loop A fl block_size f g m;
     close_both A f g m }"

section \<open>Copying in spite of interruptions\<close>

text \<open>Beside the laws of an input and an output: \<open>errno\<close> does not matter to them, and at the end of the
  input a failure that asks for another try uses up some of the patience \<open>\<mu>\<close>.\<close>

locale careful_pair = io_pair A R W ain aout out
  for A :: "('f, 'w machine) io61_api"
    and R :: "'f \<Rightarrow> 'w machine \<Rightarrow> bool"
    and W :: "'f \<Rightarrow> 'w machine \<Rightarrow> bool"
    and ain :: "'f \<Rightarrow> 'w machine \<Rightarrow> afile"
    and aout :: "'f \<Rightarrow> 'w machine \<Rightarrow> afile"
    and out :: "'w machine \<Rightarrow> afile" +
  fixes \<mu> :: "'f \<Rightarrow> 'w machine \<Rightarrow> nat \<times> nat"
  assumes in_errno: "R f m \<Longrightarrow> R f (m\<lparr>errno := e\<rparr>) \<and> ain f (m\<lparr>errno := e\<rparr>) = ain f m \<and> \<mu> f (m\<lparr>errno := e\<rparr>) = \<mu> f m"
    and out_errno: "W g m \<Longrightarrow> W g (m\<lparr>errno := e\<rparr>) \<and> aout g (m\<lparr>errno := e\<rparr>) = aout g m"
    and patience: "R f m \<Longrightarrow> W g m \<Longrightarrow> length (a_bytes (ain f m)) \<le> a_pos (ain f m) \<Longrightarrow> errno m = 0 \<Longrightarrow>
      a_readc A f m = Some (-1, f', m') \<Longrightarrow> try_again m' \<Longrightarrow> (\<mu> f' m', \<mu> f m) \<in> less_than <*lex*> less_than"
begin

lemma retry_readc_ok:
  assumes "R f m" and "W g m"
  shows "\<exists>c f' m'. retry_readc A f m = Some (c, f', m') \<and> R f' m' \<and> W g m' \<and> aout g m' = aout g m
      \<and> (if a_pos (ain f m) < length (a_bytes (ain f m))
         then c = uint (a_bytes (ain f m) ! a_pos (ain f m)) \<and> ain f' m' = afile_skip 1 (ain f m)
         else c = -1 \<and> ain f' m' = ain f m)"
  using assms
proof (induction "\<mu> f m" arbitrary: f m rule: wf_induct_rule [OF wf_lex_prod [OF wf_less_than wf_less_than]])
  case 1
  let ?m = "m\<lparr>errno := 0\<rparr>" and ?a = "ain f m"
  have i: "R f ?m" "W g ?m" "ain f ?m = ?a" "aout g ?m = aout g m" "\<mu> f ?m = \<mu> f m"
    using in_errno [OF 1(2)] out_errno [OF 1(3)] by simp_all
  obtain c f1 m1 where r: "a_readc A f ?m = Some (c, f1, m1)" "R f1 m1" "W g m1" "aout g m1 = aout g m"
    "if a_pos ?a < length (a_bytes ?a) then c = uint (a_bytes ?a ! a_pos ?a) \<and> ain f1 m1 = afile_skip 1 ?a
     else c = -1 \<and> ain f1 m1 = ?a"
    using readc_law [OF i(1,2)] unfolding i(3,4) by blast
  show ?case
  proof (cases "c = -1 \<and> try_again m1")
    case False
    then have "retry_readc A f m = Some (c, f1, m1)" using r(1) by (subst retry_readc.simps) auto
    then show ?thesis using r by blast
  next
    case True
    have e: "length (a_bytes ?a) \<le> a_pos ?a" "ain f1 m1 = ?a" using r(5) True uint_not_eof by (auto split: if_splits)
    have "retry_readc A f m = retry_readc A f1 m1" using r(1) True by (subst retry_readc.simps) simp
    moreover have "a_readc A f ?m = Some (-1, f1, m1)" using r(1) True by simp
    from patience [OF i(1,2) _ _ this] have "(\<mu> f1 m1, \<mu> f m) \<in> less_than <*lex*> less_than"
      using True e(1) unfolding i(3,5) by simp
    from 1(1) [OF this r(2,3)] have "\<exists>c f' m'. retry_readc A f1 m1 = Some (c, f', m') \<and> R f' m' \<and> W g m' \<and> aout g m' = aout g m
      \<and> (if a_pos ?a < length (a_bytes ?a) then c = uint (a_bytes ?a ! a_pos ?a) \<and> ain f' m' = afile_skip 1 ?a
         else c = -1 \<and> ain f' m' = ?a)" unfolding e(2) r(4) .
    ultimately show ?thesis by simp
  qed
qed

lemma retry_writec_ok:
  assumes "R f m" and "W g m"
  shows "\<exists>g' m'. retry_writec A g c m = Some (0, g', m') \<and> W g' m' \<and> R f m'
      \<and> ain f m' = ain f m \<and> aout g' m' = afile_put [of_int c] (aout g m)"
proof -
  let ?m = "m\<lparr>errno := 0\<rparr>"
  have i: "R f ?m" "W g ?m" "ain f ?m = ain f m" "aout g ?m = aout g m"
    using in_errno [OF assms(1)] out_errno [OF assms(2)] by simp_all
  show ?thesis using writec_law [OF i(1,2), of c] unfolding i(3,4) by (subst retry_writec.simps) auto
qed

lemma carefulcat61_loop_ok:
  assumes "R f m" and "W g m"
  shows "\<exists>f' g' m'. carefulcat61_loop A fl sz f g m = Some (f', g', m') \<and> R f' m' \<and> W g' m'
    \<and> aout g' m' = afile_put (afile_get sz (ain f m)) (aout g m)"
  using assms
proof (induction sz arbitrary: f g m)
  case 0
  then show ?case by (subst carefulcat61_loop.simps) (simp add: afile_get_def)
next
  case (Suc n)
  let ?a = "ain f m"
  obtain c f1 m1 where r: "retry_readc A f m = Some (c, f1, m1)" "R f1 m1" "W g m1" "aout g m1 = aout g m"
    "if a_pos ?a < length (a_bytes ?a) then c = uint (a_bytes ?a ! a_pos ?a) \<and> ain f1 m1 = afile_skip 1 ?a
     else c = -1 \<and> ain f1 m1 = ?a"
    using retry_readc_ok [OF Suc.prems] by blast
  show ?case
  proof (cases "a_pos ?a < length (a_bytes ?a)")
    case False
    then have "carefulcat61_loop A fl (Suc n) f g m = Some (f1, g, m1)" using r by (subst carefulcat61_loop.simps) simp
    then show ?thesis using False r by (simp add: afile_get_def)
  next
    case True
    then have c: "c = uint (a_bytes ?a ! a_pos ?a)" "ain f1 m1 = afile_skip 1 ?a" "c \<noteq> -1"
      using r(5) uint_not_eof by simp_all
    obtain g1 m2 where w: "retry_writec A g c m1 = Some (0, g1, m2)" "W g1 m2" "R f1 m2" "ain f1 m2 = ain f1 m1"
      "aout g1 m2 = afile_put [of_int c] (aout g m1)" using retry_writec_ok [OF r(2,3)] by blast
    obtain g2 m3 where a: "after_write A fl g1 m2 = Some (g2, m3)" "W g2 m3" "R f1 m3" "ain f1 m3 = ain f1 m2" "aout g2 m3 = aout g1 m2"
      using after_write_ok [OF w(3,2)] by blast
    have step: "carefulcat61_loop A fl (Suc n) f g m = carefulcat61_loop A fl n f1 g2 m3"
      using r(1) c(3) w(1) a(1) by (subst carefulcat61_loop.simps) simp
    have get: "afile_get (Suc n) ?a = (of_int c :: u8) # afile_get n (afile_skip 1 ?a)"
      using True c(1) by (simp add: afile_get_def afile_skip_def Cons_nth_drop_Suc [symmetric])
    have put: "afile_put (afile_get n (ain f1 m3)) (aout g2 m3) = afile_put (afile_get (Suc n) ?a) (aout g m)"
      unfolding get a(4,5) w(4,5) r(4) c(2) afile_put_append [symmetric] by simp
    show ?thesis unfolding step put [symmetric] by (rule Suc.IH [OF a(3,2)])
  qed
qed

lemma carefulcat61_ok:
  assumes "R f m" and "W g m"
  shows "\<exists>m'. carefulcat61 A fl sz f g m = Some m' \<and> out m' = afile_put (afile_get sz (ain f m)) (aout g m)"
proof -
  obtain f' g' m1 where l: "carefulcat61_loop A fl sz f g m = Some (f', g', m1)" "R f' m1" "W g' m1"
    "aout g' m1 = afile_put (afile_get sz (ain f m)) (aout g m)"
    using carefulcat61_loop_ok [OF assms] by blast
  then show ?thesis using close_both_ok [OF l(2,3)] by (auto simp: carefulcat61_def)
qed

end

section \<open>On io61.cc\<close>

text \<open>Interruptions are bounded by \<open>pat\<close>; a read that succeeds gives no new ones.\<close>

definition steady :: "'w posix \<Rightarrow> int \<Rightarrow> ('w \<Rightarrow> nat) \<Rightarrow> bool" where
  "steady P d pat \<longleftrightarrow> (\<forall>n w bs w'. p_read P d n w = (Inr bs, w') \<longrightarrow> pat w' \<le> pat w)"

definition in_careful :: "'w posix \<Rightarrow> ('w \<Rightarrow> afile) \<Rightarrow> ('w \<Rightarrow> nat) \<Rightarrow> ('w \<Rightarrow> afile) \<Rightarrow> io61_file \<Rightarrow> 'w machine \<Rightarrow> bool" where
  "in_careful P \<alpha> pat \<gamma> f m \<longleftrightarrow> in_ok P \<alpha> pat \<gamma> f m \<and> steady P (fd f) pat"

definition left :: "('w \<Rightarrow> nat) \<Rightarrow> io61_file \<Rightarrow> 'w machine \<Rightarrow> nat \<times> nat" where
  "left pat f m = (if map_ptr f = NullMap then 1 else 0, pat (world m))"

lemma fill_read_errno:
  assumes "reads_file P d \<alpha> pat {} \<beta>"
  shows "\<exists>bs m'. fill_read P d m = Some (Some bs, m') \<and> (errno m' = errno m \<or> try_again m')
    \<and> (steady P d pat \<longrightarrow> pat (world m') \<le> pat (world m) \<and> (errno m' \<noteq> errno m \<longrightarrow> pat (world m') < pat (world m)))"
proof (induction "pat (world m)" arbitrary: m rule: less_induct)
  case less
  obtain x w' where pr: "p_read P d (nat cbufsz) (world m) = (x, w')" by fastforce
  have pos: "0 < nat cbufsz" by simp
  show ?case
  proof (cases x)
    case (Inr bs)
    have "steady P d pat \<longrightarrow> pat w' \<le> pat (world m)" using pr Inr unfolding steady_def by blast
    then show ?thesis using pr Inr by (subst fill_read.simps) (simp add: syscall_def)
  next
    case (Inl e)
    let ?m = "m\<lparr>errno := e, world := w'\<rparr>"
    have e: "e = EINTR \<or> e = EAGAIN" "pat (world ?m) < pat (world m)" using reads_fileD(3) [OF assms pos pr Inl] by auto
    have "fill_read P d m = fill_read P d ?m" using pr Inl e(1) by (subst fill_read.simps) (auto simp: syscall_def)
    moreover have "try_again ?m" using e(1) by (simp add: try_again_def)
    moreover obtain bs m' where "fill_read P d ?m = Some (Some bs, m')" "errno m' = errno ?m \<or> try_again m'"
      "steady P d pat \<longrightarrow> pat (world m') \<le> pat (world ?m)" using less [OF e(2)] by blast
    ultimately show ?thesis using e(2) by (auto simp: try_again_def)
  qed
qed

lemma refill_errno:
  assumes "reads_file P (fd f) \<alpha> pat {} \<beta>" and "refill P f m = Some (ok, f', m')"
  shows "map_ptr f' = map_ptr f" and "errno m' = errno m \<or> try_again m'"
    and "steady P (fd f) pat \<Longrightarrow> errno m' \<noteq> errno m \<Longrightarrow> pat (world m') < pat (world m)"
proof -
  obtain bs m1 where r: "fill_read P (fd f) m = Some (Some bs, m1)" "errno m1 = errno m \<or> try_again m1"
    "steady P (fd f) pat \<longrightarrow> pat (world m1) \<le> pat (world m) \<and> (errno m1 \<noteq> errno m \<longrightarrow> pat (world m1) < pat (world m))"
    using fill_read_errno [OF assms(1), of m] by blast
  have e: "map_ptr f' = map_ptr f \<and> (m' = m \<or> m' = m1)"
    using assms(2) r(1) by (auto simp: refill_def io61_fill_def cbuf_store_def split: if_splits option.splits)
  show "map_ptr f' = map_ptr f" "errno m' = errno m \<or> try_again m'" using e r(2) by auto
  show "pat (world m') < pat (world m)" if "steady P (fd f) pat" "errno m' \<noteq> errno m" using e r(3) that by auto
qed

lemma try_map_mapped: "map_ptr f \<noteq> NullMap \<Longrightarrow> try_map P f m = (f, m)"
  by (simp add: try_map_def)

lemma try_map_done: "try_map P f m = (f', m') \<Longrightarrow> map_ptr f' \<noteq> NullMap \<and> fd f' = fd f"
  by (auto simp: try_map_def Let_def split: prod.splits option.splits if_splits)

text \<open>A failed \<open>io61_readc\<close> that asks for another try.\<close>

lemma readc_patience:
  assumes "in_careful P \<alpha> pat \<gamma> f m" and "errno m = 0" and "io61_readc P f m = Some (-1, f', m')" and "try_again m'"
  shows "(left pat f' m', left pat f m) \<in> less_than <*lex*> less_than"
proof -
  have rf: "reads_file P (fd f) \<alpha> pat {} \<gamma>" and st: "steady P (fd f) pat"
    using assms(1) by (simp_all add: in_careful_def in_ok_def rinv_def)
  obtain f1 m1 where t: "try_map P f m = (f1, m1)" by fastforce
  note d = try_map_done [OF t]
  have nz: "errno m' \<noteq> errno m" using assms(2,4) by (auto simp: try_again_def errno_defs)
  show ?thesis
  proof (cases "map_ptr f1")
    case NullMap
    then show ?thesis using d by simp
  next
    case (Mapped a)
    have same: "map_ptr f = NullMap" if "m1 \<noteq> m" using t that try_map_mapped [of f P m] by (cases "map_ptr f = NullMap") auto
    have m: "map_ptr f' = Mapped a \<and> m' = m1"
      using assms(3) t Mapped by (auto simp: io61_readc_def Let_def bind_eq_Some_conv split: if_splits)
    then have "map_ptr f = NullMap" using same nz by auto
    then show ?thesis using m by (simp add: left_def)
  next
    case MapFailed
    obtain ok f2 m2 where rf2: "refill P f1 m1 = Some (ok, f2, m2)"
      using assms(3) t MapFailed by (auto simp: io61_readc_def Let_def bind_eq_Some_conv split: if_splits)
    have rf1: "reads_file P (fd f1) \<alpha> pat {} \<gamma>" "steady P (fd f1) pat" using rf st d by simp_all
    note e = refill_errno [OF rf1(1) rf2]
    have u: "uint (b :: u8) \<noteq> -1" for b by (metis uint_not_eof)
    have m: "map_ptr f' = map_ptr f2 \<and> m' = m2"
      using assms(3) t MapFailed rf2 u by (auto simp: io61_readc_def Let_def bind_eq_Some_conv split: if_splits)
    show ?thesis
    proof (cases "map_ptr f = NullMap")
      case True
      then show ?thesis using m e(1) MapFailed by (simp add: left_def)
    next
      case False
      then have "f1 = f \<and> m1 = m" using t try_map_mapped [OF False, of P m] by simp
      then show ?thesis using m e(1) e(3) [OF rf1(2)] nz MapFailed False by (simp add: left_def)
    qed
  qed
qed

interpretation careful: careful_pair "fast_api P" "in_careful P \<alpha> pat \<gamma>" "out_ok P \<gamma> pat' \<alpha>" "rabs \<alpha>" "wabs \<gamma>" "\<lambda>m. \<gamma> (world m)" "left pat"
  for P :: "'w posix" and \<alpha> \<gamma> :: "'w \<Rightarrow> afile" and pat pat' :: "'w \<Rightarrow> nat"
proof
  fix f :: io61_file and m :: "'w machine" and g :: io61_file and sz :: nat and c :: int and buf :: "u8 list"
  assume ic: "in_careful P \<alpha> pat \<gamma> f m" and o: "out_ok P \<gamma> pat' \<alpha> g m"
  have i: "in_ok P \<alpha> pat \<gamma> f m" and st: "steady P (fd f) pat" using ic by (simp_all add: in_careful_def)
  show "\<exists>c f' m'. a_readc (fast_api P) f m = Some (c, f', m') \<and> in_careful P \<alpha> pat \<gamma> f' m' \<and> out_ok P \<gamma> pat' \<alpha> g m'
      \<and> wabs \<gamma> g m' = wabs \<gamma> g m
      \<and> (if a_pos (rabs \<alpha> f m) < length (a_bytes (rabs \<alpha> f m))
         then c = uint (a_bytes (rabs \<alpha> f m) ! a_pos (rabs \<alpha> f m)) \<and> rabs \<alpha> f' m' = afile_skip 1 (rabs \<alpha> f m)
         else c = -1 \<and> rabs \<alpha> f' m' = rabs \<alpha> f m)"
    using api_readc [OF i o] st unfolding fast_api_def io61_api.simps in_careful_def by metis
  show "\<exists>r bs f' m'. a_read (fast_api P) f sz m = Some (r, bs, f', m') \<and> in_careful P \<alpha> pat \<gamma> f' m' \<and> out_ok P \<gamma> pat' \<alpha> g m'
      \<and> wabs \<gamma> g m' = wabs \<gamma> g m
      \<and> afile_get (length bs) (rabs \<alpha> f m) = bs \<and> rabs \<alpha> f' m' = afile_skip (length bs) (rabs \<alpha> f m) \<and> length bs \<le> sz
      \<and> (if bs = [] then r \<le> 0 \<and> length (a_bytes (rabs \<alpha> f m)) \<le> a_pos (rabs \<alpha> f m) else r = int (length bs))"
    if "0 < sz" "sz < 2 ^ 63"
    using api_read [OF i o that] st unfolding fast_api_def io61_api.simps in_careful_def by metis
  show "\<exists>g' m'. a_writec (fast_api P) g c m = Some (0, g', m') \<and> out_ok P \<gamma> pat' \<alpha> g' m' \<and> in_careful P \<alpha> pat \<gamma> f m'
      \<and> rabs \<alpha> f m' = rabs \<alpha> f m \<and> wabs \<gamma> g' m' = afile_put [of_int c] (wabs \<gamma> g m)"
    using api_put(1) [OF i o] st unfolding fast_api_def io61_api.simps in_careful_def by blast
  show "\<exists>g' m'. a_write (fast_api P) g buf m = Some (int (length buf), g', m') \<and> out_ok P \<gamma> pat' \<alpha> g' m'
      \<and> in_careful P \<alpha> pat \<gamma> f m' \<and> rabs \<alpha> f m' = rabs \<alpha> f m \<and> wabs \<gamma> g' m' = afile_put buf (wabs \<gamma> g m)"
    if "length buf < 2 ^ 63"
    using api_put(2) [OF i o that] st unfolding fast_api_def io61_api.simps in_careful_def by blast
  show "\<exists>g' m'. a_flush (fast_api P) g m = Some (0, g', m') \<and> out_ok P \<gamma> pat' \<alpha> g' m' \<and> in_careful P \<alpha> pat \<gamma> f m'
      \<and> rabs \<alpha> f m' = rabs \<alpha> f m \<and> wabs \<gamma> g' m' = wabs \<gamma> g m"
    using api_put(3) [OF i o] st unfolding fast_api_def io61_api.simps in_careful_def by blast
  show "\<exists>r m'. a_close (fast_api P) f m = Some (r, m') \<and> out_ok P \<gamma> pat' \<alpha> g m' \<and> wabs \<gamma> g m' = wabs \<gamma> g m"
    using api_close(1) [OF i o] unfolding fast_api_def io61_api.simps by blast
  show "(left pat f' m', left pat f m) \<in> less_than <*lex*> less_than"
    if "errno m = 0" "a_readc (fast_api P) f m = Some (-1, f', m')" "try_again m'" for f' m'
    using readc_patience [OF ic that(1) _ that(3)] that(2) unfolding fast_api_def io61_api.simps by blast
next
  fix m :: "'w machine" and g :: io61_file
  assume "out_ok P \<gamma> pat' \<alpha> g m"
  then show "\<exists>r m'. a_close (fast_api P) g m = Some (r, m') \<and> \<gamma> (world m') = wabs \<gamma> g m"
    using api_close_out unfolding fast_api_def io61_api.simps by blast
next
  fix f :: io61_file and m :: "'w machine" and e :: int
  assume "in_careful P \<alpha> pat \<gamma> f m"
  then show "in_careful P \<alpha> pat \<gamma> f (m\<lparr>errno := e\<rparr>) \<and> rabs \<alpha> f (m\<lparr>errno := e\<rparr>) = rabs \<alpha> f m \<and> left pat f (m\<lparr>errno := e\<rparr>) = left pat f m"
    using in_keep [of P \<alpha> pat \<gamma> f m "m\<lparr>errno := e\<rparr>"] by (simp add: in_careful_def left_def)
next
  fix g :: io61_file and m :: "'w machine" and e :: int
  assume "out_ok P \<gamma> pat' \<alpha> g m"
  then show "out_ok P \<gamma> pat' \<alpha> g (m\<lparr>errno := e\<rparr>) \<and> wabs \<gamma> g (m\<lparr>errno := e\<rparr>) = wabs \<gamma> g m"
    using out_keep [of P \<gamma> pat' \<alpha> g m "m\<lparr>errno := e\<rparr>"] by simp
qed

section \<open>Properties\<close>

text \<open>C37: \<open>carefulcat61\<close> linked with \<open>io61.cc\<close> copies its input (at most \<open>sz\<close> bytes of it) however often the
  calls on its files are interrupted, and it ends: the end of the input is not
  taken for an interruption for ever.\<close>

theorem carefulcat61_copies:
  assumes "two_files P d \<alpha> pat e \<gamma> pat'" and "steady P d pat" and "length (a_bytes (\<alpha> (world m))) < 2 ^ 63"
    and "a_pos (\<alpha> (world m)) \<le> length (a_bytes (\<alpha> (world m)))"
  shows "\<exists>f g m1 m2 m'. io61_fdopen P junk d O_RDONLY m = Some (f, m1) \<and> io61_fdopen P junk e O_WRONLY m1 = Some (g, m2)
    \<and> carefulcat61 (fast_api P) fl sz f g m2 = Some m'
    \<and> \<gamma> (world m') = afile_put (afile_get sz (\<alpha> (world m))) (\<gamma> (world m))"
proof -
  obtain f g m1 m2 where o: "io61_fdopen P junk d O_RDONLY m = Some (f, m1)" "io61_fdopen P junk e O_WRONLY m1 = Some (g, m2)"
    "in_seek_ok P \<alpha> pat \<gamma> f m2" "out_seek_ok P \<gamma> pat' \<alpha> g m2"
    and a: "rabs \<alpha> f m2 = \<alpha> (world m)" "wabs \<gamma> g m2 = \<gamma> (world m)"
    using open_two [OF assms(1,3,4)] by blast
  have "fd f = d" using o(1) by (auto simp: io61_fdopen_def Let_def bind_eq_Some_conv split: prod.splits option.splits if_splits)
  then have "in_careful P \<alpha> pat \<gamma> f m2" "out_ok P \<gamma> pat' \<alpha> g m2"
    using o(3,4) assms(2) by (simp_all add: in_careful_def in_seek_ok_def out_seek_ok_def)
  from careful.carefulcat61_ok [OF this, of fl sz] show ?thesis unfolding a using o(1,2) by blast
qed

lemma mem_os_steady: "steady (mem_os l) d (ms_glitch d)"
  by (auto simp: steady_def ms_defs mf_read_def split: nat.splits prod.splits)

lemma carefulcat61_copies_witness:
  "\<exists>f g m1 m2 m'. io61_fdopen (mem_os False) (\<lambda>i. 0) 3 O_RDONLY (demo_machine False [1, 2, 3, 4, 5]) = Some (f, m1)
    \<and> io61_fdopen (mem_os False) (\<lambda>i. 0) 4 O_WRONLY m1 = Some (g, m2)
    \<and> carefulcat61 (fast_api (mem_os False)) True 4 f g m2 = Some m'
    \<and> ms_afile 4 (world m') = \<lparr>a_pos = 4, a_bytes = [1, 2, 3, 4]\<rparr>"
proof -
  have a: "afile_put (afile_get 4 (ms_afile 3 (world (demo_machine False [1, 2, 3, 4, 5]))))
      (ms_afile 4 (world (demo_machine False [1, 2, 3, 4, 5]))) = \<lparr>a_pos = 4, a_bytes = [1, 2, 3, 4]\<rparr>"
    unfolding demo_afile by (simp add: afile_put_def afile_get_def overwrite_def)
  show ?thesis unfolding a [symmetric]
    by (rule carefulcat61_copies [OF mem_os_two_files mem_os_steady]) (simp_all add: demo_afile)
qed

text \<open>At the end of an input that is not mapped, \<open>io61_read\<close> reports an error if \<open>errno\<close> is left over from
  an interruption before, and leaves everything in the same condition.\<close>

definition stuck :: "'w posix \<Rightarrow> ('w \<Rightarrow> afile) \<Rightarrow> ('w \<Rightarrow> nat) \<Rightarrow> ('w \<Rightarrow> afile) \<Rightarrow> io61_file \<Rightarrow> 'w machine \<Rightarrow> bool" where
  "stuck P \<alpha> pat \<gamma> f m \<longleftrightarrow> rinv P \<alpha> pat {} \<gamma> f m \<and> map_ptr f = MapFailed \<and> try_again m
     \<and> a_pos (rabs \<alpha> f m) = length (a_bytes (rabs \<alpha> f m))"

lemma stuck_read:
  assumes "stuck P \<alpha> pat \<gamma> f m" and "0 < sz" and "sz < 2 ^ 63"
  shows "\<exists>f' m'. io61_read P f sz m = Some (-1, [], f', m') \<and> stuck P \<alpha> pat \<gamma> f' m' \<and> rabs \<alpha> f' m' = rabs \<alpha> f m"
proof -
  have s: "rinv P \<alpha> pat {} \<gamma> f m" "map_ptr f = MapFailed" "try_again m" "a_pos (rabs \<alpha> f m) = length (a_bytes (rabs \<alpha> f m))"
    using assms(1) by (simp_all add: stuck_def)
  obtain ok f1 m1 where r: "refill P f m = Some (ok, f1, m1)" "rinv P \<alpha> pat {} \<gamma> f1 m1" "map_ptr f1 = MapFailed"
    "rabs \<alpha> f1 m1 = rabs \<alpha> f m" "pos_tag f1 = pos_tag f"
    and ok: "if ok then pos_tag f1 < end_tag f1 else length (a_bytes (rabs \<alpha> f m)) \<le> a_pos (rabs \<alpha> f m) \<or> errno m1 \<in> {} \<and> 0 < errno m1"
    using refill_spec [OF s(1,2)] by blast
  have ta: "try_again m1" using refill_errno(2) [OF _ r(1)] s(1,3) by (auto simp: rinv_def try_again_def)
  have "\<not> ok"
  proof
    assume ok
    then have "pos_tag f1 < end_tag f1" using ok by simp
    moreover have "nat (end_tag f1 - tag f1) \<le> length (a_bytes (\<alpha> (world m1))) - nat (tag f1)" "0 \<le> tag f1" "tag f1 \<le> pos_tag f1"
    proof -
      have d: "0 \<le> tag f1 \<and> tag f1 \<le> pos_tag f1 \<and> map (cbuf f1) [0..<nat (end_tag f1 - tag f1)] =
          take (nat (end_tag f1 - tag f1)) (drop (nat (tag f1)) (a_bytes (\<alpha> (world m1))))"
        using r(2) [unfolded rinv_def Let_def r(3) mapping.case] by blast
      have "length (map (cbuf f1) [0..<nat (end_tag f1 - tag f1)]) =
          length (take (nat (end_tag f1 - tag f1)) (drop (nat (tag f1)) (a_bytes (\<alpha> (world m1)))))" using d by metis
      then show "nat (end_tag f1 - tag f1) \<le> length (a_bytes (\<alpha> (world m1))) - nat (tag f1)" by simp
      show "0 \<le> tag f1" "tag f1 \<le> pos_tag f1" using d by blast+
    qed
    ultimately have "nat (pos_tag f1) < length (a_bytes (\<alpha> (world m1)))" by linarith
    then show False using s(4) rabs_pos [OF r(2)] unfolding r(4) by simp
  qed
  then have "read_cache_loop P sz [] f m = Some ([], f1, m1)" using r(1) assms(2) by (subst read_cache_loop.simps) simp
  moreover have "io61_check_assertions f" by (rule rinv_check' [OF s(1)]) (use s(4) in simp)
  moreover have "errno m1 \<noteq> 0" using ta by (auto simp: try_again_def errno_defs)
  ultimately have "io61_read P f sz m = Some (-1, [], f1, m1)"
    using s(2) assms(2) by (simp add: io61_read_def io61_read_cache_def try_map_mapped)
  then show ?thesis using r(2-4) ta s(4) by (simp add: stuck_def)
qed

lemma retry_read_hangs:
  assumes "0 < sz" and "sz < 2 ^ 63"
  shows "stuck P \<alpha> pat \<gamma> f m \<Longrightarrow> retry_read (fast_api P) f sz m = None"
proof (rule ccontr)
  assume s: "stuck P \<alpha> pat \<gamma> f m" and "retry_read (fast_api P) f sz m \<noteq> None"
  then obtain y where y: "retry_read (fast_api P) f sz m = Some y" by blast
  have "A = fast_api P \<longrightarrow> n = sz \<longrightarrow> \<not> stuck P \<alpha> pat \<gamma> g l" if "retry_read A g n l = Some x" for A g n l x
  proof (rule retry_read.raw_induct [OF _ that, of "\<lambda>A g n l x. A = fast_api P \<longrightarrow> n = sz \<longrightarrow> \<not> stuck P \<alpha> pat \<gamma> g l"])
    fix rr :: "(io61_file, 'a machine) io61_api \<Rightarrow> io61_file \<Rightarrow> nat \<Rightarrow> 'a machine \<Rightarrow> (int \<times> u8 list \<times> io61_file \<times> 'a machine) option"
      and A g n l x
    assume ih: "\<And>A g n l x. rr A g n l = Some x \<Longrightarrow> A = fast_api P \<longrightarrow> n = sz \<longrightarrow> \<not> stuck P \<alpha> pat \<gamma> g l"
      and run: "(a_read A g n l \<bind> (\<lambda>(nr, buf, f, m). if nr = -1 \<and> try_again m then rr A f n m else Some (nr, buf, f, m))) = Some x"
    show "A = fast_api P \<longrightarrow> n = sz \<longrightarrow> \<not> stuck P \<alpha> pat \<gamma> g l"
    proof (intro impI notI)
      assume e: "A = fast_api P" "n = sz" and st: "stuck P \<alpha> pat \<gamma> g l"
      obtain f' m' where r: "io61_read P g sz l = Some (-1, [], f', m')" "stuck P \<alpha> pat \<gamma> f' m'" using stuck_read [OF st assms] by blast
      have "a_read A g n l = Some (-1, [], f', m')" using r(1) e by (simp add: fast_api_def)
      moreover have "try_again m'" using r(2) by (simp add: stuck_def)
      ultimately have "rr A f' n m' = Some x" using run by simp
      from ih [OF this] show False using r(2) e by blast
    qed
  qed
  from this [OF y] s show False by blast
qed

lemma rereads_retry: "rereads A sz n f m = Some (f', m') \<Longrightarrow> retry_read A f sz m = retry_read A f' sz m'"
proof (induction n arbitrary: f m)
  case (Suc n)
  obtain f1 m1 buf where r: "a_read A f sz m = Some (-1, buf, f1, m1)" "try_again m1" "rereads A sz n f1 m1 = Some (f', m')"
    using Suc.prems by (auto simp: bind_eq_Some_conv split: if_splits)
  have "retry_read A f sz m = retry_read A f1 sz m1" using r(1,2) by (subst retry_read.simps) simp
  then show ?case using Suc.IH [OF r(3)] by simp
qed simp

lemma stuck_rereads:
  assumes "0 < sz" and "sz < 2 ^ 63"
  shows "stuck P \<alpha> pat \<gamma> f m \<Longrightarrow> \<exists>f' m'. rereads (fast_api P) sz n f m = Some (f', m') \<and> rabs \<alpha> f' m' = rabs \<alpha> f m"
proof (induction n arbitrary: f m)
  case (Suc n)
  obtain f1 m1 where r: "io61_read P f sz m = Some (-1, [], f1, m1)" "stuck P \<alpha> pat \<gamma> f1 m1" "rabs \<alpha> f1 m1 = rabs \<alpha> f m"
    using stuck_read [OF Suc.prems assms] by blast
  have "try_again m1" "a_read (fast_api P) f sz m = Some (-1, [], f1, m1)" using r(1,2) by (simp_all add: stuck_def fast_api_def)
  then show ?case using Suc.IH [OF r(2)] r(3) by simp
qed simp

text \<open>C38: \<open>carefulblockcat61\<close> runs for ever if its input cannot be mapped (a pipe, for example), is at its end, and a read was
  interrupted before: the old \<open>errno\<close> makes \<open>io61_read\<close> report an error that asks for another try.
  For every number \<open>n\<close> the program makes \<open>n\<close> such calls, each of which returns -1, goes back to \<open>reread\<close> after each of
  them, and the input is where it was; what the program does from the start is what it does from there, so that there is no
  result. No assertion and no undefined behaviour is involved.
  (\<open>carefulcat61\<close> resets \<open>errno\<close>, and \<open>blockcat61\<close> ends at any error.)\<close>

theorem carefulblockcat61_hangs:
  assumes "stuck P \<alpha> pat \<gamma> f m" and "0 < bsz" and "bsz < 2 ^ 63"
  shows "(\<forall>n. \<exists>f' m'. rereads (fast_api P) bsz n f m = Some (f', m') \<and> rabs \<alpha> f' m' = rabs \<alpha> f m
        \<and> carefulblockcat61 (fast_api P) fl bsz f g m = carefulblockcat61 (fast_api P) fl bsz f' g m')
    \<and> carefulblockcat61 (fast_api P) fl bsz f g m = None"
proof -
  have c: "carefulblockcat61 A fl bsz f g m = carefulblockcat61 A fl bsz f' g m'" if "retry_read A f bsz m = retry_read A f' bsz m'" for A f' m'
    unfolding carefulblockcat61_def by (subst (1 2) carefulblockcat61_loop.simps) (simp add: that)
  have "carefulblockcat61 (fast_api P) fl bsz f g m = None"
    using retry_read_hangs [OF assms(2,3,1)] by (subst carefulblockcat61_def, subst carefulblockcat61_loop.simps) simp
  then show ?thesis using stuck_rereads [OF assms(2,3,1)] c [OF rereads_retry] by metis
qed

definition demo_interrupted :: "memsys machine" where
  "demo_interrupted = \<lparr>errno = EINTR, world = \<lparr>
     ms_file = (\<lambda>d. \<lparr>mf_bytes = [1, 2], mf_pos = 2, mf_chunk = 7, mf_glitch = 0, mf_room = 0, mf_mappable = False\<rparr>), ms_maps = []\<rparr>\<rparr>"

definition demo_input :: "int \<Rightarrow> io61_file" where
  "demo_input d = \<lparr>fd = d, mode = O_RDONLY, seekable = False, fsize = 2, cbuf = (\<lambda>i. 0), tag = 2, pos_tag = 2, end_tag = 2,
     map_ptr = MapFailed, is_seq = True, dirty = False, positioned = False, chunk_sz = 16, nlocked = (\<lambda>i. 0), owner = (\<lambda>i. 0)\<rparr>"

lemma carefulblockcat61_hangs_witness:
  "(\<exists>f' m'. rereads (fast_api (mem_os False)) 2 1000000 (demo_input 3) demo_interrupted = Some (f', m'))
    \<and> carefulblockcat61 (fast_api (mem_os False)) False 2 (demo_input 3) (demo_input 4) demo_interrupted = None"
proof -
  have "rinv (mem_os False) (ms_afile 3) (ms_glitch 3) {} (ms_afile 4) (demo_input 3) demo_interrupted"
    by (simp add: rinv_def demo_input_def demo_interrupted_def mem_os_reads mem_os_maps ms_frame_other ms_afile_def)
  then have "stuck (mem_os False) (ms_afile 3) (ms_glitch 3) (ms_afile 4) (demo_input 3) demo_interrupted"
    by (simp add: stuck_def demo_input_def demo_interrupted_def try_again_def rabs_def ms_afile_def afile_seek_def)
  note h = carefulblockcat61_hangs [OF this, of 2 False "demo_input 4", simplified]
  show ?thesis using spec [OF conjunct1 [OF h], of 1000000] conjunct2 [OF h] by (elim exE conjE) blast
qed

end
