(* ===== verification/SlowIo61.thy ===== *)
theory SlowIo61
  imports Io61Api
begin

text \<open>
  The two uncached implementations of the io61 interface: \<open>src/pset4/slow-io61.cc\<close>, one
  system call for each character, and \<open>src/pset4/syscall-io61.cc\<close>, one for each
  operation. The first satisfies the laws of \<open>io_pair\<close> too, on a system that does not
  interrupt calls (it does not retry), so that the programs copy the same bytes with it
  as with \<open>io61.cc\<close>.
\<close>

section \<open>slow-io61.cc\<close>

record slow_file =
  s_fd :: int
  s_mode :: int

definition slow_fdopen :: "int \<Rightarrow> int \<Rightarrow> slow_file option" where
  "slow_fdopen d md = do { assert_ok (0 \<le> d); Some \<lparr>s_fd = d, s_mode = md\<rparr> }"

definition slow_readc :: "'w posix \<Rightarrow> slow_file \<Rightarrow> 'w machine \<Rightarrow> (int \<times> slow_file \<times> 'w machine) option" where
  "slow_readc P f m = (case syscall (p_read P (s_fd f) 1) m of
     (Some bs, m) \<Rightarrow> if bs = [] then Some (-1, f, m\<lparr>errno := 0\<rparr>) else Some (uint (hd bs), f, m)
   | (None, m) \<Rightarrow> do { assert_ok (0 < errno m); Some (-1, f, m) })"

text \<open>The loop reads until \<open>k\<close> more bytes have come.\<close>

primrec slow_read_loop :: "'w posix \<Rightarrow> nat \<Rightarrow> u8 list \<Rightarrow> slow_file \<Rightarrow> 'w machine \<Rightarrow>
    (u8 list \<times> slow_file \<times> 'w machine) option" where
  "slow_read_loop P 0 buf f m = Some (buf, f, m)"
| "slow_read_loop P (Suc k) buf f m = do {
     (ch, f, m) \<leftarrow> slow_readc P f m;
     if ch = -1 then Some (buf, f, m) else slow_read_loop P k (buf @ [of_int ch]) f m }"

definition slow_read :: "'w posix \<Rightarrow> slow_file \<Rightarrow> nat \<Rightarrow> 'w machine \<Rightarrow>
    (int \<times> u8 list \<times> slow_file \<times> 'w machine) option" where
  "slow_read P f sz m = do {
     (buf, f, m) \<leftarrow> slow_read_loop P sz [] f m;
     Some (if length buf \<noteq> 0 \<or> sz = 0 \<or> errno m = 0 then int (length buf) else -1, buf, f, m) }"

definition slow_writec :: "'w posix \<Rightarrow> slow_file \<Rightarrow> int \<Rightarrow> 'w machine \<Rightarrow> (int \<times> slow_file \<times> 'w machine) option" where
  "slow_writec P f c m = (case syscall (p_write P (s_fd f) [of_int c]) m of
     (nw, m) \<Rightarrow> Some (if nw = Some 1 then 0 else -1, f, m))"

primrec slow_write_loop :: "'w posix \<Rightarrow> u8 list \<Rightarrow> nat \<Rightarrow> slow_file \<Rightarrow> 'w machine \<Rightarrow>
    (nat \<times> slow_file \<times> 'w machine) option" where
  "slow_write_loop P [] n f m = Some (n, f, m)"
| "slow_write_loop P (b # bs) n f m = do {
     (r, f, m) \<leftarrow> slow_writec P f (uint b) m;
     if r = -1 then Some (n, f, m) else slow_write_loop P bs (n + 1) f m }"

definition slow_write :: "'w posix \<Rightarrow> slow_file \<Rightarrow> u8 list \<Rightarrow> 'w machine \<Rightarrow> (int \<times> slow_file \<times> 'w machine) option" where
  "slow_write P f buf m = do {
     (n, f, m) \<leftarrow> slow_write_loop P buf 0 f m;
     Some (if n \<noteq> 0 \<or> buf = [] then int n else -1, f, m) }"

definition slow_flush :: "slow_file \<Rightarrow> 'w machine \<Rightarrow> (int \<times> slow_file \<times> 'w machine) option" where
  "slow_flush f m = Some (0, f, m)"

definition slow_seek :: "'w posix \<Rightarrow> slow_file \<Rightarrow> int \<Rightarrow> 'w machine \<Rightarrow> (int \<times> slow_file \<times> 'w machine) option" where
  "slow_seek P f off m = (case syscall (p_lseek P (s_fd f) off SEEK_SET) m of
     (None, m) \<Rightarrow> Some (-1, f, m)
   | (Some r, m) \<Rightarrow> Some (0, f, m))"

definition slow_close :: "'w posix \<Rightarrow> slow_file \<Rightarrow> 'w machine \<Rightarrow> (int \<times> 'w machine) option" where
  "slow_close P f m = do {
     (_, f, m) \<leftarrow> slow_flush f m;
     let (r, m) = syscall (p_close P (s_fd f)) m;
     Some (if r = None then -1 else 0, m) }"

definition slow_fileno :: "slow_file \<Rightarrow> int" where
  "slow_fileno f = s_fd f"

definition slow_filesize :: "'w posix \<Rightarrow> slow_file \<Rightarrow> 'w machine \<Rightarrow> int \<times> 'w machine" where
  "slow_filesize P f m = (case syscall (p_fstat P (s_fd f)) m of
     (Some (isreg, sz), m) \<Rightarrow> (if isreg then sz else -1, m)
   | (None, m) \<Rightarrow> (-1, m))"

definition slow_open_check :: "'w posix \<Rightarrow> string option \<Rightarrow> int \<Rightarrow> 'w machine \<Rightarrow> (slow_file \<times> 'w machine) option" where
  "slow_open_check P filename md m = do {
     let (r, m) = (case filename of
        Some name \<Rightarrow> syscall (p_open P name md) m
      | None \<Rightarrow> (Some (if md AND O_ACCMODE = O_RDONLY then 0 else 1), m));
     case r of
       None \<Rightarrow> None
     | Some d \<Rightarrow> do { f \<leftarrow> slow_fdopen d (md AND O_ACCMODE); Some (f, m) } }"

definition slow_api :: "'w posix \<Rightarrow> (slow_file, 'w machine) io61_api" where
  "slow_api P = \<lparr>a_readc = slow_readc P, a_read = slow_read P, a_writec = slow_writec P,
     a_write = slow_write P, a_seek = slow_seek P, a_flush = slow_flush, a_close = slow_close P,
     a_filesize = slow_filesize P\<rparr>"

section \<open>syscall-io61.cc\<close>

text \<open>It differs from \<open>slow-io61.cc\<close> in the two functions that move many bytes.\<close>

definition sys_read :: "'w posix \<Rightarrow> slow_file \<Rightarrow> nat \<Rightarrow> 'w machine \<Rightarrow>
    (int \<times> u8 list \<times> slow_file \<times> 'w machine) option" where
  "sys_read P f sz m = (case syscall (p_read P (s_fd f) sz) m of
     (None, m) \<Rightarrow> Some (-1, [], f, m)
   | (Some bs, m) \<Rightarrow> Some (int (length bs), bs, f, m))"

definition sys_write :: "'w posix \<Rightarrow> slow_file \<Rightarrow> u8 list \<Rightarrow> 'w machine \<Rightarrow> (int \<times> slow_file \<times> 'w machine) option" where
  "sys_write P f buf m = (case syscall (p_write P (s_fd f) buf) m of
     (None, m) \<Rightarrow> Some (-1, f, m)
   | (Some n, m) \<Rightarrow> Some (int n, f, m))"

definition syscall_api :: "'w posix \<Rightarrow> (slow_file, 'w machine) io61_api" where
  "syscall_api P = (slow_api P)\<lparr>a_read := sys_read P, a_write := sys_write P\<rparr>"

section \<open>slow-io61.cc satisfies the laws\<close>

text \<open>No call is interrupted: the measure of the interruptions left is 0.\<close>

abbreviation calm :: "'w \<Rightarrow> nat" where "calm \<equiv> (\<lambda>w. 0)"

definition slow_in :: "'w posix \<Rightarrow> ('w \<Rightarrow> afile) \<Rightarrow> ('w \<Rightarrow> afile) \<Rightarrow> slow_file \<Rightarrow> 'w machine \<Rightarrow> bool" where
  "slow_in P \<alpha> \<gamma> f m \<longleftrightarrow> reads_file P (s_fd f) \<alpha> calm {} \<gamma> \<and> closes_file P (s_fd f) \<gamma>"

definition slow_out :: "'w posix \<Rightarrow> ('w \<Rightarrow> afile) \<Rightarrow> ('w \<Rightarrow> afile) \<Rightarrow> slow_file \<Rightarrow> 'w machine \<Rightarrow> bool" where
  "slow_out P \<gamma> \<alpha> g m \<longleftrightarrow> writes_file P (s_fd g) \<gamma> calm {} \<alpha> \<and> closes_file P (s_fd g) (\<lambda>w. (\<gamma> w, \<alpha> w))"

definition sabs :: "('w \<Rightarrow> afile) \<Rightarrow> slow_file \<Rightarrow> 'w machine \<Rightarrow> afile" where
  "sabs \<alpha> f m = \<alpha> (world m)"

lemma slow_readc_spec:
  assumes "reads_file P (s_fd f) \<alpha> calm {} \<gamma>"
  shows "\<exists>c m'. slow_readc P f m = Some (c, f, m') \<and> \<gamma> (world m') = \<gamma> (world m)
    \<and> (let a = \<alpha> (world m) in if a_pos a < length (a_bytes a)
       then c = uint (a_bytes a ! a_pos a) \<and> \<alpha> (world m') = afile_skip 1 a
       else c = -1 \<and> \<alpha> (world m') = a \<and> errno m' = 0)"
proof -
  obtain x w' where x: "p_read P (s_fd f) 1 (world m) = (x, w')" by fastforce
  note law = reads_fileD [OF assms _ x, simplified]
  let ?a = "\<alpha> (world m)"
  obtain bs where bs: "x = Inr bs" using law(3) by (cases x) auto
  have l: "length bs \<le> 1" "afile_get (length bs) ?a = bs" "bs = [] \<longrightarrow> length (a_bytes ?a) \<le> a_pos ?a"
    "\<alpha> w' = afile_skip (length bs) ?a" using law(2) [OF bs] by simp_all
  show ?thesis
  proof (cases bs)
    case Nil
    then show ?thesis using l keeps_same [OF law(1)] x bs by (simp add: slow_readc_def syscall_def Let_def)
  next
    case (Cons b bs')
    then have b1: "bs = [b]" using l(1) by simp
    then have g: "take 1 (drop (a_pos ?a) (a_bytes ?a)) = [b]" using l(2) by (simp add: afile_get_def)
    then have lt: "a_pos ?a < length (a_bytes ?a)" by (metis drop_eq_Nil list.distinct(1) not_le take_Nil)
    then have "b = a_bytes ?a ! a_pos ?a" using g by (simp add: take_Suc_conv_app_nth)
    then show ?thesis using l(4) keeps_same [OF law(1)] x bs b1 lt by (simp add: slow_readc_def syscall_def Let_def)
  qed
qed

lemma slow_read_loop_spec:
  assumes "reads_file P (s_fd f) \<alpha> calm {} \<gamma>"
  shows "\<exists>m'. slow_read_loop P k buf f m = Some (buf @ afile_get k (\<alpha> (world m)), f, m')
    \<and> \<gamma> (world m') = \<gamma> (world m) \<and> \<alpha> (world m') = afile_skip (length (afile_get k (\<alpha> (world m)))) (\<alpha> (world m))
    \<and> (length (afile_get k (\<alpha> (world m))) < k \<longrightarrow> errno m' = 0)"
proof (induction k arbitrary: buf m)
  case 0
  then show ?case by (simp add: afile_get_def)
next
  case (Suc k)
  let ?a = "\<alpha> (world m)"
  obtain c m1 where r: "slow_readc P f m = Some (c, f, m1)" "\<gamma> (world m1) = \<gamma> (world m)"
    "let a = \<alpha> (world m) in if a_pos a < length (a_bytes a)
       then c = uint (a_bytes a ! a_pos a) \<and> \<alpha> (world m1) = afile_skip 1 a
       else c = -1 \<and> \<alpha> (world m1) = a \<and> errno m1 = 0"
    using slow_readc_spec [OF assms] by blast
  show ?case
  proof (cases "a_pos ?a < length (a_bytes ?a)")
    case False
    then show ?thesis using r by (simp add: Let_def afile_get_def)
  next
    case True
    then have c: "c = uint (a_bytes ?a ! a_pos ?a)" "\<alpha> (world m1) = afile_skip 1 ?a" using r(3) by (simp_all add: Let_def)
    have get: "afile_get (Suc k) ?a = (of_int c :: u8) # afile_get k (afile_skip 1 ?a)"
      using True c(1) by (simp add: afile_get_def afile_skip_def Cons_nth_drop_Suc [symmetric])
    have "slow_read_loop P (Suc k) buf f m = slow_read_loop P k (buf @ [of_int c]) f m1"
      using r(1) c(1) uint_not_eof by simp
    then show ?thesis using Suc.IH [of "buf @ [of_int c]" m1] r(2) unfolding get c(2) by (auto simp: afile_skip_def)
  qed
qed

lemma slow_writec_spec:
  assumes "writes_file P (s_fd g) \<gamma> calm {} \<alpha>"
  shows "\<exists>m'. slow_writec P g c m = Some (0, g, m') \<and> keeps P \<alpha> (world m) (world m')
    \<and> \<gamma> (world m') = afile_put [of_int c] (\<gamma> (world m))"
proof -
  obtain x w' where x: "p_write P (s_fd g) [of_int c] (world m) = (x, w')" by fastforce
  note law = writes_fileD [OF assms _ x, simplified]
  obtain n where n: "x = Inr n" using law(3) by (cases x) auto
  have "n = 1" using law(2) [OF n] by auto
  then show ?thesis using law(1) law(2) [OF n] x n by (simp add: slow_writec_def syscall_def)
qed

lemma slow_write_loop_spec:
  assumes "writes_file P (s_fd g) \<gamma> calm {} \<alpha>"
  shows "\<exists>m'. slow_write_loop P buf n g m = Some (n + length buf, g, m') \<and> keeps P \<alpha> (world m) (world m')
    \<and> \<gamma> (world m') = afile_put buf (\<gamma> (world m))"
proof (induction buf arbitrary: n m)
  case (Cons b bs)
  obtain m1 where w: "slow_writec P g (uint b) m = Some (0, g, m1)" "keeps P \<alpha> (world m) (world m1)"
    "\<gamma> (world m1) = afile_put [b] (\<gamma> (world m))" using slow_writec_spec [OF assms, of "uint b" m] by auto
  obtain m' where l: "slow_write_loop P bs (n + 1) g m1 = Some (n + 1 + length bs, g, m')" "keeps P \<alpha> (world m1) (world m')"
    "\<gamma> (world m') = afile_put bs (\<gamma> (world m1))" using Cons.IH by blast
  have "\<gamma> (world m') = afile_put (b # bs) (\<gamma> (world m))"
    unfolding l(3) w(3) by (simp add: afile_put_append [symmetric])
  then show ?case using w(1) l(1) keeps_trans [OF w(2) l(2)] by simp
qed simp

lemma slow_close_spec:
  assumes "closes_file P (s_fd f) \<beta>"
  shows "\<exists>r m'. slow_close P f m = Some (r, m') \<and> \<beta> (world m') = \<beta> (world m)"
proof -
  obtain x w' where x: "p_close P (s_fd f) (world m) = (x, w')" by fastforce
  have "\<beta> w' = \<beta> (world m)" using assms x unfolding closes_file_def by (metis snd_conv)
  then show ?thesis using x by (cases x) (simp_all add: slow_close_def slow_flush_def syscall_def)
qed

lemma afile_get_pos: "a_pos a \<le> length (a_bytes a) \<Longrightarrow> a_pos a + length (afile_get n a) \<le> length (a_bytes a)"
  by (simp add: afile_get_def)

interpretation slow: io_pair "slow_api P" "slow_in P \<alpha> \<gamma>" "slow_out P \<gamma> \<alpha>" "sabs \<alpha>" "sabs \<gamma>" "\<lambda>m. \<gamma> (world m)"
  for P :: "'w posix" and \<alpha> \<gamma> :: "'w \<Rightarrow> afile"
proof
  fix f g :: slow_file and m :: "'w machine" and sz :: nat and c :: int and buf :: "u8 list"
  assume i: "slow_in P \<alpha> \<gamma> f m" and o: "slow_out P \<gamma> \<alpha> g m"
  have rd: "reads_file P (s_fd f) \<alpha> calm {} \<gamma>" and cl: "closes_file P (s_fd f) \<gamma>"
    and wr: "writes_file P (s_fd g) \<gamma> calm {} \<alpha>" using i o by (simp_all add: slow_in_def slow_out_def)
  have any: "slow_in P \<alpha> \<gamma> f m'" "slow_out P \<gamma> \<alpha> g m'" for m' using i o by (simp_all add: slow_in_def slow_out_def)
  show "\<exists>c f' m'. a_readc (slow_api P) f m = Some (c, f', m') \<and> slow_in P \<alpha> \<gamma> f' m' \<and> slow_out P \<gamma> \<alpha> g m'
      \<and> sabs \<gamma> g m' = sabs \<gamma> g m
      \<and> (if a_pos (sabs \<alpha> f m) < length (a_bytes (sabs \<alpha> f m))
         then c = uint (a_bytes (sabs \<alpha> f m) ! a_pos (sabs \<alpha> f m)) \<and> sabs \<alpha> f' m' = afile_skip 1 (sabs \<alpha> f m)
         else c = -1 \<and> sabs \<alpha> f' m' = sabs \<alpha> f m)"
    using slow_readc_spec [OF rd, of m] any unfolding slow_api_def io61_api.simps sabs_def Let_def by metis
  show "\<exists>r bs f' m'. a_read (slow_api P) f sz m = Some (r, bs, f', m') \<and> slow_in P \<alpha> \<gamma> f' m' \<and> slow_out P \<gamma> \<alpha> g m'
      \<and> sabs \<gamma> g m' = sabs \<gamma> g m
      \<and> afile_get (length bs) (sabs \<alpha> f m) = bs \<and> sabs \<alpha> f' m' = afile_skip (length bs) (sabs \<alpha> f m) \<and> length bs \<le> sz
      \<and> (if bs = [] then r \<le> 0 \<and> length (a_bytes (sabs \<alpha> f m)) \<le> a_pos (sabs \<alpha> f m) else r = int (length bs))"
    if "0 < sz" "sz < 2 ^ 63"
  proof -
    let ?bs = "afile_get sz (\<alpha> (world m))"
    obtain m' where l: "slow_read_loop P sz [] f m = Some (?bs, f, m')" "\<gamma> (world m') = \<gamma> (world m)"
      "\<alpha> (world m') = afile_skip (length ?bs) (\<alpha> (world m))" "length ?bs < sz \<longrightarrow> errno m' = 0"
      using slow_read_loop_spec [OF rd, of sz "[]" m] by auto
    have run: "slow_read P f sz m = Some (int (length ?bs), ?bs, f, m')"
      using l(1,4) that(1) by (cases "?bs = []") (simp_all add: slow_read_def)
    have "afile_get (length ?bs) (\<alpha> (world m)) = ?bs" by (simp add: afile_get_def min_def)
    moreover have "?bs = [] \<longrightarrow> length (a_bytes (\<alpha> (world m))) \<le> a_pos (\<alpha> (world m))"
      using that(1) by (auto simp: afile_get_def)
    moreover have "length ?bs \<le> sz" by (simp add: afile_get_def)
    ultimately show ?thesis using run l(2,3) any unfolding slow_api_def io61_api.simps sabs_def by auto
  qed
  show "\<exists>g' m'. a_writec (slow_api P) g c m = Some (0, g', m') \<and> slow_out P \<gamma> \<alpha> g' m' \<and> slow_in P \<alpha> \<gamma> f m'
      \<and> sabs \<alpha> f m' = sabs \<alpha> f m \<and> sabs \<gamma> g' m' = afile_put [of_int c] (sabs \<gamma> g m)"
    using slow_writec_spec [OF wr, of c m] any keeps_same unfolding slow_api_def io61_api.simps sabs_def by metis
  show "\<exists>g' m'. a_write (slow_api P) g buf m = Some (int (length buf), g', m') \<and> slow_out P \<gamma> \<alpha> g' m'
      \<and> slow_in P \<alpha> \<gamma> f m' \<and> sabs \<alpha> f m' = sabs \<alpha> f m \<and> sabs \<gamma> g' m' = afile_put buf (sabs \<gamma> g m)"
    if "length buf < 2 ^ 63"
  proof -
    obtain m' where l: "slow_write_loop P buf 0 g m = Some (length buf, g, m')" "keeps P \<alpha> (world m) (world m')"
      "\<gamma> (world m') = afile_put buf (\<gamma> (world m))" using slow_write_loop_spec [OF wr, of buf 0 m] by auto
    have "slow_write P g buf m = Some (int (length buf), g, m')" using l(1) by (simp add: slow_write_def)
    then show ?thesis using l(3) any keeps_same [OF l(2)] unfolding slow_api_def io61_api.simps sabs_def by blast
  qed
  show "\<exists>g' m'. a_flush (slow_api P) g m = Some (0, g', m') \<and> slow_out P \<gamma> \<alpha> g' m' \<and> slow_in P \<alpha> \<gamma> f m'
      \<and> sabs \<alpha> f m' = sabs \<alpha> f m \<and> sabs \<gamma> g' m' = sabs \<gamma> g m"
    using i o by (simp add: slow_api_def slow_flush_def)
  show "\<exists>r m'. a_close (slow_api P) f m = Some (r, m') \<and> slow_out P \<gamma> \<alpha> g m' \<and> sabs \<gamma> g m' = sabs \<gamma> g m"
    using slow_close_spec [OF cl, of m] any unfolding slow_api_def io61_api.simps sabs_def by metis
next
  fix m :: "'w machine" and g :: slow_file
  assume "slow_out P \<gamma> \<alpha> g m"
  then have "closes_file P (s_fd g) (\<lambda>w. (\<gamma> w, \<alpha> w))" by (simp add: slow_out_def)
  from slow_close_spec [OF this, of m]
  show "\<exists>r m'. a_close (slow_api P) g m = Some (r, m') \<and> \<gamma> (world m') = sabs \<gamma> g m"
    unfolding slow_api_def io61_api.simps sabs_def by auto
qed

section \<open>Properties\<close>

text \<open>C24: the cached library agrees with the reference implementation: \<open>cat61\<close> linked with
  \<open>io61.cc\<close> and linked with \<open>slow-io61.cc\<close>, started in the same machine with files at the
  same offsets, both end and leave the same output file.\<close>

theorem cat61_fast_slow_agree:
  assumes "in_ok P \<alpha> pat \<gamma> f m" and "out_ok P \<gamma> pat' \<alpha> g m"
    and "slow_in P \<alpha> \<gamma> sf m" and "slow_out P \<gamma> \<alpha> sg m"
    and "rabs \<alpha> f m = \<alpha> (world m)" and "wabs \<gamma> g m = \<gamma> (world m)"
  shows "\<exists>m1 m2. cat61 (fast_api P) fl sz f g m = Some m1 \<and> cat61 (slow_api P) fl sz sf sg m = Some m2
    \<and> \<gamma> (world m1) = \<gamma> (world m2) \<and> \<gamma> (world m1) = afile_put (afile_get sz (\<alpha> (world m))) (\<gamma> (world m))"
proof -
  obtain m1 where "cat61 (fast_api P) fl sz f g m = Some m1"
    "\<gamma> (world m1) = afile_put (afile_get sz (\<alpha> (world m))) (\<gamma> (world m))"
    using fast.cat61_ok [OF assms(1,2), of fl sz] unfolding assms(5,6) by blast
  moreover obtain m2 where "cat61 (slow_api P) fl sz sf sg m = Some m2"
    "\<gamma> (world m2) = afile_put (afile_get sz (\<alpha> (world m))) (\<gamma> (world m))"
    using slow.cat61_ok [OF assms(3,4), of fl sz] unfolding sabs_def by blast
  ultimately show ?thesis by auto
qed

text \<open>The system in memory without interruptions.\<close>

definition calm_os :: "memsys posix" where
  "calm_os = (mem_os False)\<lparr>p_read := (\<lambda>fd n. on_file fd (\<lambda>w. mf_read n (w\<lparr>mf_glitch := 0\<rparr>))),
     p_write := (\<lambda>fd bs. on_file fd (\<lambda>w. mf_write False bs (w\<lparr>mf_glitch := 0\<rparr>)))\<rparr>"

lemma calm_reads: "ms_frame d \<beta> \<Longrightarrow> reads_file calm_os d (ms_afile d) calm {} \<beta>"
  by (auto simp: reads_file_def calm_os_def ms_defs mf_read_def afile_get_def afile_skip_def min_def)

lemma calm_writes: "ms_frame d \<beta> \<Longrightarrow> writes_file calm_os d (ms_afile d) calm {} \<beta>"
  by (auto simp: writes_file_def calm_os_def ms_defs mf_write_def afile_put_def min_def)

lemma calm_maps: "ms_frame d \<beta> \<Longrightarrow> maps_file calm_os d (ms_afile d) \<beta>"
  by (auto simp: maps_file_def calm_os_def ms_defs ms_mmap_def ms_peek_append
        intro: ms_peek_new [simplified] split: if_splits)

lemma calm_two_files: "two_files calm_os 3 (ms_afile 3) calm 4 (ms_afile 4) calm"
proof -
  have st: "ms_frame d \<beta> \<Longrightarrow> stats_file calm_os d (ms_afile d) \<beta>"
    and sk: "ms_frame d \<beta> \<Longrightarrow> seeks_file calm_os d (ms_afile d) \<beta>" for d and \<beta> :: "memsys \<Rightarrow> afile"
    by (auto simp: stats_file_def seeks_file_def calm_os_def ms_defs afile_seek_def)
  have c1: "closes_file calm_os 3 (ms_afile 4)" "closes_file calm_os 4 (\<lambda>w. (ms_afile 4 w, ms_afile 3 w))"
    and rg: "regular_file calm_os 3 (ms_afile 3)"
    by (auto simp: closes_file_def regular_file_def calm_os_def ms_defs)
  show ?thesis unfolding two_files_def
    by (simp add: c1 rg calm_reads calm_writes calm_maps st sk ms_frame_other)
qed

lemma cat61_fast_slow_agree_witness:
  "\<exists>f g m sf sg m1 m2. cat61 (fast_api calm_os) False 3 f g m = Some m1 \<and> cat61 (slow_api calm_os) False 3 sf sg m = Some m2
    \<and> ms_afile 4 (world m1) = \<lparr>a_pos = 3, a_bytes = [1, 2, 3]\<rparr> \<and> ms_afile 4 (world m2) = \<lparr>a_pos = 3, a_bytes = [1, 2, 3]\<rparr>"
proof -
  let ?M = "demo_machine True [1, 2, 3, 4, 5]"
  obtain f g m1 m where o: "in_seek_ok calm_os (ms_afile 3) calm (ms_afile 4) f m"
    "out_seek_ok calm_os (ms_afile 4) calm (ms_afile 3) g m"
    and r: "rabs (ms_afile 3) f m = ms_afile 3 (world ?M)" "wabs (ms_afile 4) g m = ms_afile 4 (world ?M)"
    and f: "io61_fdopen calm_os (\<lambda>i. 0) 3 O_RDONLY ?M = Some (f, m1)" "io61_fdopen calm_os (\<lambda>i. 0) 4 O_WRONLY m1 = Some (g, m)"
    using open_two [OF calm_two_files, of ?M "\<lambda>i. 0"] unfolding demo_afile by auto
  have w: "ms_afile 3 (world m) = ms_afile 3 (world ?M)" "ms_afile 4 (world m) = ms_afile 4 (world ?M)"
    using f by (auto simp: io61_fdopen_def io61_filesize_def syscall_def calm_os_def mem_os_def on_file_def Let_def
        ms_afile_def O_RDONLY_def O_WRONLY_def O_APPEND_def)
  have i: "in_ok calm_os (ms_afile 3) calm (ms_afile 4) f m" "out_ok calm_os (ms_afile 4) calm (ms_afile 3) g m"
    using o by (simp_all add: in_seek_ok_def out_seek_ok_def)
  have s: "slow_in calm_os (ms_afile 3) (ms_afile 4) \<lparr>s_fd = 3, s_mode = 0\<rparr> m"
    "slow_out calm_os (ms_afile 4) (ms_afile 3) \<lparr>s_fd = 4, s_mode = 1\<rparr> m"
    using calm_two_files by (simp_all add: slow_in_def slow_out_def two_files_def)
  have p: "afile_put (afile_get 3 (ms_afile 3 (world m))) (ms_afile 4 (world m)) = \<lparr>a_pos = 3, a_bytes = [1, 2, 3]\<rparr>"
    unfolding w demo_afile by (simp add: afile_put_def afile_get_def overwrite_def)
  have rr: "rabs (ms_afile 3) f m = ms_afile 3 (world m)" "wabs (ms_afile 4) g m = ms_afile 4 (world m)"
    using r w by simp_all
  obtain m1 m2 where "cat61 (fast_api calm_os) False 3 f g m = Some m1"
    "cat61 (slow_api calm_os) False 3 \<lparr>s_fd = 3, s_mode = 0\<rparr> \<lparr>s_fd = 4, s_mode = 1\<rparr> m = Some m2"
    "ms_afile 4 (world m1) = ms_afile 4 (world m2)" "ms_afile 4 (world m1) = \<lparr>a_pos = 3, a_bytes = [1, 2, 3]\<rparr>"
    using cat61_fast_slow_agree [OF i s rr, of False 3] unfolding p by blast
  then show ?thesis by (metis (no_types))
qed

end
