(* ===== verification/Filelock.thy ===== *)
theory Filelock
  imports Io61 "HOL-Library.Multiset"
begin

text \<open>
  The file locks of \<open>src/pset6/io61.cc\<close>: the file is divided into chunks, and a
  lock on a range of bytes is a count and an owner on every chunk it touches. Each function
  runs with the mutex \<open>f->m\<close> held. A thread whose \<open>io61_lock\<close> finds a conflict goes to
  sleep in \<open>cv.wait\<close>; the model returns to say so, and runs the function again when the
  thread is woken. The ghost multiset of the ranges held, with \<open>lock_inv\<close>, explains the
  counts when threads unlock what they locked (the transfer threads do); \<open>lock_history\<close> takes any calls and counts
  the locks of each thread on each chunk.
\<close>

section \<open>The functions\<close>

definition LOCK_SH :: int where "LOCK_SH = 1"
definition LOCK_EX :: int where "LOCK_EX = 2"

text \<open>The indexes of \<open>for (i = start / chunk_sz; i * chunk_sz < start + len; i++)\<close>.\<close>

definition chunks :: "io61_file \<Rightarrow> int \<Rightarrow> int \<Rightarrow> nat list" where
  "chunks f start len = [nat (start div chunk_sz f) ..< nat ((start + len + chunk_sz f - 1) div chunk_sz f)]"

fun is_overlap_at :: "io61_file \<Rightarrow> nat \<Rightarrow> nat list \<Rightarrow> bool option" where
  "is_overlap_at f tid [] = Some False"
| "is_overlap_at f tid (i # is) = (if nchunks \<le> i then None
     else if nlocked f i \<noteq> 0 \<and> owner f i \<noteq> tid then Some True else is_overlap_at f tid is)"

definition is_overlap :: "io61_file \<Rightarrow> nat \<Rightarrow> int \<Rightarrow> int \<Rightarrow> bool option" where
  "is_overlap f tid start len = is_overlap_at f tid (chunks f start len)"

definition take_chunk :: "nat \<Rightarrow> nat \<Rightarrow> io61_file \<Rightarrow> io61_file" where
  "take_chunk tid i f = f\<lparr>nlocked := (nlocked f)(i := nlocked f i + 1), owner := (owner f)(i := tid)\<rparr>"

text \<open>The count is an \<open>int\<close>, which must not overflow.\<close>

abbreviation INT_MAX :: int where "INT_MAX \<equiv> 2 ^ 31 - 1"

fun lock_region_at :: "io61_file \<Rightarrow> nat \<Rightarrow> nat list \<Rightarrow> io61_file option" where
  "lock_region_at f tid [] = Some f"
| "lock_region_at f tid (i # is) = (if nchunks \<le> i \<or> INT_MAX \<le> nlocked f i then None else do {
     assert_ok (nlocked f i = 0 \<or> owner f i = tid);
     lock_region_at (take_chunk tid i f) tid is })"

definition lock_region :: "io61_file \<Rightarrow> nat \<Rightarrow> int \<Rightarrow> int \<Rightarrow> io61_file option" where
  "lock_region f tid start len = lock_region_at f tid (chunks f start len)"

definition io61_try_lock :: "io61_file \<Rightarrow> nat \<Rightarrow> int \<Rightarrow> int \<Rightarrow> int \<Rightarrow> (int \<times> io61_file) option" where
  "io61_try_lock f tid start len locktype = do {
     assert_ok (0 \<le> start \<and> 0 \<le> len);
     assert_ok (locktype = LOCK_EX \<or> locktype = LOCK_SH);
     if len = 0 then Some (0, f) else do {
       b \<leftarrow> is_overlap f tid start len;
       if b then Some (-1, f) else do {
         f \<leftarrow> lock_region f tid start len;
         Some (0, f) } } }"

text \<open>\<open>None\<close> in the place of the result: the thread sleeps on the condition variable.\<close>

definition io61_lock :: "io61_file \<Rightarrow> nat \<Rightarrow> int \<Rightarrow> int \<Rightarrow> int \<Rightarrow> (int option \<times> io61_file) option" where
  "io61_lock f tid start len locktype = do {
     assert_ok (0 \<le> start \<and> 0 \<le> len);
     assert_ok (locktype = LOCK_EX \<or> locktype = LOCK_SH);
     if len = 0 then Some (Some 0, f) else do {
       b \<leftarrow> is_overlap f tid start len;
       if b then Some (None, f) else do {
         f \<leftarrow> lock_region f tid start len;
         Some (Some 0, f) } } }"

definition drop_chunk :: "nat \<Rightarrow> io61_file \<Rightarrow> io61_file" where
  "drop_chunk i f = f\<lparr>nlocked := (nlocked f)(i := nlocked f i - 1)\<rparr>"

fun unlock_region_at :: "io61_file \<Rightarrow> nat \<Rightarrow> nat list \<Rightarrow> io61_file option" where
  "unlock_region_at f tid [] = Some f"
| "unlock_region_at f tid (i # is) = (if nchunks \<le> i then None else do {
     assert_ok (nlocked f i \<noteq> 0 \<and> owner f i = tid);
     unlock_region_at (drop_chunk i f) tid is })"

text \<open>\<open>io61_unlock\<close> ends with \<open>notify_all\<close>: every sleeping thread runs again.\<close>

definition io61_unlock :: "io61_file \<Rightarrow> nat \<Rightarrow> int \<Rightarrow> int \<Rightarrow> (int \<times> io61_file) option" where
  "io61_unlock f tid start len = do {
     assert_ok (0 \<le> start \<and> 0 \<le> len);
     if len = 0 then Some (0, f) else do {
       f \<leftarrow> unlock_region_at f tid (chunks f start len);
       Some (0, f) } }"

section \<open>Chunks\<close>

lemma chunks_iff:
  assumes "0 < chunk_sz f" and "0 \<le> start"
  shows "i \<in> set (chunks f start len) \<longleftrightarrow> nat (start div chunk_sz f) \<le> i \<and> int i * chunk_sz f < start + len"
proof -
  let ?c = "chunk_sz f" and ?e = "start + len"
  have "int i < (?e + ?c - 1) div ?c \<longleftrightarrow> int i * ?c < ?e"
  proof
    assume "int i < (?e + ?c - 1) div ?c"
    then have "int i + 1 \<le> (?e + ?c - 1) div ?c" by simp
    then have "(int i + 1) * ?c \<le> (?e + ?c - 1) div ?c * ?c" using assms(1) by (intro mult_right_mono) simp_all
    also have "\<dots> \<le> ?e + ?c - 1"
      using assms(1) by (metis div_mult_mod_eq le_add_same_cancel1 pos_mod_sign)
    finally have "(int i + 1) * ?c \<le> ?e + ?c - 1" .
    then show "int i * ?c < ?e" by (simp add: algebra_simps)
  next
    assume "int i * ?c < ?e"
    then have "(int i + 1) * ?c \<le> ?e + ?c - 1" by (simp add: algebra_simps)
    then have "int i + 1 \<le> (?e + ?c - 1) div ?c" using assms(1) by (metis nonzero_mult_div_cancel_right zdiv_mono1 less_irrefl)
    then show "int i < (?e + ?c - 1) div ?c" by simp
  qed
  then show ?thesis by (auto simp: chunks_def zless_nat_conj zless_nat_eq_int_zless)
qed

lemma chunks_distinct: "distinct (chunks f start len)"
  by (simp add: chunks_def)

text \<open>Byte \<open>p\<close> of a range lies in the chunk \<open>p div chunk_sz\<close>.\<close>

lemma chunk_of_byte:
  assumes "0 < chunk_sz f" and "0 \<le> start" and "start \<le> p" and "p < start + len"
  shows "nat (p div chunk_sz f) \<in> set (chunks f start len)"
proof -
  have "0 \<le> p div chunk_sz f" using assms by (intro pos_imp_zdiv_nonneg_iff [THEN iffD2]) simp_all
  moreover have "start div chunk_sz f \<le> p div chunk_sz f" using assms by (intro zdiv_mono1) simp_all
  moreover have "p div chunk_sz f * chunk_sz f \<le> p"
    using assms(1) by (metis div_mult_mod_eq le_add_same_cancel1 pos_mod_sign)
  ultimately show ?thesis using assms unfolding chunks_iff [OF assms(1,2)] by simp
qed

definition in_range :: "io61_file \<Rightarrow> int \<Rightarrow> int \<Rightarrow> bool" where
  "in_range f start len \<longleftrightarrow> 0 < chunk_sz f \<and> 0 \<le> start \<and> 0 < len \<and> start + len \<le> int nchunks * chunk_sz f"

lemma in_range_chunks: "in_range f start len \<Longrightarrow> i \<in> set (chunks f start len) \<Longrightarrow> i < nchunks"
  unfolding in_range_def using chunks_iff [of f start i len]
  by (smt (verit) mult_less_cancel_right of_nat_less_iff)

section \<open>What the functions do\<close>

lemma is_overlap_at_eq:
  "\<forall>i \<in> set is. i < nchunks \<Longrightarrow>
   is_overlap_at f tid is = Some (\<exists>i \<in> set is. nlocked f i \<noteq> 0 \<and> owner f i \<noteq> tid)"
  by (induction "is") auto

lemma take_chunk_simps [simp]:
  "nlocked (take_chunk t i f) = (nlocked f)(i := nlocked f i + 1)" "owner (take_chunk t i f) = (owner f)(i := t)"
  "chunk_sz (take_chunk t i f) = chunk_sz f"
  by (simp_all add: take_chunk_def)

lemma drop_chunk_simps [simp]:
  "nlocked (drop_chunk i f) = (nlocked f)(i := nlocked f i - 1)" "owner (drop_chunk i f) = owner f"
  "chunk_sz (drop_chunk i f) = chunk_sz f"
  by (simp_all add: drop_chunk_def)

lemma lock_region_at_eq:
  assumes "distinct is" and "\<forall>i \<in> set is. i < nchunks \<and> nlocked f i < INT_MAX \<and> (nlocked f i = 0 \<or> owner f i = tid)"
  shows "\<exists>f'. lock_region_at f tid is = Some f'
    \<and> f' = f\<lparr>nlocked := (\<lambda>i. if i \<in> set is then nlocked f i + 1 else nlocked f i),
             owner := (\<lambda>i. if i \<in> set is then tid else owner f i)\<rparr>"
  using assms
proof (induction "is" arbitrary: f)
  case (Cons i "is")
  have "\<forall>j \<in> set is. j < nchunks \<and> nlocked (take_chunk tid i f) j < INT_MAX \<and> (nlocked (take_chunk tid i f) j = 0 \<or> owner (take_chunk tid i f) j = tid)"
    using Cons.prems by auto
  from Cons.IH [OF _ this] Cons.prems show ?case
    by (auto simp: take_chunk_def fun_eq_iff intro!: io61_file.equality)
qed simp

lemma unlock_region_at_eq:
  assumes "distinct is" and "\<forall>i \<in> set is. i < nchunks \<and> nlocked f i \<noteq> 0 \<and> owner f i = tid"
  shows "unlock_region_at f tid is = Some (f\<lparr>nlocked := (\<lambda>i. if i \<in> set is then nlocked f i - 1 else nlocked f i)\<rparr>)"
  using assms
proof (induction "is" arbitrary: f)
  case (Cons i "is")
  have "\<forall>j \<in> set is. j < nchunks \<and> nlocked (drop_chunk i f) j \<noteq> 0 \<and> owner (drop_chunk i f) j = tid"
    using Cons.prems by auto
  from Cons.IH [OF _ this] Cons.prems show ?case
    by (auto simp: drop_chunk_def fun_eq_iff intro!: io61_file.equality)
qed simp

section \<open>The ranges held\<close>

type_synonym held = "(nat \<times> int \<times> int) multiset"

definition covers :: "io61_file \<Rightarrow> nat \<Rightarrow> nat \<times> int \<times> int \<Rightarrow> bool" where
  "covers f i = (\<lambda>(t, s, l). i \<in> set (chunks f s l))"

definition lock_inv :: "io61_file \<Rightarrow> held \<Rightarrow> bool" where
  "lock_inv f H \<longleftrightarrow> (\<forall>(t, s, l) \<in># H. in_range f s l)
     \<and> (\<forall>i < nchunks. nlocked f i = int (size (filter_mset (covers f i) H))
          \<and> (\<forall>x \<in># H. covers f i x \<longrightarrow> owner f i = fst x))"

lemma lock_inv_empty: "(\<forall>i. nlocked f i = 0) \<Longrightarrow> lock_inv f {#}"
  by (simp add: lock_inv_def)

lemma covers_cong: "chunk_sz f' = chunk_sz f \<Longrightarrow> covers f' i x = covers f i x"
  by (cases x) (simp add: covers_def chunks_def)

lemma in_range_cong: "chunk_sz f' = chunk_sz f \<Longrightarrow> in_range f' s l = in_range f s l"
  by (simp add: in_range_def)

text \<open>A chunk is in use exactly if a range that covers it is held.\<close>

lemma nlocked_iff:
  assumes "lock_inv f H" and "i < nchunks"
  shows "nlocked f i \<noteq> 0 \<longleftrightarrow> (\<exists>x \<in># H. covers f i x)"
proof -
  have "nlocked f i = int (size (filter_mset (covers f i) H))" using assms by (simp add: lock_inv_def)
  then show ?thesis by (auto simp: filter_mset_eq_mempty_iff)
qed

definition conflict :: "io61_file \<Rightarrow> held \<Rightarrow> nat \<Rightarrow> int \<Rightarrow> int \<Rightarrow> bool" where
  "conflict f H tid s l \<longleftrightarrow> (\<exists>i \<in> set (chunks f s l). \<exists>x \<in># H. covers f i x \<and> fst x \<noteq> tid)"

lemma is_overlap_eq:
  assumes "lock_inv f H" and "in_range f s l"
  shows "is_overlap f tid s l = Some (conflict f H tid s l)"
proof -
  have r: "\<forall>i \<in> set (chunks f s l). i < nchunks" using in_range_chunks [OF assms(2)] by blast
  have "(\<exists>i \<in> set (chunks f s l). nlocked f i \<noteq> 0 \<and> owner f i \<noteq> tid) = conflict f H tid s l"
    unfolding conflict_def
  proof (rule bex_cong [OF refl])
    fix i assume "i \<in> set (chunks f s l)"
    then have i: "i < nchunks" using r by blast
    have own: "\<forall>x \<in># H. covers f i x \<longrightarrow> owner f i = fst x" using assms(1) i by (simp add: lock_inv_def)
    show "(nlocked f i \<noteq> 0 \<and> owner f i \<noteq> tid) = (\<exists>x \<in># H. covers f i x \<and> fst x \<noteq> tid)"
      unfolding nlocked_iff [OF assms(1) i] using own by metis
  qed
  then show ?thesis unfolding is_overlap_def is_overlap_at_eq [OF r] by simp
qed

lemma io61_lock_spec:
  assumes inv: "lock_inv f H" and r: "in_range f s l" and "lt = LOCK_EX \<or> lt = LOCK_SH"
    and room: "\<not> conflict f H tid s l \<Longrightarrow> \<forall>i \<in> set (chunks f s l). nlocked f i < INT_MAX"
  shows "if conflict f H tid s l then io61_lock f tid s l lt = Some (None, f)
    else (\<exists>f'. io61_lock f tid s l lt = Some (Some 0, f') \<and> lock_inv f' (add_mset (tid, s, l) H)
      \<and> f' = f\<lparr>nlocked := nlocked f', owner := owner f'\<rparr>)"
proof (cases "conflict f H tid s l")
  case True
  then show ?thesis using is_overlap_eq [OF inv r] r assms(3) by (simp add: io61_lock_def in_range_def)
next
  case False
  have ck: "\<forall>i \<in> set (chunks f s l). i < nchunks \<and> nlocked f i < INT_MAX \<and> (nlocked f i = 0 \<or> owner f i = tid)"
  proof
    fix i assume i: "i \<in> set (chunks f s l)"
    then have n: "i < nchunks" using in_range_chunks [OF r] by blast
    moreover have "nlocked f i = 0 \<or> owner f i = tid"
      using nlocked_iff [OF inv n] inv n i False unfolding lock_inv_def conflict_def by metis
    ultimately show "i < nchunks \<and> nlocked f i < INT_MAX \<and> (nlocked f i = 0 \<or> owner f i = tid)" using room [OF False] i by blast
  qed
  obtain f' where f': "lock_region f tid s l = Some f'" "f' = f\<lparr>
      nlocked := (\<lambda>i. if i \<in> set (chunks f s l) then nlocked f i + 1 else nlocked f i),
      owner := (\<lambda>i. if i \<in> set (chunks f s l) then tid else owner f i)\<rparr>"
    using lock_region_at_eq [OF chunks_distinct ck] unfolding lock_region_def by blast
  have cs: "chunk_sz f' = chunk_sz f" using f'(2) by simp
  have nl: "nlocked f' i = (if i \<in> set (chunks f s l) then nlocked f i + 1 else nlocked f i)"
    and ow: "owner f' i = (if i \<in> set (chunks f s l) then tid else owner f i)" for i using f'(2) by simp_all
  have "lock_inv f' (add_mset (tid, s, l) H)"
    unfolding lock_inv_def
  proof (intro conjI allI impI)
    show "\<forall>(t, s, l) \<in># add_mset (tid, s, l) H. in_range f' s l"
      using inv r in_range_cong [OF cs] by (auto simp: lock_inv_def)
  next
    fix i assume i: "i < nchunks"
    have n: "nlocked f i = int (size (filter_mset (covers f i) H))"
      and own: "\<forall>x \<in># H. covers f i x \<longrightarrow> owner f i = fst x" using inv i by (simp_all add: lock_inv_def)
    have cv: "covers f' i = covers f i" using covers_cong [OF cs] by blast
    have ci: "covers f i (tid, s, l) = (i \<in> set (chunks f s l))" by (simp add: covers_def)
    show "nlocked f' i = int (size (filter_mset (covers f' i) (add_mset (tid, s, l) H)))"
      unfolding cv nl using n ci by simp
    have "owner f i = tid" if "i \<in> set (chunks f s l)" "x \<in># H" "covers f i x" for x
      using False that own unfolding conflict_def by metis
    then show "\<forall>x \<in># add_mset (tid, s, l) H. covers f' i x \<longrightarrow> owner f' i = fst x"
      unfolding cv ow using own ci by auto
  qed
  moreover have "io61_lock f tid s l lt = Some (Some 0, f')"
    using is_overlap_eq [OF inv r, of tid] False f'(1) r assms(3) by (simp add: io61_lock_def in_range_def)
  moreover have "f' = f\<lparr>nlocked := nlocked f', owner := owner f'\<rparr>" unfolding f'(2) by simp
  ultimately show ?thesis using False by auto
qed

lemma io61_try_lock_eq:
  "io61_try_lock f tid s l lt = (case io61_lock f tid s l lt of
     None \<Rightarrow> None | Some (None, f') \<Rightarrow> Some (-1, f') | Some (Some r, f') \<Rightarrow> Some (r, f'))"
  by (auto simp: io61_try_lock_def io61_lock_def assert_ok_def split: option.split Option.bind_split)

lemma io61_unlock_spec:
  assumes inv: "lock_inv f H" and h: "(tid, s, l) \<in># H"
  shows "\<exists>f'. io61_unlock f tid s l = Some (0, f') \<and> lock_inv f' (H - {#(tid, s, l)#})
    \<and> f' = f\<lparr>nlocked := nlocked f'\<rparr>"
proof -
  have r: "in_range f s l" using inv h by (auto simp: lock_inv_def)
  have ck: "\<forall>i \<in> set (chunks f s l). i < nchunks \<and> nlocked f i \<noteq> 0 \<and> owner f i = tid"
  proof
    fix i assume i: "i \<in> set (chunks f s l)"
    then have n: "i < nchunks" using in_range_chunks [OF r] by blast
    have c: "covers f i (tid, s, l)" using i by (simp add: covers_def)
    then show "i < nchunks \<and> nlocked f i \<noteq> 0 \<and> owner f i = tid"
      using n h nlocked_iff [OF inv n] inv unfolding lock_inv_def by fastforce
  qed
  let ?f = "f\<lparr>nlocked := (\<lambda>i. if i \<in> set (chunks f s l) then nlocked f i - 1 else nlocked f i)\<rparr>"
  have run: "io61_unlock f tid s l = Some (0, ?f)"
    using unlock_region_at_eq [OF chunks_distinct ck] r by (simp add: io61_unlock_def in_range_def)
  obtain K where K: "H = add_mset (tid, s, l) K" using h by (metis insert_DiffM)
  have cs: "chunk_sz ?f = chunk_sz f" by simp
  have "lock_inv ?f K"
    unfolding lock_inv_def
  proof (intro conjI allI impI)
    show "\<forall>(t, s, l) \<in># K. in_range ?f s l"
      using inv in_range_cong [OF cs] unfolding K by (auto simp: lock_inv_def)
  next
    fix i assume i: "i < nchunks"
    have n: "nlocked f i = int (size (filter_mset (covers f i) H))"
      and own: "\<forall>x \<in># H. covers f i x \<longrightarrow> owner f i = fst x" using inv i by (simp_all add: lock_inv_def)
    have cv: "covers ?f i = covers f i" using covers_cong [OF cs] by blast
    show "nlocked ?f i = int (size (filter_mset (covers ?f i) K))"
      unfolding cv using n unfolding K by (auto simp: covers_def)
    show "\<forall>x \<in># K. covers ?f i x \<longrightarrow> owner ?f i = fst x" unfolding cv using own unfolding K by auto
  qed
  moreover have "H - {#(tid, s, l)#} = K" unfolding K by simp
  ultimately show ?thesis using run by auto
qed

section \<open>Positioned input and output leave the locks alone\<close>

definition same_locks :: "io61_file \<Rightarrow> io61_file \<Rightarrow> bool" where
  "same_locks f f' \<longleftrightarrow> chunk_sz f' = chunk_sz f \<and> nlocked f' = nlocked f \<and> owner f' = owner f"

lemma same_locks_refl [simp]: "same_locks f f"
  by (simp add: same_locks_def)

lemma same_locks_trans: "same_locks f g \<Longrightarrow> same_locks g h \<Longrightarrow> same_locks f h"
  by (simp add: same_locks_def)

lemma same_locks_inv: "same_locks f f' \<Longrightarrow> lock_inv f' H \<longleftrightarrow> lock_inv f H"
  by (simp add: same_locks_def lock_inv_def in_range_def covers_def chunks_def)

lemma same_locks_conflict: "chunk_sz f' = chunk_sz f \<Longrightarrow> conflict f' H t s l \<longleftrightarrow> conflict f H t s l"
  by (simp add: conflict_def covers_def chunks_def)

lemma cbuf_store_locks: "cbuf_store f i bs = Some f' \<Longrightarrow> same_locks f f'"
  by (auto simp: cbuf_store_def cbuf_put_def same_locks_def split: if_splits)

lemma io61_flush_locks: "io61_flush P f m = Some (r, f', m') \<Longrightarrow> same_locks f f'"
  by (auto simp: io61_flush_def io61_flush_dirty_def io61_flush_dirty_positioned_def io61_flush_clean_def
      same_locks_def Let_def assert_ok_def
      split: if_splits prod.splits option.splits Option.bind_splits)

lemma io61_pfill_locks: "io61_pfill P f off m = Some (r, f', m') \<Longrightarrow> same_locks f f'"
  by (auto simp: io61_pfill_def Let_def assert_ok_def dest!: cbuf_store_locks io61_flush_locks
      split: if_splits prod.splits option.splits Option.bind_splits) (auto simp: same_locks_def)

lemma io61_pread_locks: "io61_pread P f sz off m = Some (r, bs, f', m') \<Longrightarrow> same_locks f f'"
  by (auto simp: io61_pread_def pcache_def Let_def dest!: io61_pfill_locks
      split: if_splits Option.bind_splits)

lemma io61_pwrite_locks: "io61_pwrite P f buf off m = Some (r, f', m') \<Longrightarrow> same_locks f f'"
  by (auto simp: io61_pwrite_def pcache_def Let_def dest!: io61_pfill_locks cbuf_store_locks
      split: if_splits Option.bind_splits) (auto simp: same_locks_def)

section \<open>Histories of calls\<close>

text \<open>A history of calls on one file, each with any arguments, as long as the code's behaviour is defined (no assertion
  fails and no chunk outside the arrays is touched). Beside the file it yields how often each thread has locked each chunk and not
  yet unlocked it. Reading and writing between the calls leave the locks alone.\<close>

type_synonym tally = "nat \<Rightarrow> nat \<Rightarrow> int"

definition count_chunks :: "nat \<Rightarrow> int \<Rightarrow> nat list \<Rightarrow> tally \<Rightarrow> tally" where
  "count_chunks t d is h = (\<lambda>u j. if u = t \<and> j \<in> set is then h u j + d else h u j)"

definition count_range :: "io61_file \<Rightarrow> nat \<Rightarrow> int \<Rightarrow> int \<Rightarrow> int \<Rightarrow> tally \<Rightarrow> tally" where
  "count_range f t s l d h = (if l = 0 then h else count_chunks t d (chunks f s l) h)"

inductive lock_history :: "io61_file \<Rightarrow> io61_file \<Rightarrow> tally \<Rightarrow> bool" for f0 where
  start: "lock_history f0 f0 (\<lambda>t i. 0)"
| locked: "lock_history f0 f h \<Longrightarrow> io61_lock f t s l lt = Some (Some r, f') \<Longrightarrow> lock_history f0 f' (count_range f t s l 1 h)"
| asleep: "lock_history f0 f h \<Longrightarrow> io61_lock f t s l lt = Some (None, f') \<Longrightarrow> lock_history f0 f' h"
| tried: "lock_history f0 f h \<Longrightarrow> io61_try_lock f t s l lt = Some (r, f') \<Longrightarrow>
    lock_history f0 f' (if r = 0 then count_range f t s l 1 h else h)"
| unlocked: "lock_history f0 f h \<Longrightarrow> io61_unlock f t s l = Some (r, f') \<Longrightarrow> lock_history f0 f' (count_range f t s l (-1) h)"
| other: "lock_history f0 f h \<Longrightarrow> same_locks f f' \<Longrightarrow> lock_history f0 f' h"

text \<open>A thread holds a range of bytes if it has locked every chunk of it more often than it unlocked it.\<close>

definition holds_range :: "io61_file \<Rightarrow> tally \<Rightarrow> nat \<Rightarrow> int \<Rightarrow> int \<Rightarrow> bool" where
  "holds_range f h t s l \<longleftrightarrow> 0 \<le> s \<and> 0 < l \<and> (\<forall>i \<in> set (chunks f s l). 0 < h t i)"

text \<open>The count of a chunk is that of its owner, and nobody else has one.\<close>

definition tally_inv :: "io61_file \<Rightarrow> tally \<Rightarrow> bool" where
  "tally_inv f h \<longleftrightarrow> 0 < chunk_sz f \<and> (\<forall>t i. 0 \<le> h t i) \<and> (\<forall>t i. t \<noteq> owner f i \<longrightarrow> h t i = 0)
     \<and> (\<forall>i < nchunks. nlocked f i = h (owner f i) i) \<and> (\<forall>t i. nchunks \<le> i \<longrightarrow> h t i = 0)"

lemma tally_take:
  assumes "tally_inv f h" and "i < nchunks" and "nlocked f i = 0 \<or> owner f i = t"
  shows "tally_inv (take_chunk t i f) (count_chunks t 1 [i] h)"
  using assms unfolding tally_inv_def by (auto simp: count_chunks_def) (metis+)

lemma tally_drop:
  assumes "tally_inv f h" and "i < nchunks" and "nlocked f i \<noteq> 0 \<and> owner f i = t"
  shows "tally_inv (drop_chunk i f) (count_chunks t (-1) [i] h)"
proof -
  have "0 \<le> h t i" "h t i \<noteq> 0" using assms by (auto simp: tally_inv_def)
  then have "0 \<le> h t i - 1" by simp
  then show ?thesis using assms by (auto simp: tally_inv_def count_chunks_def)
qed

lemma count_chunks_Cons: "i \<notin> set is \<Longrightarrow> count_chunks t d (i # is) h = count_chunks t d is (count_chunks t d [i] h)"
  by (auto simp: count_chunks_def fun_eq_iff)

lemma lock_region_tally:
  "lock_region_at f t is = Some f' \<Longrightarrow> distinct is \<Longrightarrow> tally_inv f h \<Longrightarrow> tally_inv f' (count_chunks t 1 is h)"
proof (induction "is" arbitrary: f h)
  case (Cons i "is")
  have r: "i < nchunks" "nlocked f i = 0 \<or> owner f i = t" "lock_region_at (take_chunk t i f) t is = Some f'"
    using Cons.prems(1) by (auto simp: assert_ok_def split: if_splits Option.bind_splits)
  show ?case using Cons.IH [OF r(3) _ tally_take [OF Cons.prems(3) r(1,2)]] Cons.prems(2) by (simp add: count_chunks_Cons [of i "is"])
qed (simp add: count_chunks_def)

lemma unlock_region_tally:
  "unlock_region_at f t is = Some f' \<Longrightarrow> distinct is \<Longrightarrow> tally_inv f h \<Longrightarrow> tally_inv f' (count_chunks t (-1) is h)"
proof (induction "is" arbitrary: f h)
  case (Cons i "is")
  have r: "i < nchunks" "nlocked f i \<noteq> 0 \<and> owner f i = t" "unlock_region_at (drop_chunk i f) t is = Some f'"
    using Cons.prems(1) by (auto simp: assert_ok_def split: if_splits Option.bind_splits)
  show ?case using Cons.IH [OF r(3) _ tally_drop [OF Cons.prems(3) r(1,2)]] Cons.prems(2) by (simp add: count_chunks_Cons [of i "is"])
qed (simp add: count_chunks_def)

lemma io61_lock_tally:
  assumes "io61_lock f t s l lt = Some (r, f')" and "tally_inv f h"
  shows "if r = None then f' = f else r = Some 0 \<and> tally_inv f' (count_range f t s l 1 h)"
  using assms lock_region_tally [OF _ chunks_distinct assms(2)]
  by (auto simp: io61_lock_def count_range_def lock_region_def split: if_splits Option.bind_splits)

lemma lock_history_inv:
  assumes "lock_history f0 f h" and "\<forall>i. nlocked f0 i = 0" and "0 < chunk_sz f0"
  shows "tally_inv f h"
  using assms(1)
proof (induction rule: lock_history.induct)
  case start
  then show ?case using assms(2,3) by (simp add: tally_inv_def)
next
  case (tried f h t s l lt r f')
  then show ?case by (auto simp: io61_try_lock_eq split: option.splits dest!: io61_lock_tally)
next
  case (unlocked f h t s l r f')
  then show ?case using unlock_region_tally [OF _ chunks_distinct unlocked(3)]
    by (auto simp: io61_unlock_def count_range_def split: if_splits Option.bind_splits)
next
  case (other f h f')
  then show ?case by (simp add: tally_inv_def same_locks_def)
qed (auto dest!: io61_lock_tally)

text \<open>A chunk is somebody else's exactly if somebody else has a count of it.\<close>

lemma tally_other:
  assumes "tally_inv f h" and "i < nchunks"
  shows "nlocked f i \<noteq> 0 \<and> owner f i \<noteq> t \<longleftrightarrow> (\<exists>w. w \<noteq> t \<and> 0 < h w i)"
  using assms unfolding tally_inv_def by (metis less_le)

text \<open>C10: take any history of lock, try-lock and unlock calls of any threads, with any ranges, on a file whose
  locks are free at the start, as long as no assertion of the code fails and no index leaves the arrays of chunks. The byte ranges that two threads hold at
  the same time are disjoint, where a thread holds a range if it has locked every chunk of the range more often
  than it has unlocked it. And the next \<open>io61_lock\<close> on a range within the chunks, which are counted below \<open>INT_MAX\<close>, fails no assertion: it goes to sleep,
  without changing anything, exactly if another thread has a count of a chunk of the range, and otherwise
  gives the thread the range.\<close>

theorem locks_exclusive:
  assumes "\<forall>i. nlocked f0 i = 0" and "0 < chunk_sz f0" and "lock_history f0 f h"
    and "in_range f a b" and "lt = LOCK_EX \<or> lt = LOCK_SH" and "\<forall>i. nlocked f i < INT_MAX"
  shows "(\<forall>t t' s l s' l'. holds_range f h t s l \<and> holds_range f h t' s' l' \<and> t \<noteq> t' \<longrightarrow> {s ..< s + l} \<inter> {s' ..< s' + l'} = {})
    \<and> (if \<exists>i \<in> set (chunks f a b). \<exists>w. w \<noteq> u \<and> 0 < h w i then io61_lock f u a b lt = Some (None, f)
       else \<exists>f'. io61_lock f u a b lt = Some (Some 0, f') \<and> holds_range f' (count_range f u a b 1 h) u a b)"
proof (intro conjI allI impI)
  have inv: "tally_inv f h" by (rule lock_history_inv [OF assms(3,1,2)])
  fix t t' s l s' l'
  assume hold: "holds_range f h t s l \<and> holds_range f h t' s' l' \<and> t \<noteq> t'"
  show "{s ..< s + l} \<inter> {s' ..< s' + l'} = {}"
  proof (rule ccontr)
    assume "{s ..< s + l} \<inter> {s' ..< s' + l'} \<noteq> {}"
    then obtain p where p: "s \<le> p" "p < s + l" "s' \<le> p" "p < s' + l'" by (metis atLeastLessThan_iff disjoint_iff)
    let ?i = "nat (p div chunk_sz f)"
    have "0 < h t ?i" "0 < h t' ?i"
      using hold p inv chunk_of_byte [of f s p l] chunk_of_byte [of f s' p l'] by (auto simp: holds_range_def tally_inv_def)
    then show False using hold inv unfolding tally_inv_def by (metis less_irrefl)
  qed
next
  have inv: "tally_inv f h" by (rule lock_history_inv [OF assms(3,1,2)])
  have r: "\<forall>i \<in> set (chunks f a b). i < nchunks" using in_range_chunks [OF assms(4)] by blast
  have ov: "is_overlap f u a b = Some (\<exists>i \<in> set (chunks f a b). \<exists>w. w \<noteq> u \<and> 0 < h w i)"
    unfolding is_overlap_def is_overlap_at_eq [OF r] using tally_other [OF inv] r by (simp cong: bex_cong)
  have ab: "0 \<le> a" "0 < b" "0 < chunk_sz f" using assms(4) by (simp_all add: in_range_def)
  show "if \<exists>i \<in> set (chunks f a b). \<exists>w. w \<noteq> u \<and> 0 < h w i then io61_lock f u a b lt = Some (None, f)
       else \<exists>f'. io61_lock f u a b lt = Some (Some 0, f') \<and> holds_range f' (count_range f u a b 1 h) u a b"
  proof (cases "\<exists>i \<in> set (chunks f a b). \<exists>w. w \<noteq> u \<and> 0 < h w i")
    case True
    then show ?thesis using ov assms(5) ab by (simp add: io61_lock_def)
  next
    case False
    have "\<forall>i \<in> set (chunks f a b). i < nchunks \<and> nlocked f i < INT_MAX \<and> (nlocked f i = 0 \<or> owner f i = u)"
      using False tally_other [OF inv] r assms(6) by blast
    from lock_region_at_eq [OF chunks_distinct this] obtain f' where f': "lock_region f u a b = Some f'" "chunk_sz f' = chunk_sz f"
      unfolding lock_region_def by auto
    have "0 \<le> h u i" for i using inv by (simp add: tally_inv_def)
    then have "0 < h u i + 1" for i by (simp add: zless_add1_eq le_less)
    then have "holds_range f' (count_range f u a b 1 h) u a b"
      using ab f'(2) by (simp add: holds_range_def count_range_def count_chunks_def chunks_def)
    moreover have "io61_lock f u a b lt = Some (Some 0, f')" using ov False f'(1) assms(5) ab by (simp add: io61_lock_def)
    ultimately show ?thesis using False by simp
  qed
qed

definition demo_lock_file :: io61_file where
  "demo_lock_file = \<lparr>fd = 3, mode = O_RDWR, seekable = True, fsize = 64, cbuf = (\<lambda>i. 0), tag = 0, pos_tag = 0,
     end_tag = 0, map_ptr = NullMap, is_seq = True, dirty = False, positioned = False,
     chunk_sz = 16, nlocked = (\<lambda>i. 0), owner = (\<lambda>i. 0)\<rparr>"

text \<open>Thread 1 locks two chunks and unlocks the first, thread 2 then gets bytes 0 to 15, and thread 3 must wait for byte 20.\<close>

lemma locks_exclusive_witness:
  "\<exists>f h. lock_history demo_lock_file f h \<and> holds_range f h 1 16 16 \<and> holds_range f h 2 0 16
     \<and> {16 ..< 16 + 16} \<inter> {0 ..< 0 + (16 :: int)} = {} \<and> io61_lock f 3 20 1 LOCK_SH = Some (None, f)"
proof -
  note ev = assert_ok_def LOCK_EX_def LOCK_SH_def is_overlap_def lock_region_def chunks_def nchunks_def take_chunk_def drop_chunk_def upt_rec
  define f1 where "f1 = take_chunk 1 1 (take_chunk 1 0 demo_lock_file)"
  define f2 where "f2 = drop_chunk 0 f1"
  define f3 where "f3 = take_chunk 2 0 f2"
  have l: "io61_lock demo_lock_file 1 0 20 LOCK_EX = Some (Some 0, f1)" "io61_unlock f1 1 0 10 = Some (0, f2)"
    "io61_lock f2 2 0 16 LOCK_SH = Some (Some 0, f3)"
    by (simp_all add: io61_lock_def io61_unlock_def f1_def f2_def f3_def demo_lock_file_def ev)
  have z: "\<forall>i. nlocked demo_lock_file i = 0" "0 < chunk_sz demo_lock_file" by (simp_all add: demo_lock_file_def)
  define h where "h = count_range f2 2 0 16 1 (count_range f1 1 0 10 (-1) (count_range demo_lock_file 1 0 20 1 (\<lambda>t i. 0)))"
  have hist: "lock_history demo_lock_file f3 h"
    unfolding h_def by (intro lock_history.locked [OF _ l(3)] lock_history.unlocked [OF _ l(2)] lock_history.locked [OF _ l(1)] lock_history.start)
  have c: "chunk_sz f1 = 16" "chunk_sz f2 = 16" "chunk_sz f3 = 16" "chunk_sz demo_lock_file = 16"
    by (simp_all add: f1_def f2_def f3_def demo_lock_file_def)
  have hold: "holds_range f3 h 1 16 16" "holds_range f3 h 2 0 16" and w: "\<exists>i \<in> set (chunks f3 20 1). \<exists>w. w \<noteq> 3 \<and> 0 < h w i"
    by (auto simp: holds_range_def h_def count_range_def count_chunks_def chunks_def c)
  have "in_range f3 20 1" "\<forall>i. nlocked f3 i < INT_MAX" by (simp_all add: in_range_def c nchunks_def f1_def f2_def f3_def demo_lock_file_def)
  from locks_exclusive [OF z hist this(1) _ this(2), of LOCK_SH 3] show ?thesis using hist hold w by auto
qed

end
