(* ===== verification/Ftx.thy ===== *)
theory Ftx
  imports Filelock Io61Pos
begin

text \<open>
  The account database of \<open>src/pset6\<close>: accounts are 16-byte text records of a file opened
  through io61 (\<open>ftxdb.hh\<close>, \<open>ftxhelpers.cc\<close>), and the transfer threads of
  \<open>ftxxfer.cc\<close> move money between them under the file locks of the theory Filelock, each
  library call being one step. \<open>ftxrocket.cc\<close> and \<open>ftxblockchain.cc\<close> run the same
  loop with other draws and a ledger; \<open>ftxunlocked.cc\<close> runs it without the locks.
\<close>

section \<open>Numbers in text\<close>

text \<open>\<open>std::to_chars\<close> and \<open>std::from_chars\<close> in base 10. \<open>to_chars\<close> fails when the text does
  not fit in \<open>cap\<close> characters; \<open>from_chars\<close> reads the longest number at the front and fails
  (EINVAL) if there is none or (ERANGE) if it is no \<open>long\<close>.\<close>

fun dec_digits :: "nat \<Rightarrow> u8 list" where
  "dec_digits n = (if n < 10 then [of_nat (48 + n)] else dec_digits (n div 10) @ [of_nat (48 + n mod 10)])"

declare dec_digits.simps [simp del]

definition to_chars :: "nat \<Rightarrow> int \<Rightarrow> u8 list option" where
  "to_chars cap b = (let s = (if b < 0 then 45 # dec_digits (nat (-b)) else dec_digits (nat b)) in
     if length s \<le> cap then Some s else None)"

definition is_digit :: "u8 \<Rightarrow> bool" where
  "is_digit c \<longleftrightarrow> 48 \<le> c \<and> c \<le> 57"

definition digits_value :: "u8 list \<Rightarrow> nat" where
  "digits_value ds = foldl (\<lambda>v c. v * 10 + (unat c - 48)) 0 ds"

definition from_chars :: "u8 list \<Rightarrow> int + int" where
  "from_chars bs = (let neg = (bs \<noteq> [] \<and> hd bs = 45); ds = takeWhile is_digit (if neg then tl bs else bs) in
     if ds = [] then Inl 22 else
     let v = (if neg then - int (digits_value ds) else int (digits_value ds)) in
     if - (2 ^ 63) \<le> v \<and> v < 2 ^ 63 then Inr v else Inl 34)"

lemma dec_digits_nonempty [simp]: "dec_digits n \<noteq> []"
  by (subst dec_digits.simps) simp

lemma unat8_small: "n < 256 \<Longrightarrow> unat (of_nat n :: u8) = n"
  by (simp add: unat_of_nat take_bit_nat_eq_self)

lemma is_digit_small: "n < 10 \<Longrightarrow> is_digit (of_nat (48 + n))"
  unfolding is_digit_def word_le_nat_alt using unat8_small [of "48 + n"] by simp

lemma dec_digits_all: "\<forall>c \<in> set (dec_digits n). is_digit c"
proof (induction n rule: dec_digits.induct)
  case (1 n)
  then show ?case using is_digit_small [of n] is_digit_small [of "n mod 10"]
    by (subst dec_digits.simps) auto
qed

lemma digits_value_snoc: "digits_value (ds @ [c]) = digits_value ds * 10 + (unat c - 48)"
  by (simp add: digits_value_def)

lemma digits_value_dec: "digits_value (dec_digits n) = n"
proof (induction n rule: dec_digits.induct)
  case (1 n)
  show ?case
  proof (cases "n < 10")
    case True
    then have "digits_value [of_nat (48 + n)] = n" using unat8_small [of "48 + n"] by (simp add: digits_value_def)
    then show ?thesis using True by (subst dec_digits.simps) simp
  next
    case False
    have "unat (of_nat (48 + n mod 10) :: u8) = 48 + n mod 10" by (rule unat8_small) simp
    then show ?thesis using 1 False by (subst dec_digits.simps) (simp add: digits_value_snoc)
  qed
qed

lemma length_dec_digits: "n < 10 ^ k \<Longrightarrow> 0 < k \<Longrightarrow> length (dec_digits n) \<le> k"
proof (induction k arbitrary: n)
  case (Suc k)
  show ?case
  proof (cases "n < 10")
    case True
    then show ?thesis by (subst dec_digits.simps) simp
  next
    case False
    then have "0 < k" using Suc.prems(1) by (cases k) auto
    moreover have "n div 10 < 10 ^ k" using Suc.prems(1) by (simp add: less_mult_imp_div_less)
    ultimately show ?thesis using False Suc.IH [of "n div 10"] by (subst dec_digits.simps) simp
  qed
qed simp

lemma dec_digits_hd: "is_digit (hd (dec_digits n))"
  using dec_digits_all [of n] hd_in_set [OF dec_digits_nonempty] by blast

lemma from_chars_dec:
  assumes "int n < 2 ^ 63" and "rest = [] \<or> \<not> is_digit (hd rest)"
  shows "from_chars (dec_digits n @ rest) = Inr (int n)"
proof -
  have tw: "takeWhile is_digit (dec_digits n @ rest) = dec_digits n"
    using dec_digits_all [of n] assms(2) by (cases rest) (auto simp: takeWhile_append2)
  have "hd (dec_digits n @ rest) \<noteq> 45"
    using dec_digits_hd [of n] by (auto simp: is_digit_def)
  then show ?thesis using tw assms(1) by (simp add: from_chars_def Let_def digits_value_dec)
qed

section \<open>Records\<close>

definition asize :: nat where "asize = 16"
definition balance_offset :: nat where "balance_offset = 8"
definition balance_size :: nat where "balance_size = 7"

lemmas db_sizes = asize_def balance_offset_def balance_size_def

text \<open>\<open>ftx_acct::parse\<close>: the name (at most \<open>namesz - 1\<close> characters) and the balance, or
  the error number.\<close>

definition acct_parse :: "u8 list \<Rightarrow> nat \<Rightarrow> u8 list \<times> (int + int)" where
  "acct_parse buf namesz = (if length buf \<noteq> asize then ([], Inl EINVAL) else
     let name = takeWhile (\<lambda>c. c \<noteq> 32) (take (namesz - 1) buf);
         text = dropWhile (\<lambda>c. c = 32) (drop balance_offset buf);
         text = (if text \<noteq> [] \<and> hd text = 43 then tl text else text)
     in (name, from_chars text))"

text \<open>\<open>ftx_acct::unparse\<close>: the balance right-justified in seven columns, and a newline.\<close>

definition acct_unparse :: "int \<Rightarrow> u8 list option" where
  "acct_unparse balance = (case to_chars balance_size balance of
     None \<Rightarrow> None
   | Some s \<Rightarrow> (let buf = replicate balance_size 32 @ s @ [10]; ptr = balance_size + length s + 1
               in Some (take (balance_size + 1) (drop (ptr - balance_size - 1) buf))))"

lemma acct_unparse_eq:
  assumes "0 \<le> b" and "b \<le> 9999999"
  shows "\<exists>bs. acct_unparse b = Some bs \<and> length bs = 8
    \<and> bs = replicate (7 - length (dec_digits (nat b))) 32 @ dec_digits (nat b) @ [10]"
proof -
  let ?d = "dec_digits (nat b)"
  have l: "length ?d \<le> 7" using assms by (intro length_dec_digits) simp_all
  have t: "to_chars balance_size b = Some ?d" using l assms by (simp add: to_chars_def balance_size_def)
  have "take 8 (drop (length ?d) (replicate 7 32 @ ?d @ [10])) = replicate (7 - length ?d) 32 @ ?d @ [10 :: u8]"
    using l by simp
  then show ?thesis using t l by (simp add: acct_unparse_def Let_def balance_size_def)
qed

lemma acct_parse_unparse:
  assumes "length name = 8" and "0 \<le> b" and "b \<le> 9999999" and "acct_unparse b = Some bs"
  shows "snd (acct_parse (name @ bs) namesz) = Inr b"
proof -
  let ?d = "dec_digits (nat b)"
  have bs: "bs = replicate (7 - length ?d) 32 @ ?d @ [10]" and l: "length bs = 8"
    using acct_unparse_eq [OF assms(2,3)] assms(4) by auto
  have h: "hd ?d \<noteq> 32" "hd ?d \<noteq> 43" using dec_digits_hd [of "nat b"] by (auto simp: is_digit_def)
  have "dropWhile (\<lambda>c. c = 32) bs = dropWhile (\<lambda>c. c = 32) (?d @ [10])"
    unfolding bs by (rule dropWhile_append2) simp
  also have "\<dots> = ?d @ [10]" using h(1) dec_digits_nonempty [of "nat b"] by (cases ?d) auto
  finally have dw: "dropWhile (\<lambda>c. c = 32) bs = ?d @ [10]" .
  have "from_chars (?d @ [10]) = Inr (int (nat b))"
    using assms(2,3) by (intro from_chars_dec) (simp_all add: is_digit_def)
  then show ?thesis using dw h(2) assms(1,2) l by (simp add: acct_parse_def db_sizes Let_def)
qed

section \<open>Accounts in the file\<close>

text \<open>\<open>ftx_acct::lock\<close>, \<open>unlock\<close>, \<open>read\<close> and \<open>write\<close> on account number \<open>a\<close>. The first two take the flag
  \<open>locked\<close> of the account object, which they check, and return its new value; a \<open>lock\<close> that is asleep has not set
  it. A read that fails leaves the caller's balance unset (\<open>None\<close>).\<close>

definition acct_offset :: "nat \<Rightarrow> int" where
  "acct_offset a = int (a * asize)"

definition acct_lock :: "io61_file \<Rightarrow> nat \<Rightarrow> nat \<Rightarrow> bool \<Rightarrow> (bool \<times> io61_file) option" where
  "acct_lock f tid a locked = do {
     assert_ok (\<not> locked);
     (r, f) \<leftarrow> io61_lock f tid (acct_offset a) (int asize) LOCK_EX;
     case r of None \<Rightarrow> Some (False, f) | Some r \<Rightarrow> do { assert_ok (r = 0); Some (True, f) } }"

definition acct_unlock :: "io61_file \<Rightarrow> nat \<Rightarrow> nat \<Rightarrow> bool \<Rightarrow> (bool \<times> io61_file) option" where
  "acct_unlock f tid a locked = do {
     assert_ok locked;
     (r, f) \<leftarrow> io61_unlock f tid (acct_offset a) (int asize);
     assert_ok (r = 0);
     Some (False, f) }"

definition acct_read :: "'w posix \<Rightarrow> nat \<Rightarrow> nat \<Rightarrow> io61_file \<Rightarrow> 'w machine \<Rightarrow>
    (int \<times> u8 list \<times> int option \<times> io61_file \<times> 'w machine) option" where
  "acct_read P a namesz f m = do {
     (nr, buf, f, m) \<leftarrow> io61_pread P f asize (acct_offset a) m;
     if nr = 0 \<or> nr = -1 then Some (nr, [], None, f, m) else
     (case acct_parse buf namesz of
        (name, Inl e) \<Rightarrow> Some (-1, name, None, f, m\<lparr>errno := e\<rparr>)
      | (name, Inr b) \<Rightarrow> Some (0, name, Some b, f, m)) }"

definition acct_write :: "'w posix \<Rightarrow> nat \<Rightarrow> int \<Rightarrow> io61_file \<Rightarrow> 'w machine \<Rightarrow> (int \<times> io61_file \<times> 'w machine) option" where
  "acct_write P a balance f m = (case acct_unparse balance of
     None \<Rightarrow> Some (-1, f, m\<lparr>errno := 75\<rparr>)
   | Some bs \<Rightarrow> do {
       (nw, f, m) \<leftarrow> io61_pwrite P f bs (acct_offset a + int balance_offset) m;
       if nw \<noteq> int (length bs) then Some (-1, f, m\<lparr>errno := EINVAL\<rparr>) else Some (0, f, m) })"

text \<open>The constructor of \<open>ftx_db\<close>: the number of accounts, after reading the first.\<close>

definition ftx_db_open :: "'w posix \<Rightarrow> io61_file \<Rightarrow> 'w machine \<Rightarrow> (nat \<times> io61_file \<times> 'w machine) option" where
  "ftx_db_open P f m = do {
     let (sz, m) = io61_filesize P (fd f) m;
     assert_ok (to_size sz mod asize = 0);
     let naccounts = to_size sz div asize;
     assert_ok (0 < naccounts);
     (r, _, b, f, m) \<leftarrow> acct_read P 0 512 f m;
     assert_ok (r = 0);
     assert_ok (case b of Some b \<Rightarrow> 0 \<le> b | None \<Rightarrow> False);
     Some (naccounts, f, m) }"

text \<open>The balance in record \<open>a\<close> of the file's bytes.\<close>

definition balance_of :: "u8 list \<Rightarrow> nat \<Rightarrow> int + int" where
  "balance_of B a = snd (acct_parse (take asize (drop (a * asize) B)) 0)"

lemma take_drop_overwrite_other:
  assumes "off + length ys \<le> length bs" and "p + n \<le> off \<or> off + length ys \<le> p"
  shows "take n (drop p (overwrite bs off ys)) = take n (drop p bs)"
proof (rule nth_equalityI)
  show "length (take n (drop p (overwrite bs off ys))) = length (take n (drop p bs))"
    using assms(1) by (simp add: length_overwrite_within)
next
  fix i assume "i < length (take n (drop p (overwrite bs off ys)))"
  then have i: "i < n" "p + i < length bs" using assms(1) by (auto simp: length_overwrite_within)
  then show "take n (drop p (overwrite bs off ys)) ! i = take n (drop p bs) ! i"
    using assms by (auto simp: nth_overwrite_within length_overwrite_within)
qed

lemma acct_fits: "a < n \<Longrightarrow> a * 16 + 16 \<le> 16 * (n :: nat)"
  by linarith

lemma room16: "a < n \<Longrightarrow> slot_room 16 (a * 16) (16 * n) = 16"
  and room8: "a < n \<Longrightarrow> slot_room 8 (a * 16 + 8) (16 * n) = 8"
proof -
  assume a: "a < n"
  have m: "a * 16 mod 8192 = 16 * (a mod 512)" using mult_mod_right [of 16 a 512] by (simp add: mult.commute)
  have lt: "a mod 512 < 512" by simp
  show "slot_room 16 (a * 16) (16 * n) = 16" unfolding slot_room_def m using a lt by linarith
  have "(a * 16 + 8) mod 8192 = 16 * (a mod 512) + 8"
    using mod_add_left_eq [of "a * 16" 8192 8, unfolded m] lt by simp
  then show "slot_room 8 (a * 16 + 8) (16 * n) = 8" unfolding slot_room_def using a lt by linarith
qed

lemma acct_read_spec:
  assumes inv: "pinv P \<alpha> pat {} f m" and len: "length (pabs \<alpha> f m) = 16 * n" and a: "a < n"
    and bal: "balance_of (pabs \<alpha> f m) a = Inr b"
  shows "\<exists>name f' m'. acct_read P a namesz f m = Some (0, name, Some b, f', m') \<and> pinv P \<alpha> pat {} f' m'
    \<and> pabs \<alpha> f' m' = pabs \<alpha> f m"
proof -
  have o: "0 \<le> acct_offset a" "nat (acct_offset a) < length (pabs \<alpha> f m)" "nat (acct_offset a) = a * 16"
    using a len by (simp_all add: acct_offset_def asize_def)
  let ?rec = "take 16 (drop (a * 16) (pabs \<alpha> f m))"
  have lr: "length ?rec = 16" using len acct_fits [OF a] by simp
  obtain r bs f' m' where x: "io61_pread P f 16 (acct_offset a) m = Some (r, bs, f', m')" "pinv P \<alpha> pat {} f' m'"
    "pabs \<alpha> f' m' = pabs \<alpha> f m" "r = int (length bs)"
    "bs = take (slot_room 16 (a * 16) (16 * n)) (drop (a * 16) (pabs \<alpha> f m))"
    using io61_pread_spec [OF inv o(1,2), of 16] unfolding o(3) len by blast
  have bs: "bs = ?rec" unfolding x(5) room16 [OF a] ..
  have r: "r = 16" using x(4) lr unfolding bs by simp
  obtain name where p: "acct_parse ?rec namesz = (name, Inr b)"
    using bal lr by (auto simp: balance_of_def acct_parse_def asize_def Let_def)
  show ?thesis using x(1-3) r p unfolding bs by (simp add: acct_read_def asize_def)
qed

lemma balance_of_write:
  assumes len: "length B = 16 * n" and a: "a < n" and b: "0 \<le> b" "b \<le> 9999999" and u: "acct_unparse b = Some bs"
  shows "balance_of (overwrite B (a * 16 + 8) bs) a = Inr b"
    and "c \<noteq> a \<Longrightarrow> balance_of (overwrite B (a * 16 + 8) bs) c = balance_of B c"
    and "length (overwrite B (a * 16 + 8) bs) = length B"
proof -
  have lb: "length bs = 8" using acct_unparse_eq [OF b] u by auto
  have fit: "a * 16 + 8 + length bs \<le> length B" using acct_fits [OF a] len lb by simp
  show "length (overwrite B (a * 16 + 8) bs) = length B" by (rule length_overwrite_within [OF fit])
  have "take 16 (drop (a * 16) (overwrite B (a * 16 + 8) bs)) =
      take 8 (drop (a * 16) (overwrite B (a * 16 + 8) bs)) @ take 8 (drop (a * 16 + 8) (overwrite B (a * 16 + 8) bs))"
    using take_add [of 8 8 "drop (a * 16) (overwrite B (a * 16 + 8) bs)"] by (simp add: add.commute)
  also have "take 8 (drop (a * 16 + 8) (overwrite B (a * 16 + 8) bs)) = bs"
    using drop_overwrite [OF fit order_refl, of 8] lb by simp
  finally have rec: "take 16 (drop (a * 16) (overwrite B (a * 16 + 8) bs)) =
      take 8 (drop (a * 16) (overwrite B (a * 16 + 8) bs)) @ bs" .
  have ln: "length (take 8 (drop (a * 16) (overwrite B (a * 16 + 8) bs))) = 8"
    using fit by (simp add: length_overwrite_within)
  show "balance_of (overwrite B (a * 16 + 8) bs) a = Inr b"
    unfolding balance_of_def asize_def rec by (rule acct_parse_unparse [OF ln b u])
  assume "c \<noteq> a"
  then have "c * 16 + 16 \<le> a * 16 + 8 \<or> a * 16 + 8 + length bs \<le> c * 16" using lb by linarith
  then show "balance_of (overwrite B (a * 16 + 8) bs) c = balance_of B c"
    unfolding balance_of_def asize_def by (simp only: take_drop_overwrite_other [OF fit])
qed

lemma acct_write_spec:
  assumes inv: "pinv P \<alpha> pat {} f m" and len: "length (pabs \<alpha> f m) = 16 * n" and a: "a < n"
    and b: "0 \<le> b" "b \<le> 9999999"
  shows "\<exists>f' m'. acct_write P a b f m = Some (0, f', m') \<and> pinv P \<alpha> pat {} f' m'
    \<and> length (pabs \<alpha> f' m') = 16 * n \<and> balance_of (pabs \<alpha> f' m') a = Inr b
    \<and> (\<forall>c. c \<noteq> a \<longrightarrow> balance_of (pabs \<alpha> f' m') c = balance_of (pabs \<alpha> f m) c)"
proof -
  obtain bs where u: "acct_unparse b = Some bs" and lb: "length bs = 8" using acct_unparse_eq [OF b] by blast
  have o: "0 \<le> acct_offset a + 8" "nat (acct_offset a + 8) < length (pabs \<alpha> f m)" "nat (acct_offset a + 8) = a * 16 + 8"
    using acct_fits [OF a] len by (simp_all add: acct_offset_def asize_def nat_add_distrib)
  obtain r f' m' where x: "io61_pwrite P f bs (acct_offset a + 8) m = Some (r, f', m')" "pinv P \<alpha> pat {} f' m'"
    "if r = -1 then pabs \<alpha> f' m' = pabs \<alpha> f m \<and> ({} :: int set) \<noteq> {}
       else r = int (slot_room 8 (a * 16 + 8) (16 * n))
        \<and> pabs \<alpha> f' m' = overwrite (pabs \<alpha> f m) (a * 16 + 8) (take (nat r) bs)
        \<and> length (pabs \<alpha> f' m') = 16 * n"
    using io61_pwrite_spec [OF inv o(1,2), of bs] unfolding o(3) len lb by blast
  have r: "r = 8" and p: "pabs \<alpha> f' m' = overwrite (pabs \<alpha> f m) (a * 16 + 8) bs" and l: "length (pabs \<alpha> f' m') = 16 * n"
    using x(3) lb unfolding room8 [OF a] by (auto split: if_splits)
  have "acct_write P a b f m = Some (0, f', m')" using u x(1) r lb by (simp add: acct_write_def balance_offset_def)
  moreover have "balance_of (pabs \<alpha> f' m') a = Inr b"
    "\<forall>c. c \<noteq> a \<longrightarrow> balance_of (pabs \<alpha> f' m') c = balance_of (pabs \<alpha> f m) c"
    unfolding p using balance_of_write [OF len a b u] by blast+
  ultimately show ?thesis using x(2) l by blast
qed

end
