(* ===== verification/FtxXfer.thy ===== *)
theory FtxXfer
  imports Ftx
begin

text \<open>
  The transfer threads of \<open>src/pset6/ftxxfer.cc\<close>, \<open>ftxrocket.cc\<close> and
  \<open>ftxunlocked.cc\<close>. A thread is at a program point; each library call it makes, with the
  local computation that follows, is one step, because the library holds its mutex for the whole
  call. A thread whose lock conflicts sleeps until an unlock (or a spurious wake-up) wakes it.
  The random draws of a step are its arguments; the amounts that \<open>pick_amount\<close> can give are a set \<open>A\<close> that the
  theorems speak about.
\<close>

section \<open>Threads\<close>

datatype pc = Pick | Lock1 | Lock2 | Read1 | Read2 | Write1 | Write2 | Unlock2 | Unlock1 | Finished

record xthread =
  at :: pc
  aindex1 :: nat
  aindex2 :: nat
  bal1 :: "int option"
  bal2 :: "int option"
  iops :: nat
  asleep :: bool
  locked1 :: bool
  locked2 :: bool

text \<open>\<open>locked1\<close> and \<open>locked2\<close> are the flags \<open>locked\<close> of the two account objects, in the order in which the guards lock
  them.\<close>

definition fresh_thread :: xthread where
  "fresh_thread = \<lparr>at = Pick, aindex1 = 0, aindex2 = 0, bal1 = None, bal2 = None, iops = 0, asleep = False, locked1 = False, locked2 = False\<rparr>"

text \<open>\<open>guard1\<close> locks the account with the smaller index, \<open>guard2\<close> the other.\<close>

definition first_acct :: "xthread \<Rightarrow> nat" where
  "first_acct th = (if aindex1 th < aindex2 th then aindex1 th else aindex2 th)"

definition second_acct :: "xthread \<Rightarrow> nat" where
  "second_acct th = (if aindex1 th < aindex2 th then aindex2 th else aindex1 th)"

definition transfer_delta :: "int \<Rightarrow> int \<Rightarrow> int \<Rightarrow> int" where
  "transfer_delta b1 b2 amount = min (min b1 amount) (9999999 - b2)"

text \<open>The results of the reads and writes are not looked at; a balance that was not read is an
  uninitialised variable (\<open>None\<close> when it is used).\<close>

fun compute :: "xthread \<Rightarrow> int \<Rightarrow> xthread option" where
  "compute th amount = (case (bal1 th, bal2 th) of
     (Some b1, Some b2) \<Rightarrow> (let delta = transfer_delta b1 b2 amount in
        Some (th\<lparr>bal1 := Some (b1 - delta), bal2 := Some (b2 + delta)\<rparr>))
   | _ \<Rightarrow> None)"

definition next_op :: "nat \<Rightarrow> xthread \<Rightarrow> xthread" where
  "next_op nops th = th\<lparr>iops := iops th + 1, at := Pick\<rparr>"

text \<open>A draw: the two accounts for the next transfer, or its amount.\<close>

record draw =
  pick1 :: nat
  pick2 :: nat
  pick_amount :: int

definition pick_step :: "bool \<Rightarrow> nat \<Rightarrow> nat \<Rightarrow> draw \<Rightarrow> xthread \<Rightarrow> xthread option" where
  "pick_step locking naccounts nops r th =
     (if iops th = nops then Some (th\<lparr>at := Finished\<rparr>)
      else if pick1 r = pick2 r then Some th
      else do { assert_ok (pick1 r < naccounts \<and> pick2 r < naccounts);
        Some (th\<lparr>at := (if locking then Lock1 else Read1), aindex1 := pick1 r, aindex2 := pick2 r,
                 bal1 := None, bal2 := None, locked1 := False, locked2 := False\<rparr>) })"

text \<open>One step of the thread \<open>tid\<close>: the thread, the file, the machine, and whether it called
  \<open>notify_all\<close>.\<close>

definition thread_step :: "bool \<Rightarrow> 'w posix \<Rightarrow> nat \<Rightarrow> nat \<Rightarrow> draw \<Rightarrow> nat \<Rightarrow> xthread \<Rightarrow> io61_file \<Rightarrow> 'w machine \<Rightarrow>
    (xthread \<times> io61_file \<times> 'w machine \<times> bool) option" where
  "thread_step locking P naccounts nops r tid th f m = (case at th of
     Pick \<Rightarrow> do { th \<leftarrow> pick_step locking naccounts nops r th; Some (th, f, m, False) }
   | Lock1 \<Rightarrow> do {
       (ok, f) \<leftarrow> acct_lock f tid (first_acct th) (locked1 th);
       Some (if ok then th\<lparr>at := Lock2, locked1 := ok\<rparr> else th\<lparr>asleep := True\<rparr>, f, m, False) }
   | Lock2 \<Rightarrow> do {
       (ok, f) \<leftarrow> acct_lock f tid (second_acct th) (locked2 th);
       Some (if ok then th\<lparr>at := Read1, locked2 := ok\<rparr> else th\<lparr>asleep := True\<rparr>, f, m, False) }
   | Read1 \<Rightarrow> do {
       (_, _, b, f, m) \<leftarrow> acct_read P (aindex1 th) 0 f m;
       Some (th\<lparr>bal1 := b, at := Read2\<rparr>, f, m, False) }
   | Read2 \<Rightarrow> do {
       (_, _, b, f, m) \<leftarrow> acct_read P (aindex2 th) 0 f m;
       th \<leftarrow> compute (th\<lparr>bal2 := b\<rparr>) (pick_amount r);
       Some (th\<lparr>at := Write1\<rparr>, f, m, False) }
   | Write1 \<Rightarrow> do {
       b \<leftarrow> bal1 th;
       (_, f, m) \<leftarrow> acct_write P (aindex1 th) b f m;
       Some (th\<lparr>at := Write2\<rparr>, f, m, False) }
   | Write2 \<Rightarrow> do {
       b \<leftarrow> bal2 th;
       (_, f, m) \<leftarrow> acct_write P (aindex2 th) b f m;
       Some (if locking then th\<lparr>at := Unlock2\<rparr> else next_op nops th, f, m, False) }
   | Unlock2 \<Rightarrow> do {
       (l, f) \<leftarrow> acct_unlock f tid (second_acct th) (locked2 th);
       Some (th\<lparr>at := Unlock1, locked2 := l\<rparr>, f, m, True) }
   | Unlock1 \<Rightarrow> do {
       (l, f) \<leftarrow> acct_unlock f tid (first_acct th) (locked1 th);
       Some (next_op nops (th\<lparr>locked1 := l\<rparr>), f, m, True) }
   | Finished \<Rightarrow> Some (th, f, m, False))"

text \<open>\<open>transfer_thread\<close> is the same text in \<open>ftxxfer.cc\<close>, \<open>ftxrocket.cc\<close> and
  \<open>ftxblockchain.cc\<close> (up to the ledger), and in \<open>ftxunlocked.cc\<close> without the guards.\<close>

definition rocket_step :: "'w posix \<Rightarrow> nat \<Rightarrow> nat \<Rightarrow> draw \<Rightarrow> nat \<Rightarrow> xthread \<Rightarrow> io61_file \<Rightarrow> 'w machine \<Rightarrow>
    (xthread \<times> io61_file \<times> 'w machine \<times> bool) option" where
  "rocket_step = thread_step True"

definition unlocked_step :: "'w posix \<Rightarrow> nat \<Rightarrow> nat \<Rightarrow> draw \<Rightarrow> nat \<Rightarrow> xthread \<Rightarrow> io61_file \<Rightarrow> 'w machine \<Rightarrow>
    (xthread \<times> io61_file \<times> 'w machine \<times> bool) option" where
  "unlocked_step = thread_step False"

text \<open>The draws of \<open>sbf_transfer_thread\<close>: the kind \<open>t\<close> of the transfer, the first account \<open>a\<close>
  and the successive draws \<open>bs\<close> of one of the three house accounts (\<open>None\<close> when they run out).\<close>

definition sbf_pair :: "nat \<Rightarrow> nat \<Rightarrow> nat list \<Rightarrow> (nat \<times> nat) option" where
  "sbf_pair t a bs = (if t < 90
     then (case dropWhile (\<lambda>b. b = a) bs of [] \<Rightarrow> None | b # _ \<Rightarrow> Some (a, b))
     else (case bs of [] \<Rightarrow> None | b # _ \<Rightarrow> Some (a, b)))"

definition sbf_step :: "'w posix \<Rightarrow> nat \<Rightarrow> nat \<Rightarrow> nat \<Rightarrow> nat \<Rightarrow> nat list \<Rightarrow> int \<Rightarrow> nat \<Rightarrow> xthread \<Rightarrow> io61_file \<Rightarrow> 'w machine \<Rightarrow>
    (xthread \<times> io61_file \<times> 'w machine \<times> bool) option" where
  "sbf_step P naccounts nops t a bs amount tid th f m = do {
     (a, b) \<leftarrow> sbf_pair t a bs;
     thread_step True P naccounts nops \<lparr>pick1 = a, pick2 = b, pick_amount = amount\<rparr> tid th f m }"

text \<open>The house's transfers never name the same account twice, so each is one of the draws above.\<close>

lemma sbf_pair_ok:
  assumes "sbf_pair t a bs = Some (a', b)" and "\<forall>b \<in> set bs. b < 3" and "if t < 90 then a < 3 else 3 \<le> a \<and> a < n" and "3 \<le> n"
  shows "a' \<noteq> b \<and> a' < n \<and> b < n"
proof (cases "t < 90")
  case True
  then obtain c cs where d: "dropWhile (\<lambda>b. b = a) bs = c # cs" "a' = a" "b = c"
    using assms(1) by (auto simp: sbf_pair_def split: list.splits)
  have "c \<in> set bs" by (rule set_dropWhileD [of c "\<lambda>b. b = a"]) (simp add: d(1))
  then have "c < 3" using assms(2) by blast
  moreover have "c \<noteq> a" using hd_dropWhile [of "\<lambda>b. b = a" bs] d(1) by simp
  ultimately show ?thesis using d(2,3) assms(3,4) True by simp
next
  case False
  then obtain c cs where "bs = c # cs" "a' = a" "b = c" using assms(1) by (auto simp: sbf_pair_def split: list.splits)
  then show ?thesis using assms(2-4) False by simp
qed

text \<open>The two lines that \<open>ftxblockchain.cc\<close> adds to its ledger for a transfer:
  \<open>"%-7s %+7ld"\<close> for each account. The entry must be 32 bytes.\<close>

definition ledger_line :: "u8 list \<Rightarrow> int \<Rightarrow> u8 list" where
  "ledger_line name d = (let num = (if d < 0 then 45 else 43) # dec_digits (nat \<bar>d\<bar>) in
     name @ replicate (7 - length name) 32 @ [32] @ replicate (7 - length num) 32 @ num @ [10])"

definition ledger_entry :: "u8 list \<Rightarrow> u8 list \<Rightarrow> int \<Rightarrow> u8 list option" where
  "ledger_entry name1 name2 delta = do {
     let report = ledger_line name1 (- delta) @ ledger_line name2 delta;
     assert_ok (length report = asize * 2);
     Some report }"

lemma ledger_entry_ok:
  assumes "length name1 \<le> 7" and "length name2 \<le> 7" and "\<bar>delta\<bar> < 1000000"
  shows "ledger_entry name1 name2 delta = Some (ledger_line name1 (- delta) @ ledger_line name2 delta)"
proof -
  have "nat \<bar>delta\<bar> < 10 ^ 6" using assms(3) by simp
  then have "length (dec_digits (nat \<bar>delta\<bar>)) \<le> 6" by (rule length_dec_digits) simp
  then show ?thesis using assms(1,2) by (simp add: ledger_entry_def ledger_line_def asize_def assert_ok_def Let_def)
qed

section \<open>The system of threads\<close>

record 'w xsys =
  xfile :: io61_file
  xmach :: "'w machine"
  threads :: "xthread list"

definition wake :: "xthread \<Rightarrow> xthread" where
  "wake th = th\<lparr>asleep := False\<rparr>"

definition sys_run :: "bool \<Rightarrow> 'w posix \<Rightarrow> nat \<Rightarrow> nat \<Rightarrow> draw \<Rightarrow> nat \<Rightarrow> 'w xsys \<Rightarrow> 'w xsys option" where
  "sys_run locking P naccounts nops r tid s = do {
     (th, f, m, notify) \<leftarrow> thread_step locking P naccounts nops r tid (threads s ! tid) (xfile s) (xmach s);
     let ths = (threads s)[tid := th];
     Some \<lparr>xfile = f, xmach = m, threads = (if notify then map wake ths else ths)\<rparr> }"

text \<open>What a step can draw: \<open>pick_account\<close> gives a number of an account, \<open>pick_amount\<close> an amount of \<open>A\<close>. (Its
  normal distribution can give any number.)\<close>

definition draw_ok :: "nat \<Rightarrow> int set \<Rightarrow> draw \<Rightarrow> bool" where
  "draw_ok naccounts A r \<longleftrightarrow> pick1 r < naccounts \<and> pick2 r < naccounts \<and> pick_amount r \<in> A"

definition runnable :: "'w xsys \<Rightarrow> nat \<Rightarrow> bool" where
  "runnable s tid \<longleftrightarrow> tid < length (threads s) \<and> \<not> asleep (threads s ! tid) \<and> at (threads s ! tid) \<noteq> Finished"

inductive sys_step :: "bool \<Rightarrow> 'w posix \<Rightarrow> nat \<Rightarrow> nat \<Rightarrow> int set \<Rightarrow> 'w xsys \<Rightarrow> 'w xsys \<Rightarrow> bool" for locking P naccounts nops A where
  run: "runnable s tid \<Longrightarrow> draw_ok naccounts A r \<Longrightarrow> sys_run locking P naccounts nops r tid s = Some s' \<Longrightarrow>
    sys_step locking P naccounts nops A s s'"
| spurious: "tid < length (threads s) \<Longrightarrow>
    sys_step locking P naccounts nops A s (s\<lparr>threads := (threads s)[tid := wake (threads s ! tid)]\<rparr>)"

definition sys_start :: "io61_file \<Rightarrow> 'w machine \<Rightarrow> nat \<Rightarrow> 'w xsys" where
  "sys_start f m nthreads = \<lparr>xfile = f, xmach = m, threads = replicate nthreads fresh_thread\<rparr>"

abbreviation sys_steps :: "bool \<Rightarrow> 'w posix \<Rightarrow> nat \<Rightarrow> nat \<Rightarrow> int set \<Rightarrow> 'w xsys \<Rightarrow> 'w xsys \<Rightarrow> bool" where
  "sys_steps locking P naccounts nops A \<equiv> (sys_step locking P naccounts nops A)\<^sup>*\<^sup>*"

text \<open>The ledger of the locks: what each thread holds at its program point.\<close>

definition acct_range :: "nat \<Rightarrow> nat \<Rightarrow> nat \<times> int \<times> int" where
  "acct_range tid a = (tid, int (a * 16), 16)"

definition locks_of :: "nat \<Rightarrow> xthread \<Rightarrow> held" where
  "locks_of tid th = (case at th of
     Pick \<Rightarrow> {#} | Lock1 \<Rightarrow> {#} | Finished \<Rightarrow> {#}
   | Lock2 \<Rightarrow> {#acct_range tid (first_acct th)#} | Unlock1 \<Rightarrow> {#acct_range tid (first_acct th)#}
   | _ \<Rightarrow> {#acct_range tid (first_acct th), acct_range tid (second_acct th)#})"

definition all_locks :: "xthread list \<Rightarrow> held" where
  "all_locks ths = (\<Sum>tid < length ths. locks_of tid (ths ! tid))"

section \<open>The invariant\<close>

abbreviation max_balance :: int where "max_balance \<equiv> 9999999"

text \<open>The accounts a thread has locked for its transfer, and the flags of its account objects.\<close>

definition uses :: "xthread \<Rightarrow> nat \<Rightarrow> bool" where
  "uses th a \<longleftrightarrow> at th \<in> {Read1, Read2, Write1, Write2, Unlock2} \<and> (a = aindex1 th \<or> a = aindex2 th)"

definition flags_ok :: "xthread \<Rightarrow> bool" where
  "flags_ok th \<longleftrightarrow> (at th \<notin> {Pick, Finished} \<longrightarrow> locked1 th = (at th \<noteq> Lock1) \<and> locked2 th = (at th \<notin> {Lock1, Lock2, Unlock1}))"

definition th_ok :: "nat \<Rightarrow> (nat \<Rightarrow> int) \<Rightarrow> xthread \<Rightarrow> bool" where
  "th_ok n v th \<longleftrightarrow>
     (at th \<notin> {Pick, Finished} \<longrightarrow> aindex1 th < n \<and> aindex2 th < n \<and> aindex1 th \<noteq> aindex2 th)
   \<and> (at th = Read2 \<longrightarrow> bal1 th = Some (v (aindex1 th)))
   \<and> (at th = Write1 \<longrightarrow> (\<exists>b1 b2. bal1 th = Some b1 \<and> bal2 th = Some b2 \<and> 0 \<le> b1 \<and> b1 \<le> max_balance
        \<and> 0 \<le> b2 \<and> b2 \<le> max_balance \<and> b1 + b2 = v (aindex1 th) + v (aindex2 th)))
   \<and> (at th = Write2 \<longrightarrow> (\<exists>b2. bal2 th = Some b2 \<and> 0 \<le> b2 \<and> b2 \<le> max_balance))
   \<and> flags_ok th"

text \<open>Between the two writes, the money that has left the first account and not yet reached the
  second.\<close>

definition in_flight :: "(nat \<Rightarrow> int) \<Rightarrow> xthread \<Rightarrow> int" where
  "in_flight v th = (if at th = Write2 then the (bal2 th) - v (aindex2 th) else 0)"

definition money_ok :: "nat \<Rightarrow> int \<Rightarrow> (nat \<Rightarrow> int) \<Rightarrow> xthread list \<Rightarrow> bool" where
  "money_ok n T v ths \<longleftrightarrow> (\<forall>a < n. 0 \<le> v a \<and> v a \<le> max_balance)
     \<and> (\<forall>tid < length ths. th_ok n v (ths ! tid))
     \<and> (\<Sum>a < n. v a) + (\<Sum>tid < length ths. in_flight v (ths ! tid)) = T"

definition accts_at :: "'w posix \<Rightarrow> ('w \<Rightarrow> afile) \<Rightarrow> ('w \<Rightarrow> nat) \<Rightarrow> nat \<Rightarrow> (nat \<Rightarrow> int) \<Rightarrow> io61_file \<Rightarrow> 'w machine \<Rightarrow> bool" where
  "accts_at P \<alpha> pat n v f m \<longleftrightarrow> pinv P \<alpha> pat {} f m \<and> length (pabs \<alpha> f m) = 16 * n
     \<and> (\<forall>a < n. balance_of (pabs \<alpha> f m) a = Inr (v a))"

definition wanted :: "xthread \<Rightarrow> nat" where
  "wanted th = (if at th = Lock1 then first_acct th else second_acct th)"

definition sleep_ok :: "io61_file \<Rightarrow> xthread list \<Rightarrow> bool" where
  "sleep_ok f ths \<longleftrightarrow> (\<forall>tid < length ths. asleep (ths ! tid) \<longrightarrow>
     at (ths ! tid) \<in> {Lock1, Lock2} \<and> conflict f (all_locks ths) tid (int (wanted (ths ! tid) * 16)) 16)"

definition lockable :: "nat \<Rightarrow> io61_file \<Rightarrow> bool" where
  "lockable n f \<longleftrightarrow> 0 < chunk_sz f \<and> int (16 * n) \<le> int nchunks * chunk_sz f"

definition xinv :: "'w posix \<Rightarrow> ('w \<Rightarrow> afile) \<Rightarrow> ('w \<Rightarrow> nat) \<Rightarrow> nat \<Rightarrow> int \<Rightarrow> 'w xsys \<Rightarrow> bool" where
  "xinv P \<alpha> pat n T s \<longleftrightarrow> (\<exists>v. accts_at P \<alpha> pat n v (xfile s) (xmach s) \<and> money_ok n T v (threads s))
     \<and> lockable n (xfile s) \<and> lock_inv (xfile s) (all_locks (threads s)) \<and> sleep_ok (xfile s) (threads s)"

lemma lockable_range: "lockable n f \<Longrightarrow> a < n \<Longrightarrow> in_range f (int (a * 16)) 16"
  unfolding lockable_def in_range_def by (simp; linarith)

lemma first_lt: "aindex1 th \<noteq> aindex2 th \<Longrightarrow> first_acct th < second_acct th"
  by (auto simp: first_acct_def second_acct_def)

lemma accts_of: "th_ok n v th \<Longrightarrow> at th \<notin> {Pick, Finished} \<Longrightarrow> first_acct th < n \<and> second_acct th < n \<and> first_acct th < second_acct th"
  by (auto simp: first_acct_def second_acct_def th_ok_def)

subsection \<open>Replacing one thread\<close>

lemma sum_update:
  assumes "k < length xs"
  shows "(\<Sum>i < length (xs[k := x]). g i (xs[k := x] ! i)) + g k (xs ! k)
    = (\<Sum>i < length xs. g i (xs ! i)) + (g k x :: 'a :: comm_monoid_add)"
proof -
  have k: "k \<in> {..< length xs}" "finite {..< length xs}" using assms by simp_all
  have "(\<Sum>i \<in> {..< length xs} - {k}. g i (xs[k := x] ! i)) = (\<Sum>i \<in> {..< length xs} - {k}. g i (xs ! i))"
    by (rule sum.cong) auto
  then show ?thesis
    using sum.remove [OF k(2,1), of "\<lambda>i. g i (xs[k := x] ! i)"] sum.remove [OF k(2,1), of "\<lambda>i. g i (xs ! i)"] assms
    by (simp add: ac_simps)
qed

lemma all_locks_update:
  "k < length ths \<Longrightarrow> all_locks (ths[k := th]) + locks_of k (ths ! k) = all_locks ths + locks_of k th"
  unfolding all_locks_def by (rule sum_update)

lemma locks_wake [simp]: "locks_of tid (wake th) = locks_of tid th"
  by (simp add: locks_of_def wake_def acct_range_def first_acct_def second_acct_def split: pc.split)

lemma all_locks_wake [simp]: "all_locks (map wake ths) = all_locks ths"
  by (simp add: all_locks_def)

lemma locks_of_in: "tid < length ths \<Longrightarrow> x \<in># locks_of tid (ths ! tid) \<Longrightarrow> x \<in># all_locks ths"
  unfolding all_locks_def by (subst sum.remove [of _ tid]) auto

lemma all_locks_from: "x \<in># all_locks ths \<Longrightarrow> \<exists>tid < length ths. x \<in># locks_of tid (ths ! tid)"
  unfolding all_locks_def by (simp add: set_mset_sum) blast

lemma locks_of_fst: "(t, s, l) \<in># locks_of tid th \<Longrightarrow> t = tid"
  by (auto simp: locks_of_def acct_range_def split: pc.splits)

lemma conflict_mono: "H \<subseteq># H' \<Longrightarrow> conflict f H tid s l \<Longrightarrow> conflict f H' tid s l"
  unfolding conflict_def using mset_subset_eqD by meson

lemma money_update:
  assumes "money_ok n T v ths" and k: "k < length ths" and "th_ok n v' th" and "\<forall>a < n. 0 \<le> v' a \<and> v' a \<le> max_balance"
    and others: "\<And>j. j < length ths \<Longrightarrow> j \<noteq> k \<Longrightarrow> th_ok n v' (ths ! j) \<and> in_flight v' (ths ! j) = in_flight v (ths ! j)"
    and total: "(\<Sum>a < n. v' a) + in_flight v' th = (\<Sum>a < n. v a) + in_flight v (ths ! k)"
  shows "money_ok n T v' (ths[k := th])"
proof -
  let ?v = "\<lambda>i t. if i = k then in_flight v' t else in_flight v t"
  have "(\<Sum>i < length ths. in_flight v' (ths[k := th] ! i)) = (\<Sum>i < length ths. ?v i (ths[k := th] ! i))"
    using others k by (intro sum.cong) (auto simp: nth_list_update)
  moreover have "(\<Sum>i < length ths. in_flight v' (ths[k := th] ! i)) - in_flight v' th
      = (\<Sum>i < length ths. in_flight v (ths ! i)) - in_flight v (ths ! k)"
  proof -
    have kk: "k \<in> {..< length ths}" using k by simp
    have "(\<Sum>i \<in> {..< length ths} - {k}. in_flight v' (ths[k := th] ! i)) = (\<Sum>i \<in> {..< length ths} - {k}. in_flight v (ths ! i))"
      using others by (intro sum.cong) auto
    then show ?thesis
      using sum.remove [OF _ kk, of "\<lambda>i. in_flight v' (ths[k := th] ! i)"] sum.remove [OF _ kk, of "\<lambda>i. in_flight v (ths ! i)"] k
      by simp
  qed
  ultimately show ?thesis using assms unfolding money_ok_def by (auto simp: nth_list_update)
qed

text \<open>The locks keep two threads apart.\<close>

lemma uses_locks: "uses th a \<Longrightarrow> acct_range tid a \<in># locks_of tid th"
  by (auto simp: uses_def locks_of_def first_acct_def second_acct_def)

lemma uses_exclusive:
  assumes "lock_inv f (all_locks ths)" and "lockable n f" and "a < n" and "j < length ths" and "k < length ths"
    and "uses (ths ! j) a" and "uses (ths ! k) a"
  shows "j = k"
proof -
  have x: "acct_range j a \<in># all_locks ths" "acct_range k a \<in># all_locks ths"
    using locks_of_in [OF assms(4) uses_locks [OF assms(6)]] locks_of_in [OF assms(5) uses_locks [OF assms(7)]] by blast+
  have r: "in_range f (int (a * 16)) 16" by (rule lockable_range [OF assms(2,3)])
  define i where "i = nat (int (a * 16) div chunk_sz f)"
  have i: "i \<in> set (chunks f (int (a * 16)) 16)"
    unfolding i_def using r by (intro chunk_of_byte) (simp_all add: in_range_def)
  have "i < nchunks" by (rule in_range_chunks [OF r i])
  moreover have "covers f i (acct_range j a)" "covers f i (acct_range k a)"
    using i by (simp_all add: covers_def acct_range_def)
  ultimately have "owner f i = j" "owner f i = k"
    using assms(1) x unfolding lock_inv_def by (fastforce simp: acct_range_def)+
  then show ?thesis by simp
qed

lemma th_ok_cong:
  assumes "\<not> uses th a"
  shows "th_ok n (v(a := x)) th = th_ok n v th" and "in_flight (v(a := x)) th = in_flight v th"
  using assms by (auto simp: th_ok_def in_flight_def uses_def)

subsection \<open>Each step keeps it\<close>

lemma sleep_update:
  assumes "sleep_ok f ths" and k: "k < length ths" and "chunk_sz f' = chunk_sz f"
    and sub: "locks_of k (ths ! k) \<subseteq># locks_of k th"
    and own: "asleep th \<Longrightarrow> at th \<in> {Lock1, Lock2} \<and> conflict f' (all_locks (ths[k := th])) k (int (wanted th * 16)) 16"
  shows "sleep_ok f' (ths[k := th])"
proof -
  obtain D where D: "locks_of k th = locks_of k (ths ! k) + D" using sub by (metis mset_subset_eq_exists_conv)
  have "all_locks (ths[k := th]) = all_locks ths + D" using all_locks_update [OF k, of th] D by (simp add: ac_simps)
  then have more: "all_locks ths \<subseteq># all_locks (ths[k := th])" by simp
  show ?thesis
    unfolding sleep_ok_def
  proof (intro allI impI)
    fix tid assume t: "tid < length (ths[k := th])" and a: "asleep (ths[k := th] ! tid)"
    show "at (ths[k := th] ! tid) \<in> {Lock1, Lock2}
      \<and> conflict f' (all_locks (ths[k := th])) tid (int (wanted (ths[k := th] ! tid) * 16)) 16"
    proof (cases "tid = k")
      case True
      then show ?thesis using own a t by simp
    next
      case False
      then have e: "ths[k := th] ! tid = ths ! tid" by simp
      have "at (ths ! tid) \<in> {Lock1, Lock2} \<and> conflict f (all_locks ths) tid (int (wanted (ths ! tid) * 16)) 16"
        using assms(1) t a unfolding sleep_ok_def e by simp
      then show ?thesis unfolding e using conflict_mono [OF more] same_locks_conflict [OF assms(3)] by blast
    qed
  qed
qed

lemma xinv_quiet:
  assumes ac: "accts_at P \<alpha> pat n v' f' m'" and mo: "money_ok n T v' (ths[k := th])" and sl: "same_locks f f'"
    and lk: "lockable n f" and li: "lock_inv f (all_locks ths)" and so: "sleep_ok f ths" and k: "k < length ths"
    and same: "locks_of k th = locks_of k (ths ! k)" and awake: "\<not> asleep th"
  shows "xinv P \<alpha> pat n T \<lparr>xfile = f', xmach = m', threads = ths[k := th]\<rparr>"
proof -
  have "all_locks (ths[k := th]) = all_locks ths" using all_locks_update [OF k, of th] same by simp
  moreover have "sleep_ok f' (ths[k := th])"
    using sl same awake by (intro sleep_update [OF so k]) (simp_all add: same_locks_def)
  moreover have "lockable n f'" using lk sl by (simp add: lockable_def same_locks_def)
  ultimately show ?thesis using ac mo li same_locks_inv [OF sl] by (auto simp: xinv_def)
qed

text \<open>Between two states that differ in the locks only, the accounts are the same.\<close>

lemma accts_at_locks:
  assumes "accts_at P \<alpha> pat n v f m" and "f' = f\<lparr>nlocked := x, owner := y\<rparr>"
  shows "accts_at P \<alpha> pat n v f' m"
proof -
  have c: "cached f' = cached f" unfolding assms(2) by (simp add: cached_def)
  have "pinv P \<alpha> pat {} f' m = pinv P \<alpha> pat {} f m" unfolding pinv_def c unfolding assms(2) by simp
  moreover have "pabs \<alpha> f' m = pabs \<alpha> f m" unfolding pabs_def c unfolding assms(2) by simp
  ultimately show ?thesis using assms(1) by (simp add: accts_at_def)
qed

text \<open>A chunk is counted at most twice, since one thread has all its counts.\<close>

lemma filter_all_locks: "size (filter_mset (\<lambda>x. fst x = t) (all_locks ths)) \<le> 2"
proof -
  have own: "filter_mset (\<lambda>x. fst x = t) (locks_of j th) = (if j = t then locks_of j th else {#})" for j th
    by (auto simp: filter_mset_eq_mempty_iff filter_mset_eq_conv dest: locks_of_fst)
  have "filter_mset Q (\<Sum>j < n. g j) = (\<Sum>j < n. filter_mset Q (g j))" for Q n and g :: "nat \<Rightarrow> held"
    by (induction n) simp_all
  then have "filter_mset (\<lambda>x. fst x = t) (all_locks ths) = (\<Sum>j < length ths. if j = t then locks_of j (ths ! j) else {#})"
    by (simp add: all_locks_def own)
  also have "\<dots> = (if t < length ths then locks_of t (ths ! t) else {#})" by (simp add: sum.delta')
  finally show ?thesis by (simp add: locks_of_def split: pc.split)
qed

lemma locks_count: "lock_inv f (all_locks ths) \<Longrightarrow> i < nchunks \<Longrightarrow> nlocked f i \<le> 2"
proof -
  assume li: "lock_inv f (all_locks ths)" and i: "i < nchunks"
  have "filter_mset (covers f i) (all_locks ths) = filter_mset (covers f i) (filter_mset (\<lambda>x. fst x = owner f i) (all_locks ths))"
    using li i unfolding filter_filter_mset lock_inv_def by (intro filter_mset_cong) auto
  moreover have "size (filter_mset (covers f i) M) \<le> size M" for M by (rule size_mset_mono) simp
  ultimately have "size (filter_mset (covers f i) (all_locks ths)) \<le> 2" using filter_all_locks [of "owner f i" ths] le_trans by metis
  then show "nlocked f i \<le> 2" using li i by (simp add: lock_inv_def)
qed

lemma acct_lock_spec:
  assumes li: "lock_inv f (all_locks ths)" and lk: "lockable n f" and a: "a < n"
  shows "if conflict f (all_locks ths) tid (int (a * 16)) 16 then acct_lock f tid a False = Some (False, f)
    else (\<exists>f'. acct_lock f tid a False = Some (True, f') \<and> lock_inv f' (add_mset (acct_range tid a) (all_locks ths))
      \<and> f' = f\<lparr>nlocked := nlocked f', owner := owner f'\<rparr>)"
proof -
  have "nlocked f i < INT_MAX" if "i \<in> set (chunks f (int (a * 16)) 16)" for i
    using locks_count [OF li in_range_chunks [OF lockable_range [OF lk a] that]] by simp
  then show ?thesis
    using io61_lock_spec [OF li lockable_range [OF lk a], of LOCK_EX tid]
    by (auto simp: acct_lock_def acct_offset_def asize_def acct_range_def assert_ok_def split: if_splits)
qed

lemma acct_unlock_spec:
  assumes li: "lock_inv f H" and h: "acct_range tid a \<in># H"
  shows "\<exists>f'. acct_unlock f tid a True = Some (False, f') \<and> lock_inv f' (H - {#acct_range tid a#})
    \<and> f' = f\<lparr>nlocked := nlocked f', owner := owner f'\<rparr>"
proof -
  obtain f' where x: "io61_unlock f tid (int (a * 16)) 16 = Some (0, f')" "lock_inv f' (H - {#acct_range tid a#})"
    "f' = f\<lparr>nlocked := nlocked f'\<rparr>"
    using io61_unlock_spec [OF li h [unfolded acct_range_def]] unfolding acct_range_def by blast
  have "owner f' = owner f" by (subst x(3)) simp
  then have "f' = f\<lparr>nlocked := nlocked f', owner := owner f'\<rparr>" using x(3) by simp
  then show ?thesis using x(1,2) by (auto simp: acct_unlock_def acct_offset_def asize_def assert_ok_def)
qed

lemma money_same:
  assumes "money_ok n T v ths" and "k < length ths" and "th_ok n v th" and "in_flight v th = in_flight v (ths ! k)"
  shows "money_ok n T v (ths[k := th])"
  using assms by (intro money_update [OF assms(1)]) (auto simp: money_ok_def)

lemma wake_simps [simp]:
  "flags_ok (wake th) = flags_ok th" "th_ok n v (wake th) = th_ok n v th" "in_flight v (wake th) = in_flight v th" "\<not> asleep (wake th)"
  "at (wake th) = at th" "iops (wake th) = iops th"
  by (simp_all add: flags_ok_def th_ok_def in_flight_def wake_def)

lemma money_wake: "money_ok n T v (map wake ths) = money_ok n T v ths"
  by (simp add: money_ok_def)

definition step_ok :: "'w posix \<Rightarrow> ('w \<Rightarrow> afile) \<Rightarrow> ('w \<Rightarrow> nat) \<Rightarrow> nat \<Rightarrow> int \<Rightarrow> nat \<Rightarrow> draw \<Rightarrow> nat \<Rightarrow> 'w xsys \<Rightarrow> bool" where
  "step_ok P \<alpha> pat n T nops r k s \<longleftrightarrow> (\<exists>s'. sys_run True P n nops r k s = Some s' \<and> xinv P \<alpha> pat n T s'
     \<and> length (threads s') = length (threads s))"

lemma step_okI:
  assumes "thread_step True P n nops r k (ths ! k) f m = Some (th, f', m', nt)"
    and "xinv P \<alpha> pat n T \<lparr>xfile = f', xmach = m', threads = (if nt then map wake (ths[k := th]) else ths[k := th])\<rparr>"
  shows "step_ok P \<alpha> pat n T nops r k \<lparr>xfile = f, xmach = m, threads = ths\<rparr>"
  using assms by (simp add: step_ok_def sys_run_def Let_def)

lemma xinvD:
  assumes "xinv P \<alpha> pat n T \<lparr>xfile = f, xmach = m, threads = ths\<rparr>"
  obtains v where "accts_at P \<alpha> pat n v f m" "money_ok n T v ths" "lockable n f" "lock_inv f (all_locks ths)" "sleep_ok f ths"
  using assms by (auto simp: xinv_def)

lemma step_pick:
  assumes inv: "xinv P \<alpha> pat n T \<lparr>xfile = f, xmach = m, threads = ths\<rparr>" and k: "k < length ths"
    and r: "draw_ok n A r" and pc: "at (ths ! k) = Pick" and aw: "\<not> asleep (ths ! k)"
  shows "step_ok P \<alpha> pat n T nops r k \<lparr>xfile = f, xmach = m, threads = ths\<rparr>"
proof -
  obtain v where v: "accts_at P \<alpha> pat n v f m" "money_ok n T v ths" and l: "lockable n f" "lock_inv f (all_locks ths)" "sleep_ok f ths"
    using inv by (rule xinvD)
  have ok: "th_ok n v (ths ! k)" using v(2) k by (simp add: money_ok_def)
  define th where "th = (if iops (ths ! k) = nops then (ths ! k)\<lparr>at := Finished\<rparr>
    else if pick1 r = pick2 r then ths ! k
    else (ths ! k)\<lparr>at := Lock1, aindex1 := pick1 r, aindex2 := pick2 r, bal1 := None, bal2 := None,
      locked1 := False, locked2 := False\<rparr>)"
  have st: "thread_step True P n nops r k (ths ! k) f m = Some (th, f, m, False)"
    using r pc by (simp add: thread_step_def pick_step_def draw_ok_def assert_ok_def th_def)
  have "flags_ok th" using pc by (simp add: flags_ok_def th_def)
  then have t: "th_ok n v th" "in_flight v th = 0" "locks_of k th = {#}" "\<not> asleep th"
    using r pc aw by (simp_all add: th_def draw_ok_def th_ok_def in_flight_def locks_of_def)
  have "xinv P \<alpha> pat n T \<lparr>xfile = f, xmach = m, threads = ths[k := th]\<rparr>"
    using t pc by (intro xinv_quiet [OF v(1) money_same [OF v(2) k] same_locks_refl l k])
      (simp_all add: in_flight_def locks_of_def)
  then show ?thesis by (intro step_okI [OF st]) simp
qed

lemma step_lock:
  assumes inv: "xinv P \<alpha> pat n T \<lparr>xfile = f, xmach = m, threads = ths\<rparr>" and k: "k < length ths"
    and pc: "at (ths ! k) = Lock1 \<or> at (ths ! k) = Lock2" and aw: "\<not> asleep (ths ! k)"
  shows "step_ok P \<alpha> pat n T nops r k \<lparr>xfile = f, xmach = m, threads = ths\<rparr>"
proof -
  obtain v where v: "accts_at P \<alpha> pat n v f m" "money_ok n T v ths" and l: "lockable n f" "lock_inv f (all_locks ths)" "sleep_ok f ths"
    using inv by (rule xinvD)
  have ok: "th_ok n v (ths ! k)" using v(2) k by (simp add: money_ok_def)
  define a where "a = wanted (ths ! k)"
  have an: "a < n" using ok pc accts_of [OF ok] by (auto simp: a_def wanted_def)
  have fk: "flags_ok (ths ! k)" using ok by (simp add: th_ok_def)
  have fl: "if at (ths ! k) = Lock1 then \<not> locked1 (ths ! k) else \<not> locked2 (ths ! k)" using fk pc by (auto simp: flags_ok_def)
  show ?thesis
  proof (cases "conflict f (all_locks ths) k (int (a * 16)) 16")
    case True
    let ?th = "(ths ! k)\<lparr>asleep := True\<rparr>"
    have st: "thread_step True P n nops r k (ths ! k) f m = Some (?th, f, m, False)"
      using True acct_lock_spec [OF l(2,1) an, of k] pc fl by (auto simp: thread_step_def a_def wanted_def)
    have "flags_ok ?th" using fk by (simp add: flags_ok_def)
    then have t: "th_ok n v ?th" "in_flight v ?th = in_flight v (ths ! k)" "locks_of k ?th = locks_of k (ths ! k)" "wanted ?th = a"
      using ok pc by (auto simp: th_ok_def in_flight_def locks_of_def a_def wanted_def first_acct_def second_acct_def split: pc.split)
    have al: "all_locks (ths[k := ?th]) = all_locks ths" using all_locks_update [OF k, of ?th] t(3) by simp
    have "sleep_ok f (ths[k := ?th])"
      using True pc by (intro sleep_update [OF l(3) k]) (simp_all add: t al)
    then have "xinv P \<alpha> pat n T \<lparr>xfile = f, xmach = m, threads = ths[k := ?th]\<rparr>"
      using v(1) money_same [OF v(2) k t(1,2)] l al by (auto simp: xinv_def)
    then show ?thesis by (intro step_okI [OF st]) simp
  next
    case False
    obtain f' where f': "acct_lock f k a False = Some (True, f')" "lock_inv f' (add_mset (acct_range k a) (all_locks ths))"
      "f' = f\<lparr>nlocked := nlocked f', owner := owner f'\<rparr>"
      using False acct_lock_spec [OF l(2,1) an, of k] by auto
    define th where "th = (if at (ths ! k) = Lock1 then (ths ! k)\<lparr>at := Lock2, locked1 := True\<rparr> else (ths ! k)\<lparr>at := Read1, locked2 := True\<rparr>)"
    have st: "thread_step True P n nops r k (ths ! k) f m = Some (th, f', m, False)"
      using f'(1) pc fl by (auto simp: thread_step_def a_def wanted_def th_def)
    have "flags_ok th" using fk pc by (auto simp: flags_ok_def th_def)
    then have t: "th_ok n v th" "in_flight v th = in_flight v (ths ! k)" "locks_of k th = add_mset (acct_range k a) (locks_of k (ths ! k))" "\<not> asleep th"
      using ok pc aw by (auto simp: th_ok_def in_flight_def locks_of_def a_def wanted_def th_def first_acct_def second_acct_def add_mset_commute)
    have al: "all_locks (ths[k := th]) = add_mset (acct_range k a) (all_locks ths)"
      using all_locks_update [OF k, of th] unfolding t(3) by simp
    have cs: "chunk_sz f' = chunk_sz f" by (subst f'(3)) simp
    have "sleep_ok f' (ths[k := th])" using t by (intro sleep_update [OF l(3) k cs]) simp_all
    moreover have "lockable n f'" using l(1) cs by (simp add: lockable_def)
    ultimately have "xinv P \<alpha> pat n T \<lparr>xfile = f', xmach = m, threads = ths[k := th]\<rparr>"
      using accts_at_locks [OF v(1) f'(3)] money_same [OF v(2) k t(1,2)] f'(2) al by (auto simp: xinv_def)
    then show ?thesis by (intro step_okI [OF st]) simp
  qed
qed

lemma step_unlock:
  assumes inv: "xinv P \<alpha> pat n T \<lparr>xfile = f, xmach = m, threads = ths\<rparr>" and k: "k < length ths"
    and pc: "at (ths ! k) = Unlock1 \<or> at (ths ! k) = Unlock2"
  shows "step_ok P \<alpha> pat n T nops r k \<lparr>xfile = f, xmach = m, threads = ths\<rparr>"
proof -
  obtain v where v: "accts_at P \<alpha> pat n v f m" "money_ok n T v ths" and l: "lockable n f" "lock_inv f (all_locks ths)" "sleep_ok f ths"
    using inv by (rule xinvD)
  have ok: "th_ok n v (ths ! k)" using v(2) k by (simp add: money_ok_def)
  have fk: "flags_ok (ths ! k)" using ok by (simp add: th_ok_def)
  have fl: "if at (ths ! k) = Unlock1 then locked1 (ths ! k) else locked2 (ths ! k)" using fk pc by (auto simp: flags_ok_def)
  define a where "a = (if at (ths ! k) = Unlock1 then first_acct (ths ! k) else second_acct (ths ! k))"
  have "acct_range k a \<in># locks_of k (ths ! k)" using pc by (auto simp: a_def locks_of_def)
  then have h: "acct_range k a \<in># all_locks ths" by (rule locks_of_in [OF k])
  obtain f' where f': "acct_unlock f k a True = Some (False, f')" "lock_inv f' (all_locks ths - {#acct_range k a#})"
    "f' = f\<lparr>nlocked := nlocked f', owner := owner f'\<rparr>"
    using acct_unlock_spec [OF l(2) h] by blast
  define th where "th = (if at (ths ! k) = Unlock1 then next_op nops ((ths ! k)\<lparr>locked1 := False\<rparr>) else (ths ! k)\<lparr>at := Unlock1, locked2 := False\<rparr>)"
  have st: "thread_step True P n nops r k (ths ! k) f m = Some (th, f', m, True)"
    using f'(1) pc fl by (auto simp: thread_step_def a_def th_def)
  have "flags_ok th" using fk pc by (auto simp: flags_ok_def th_def next_op_def)
  then have t: "th_ok n v th" "in_flight v th = in_flight v (ths ! k)" "locks_of k (ths ! k) = add_mset (acct_range k a) (locks_of k th)"
    using ok pc by (auto simp: th_ok_def in_flight_def locks_of_def a_def th_def next_op_def first_acct_def second_acct_def)
  have "add_mset (acct_range k a) (all_locks (ths[k := th])) = all_locks ths"
    using all_locks_update [OF k, of th] unfolding t(3) by simp
  then have al: "all_locks (ths[k := th]) = all_locks ths - {#acct_range k a#}" by (metis add_mset_remove_trivial)
  have cs: "chunk_sz f' = chunk_sz f" by (subst f'(3)) simp
  have "sleep_ok f' (map wake (ths[k := th]))" by (simp add: sleep_ok_def wake_def)
  moreover have "lockable n f'" using l(1) cs by (simp add: lockable_def)
  ultimately have "xinv P \<alpha> pat n T \<lparr>xfile = f', xmach = m, threads = map wake (ths[k := th])\<rparr>"
    using accts_at_locks [OF v(1) f'(3)] money_same [OF v(2) k t(1,2)] f'(2) al
    by (simp add: xinv_def money_wake del: map_update) blast
  then show ?thesis by (intro step_okI [OF st]) simp
qed

lemma acct_read_locks: "acct_read P a z f m = Some (r, nm, b, f', m') \<Longrightarrow> same_locks f f'"
  by (auto simp: acct_read_def dest: io61_pread_locks split: if_splits Option.bind_splits prod.splits sum.splits)

lemma acct_write_locks: "acct_write P a b f m = Some (r, f', m') \<Longrightarrow> same_locks f f'"
  by (auto simp: acct_write_def dest: io61_pwrite_locks split: if_splits Option.bind_splits option.splits)

lemma acct_read_at:
  assumes "accts_at P \<alpha> pat n v f m" and "a < n"
  shows "\<exists>name f' m'. acct_read P a z f m = Some (0, name, Some (v a), f', m') \<and> accts_at P \<alpha> pat n v f' m' \<and> same_locks f f'"
proof -
  obtain name f' m' where "acct_read P a z f m = Some (0, name, Some (v a), f', m')" "pinv P \<alpha> pat {} f' m'"
    "pabs \<alpha> f' m' = pabs \<alpha> f m"
    using acct_read_spec [of P \<alpha> pat f m n a "v a" z] assms by (auto simp: accts_at_def)
  then show ?thesis using assms acct_read_locks by (fastforce simp: accts_at_def)
qed

lemma acct_write_at:
  assumes "accts_at P \<alpha> pat n v f m" and "a < n" and "0 \<le> b" and "b \<le> max_balance"
  shows "\<exists>f' m'. acct_write P a b f m = Some (0, f', m') \<and> accts_at P \<alpha> pat n (v(a := b)) f' m' \<and> same_locks f f'"
proof -
  obtain f' m' where "acct_write P a b f m = Some (0, f', m')" "pinv P \<alpha> pat {} f' m'"
    "length (pabs \<alpha> f' m') = 16 * n" "balance_of (pabs \<alpha> f' m') a = Inr b"
    "\<forall>c. c \<noteq> a \<longrightarrow> balance_of (pabs \<alpha> f' m') c = balance_of (pabs \<alpha> f m) c"
    using acct_write_spec [of P \<alpha> pat f m n a b] assms by (auto simp: accts_at_def)
  then show ?thesis using assms acct_write_locks by (fastforce simp: accts_at_def)
qed

lemma transfer_bounds:
  assumes "0 \<le> b1" "b1 \<le> max_balance" "0 \<le> b2" "b2 \<le> max_balance" "0 \<le> amount"
  shows "0 \<le> b1 - transfer_delta b1 b2 amount" "b1 - transfer_delta b1 b2 amount \<le> max_balance"
    "0 \<le> b2 + transfer_delta b1 b2 amount" "b2 + transfer_delta b1 b2 amount \<le> max_balance"
  using assms by (auto simp: transfer_delta_def min_def)

lemma step_read:
  assumes inv: "xinv P \<alpha> pat n T \<lparr>xfile = f, xmach = m, threads = ths\<rparr>" and k: "k < length ths"
    and r: "draw_ok n A r" and A: "A \<subseteq> {0 ..}" and pc: "at (ths ! k) = Read1 \<or> at (ths ! k) = Read2" and aw: "\<not> asleep (ths ! k)"
  shows "step_ok P \<alpha> pat n T nops r k \<lparr>xfile = f, xmach = m, threads = ths\<rparr>"
proof -
  obtain v where v: "accts_at P \<alpha> pat n v f m" "money_ok n T v ths" and l: "lockable n f" "lock_inv f (all_locks ths)" "sleep_ok f ths"
    using inv by (rule xinvD)
  have ok: "th_ok n v (ths ! k)" using v(2) k by (simp add: money_ok_def)
  have ix: "aindex1 (ths ! k) < n" "aindex2 (ths ! k) < n" using ok pc by (auto simp: th_ok_def)
  have vb: "0 \<le> v a \<and> v a \<le> max_balance" if "a < n" for a using v(2) that by (simp add: money_ok_def)
  define a where "a = (if at (ths ! k) = Read1 then aindex1 (ths ! k) else aindex2 (ths ! k))"
  have an: "a < n" using ix by (simp add: a_def)
  obtain name f' m' where x: "acct_read P a 0 f m = Some (0, name, Some (v a), f', m')"
    "accts_at P \<alpha> pat n v f' m'" "same_locks f f'"
    using acct_read_at [OF v(1) an, of 0] by blast
  define d where "d = transfer_delta (v (aindex1 (ths ! k))) (v (aindex2 (ths ! k))) (pick_amount r)"
  define th where "th = (if at (ths ! k) = Read1 then (ths ! k)\<lparr>bal1 := Some (v a), at := Read2\<rparr>
    else (ths ! k)\<lparr>bal1 := Some (v (aindex1 (ths ! k)) - d), bal2 := Some (v (aindex2 (ths ! k)) + d), at := Write1\<rparr>)"
  have st: "thread_step True P n nops r k (ths ! k) f m = Some (th, f', m', False)"
    using x(1) pc ok by (auto simp: thread_step_def a_def th_def d_def th_ok_def Let_def)
  have "flags_ok (ths ! k)" using ok by (simp add: th_ok_def)
  then have "flags_ok th" using pc by (auto simp: flags_ok_def th_def)
  then have t: "th_ok n v th" "in_flight v th = in_flight v (ths ! k)" "locks_of k th = locks_of k (ths ! k)" "\<not> asleep th"
    using ok pc aw ix vb [OF ix(1)] vb [OF ix(2)] transfer_bounds [of "v (aindex1 (ths ! k))" "v (aindex2 (ths ! k))" "pick_amount r"] r A
    by (auto simp: th_ok_def in_flight_def locks_of_def a_def th_def d_def first_acct_def second_acct_def draw_ok_def)
  have "xinv P \<alpha> pat n T \<lparr>xfile = f', xmach = m', threads = ths[k := th]\<rparr>"
    by (rule xinv_quiet [OF x(2) money_same [OF v(2) k t(1,2)] x(3) l k t(3,4)])
  then show ?thesis by (intro step_okI [OF st]) simp
qed

lemma money_write:
  assumes mo: "money_ok n T v ths" and li: "lock_inv f (all_locks ths)" "lockable n f" and k: "k < length ths"
    and a: "a < n" "uses (ths ! k) a" and b: "0 \<le> b" "b \<le> max_balance"
    and th: "th_ok n (v(a := b)) th" "in_flight (v(a := b)) th + b = in_flight v (ths ! k) + v a"
  shows "money_ok n T (v(a := b)) (ths[k := th])"
proof (rule money_update [OF mo k th(1)])
  show "\<forall>c < n. 0 \<le> (v(a := b)) c \<and> (v(a := b)) c \<le> max_balance" using mo b by (simp add: money_ok_def)
next
  fix j assume j: "j < length ths" "j \<noteq> k"
  have "\<not> uses (ths ! j) a" using uses_exclusive [OF li a(1) j(1) k _ a(2)] j(2) by blast
  then show "th_ok n (v(a := b)) (ths ! j) \<and> in_flight (v(a := b)) (ths ! j) = in_flight v (ths ! j)"
    using mo j(1) th_ok_cong by (simp add: money_ok_def)
next
  have f: "finite {..< n}" "a \<in> {..< n}" using a(1) by simp_all
  have "(\<Sum>c < n. (v(a := b)) c) + v a = (\<Sum>c < n. v c) + b"
    using sum.remove [OF f, of "v(a := b)"] sum.remove [OF f, of v] by simp
  then show "(\<Sum>c < n. (v(a := b)) c) + in_flight (v(a := b)) th = (\<Sum>c < n. v c) + in_flight v (ths ! k)"
    using th(2) by simp
qed

lemma step_write:
  assumes inv: "xinv P \<alpha> pat n T \<lparr>xfile = f, xmach = m, threads = ths\<rparr>" and k: "k < length ths"
    and pc: "at (ths ! k) = Write1 \<or> at (ths ! k) = Write2" and aw: "\<not> asleep (ths ! k)"
  shows "step_ok P \<alpha> pat n T nops r k \<lparr>xfile = f, xmach = m, threads = ths\<rparr>"
proof -
  obtain v where v: "accts_at P \<alpha> pat n v f m" "money_ok n T v ths" and l: "lockable n f" "lock_inv f (all_locks ths)" "sleep_ok f ths"
    using inv by (rule xinvD)
  have ok: "th_ok n v (ths ! k)" using v(2) k by (simp add: money_ok_def)
  define a where "a = (if at (ths ! k) = Write1 then aindex1 (ths ! k) else aindex2 (ths ! k))"
  obtain b where b: "0 \<le> b" "b \<le> max_balance" "(if at (ths ! k) = Write1 then bal1 (ths ! k) else bal2 (ths ! k)) = Some b"
    using ok pc by (auto simp: th_ok_def)
  have an: "a < n" using ok pc by (auto simp: th_ok_def a_def)
  obtain f' m' where x: "acct_write P a b f m = Some (0, f', m')" "accts_at P \<alpha> pat n (v(a := b)) f' m'" "same_locks f f'"
    using acct_write_at [OF v(1) an b(1,2)] by blast
  define th where "th = (ths ! k)\<lparr>at := (if at (ths ! k) = Write1 then Write2 else Unlock2)\<rparr>"
  have st: "thread_step True P n nops r k (ths ! k) f m = Some (th, f', m', False)"
    using x(1) pc b(3) by (auto simp: thread_step_def a_def th_def)
  have "flags_ok (ths ! k)" using ok by (simp add: th_ok_def)
  then have "flags_ok th" using pc by (auto simp: flags_ok_def th_def)
  then have t: "th_ok n (v(a := b)) th" "in_flight (v(a := b)) th + b = in_flight v (ths ! k) + v a"
    "locks_of k th = locks_of k (ths ! k)" "\<not> asleep th"
    using ok pc aw b by (auto simp: th_ok_def in_flight_def locks_of_def a_def th_def first_acct_def second_acct_def)
  have u: "uses (ths ! k) a" using pc by (auto simp: uses_def a_def)
  have "xinv P \<alpha> pat n T \<lparr>xfile = f', xmach = m', threads = ths[k := th]\<rparr>"
    by (rule xinv_quiet [OF x(2) money_write [OF v(2) l(2,1) k an u b(1,2) t(1,2)] x(3) l k t(3,4)])
  then show ?thesis by (intro step_okI [OF st]) simp
qed

lemma xinv_run:
  assumes "xinv P \<alpha> pat n T s" and "runnable s k" and "draw_ok n A r" and A: "A \<subseteq> {0 ..}"
  shows "step_ok P \<alpha> pat n T nops r k s"
proof -
  obtain f m ths where s: "s = \<lparr>xfile = f, xmach = m, threads = ths\<rparr>" by (cases s) auto
  have k: "k < length ths" "\<not> asleep (ths ! k)" "at (ths ! k) \<noteq> Finished" using assms(2) by (simp_all add: runnable_def s)
  show ?thesis
    unfolding s
    using step_pick [OF assms(1) [unfolded s] k(1) assms(3) _ k(2)] step_lock [OF assms(1) [unfolded s] k(1) _ k(2)]
      step_unlock [OF assms(1) [unfolded s] k(1)] step_read [OF assms(1) [unfolded s] k(1) assms(3) A _ k(2)]
      step_write [OF assms(1) [unfolded s] k(1) _ k(2)] k(3)
    by (cases "at (ths ! k)") blast+
qed

lemma xinv_spurious:
  assumes "xinv P \<alpha> pat n T s" and k: "k < length (threads s)"
  shows "xinv P \<alpha> pat n T (s\<lparr>threads := (threads s)[k := wake (threads s ! k)]\<rparr>)"
proof -
  obtain f m ths where s: "s = \<lparr>xfile = f, xmach = m, threads = ths\<rparr>" by (cases s) auto
  have k: "k < length ths" using k by (simp add: s)
  obtain v where v: "accts_at P \<alpha> pat n v f m" "money_ok n T v ths" and l: "lockable n f" "lock_inv f (all_locks ths)" "sleep_ok f ths"
    using assms(1) unfolding s by (rule xinvD)
  have t: "th_ok n v (wake (ths ! k))" "in_flight v (wake (ths ! k)) = in_flight v (ths ! k)"
    "locks_of k (wake (ths ! k)) = locks_of k (ths ! k)" "\<not> asleep (wake (ths ! k))"
    using v(2) k by (simp_all add: money_ok_def)
  show ?thesis using xinv_quiet [OF v(1) money_same [OF v(2) k t(1,2)] same_locks_refl l k t(3,4)] by (simp add: s)
qed

lemma xinv_step:
  assumes "sys_step True P n nops A s s'" and A: "A \<subseteq> {0 ..}" and inv: "xinv P \<alpha> pat n T s"
  shows "xinv P \<alpha> pat n T s' \<and> length (threads s') = length (threads s)"
  using assms(1)
proof (cases rule: sys_step.cases)
  case (run tid r)
  then show ?thesis using xinv_run [OF inv run(1,2) A, of nops] by (auto simp: step_ok_def)
next
  case (spurious tid)
  then show ?thesis using xinv_spurious [OF inv spurious(2)] by simp
qed

lemma xinv_steps:
  assumes "sys_steps True P n nops A s s'" and A: "A \<subseteq> {0 ..}" and "xinv P \<alpha> pat n T s"
  shows "xinv P \<alpha> pat n T s' \<and> length (threads s') = length (threads s)"
  using assms(1,3) by (induction rule: rtranclp_induct) (auto dest: xinv_step [OF _ A])

section \<open>No deadlock\<close>

text \<open>A thread asleep at its second lock waits for a chunk that another thread holds; the holder
  waits, if it sleeps, for a chunk further up.\<close>

lemma chunk_climb:
  assumes "lockable n f" and "a < b" and "b < n"
    and "i \<in> set (chunks f (int (a * 16)) 16)" and "i' \<in> set (chunks f (int (b * 16)) 16)"
  shows "i \<le> i'"
proof -
  have c: "0 < chunk_sz f" using assms(1) by (simp add: lockable_def)
  have "int i * chunk_sz f < int (a * 16) + 16" using assms(4) unfolding chunks_iff [OF c of_nat_0_le_iff] by blast
  then have "int i * chunk_sz f \<le> int (b * 16)" using assms(2) by simp
  then have "int i \<le> int (b * 16) div chunk_sz f"
    using c by (metis nonzero_mult_div_cancel_right zdiv_mono1 less_irrefl)
  moreover have "nat (int (b * 16) div chunk_sz f) \<le> i'" using assms(5) unfolding chunks_iff [OF c of_nat_0_le_iff] by blast
  ultimately show ?thesis by simp
qed

definition waits_at :: "io61_file \<Rightarrow> xthread list \<Rightarrow> nat \<Rightarrow> nat \<Rightarrow> bool" where
  "waits_at f ths k i \<longleftrightarrow> k < length ths \<and> i \<in> set (chunks f (int (wanted (ths ! k) * 16)) 16)
     \<and> (\<exists>x \<in># all_locks ths. covers f i x \<and> fst x \<noteq> k)"

lemma sleeper_waits:
  "sleep_ok f ths \<Longrightarrow> k < length ths \<Longrightarrow> asleep (ths ! k) \<Longrightarrow> \<exists>i. waits_at f ths k i"
  unfolding sleep_ok_def conflict_def waits_at_def by blast

lemma holder_waits_higher:
  assumes l: "lockable n f" "lock_inv f (all_locks ths)" "sleep_ok f ths" and ok: "\<forall>k < length ths. th_ok n v (ths ! k)"
    and stuck: "\<forall>k < length ths. at (ths ! k) = Finished \<or> asleep (ths ! k)"
    and w: "waits_at f ths k i"
  shows "\<exists>j i'. waits_at f ths j i' \<and> i < i' \<and> i' < nchunks"
proof -
  obtain x where x: "x \<in># all_locks ths" "covers f i x" using w by (auto simp: waits_at_def)
  obtain j where j: "j < length ths" "x \<in># locks_of j (ths ! j)" using all_locks_from [OF x(1)] by blast
  have "at (ths ! j) \<noteq> Finished" using j(2) by (auto simp: locks_of_def)
  then have as: "asleep (ths ! j)" using stuck j(1) by blast
  then have "at (ths ! j) \<in> {Lock1, Lock2}" using l(3) j(1) by (simp add: sleep_ok_def)
  then have pc: "at (ths ! j) = Lock2" "x = acct_range j (first_acct (ths ! j))" using j(2) by (auto simp: locks_of_def)
  obtain i' where i': "waits_at f ths j i'" using sleeper_waits [OF l(3) j(1) as] by blast
  have ac: "first_acct (ths ! j) < second_acct (ths ! j)" "second_acct (ths ! j) < n"
    using accts_of [of n v "ths ! j"] ok j(1) pc by auto
  have ci: "i \<in> set (chunks f (int (first_acct (ths ! j) * 16)) 16)" using x(2) pc(2) by (simp add: covers_def acct_range_def)
  have ci': "i' \<in> set (chunks f (int (second_acct (ths ! j) * 16)) 16)" using i' pc(1) by (simp add: waits_at_def wanted_def)
  have le: "i \<le> i'" by (rule chunk_climb [OF l(1) ac ci ci'])
  have n': "i' < nchunks" by (rule in_range_chunks [OF lockable_range [OF l(1) ac(2)] ci'])
  have "i \<noteq> i'"
  proof
    assume e: "i = i'"
    obtain y where y: "y \<in># all_locks ths" "covers f i y" "fst y \<noteq> j" using i' e by (auto simp: waits_at_def)
    have "i < nchunks" using n' e by simp
    then have "owner f i = fst x" "owner f i = fst y" using l(2) x y unfolding lock_inv_def by blast+
    then show False using y(3) pc(2) by (simp add: acct_range_def)
  qed
  then show ?thesis using le i' n' by (intro exI [of _ j] exI [of _ i']) simp
qed

lemma no_deadlock:
  assumes "xinv P \<alpha> pat n T s" and "\<exists>k < length (threads s). at (threads s ! k) \<noteq> Finished"
  shows "\<exists>k. runnable s k"
proof (rule ccontr)
  assume c: "\<not> ?thesis"
  obtain v where l: "lockable n (xfile s)" "lock_inv (xfile s) (all_locks (threads s))" "sleep_ok (xfile s) (threads s)"
    and ok: "\<forall>k < length (threads s). th_ok n v (threads s ! k)"
    using assms(1) by (auto simp: xinv_def money_ok_def)
  have stuck: "\<forall>k < length (threads s). at (threads s ! k) = Finished \<or> asleep (threads s ! k)"
    using c by (auto simp: runnable_def)
  have none: "\<not> waits_at (xfile s) (threads s) k i" for k i
  proof (induction "nchunks - i" arbitrary: k i rule: less_induct)
    case less
    show ?case
    proof
      assume w: "waits_at (xfile s) (threads s) k i"
      obtain j i' where h: "waits_at (xfile s) (threads s) j i'" "i < i'" "i' < nchunks"
        using holder_waits_higher [OF l ok stuck w] by blast
      then have "nchunks - i' < nchunks - i" by linarith
      then show False using less h(1) by blast
    qed
  qed
  obtain k where k: "k < length (threads s)" "at (threads s ! k) \<noteq> Finished" using assms(2) by blast
  then have "asleep (threads s ! k)" using stuck by blast
  then show False using sleeper_waits [OF l(3) k(1)] none by blast
qed

section \<open>The transfers can be completed\<close>

fun steps_left :: "pc \<Rightarrow> nat" where
  "steps_left Pick = 10" | "steps_left Lock1 = 9" | "steps_left Lock2 = 8" | "steps_left Read1 = 7"
| "steps_left Read2 = 6" | "steps_left Write1 = 5" | "steps_left Write2 = 4" | "steps_left Unlock2 = 3"
| "steps_left Unlock1 = 2" | "steps_left Finished = 0"

definition work :: "nat \<Rightarrow> xthread \<Rightarrow> nat" where
  "work nops th = (nops - iops th) * 12 + steps_left (at th)"

definition ops_ok :: "nat \<Rightarrow> xthread \<Rightarrow> bool" where
  "ops_ok nops th \<longleftrightarrow> iops th \<le> nops \<and> (at th \<notin> {Pick, Finished} \<longrightarrow> iops th < nops) \<and> (at th = Finished \<longrightarrow> iops th = nops)"

lemma compute_frame: "compute th x = Some th' \<Longrightarrow> iops th' = iops th \<and> asleep th' = asleep th \<and> at th' = at th"
  by (auto simp: Let_def split: option.splits)

lemma thread_step_works:
  assumes "thread_step True P n nops r tid th f m = Some (th', f', m', nt)" and "at th \<noteq> Finished" and "ops_ok nops th"
  shows "ops_ok nops th' \<and> (pick1 r \<noteq> pick2 r \<longrightarrow> \<not> asleep th \<longrightarrow>
     work nops th' < work nops th \<or> work nops th' = work nops th \<and> asleep th' \<and> \<not> nt)"
proof (cases "at th")
  case Read2
  then show ?thesis using assms
    by (auto simp: thread_step_def work_def ops_ok_def dest!: compute_frame split: Option.bind_splits simp del: compute.simps)
qed (use assms in \<open>auto simp: thread_step_def work_def ops_ok_def next_op_def pick_step_def assert_ok_def
       split: Option.bind_splits if_splits\<close>)

definition awake_count :: "xthread list \<Rightarrow> nat" where
  "awake_count ths = length (filter (\<lambda>th. \<not> asleep th) ths)"

lemma awake_update:
  assumes "k < length ths" and "\<not> asleep (ths ! k)" and "asleep th"
  shows "awake_count (ths[k := th]) < awake_count ths"
proof -
  have "awake_count (take k ths @ ths ! k # drop (Suc k) ths) = awake_count (take k ths) + 1 + awake_count (drop (Suc k) ths)"
    using assms(2) by (simp add: awake_count_def)
  then have "awake_count ths = awake_count (take k ths) + 1 + awake_count (drop (Suc k) ths)"
    unfolding id_take_nth_drop [OF assms(1), symmetric] .
  moreover have "awake_count (ths[k := th]) = awake_count (take k ths) + awake_count (drop (Suc k) ths)"
    using assms(1,3) by (simp add: upd_conv_take_nth_drop awake_count_def)
  ultimately show ?thesis by simp
qed

definition total_work :: "nat \<Rightarrow> xthread list \<Rightarrow> nat" where
  "total_work nops ths = sum_list (map (work nops) ths)"

lemma total_work_update:
  assumes "k < length ths"
  shows "total_work nops (ths[k := th]) + work nops (ths ! k) = total_work nops ths + work nops th"
  using assms sum_list_update [of k "map (work nops) ths" "work nops th"]
    elem_le_sum_list [of k "map (work nops) ths"] by (simp add: total_work_def map_update)

lemma ops_ok_step:
  assumes "sys_step True P n nops A s s'" and "\<forall>th \<in> set (threads s). ops_ok nops th"
  shows "\<forall>th \<in> set (threads s'). ops_ok nops th"
  using assms(1)
proof (cases rule: sys_step.cases)
  case (run tid r)
  then obtain th f m nt where t: "thread_step True P n nops r tid (threads s ! tid) (xfile s) (xmach s) = Some (th, f, m, nt)"
    "threads s' = (if nt then map wake ((threads s)[tid := th]) else (threads s)[tid := th])"
    by (auto simp: sys_run_def Let_def split: Option.bind_splits)
  have "ops_ok nops th"
    using thread_step_works [OF t(1)] run(1) assms(2) by (simp add: runnable_def)
  then have "\<forall>u \<in> set ((threads s)[tid := th]). ops_ok nops u"
    using assms(2) set_update_subset_insert [of "threads s" tid th] by blast
  then show ?thesis using t(2) by (simp add: ops_ok_def)
next
  case (spurious tid)
  have "ops_ok nops (wake (threads s ! tid))" using assms(2) spurious(2) by (simp add: ops_ok_def)
  then show ?thesis using assms(2) set_update_subset_insert [of "threads s" tid "wake (threads s ! tid)"] spurious(1) by auto
qed

lemma total_work_wake [simp]: "total_work nops (map wake ths) = total_work nops ths"
proof -
  have "work nops \<circ> wake = work nops" by (simp add: fun_eq_iff work_def)
  then show ?thesis by (simp add: total_work_def)
qed

lemma transfers_progress:
  assumes inv: "xinv P \<alpha> pat n T s" and n: "2 \<le> n" and ops: "\<forall>th \<in> set (threads s). ops_ok nops th"
    and k: "runnable s k" and A: "A \<subseteq> {0 ..}" "A \<noteq> {}"
  shows "\<exists>s'. sys_step True P n nops A s s' \<and> (total_work nops (threads s') < total_work nops (threads s)
     \<or> total_work nops (threads s') = total_work nops (threads s) \<and> awake_count (threads s') < awake_count (threads s))"
proof -
  obtain x where x: "x \<in> A" using A(2) by blast
  define r where "r = \<lparr>pick1 = 0, pick2 = 1, pick_amount = x\<rparr>"
  have r: "draw_ok n A r" "pick1 r \<noteq> pick2 r" using n x by (simp_all add: r_def draw_ok_def)
  obtain s' where s': "sys_run True P n nops r k s = Some s'" using xinv_run [OF inv k r(1) A(1)] by (auto simp: step_ok_def)
  then obtain th f m nt where t: "thread_step True P n nops r k (threads s ! k) (xfile s) (xmach s) = Some (th, f, m, nt)"
    "threads s' = (if nt then map wake ((threads s)[k := th]) else (threads s)[k := th])"
    by (auto simp: sys_run_def Let_def split: Option.bind_splits)
  have kk: "k < length (threads s)" "\<not> asleep (threads s ! k)" "at (threads s ! k) \<noteq> Finished"
    using k by (simp_all add: runnable_def)
  have w: "work nops th < work nops (threads s ! k) \<or> work nops th = work nops (threads s ! k) \<and> asleep th \<and> \<not> nt"
    using thread_step_works [OF t(1) kk(3)] ops kk r(2) by simp
  have "total_work nops (threads s') + work nops (threads s ! k) = total_work nops (threads s) + work nops th"
    using total_work_update [OF kk(1)] t(2) by simp
  moreover have "sys_step True P n nops A s s'" by (rule sys_step.run [OF k r(1) s'])
  ultimately show ?thesis using w awake_update [OF kk(1,2)] t(2) by (intro exI [of _ s']) auto
qed

lemma transfers_complete:
  assumes "xinv P \<alpha> pat n T s" and n: "2 \<le> n" and "\<forall>th \<in> set (threads s). ops_ok nops th" and A: "A \<subseteq> {0 ..}" "A \<noteq> {}"
  shows "\<exists>s'. sys_steps True P n nops A s s' \<and> (\<forall>th \<in> set (threads s'). at th = Finished \<and> iops th = nops)"
  using assms(1,3)
proof (induction "(total_work nops (threads s), awake_count (threads s))" arbitrary: s
    rule: wf_induct_rule [OF wf_lex_prod [OF wf_less_than wf_less_than]])
  case (1 s)
  show ?case
  proof (cases "\<forall>th \<in> set (threads s). at th = Finished")
    case True
    then show ?thesis using 1(3) by (intro exI [of _ s]) (auto simp: ops_ok_def)
  next
    case False
    then have "\<exists>k < length (threads s). at (threads s ! k) \<noteq> Finished" by (metis in_set_conv_nth)
    then obtain k where "runnable s k" using no_deadlock [OF 1(2)] by blast
    then obtain s' where s': "sys_step True P n nops A s s'" "total_work nops (threads s') < total_work nops (threads s)
       \<or> total_work nops (threads s') = total_work nops (threads s) \<and> awake_count (threads s') < awake_count (threads s)"
      using transfers_progress [OF 1(2) n 1(3) _ A] by blast
    obtain z where "sys_steps True P n nops A s' z" "\<forall>th \<in> set (threads z). at th = Finished \<and> iops th = nops"
      using 1(1) [OF _ conjunct1 [OF xinv_step [OF s'(1) A(1) 1(2)]] ops_ok_step [OF s'(1) 1(3)]] s'(2) by auto
    then show ?thesis using s'(1) by (meson converse_rtranclp_into_rtranclp)
  qed
qed

end
