(* ===== verification/FtxBank.thy ===== *)
theory FtxBank
  imports FtxXfer
begin

text \<open>
  What the transfer programs of \<open>src/pset6\<close> promise: with the file locks, money is conserved,
  no call fails, and the threads can always finish; without them (\<open>ftxunlocked.cc\<close>) money
  appears. The theorems start at \<open>io61_fdopen\<close> of the database file.
\<close>

section \<open>The database file\<close>

text \<open>A file of \<open>n\<close> account records with the balances \<open>v\<close>.\<close>

definition bank_file :: "u8 list \<Rightarrow> nat \<Rightarrow> (nat \<Rightarrow> int) \<Rightarrow> bool" where
  "bank_file B n v \<longleftrightarrow> length B = 16 * n \<and> (\<forall>a < n. balance_of B a = Inr (v a) \<and> 0 \<le> v a \<and> v a \<le> 9999999)"

lemma io61_fdopen_locks:
  "io61_fdopen P junk d md m = Some (f, m') \<Longrightarrow> nlocked f = (\<lambda>i. 0) \<and> 16 \<le> chunk_sz f"
  by (auto simp: io61_fdopen_def Let_def assert_ok_def split: prod.splits option.splits Option.bind_splits if_splits)

lemma all_locks_start [simp]: "all_locks (replicate k fresh_thread) = {#}"
  by (simp add: all_locks_def locks_of_def fresh_thread_def)

lemma bank_open:
  assumes "positions_file P d \<alpha> pat {}" and "stats_file P d \<alpha> \<beta>" and "seeks_file P d \<alpha> \<beta>" and "0 \<le> d"
    and b: "bank_file (a_bytes (\<alpha> (world m))) n v" and n: "n \<le> nchunks"
    and o: "io61_fdopen P junk d O_RDWR m = Some (f, m')"
  shows "accts_at P \<alpha> pat n v f m'" and "lockable n f" and "lock_inv f {#}"
proof -
  have "length (a_bytes (\<alpha> (world m))) < 2 ^ 63" using b n by (simp add: bank_file_def nchunks_def)
  then show "accts_at P \<alpha> pat n v f m'"
    using io61_fdopen_rdwr_spec [OF assms(1-3) _ assms(4), of m junk] o b by (auto simp: accts_at_def bank_file_def)
  have c: "nlocked f = (\<lambda>i. 0)" "16 \<le> chunk_sz f" using io61_fdopen_locks [OF o] by blast+
  show "lock_inv f {#}" using c(1) by (simp add: lock_inv_empty)
  have "int (16 * n) \<le> int nchunks * 16" using n by simp
  also have "\<dots> \<le> int nchunks * chunk_sz f" using c(2) by (intro mult_left_mono) simp_all
  finally show "lockable n f" using c(2) by (simp add: lockable_def)
qed

lemma bank_start:
  assumes "positions_file P d \<alpha> pat {}" and "stats_file P d \<alpha> \<beta>" and "seeks_file P d \<alpha> \<beta>" and "0 \<le> d"
    and b: "bank_file (a_bytes (\<alpha> (world m))) n v" and "n \<le> nchunks"
    and "io61_fdopen P junk d O_RDWR m = Some (f, m')"
  shows "xinv P \<alpha> pat n (\<Sum>a < n. v a) (sys_start f m' k)"
proof -
  have "th_ok n v fresh_thread" "in_flight v fresh_thread = 0" "\<not> asleep fresh_thread"
    by (simp_all add: flags_ok_def th_ok_def in_flight_def fresh_thread_def)
  then have "money_ok n (\<Sum>a < n. v a) v (replicate k fresh_thread)" "sleep_ok f (replicate k fresh_thread)"
    using b by (simp_all add: money_ok_def sleep_ok_def bank_file_def)
  then show ?thesis using bank_open [OF assms] by (auto simp: xinv_def sys_start_def)
qed

lemma xinv_bank:
  assumes "xinv P \<alpha> pat n T s" and "\<forall>th \<in> set (threads s). at th \<noteq> Write2"
  shows "\<exists>v. bank_file (pabs \<alpha> (xfile s) (xmach s)) n v \<and> (\<Sum>a < n. v a) = T"
proof -
  obtain v where v: "accts_at P \<alpha> pat n v (xfile s) (xmach s)" "money_ok n T v (threads s)" using assms(1) by (auto simp: xinv_def)
  have "(\<Sum>k < length (threads s). in_flight v (threads s ! k)) = 0"
    using assms(2) by (intro sum.neutral) (auto simp: in_flight_def)
  then show ?thesis using v by (intro exI [of _ v]) (auto simp: accts_at_def money_ok_def bank_file_def)
qed

section \<open>With the locks\<close>

definition demo_bank :: "u8 list" where
  "demo_bank =
     [97, 110, 110, 32, 32, 32, 32, 32, 32, 32, 32, 32, 49, 48, 48, 10,
      98, 111, 98, 32, 32, 32, 32, 32, 32, 32, 32, 32, 32, 53, 48, 10,
      101, 118, 101, 32, 32, 32, 32, 32, 32, 32, 32, 32, 32, 32, 55, 10]"

definition demo_balances :: "nat \<Rightarrow> int" where
  "demo_balances a = [100, 50, 7] ! a"

lemma demo_bank_file: "bank_file demo_bank 3 demo_balances"
proof -
  have "balance_of demo_bank 0 = Inr 100" "balance_of demo_bank 1 = Inr 50" "balance_of demo_bank 2 = Inr 7"
    by code_simp+
  then have "\<forall>a \<in> {0, 1, 2}. balance_of demo_bank a = Inr (demo_balances a)"
    by (simp add: demo_balances_def)
  moreover have "a \<in> {0, 1, 2}" if "a < 3" for a :: nat using that by auto
  moreover have "0 \<le> demo_balances a \<and> demo_balances a \<le> 9999999" if "a < 3" for a
  proof -
    have "a \<in> {0, 1, 2}" using that by auto
    then show ?thesis by (auto simp: demo_balances_def)
  qed
  moreover have "length demo_bank = 16 * 3" by (simp add: demo_bank_def)
  ultimately show ?thesis unfolding bank_file_def by blast
qed

lemma demo_total: "(\<Sum>a < 3. demo_balances a) = 157"
  by (simp add: demo_balances_def numeral_eq_Suc)

abbreviation demo_db :: "memsys machine" where
  "demo_db \<equiv> demo_machine False demo_bank"

lemmas demo_laws = mem_os_positions [of False 3] mem_os_stats [OF ms_frame_unit, of False 3]
  mem_os_seeks [OF ms_frame_unit, of False 3]

lemma demo_open: "\<exists>f m. io61_fdopen (mem_os False) (\<lambda>i. 0) 3 O_RDWR demo_db = Some (f, m)"
  using io61_fdopen_rdwr_spec [OF demo_laws, of demo_db "\<lambda>i. 0"] by (simp add: demo_afile demo_bank_def) blast

lemma demo_bytes: "bank_file (a_bytes (ms_afile 3 (world demo_db))) 3 demo_balances"
  using demo_bank_file by (simp add: demo_afile)

lemma demo_n: "(3 :: nat) \<le> nchunks" "(0 :: int) \<le> 3"
  by (simp_all add: nchunks_def)

text \<open>C3: take a database of at most \<open>nchunks\<close> = 2^18 accounts and any number of transfer threads that draw amounts
  which are not negative (a set \<open>A\<close>). Over any interleaving and any such draws, whenever no thread is between
  its two writes the file is a well-formed database, every balance is between 0 and 9999999, and
  the sum of the balances is the sum at the start. (The normal distribution of \<open>ftxxfer.cc\<close> can also give a
  negative amount, with which money is lost: \<open>negative_draw\<close>.)\<close>

theorem money_conserved:
  assumes "positions_file P d \<alpha> pat {}" and "stats_file P d \<alpha> \<beta>" and "seeks_file P d \<alpha> \<beta>" and "0 \<le> d"
    and "bank_file (a_bytes (\<alpha> (world m0))) n v" and "n \<le> nchunks"
    and "io61_fdopen P junk d O_RDWR m0 = Some (f, m)"
    and "A \<subseteq> {0 ..}" and "sys_steps True P n nops A (sys_start f m nthreads) s"
    and "\<forall>th \<in> set (threads s). at th \<noteq> Write2"
  shows "\<exists>v'. bank_file (pabs \<alpha> (xfile s) (xmach s)) n v' \<and> (\<Sum>a < n. v' a) = (\<Sum>a < n. v a)"
  using xinv_bank [OF conjunct1 [OF xinv_steps [OF assms(9,8) bank_start [OF assms(1-7)]]] assms(10)] .

lemma demo_run:
  "\<exists>f m s. io61_fdopen (mem_os False) (\<lambda>i. 0) 3 O_RDWR demo_db = Some (f, m)
     \<and> sys_steps True (mem_os False) 3 1 {0 ..} (sys_start f m 2) s \<and> map at (threads s) = [Finished, Finished]"
proof -
  obtain f m where o: "io61_fdopen (mem_os False) (\<lambda>i. 0) 3 O_RDWR demo_db = Some (f, m)" using demo_open by blast
  have x: "xinv (mem_os False) (ms_afile 3) (ms_glitch 3) 3 (\<Sum>a < 3. demo_balances a) (sys_start f m 2)"
    by (rule bank_start [OF demo_laws demo_n(2) demo_bytes demo_n(1) o])
  have "\<forall>th \<in> set (threads (sys_start f m 2)). ops_ok 1 th" by (simp add: sys_start_def ops_ok_def fresh_thread_def)
  then obtain s where s: "sys_steps True (mem_os False) 3 1 {0 ..} (sys_start f m 2) s" "\<forall>th \<in> set (threads s). at th = Finished \<and> iops th = 1"
    using transfers_complete [OF x, of 1 "{0 ..}"] by auto
  have "length (threads s) = 2" using conjunct2 [OF xinv_steps [OF s(1) order_refl x]] by (simp add: sys_start_def)
  then obtain a b where "threads s = [a, b]" by (auto simp: numeral_2_eq_2 length_Suc_conv)
  then have "map at (threads s) = [Finished, Finished]" using s(2) by simp
  then show ?thesis by (intro exI conjI) (rule o, rule s(1), assumption)
qed

lemma money_conserved_witness:
  "\<exists>f m s v'. io61_fdopen (mem_os False) (\<lambda>i. 0) 3 O_RDWR demo_db = Some (f, m)
     \<and> sys_steps True (mem_os False) 3 1 {0 ..} (sys_start f m 2) s \<and> map at (threads s) = [Finished, Finished]
     \<and> bank_file (pabs (ms_afile 3) (xfile s) (xmach s)) 3 v' \<and> (\<Sum>a < 3. v' a) = 157"
proof -
  obtain f m s where o: "io61_fdopen (mem_os False) (\<lambda>i. 0) 3 O_RDWR demo_db = Some (f, m)"
    and s: "sys_steps True (mem_os False) 3 1 {0 ..} (sys_start f m 2) s" and fin: "map at (threads s) = [Finished, Finished]"
    using demo_run by (elim exE conjE) (rule that)
  have "\<forall>x \<in> set (map at (threads s)). x \<noteq> Write2" unfolding fin by simp
  then have "\<forall>th \<in> set (threads s). at th \<noteq> Write2" by simp
  from money_conserved [OF demo_laws demo_n(2) demo_bytes demo_n(1) o order_refl s this] show ?thesis
    unfolding demo_total by (elim exE conjE, intro exI conjI) (rule o, rule s, rule fin, assumption+)
qed

text \<open>C12: the transfer programs cannot get stuck. Take a database of at least two and at most \<open>nchunks\<close> = 2^18 accounts and
  threads whose amounts come from a set \<open>A\<close> of numbers that are not negative. From every state that any interleaving reaches
  there is a continuation in which every thread finishes all its operations. And in every such state each
  runnable thread can take its step, whatever accounts and amount of \<open>A\<close> it draws: no assertion fails, neither those on
  the flag \<open>locked\<close> of an account nor those of the file's locks.\<close>

theorem transfers_finish:
  assumes "positions_file P d \<alpha> pat {}" and "stats_file P d \<alpha> \<beta>" and "seeks_file P d \<alpha> \<beta>" and "0 \<le> d"
    and "bank_file (a_bytes (\<alpha> (world m0))) n v" and "n \<le> nchunks"
    and "io61_fdopen P junk d O_RDWR m0 = Some (f, m)"
    and "A \<subseteq> {0 ..}" and "A \<noteq> {}" and "sys_steps True P n nops A (sys_start f m nthreads) s" and "2 \<le> n"
  shows "(\<exists>s'. sys_steps True P n nops A s s' \<and> (\<forall>th \<in> set (threads s'). at th = Finished \<and> iops th = nops))
    \<and> (\<forall>tid r. runnable s tid \<and> draw_ok n A r \<longrightarrow> sys_run True P n nops r tid s \<noteq> None)"
proof -
  have start: "\<forall>th \<in> set (threads (sys_start f m nthreads)). ops_ok nops th"
    by (simp add: sys_start_def ops_ok_def fresh_thread_def)
  have ops: "\<forall>th \<in> set (threads s). ops_ok nops th"
    using assms(10) start by (induction rule: rtranclp_induct) (blast dest: ops_ok_step)+
  have x: "xinv P \<alpha> pat n (\<Sum>a < n. v a) s"
    using xinv_steps [OF assms(10,8) bank_start [OF assms(1-7)]] by blast
  have "sys_run True P n nops r tid s \<noteq> None" if "runnable s tid" "draw_ok n A r" for tid r
    using xinv_run [OF x that assms(8), of nops] by (auto simp: step_ok_def)
  then show ?thesis using transfers_complete [OF x assms(11) ops assms(8,9)] by blast
qed

lemma transfers_finish_witness:
  "\<exists>f m s. io61_fdopen (mem_os False) (\<lambda>i. 0) 3 O_RDWR demo_db = Some (f, m)
     \<and> sys_steps True (mem_os False) 3 1 {0 ..} (sys_start f m 2) s
     \<and> sys_run True (mem_os False) 3 1 \<lparr>pick1 = 2, pick2 = 0, pick_amount = 5\<rparr> 1 (sys_start f m 2) \<noteq> None"
proof -
  obtain f m where o: "io61_fdopen (mem_os False) (\<lambda>i. 0) 3 O_RDWR demo_db = Some (f, m)" using demo_open by blast
  have "runnable (sys_start f m 2) 1" "draw_ok 3 {0 ..} \<lparr>pick1 = 2, pick2 = 0, pick_amount = 5\<rparr>"
    by (simp_all add: runnable_def sys_start_def fresh_thread_def draw_ok_def)
  then show ?thesis
    using transfers_finish [OF demo_laws demo_n(2) demo_bytes demo_n(1) o order_refl _ rtranclp.rtrancl_refl, of 1 2] o by fastforce
qed

text \<open>A negative draw on a full account: the new balance has eight digits and is not written, the other
  account has already been charged.\<close>

lemma negative_draw:
  assumes "bal1 th = Some 9999999" and "bal2 th = Some b2" and "0 \<le> b2" and "b2 \<le> 9999999"
  shows "compute th (-1) = Some (th\<lparr>bal1 := Some 10000000, bal2 := Some (b2 - 1)\<rparr>)"
    and "acct_write P a 10000000 f m = Some (-1, f, m\<lparr>errno := 75\<rparr>)"
proof -
  show "compute th (-1) = Some (th\<lparr>bal1 := Some 10000000, bal2 := Some (b2 - 1)\<rparr>)"
    using assms by (simp add: transfer_delta_def Let_def)
  have "length (dec_digits 10000000) = 8" by (simp add: dec_digits.simps)
  then have "acct_unparse 10000000 = None" by (simp add: acct_unparse_def to_chars_def balance_size_def)
  then show "acct_write P a 10000000 f m = Some (-1, f, m\<lparr>errno := 75\<rparr>)" by (simp add: acct_write_def)
qed

section \<open>Without the locks\<close>

text \<open>The steps of a thread of \<open>ftxunlocked.cc\<close>, on a file with the balances \<open>v\<close>.\<close>

lemma unlocked_pick:
  assumes "k < length ths" and "at (ths ! k) = Pick" and "\<not> asleep (ths ! k)" and "iops (ths ! k) \<noteq> nops"
    and "a \<noteq> b" and "a < n" and "b < n"
  shows "sys_step False P n nops {0 ..} \<lparr>xfile = f, xmach = m, threads = ths\<rparr> \<lparr>xfile = f, xmach = m,
    threads = ths[k := (ths ! k)\<lparr>at := Read1, aindex1 := a, aindex2 := b, bal1 := None, bal2 := None,
      locked1 := False, locked2 := False\<rparr>]\<rparr>"
  by (rule sys_step.run [of _ k _ "{0 ..}" "\<lparr>pick1 = a, pick2 = b, pick_amount = 0\<rparr>"])
     (use assms in \<open>simp_all add: runnable_def draw_ok_def sys_run_def thread_step_def pick_step_def assert_ok_def\<close>)

lemma unlocked_done:
  assumes "k < length ths" and "at (ths ! k) = Pick" and "\<not> asleep (ths ! k)" and "iops (ths ! k) = nops" and "0 < n"
  shows "sys_step False P n nops {0 ..} \<lparr>xfile = f, xmach = m, threads = ths\<rparr> \<lparr>xfile = f, xmach = m,
    threads = ths[k := (ths ! k)\<lparr>at := Finished\<rparr>]\<rparr>"
  by (rule sys_step.run [of _ k _ "{0 ..}" "\<lparr>pick1 = 0, pick2 = 0, pick_amount = 0\<rparr>"])
     (use assms in \<open>simp_all add: runnable_def draw_ok_def sys_run_def thread_step_def pick_step_def\<close>)

lemma unlocked_read:
  assumes "accts_at P \<alpha> pat n v f m" and k: "k < length ths" and "at (ths ! k) = Read1" and "\<not> asleep (ths ! k)"
    and "aindex1 (ths ! k) < n" and "aindex2 (ths ! k) < n" and "0 \<le> amount"
  shows "\<exists>f' m'. accts_at P \<alpha> pat n v f' m' \<and>
    sys_steps False P n nops {0 ..} \<lparr>xfile = f, xmach = m, threads = ths\<rparr> \<lparr>xfile = f', xmach = m',
      threads = ths[k := (let d = transfer_delta (v (aindex1 (ths ! k))) (v (aindex2 (ths ! k))) amount in
        (ths ! k)\<lparr>bal1 := Some (v (aindex1 (ths ! k)) - d), bal2 := Some (v (aindex2 (ths ! k)) + d), at := Write1\<rparr>)]\<rparr>"
proof -
  let ?r = "\<lparr>pick1 = 0, pick2 = 0, pick_amount = amount\<rparr>"
  have n: "0 < n" using assms(5) by simp
  obtain nm1 f1 m1 where 1: "acct_read P (aindex1 (ths ! k)) 0 f m = Some (0, nm1, Some (v (aindex1 (ths ! k))), f1, m1)"
    and a1: "accts_at P \<alpha> pat n v f1 m1" using acct_read_at [OF assms(1,5)] by blast
  obtain nm2 f2 m2 where 2: "acct_read P (aindex2 (ths ! k)) 0 f1 m1 = Some (0, nm2, Some (v (aindex2 (ths ! k))), f2, m2)"
    and a2: "accts_at P \<alpha> pat n v f2 m2" using acct_read_at [OF a1 assms(6)] by blast
  let ?ths = "ths[k := (ths ! k)\<lparr>bal1 := Some (v (aindex1 (ths ! k))), at := Read2\<rparr>]"
  have "sys_step False P n nops {0 ..} \<lparr>xfile = f, xmach = m, threads = ths\<rparr> \<lparr>xfile = f1, xmach = m1, threads = ?ths\<rparr>"
    by (rule sys_step.run [of _ k _ "{0 ..}" ?r])
       (use assms 1 n in \<open>simp_all add: runnable_def draw_ok_def sys_run_def thread_step_def Let_def\<close>)
  moreover have "sys_step False P n nops {0 ..} \<lparr>xfile = f1, xmach = m1, threads = ?ths\<rparr> \<lparr>xfile = f2, xmach = m2,
      threads = ths[k := (let d = transfer_delta (v (aindex1 (ths ! k))) (v (aindex2 (ths ! k))) amount in
        (ths ! k)\<lparr>bal1 := Some (v (aindex1 (ths ! k)) - d), bal2 := Some (v (aindex2 (ths ! k)) + d), at := Write1\<rparr>)]\<rparr>"
    by (rule sys_step.run [of _ k _ "{0 ..}" ?r])
       (use assms 2 n in \<open>simp_all add: runnable_def draw_ok_def sys_run_def thread_step_def Let_def\<close>)
  ultimately show ?thesis using a2 by (meson converse_rtranclp_into_rtranclp r_into_rtranclp)
qed

lemma unlocked_write:
  assumes "accts_at P \<alpha> pat n v f m" and k: "k < length ths" and "at (ths ! k) = Write1" and "\<not> asleep (ths ! k)"
    and "aindex1 (ths ! k) < n" and "aindex2 (ths ! k) < n"
    and b: "bal1 (ths ! k) = Some b1" "bal2 (ths ! k) = Some b2" "0 \<le> b1" "b1 \<le> 9999999" "0 \<le> b2" "b2 \<le> 9999999"
  shows "\<exists>f' m'. accts_at P \<alpha> pat n (v(aindex1 (ths ! k) := b1, aindex2 (ths ! k) := b2)) f' m' \<and>
    sys_steps False P n nops {0 ..} \<lparr>xfile = f, xmach = m, threads = ths\<rparr> \<lparr>xfile = f', xmach = m',
      threads = ths[k := next_op nops (ths ! k)]\<rparr>"
proof -
  let ?r = "\<lparr>pick1 = 0, pick2 = 0, pick_amount = 0\<rparr>"
  have n: "0 < n" using assms(5) by simp
  obtain f1 m1 where 1: "acct_write P (aindex1 (ths ! k)) b1 f m = Some (0, f1, m1)"
    and a1: "accts_at P \<alpha> pat n (v(aindex1 (ths ! k) := b1)) f1 m1" using acct_write_at [OF assms(1,5) b(3,4)] by blast
  obtain f2 m2 where 2: "acct_write P (aindex2 (ths ! k)) b2 f1 m1 = Some (0, f2, m2)"
    and a2: "accts_at P \<alpha> pat n (v(aindex1 (ths ! k) := b1, aindex2 (ths ! k) := b2)) f2 m2"
    using acct_write_at [OF a1 assms(6) b(5,6)] by blast
  let ?ths = "ths[k := (ths ! k)\<lparr>at := Write2\<rparr>]"
  have "sys_step False P n nops {0 ..} \<lparr>xfile = f, xmach = m, threads = ths\<rparr> \<lparr>xfile = f1, xmach = m1, threads = ?ths\<rparr>"
    by (rule sys_step.run [of _ k _ "{0 ..}" ?r])
       (use assms 1 n in \<open>simp_all add: runnable_def draw_ok_def sys_run_def thread_step_def Let_def\<close>)
  moreover have "sys_step False P n nops {0 ..} \<lparr>xfile = f1, xmach = m1, threads = ?ths\<rparr> \<lparr>xfile = f2, xmach = m2,
      threads = ths[k := next_op nops (ths ! k)]\<rparr>"
    by (rule sys_step.run [of _ k _ "{0 ..}" ?r])
       (use assms 2 n in \<open>simp_all add: runnable_def draw_ok_def sys_run_def thread_step_def Let_def next_op_def\<close>)
  ultimately show ?thesis using a2 by (meson converse_rtranclp_into_rtranclp r_into_rtranclp)
qed

definition reading :: "nat \<Rightarrow> nat \<Rightarrow> xthread" where
  "reading a b = fresh_thread\<lparr>at := Read1, aindex1 := a, aindex2 := b\<rparr>"

definition writing :: "nat \<Rightarrow> nat \<Rightarrow> int \<Rightarrow> int \<Rightarrow> xthread" where
  "writing a b x y = fresh_thread\<lparr>at := Write1, aindex1 := a, aindex2 := b, bal1 := Some x, bal2 := Some y\<rparr>"

definition done_op :: "nat \<Rightarrow> nat \<Rightarrow> int \<Rightarrow> int \<Rightarrow> xthread" where
  "done_op a b x y = next_op 1 (writing a b x y)"

lemmas unlocked_threads = reading_def writing_def done_op_def next_op_def fresh_thread_def

lemma transfer_one: "1 \<le> x \<Longrightarrow> y < 9999999 \<Longrightarrow> transfer_delta x y 1 = 1"
  by (simp add: transfer_delta_def)

lemma sum_shift:
  assumes "a < (n :: nat)"
  shows "(\<Sum>c < n. (v(a := x)) c) = (\<Sum>c < n. v c) - v a + (x :: int)"
proof -
  have f: "finite {..< n}" "a \<in> {..< n}" using assms by simp_all
  show ?thesis using sum.remove [OF f, of "v(a := x)"] sum.remove [OF f, of v] by simp
qed

text \<open>Without the locks a transfer can be lost. Two threads that both take one unit from
  account 0, one for account 1 and one for account 2, can both read the balance before either
  writes: the database then holds one unit more than before.\<close>

theorem unlocked_creates_money:
  assumes ac: "accts_at P \<alpha> pat n v f m" and n: "3 \<le> n"
    and b: "1 \<le> v 0" "v 0 \<le> 9999999" "0 \<le> v 1" "v 1 < 9999999" "0 \<le> v 2" "v 2 < 9999999"
  shows "\<exists>s v'. sys_steps False P n 1 {0 ..} (sys_start f m 2) s \<and> map at (threads s) = [Finished, Finished]
    \<and> accts_at P \<alpha> pat n v' (xfile s) (xmach s) \<and> (\<Sum>a < n. v' a) = (\<Sum>a < n. v a) + 1"
proof -
  let ?S = "\<lambda>f m t0 t1. \<lparr>xfile = f, xmach = m, threads = [t0, t1]\<rparr>"
  let ?w0 = "writing 0 1 (v 0 - 1) (v 1 + 1)" and ?w1 = "writing 0 2 (v 0 - 1) (v 2 + 1)"
  let ?d0 = "done_op 0 1 (v 0 - 1) (v 1 + 1)" and ?d1 = "done_op 0 2 (v 0 - 1) (v 2 + 1)"
  let ?va = "v(0 := v 0 - 1, 1 := v 1 + 1)" and ?vb = "v(0 := v 0 - 1, 1 := v 1 + 1, 0 := v 0 - 1, 2 := v 2 + 1)"
  have start: "sys_start f m 2 = ?S f m fresh_thread fresh_thread" by (simp add: sys_start_def numeral_2_eq_2)
  have p0: "sys_step False P n 1 {0 ..} (?S f m fresh_thread fresh_thread) (?S f m (reading 0 1) fresh_thread)"
    using unlocked_pick [of 0 "[fresh_thread, fresh_thread]" 1 0 1 n P f m] n by (simp add: unlocked_threads)
  have p1: "sys_step False P n 1 {0 ..} (?S f m (reading 0 1) fresh_thread) (?S f m (reading 0 1) (reading 0 2))"
    using unlocked_pick [of 1 "[reading 0 1, fresh_thread]" 1 0 2 n P f m] n by (simp add: unlocked_threads)
  obtain f1 m1 where a1: "accts_at P \<alpha> pat n v f1 m1"
    and r0: "sys_steps False P n 1 {0 ..} (?S f m (reading 0 1) (reading 0 2)) (?S f1 m1 ?w0 (reading 0 2))"
    using unlocked_read [OF ac, of 0 "[reading 0 1, reading 0 2]" 1 1] n b
    by (auto simp: unlocked_threads transfer_one)
  obtain f2 m2 where a2: "accts_at P \<alpha> pat n v f2 m2"
    and r1: "sys_steps False P n 1 {0 ..} (?S f1 m1 ?w0 (reading 0 2)) (?S f2 m2 ?w0 ?w1)"
    using unlocked_read [OF a1, of 1 "[?w0, reading 0 2]" 1 1] n b
    by (auto simp: unlocked_threads transfer_one)
  obtain f3 m3 where a3: "accts_at P \<alpha> pat n ?va f3 m3"
    and w0: "sys_steps False P n 1 {0 ..} (?S f2 m2 ?w0 ?w1) (?S f3 m3 ?d0 ?w1)"
    using unlocked_write [OF a2, of 0 "[?w0, ?w1]" "v 0 - 1" "v 1 + 1" 1] n b
    by (auto simp: unlocked_threads)
  obtain f4 m4 where a4: "accts_at P \<alpha> pat n ?vb f4 m4"
    and w1: "sys_steps False P n 1 {0 ..} (?S f3 m3 ?d0 ?w1) (?S f4 m4 ?d0 ?d1)"
    using unlocked_write [OF a3, of 1 "[?d0, ?w1]" "v 0 - 1" "v 2 + 1" 1] n b
    by (auto simp: unlocked_threads)
  let ?e0 = "?d0\<lparr>at := Finished\<rparr>" and ?e1 = "?d1\<lparr>at := Finished\<rparr>"
  have e0: "sys_step False P n 1 {0 ..} (?S f4 m4 ?d0 ?d1) (?S f4 m4 ?e0 ?d1)"
    using unlocked_done [of 0 "[?d0, ?d1]" 1 n P f4 m4] n by (simp add: unlocked_threads)
  have e1: "sys_step False P n 1 {0 ..} (?S f4 m4 ?e0 ?d1) (?S f4 m4 ?e0 ?e1)"
    using unlocked_done [of 1 "[?e0, ?d1]" 1 n P f4 m4] n by (simp add: unlocked_threads)
  have "sys_steps False P n 1 {0 ..} (sys_start f m 2) (?S f4 m4 ?e0 ?e1)"
    unfolding start using p0 p1 r0 r1 w0 w1 e0 e1 by (meson rtranclp_trans r_into_rtranclp)
  moreover have "0 < n" "1 < n" "2 < n" using n by simp_all
  then have "(\<Sum>a < n. ?vb a) = (\<Sum>a < n. v a) + 1" by (simp del: fun_upd_apply add: sum_shift) simp
  ultimately show ?thesis using a4 by (intro exI [of _ "?S f4 m4 ?e0 ?e1"] exI [of _ ?vb]) simp
qed

lemma unlocked_creates_money_witness:
  "\<exists>f m s v'. io61_fdopen (mem_os False) (\<lambda>i. 0) 3 O_RDWR demo_db = Some (f, m)
     \<and> sys_steps False (mem_os False) 3 1 {0 ..} (sys_start f m 2) s \<and> map at (threads s) = [Finished, Finished]
     \<and> accts_at (mem_os False) (ms_afile 3) (ms_glitch 3) 3 v' (xfile s) (xmach s) \<and> (\<Sum>a < 3. v' a) = 158"
proof -
  obtain f m where o: "io61_fdopen (mem_os False) (\<lambda>i. 0) 3 O_RDWR demo_db = Some (f, m)" using demo_open by blast
  have "accts_at (mem_os False) (ms_afile 3) (ms_glitch 3) 3 demo_balances f m"
    by (rule bank_open [OF demo_laws demo_n(2) demo_bytes demo_n(1) o])
  then have "\<exists>s v'. sys_steps False (mem_os False) 3 1 {0 ..} (sys_start f m 2) s \<and> map at (threads s) = [Finished, Finished]
    \<and> accts_at (mem_os False) (ms_afile 3) (ms_glitch 3) 3 v' (xfile s) (xmach s) \<and> (\<Sum>a < 3. v' a) = (\<Sum>a < 3. demo_balances a) + 1"
    by (rule unlocked_creates_money) (simp_all add: demo_balances_def)
  then show ?thesis unfolding demo_total using o by (elim exE conjE, intro exI conjI) (assumption | simp)+
qed

section \<open>Large files\<close>

lemma io61_fdopen_chunk:
  assumes "regular_file P d \<alpha>" and st: "stats_file P d \<alpha> \<beta>" and sk: "seeks_file P d \<alpha> \<beta>"
    and len: "length (a_bytes (\<alpha> (world m))) = 4194320" and o: "io61_fdopen P junk d O_RDWR m = Some (f, m')"
  shows "chunk_sz f = 16"
proof -
  obtain w1 where l: "p_lseek P d 0 SEEK_CUR (world m) = (Inr (int (a_pos (\<alpha> (world m)))), w1)" "\<alpha> w1 = \<alpha> (world m)"
    using seeks_file_curD [OF sk] by blast
  have z: "\<exists>w'. p_fstat P d w = (Inr (True, 4194320), w') \<and> \<alpha> w' = \<alpha> w" if "\<alpha> w = \<alpha> (world m)" for w
  proof -
    have "length (a_bytes (\<alpha> w)) = 4194320" using that len by simp
    then obtain w' where "p_fstat P d w = (Inr (True, 4194320), w')"
      using assms(1) unfolding regular_file_def by (metis of_nat_numeral)
    then show ?thesis using stats_fileD(2) [OF st] by blast
  qed
  obtain w2 where w2: "p_fstat P d w1 = (Inr (True, 4194320), w2)" "\<alpha> w2 = \<alpha> w1" using z [OF l(2)] by blast
  obtain w3 where w3: "p_fstat P d w2 = (Inr (True, 4194320), w3)" using z [of w2] w2(2) l(2) by auto
  show ?thesis using o l(1) w2(1) w3
    by (auto simp: io61_fdopen_def Let_def syscall_def io61_filesize_def assert_ok_def to_size_def nchunks_def
        split: Option.bind_splits if_splits)
qed

text \<open>in a database of 4194320 bytes the last account cannot be locked: the chunk size is the
  integer quotient of the file's size and the number of chunks, so the last account's chunk is
  past the end of the lock table.\<close>

theorem last_account_beyond_table:
  assumes "regular_file P d \<alpha>" and "stats_file P d \<alpha> \<beta>" and "seeks_file P d \<alpha> \<beta>"
    and "length (a_bytes (\<alpha> (world m))) = 4194320" and "io61_fdopen P junk d O_RDWR m = Some (f, m')"
  shows "acct_lock f tid 262144 locked = None"
  using io61_fdopen_chunk [OF assms]
  by (simp add: acct_lock_def acct_offset_def asize_def io61_lock_def is_overlap_def chunks_def nchunks_def
      assert_ok_def LOCK_EX_def)

lemma last_account_beyond_table_witness:
  "\<exists>f m'. io61_fdopen (mem_os False) (\<lambda>i. 0) 3 O_RDWR (demo_machine False (replicate 4194320 32)) = Some (f, m')
     \<and> acct_lock f 7 262144 False = None"
proof -
  have len: "length (a_bytes (ms_afile 3 (world (demo_machine False (replicate 4194320 32))))) = 4194320"
    by (simp add: demo_afile)
  obtain f m' where o: "io61_fdopen (mem_os False) (\<lambda>i. 0) 3 O_RDWR (demo_machine False (replicate 4194320 32)) = Some (f, m')"
    using io61_fdopen_rdwr_spec [OF demo_laws, of "demo_machine False (replicate 4194320 32)" "\<lambda>i. 0"] len by auto
  from last_account_beyond_table [OF mem_os_regular [of False 3] demo_laws(2,3) len o] show ?thesis using o by blast
qed

section \<open>Records\<close>

text \<open>C26: a balance from 0 to 9999999 that is written into a record is read back unchanged, whatever the name.\<close>

theorem account_text_roundtrip:
  assumes "0 \<le> b" and "b \<le> 9999999" and "length name = 8"
  shows "\<exists>bs. acct_unparse b = Some bs \<and> length bs = 8 \<and> snd (acct_parse (name @ bs) namesz) = Inr b"
  using acct_unparse_eq [OF assms(1,2)] acct_parse_unparse [OF assms(3,1,2)] by blast

lemma account_text_roundtrip_witness:
  "\<exists>bs. acct_unparse 1234 = Some bs \<and> length bs = 8
     \<and> snd (acct_parse ([101, 118, 101, 32, 32, 32, 32, 32] @ bs) 0) = Inr 1234"
  using account_text_roundtrip [of 1234 "[101, 118, 101, 32, 32, 32, 32, 32]" 0] by simp

end
