(* ===== verification/KMem.thy ===== *)
theory KMem
  imports Prelude
begin

text \<open>
  The physical memory of the kernel of \<open>src/pset3\<close> (\<open>kernel.hh\<close>, \<open>x86-64.h\<close>) and its
  page allocator, \<open>kalloc\<close> and \<open>kfree\<close> of \<open>kernel.cc\<close>. Memory is an array of pages of 512
  64-bit words, the grain at which the kernel reads page tables and sets or copies pages. The
  kernel maps physical memory one to one, so a kernel pointer is a physical address. \<open>None\<close> is
  a panic: a failed assertion or an access that C++ does not define.
\<close>

section \<open>Constants\<close>

definition PTE_P :: u64 where "PTE_P = 0x1"
definition PTE_W :: u64 where "PTE_W = 0x2"
definition PTE_U :: u64 where "PTE_U = 0x4"
definition PTE_PS :: u64 where "PTE_PS = 0x80"
definition PTE_C :: u64 where "PTE_C = 0x200"
definition PTE_PAMASK :: u64 where "PTE_PAMASK = 0x000FFFFFFFFFF000"

lemmas pte_defs = PTE_P_def PTE_W_def PTE_U_def PTE_PS_def PTE_C_def PTE_PAMASK_def

abbreviation PAGESIZE :: nat where "PAGESIZE \<equiv> 4096"
abbreviation NPAGES :: nat where "NPAGES \<equiv> 512"
abbreviation PID_MAX :: nat where "PID_MAX \<equiv> 16"

definition KERNEL_START_ADDR :: u64 where "KERNEL_START_ADDR = 0x40000"
definition KERNEL_STACK_TOP :: u64 where "KERNEL_STACK_TOP = 0x80000"
definition PROC_START_ADDR :: u64 where "PROC_START_ADDR = 0x100000"
definition CONSOLE_ADDR :: u64 where "CONSOLE_ADDR = 0xB8000"
definition MEMSIZE_PHYSICAL :: u64 where "MEMSIZE_PHYSICAL = 0x200000"
definition MEMSIZE_VIRTUAL :: u64 where "MEMSIZE_VIRTUAL = 0x300000"

lemmas addr_defs = KERNEL_START_ADDR_def KERNEL_STACK_TOP_def PROC_START_ADDR_def CONSOLE_ADDR_def
  MEMSIZE_PHYSICAL_def MEMSIZE_VIRTUAL_def

section \<open>State\<close>

record regstate =
  reg_rax :: u64 reg_rcx :: u64 reg_rdx :: u64 reg_rbx :: u64 reg_rbp :: u64 reg_rsi :: u64 reg_rdi :: u64
  reg_r8 :: u64 reg_r9 :: u64 reg_r10 :: u64 reg_r11 :: u64 reg_r12 :: u64 reg_r13 :: u64 reg_r14 :: u64
  reg_r15 :: u64 reg_fs :: u64 reg_gs :: u64
  reg_intno :: "32 word" reg_swapgs :: "32 word" reg_errcode :: u64
  reg_rip :: u64 reg_cs :: u64 reg_rflags :: u64 reg_rsp :: u64 reg_ss :: u64

datatype pstate = P_FREE | P_RUNNABLE | P_BLOCKED | P_FAULTED

text \<open>A null page table pointer is 0.\<close>

record proc =
  pagetable :: u64
  pid :: nat
  state :: pstate
  regs :: regstate
  wake_up :: "32 word"

record kstate =
  mem :: "nat \<Rightarrow> nat \<Rightarrow> u64"
  refcount :: "nat \<Rightarrow> u8"
  ptable :: "nat \<Rightarrow> proc"
  current :: nat
  ticks :: u64

text \<open>What the linker decides: the end of the kernel, the address of \<open>kernel_pagetable\<close>, and
  the address of \<open>exception_entry\<close>.\<close>

record kconf =
  kernel_end :: u64
  kernel_pagetable :: u64
  exception_entry :: u64

section \<open>Addresses and pages\<close>

definition pageno :: "u64 \<Rightarrow> nat" where "pageno pa = unat pa div PAGESIZE"
definition page_addr :: "nat \<Rightarrow> u64" where "page_addr n = of_nat (n * PAGESIZE)"

text \<open>\<open>memset\<close> of a whole page to a byte repeated in every word, and \<open>memcpy\<close> of a page.\<close>

definition set_page :: "nat \<Rightarrow> u64 \<Rightarrow> kstate \<Rightarrow> kstate" where
  "set_page p w k = k\<lparr>mem := (mem k)(p := (\<lambda>i. w))\<rparr>"

definition copy_page :: "nat \<Rightarrow> nat \<Rightarrow> kstate \<Rightarrow> kstate" where
  "copy_page dst src k = k\<lparr>mem := (mem k)(dst := mem k src)\<rparr>"

section \<open>The allocator\<close>

definition reserved_physical_address :: "u64 \<Rightarrow> bool" where
  "reserved_physical_address pa \<longleftrightarrow> pa < of_nat PAGESIZE \<or> (pa \<ge> 0xA0000 \<and> pa < 0x100000)"

definition round_up_page :: "u64 \<Rightarrow> u64" where
  "round_up_page a = (a + (of_nat PAGESIZE - 1)) AND NOT (of_nat PAGESIZE - 1)"

definition allocatable_physical_address :: "kconf \<Rightarrow> u64 \<Rightarrow> bool" where
  "allocatable_physical_address C pa \<longleftrightarrow> \<not> reserved_physical_address pa
     \<and> (pa < KERNEL_START_ADDR \<or> pa \<ge> round_up_page (kernel_end C))
     \<and> (pa < KERNEL_STACK_TOP - of_nat PAGESIZE \<or> pa \<ge> KERNEL_STACK_TOP)
     \<and> pa < MEMSIZE_PHYSICAL"

fun kalloc_loop :: "kconf \<Rightarrow> nat \<Rightarrow> nat \<Rightarrow> kstate \<Rightarrow> u64 \<times> kstate" where
  "kalloc_loop C 0 n k = (0, k)"
| "kalloc_loop C (Suc tries) n k = (let pa = page_addr n in
     if allocatable_physical_address C pa \<and> refcount k n = 0
     then (pa, set_page n 0xCCCCCCCCCCCCCCCC (k\<lparr>refcount := (refcount k)(n := refcount k n + 1)\<rparr>))
     else kalloc_loop C tries ((n + 1) mod NPAGES) k)"

definition kalloc :: "kconf \<Rightarrow> nat \<Rightarrow> kstate \<Rightarrow> u64 \<times> kstate" where
  "kalloc C sz k = (if sz > PAGESIZE then (0, k) else kalloc_loop C NPAGES 0 k)"

definition kfree :: "u64 \<Rightarrow> kstate \<Rightarrow> kstate option" where
  "kfree kptr k = (if kptr = 0 \<or> unat kptr mod PAGESIZE \<noteq> 0 then Some k else
     let n = pageno kptr in
     if NPAGES \<le> n \<or> refcount k n = 0 then None else
     let k = k\<lparr>refcount := (refcount k)(n := refcount k n - 1)\<rparr> in
     Some (if refcount k n = 0 then set_page n 0 k else k))"

definition kalloc_pagetable :: "kconf \<Rightarrow> kstate \<Rightarrow> u64 \<times> kstate" where
  "kalloc_pagetable C k = (let (pt, k) = kalloc C PAGESIZE k in
     (pt, if pt \<noteq> 0 then set_page (pageno pt) 0 k else k))"

section \<open>What they do\<close>

lemma unat_page_addr: "n < 2 ^ 52 \<Longrightarrow> unat (page_addr n) = n * PAGESIZE"
  unfolding page_addr_def by (rule unat64_of_nat) simp

lemma pageno_page_addr [simp]: "n < 2 ^ 52 \<Longrightarrow> pageno (page_addr n) = n"
  unfolding pageno_def by (subst unat_page_addr) simp_all

lemma page_addr_0 [simp]: "n < 2 ^ 52 \<Longrightarrow> page_addr n = 0 \<longleftrightarrow> n = 0"
  using unat_page_addr [of n] by (auto simp: unat_eq_0 [symmetric] page_addr_def)

lemma set_page_simps [simp]:
  "mem (set_page p w k) = (mem k)(p := (\<lambda>i. w))" "refcount (set_page p w k) = refcount k"
  "ptable (set_page p w k) = ptable k" "current (set_page p w k) = current k" "ticks (set_page p w k) = ticks k"
  by (simp_all add: set_page_def)

lemma copy_page_simps [simp]:
  "mem (copy_page d s k) = (mem k)(d := mem k s)" "refcount (copy_page d s k) = refcount k"
  "ptable (copy_page d s k) = ptable k" "current (copy_page d s k) = current k" "ticks (copy_page d s k) = ticks k"
  by (simp_all add: copy_page_def)

text \<open>A page that \<open>kalloc\<close> can hand out.\<close>

definition free_page :: "kconf \<Rightarrow> kstate \<Rightarrow> nat \<Rightarrow> bool" where
  "free_page C k n \<longleftrightarrow> n < NPAGES \<and> allocatable_physical_address C (page_addr n) \<and> refcount k n = 0"

definition take_page :: "nat \<Rightarrow> kstate \<Rightarrow> kstate" where
  "take_page n k = set_page n 0xCCCCCCCCCCCCCCCC (k\<lparr>refcount := (refcount k)(n := 1)\<rparr>)"

lemma kalloc_loop_eq:
  "n + tries = NPAGES \<Longrightarrow> kalloc_loop C tries n k =
     (case find (free_page C k) [n ..< NPAGES] of None \<Rightarrow> (0, k) | Some p \<Rightarrow> (page_addr p, take_page p k))"
proof (induction tries arbitrary: n)
  case (Suc tries)
  then have n: "n < NPAGES" by simp
  then have u: "[n ..< NPAGES] = n # [n + 1 ..< NPAGES]" by (simp add: upt_conv_Cons)
  show ?case
  proof (cases "free_page C k n")
    case True
    then show ?thesis unfolding u by (simp add: free_page_def take_page_def Let_def)
  next
    case False
    have "kalloc_loop C (Suc tries) n k = kalloc_loop C tries ((n + 1) mod NPAGES) k"
      using False n by (auto simp: free_page_def Let_def)
    also have "\<dots> = (case find (free_page C k) [n + 1 ..< NPAGES] of None \<Rightarrow> (0, k) | Some p \<Rightarrow> (page_addr p, take_page p k))"
    proof (cases "tries = 0")
      case True
      then show ?thesis using Suc.prems by simp
    next
      case False
      then have "(n + 1) mod NPAGES = n + 1" using Suc.prems by simp
      then show ?thesis using Suc.IH [of "n + 1"] Suc.prems by simp
    qed
    finally show ?thesis unfolding u using False by simp
  qed
qed simp

text \<open>\<open>kalloc\<close> returns the first free page.\<close>

lemma kalloc_eq:
  "kalloc C sz k = (if sz > PAGESIZE then (0, k) else
     case find (free_page C k) [0 ..< NPAGES] of None \<Rightarrow> (0, k) | Some p \<Rightarrow> (page_addr p, take_page p k))"
  using kalloc_loop_eq [of 0 NPAGES C k] by (simp add: kalloc_def)

lemma page_0_reserved [simp]: "\<not> free_page C k 0"
  by (simp add: free_page_def allocatable_physical_address_def reserved_physical_address_def page_addr_def)

lemma kalloc_cases:
  assumes "kalloc C sz k = (pa, k')"
  shows "pa = 0 \<and> k' = k \<and> (sz \<le> PAGESIZE \<longrightarrow> (\<forall>n. \<not> free_page C k n))
    \<or> (\<exists>n. pa = page_addr n \<and> pa \<noteq> 0 \<and> free_page C k n \<and> k' = take_page n k \<and> sz \<le> PAGESIZE)"
proof (cases "sz > PAGESIZE")
  case True
  then show ?thesis using assms by (simp add: kalloc_eq)
next
  case False
  show ?thesis
  proof (cases "find (free_page C k) [0 ..< NPAGES]")
    case None
    then have "\<forall>n < NPAGES. \<not> free_page C k n" by (simp add: find_None_iff)
    then have "\<forall>n. \<not> free_page C k n" by (auto simp: free_page_def)
    then show ?thesis using assms None False by (simp add: kalloc_eq)
  next
    case (Some p)
    then have p: "free_page C k p" by (auto simp: find_Some_iff)
    then have "p \<noteq> 0" "p < NPAGES" by (metis page_0_reserved, simp add: free_page_def)
    then have "page_addr p \<noteq> 0" by simp
    then show ?thesis using assms Some False p by (auto simp: kalloc_eq)
  qed
qed

text \<open>C31: \<open>kalloc\<close> returns the first free page that is neither reserved nor the kernel's, filled with
  0xCC, with a reference count of one, and changes no other page; it fails exactly if there
  is no such page or more than a page is asked for, and then changes nothing. \<open>kfree\<close> of the
  result gives the page back, cleared.\<close>

theorem kalloc_kfree:
  assumes "kalloc C sz k = (pa, k')"
  shows "if PAGESIZE < sz \<or> (\<forall>n. \<not> free_page C k n) then pa = 0 \<and> k' = k
    else (\<exists>n. pa = page_addr n \<and> pa \<noteq> 0 \<and> free_page C k n \<and> (\<forall>j < n. \<not> free_page C k j)
      \<and> mem k' n = (\<lambda>i. 0xCCCCCCCCCCCCCCCC) \<and> refcount k' n = 1
      \<and> (\<forall>q. q \<noteq> n \<longrightarrow> mem k' q = mem k q \<and> refcount k' q = refcount k q)
      \<and> kfree pa k' = Some (k\<lparr>mem := (mem k)(n := (\<lambda>i. 0))\<rparr>))"
proof (cases "PAGESIZE < sz \<or> (\<forall>n. \<not> free_page C k n)")
  case True
  then show ?thesis using kalloc_cases [OF assms] by auto
next
  case False
  obtain n where n: "find (free_page C k) [0 ..< NPAGES] = Some n" "pa = page_addr n" "k' = take_page n k"
    using assms False by (cases "find (free_page C k) [0 ..< NPAGES]") (auto simp: kalloc_eq find_None_iff free_page_def)
  have f: "free_page C k n" "\<forall>j < n. \<not> free_page C k j" using n(1) by (auto simp: find_Some_iff)
  have lt: "n < NPAGES" "refcount k n = 0" using f(1) by (simp_all add: free_page_def)
  have nz: "n \<noteq> 0" using f(1) by (metis page_0_reserved)
  then have pa: "pa \<noteq> 0" "pageno pa = n" "unat pa mod PAGESIZE = 0"
    using n(2) lt unat_page_addr [of n] by simp_all
  have "kfree pa k' = Some (k\<lparr>mem := (mem k)(n := (\<lambda>i. 0))\<rparr>)"
    using pa lt fun_upd_triv [of "refcount k" n] unfolding n(3) by (simp add: kfree_def take_page_def set_page_def Let_def)
  then show ?thesis using False n(2,3) f pa(1) by (auto simp: take_page_def)
qed

definition demo_conf :: kconf where
  "demo_conf = \<lparr>kernel_end = 0x50000, kernel_pagetable = 0x48000, exception_entry = 0x41000\<rparr>"

definition empty_kernel :: kstate where
  "empty_kernel = \<lparr>mem = (\<lambda>p i. 0), refcount = (\<lambda>p. 0), ptable = undefined, current = 1, ticks = 1\<rparr>"

lemma demo_free_page: "free_page demo_conf empty_kernel 1"
  by (simp add: free_page_def allocatable_physical_address_def reserved_physical_address_def page_addr_def
      empty_kernel_def demo_conf_def addr_defs)

lemma kalloc_kfree_witness:
  "\<exists>pa k'. kalloc demo_conf 4096 empty_kernel = (pa, k') \<and> pa \<noteq> 0 \<and> mem k' (pageno pa) 7 = 0xCCCCCCCCCCCCCCCC"
proof -
  obtain pa k' where a: "kalloc demo_conf 4096 empty_kernel = (pa, k')" by fastforce
  have c: "\<not> (PAGESIZE < 4096 \<or> (\<forall>n. \<not> free_page demo_conf empty_kernel n))" using demo_free_page by blast
  obtain n where n: "pa = page_addr n" "pa \<noteq> 0" "free_page demo_conf empty_kernel n" "mem k' n = (\<lambda>i. 0xCCCCCCCCCCCCCCCC)"
    using kalloc_kfree [OF a, unfolded if_not_P [OF c]] by blast
  then have "mem k' (pageno pa) 7 = 0xCCCCCCCCCCCCCCCC" by (simp add: free_page_def)
  then show ?thesis using a n(2) by blast
qed

end
