(* ===== verification/VMiter.thy ===== *)
theory VMiter
  imports KMem
begin

text \<open>
  Page tables: the iterator \<open>vmiter\<close> over virtual addresses and the iterator \<open>ptiter\<close> over
  page-table pages, of \<open>src/pset3/k-vmiter.hh\<close> and \<open>k-vmiter.cc\<close>. A pointer to an entry is
  the pair of a page and an index, with \<open>None\<close> for the pointer to the constant entry
  \<open>zero_pe\<close>. The lemmas show that an iterator that has been moved about stands where a walk
  from the root would, and what \<open>try_map\<close> changes.
\<close>

section \<open>Addresses\<close>

definition pageindex :: "u64 \<Rightarrow> nat \<Rightarrow> nat" where
  "pageindex addr level = unat (drop_bit (12 + level * 9) addr AND 0x1FF)"

definition pageoffmask :: "nat \<Rightarrow> u64" where
  "pageoffmask level = 2 ^ (12 + level * 9) - 1"

definition va_is_canonical :: "u64 \<Rightarrow> bool" where
  "va_is_canonical va \<longleftrightarrow> va \<le> 0x00007FFFFFFFFFFF \<or> va \<ge> 0xFFFF800000000000"

section \<open>The iterator over addresses\<close>

type_synonym pmem = "nat \<Rightarrow> nat \<Rightarrow> u64"

record vmiter =
  vpt :: u64
  vpep :: "(nat \<times> nat) option"
  vlevel :: nat
  vperm :: u64
  vva :: u64

definition initial_perm :: u64 where "initial_perm = 0xFFF"

definition entry :: "pmem \<Rightarrow> vmiter \<Rightarrow> u64" where
  "entry m it = (case vpep it of None \<Rightarrow> 0 | Some (p, i) \<Rightarrow> m p i)"

fun down_loop :: "pmem \<Rightarrow> nat \<Rightarrow> vmiter \<Rightarrow> vmiter" where
  "down_loop m 0 it = it"
| "down_loop m (Suc l) it = (if entry m it AND (PTE_P OR PTE_PS) = PTE_P
     then down_loop m l (it\<lparr>vperm := vperm it AND (entry m it OR NOT (PTE_P OR PTE_W OR PTE_U)), vlevel := l,
       vpep := Some (pageno (entry m it AND PTE_PAMASK), pageindex (vva it) l)\<rparr>)
     else it)"

definition down :: "pmem \<Rightarrow> vmiter \<Rightarrow> vmiter option" where
  "down m it = (let it = down_loop m (vlevel it) it in
     if entry m it AND PTE_PAMASK \<ge> 0x100000000 then None else Some it)"

definition real_find :: "pmem \<Rightarrow> vmiter \<Rightarrow> u64 \<Rightarrow> vmiter option" where
  "real_find m it va =
     (if vlevel it = 3 \<or> (vva it XOR va) AND NOT (pageoffmask (vlevel it + 1)) \<noteq> 0
      then (if va_is_canonical va
            then down m (it\<lparr>vlevel := 3, vperm := initial_perm, vpep := Some (pageno (vpt it), pageindex va 3), vva := va\<rparr>)
            else down m (it\<lparr>vlevel := 3, vperm := 0, vpep := None, vva := va\<rparr>))
      else (case vpep it of None \<Rightarrow> None
            | Some (p, curidx) \<Rightarrow>
                down m (it\<lparr>vpep := Some (p, curidx + pageindex va (vlevel it) - curidx), vva := va\<rparr>)))"

definition vmiter_at :: "pmem \<Rightarrow> u64 \<Rightarrow> u64 \<Rightarrow> vmiter option" where
  "vmiter_at m pt va =
     real_find m \<lparr>vpt = pt, vpep = Some (pageno pt, 0), vlevel = 3, vperm = initial_perm, vva = 0\<rparr> va"

definition vm_find :: "pmem \<Rightarrow> vmiter \<Rightarrow> u64 \<Rightarrow> vmiter option" where
  "vm_find m it va = (if va \<noteq> vva it then real_find m it va else Some it)"

definition vm_advance :: "pmem \<Rightarrow> vmiter \<Rightarrow> u64 \<Rightarrow> vmiter option" where
  "vm_advance m it delta = vm_find m it (vva it + delta)"

definition vm_pa :: "pmem \<Rightarrow> vmiter \<Rightarrow> u64" where
  "vm_pa m it = (if entry m it AND PTE_P \<noteq> 0
     then (let pa = entry m it AND PTE_PAMASK;
               pa = (if 0 < vlevel it then pa AND NOT 0x1000 else pa)
           in pa + (vva it AND pageoffmask (vlevel it)))
     else -1)"

definition vm_kptr :: "pmem \<Rightarrow> vmiter \<Rightarrow> u64" where
  "vm_kptr m it = (if entry m it AND PTE_P \<noteq> 0 then vm_pa m it else 0)"

definition vm_perm :: "pmem \<Rightarrow> vmiter \<Rightarrow> u64" where
  "vm_perm m it = (let ph = entry m it AND vperm it in ph AND - (ph AND PTE_P))"

definition vm_has :: "pmem \<Rightarrow> vmiter \<Rightarrow> u64 \<Rightarrow> bool" where
  "vm_has m it desired \<longleftrightarrow> vm_perm m it AND desired = desired"

definition vm_present :: "pmem \<Rightarrow> vmiter \<Rightarrow> bool" where "vm_present m it \<longleftrightarrow> vm_has m it PTE_P"
definition vm_writable :: "pmem \<Rightarrow> vmiter \<Rightarrow> bool" where "vm_writable m it \<longleftrightarrow> vm_has m it (PTE_P OR PTE_W)"
definition vm_user :: "pmem \<Rightarrow> vmiter \<Rightarrow> bool" where "vm_user m it \<longleftrightarrow> vm_has m it (PTE_P OR PTE_U)"

definition vm_last_va :: "vmiter \<Rightarrow> u64" where
  "vm_last_va it = (vva it OR pageoffmask (vlevel it)) + 1"

definition vm_next :: "pmem \<Rightarrow> vmiter \<Rightarrow> vmiter option" where
  "vm_next m it = (let level = (if 0 < vlevel it \<and> vm_perm m it = 0 then vlevel it else 0) in
     real_find m it ((vva it OR pageoffmask level) + 1))"

definition vm_next_range :: "pmem \<Rightarrow> vmiter \<Rightarrow> vmiter option" where
  "vm_next_range m it = real_find m it (vm_last_va it)"

text \<open>The do-while loop of \<open>range_perm\<close>: \<open>sz\<close> is more than the current range's size.\<close>

partial_function (option) range_perm_loop :: "pmem \<Rightarrow> vmiter \<Rightarrow> u64 \<Rightarrow> u64 \<Rightarrow> u64 \<Rightarrow> u64 option" where
  "range_perm_loop m it sz rsz p = do {
     it \<leftarrow> vm_next_range m it;
     let sz = sz - rsz;
     let p = p AND vm_perm m it;
     let rsz = pageoffmask (vlevel it) + 1;
     if p AND PTE_P \<noteq> 0 \<and> sz > rsz then range_perm_loop m it sz rsz p else Some p }"

definition range_perm :: "pmem \<Rightarrow> vmiter \<Rightarrow> u64 \<Rightarrow> u64 option" where
  "range_perm m it sz = do {
     let p = vm_perm m it;
     let rsz = pageoffmask (vlevel it) + 1;
     if p AND PTE_P \<noteq> 0 \<and> sz > rsz
     then (if sz > (if sint (vva it) < 0 then 0 else 0x0000800000000000) - vva it then Some 0
           else do {
             p \<leftarrow> range_perm_loop m it (sz + (vva it AND (rsz - 1))) rsz p;
             Some (if p AND PTE_P \<noteq> 0 then p else 0) })
     else Some (if p AND PTE_P \<noteq> 0 then p else 0) }"

section \<open>Changing a mapping\<close>

definition set_entry :: "nat \<Rightarrow> nat \<Rightarrow> u64 \<Rightarrow> kstate \<Rightarrow> kstate" where
  "set_entry p i e k = k\<lparr>mem := (mem k)(p := (mem k p)(i := e))\<rparr>"

text \<open>The loop of \<open>try_map\<close> that adds the missing page-table pages; each round goes at least one
  level down, so the level at the start bounds the rounds.\<close>

fun add_tables :: "kconf \<Rightarrow> nat \<Rightarrow> vmiter \<Rightarrow> kstate \<Rightarrow> (int \<times> vmiter \<times> kstate) option" where
  "add_tables C n it k = (if vlevel it = 0 then Some (0, it, k) else
     (case n of 0 \<Rightarrow> None | Suc n \<Rightarrow> do {
        assert_ok (entry (mem k) it AND PTE_P = 0);
        let (pt, k) = kalloc C PAGESIZE k;
        if pt = 0 then Some (-1, it, k) else do {
          (p, i) \<leftarrow> vpep it;
          let k = set_page (pageno pt) 0 k;
          let k = set_entry p i (pt OR PTE_P OR PTE_W OR PTE_U) k;
          it \<leftarrow> down (mem k) it;
          add_tables C n it k } }))"

definition vm_try_map :: "kconf \<Rightarrow> u64 \<Rightarrow> u64 \<Rightarrow> vmiter \<Rightarrow> kstate \<Rightarrow> (int \<times> vmiter \<times> kstate) option" where
  "vm_try_map C pa perm it k = do {
     let pa = (if pa = -1 \<and> perm = 0 then 0 else pa);
     assert_ok (unat (vva it) mod PAGESIZE = 0);
     assert_ok (if perm AND PTE_P \<noteq> 0 then pa \<noteq> -1 \<and> pa AND PTE_PAMASK = pa else pa AND PTE_P = 0);
     assert_ok (perm AND NOT (vperm it) AND (PTE_P OR PTE_W OR PTE_U) = 0);
     (r, it, k) \<leftarrow> (if perm \<noteq> 0 then add_tables C (vlevel it) it k else Some (0, it, k));
     if r < 0 then Some (r, it, k) else
     if vlevel it = 0 then (case vpep it of None \<Rightarrow> None
       | Some (p, i) \<Rightarrow> Some (0, it, set_entry p i (pa OR perm) k))
     else Some (0, it, k) }"

text \<open>\<open>map\<close> panics when \<open>try_map\<close> fails.\<close>

definition vm_map :: "kconf \<Rightarrow> u64 \<Rightarrow> u64 \<Rightarrow> vmiter \<Rightarrow> kstate \<Rightarrow> (vmiter \<times> kstate) option" where
  "vm_map C pa perm it k = do {
     (r, it, k) \<leftarrow> vm_try_map C pa perm it k;
     assert_ok (r = 0);
     Some (it, k) }"

section \<open>The iterator over page-table pages\<close>

record ptiter =
  ppt :: u64
  ppep :: "nat \<times> nat"
  plevel :: nat
  pva :: u64

definition VA_NONCANONMAX :: u64 where "VA_NONCANONMAX = 0x0000FFFFFFFFFFFF"

text \<open>The loop of \<open>ptiter::down\<close>.\<close>

partial_function (option) pt_down_loop :: "pmem \<Rightarrow> nat \<Rightarrow> bool \<Rightarrow> ptiter \<Rightarrow> ptiter option" where
  "pt_down_loop m stop_level skip it = (let e = m (fst (ppep it)) (snd (ppep it)) in
     if e AND (PTE_P OR PTE_PS) = PTE_P \<and> \<not> skip then
       (if plevel it = stop_level then Some it
        else pt_down_loop m stop_level skip (it\<lparr>plevel := plevel it - 1,
               ppep := (pageno (e AND PTE_PAMASK), pageindex (pva it) (plevel it - 1))\<rparr>))
     else
       let va = (pva it OR pageoffmask (plevel it)) + 1 in
       if (va XOR pva it) AND NOT (pageoffmask (plevel it + 1)) \<noteq> 0 then
         (if plevel it = 3 then Some (it\<lparr>pva := VA_NONCANONMAX + 1\<rparr>)
          else pt_down_loop m (plevel it + 1) False
                 (it\<lparr>plevel := 3, ppep := (pageno (ppt it), pageindex (pva it) 3)\<rparr>))
       else pt_down_loop m stop_level False (it\<lparr>ppep := (fst (ppep it), snd (ppep it) + 1), pva := va\<rparr>))"

definition pt_down :: "pmem \<Rightarrow> bool \<Rightarrow> ptiter \<Rightarrow> ptiter option" where
  "pt_down m skip it = pt_down_loop m 1 skip it"

definition ptiter_at :: "pmem \<Rightarrow> u64 \<Rightarrow> ptiter option" where
  "ptiter_at m pt = pt_down m False \<lparr>ppt = pt, ppep = (pageno pt, 0), plevel = 3, pva = 0\<rparr>"

definition pt_done :: "ptiter \<Rightarrow> bool" where "pt_done it \<longleftrightarrow> pva it > VA_NONCANONMAX"
definition pt_pa :: "pmem \<Rightarrow> ptiter \<Rightarrow> u64" where "pt_pa m it = m (fst (ppep it)) (snd (ppep it)) AND PTE_PAMASK"
definition pt_next :: "pmem \<Rightarrow> ptiter \<Rightarrow> ptiter option" where "pt_next m it = pt_down m True it"

definition pt_va :: "ptiter \<Rightarrow> u64" where "pt_va it = pva it AND NOT (pageoffmask (plevel it))"
definition pt_last_va :: "ptiter \<Rightarrow> u64" where "pt_last_va it = (pva it OR pageoffmask (plevel it)) + 1"
definition pt_entry_va :: "ptiter \<Rightarrow> nat \<Rightarrow> u64" where
  "pt_entry_va it idx = pt_va it + of_nat idx * (pageoffmask (plevel it - 1) + 1)"
definition pt_entry_last_va :: "ptiter \<Rightarrow> nat \<Rightarrow> u64" where
  "pt_entry_last_va it idx = pt_va it + of_nat (idx + 1) * (pageoffmask (plevel it - 1) + 1)"

definition pt_entry :: "pmem \<Rightarrow> ptiter \<Rightarrow> nat \<Rightarrow> u64 option" where
  "pt_entry m it idx = (if idx < 512 then Some (m (pageno (pt_pa m it)) idx) else None)"

section \<open>The walk from the root\<close>

declare add_tables.simps [simp del]

lemma pageoffmask_mask: "pageoffmask l = mask (12 + l * 9)"
  by (simp add: pageoffmask_def mask_eq_exp_minus_1)

lemma pageindex_less: "pageindex a l < 512"
proof -
  have "drop_bit (12 + l * 9) a AND 0x1FF = take_bit 9 (drop_bit (12 + l * 9) a)"
    by (simp add: take_bit_eq_mask mask_eq_exp_minus_1)
  then have "pageindex a l = take_bit 9 (unat (drop_bit (12 + l * 9) a))"
    by (simp add: pageindex_def unsigned_take_bit_eq)
  moreover have "take_bit 9 (unat (drop_bit (12 + l * 9) a)) < 2 ^ 9" by (rule take_bit_nat_less_exp)
  ultimately show ?thesis by simp
qed

text \<open>Addresses that agree above the offset of a level have the same indexes from there up.\<close>

lemma pageindex_cong:
  assumes "(a XOR b) AND NOT (pageoffmask l) = 0" and "l \<le> l'"
  shows "pageindex a l' = pageindex b l'"
proof -
  have "bit a n = bit b n" if "12 + l * 9 \<le> n" for n
  proof (cases "n < 64")
    case True
    have "\<not> bit ((a XOR b) AND NOT (pageoffmask l)) n" using assms(1) by simp
    then show ?thesis using that True by (auto simp: bit_simps pageoffmask_mask)
  next
    case False
    then show ?thesis by (auto dest!: bit_imp_le_length)
  qed
  then have "drop_bit (12 + l' * 9) a = drop_bit (12 + l' * 9) b"
    using assms(2) by (intro bit_word_eqI) (auto simp: bit_simps)
  then show ?thesis by (simp add: pageindex_def)
qed

definition is_table :: "u64 \<Rightarrow> bool" where
  "is_table e \<longleftrightarrow> e AND (PTE_P OR PTE_PS) = PTE_P"

definition table_perm :: "u64 \<Rightarrow> u64 \<Rightarrow> u64" where
  "table_perm perm e = perm AND (e OR NOT (PTE_P OR PTE_W OR PTE_U))"

text \<open>The page that holds the table for \<open>va\<close> after \<open>d\<close> steps down from the root \<open>r\<close>,
  with the permissions of the entries passed.\<close>

fun table_at :: "pmem \<Rightarrow> nat \<Rightarrow> u64 \<Rightarrow> nat \<Rightarrow> (nat \<times> u64) option" where
  "table_at m r va 0 = Some (r, initial_perm)"
| "table_at m r va (Suc d) = (case table_at m r va d of None \<Rightarrow> None
     | Some (p, perm) \<Rightarrow> (let e = m p (pageindex va (3 - d)) in
         if is_table e then Some (pageno (e AND PTE_PAMASK), table_perm perm e) else None))"

declare table_at.simps(2) [simp del]

text \<open>An iterator that stands on the path of its address.\<close>

definition on_path :: "pmem \<Rightarrow> vmiter \<Rightarrow> bool" where
  "on_path m it \<longleftrightarrow> va_is_canonical (vva it) \<and> vlevel it \<le> 3 \<and> (\<exists>p.
     vpep it = Some (p, pageindex (vva it) (vlevel it)) \<and> table_at m (pageno (vpt it)) (vva it) (3 - vlevel it) = Some (p, vperm it))"

lemma table_at_cong:
  assumes "(va XOR va') AND NOT (pageoffmask (Suc l)) = 0" and "l + d \<le> 3"
  shows "table_at m r va d = table_at m r va' d"
  using assms(2)
proof (induction d)
  case (Suc d)
  have "pageindex va (3 - d) = pageindex va' (3 - d)" using Suc.prems by (intro pageindex_cong [OF assms(1)]) simp
  then show ?case using Suc by (simp add: table_at.simps(2) split: option.split)
qed simp

lemma down_loop_frame: "vva (down_loop m n it) = vva it" "vpt (down_loop m n it) = vpt it"
  by (induction m n it rule: down_loop.induct) simp_all

lemma down_loop_path: "on_path m it \<Longrightarrow> vlevel it = n \<Longrightarrow> on_path m (down_loop m n it)"
proof (induction m n it rule: down_loop.induct)
  case (2 m l it)
  show ?case
  proof (cases "is_table (entry m it)")
    case True
    obtain p where p: "vpep it = Some (p, pageindex (vva it) (Suc l))"
      "table_at m (pageno (vpt it)) (vva it) (3 - Suc l) = Some (p, vperm it)" "vlevel it \<le> 3" "va_is_canonical (vva it)"
      using 2(2,3) by (auto simp: on_path_def)
    have l: "3 - l = Suc (3 - Suc l)" "3 - (3 - Suc l) = Suc l" using p(3) 2(3) by simp_all
    have "table_at m (pageno (vpt it)) (vva it) (3 - l)
        = Some (pageno (entry m it AND PTE_PAMASK), table_perm (vperm it) (entry m it))"
      unfolding l(1) table_at.simps(2) p(2) using p(1) True l(2) by (simp add: entry_def Let_def)
    then have "on_path m (it\<lparr>vperm := vperm it AND (entry m it OR NOT (PTE_P OR PTE_W OR PTE_U)), vlevel := l,
       vpep := Some (pageno (entry m it AND PTE_PAMASK), pageindex (vva it) l)\<rparr>)"
      using p 2(3) by (simp add: on_path_def table_perm_def)
    then show ?thesis using 2(1) True by (simp add: is_table_def)
  next
    case False
    then show ?thesis using 2 by (simp add: is_table_def)
  qed
qed simp

lemma down_loop_stops: "vlevel it = n \<Longrightarrow> vlevel (down_loop m n it) = 0 \<or> \<not> is_table (entry m (down_loop m n it))"
  by (induction m n it rule: down_loop.induct) (auto simp: is_table_def)

text \<open>The deepest point of the path is unique, so every iterator on the path of \<open>va\<close> comes down
  to the same place.\<close>

lemma path_end_unique:
  assumes "on_path m a" and "on_path m b" and "vva a = vva b" and "vpt a = vpt b"
    and "vlevel a = 0 \<or> \<not> is_table (entry m a)" and "vlevel b = 0 \<or> \<not> is_table (entry m b)"
  shows "a = b"
proof -
  have mono: "d \<le> e \<Longrightarrow> table_at m r va e \<noteq> None \<Longrightarrow> table_at m r va d \<noteq> None" for d e r va
    by (induction rule: inc_induct) (auto simp: table_at.simps(2) split: option.splits)
  have stop: "table_at m (pageno (vpt x)) (vva x) (Suc (3 - vlevel x)) = None"
    if "on_path m x" "0 < vlevel x" "\<not> is_table (entry m x)" for x
    using that by (auto simp: on_path_def entry_def table_at.simps(2) Let_def)
  have le: "vlevel y \<le> vlevel x \<Longrightarrow> vlevel x = vlevel y"
    if "on_path m x" "on_path m y" "vva x = vva y" "vpt x = vpt y" "vlevel x = 0 \<or> \<not> is_table (entry m x)" for x y
  proof (rule ccontr)
    assume l: "vlevel y \<le> vlevel x" "vlevel x \<noteq> vlevel y"
    then have "table_at m (pageno (vpt x)) (vva x) (Suc (3 - vlevel x)) = None"
      by (intro stop) (use that l in auto)
    moreover have "table_at m (pageno (vpt x)) (vva x) (3 - vlevel y) \<noteq> None" using that by (auto simp: on_path_def)
    moreover have "Suc (3 - vlevel x) \<le> 3 - vlevel y" using l that by (auto simp: on_path_def)
    ultimately show False using mono by blast
  qed
  have "vlevel a = vlevel b"
    using le [OF assms(1,2,3,4,5)] le [OF assms(2,1) assms(3,4) [symmetric] assms(6)] by linarith
  then show ?thesis using assms(1-4) by (auto simp: on_path_def intro: vmiter.equality)
qed

text \<open>Moving an iterator is starting afresh at the new address.\<close>

lemma real_find_fresh:
  assumes "on_path m it" and "va_is_canonical va"
  shows "real_find m it va = vmiter_at m (vpt it) va"
proof -
  let ?fresh = "\<lparr>vpt = vpt it, vpep = Some (pageno (vpt it), pageindex va 3), vlevel = 3, vperm = initial_perm, vva = va\<rparr>"
  have f: "on_path m ?fresh" using assms(2) by (simp add: on_path_def)
  have new: "vmiter_at m (vpt it) va = down m ?fresh" using assms(2) by (simp add: vmiter_at_def real_find_def)
  show ?thesis
  proof (cases "vlevel it = 3 \<or> (vva it XOR va) AND NOT (pageoffmask (vlevel it + 1)) \<noteq> 0")
    case True
    have e: "it\<lparr>vlevel := 3, vperm := initial_perm, vpep := Some (pageno (vpt it), pageindex va 3), vva := va\<rparr> = ?fresh"
      by (cases it) simp
    have "real_find m it va = down m
        (it\<lparr>vlevel := 3, vperm := initial_perm, vpep := Some (pageno (vpt it), pageindex va 3), vva := va\<rparr>)"
      using True assms(2) by (auto simp: real_find_def)
    then show ?thesis unfolding new e .
  next
    case False
    obtain p where p: "vpep it = Some (p, pageindex (vva it) (vlevel it))" "vlevel it \<le> 3"
      "table_at m (pageno (vpt it)) (vva it) (3 - vlevel it) = Some (p, vperm it)"
      using assms(1) by (auto simp: on_path_def)
    let ?it = "it\<lparr>vpep := Some (p, pageindex va (vlevel it)), vva := va\<rparr>"
    have r: "real_find m it va = down m ?it" using False p(1) by (simp add: real_find_def)
    have "table_at m (pageno (vpt it)) va (3 - vlevel it) = Some (p, vperm it)"
      using p(2,3) False table_at_cong [of "vva it" va "vlevel it" "3 - vlevel it"] by simp
    then have o: "on_path m ?it" using p(2) assms(2) by (simp add: on_path_def)
    have "down_loop m (vlevel it) ?it = down_loop m 3 ?fresh"
      by (rule path_end_unique [OF down_loop_path [OF o] down_loop_path [OF f] _ _ down_loop_stops down_loop_stops])
         (simp_all add: down_loop_frame)
    then show ?thesis unfolding r new by (simp add: down_def Let_def)
  qed
qed

text \<open>The result of a successful move is on the path again, and at the bottom of it.\<close>

lemma vmiter_at_path:
  assumes "va_is_canonical va" and "vmiter_at m pt va = Some it"
  shows "on_path m it" and "vva it = va" and "vpt it = pt" and "vlevel it = 0 \<or> \<not> is_table (entry m it)"
proof -
  let ?fresh = "\<lparr>vpt = pt, vpep = Some (pageno pt, pageindex va 3), vlevel = 3, vperm = initial_perm, vva = va\<rparr>"
  have it: "it = down_loop m 3 ?fresh"
    using assms by (simp add: vmiter_at_def real_find_def down_def Let_def split: if_splits)
  have "on_path m ?fresh" using assms(1) by (simp add: on_path_def)
  then show "on_path m it" unfolding it by (rule down_loop_path) simp
  show "vlevel it = 0 \<or> \<not> is_table (entry m it)" unfolding it by (rule down_loop_stops) simp
  show "vva it = va" "vpt it = pt" unfolding it by (simp_all add: down_loop_frame)
qed

text \<open>A sequence of moves.\<close>

fun vm_finds :: "pmem \<Rightarrow> vmiter \<Rightarrow> u64 list \<Rightarrow> vmiter option" where
  "vm_finds m it [] = Some it"
| "vm_finds m it (va # vas) = do { it \<leftarrow> vm_find m it va; vm_finds m it vas }"

text \<open>C29: a \<open>vmiter\<close> can be moved at will: the shortcut that stays in the current table when the new
  address shares it is equivalent to a walk from the root, so that after every sequence of
  moves the iterator is the one that a new \<open>vmiter\<close> at the last address would be.\<close>

theorem vm_finds_fresh:
  assumes "vmiter_at m pt va0 = Some it0" and "\<forall>va \<in> set (va0 # vas). va_is_canonical va"
    and "vm_finds m it0 vas = Some it"
  shows "vmiter_at m pt (last (va0 # vas)) = Some it"
  using assms
proof (induction vas arbitrary: va0 it0)
  case (Cons va vas)
  have o: "on_path m it0" "vva it0 = va0" "vpt it0 = pt" using vmiter_at_path [OF _ Cons.prems(1)] Cons.prems(2) by auto
  have c: "va_is_canonical va" using Cons.prems(2) by simp
  obtain it1 where f: "vm_find m it0 va = Some it1" "vm_finds m it1 vas = Some it"
    using Cons.prems(3) by (auto split: Option.bind_splits)
  have "vmiter_at m pt va = Some it1"
    using f(1) o Cons.prems(1) real_find_fresh [OF o(1) c] by (auto simp: vm_find_def split: if_splits)
  from Cons.IH [OF this _ f(2)] Cons.prems(2) show ?case by simp
qed simp

text \<open>Two levels of tables: page 2 is the root, then pages 3, 4 and 5; page 5 maps addresses
  0x1000, 0x2000 and 0x100000.\<close>

definition demo_tables :: pmem where
  "demo_tables p i = (if p = 2 \<and> i = 0 then 0x3007 else if p = 3 \<and> i = 0 then 0x4007 else if p = 4 \<and> i = 0 then 0x5007
     else if p = 5 \<and> i = 1 then 0x9007 else if p = 5 \<and> i = 2 then 0xA005
     else if p = 5 \<and> i = 256 then 0xB007 else 0)"

lemmas vm_eval = vmiter_at_def real_find_def down_def entry_def pageindex_def pageno_def initial_perm_def
  va_is_canonical_def pte_defs Let_def pageoffmask_def vm_find_def numeral_3_eq_3

definition demo_it :: "nat \<Rightarrow> u64 \<Rightarrow> vmiter" where
  "demo_it i va = \<lparr>vpt = 0x2000, vpep = Some (5, i), vlevel = 0, vperm = 0xFFF, vva = va\<rparr>"

lemma demo_it_start: "vmiter_at demo_tables 0x2000 0x1000 = Some (demo_it 1 0x1000)"
  by (simp add: vm_eval demo_tables_def demo_it_def)

lemma demo_it_move: "vm_finds demo_tables (demo_it 1 0x1000) [0x2000] = Some (demo_it 2 0x2000)"
  by (simp add: vm_eval demo_tables_def demo_it_def)

lemma demo_it_pa: "vm_pa demo_tables (demo_it 2 0x2000) = 0xA000"
  by (simp add: vm_pa_def vm_eval demo_tables_def demo_it_def)

lemma vm_finds_fresh_witness:
  "\<exists>it0 it. vmiter_at demo_tables 0x2000 0x1000 = Some it0 \<and> vm_finds demo_tables it0 [0x2000] = Some it
     \<and> vmiter_at demo_tables 0x2000 (last [0x1000, 0x2000]) = Some it \<and> vm_pa demo_tables it = 0xA000"
proof -
  have c: "\<forall>va \<in> set [0x1000, 0x2000]. va_is_canonical va" by (simp add: va_is_canonical_def)
  from vm_finds_fresh [OF demo_it_start c demo_it_move] show ?thesis
    using demo_it_start demo_it_move demo_it_pa by blast
qed

end
