(* ===== verification/Kernel.thy ===== *)
theory Kernel
  imports VMiter "HOL-Library.Signed_Division"
begin

text \<open>
  The kernel of \<open>src/pset3/kernel.cc\<close>, with \<open>check_pagetable\<close>, \<open>init_process\<close> and the
  program images of \<open>k-hardware.cc\<close>. A function of the source takes the state and returns it
  updated; one that does not return to its caller ends in \<open>run\<close>, and its state is the one in
  which the process \<open>current\<close> resumes in user mode with the registers of its descriptor.
  \<open>None\<close> is a panic, undefined behaviour, or \<open>schedule\<close> spinning for ever. The console, the
  memory viewer and the keyboard are not modelled.
\<close>

section \<open>Processes\<close>

definition cur :: "kstate \<Rightarrow> proc" where "cur k = ptable k (current k)"

definition set_proc :: "nat \<Rightarrow> (proc \<Rightarrow> proc) \<Rightarrow> kstate \<Rightarrow> kstate" where
  "set_proc n f k = k\<lparr>ptable := (ptable k)(n := f (ptable k n))\<rparr>"

definition zero_regs :: regstate where
  "zero_regs = \<lparr>reg_rax = 0, reg_rcx = 0, reg_rdx = 0, reg_rbx = 0, reg_rbp = 0, reg_rsi = 0, reg_rdi = 0,
     reg_r8 = 0, reg_r9 = 0, reg_r10 = 0, reg_r11 = 0, reg_r12 = 0, reg_r13 = 0, reg_r14 = 0,
     reg_r15 = 0, reg_fs = 0, reg_gs = 0, reg_intno = 0, reg_swapgs = 0, reg_errcode = 0,
     reg_rip = 0, reg_cs = 0, reg_rflags = 0, reg_rsp = 0, reg_ss = 0\<rparr>"

definition EFLAGS_IF :: u64 where "EFLAGS_IF = 0x200"
definition EFLAGS_IOPL_3 :: u64 where "EFLAGS_IOPL_3 = 0x3000"

definition init_process :: "bool \<Rightarrow> bool \<Rightarrow> proc \<Rightarrow> proc" where
  "init_process allow_io disable_interrupts p = (let rf = EFLAGS_IF;
     rf = (if allow_io then rf OR EFLAGS_IOPL_3 else rf);
     rf = (if disable_interrupts then rf AND NOT EFLAGS_IF else rf)
   in p\<lparr>regs := zero_regs\<lparr>reg_cs := 0x18 OR 3, reg_fs := 0x20 OR 3, reg_gs := 0x20 OR 3, reg_ss := 0x20 OR 3,
        reg_rflags := rf\<rparr>\<rparr>)"

definition check_pagetable :: "kconf \<Rightarrow> u64 \<Rightarrow> kstate \<Rightarrow> unit option" where
  "check_pagetable C pt k = do {
     assert_ok (unat pt mod PAGESIZE = 0);
     it \<leftarrow> vmiter_at (mem k) pt (exception_entry C);
     assert_ok (vm_pa (mem k) it = exception_entry C);
     it \<leftarrow> vmiter_at (mem k) (kernel_pagetable C) pt;
     assert_ok (vm_pa (mem k) it = pt);
     it \<leftarrow> vmiter_at (mem k) pt (kernel_pagetable C);
     assert_ok (vm_pa (mem k) it = kernel_pagetable C) }"

definition run :: "kconf \<Rightarrow> nat \<Rightarrow> kstate \<Rightarrow> kstate option" where
  "run C p k = do {
     assert_ok (state (ptable k p) = P_RUNNABLE);
     let k = k\<lparr>current := p\<rparr>;
     check_pagetable C (pagetable (ptable k p)) k;
     Some k }"

definition ready :: "kstate \<Rightarrow> nat \<Rightarrow> bool" where
  "ready k p \<longleftrightarrow> state (ptable k p) = P_RUNNABLE \<and> ticks k \<ge> ucast (wake_up (ptable k p))"

partial_function (option) schedule_loop :: "kconf \<Rightarrow> nat \<Rightarrow> kstate \<Rightarrow> kstate option" where
  "schedule_loop C p k = (let p = (p + 1) mod PID_MAX in
     if ready k p then run C p k else schedule_loop C p k)"

definition schedule :: "kconf \<Rightarrow> kstate \<Rightarrow> kstate option" where
  "schedule C k = schedule_loop C (pid (cur k)) k"

section \<open>Releasing an address space\<close>

partial_function (option) free_mapped :: "vmiter \<Rightarrow> kstate \<Rightarrow> kstate option" where
  "free_mapped it k = (if vva it < MEMSIZE_VIRTUAL then do {
       k \<leftarrow> (if vm_user (mem k) it \<and> vm_pa (mem k) it \<noteq> CONSOLE_ADDR then kfree (vm_pa (mem k) it) k else Some k);
       it \<leftarrow> vm_advance (mem k) it (of_nat PAGESIZE);
       free_mapped it k }
     else Some k)"

partial_function (option) free_tables :: "ptiter \<Rightarrow> kstate \<Rightarrow> kstate option" where
  "free_tables it k = (if \<not> pt_done it then do {
       k \<leftarrow> kfree (pt_pa (mem k) it) k;
       it \<leftarrow> pt_next (mem k) it;
       free_tables it k }
     else Some k)"

definition free_everything :: "u64 \<Rightarrow> kstate \<Rightarrow> kstate option" where
  "free_everything pt k = do {
     it \<leftarrow> vmiter_at (mem k) pt 0;
     k \<leftarrow> free_mapped it k;
     pit \<leftarrow> ptiter_at (mem k) pt;
     k \<leftarrow> free_tables pit k;
     kfree pt k }"

section \<open>System calls on memory\<close>

definition int_result :: "u64 \<Rightarrow> u64" where
  "int_result a = scast (ucast a :: 32 word)"

text \<open>\<open>find_free_vmemory\<close>: \<open>npages\<close> and \<open>running_total\<close> are C integers.\<close>

partial_function (option) find_free_loop :: "pmem \<Rightarrow> int \<Rightarrow> int \<Rightarrow> u64 \<Rightarrow> vmiter \<Rightarrow> u64 option" where
  "find_free_loop m npages rt addr it = (if vva it < MEMSIZE_VIRTUAL then
       (if vm_present m it then do {
          it \<leftarrow> vm_advance m it (of_nat PAGESIZE);
          find_free_loop m npages 0 0 it }
        else do {
          let rt = rt + 1;
          let addr = (if rt = 1 then vva it else addr);
          assert_ok (addr \<noteq> 0);
          if rt = npages then Some addr else do {
            it \<leftarrow> vm_advance m it (of_nat PAGESIZE);
            find_free_loop m npages rt addr it } })
     else Some addr)"

definition find_free_vmemory :: "u64 \<Rightarrow> kstate \<Rightarrow> u64 option" where
  "find_free_vmemory len k = do {
     it \<leftarrow> vmiter_at (mem k) (pagetable (cur k)) PROC_START_ADDR;
     find_free_loop (mem k) (sint (of_nat (unat len div PAGESIZE) :: 32 word)) 0 0 it }"

partial_function (option) any_present :: "pmem \<Rightarrow> u64 \<Rightarrow> vmiter \<Rightarrow> bool option" where
  "any_present m bound it = (if vva it < bound then
       (if vm_present m it then Some True else do {
          it \<leftarrow> vm_advance m it (of_nat PAGESIZE);
          any_present m bound it })
     else Some False)"

text \<open>Where the new mapping goes; 0 if there is no room.\<close>

definition mmap_addr :: "u64 \<Rightarrow> u64 \<Rightarrow> kstate \<Rightarrow> u64 option" where
  "mmap_addr addr len k =
     (if addr = 0 \<or> addr + len > MEMSIZE_VIRTUAL \<or> addr \<ge> MEMSIZE_VIRTUAL \<or> unat addr mod PAGESIZE \<noteq> 0 \<or> addr < PROC_START_ADDR
      then find_free_vmemory len k
      else do {
        it \<leftarrow> vmiter_at (mem k) (pagetable (cur k)) addr;
        b \<leftarrow> any_present (mem k) (addr + len) it;
        if b then find_free_vmemory len k else Some addr })"

text \<open>The rollback when memory runs out: the pages mapped so far are released.\<close>

partial_function (option) mmap_undo :: "kconf \<Rightarrow> u64 \<Rightarrow> vmiter \<Rightarrow> kstate \<Rightarrow> kstate option" where
  "mmap_undo C bound it2 k = (if vva it2 < bound then do {
       k \<leftarrow> kfree (vm_kptr (mem k) it2) k;
       (it2, k) \<leftarrow> vm_map C (vm_kptr (mem k) it2) 0 it2 k;
       it2 \<leftarrow> vm_advance (mem k) it2 (of_nat PAGESIZE);
       mmap_undo C bound it2 k }
     else Some k)"

partial_function (option) mmap_loop :: "kconf \<Rightarrow> u64 \<Rightarrow> u64 \<Rightarrow> u64 \<Rightarrow> vmiter \<Rightarrow> kstate \<Rightarrow> (u64 \<times> kstate) option" where
  "mmap_loop C addr len flags it k = (if vva it < addr + len then do {
       let (pa, k) = kalloc C PAGESIZE k;
       if pa = 0 then do {
         it2 \<leftarrow> vmiter_at (mem k) (pagetable (cur k)) addr;
         k \<leftarrow> mmap_undo C (vva it) it2 k;
         Some (0, k) }
       else do {
         it3 \<leftarrow> vmiter_at (mem k) (pagetable (cur k)) (vva it);
         (r, _, k) \<leftarrow> vm_try_map C pa flags it3 k;
         if r < 0 then do {
           it2 \<leftarrow> vmiter_at (mem k) (pagetable (cur k)) addr;
           k \<leftarrow> mmap_undo C (vva it) it2 k;
           k \<leftarrow> kfree pa k;
           Some (0, k) }
         else do {
           let k = set_page (pageno pa) 0 k;
           it \<leftarrow> vm_advance (mem k) it (of_nat PAGESIZE);
           mmap_loop C addr len flags it k } } }
     else Some (addr, k))"

definition syscall_mmap :: "kconf \<Rightarrow> u64 \<Rightarrow> u64 \<Rightarrow> u64 \<Rightarrow> kstate \<Rightarrow> (u64 \<times> kstate) option" where
  "syscall_mmap C addr len flags k = (if len = 0 then Some (0, k) else do {
     addr \<leftarrow> mmap_addr addr len k;
     if addr = 0 then Some (0, k) else do {
       it \<leftarrow> vmiter_at (mem k) (pagetable (cur k)) addr;
       (r, k) \<leftarrow> mmap_loop C addr len flags it k;
       Some (int_result r, k) } })"

definition syscall_page_alloc :: "kconf \<Rightarrow> u64 \<Rightarrow> kstate \<Rightarrow> (u64 \<times> kstate) option" where
  "syscall_page_alloc C addr k =
     (if unat addr mod PAGESIZE \<noteq> 0 \<or> addr < PROC_START_ADDR \<or> addr \<ge> MEMSIZE_VIRTUAL then Some (-1, k) else do {
        (addr, k) \<leftarrow> syscall_mmap C addr (of_nat PAGESIZE) (PTE_P OR PTE_W OR PTE_U) k;
        Some (if addr = 0 then -1 else 0, k) })"

partial_function (option) munmap_loop :: "kconf \<Rightarrow> u64 \<Rightarrow> vmiter \<Rightarrow> kstate \<Rightarrow> kstate option" where
  "munmap_loop C bound it k = (if vva it < bound \<and> vva it < MEMSIZE_VIRTUAL then do {
       (it, k) \<leftarrow> (if \<not> vm_user (mem k) it \<or> \<not> vm_present (mem k) it then Some (it, k) else do {
          k \<leftarrow> kfree (vm_kptr (mem k) it) k;
          vm_map C (vm_kptr (mem k) it) 0 it k });
       it \<leftarrow> vm_advance (mem k) it (of_nat PAGESIZE);
       munmap_loop C bound it k }
     else Some k)"

definition syscall_munmap :: "kconf \<Rightarrow> u64 \<Rightarrow> u64 \<Rightarrow> kstate \<Rightarrow> (u64 \<times> kstate) option" where
  "syscall_munmap C addr len k = do {
     it \<leftarrow> vmiter_at (mem k) (pagetable (cur k)) addr;
     k \<leftarrow> munmap_loop C (addr + len) it k;
     Some (0, k) }"

section \<open>Fork, exit, kill, sleep\<close>

fun find_free_slot :: "nat list \<Rightarrow> kstate \<Rightarrow> nat" where
  "find_free_slot [] k = 0"
| "find_free_slot (i # is) k = (if state (ptable k i) = P_FREE then i else find_free_slot is k)"

text \<open>The loop over the parent's (\<open>pit\<close>) and the child's (\<open>it\<close>) pages; the result says
  whether it went through.\<close>

partial_function (option) fork_loop :: "kconf \<Rightarrow> u64 \<Rightarrow> vmiter \<Rightarrow> vmiter \<Rightarrow> kstate \<Rightarrow> (bool \<times> kstate) option" where
  "fork_loop C cpt pit it k = (if vva pit < MEMSIZE_VIRTUAL then do {
       (ok, pit, it, k) \<leftarrow>
         (if vva it < PROC_START_ADDR \<or> vva it = CONSOLE_ADDR then do {
            (r, it, k) \<leftarrow> vm_try_map C (vm_pa (mem k) pit) (vm_perm (mem k) pit) it k;
            if r < 0 then do { k \<leftarrow> free_everything cpt k; Some (False, pit, it, k) }
            else Some (True, pit, it, k) }
          else if vm_user (mem k) pit then do {
            let perm = vm_perm (mem k) pit AND NOT PTE_W;
            let perm = (if vm_writable (mem k) pit then perm OR PTE_C else perm);
            (r, it, k) \<leftarrow> vm_try_map C (vm_pa (mem k) pit) perm it k;
            if r < 0 then do { k \<leftarrow> free_everything cpt k; Some (False, pit, it, k) }
            else do {
              (r, pit, k) \<leftarrow> vm_try_map C (vm_pa (mem k) pit) perm pit k;
              assert_ok (r = 0);
              let n = pageno (vm_pa (mem k) pit);
              assert_ok (n < NPAGES);
              Some (True, pit, it, k\<lparr>refcount := (refcount k)(n := refcount k n + 1)\<rparr>) } }
          else Some (True, pit, it, k));
       if \<not> ok then Some (False, k) else do {
         pit \<leftarrow> vm_advance (mem k) pit (of_nat PAGESIZE);
         it \<leftarrow> vm_advance (mem k) it (of_nat PAGESIZE);
         fork_loop C cpt pit it k } }
     else Some (True, k))"

definition syscall_fork :: "kconf \<Rightarrow> kstate \<Rightarrow> (u64 \<times> kstate) option" where
  "syscall_fork C k = (let cpid = find_free_slot [1 ..< PID_MAX] k in
     if cpid = 0 then Some (-1, k) else do {
       let (cpt, k) = kalloc_pagetable C k;
       if cpt = 0 then Some (-1, k) else do {
         pit \<leftarrow> vmiter_at (mem k) (pagetable (cur k)) 0;
         it \<leftarrow> vmiter_at (mem k) cpt 0;
         (ok, k) \<leftarrow> fork_loop C cpt pit it k;
         if \<not> ok then Some (-1, k) else do {
           let r = regs (cur k);
           Some (of_nat cpid, set_proc cpid (\<lambda>p. p\<lparr>pagetable := cpt, state := P_RUNNABLE,
                   regs := r\<lparr>reg_rax := 0\<rparr>, pid := cpid\<rparr>) k) } } })"

definition syscall_exit :: "kconf \<Rightarrow> kstate \<Rightarrow> kstate option" where
  "syscall_exit C k = do {
     k \<leftarrow> free_everything (pagetable (cur k)) k;
     let k = set_proc (pid (cur k)) (\<lambda>p. p\<lparr>state := P_FREE, pagetable := 0\<rparr>) k;
     schedule C k }"

text \<open>An access to the process table, which ends the kernel's defined behaviour outside its \<open>PID_MAX\<close> slots.\<close>

definition ptable_at :: "int \<Rightarrow> kstate \<Rightarrow> proc option" where
  "ptable_at n k = (if 0 \<le> n \<and> n < int PID_MAX then Some (ptable k (nat n)) else None)"

definition syscall_kill :: "u64 \<Rightarrow> kstate \<Rightarrow> (u64 \<times> kstate) option" where
  "syscall_kill arg k = (let n = sint (ucast arg :: 32 word) in
     if n < 0 \<or> n > 16 then Some (-1, k) else do {
     p \<leftarrow> ptable_at n k;
     if state p \<noteq> P_RUNNABLE then Some (-1, k) else do {
       k \<leftarrow> free_everything (pagetable p) k;
       Some (0, set_proc (nat n) (\<lambda>p. p\<lparr>state := P_FREE, pagetable := 0\<rparr>) k) } })"

definition syscall_sleep :: "kconf \<Rightarrow> u64 \<Rightarrow> kstate \<Rightarrow> kstate option" where
  "syscall_sleep C arg k = (let time = sint (ucast arg :: 32 word) in
     schedule C (set_proc (current k) (\<lambda>p. p\<lparr>wake_up := ucast (ticks k + of_int (time sdiv 10))\<rparr>) k))"

section \<open>Entering the kernel\<close>

text \<open>The assembly around \<open>syscall\<close> checks that the process is still runnable and resumes it
  with the result in \<open>rax\<close>.\<close>

definition sysret :: "(u64 \<times> kstate) option \<Rightarrow> kstate option" where
  "sysret r = do {
     (v, k) \<leftarrow> r;
     assert_ok (state (cur k) = P_RUNNABLE);
     Some (set_proc (current k) (\<lambda>p. p\<lparr>regs := (regs p)\<lparr>reg_rax := v\<rparr>\<rparr>) k) }"

definition kernel_syscall :: "kconf \<Rightarrow> regstate \<Rightarrow> kstate \<Rightarrow> kstate option" where
  "kernel_syscall C r k = (let k = set_proc (current k) (\<lambda>p. p\<lparr>regs := r\<rparr>) k; n = reg_rax r in
     if n = 1 then sysret (Some (of_nat (pid (cur k)), k))
     else if n = 2 then schedule C (set_proc (current k) (\<lambda>p. p\<lparr>regs := r\<lparr>reg_rax := 0\<rparr>\<rparr>) k)
     else if n = 4 then sysret (syscall_page_alloc C (reg_rdi r) k)
     else if n = 5 then sysret (syscall_fork C (set_proc (current k) (\<lambda>p. p\<lparr>regs := r\<lparr>reg_rax := 0\<rparr>\<rparr>) k))
     else if n = 6 then syscall_exit C k
     else if n = 7 then sysret (syscall_kill (reg_rdi r) k)
     else if n = 8 then syscall_sleep C (reg_rdi r) k
     else if n = 9 then sysret (syscall_mmap C (reg_rdi r) (reg_rsi r) (int_result (reg_rdx r)) k)
     else if n = 10 then sysret (syscall_munmap C (reg_rdi r) (reg_rsi r) k)
     else None)"

definition round_down_page :: "u64 \<Rightarrow> u64" where
  "round_down_page a = a AND NOT (of_nat PAGESIZE - 1)"

text \<open>A write fault at \<open>addr\<close>: \<open>None\<close> in the first place if the fault is not one that copying
  the page resolves, so that the exception goes on to stop the process.\<close>

datatype fault_result = Resolved kstate | Unresolved | Killed kstate

definition cow_fault :: "kconf \<Rightarrow> u64 \<Rightarrow> kstate \<Rightarrow> fault_result option" where
  "cow_fault C addr k = do {
     it \<leftarrow> vmiter_at (mem k) (pagetable (cur k)) (round_down_page addr);
     if vm_perm (mem k) it AND (PTE_C OR PTE_P) = 0 then Some Unresolved else do {
       assert_ok (\<not> vm_writable (mem k) it);
       let n = pageno (vm_pa (mem k) it);
       let perm = (vm_perm (mem k) it OR PTE_W) AND NOT PTE_C;
       assert_ok (n < NPAGES);
       if refcount k n = 1 then do {
         (r, it, k) \<leftarrow> vm_try_map C (vm_pa (mem k) it) perm it k;
         if r < 0 then do { k \<leftarrow> syscall_exit C k; Some (Killed k) } else Some (Resolved k) }
       else do {
         let (pa, k) = kalloc C PAGESIZE k;
         if pa = 0 then do { k \<leftarrow> syscall_exit C k; Some (Killed k) } else do {
           let old = vm_kptr (mem k) it;
           (r, it, k) \<leftarrow> vm_try_map C pa perm it k;
           if r < 0 then do {
             k \<leftarrow> kfree pa k;
             k \<leftarrow> syscall_exit C k;
             Some (Killed k) }
           else do {
             assert_ok (vm_writable (mem k) it);
             let k = copy_page (pageno pa) (pageno old) k;
             k \<leftarrow> kfree old k;
             Some (Resolved k) } } } } }"

text \<open>\<open>cr2\<close> is the faulting address that the hardware supplies.\<close>

definition exception :: "kconf \<Rightarrow> u64 \<Rightarrow> regstate \<Rightarrow> kstate \<Rightarrow> kstate option" where
  "exception C cr2 r k = (let k = set_proc (current k) (\<lambda>p. p\<lparr>regs := r\<rparr>) k in
     if reg_intno r = 32 then schedule C (k\<lparr>ticks := ticks k + 1\<rparr>)
     else if reg_intno r = 14 then do {
       f \<leftarrow> (if reg_errcode r AND PTE_W \<noteq> 0 \<and> cr2 \<ge> PROC_START_ADDR \<and> cr2 \<noteq> CONSOLE_ADDR
            then cow_fault C cr2 k else Some Unresolved);
       case f of
         Killed k \<Rightarrow> Some k
       | Resolved k \<Rightarrow> (if state (cur k) = P_RUNNABLE then run C (current k) k else schedule C k)
       | Unresolved \<Rightarrow>
           (if reg_errcode r AND PTE_U = 0 then None
            else schedule C (set_proc (current k) (\<lambda>p. p\<lparr>state := P_FAULTED\<rparr>) k)) }
     else None)"

section \<open>The memory functions leave the processes alone\<close>

definition same_procs :: "kstate \<Rightarrow> kstate \<Rightarrow> bool" where
  "same_procs k k' \<longleftrightarrow> ptable k' = ptable k \<and> current k' = current k \<and> ticks k' = ticks k"

lemma same_procs_refl [simp]: "same_procs k k"
  by (simp add: same_procs_def)

lemma same_procs_trans: "same_procs k k1 \<Longrightarrow> same_procs k1 k2 \<Longrightarrow> same_procs k k2"
  by (simp add: same_procs_def)

lemma same_procs_upd [simp]: "same_procs k (set_page p w k')  = same_procs k k'"
  "same_procs k (copy_page p q k') = same_procs k k'" "same_procs k (set_entry p i e k') = same_procs k k'"
  "same_procs k (k'\<lparr>refcount := rc\<rparr>) = same_procs k k'"
  by (simp_all add: same_procs_def set_entry_def)

lemma cur_same: "same_procs k k' \<Longrightarrow> cur k' = cur k"
  by (simp add: same_procs_def cur_def)

lemma kfree_same: "kfree a k = Some k' \<Longrightarrow> same_procs k k'"
  by (auto simp: kfree_def Let_def split: if_splits)

lemma kalloc_same: "kalloc C n k = (pa, k') \<Longrightarrow> same_procs k k'"
  by (drule kalloc_cases) (auto simp: take_page_def)

lemma add_tables_0: "vlevel it = 0 \<Longrightarrow> add_tables C n it k = Some (0, it, k)"
  by (subst add_tables.simps) simp

lemma add_tables_Suc:
  assumes "0 < vlevel it"
  shows "add_tables C (Suc n) it k = (if entry (mem k) it AND PTE_P \<noteq> 0 then None else
    case kalloc C PAGESIZE k of (pt, k1) \<Rightarrow> if pt = 0 then Some (-1, it, k1) else do {
      (p, i) \<leftarrow> vpep it;
      let k2 = set_entry p i (pt OR PTE_P OR PTE_W OR PTE_U) (set_page (pageno pt) 0 k1);
      it1 \<leftarrow> down (mem k2) it;
      add_tables C n it1 k2 })"
  using assms by (subst add_tables.simps) (cases "kalloc C PAGESIZE k"; simp add: Let_def assert_ok_def)

lemma add_tables_same: "add_tables C n it k = Some (r, it', k') \<Longrightarrow> same_procs k k'"
proof (induction n arbitrary: it k)
  case 0
  then show ?case by (subst (asm) add_tables.simps) (auto split: if_splits)
next
  case (Suc n)
  show ?case
  proof (cases "vlevel it = 0")
    case True
    then show ?thesis using Suc.prems by (simp add: add_tables_0)
  next
    case False
    obtain pt k1 where ka: "kalloc C PAGESIZE k = (pt, k1)" by fastforce
    have s1: "same_procs k k1" by (rule kalloc_same [OF ka])
    consider "k' = k1" | p i it1 where
      "add_tables C n it1 (set_entry p i (pt OR PTE_P OR PTE_W OR PTE_U) (set_page (pageno pt) 0 k1)) = Some (r, it', k')"
      using Suc.prems False ka by (auto simp: add_tables_Suc Let_def split: Option.bind_splits if_splits)
    then show ?thesis
    proof cases
      case 2
      from Suc.IH [OF 2] have "same_procs k1 k'" by (simp add: same_procs_def set_entry_def)
      then show ?thesis by (rule same_procs_trans [OF s1])
    qed (simp add: s1)
  qed
qed

text \<open>The two stages of \<open>try_map\<close>: the missing tables, then the entry.\<close>

lemma try_map_cases:
  assumes "vm_try_map C pa perm it k = Some (r, it', k')"
  obtains r1 it1 k1 where "(if perm \<noteq> 0 then add_tables C (vlevel it) it k else Some (0, it, k)) = Some (r1, it1, k1)"
    and "perm AND NOT (vperm it) AND (PTE_P OR PTE_W OR PTE_U) = 0" and "unat (vva it) mod PAGESIZE = 0"
    and "it' = it1" and "(r1 < 0 \<or> 0 < vlevel it1) \<and> r = (if r1 < 0 then r1 else 0) \<and> k' = k1
      \<or> 0 \<le> r1 \<and> r = 0 \<and> (\<exists>p i. vpep it1 = Some (p, i) \<and> vlevel it1 = 0
           \<and> k' = set_entry p i ((if pa = -1 \<and> perm = 0 then 0 else pa) OR perm) k1)"
proof -
  have a: "unat (vva it) mod PAGESIZE = 0" "perm AND NOT (vperm it) AND (PTE_P OR PTE_W OR PTE_U) = 0"
    using assms by (auto simp: vm_try_map_def assert_ok_def split: if_splits)
  obtain y where y: "(if perm \<noteq> 0 then add_tables C (vlevel it) it k else Some (0, it, k)) = Some y"
    "(case y of (r1, it1, k1) \<Rightarrow> if r1 < 0 then Some (r1, it1, k1) else if vlevel it1 = 0 then (case vpep it1 of None \<Rightarrow> None
       | Some (p, i) \<Rightarrow> Some (0, it1, set_entry p i ((if pa = -1 \<and> perm = 0 then 0 else pa) OR perm) k1))
     else Some (0, it1, k1)) = Some (r, it', k')"
    using assms unfolding vm_try_map_def Let_def bind_eq_Some_conv by blast
  obtain r1 it1 k1 where yy: "y = (r1, it1, k1)" by (cases y) auto
  show ?thesis by (rule that [OF y(1) [unfolded yy] a(2,1)]) (use y(2) yy in \<open>auto split: if_splits option.splits\<close>)
qed

lemma try_map_same: "vm_try_map C pa perm it k = Some (r, it', k') \<Longrightarrow> same_procs k k'"
proof (erule try_map_cases)
  fix r1 it1 k1
  assume "(if perm \<noteq> 0 then add_tables C (vlevel it) it k else Some (0, it, k)) = Some (r1, it1, k1)"
    and c: "(r1 < 0 \<or> 0 < vlevel it1) \<and> r = (if r1 < 0 then r1 else 0) \<and> k' = k1
      \<or> 0 \<le> r1 \<and> r = 0 \<and> (\<exists>p i. vpep it1 = Some (p, i) \<and> vlevel it1 = 0
           \<and> k' = set_entry p i ((if pa = -1 \<and> perm = 0 then 0 else pa) OR perm) k1)"
  then have "same_procs k k1" using add_tables_same by (cases "perm = 0") auto
  then show "same_procs k k'" using c by auto
qed

lemma vm_map_same: "vm_map C pa perm it k = Some (it', k') \<Longrightarrow> same_procs k k'"
  by (auto simp: vm_map_def assert_ok_def dest: try_map_same split: Option.bind_splits if_splits)

lemma free_mapped_same: "free_mapped it k = Some k' \<Longrightarrow> same_procs k k'"
proof (rule free_mapped.raw_induct [of "\<lambda>it k k'. same_procs k k'"])
  fix f it k y
  assume "\<And>it k y. f it k = Some y \<Longrightarrow> same_procs k y"
    and "(if vva it < MEMSIZE_VIRTUAL then do {
       k \<leftarrow> (if vm_user (mem k) it \<and> vm_pa (mem k) it \<noteq> CONSOLE_ADDR then kfree (vm_pa (mem k) it) k else Some k);
       it \<leftarrow> vm_advance (mem k) it (of_nat PAGESIZE);
       f it k } else Some k) = Some y"
  then show "same_procs k y"
    by (auto dest!: kfree_same split: if_splits Option.bind_splits) (blast intro: same_procs_trans)
qed

lemma free_tables_same: "free_tables it k = Some k' \<Longrightarrow> same_procs k k'"
proof (rule free_tables.raw_induct [of "\<lambda>it k k'. same_procs k k'"])
  fix f it k y
  assume "\<And>it k y. f it k = Some y \<Longrightarrow> same_procs k y"
    and "(if \<not> pt_done it then do {
       k \<leftarrow> kfree (pt_pa (mem k) it) k;
       it \<leftarrow> pt_next (mem k) it;
       f it k } else Some k) = Some y"
  then show "same_procs k y"
    by (auto dest!: kfree_same split: if_splits Option.bind_splits) (blast intro: same_procs_trans)
qed

lemma free_everything_same: "free_everything pt k = Some k' \<Longrightarrow> same_procs k k'"
  by (auto simp: free_everything_def dest!: kfree_same free_mapped_same free_tables_same
      intro: same_procs_trans split: Option.bind_splits)

end
