(* ===== verification/KSched.thy ===== *)
theory KSched
  imports Kernel
begin

text \<open>
  The scheduler of \<open>src/pset3/kernel.cc\<close> and a system call that ends in it: which process
  runs next, when the kernel spins for ever, and what \<open>sys_sleep\<close> does to the caller.
\<close>

section \<open>The search for a process\<close>

text \<open>The next \<open>n\<close> processes after \<open>p\<close>, in the order in which \<open>schedule\<close> looks at them.\<close>

fun next_procs :: "nat \<Rightarrow> nat \<Rightarrow> nat list" where
  "next_procs p 0 = []"
| "next_procs p (Suc n) = (let p = (p + 1) mod PID_MAX in p # next_procs p n)"

definition after :: "nat \<Rightarrow> nat list" where
  "after p = next_procs p PID_MAX"

lemma next_procs_map: "next_procs p n = map (\<lambda>j. (p + j) mod PID_MAX) [1 ..< n + 1]"
proof (induction n arbitrary: p)
  case (Suc n)
  have "[1 ..< Suc n + 1] = 1 # map Suc [1 ..< n + 1]" by (simp add: upt_conv_Cons map_Suc_upt del: upt_Suc)
  then show ?case using Suc [of "(p + 1) mod PID_MAX"] by (simp add: Let_def mod_simps del: upt_Suc)
qed simp

lemma schedule_loop_find:
  "schedule_loop C p k = (case find (ready k) (next_procs p n) of
     Some q \<Rightarrow> run C q k | None \<Rightarrow> schedule_loop C (last (p # next_procs p n)) k)"
proof (induction n arbitrary: p)
  case (Suc n)
  show ?case
    using Suc.IH [of "Suc p mod PID_MAX"]
    by (subst schedule_loop.simps) (simp add: Let_def split: option.split)
qed simp

lemma schedule_loop_returns: "schedule_loop C p k = Some k' \<Longrightarrow> \<exists>q. q < PID_MAX \<and> ready k q"
proof (rule schedule_loop.raw_induct [of "\<lambda>C p k k'. \<exists>q. q < PID_MAX \<and> ready k q"])
  fix f Ca pa ka y
  assume "\<And>C p k y. f C p k = Some y \<Longrightarrow> \<exists>q. q < PID_MAX \<and> ready k q"
    and "(let p = (pa + 1) mod PID_MAX in if ready ka p then run Ca p ka else f Ca p ka) = Some y"
  then show "\<exists>q. q < PID_MAX \<and> ready ka q"
    by (cases "ready ka ((pa + 1) mod PID_MAX)") (simp_all add: Let_def, metis mod_less_divisor zero_less_numeral)
qed

lemma set_after: "set (after p) = {..< PID_MAX}"
proof
  show "set (after p) \<subseteq> {..< PID_MAX}" by (auto simp: after_def next_procs_map)
  show "{..< PID_MAX} \<subseteq> set (after p)"
  proof
    fix q assume q: "q \<in> {..< PID_MAX}"
    define j where "j = (if p mod PID_MAX < q then q - p mod PID_MAX else q + PID_MAX - p mod PID_MAX)"
    have j: "1 \<le> j" "j < PID_MAX + 1" using q unfolding j_def by auto
    have "(p + j) mod PID_MAX = (p mod PID_MAX + j) mod PID_MAX" by (simp add: mod_simps)
    also have "\<dots> = q" using q by (auto simp: j_def)
    finally have "(p + j) mod PID_MAX = q" .
    then show "q \<in> set (after p)" using j unfolding after_def next_procs_map by (auto intro!: image_eqI [of _ _ j])
  qed
qed

text \<open>C30: \<open>schedule\<close> runs the first ready process (runnable, and its wake-up time reached) after the
  current one in cyclic order, the current one last; if no process is ready it never returns,
  because nothing it does can make one ready.\<close>

theorem schedule_round_robin:
  "schedule C k = (case find (ready k) (after (pid (cur k))) of Some q \<Rightarrow> run C q k | None \<Rightarrow> None)"
proof (cases "find (ready k) (after (pid (cur k)))")
  case None
  then have "\<not> (\<exists>q. q < PID_MAX \<and> ready k q)" using set_after by (auto simp: find_None_iff)
  then have "schedule C k = None" using schedule_loop_returns unfolding schedule_def by (metis not_None_eq)
  then show ?thesis using None by simp
next
  case (Some q)
  then show ?thesis using schedule_loop_find [of C "pid (cur k)" k PID_MAX] by (simp add: schedule_def after_def)
qed

section \<open>Sleeping\<close>

lemma schedule_none: "(\<And>q. q < PID_MAX \<Longrightarrow> \<not> ready k q) \<Longrightarrow> schedule C k = None"
  using schedule_loop_returns unfolding schedule_def by (metis not_None_eq)

lemma set_proc_simps [simp]:
  "ptable (set_proc n f k) = (ptable k)(n := f (ptable k n))" "mem (set_proc n f k) = mem k"
  "refcount (set_proc n f k) = refcount k" "current (set_proc n f k) = current k" "ticks (set_proc n f k) = ticks k"
  by (simp_all add: set_proc_def)

lemma sint32_of_arg: "unat (w :: u64) < 2 ^ 31 \<Longrightarrow> sint (ucast w :: 32 word) = int (unat w)"
proof -
  assume a: "unat w < 2 ^ 31"
  have l: "LENGTH(32) - Suc 0 = 31" by simp
  have b: "- (2 ^ 31) \<le> int n" "int n < 2 ^ 31" if "n < 2 ^ 31" for n using that by simp_all
  have "signed_take_bit 31 (int (unat w)) = int (unat w)" by (rule signed_take_bit_int_eq_self [OF b [OF a]])
  then show ?thesis unfolding signed_ucast_eq l uint_nat .
qed

text \<open>The wake-up time of a sleeping process, without wrap-around.\<close>

lemma wake_up_time:
  assumes "unat t < 2 ^ 31" and "unat s < 2 ^ 31"
  shows "unat (ucast (s + of_int (sint (ucast (t :: u64) :: 32 word) sdiv 10) :: u64) :: 32 word) = unat s + unat t div 10"
proof -
  have "sint (ucast t :: 32 word) sdiv 10 = int (unat t div 10)"
  proof (cases "unat t = 0")
    case True
    then show ?thesis unfolding sint32_of_arg [OF assms(1)] True by simp
  next
    case False
    have "sgn (int n) = 1" if "n \<noteq> 0" for n using that by simp
    from this [OF False] show ?thesis unfolding sint32_of_arg [OF assms(1)] signed_divide_int_def by (simp only: abs_of_nat) (simp add: zdiv_int)
  qed
  then have e: "s + of_int (sint (ucast t :: 32 word) sdiv 10) = of_nat (unat s + unat t div 10)" by simp
  have "unat t div 10 < 2 ^ 31" using assms(1) by simp
  then have b: "unat s + unat t div 10 < 2 ^ 32" using assms(2) by simp
  have "unat (ucast (of_nat m :: u64) :: 32 word) = m" if "m < 2 ^ 32" for m
    using that by (simp add: unsigned_ucast_eq unsigned_of_nat take_bit_nat_eq_self)
  from this [OF b] show ?thesis unfolding e .
qed

text \<open>\<open>sys_sleep\<close> hangs the machine when no other process is runnable: the timer does not tick
  while the kernel searches, so the wake-up time is never reached (for a sleep of at least
  one tick).\<close>

theorem sleep_alone_hangs:
  assumes "reg_rax r = 8" and "10 \<le> unat (reg_rdi r)" and "unat (reg_rdi r) < 2 ^ 31" and "unat (ticks k) < 2 ^ 31"
    and "\<forall>q < PID_MAX. q \<noteq> current k \<longrightarrow> state (ptable k q) \<noteq> P_RUNNABLE"
  shows "kernel_syscall C r k = None"
proof -
  define k1 where "k1 = set_proc (current k) (\<lambda>p. p\<lparr>regs := r\<rparr>) k"
  define k2 where "k2 = set_proc (current k1) (\<lambda>p. p\<lparr>wake_up := ucast (ticks k1 + of_int (sint (ucast (reg_rdi r) :: 32 word) sdiv 10))\<rparr>) k1"
  have s: "kernel_syscall C r k = schedule C k2"
    using assms(1) by (simp add: kernel_syscall_def syscall_sleep_def k1_def k2_def Let_def)
  have "unat (wake_up (ptable k2 (current k))) = unat (ticks k) + unat (reg_rdi r) div 10"
    using wake_up_time [OF assms(3,4)] by (simp add: k2_def k1_def)
  then have "unat (ucast (wake_up (ptable k2 (current k))) :: u64) = unat (ticks k) + unat (reg_rdi r) div 10"
    using assms(3,4) by (simp add: unsigned_ucast_eq take_bit_nat_eq_self)
  moreover have "0 < unat (reg_rdi r) div 10" using assms(2) by simp
  ultimately have "\<not> ready k2 (current k)" by (simp add: ready_def word_le_nat_alt k2_def k1_def)
  moreover have "\<not> ready k2 q" if "q < PID_MAX" "q \<noteq> current k" for q
    using assms(5) that by (simp add: ready_def k2_def k1_def)
  ultimately show ?thesis unfolding s by (intro schedule_none) blast
qed

definition idle_proc :: proc where
  "idle_proc = \<lparr>pagetable = 0, pid = 0, state = P_FREE, regs = zero_regs, wake_up = 0\<rparr>"

definition lone_kernel :: kstate where
  "lone_kernel = \<lparr>mem = (\<lambda>p i. 0), refcount = (\<lambda>p. 0),
     ptable = (\<lambda>n. if n = 1 then idle_proc\<lparr>pid := 1, state := P_RUNNABLE, pagetable := 0x1000\<rparr> else idle_proc),
     current = 1, ticks = 5\<rparr>"

lemma sleep_alone_hangs_witness:
  "state (ptable lone_kernel 1) = P_RUNNABLE
     \<and> kernel_syscall demo_conf (zero_regs\<lparr>reg_rax := 8, reg_rdi := 1000\<rparr>) lone_kernel = None"
  using sleep_alone_hangs [of "zero_regs\<lparr>reg_rax := 8, reg_rdi := 1000\<rparr>" lone_kernel demo_conf]
  by (simp add: lone_kernel_def zero_regs_def idle_proc_def)

lemma cur_set_proc [simp]: "cur (set_proc n f k) = (if n = current k then f (cur k) else cur k)"
  by (simp add: cur_def)

end
