(* ===== verification/KBoot.thy ===== *)
theory KBoot
  imports KSched
begin

text \<open>
  Starting the kernel of \<open>src/pset3\<close>: the program images of \<open>k-hardware.cc\<close>, and
  \<open>process_setup\<close> and \<open>kernel_start\<close> of \<open>kernel.cc\<close>. The images are arguments (the build
  puts them into the kernel). Of \<open>init_hardware\<close> the kernel page table is modelled; segments,
  interrupt gates and device registers are not part of the state.
\<close>

section \<open>Program images\<close>

record elf_program =
  p_type :: "32 word"
  p_flags :: "32 word"
  p_offset :: u64
  p_va :: u64
  p_filesz :: u64
  p_memsz :: u64

text \<open>An image: its entry point, its program headers, and its bytes from the ELF header on.\<close>

record elf_image =
  e_entry :: u64
  e_phdrs :: "elf_program list"
  e_bytes :: "nat \<Rightarrow> u8"

definition image_empty :: "elf_image option \<Rightarrow> bool" where
  "image_empty elf = (case elf of None \<Rightarrow> True | Some e \<Rightarrow> e_phdrs e = [])"

definition image_entry :: "elf_image option \<Rightarrow> u64" where
  "image_entry elf = (case elf of None \<Rightarrow> 0 | Some e \<Rightarrow> e_entry e)"

text \<open>An iterator over the segments is the list of the headers from it on; \<open>fix\<close> skips those
  that are not loaded.\<close>

definition seg_fix :: "elf_program list \<Rightarrow> elf_program list" where
  "seg_fix ph = dropWhile (\<lambda>h. p_type h \<noteq> 1) ph"

definition seg_begin :: "elf_image option \<Rightarrow> elf_program list" where
  "seg_begin elf = (case elf of None \<Rightarrow> [] | Some e \<Rightarrow> seg_fix (e_phdrs e))"

definition seg_next :: "elf_program list \<Rightarrow> elf_program list option" where
  "seg_next ph = (case ph of [] \<Rightarrow> None | _ # ph \<Rightarrow> Some (seg_fix ph))"

definition seg_writable :: "elf_program \<Rightarrow> bool" where
  "seg_writable h \<longleftrightarrow> p_flags h AND 2 \<noteq> 0"

text \<open>Every iteration from \<open>begin()\<close> visits the loadable segments in order.\<close>

lemma length_seg_fix [simp]: "length (seg_fix ph) \<le> length ph"
  by (simp add: seg_fix_def length_dropWhile_le)

fun segments :: "elf_program list \<Rightarrow> elf_program list" where
  "segments [] = []"
| "segments (h # ph) = h # segments (seg_fix ph)"

lemma segments_filter: "segments (seg_fix ph) = filter (\<lambda>h. p_type h = 1) ph"
proof (induction "length ph" arbitrary: ph rule: less_induct)
  case less
  show ?case
  proof (cases "seg_fix ph")
    case Nil
    then have "\<forall>h \<in> set ph. p_type h \<noteq> 1" by (simp add: seg_fix_def dropWhile_eq_Nil_conv)
    then show ?thesis unfolding Nil by (simp add: filter_empty_conv)
  next
    case (Cons h t)
    then have s: "ph = takeWhile (\<lambda>h. p_type h \<noteq> 1) ph @ h # t" unfolding seg_fix_def by (metis takeWhile_dropWhile_id)
    have h: "p_type h = 1" using Cons hd_dropWhile [of "\<lambda>h. p_type h \<noteq> 1" ph] by (simp add: seg_fix_def)
    have "length t < length ph" by (subst s) simp
    then have "segments (seg_fix t) = filter (\<lambda>h. p_type h = 1) t" using less by blast
    moreover have "filter (\<lambda>h. p_type h = 1) (takeWhile (\<lambda>h. p_type h \<noteq> 1) ph) = []"
      by (auto simp: filter_empty_conv dest: set_takeWhileD)
    ultimately show ?thesis unfolding Cons using h by (subst s) simp
  qed
qed

section \<open>Loading a process\<close>

text \<open>\<open>memcpy\<close> of \<open>n\<close> bytes to the start of a page that has just been cleared: the page's words
  are the little-endian words of the bytes.\<close>

definition bytes_word :: "(nat \<Rightarrow> u8) \<Rightarrow> nat \<Rightarrow> u64" where
  "bytes_word b i = (\<Sum>j < 8. push_bit (8 * j) (ucast (b (8 * i + j))))"

definition load_page :: "nat \<Rightarrow> (nat \<Rightarrow> u8) \<Rightarrow> nat \<Rightarrow> kstate \<Rightarrow> kstate" where
  "load_page p src n k = k\<lparr>mem := (mem k)(p := (\<lambda>i. bytes_word (\<lambda>j. if j < n then src j else 0) i))\<rparr>"

text \<open>The pages of one segment, from address \<open>a\<close> on.\<close>

partial_function (option) load_segment :: "kconf \<Rightarrow> u64 \<Rightarrow> elf_image \<Rightarrow> elf_program \<Rightarrow> u64 \<Rightarrow> kstate \<Rightarrow> kstate option" where
  "load_segment C pt e h a k = (if a < p_va h + p_memsz h then do {
       let (pa, k) = kalloc C PAGESIZE k;
       assert_ok (pa \<noteq> 0);
       let perm = (if seg_writable h then PTE_P OR PTE_U OR PTE_W else PTE_P OR PTE_U);
       it \<leftarrow> vmiter_at (mem k) pt a;
       (r, _, k) \<leftarrow> vm_try_map C pa perm it k;
       assert_ok (r = 0);
       let k = set_page (pageno pa) 0 k;
       let off = a - p_va h;
       let k = (if off > p_filesz h then k
                else load_page (pageno pa) (\<lambda>j. e_bytes e (unat (p_offset h + off) + j))
                       (min PAGESIZE (unat (p_filesz h - off))) k);
       load_segment C pt e h (a + of_nat PAGESIZE) k }
     else Some k)"

fun load_segments :: "kconf \<Rightarrow> u64 \<Rightarrow> elf_image \<Rightarrow> elf_program list \<Rightarrow> kstate \<Rightarrow> kstate option" where
  "load_segments C pt e [] k = Some k"
| "load_segments C pt e (h # hs) k = do {
     k \<leftarrow> load_segment C pt e h (round_down_page (p_va h)) k;
     load_segments C pt e hs k }"

text \<open>The kernel's mappings are copied into the new page table.\<close>

partial_function (option) copy_kernel_maps :: "kconf \<Rightarrow> u64 \<Rightarrow> vmiter \<Rightarrow> kstate \<Rightarrow> kstate option" where
  "copy_kernel_maps C pt it k = (if vva it < PROC_START_ADDR then do {
       kit \<leftarrow> vmiter_at (mem k) (kernel_pagetable C) (vva it);
       nit \<leftarrow> vmiter_at (mem k) pt (vva it);
       (r, _, k) \<leftarrow> vm_try_map C (vm_pa (mem k) kit) (vm_perm (mem k) kit) nit k;
       assert_ok (r = 0);
       it \<leftarrow> vm_advance (mem k) it (of_nat PAGESIZE);
       copy_kernel_maps C pt it k }
     else Some k)"

definition process_setup :: "kconf \<Rightarrow> (string \<Rightarrow> elf_image option) \<Rightarrow> nat \<Rightarrow> string \<Rightarrow> kstate \<Rightarrow> kstate option" where
  "process_setup C images n name k = do {
     let k = set_proc n (init_process False False) k;
     let (pt, k) = kalloc_pagetable C k;
     let k = set_proc n (\<lambda>p. p\<lparr>pagetable := pt\<rparr>) k;
     assert_ok (pt \<noteq> 0);
     it \<leftarrow> vmiter_at (mem k) pt 0;
     k \<leftarrow> copy_kernel_maps C pt it k;
     let pgm = images name;
     k \<leftarrow> (case pgm of None \<Rightarrow> Some k | Some e \<Rightarrow> load_segments C pt e (segments (seg_begin pgm)) k);
     let k = set_proc n (\<lambda>p. p\<lparr>regs := (regs p)\<lparr>reg_rip := image_entry pgm\<rparr>\<rparr>) k;
     let stack_addr = MEMSIZE_VIRTUAL - of_nat PAGESIZE;
     let (pa, k) = kalloc C PAGESIZE k;
     assert_ok (pa \<noteq> 0);
     sit \<leftarrow> vmiter_at (mem k) pt stack_addr;
     (r, _, k) \<leftarrow> vm_try_map C pa (PTE_P OR PTE_W OR PTE_U) sit k;
     assert_ok (r = 0);
     Some (set_proc n (\<lambda>p. p\<lparr>regs := (regs p)\<lparr>reg_rsp := stack_addr + of_nat PAGESIZE\<rparr>, state := P_RUNNABLE\<rparr>) k) }"

section \<open>Starting the kernel\<close>

text \<open>The first part of \<open>init_kernel_memory\<close> builds the kernel page table in five pages: one
  path to the first two megabytes, one more table for the next two, and three large pages for
  the rest of the first four gigabytes.\<close>

definition clear_pages :: "nat \<Rightarrow> nat \<Rightarrow> kstate \<Rightarrow> kstate" where
  "clear_pages p n k = fold (\<lambda>i. set_page (p + i) 0) [0 ..< n] k"

definition init_kernel_tables :: "kconf \<Rightarrow> kstate \<Rightarrow> kstate" where
  "init_kernel_tables C k = (
     let p = pageno (kernel_pagetable C);
         perm = PTE_P OR PTE_W OR PTE_U;
         big = PTE_P OR PTE_W OR PTE_PS;
         k = clear_pages p 5 k;
         k = set_entry p 0 (page_addr (p + 1) OR perm) k;
         k = set_entry (p + 1) 0 (page_addr (p + 2) OR perm) k;
         k = set_entry (p + 2) 0 (page_addr (p + 3) OR perm) k;
         k = set_entry (p + 2) 1 (page_addr (p + 4) OR perm) k;
         k = set_entry (p + 1) 1 (push_bit 30 1 OR big) k;
         k = set_entry (p + 1) 2 (push_bit 30 2 OR big) k
     in set_entry (p + 1) 3 (push_bit 30 3 OR big) k)"

partial_function (option) init_maps :: "kconf \<Rightarrow> vmiter \<Rightarrow> kstate \<Rightarrow> kstate option" where
  "init_maps C it k = (if vva it < MEMSIZE_PHYSICAL then do {
       (it, k) \<leftarrow> (if vva it \<noteq> 0 then vm_map C (vva it) (PTE_P OR PTE_W OR PTE_U) it k else Some (it, k));
       it \<leftarrow> vm_advance (mem k) it (of_nat PAGESIZE);
       init_maps C it k }
     else Some k)"

definition init_kernel_memory :: "kconf \<Rightarrow> kstate \<Rightarrow> kstate option" where
  "init_kernel_memory C k = do {
     let k = init_kernel_tables C k;
     it \<leftarrow> vmiter_at (mem k) (kernel_pagetable C) 0;
     init_maps C it k }"

partial_function (option) kernel_maps :: "kconf \<Rightarrow> u64 \<Rightarrow> kstate \<Rightarrow> kstate option" where
  "kernel_maps C addr k = (if addr < MEMSIZE_PHYSICAL then do {
       let perm = PTE_P OR PTE_W OR PTE_U;
       let perm = (if addr < 0x100000 \<and> addr \<noteq> CONSOLE_ADDR then PTE_P OR PTE_W else perm);
       let perm = (if addr = 0 then 0 else perm);
       it \<leftarrow> vmiter_at (mem k) (kernel_pagetable C) addr;
       (r, _, k) \<leftarrow> vm_try_map C addr perm it k;
       assert_ok (r = 0);
       kernel_maps C (addr + of_nat PAGESIZE) k }
     else Some k)"

definition init_ptable :: "kstate \<Rightarrow> kstate" where
  "init_ptable k = k\<lparr>ptable := (\<lambda>i. if i < PID_MAX then (ptable k i)\<lparr>pid := i, state := P_FREE\<rparr> else ptable k i)\<rparr>"

definition kernel_start :: "kconf \<Rightarrow> (string \<Rightarrow> elf_image option) \<Rightarrow> string \<Rightarrow> string option \<Rightarrow> kstate \<Rightarrow> kstate option" where
  "kernel_start C images first command k = do {
     k \<leftarrow> init_kernel_memory C k;
     let k = k\<lparr>ticks := 1\<rparr>;
     k \<leftarrow> kernel_maps C 0 k;
     let k = init_ptable k;
     let command = (case command of None \<Rightarrow> first | Some c \<Rightarrow> c);
     k \<leftarrow> (if \<not> image_empty (images command) then process_setup C images 1 command k
           else do {
             k \<leftarrow> process_setup C images 1 ''allocator'' k;
             k \<leftarrow> process_setup C images 2 ''allocator2'' k;
             k \<leftarrow> process_setup C images 3 ''allocator3'' k;
             process_setup C images 4 ''allocator4'' k });
     run C 1 k }"

section \<open>Reading user memory\<close>

text \<open>\<open>strlcpy_from_user\<close>: at most \<open>maxlen - 1\<close> bytes from the iterator on, while they are
  accessible to the user; \<open>byte\<close> reads a physical address. (Without a room for the
  terminating null nothing is written.)\<close>

partial_function (option) strlcpy_loop :: "pmem \<Rightarrow> (u64 \<Rightarrow> u8) \<Rightarrow> nat \<Rightarrow> nat \<Rightarrow> vmiter \<Rightarrow> u8 list option" where
  "strlcpy_loop m byte i maxlen it = (if i + 1 < maxlen \<and> vm_user m it then do {
       it' \<leftarrow> vm_find m it (vva it + 1);
       bs \<leftarrow> strlcpy_loop m byte (i + 1) maxlen it';
       Some (byte (vm_kptr m it) # bs) }
     else Some (if i < maxlen then [0] else []))"

definition strlcpy_from_user :: "pmem \<Rightarrow> (u64 \<Rightarrow> u8) \<Rightarrow> vmiter \<Rightarrow> nat \<Rightarrow> u8 list option" where
  "strlcpy_from_user m byte it maxlen = strlcpy_loop m byte 0 maxlen it"

end
