(* ===== verification/PTree.thy ===== *)
theory PTree
  imports Kernel
begin

text \<open>
  Page tables as maps. A page table is a tree of pages below its root; \<open>mapping\<close> reads it as a
  function from virtual addresses to physical pages and permissions. On well-formed trees,
  whose table pages are each reached along one path, \<open>try_map\<close> (with the tables it adds) is an
  update of that function at one page of addresses, and leaves the trees of other processes
  alone.
\<close>

section \<open>Paths\<close>

text \<open>Two addresses take the same path for \<open>d\<close> steps down.\<close>

definition same_path :: "nat \<Rightarrow> u64 \<Rightarrow> u64 \<Rightarrow> bool" where
  "same_path d a b \<longleftrightarrow> (\<forall>j < d. pageindex a (3 - j) = pageindex b (3 - j))"

lemma same_path_0 [simp]: "same_path 0 a b"
  by (simp add: same_path_def)

lemma same_path_refl [simp]: "same_path d a a"
  by (simp add: same_path_def)

lemma same_path_sym: "same_path d a b \<Longrightarrow> same_path d b a"
  by (simp add: same_path_def)

lemma same_path_trans: "same_path d a b \<Longrightarrow> same_path d b c \<Longrightarrow> same_path d a c"
  by (simp add: same_path_def)

lemma same_path_Suc: "same_path (Suc d) a b \<longleftrightarrow> same_path d a b \<and> pageindex a (3 - d) = pageindex b (3 - d)"
  by (auto simp: same_path_def less_Suc_eq)

lemma same_path_mono: "same_path d a b \<Longrightarrow> e \<le> d \<Longrightarrow> same_path e a b"
  by (simp add: same_path_def)

lemma table_at_same_path: "same_path d a b \<Longrightarrow> table_at m r a d = table_at m r b d"
  by (induction d) (simp_all add: same_path_Suc table_at.simps(2) split: option.split)

lemma table_at_down: "table_at m r a d = None \<Longrightarrow> d \<le> e \<Longrightarrow> table_at m r a e = None"
  by (rotate_tac, induction e rule: dec_induct) (auto simp: table_at.simps(2))

section \<open>The mapping of a page table\<close>

definition leaf :: "pmem \<Rightarrow> nat \<Rightarrow> u64 \<Rightarrow> (nat \<times> u64) option" where
  "leaf m r va = table_at m r va 3"

text \<open>The physical page and the permissions of an address, if it is mapped: those of its entry,
  restricted by the tables above.\<close>

definition mapping :: "pmem \<Rightarrow> nat \<Rightarrow> u64 \<Rightarrow> (u64 \<times> u64) option" where
  "mapping m r va = (case table_at m r va 3 of None \<Rightarrow> None
     | Some (p, perm) \<Rightarrow> (let e = m p (pageindex va 0) in
         if e AND perm AND PTE_P \<noteq> 0 then Some (e AND PTE_PAMASK, e AND perm) else None))"

text \<open>The table pages of a tree.\<close>

definition tables :: "pmem \<Rightarrow> nat \<Rightarrow> nat set" where
  "tables m r = {p. \<exists>va d perm. d \<le> 3 \<and> table_at m r va d = Some (p, perm)}"

definition tree_ok :: "pmem \<Rightarrow> nat \<Rightarrow> bool" where
  "tree_ok m r \<longleftrightarrow> (\<forall>va va' d d' p perm perm'. d \<le> 3 \<longrightarrow> d' \<le> 3
     \<longrightarrow> table_at m r va d = Some (p, perm) \<longrightarrow> table_at m r va' d' = Some (p, perm') \<longrightarrow> d = d' \<and> same_path d va va')"

lemma tree_okD:
  assumes "tree_ok m r" and "table_at m r va d = Some (p, perm)" and "table_at m r va' d' = Some (p, perm')"
    and "d \<le> 3" and "d' \<le> 3"
  shows "d = d'" and "same_path d va va'"
  using assms unfolding tree_ok_def by blast+

lemma tablesI: "table_at m r va d = Some (p, perm) \<Longrightarrow> d \<le> 3 \<Longrightarrow> p \<in> tables m r"
  unfolding tables_def by blast

lemma root_in_tables [simp]: "r \<in> tables m r"
  by (rule tablesI [of m r 0 0 r initial_perm]) simp_all

lemma tables_cong:
  assumes "\<And>va d. d \<le> 3 \<Longrightarrow> table_at m' r va d = table_at m r va d"
  shows "tables m' r = tables m r" and "tree_ok m' r = tree_ok m r"
proof -
  have "(\<exists>va d perm. d \<le> 3 \<and> table_at m' r va d = Some (p, perm)) = (\<exists>va d perm. d \<le> 3 \<and> table_at m r va d = Some (p, perm))" for p
    using assms by metis
  then show "tables m' r = tables m r" unfolding tables_def by simp
  show "tree_ok m' r = tree_ok m r" unfolding tree_ok_def using assms by auto
qed

text \<open>Storing outside the tables of a tree leaves it alone.\<close>

lemma table_at_outside:
  assumes "\<And>p. p \<in> tables m r \<Longrightarrow> m' p = m p" and "d \<le> 3"
  shows "table_at m' r va d = table_at m r va d"
  using assms(2)
proof (induction d)
  case (Suc d)
  then have IH: "table_at m' r va d = table_at m r va d" by simp
  show ?case
  proof (cases "table_at m r va d")
    case None
    then show ?thesis using IH by (simp add: table_at.simps(2))
  next
    case (Some pp)
    obtain p perm where pp: "pp = (p, perm)" by fastforce
    have "m' p = m p" by (rule assms(1) [OF tablesI]) (use Some pp Suc.prems in auto)
    then show ?thesis using IH Some pp by (simp add: table_at.simps(2))
  qed
qed simp

lemma outside:
  assumes "\<And>p. p \<in> tables m r \<Longrightarrow> m' p = m p"
  shows "tables m' r = tables m r" and "tree_ok m' r = tree_ok m r" and "mapping m' r = mapping m r"
proof -
  have t: "table_at m' r va d = table_at m r va d" if "d \<le> 3" for va d
    by (rule table_at_outside [OF _ that]) (rule assms)
  show "tables m' r = tables m r" "tree_ok m' r = tree_ok m r" by (rule tables_cong [OF t], assumption)+
  show "mapping m' r = mapping m r"
  proof
    fix va
    show "mapping m' r va = mapping m r va"
    proof (cases "table_at m r va 3")
      case None
      then show ?thesis using t by (simp add: mapping_def)
    next
      case (Some pp)
      obtain p perm where pp: "pp = (p, perm)" by fastforce
      have "m' p = m p" by (rule assms [OF tablesI]) (use Some pp in auto)
      then show ?thesis using Some pp t by (simp add: mapping_def)
    qed
  qed
qed

text \<open>No large pages: a present entry above the bottom is a table.\<close>

lemma not_present_no_table: "e AND PTE_P = 0 \<Longrightarrow> \<not> is_table e"
proof
  assume e: "e AND PTE_P = 0" and "is_table e"
  then have "bit (e AND (PTE_P OR PTE_PS)) 0" by (simp add: is_table_def) (simp add: PTE_P_def)
  then have "bit (e AND PTE_P) 0" by (simp add: bit_and_iff PTE_P_def)
  then show False using e by simp
qed

definition small_pages :: "pmem \<Rightarrow> nat \<Rightarrow> bool" where
  "small_pages m r \<longleftrightarrow> (\<forall>va d p perm. d < 3 \<longrightarrow> table_at m r va d = Some (p, perm)
     \<longrightarrow> m p (pageindex va (3 - d)) AND PTE_P \<noteq> 0 \<longrightarrow> is_table (m p (pageindex va (3 - d))))"

lemma small_pagesD:
  assumes "small_pages m r" and "table_at m r va d = Some (p, perm)" and "d < 3" and "m p (pageindex va (3 - d)) AND PTE_P \<noteq> 0"
  shows "is_table (m p (pageindex va (3 - d)))"
  using assms unfolding small_pages_def by blast

lemma small_outside:
  assumes "\<And>p. p \<in> tables m r \<Longrightarrow> m' p = m p"
  shows "small_pages m' r = small_pages m r"
proof -
  have t: "table_at m' r va d = table_at m r va d" if "d < 3" for va d
    by (rule table_at_outside) (use assms that in auto)
  have "m' p = m p" if "table_at m r va d = Some (p, perm)" "d < 3" for va d p perm
    by (rule assms [OF tablesI [OF that(1)]]) (use that in simp)
  then show ?thesis unfolding small_pages_def using t by (metis (no_types, lifting))
qed

section \<open>Storing an entry\<close>

definition put :: "nat \<Rightarrow> nat \<Rightarrow> u64 \<Rightarrow> pmem \<Rightarrow> pmem" where
  "put p i e m = m(p := (m p)(i := e))"

lemma put_simps [simp]: "q \<noteq> p \<Longrightarrow> put p i e m q = m q" "j \<noteq> i \<Longrightarrow> put p i e m p j = m p j" "put p i e m p i = e"
  by (simp_all add: put_def)

text \<open>A store in a table at the bottom changes the mapping of one page of addresses.\<close>

lemma table_at_put_leaf:
  assumes "tree_ok m r" and "table_at m r va 3 = Some (p, perm)" and "d \<le> 3"
  shows "table_at (put p i e m) r va' d = table_at m r va' d"
  using assms(3)
proof (induction d)
  case (Suc d)
  then have IH: "table_at (put p i e m) r va' d = table_at m r va' d" by simp
  show ?case
  proof (cases "table_at m r va' d")
    case None
    then show ?thesis using IH by (simp add: table_at.simps(2))
  next
    case (Some pp)
    obtain q perm' where pp: "pp = (q, perm')" by fastforce
    have "q \<noteq> p" using tree_okD(1) [OF assms(1,2), of va' d perm'] Some pp Suc.prems by auto
    then show ?thesis using IH Some pp by (simp add: table_at.simps(2))
  qed
qed simp

lemma put_leaf:
  assumes "tree_ok m r" and "table_at m r va 3 = Some (p, perm)"
  shows "tree_ok (put p (pageindex va 0) e m) r" and "tables (put p (pageindex va 0) e m) r = tables m r"
    and "mapping (put p (pageindex va 0) e m) r va' =
      (if same_path 4 va va' then (if e AND perm AND PTE_P \<noteq> 0 then Some (e AND PTE_PAMASK, e AND perm) else None)
       else mapping m r va')"
proof -
  let ?m = "put p (pageindex va 0) e m"
  have t: "table_at ?m r va' d = table_at m r va' d" if "d \<le> 3" for va' d
    by (rule table_at_put_leaf [OF assms that])
  show "tables ?m r = tables m r" by (rule tables_cong [OF t], assumption)
  have "tree_ok ?m r = tree_ok m r" by (rule tables_cong [OF t], assumption)
  then show "tree_ok ?m r" using assms(1) by simp
  have four: "same_path 4 va va' \<longleftrightarrow> same_path 3 va va' \<and> pageindex va 0 = pageindex va' 0"
    using same_path_Suc [of 3 va va'] by simp
  show "mapping ?m r va' =
      (if same_path 4 va va' then (if e AND perm AND PTE_P \<noteq> 0 then Some (e AND PTE_PAMASK, e AND perm) else None)
       else mapping m r va')"
  proof (cases "same_path 3 va va'")
    case True
    then have "table_at m r va' 3 = Some (p, perm)" using table_at_same_path [OF True] assms(2) by simp
    then show ?thesis using True t [of 3 va'] four by (cases "pageindex va 0 = pageindex va' 0") (auto simp: mapping_def)
  next
    case False
    have "q \<noteq> p" if "table_at m r va' 3 = Some (q, perm')" for q perm'
      using tree_okD(2) [OF assms(1,2), of va' 3 perm'] that False by auto
    then show ?thesis using False t [of 3 va'] four by (auto simp: mapping_def split: option.split)
  qed
qed

lemma small_put_leaf:
  assumes "tree_ok m r" and "table_at m r va 3 = Some (p, perm)" and "small_pages m r"
  shows "small_pages (put p i e m) r"
  unfolding small_pages_def
proof (intro allI impI)
  fix va' d q perm'
  let ?m = "put p i e m"
  assume a: "d < 3" "table_at ?m r va' d = Some (q, perm')" "?m q (pageindex va' (3 - d)) AND PTE_P \<noteq> 0"
  have t: "table_at m r va' d = Some (q, perm')" using a(2) table_at_put_leaf [OF assms(1,2), of d p] a(1)
    by (simp add: table_at_put_leaf [OF assms(1,2)])
  have "q \<noteq> p" using tree_okD(1) [OF assms(1,2), of va' d perm'] t a(1) by auto
  then show "is_table (?m q (pageindex va' (3 - d)))" using small_pagesD [OF assms(3) t a(1)] a(3) by simp
qed

section \<open>Adding a table\<close>

text \<open>An entry that points to the fresh table page \<open>q\<close>.\<close>

definition table_entry :: "nat \<Rightarrow> u64" where
  "table_entry q = page_addr q OR PTE_P OR PTE_W OR PTE_U"

lemma page_addr_push: "page_addr q = push_bit 12 (of_nat q)"
  by (simp add: page_addr_def push_bit_eq_mult mult.commute)

lemma page_addr_bits:
  assumes "q < NPAGES"
  shows "page_addr q AND PTE_PAMASK = page_addr q"
proof -
  have m: "PTE_PAMASK = push_bit 12 (mask 40)"
    by (simp add: PTE_PAMASK_def mask_eq_exp_minus_1 push_bit_eq_mult)
  have "q < 2 ^ 40" using assms by simp
  then have "take_bit 40 (of_nat q :: u64) = of_nat q" by (metis take_bit_nat_eq_self take_bit_of_nat)
  then show ?thesis
    unfolding page_addr_push m by (simp flip: push_bit_and add: take_bit_eq_mask)
qed

text \<open>The parts of an entry.\<close>

lemma entry_parts:
  assumes "pa AND PTE_PAMASK = pa" and "perm AND 0xFFF = perm" and "w AND 0xFFF = w"
  shows "(pa OR perm) AND w = perm AND w" and "(pa OR perm) AND PTE_PAMASK = pa"
proof -
  have "pa AND w = pa AND (PTE_PAMASK AND 0xFFF) AND w" using assms(1,3) by (metis and.assoc and.commute)
  then have "pa AND w = 0" by (simp add: PTE_PAMASK_def)
  then show "(pa OR perm) AND w = perm AND w" by (simp add: bit.conj_disj_distrib2)
  have "perm AND PTE_PAMASK = perm AND (0xFFF AND PTE_PAMASK)" using assms(2) by (metis and.assoc)
  then have "perm AND PTE_PAMASK = 0" by (simp add: PTE_PAMASK_def)
  then show "(pa OR perm) AND PTE_PAMASK = pa"
    using assms(1) by (simp add: bit.conj_disj_distrib2)
qed

lemma table_entry_facts:
  assumes "q < NPAGES"
  shows "is_table (table_entry q)" and "pageno (table_entry q AND PTE_PAMASK) = q"
    and "table_perm perm (table_entry q) = perm"
proof -
  have e: "table_entry q = page_addr q OR 7" by (simp add: table_entry_def pte_defs or.assoc)
  have "(page_addr q OR 7) AND 0x81 = 7 AND 0x81" by (rule entry_parts(1) [OF page_addr_bits [OF assms]]) simp_all
  then show "is_table (table_entry q)" unfolding is_table_def e pte_defs by simp
  have "(page_addr q OR 7) AND PTE_PAMASK = page_addr q" by (rule entry_parts(2) [OF page_addr_bits [OF assms], where w = 0]) simp_all
  then show "pageno (table_entry q AND PTE_PAMASK) = q" using assms by (simp add: e)
  have "table_entry q OR NOT (PTE_P OR PTE_W OR PTE_U) = -1"
    unfolding e pte_defs by (simp add: or.assoc)
  then show "table_perm perm (table_entry q) = perm" by (simp add: table_perm_def)
qed

text \<open>What storing it does, at depth \<open>d\<close> on the path of \<open>va\<close>.\<close>

definition add_table :: "nat \<Rightarrow> nat \<Rightarrow> nat \<Rightarrow> pmem \<Rightarrow> pmem" where
  "add_table q p i m = put p i (table_entry q) (m(q := (\<lambda>i. 0)))"

lemma table_at_add:
  assumes "tree_ok m r" and "table_at m r va d = Some (p, perm)" and "d < 3" and "q \<notin> tables m r" and "q < NPAGES" and "e \<le> 3"
  shows "table_at (add_table q p (pageindex va (3 - d)) m) r va' e =
     (if same_path (Suc d) va va' \<and> d < e then (if e = Suc d then Some (q, perm) else None) else table_at m r va' e)"
  using assms(6)
proof (induction e)
  case (Suc e)
  let ?m = "add_table q p (pageindex va (3 - d)) m"
  have qp: "q \<noteq> p" using tablesI [OF assms(2)] assms(3,4) by auto
  have IH: "table_at ?m r va' e = (if same_path (Suc d) va va' \<and> d < e then (if e = Suc d then Some (q, perm) else None) else table_at m r va' e)"
    using Suc by simp
  show ?case
  proof (cases "same_path (Suc d) va va' \<and> d \<le> e")
    case True
    show ?thesis
    proof (cases "e = d")
      case e: True
      have sp: "same_path d va va'" "pageindex va' (3 - d) = pageindex va (3 - d)" using True by (simp_all add: same_path_Suc)
      have "table_at m r va' d = Some (p, perm)" using table_at_same_path [OF sp(1)] assms(2) by simp
      moreover have "?m p (pageindex va (3 - d)) = table_entry q" by (simp add: add_table_def)
      ultimately show ?thesis using True e IH sp(2) table_entry_facts [OF assms(5)] by (simp add: table_at.simps(2))
    next
      case False
      have "\<not> is_table (?m q j)" for j using qp by (simp add: add_table_def is_table_def pte_defs)
      then show ?thesis using True False IH by (cases "e = Suc d") (simp_all add: table_at.simps(2) Let_def)
    qed
  next
    case False
    then have IH': "table_at ?m r va' e = table_at m r va' e" using IH by auto
    show ?thesis
    proof (cases "table_at m r va' e")
      case None
      then show ?thesis using IH' False by (auto simp: table_at.simps(2))
    next
      case (Some pp)
      obtain t perm' where pp: "pp = (t, perm')" by fastforce
      have t: "t \<in> tables m r" by (rule tablesI) (use Some pp Suc.prems in auto)
      then have tq: "t \<noteq> q" using assms(4) by auto
      have "?m t (pageindex va' (3 - e)) = m t (pageindex va' (3 - e))"
      proof (cases "t = p")
        case True
        have "d = e" "same_path d va va'"
          using tree_okD [OF assms(1,2), of va' e perm'] Some pp True Suc.prems assms(3) by auto
        then have "pageindex va' (3 - e) \<noteq> pageindex va (3 - d)" using False by (simp add: same_path_Suc)
        then show ?thesis using True tq qp by (simp add: add_table_def)
      next
        case False
        then show ?thesis using tq by (simp add: add_table_def)
      qed
      then show ?thesis using IH' Some pp False by (auto simp: table_at.simps(2))
    qed
  qed
qed simp

lemma add_table_ok:
  assumes "tree_ok m r" and "table_at m r va d = Some (p, perm)" and "d < 3" and "q \<notin> tables m r" and "q < NPAGES"
    and "\<not> is_table (m p (pageindex va (3 - d)))"
  shows "tree_ok (add_table q p (pageindex va (3 - d)) m) r"
    and "tables (add_table q p (pageindex va (3 - d)) m) r = insert q (tables m r)"
    and "mapping (add_table q p (pageindex va (3 - d)) m) r = mapping m r"
proof -
  let ?m = "add_table q p (pageindex va (3 - d)) m"
  note at = table_at_add [OF assms(1-5)]
  have qp: "q \<noteq> p" using tablesI [OF assms(2)] assms(3,4) by auto
  have none: "table_at m r va' e = None" if "same_path (Suc d) va va'" "d < e" for va' e
  proof -
    have sp: "same_path d va va'" "pageindex va' (3 - d) = pageindex va (3 - d)" using that(1) by (simp_all add: same_path_Suc)
    have "table_at m r va' d = Some (p, perm)" using table_at_same_path [OF sp(1)] assms(2) by simp
    then have "table_at m r va' (Suc d) = None" using assms(6) sp(2) by (simp add: table_at.simps(2) Let_def)
    then show ?thesis using table_at_down [of m r va' "Suc d" e] that(2) by simp
  qed
  have new: "d' = Suc d \<and> same_path (Suc d) va va'" if "table_at ?m r va' d' = Some (q, perm')" "d' \<le> 3" for va' d' perm'
  proof (rule ccontr)
    assume "\<not> (d' = Suc d \<and> same_path (Suc d) va va')"
    then have "table_at m r va' d' = Some (q, perm')" using that at [of d' va'] by (auto split: if_splits)
    then show False using tablesI that(2) assms(4) by blast
  qed
  have old: "table_at m r va' d' = Some (t, perm')" if "table_at ?m r va' d' = Some (t, perm')" "d' \<le> 3" "t \<noteq> q" for va' d' t perm'
    using that at [of d' va'] by (auto split: if_splits)
  have kept: "table_at ?m r va' d' = Some (t, perm')" if "table_at m r va' d' = Some (t, perm')" "d' \<le> 3" for va' d' t perm'
    using that at [of d' va'] none [of va' d'] by (auto split: if_splits)
  show "tree_ok ?m r" unfolding tree_ok_def
  proof (intro allI impI)
    fix va1 va2 d1 d2 t p1 p2
    assume a: "d1 \<le> 3" "d2 \<le> 3" "table_at ?m r va1 d1 = Some (t, p1)" "table_at ?m r va2 d2 = Some (t, p2)"
    show "d1 = d2 \<and> same_path d1 va1 va2"
    proof (cases "t = q")
      case True
      then show ?thesis using new [of va1 d1 p1] new [of va2 d2 p2] a same_path_sym same_path_trans by blast
    next
      case False
      then show ?thesis using old a tree_okD [OF assms(1)] by metis
    qed
  qed
  have "table_at ?m r va (Suc d) = Some (q, perm)" using at [of "Suc d" va] assms(3) by simp
  then have "q \<in> tables ?m r" by (rule tablesI) (use assms(3) in simp)
  moreover have "t \<in> tables m r" if t: "t \<in> tables ?m r" "t \<noteq> q" for t
  proof -
    obtain va' d' perm' where "d' \<le> 3" "table_at ?m r va' d' = Some (t, perm')" using t(1) unfolding tables_def by blast
    then show ?thesis using tablesI [OF old] t(2) by blast
  qed
  moreover have "t \<in> tables ?m r" if t: "t \<in> tables m r" for t
  proof -
    obtain va' d' perm' where "d' \<le> 3" "table_at m r va' d' = Some (t, perm')" using t unfolding tables_def by blast
    then show ?thesis using tablesI [OF kept] by blast
  qed
  ultimately show "tables ?m r = insert q (tables m r)" by blast
  show "mapping ?m r = mapping m r"
  proof
    fix va'
    show "mapping ?m r va' = mapping m r va'"
    proof (cases "same_path (Suc d) va va'")
      case True
      have "?m q j = 0" for j using qp by (simp add: add_table_def)
      then show ?thesis using True at [of 3 va'] none [of va' 3] assms(3) by (auto simp: mapping_def)
    next
      case False
      then have e: "table_at ?m r va' 3 = table_at m r va' 3" using at [of 3 va'] by simp
      have "?m t = m t" if "table_at m r va' 3 = Some (t, perm')" for t perm'
      proof -
        have "t \<noteq> p" using tree_okD(1) [OF assms(1,2) , of va' 3 perm'] that assms(3) by auto
        moreover have "t \<noteq> q" using tablesI [OF that] assms(4) by auto
        ultimately show ?thesis by (simp add: add_table_def)
      qed
      then show ?thesis using e by (auto simp: mapping_def split: option.split)
    qed
  qed
qed

lemma small_add_table:
  assumes "tree_ok m r" and "table_at m r va d = Some (p, perm)" and "d < 3" and "q \<notin> tables m r" and "q < NPAGES"
    and "small_pages m r"
  shows "small_pages (add_table q p (pageindex va (3 - d)) m) r"
  unfolding small_pages_def
proof (intro allI impI)
  fix va' e t perm'
  let ?m = "add_table q p (pageindex va (3 - d)) m"
  assume a: "e < 3" "table_at ?m r va' e = Some (t, perm')" "?m t (pageindex va' (3 - e)) AND PTE_P \<noteq> 0"
  have qp: "q \<noteq> p" using tablesI [OF assms(2)] assms(3,4) by auto
  have tq: "t \<noteq> q" using a(3) qp by (auto simp: add_table_def)
  have "e \<le> 3" using a(1) by simp
  then have t: "table_at m r va' e = Some (t, perm')"
    using a(2) tq table_at_add [OF assms(1-5), of e va'] by (auto split: if_splits)
  show "is_table (?m t (pageindex va' (3 - e)))"
  proof (cases "t = p \<and> pageindex va' (3 - e) = pageindex va (3 - d)")
    case True
    then show ?thesis using table_entry_facts(1) [OF assms(5)] by (simp add: add_table_def)
  next
    case False
    then have "?m t (pageindex va' (3 - e)) = m t (pageindex va' (3 - e))" using tq qp by (auto simp: add_table_def put_def)
    then show ?thesis using small_pagesD [OF assms(6) t a(1)] a(3) by simp
  qed
qed

section \<open>In the kernel\<close>

text \<open>The tree below \<open>r\<close> is well-formed and its pages are allocated.\<close>

definition owned :: "kstate \<Rightarrow> nat \<Rightarrow> bool" where
  "owned k r \<longleftrightarrow> tree_ok (mem k) r \<and> (\<forall>t \<in> tables (mem k) r. refcount k t \<noteq> 0) \<and> small_pages (mem k) r"

text \<open>What changes to the tree \<open>r\<close> may do: take free pages for tables, and store in tables.\<close>

definition within_tree :: "nat \<Rightarrow> kstate \<Rightarrow> kstate \<Rightarrow> bool" where
  "within_tree r k k' \<longleftrightarrow> owned k' r \<and> same_procs k k'
     \<and> (\<forall>t. refcount k t \<noteq> 0 \<longrightarrow> refcount k' t = refcount k t)
     \<and> (\<forall>t. refcount k t \<noteq> 0 \<longrightarrow> t \<notin> tables (mem k) r \<longrightarrow> mem k' t = mem k t)
     \<and> tables (mem k) r \<subseteq> tables (mem k') r
     \<and> (\<forall>t \<in> tables (mem k') r. t \<in> tables (mem k) r \<or> refcount k t = 0)
     \<and> (\<forall>t. t \<notin> tables (mem k') r \<longrightarrow> mem k' t = mem k t)"

lemma within_tree_refl: "owned k r \<Longrightarrow> within_tree r k k"
  by (simp add: within_tree_def)

lemma within_tree_trans:
  assumes "within_tree r k k1" and "within_tree r k1 k2"
  shows "within_tree r k k2"
  using assms unfolding within_tree_def
  by (intro conjI) (blast, blast intro: same_procs_trans, metis, metis, blast, metis, metis subsetD)

text \<open>Another tree does not notice.\<close>

lemma other_tree:
  assumes "within_tree r k k'" and "owned k r2" and "tables (mem k) r \<inter> tables (mem k) r2 = {}"
  shows "owned k' r2" and "mapping (mem k') r2 = mapping (mem k) r2" and "tables (mem k') r2 = tables (mem k) r2"
    and "tables (mem k') r \<inter> tables (mem k') r2 = {}"
proof -
  have m: "mem k' t = mem k t" if "t \<in> tables (mem k) r2" for t
    using assms that unfolding within_tree_def owned_def by blast
  note o = outside [of "mem k" r2 "mem k'", OF m]
  show t: "tables (mem k') r2 = tables (mem k) r2" and "mapping (mem k') r2 = mapping (mem k) r2" by (rule o, assumption)+
  have "tree_ok (mem k') r2 = tree_ok (mem k) r2" by (rule o, assumption)
  moreover have "small_pages (mem k') r2 = small_pages (mem k) r2" by (rule small_outside [OF m])
  ultimately show "owned k' r2" using assms t unfolding owned_def within_tree_def by metis
  show "tables (mem k') r \<inter> tables (mem k') r2 = {}"
    using assms unfolding t within_tree_def owned_def by blast
qed

text \<open>Taking a free page and linking it as a table.\<close>

lemma link_table:
  assumes "owned k r" and "free_page C k q" and "table_at (mem k) r va d = Some (p, perm)" and "d < 3"
    and "\<not> is_table (mem k p (pageindex va (3 - d)))"
  shows "within_tree r k (set_entry p (pageindex va (3 - d)) (table_entry q) (set_page q 0 (take_page q k)))"
    and "mapping (mem (set_entry p (pageindex va (3 - d)) (table_entry q) (set_page q 0 (take_page q k)))) r = mapping (mem k) r"
proof -
  let ?k = "set_entry p (pageindex va (3 - d)) (table_entry q) (set_page q 0 (take_page q k))"
  have q: "q < NPAGES" "refcount k q = 0" using assms(2) by (simp_all add: free_page_def)
  have qt: "q \<notin> tables (mem k) r" using assms(1) q(2) by (auto simp: owned_def)
  have p: "p \<in> tables (mem k) r" by (rule tablesI [OF assms(3)]) (use assms(4) in simp)
  have t: "tree_ok (mem k) r" using assms(1) by (simp add: owned_def)
  have m: "mem ?k = add_table q p (pageindex va (3 - d)) (mem k)"
    by (simp add: set_entry_def add_table_def put_def take_page_def)
  have rc: "refcount ?k = (refcount k)(q := 1)" by (simp add: set_entry_def take_page_def)
  note a = add_table_ok [OF t assms(3,4) qt q(1) assms(5)]
  show "mapping (mem ?k) r = mapping (mem k) r" unfolding m by (rule a(3))
  have "small_pages (mem k) r" using assms(1) by (simp add: owned_def)
  from small_add_table [OF t assms(3,4) qt q(1) this]
  have "owned ?k r" unfolding owned_def m rc a(2) using a(1) assms(1) by (auto simp: owned_def)
  moreover have "same_procs k ?k" by (simp add: same_procs_def set_entry_def take_page_def)
  moreover have "mem ?k t = mem k t" if "refcount k t \<noteq> 0" "t \<notin> tables (mem k) r" for t
    using that p q(2) unfolding m add_table_def by (metis fun_upd_other put_simps(1))
  moreover have "mem ?k t = mem k t" if "t \<notin> insert q (tables (mem k) r)" for t
    using that p unfolding m add_table_def by (metis fun_upd_other insertCI put_simps(1))
  ultimately show "within_tree r k ?k"
    unfolding within_tree_def m rc a(2) using q(2) by auto
qed

lemma entry_on_path: "vpep it = Some (p, i) \<Longrightarrow> entry m it = m p i"
  by (simp add: entry_def)

lemma down_path:
  assumes "down m it = Some it'" and "on_path m it"
  shows "on_path m it'" and "vva it' = vva it" and "vpt it' = vpt it" and "vlevel it' = 0 \<or> \<not> is_table (entry m it')"
proof -
  have it': "it' = down_loop m (vlevel it) it" using assms(1) by (simp add: down_def Let_def split: if_splits)
  show "on_path m it'" unfolding it' by (rule down_loop_path [OF assms(2)]) simp
  show "vlevel it' = 0 \<or> \<not> is_table (entry m it')" unfolding it' by (rule down_loop_stops) simp
  show "vva it' = vva it" "vpt it' = vpt it" unfolding it' by (simp_all add: down_loop_frame)
qed

lemma on_path_put_below:
  assumes "on_path m it" and "\<And>va' d. d \<le> 3 - vlevel it \<Longrightarrow> table_at m' (pageno (vpt it)) va' d = table_at m (pageno (vpt it)) va' d"
  shows "on_path m' it"
  using assms by (auto simp: on_path_def)

text \<open>Adding the missing tables leaves the mapping as it is.\<close>

lemma add_tables_within:
  "add_tables C n it k = Some (r, it', k') \<Longrightarrow> owned k (pageno (vpt it)) \<Longrightarrow> on_path (mem k) it
    \<Longrightarrow> within_tree (pageno (vpt it)) k k' \<and> mapping (mem k') (pageno (vpt it)) = mapping (mem k) (pageno (vpt it))
      \<and> on_path (mem k') it' \<and> vva it' = vva it \<and> vpt it' = vpt it \<and> vperm it' = vperm it \<and> (0 \<le> r \<longrightarrow> vlevel it' = 0)"
proof (induction n arbitrary: it k)
  case 0
  then show ?case by (subst (asm) add_tables.simps) (auto simp: within_tree_refl split: if_splits)
next
  case (Suc n)
  show ?case
  proof (cases "vlevel it = 0")
    case True
    then show ?thesis using Suc.prems by (auto simp: add_tables_0 within_tree_refl)
  next
    case False
    define r0 where "r0 = pageno (vpt it)"
    define d where "d = 3 - vlevel it"
    obtain p where p: "vpep it = Some (p, pageindex (vva it) (vlevel it))" "table_at (mem k) r0 (vva it) d = Some (p, vperm it)"
      and l: "vlevel it \<le> 3" using Suc.prems(3) by (auto simp: on_path_def r0_def d_def)
    have d: "d < 3" "3 - d = vlevel it" using l False by (simp_all add: d_def)
    obtain pt k1 where ka: "kalloc C PAGESIZE k = (pt, k1)" by fastforce
    have e0: "entry (mem k) it AND PTE_P = 0"
      using Suc.prems(1) False by (auto simp: add_tables_Suc split: if_splits)
    have nt: "\<not> is_table (mem k p (pageindex (vva it) (3 - d)))"
    proof
      assume "is_table (mem k p (pageindex (vva it) (3 - d)))"
      then have "entry (mem k) it AND (PTE_P OR PTE_PS) = PTE_P" using p(1) d(2) by (simp add: is_table_def entry_on_path)
      then have "bit (entry (mem k) it AND (PTE_P OR PTE_PS)) 0" by (simp add: pte_defs)
      moreover have "\<not> bit (entry (mem k) it AND PTE_P) 0" using e0 by simp
      ultimately show False by (simp add: bit_and_iff pte_defs)
    qed
    show ?thesis
    proof (cases "pt = 0")
      case True
      then have "k1 = k" using kalloc_cases [OF ka] by auto
      then have "r = -1" "it' = it" "k' = k" using Suc.prems(1) False e0 ka True by (simp_all add: add_tables_Suc)
      then show ?thesis using Suc.prems by (simp add: within_tree_refl)
    next
      case pt: False
      obtain q where q: "pt = page_addr q" "free_page C k q" "k1 = take_page q k"
        using kalloc_cases [OF ka] pt by auto
      have q5: "q < NPAGES" and qf: "refcount k q = 0" using q(2) by (simp_all add: free_page_def)
      define k2 where "k2 = set_entry p (pageindex (vva it) (3 - d)) (table_entry q) (set_page q 0 (take_page q k))"
      have "add_tables C (Suc n) it k = (case down (mem k2) it of None \<Rightarrow> None | Some it1 \<Rightarrow> add_tables C n it1 k2)"
        using False e0 ka pt p(1) d(2) q5
        by (cases "down (mem k2) it") (simp_all add: add_tables_Suc k2_def q table_entry_def Let_def)
      then obtain it1 where it1: "down (mem k2) it = Some it1" "add_tables C n it1 k2 = Some (r, it', k')"
        using Suc.prems(1) by (auto split: option.splits)
      have ow: "owned k r0" using Suc.prems(2) by (simp add: r0_def)
      have w: "within_tree r0 k k2" and mp: "mapping (mem k2) r0 = mapping (mem k) r0"
        unfolding k2_def by (rule link_table [OF ow q(2) p(2) d(1) nt])+
      have qt: "q \<notin> tables (mem k) r0" using ow qf by (auto simp: owned_def)
      have t: "tree_ok (mem k) r0" using ow by (simp add: owned_def)
      have m2: "mem k2 = add_table q p (pageindex (vva it) (3 - d)) (mem k)"
        by (simp add: k2_def set_entry_def add_table_def put_def take_page_def)
      have op2: "on_path (mem k2) it"
      proof (rule on_path_put_below [OF Suc.prems(3)])
        fix va' e
        assume "e \<le> 3 - vlevel it"
        then have "e \<le> d" "e \<le> 3" by (simp_all add: d_def)
        then show "table_at (mem k2) (pageno (vpt it)) va' e = table_at (mem k) (pageno (vpt it)) va' e"
          unfolding m2 r0_def [symmetric] using table_at_add [OF t p(2) d(1) qt q5, of e va'] by auto
      qed
      note dp = down_path [OF it1(1) op2]
      have vp: "vperm it1 = vperm it"
      proof -
        define e where "e = 3 - vlevel it1"
        obtain p1 where p1: "vpep it1 = Some (p1, pageindex (vva it) (vlevel it1))" "table_at (mem k2) r0 (vva it) e = Some (p1, vperm it1)"
          "vlevel it1 \<le> 3" using dp(1,2,3) by (auto simp: on_path_def r0_def e_def)
        have e: "e \<le> 3" "3 - e = vlevel it1" using p1(3) by (simp_all add: e_def)
        have at: "table_at (mem k2) r0 (vva it) x = (if d < x then (if x = Suc d then Some (q, vperm it) else None) else table_at (mem k) r0 (vva it) x)"
          if "x \<le> 3" for x using table_at_add [OF t p(2) d(1) qt q5 that, of "vva it"] unfolding m2 by simp
        have "d < e"
        proof (rule ccontr)
          assume "\<not> d < e"
          then have x: "Suc e \<le> Suc d" "Suc e \<le> 3" "vlevel it1 \<noteq> 0" using d(1) by (simp_all add: e_def)
          have "table_at (mem k2) r0 (vva it) (Suc d) \<noteq> None" using at [of "Suc d"] d(1) by simp
          then have "table_at (mem k2) r0 (vva it) (Suc e) \<noteq> None"
            by (rule contrapos_nn) (rule table_at_down [OF _ x(1)])
          then have "is_table (entry (mem k2) it1)"
            using p1(1,2) e(2) by (auto simp: table_at.simps(2) entry_def Let_def split: if_splits)
          then show False using dp(4) x(3) by simp
        qed
        then show ?thesis using at [OF e(1)] p1(2) by (auto split: if_splits)
      qed
      have "owned k2 (pageno (vpt it1))" using w dp(3) by (simp add: within_tree_def r0_def)
      from Suc.IH [OF it1(2) this dp(1)] have IH: "within_tree r0 k2 k'" "mapping (mem k') r0 = mapping (mem k2) r0"
        "on_path (mem k') it'" "vva it' = vva it" "vpt it' = vpt it" "vperm it' = vperm it" "0 \<le> r \<longrightarrow> vlevel it' = 0"
        using dp(2,3) vp by (simp_all add: r0_def)
      then show ?thesis using within_tree_trans [OF w IH(1)] mp unfolding r0_def by simp
    qed
  qed
qed

text \<open>The permissions of a path restrict only P, W and U.\<close>

lemma bit_mask12: "bit (0xFFF :: u64) n \<longleftrightarrow> n < 12"
proof -
  have m: "(0xFFF :: u64) = mask 12" by (simp add: mask_eq_exp_minus_1)
  show ?thesis unfolding m by (auto simp only: bit_mask_iff possible_bit_word) simp
qed

lemma bit_pwu: "bit (PTE_P OR PTE_W OR PTE_U) n \<longleftrightarrow> n < 3"
proof -
  have "PTE_P OR PTE_W OR PTE_U = mask 3" by (simp add: pte_defs mask_eq_exp_minus_1)
  then show ?thesis by (simp add: bit_simps) linarith
qed

lemma path_perm_bits:
  "table_at m r va d = Some (p, perm) \<Longrightarrow> 3 \<le> n \<Longrightarrow> bit perm n \<longleftrightarrow> n < 12"
proof (induction d arbitrary: p perm)
  case 0
  then have "perm = 0xFFF" by (simp add: initial_perm_def)
  then show ?case by (simp only: bit_mask12)
next
  case (Suc d)
  then obtain q perm' where q: "table_at m r va d = Some (q, perm')" "perm = table_perm perm' (m q (pageindex va (3 - d)))"
    by (auto simp: table_at.simps(2) Let_def split: option.splits if_splits)
  have "bit perm' n \<longleftrightarrow> n < 12" by (rule Suc.IH [OF q(1) Suc.prems(2)])
  moreover have "bit perm n \<longleftrightarrow> bit perm' n \<and> (bit (m q (pageindex va (3 - d))) n \<or> n < LENGTH(64) \<and> \<not> n < 3)"
    unfolding q(2) table_perm_def using bit_pwu [of n] by (auto simp only: bit_and_iff bit_or_iff bit_not_iff possible_bit_word)
  ultimately show ?case using Suc.prems(2) by auto
qed

lemma path_perm_low:
  assumes "table_at m r va d = Some (p, perm)"
  shows "perm AND 0xFFF = perm"
proof (rule bit_word_eqI)
  fix n
  show "bit (perm AND 0xFFF) n = bit perm n"
    using path_perm_bits [OF assms, of n] unfolding bit_and_iff bit_mask12 by (cases "3 \<le> n") auto
qed

lemma perm_within_path:
  assumes "table_at m r va d = Some (p, vp)" and "perm AND 0xFFF = perm" and "perm AND NOT vp AND (PTE_P OR PTE_W OR PTE_U) = 0"
  shows "perm AND vp = perm"
proof (rule bit_word_eqI)
  fix n
  assume "n < LENGTH(64)"
  have "bit vp n" if b: "bit perm n"
  proof (cases "n < 3")
    case True
    have "\<not> bit (perm AND NOT vp AND (PTE_P OR PTE_W OR PTE_U)) n" using assms(3) by simp
    then show ?thesis using b True \<open>n < LENGTH(64)\<close> by (simp add: bit_and_iff bit_not_iff bit_pwu)
  next
    case False
    have "bit (perm AND 0xFFF) n" using assms(2) b by simp
    then have "n < 12" unfolding bit_and_iff bit_mask12 by blast
    then show ?thesis using path_perm_bits [OF assms(1), of n] False by simp
  qed
  then show "bit (perm AND vp) n = bit perm n" by (auto simp: bit_and_iff)
qed

text \<open>An address whose walk ends above the bottom is not mapped.\<close>

lemma stopped_unmapped:
  assumes "on_path m it" and "0 < vlevel it" and "\<not> is_table (entry m it)" and "same_path 4 (vva it) va'"
  shows "mapping m (pageno (vpt it)) va' = None"
proof -
  obtain p where p: "vpep it = Some (p, pageindex (vva it) (vlevel it))" "vlevel it \<le> 3"
      "table_at m (pageno (vpt it)) (vva it) (3 - vlevel it) = Some (p, vperm it)" using assms(1) by (auto simp: on_path_def)
  have l: "3 - (3 - vlevel it) = vlevel it" "Suc (3 - vlevel it) \<le> 3" using p(2) assms(2) by simp_all
  have "table_at m (pageno (vpt it)) (vva it) (Suc (3 - vlevel it)) = None"
    using p assms(3) l(1) by (simp add: table_at.simps(2) entry_def Let_def)
  then have "table_at m (pageno (vpt it)) (vva it) 3 = None" by (rule table_at_down [OF _ l(2)])
  then have "table_at m (pageno (vpt it)) va' 3 = None"
    using table_at_same_path [OF same_path_mono [OF assms(4), of 3]] by simp
  then show ?thesis by (simp add: mapping_def)
qed

text \<open>\<open>try_map\<close> is an update of the mapping at the page of the iterator's address.\<close>

definition map_page :: "u64 \<Rightarrow> (u64 \<times> u64) option \<Rightarrow> (u64 \<Rightarrow> (u64 \<times> u64) option) \<Rightarrow> u64 \<Rightarrow> (u64 \<times> u64) option" where
  "map_page va x f va' = (if same_path 4 va va' then x else f va')"

lemma try_map_asserts:
  assumes "vm_try_map C pa perm it k = Some (res, it', k')"
  shows "if perm AND PTE_P \<noteq> 0 then pa AND PTE_PAMASK = pa else (if pa = -1 \<and> perm = 0 then 0 else pa) AND PTE_P = 0"
  using assms by (auto simp: vm_try_map_def assert_ok_def Let_def split: if_splits)

lemma try_map_updates:
  assumes "vm_try_map C pa perm it k = Some (res, it', k')" and "owned k (pageno (vpt it))" and "on_path (mem k) it"
    and "vlevel it = 0 \<or> \<not> is_table (entry (mem k) it)" and "perm AND 0xFFF = perm"
  shows "within_tree (pageno (vpt it)) k k'" and "on_path (mem k') it'" and "vva it' = vva it" and "vpt it' = vpt it"
    and "mapping (mem k') (pageno (vpt it)) = (if res < 0 then mapping (mem k) (pageno (vpt it))
       else map_page (vva it) (if perm AND PTE_P \<noteq> 0 then Some (pa, perm) else None) (mapping (mem k) (pageno (vpt it))))"
    and "0 \<le> res \<Longrightarrow> perm AND PTE_P \<noteq> 0 \<Longrightarrow> vlevel it' = 0 \<and> perm AND vperm it' = perm \<and> entry (mem k') it' = pa OR perm"
proof -
  define r0 where "r0 = pageno (vpt it)"
  define pa' where "pa' = (if pa = -1 \<and> perm = 0 then 0 else pa)"
  obtain r1 it1 k1 where a: "(if perm \<noteq> 0 then add_tables C (vlevel it) it k else Some (0, it, k)) = Some (r1, it1, k1)"
    and pe: "perm AND NOT (vperm it) AND (PTE_P OR PTE_W OR PTE_U) = 0" and it': "it' = it1"
    and c: "(r1 < 0 \<or> 0 < vlevel it1) \<and> res = (if r1 < 0 then r1 else 0) \<and> k' = k1
      \<or> 0 \<le> r1 \<and> res = 0 \<and> (\<exists>p i. vpep it1 = Some (p, i) \<and> vlevel it1 = 0 \<and> k' = set_entry p i (pa' OR perm) k1)"
    by (rule try_map_cases [OF assms(1), folded pa'_def]) (rule that; assumption)
  have "within_tree r0 k k1 \<and> mapping (mem k1) r0 = mapping (mem k) r0 \<and> on_path (mem k1) it1 \<and> vva it1 = vva it
    \<and> vpt it1 = vpt it \<and> vperm it1 = vperm it \<and> (perm \<noteq> 0 \<longrightarrow> 0 \<le> r1 \<longrightarrow> vlevel it1 = 0) \<and> (perm = 0 \<longrightarrow> k1 = k \<and> it1 = it \<and> r1 = 0)"
  proof (cases "perm = 0")
    case True
    then have e: "r1 = 0" "it1 = it" "k1 = k" using a by simp_all
    show ?thesis unfolding e using True within_tree_refl [OF assms(2)] assms(3) unfolding r0_def by blast
  next
    case False
    then have "add_tables C (vlevel it) it k = Some (r1, it1, k1)" using a by simp
    from add_tables_within [OF this assms(2,3)] False show ?thesis unfolding r0_def by blast
  qed
  then have 1: "within_tree r0 k k1" "mapping (mem k1) r0 = mapping (mem k) r0" "on_path (mem k1) it1" "vva it1 = vva it"
    "vpt it1 = vpt it" "vperm it1 = vperm it" "perm \<noteq> 0 \<Longrightarrow> 0 \<le> r1 \<Longrightarrow> vlevel it1 = 0" "perm = 0 \<Longrightarrow> k1 = k \<and> it1 = it \<and> r1 = 0"
    by blast+
  have o1: "owned k1 r0" using 1(1) by (simp add: within_tree_def)
  from c consider (stop) "r1 < 0" "res < 0" "k' = k1" | (high) "0 < vlevel it1" "res = 0" "k' = k1" "0 \<le> r1"
    | (store) p i where "res = 0" "vpep it1 = Some (p, i)" "vlevel it1 = 0" "k' = set_entry p i (pa' OR perm) k1"
    by (cases "r1 < 0") auto
  then have "within_tree r0 k k' \<and> on_path (mem k') it' \<and> mapping (mem k') r0 = (if res < 0 then mapping (mem k) r0
       else map_page (vva it) (if perm AND PTE_P \<noteq> 0 then Some (pa, perm) else None) (mapping (mem k) r0))
     \<and> (0 \<le> res \<longrightarrow> perm AND PTE_P \<noteq> 0 \<longrightarrow> vlevel it' = 0 \<and> perm AND vperm it' = perm \<and> entry (mem k') it' = pa OR perm)"
  proof cases
    case stop
    then show ?thesis using 1 it' by simp
  next
    case high
    then have p0: "perm = 0" using 1(7) by (cases "perm = 0") auto
    then have "k1 = k" "it1 = it" using 1(8) by simp_all
    then have "mapping (mem k) r0 va' = None" if "same_path 4 (vva it) va'" for va'
      using stopped_unmapped [OF assms(3) _ _ that] assms(4) high(1) by (simp add: r0_def)
    then have "mapping (mem k) r0 = map_page (vva it) None (mapping (mem k) r0)" by (auto simp: map_page_def fun_eq_iff)
    then show ?thesis using high p0 1 it' \<open>k1 = k\<close> by simp
  next
    case store
    have i: "i = pageindex (vva it) 0" and t: "table_at (mem k1) r0 (vva it) 3 = Some (p, vperm it)"
      using 1(3-6) store(2,3) by (auto simp: on_path_def r0_def)
    define e where "e = pa' OR perm"
    have m: "mem k' = put p (pageindex (vva it) 0) e (mem k1)" by (simp add: store(4) set_entry_def put_def i e_def)
    have rc: "refcount k' = refcount k1" by (simp add: store(4) set_entry_def)
    have tr: "tree_ok (mem k1) r0" using o1 by (simp add: owned_def)
    note pl = put_leaf [OF tr t, of e]
    have w: "within_tree r0 k1 k'"
      unfolding within_tree_def owned_def m rc pl(2)
    proof (intro conjI)
      show "tree_ok (put p (pageindex (vva it) 0) e (mem k1)) r0" by (rule pl(1))
      show "\<forall>t\<in>tables (mem k1) r0. refcount k1 t \<noteq> 0" using o1 by (simp add: owned_def)
      show "small_pages (put p (pageindex (vva it) 0) e (mem k1)) r0"
        by (rule small_put_leaf [OF tr t]) (use o1 in \<open>simp add: owned_def\<close>)
      show "same_procs k1 k'" by (simp add: store(4) same_procs_def set_entry_def)
      have "p \<in> tables (mem k1) r0" by (rule tablesI [OF t]) simp
      then show "\<forall>t. refcount k1 t \<noteq> 0 \<longrightarrow> t \<notin> tables (mem k1) r0 \<longrightarrow> put p (pageindex (vva it) 0) e (mem k1) t = mem k1 t"
        and "\<forall>t. t \<notin> tables (mem k1) r0 \<longrightarrow> put p (pageindex (vva it) 0) e (mem k1) t = mem k1 t"
        by (metis put_simps(1))+
    qed simp_all
    have pv: "perm AND vperm it = perm" by (rule perm_within_path [OF t assms(5) pe])
    have ev: "(if e AND vperm it AND PTE_P \<noteq> 0 then Some (e AND PTE_PAMASK, e AND vperm it) else None)
        = (if perm AND PTE_P \<noteq> 0 then Some (pa, perm) else None)"
    proof (cases "perm AND PTE_P \<noteq> 0")
      case True
      then have "pa AND PTE_PAMASK = pa" "pa' = pa" using try_map_asserts [OF assms(1)] by (auto simp: pa'_def)
      note parts = entry_parts [OF this(1) assms(5)]
      have "e AND vperm it = perm" unfolding e_def \<open>pa' = pa\<close> using parts(1) [OF path_perm_low [OF t]] pv by simp
      moreover have "e AND PTE_PAMASK = pa" unfolding e_def \<open>pa' = pa\<close> by (rule parts(2) [of 0]) simp
      ultimately show ?thesis using True unfolding and.assoc [symmetric] by simp
    next
      case False
      then have "pa' AND PTE_P = 0" using try_map_asserts [OF assms(1)] by (simp add: pa'_def)
      then have "e AND PTE_P = 0" using False by (simp add: e_def bit.conj_disj_distrib2)
      moreover have "e AND vperm it AND PTE_P = vperm it AND (e AND PTE_P)" by (rule and.left_commute)
      ultimately have "e AND vperm it AND PTE_P = 0" by simp
      then show ?thesis using False by simp
    qed
    have op: "on_path (mem k') it1"
      by (rule on_path_put_below [OF 1(3)]) (use 1(5) table_at_put_leaf [OF tr t] in \<open>simp add: m r0_def\<close>)
    have mp: "mapping (mem k') r0 = map_page (vva it) (if perm AND PTE_P \<noteq> 0 then Some (pa, perm) else None) (mapping (mem k) r0)"
      unfolding m by (rule ext) (simp add: pl(3) ev map_page_def 1(2))
    have "entry (mem k') it1 = e" using store(2) by (simp add: entry_def m i)
    then show ?thesis using within_tree_trans [OF 1(1) w] op mp store(1,3) it' pv 1(6) by (auto simp: e_def pa'_def)
  qed
  then show "within_tree (pageno (vpt it)) k k'" "on_path (mem k') it'"
    and "mapping (mem k') (pageno (vpt it)) = (if res < 0 then mapping (mem k) (pageno (vpt it))
       else map_page (vva it) (if perm AND PTE_P \<noteq> 0 then Some (pa, perm) else None) (mapping (mem k) (pageno (vpt it))))"
    and "0 \<le> res \<Longrightarrow> perm AND PTE_P \<noteq> 0 \<Longrightarrow> vlevel it' = 0 \<and> perm AND vperm it' = perm \<and> entry (mem k') it' = pa OR perm"
    unfolding r0_def by blast+
  show "vva it' = vva it" "vpt it' = vpt it" using 1(4,5) it' by simp_all
qed

end
