(* ===== verification/KMap.thy ===== *)
theory KMap
  imports PTree
begin

text \<open>
  What the kernel's operations on address spaces mean, stated on the mappings of the page
  tables: \<open>try_map\<close> updates one page of one process, a copy-on-write fault gives the process a
  writable page with the same contents, and \<open>fork\<close> shares every user page read-only.
\<close>

section \<open>Looking up an address\<close>

text \<open>On an iterator at the bottom, \<open>perm\<close> and \<open>pa\<close> read the mapping.\<close>

lemma and_neg_bit: "ph AND - (ph AND PTE_P) = (if ph AND PTE_P = 0 then 0 else ph)"
proof -
  have "ph AND PTE_P = of_bool (odd ph)" by (simp add: PTE_P_def and_one_eq mod_2_eq_odd)
  then show ?thesis by (cases "odd ph") simp_all
qed

definition settled :: "pmem \<Rightarrow> vmiter \<Rightarrow> bool" where
  "settled m it \<longleftrightarrow> on_path m it \<and> (vlevel it = 0 \<or> entry m it AND PTE_P = 0)"

lemma vm_perm_mapping:
  assumes "settled m it"
  shows "vm_perm m it = (case mapping m (pageno (vpt it)) (vva it) of None \<Rightarrow> 0 | Some (pa, perm) \<Rightarrow> perm)"
proof (cases "vlevel it = 0")
  case True
  then obtain p where "vpep it = Some (p, pageindex (vva it) 0)" "table_at m (pageno (vpt it)) (vva it) 3 = Some (p, vperm it)"
    using assms by (auto simp: settled_def on_path_def)
  then show ?thesis by (simp add: vm_perm_def mapping_def entry_def Let_def and_neg_bit and.assoc)
next
  case False
  then have o: "on_path m it" and e: "entry m it AND PTE_P = 0" using assms by (simp_all add: settled_def)
  have "entry m it AND vperm it AND PTE_P = vperm it AND (entry m it AND PTE_P)" by (rule and.left_commute)
  then have "vm_perm m it = 0" using e by (simp add: vm_perm_def Let_def and.assoc)
  then show ?thesis using stopped_unmapped [OF o _ not_present_no_table [OF e] same_path_refl] False by simp
qed

lemma mapping_entry:
  assumes "settled m it" and "mapping m (pageno (vpt it)) (vva it) = Some (pa, perm)"
  shows "vlevel it = 0" and "entry m it AND PTE_PAMASK = pa" and "entry m it AND vperm it = perm" and "perm AND PTE_P \<noteq> 0"
    and "entry m it AND PTE_P \<noteq> 0"
proof -
  have o: "on_path m it" using assms(1) by (simp add: settled_def)
  show l: "vlevel it = 0"
  proof (rule ccontr)
    assume l: "vlevel it \<noteq> 0"
    then have "\<not> is_table (entry m it)" using assms(1) not_present_no_table by (auto simp: settled_def)
    then show False using stopped_unmapped [OF o _ _ same_path_refl] l assms(2) by simp
  qed
  then obtain p where p: "vpep it = Some (p, pageindex (vva it) 0)" "table_at m (pageno (vpt it)) (vva it) 3 = Some (p, vperm it)"
    using o by (auto simp: on_path_def)
  then have "entry m it AND vperm it AND PTE_P \<noteq> 0" and e: "entry m it AND PTE_PAMASK = pa" "entry m it AND vperm it = perm"
    using assms(2) by (auto simp: mapping_def entry_def Let_def split: if_splits)
  moreover have "entry m it AND vperm it AND PTE_P = vperm it AND (entry m it AND PTE_P)" by (rule and.left_commute)
  ultimately show "entry m it AND PTE_P \<noteq> 0" by (metis and_zero_eq)
  show "perm AND PTE_P \<noteq> 0" using \<open>entry m it AND vperm it AND PTE_P \<noteq> 0\<close> e(2) by (metis and.assoc)
  show "entry m it AND PTE_PAMASK = pa" "entry m it AND vperm it = perm" by (rule e)+
qed

text \<open>The physical address of a page-aligned address.\<close>

lemma aligned_low:
  assumes "unat (va :: u64) mod PAGESIZE = 0"
  shows "va AND pageoffmask 0 = 0"
proof -
  have e: "va AND pageoffmask 0 = take_bit 12 va" by (simp add: pageoffmask_mask take_bit_eq_mask)
  have "unat (take_bit 12 va) = unat va mod 2 ^ 12" by (rule trans [OF unsigned_take_bit_eq take_bit_eq_mod])
  moreover have "unat va mod 2 ^ 12 = 0" using assms by simp
  ultimately have "unat (take_bit 12 va) = 0" by (rule trans)
  then show ?thesis unfolding e unat_eq_0 .
qed

lemma vm_pa_mapping:
  assumes "settled m it" and "unat (vva it) mod PAGESIZE = 0"
    and "mapping m (pageno (vpt it)) (vva it) = Some (pa, perm)"
  shows "vm_pa m it = pa" and "vm_kptr m it = pa"
proof -
  note e = mapping_entry [OF assms(1,3)]
  show "vm_pa m it = pa" using e aligned_low [OF assms(2)] by (simp add: vm_pa_def Let_def)
  then show "vm_kptr m it = pa" using e(5) by (simp add: vm_kptr_def)
qed

text \<open>Iterators found by a walk are settled when there are no large pages.\<close>

lemma settledI:
  assumes "on_path m it" and "vlevel it = 0 \<or> \<not> is_table (entry m it)" and "small_pages m (pageno (vpt it))"
  shows "settled m it"
proof -
  obtain p where p: "vpep it = Some (p, pageindex (vva it) (vlevel it))" "vlevel it \<le> 3"
      "table_at m (pageno (vpt it)) (vva it) (3 - vlevel it) = Some (p, vperm it)" using assms(1) by (auto simp: on_path_def)
  have "entry m it AND PTE_P = 0" if "vlevel it \<noteq> 0"
  proof (rule ccontr)
    assume e: "entry m it AND PTE_P \<noteq> 0"
    have "3 - vlevel it < 3" "3 - (3 - vlevel it) = vlevel it" using that p(2) by simp_all
    then have "is_table (entry m it)" using assms(3) p(1,3) e unfolding small_pages_def entry_def by (metis case_prod_conv option.simps(5))
    then show False using assms(2) that by simp
  qed
  then show ?thesis using assms(1) by (auto simp: settled_def)
qed

lemma vmiter_at_settled:
  assumes "owned k (pageno pt)" and "va_is_canonical va" and "vmiter_at (mem k) pt va = Some it"
  shows "settled (mem k) it" and "vva it = va" and "vpt it = pt"
proof -
  note w = vmiter_at_path [OF assms(2,3)]
  show "settled (mem k) it" using settledI [OF w(1,4)] assms(1) w(3) by (simp add: owned_def)
  show "vva it = va" "vpt it = pt" by (rule w)+
qed

text \<open>C15: on a well-formed page table of small pages, \<open>try_map\<close> is an update of the abstract mapping:
  on success the page of the address is mapped as asked (or unmapped, without \<open>PTE_P\<close>) and
  every other address keeps its mapping; on failure (no memory for a table) nothing changes.
  The tree stays well-formed, and every other process's tree keeps its mapping.\<close>

theorem try_map_refines:
  assumes "owned k (pageno pt)" and "va_is_canonical va" and "vmiter_at (mem k) pt va = Some it"
    and "vm_try_map C pa perm it k = Some (res, it', k')" and "perm AND 0xFFF = perm"
  shows "mapping (mem k') (pageno pt) = (if res < 0 then mapping (mem k) (pageno pt)
      else map_page va (if perm AND PTE_P \<noteq> 0 then Some (pa, perm) else None) (mapping (mem k) (pageno pt)))
    \<and> owned k' (pageno pt)
    \<and> (\<forall>r2. owned k r2 \<and> tables (mem k) (pageno pt) \<inter> tables (mem k) r2 = {}
         \<longrightarrow> owned k' r2 \<and> mapping (mem k') r2 = mapping (mem k) r2)"
proof -
  note w = vmiter_at_path [OF assms(2,3)]
  have o: "owned k (pageno (vpt it))" using assms(1) w(3) by simp
  note u = try_map_updates [OF assms(4) o w(1,4) assms(5)]
  have wt: "within_tree (pageno pt) k k'" using u(1) unfolding w(3) .
  then have "owned k' (pageno pt)" by (simp add: within_tree_def)
  then show ?thesis using u(5) other_tree [OF wt] unfolding w(2,3) by blast
qed

section \<open>A page taken by the allocator\<close>

lemma take_page_owned:
  assumes "owned k r" and "free_page C k q"
  shows "owned (take_page q k) r" and "tables (mem (take_page q k)) r = tables (mem k) r" and "mapping (mem (take_page q k)) r = mapping (mem k) r"
    and "q \<notin> tables (mem k) r"
proof -
  have rq: "refcount k q = 0" using assms(2) by (simp add: free_page_def)
  show qt: "q \<notin> tables (mem k) r" using assms(1) rq by (auto simp: owned_def)
  have m: "mem (take_page q k) t = mem k t" if "t \<in> tables (mem k) r" for t
    using that qt by (auto simp: take_page_def)
  note o = outside [of "mem k" r "mem (take_page q k)", OF m]
  show t: "tables (mem (take_page q k)) r = tables (mem k) r" and "mapping (mem (take_page q k)) r = mapping (mem k) r"
    by (rule o, assumption)+
  have "tree_ok (mem (take_page q k)) r = tree_ok (mem k) r" by (rule o, assumption)
  moreover have "small_pages (mem (take_page q k)) r = small_pages (mem k) r" by (rule small_outside [OF m])
  ultimately show "owned (take_page q k) r" using assms(1) by (simp add: owned_def t, simp add: take_page_def)
qed

text \<open>An iterator stays settled when its tree is not touched.\<close>

lemma settled_outside:
  assumes "settled m it" and "\<And>p. p \<in> tables m (pageno (vpt it)) \<Longrightarrow> m' p = m p"
  shows "settled m' it" and "entry m' it = entry m it"
proof -
  obtain p where p: "vpep it = Some (p, pageindex (vva it) (vlevel it))" "vlevel it \<le> 3"
      "table_at m (pageno (vpt it)) (vva it) (3 - vlevel it) = Some (p, vperm it)"
    using assms(1) by (auto simp: settled_def on_path_def)
  have "m' p = m p" by (rule assms(2) [OF tablesI [OF p(3)]]) simp
  then show e: "entry m' it = entry m it" using p(1) by (simp add: entry_def)
  have "table_at m' (pageno (vpt it)) (vva it) (3 - vlevel it) = Some (p, vperm it)"
    by (subst table_at_outside [OF assms(2)]) (use p(3) in auto)
  then have "on_path m' it" using p assms(1) by (auto simp: settled_def on_path_def)
  then show "settled m' it" using assms(1) e by (simp add: settled_def)
qed

section \<open>Copy on write\<close>

definition written_perm :: "u64 \<Rightarrow> u64" where
  "written_perm perm = (perm OR PTE_W) AND NOT PTE_C"

lemma written_perm_facts:
  assumes "perm AND 0xFFF = perm" and "perm AND PTE_P \<noteq> 0"
  shows "written_perm perm AND 0xFFF = written_perm perm" and "written_perm perm AND PTE_P \<noteq> 0" and "written_perm perm AND PTE_W \<noteq> 0"
proof -
  have w: "PTE_W AND 0xFFF = PTE_W" by (simp add: pte_defs)
  have "(perm OR PTE_W) AND 0xFFF = perm OR PTE_W" using assms(1) w by (simp add: bit.conj_disj_distrib2)
  moreover have "written_perm perm AND 0xFFF = ((perm OR PTE_W) AND 0xFFF) AND NOT PTE_C"
    unfolding written_perm_def by (simp only: and.assoc and.commute [of "NOT PTE_C"])
  ultimately show "written_perm perm AND 0xFFF = written_perm perm" by (simp only: written_perm_def)
  have c: "NOT PTE_C AND PTE_P = PTE_P" "NOT PTE_C AND PTE_W = PTE_W" by (simp_all add: pte_defs)
  have p: "written_perm perm AND PTE_P = (perm OR PTE_W) AND PTE_P" unfolding written_perm_def and.assoc c ..
  have "(perm OR PTE_W) AND PTE_P = perm AND PTE_P" by (simp add: bit.conj_disj_distrib2 pte_defs)
  then show "written_perm perm AND PTE_P \<noteq> 0" using p assms(2) by simp
  have "written_perm perm AND PTE_W = (perm OR PTE_W) AND PTE_W" unfolding written_perm_def and.assoc c ..
  then show "written_perm perm AND PTE_W \<noteq> 0" by (simp add: bit.conj_disj_distrib2, simp add: pte_defs)
qed

text \<open>The situation of a write fault that copying resolves: the page of \<open>va\<close> is mapped below
  writable tables, itself not writable, and its page is an allocated page that is no table.\<close>

record cow_case =
  cow_pt :: u64
  cow_va :: u64
  cow_pa :: u64
  cow_perm :: u64

definition cow_ready :: "kstate \<Rightarrow> cow_case \<Rightarrow> bool" where
  "cow_ready k c \<longleftrightarrow> (let r = pageno (cow_pt c); n = pageno (cow_pa c) in
     owned k r \<and> va_is_canonical (cow_va c) \<and> unat (cow_va c) mod PAGESIZE = 0
     \<and> mapping (mem k) r (cow_va c) = Some (cow_pa c, cow_perm c) \<and> cow_perm c AND PTE_W = 0
     \<and> (\<exists>p vp. table_at (mem k) r (cow_va c) 3 = Some (p, vp) \<and> vp AND PTE_W \<noteq> 0)
     \<and> vmiter_at (mem k) (cow_pt c) (cow_va c) \<noteq> None
     \<and> 0 < n \<and> n < NPAGES \<and> refcount k n \<noteq> 0 \<and> n \<notin> tables (mem k) r)"

text \<open>What a resolved fault leaves: the page of \<open>va\<close> mapped writable to page \<open>q\<close>, with the contents
  of page \<open>n\<close>; other pages that are no tables of the process are as before.\<close>

definition cow_done :: "kstate \<Rightarrow> cow_case \<Rightarrow> nat \<Rightarrow> kstate \<Rightarrow> bool" where
  "cow_done k c q k' \<longleftrightarrow> (let r = pageno (cow_pt c) in
     owned k' r \<and> same_procs k k'
     \<and> mapping (mem k') r = map_page (cow_va c) (Some (page_addr q, written_perm (cow_perm c))) (mapping (mem k) r)
     \<and> mem k' q = mem k (pageno (cow_pa c))
     \<and> (\<forall>t. t \<noteq> q \<longrightarrow> t \<notin> tables (mem k) r \<longrightarrow> mem k' t = mem k t)
     \<and> (\<forall>r2. owned k r2 \<and> tables (mem k) r \<inter> tables (mem k) r2 = {} \<longrightarrow> mapping (mem k') r2 = mapping (mem k) r2))"

lemma page_addr_pageno:
  assumes "pa AND PTE_PAMASK = pa"
  shows "page_addr (pageno pa) = pa" and "unat pa mod PAGESIZE = 0"
proof -
  have "pa AND 0xFFF = pa AND (PTE_PAMASK AND 0xFFF)" using assms by (metis and.assoc)
  then have "pa AND mask 12 = 0" by (simp add: PTE_PAMASK_def mask_eq_exp_minus_1)
  then have t: "take_bit 12 pa = 0" by (simp add: take_bit_eq_mask)
  have "unat (take_bit 12 pa) = unat pa mod 2 ^ 12" by (rule trans [OF unsigned_take_bit_eq take_bit_eq_mod])
  then show m: "unat pa mod PAGESIZE = 0" unfolding t by simp
  then have "unat pa div PAGESIZE * PAGESIZE = unat pa" by (metis add.right_neutral div_mult_mod_eq)
  then show "page_addr (pageno pa) = pa" by (simp add: page_addr_def pageno_def)
qed

lemma try_map_leaf:
  assumes "vlevel it = 0" and "vpep it = Some (p, i)" and "unat (vva it) mod PAGESIZE = 0" and "perm AND PTE_P \<noteq> 0"
    and "pa AND PTE_PAMASK = pa" and "perm AND NOT (vperm it) AND (PTE_P OR PTE_W OR PTE_U) = 0"
  shows "vm_try_map C pa perm it k = Some (0, it, set_entry p i (pa OR perm) k)"
proof -
  have "pa \<noteq> -1" using assms(5) by (auto simp: PTE_PAMASK_def)
  moreover have "perm \<noteq> 0" using assms(4) by auto
  ultimately show ?thesis using assms by (simp add: vm_try_map_def add_tables_0)
qed

lemma bit_PTE_W: "bit PTE_W n \<longleftrightarrow> n = 1"
proof -
  have e: "PTE_W = push_bit 1 1" by (simp add: PTE_W_def)
  show ?thesis unfolding e bit_push_bit_iff bit_1_iff by auto
qed

lemma has_bits:
  "w AND PTE_W \<noteq> 0 \<longleftrightarrow> bit w 1" "w AND PTE_P \<noteq> 0 \<longleftrightarrow> bit w 0" for w :: u64
proof -
  have P: "bit PTE_P n \<longleftrightarrow> n = 0" for n by (simp add: PTE_P_def bit_1_iff)
  have "w AND PTE_W = 0" if "\<not> bit w 1"
    by (rule bit_word_eqI) (use that in \<open>auto simp: bit_and_iff bit_PTE_W\<close>)
  moreover have "bit (w AND PTE_W) 1" if "bit w 1" using that unfolding bit_and_iff bit_PTE_W by simp
  ultimately show "w AND PTE_W \<noteq> 0 \<longleftrightarrow> bit w 1" by fastforce
  have "w AND PTE_P = 0" if "\<not> bit w 0"
    by (rule bit_word_eqI) (use that in \<open>auto simp: bit_and_iff P intro!: gr0I\<close>)
  moreover have "bit (w AND PTE_P) 0" if "bit w 0" using that unfolding bit_and_iff P by simp
  ultimately show "w AND PTE_P \<noteq> 0 \<longleftrightarrow> bit w 0" by fastforce
qed

lemma written_perm_allowed:
  assumes "perm AND vp = perm" and "vp AND PTE_W \<noteq> 0"
  shows "written_perm perm AND NOT vp AND (PTE_P OR PTE_W OR PTE_U) = 0"
proof (rule bit_word_eqI)
  fix n
  assume "n < LENGTH(64)"
  have "bit vp n" if "bit (written_perm perm) n"
  proof -
    have "bit perm n \<or> n = 1" using that unfolding written_perm_def bit_and_iff bit_or_iff bit_PTE_W by blast
    moreover have "bit vp n" if "bit perm n" using that assms(1) by (metis bit_and_iff)
    moreover have "bit vp 1" using assms(2) by (simp add: has_bits)
    ultimately show ?thesis by blast
  qed
  then show "bit (written_perm perm AND NOT vp AND (PTE_P OR PTE_W OR PTE_U)) n = bit (0 :: u64) n"
    unfolding bit_and_iff bit_not_iff by auto
qed

text \<open>The iterator of the fault.\<close>

lemma cow_iterator:
  assumes "cow_ready k c"
  obtains it p i where "vmiter_at (mem k) (cow_pt c) (cow_va c) = Some it" and "settled (mem k) it" and "vva it = cow_va c"
    and "vpt it = cow_pt c" and "vlevel it = 0" and "vpep it = Some (p, i)" and "p \<in> tables (mem k) (pageno (cow_pt c))"
    and "vm_perm (mem k) it = cow_perm c" and "vm_pa (mem k) it = cow_pa c" and "vm_kptr (mem k) it = cow_pa c"
    and "\<not> vm_writable (mem k) it" and "cow_perm c AND (PTE_C OR PTE_P) \<noteq> 0"
    and "written_perm (cow_perm c) AND NOT (vperm it) AND (PTE_P OR PTE_W OR PTE_U) = 0"
    and "cow_pa c AND PTE_PAMASK = cow_pa c" and "cow_perm c AND 0xFFF = cow_perm c" and "cow_perm c AND PTE_P \<noteq> 0"
proof -
  define r where "r = pageno (cow_pt c)"
  have c: "owned k r" "va_is_canonical (cow_va c)" "unat (cow_va c) mod PAGESIZE = 0"
    "mapping (mem k) r (cow_va c) = Some (cow_pa c, cow_perm c)" "cow_perm c AND PTE_W = 0"
    and up: "\<exists>p vp. table_at (mem k) r (cow_va c) 3 = Some (p, vp) \<and> vp AND PTE_W \<noteq> 0"
    and it0: "vmiter_at (mem k) (cow_pt c) (cow_va c) \<noteq> None"
    using assms by (simp_all add: cow_ready_def Let_def r_def)
  obtain it where it: "vmiter_at (mem k) (cow_pt c) (cow_va c) = Some it" using it0 by auto
  have st: "settled (mem k) it" and v: "vva it = cow_va c" "vpt it = cow_pt c"
    using vmiter_at_settled [of k "cow_pt c", OF _ c(2) it] c(1) by (simp_all add: r_def)
  have mp: "mapping (mem k) (pageno (vpt it)) (vva it) = Some (cow_pa c, cow_perm c)" using c(4) v by (simp add: r_def)
  note e = mapping_entry [OF st mp]
  obtain p where p: "vpep it = Some (p, pageindex (vva it) 0)" "table_at (mem k) r (vva it) 3 = Some (p, vperm it)"
    using st e(1) v by (auto simp: settled_def on_path_def r_def)
  have "cow_perm c AND vperm it = cow_perm c" using e(3) by (metis and.assoc and.idem)
  moreover have "vperm it AND PTE_W \<noteq> 0" using up p(2) v(1) by auto
  ultimately have al: "written_perm (cow_perm c) AND NOT (vperm it) AND (PTE_P OR PTE_W OR PTE_U) = 0"
    by (rule written_perm_allowed)
  have pe: "vm_perm (mem k) it = cow_perm c" using vm_perm_mapping [OF st] mp by simp
  have nw: "\<not> vm_writable (mem k) it"
  proof
    assume "vm_writable (mem k) it"
    then have "cow_perm c AND (PTE_P OR PTE_W) = PTE_P OR PTE_W" by (simp add: vm_writable_def vm_has_def pe)
    then have "bit (cow_perm c AND (PTE_P OR PTE_W)) 1" by (simp add: bit_or_iff bit_PTE_W)
    then have "bit (cow_perm c) 1" by (simp add: bit_and_iff)
    then show False using c(5) has_bits(1) by blast
  qed
  have cp: "cow_perm c AND (PTE_C OR PTE_P) \<noteq> 0"
  proof
    assume "cow_perm c AND (PTE_C OR PTE_P) = 0"
    then have "\<not> bit (cow_perm c AND (PTE_C OR PTE_P)) 0" by simp
    moreover have "bit (cow_perm c) 0" using e(4) has_bits(2) by blast
    ultimately show False by (simp add: bit_and_iff bit_or_iff PTE_P_def)
  qed
  have al3: "unat (vva it) mod PAGESIZE = 0" using c(3) v by simp
  have pm: "cow_pa c AND PTE_PAMASK = cow_pa c" using e(2) by (metis and.assoc and.idem)
  have "vperm it AND 0xFFF = vperm it" by (rule path_perm_low [OF p(2)])
  then have lo: "cow_perm c AND 0xFFF = cow_perm c" using e(3) by (metis and.assoc)
  have pt: "p \<in> tables (mem k) (pageno (cow_pt c))" using tablesI [OF p(2)] by (simp add: r_def)
  show thesis
    by (rule that [OF it st v e(1) p(1) pt pe vm_pa_mapping [OF st al3 mp] nw cp al pm lo e(4)])
qed

lemma cow_fault_reuse:
  assumes "cow_ready k c" and "cow_pt c = pagetable (cur k)" and "round_down_page addr = cow_va c"
    and "refcount k (pageno (cow_pa c)) = 1"
  shows "\<exists>k'. cow_fault C addr k = Some (Resolved k') \<and> cow_done k c (pageno (cow_pa c)) k' \<and> refcount k' = refcount k"
proof -
  define r where "r = pageno (cow_pt c)"
  define n where "n = pageno (cow_pa c)"
  have c: "owned k r" "unat (cow_va c) mod PAGESIZE = 0" "n < NPAGES" "n \<notin> tables (mem k) r"
    using assms(1) by (simp_all add: cow_ready_def Let_def r_def n_def)
  obtain it p i where it: "vmiter_at (mem k) (cow_pt c) (cow_va c) = Some it" "settled (mem k) it" "vva it = cow_va c"
    "vpt it = cow_pt c" "vlevel it = 0" "vpep it = Some (p, i)" "p \<in> tables (mem k) (pageno (cow_pt c))"
    "vm_perm (mem k) it = cow_perm c" "vm_pa (mem k) it = cow_pa c" "vm_kptr (mem k) it = cow_pa c"
    "\<not> vm_writable (mem k) it" "cow_perm c AND (PTE_C OR PTE_P) \<noteq> 0"
    and al: "written_perm (cow_perm c) AND NOT (vperm it) AND (PTE_P OR PTE_W OR PTE_U) = 0"
    and pa: "cow_pa c AND PTE_PAMASK = cow_pa c" and pe: "cow_perm c AND 0xFFF = cow_perm c" "cow_perm c AND PTE_P \<noteq> 0"
    by (rule cow_iterator [OF assms(1)])
  note wp = written_perm_facts [OF pe]
  define k' where "k' = set_entry p i (cow_pa c OR written_perm (cow_perm c)) k"
  have al3: "unat (vva it) mod PAGESIZE = 0" using c(2) it(3) by simp
  have t: "vm_try_map C (cow_pa c) (written_perm (cow_perm c)) it k = Some (0, it, k')"
    unfolding k'_def by (rule try_map_leaf [OF it(5,6) al3 wp(2) pa al])
  have run: "cow_fault C addr k = Some (Resolved k')"
    using it(1,8-12) t assms(2-4) c(3) by (simp add: cow_fault_def written_perm_def n_def Let_def)
  have o: "owned k (pageno (vpt it))" using c(1) it(4) by (simp add: r_def)
  have st: "on_path (mem k) it" "vlevel it = 0 \<or> \<not> is_table (entry (mem k) it)" using it(2,5) by (simp_all add: settled_def)
  note u = try_map_updates [OF t o st wp(1)]
  have w: "within_tree r k k'" using u(1) it(4) by (simp add: r_def)
  have mp: "mapping (mem k') r = map_page (cow_va c) (Some (cow_pa c, written_perm (cow_perm c))) (mapping (mem k) r)"
    using u(5) wp(2) it(3,4) by (simp add: r_def)
  have m: "mem k' x = mem k x" if "x \<notin> tables (mem k) r" for x
    using that it(7) by (auto simp: k'_def set_entry_def r_def)
  have "cow_done k c n k'"
    unfolding cow_done_def Let_def r_def [symmetric]
  proof (intro conjI allI impI)
    show "owned k' r" "same_procs k k'" using w by (simp_all add: within_tree_def)
    show "mapping (mem k') r = map_page (cow_va c) (Some (page_addr n, written_perm (cow_perm c))) (mapping (mem k) r)"
      using mp page_addr_pageno(1) [OF pa] by (simp add: n_def)
    show "mem k' n = mem k (pageno (cow_pa c))" using m [OF c(4)] by (simp add: n_def)
    show "mem k' x = mem k x" if "x \<notin> tables (mem k) r" for x by (rule m [OF that])
    show "mapping (mem k') r2 = mapping (mem k) r2" if "owned k r2 \<and> tables (mem k) r \<inter> tables (mem k) r2 = {}" for r2
      using other_tree(2) [OF w] that by blast
  qed
  moreover have "refcount k' = refcount k" by (simp add: k'_def set_entry_def)
  ultimately show ?thesis using run unfolding n_def by blast
qed

lemma cow_fault_copy:
  assumes "cow_ready k c" and "cow_pt c = pagetable (cur k)" and "round_down_page addr = cow_va c"
    and "refcount k (pageno (cow_pa c)) \<noteq> 1" and "kalloc C PAGESIZE k = (page_addr q, take_page q k)" and "free_page C k q"
  shows "\<exists>k'. cow_fault C addr k = Some (Resolved k') \<and> cow_done k c q k'
     \<and> refcount k' = (refcount k)(q := 1, pageno (cow_pa c) := refcount k (pageno (cow_pa c)) - 1)"
proof -
  define r where "r = pageno (cow_pt c)"
  define n where "n = pageno (cow_pa c)"
  have c: "owned k r" "unat (cow_va c) mod PAGESIZE = 0" "0 < n" "n < NPAGES" "refcount k n \<noteq> 0" "n \<notin> tables (mem k) r"
    using assms(1) by (simp_all add: cow_ready_def Let_def r_def n_def)
  have q: "q < NPAGES" "refcount k q = 0" using assms(6) by (simp_all add: free_page_def)
  have q0: "q \<noteq> 0" using assms(6) by (metis page_0_reserved)
  have qn: "q \<noteq> n" using q(2) c(5) by auto
  obtain it p i where it: "vmiter_at (mem k) (cow_pt c) (cow_va c) = Some it" "settled (mem k) it" "vva it = cow_va c"
    "vpt it = cow_pt c" "vlevel it = 0" "vpep it = Some (p, i)" "p \<in> tables (mem k) (pageno (cow_pt c))"
    "vm_perm (mem k) it = cow_perm c" "vm_pa (mem k) it = cow_pa c" "vm_kptr (mem k) it = cow_pa c"
    "\<not> vm_writable (mem k) it" "cow_perm c AND (PTE_C OR PTE_P) \<noteq> 0"
    and al: "written_perm (cow_perm c) AND NOT (vperm it) AND (PTE_P OR PTE_W OR PTE_U) = 0"
    and pa: "cow_pa c AND PTE_PAMASK = cow_pa c" and pe: "cow_perm c AND 0xFFF = cow_perm c" "cow_perm c AND PTE_P \<noteq> 0"
    by (rule cow_iterator [OF assms(1)])
  note wp = written_perm_facts [OF pe]
  define k1 where "k1 = take_page q k"
  define k2 where "k2 = set_entry p i (page_addr q OR written_perm (cow_perm c)) k1"
  define k3 where "k3 = copy_page q n k2"
  define k4 where "k4 = k3\<lparr>refcount := (refcount k3)(n := refcount k3 n - 1)\<rparr>"
  note tk = take_page_owned [OF c(1) assms(6), folded k1_def]
  have sub: "mem k1 x = mem k x" if "x \<in> tables (mem k) (pageno (vpt it))" for x
    using that tk(4) it(4) by (auto simp: k1_def take_page_def r_def)
  note st1 = settled_outside [OF it(2) sub]
  have al3: "unat (vva it) mod PAGESIZE = 0" using c(2) it(3) by simp
  have t: "vm_try_map C (page_addr q) (written_perm (cow_perm c)) it k1 = Some (0, it, k2)"
    unfolding k2_def by (rule try_map_leaf [OF it(5,6) al3 wp(2) page_addr_bits [OF q(1)] al])
  have o: "owned k1 (pageno (vpt it))" using tk(1) it(4) by (simp add: r_def)
  have st: "on_path (mem k1) it" "vlevel it = 0 \<or> \<not> is_table (entry (mem k1) it)" using st1(1) it(5) by (simp_all add: settled_def)
  note u = try_map_updates [OF t o st wp(1)]
  have w: "within_tree r k1 k2" using u(1) it(4) by (simp add: r_def)
  have mp: "mapping (mem k2) r = map_page (cow_va c) (Some (page_addr q, written_perm (cow_perm c))) (mapping (mem k) r)"
    using u(5) wp(2) it(3,4) tk(3) by (simp add: r_def)
  have "settled (mem k2) it" using u(2) it(5) by (simp add: settled_def)
  from vm_perm_mapping [OF this] have "vm_perm (mem k2) it = written_perm (cow_perm c)"
    using mp it(3,4) by (simp add: r_def map_page_def)
  then have wr: "vm_writable (mem k2) it"
  proof -
    assume p2: "vm_perm (mem k2) it = written_perm (cow_perm c)"
    have "bit (written_perm (cow_perm c)) 0" "bit (written_perm (cow_perm c)) 1" using wp(2,3) has_bits by blast+
    then have "written_perm (cow_perm c) AND (PTE_P OR PTE_W) = PTE_P OR PTE_W"
      by (intro bit_word_eqI) (auto simp: bit_and_iff bit_or_iff bit_PTE_W PTE_P_def bit_1_iff)
    then show ?thesis by (simp add: vm_writable_def vm_has_def p2)
  qed
  have "vm_kptr (mem k1) it = vm_kptr (mem k) it" by (simp only: vm_kptr_def vm_pa_def st1(2))
  then have kp: "vm_kptr (mem k1) it = cow_pa c" using it(10) by simp
  have pn: "page_addr n = cow_pa c" "unat (cow_pa c) mod PAGESIZE = 0" using page_addr_pageno [OF pa] by (simp_all add: n_def)
  have "cow_pa c \<noteq> 0" using pn(1) c(3,4) page_addr_0 [of n] by auto
  moreover have "refcount k3 n = refcount k n" using qn by (simp add: k3_def k2_def k1_def set_entry_def take_page_def)
  moreover have "refcount k n - 1 \<noteq> 0" using assms(4) by (simp add: n_def)
  ultimately have kf: "kfree (cow_pa c) k3 = Some k4"
    using pn(2) c(4,5) by (simp add: kfree_def k4_def n_def [symmetric] Let_def)
  have pq: "page_addr q \<noteq> 0" "pageno (page_addr q) = q" using q(1) q0 by simp_all
  have run: "cow_fault C addr k = Some (Resolved k4)"
    using it(1,8,9,11,12) t assms(2-4) c(4) assms(5) pq kp wr kf
    by (simp add: cow_fault_def written_perm_def n_def [symmetric] Let_def k1_def [symmetric] k3_def [symmetric])
  have p: "p \<in> tables (mem k) r" using it(7) by (simp add: r_def)
  then have pqn: "p \<noteq> q" "p \<noteq> n" using tk(4) c(6) by auto
  have m4: "mem k4 = (mem k2)(q := mem k n)"
    using pqn qn by (simp add: k4_def k3_def k2_def k1_def set_entry_def take_page_def copy_page_def)
  have m: "mem k4 x = mem k x" if "x \<noteq> q" "x \<notin> tables (mem k) r" for x
    using that p unfolding m4 by (auto simp: k2_def k1_def set_entry_def take_page_def)
  have t2: "tables (mem k2) r = tables (mem k) r"
  proof -
    have i: "i = pageindex (vva it) 0" and tb: "table_at (mem k1) r (vva it) 3 = Some (p, vperm it)"
      using st(1) it(4-6) by (auto simp: on_path_def r_def)
    have "mem k2 = put p (pageindex (vva it) 0) (page_addr q OR written_perm (cow_perm c)) (mem k1)"
      by (simp add: k2_def set_entry_def put_def i)
    moreover have "tree_ok (mem k1) r" using tk(1) by (simp add: owned_def)
    ultimately show ?thesis using put_leaf(2) [OF _ tb] tk(2) by simp
  qed
  have out: "mem k4 x = mem k2 x" if "x \<in> tables (mem k2) r" for x using that tk(4) unfolding t2 m4 by auto
  note oo = outside [of "mem k2" r "mem k4", OF out]
  have t4: "tables (mem k4) r = tables (mem k) r" using oo(1) t2 by simp
  have rc: "refcount k4 = (refcount k)(q := 1, n := refcount k n - 1)"
    using qn by (simp add: k4_def k3_def k2_def k1_def set_entry_def take_page_def)
  have "owned k4 r"
    unfolding owned_def t4 rc
  proof (intro conjI ballI)
    show "tree_ok (mem k4) r" using oo(2) w by (simp add: within_tree_def owned_def)
    show "small_pages (mem k4) r" using small_outside [of "mem k2" r "mem k4", OF out] w by (simp add: within_tree_def owned_def)
    fix x
    assume x: "x \<in> tables (mem k) r"
    then have "x \<noteq> n" "refcount k x \<noteq> 0" using c(1,6) by (auto simp: owned_def)
    then show "((refcount k)(q := 1, n := refcount k n - 1)) x \<noteq> 0" by simp
  qed
  moreover have "same_procs k k4"
    by (simp add: same_procs_def k4_def k3_def k2_def k1_def set_entry_def take_page_def)
  moreover have "mapping (mem k4) r2 = mapping (mem k) r2" if "owned k r2 \<and> tables (mem k) r \<inter> tables (mem k) r2 = {}" for r2
  proof -
    have "refcount k x \<noteq> 0" if "x \<in> tables (mem k) r2" for x using that \<open>owned k r2 \<and> _\<close> by (simp add: owned_def)
    then have "mem k4 x = mem k x" if "x \<in> tables (mem k) r2" for x
      using m [of x] that \<open>owned k r2 \<and> _\<close> q(2) by blast
    then show ?thesis by (rule outside(3))
  qed
  ultimately have "cow_done k c q k4"
    unfolding cow_done_def Let_def r_def [symmetric] n_def [symmetric] using oo(3) mp m by (simp add: m4)
  then show ?thesis using run rc unfolding n_def by blast
qed

text \<open>C14: a write to a page that is mapped but not writable, below writable tables, gives the
  process a writable page with the same contents and the same permissions but for the
  copy-on-write mark: the page itself if it is not shared, else a fresh copy, with the
  reference counts adjusted; the page shared before keeps its contents, other mappings of the
  process and the other processes do not change. Without a free page the process is
  killed. The page need not have been marked copy-on-write: read-only program text becomes
  writable in the same way.\<close>

theorem cow_fault_copies:
  assumes "cow_ready k c" and "cow_pt c = pagetable (cur k)" and "round_down_page addr = cow_va c"
  shows "if refcount k (pageno (cow_pa c)) = 1 then
      \<exists>k'. cow_fault C addr k = Some (Resolved k') \<and> cow_done k c (pageno (cow_pa c)) k' \<and> refcount k' = refcount k
    else if \<exists>q. free_page C k q then
      \<exists>q k'. free_page C k q \<and> cow_fault C addr k = Some (Resolved k') \<and> cow_done k c q k'
        \<and> refcount k' = (refcount k)(q := 1, pageno (cow_pa c) := refcount k (pageno (cow_pa c)) - 1)
    else cow_fault C addr k = map_option Killed (syscall_exit C k)"
proof (cases "refcount k (pageno (cow_pa c)) = 1")
  case True
  then show ?thesis using cow_fault_reuse [OF assms] by simp
next
  case False
  obtain pa k1 where ka: "kalloc C PAGESIZE k = (pa, k1)" by fastforce
  show ?thesis
  proof (cases "\<exists>q. free_page C k q")
    case True
    then obtain q where q: "pa = page_addr q" "free_page C k q" "k1 = take_page q k" using kalloc_cases [OF ka] by auto
    then have "kalloc C PAGESIZE k = (page_addr q, take_page q k)" using ka by simp
    from cow_fault_copy [OF assms False this q(2)] show ?thesis using False True q(2) by auto
  next
    case none: False
    then have "pa = 0" "k1 = k" using kalloc_cases [OF ka] by auto
    then have ka0: "kalloc C PAGESIZE k = (0, k)" using ka by simp
    have n: "pageno (cow_pa c) < NPAGES" using assms(1) by (simp add: cow_ready_def Let_def)
    obtain it p i where it: "vmiter_at (mem k) (cow_pt c) (cow_va c) = Some it" "settled (mem k) it" "vva it = cow_va c"
      "vpt it = cow_pt c" "vlevel it = 0" "vpep it = Some (p, i)" "p \<in> tables (mem k) (pageno (cow_pt c))"
      "vm_perm (mem k) it = cow_perm c" "vm_pa (mem k) it = cow_pa c" "vm_kptr (mem k) it = cow_pa c"
      "\<not> vm_writable (mem k) it" "cow_perm c AND (PTE_C OR PTE_P) \<noteq> 0"
      by (rule cow_iterator [OF assms(1)])
    have "cow_fault C addr k = map_option Killed (syscall_exit C k)"
      using it(1,8,9,11,12) assms(2,3) False n ka0
      by (cases "syscall_exit C k") (simp_all add: cow_fault_def Let_def)
    then show ?thesis using False none by simp
  qed
qed

section \<open>A kernel to try it on\<close>

text \<open>The tables of \<open>demo_tables\<close>: address 0x1000 is mapped writable to page 9, address 0x2000
  read-only to page 10, which is shared.\<close>

definition demo_cow :: kstate where
  "demo_cow = \<lparr>mem = demo_tables, refcount = (\<lambda>p. if p = 10 then 2 else if 2 \<le> p \<and> p \<le> 5 \<or> p = 9 then 1 else 0),
     ptable = (\<lambda>n. \<lparr>pagetable = 0x2000, pid = 1, state = P_RUNNABLE, regs = zero_regs, wake_up = 0\<rparr>), current = 1, ticks = 1\<rparr>"

definition demo_case :: cow_case where
  "demo_case = \<lparr>cow_pt = 0x2000, cow_va = 0x2000, cow_pa = 0xA000, cow_perm = 5\<rparr>"

lemma demo_path:
  "table_at demo_tables 2 va (Suc 0) = (if pageindex va 3 = 0 then Some (3, 0xFFF) else None)"
  "table_at demo_tables 2 va (Suc (Suc 0)) = (if pageindex va 3 = 0 \<and> pageindex va 2 = 0 then Some (4, 0xFFF) else None)"
  "table_at demo_tables 2 va (Suc (Suc (Suc 0))) = (if pageindex va 3 = 0 \<and> pageindex va 2 = 0 \<and> pageindex va 1 = 0 then Some (5, 0xFFF) else None)"
proof -
  have z: "\<not> is_table 0" by (simp add: is_table_def pte_defs)
  have e: "is_table 0x3007" "pageno (0x3007 AND PTE_PAMASK) = 3" "table_perm 0xFFF 0x3007 = 0xFFF"
    "is_table 0x4007" "pageno (0x4007 AND PTE_PAMASK) = 4" "table_perm 0xFFF 0x4007 = 0xFFF"
    "is_table 0x5007" "pageno (0x5007 AND PTE_PAMASK) = 5" "table_perm 0xFFF 0x5007 = 0xFFF"
    by (simp_all add: is_table_def pte_defs pageno_def table_perm_def)
  show 1: "table_at demo_tables 2 va (Suc 0) = (if pageindex va 3 = 0 then Some (3, 0xFFF) else None)"
    using z e by (simp add: table_at.simps(2) demo_tables_def initial_perm_def)
  show 2: "table_at demo_tables 2 va (Suc (Suc 0)) = (if pageindex va 3 = 0 \<and> pageindex va 2 = 0 then Some (4, 0xFFF) else None)"
    using z e by (subst table_at.simps(2)) (simp add: 1 demo_tables_def)
  show "table_at demo_tables 2 va (Suc (Suc (Suc 0))) = (if pageindex va 3 = 0 \<and> pageindex va 2 = 0 \<and> pageindex va 1 = 0 then Some (5, 0xFFF) else None)"
    using z e by (subst table_at.simps(2)) (simp add: 2 demo_tables_def)
qed

lemma demo_depth: "d \<le> 3 \<Longrightarrow> table_at demo_tables 2 va d = Some (p, perm) \<Longrightarrow> d = p - 2 \<and> 2 \<le> p \<and> p \<le> 5 \<and> same_path d va 0 \<and> perm = 0xFFF"
proof -
  assume d: "d \<le> 3" and t: "table_at demo_tables 2 va d = Some (p, perm)"
  have z: "pageindex 0 l = 0" for l by (simp add: pageindex_def)
  from d consider "d = 0" | "d = Suc 0" | "d = Suc (Suc 0)" | "d = Suc (Suc (Suc 0))" by linarith
  then show ?thesis using t by cases (auto simp: demo_path same_path_Suc z initial_perm_def split: if_splits)
qed

lemma demo_tree:
  assumes "mem k = demo_tables" and "\<And>t. 2 \<le> t \<Longrightarrow> t \<le> 5 \<Longrightarrow> refcount k t \<noteq> 0"
  shows "owned k 2"
  unfolding owned_def assms(1)
proof (intro conjI ballI)
  show "tree_ok demo_tables 2" unfolding tree_ok_def
  proof (intro allI impI)
    fix va va' d d' p perm perm'
    assume a: "d \<le> 3" "d' \<le> 3" "table_at demo_tables 2 va d = Some (p, perm)" "table_at demo_tables 2 va' d' = Some (p, perm')"
    note 1 = demo_depth [OF a(1,3)] and 2 = demo_depth [OF a(2,4)]
    have "d = d'" using 1 2 by simp
    moreover have "same_path d va va'" using 1 2 \<open>d = d'\<close> same_path_trans [OF _ same_path_sym] by blast
    ultimately show "d = d' \<and> same_path d va va'" ..
  qed
  show "refcount k t \<noteq> 0" if "t \<in> tables demo_tables 2" for t
    using that demo_depth assms(2) by (fastforce simp: tables_def)
  have "is_table (demo_tables p (pageindex va (3 - d)))"
    if "d < 3" "table_at demo_tables 2 va d = Some (p, perm)" "demo_tables p (pageindex va (3 - d)) AND PTE_P \<noteq> 0" for va d p perm
  proof -
    have "p \<noteq> 5" using demo_depth [of d va p perm] that(1,2) by auto
    then show ?thesis using that(3) by (auto simp: demo_tables_def is_table_def pte_defs split: if_splits)
  qed
  then show "small_pages demo_tables 2" by (simp add: small_pages_def)
qed

lemma demo_owned: "owned demo_cow 2"
  by (rule demo_tree) (simp_all add: demo_cow_def)

lemma demo_root: "pageno 0x2000 = 2" "pageno 0xA000 = 10"
  by (simp_all add: pageno_def)

lemma demo_index: "pageindex 0x2000 0 = 2" "pageindex 0x2000 (Suc 0) = 0" "pageindex 0x2000 2 = 0" "pageindex 0x2000 3 = 0"
  by (simp_all add: pageindex_def)

lemma demo_ready: "cow_ready demo_cow demo_case"
proof -
  have t: "table_at demo_tables 2 0x2000 3 = Some (5, 0xFFF)"
    using demo_path(3) [of "0x2000"] demo_index unfolding numeral_3_eq_3 by simp
  have "mapping demo_tables 2 0x2000 = Some (0xA000, 5)"
    by (simp add: mapping_def t demo_index demo_tables_def pte_defs)
  moreover have "10 \<notin> tables demo_tables 2" using demo_depth by (fastforce simp: tables_def)
  moreover have "vmiter_at demo_tables 0x2000 0x2000 \<noteq> None"
    by (simp add: vm_eval demo_tables_def)
  ultimately show ?thesis
    using demo_owned t by (simp add: cow_ready_def demo_case_def demo_root demo_cow_def va_is_canonical_def pte_defs)
qed

lemma demo_free: "free_page demo_conf demo_cow 1"
  by (simp add: free_page_def allocatable_physical_address_def reserved_physical_address_def page_addr_def
      demo_cow_def demo_conf_def addr_defs)

lemma cow_fault_copies_witness:
  "\<exists>q k'. cow_fault demo_conf 0x2123 demo_cow = Some (Resolved k') \<and> mapping (mem k') 2 0x2000 = Some (page_addr q, 7)
     \<and> refcount k' 10 = 1"
proof -
  have p: "cow_pt demo_case = pagetable (cur demo_cow)" "round_down_page 0x2123 = cow_va demo_case"
    by (simp_all add: demo_case_def demo_cow_def cur_def round_down_page_def)
  have n1: "refcount demo_cow (pageno (cow_pa demo_case)) \<noteq> 1" by (simp add: demo_case_def demo_root demo_cow_def)
  have ex: "\<exists>q. free_page demo_conf demo_cow q" using demo_free by blast
  obtain q k' where k: "free_page demo_conf demo_cow q" "cow_fault demo_conf 0x2123 demo_cow = Some (Resolved k')" "cow_done demo_cow demo_case q k'"
    "refcount k' = (refcount demo_cow)(q := 1, pageno (cow_pa demo_case) := refcount demo_cow (pageno (cow_pa demo_case)) - 1)"
    using cow_fault_copies [OF demo_ready p, of demo_conf] n1 ex by auto
  have "mapping (mem k') 2 0x2000 = Some (page_addr q, 7)"
    using k(3) by (simp add: cow_done_def Let_def demo_case_def demo_root map_page_def written_perm_def pte_defs)
  moreover have "refcount k' 10 = 1" using k(4) by (simp add: demo_case_def demo_root demo_cow_def)
  ultimately show ?thesis using k(2) by blast
qed

lemma try_map_refines_witness:
  "\<exists>it k'. vmiter_at (mem demo_cow) 0x2000 0x2000 = Some it \<and> vm_try_map demo_conf 0x9000 7 it demo_cow = Some (0, it, k')
     \<and> mapping (mem k') 2 0x2000 = Some (0x9000, 7)"
proof -
  define k' where "k' = set_entry 5 2 0x9007 demo_cow"
  have c: "va_is_canonical 0x2000" by (simp add: va_is_canonical_def)
  have it: "vmiter_at (mem demo_cow) 0x2000 0x2000 = Some (demo_it 2 0x2000)"
    by (simp add: vm_eval demo_cow_def demo_tables_def demo_it_def)
  have t: "vm_try_map demo_conf 0x9000 7 (demo_it 2 0x2000) demo_cow = Some (0, demo_it 2 0x2000, k')"
    by (simp add: vm_try_map_def add_tables_0 demo_it_def pte_defs k'_def)
  have o: "owned demo_cow (pageno 0x2000)" using demo_owned by (simp add: demo_root)
  have "mapping (mem k') 2 0x2000 = Some (0x9000, 7)"
    using try_map_refines [OF o c it t] by (simp add: demo_root map_page_def pte_defs)
  then show ?thesis using it t by blast
qed

end
