(* ===== verification/KTotal.thy ===== *)
theory KTotal
  imports KMap
begin

text \<open>
  When the page-table operations go through: on well-formed tables whose entries stay below the
  limit that the iterator asserts, walks never panic, and \<open>try_map\<close> succeeds if there is a
  free page for every table that it may have to add.
\<close>

section \<open>Entries the iterator accepts\<close>

definition low_entry :: "u64 \<Rightarrow> bool" where
  "low_entry e \<longleftrightarrow> e AND PTE_PAMASK < 0x100000000"

definition low :: "pmem \<Rightarrow> nat \<Rightarrow> bool" where
  "low m r \<longleftrightarrow> (\<forall>p \<in> tables m r. \<forall>i. low_entry (m p i))"

lemma low_zero [simp]: "low_entry 0"
  by (simp add: low_entry_def)

lemma low_page: "q < NPAGES \<Longrightarrow> page_addr q < 0x100000000"
  using unat_page_addr [of q] by (simp add: word_less_nat_alt)

lemma low_table_entry: "q < NPAGES \<Longrightarrow> low_entry (table_entry q)"
proof -
  assume q: "q < NPAGES"
  have e: "table_entry q = page_addr q OR 7" by (simp add: table_entry_def pte_defs or.assoc)
  have "(page_addr q OR 7) AND PTE_PAMASK = page_addr q" by (rule entry_parts(2) [OF page_addr_bits [OF q], where w = 0]) simp_all
  then show ?thesis using low_page [OF q] by (simp add: low_entry_def e)
qed

lemma low_outside:
  assumes "\<And>p. p \<in> tables m r \<Longrightarrow> m' p = m p"
  shows "low m' r = low m r"
proof -
  have "tables m' r = tables m r" by (rule outside(1)) (rule assms)
  then show ?thesis using assms by (simp add: low_def)
qed

lemma low_add_table:
  assumes "tree_ok m r" and "table_at m r va d = Some (p, perm)" and "d < 3" and "q \<notin> tables m r" and "q < NPAGES"
    and "\<not> is_table (m p (pageindex va (3 - d)))" and "low m r"
  shows "low (add_table q p (pageindex va (3 - d)) m) r"
  unfolding low_def add_table_ok(2) [OF assms(1-6)]
proof (intro ballI allI)
  fix t i
  assume "t \<in> insert q (tables m r)"
  moreover have "low_entry (m t i)" if "t \<in> tables m r" using assms(7) that by (simp add: low_def)
  ultimately show "low_entry (add_table q p (pageindex va (3 - d)) m t i)"
    using low_table_entry [OF assms(5)] by (auto simp: add_table_def put_def)
qed

lemma low_put_leaf:
  assumes "tree_ok m r" and "table_at m r va 3 = Some (p, perm)" and "low m r" and "low_entry e"
  shows "low (put p (pageindex va 0) e m) r"
  using assms(3,4) unfolding low_def put_leaf(2) [OF assms(1,2)] by (auto simp: put_def)

lemma vmiter_at_total:
  assumes "low m (pageno pt)" and "va_is_canonical va"
  obtains it where "vmiter_at m pt va = Some it"
proof -
  let ?fresh = "\<lparr>vpt = pt, vpep = Some (pageno pt, pageindex va 3), vlevel = 3, vperm = initial_perm, vva = va\<rparr>"
  define it where "it = down_loop m 3 ?fresh"
  have "on_path m ?fresh" using assms(2) by (simp add: on_path_def)
  then have o: "on_path m it" unfolding it_def by (rule down_loop_path) simp
  have v: "vpt it = pt" by (simp add: it_def down_loop_frame)
  obtain p where p: "vpep it = Some (p, pageindex (vva it) (vlevel it))" "table_at m (pageno pt) (vva it) (3 - vlevel it) = Some (p, vperm it)"
    using o v by (auto simp: on_path_def)
  have "p \<in> tables m (pageno pt)" by (rule tablesI [OF p(2)]) simp
  then have "low_entry (entry m it)" using assms(1) p(1) by (simp add: low_def entry_def)
  then have "\<not> entry m it AND PTE_PAMASK \<ge> 0x100000000" by (simp add: low_entry_def not_le)
  then have "vmiter_at m pt va = Some it"
    using assms(2) by (simp add: vmiter_at_def real_find_def down_def Let_def it_def)
  then show ?thesis by (rule that)
qed

section \<open>Paths that allow everything\<close>

definition open_path :: "pmem \<Rightarrow> nat \<Rightarrow> bool" where
  "open_path m r \<longleftrightarrow> (\<forall>va d p perm. d \<le> 3 \<longrightarrow> table_at m r va d = Some (p, perm) \<longrightarrow> perm = initial_perm)"

lemma open_pathD: "open_path m r \<Longrightarrow> table_at m r va d = Some (p, perm) \<Longrightarrow> d \<le> 3 \<Longrightarrow> perm = initial_perm"
  unfolding open_path_def by blast

lemma open_outside:
  assumes "\<And>p. p \<in> tables m r \<Longrightarrow> m' p = m p"
  shows "open_path m' r = open_path m r"
proof -
  have "table_at m' r va d = table_at m r va d" if "d \<le> 3" for va d
    by (rule table_at_outside [OF _ that]) (rule assms)
  then show ?thesis by (simp add: open_path_def)
qed

lemma open_add_table:
  assumes "tree_ok m r" and "table_at m r va d = Some (p, perm)" and "d < 3" and "q \<notin> tables m r" and "q < NPAGES"
    and "open_path m r"
  shows "open_path (add_table q p (pageindex va (3 - d)) m) r"
  unfolding open_path_def
proof (intro allI impI)
  fix va' e t perm'
  assume a: "e \<le> 3" "table_at (add_table q p (pageindex va (3 - d)) m) r va' e = Some (t, perm')"
  have "perm = initial_perm" using open_pathD [OF assms(6,2)] assms(3) by simp
  then show "perm' = initial_perm"
    using a table_at_add [OF assms(1-5) a(1), of va'] open_pathD [OF assms(6) _ a(1), of va' t perm'] by (auto split: if_splits)
qed

section \<open>Free pages\<close>

definition free_count :: "kconf \<Rightarrow> kstate \<Rightarrow> nat" where
  "free_count C k = card {q. free_page C k q}"

lemma free_finite [simp]: "finite {q. free_page C k q}"
  by (rule finite_subset [of _ "{..< NPAGES}"]) (auto simp: free_page_def)

lemma free_count_same:
  assumes "\<And>q. refcount k' q = 0 \<longleftrightarrow> refcount k q = 0"
  shows "free_count C k' = free_count C k"
  using assms by (simp add: free_count_def free_page_def)

lemma free_count_take:
  assumes "free_page C k q" and "\<And>t. refcount k' t = 0 \<longleftrightarrow> t \<noteq> q \<and> refcount k t = 0"
  shows "Suc (free_count C k') = free_count C k"
proof -
  have e: "{t. free_page C k' t} = {t. free_page C k t} - {q}" using assms(2) by (auto simp: free_page_def)
  have "q \<in> {t. free_page C k t}" using assms(1) by simp
  from card_Suc_Diff1 [OF free_finite this] show ?thesis unfolding free_count_def e .
qed

lemma kalloc_succeeds:
  assumes "0 < free_count C k"
  obtains q where "free_page C k q" and "q \<noteq> 0" and "kalloc C PAGESIZE k = (page_addr q, take_page q k)"
proof -
  obtain pa k1 where ka: "kalloc C PAGESIZE k = (pa, k1)" by fastforce
  have "\<exists>q. free_page C k q" using assms card_gt_0_iff [of "{q. free_page C k q}"] by (auto simp: free_count_def)
  then obtain q where q: "pa = page_addr q" "free_page C k q" "k1 = take_page q k" using kalloc_cases [OF ka] by auto
  have "q \<noteq> 0" using q(2) by (metis page_0_reserved)
  then show ?thesis using that q ka by simp
qed

section \<open>Adding tables\<close>

text \<open>Tables are never unlinked.\<close>

definition grows :: "pmem \<Rightarrow> pmem \<Rightarrow> nat \<Rightarrow> bool" where
  "grows m m' r \<longleftrightarrow> (\<forall>va d x. d \<le> 3 \<longrightarrow> table_at m r va d = Some x \<longrightarrow> table_at m' r va d = Some x)"

lemma grows_some: "grows m m' r \<Longrightarrow> d \<le> 3 \<Longrightarrow> table_at m r va d \<noteq> None \<Longrightarrow> table_at m' r va d \<noteq> None"
  unfolding grows_def by fastforce

lemma grows_refl [simp]: "grows m m r"
  by (simp add: grows_def)

lemma grows_trans: "grows m m1 r \<Longrightarrow> grows m1 m2 r \<Longrightarrow> grows m m2 r"
  unfolding grows_def by blast

lemma add_tables_total:
  assumes "owned k (pageno (vpt it))" and "settled (mem k) it" and "low (mem k) (pageno (vpt it))" and "vlevel it = n"
    and "n \<le> free_count C k"
  shows "\<exists>it' k'. add_tables C n it k = Some (0, it', k') \<and> free_count C k' + n = free_count C k
     \<and> low (mem k') (pageno (vpt it)) \<and> (open_path (mem k) (pageno (vpt it)) \<longrightarrow> open_path (mem k') (pageno (vpt it)))
     \<and> grows (mem k) (mem k') (pageno (vpt it))"
  using assms
proof (induction n arbitrary: it k)
  case 0
  then show ?case by (simp add: add_tables_0)
next
  case (Suc l)
  define r0 where "r0 = pageno (vpt it)"
  define d where "d = 3 - vlevel it"
  have o: "on_path (mem k) it" and e0: "entry (mem k) it AND PTE_P = 0" using Suc.prems(2,4) by (auto simp: settled_def)
  obtain p where p: "vpep it = Some (p, pageindex (vva it) (vlevel it))" "table_at (mem k) r0 (vva it) d = Some (p, vperm it)"
    and l: "vlevel it \<le> 3" using o by (auto simp: on_path_def r0_def d_def)
  have d: "d < 3" "3 - d = Suc l" using l Suc.prems(4) by (simp_all add: d_def)
  have nt: "\<not> is_table (mem k p (pageindex (vva it) (3 - d)))"
    using not_present_no_table [OF e0] p(1) d(2) Suc.prems(4) by (simp add: entry_def)
  have "0 < free_count C k" using Suc.prems(5) by simp
  then obtain q where q: "free_page C k q" "q \<noteq> 0" "kalloc C PAGESIZE k = (page_addr q, take_page q k)" by (rule kalloc_succeeds)
  have q5: "q < NPAGES" and qf: "refcount k q = 0" using q(1) by (simp_all add: free_page_def)
  define k2 where "k2 = set_entry p (pageindex (vva it) (3 - d)) (table_entry q) (set_page q 0 (take_page q k))"
  have m2: "mem k2 = add_table q p (pageindex (vva it) (3 - d)) (mem k)"
    by (simp add: k2_def set_entry_def add_table_def put_def take_page_def)
  have rc2: "refcount k2 = (refcount k)(q := 1)" by (simp add: k2_def set_entry_def take_page_def)
  have ow: "owned k r0" using Suc.prems(1) by (simp add: r0_def)
  have qt: "q \<notin> tables (mem k) r0" using ow qf by (auto simp: owned_def)
  have t: "tree_ok (mem k) r0" using ow by (simp add: owned_def)
  have w: "within_tree r0 k k2" unfolding k2_def by (rule link_table(1) [OF ow q(1) p(2) d(1) nt])
  define it1 where "it1 = it\<lparr>vperm := table_perm (vperm it) (table_entry q), vlevel := l, vpep := Some (q, pageindex (vva it) l)\<rparr>"
  have en: "entry (mem k2) it = table_entry q" using p(1) d(2) Suc.prems(4) by (simp add: entry_def m2 add_table_def)
  have qp: "q \<noteq> p" using qt tablesI [OF p(2)] d(1) by auto
  have e1: "entry (mem k2) it1 = 0" using qp by (simp add: it1_def entry_def m2 add_table_def)
  have "down_loop (mem k2) l it1 = it1"
  proof (cases l)
    case (Suc l')
    have "\<not> entry (mem k2) it1 AND (PTE_P OR PTE_PS) = PTE_P" unfolding e1 by (simp add: pte_defs)
    then show ?thesis unfolding Suc by simp
  qed simp
  moreover have "down_loop (mem k2) (Suc l) it = down_loop (mem k2) l it1"
    using table_entry_facts [OF q5] by (simp add: en is_table_def it1_def table_perm_def)
  ultimately have dl: "down_loop (mem k2) (Suc l) it = it1" by simp
  then have dn: "down (mem k2) it = Some it1"
    using e1 Suc.prems(4) by (simp add: down_def Let_def)
  have run: "add_tables C (Suc l) it k = add_tables C l it1 k2"
    using Suc.prems(4) e0 q p(1) d(2) q5 dn
    by (simp add: add_tables_Suc k2_def table_entry_def Let_def)
  have at: "table_at (mem k2) r0 va' e = (if same_path (Suc d) (vva it) va' \<and> d < e then (if e = Suc d then Some (q, vperm it) else None) else table_at (mem k) r0 va' e)"
    if "e \<le> 3" for va' e unfolding m2 by (rule table_at_add [OF t p(2) d(1) qt q5 that])
  have o1: "on_path (mem k2) it1"
  proof -
    have "3 - l = Suc d" "Suc d \<le> 3" using d by simp_all
    then have "table_at (mem k2) r0 (vva it) (3 - l) = Some (q, vperm it)" using at [of "Suc d" "vva it"] by simp
    then show ?thesis using o d table_entry_facts(3) [OF q5] by (auto simp: on_path_def it1_def r0_def)
  qed
  have s1: "settled (mem k2) it1" using o1 e1 by (simp add: settled_def)
  have lo: "low (mem k2) r0" unfolding m2 using Suc.prems(3) by (intro low_add_table [OF t p(2) d(1) qt q5 nt]) (simp add: r0_def)
  have v1: "vpt it1 = vpt it" "vlevel it1 = l" by (simp_all add: it1_def)
  have fc: "Suc (free_count C k2) = free_count C k" by (rule free_count_take [OF q(1)]) (use qf in \<open>simp add: rc2\<close>)
  have g: "grows (mem k) (mem k2) r0"
    unfolding grows_def
  proof (intro allI impI)
    fix va e x
    assume a: "e \<le> 3" "table_at (mem k) r0 va e = Some x"
    show "table_at (mem k2) r0 va e = Some x"
    proof (cases "same_path (Suc d) (vva it) va \<and> d < e")
      case True
      then have sp: "same_path d (vva it) va" "pageindex va (3 - d) = pageindex (vva it) (3 - d)" by (simp_all add: same_path_Suc)
      have "table_at (mem k) r0 va d = Some (p, vperm it)" using table_at_same_path [OF sp(1)] p(2) by simp
      then have "table_at (mem k) r0 va (Suc d) = None" using nt sp(2) by (simp add: table_at.simps(2) Let_def)
      then show ?thesis using table_at_down [of "mem k" r0 va "Suc d" e] True a(2) by simp
    next
      case False
      then show ?thesis using at [OF a(1), of va] a(2) by auto
    qed
  qed
  have op: "open_path (mem k2) r0" if "open_path (mem k) r0" unfolding m2 by (rule open_add_table [OF t p(2) d(1) qt q5 that])
  have "owned k2 (pageno (vpt it1))" using w by (simp add: within_tree_def v1 r0_def)
  moreover have "low (mem k2) (pageno (vpt it1))" using lo by (simp add: v1 r0_def)
  moreover have "l \<le> free_count C k2" using fc Suc.prems(5) by simp
  ultimately obtain it' k' where IH: "add_tables C l it1 k2 = Some (0, it', k')" "free_count C k' + l = free_count C k2"
    "low (mem k') r0" "open_path (mem k2) r0 \<longrightarrow> open_path (mem k') r0" "grows (mem k2) (mem k') r0"
    using Suc.IH [OF _ s1 _ v1(2)] by (auto simp: v1 r0_def)
  show ?case unfolding run r0_def [symmetric] using IH fc op grows_trans [OF g] by auto
qed

section \<open>Mapping\<close>

lemma mapping_low:
  assumes "mapping m r va = Some (pa, perm)"
  shows "perm AND 0xFFF = perm" and "pa AND PTE_PAMASK = pa" and "perm AND PTE_P \<noteq> 0"
proof -
  obtain p vp where t: "table_at m r va 3 = Some (p, vp)" "m p (pageindex va 0) AND vp AND PTE_P \<noteq> 0"
    "pa = m p (pageindex va 0) AND PTE_PAMASK" "perm = m p (pageindex va 0) AND vp"
    using assms by (auto simp: mapping_def Let_def split: option.splits if_splits)
  show "perm AND 0xFFF = perm" unfolding t(4) using path_perm_low [OF t(1)] by (simp only: and.assoc)
  show "pa AND PTE_PAMASK = pa" unfolding t(3) by (simp only: and.assoc and.idem)
  show "perm AND PTE_P \<noteq> 0" unfolding t(4) using t(2) by (simp only: and.assoc) simp
qed

lemma low_or:
  assumes "pa AND PTE_PAMASK = pa" and "perm AND 0xFFF = perm" and "pa < 0x100000000"
  shows "low_entry (pa OR perm)"
  unfolding low_entry_def using entry_parts(2) [OF assms(1,2), of 0] assms(3) by simp

text \<open>What \<open>try_map\<close> stores.\<close>

definition stored_pa :: "u64 \<Rightarrow> u64 \<Rightarrow> u64" where
  "stored_pa pa perm = (if pa = -1 \<and> perm = 0 then 0 else pa)"

lemma try_map_total:
  assumes "owned k (pageno (vpt it))" and "settled (mem k) it" and "low (mem k) (pageno (vpt it))"
    and "unat (vva it) mod PAGESIZE = 0" and "perm AND 0xFFF = perm"
    and "if perm AND PTE_P \<noteq> 0 then pa AND PTE_PAMASK = pa \<and> pa \<noteq> -1 else stored_pa pa perm AND PTE_P = 0"
    and "perm AND NOT (vperm it) AND (PTE_P OR PTE_W OR PTE_U) = 0" and "perm \<noteq> 0 \<longrightarrow> vlevel it \<le> free_count C k"
    and "low_entry (stored_pa pa perm OR perm)"
  shows "\<exists>it' k'. vm_try_map C pa perm it k = Some (0, it', k') \<and> free_count C k' + (if perm \<noteq> 0 then vlevel it else 0) = free_count C k
     \<and> low (mem k') (pageno (vpt it)) \<and> (open_path (mem k) (pageno (vpt it)) \<longrightarrow> open_path (mem k') (pageno (vpt it)))
     \<and> grows (mem k) (mem k') (pageno (vpt it)) \<and> (vlevel it' = 0 \<or> perm = 0 \<and> it' = it \<and> k' = k)"
proof -
  define r0 where "r0 = pageno (vpt it)"
  have o: "on_path (mem k) it" using assms(2) by (simp add: settled_def)
  have "\<exists>it1 k1. (if perm \<noteq> 0 then add_tables C (vlevel it) it k else Some (0, it, k)) = Some (0, it1, k1)
     \<and> free_count C k1 + (if perm \<noteq> 0 then vlevel it else 0) = free_count C k \<and> low (mem k1) r0
     \<and> (open_path (mem k) r0 \<longrightarrow> open_path (mem k1) r0) \<and> grows (mem k) (mem k1) r0
     \<and> owned k1 r0 \<and> on_path (mem k1) it1 \<and> vva it1 = vva it \<and> vpt it1 = vpt it
     \<and> (vlevel it1 = 0 \<or> perm = 0 \<and> it1 = it \<and> k1 = k)"
  proof (cases "perm = 0")
    case True
    then show ?thesis using assms(1,3) o by (simp add: r0_def)
  next
    case False
    have "vlevel it \<le> free_count C k" using assms(8) False by simp
    from add_tables_total [OF assms(1-3) refl this]
    obtain it1 k1 where a: "add_tables C (vlevel it) it k = Some (0, it1, k1)" "free_count C k1 + vlevel it = free_count C k"
      "low (mem k1) r0" "open_path (mem k) r0 \<longrightarrow> open_path (mem k1) r0" "grows (mem k) (mem k1) r0"
      unfolding r0_def by blast
    from add_tables_within [OF a(1) assms(1) o] have "owned k1 r0" "on_path (mem k1) it1" "vva it1 = vva it" "vpt it1 = vpt it" "vlevel it1 = 0"
      by (simp_all add: within_tree_def r0_def)
    then show ?thesis using a False by simp
  qed
  then obtain it1 k1 where 1: "(if perm \<noteq> 0 then add_tables C (vlevel it) it k else Some (0, it, k)) = Some (0, it1, k1)"
     "free_count C k1 + (if perm \<noteq> 0 then vlevel it else 0) = free_count C k" "low (mem k1) r0"
     "open_path (mem k) r0 \<longrightarrow> open_path (mem k1) r0" "grows (mem k) (mem k1) r0"
     "owned k1 r0" "on_path (mem k1) it1" "vva it1 = vva it" "vpt it1 = vpt it"
     "vlevel it1 = 0 \<or> perm = 0 \<and> it1 = it \<and> k1 = k" by blast
  have run: "vm_try_map C pa perm it k = (if vlevel it1 = 0 then (case vpep it1 of None \<Rightarrow> None
       | Some (p, i) \<Rightarrow> Some (0, it1, set_entry p i (stored_pa pa perm OR perm) k1)) else Some (0, it1, k1))"
  proof -
    have "if perm AND PTE_P \<noteq> 0 then stored_pa pa perm \<noteq> -1 \<and> stored_pa pa perm AND PTE_PAMASK = stored_pa pa perm
        else stored_pa pa perm AND PTE_P = 0"
    proof (cases "perm AND PTE_P = 0")
      case True
      then show ?thesis using assms(6) by simp
    next
      case False
      then have "stored_pa pa perm = pa" by (auto simp: stored_pa_def)
      then show ?thesis using assms(6) False by simp
    qed
    then show ?thesis
      unfolding vm_try_map_def Let_def stored_pa_def [of pa perm, symmetric] 1(1) using assms(4,7) by simp
  qed
  show ?thesis
  proof (cases "vlevel it1 = 0")
    case False
    then show ?thesis using run 1 by (simp add: r0_def)
  next
    case True
    then obtain p where p: "vpep it1 = Some (p, pageindex (vva it) 0)" and t: "table_at (mem k1) r0 (vva it) 3 = Some (p, vperm it1)"
      using 1(7-9) by (auto simp: on_path_def r0_def)
    define k' where "k' = set_entry p (pageindex (vva it) 0) (stored_pa pa perm OR perm) k1"
    have m: "mem k' = put p (pageindex (vva it) 0) (stored_pa pa perm OR perm) (mem k1)" and rc: "refcount k' = refcount k1"
      by (simp_all add: k'_def set_entry_def put_def)
    have tr: "tree_ok (mem k1) r0" using 1(6) by (simp add: owned_def)
    note tp = table_at_put_leaf [OF tr t]
    have "low (mem k') r0" unfolding m by (rule low_put_leaf [OF tr t 1(3) assms(9)])
    moreover have "free_count C k' = free_count C k1" by (rule free_count_same) (simp add: rc)
    moreover have "open_path (mem k') r0" if "open_path (mem k1) r0" using that tp unfolding open_path_def m by auto
    moreover have "grows (mem k1) (mem k') r0" using tp unfolding grows_def m by auto
    ultimately show ?thesis using run True p 1(2,4) grows_trans [OF 1(5)] by (auto simp: k'_def [symmetric] r0_def)
  qed
qed

lemma advance_total:
  assumes "on_path m it" and "low m (pageno (vpt it))" and "va_is_canonical (vva it + delta)" and "delta \<noteq> 0"
  obtains it' where "vm_advance m it delta = Some it'"
proof -
  obtain it' where "vmiter_at m (vpt it) (vva it + delta) = Some it'" by (rule vmiter_at_total [OF assms(2,3)])
  then have "real_find m it (vva it + delta) = Some it'" using real_find_fresh [OF assms(1,3)] by simp
  then show ?thesis using that assms(4) by (simp add: vm_advance_def vm_find_def)
qed

end
