(* ===== verification/KFork.thy ===== *)
theory KFork
  imports KTotal
begin

text \<open>
  What \<open>fork\<close> does to address spaces: the loop over the pages of the parent and the child,
  as a step on page numbers, and its invariant. The child gets the parent's kernel pages as
  they are and its user pages read-only, marked copy-on-write where they were writable; the
  parent's own user pages are changed in the same way.
\<close>

section \<open>Pages by number\<close>

abbreviation NVIRTUAL :: nat where "NVIRTUAL \<equiv> 768"

definition page_map :: "pmem \<Rightarrow> nat \<Rightarrow> nat \<Rightarrow> (u64 \<times> u64) option" where
  "page_map m r i = mapping m r (page_addr i)"

lemma pageindex_div: "pageindex a l = unat a div 2 ^ (12 + l * 9) mod 512"
proof -
  have "drop_bit (12 + l * 9) a AND 0x1FF = take_bit 9 (drop_bit (12 + l * 9) a)"
    by (simp add: take_bit_eq_mask mask_eq_exp_minus_1)
  then have "pageindex a l = take_bit 9 (unat (drop_bit (12 + l * 9) a))"
    by (simp add: pageindex_def unsigned_take_bit_eq)
  also have "\<dots> = unat a div 2 ^ (12 + l * 9) mod 2 ^ 9"
    unfolding unat_drop_bit_eq by (simp only: take_bit_eq_mod drop_bit_eq_div)
  finally show ?thesis by simp
qed

lemma page_index:
  assumes "i \<le> NVIRTUAL"
  shows "pageindex (page_addr i) 0 = i mod 512" and "pageindex (page_addr i) 1 = i div 512"
proof -
  have u: "unat (page_addr i) = i * 4096" using assms unat_page_addr [of i] by simp
  show "pageindex (page_addr i) 0 = i mod 512" by (simp add: pageindex_div u)
  have "i * 4096 div 2 ^ 21 = i div 512" using div_mult_mult2 [of 4096 i 512] by simp
  then show "pageindex (page_addr i) 1 = i div 512" using assms by (simp add: pageindex_div u)
qed

lemma same_page:
  assumes "i \<le> NVIRTUAL" and "j \<le> NVIRTUAL"
  shows "same_path 4 (page_addr i) (page_addr j) \<longleftrightarrow> i = j"
proof
  assume p: "same_path 4 (page_addr i) (page_addr j)"
  have "pageindex (page_addr i) (3 - 3) = pageindex (page_addr j) (3 - 3)"
    by (rule p [unfolded same_path_def, rule_format]) simp
  moreover have "pageindex (page_addr i) (3 - 2) = pageindex (page_addr j) (3 - 2)"
    by (rule p [unfolded same_path_def, rule_format]) simp
  ultimately have "i mod 512 = j mod 512" "i div 512 = j div 512"
    using page_index [OF assms(1)] page_index [OF assms(2)] by simp_all
  then show "i = j" by (metis div_mult_mod_eq)
qed simp

lemma page_canonical: "i \<le> NVIRTUAL \<Longrightarrow> va_is_canonical (page_addr i)"
  using unat_page_addr [of i] by (simp add: va_is_canonical_def word_le_nat_alt)

lemma page_aligned: "i \<le> NVIRTUAL \<Longrightarrow> unat (page_addr i) mod PAGESIZE = 0"
  using unat_page_addr [of i] by simp

lemma page_less: "i \<le> NVIRTUAL \<Longrightarrow> page_addr i < MEMSIZE_VIRTUAL \<longleftrightarrow> i < NVIRTUAL" "i \<le> NVIRTUAL \<Longrightarrow> page_addr i < PROC_START_ADDR \<longleftrightarrow> i < 256"
  using unat_page_addr [of i] by (simp_all add: word_less_nat_alt addr_defs)

lemma page_next: "page_addr i + of_nat PAGESIZE = page_addr (Suc i)"
  by (simp add: page_addr_def)

lemma page_map_update:
  assumes "i \<le> NVIRTUAL" and "j \<le> NVIRTUAL"
  shows "map_page (page_addr i) x f (page_addr j) = (if i = j then x else f (page_addr j))"
  using same_page [OF assms] by (simp add: map_page_def)

section \<open>Moving on\<close>

lemma advance_settled:
  assumes "vm_advance m it (of_nat PAGESIZE) = Some it'" and "on_path m it" and "small_pages m (pageno (vpt it))"
    and "vva it = page_addr i" and "i < NVIRTUAL"
  shows "settled m it'" and "vva it' = page_addr (Suc i)" and "vpt it' = vpt it"
proof -
  have va: "vva it + of_nat PAGESIZE = page_addr (Suc i)" unfolding assms(4) by (rule page_next)
  have ne: "vva it + of_nat PAGESIZE \<noteq> vva it" by simp
  have c: "va_is_canonical (page_addr (Suc i))" using assms(5) by (intro page_canonical) simp
  have "real_find m it (page_addr (Suc i)) = Some it'"
    using assms(1) ne unfolding vm_advance_def vm_find_def va by simp
  then have f: "vmiter_at m (vpt it) (page_addr (Suc i)) = Some it'" using real_find_fresh [OF assms(2) c] by simp
  note w = vmiter_at_path [OF c f]
  show "settled m it'" by (rule settledI [OF w(1,4)]) (use assms(3) w(3) in simp)
  show "vva it' = page_addr (Suc i)" "vpt it' = vpt it" by (rule w)+
qed

section \<open>One page\<close>

definition shared_perm :: "u64 \<Rightarrow> u64" where
  "shared_perm perm = (if perm AND (PTE_P OR PTE_W) = PTE_P OR PTE_W then (perm AND NOT PTE_W) OR PTE_C else perm AND NOT PTE_W)"

definition is_user :: "(u64 \<times> u64) option \<Rightarrow> bool" where
  "is_user x = (case x of None \<Rightarrow> False | Some (pa, perm) \<Rightarrow> perm AND (PTE_P OR PTE_U) = PTE_P OR PTE_U)"

text \<open>What a page of the parent becomes in the parent and in the child.\<close>

definition parent_page :: "nat \<Rightarrow> (u64 \<times> u64) option \<Rightarrow> (u64 \<times> u64) option" where
  "parent_page i x = (if 256 \<le> i \<and> is_user x then map_option (\<lambda>(pa, perm). (pa, shared_perm perm)) x else x)"

definition child_page :: "nat \<Rightarrow> (u64 \<times> u64) option \<Rightarrow> (u64 \<times> u64) option" where
  "child_page i x = (if i < 256 then x else if is_user x then map_option (\<lambda>(pa, perm). (pa, shared_perm perm)) x else None)"

text \<open>The branch of the loop body.\<close>

definition fork_body :: "kconf \<Rightarrow> u64 \<Rightarrow> vmiter \<Rightarrow> vmiter \<Rightarrow> kstate \<Rightarrow> (bool \<times> vmiter \<times> vmiter \<times> kstate) option" where
  "fork_body C cpt pit it k =
         (if vva it < PROC_START_ADDR \<or> vva it = CONSOLE_ADDR then do {
            (r, it, k) \<leftarrow> vm_try_map C (vm_pa (mem k) pit) (vm_perm (mem k) pit) it k;
            if r < 0 then do { k \<leftarrow> free_everything cpt k; Some (False, pit, it, k) }
            else Some (True, pit, it, k) }
          else if vm_user (mem k) pit then do {
            let perm = vm_perm (mem k) pit AND NOT PTE_W;
            let perm = (if vm_writable (mem k) pit then perm OR PTE_C else perm);
            (r, it, k) \<leftarrow> vm_try_map C (vm_pa (mem k) pit) perm it k;
            if r < 0 then do { k \<leftarrow> free_everything cpt k; Some (False, pit, it, k) }
            else do {
              (r, pit, k) \<leftarrow> vm_try_map C (vm_pa (mem k) pit) perm pit k;
              assert_ok (r = 0);
              let n = pageno (vm_pa (mem k) pit);
              assert_ok (n < NPAGES);
              Some (True, pit, it, k\<lparr>refcount := (refcount k)(n := refcount k n + 1)\<rparr>) } }
          else Some (True, pit, it, k))"

lemma fork_loop_eq:
  "fork_loop C cpt pit it k = (if vva pit < MEMSIZE_VIRTUAL then do {
       (ok, pit, it, k) \<leftarrow> fork_body C cpt pit it k;
       if \<not> ok then Some (False, k) else do {
         pit \<leftarrow> vm_advance (mem k) pit (of_nat PAGESIZE);
         it \<leftarrow> vm_advance (mem k) it (of_nat PAGESIZE);
         fork_loop C cpt pit it k } }
     else Some (True, k))"
  unfolding fork_body_def by (subst fork_loop.simps) (rule refl)

section \<open>Permissions of a shared page\<close>

lemma bit_PTE_P: "bit PTE_P n \<longleftrightarrow> n = 0"
  by (simp add: PTE_P_def bit_1_iff)

lemma bit_PTE_C: "bit PTE_C n \<longleftrightarrow> n = 9"
proof -
  have e: "PTE_C = push_bit 9 1" by (simp add: PTE_C_def)
  show ?thesis unfolding e bit_push_bit_iff bit_1_iff by auto
qed

lemma shared_perm_bits:
  "bit (shared_perm perm) n \<longleftrightarrow> bit perm n \<and> n \<noteq> 1 \<or> n = 9 \<and> bit perm 0 \<and> bit perm 1"
proof -
  have w: "perm AND (PTE_P OR PTE_W) = PTE_P OR PTE_W \<longleftrightarrow> bit perm 0 \<and> bit perm 1"
  proof
    assume e: "perm AND (PTE_P OR PTE_W) = PTE_P OR PTE_W"
    have "bit (perm AND (PTE_P OR PTE_W)) i" if "i = 0 \<or> i = 1" for i
      unfolding e bit_or_iff bit_PTE_P bit_PTE_W by (rule that)
    then show "bit perm 0 \<and> bit perm 1" unfolding bit_and_iff by blast
  next
    assume b: "bit perm 0 \<and> bit perm 1"
    show "perm AND (PTE_P OR PTE_W) = PTE_P OR PTE_W"
      by (rule bit_word_eqI) (use b in \<open>auto simp only: bit_and_iff bit_or_iff bit_PTE_P bit_PTE_W\<close>)
  qed
  have l: "n < LENGTH(64)" if "bit perm n" using that by (rule bit_imp_le_length)
  show ?thesis
    using l by (cases "bit perm 0 \<and> bit perm 1")
      (auto simp only: shared_perm_def w bit_or_iff bit_and_iff bit_not_iff bit_PTE_W bit_PTE_C possible_bit_word if_True if_False simp_thms)
qed

lemma shared_perm_facts:
  assumes "perm AND 0xFFF = perm" and "perm AND PTE_P \<noteq> 0"
  shows "shared_perm perm AND 0xFFF = shared_perm perm" and "shared_perm perm AND PTE_P \<noteq> 0" and "shared_perm perm AND PTE_W = 0"
    and "shared_perm perm \<noteq> 0"
proof -
  have l: "n < 12" if "bit perm n" for n
  proof -
    have "bit (perm AND 0xFFF) n" unfolding assms(1) by (rule that)
    then show ?thesis unfolding bit_and_iff bit_mask12 by blast
  qed
  show "shared_perm perm AND 0xFFF = shared_perm perm"
    by (rule bit_word_eqI) (use l in \<open>auto simp only: bit_and_iff bit_mask12 shared_perm_bits\<close>)
  show p: "shared_perm perm AND PTE_P \<noteq> 0" using assms(2) by (simp add: has_bits shared_perm_bits)
  then show "shared_perm perm \<noteq> 0" by auto
  show "shared_perm perm AND PTE_W = 0" using has_bits(1) [of "shared_perm perm"] by (simp add: shared_perm_bits)
qed

lemma shared_allowed:
  assumes "perm AND vp = perm"
  shows "shared_perm perm AND NOT vp AND (PTE_P OR PTE_W OR PTE_U) = 0"
proof (rule bit_word_eqI)
  fix n
  have v: "bit vp i" if "bit perm i" for i using that assms by (metis bit_and_iff)
  have "bit vp n" if "bit (shared_perm perm) n" "n < 3" using that v unfolding shared_perm_bits by auto
  then show "bit (shared_perm perm AND NOT vp AND (PTE_P OR PTE_W OR PTE_U)) n = bit (0 :: u64) n"
    unfolding bit_and_iff bit_not_iff bit_pwu by auto
qed

lemma initial_allowed: "perm AND NOT initial_perm AND (PTE_P OR PTE_W OR PTE_U) = 0"
proof (rule bit_word_eqI)
  fix n
  show "bit (perm AND NOT initial_perm AND (PTE_P OR PTE_W OR PTE_U)) n = bit (0 :: u64) n"
    unfolding bit_and_iff bit_not_iff bit_pwu initial_perm_def bit_mask12 by auto
qed

section \<open>The tables a process needs\<close>

text \<open>Below the root, the addresses of processes need four tables: one of level 2, one of level 1
  and two of level 0, one for each 512 pages.\<close>

definition node_addr :: "nat \<times> nat \<Rightarrow> u64" where
  "node_addr x = page_addr (512 * snd x)"

definition path_nodes :: "(nat \<times> nat) set" where
  "path_nodes = {(1, 0), (2, 0), (3, 0), (3, 1)}"

definition missing :: "pmem \<Rightarrow> nat \<Rightarrow> (nat \<times> nat) set" where
  "missing m r = {x \<in> path_nodes. table_at m r (node_addr x) (fst x) = None}"

definition node :: "nat \<Rightarrow> nat \<Rightarrow> nat \<times> nat" where
  "node i d = (d, if d = 3 then i div 512 else 0)"

lemma node_in: "i < NVIRTUAL \<Longrightarrow> 0 < d \<Longrightarrow> d \<le> 3 \<Longrightarrow> node i d \<in> path_nodes"
proof -
  assume i: "i < NVIRTUAL" and d: "0 < d" "d \<le> 3"
  from d consider "d = 1" | "d = 2" | "d = 3" by linarith
  then show ?thesis
  proof cases
    case 3
    have "i div 512 < 2" using i by (simp add: less_mult_imp_div_less)
    then have "i div 512 = 0 \<or> i div 512 = 1" by linarith
    then show ?thesis using 3 by (auto simp: node_def path_nodes_def)
  qed (simp_all add: node_def path_nodes_def)
qed

lemma high_index: "i \<le> NVIRTUAL \<Longrightarrow> 2 \<le> l \<Longrightarrow> pageindex (page_addr i) l = 0"
proof -
  assume i: "i \<le> NVIRTUAL" and l: "2 \<le> l"
  have "unat (page_addr i) < 2 ^ 30" using i unat_page_addr [of i] by simp
  moreover have "(2 :: nat) ^ 30 \<le> 2 ^ (12 + l * 9)" by (rule power_increasing) (use l in simp_all)
  ultimately have "unat (page_addr i) div 2 ^ (12 + l * 9) = 0" by (intro div_less) linarith
  then show ?thesis unfolding pageindex_div by simp
qed

lemma node_table:
  assumes "i < NVIRTUAL" and "d \<le> 3"
  shows "table_at m r (node_addr (node i d)) d = table_at m r (page_addr i) d"
proof (rule table_at_same_path)
  have le: "i \<le> NVIRTUAL" "512 * snd (node i d) \<le> NVIRTUAL" using assms(1) by (auto simp: node_def)
  show "same_path d (node_addr (node i d)) (page_addr i)"
    unfolding same_path_def node_addr_def
  proof (intro allI impI)
    fix j
    assume j: "j < d"
    show "pageindex (page_addr (512 * snd (node i d))) (3 - j) = pageindex (page_addr i) (3 - j)"
    proof (cases "j = 2")
      case True
      then have "d = 3" using j assms(2) by simp
      then have e: "512 * snd (node i d) div 512 = i div 512" by (simp add: node_def)
      have "pageindex (page_addr (512 * snd (node i d))) 1 = pageindex (page_addr i) 1"
        unfolding page_index(2) [OF le(1)] page_index(2) [OF le(2)] by (rule e)
      then show ?thesis using True by simp
    next
      case False
      then have "2 \<le> 3 - j" using j assms(2) by simp
      then show ?thesis using high_index [OF le(1)] high_index [OF le(2)] by simp
    qed
  qed
qed

lemma missing_finite [simp]: "finite (missing m r)" "finite path_nodes"
  by (simp_all add: missing_def path_nodes_def)

text \<open>The tables missing on the path of an iterator.\<close>

lemma settled_missing:
  assumes "settled m it" and "vva it = page_addr i" and "i < NVIRTUAL" and "3 - vlevel it < d" and "d \<le> 3"
  shows "node i d \<in> missing m (pageno (vpt it))"
proof -
  have o: "on_path m it" using assms(1) by (simp add: settled_def)
  obtain p where p: "vpep it = Some (p, pageindex (vva it) (vlevel it))" "vlevel it \<le> 3"
      "table_at m (pageno (vpt it)) (vva it) (3 - vlevel it) = Some (p, vperm it)" using o by (auto simp: on_path_def)
  have l: "3 - (3 - vlevel it) = vlevel it" "Suc (3 - vlevel it) \<le> d" "vlevel it \<noteq> 0" using p(2) assms(4,5) by simp_all
  have "entry m it AND PTE_P = 0" using assms(1) l(3) by (simp add: settled_def)
  then have "\<not> is_table (entry m it)" by (rule not_present_no_table)
  then have "table_at m (pageno (vpt it)) (vva it) (Suc (3 - vlevel it)) = None"
    using p l(1) by (simp add: table_at.simps(2) entry_def Let_def)
  then have "table_at m (pageno (vpt it)) (vva it) d = None" by (rule table_at_down [OF _ l(2)])
  then show ?thesis
    using node_in [OF assms(3) _ assms(5)] node_table [OF assms(3,5)] assms(2,4) by (simp add: missing_def) (simp add: node_def)
qed

lemma missing_step:
  assumes "settled m it" and "vva it = page_addr i" and "i < NVIRTUAL" and "grows m m' (pageno (vpt it))"
    and "vlevel it \<noteq> 0 \<longrightarrow> table_at m' (pageno (vpt it)) (page_addr i) 3 \<noteq> None"
  shows "card (missing m' (pageno (vpt it))) + vlevel it \<le> card (missing m (pageno (vpt it)))"
proof -
  define r where "r = pageno (vpt it)"
  define N where "N = node i ` {3 - vlevel it <.. 3}"
  have N: "N \<subseteq> missing m r" using settled_missing [OF assms(1-3)] by (auto simp: N_def r_def)
  have l: "vlevel it \<le> 3" using assms(1) by (auto simp: settled_def on_path_def)
  have "inj_on (node i) {3 - vlevel it <.. 3}" by (auto simp: inj_on_def node_def)
  then have c: "card N = vlevel it" using l by (simp add: N_def card_image)
  have "missing m' r \<subseteq> missing m r - N"
  proof
    fix x
    assume x: "x \<in> missing m' r"
    have f: "fst x \<le> 3" using x by (auto simp: missing_def path_nodes_def)
    have "table_at m r (node_addr x) (fst x) = None"
    proof (rule ccontr)
      assume "table_at m r (node_addr x) (fst x) \<noteq> None"
      then have "table_at m' r (node_addr x) (fst x) \<noteq> None" using grows_some [OF assms(4) f] unfolding r_def by blast
      then show False using x by (simp add: missing_def)
    qed
    moreover have "x \<notin> N"
    proof
      assume "x \<in> N"
      then obtain d where d: "x = node i d" "3 - vlevel it < d" "d \<le> 3" by (auto simp: N_def)
      have "vlevel it \<noteq> 0" using d by auto
      then have "table_at m' r (page_addr i) 3 \<noteq> None" using assms(5) by (simp add: r_def)
      then have "table_at m' r (page_addr i) d \<noteq> None" by (rule contrapos_nn) (rule table_at_down [OF _ d(3)])
      moreover have "table_at m' r (node_addr x) (fst x) = None" using x unfolding missing_def by blast
      moreover have "fst x = d" by (simp add: d(1) node_def)
      ultimately show False using node_table [OF assms(3) d(3), of m' r] unfolding d(1) by simp
    qed
    ultimately show "x \<in> missing m r - N" using x by (simp add: missing_def)
  qed
  then have "card (missing m' r) \<le> card (missing m r - N)" by (intro card_mono) simp_all
  also have "\<dots> = card (missing m r) - vlevel it" using N c by (simp add: card_Diff_subset finite_subset [OF N])
  finally have "card (missing m' r) \<le> card (missing m r) - vlevel it" .
  moreover have "vlevel it \<le> card (missing m r)" using card_mono [OF _ N] c by simp
  ultimately show ?thesis unfolding r_def by linarith
qed

lemma level_missing:
  assumes "settled m it" and "vva it = page_addr i" and "i < NVIRTUAL"
  shows "vlevel it \<le> card (missing m (pageno (vpt it)))"
proof -
  define N where "N = node i ` {3 - vlevel it <.. 3}"
  have N: "N \<subseteq> missing m (pageno (vpt it))" using settled_missing [OF assms] by (auto simp: N_def)
  have l: "vlevel it \<le> 3" using assms(1) by (auto simp: settled_def on_path_def)
  have "inj_on (node i) {3 - vlevel it <.. 3}" by (auto simp: inj_on_def node_def)
  then have "card N = vlevel it" using l by (simp add: N_def card_image)
  then show ?thesis using card_mono [OF _ N] by simp
qed

section \<open>The state of the loop\<close>

text \<open>The trees \<open>r\<close> of the parent and \<open>c\<close> of the child, with the mappings \<open>H\<close> and \<open>G\<close> of
  their pages and \<open>S\<close> new references to each page, reached from the state \<open>k0\<close>.\<close>

record fork_case =
  parent_root :: nat
  child_root :: nat
  child_map :: "nat \<Rightarrow> (u64 \<times> u64) option"
  parent_map :: "nat \<Rightarrow> (u64 \<times> u64) option"
  new_refs :: "nat \<Rightarrow> nat"

definition apart :: "fork_case \<Rightarrow> kstate \<Rightarrow> bool" where
  "apart f k \<longleftrightarrow> owned k (parent_root f) \<and> owned k (child_root f)
     \<and> tables (mem k) (parent_root f) \<inter> tables (mem k) (child_root f) = {}
     \<and> low (mem k) (parent_root f) \<and> low (mem k) (child_root f) \<and> open_path (mem k) (child_root f)"

definition fork_maps :: "fork_case \<Rightarrow> kstate \<Rightarrow> bool" where
  "fork_maps f k \<longleftrightarrow> (\<forall>j < NVIRTUAL. page_map (mem k) (child_root f) j = child_map f j \<and> page_map (mem k) (parent_root f) j = parent_map f j)"

definition kept :: "fork_case \<Rightarrow> kstate \<Rightarrow> kstate \<Rightarrow> bool" where
  "kept f k0 k \<longleftrightarrow> same_procs k0 k
     \<and> (\<forall>n. refcount k0 n \<noteq> 0 \<longrightarrow> unat (refcount k n) = unat (refcount k0 n) + new_refs f n)
     \<and> (\<forall>n. refcount k0 n \<noteq> 0 \<longrightarrow> n \<notin> tables (mem k0) (parent_root f) \<longrightarrow> mem k n = mem k0 n)
     \<and> (\<forall>t \<in> tables (mem k) (parent_root f). t \<in> tables (mem k0) (parent_root f) \<or> refcount k0 t = 0)
     \<and> (\<forall>t \<in> tables (mem k) (child_root f). refcount k0 t = 0)"

definition at_page :: "nat \<Rightarrow> nat \<Rightarrow> vmiter \<Rightarrow> kstate \<Rightarrow> bool" where
  "at_page r i it k \<longleftrightarrow> settled (mem k) it \<and> vva it = page_addr i \<and> pageno (vpt it) = r"

definition enough :: "kconf \<Rightarrow> fork_case \<Rightarrow> kstate \<Rightarrow> bool" where
  "enough C f k \<longleftrightarrow> card (missing (mem k) (child_root f)) \<le> free_count C k"

definition fork_st :: "kconf \<Rightarrow> kstate \<Rightarrow> fork_case \<Rightarrow> nat \<Rightarrow> vmiter \<Rightarrow> vmiter \<Rightarrow> kstate \<Rightarrow> bool" where
  "fork_st C k0 f i pit it k \<longleftrightarrow> apart f k \<and> fork_maps f k \<and> kept f k0 k \<and> enough C f k
     \<and> at_page (parent_root f) i pit k \<and> at_page (child_root f) i it k"

lemma kept_refs: "kept f k0 k \<Longrightarrow> refcount k0 n \<noteq> 0 \<Longrightarrow> refcount k n \<noteq> 0"
proof -
  assume k: "kept f k0 k" and n: "refcount k0 n \<noteq> 0"
  have "unat (refcount k n) = unat (refcount k0 n) + new_refs f n" using k n by (simp add: kept_def)
  moreover have "unat (refcount k0 n) \<noteq> 0" using n by (simp add: unat_eq_0)
  ultimately show "refcount k n \<noteq> 0" by auto
qed

text \<open>Moving both iterators on.\<close>

lemma at_page_next:
  assumes "at_page r i it k" and "owned k r" and "low (mem k) r" and "i < NVIRTUAL"
  obtains it' where "vm_advance (mem k) it (of_nat PAGESIZE) = Some it'" and "at_page r (Suc i) it' k"
proof -
  have a: "on_path (mem k) it" "vva it = page_addr i" "pageno (vpt it) = r" using assms(1) by (simp_all add: at_page_def settled_def)
  have "va_is_canonical (vva it + of_nat PAGESIZE)" unfolding a(2) page_next by (rule page_canonical) (use assms(4) in simp)
  moreover have "low (mem k) (pageno (vpt it))" using assms(3) a(3) by simp
  ultimately obtain it' where it': "vm_advance (mem k) it (of_nat PAGESIZE) = Some it'"
    by (elim advance_total [OF a(1), rotated]) simp_all
  have "small_pages (mem k) (pageno (vpt it))" using assms(2) a(3) by (simp add: owned_def)
  from advance_settled [OF it' a(1) this a(2) assms(4)] have "at_page r (Suc i) it' k" using a(3) by (simp add: at_page_def)
  then show ?thesis using that it' by blast
qed

text \<open>Storing a reference count.\<close>

lemma fork_refs:
  assumes "fork_st C k0 f i pit it k" and "refcount k0 n \<noteq> 0" and "unat (refcount k0 n) + new_refs f n < 255"
  shows "fork_st C k0 (f\<lparr>new_refs := (new_refs f)(n := new_refs f n + 1)\<rparr>) i pit it (k\<lparr>refcount := (refcount k)(n := refcount k n + 1)\<rparr>)"
proof -
  let ?k = "k\<lparr>refcount := (refcount k)(n := refcount k n + 1)\<rparr>"
  have k: "kept f k0 k" using assms(1) by (simp add: fork_st_def)
  have u: "unat (refcount k n) = unat (refcount k0 n) + new_refs f n" using k assms(2) by (simp add: kept_def)
  then have s: "unat (refcount k n + 1) = unat (refcount k n) + 1" using assms(3) by (simp add: unat_word_ariths)
  have nz: "refcount k n \<noteq> 0" by (rule kept_refs [OF k assms(2)])
  have s0: "refcount k n + 1 \<noteq> 0" using s by (metis Suc_eq_plus1 nat.distinct(1) unat_0)
  have own: "owned ?k r = owned k r" for r using nz s0 by (auto simp: owned_def)
  have "free_count C ?k = free_count C k" by (rule free_count_same) (use nz s0 in simp)
  then show ?thesis
    using assms(1) k u s own
    by (simp add: fork_st_def apart_def fork_maps_def kept_def enough_def at_page_def same_procs_def)
qed

end
