(* ===== verification/KSpace.thy ===== *)
theory KSpace
  imports KFork
begin

text \<open>
  The address spaces of all processes together: which physical pages they reach, and how that
  agrees with the reference counts. An address space is seen here as a set of table pages and
  a mapping of pages of addresses; the lemmas say how the elementary changes (taking a page,
  linking a table, mapping, sharing, releasing) keep the agreement. Theory KGuard shows that
  the kernel's operations are made of these changes.
\<close>

section \<open>Pages of addresses\<close>

definition page_va :: "u64 \<Rightarrow> bool" where
  "page_va va \<longleftrightarrow> va_is_canonical va \<and> unat va mod PAGESIZE = 0"

lemma digits4:
  assumes "a mod 512 = b mod 512" and "a div 512 mod 512 = b div 512 mod 512"
    and "a div 512 div 512 mod 512 = b div 512 div 512 mod 512"
    and "a div 512 div 512 div 512 mod 512 = b div 512 div 512 div 512 mod (512 :: nat)"
  shows "a mod 2 ^ 36 = b mod 2 ^ 36"
proof -
  have s: "x mod (512 * y) = 512 * (x div 512 mod y) + x mod 512" for x y :: nat by (rule mod_mult2_eq)
  have e: "(2 :: nat) ^ 36 = 512 * (512 * (512 * 512))" by simp
  show ?thesis unfolding e s by (simp only: assms)
qed

lemma page_va_same:
  assumes "page_va a" and "page_va b"
  shows "same_path 4 a b \<longleftrightarrow> a = b"
proof
  assume p: "same_path 4 a b"
  define x y where "x = unat a div 4096" and "y = unat b div 4096"
  have i: "pageindex a l = pageindex b l" if "l \<le> 3" for l
  proof -
    have "3 - (3 - l) = l" using that by simp
    then show ?thesis using p [unfolded same_path_def, rule_format, of "3 - l"] that by simp
  qed
  have d: "unat c div 2 ^ (12 + 9 * l) = unat c div 4096 div 512 ^ l" for c :: u64 and l
  proof -
    have "(2 :: nat) ^ (12 + 9 * l) = 4096 * 512 ^ l" by (simp add: power_add power_mult)
    then show ?thesis by (simp only: div_mult2_eq)
  qed
  have j: "x div 512 ^ l mod 512 = y div 512 ^ l mod 512" if "l \<le> 3" for l
    using i [OF that] unfolding pageindex_div x_def y_def by (simp only: mult.commute [of _ 9] d)
  have "x mod 2 ^ 36 = y mod 2 ^ 36"
    by (rule digits4) (use j [of 0] j [of 1] j [of 2] j [of 3] in \<open>simp_all add: power2_eq_square power3_eq_cube div_mult2_eq [symmetric]\<close>)
  moreover have xy: "unat a = 4096 * x" "unat b = 4096 * y" using assms by (auto simp: x_def y_def page_va_def)
  ultimately have m: "unat a mod 2 ^ 48 = unat b mod 2 ^ 48"
    using mult_mod_right [of 4096 x "2 ^ 36"] mult_mod_right [of 4096 y "2 ^ 36"] by simp
  have c: "unat c < 2 ^ 47 \<or> unat c \<ge> 2 ^ 64 - 2 ^ 47 \<and> unat c < 2 ^ 64" if "page_va c" for c
  proof -
    have "unat c < 2 ^ 64" using unsigned_less [of c] by simp
    then show ?thesis using that by (auto simp: page_va_def va_is_canonical_def word_le_nat_alt)
  qed
  define f :: "nat \<Rightarrow> nat" where "f m = (if m < 2 ^ 47 then m else m + (2 ^ 64 - 2 ^ 48))" for m
  have r: "unat c = f (unat c mod 2 ^ 48)" if "page_va c" for c
    using c [OF that]
  proof
    assume h: "unat c \<ge> 2 ^ 64 - 2 ^ 47 \<and> unat c < 2 ^ 64"
    then have "unat c = 2 ^ 48 * 65535 + (unat c - (2 ^ 64 - 2 ^ 48))" by simp
    then have "unat c mod 2 ^ 48 = (unat c - (2 ^ 64 - 2 ^ 48)) mod 2 ^ 48" by (metis mod_mult_self4)
    also have "\<dots> = unat c - (2 ^ 64 - 2 ^ 48)" by (rule mod_less) (subst less_diff_conv2; use h in simp)
    finally have e: "unat c mod 2 ^ 48 = unat c - (2 ^ 64 - 2 ^ 48)" .
    have "\<not> unat c - (2 ^ 64 - 2 ^ 48) < 2 ^ 47" by (subst less_diff_conv2; use h in simp)
    then show ?thesis unfolding e f_def using h by simp
  qed (simp add: f_def)
  have "unat a = f (unat b mod 2 ^ 48)" using r [OF assms(1)] unfolding m .
  also have "\<dots> = unat b" by (rule r [OF assms(2), symmetric])
  finally show "a = b" by (simp only: word_unat_eq_iff)
qed simp

lemma map_page_at: "page_va va \<Longrightarrow> page_va va' \<Longrightarrow> map_page va x f va' = (if va' = va then x else f va')"
  by (auto simp: map_page_def page_va_same)

section \<open>Address spaces and reference counts\<close>

type_synonym space = "u64 \<Rightarrow> (u64 \<times> u64) option"

text \<open>The pages that the allocator manages; the page \<open>n\<close> at the address \<open>va\<close> of a process; a
  mapping that other processes may have too.\<close>

definition user_page :: "kconf \<Rightarrow> nat \<Rightarrow> bool" where
  "user_page C n \<longleftrightarrow> n < NPAGES \<and> allocatable_physical_address C (page_addr n)"

definition maps :: "(nat \<Rightarrow> space) \<Rightarrow> nat \<Rightarrow> u64 \<Rightarrow> nat \<Rightarrow> u64 \<Rightarrow> bool" where
  "maps F r va n perm \<longleftrightarrow> n < NPAGES \<and> page_va va \<and> PROC_START_ADDR \<le> va \<and> F r va = Some (page_addr n, perm)"

definition share_ok :: "u64 \<Rightarrow> u64 \<Rightarrow> bool" where
  "share_ok va perm \<longleftrightarrow> perm AND PTE_U \<noteq> 0 \<and> perm AND PTE_W = 0 \<and> va < MEMSIZE_VIRTUAL"

text \<open>The address spaces that map a page. Mappings in \<open>X\<close> are not counted: they are about to be
  counted, or have been released.\<close>

definition holders :: "nat set \<Rightarrow> (nat \<times> u64) set \<Rightarrow> (nat \<Rightarrow> space) \<Rightarrow> nat \<Rightarrow> nat set" where
  "holders R X F n = {r \<in> R. \<exists>va perm. (r, va) \<notin> X \<and> maps F r va n perm}"

text \<open>The address spaces are \<open>R\<close>, with tables \<open>T\<close> and mappings \<open>F\<close>. Tables are allocated pages
  of their own; below the process addresses only the console is accessible to the user; every
  mapped page is an allocatable page, no table, mapped once in its address space and, unless
  it is shared read-only, nowhere else; a page is counted once for every address space that
  maps it, or is lost with a count of one.\<close>

definition space_inv :: "kconf \<Rightarrow> nat set \<Rightarrow> (nat \<times> u64) set \<Rightarrow> (nat \<Rightarrow> nat set) \<Rightarrow> (nat \<Rightarrow> space) \<Rightarrow> (nat \<Rightarrow> u8) \<Rightarrow> bool" where
  "space_inv C R X T F rc \<longleftrightarrow> finite R \<and> card R \<le> PID_MAX
     \<and> (\<forall>r \<in> R. \<forall>t \<in> T r. user_page C t \<and> rc t = 1)
     \<and> (\<forall>r \<in> R. \<forall>s \<in> R. r \<noteq> s \<longrightarrow> T r \<inter> T s = {})
     \<and> (\<forall>r \<in> R. \<forall>va pa perm. page_va va \<longrightarrow> va < PROC_START_ADDR \<longrightarrow> F r va = Some (pa, perm) \<longrightarrow> perm AND PTE_U \<noteq> 0
          \<longrightarrow> va = CONSOLE_ADDR \<and> pa = CONSOLE_ADDR)
     \<and> (\<forall>r \<in> R. \<forall>va pa perm. page_va va \<longrightarrow> PROC_START_ADDR \<le> va \<longrightarrow> F r va = Some (pa, perm)
          \<longrightarrow> (\<exists>n. pa = page_addr n \<and> user_page C n \<and> (\<forall>s \<in> R. n \<notin> T s)))
     \<and> (\<forall>r \<in> R. \<forall>va n perm. maps F r va n perm \<longrightarrow> (r, va) \<in> X \<or> share_ok va perm \<or> rc n = 1)
     \<and> (\<forall>r \<in> R. \<forall>va va' n perm perm'. maps F r va n perm \<longrightarrow> maps F r va' n perm' \<longrightarrow> va = va')
     \<and> (\<forall>n. user_page C n \<longrightarrow> card (holders R X F n) \<le> unat (rc n))
     \<and> (\<forall>n. user_page C n \<longrightarrow> unat (rc n) \<le> max 1 (card (holders R X F n)))
     \<and> (\<forall>n. \<not> user_page C n \<longrightarrow> rc n = 0)"

lemma space_invD:
  assumes "space_inv C R X T F rc"
  shows "finite R" and "card R \<le> PID_MAX"
    and "r \<in> R \<Longrightarrow> t \<in> T r \<Longrightarrow> user_page C t" and "r \<in> R \<Longrightarrow> t \<in> T r \<Longrightarrow> rc t = 1"
    and "r \<in> R \<Longrightarrow> s \<in> R \<Longrightarrow> r \<noteq> s \<Longrightarrow> T r \<inter> T s = {}"
    and "r \<in> R \<Longrightarrow> page_va va \<Longrightarrow> va < PROC_START_ADDR \<Longrightarrow> F r va = Some (pa, perm) \<Longrightarrow> perm AND PTE_U \<noteq> 0
      \<Longrightarrow> va = CONSOLE_ADDR \<and> pa = CONSOLE_ADDR"
    and "r \<in> R \<Longrightarrow> page_va va \<Longrightarrow> PROC_START_ADDR \<le> va \<Longrightarrow> F r va = Some (pa, perm)
      \<Longrightarrow> \<exists>n. pa = page_addr n \<and> user_page C n \<and> (\<forall>s \<in> R. n \<notin> T s)"
    and "r \<in> R \<Longrightarrow> maps F r va n perm \<Longrightarrow> (r, va) \<in> X \<or> share_ok va perm \<or> rc n = 1"
    and "r \<in> R \<Longrightarrow> maps F r va n perm \<Longrightarrow> maps F r va' n perm' \<Longrightarrow> va = va'"
    and "user_page C n \<Longrightarrow> card (holders R X F n) \<le> unat (rc n) \<and> unat (rc n) \<le> max 1 (card (holders R X F n))"
    and "\<not> user_page C n \<Longrightarrow> rc n = 0"
proof -
  note c = assms [unfolded space_inv_def]
  note c2 = conjunct2 [OF c]
  note c3 = conjunct2 [OF c2]
  note c4 = conjunct2 [OF c3]
  note c5 = conjunct2 [OF c4]
  note c6 = conjunct2 [OF c5]
  note c7 = conjunct2 [OF c6]
  note c8 = conjunct2 [OF c7]
  note c9 = conjunct2 [OF c8]
  note c10 = conjunct2 [OF c9]
  show "finite R" by (rule conjunct1 [OF c])
  show "card R \<le> PID_MAX" by (rule conjunct1 [OF c2])
  show "r \<in> R \<Longrightarrow> t \<in> T r \<Longrightarrow> user_page C t" "r \<in> R \<Longrightarrow> t \<in> T r \<Longrightarrow> rc t = 1" using conjunct1 [OF c3] by blast+
  show "r \<in> R \<Longrightarrow> s \<in> R \<Longrightarrow> r \<noteq> s \<Longrightarrow> T r \<inter> T s = {}" using conjunct1 [OF c4] by blast
  show "r \<in> R \<Longrightarrow> page_va va \<Longrightarrow> va < PROC_START_ADDR \<Longrightarrow> F r va = Some (pa, perm) \<Longrightarrow> perm AND PTE_U \<noteq> 0
      \<Longrightarrow> va = CONSOLE_ADDR \<and> pa = CONSOLE_ADDR" using conjunct1 [OF c5] by blast
  show "r \<in> R \<Longrightarrow> page_va va \<Longrightarrow> PROC_START_ADDR \<le> va \<Longrightarrow> F r va = Some (pa, perm)
      \<Longrightarrow> \<exists>n. pa = page_addr n \<and> user_page C n \<and> (\<forall>s \<in> R. n \<notin> T s)" using conjunct1 [OF c6] by blast
  show "r \<in> R \<Longrightarrow> maps F r va n perm \<Longrightarrow> (r, va) \<in> X \<or> share_ok va perm \<or> rc n = 1" using conjunct1 [OF c7] by blast
  show "r \<in> R \<Longrightarrow> maps F r va n perm \<Longrightarrow> maps F r va' n perm' \<Longrightarrow> va = va'" using conjunct1 [OF c8] by blast
  show "user_page C n \<Longrightarrow> card (holders R X F n) \<le> unat (rc n) \<and> unat (rc n) \<le> max 1 (card (holders R X F n))"
    using conjunct1 [OF c9] conjunct1 [OF c10] by blast
  show "\<not> user_page C n \<Longrightarrow> rc n = 0" using conjunct2 [OF c10] by blast
qed

lemma space_invI:
  assumes "finite R" and "card R \<le> PID_MAX"
    and "\<And>r t. r \<in> R \<Longrightarrow> t \<in> T r \<Longrightarrow> user_page C t"
    and "\<And>r t. r \<in> R \<Longrightarrow> t \<in> T r \<Longrightarrow> rc t = 1"
    and "\<And>r s. r \<in> R \<Longrightarrow> s \<in> R \<Longrightarrow> r \<noteq> s \<Longrightarrow> T r \<inter> T s = {}"
    and "\<And>r va pa perm. r \<in> R \<Longrightarrow> page_va va \<Longrightarrow> va < PROC_START_ADDR \<Longrightarrow> F r va = Some (pa, perm) \<Longrightarrow> perm AND PTE_U \<noteq> 0
      \<Longrightarrow> va = CONSOLE_ADDR \<and> pa = CONSOLE_ADDR"
    and "\<And>r va pa perm. r \<in> R \<Longrightarrow> page_va va \<Longrightarrow> PROC_START_ADDR \<le> va \<Longrightarrow> F r va = Some (pa, perm)
      \<Longrightarrow> \<exists>n. pa = page_addr n \<and> user_page C n \<and> (\<forall>s \<in> R. n \<notin> T s)"
    and "\<And>r va n perm. r \<in> R \<Longrightarrow> maps F r va n perm \<Longrightarrow> (r, va) \<in> X \<or> share_ok va perm \<or> rc n = 1"
    and "\<And>r va va' n perm perm'. r \<in> R \<Longrightarrow> maps F r va n perm \<Longrightarrow> maps F r va' n perm' \<Longrightarrow> va = va'"
    and "\<And>n. user_page C n \<Longrightarrow> card (holders R X F n) \<le> unat (rc n) \<and> unat (rc n) \<le> max 1 (card (holders R X F n))"
    and "\<And>n. \<not> user_page C n \<Longrightarrow> rc n = 0"
  shows "space_inv C R X T F rc"
proof -
  have "\<forall>r \<in> R. \<forall>t \<in> T r. user_page C t \<and> rc t = 1" using assms(3,4) by blast
  moreover have "\<forall>r \<in> R. \<forall>s \<in> R. r \<noteq> s \<longrightarrow> T r \<inter> T s = {}" using assms(5) by blast
  moreover have "\<forall>r \<in> R. \<forall>va pa perm. page_va va \<longrightarrow> va < PROC_START_ADDR \<longrightarrow> F r va = Some (pa, perm) \<longrightarrow> perm AND PTE_U \<noteq> 0
          \<longrightarrow> va = CONSOLE_ADDR \<and> pa = CONSOLE_ADDR" using assms(6) by blast
  moreover have "\<forall>r \<in> R. \<forall>va pa perm. page_va va \<longrightarrow> PROC_START_ADDR \<le> va \<longrightarrow> F r va = Some (pa, perm)
          \<longrightarrow> (\<exists>n. pa = page_addr n \<and> user_page C n \<and> (\<forall>s \<in> R. n \<notin> T s))" using assms(7) by blast
  moreover have "\<forall>r \<in> R. \<forall>va n perm. maps F r va n perm \<longrightarrow> (r, va) \<in> X \<or> share_ok va perm \<or> rc n = 1" using assms(8) by blast
  moreover have "\<forall>r \<in> R. \<forall>va va' n perm perm'. maps F r va n perm \<longrightarrow> maps F r va' n perm' \<longrightarrow> va = va'" using assms(9) by blast
  moreover have "\<forall>n. user_page C n \<longrightarrow> card (holders R X F n) \<le> unat (rc n)" using assms(10) by blast
  moreover have "\<forall>n. user_page C n \<longrightarrow> unat (rc n) \<le> max 1 (card (holders R X F n))" using assms(10) by blast
  moreover have "\<forall>n. \<not> user_page C n \<longrightarrow> rc n = 0" using assms(11) by blast
  ultimately show ?thesis using assms(1,2) unfolding space_inv_def by (intro conjI)
qed

lemma user_page_less: "user_page C n \<Longrightarrow> n < NPAGES"
  by (simp add: user_page_def)

lemma page_addr_inj: "n < NPAGES \<Longrightarrow> m < NPAGES \<Longrightarrow> page_addr n = page_addr m \<longleftrightarrow> n = m"
proof
  assume l: "n < NPAGES" "m < NPAGES" and e: "page_addr n = page_addr m"
  have "pageno (page_addr n) = n" "pageno (page_addr m) = m" using l by simp_all
  then show "n = m" unfolding e by simp
qed simp

lemma finite_holders [simp]: "finite R \<Longrightarrow> finite (holders R X F n)"
  by (simp add: holders_def)

lemma holders_sub: "holders R X F n \<subseteq> R"
  by (auto simp: holders_def)

lemma maps_page:
  assumes "space_inv C R X T F rc" and "r \<in> R" and "maps F r va n perm"
  shows "user_page C n" and "s \<in> R \<Longrightarrow> n \<notin> T s"
proof -
  obtain n' where n': "page_addr n = page_addr n'" "user_page C n'" "\<forall>s \<in> R. n' \<notin> T s"
    using space_invD(7) [OF assms(1,2)] assms(3) unfolding maps_def by metis
  then have "n' = n" using page_addr_inj [of n n'] user_page_less assms(3) by (auto simp: maps_def)
  then show "user_page C n" "s \<in> R \<Longrightarrow> n \<notin> T s" using n' by auto
qed

lemma mapped_page:
  assumes "space_inv C R X T F rc" and "r \<in> R" and "page_va va" and "PROC_START_ADDR \<le> va" and "F r va = Some (pa, perm)"
  obtains n where "pa = page_addr n" and "maps F r va n perm"
proof -
  obtain n where "pa = page_addr n" "user_page C n" using space_invD(7) [OF assms] by blast
  then show ?thesis using that assms(3-5) user_page_less by (auto simp: maps_def)
qed

text \<open>A counted mapping keeps its page allocated.\<close>

lemma held_page:
  assumes "space_inv C R X T F rc" and "r \<in> R" and "maps F r va n perm" and "(r, va) \<notin> X"
  shows "rc n \<noteq> 0"
proof
  assume z: "rc n = 0"
  have "r \<in> holders R X F n" using assms(2-4) by (auto simp: holders_def)
  then have "0 < card (holders R X F n)" using space_invD(1) [OF assms(1)] by (auto simp: card_gt_0_iff)
  moreover have "card (holders R X F n) \<le> unat (rc n)" by (rule conjunct1 [OF space_invD(10) [OF assms(1) maps_page(1) [OF assms(1-3)]]])
  ultimately show False using z by simp
qed

text \<open>A page counted once has one holder.\<close>

lemma sole_holder:
  assumes "space_inv C R X T F rc" and "rc n = 1" and "r \<in> holders R X F n" and "s \<in> holders R X F n"
  shows "r = s"
proof (rule ccontr)
  assume ne: "r \<noteq> s"
  obtain va perm where "maps F r va n perm" "r \<in> R" using assms(3) by (auto simp: holders_def)
  then have u: "user_page C n" using maps_page [OF assms(1)] by blast
  have "card {r, s} \<le> card (holders R X F n)"
    by (rule card_mono) (use assms(3,4) space_invD(1) [OF assms(1)] in auto)
  then show False using ne space_invD(10) [OF assms(1) u] assms(2) by simp
qed

text \<open>An allocated page that nobody maps.\<close>

definition loose :: "kconf \<Rightarrow> nat set \<Rightarrow> (nat \<Rightarrow> nat set) \<Rightarrow> (nat \<Rightarrow> space) \<Rightarrow> (nat \<Rightarrow> u8) \<Rightarrow> nat \<Rightarrow> bool" where
  "loose C R T F rc n \<longleftrightarrow> user_page C n \<and> rc n = 1 \<and> (\<forall>s \<in> R. n \<notin> T s) \<and> (\<forall>s \<in> R. \<forall>va perm. \<not> maps F s va n perm)"

lemma loose_no_holders: "loose C R T F rc n \<Longrightarrow> holders R X F n = {}"
  by (auto simp: loose_def holders_def)

section \<open>Elementary changes\<close>

lemma holders_cong: "(\<And>r va n perm. r \<in> R \<Longrightarrow> maps F' r va n perm = maps F r va n perm) \<Longrightarrow> holders R X F' n = holders R X F n"
  unfolding holders_def by (intro Collect_cong conj_cong refl) simp

lemma space_cong:
  assumes "space_inv C R X T F rc" and "\<And>r. r \<in> R \<Longrightarrow> T' r = T r"
    and "\<And>r va. r \<in> R \<Longrightarrow> page_va va \<Longrightarrow> F' r va = F r va"
  shows "space_inv C R X T' F' rc"
proof -
  note i = space_invD [OF assms(1)]
  have m: "maps F' r va n perm = maps F r va n perm" if "r \<in> R" for r va n perm
    using assms(3) [OF that] by (auto simp: maps_def)
  have h: "holders R X F' n = holders R X F n" for n by (rule holders_cong) (rule m)
  show ?thesis
  proof (rule space_invI)
    fix r va pa perm
    assume r: "r \<in> R" "page_va va" "F' r va = Some (pa, perm)"
    then have f: "F r va = Some (pa, perm)" using assms(3) by simp
    show "\<exists>n. pa = page_addr n \<and> user_page C n \<and> (\<forall>s \<in> R. n \<notin> T' s)" if "PROC_START_ADDR \<le> va"
      using i(7) [OF r(1,2) that f] assms(2) by simp
    show "va = CONSOLE_ADDR \<and> pa = CONSOLE_ADDR" if "va < PROC_START_ADDR" "perm AND PTE_U \<noteq> 0"
      by (rule i(6) [OF r(1,2) that(1) f that(2)])
  next
    fix r va n perm
    assume r: "r \<in> R" "maps F' r va n perm"
    then show "(r, va) \<in> X \<or> share_ok va perm \<or> rc n = 1" using i(8) m by simp
    show "va = va'" if "maps F' r va' n perm'" for va' perm'
      by (rule i(9) [OF r(1) r(2) [unfolded m [OF r(1)]] that [unfolded m [OF r(1)]]])
  next
    fix n
    assume "user_page C n"
    then show "card (holders R X F' n) \<le> unat (rc n) \<and> unat (rc n) \<le> max 1 (card (holders R X F' n))"
      unfolding h by (rule i(10))
  next
    fix r s
    assume "r \<in> R" "s \<in> R" "r \<noteq> s"
    then show "T' r \<inter> T' s = {}" using i(5) assms(2) by simp
  next
    fix r t
    assume t: "r \<in> R" "t \<in> T' r"
    show "user_page C t" "rc t = 1" using i(3,4) t assms(2) by simp_all
  qed (rule i; assumption)+
qed

text \<open>Taking free pages.\<close>

lemma space_take:
  assumes "space_inv C R X T F rc" and "\<And>t. rc' t = rc t \<or> rc t = 0 \<and> rc' t = 1 \<and> user_page C t"
  shows "space_inv C R X T F rc'"
proof -
  note i = space_invD [OF assms(1)]
  have one: "rc t = 1 \<Longrightarrow> rc' t = 1" for t using assms(2) [of t] by auto
  show ?thesis
  proof (rule space_invI)
    fix n
    assume "user_page C n"
    then show "card (holders R X F n) \<le> unat (rc' n) \<and> unat (rc' n) \<le> max 1 (card (holders R X F n))"
      using assms(2) [of n] i(10) [of n] by auto
  next
    fix n
    assume "\<not> user_page C n"
    then show "rc' n = 0" using assms(2) [of n] i(11) [of n] by auto
  next
    fix r va n perm
    assume "r \<in> R" "maps F r va n perm"
    then show "(r, va) \<in> X \<or> share_ok va perm \<or> rc' n = 1" using i(8) one by blast
  next
    fix r t
    assume t: "r \<in> R" "t \<in> T r"
    show "rc' t = 1" by (rule one) (rule i(4) [OF t])
  qed (rule i; assumption)+
qed

text \<open>Linking loose pages as tables.\<close>

lemma space_link:
  assumes "space_inv C R X T F rc" and "r \<in> R" and "\<And>t. t \<in> T' \<Longrightarrow> t \<in> T r \<or> loose C R T F rc t"
  shows "space_inv C R X (T(r := T')) F rc"
proof -
  note i = space_invD [OF assms(1)]
  have new: "t \<in> T s \<or> s = r \<and> loose C R T F rc t" if "t \<in> (T(r := T')) s" for t s
    using assms(3) [of t] that by (auto split: if_splits)
  show ?thesis
  proof (rule space_invI)
    fix s t
    assume "s \<in> R" "t \<in> (T(r := T')) s"
    then show "user_page C t" "rc t = 1" using new [of t s] i(3,4) unfolding loose_def by blast+
  next
    fix s s'
    assume s: "s \<in> R" "s' \<in> R" "s \<noteq> s'"
    have "False" if "t \<in> (T(r := T')) s" "t \<in> (T(r := T')) s'" for t
    proof -
      from new [OF that(1)] new [OF that(2)] show False
        using s i(5) [OF s] unfolding loose_def by blast
    qed
    then show "(T(r := T')) s \<inter> (T(r := T')) s' = {}" by blast
  next
    fix s va pa perm
    assume s: "s \<in> R" "page_va va" "PROC_START_ADDR \<le> va" "F s va = Some (pa, perm)"
    obtain n where n: "pa = page_addr n" "user_page C n" "\<forall>s \<in> R. n \<notin> T s" using i(7) [OF s] by blast
    have "maps F s va n perm" using s n(1) user_page_less [OF n(2)] by (simp add: maps_def)
    then have "\<not> loose C R T F rc n" using s(1) unfolding loose_def by blast
    then have "\<forall>s \<in> R. n \<notin> (T(r := T')) s" using n(3) new by blast
    then show "\<exists>n. pa = page_addr n \<and> user_page C n \<and> (\<forall>s \<in> R. n \<notin> (T(r := T')) s)" using n by blast
  qed (rule i; assumption)+
qed

text \<open>Counting one mapping or not.\<close>

lemma holders_insert:
  assumes "\<And>va' n perm perm'. maps F r va' n perm \<Longrightarrow> maps F r va n perm' \<Longrightarrow> va' = va"
  shows "holders R (insert (r, va) X) F n = (if \<exists>perm. maps F r va n perm then holders R X F n - {r} else holders R X F n)"
proof (cases "\<exists>perm. maps F r va n perm")
  case True
  then obtain perm where "maps F r va n perm" ..
  then have o: "va' = va" if "maps F r va' n perm'" for va' perm' using assms that by blast
  show ?thesis using True unfolding holders_def if_P [OF True] by (auto dest: o)
next
  case False
  then show ?thesis by (auto simp: holders_def)
qed

lemma space_begin:
  assumes "space_inv C R {} T F rc" and "r \<in> R" and "\<And>n perm. maps F r va n perm \<Longrightarrow> rc n = 1"
  shows "space_inv C R {(r, va)} T F rc"
proof -
  note i = space_invD [OF assms(1)]
  have h: "holders R {(r, va)} F n = (if \<exists>perm. maps F r va n perm then holders R {} F n - {r} else holders R {} F n)" for n
    by (rule holders_insert) (rule i(9) [OF assms(2)])
  show ?thesis
  proof (rule space_invI)
    fix n
    assume u: "user_page C n"
    show "card (holders R {(r, va)} F n) \<le> unat (rc n) \<and> unat (rc n) \<le> max 1 (card (holders R {(r, va)} F n))"
    proof (cases "\<exists>perm. maps F r va n perm")
      case True
      then obtain perm where m: "maps F r va n perm" ..
      have "r \<in> holders R {} F n" using m assms(2) by (auto simp: holders_def)
      then have "holders R {} F n - {r} = {}" using sole_holder [OF assms(1) assms(3) [OF m]] by blast
      then have "holders R {(r, va)} F n = {}" using True unfolding h by simp
      then show ?thesis using assms(3) [OF m] by simp
    next
      case False
      show ?thesis using i(10) [OF u] unfolding h if_not_P [OF False] .
    qed
  next
    fix s va' n perm
    assume "s \<in> R" "maps F s va' n perm"
    then show "(s, va') \<in> {(r, va)} \<or> share_ok va' perm \<or> rc n = 1" using i(8) by blast
  qed (rule i; assumption)+
qed

lemma space_end_none:
  assumes "space_inv C R {(r, va)} T F rc" and "r \<in> R" and "\<And>n perm. \<not> maps F r va n perm"
  shows "space_inv C R {} T F rc"
proof -
  note i = space_invD [OF assms(1)]
  have no: "\<not> (\<exists>perm. maps F r va n perm)" for n using assms(3) by blast
  have h: "holders R {(r, va)} F n = holders R {} F n" for n
    by (subst holders_insert) (use assms(3) in blast, rule if_not_P [OF no])
  show ?thesis
  proof (rule space_invI)
    fix n
    assume u: "user_page C n"
    show "card (holders R {} F n) \<le> unat (rc n) \<and> unat (rc n) \<le> max 1 (card (holders R {} F n))"
      using i(10) [OF u] unfolding h .
  next
    fix s va' n perm
    assume "s \<in> R" "maps F s va' n perm"
    then show "(s, va') \<in> {} \<or> share_ok va' perm \<or> rc n = 1" using i(8) assms(3) by blast
  qed (rule i; assumption)+
qed

lemma space_end_one:
  assumes "space_inv C R {(r, va)} T F rc" and "r \<in> R" and "maps F r va q perm" and "rc q = 1"
    and "holders R {(r, va)} F q = {}"
  shows "space_inv C R {} T F rc"
proof -
  note i = space_invD [OF assms(1)]
  have h: "holders R {(r, va)} F n = (if \<exists>perm. maps F r va n perm then holders R {} F n - {r} else holders R {} F n)" for n
    by (rule holders_insert) (rule i(9) [OF assms(2)])
  have q: "n = q" if "maps F r va n perm'" for n perm'
    using that assms(3) page_addr_inj [of n q] by (auto simp: maps_def)
  show ?thesis
  proof (rule space_invI)
    fix n
    assume u: "user_page C n"
    show "card (holders R {} F n) \<le> unat (rc n) \<and> unat (rc n) \<le> max 1 (card (holders R {} F n))"
    proof (cases "n = q")
      case True
      have "\<exists>perm. maps F r va q perm" using assms(3) by blast
      then have "holders R {} F q - {r} = {}" using assms(5) unfolding h by simp
      moreover have "r \<in> holders R {} F q" using assms(2,3) by (auto simp: holders_def)
      ultimately have "holders R {} F q = {r}" by blast
      then show ?thesis using True assms(4) by simp
    next
      case False
      then have "holders R {(r, va)} F n = holders R {} F n" unfolding h using q by auto
      then show ?thesis using i(10) [OF u] by simp
    qed
  next
    fix s va' n perm'
    assume m: "s \<in> R" "maps F s va' n perm'"
    show "(s, va') \<in> {} \<or> share_ok va' perm' \<or> rc n = 1"
      using i(8) [OF m] m q assms(4) by auto
  qed (rule i; assumption)+
qed

text \<open>Releasing a mapped page: its count goes down, the mapping stays for a moment.\<close>

lemma space_release:
  assumes "space_inv C R X T F rc" and "r \<in> R" and "maps F r va n perm" and "(r, va) \<notin> X"
  shows "space_inv C R (insert (r, va) X) T F (rc(n := rc n - 1))"
proof -
  note i = space_invD [OF assms(1)]
  note u = maps_page [OF assms(1-3)]
  have nz: "rc n \<noteq> 0" by (rule held_page [OF assms])
  then have dec: "unat (rc n - 1) = unat (rc n) - 1" by (simp add: unat_minus_one)
  have rh: "r \<in> holders R X F n" using assms(2-4) by (auto simp: holders_def)
  have h: "holders R (insert (r, va) X) F m = (if \<exists>perm. maps F r va m perm then holders R X F m - {r} else holders R X F m)" for m
    by (rule holders_insert) (rule i(9) [OF assms(2)])
  have one: "m = n" if "maps F r va m perm'" for m perm'
    using that assms(3) page_addr_inj [of m n] by (auto simp: maps_def)
  have hm: "holders R (insert (r, va) X) F m = (if m = n then holders R X F n - {r} else holders R X F m)" for m
  proof (cases "m = n")
    case True
    have "\<exists>perm. maps F r va n perm" using assms(3) by blast
    then show ?thesis unfolding h True by simp
  next
    case False
    then have no: "\<not> (\<exists>perm. maps F r va m perm)" using one by blast
    show ?thesis unfolding h if_not_P [OF no] using False by simp
  qed
  show ?thesis
  proof (rule space_invI)
    fix m
    assume um: "user_page C m"
    show "card (holders R (insert (r, va) X) F m) \<le> unat ((rc(n := rc n - 1)) m)
      \<and> unat ((rc(n := rc n - 1)) m) \<le> max 1 (card (holders R (insert (r, va) X) F m))"
    proof (cases "m = n")
      case True
      have "card (holders R X F n - {r}) = card (holders R X F n) - 1" using rh i(1) by simp
      moreover have "0 < card (holders R X F n)" using rh i(1) by (auto simp: card_gt_0_iff)
      ultimately show ?thesis using i(10) [OF u(1)] True dec unfolding hm by auto
    next
      case False
      then show ?thesis using i(10) [OF um] unfolding hm by simp
    qed
  next
    fix s va' m perm'
    assume m: "s \<in> R" "maps F s va' m perm'"
    show "(s, va') \<in> insert (r, va) X \<or> share_ok va' perm' \<or> (rc(n := rc n - 1)) m = 1"
    proof (cases "m = n \<and> rc n = 1 \<and> (s, va') \<notin> X")
      case True
      then have "s \<in> holders R X F n" using m by (auto simp: holders_def)
      then have "s = r" using sole_holder [OF assms(1) _ rh, of s] True by auto
      then have "va' = va" using i(9) [OF assms(2) _ assms(3)] m True by blast
      then show ?thesis using \<open>s = r\<close> by simp
    next
      case False
      then show ?thesis using i(8) [OF m] by auto
    qed
  next
    fix s t
    assume t: "s \<in> R" "t \<in> T s"
    show "(rc(n := rc n - 1)) t = 1" using i(4) [OF t] u(2) [OF t(1)] t by auto
  next
    fix m
    assume "\<not> user_page C m"
    then show "(rc(n := rc n - 1)) m = 0" using i(11) [of m] u(1) by auto
  qed (rule i; assumption)+
qed

text \<open>Replacing a mapping that is not counted.\<close>

lemma maps_upd:
  assumes "page_va va"
  shows "maps (F(r := map_page va x (F r))) s va' n perm \<longleftrightarrow>
    (if s = r \<and> va' = va then n < NPAGES \<and> PROC_START_ADDR \<le> va \<and> x = Some (page_addr n, perm) else maps F s va' n perm)"
  using map_page_at [OF assms, of va' x "F r"] assms by (auto simp: maps_def)

lemma upd_at:
  assumes "page_va va" and "page_va va'"
  shows "(F(r := map_page va x (F r))) s va' = (if s = r \<and> va' = va then x else F s va')"
  using map_page_at [OF assms, of x "F r"] by auto

lemma space_replace:
  assumes "space_inv C R {(r, va)} T F rc" and "r \<in> R" and "page_va va" and "PROC_START_ADDR \<le> va"
    and "\<And>pa perm. x = Some (pa, perm) \<Longrightarrow> \<exists>q. pa = page_addr q \<and> user_page C q \<and> (\<forall>s \<in> R. q \<notin> T s)
      \<and> (\<forall>va' perm'. maps F r va' q perm' \<longrightarrow> va' = va)"
  shows "space_inv C R {(r, va)} T (F(r := map_page va x (F r))) rc"
proof -
  let ?F = "F(r := map_page va x (F r))"
  note i = space_invD [OF assms(1)]
  note mu = maps_upd [OF assms(3), of F r x]
  have h: "holders R {(r, va)} ?F n = holders R {(r, va)} F n" for n
    unfolding holders_def mu by (intro Collect_cong conj_cong refl ex_cong1) auto
  show ?thesis
  proof (rule space_invI)
    fix s va' pa perm
    assume s: "s \<in> R" "page_va va'" "?F s va' = Some (pa, perm)"
    show "va' = CONSOLE_ADDR \<and> pa = CONSOLE_ADDR" if "va' < PROC_START_ADDR" "perm AND PTE_U \<noteq> 0"
    proof (rule i(6) [OF s(1,2) that(1) _ that(2)])
      show "F s va' = Some (pa, perm)" using s that(1) assms(4) unfolding upd_at [OF assms(3) s(2)] by (auto split: if_splits)
    qed
    show "\<exists>n. pa = page_addr n \<and> user_page C n \<and> (\<forall>s \<in> R. n \<notin> T s)" if "PROC_START_ADDR \<le> va'"
    proof (cases "s = r \<and> va' = va")
      case True
      then have "x = Some (pa, perm)" using s(3) unfolding upd_at [OF assms(3) s(2)] by simp
      then show ?thesis using assms(5) by blast
    next
      case False
      then have "F s va' = Some (pa, perm)" using s(3) unfolding upd_at [OF assms(3) s(2)] by auto
      then show ?thesis by (rule i(7) [OF s(1,2) that])
    qed
  next
    fix s va' n perm
    assume m: "s \<in> R" "maps ?F s va' n perm"
    show "(s, va') \<in> {(r, va)} \<or> share_ok va' perm \<or> rc n = 1"
      using i(8) [OF m(1)] m(2) unfolding mu by (auto split: if_splits)
    fix va'' perm'
    assume m': "maps ?F s va'' n perm'"
    have new: "va1 = va" if x: "x = Some (page_addr n, p)" and nl: "n < NPAGES" and m1: "maps F r va1 n p'" for va1 p p'
    proof -
      obtain q where q: "page_addr n = page_addr q" "user_page C q" "\<forall>va' perm'. maps F r va' q perm' \<longrightarrow> va' = va"
        using assms(5) [OF x] by blast
      then have "q = n" using page_addr_inj [of n q] user_page_less nl by auto
      then show ?thesis using q(3) m1 by blast
    qed
    show "va' = va''"
    proof (cases "s = r \<and> (va' = va \<or> va'' = va)")
      case True
      then show ?thesis using m m' new unfolding mu by (metis (full_types))
    next
      case False
      then have "maps F s va' n perm" "maps F s va'' n perm'" using m m' unfolding mu by (auto split: if_splits)
      then show ?thesis by (rule i(9) [OF m(1)])
    qed
  next
    fix n
    assume "user_page C n"
    then show "card (holders R {(r, va)} ?F n) \<le> unat (rc n) \<and> unat (rc n) \<le> max 1 (card (holders R {(r, va)} ?F n))"
      unfolding h by (rule i(10))
  qed (rule i; assumption)+
qed

text \<open>Changing the permissions of a page.\<close>

lemma space_reperm:
  assumes "space_inv C R X T F rc" and "r \<in> R" and "maps F r va q perm0" and "share_ok va perm1 \<or> rc q = 1"
  shows "space_inv C R X T (F(r := map_page va (Some (page_addr q, perm1)) (F r))) rc"
proof -
  let ?F = "F(r := map_page va (Some (page_addr q, perm1)) (F r))"
  note i = space_invD [OF assms(1)]
  have v: "page_va va" "PROC_START_ADDR \<le> va" "q < NPAGES" "F r va = Some (page_addr q, perm0)" using assms(3) by (simp_all add: maps_def)
  note mu = maps_upd [OF v(1), of F r "Some (page_addr q, perm1)"]
  have eq: "\<exists>perm'. maps F s va' n perm'" if "maps ?F s va' n perm" for s va' n perm
    using that assms(3) page_addr_inj [of n q] v(3) unfolding mu by (auto split: if_splits)
  have keep: "\<exists>perm'. maps ?F s va' n perm'" if "maps F s va' n perm" for s va' n perm
  proof (cases "s = r \<and> va' = va")
    case True
    then have "n = q" using that v page_addr_inj [of n q] by (auto simp: maps_def)
    then show ?thesis using True v unfolding mu by simp
  next
    case False
    then show ?thesis using that unfolding mu by auto
  qed
  have h: "holders R X ?F n = holders R X F n" for n unfolding holders_def using eq keep by blast
  show ?thesis
  proof (rule space_invI)
    fix s va' pa perm
    assume s: "s \<in> R" "page_va va'" "?F s va' = Some (pa, perm)"
    show "va' = CONSOLE_ADDR \<and> pa = CONSOLE_ADDR" if "va' < PROC_START_ADDR" "perm AND PTE_U \<noteq> 0"
    proof (rule i(6) [OF s(1,2) that(1) _ that(2)])
      show "F s va' = Some (pa, perm)" using s that(1) v(2) unfolding upd_at [OF v(1) s(2)] by (auto split: if_splits)
    qed
    show "\<exists>n. pa = page_addr n \<and> user_page C n \<and> (\<forall>s \<in> R. n \<notin> T s)" if "PROC_START_ADDR \<le> va'"
    proof -
      have "\<exists>perm'. F s va' = Some (pa, perm')" using s(3) v(4) unfolding upd_at [OF v(1) s(2)] by (auto split: if_splits)
      then show ?thesis using i(7) [OF s(1,2) that] by blast
    qed
  next
    fix s va' n perm
    assume m: "s \<in> R" "maps ?F s va' n perm"
    show "(s, va') \<in> X \<or> share_ok va' perm \<or> rc n = 1"
    proof (cases "s = r \<and> va' = va")
      case True
      then have "n = q" "perm = perm1" using m(2) v(3) page_addr_inj [of n q] unfolding mu by auto
      then show ?thesis using True assms(4) by blast
    next
      case False
      then show ?thesis using i(8) [OF m(1)] m(2) unfolding mu by auto
    qed
    show "va' = va''" if "maps ?F s va'' n perm'" for va'' perm'
      using eq [OF m(2)] eq [OF that] i(9) [OF m(1)] by blast
  next
    fix n
    assume "user_page C n"
    then show "card (holders R X ?F n) \<le> unat (rc n) \<and> unat (rc n) \<le> max 1 (card (holders R X ?F n))"
      unfolding h by (rule i(10))
  qed (rule i; assumption)+
qed

text \<open>Counting a page that is shared with another address space.\<close>

lemma space_count:
  assumes "space_inv C R {(c, va)} T F rc" and "c \<in> R" and "p \<in> R" and "p \<noteq> c"
    and "maps F c va n perm" and "share_ok va perm" and "maps F p va n perm'" and "share_ok va perm'"
  shows "space_inv C R {} T F (rc(n := rc n + 1))"
proof -
  note i = space_invD [OF assms(1)]
  note u = maps_page [OF assms(1,2,5)]
  have h: "holders R {(c, va)} F m = (if \<exists>perm. maps F c va m perm then holders R {} F m - {c} else holders R {} F m)" for m
    by (rule holders_insert) (rule i(9) [OF assms(2)])
  have one: "m = n" if "maps F c va m perm'" for m perm'
    using that assms(5) page_addr_inj [of m n] by (auto simp: maps_def)
  have ph: "p \<in> holders R {(c, va)} F n" using assms(3,4,7) by (auto simp: holders_def)
  have ex: "\<exists>perm. maps F c va n perm" using assms(5) by blast
  have ch: "c \<in> holders R {} F n" using assms(2,5) by (auto simp: holders_def)
  have hn: "holders R {} F n = insert c (holders R {(c, va)} F n)" "c \<notin> holders R {(c, va)} F n"
    using ch unfolding h if_P [OF ex] by auto
  have hm: "holders R {} F m = holders R {(c, va)} F m" if "m \<noteq> n" for m
  proof -
    have "\<not> (\<exists>perm. maps F c va m perm)" using one that by blast
    then show ?thesis unfolding h by (simp only: if_False)
  qed
  have cn: "card (holders R {} F n) = Suc (card (holders R {(c, va)} F n))" unfolding hn(1) using hn(2) i(1) by simp
  have le: "card (holders R {(c, va)} F n) \<le> PID_MAX" using card_mono [OF i(1) holders_sub] i(2) by (rule order_trans)
  have pos: "0 < card (holders R {(c, va)} F n)" using ph i(1) by (auto simp: card_gt_0_iff)
  then have "unat (rc n) \<le> PID_MAX" using i(10) [OF u(1)] le by auto
  then have inc: "unat (rc n + 1) = unat (rc n) + 1" by (simp add: unat_word_ariths)
  have nz: "rc n \<noteq> 0" using pos i(10) [OF u(1)] by auto
  show ?thesis
  proof (rule space_invI)
    fix m
    assume um: "user_page C m"
    show "card (holders R {} F m) \<le> unat ((rc(n := rc n + 1)) m)
      \<and> unat ((rc(n := rc n + 1)) m) \<le> max 1 (card (holders R {} F m))"
    proof (cases "m = n")
      case True
      then show ?thesis using i(10) [OF u(1)] cn inc pos by auto
    next
      case False
      then show ?thesis using i(10) [OF um] hm by simp
    qed
  next
    fix s va' m perm1
    assume m: "s \<in> R" "maps F s va' m perm1"
    show "(s, va') \<in> {} \<or> share_ok va' perm1 \<or> (rc(n := rc n + 1)) m = 1"
    proof (cases "m = n")
      case True
      consider "s = c" | "s = p" | "s \<noteq> c" "s \<noteq> p" by blast
      then show ?thesis
      proof cases
        case 1
        have m2: "maps F c va' n perm1" using m(2) True 1 by simp
        have v: "va' = va" by (rule i(9) [OF assms(2) m2 assms(5)])
        have "perm1 = perm" using m2 assms(5) unfolding v by (simp add: maps_def)
        then show ?thesis using assms(6) v by simp
      next
        case 2
        have m2: "maps F p va' n perm1" using m(2) True 2 by simp
        have v: "va' = va" by (rule i(9) [OF assms(3) m2 assms(7)])
        have "perm1 = perm'" using m2 assms(7) unfolding v by (simp add: maps_def)
        then show ?thesis using assms(8) v by simp
      next
        case 3
        then have "s \<in> holders R {(c, va)} F n" using m True by (auto simp: holders_def)
        then have "rc n \<noteq> 1" using sole_holder [OF assms(1) _ ph, of s] 3 by auto
        then show ?thesis using i(8) [OF m] 3 True by auto
      qed
    next
      case False
      then show ?thesis using i(8) [OF m] m one by auto
    qed
  next
    fix s t
    assume t: "s \<in> R" "t \<in> T s"
    show "(rc(n := rc n + 1)) t = 1" using i(4) [OF t] u(2) [OF t(1)] t by auto
  next
    fix m
    assume "\<not> user_page C m"
    then show "(rc(n := rc n + 1)) m = 0" using i(11) [of m] u(1) by auto
  qed (rule i; assumption)+
qed

text \<open>Mapping a page below the process addresses.\<close>

lemma space_low:
  assumes "space_inv C R X T F rc" and "r \<in> R" and "page_va va" and "va < PROC_START_ADDR"
    and "\<And>pa perm. x = Some (pa, perm) \<Longrightarrow> perm AND PTE_U \<noteq> 0 \<Longrightarrow> va = CONSOLE_ADDR \<and> pa = CONSOLE_ADDR"
  shows "space_inv C R X T (F(r := map_page va x (F r))) rc"
proof -
  let ?F = "F(r := map_page va x (F r))"
  note i = space_invD [OF assms(1)]
  have mu: "maps ?F s va' n perm = maps F s va' n perm" for s va' n perm
    unfolding maps_upd [OF assms(3)] using assms(4) by (auto simp: maps_def)
  have h: "holders R X ?F n = holders R X F n" for n by (rule holders_cong) (rule mu)
  show ?thesis
  proof (rule space_invI)
    fix s va' pa perm
    assume s: "s \<in> R" "page_va va'" "?F s va' = Some (pa, perm)"
    show "va' = CONSOLE_ADDR \<and> pa = CONSOLE_ADDR" if "va' < PROC_START_ADDR" "perm AND PTE_U \<noteq> 0"
      using s i(6) [OF s(1,2) that(1) _ that(2)] assms(5) that(2) unfolding upd_at [OF assms(3) s(2)] by (metis (full_types))
    show "\<exists>n. pa = page_addr n \<and> user_page C n \<and> (\<forall>s \<in> R. n \<notin> T s)" if "PROC_START_ADDR \<le> va'"
    proof (rule i(7) [OF s(1,2) that])
      show "F s va' = Some (pa, perm)" using s that assms(4) unfolding upd_at [OF assms(3) s(2)] by (auto split: if_splits)
    qed
  qed (unfold mu h, (rule i; assumption)+)
qed

text \<open>Removing and adding address spaces.\<close>

lemma space_drop:
  assumes "space_inv C R X T F rc" and "r \<in> R" and "\<And>s va. (s, va) \<in> X \<Longrightarrow> s = r"
    and "\<And>va n perm. maps F r va n perm \<Longrightarrow> (r, va) \<in> X \<or> rc n = 1"
  shows "space_inv C (R - {r}) {} T F rc"
proof -
  note i = space_invD [OF assms(1)]
  have h: "holders (R - {r}) {} F n = holders R X F n - {r}" for n
    unfolding holders_def using assms(3) by blast
  show ?thesis
  proof (rule space_invI)
    fix n
    assume u: "user_page C n"
    show "card (holders (R - {r}) {} F n) \<le> unat (rc n) \<and> unat (rc n) \<le> max 1 (card (holders (R - {r}) {} F n))"
    proof (cases "r \<in> holders R X F n")
      case True
      then have "rc n = 1" using assms(4) by (auto simp: holders_def)
      moreover have "holders R X F n = {r}" using sole_holder [OF assms(1) calculation True] True by blast
      ultimately show ?thesis unfolding h by simp
    next
      case False
      then show ?thesis using i(10) [OF u] unfolding h by simp
    qed
  next
    fix s va n perm
    assume m: "s \<in> R - {r}" "maps F s va n perm"
    then show "(s, va) \<in> {} \<or> share_ok va perm \<or> rc n = 1" using i(8) assms(3) by blast
  next
    show "card (R - {r}) \<le> PID_MAX" using i(2) card_Diff1_le [of R r] by linarith
    show "finite (R - {r})" using i(1) by simp
  next
    fix s va pa perm
    assume "s \<in> R - {r}" "page_va va" "PROC_START_ADDR \<le> va" "F s va = Some (pa, perm)"
    then show "\<exists>n. pa = page_addr n \<and> user_page C n \<and> (\<forall>s \<in> R - {r}. n \<notin> T s)" using i(7) by blast
  qed (rule i; simp)+
qed

lemma space_add:
  assumes "space_inv C R {} T F rc" and "r \<notin> R" and "loose C R T F rc r" and "card R < PID_MAX"
    and "T r = {r}" and "\<And>va. page_va va \<Longrightarrow> F r va = None"
  shows "space_inv C (insert r R) {} T F rc"
proof -
  note i = space_invD [OF assms(1)]
  have no: "\<not> maps F r va n perm" for va n perm using assms(6) by (auto simp: maps_def)
  have h: "holders (insert r R) {} F n = holders R {} F n" for n unfolding holders_def using no by blast
  show ?thesis
  proof (rule space_invI)
    show "finite (insert r R)" "card (insert r R) \<le> PID_MAX" using i(1) assms(2,4) by simp_all
  next
    fix s t
    assume "s \<in> insert r R" "t \<in> T s"
    then show "user_page C t" "rc t = 1" using i(3,4) assms(3,5) unfolding loose_def by auto
  next
    fix s s'
    assume s: "s \<in> insert r R" "s' \<in> insert r R" "s \<noteq> s'"
    consider "s \<in> R" "s' \<in> R" | "s = r" "s' \<in> R" | "s \<in> R" "s' = r" using s by blast
    then show "T s \<inter> T s' = {}"
    proof cases
      case 1
      then show ?thesis using i(5) s(3) by blast
    qed (use assms(3,5) in \<open>auto simp: loose_def\<close>)
  next
    fix s va pa perm
    assume s: "s \<in> insert r R" "page_va va" "F s va = Some (pa, perm)"
    then have sr: "s \<in> R" using assms(6) by auto
    show "va = CONSOLE_ADDR \<and> pa = CONSOLE_ADDR" if "va < PROC_START_ADDR" "perm AND PTE_U \<noteq> 0"
      by (rule i(6) [OF sr s(2) that(1) s(3) that(2)])
    show "\<exists>n. pa = page_addr n \<and> user_page C n \<and> (\<forall>s \<in> insert r R. n \<notin> T s)" if v: "PROC_START_ADDR \<le> va"
    proof -
      obtain n where n: "pa = page_addr n" "user_page C n" "\<forall>s \<in> R. n \<notin> T s" using i(7) [OF sr s(2) v s(3)] by blast
      have "maps F s va n perm" using s(2,3) v n user_page_less by (auto simp: maps_def)
      then have "n \<noteq> r" using assms(3) sr by (auto simp: loose_def)
      then show ?thesis using n assms(5) by auto
    qed
  next
    fix s va n perm
    assume m: "s \<in> insert r R" "maps F s va n perm"
    then have sr: "s \<in> R" using no by blast
    show "(s, va) \<in> {} \<or> share_ok va perm \<or> rc n = 1" by (rule i(8) [OF sr m(2)])
    show "va = va'" if "maps F s va' n perm'" for va' perm' by (rule i(9) [OF sr m(2) that])
  next
    fix n
    assume "user_page C n"
    then show "card (holders (insert r R) {} F n) \<le> unat (rc n) \<and> unat (rc n) \<le> max 1 (card (holders (insert r R) {} F n))"
      unfolding h by (rule i(10))
  qed (rule i; assumption)
qed

text \<open>Giving back a loose page.\<close>

lemma space_free:
  assumes "space_inv C R X T F rc" and "loose C R T F rc q"
  shows "space_inv C R X T F (rc(q := 0))"
proof -
  note i = space_invD [OF assms(1)]
  have q: "user_page C q" "rc q = 1" "\<And>s. s \<in> R \<Longrightarrow> q \<notin> T s" "\<And>s va perm. s \<in> R \<Longrightarrow> \<not> maps F s va q perm"
    using assms(2) by (auto simp: loose_def)
  show ?thesis
  proof (rule space_invI)
    fix n
    assume u: "user_page C n"
    show "card (holders R X F n) \<le> unat ((rc(q := 0)) n) \<and> unat ((rc(q := 0)) n) \<le> max 1 (card (holders R X F n))"
      using i(10) [OF u] loose_no_holders [OF assms(2)] by auto
  next
    fix s va n perm
    assume m: "s \<in> R" "maps F s va n perm"
    then show "(s, va) \<in> X \<or> share_ok va perm \<or> (rc(q := 0)) n = 1" using i(8) [OF m] q(4) by auto
  next
    fix s t
    assume t: "s \<in> R" "t \<in> T s"
    then show "(rc(q := 0)) t = 1" using i(4) [OF t] q(3) by auto
  next
    fix n
    assume "\<not> user_page C n"
    then show "(rc(q := 0)) n = 0" using i(11) by simp
  qed (rule i; assumption)+
qed

end
