(* ===== verification/KGuard.thy ===== *)
theory KGuard
  imports KSpace
begin

text \<open>
  The kernel's operations on memory keep the address spaces and the reference counts in
  agreement: the allocator, \<open>try_map\<close>, the release of a mapping, and the loops of \<open>mmap\<close>,
  \<open>munmap\<close>, \<open>fork\<close> and \<open>free_everything\<close> that are made of them. A result of \<open>None\<close> (a panic)
  promises nothing.
\<close>

section \<open>The agreement on kernel states\<close>

text \<open>Apart from the pages that can be allocated and the console, memory is \<open>M\<close>: the kernel's
  code, data and page table are as they were.\<close>

definition intact :: "pmem \<Rightarrow> kconf \<Rightarrow> kstate \<Rightarrow> bool" where
  "intact M C k \<longleftrightarrow> (\<forall>t. \<not> user_page C t \<longrightarrow> t \<noteq> pageno CONSOLE_ADDR \<longrightarrow> mem k t = M t)"

lemma intact_page: "intact M C k \<Longrightarrow> user_page C q \<Longrightarrow> (\<And>t. t \<noteq> q \<Longrightarrow> mem k' t = mem k t) \<Longrightarrow> intact M C k'"
  unfolding intact_def by metis

definition spaces :: "pmem \<Rightarrow> kconf \<Rightarrow> nat set \<Rightarrow> (nat \<times> u64) set \<Rightarrow> kstate \<Rightarrow> bool" where
  "spaces M C R X k \<longleftrightarrow> (\<forall>r \<in> R. owned k r) \<and> space_inv C R X (tables (mem k)) (mapping (mem k)) (refcount k) \<and> intact M C k"

abbreviation spare :: "kconf \<Rightarrow> nat set \<Rightarrow> kstate \<Rightarrow> nat \<Rightarrow> bool" where
  "spare C R k \<equiv> loose C R (tables (mem k)) (mapping (mem k)) (refcount k)"

abbreviation maps_in :: "kstate \<Rightarrow> nat \<Rightarrow> u64 \<Rightarrow> nat \<Rightarrow> u64 \<Rightarrow> bool" where
  "maps_in k \<equiv> maps (mapping (mem k))"

lemma spacesD:
  assumes "spaces M C R X k"
  shows "r \<in> R \<Longrightarrow> owned k r" and "space_inv C R X (tables (mem k)) (mapping (mem k)) (refcount k)" and "intact M C k"
  using assms by (simp_all add: spaces_def)

lemma spaces_table:
  assumes "spaces M C R X k" and "r \<in> R" and "t \<in> tables (mem k) r"
  shows "refcount k t = 1" and "user_page C t"
  using space_invD(3,4) [OF spacesD(2) [OF assms(1)] assms(2,3)] by simp_all

text \<open>Changes outside the tables.\<close>

lemma spaces_mem:
  assumes "spaces M C R X k" and "\<forall>r \<in> R. \<forall>t \<in> tables (mem k) r. mem k' t = mem k t"
    and "space_inv C R X' (tables (mem k)) (mapping (mem k)) (refcount k')" and "intact M C k'"
  shows "spaces M C R X' k'" and "r \<in> R \<Longrightarrow> tables (mem k') r = tables (mem k) r"
    and "r \<in> R \<Longrightarrow> mapping (mem k') r = mapping (mem k) r"
proof -
  have o: "tables (mem k') r = tables (mem k) r" "tree_ok (mem k') r = tree_ok (mem k) r" "mapping (mem k') r = mapping (mem k) r"
    "small_pages (mem k') r = small_pages (mem k) r" if "r \<in> R" for r
    using outside [of "mem k" r "mem k'"] small_outside [of "mem k" r "mem k'"] assms(2) that by blast+
  have "owned k' r" if "r \<in> R" for r
    unfolding owned_def o(1,2,4) [OF that] using spacesD(1) [OF assms(1) that] space_invD(4) [OF assms(3) that]
    by (simp add: owned_def)
  moreover have "space_inv C R X' (tables (mem k')) (mapping (mem k')) (refcount k')"
    by (rule space_cong [OF assms(3)]) (simp_all add: o)
  ultimately show "spaces M C R X' k'" using assms(4) by (simp add: spaces_def)
  show "r \<in> R \<Longrightarrow> tables (mem k') r = tables (mem k) r" "r \<in> R \<Longrightarrow> mapping (mem k') r = mapping (mem k) r" by (rule o, assumption)+
qed

lemma loose_cong:
  assumes "\<And>r. r \<in> R \<Longrightarrow> T' r = T r" and "\<And>r. r \<in> R \<Longrightarrow> F' r = F r" and "rc' n = rc n"
  shows "loose C R T' F' rc' n = loose C R T F rc n"
  using assms by (simp add: loose_def maps_def)

section \<open>The allocator\<close>

lemma spaces_kalloc:
  assumes "spaces M C R {} k" and "free_page C k q"
  shows "spaces M C R {} (take_page q k)" and "spare C R (take_page q k) q"
    and "r \<in> R \<Longrightarrow> tables (mem (take_page q k)) r = tables (mem k) r"
    and "r \<in> R \<Longrightarrow> mapping (mem (take_page q k)) r = mapping (mem k) r"
proof -
  have q: "refcount k q = 0" "user_page C q" using assms(2) by (simp_all add: free_page_def user_page_def)
  have nt: "q \<notin> tables (mem k) r" if "r \<in> R" for r using spaces_table(1) [OF assms(1) that] q(1) by auto
  have m: "\<forall>r \<in> R. \<forall>t \<in> tables (mem k) r. mem (take_page q k) t = mem k t"
    using nt by (auto simp: take_page_def)
  have i: "space_inv C R {} (tables (mem k)) (mapping (mem k)) (refcount (take_page q k))"
    by (rule space_take [OF spacesD(2) [OF assms(1)]]) (use q in \<open>auto simp: take_page_def\<close>)
  have "intact M C (take_page q k)" by (rule intact_page [OF spacesD(3) [OF assms(1)] q(2)]) (simp add: take_page_def)
  note s = spaces_mem [OF assms(1) m i this]
  show "spaces M C R {} (take_page q k)" by (rule s(1))
  show e: "tables (mem (take_page q k)) r = tables (mem k) r" "mapping (mem (take_page q k)) r = mapping (mem k) r" if "r \<in> R" for r
    using s(2,3) that by blast+
  have "\<not> maps_in k r va q perm" if "r \<in> R" for r va perm
    using held_page [OF spacesD(2) [OF assms(1)] that] q(1) by blast
  then have "loose C R (tables (mem k)) (mapping (mem k)) (refcount (take_page q k)) q"
    using q(2) nt by (simp add: loose_def take_page_def)
  then show "spare C R (take_page q k) q" by (subst loose_cong [where T = "tables (mem k)" and F = "mapping (mem k)"]) (simp_all add: e)
qed

text \<open>Clearing or filling a page that is not a table.\<close>

lemma spaces_fill:
  assumes "spaces M C R X k" and "\<And>r. r \<in> R \<Longrightarrow> q \<notin> tables (mem k) r" and "\<And>t. t \<noteq> q \<Longrightarrow> mem k' t = mem k t"
    and "refcount k' = refcount k" and "user_page C q"
  shows "spaces M C R X k'" and "r \<in> R \<Longrightarrow> tables (mem k') r = tables (mem k) r"
    and "r \<in> R \<Longrightarrow> mapping (mem k') r = mapping (mem k) r"
proof -
  have m: "\<forall>r \<in> R. \<forall>t \<in> tables (mem k) r. mem k' t = mem k t" using assms(2,3) by metis
  have i: "space_inv C R X (tables (mem k)) (mapping (mem k)) (refcount k')" unfolding assms(4) by (rule spacesD(2) [OF assms(1)])
  note s = spaces_mem [OF assms(1) m i intact_page [OF spacesD(3) [OF assms(1)] assms(5,3)]]
  show "spaces M C R X k'" by (rule s(1))
  show "r \<in> R \<Longrightarrow> tables (mem k') r = tables (mem k) r" "r \<in> R \<Longrightarrow> mapping (mem k') r = mapping (mem k) r" using s(2,3) by blast+
qed

lemma kfree_page:
  assumes "kfree (page_addr n) k = Some k'" and "n < NPAGES" and "n \<noteq> 0"
  shows "refcount k n \<noteq> 0" and "refcount k' = (refcount k)(n := refcount k n - 1)" and "t \<noteq> n \<Longrightarrow> mem k' t = mem k t"
    and "same_procs k k'"
proof -
  have "unat (page_addr n) mod PAGESIZE = 0" "page_addr n \<noteq> 0" "pageno (page_addr n) = n"
    using unat_page_addr [of n] assms(2,3) by simp_all
  then show "refcount k n \<noteq> 0" "refcount k' = (refcount k)(n := refcount k n - 1)" "t \<noteq> n \<Longrightarrow> mem k' t = mem k t"
    using assms(1) by (auto simp: kfree_def Let_def split: if_splits)
  show "same_procs k k'" by (rule kfree_same [OF assms(1)])
qed

lemma user_page_pos: "user_page C n \<Longrightarrow> n \<noteq> 0"
proof
  assume "user_page C n" "n = 0"
  then show False by (simp add: user_page_def allocatable_physical_address_def reserved_physical_address_def page_addr_def)
qed

lemma spaces_kfree_mapped:
  assumes "spaces M C R X k" and "r \<in> R" and "maps_in k r va n perm" and "(r, va) \<notin> X" and "kfree (page_addr n) k = Some k'"
  shows "spaces M C R (insert (r, va) X) k'" and "s \<in> R \<Longrightarrow> tables (mem k') s = tables (mem k) s"
    and "s \<in> R \<Longrightarrow> mapping (mem k') s = mapping (mem k) s"
    and "s \<in> R \<Longrightarrow> t \<in> tables (mem k) s \<Longrightarrow> mem k' t = mem k t"
proof -
  note i = spacesD(2) [OF assms(1)]
  note u = maps_page [OF i assms(2,3)]
  note f = kfree_page [OF assms(5) user_page_less [OF u(1)] user_page_pos [OF u(1)]]
  have m: "\<forall>s \<in> R. \<forall>t \<in> tables (mem k) s. mem k' t = mem k t" using f(3) u(2) by metis
  then show "s \<in> R \<Longrightarrow> t \<in> tables (mem k) s \<Longrightarrow> mem k' t = mem k t" by blast
  have "space_inv C R (insert (r, va) X) (tables (mem k)) (mapping (mem k)) (refcount k')"
    unfolding f(2) by (rule space_release [OF i assms(2-4)])
  from spaces_mem [OF assms(1) m this intact_page [OF spacesD(3) [OF assms(1)] u(1) f(3)]]
  show "spaces M C R (insert (r, va) X) k'" "s \<in> R \<Longrightarrow> tables (mem k') s = tables (mem k) s"
    "s \<in> R \<Longrightarrow> mapping (mem k') s = mapping (mem k) s" by blast+
qed

lemma spaces_kfree_spare:
  assumes "spaces M C R X k" and "spare C R k q" and "kfree (page_addr q) k = Some k'"
  shows "spaces M C R X k'" and "s \<in> R \<Longrightarrow> tables (mem k') s = tables (mem k) s"
    and "s \<in> R \<Longrightarrow> mapping (mem k') s = mapping (mem k) s"
proof -
  note i = spacesD(2) [OF assms(1)]
  have q: "user_page C q" "refcount k q = 1" "\<And>s. s \<in> R \<Longrightarrow> q \<notin> tables (mem k) s" using assms(2) by (auto simp: loose_def)
  note f = kfree_page [OF assms(3) user_page_less [OF q(1)] user_page_pos [OF q(1)]]
  have m: "\<forall>s \<in> R. \<forall>t \<in> tables (mem k) s. mem k' t = mem k t" using f(3) q(3) by metis
  have "refcount k' = (refcount k)(q := 0)" using f(2) q(2) by simp
  then have "space_inv C R X (tables (mem k)) (mapping (mem k)) (refcount k')" using space_free [OF i assms(2)] by simp
  from spaces_mem [OF assms(1) m this intact_page [OF spacesD(3) [OF assms(1)] q(1) f(3)]]
  show "spaces M C R X k'" "s \<in> R \<Longrightarrow> tables (mem k') s = tables (mem k) s"
    "s \<in> R \<Longrightarrow> mapping (mem k') s = mapping (mem k) s" by blast+
qed

section \<open>Changing a tree\<close>

text \<open>Pages are only taken for tables.\<close>

definition counts_grow :: "kconf \<Rightarrow> kstate \<Rightarrow> kstate \<Rightarrow> bool" where
  "counts_grow C k k' \<longleftrightarrow> (\<forall>t. refcount k' t = refcount k t \<or> refcount k t = 0 \<and> refcount k' t = 1 \<and> user_page C t)"

lemma counts_grow_refl: "refcount k' = refcount k \<Longrightarrow> counts_grow C k k'"
  by (simp add: counts_grow_def)

lemma counts_grow_trans: "counts_grow C k k1 \<Longrightarrow> counts_grow C k1 k2 \<Longrightarrow> counts_grow C k k2"
  unfolding counts_grow_def by (metis zero_neq_one)

lemma counts_take: "free_page C k q \<Longrightarrow> refcount k' = refcount (take_page q k) \<Longrightarrow> counts_grow C k k'"
  by (auto simp: counts_grow_def take_page_def free_page_def user_page_def)

lemma add_tables_counts: "add_tables C n it k = Some (r, it', k') \<Longrightarrow> counts_grow C k k'"
proof (induction n arbitrary: it k)
  case 0
  then show ?case by (subst (asm) add_tables.simps) (auto split: if_splits intro: counts_grow_refl)
next
  case (Suc n)
  show ?case
  proof (cases "vlevel it = 0")
    case True
    then show ?thesis using Suc.prems by (simp add: add_tables_0 counts_grow_refl)
  next
    case False
    obtain pt k1 where ka: "kalloc C PAGESIZE k = (pt, k1)" by fastforce
    have s1: "counts_grow C k k1" using kalloc_cases [OF ka] by (auto intro: counts_grow_refl counts_take)
    consider "k' = k1" | p i it1 where
      "add_tables C n it1 (set_entry p i (pt OR PTE_P OR PTE_W OR PTE_U) (set_page (pageno pt) 0 k1)) = Some (r, it', k')"
      using Suc.prems False ka by (auto simp: add_tables_Suc Let_def split: Option.bind_splits if_splits)
    then show ?thesis
    proof cases
      case 2
      from Suc.IH [OF 2] have "counts_grow C k1 k'" by (simp add: counts_grow_def set_entry_def)
      then show ?thesis by (rule counts_grow_trans [OF s1])
    qed (simp add: s1)
  qed
qed

lemma try_map_counts:
  assumes "vm_try_map C pa perm it k = Some (res, it', k')"
  shows "counts_grow C k k'" and "perm = 0 \<Longrightarrow> refcount k' = refcount k"
proof -
  obtain r1 it1 k1 where a: "(if perm \<noteq> 0 then add_tables C (vlevel it) it k else Some (0, it, k)) = Some (r1, it1, k1)"
    and c: "refcount k' = refcount k1"
    by (rule try_map_cases [OF assms]) (rule that, assumption, auto simp: set_entry_def)
  show "counts_grow C k k'"
  proof (cases "perm = 0")
    case True
    then show ?thesis using a c by (simp add: counts_grow_refl)
  next
    case False
    then have "counts_grow C k k1" using a add_tables_counts by simp
    then show ?thesis using c by (simp add: counts_grow_def)
  qed
  show "perm = 0 \<Longrightarrow> refcount k' = refcount k" using a c by simp
qed

text \<open>The other address spaces do not notice; the tree's new tables were free.\<close>

lemma spaces_within:
  assumes "spaces M C R X k" and "r \<in> R" and "within_tree r k k'" and "counts_grow C k k'" and "X = {} \<or> refcount k' = refcount k"
  shows "\<And>s. s \<in> R \<Longrightarrow> owned k' s" and "space_inv C R X (tables (mem k')) (mapping (mem k)) (refcount k')"
    and "\<And>s. s \<in> R \<Longrightarrow> s \<noteq> r \<Longrightarrow> mapping (mem k') s = mapping (mem k) s"
    and "\<And>q. loose C R (tables (mem k)) F (refcount k) q \<Longrightarrow> loose C R (tables (mem k')) F (refcount k') q"
    and "intact M C k'"
proof -
  note i = spacesD(2) [OF assms(1)]
  have wt: "owned k' r" "\<forall>t. refcount k t \<noteq> 0 \<longrightarrow> refcount k' t = refcount k t"
    "\<forall>t \<in> tables (mem k') r. t \<in> tables (mem k) r \<or> refcount k t = 0" using assms(3) by (simp_all add: within_tree_def)
  have o: "owned k' s" "mapping (mem k') s = mapping (mem k) s" "tables (mem k') s = tables (mem k) s" if "s \<in> R" "s \<noteq> r" for s
    using other_tree [OF assms(3) spacesD(1) [OF assms(1) that(1)]] space_invD(5) [OF i assms(2) that(1)] that(2) by auto
  show "owned k' s" if "s \<in> R" for s using o(1) wt(1) that by (cases "s = r") auto
  show "mapping (mem k') s = mapping (mem k) s" if "s \<in> R" "s \<noteq> r" for s by (rule o(2) [OF that])
  have i1: "space_inv C R X (tables (mem k)) (mapping (mem k)) (refcount k')"
    by (rule space_take [OF i]) (use assms(4) in \<open>simp add: counts_grow_def\<close>)
  have new: "loose C R (tables (mem k)) (mapping (mem k)) (refcount k') t" if t: "t \<in> tables (mem k') r" "t \<notin> tables (mem k) r" for t
  proof -
    have z: "refcount k t = 0" using wt(3) t by blast
    have "refcount k' t \<noteq> 0" using wt(1) t(1) by (auto simp: owned_def)
    then have n: "refcount k' t = 1" "user_page C t" "X = {}" using assms(4,5) z unfolding counts_grow_def by metis+
    have "t \<notin> tables (mem k) s" if "s \<in> R" for s using spaces_table(1) [OF assms(1) that] z by auto
    moreover have "\<not> maps_in k s va t perm" if "s \<in> R" for s va perm using held_page [OF i that] z n(3) by auto
    ultimately show ?thesis using n by (simp add: loose_def)
  qed
  have "space_inv C R X ((tables (mem k))(r := tables (mem k') r)) (mapping (mem k)) (refcount k')"
    by (rule space_link [OF i1 assms(2)]) (use new in blast)
  then show i2: "space_inv C R X (tables (mem k')) (mapping (mem k)) (refcount k')"
    by (rule space_cong) (use o(3) in auto)
  have "mem k' t = mem k t" if "\<not> user_page C t" for t
    using space_invD(3) [OF i2 assms(2)] that assms(3) unfolding within_tree_def by blast
  then show "intact M C k'" using spacesD(3) [OF assms(1)] unfolding intact_def by metis
  show "loose C R (tables (mem k')) F (refcount k') q" if l: "loose C R (tables (mem k)) F (refcount k) q" for q
  proof -
    have q: "refcount k q \<noteq> 0" "refcount k' q = refcount k q" using l wt(2) by (auto simp: loose_def)
    have "q \<notin> tables (mem k') s" if "s \<in> R" for s
      using l q(1) wt(3) o(3) [OF that] that unfolding loose_def by (cases "s = r") auto
    then show ?thesis using l q(2) by (simp add: loose_def)
  qed
qed

section \<open>Mapping a page\<close>

definition stands :: "pmem \<Rightarrow> nat \<Rightarrow> u64 \<Rightarrow> vmiter \<Rightarrow> bool" where
  "stands m r va it \<longleftrightarrow> settled m it \<and> vva it = va \<and> pageno (vpt it) = r"

lemma standsD:
  assumes "stands m r va it"
  shows "settled m it" and "on_path m it" and "vva it = va" and "pageno (vpt it) = r"
  using assms by (simp_all add: stands_def settled_def)

lemma stands_at:
  assumes "owned k (pageno pt)" and "va_is_canonical va" and "vmiter_at (mem k) pt va = Some it"
  shows "stands (mem k) (pageno pt) va it"
  using vmiter_at_settled [OF assms] by (simp add: stands_def)

lemma stands_outside:
  assumes "stands m r va it" and "\<forall>t \<in> tables m r. m' t = m t"
  shows "stands m' r va it" and "entry m' it = entry m it"
  using settled_outside [of m it m'] assms by (auto simp: stands_def)

text \<open>The common part: on success the mapping of the tree is updated at one page.\<close>

definition new_entry :: "u64 \<Rightarrow> u64 \<Rightarrow> (u64 \<times> u64) option" where
  "new_entry pa perm = (if perm AND PTE_P \<noteq> 0 then Some (pa, perm) else None)"

lemma spaces_try_map:
  assumes "spaces M C R X k" and "r \<in> R" and "stands (mem k) r va it" and "vm_try_map C pa perm it k = Some (res, it', k')"
    and "perm AND 0xFFF = perm" and "X = {} \<or> perm = 0 \<or> vlevel it = 0"
  shows "space_inv C R X (tables (mem k')) (mapping (mem k)) (refcount k')"
    and "\<And>F. space_inv C R X' (tables (mem k')) F (refcount k') \<Longrightarrow>
       (\<And>s va'. s \<in> R \<Longrightarrow> page_va va' \<Longrightarrow> F s va' = ((mapping (mem k))(r := if res < 0 then mapping (mem k) r
           else map_page va (new_entry pa perm) (mapping (mem k) r))) s va') \<Longrightarrow> spaces M C R X' k'"
    and "\<And>q. loose C R (tables (mem k)) F (refcount k) q \<Longrightarrow> loose C R (tables (mem k')) F (refcount k') q"
    and "s \<in> R \<Longrightarrow> mapping (mem k') s = ((mapping (mem k))(r := if res < 0 then mapping (mem k) r
           else map_page va (new_entry pa perm) (mapping (mem k) r))) s"
    and "same_procs k k'" and "vva it' = va" and "pageno (vpt it') = r" and "on_path (mem k') it'"
    and "0 \<le> res \<Longrightarrow> perm AND PTE_P \<noteq> 0 \<Longrightarrow> stands (mem k') r va it'"
    and "vlevel it = 0 \<Longrightarrow> refcount k' = refcount k" and "s \<in> R \<Longrightarrow> owned k' s"
    and "intact M C k'"
proof -
  note st = standsD [OF assms(3)]
  have o: "owned k (pageno (vpt it))" using spacesD(1) [OF assms(1,2)] st(4) by simp
  have e: "vlevel it = 0 \<or> \<not> is_table (entry (mem k) it)"
    using st(1) not_present_no_table by (auto simp: settled_def)
  note u = try_map_updates [OF assms(4) o st(2) e assms(5), unfolded st(3,4), folded new_entry_def]
  have rc0: "refcount k' = refcount k" if "vlevel it = 0"
  proof -
    obtain r1 it1 k1 where a: "(if perm \<noteq> 0 then add_tables C (vlevel it) it k else Some (0, it, k)) = Some (r1, it1, k1)"
      and c: "refcount k' = refcount k1"
      by (rule try_map_cases [OF assms(4)]) (rule that, assumption, auto simp: set_entry_def)
    have "k1 = k" using a that by (auto simp: add_tables_0 split: if_splits)
    then show ?thesis using c by simp
  qed
  then show "vlevel it = 0 \<Longrightarrow> refcount k' = refcount k" .
  have rc: "X = {} \<or> refcount k' = refcount k" using assms(6) rc0 try_map_counts(2) [OF assms(4)] by blast
  note w = spaces_within [OF assms(1,2) u(1) try_map_counts(1) [OF assms(4)] rc]
  show "space_inv C R X (tables (mem k')) (mapping (mem k)) (refcount k')" by (rule w(2))
  show "s \<in> R \<Longrightarrow> owned k' s" by (rule w(1))
  show "intact M C k'" by (rule w(5))
  show m: "mapping (mem k') s = ((mapping (mem k))(r := if res < 0 then mapping (mem k) r
           else map_page va (new_entry pa perm) (mapping (mem k) r))) s" if "s \<in> R" for s
    using u(5) w(3) that by simp
  show "spaces M C R X' k'" if "space_inv C R X' (tables (mem k')) F (refcount k')"
    and f: "\<And>s va'. s \<in> R \<Longrightarrow> page_va va' \<Longrightarrow> F s va' = ((mapping (mem k))(r := if res < 0 then mapping (mem k) r
           else map_page va (new_entry pa perm) (mapping (mem k) r))) s va'" for F
    unfolding spaces_def
  proof (intro conjI)
    show "intact M C k'" by (rule w(5))
  next
    show "\<forall>r \<in> R. owned k' r" using w(1) by blast
  next
    show "space_inv C R X' (tables (mem k')) (mapping (mem k')) (refcount k')"
      by (rule space_cong [OF that(1)]) (simp_all add: m f)
  qed
  show "loose C R (tables (mem k)) F (refcount k) q \<Longrightarrow> loose C R (tables (mem k')) F (refcount k') q" for q by (rule w(4))
  show "same_procs k k'" by (rule try_map_same [OF assms(4)])
  show "vva it' = va" by (rule u(3))
  have vp: "pageno (vpt it') = r" using u(4) st(4) by simp
  then show "pageno (vpt it') = r" .
  show "on_path (mem k') it'" by (rule u(2))
  show "stands (mem k') r va it'" if "0 \<le> res" "perm AND PTE_P \<noteq> 0"
    using u(2,3,6) vp that by (simp add: stands_def settled_def)
qed

text \<open>A page without a mapping has no present entry.\<close>

lemma is_table_present: "is_table e \<Longrightarrow> bit e 0"
proof -
  assume "is_table e"
  then have "e AND PTE_P \<noteq> 0" using not_present_no_table by blast
  then show "bit e 0" by (simp only: has_bits)
qed

lemma path_perm_present: "table_at m r va d = Some (p, perm) \<Longrightarrow> bit perm 0"
proof (induction d arbitrary: p perm)
  case 0
  then have "perm = initial_perm" by simp
  then show ?case by (simp add: initial_perm_def bit_mask12)
next
  case (Suc d)
  obtain p' perm' where t: "table_at m r va d = Some (p', perm')" "is_table (m p' (pageindex va (3 - d)))"
    "perm = table_perm perm' (m p' (pageindex va (3 - d)))"
    using Suc.prems by (auto simp: table_at.simps(2) Let_def split: option.splits if_splits)
  show ?case unfolding t(3) table_perm_def bit_and_iff bit_or_iff using Suc.IH [OF t(1)] is_table_present [OF t(2)] by simp
qed

lemma unmapped_entry:
  assumes "settled m it" and "mapping m (pageno (vpt it)) (vva it) = None"
  shows "entry m it AND PTE_P = 0"
proof (cases "vlevel it = 0")
  case True
  then obtain p where p: "vpep it = Some (p, pageindex (vva it) 0)" "table_at m (pageno (vpt it)) (vva it) 3 = Some (p, vperm it)"
    using assms(1) by (auto simp: settled_def on_path_def)
  then have z: "entry m it AND vperm it AND PTE_P = 0" using assms(2) by (auto simp: mapping_def entry_def Let_def split: if_splits)
  have "\<not> bit (entry m it) 0"
  proof
    assume "bit (entry m it) 0"
    then have "bit (entry m it AND vperm it) 0" using path_perm_present [OF p(2)] unfolding bit_and_iff by simp
    then have "(entry m it AND vperm it) AND PTE_P \<noteq> 0" by (simp only: has_bits)
    then show False using z by (simp only: and.assoc)
  qed
  then show ?thesis using has_bits(2) by blast
next
  case False
  then show ?thesis using assms(1) by (simp add: settled_def)
qed

lemma unmapped_kptr:
  assumes "stands m r va it" and "mapping m r va = None"
  shows "vm_kptr m it = 0" and "vm_pa m it = -1" and "vm_perm m it = 0"
proof -
  have e: "entry m it AND PTE_P = 0" using unmapped_entry standsD [OF assms(1)] assms(2) by blast
  show "vm_kptr m it = 0" "vm_pa m it = -1" using e by (simp_all add: vm_kptr_def vm_pa_def)
  show "vm_perm m it = 0" using vm_perm_mapping standsD [OF assms(1)] assms(2) by simp
qed

lemma mapped_kptr:
  assumes "stands m r va it" and "page_va va" and "mapping m r va = Some (pa, perm)"
  shows "vm_kptr m it = pa" and "vm_pa m it = pa" and "vm_perm m it = perm" and "vlevel it = 0"
proof -
  note st = standsD [OF assms(1)]
  have a: "unat (vva it) mod PAGESIZE = 0" using assms(2) st(3) by (simp add: page_va_def)
  have mp: "mapping m (pageno (vpt it)) (vva it) = Some (pa, perm)" using assms(3) st(3,4) by simp
  show "vm_kptr m it = pa" "vm_pa m it = pa" by (rule vm_pa_mapping [OF st(1) a mp])+
  show "vm_perm m it = perm" using vm_perm_mapping [OF st(1)] mp by simp
  show "vlevel it = 0" by (rule mapping_entry [OF st(1) mp])
qed

text \<open>A fresh page is mapped; a mapping that it replaces is lost.\<close>

lemma spaces_map_fresh:
  assumes "spaces M C R {} k" and "r \<in> R" and "stands (mem k) r va it" and "vm_try_map C (page_addr q) perm it k = Some (res, it', k')"
    and "perm AND 0xFFF = perm" and "perm AND PTE_P \<noteq> 0" and "spare C R k q" and "page_va va" and "PROC_START_ADDR \<le> va"
    and "\<forall>n p. maps_in k r va n p \<longrightarrow> refcount k n = 1"
  shows "spaces M C R {} k'" and "res < 0 \<Longrightarrow> spare C R k' q" and "\<And>s. s \<in> R \<Longrightarrow> q \<notin> tables (mem k') s"
proof -
  have x0: "{} = {} \<or> perm = 0 \<or> vlevel it = 0" by simp
  note t = spaces_try_map [OF assms(1-5) x0]
  have q: "loose C R (tables (mem k')) (mapping (mem k)) (refcount k') q" by (rule t(3) [OF assms(7)])
  show "\<And>s. s \<in> R \<Longrightarrow> q \<notin> tables (mem k') s" using q by (simp add: loose_def)
  have e: "new_entry (page_addr q) perm = Some (page_addr q, perm)" using assms(6) by (simp add: new_entry_def)
  show "res < 0 \<Longrightarrow> spare C R k' q"
    using q by (subst loose_cong [where T = "tables (mem k')" and F = "mapping (mem k)" and rc = "refcount k'"]) (use t(4) in simp_all)
  show "spaces M C R {} k'"
  proof (cases "res < 0")
    case True
    show ?thesis by (rule t(2) [OF t(1)]) (use True in simp)
  next
    case False
    have one: "refcount k' n = 1" if "maps_in k r va n p" for n p
      using assms(10) that try_map_counts(1) [OF assms(4)] unfolding counts_grow_def by (metis zero_neq_one)
    let ?F = "(mapping (mem k))(r := map_page va (Some (page_addr q, perm)) (mapping (mem k) r))"
    have i1: "space_inv C R {(r, va)} (tables (mem k')) (mapping (mem k)) (refcount k')"
      by (rule space_begin [OF t(1) assms(2)]) (rule one)
    have i2: "space_inv C R {(r, va)} (tables (mem k')) ?F (refcount k')"
    proof (rule space_replace [OF i1 assms(2,8,9)])
      fix pa p
      assume "Some (page_addr q, perm) = Some (pa, p)"
      then show "\<exists>q. pa = page_addr q \<and> user_page C q \<and> (\<forall>s \<in> R. q \<notin> tables (mem k') s) \<and> (\<forall>va' perm'. maps_in k r va' q perm' \<longrightarrow> va' = va)"
        using q assms(2) unfolding loose_def by blast
    qed
    have no: "\<not> maps_in k s va' q p" if "s \<in> R" for s va' p using q that by (simp add: loose_def)
    have "holders R {(r, va)} ?F q = {}" unfolding holders_def maps_upd [OF assms(8)] using no by auto
    moreover have "maps ?F r va q perm" "refcount k' q = 1"
      using q user_page_less assms(9) unfolding maps_upd [OF assms(8)] by (auto simp: loose_def)
    ultimately have i3: "space_inv C R {} (tables (mem k')) ?F (refcount k')" using space_end_one [OF i2 assms(2)] by blast
    show ?thesis by (rule t(2) [OF i3]) (use False e in simp)
  qed
qed

text \<open>Releasing the page at an address and taking it out of the mapping.\<close>

lemma kfree_null [simp]: "kfree 0 k = Some k"
  by (simp add: kfree_def)

lemma spaces_unmap:
  assumes "spaces M C R {(r, va)} k" and "r \<in> R" and "stands (mem k) r va it" and "vm_map C pa 0 it k = Some (it', k')"
    and "page_va va" and "PROC_START_ADDR \<le> va"
  shows "spaces M C R {} k'" and "on_path (mem k') it'" and "vva it' = va" and "pageno (vpt it') = r" and "same_procs k k'"
    and "spare C R k q \<Longrightarrow> spare C R k' q"
proof -
  have tm: "vm_try_map C pa 0 it k = Some (0, it', k')"
    using assms(4) by (auto simp: vm_map_def assert_ok_def split: Option.bind_splits if_splits)
  have x0: "{(r, va)} = {} \<or> (0 :: u64) = 0 \<or> vlevel it = 0" by simp
  note t = spaces_try_map [OF assms(1-3) tm _ x0]
  let ?F = "(mapping (mem k))(r := map_page va None (mapping (mem k) r))"
  have i0: "space_inv C R {(r, va)} (tables (mem k')) (mapping (mem k)) (refcount k')" by (rule t(1)) simp
  have i2: "space_inv C R {(r, va)} (tables (mem k')) ?F (refcount k')"
    by (rule space_replace [OF i0 assms(2,5,6)]) simp
  have i3: "space_inv C R {} (tables (mem k')) ?F (refcount k')"
    by (rule space_end_none [OF i2 assms(2)]) (simp add: maps_upd [OF assms(5)])
  show "spaces M C R {} k'" by (rule t(2) [OF _ i3]) (simp_all add: new_entry_def)
  show "on_path (mem k') it'" "vva it' = va" "pageno (vpt it') = r" "same_procs k k'" using t(5-8) by simp_all
  show "spare C R k' q" if "spare C R k q"
  proof -
    have l: "loose C R (tables (mem k')) (mapping (mem k)) (refcount k') q" by (rule t(3) [OF _ that]) simp
    have "maps_in k' s va' q p \<Longrightarrow> maps_in k s va' q p" if "s \<in> R" for s va' p
      using t(4) [OF _ that] map_page_at [OF assms(5), of va' None "mapping (mem k) r"]
      by (auto simp: maps_def new_entry_def split: if_splits)
    then show ?thesis using l unfolding loose_def by blast
  qed
qed

lemma spaces_drop_page:
  assumes "spaces M C R {} k" and "r \<in> R" and "stands (mem k) r va it" and "kfree (vm_kptr (mem k) it) k = Some k1"
    and "vm_map C (vm_kptr (mem k1) it) 0 it k1 = Some (it', k2)" and "page_va va" and "PROC_START_ADDR \<le> va"
  shows "spaces M C R {} k2" and "on_path (mem k2) it'" and "vva it' = va" and "pageno (vpt it') = r" and "same_procs k k2"
    and "spare C R k q \<Longrightarrow> spare C R k2 q"
proof -
  have "spaces M C R {(r, va)} k1 \<and> stands (mem k1) r va it \<and> same_procs k k1 \<and> (\<forall>q. spare C R k q \<longrightarrow> spare C R k1 q)"
  proof (cases "mapping (mem k) r va")
    case None
    then have "k1 = k" using assms(4) unmapped_kptr [OF assms(3)] by simp
    moreover have "space_inv C R {(r, va)} (tables (mem k)) (mapping (mem k)) (refcount k)"
      by (rule space_begin [OF spacesD(2) [OF assms(1)] assms(2)]) (use None in \<open>simp add: maps_def\<close>)
    ultimately show ?thesis using assms(1,3) by (simp add: spaces_def)
  next
    case (Some x)
    obtain pa perm where x: "x = (pa, perm)" by (cases x) auto
    obtain n where n: "pa = page_addr n" "maps_in k r va n perm"
      using mapped_page [OF spacesD(2) [OF assms(1)] assms(2,6,7), of pa perm] Some x by blast
    have kf: "kfree (page_addr n) k = Some k1" using assms(4) mapped_kptr(1) [OF assms(3,6)] Some x n(1) by simp
    note f = spaces_kfree_mapped [OF assms(1,2) n(2) _ kf]
    have "stands (mem k1) r va it" by (rule stands_outside(1) [OF assms(3)]) (use f(4) assms(2) in simp)
    moreover have "spare C R k1 q" if l: "spare C R k q" for q
    proof -
      have "q \<noteq> n" using l n(2) assms(2) by (auto simp: loose_def)
      then have "refcount k1 q = refcount k q"
        using kfree_page(2) [OF kf] maps_page(1) [OF spacesD(2) [OF assms(1)] assms(2) n(2)] user_page_less user_page_pos by auto
      moreover have "spare C R k1 q = spare C R k q" by (rule loose_cong) (use f(2,3) calculation in simp_all)
      ultimately show ?thesis using l by simp
    qed
    ultimately show ?thesis using f(1) kfree_same [OF kf] by blast
  qed
  then have k1: "spaces M C R {(r, va)} k1" "stands (mem k1) r va it" "same_procs k k1" "\<forall>q. spare C R k q \<longrightarrow> spare C R k1 q" by blast+
  note u = spaces_unmap [OF k1(1) assms(2) k1(2) assms(5-7)]
  show "spaces M C R {} k2" "on_path (mem k2) it'" "vva it' = va" "pageno (vpt it') = r" by (rule u)+
  show "same_procs k k2" by (rule same_procs_trans [OF k1(3) u(5)])
  show "spare C R k q \<Longrightarrow> spare C R k2 q" using k1(4) u(6) by blast
qed

end
