(* ===== verification/KLoops.thy ===== *)
theory KLoops
  imports KGuard
begin

text \<open>
  The loops of the kernel over the pages of an address space, in terms of theory KGuard: each
  of them keeps the agreement between address spaces and reference counts.
\<close>

section \<open>Numbered pages\<close>

lemma low_page_addr:
  assumes "i < 2 ^ 35"
  shows "unat (page_addr i) = i * 4096" and "page_va (page_addr i)"
proof -
  show u: "unat (page_addr i) = i * 4096" using unat_page_addr [of i] assms by simp
  have "i * 4096 < 2 ^ 35 * 4096" using assms by simp
  then show "page_va (page_addr i)" by (simp add: page_va_def va_is_canonical_def word_le_nat_alt u)
qed

lemma page_order:
  assumes "i < 2 ^ 35" and "j < 2 ^ 35"
  shows "page_addr i < page_addr j \<longleftrightarrow> i < j" and "page_addr i = page_addr j \<longleftrightarrow> i = j"
proof -
  note u = low_page_addr(1) [OF assms(1)] low_page_addr(1) [OF assms(2)]
  show "page_addr i < page_addr j \<longleftrightarrow> i < j" by (simp add: word_less_nat_alt u)
  show "page_addr i = page_addr j \<longleftrightarrow> i = j" by (simp add: word_unat_eq_iff u)
qed

lemma page_bounds:
  assumes "i < 2 ^ 35"
  shows "PROC_START_ADDR \<le> page_addr i \<longleftrightarrow> 256 \<le> i" and "page_addr i < MEMSIZE_VIRTUAL \<longleftrightarrow> i < 768"
  by (simp_all add: word_le_nat_alt word_less_nat_alt low_page_addr(1) [OF assms] addr_defs)

lemma small_page_va:
  assumes "page_va va" and "va < MEMSIZE_VIRTUAL"
  obtains j where "va = page_addr j" and "j < 768"
proof -
  define j where "j = unat va div 4096"
  have u: "unat va = j * 4096" using assms(1) by (auto simp: page_va_def j_def)
  have "unat va < 0x300000" using assms(2) by (simp add: word_less_nat_alt addr_defs)
  then have j: "j < 768" using u by simp
  have "unat (page_addr j) = j * 4096" by (rule low_page_addr) (use j in simp)
  then have "va = page_addr j" using u by (simp add: word_unat_eq_iff)
  then show ?thesis using that j by blast
qed

lemma add_pages: "page_addr i + of_nat (n * 4096) = page_addr (i + n)"
  by (simp add: page_addr_def algebra_simps)

text \<open>Moving an iterator by a page.\<close>

lemma advance_stands:
  assumes "vm_advance m it (of_nat PAGESIZE) = Some it'" and "on_path m it" and "small_pages m (pageno (vpt it))"
    and "va_is_canonical (vva it + of_nat PAGESIZE)"
  shows "stands m (pageno (vpt it)) (vva it + of_nat PAGESIZE) it'"
proof -
  have "real_find m it (vva it + of_nat PAGESIZE) = Some it'"
    using assms(1) by (simp add: vm_advance_def vm_find_def)
  then have f: "vmiter_at m (vpt it) (vva it + of_nat PAGESIZE) = Some it'"
    using real_find_fresh [OF assms(2,4)] by simp
  note w = vmiter_at_path [OF assms(4) f]
  have "settled m it'" by (rule settledI [OF w(1,4)]) (use assms(3) w(3) in simp)
  then show ?thesis using w by (simp add: stands_def)
qed

lemma advance_page:
  assumes "vm_advance (mem k) it (of_nat PAGESIZE) = Some it'" and "on_path (mem k) it" and "vva it = page_addr i"
    and "pageno (vpt it) = r" and "owned k r" and "i + 1 < 2 ^ 35"
  shows "stands (mem k) r (page_addr (Suc i)) it'"
proof -
  have c: "vva it + of_nat PAGESIZE = page_addr (Suc i)" unfolding assms(3) by (rule page_next)
  have "va_is_canonical (page_addr (Suc i))" using low_page_addr(2) [of "Suc i"] assms(6) by (simp add: page_va_def)
  then show ?thesis using advance_stands [OF assms(1,2)] assms(4,5) unfolding c by (simp add: owned_def)
qed

lemma real_find_va: "real_find m it va = Some it' \<Longrightarrow> vva it' = va \<and> vpt it' = vpt it"
  by (auto simp: real_find_def down_def Let_def down_loop_frame split: if_splits option.splits)

lemma advance_va: "vm_advance m it d = Some it' \<Longrightarrow> vva it' = vva it + d \<and> vpt it' = vpt it"
  using real_find_va [of m it "vva it + d" it'] by (auto simp: vm_advance_def vm_find_def split: if_splits)

section \<open>Giving up an address space\<close>

text \<open>The pages of the process: after the pages below \<open>i\<close> have been passed, exactly their user
  pages have been released.\<close>

definition passed :: "kstate \<Rightarrow> nat \<Rightarrow> nat \<Rightarrow> (nat \<times> u64) set" where
  "passed k r i = {(r, page_addr j) | j. 256 \<le> j \<and> j < i \<and> is_user (mapping (mem k) r (page_addr j))}"

lemma user_perm: "is_user (Some (pa, perm)) \<longleftrightarrow> perm AND (PTE_P OR PTE_U) = PTE_P OR PTE_U"
  by (simp add: is_user_def)

lemma bit_PTE_U: "bit PTE_U n \<longleftrightarrow> n = 2"
proof -
  have e: "PTE_U = push_bit 2 1" by (simp add: PTE_U_def)
  show ?thesis unfolding e bit_push_bit_iff bit_1_iff by auto
qed

lemma user_bit: "w AND PTE_U \<noteq> 0 \<longleftrightarrow> bit w 2" for w :: u64
proof
  assume "w AND PTE_U \<noteq> 0"
  then obtain n where "bit (w AND PTE_U) n" using bit_eq_iff [of "w AND PTE_U" 0] by auto
  then have "bit w n \<and> n = 2" unfolding bit_and_iff bit_PTE_U .
  then show "bit w 2" by auto
next
  assume "bit w 2"
  then have "bit (w AND PTE_U) 2" unfolding bit_and_iff bit_PTE_U by simp
  then show "w AND PTE_U \<noteq> 0" by auto
qed

lemma user_bits: "w AND (PTE_P OR PTE_U) = PTE_P OR PTE_U \<longleftrightarrow> w AND PTE_P \<noteq> 0 \<and> w AND PTE_U \<noteq> 0" for w :: u64
proof -
  have "w AND (PTE_P OR PTE_U) = PTE_P OR PTE_U \<longleftrightarrow> bit w 0 \<and> bit w 2"
  proof
    assume e: "w AND (PTE_P OR PTE_U) = PTE_P OR PTE_U"
    have "bit (w AND (PTE_P OR PTE_U)) n" if "n = 0 \<or> n = 2" for n
      unfolding e bit_or_iff bit_PTE_P bit_PTE_U by (rule that)
    then show "bit w 0 \<and> bit w 2" unfolding bit_and_iff by blast
  next
    assume b: "bit w 0 \<and> bit w 2"
    show "w AND (PTE_P OR PTE_U) = PTE_P OR PTE_U"
      by (rule bit_word_eqI) (use b in \<open>auto simp: bit_and_iff bit_or_iff bit_PTE_P bit_PTE_U\<close>)
  qed
  then show ?thesis using has_bits(2) user_bit by simp
qed

lemma stands_user:
  assumes "stands m r va it" and "page_va va"
  shows "vm_user m it \<longleftrightarrow> is_user (mapping m r va)" and "vm_present m it \<longleftrightarrow> mapping m r va \<noteq> None"
proof -
  note st = standsD [OF assms(1)]
  have p: "vm_perm m it = (case mapping m r va of None \<Rightarrow> 0 | Some (pa, perm) \<Rightarrow> perm)"
    using vm_perm_mapping [OF st(1)] st(3,4) by simp
  show "vm_user m it \<longleftrightarrow> is_user (mapping m r va)"
    unfolding vm_user_def vm_has_def p is_user_def by (cases "mapping m r va") (simp_all add: pte_defs split: prod.splits)
  have "perm AND PTE_P = PTE_P" if "mapping m r va = Some (pa, perm)" for pa perm
  proof -
    have "perm AND PTE_P \<noteq> 0" by (rule mapping_low [OF that])
    then show ?thesis by (auto simp: PTE_P_def and_one_eq split: if_splits)
  qed
  then show "vm_present m it \<longleftrightarrow> mapping m r va \<noteq> None"
    unfolding vm_present_def vm_has_def p by (cases "mapping m r va") (auto simp: pte_defs)
qed

lemma console_not_user: "user_page C n \<Longrightarrow> page_addr n \<noteq> CONSOLE_ADDR"
proof
  assume u: "user_page C n" and e: "page_addr n = CONSOLE_ADDR"
  have "allocatable_physical_address C CONSOLE_ADDR" using u unfolding user_page_def e by simp
  then show False by (simp add: allocatable_physical_address_def reserved_physical_address_def CONSOLE_ADDR_def)
qed

lemma passed_Suc:
  "passed k r (Suc i) = (if 256 \<le> i \<and> is_user (mapping (mem k) r (page_addr i)) then insert (r, page_addr i) (passed k r i) else passed k r i)"
  by (auto simp: passed_def less_Suc_eq)

lemma passed_cong: "mapping (mem k') r = mapping (mem k) r \<Longrightarrow> passed k' r i = passed k r i"
  by (simp add: passed_def)

lemma not_passed: "i < 2 ^ 35 \<Longrightarrow> (r, page_addr i) \<notin> passed k r i"
  using page_order(2) by (auto simp: passed_def)

lemma page_768: "page_addr 768 = MEMSIZE_VIRTUAL"
  by (simp add: page_addr_def addr_defs)

lemma free_mapped_spaces:
  assumes "free_mapped it k = Some k'" and "spaces M C R (passed k r i) k" and "r \<in> R" and "stands (mem k) r (page_addr i) it" and "i \<le> 768"
  shows "spaces M C R (passed k' r 768) k' \<and> (\<forall>s \<in> R. tables (mem k') s = tables (mem k) s)
    \<and> (\<forall>s \<in> R. \<forall>t \<in> tables (mem k) s. mem k' t = mem k t)"
  using assms
proof (induction "768 - i" arbitrary: i it k)
  case 0
  then have i: "i = 768" by simp
  have "\<not> vva it < MEMSIZE_VIRTUAL" using 0 standsD(3) [OF 0(5)] unfolding i by (simp add: page_768)
  then have "k' = k" using 0(2) by (simp add: free_mapped.simps [of it k])
  then show ?case using 0(3) i by simp
next
  case (Suc d)
  then have i: "i < 768" "i < 2 ^ 35" by simp_all
  note st = standsD [OF Suc.prems(4)]
  note sp = spacesD(2) [OF Suc.prems(2)]
  have v: "page_va (page_addr i)" by (rule low_page_addr [OF i(2)])
  have lt: "vva it < MEMSIZE_VIRTUAL" using st(3) page_bounds [OF i(2)] i(1) by simp
  obtain k1 it1 where k1: "(if vm_user (mem k) it \<and> vm_pa (mem k) it \<noteq> CONSOLE_ADDR then kfree (vm_pa (mem k) it) k else Some k) = Some k1"
    and it1: "vm_advance (mem k1) it (of_nat PAGESIZE) = Some it1" and rest: "free_mapped it1 k1 = Some k'"
    using Suc.prems(1) lt by (simp add: free_mapped.simps [of it k] bind_eq_Some_conv) blast
  have "spaces M C R (passed k r (Suc i)) k1 \<and> (\<forall>s \<in> R. tables (mem k1) s = tables (mem k) s)
     \<and> (\<forall>s \<in> R. mapping (mem k1) s = mapping (mem k) s) \<and> (\<forall>s \<in> R. \<forall>t \<in> tables (mem k) s. mem k1 t = mem k t)"
  proof (cases "256 \<le> i \<and> is_user (mapping (mem k) r (page_addr i))")
    case True
    then obtain pa perm where m: "mapping (mem k) r (page_addr i) = Some (pa, perm)" by (auto simp: is_user_def split: option.splits)
    have "PROC_START_ADDR \<le> page_addr i" using True page_bounds [OF i(2)] by simp
    then obtain n where n: "pa = page_addr n" "maps_in k r (page_addr i) n perm"
      using mapped_page [OF sp Suc.prems(3) v _ m] by blast
    have u: "vm_user (mem k) it" "vm_pa (mem k) it = page_addr n"
      using stands_user(1) [OF Suc.prems(4) v] True mapped_kptr(2) [OF Suc.prems(4) v m] n(1) by simp_all
    have "page_addr n \<noteq> CONSOLE_ADDR" by (rule console_not_user [OF maps_page(1) [OF sp Suc.prems(3) n(2)]])
    then have kf: "kfree (page_addr n) k = Some k1" using k1 u by simp
    note f = spaces_kfree_mapped [OF Suc.prems(2,3) n(2) not_passed [OF i(2)] kf]
    have "passed k r (Suc i) = insert (r, page_addr i) (passed k r i)" using True by (simp add: passed_Suc)
    then show ?thesis using f by simp
  next
    case False
    have "k1 = k"
    proof (cases "vm_user (mem k) it \<and> vm_pa (mem k) it \<noteq> CONSOLE_ADDR")
      case True
      then have us: "is_user (mapping (mem k) r (page_addr i))" using stands_user(1) [OF Suc.prems(4) v] by simp
      then obtain pa perm where m: "mapping (mem k) r (page_addr i) = Some (pa, perm)" "perm AND PTE_U \<noteq> 0"
        by (auto simp: is_user_def user_bits split: option.splits)
      have "page_addr i < PROC_START_ADDR" using False us page_bounds [OF i(2)] by (simp add: not_le)
      then have "pa = CONSOLE_ADDR" using space_invD(6) [OF sp Suc.prems(3) v _ m] by blast
      then show ?thesis using True mapped_kptr(2) [OF Suc.prems(4) v m(1)] by simp
    next
      case False
      then show ?thesis using k1 by auto
    qed
    moreover have "passed k r (Suc i) = passed k r i" unfolding passed_Suc by (rule if_not_P [OF False])
    ultimately show ?thesis using Suc.prems(2) by simp
  qed
  then have s1: "spaces M C R (passed k r (Suc i)) k1" "\<forall>s \<in> R. tables (mem k1) s = tables (mem k) s"
    "\<forall>s \<in> R. mapping (mem k1) s = mapping (mem k) s" "\<forall>s \<in> R. \<forall>t \<in> tables (mem k) s. mem k1 t = mem k t" by blast+
  have st1: "stands (mem k1) r (page_addr i) it" by (rule stands_outside(1) [OF Suc.prems(4)]) (use s1(4) Suc.prems(3) in blast)
  have i2: "i + 1 < 2 ^ 35" using i(1) by simp
  have "stands (mem k1) r (page_addr (Suc i)) it1"
    by (rule advance_page [OF it1 standsD(2,3,4) [OF st1] spacesD(1) [OF s1(1) Suc.prems(3)] i2])
  moreover have "passed k1 r (Suc i) = passed k r (Suc i)" by (rule passed_cong) (use s1(3) Suc.prems(3) in blast)
  moreover have d: "d = 768 - Suc i" using Suc.hyps(2) by simp
  ultimately have "spaces M C R (passed k' r 768) k' \<and> (\<forall>s \<in> R. tables (mem k') s = tables (mem k1) s)
    \<and> (\<forall>s \<in> R. \<forall>t \<in> tables (mem k1) s. mem k' t = mem k1 t)"
    by (intro Suc.hyps(1) [OF d rest _ Suc.prems(3)]) (use s1(1) i in simp_all)
  then show ?case using s1(2,4) by simp
qed

text \<open>The iterator over table pages stands on the path of its address in the tree as it was
  (\<open>m0\<close>); pages that have been released since are zero.\<close>

definition on_tables :: "pmem \<Rightarrow> nat \<Rightarrow> ptiter \<Rightarrow> bool" where
  "on_tables m0 r it \<longleftrightarrow> pageno (ppt it) = r \<and> 1 \<le> plevel it \<and> plevel it \<le> 3 \<and> unat (pva it) < 2 ^ 48
     \<and> (\<exists>p perm. ppep it = (p, pageindex (pva it) (plevel it)) \<and> table_at m0 r (pva it) (3 - plevel it) = Some (p, perm))"

lemma next_entry:
  assumes "unat (a :: u64) < 2 ^ 48" and "l \<le> 3"
  shows "unat ((a OR pageoffmask l) + 1) = (unat a div 2 ^ (12 + l * 9) + 1) * 2 ^ (12 + l * 9)"
proof -
  define n where "n = 12 + l * 9"
  have n: "n \<le> 39" using assms(2) by (simp add: n_def)
  have "a OR mask n = push_bit n (drop_bit n a) + mask n"
  proof -
    have "a OR mask n = push_bit n (drop_bit n a) OR mask n"
      by (rule bit_word_eqI) (auto simp: bit_simps)
    also have "\<dots> = push_bit n (drop_bit n a) + mask n"
      by (rule disjunctive_add [symmetric]) (auto simp: bit_simps)
    finally show ?thesis .
  qed
  moreover have "mask n + 1 = (push_bit n 1 :: u64)" by (simp add: mask_eq_exp_minus_1 push_bit_eq_mult)
  ultimately have e: "(a OR mask n) + 1 = (drop_bit n a + 1) * 2 ^ n"
    by (simp add: push_bit_eq_mult algebra_simps)
  define q where "q = unat a div 2 ^ n"
  have dq: "unat (drop_bit n a) = q" unfolding q_def unat_drop_bit_eq by (simp only: drop_bit_eq_div)
  have "q * 2 ^ n \<le> unat a" by (simp add: q_def)
  moreover have "(2 :: nat) ^ n \<le> 2 ^ 39" by (rule power_increasing [OF n]) simp
  ultimately have lt: "(q + 1) * 2 ^ n < 2 ^ 64" using assms(1) by simp
  have "drop_bit n a = of_nat q" unfolding dq [symmetric] by simp
  then have w: "(drop_bit n a + 1) * 2 ^ n = of_nat ((q + 1) * 2 ^ n)" by (simp add: algebra_simps)
  have "unat ((a OR mask n) + 1) = (q + 1) * 2 ^ n" unfolding e w by (rule unat64_of_nat) (use lt in simp)
  then show ?thesis by (simp add: pageoffmask_mask n_def q_def)
qed

text \<open>Stepping to the next entry of the same table.\<close>

lemma on_tables_next:
  assumes "on_tables m0 r it" and "va = (pva it OR pageoffmask (plevel it)) + 1"
    and "(va XOR pva it) AND NOT (pageoffmask (plevel it + 1)) = 0"
  shows "on_tables m0 r (it\<lparr>ppep := (fst (ppep it), snd (ppep it) + 1), pva := va\<rparr>)"
proof -
  define l where "l = plevel it"
  define n where "n = 12 + l * 9"
  obtain p perm where o: "pageno (ppt it) = r" "1 \<le> l" "l \<le> 3" "unat (pva it) < 2 ^ 48" "ppep it = (p, pageindex (pva it) l)"
    "table_at m0 r (pva it) (3 - l) = Some (p, perm)"
    using assms(1) by (auto simp: on_tables_def l_def)
  define q where "q = unat (pva it) div 2 ^ n"
  have va: "unat va = (q + 1) * 2 ^ n" using next_entry [OF o(4,3)] unfolding assms(2) l_def [symmetric] by (simp add: n_def q_def)
  have x: "(pva it XOR va) AND NOT (pageoffmask (Suc l)) = 0" using assms(3) by (simp add: l_def xor.commute)
  have same: "pageindex (pva it) l' = pageindex va l'" if "Suc l \<le> l'" for l' by (rule pageindex_cong [OF x that])
  have t: "table_at m0 r va (3 - l) = table_at m0 r (pva it) (3 - l)"
    using table_at_cong [OF x, of "3 - l" m0 r] o(3) by simp
  have idx: "pageindex a l = unat a div 2 ^ n mod 512" for a by (simp add: pageindex_div n_def)
  have i0: "pageindex (pva it) l = q mod 512" by (simp add: idx q_def)
  have i1: "pageindex va l = (q + 1) mod 512" by (simp add: idx va)
  have up: "unat a div 2 ^ (12 + Suc l * 9) = unat a div 2 ^ n div 512" for a :: u64
  proof -
    have "(2 :: nat) ^ (12 + Suc l * 9) = 2 ^ n * 512" by (simp add: n_def power_add)
    then show ?thesis by (simp only: div_mult2_eq)
  qed
  have "q mod 512 \<noteq> 511"
  proof
    assume h: "q mod 512 = 511"
    have h1: "(pva it XOR va) AND NOT (mask (12 + Suc l * 9)) = 0" using x by (simp add: pageoffmask_mask)
    have "drop_bit (12 + Suc l * 9) (pva it) = drop_bit (12 + Suc l * 9) va"
    proof (rule bit_word_eqI)
      fix i
      assume "i < LENGTH(64)"
      have "\<not> bit ((pva it XOR va) AND NOT (mask (12 + Suc l * 9))) (12 + Suc l * 9 + i)" unfolding h1 by simp
      then show "bit (drop_bit (12 + Suc l * 9) (pva it)) i = bit (drop_bit (12 + Suc l * 9) va) i"
        by (auto simp: bit_simps dest: bit_imp_le_length)
    qed
    then have "unat (pva it) div 2 ^ (12 + Suc l * 9) = unat va div 2 ^ (12 + Suc l * 9)"
      by (metis unat_drop_bit_eq drop_bit_eq_div)
    then have "q div 512 = (q + 1) div 512" unfolding up by (simp add: q_def va)
    moreover have "q + 1 = 512 * (q div 512 + 1)" using h mult_div_mod_eq [of 512 q] by simp
    then have "(q + 1) div 512 = q div 512 + 1" by (metis nonzero_mult_div_cancel_left zero_neq_numeral)
    ultimately show False by simp
  qed
  then have "(q + 1) mod 512 = q mod 512 + 1" by (simp add: mod_Suc)
  then have i: "pageindex va l = pageindex (pva it) l + 1" unfolding i0 i1 .
  have "unat va < 2 ^ 48"
  proof -
    have "q * 2 ^ n < 2 ^ 48" unfolding q_def by (rule le_less_trans [OF div_times_less_eq_dividend o(4)])
    moreover have pw: "(2 :: nat) ^ 48 = 2 ^ (48 - n) * 2 ^ n" using o(3) by (simp add: n_def flip: power_add)
    ultimately have "q < 2 ^ (48 - n)" by (metis mult_less_cancel2)
    then have q1: "q + 1 \<le> 2 ^ (48 - n)" by simp
    have "(q + 1) * 2 ^ n \<noteq> 2 ^ 48"
    proof
      assume "(q + 1) * 2 ^ n = 2 ^ 48"
      then have "(q + 1) * 2 ^ n = 2 ^ (48 - n) * 2 ^ n" by (rule trans [OF _ pw])
      then have "q + 1 = 2 ^ (48 - n)" by (metis mult_cancel2 power_not_zero zero_neq_numeral)
      moreover have "(2 :: nat) ^ (48 - n) = 512 * 2 ^ (48 - n - 9)"
      proof -
        have "48 - n = 9 + (48 - n - 9)" using o(3) by (simp add: n_def)
        then have "(2 :: nat) ^ (48 - n) = 2 ^ 9 * 2 ^ (48 - n - 9)" by (metis power_add)
        then show ?thesis by simp
      qed
      ultimately have "(q + 1) mod 512 = 0" by simp
      then show False using \<open>(q + 1) mod 512 = q mod 512 + 1\<close> by simp
    qed
    then show ?thesis unfolding va using q1 pw by (metis le_neq_implies_less mult_le_mono1)
  qed
  then show ?thesis unfolding on_tables_def using o t i by (simp add: l_def [symmetric])
qed

definition faded :: "pmem \<Rightarrow> pmem \<Rightarrow> nat \<Rightarrow> bool" where
  "faded m m0 r \<longleftrightarrow> (\<forall>t \<in> tables m0 r. m t = m0 t \<or> m t = (\<lambda>i. 0))"

definition at_table :: "pmem \<Rightarrow> pmem \<Rightarrow> nat \<Rightarrow> ptiter \<Rightarrow> bool" where
  "at_table m m0 r it \<longleftrightarrow> pt_done it \<or> on_tables m0 r it \<and> is_table (m (fst (ppep it)) (snd (ppep it)))"

text \<open>What a present entry points to.\<close>

lemma on_tables_entry:
  assumes "on_tables m0 r it" and "faded m m0 r" and "is_table (m (fst (ppep it)) (snd (ppep it)))"
  shows "\<exists>perm. table_at m0 r (pva it) (Suc (3 - plevel it)) = Some (pageno (m (fst (ppep it)) (snd (ppep it)) AND PTE_PAMASK), perm)"
proof -
  obtain p perm where o: "1 \<le> plevel it" "plevel it \<le> 3" "ppep it = (p, pageindex (pva it) (plevel it))"
    "table_at m0 r (pva it) (3 - plevel it) = Some (p, perm)"
    using assms(1) by (auto simp: on_tables_def)
  have "p \<in> tables m0 r" by (rule tablesI [OF o(4)]) simp
  then have "m p = m0 p \<or> m p = (\<lambda>i. 0)" using assms(2) by (simp add: faded_def)
  moreover have "\<not> is_table 0" by (rule not_present_no_table) simp
  ultimately have "m p = m0 p" using assms(3) o(3) by auto
  moreover have "3 - (3 - plevel it) = plevel it" using o(2) by simp
  ultimately show ?thesis using assms(3) o(3,4) by (simp add: table_at.simps(2) Let_def)
qed

lemma pt_down_loop_inv:
  assumes "pt_down_loop m stop skip it = Some it'" and "on_tables m0 r it" and "faded m m0 r" and "1 \<le> stop" and "stop \<le> plevel it"
  shows "at_table m m0 r it'"
proof -
  have "on_tables m0 r it \<longrightarrow> faded m m0 r \<longrightarrow> 1 \<le> stop \<longrightarrow> stop \<le> plevel it \<longrightarrow> at_table m m0 r it'"
    using assms(1)
  proof (rule pt_down_loop.raw_induct [of "\<lambda>m stop skip it it'. on_tables m0 r it \<longrightarrow> faded m m0 r \<longrightarrow> 1 \<le> stop \<longrightarrow> stop \<le> plevel it
      \<longrightarrow> at_table m m0 r it'", rotated], intro impI)
    fix f m stop skip it it'
    assume ih: "\<And>m stop skip it it'. f m stop skip it = Some it' \<Longrightarrow> on_tables m0 r it \<longrightarrow> faded m m0 r \<longrightarrow> 1 \<le> stop
        \<longrightarrow> stop \<le> plevel it \<longrightarrow> at_table m m0 r it'"
      and b: "(let e = m (fst (ppep it)) (snd (ppep it)) in
     if e AND (PTE_P OR PTE_PS) = PTE_P \<and> \<not> skip then
       (if plevel it = stop then Some it
        else f m stop skip (it\<lparr>plevel := plevel it - 1,
               ppep := (pageno (e AND PTE_PAMASK), pageindex (pva it) (plevel it - 1))\<rparr>))
     else
       let va = (pva it OR pageoffmask (plevel it)) + 1 in
       if (va XOR pva it) AND NOT (pageoffmask (plevel it + 1)) \<noteq> 0 then
         (if plevel it = 3 then Some (it\<lparr>pva := VA_NONCANONMAX + 1\<rparr>)
          else f m (plevel it + 1) False
                 (it\<lparr>plevel := 3, ppep := (pageno (ppt it), pageindex (pva it) 3)\<rparr>))
       else f m stop False (it\<lparr>ppep := (fst (ppep it), snd (ppep it) + 1), pva := va\<rparr>)) = Some it'"
      and o: "on_tables m0 r it" and fd: "faded m m0 r" and s: "1 \<le> stop" "stop \<le> plevel it"
    define e where "e = m (fst (ppep it)) (snd (ppep it))"
    define va where "va = (pva it OR pageoffmask (plevel it)) + 1"
    note oo = o [unfolded on_tables_def]
    show "at_table m m0 r it'"
    proof (cases "is_table e \<and> \<not> skip")
      case down: True
      show ?thesis
      proof (cases "plevel it = stop")
        case True
        then have "it' = it" using b down by (simp add: Let_def e_def is_table_def)
        then show ?thesis using o down by (simp add: at_table_def e_def)
      next
        case False
        then have r: "f m stop skip (it\<lparr>plevel := plevel it - 1, ppep := (pageno (e AND PTE_PAMASK), pageindex (pva it) (plevel it - 1))\<rparr>) = Some it'"
          using b down by (simp add: Let_def e_def is_table_def)
        have l: "3 - (plevel it - 1) = Suc (3 - plevel it)" "1 \<le> plevel it - 1" "stop \<le> plevel it - 1" using False s oo by auto
        obtain perm where "table_at m0 r (pva it) (Suc (3 - plevel it)) = Some (pageno (e AND PTE_PAMASK), perm)"
          using on_tables_entry [OF o fd] down by (auto simp: e_def)
        then have "on_tables m0 r (it\<lparr>plevel := plevel it - 1, ppep := (pageno (e AND PTE_PAMASK), pageindex (pva it) (plevel it - 1))\<rparr>)"
          using oo l(1,2) by (simp add: on_tables_def)
        then show ?thesis using ih [OF r] fd s(1) l(3) by simp
      qed
    next
      case side: False
      show ?thesis
      proof (cases "(va XOR pva it) AND NOT (pageoffmask (plevel it + 1)) = 0")
        case True
        then have r: "f m stop False (it\<lparr>ppep := (fst (ppep it), snd (ppep it) + 1), pva := va\<rparr>) = Some it'"
          using b side by (auto simp: Let_def e_def is_table_def va_def)
        have "on_tables m0 r (it\<lparr>ppep := (fst (ppep it), snd (ppep it) + 1), pva := va\<rparr>)"
          by (rule on_tables_next [OF o va_def True])
        then show ?thesis using ih [OF r] fd s by simp
      next
        case up: False
        show ?thesis
        proof (cases "plevel it = 3")
          case True
          then have "it' = it\<lparr>pva := VA_NONCANONMAX + 1\<rparr>" using b side up by (auto simp: Let_def e_def is_table_def va_def)
          then show ?thesis by (simp add: at_table_def pt_done_def VA_NONCANONMAX_def)
        next
          case False
          then have r: "f m (plevel it + 1) False (it\<lparr>plevel := 3, ppep := (pageno (ppt it), pageindex (pva it) 3)\<rparr>) = Some it'"
            using b side up by (auto simp: Let_def e_def is_table_def va_def)
          have "on_tables m0 r (it\<lparr>plevel := 3, ppep := (pageno (ppt it), pageindex (pva it) 3)\<rparr>)"
            using oo by (simp add: on_tables_def)
          moreover have "plevel it + 1 \<le> 3" using oo False by simp
          ultimately show ?thesis using ih [OF r] fd by simp
        qed
      qed
    qed
  qed
  then show ?thesis using assms(2-5) by blast
qed

text \<open>Releasing the tables of a tree that no process uses any more.\<close>

definition abandoned :: "pmem \<Rightarrow> kconf \<Rightarrow> nat set \<Rightarrow> pmem \<Rightarrow> nat \<Rightarrow> kstate \<Rightarrow> bool" where
  "abandoned M C R m0 r k \<longleftrightarrow> spaces M C R {} k \<and> faded (mem k) m0 r
     \<and> (\<forall>t \<in> tables m0 r. user_page C t \<and> (refcount k t = 0 \<or> spare C R k t))"

lemma kfree_last:
  assumes "kfree (page_addr n) k = Some k'" and "n < NPAGES" and "n \<noteq> 0" and "refcount k n = 1"
  shows "mem k' n = (\<lambda>i. 0)"
proof -
  have "unat (page_addr n) mod PAGESIZE = 0" "page_addr n \<noteq> 0" "pageno (page_addr n) = n"
    using unat_page_addr [of n] assms(2,3) by simp_all
  then show ?thesis using assms(1,2,4) by (auto simp: kfree_def Let_def split: if_splits)
qed

lemma abandoned_kfree:
  assumes "abandoned M C R m0 r k" and "t \<in> tables m0 r" and "kfree (page_addr t) k = Some k'"
  shows "abandoned M C R m0 r k'"
proof -
  have a: "spaces M C R {} k" "faded (mem k) m0 r" "user_page C t" "refcount k t = 0 \<or> spare C R k t"
    "\<forall>t \<in> tables m0 r. user_page C t \<and> (refcount k t = 0 \<or> spare C R k t)"
    using assms(1,2) by (auto simp: abandoned_def)
  note u = user_page_less [OF a(3)] user_page_pos [OF a(3)]
  note f = kfree_page [OF assms(3) u]
  have sp: "spare C R k t" using a(4) f(1) by simp
  then have one: "refcount k t = 1" by (simp add: loose_def)
  note g = spaces_kfree_spare [OF a(1) sp assms(3)]
  have "faded (mem k') m0 r" unfolding faded_def
  proof
    fix x
    assume x: "x \<in> tables m0 r"
    show "mem k' x = m0 x \<or> mem k' x = (\<lambda>i. 0)"
      using kfree_last [OF assms(3) u one] f(3) [of x] a(2) x by (cases "x = t") (auto simp: faded_def)
  qed
  moreover have "user_page C x \<and> (refcount k' x = 0 \<or> spare C R k' x)" if x: "x \<in> tables m0 r" for x
  proof (cases "x = t")
    case True
    then show ?thesis using f(2) one a(3) by simp
  next
    case False
    have "spare C R k' x = spare C R k x" by (rule loose_cong) (use g(2,3) f(2) False in simp_all)
    then show ?thesis using a(5) x f(2) False by simp
  qed
  ultimately show ?thesis using g(1) by (simp add: abandoned_def)
qed

lemma free_tables_abandoned:
  assumes "free_tables it k = Some k'" and "abandoned M C R m0 r k" and "at_table (mem k) m0 r it"
  shows "abandoned M C R m0 r k'"
proof -
  have "abandoned M C R m0 r k \<longrightarrow> at_table (mem k) m0 r it \<longrightarrow> abandoned M C R m0 r k'"
    using assms(1)
  proof (rule free_tables.raw_induct [of "\<lambda>it k k'. abandoned M C R m0 r k \<longrightarrow> at_table (mem k) m0 r it \<longrightarrow> abandoned M C R m0 r k'", rotated], intro impI)
    fix f it k k'
    assume ih: "\<And>it k k'. f it k = Some k' \<Longrightarrow> abandoned M C R m0 r k \<longrightarrow> at_table (mem k) m0 r it \<longrightarrow> abandoned M C R m0 r k'"
      and b: "(if \<not> pt_done it then do { k \<leftarrow> kfree (pt_pa (mem k) it) k; it \<leftarrow> pt_next (mem k) it; f it k } else Some k) = Some k'"
      and a: "abandoned M C R m0 r k" and at: "at_table (mem k) m0 r it"
    show "abandoned M C R m0 r k'"
    proof (cases "pt_done it")
      case True
      then show ?thesis using b a by simp
    next
      case False
      then obtain k1 it1 where k1: "kfree (pt_pa (mem k) it) k = Some k1" and it1: "pt_next (mem k1) it = Some it1" and r1: "f it1 k1 = Some k'"
        using b by (auto simp: bind_eq_Some_conv)
      have o: "on_tables m0 r it" "is_table (mem k (fst (ppep it)) (snd (ppep it)))" using at False by (simp_all add: at_table_def)
      have fd: "faded (mem k) m0 r" using a by (simp add: abandoned_def)
      obtain perm where t: "table_at m0 r (pva it) (Suc (3 - plevel it)) = Some (pageno (pt_pa (mem k) it), perm)"
        using on_tables_entry [OF o(1) fd o(2)] by (auto simp: pt_pa_def)
      have "Suc (3 - plevel it) \<le> 3" using o(1) by (auto simp: on_tables_def)
      then have tt: "pageno (pt_pa (mem k) it) \<in> tables m0 r" by (rule tablesI [OF t])
      have "page_addr (pageno (pt_pa (mem k) it)) = pt_pa (mem k) it"
        by (rule page_addr_pageno) (simp add: pt_pa_def and.assoc)
      then have a1: "abandoned M C R m0 r k1" using abandoned_kfree [OF a tt] k1 by simp
      have "at_table (mem k1) m0 r it1"
        by (rule pt_down_loop_inv [OF it1 [unfolded pt_next_def pt_down_def] o(1)])
          (use a1 o(1) in \<open>auto simp: abandoned_def on_tables_def\<close>)
      then show ?thesis using ih [OF r1] a1 by blast
    qed
  qed
  then show ?thesis using assms(2,3) by blast
qed

lemma free_everything_spaces:
  assumes "free_everything (page_addr r) k = Some k'" and "spaces M C R {} k" and "r \<in> R"
  shows "spaces M C (R - {r}) {} k'"
proof -
  note rt = spaces_table [OF assms(2,3) root_in_tables]
  have rp: "pageno (page_addr r) = r" using user_page_less [OF rt(2)] by simp
  obtain it k1 pit k2 where b: "vmiter_at (mem k) (page_addr r) 0 = Some it" "free_mapped it k = Some k1"
    "ptiter_at (mem k1) (page_addr r) = Some pit" "free_tables pit k1 = Some k2" "kfree (page_addr r) k2 = Some k'"
    using assms(1) by (auto simp: free_everything_def bind_eq_Some_conv)
  have z: "page_addr 0 = 0" by (simp add: page_addr_def)
  have "stands (mem k) r (page_addr 0) it"
    using stands_at [of k "page_addr r" 0 it] b(1) spacesD(1) [OF assms(2,3)] by (simp add: rp z va_is_canonical_def)
  moreover have "passed k r 0 = {}" by (simp add: passed_def)
  ultimately have fm: "spaces M C R (passed k1 r 768) k1" "\<forall>s \<in> R. tables (mem k1) s = tables (mem k) s"
    using free_mapped_spaces [OF b(2), of M C R r 0] assms(2,3) by simp_all
  note i1 = spacesD(2) [OF fm(1)]
  have drop: "space_inv C (R - {r}) {} (tables (mem k1)) (mapping (mem k1)) (refcount k1)"
  proof (rule space_drop [OF i1 assms(3)])
    fix s va
    assume "(s, va) \<in> passed k1 r 768"
    then show "s = r" by (auto simp: passed_def)
  next
    fix va n perm
    assume m: "maps_in k1 r va n perm"
    have mm: "page_va va" "PROC_START_ADDR \<le> va" "mapping (mem k1) r va = Some (page_addr n, perm)" using m by (simp_all add: maps_def)
    have "(r, va) \<in> passed k1 r 768" if sh: "share_ok va perm"
    proof -
      obtain j where j: "va = page_addr j" "j < 768" using small_page_va [OF mm(1)] sh by (auto simp: share_ok_def)
      have "256 \<le> j" using mm(2) j page_bounds(1) [of j] by simp
      moreover have "is_user (mapping (mem k1) r va)"
        unfolding mm(3) user_perm user_bits using sh mapping_low(3) [OF mm(3)] by (simp add: share_ok_def)
      ultimately show ?thesis using j by (auto simp: passed_def)
    qed
    then show "(r, va) \<in> passed k1 r 768 \<or> refcount k1 n = 1" using space_invD(8) [OF i1 assms(3) m] by blast
  qed
  then have s1: "spaces M C (R - {r}) {} k1" using spacesD(1,3) [OF fm(1)] by (simp add: spaces_def)
  have "user_page C t \<and> (refcount k1 t = 0 \<or> spare C (R - {r}) k1 t)" if t: "t \<in> tables (mem k1) r" for t
  proof -
    have "t \<notin> tables (mem k1) s" if "s \<in> R - {r}" for s using space_invD(5) [OF i1 assms(3), of s] that t by auto
    moreover have "\<not> maps_in k1 s va t perm" if "s \<in> R - {r}" for s va perm
      using maps_page(2) [OF i1 _ _ assms(3)] that t by blast
    ultimately show ?thesis using spaces_table [OF fm(1) assms(3) t] by (simp add: loose_def)
  qed
  then have a1: "abandoned M C (R - {r}) (mem k1) r k1" using s1 by (simp add: abandoned_def faded_def)
  have start: "on_tables (mem k1) r \<lparr>ppt = page_addr r, ppep = (r, 0), plevel = 3, pva = 0\<rparr>"
    by (simp add: on_tables_def rp pageindex_def)
  have "at_table (mem k1) (mem k1) r pit"
    by (rule pt_down_loop_inv [OF b(3) [unfolded ptiter_at_def pt_down_def rp] start]) (simp_all add: faded_def)
  then have "abandoned M C (R - {r}) (mem k1) r k2" by (rule free_tables_abandoned [OF b(4) a1])
  then have "abandoned M C (R - {r}) (mem k1) r k'" by (rule abandoned_kfree [OF _ root_in_tables b(5)])
  then show ?thesis by (simp add: abandoned_def)
qed

section \<open>Releasing a range of addresses\<close>

lemma vm_map_zero:
  assumes "vm_map C pa 0 it k = Some (it', k')"
  shows "it' = it" and "unat (vva it) mod PAGESIZE = 0"
  using assms by (auto simp: vm_map_def vm_try_map_def assert_ok_def Let_def split: Option.bind_splits if_splits option.splits)

text \<open>The rollback of \<open>mmap\<close>.\<close>

lemma mmap_undo_spaces:
  assumes "mmap_undo C (page_addr b) it k = Some k'" and "spaces M C R {} k" and "r \<in> R" and "stands (mem k) r (page_addr i) it"
    and "256 \<le> i" and "i \<le> b" and "b < 2 ^ 35 - 1"
  shows "spaces M C R {} k' \<and> same_procs k k' \<and> (\<forall>q. spare C R k q \<longrightarrow> spare C R k' q)"
  using assms
proof (induction "b - i" arbitrary: i it k)
  case 0
  then have i: "i = b" by simp
  have "\<not> vva it < page_addr b" using 0 standsD(3) [OF 0(5)] unfolding i by simp
  then have "k' = k" using 0(2) by (simp add: mmap_undo.simps [of C _ it k])
  then show ?case using 0(3) by simp
next
  case (Suc d)
  then have i: "i < b" "i < 2 ^ 35" "b < 2 ^ 35" "i + 1 < 2 ^ 35" by simp_all
  note st = standsD [OF Suc.prems(4)]
  have v: "page_va (page_addr i)" by (rule low_page_addr [OF i(2)])
  have lo: "PROC_START_ADDR \<le> page_addr i" using page_bounds [OF i(2)] Suc.prems(5) by simp
  have lt: "vva it < page_addr b" using st(3) page_order [OF i(2,3)] i(1) by simp
  obtain k1 it2 k2 it3 where k1: "kfree (vm_kptr (mem k) it) k = Some k1" "vm_map C (vm_kptr (mem k1) it) 0 it k1 = Some (it2, k2)"
    and it3: "vm_advance (mem k2) it2 (of_nat PAGESIZE) = Some it3" and rest: "mmap_undo C (page_addr b) it3 k2 = Some k'"
    using Suc.prems(1) lt by (simp add: mmap_undo.simps [of C _ it k] bind_eq_Some_conv) blast
  note dp = spaces_drop_page [OF Suc.prems(2,3,4) k1 v lo]
  have "stands (mem k2) r (page_addr (Suc i)) it3"
    by (rule advance_page [OF it3 dp(2,3,4) spacesD(1) [OF dp(1) Suc.prems(3)] i(4)])
  moreover have d: "d = b - Suc i" using Suc.hyps(2) by simp
  ultimately have "spaces M C R {} k' \<and> same_procs k2 k' \<and> (\<forall>q. spare C R k2 q \<longrightarrow> spare C R k' q)"
    by (intro Suc.hyps(1) [OF d rest dp(1) Suc.prems(3)]) (use Suc.prems(5,7) i in simp_all)
  then show ?case using same_procs_trans [OF dp(5)] dp(6) by blast
qed

text \<open>\<open>munmap\<close>: addresses need not be aligned, and the kernel panics at the console.\<close>

lemma munmap_loop_spaces:
  assumes "munmap_loop C bound it k = Some k'" and "spaces M C R {} k" and "r \<in> R"
    and "vva it < MEMSIZE_VIRTUAL \<Longrightarrow> stands (mem k) r (vva it) it"
  shows "spaces M C R {} k' \<and> same_procs k k'"
  using assms
proof (induction "0x300000 - unat (vva it)" arbitrary: it k rule: less_induct)
  case less
  show ?case
  proof (cases "vva it < bound \<and> vva it < MEMSIZE_VIRTUAL")
    case False
    then have "k' = k" using less.prems(1) by (auto simp: munmap_loop.simps [of C bound it k])
    then show ?thesis using less.prems(2) by simp
  next
    case True
    define va where "va = vva it"
    have stn: "stands (mem k) r va it" using less.prems(4) True by (simp add: va_def)
    note st = standsD [OF stn]
    have lt: "unat va < 0x300000" using True by (simp add: va_def word_less_nat_alt addr_defs)
    obtain it1 k1 it2 where b: "(if \<not> vm_user (mem k) it \<or> \<not> vm_present (mem k) it then Some (it, k) else do {
          k \<leftarrow> kfree (vm_kptr (mem k) it) k; vm_map C (vm_kptr (mem k) it) 0 it k }) = Some (it1, k1)"
      and it2: "vm_advance (mem k1) it1 (of_nat PAGESIZE) = Some it2" and rest: "munmap_loop C bound it2 k1 = Some k'"
      using less.prems(1) True by (simp add: munmap_loop.simps [of C bound it k] bind_eq_Some_conv) blast
    have "spaces M C R {} k1 \<and> on_path (mem k1) it1 \<and> vva it1 = va \<and> pageno (vpt it1) = r \<and> same_procs k k1"
    proof (cases "vm_user (mem k) it \<and> vm_present (mem k) it")
      case False
      then have "it1 = it" "k1 = k" using b by (auto split: if_splits)
      then show ?thesis using less.prems(2) st by simp
    next
      case up: True
      then obtain k0 where k0: "kfree (vm_kptr (mem k) it) k = Some k0" "vm_map C (vm_kptr (mem k0) it) 0 it k0 = Some (it1, k1)"
        using b by (auto simp: bind_eq_Some_conv)
      have v: "page_va va" using vm_map_zero(2) [OF k0(2)] st(2,3) by (simp add: page_va_def on_path_def)
      have "PROC_START_ADDR \<le> va"
      proof (rule ccontr)
        assume l: "\<not> PROC_START_ADDR \<le> va"
        obtain pa perm where m: "mapping (mem k) r va = Some (pa, perm)" "perm AND PTE_U \<noteq> 0"
          using stands_user(1) [OF stn v] up by (auto simp: is_user_def user_bits split: option.splits)
        then have "pa = CONSOLE_ADDR" using space_invD(6) [OF spacesD(2) [OF less.prems(2)] less.prems(3) v _ m] l by auto
        then have kf: "kfree (page_addr 0xB8) k = Some k0" using k0(1) mapped_kptr(1) [OF stn v m(1)]
          by (simp add: page_addr_def CONSOLE_ADDR_def)
        have "refcount k 0xB8 \<noteq> 0" by (rule kfree_page(1) [OF kf]) simp_all
        moreover have "\<not> user_page C 0xB8"
          using console_not_user [of C "0xB8"] by (auto simp: page_addr_def CONSOLE_ADDR_def)
        ultimately show False using space_invD(11) [OF spacesD(2) [OF less.prems(2)]] by blast
      qed
      note dp = spaces_drop_page [OF less.prems(2,3) stn k0 v this]
      show ?thesis using dp(1-5) by blast
    qed
    then have k1: "spaces M C R {} k1" "on_path (mem k1) it1" "vva it1 = va" "pageno (vpt it1) = r" "same_procs k k1" by blast+
    have nx: "unat (va + of_nat PAGESIZE) = unat va + 4096"
      using lt by (simp add: unat_word_ariths)
    have c: "va_is_canonical (vva it1 + of_nat PAGESIZE)" using lt nx unfolding k1(3) by (simp add: va_is_canonical_def word_le_nat_alt)
    have "small_pages (mem k1) (pageno (vpt it1))" using spacesD(1) [OF k1(1) less.prems(3)] k1(4) by (simp add: owned_def)
    from advance_stands [OF it2 k1(2) this c] have s2: "stands (mem k1) r (va + of_nat PAGESIZE) it2" unfolding k1(3,4) .
    have "vva it2 = va + of_nat PAGESIZE" by (rule standsD(3) [OF s2])
    then have "0x300000 - unat (vva it2) < 0x300000 - unat (vva it)" using nx lt by (simp add: va_def)
    moreover have "stands (mem k1) r (vva it2) it2" using s2 standsD(3) [OF s2] by simp
    ultimately have "spaces M C R {} k' \<and> same_procs k1 k'" by (intro less.hyps [OF _ rest k1(1) less.prems(3)]) simp_all
    then show ?thesis using same_procs_trans [OF k1(5)] by blast
  qed
qed

lemma vmiter_at_va: "vmiter_at m pt va = Some it \<Longrightarrow> vva it = va \<and> vpt it = pt"
  using real_find_va by (auto simp: vmiter_at_def)

lemma syscall_munmap_spaces:
  assumes "syscall_munmap C addr len k = Some (v, k')" and "spaces M C R {} k" and "pageno (pagetable (cur k)) \<in> R"
  shows "spaces M C R {} k' \<and> same_procs k k'"
proof -
  obtain it where it: "vmiter_at (mem k) (pagetable (cur k)) addr = Some it" "munmap_loop C (addr + len) it k = Some k'"
    using assms(1) by (auto simp: syscall_munmap_def bind_eq_Some_conv)
  show ?thesis
  proof (rule munmap_loop_spaces [OF it(2) assms(2,3)])
    assume l: "vva it < MEMSIZE_VIRTUAL"
    have va: "vva it = addr" using vmiter_at_va [OF it(1)] by simp
    have "va_is_canonical addr" using l unfolding va by (simp add: va_is_canonical_def word_le_nat_alt word_less_nat_alt addr_defs)
    then show "stands (mem k) (pageno (pagetable (cur k))) (vva it) it"
      unfolding va using stands_at [OF _ _ it(1)] spacesD(1) [OF assms(2,3)] by blast
  qed
qed

end
