(* ===== verification/KMmap.thy ===== *)
theory KMmap
  imports KLoops
begin

text \<open>
  \<open>mmap\<close> and \<open>page_alloc\<close> keep the agreement of theory KGuard if the length is a number of
  pages below \<open>2 ^ 31\<close> and the flags are permission bits that include \<open>PTE_P\<close>. Neither is
  checked by the kernel.
\<close>

section \<open>Finding free addresses\<close>

definition unmapped :: "pmem \<Rightarrow> nat \<Rightarrow> nat \<Rightarrow> int \<Rightarrow> bool" where
  "unmapped m r a n \<longleftrightarrow> (\<forall>j. a \<le> j \<longrightarrow> int j < int a + n \<longrightarrow> j < 768 \<longrightarrow> mapping m r (page_addr j) = None)"

lemma present_page:
  assumes "stands m r (page_addr i) it" and "i < 768"
  shows "vm_present m it \<longleftrightarrow> mapping m r (page_addr i) \<noteq> None"
  by (rule stands_user(2) [OF assms(1) low_page_addr(2)]) (use assms(2) in simp)

lemma any_present_unmapped:
  assumes "any_present (mem k) (page_addr b) it = Some False" and "owned k r" and "stands (mem k) r (page_addr i) it" and "b \<le> 768"
  shows "i \<le> j \<Longrightarrow> j < b \<Longrightarrow> mapping (mem k) r (page_addr j) = None"
  using assms(1,3)
proof (induction "b - i" arbitrary: i it)
  case (Suc d)
  have i: "i < b" "i < 768" "i < 2 ^ 35" "i + 1 < 2 ^ 35" "b < 2 ^ 35" using Suc(3,4) Suc.prems(1,2) assms(4) by simp_all
  note st = standsD [OF Suc.prems(4)]
  have "vva it < page_addr b" using st(3) page_order [OF i(3,5)] i(1) by simp
  then obtain it1 where p: "\<not> vm_present (mem k) it" and it1: "vm_advance (mem k) it (of_nat PAGESIZE) = Some it1"
    and rest: "any_present (mem k) (page_addr b) it1 = Some False"
    using Suc.prems(3) by (auto simp: any_present.simps [of "mem k" _ it] bind_eq_Some_conv split: if_splits)
  have s1: "stands (mem k) r (page_addr (Suc i)) it1" by (rule advance_page [OF it1 st(2,3,4) assms(2) i(4)])
  show ?case
  proof (cases "j = i")
    case True
    then show ?thesis using p present_page [OF Suc.prems(4) i(2)] by blast
  next
    case False
    have "d = b - Suc i" using Suc.hyps(2) by simp
    from Suc.hyps(1) [OF this _ Suc.prems(2) rest s1] show ?thesis using False Suc.prems(1) by simp
  qed
qed simp

text \<open>\<open>find_free_vmemory\<close>: the run of unmapped pages that ends before the current page; at the end
  of the address space a run that is too short is returned.\<close>

definition free_run :: "pmem \<Rightarrow> nat \<Rightarrow> nat \<Rightarrow> int \<Rightarrow> u64 \<Rightarrow> bool" where
  "free_run m r i rt addr \<longleftrightarrow> (if rt = 0 then addr = 0 else 0 < rt \<and> (\<exists>a. 256 \<le> a \<and> int a + rt = int i \<and> addr = page_addr a
     \<and> (\<forall>j. a \<le> j \<longrightarrow> j < i \<longrightarrow> mapping m r (page_addr j) = None)))"

lemma find_free_loop_run:
  assumes "find_free_loop (mem k) n rt addr it = Some a" and "owned k r" and "stands (mem k) r (page_addr i) it"
    and "256 \<le> i" and "i \<le> 768" and "free_run (mem k) r i rt addr"
  shows "a = 0 \<or> (\<exists>c. a = page_addr c \<and> 256 \<le> c \<and> c < 768 \<and> unmapped (mem k) r c n)"
  using assms(1,3-6)
proof (induction "768 - i" arbitrary: i it rt addr)
  case 0
  then have i: "i = 768" by simp
  have "\<not> vva it < MEMSIZE_VIRTUAL" using standsD(3) [OF 0(3)] unfolding i by (simp add: page_768)
  then have a: "a = addr" using 0(2) by (simp add: find_free_loop.simps [of _ _ _ _ it])
  show ?case
  proof (cases "rt = 0")
    case True
    then show ?thesis using 0(6) a by (simp add: free_run_def)
  next
    case False
    then obtain c where c: "256 \<le> c" "int c + rt = int i" "addr = page_addr c" "0 < rt"
      "\<forall>j. c \<le> j \<longrightarrow> j < i \<longrightarrow> mapping (mem k) r (page_addr j) = None" using 0(6) by (auto simp: free_run_def)
    then have "c < 768" using i by linarith
    moreover have "unmapped (mem k) r c n" using c(5) i by (simp add: unmapped_def)
    ultimately show ?thesis using c a by blast
  qed
next
  case (Suc d)
  have i: "i < 768" "i < 2 ^ 35" "i + 1 < 2 ^ 35" using Suc.hyps(2) by simp_all
  note st = standsD [OF Suc.prems(2)]
  have lt: "vva it < MEMSIZE_VIRTUAL" using st(3) page_bounds(2) [OF i(2)] i(1) by simp
  have d: "d = 768 - Suc i" using Suc.hyps(2) by simp
  note pp = present_page [OF Suc.prems(2) i(1)]
  show ?case
  proof (cases "vm_present (mem k) it")
    case True
    then obtain it1 where it1: "vm_advance (mem k) it (of_nat PAGESIZE) = Some it1" "find_free_loop (mem k) n 0 0 it1 = Some a"
      using Suc.prems(1) lt by (auto simp: find_free_loop.simps [of _ _ _ _ it] bind_eq_Some_conv)
    have s1: "stands (mem k) r (page_addr (Suc i)) it1" by (rule advance_page [OF it1(1) st(2,3,4) assms(2) i(3)])
    show ?thesis by (rule Suc.hyps(1) [OF d it1(2) s1]) (use Suc.prems(3) i in \<open>simp_all add: free_run_def\<close>)
  next
    case False
    define rt' where "rt' = rt + 1"
    define addr' where "addr' = (if rt' = 1 then vva it else addr)"
    have none: "mapping (mem k) r (page_addr i) = None" using False pp by blast
    have "\<exists>c. 256 \<le> c \<and> int c + rt' = int (Suc i) \<and> addr' = page_addr c \<and> 0 < rt'
      \<and> (\<forall>j. c \<le> j \<longrightarrow> j < Suc i \<longrightarrow> mapping (mem k) r (page_addr j) = None)"
    proof (cases "rt = 0")
      case True
      have "mapping (mem k) r (page_addr j) = None" if "i \<le> j" "j < Suc i" for j
        using none that by (simp add: le_less_Suc_eq)
      then show ?thesis using True Suc.prems(3) st(3) by (intro exI [of _ i]) (simp add: rt'_def addr'_def)
    next
      case False
      then obtain c where "256 \<le> c" "int c + rt = int i" "addr = page_addr c" "0 < rt"
        "\<forall>j. c \<le> j \<longrightarrow> j < i \<longrightarrow> mapping (mem k) r (page_addr j) = None" using Suc.prems(5) by (auto simp: free_run_def)
      then show ?thesis using none by (intro exI [of _ c]) (auto simp: rt'_def addr'_def less_Suc_eq)
    qed
    then obtain c where c: "256 \<le> c" "int c + rt' = int (Suc i)" "addr' = page_addr c" "0 < rt'"
      "\<forall>j. c \<le> j \<longrightarrow> j < Suc i \<longrightarrow> mapping (mem k) r (page_addr j) = None" by blast
    have stepped: "(if rt' = n then Some addr' else do {
            it \<leftarrow> vm_advance (mem k) it (of_nat PAGESIZE); find_free_loop (mem k) n rt' addr' it }) = Some a"
      using Suc.prems(1) lt False unfolding rt'_def addr'_def
      by (auto simp: find_free_loop.simps [of _ _ _ _ it] Let_def assert_ok_def split: if_splits)
    show ?thesis
    proof (cases "rt' = n")
      case True
      have "c < 768" using c(2,4) i by linarith
      moreover have "unmapped (mem k) r c n" using c(2,5) True by (simp add: unmapped_def)
      ultimately show ?thesis using stepped True c(1,3) by auto
    next
      case False
      then obtain it1 where it1: "vm_advance (mem k) it (of_nat PAGESIZE) = Some it1" "find_free_loop (mem k) n rt' addr' it1 = Some a"
        using stepped by (auto simp: bind_eq_Some_conv)
      have s1: "stands (mem k) r (page_addr (Suc i)) it1" by (rule advance_page [OF it1(1) st(2,3,4) assms(2) i(3)])
      have "free_run (mem k) r (Suc i) rt' addr'" using c by (auto simp: free_run_def)
      then show ?thesis by (intro Suc.hyps(1) [OF d it1(2) s1]) (use Suc.prems(3) i in simp_all)
    qed
  qed
qed

lemma page_256: "page_addr 256 = PROC_START_ADDR"
  by (simp add: page_addr_def addr_defs)

lemma page_0: "page_addr 0 = 0"
  by (simp add: page_addr_def)

lemma find_free_vmemory_unmapped:
  assumes "find_free_vmemory (of_nat (n * 4096)) k = Some a" and "owned k r" and "pageno (pagetable (cur k)) = r" and "n < 2 ^ 31"
  shows "a = 0 \<or> (\<exists>c. a = page_addr c \<and> 256 \<le> c \<and> c < 768 \<and> unmapped (mem k) r c (int n))"
proof -
  obtain it where it: "vmiter_at (mem k) (pagetable (cur k)) PROC_START_ADDR = Some it"
    "find_free_loop (mem k) (sint (of_nat (unat (of_nat (n * 4096) :: u64) div PAGESIZE) :: 32 word)) 0 0 it = Some a"
    using assms(1) by (auto simp: find_free_vmemory_def bind_eq_Some_conv)
  have "unat (of_nat (n * 4096) :: u64) = n * 4096" by (rule unat64_of_nat) (use assms(4) in simp)
  then have n: "sint (of_nat (unat (of_nat (n * 4096) :: u64) div PAGESIZE) :: 32 word) = int n"
    using assms(4) by (simp add: signed_of_nat signed_take_bit_int_eq_self)
  have "va_is_canonical PROC_START_ADDR" by (simp add: va_is_canonical_def addr_defs)
  then have s: "stands (mem k) r (page_addr 256) it" unfolding page_256 using stands_at [OF _ _ it(1)] assms(2,3) by simp
  show ?thesis by (rule find_free_loop_run [OF it(2) [unfolded n] assms(2) s]) (simp_all add: free_run_def)
qed

lemma mmap_addr_unmapped:
  assumes "mmap_addr addr (of_nat (n * 4096)) k = Some a" and "owned k r" and "pageno (pagetable (cur k)) = r" and "n < 2 ^ 31" and "0 < n"
  shows "a = 0 \<or> (\<exists>c. a = page_addr c \<and> 256 \<le> c \<and> c < 768 \<and> unmapped (mem k) r c (int n))"
proof -
  note ff = find_free_vmemory_unmapped [OF _ assms(2-4)]
  show ?thesis
  proof (cases "addr = 0 \<or> addr + of_nat (n * 4096) > MEMSIZE_VIRTUAL \<or> addr \<ge> MEMSIZE_VIRTUAL \<or> unat addr mod PAGESIZE \<noteq> 0 \<or> addr < PROC_START_ADDR")
    case True
    then show ?thesis using assms(1) ff by (simp add: mmap_addr_def)
  next
    case False
    then obtain it b where it: "vmiter_at (mem k) (pagetable (cur k)) addr = Some it"
      "any_present (mem k) (addr + of_nat (n * 4096)) it = Some b" "(if b then find_free_vmemory (of_nat (n * 4096)) k else Some addr) = Some a"
      using assms(1) by (simp add: mmap_addr_def bind_eq_Some_conv del: of_nat_mult) blast
    have cn: "va_is_canonical addr" using False by (simp add: va_is_canonical_def word_le_nat_alt word_less_nat_alt addr_defs)
    then obtain c where c: "addr = page_addr c" "c < 768" using False small_page_va [of addr] by (auto simp: page_va_def not_le)
    have c35: "c < 2 ^ 35" "c + n < 2 ^ 35" using c(2) assms(4) by simp_all
    have c256: "256 \<le> c" using False c page_bounds(1) [OF c35(1)] by (simp add: not_less)
    have e: "addr + of_nat (n * 4096) = page_addr (c + n)" unfolding c(1) by (rule add_pages)
    have nl: "\<not> MEMSIZE_VIRTUAL < page_addr (c + n)" using False unfolding e by blast
    have "MEMSIZE_VIRTUAL < page_addr (c + n) \<longleftrightarrow> 768 < c + n" using page_order(1) [OF _ c35(2), of 768] unfolding page_768 by simp
    then have cn768: "c + n \<le> 768" using nl by (meson not_le)
    show ?thesis
    proof (cases b)
      case True
      then show ?thesis using it(3) ff by simp
    next
      case False
      then have a: "a = addr" "any_present (mem k) (page_addr (c + n)) it = Some False" using it e by simp_all
      have s: "stands (mem k) r (page_addr c) it" using stands_at [OF _ cn it(1)] assms(2,3) c(1) by simp
      have "unmapped (mem k) r c (int n)" unfolding unmapped_def
      proof (intro allI impI)
        fix j
        assume "c \<le> j" "int j < int c + int n"
        then show "mapping (mem k) r (page_addr j) = None"
          by (intro any_present_unmapped [OF a(2) assms(2) s cn768]) simp_all
      qed
      then show ?thesis using a(1) c c256 by blast
    qed
  qed
qed

section \<open>Mapping new pages\<close>

lemma vmiter_stands:
  assumes "owned k r" and "pageno (pagetable (cur k)) = r" and "i < 2 ^ 35" and "vmiter_at (mem k) (pagetable (cur k)) (page_addr i) = Some it"
  shows "stands (mem k) r (page_addr i) it"
  using stands_at [OF _ _ assms(4)] assms(1,2) low_page_addr(2) [OF assms(3)] by (simp add: page_va_def)

lemma mmap_loop_spaces:
  assumes "mmap_loop C (page_addr c) (of_nat (n * 4096)) flags it k = Some (a, k')" and "spaces M C R {} k" and "r \<in> R"
    and "pageno (pagetable (cur k)) = r" and "vva it = page_addr i" and "256 \<le> c" and "c \<le> i" and "i \<le> c + n" and "c + n < 2 ^ 35 - 1"
    and "flags AND 0xFFF = flags" and "flags AND PTE_P \<noteq> 0" and "unmapped (mem k) r i (int (c + n) - int i)"
  shows "spaces M C R {} k' \<and> same_procs k k'"
  using assms
proof (induction "c + n - i" arbitrary: i it k)
  case 0
  then have "i = c + n" by simp
  then have "\<not> vva it < page_addr c + of_nat (n * 4096)" using 0(6) unfolding add_pages by simp
  then have "k' = k" using 0(2) by (simp add: mmap_loop.simps [of C _ _ _ it k] del: of_nat_mult)
  then show ?case using 0(3) by simp
next
  case (Suc d)
  have i: "i < c + n" "i < 2 ^ 35" "c + n < 2 ^ 35" "c < 2 ^ 35" "i < 2 ^ 35 - 1" using Suc.hyps(2) Suc.prems(7,8,9) by simp_all
  have v: "page_va (page_addr i)" by (rule low_page_addr [OF i(2)])
  have lo: "PROC_START_ADDR \<le> page_addr i" using page_bounds(1) [OF i(2)] Suc.prems(6,7) by simp
  have lt: "vva it < page_addr c + of_nat (n * 4096)" using Suc.prems(5) page_order(1) [OF i(2,3)] i(1) unfolding add_pages by simp
  obtain pa k1 where ka: "kalloc C PAGESIZE k = (pa, k1)" by fastforce
  have body: "(if pa = 0 then do {
         it2 \<leftarrow> vmiter_at (mem k1) (pagetable (cur k1)) (page_addr c);
         k \<leftarrow> mmap_undo C (vva it) it2 k1;
         Some (0, k) }
       else do {
         it3 \<leftarrow> vmiter_at (mem k1) (pagetable (cur k1)) (vva it);
         (res, _, k) \<leftarrow> vm_try_map C pa flags it3 k1;
         if res < 0 then do {
           it2 \<leftarrow> vmiter_at (mem k) (pagetable (cur k)) (page_addr c);
           k \<leftarrow> mmap_undo C (vva it) it2 k;
           k \<leftarrow> kfree pa k;
           Some (0, k) }
         else do {
           let k = set_page (pageno pa) 0 k;
           it \<leftarrow> vm_advance (mem k) it (of_nat PAGESIZE);
           mmap_loop C (page_addr c) (of_nat (n * 4096)) flags it k } }) = Some (a, k')"
    using Suc.prems(1) lt ka by (simp add: mmap_loop.simps [of C _ _ _ it k] del: of_nat_mult)
  show ?case
  proof (cases "pa = 0")
    case True
    then have k1: "k1 = k" using kalloc_cases [OF ka] by auto
    obtain it2 where it2: "vmiter_at (mem k) (pagetable (cur k)) (page_addr c) = Some it2" "mmap_undo C (page_addr i) it2 k = Some k'"
      using body True Suc.prems(5) unfolding k1 by (auto simp: bind_eq_Some_conv)
    note s2 = vmiter_stands [OF spacesD(1) [OF Suc.prems(2,3)] Suc.prems(4) i(4) it2(1)]
    from mmap_undo_spaces [OF it2(2) Suc.prems(2,3) s2 Suc.prems(6,7) i(5)] show ?thesis by blast
  next
    case False
    then obtain q where q: "pa = page_addr q" "free_page C k q" "k1 = take_page q k" using kalloc_cases [OF ka] by auto
    note t = spaces_kalloc [OF Suc.prems(2) q(2), folded q(3)]
    have sp1: "same_procs k k1" by (rule kalloc_same [OF ka])
    have pt1: "pageno (pagetable (cur k1)) = r" using Suc.prems(4) cur_same [OF sp1] by simp
    obtain it3 res it4 k2 where it3: "vmiter_at (mem k1) (pagetable (cur k1)) (page_addr i) = Some it3"
      and tm: "vm_try_map C pa flags it3 k1 = Some (res, it4, k2)"
      and rest: "(if res < 0 then do {
           it2 \<leftarrow> vmiter_at (mem k2) (pagetable (cur k2)) (page_addr c);
           k \<leftarrow> mmap_undo C (page_addr i) it2 k2;
           k \<leftarrow> kfree pa k;
           Some (0, k) }
         else do {
           let k = set_page (pageno pa) 0 k2;
           it \<leftarrow> vm_advance (mem k) it (of_nat PAGESIZE);
           mmap_loop C (page_addr c) (of_nat (n * 4096)) flags it k }) = Some (a, k')"
      using body [unfolded Suc.prems(5)] False by (simp add: bind_eq_Some_conv split: prod.splits del: of_nat_mult) blast
    note s3 = vmiter_stands [OF spacesD(1) [OF t(1) Suc.prems(3)] pt1 i(2) it3]
    note tm' = tm [unfolded q(1)]
    have lost: "refcount k1 m = 1" if m: "maps_in k1 r (page_addr i) m p" for m p
    proof (cases "i < 768")
      case True
      have "mapping (mem k) r (page_addr i) = None" using Suc.prems(12) True i(1) by (simp add: unmapped_def)
      then show ?thesis using m t(4) [OF Suc.prems(3)] by (simp add: maps_def)
    next
      case False
      then have "\<not> share_ok (page_addr i) p" using page_bounds(2) [OF i(2)] by (simp add: share_ok_def)
      then show ?thesis using space_invD(8) [OF spacesD(2) [OF t(1)] Suc.prems(3) m] by blast
    qed
    have lost': "\<forall>m p. maps_in k1 r (page_addr i) m p \<longrightarrow> refcount k1 m = 1" using lost by blast
    note mf = spaces_map_fresh [OF t(1) Suc.prems(3) s3 tm' Suc.prems(10,11) t(2) v lo lost']
    have x0: "{} = {} \<or> flags = 0 \<or> vlevel it3 = 0" by simp
    note up = spaces_try_map [OF t(1) Suc.prems(3) s3 tm' Suc.prems(10) x0]
    have sp2: "same_procs k k2" by (rule same_procs_trans [OF sp1 up(5)])
    have pt2: "pageno (pagetable (cur k2)) = r" using Suc.prems(4) cur_same [OF sp2] by simp
    show ?thesis
    proof (cases "res < 0")
      case True
      then obtain it2 k3 where it2: "vmiter_at (mem k2) (pagetable (cur k2)) (page_addr c) = Some it2"
        "mmap_undo C (page_addr i) it2 k2 = Some k3" "kfree (page_addr q) k3 = Some k'"
        using rest q(1) by (auto simp: bind_eq_Some_conv)
      note s2 = vmiter_stands [OF spacesD(1) [OF mf(1) Suc.prems(3)] pt2 i(4) it2(1)]
      have u: "spaces M C R {} k3" "same_procs k2 k3" "spare C R k3 q"
        using mmap_undo_spaces [OF it2(2) mf(1) Suc.prems(3) s2 Suc.prems(6,7) i(5)] mf(2) [OF True] by blast+
      show ?thesis using spaces_kfree_spare(1) [OF u(1,3) it2(3)] same_procs_trans [OF same_procs_trans [OF sp2 u(2)] kfree_same [OF it2(3)]]
        by blast
    next
      case False
      define k3 where "k3 = set_page q 0 k2"
      have qp: "pageno pa = q" using q(1,2) by (simp add: free_page_def)
      obtain it5 where it5: "vm_advance (mem k3) it (of_nat PAGESIZE) = Some it5"
        and r5: "mmap_loop C (page_addr c) (of_nat (n * 4096)) flags it5 k3 = Some (a, k')"
        using rest False qp by (auto simp: k3_def Let_def bind_eq_Some_conv)
      have "user_page C q" using q(2) by (simp add: free_page_def user_page_def)
      then have f3: "spaces M C R {} k3" "mapping (mem k3) r = mapping (mem k2) r"
        using spaces_fill(1,3) [OF mf(1) mf(3), of k3] Suc.prems(3) by (simp_all add: k3_def)
      have sp3: "same_procs k k3" using sp2 by (simp add: k3_def)
      have pt3: "pageno (pagetable (cur k3)) = r" using Suc.prems(4) cur_same [OF sp3] by simp
      have va5: "vva it5 = page_addr (Suc i)" using advance_va [OF it5] Suc.prems(5) page_next by simp
      have "unmapped (mem k3) r (Suc i) (int (c + n) - int (Suc i))"
        unfolding unmapped_def
      proof (intro allI impI)
        fix j
        assume j: "Suc i \<le> j" "int j < int (Suc i) + (int (c + n) - int (Suc i))" "j < 768"
        have vj: "page_va (page_addr j)" "page_addr j \<noteq> page_addr i" using low_page_addr(2) [of j] page_order(2) [OF _ i(2), of j] j by simp_all
        have "mapping (mem k3) r (page_addr j) = mapping (mem k1) r (page_addr j)"
          using up(4) [OF Suc.prems(3)] False map_page_at [OF v vj(1)] vj(2) unfolding f3(2) by simp
        also have "\<dots> = None" using t(4) [OF Suc.prems(3)] Suc.prems(12) j by (simp add: unmapped_def)
        finally show "mapping (mem k3) r (page_addr j) = None" .
      qed
      moreover have "d = c + n - Suc i" using Suc.hyps(2) by simp
      ultimately have "spaces M C R {} k' \<and> same_procs k3 k'"
        using i(1) Suc.prems(7) by (intro Suc.hyps(1) [OF _ r5 f3(1) Suc.prems(3) pt3 va5 Suc.prems(6) _ _ Suc.prems(9-11)]) simp_all
      then show ?thesis using same_procs_trans [OF sp3] by blast
    qed
  qed
qed

text \<open>What the kernel does not check about the arguments.\<close>

definition mmap_sane :: "u64 \<Rightarrow> u64 \<Rightarrow> bool" where
  "mmap_sane len flags \<longleftrightarrow> unat len mod PAGESIZE = 0 \<and> unat len < 2 ^ 43 \<and> flags AND 0xFFF = flags \<and> flags AND PTE_P \<noteq> 0"

lemma syscall_mmap_spaces:
  assumes "syscall_mmap C addr len flags k = Some (v, k')" and "spaces M C R {} k" and "pageno (pagetable (cur k)) \<in> R" and "mmap_sane len flags"
  shows "spaces M C R {} k' \<and> same_procs k k'"
proof (cases "len = 0")
  case True
  then show ?thesis using assms(1,2) by (simp add: syscall_mmap_def)
next
  case False
  define r where "r = pageno (pagetable (cur k))"
  define n where "n = unat len div 4096"
  have ul: "unat len = n * 4096" using assms(4) by (auto simp: mmap_sane_def n_def)
  have nb: "n < 2 ^ 31" using ul assms(4) by (simp add: mmap_sane_def)
  then have "unat (of_nat (n * 4096) :: u64) = n * 4096" by (intro unat64_of_nat) simp
  then have len: "len = of_nat (n * 4096)" using ul by (simp only: word_unat_eq_iff)
  have n0: "0 < n" using False ul by (cases n) (auto simp: unat_eq_0)
  have r: "r \<in> R" "owned k r" using assms(3) spacesD(1) [OF assms(2)] by (simp_all add: r_def)
  obtain a where a: "mmap_addr addr len k = Some a" and rest: "(if a = 0 then Some (0, k) else do {
       it \<leftarrow> vmiter_at (mem k) (pagetable (cur k)) a;
       (res, k) \<leftarrow> mmap_loop C a len flags it k;
       Some (int_result res, k) }) = Some (v, k')"
    using assms(1) False by (auto simp: syscall_mmap_def bind_eq_Some_conv)
  show ?thesis
  proof (cases "a = 0")
    case True
    then show ?thesis using rest assms(2) by simp
  next
    case nz: False
    obtain c where c: "a = page_addr c" "256 \<le> c" "c < 768" "unmapped (mem k) r c (int n)"
      using mmap_addr_unmapped [OF a [unfolded len] r(2) _ nb n0] nz by (auto simp: r_def)
    obtain it res where it: "vmiter_at (mem k) (pagetable (cur k)) (page_addr c) = Some it"
      "mmap_loop C (page_addr c) (of_nat (n * 4096)) flags it k = Some (res, k')"
      using rest nz unfolding c(1) len by (auto simp: bind_eq_Some_conv)
    have "vva it = page_addr c" using vmiter_at_va [OF it(1)] by simp
    then show ?thesis
      by (rule mmap_loop_spaces [OF it(2) assms(2) r(1) r_def [symmetric]])
        (use assms(4) c nb in \<open>simp_all add: mmap_sane_def\<close>)
  qed
qed

lemma syscall_page_alloc_spaces:
  assumes "syscall_page_alloc C addr k = Some (v, k')" and "spaces M C R {} k" and "pageno (pagetable (cur k)) \<in> R"
  shows "spaces M C R {} k' \<and> same_procs k k'"
proof (cases "unat addr mod PAGESIZE \<noteq> 0 \<or> addr < PROC_START_ADDR \<or> addr \<ge> MEMSIZE_VIRTUAL")
  case True
  then show ?thesis using assms(1,2) by (auto simp: syscall_page_alloc_def)
next
  case False
  then obtain w where w: "syscall_mmap C addr (of_nat PAGESIZE) (PTE_P OR PTE_W OR PTE_U) k = Some (w, k')"
    using assms(1) by (auto simp: syscall_page_alloc_def bind_eq_Some_conv)
  have "mmap_sane (of_nat PAGESIZE) (PTE_P OR PTE_W OR PTE_U)" by (simp add: mmap_sane_def pte_defs)
  then show ?thesis by (rule syscall_mmap_spaces [OF w assms(2,3)])
qed

end
