(* ===== verification/KCow.thy ===== *)
theory KCow
  imports KMmap
begin

text \<open>
  A copy-on-write fault keeps the invariant of the address spaces: the page with one owner only
  gets other permissions, the shared one is exchanged for a private copy and gives up one of its
  references.
\<close>

lemma space_swap:
  assumes "space_inv C R {} T F rc" and "r \<in> R" and "maps F r va n perm0" and "loose C R T F rc q"
  shows "space_inv C R {} T (F(r := map_page va (Some (page_addr q, perm)) (F r))) (rc(n := rc n - 1))"
proof -
  have va: "page_va va" "PROC_START_ADDR \<le> va" using assms(3) by (auto simp: maps_def)
  have no: "\<not> maps F s va' q p" if "s \<in> R" for s va' p using assms(4) that by (simp add: loose_def)
  have qn: "q \<noteq> n" using no [OF assms(2)] assms(3) by blast
  let ?F = "F(r := map_page va (Some (page_addr q, perm)) (F r))"
  have i1: "space_inv C R {(r, va)} T F (rc(n := rc n - 1))" using space_release [OF assms(1-3)] by simp
  have i2: "space_inv C R {(r, va)} T ?F (rc(n := rc n - 1))"
  proof (rule space_replace [OF i1 assms(2) va])
    fix pa p
    assume "Some (page_addr q, perm) = Some (pa, p)"
    then show "\<exists>q. pa = page_addr q \<and> user_page C q \<and> (\<forall>s \<in> R. q \<notin> T s) \<and> (\<forall>va' perm'. maps F r va' q perm' \<longrightarrow> va' = va)"
      using assms(4) assms(2) unfolding loose_def by blast
  qed
  have "holders R {(r, va)} ?F q = {}" unfolding holders_def maps_upd [OF va(1)] using no by auto
  moreover have "maps ?F r va q perm" "(rc(n := rc n - 1)) q = 1"
    using assms(4) user_page_less va qn unfolding maps_upd [OF va(1)] by (auto simp: loose_def)
  ultimately show ?thesis using space_end_one [OF i2 assms(2)] by blast
qed

lemma round_down_bit: "bit (round_down_page a) n \<longleftrightarrow> bit a n \<and> 12 \<le> n"
proof -
  have e: "(of_nat PAGESIZE - 1 :: u64) = mask 12" by (simp add: mask_eq_exp_minus_1)
  show ?thesis unfolding round_down_page_def e bit_and_iff bit_not_iff bit_mask_iff by (auto dest: bit_imp_le_length)
qed

lemma unat_round_down: "unat (round_down_page a) = unat a div 4096 * 4096"
proof -
  have "round_down_page a = push_bit 12 (drop_bit 12 a)"
    by (rule bit_word_eqI) (auto simp: bit_push_bit_iff bit_drop_bit_eq round_down_bit)
  moreover have u: "unat a < 2 ^ 64" using unsigned_less [of a] by simp
  then have "take_bit 64 (unat a) = unat a" by (rule take_bit_nat_eq_self)
  ultimately have "unat (round_down_page a) = take_bit 64 (push_bit 12 (drop_bit 12 (unat a)))"
    by (simp add: unsigned_push_bit_eq unsigned_drop_bit_eq)
  also have "\<dots> = take_bit 64 (unat a div 4096 * 4096)" by (simp add: push_bit_eq_mult drop_bit_eq_div)
  also have "\<dots> = unat a div 4096 * 4096"
    by (rule take_bit_nat_eq_self) (rule order.strict_trans1 [OF div_times_less_eq_dividend u])
  finally show ?thesis .
qed

lemma round_down_facts:
  shows "unat (round_down_page a) mod PAGESIZE = 0" and "PROC_START_ADDR \<le> a \<Longrightarrow> PROC_START_ADDR \<le> round_down_page a"
  by (simp_all add: unat_round_down PROC_START_ADDR_def word_le_nat_alt)

text \<open>At an address that is not canonical nothing is mapped.\<close>

lemma noncanonical_perm:
  assumes "vmiter_at m pt va = Some it" and "\<not> va_is_canonical va"
  shows "vm_perm m it = 0"
proof -
  have d: "down_loop m n x = x" if "vpep x = None" for n x using that by (cases n) (simp_all add: entry_def pte_defs)
  show ?thesis using assms by (auto simp: vmiter_at_def real_find_def down_def d Let_def vm_perm_def split: if_splits)
qed

text \<open>The outcomes of a fault that keep the invariant: the process goes on in \<open>k'\<close>, or it exits
  from a state \<open>k1\<close> that has it.\<close>

definition fault_keeps :: "pmem \<Rightarrow> kconf \<Rightarrow> nat set \<Rightarrow> kstate \<Rightarrow> fault_result \<Rightarrow> bool" where
  "fault_keeps M C R k f = (case f of Unresolved \<Rightarrow> True
     | Resolved k' \<Rightarrow> spaces M C R {} k' \<and> same_procs k k'
     | Killed k' \<Rightarrow> (\<exists>k1. syscall_exit C k1 = Some k' \<and> spaces M C R {} k1 \<and> same_procs k k1))"

lemma fault_keepsI:
  "spaces M C R {} k' \<Longrightarrow> same_procs k k' \<Longrightarrow> fault_keeps M C R k (Resolved k')"
  "syscall_exit C k1 = Some k' \<Longrightarrow> spaces M C R {} k1 \<Longrightarrow> same_procs k k1 \<Longrightarrow> fault_keeps M C R k (Killed k')"
  by (auto simp: fault_keeps_def)

lemma spaces_repermit:
  assumes "spaces M C R {} k" and "r \<in> R" and "stands (mem k) r va it" and "maps_in k r va n perm0" and "refcount k n = 1"
    and "vm_try_map C (page_addr n) perm it k = Some (res, it', k')" and "perm AND 0xFFF = perm" and "perm AND PTE_P \<noteq> 0"
  shows "spaces M C R {} k'"
proof -
  have va: "page_va va" "mapping (mem k) r va = Some (page_addr n, perm0)" using assms(4) by (auto simp: maps_def)
  have x0: "{} = {} \<or> perm = 0 \<or> vlevel it = 0" by simp
  note t = spaces_try_map [OF assms(1-3,6,7) x0]
  have rc: "refcount k' = refcount k" by (rule t(10)) (rule mapped_kptr(4) [OF assms(3) va])
  have "space_inv C R {} (tables (mem k')) ((mapping (mem k))(r := map_page va (Some (page_addr n, perm)) (mapping (mem k) r))) (refcount k')"
    by (rule space_reperm [OF t(1) assms(2,4)]) (simp add: rc assms(5))
  from t(2) [OF this] t(2) [OF t(1)] show ?thesis
    using assms(8) by (cases "res < 0") (simp_all add: new_entry_def)
qed

lemma spaces_copy_page:
  assumes "spaces M C R {} k" and "r \<in> R" and "stands (mem k) r va it" and "maps_in k r va n perm0" and "spare C R k q"
    and "vm_try_map C (page_addr q) perm it k = Some (res, it', k1)" and "perm AND 0xFFF = perm" and "perm AND PTE_P \<noteq> 0" and "\<not> res < 0"
    and "kfree (page_addr n) (copy_page q n k1) = Some k2"
  shows "spaces M C R {} k2"
proof -
  have va: "page_va va" "mapping (mem k) r va = Some (page_addr n, perm0)" using assms(4) by (auto simp: maps_def)
  have x0: "{} = {} \<or> perm = 0 \<or> vlevel it = 0" by simp
  note t = spaces_try_map [OF assms(1-3,6,7) x0]
  have rc: "refcount k1 = refcount k" by (rule t(10)) (rule mapped_kptr(4) [OF assms(3) va])
  have n: "user_page C n" by (rule maps_page(1) [OF spacesD(2) [OF assms(1)] assms(2,4)])
  note f = kfree_page [OF assms(10) user_page_less [OF n] user_page_pos [OF n]]
  have l: "loose C R (tables (mem k1)) (mapping (mem k)) (refcount k1) q" by (rule t(3) [OF assms(5)])
  let ?F = "(mapping (mem k))(r := map_page va (Some (page_addr q, perm)) (mapping (mem k) r))"
  have F: "mapping (mem k1) s = ?F s" if "s \<in> R" for s
    using t(4) [OF that] assms(8,9) by (simp add: new_entry_def)
  have i: "space_inv C R {} (tables (mem k1)) ?F (refcount k2)"
    using space_swap [OF t(1) assms(2,4) l] f(2) by simp
  have m: "mem k2 p = mem k1 p" if "s \<in> R" "p \<in> tables (mem k1) s" for s p
  proof -
    have "p \<noteq> n" "p \<noteq> q" using maps_page(2) [OF t(1) assms(2,4)] l that by (auto simp: loose_def)
    then show ?thesis using f(3) by simp
  qed
  have o: "tables (mem k2) s = tables (mem k1) s" "tree_ok (mem k2) s = tree_ok (mem k1) s" "mapping (mem k2) s = mapping (mem k1) s"
    "small_pages (mem k2) s = small_pages (mem k1) s" if "s \<in> R" for s
    using outside [of "mem k1" s "mem k2"] small_outside [of "mem k1" s "mem k2"] m [OF that] by blast+
  have "owned k2 s" if "s \<in> R" for s
    unfolding owned_def o(1,2,4) [OF that] using t(11) [OF that] space_invD(4) [OF i that] by (simp add: owned_def)
  moreover have "space_inv C R {} (tables (mem k2)) (mapping (mem k2)) (refcount k2)"
    by (rule space_cong [OF i]) (simp_all add: o F)
  moreover have "intact M C (copy_page q n k1)"
    by (rule intact_page [OF t(12), of q]) (use assms(5) in \<open>simp_all add: loose_def\<close>)
  then have "intact M C k2" by (rule intact_page [OF _ n]) (use f(3) in simp)
  ultimately show ?thesis by (simp add: spaces_def)
qed

lemma cow_fault_spaces:
  assumes "cow_fault C addr k = Some f" and "spaces M C R {} k" and "pageno (pagetable (cur k)) \<in> R" and "PROC_START_ADDR \<le> addr"
  shows "fault_keeps M C R k f"
proof -
  define r where "r = pageno (pagetable (cur k))"
  define va where "va = round_down_page addr"
  obtain it where it: "vmiter_at (mem k) (pagetable (cur k)) va = Some it"
    and body: "(if vm_perm (mem k) it AND (PTE_C OR PTE_P) = 0 then Some Unresolved else do {
     assert_ok (\<not> vm_writable (mem k) it);
     let n = pageno (vm_pa (mem k) it);
     let perm = written_perm (vm_perm (mem k) it);
     assert_ok (n < NPAGES);
     if refcount k n = 1 then do {
       (r, it, k) \<leftarrow> vm_try_map C (vm_pa (mem k) it) perm it k;
       if r < 0 then do { k \<leftarrow> syscall_exit C k; Some (Killed k) } else Some (Resolved k) }
     else do {
       let (pa, k) = kalloc C PAGESIZE k;
       if pa = 0 then do { k \<leftarrow> syscall_exit C k; Some (Killed k) } else do {
         let old = vm_kptr (mem k) it;
         (r, it, k) \<leftarrow> vm_try_map C pa perm it k;
         if r < 0 then do {
           k \<leftarrow> kfree pa k;
           k \<leftarrow> syscall_exit C k;
           Some (Killed k) }
         else do {
           assert_ok (vm_writable (mem k) it);
           let k = copy_page (pageno pa) (pageno old) k;
           k \<leftarrow> kfree old k;
           Some (Resolved k) } } } }) = Some f"
    using assms(1) unfolding cow_fault_def written_perm_def va_def by (auto simp: bind_eq_Some_conv)
  show ?thesis
  proof (cases "vm_perm (mem k) it AND (PTE_C OR PTE_P) = 0")
    case True
    then show ?thesis using body by (auto simp: fault_keeps_def)
  next
    case present: False
    then have "vm_perm (mem k) it \<noteq> 0" by auto
    then have can: "va_is_canonical va" using noncanonical_perm [OF it] by blast
    then have va: "page_va va" "PROC_START_ADDR \<le> va"
      using round_down_facts [of addr] assms(4) by (simp_all add: page_va_def va_def)
    have st: "stands (mem k) r va it" using stands_at [OF spacesD(1) [OF assms(2,3)] can it] by (simp add: r_def)
    have r: "r \<in> R" using assms(3) by (simp add: r_def)
    have "mapping (mem k) r va \<noteq> None" using unmapped_kptr(3) [OF st] \<open>vm_perm (mem k) it \<noteq> 0\<close> by blast
    then obtain pa perm where mp: "mapping (mem k) r va = Some (pa, perm)" by (cases "mapping (mem k) r va") auto
    obtain n where n: "pa = page_addr n" "maps_in k r va n perm" by (rule mapped_page [OF spacesD(2) [OF assms(2)] r va mp])
    have nn: "n < NPAGES" "pageno (page_addr n) = n" using n(2) by (auto simp: maps_def)
    note mk = mapped_kptr [OF st va(1) mp, unfolded n(1)]
    note w = written_perm_facts [OF mapping_low(1,3) [OF mp]]
    show ?thesis
    proof (cases "refcount k n = 1")
      case True
      obtain res it' k1 where tm: "vm_try_map C (page_addr n) (written_perm perm) it k = Some (res, it', k1)"
        and f: "(if res < 0 then do { k \<leftarrow> syscall_exit C k1; Some (Killed k) } else Some (Resolved k1)) = Some f"
        using body present True nn mk by (auto simp: Let_def assert_ok_def bind_eq_Some_conv split: if_splits)
      note s1 = spaces_repermit [OF assms(2) r st n(2) True tm w(1,2)]
      show ?thesis using f fault_keepsI(2) [OF _ s1 try_map_same [OF tm]] fault_keepsI(1) [OF s1 try_map_same [OF tm]]
        by (auto simp: bind_eq_Some_conv split: if_splits)
    next
      case False
      obtain pa1 k1 where ka: "kalloc C PAGESIZE k = (pa1, k1)" by fastforce
      have sp1: "same_procs k k1" by (rule kalloc_same [OF ka])
      show ?thesis
      proof (cases "pa1 = 0")
        case True
        then have "k1 = k" using kalloc_cases [OF ka] by auto
        then show ?thesis using body present False nn mk ka True assms(2)
          by (auto simp: Let_def assert_ok_def bind_eq_Some_conv split: if_splits intro: fault_keepsI)
      next
        case nz: False
        then obtain q where q: "pa1 = page_addr q" "free_page C k q" "k1 = take_page q k" using kalloc_cases [OF ka] by auto
        have qp: "pageno (page_addr q) = q" using q(2) by (simp add: free_page_def)
        note t = spaces_kalloc [OF assms(2) q(2), folded q(3)]
        have tab: "\<forall>t \<in> tables (mem k) r. mem k1 t = mem k t"
          using take_page_owned(4) [OF spacesD(1) [OF assms(2) r] q(2)] by (auto simp: q(3) take_page_def)
        note st1 = stands_outside [OF st tab]
        have n1: "maps_in k1 r va n perm" using n(2) t(4) [OF r] by (simp add: maps_def)
        have kp: "vm_kptr (mem k1) it = page_addr n"
          using mapped_kptr(1) [OF st1(1) va(1)] t(4) [OF r] mp n(1) by simp
        obtain res it' k2 where tm: "vm_try_map C (page_addr q) (written_perm perm) it k1 = Some (res, it', k2)"
          and f: "(if res < 0 then do {
              k \<leftarrow> kfree (page_addr q) k2;
              k \<leftarrow> syscall_exit C k;
              Some (Killed k) }
            else do {
              assert_ok (vm_writable (mem k2) it');
              k \<leftarrow> kfree (page_addr n) (copy_page q n k2);
              Some (Resolved k) }) = Some f"
          using body present False nn mk ka nz q(1) qp kp by (auto simp: Let_def assert_ok_def bind_eq_Some_conv split: if_splits)
        have sp2: "same_procs k k2" by (rule same_procs_trans [OF sp1 try_map_same [OF tm]])
        show ?thesis
        proof (cases "res < 0")
          case True
          have x0: "{} = {} \<or> written_perm perm = 0 \<or> vlevel it = 0" by simp
          note u = spaces_try_map [OF t(1) r st1(1) tm w(1) x0]
          have s2: "spaces M C R {} k2" by (rule u(2) [OF u(1)]) (use True in simp)
          have l2: "spare C R k2 q"
            using u(3) [OF t(2)] by (subst loose_cong [where T = "tables (mem k2)" and F = "mapping (mem k1)" and rc = "refcount k2"]) (use True u(4) in simp_all)
          obtain k3 k4 where k3: "kfree (page_addr q) k2 = Some k3" "syscall_exit C k3 = Some k4" "f = Killed k4"
            using f True by (auto simp: bind_eq_Some_conv)
          show ?thesis unfolding k3(3)
            by (rule fault_keepsI(2) [OF k3(2) spaces_kfree_spare(1) [OF s2 l2 k3(1)] same_procs_trans [OF sp2 kfree_same [OF k3(1)]]])
        next
          case False
          obtain k3 where k3: "kfree (page_addr n) (copy_page q n k2) = Some k3" "f = Resolved k3"
            using f False by (auto simp: bind_eq_Some_conv)
          have "same_procs k k3" using same_procs_trans [OF _ kfree_same [OF k3(1)]] sp2 by simp
          then show ?thesis unfolding k3(2)
            by (rule fault_keepsI(1) [OF spaces_copy_page [OF t(1) r st1(1) n1 t(2) tm w(1,2) False k3(1)]])
        qed
      qed
    qed
  qed
qed

end
