(* ===== verification/KShare.thy ===== *)
theory KShare
  imports KFork
begin

text \<open>
  \<open>fork\<close> shares memory: one round of its loop keeps the invariant \<open>fork_st\<close> and moves one page
  on, so with enough free pages the loop ends, and parent and child see the same pages,
  user pages read-only in both.
\<close>

section \<open>One tree changes, the other does not\<close>

lemma grows_missing: "grows m m' r \<Longrightarrow> card (missing m' r) \<le> card (missing m r)"
proof (rule card_mono)
  assume g: "grows m m' r"
  show "missing m' r \<subseteq> missing m r"
  proof
    fix x
    assume x: "x \<in> missing m' r"
    then have "fst x \<le> 3" by (auto simp: missing_def path_nodes_def)
    then have "table_at m r (node_addr x) (fst x) \<noteq> None \<longrightarrow> table_at m' r (node_addr x) (fst x) \<noteq> None"
      using grows_some [OF g] by blast
    moreover have "table_at m' r (node_addr x) (fst x) = None" using x unfolding missing_def by simp
    ultimately have "table_at m r (node_addr x) (fst x) = None" by blast
    then show "x \<in> missing m r" using x unfolding missing_def by simp
  qed
qed simp

lemma other_side:
  assumes "within_tree a k k'" and "owned k b" and "tables (mem k) a \<inter> tables (mem k) b = {}" and "at_page b i it k"
  shows "owned k' b" and "mapping (mem k') b = mapping (mem k) b" and "tables (mem k') b = tables (mem k) b"
    and "tables (mem k') a \<inter> tables (mem k') b = {}" and "low (mem k') b = low (mem k) b"
    and "open_path (mem k') b = open_path (mem k) b" and "missing (mem k') b = missing (mem k) b"
    and "at_page b i it k'" and "entry (mem k') it = entry (mem k) it"
proof -
  have m: "mem k' t = mem k t" if "t \<in> tables (mem k) b" for t
    using assms(1-3) that unfolding within_tree_def owned_def by blast
  show "owned k' b" "mapping (mem k') b = mapping (mem k) b" "tables (mem k') b = tables (mem k) b"
    "tables (mem k') a \<inter> tables (mem k') b = {}" by (rule other_tree [OF assms(1-3)])+
  show "low (mem k') b = low (mem k) b" by (rule low_outside [OF m])
  show "open_path (mem k') b = open_path (mem k) b" by (rule open_outside [OF m])
  have "table_at (mem k') b (node_addr x) (fst x) = table_at (mem k) b (node_addr x) (fst x)" if "x \<in> path_nodes" for x
    by (rule table_at_outside [OF m]) (use that in \<open>auto simp: path_nodes_def\<close>)
  then show "missing (mem k') b = missing (mem k) b" unfolding missing_def by auto
  have v: "pageno (vpt it) = b" using assms(4) by (simp add: at_page_def)
  have s: "settled (mem k) it" using assms(4) by (simp add: at_page_def)
  note so = settled_outside [OF s, of "mem k'", unfolded v, OF m]
  show "at_page b i it k'" using so(1) assms(4) by (simp add: at_page_def)
  show "entry (mem k') it = entry (mem k) it" by (rule so(2))
qed

lemma at_page_aligned: "at_page r i it k \<Longrightarrow> i < NVIRTUAL \<Longrightarrow> unat (vva it) mod PAGESIZE = 0"
  using page_aligned [of i] by (simp add: at_page_def)

text \<open>\<open>try_map\<close> at the page of an iterator: what it returns, and its effect on both trees.\<close>

definition map_ok :: "u64 \<Rightarrow> u64 \<Rightarrow> bool" where
  "map_ok pa perm \<longleftrightarrow> perm AND 0xFFF = perm \<and> low_entry (stored_pa pa perm OR perm)
     \<and> (if perm AND PTE_P \<noteq> 0 then pa AND PTE_PAMASK = pa else perm = 0 \<and> stored_pa pa perm AND PTE_P = 0)"

lemma try_map_page:
  assumes "owned k r" and "low (mem k) r" and "at_page r i it k" and "i < NVIRTUAL" and "map_ok pa perm"
    and "perm AND NOT (vperm it) AND (PTE_P OR PTE_W OR PTE_U) = 0" and "perm \<noteq> 0 \<longrightarrow> vlevel it \<le> free_count C k"
  obtains it' k' where "vm_try_map C pa perm it k = Some (0, it', k')" and "within_tree r k k'" and "at_page r i it' k'"
    and "low (mem k') r" and "open_path (mem k) r \<longrightarrow> open_path (mem k') r"
    and "mapping (mem k') r = map_page (page_addr i) (if perm AND PTE_P \<noteq> 0 then Some (pa, perm) else None) (mapping (mem k) r)"
    and "vlevel it = 0 \<longrightarrow> free_count C k' = free_count C k"
    and "card (missing (mem k) r) \<le> free_count C k \<longrightarrow> card (missing (mem k') r) \<le> free_count C k'"
    and "grows (mem k) (mem k') r"
    and "card (missing (mem k') r) + free_count C k \<le> card (missing (mem k) r) + free_count C k'"
proof -
  have a: "settled (mem k) it" "vva it = page_addr i" "pageno (vpt it) = r" using assms(3) by (simp_all add: at_page_def)
  have o: "on_path (mem k) it" using a(1) by (simp add: settled_def)
  have st: "vlevel it = 0 \<or> \<not> is_table (entry (mem k) it)" using a(1) not_present_no_table by (auto simp: settled_def)
  have c: "if perm AND PTE_P \<noteq> 0 then pa AND PTE_PAMASK = pa \<and> pa \<noteq> -1 else stored_pa pa perm AND PTE_P = 0"
  proof (cases "perm AND PTE_P = 0")
    case False
    then have p: "pa AND PTE_PAMASK = pa" using assms(5) by (simp add: map_ok_def)
    then have "pa \<noteq> -1" by (auto simp: PTE_PAMASK_def)
    then show ?thesis using False p by simp
  next
    case True
    then have "stored_pa pa perm AND PTE_P = 0" using assms(5) unfolding map_ok_def by argo
    then show ?thesis using True by simp
  qed
  have pm: "perm AND 0xFFF = perm" "low_entry (stored_pa pa perm OR perm)" using assms(5) by (simp_all add: map_ok_def)
  obtain it' k' where t: "vm_try_map C pa perm it k = Some (0, it', k')" "free_count C k' + (if perm \<noteq> 0 then vlevel it else 0) = free_count C k"
    "low (mem k') r" "open_path (mem k) r \<longrightarrow> open_path (mem k') r" "grows (mem k) (mem k') r"
    "vlevel it' = 0 \<or> perm = 0 \<and> it' = it \<and> k' = k"
    using try_map_total [of k it perm pa C] a assms(1,2,6,7) at_page_aligned [OF assms(3,4)] c pm by auto
  have ow: "owned k (pageno (vpt it))" using assms(1) a(3) by simp
  note u = try_map_updates [OF t(1) ow o st pm(1)]
  have w: "within_tree r k k'" using u(1) a(3) by simp
  have se: "settled (mem k') it'" using u(2) t(6) a(1) by (auto simp: settled_def)
  have at: "at_page r i it' k'" using se u(3,4) a(2,3) by (simp add: at_page_def)
  have mp: "mapping (mem k') r = map_page (page_addr i) (if perm AND PTE_P \<noteq> 0 then Some (pa, perm) else None) (mapping (mem k) r)"
    using u(5) a(2,3) by simp
  have en: "card (missing (mem k') r) + free_count C k \<le> card (missing (mem k) r) + free_count C k'"
  proof (cases "perm = 0")
    case True
    then show ?thesis using grows_missing [OF t(5)] t(2) by simp
  next
    case False
    then have l: "vlevel it' = 0" using t(6) by simp
    have "table_at (mem k') r (page_addr i) 3 \<noteq> None"
      using u(2) l u(3,4) a(2,3) by (auto simp: on_path_def)
    then have "card (missing (mem k') r) + vlevel it \<le> card (missing (mem k) r)"
      using missing_step [OF a(1,2) assms(4), of "mem k'"] t(5) a(3) by simp
    then show ?thesis using t(2) False by simp
  qed
  then have le: "card (missing (mem k) r) \<le> free_count C k \<longrightarrow> card (missing (mem k') r) \<le> free_count C k'" by linarith
  have fr: "vlevel it = 0 \<longrightarrow> free_count C k' = free_count C k" using t(2) by (cases "perm = 0") auto
  show ?thesis by (rule that [OF t(1) w at t(3,4) mp fr le t(5) en])
qed

section \<open>Changing the child and the parent\<close>

lemma kept_within:
  assumes "kept f k0 k" and "within_tree a k k'" and "a = parent_root f \<and> b = child_root f \<or> a = child_root f \<and> b = parent_root f"
    and "tables (mem k') b = tables (mem k) b"
    and "parent_root f' = parent_root f" and "child_root f' = child_root f" and "new_refs f' = new_refs f"
  shows "kept f' k0 k'"
proof -
  have w: "same_procs k k'" "\<And>t. refcount k t \<noteq> 0 \<Longrightarrow> refcount k' t = refcount k t"
    "\<And>t. refcount k t \<noteq> 0 \<Longrightarrow> t \<notin> tables (mem k) a \<Longrightarrow> mem k' t = mem k t"
    "\<And>t. t \<in> tables (mem k') a \<Longrightarrow> t \<in> tables (mem k) a \<or> refcount k t = 0"
    using assms(2) by (auto simp: within_tree_def)
  have kp: "same_procs k0 k" "\<And>n. refcount k0 n \<noteq> 0 \<Longrightarrow> unat (refcount k n) = unat (refcount k0 n) + new_refs f n"
    "\<And>n. refcount k0 n \<noteq> 0 \<Longrightarrow> n \<notin> tables (mem k0) (parent_root f) \<Longrightarrow> mem k n = mem k0 n"
    "\<And>t. t \<in> tables (mem k) (parent_root f) \<Longrightarrow> t \<in> tables (mem k0) (parent_root f) \<or> refcount k0 t = 0"
    "\<And>t. t \<in> tables (mem k) (child_root f) \<Longrightarrow> refcount k0 t = 0"
    using assms(1) by (auto simp: kept_def)
  have rc: "refcount k n = 0 \<Longrightarrow> refcount k0 n = 0" for n using kept_refs [OF assms(1)] by blast
  have grown: "t \<in> tables (mem k) x \<or> refcount k t = 0" if "t \<in> tables (mem k') x" "x = parent_root f \<or> x = child_root f" for t x
  proof -
    have "x = a \<or> x = b" using assms(3) that(2) by auto
    then show ?thesis using w(4) that(1) assms(4) by auto
  qed
  show ?thesis
    unfolding kept_def assms(5-7)
  proof (intro conjI allI impI ballI)
    show "same_procs k0 k'" by (rule same_procs_trans [OF kp(1) w(1)])
    fix n
    assume n: "refcount k0 n \<noteq> 0"
    have nk: "refcount k n \<noteq> 0" by (rule kept_refs [OF assms(1) n])
    show "unat (refcount k' n) = unat (refcount k0 n) + new_refs f n" using kp(2) [OF n] w(2) [OF nk] by simp
    assume r0: "n \<notin> tables (mem k0) (parent_root f)"
    have "n \<notin> tables (mem k) a" using assms(3) kp(4) [of n] kp(5) [of n] n r0 by auto
    then show "mem k' n = mem k0 n" using w(3) [OF nk] kp(3) [OF n r0] by simp
  next
    fix t
    assume t: "t \<in> tables (mem k') (parent_root f)"
    show "t \<in> tables (mem k0) (parent_root f) \<or> refcount k0 t = 0" using grown [OF t disjI1 [OF refl]] kp(4) [of t] rc [of t] by auto
  next
    fix t
    assume t: "t \<in> tables (mem k') (child_root f)"
    show "refcount k0 t = 0" using grown [OF t disjI2 [OF refl]] kp(5) [of t] rc [of t] by auto
  qed
qed

lemma child_step:
  assumes "fork_st C k0 f i pit it k" and "i < NVIRTUAL" and "map_ok pa perm"
  obtains it' k' where "vm_try_map C pa perm it k = Some (0, it', k')"
    and "fork_st C k0 (f\<lparr>child_map := (child_map f)(i := if perm AND PTE_P \<noteq> 0 then Some (pa, perm) else None)\<rparr>) i pit it' k'"
    and "entry (mem k') pit = entry (mem k) pit"
proof -
  define r where "r = parent_root f"
  define c where "c = child_root f"
  have ap: "owned k r" "owned k c" "tables (mem k) r \<inter> tables (mem k) c = {}" "low (mem k) r" "low (mem k) c" "open_path (mem k) c"
    using assms(1) by (simp_all add: fork_st_def apart_def r_def c_def)
  have fm: "page_map (mem k) c j = child_map f j" "page_map (mem k) r j = parent_map f j" if "j < NVIRTUAL" for j
    using assms(1) that by (simp_all add: fork_st_def fork_maps_def r_def c_def)
  have kp: "kept f k0 k" and en: "card (missing (mem k) c) \<le> free_count C k" and at: "at_page r i pit k" "at_page c i it k"
    using assms(1) by (simp_all add: fork_st_def enough_def r_def c_def)
  have s: "settled (mem k) it" "vva it = page_addr i" "pageno (vpt it) = c" using at(2) by (simp_all add: at_page_def)
  have "vperm it = initial_perm"
    using s ap(6) unfolding settled_def on_path_def by (metis diff_le_self open_pathD)
  then have al: "perm AND NOT (vperm it) AND (PTE_P OR PTE_W OR PTE_U) = 0" by (simp add: initial_allowed)
  have lv: "perm \<noteq> 0 \<longrightarrow> vlevel it \<le> free_count C k" using level_missing [OF s(1,2) assms(2)] en s(3) by simp
  obtain it' k' where t: "vm_try_map C pa perm it k = Some (0, it', k')" "within_tree c k k'" "at_page c i it' k'" "low (mem k') c"
    and op: "open_path (mem k) c \<longrightarrow> open_path (mem k') c"
    and mp: "mapping (mem k') c = map_page (page_addr i) (if perm AND PTE_P \<noteq> 0 then Some (pa, perm) else None) (mapping (mem k) c)"
    and "vlevel it = 0 \<longrightarrow> free_count C k' = free_count C k"
    and en': "card (missing (mem k) c) \<le> free_count C k \<longrightarrow> card (missing (mem k') c) \<le> free_count C k'"
    and "grows (mem k) (mem k') c"
    by (rule try_map_page [OF ap(2,5) at(2) assms(2,3) al lv]) (rule that; assumption)
  have "tables (mem k) c \<inter> tables (mem k) r = {}" using ap(3) by blast
  note os = other_side [OF t(2) ap(1) this at(1)]
  define f' where "f' = f\<lparr>child_map := (child_map f)(i := if perm AND PTE_P \<noteq> 0 then Some (pa, perm) else None)\<rparr>"
  have f': "parent_root f' = r" "child_root f' = c" "parent_map f' = parent_map f" "new_refs f' = new_refs f"
    by (simp_all add: f'_def r_def c_def)
  have ap': "apart f' k'" unfolding apart_def f' using os(1,4,5) t(2,4) HOL.mp [OF op ap(6)] ap(4) by (auto simp: within_tree_def)
  have fm': "fork_maps f' k'"
    unfolding fork_maps_def f'(1,2,3)
  proof (intro allI impI)
    fix j
    assume j: "j < NVIRTUAL"
    have "page_map (mem k') c j = child_map f' j"
      using j assms(2) fm(1) [OF j] unfolding page_map_def mp f'_def by (simp add: page_map_update page_map_def)
    moreover have "page_map (mem k') r j = parent_map f j" using fm(2) [OF j] by (simp add: page_map_def os(2))
    ultimately show "page_map (mem k') c j = child_map f' j \<and> page_map (mem k') r j = parent_map f j" ..
  qed
  have k': "kept f' k0 k'"
    by (rule kept_within [where b = r, OF kp t(2)]) (simp_all add: f' f'(1,2) [unfolded r_def c_def] os(3) [unfolded r_def] r_def c_def)
  have "fork_st C k0 f' i pit it' k'"
    unfolding fork_st_def enough_def f' using ap' fm' k' os(8) t(3) HOL.mp [OF en' en] by blast
  then show ?thesis using that t(1) os(9) unfolding f'_def by blast
qed

lemma parent_step:
  assumes "fork_st C k0 f i pit it k" and "i < NVIRTUAL" and "parent_map f i = Some (pa, perm)"
    and "perm' AND PTE_P \<noteq> 0" and "map_ok pa perm'" and "perm' AND NOT perm AND (PTE_P OR PTE_W OR PTE_U) = 0"
  obtains pit' k' where "vm_try_map C pa perm' pit k = Some (0, pit', k')"
    and "fork_st C k0 (f\<lparr>parent_map := (parent_map f)(i := Some (pa, perm'))\<rparr>) i pit' it k'"
proof -
  define r where "r = parent_root f"
  define c where "c = child_root f"
  have ap: "owned k r" "owned k c" "tables (mem k) r \<inter> tables (mem k) c = {}" "low (mem k) r" "low (mem k) c" "open_path (mem k) c"
    using assms(1) by (simp_all add: fork_st_def apart_def r_def c_def)
  have fm: "page_map (mem k) c j = child_map f j" "page_map (mem k) r j = parent_map f j" if "j < NVIRTUAL" for j
    using assms(1) that by (simp_all add: fork_st_def fork_maps_def r_def c_def)
  have kp: "kept f k0 k" and en: "card (missing (mem k) c) \<le> free_count C k" and at: "at_page r i pit k" "at_page c i it k"
    using assms(1) by (simp_all add: fork_st_def enough_def r_def c_def)
  have s: "settled (mem k) pit" "vva pit = page_addr i" "pageno (vpt pit) = r" using at(1) by (simp_all add: at_page_def)
  have mp: "mapping (mem k) (pageno (vpt pit)) (vva pit) = Some (pa, perm)" using fm(2) [OF assms(2)] assms(3) s by (simp add: page_map_def)
  note e = mapping_entry [OF s(1) mp]
  have al: "perm' AND NOT (vperm pit) AND (PTE_P OR PTE_W OR PTE_U) = 0"
  proof (rule bit_word_eqI)
    fix n
    have "bit (vperm pit) n" if "bit perm n" using that e(3) by (metis bit_and_iff)
    moreover have "\<not> bit (perm' AND NOT perm AND (PTE_P OR PTE_W OR PTE_U)) n" using assms(6) by simp
    ultimately show "bit (perm' AND NOT (vperm pit) AND (PTE_P OR PTE_W OR PTE_U)) n = bit (0 :: u64) n"
      unfolding bit_and_iff bit_not_iff by auto
  qed
  have lv: "perm' \<noteq> 0 \<longrightarrow> vlevel pit \<le> free_count C k" using e(1) by simp
  obtain pit' k' where t: "vm_try_map C pa perm' pit k = Some (0, pit', k')" "within_tree r k k'" "at_page r i pit' k'" "low (mem k') r"
    and "open_path (mem k) r \<longrightarrow> open_path (mem k') r"
    and mp': "mapping (mem k') r = map_page (page_addr i) (if perm' AND PTE_P \<noteq> 0 then Some (pa, perm') else None) (mapping (mem k) r)"
    and fc: "vlevel pit = 0 \<longrightarrow> free_count C k' = free_count C k"
    and "card (missing (mem k) r) \<le> free_count C k \<longrightarrow> card (missing (mem k') r) \<le> free_count C k'"
    and "grows (mem k) (mem k') r"
    by (rule try_map_page [OF ap(1,4) at(1) assms(2,5) al lv]) (rule that; assumption)
  note os = other_side [OF t(2) ap(2,3) at(2)]
  define f' where "f' = f\<lparr>parent_map := (parent_map f)(i := Some (pa, perm'))\<rparr>"
  have f': "parent_root f' = r" "child_root f' = c" "child_map f' = child_map f" "new_refs f' = new_refs f"
    by (simp_all add: f'_def r_def c_def)
  have ap': "apart f' k'" unfolding apart_def f' using os(1,4,5,6) t(2,4) ap(5,6) by (auto simp: within_tree_def)
  have fm': "fork_maps f' k'"
    unfolding fork_maps_def f'(1,2,3)
  proof (intro allI impI)
    fix j
    assume j: "j < NVIRTUAL"
    have "page_map (mem k') r j = parent_map f' j"
      using j assms(2,4) fm(2) [OF j] unfolding page_map_def mp' f'_def by (simp add: page_map_update page_map_def)
    moreover have "page_map (mem k') c j = child_map f j" using fm(1) [OF j] by (simp add: page_map_def os(2))
    ultimately show "page_map (mem k') c j = child_map f j \<and> page_map (mem k') r j = parent_map f' j" by blast
  qed
  have k': "kept f' k0 k'"
    by (rule kept_within [where b = c, OF kp t(2)]) (simp_all add: f' f'(1,2) [unfolded r_def c_def] os(3) [unfolded c_def] r_def c_def)
  have "card (missing (mem k') c) \<le> free_count C k'" using en os(7) HOL.mp [OF fc e(1)] by simp
  then have "fork_st C k0 f' i pit' it k'"
    unfolding fork_st_def enough_def f' using ap' fm' k' os(8) t(3) by blast
  then show ?thesis using that t(1) unfolding f'_def by blast
qed

section \<open>One round\<close>

lemma fork_st_reads:
  assumes "fork_st C k0 f i pit it k" and "i < NVIRTUAL"
  shows "vm_perm (mem k) pit = (case parent_map f i of None \<Rightarrow> 0 | Some (pa, perm) \<Rightarrow> perm)"
    and "parent_map f i = Some (pa, perm) \<Longrightarrow> vm_pa (mem k) pit = pa"
    and "parent_map f i = Some (pa, perm) \<Longrightarrow> perm AND 0xFFF = perm \<and> pa AND PTE_PAMASK = pa \<and> perm AND PTE_P \<noteq> 0 \<and> pa < 0x100000000"
    and "parent_map f i = None \<Longrightarrow> stored_pa (vm_pa (mem k) pit) 0 AND PTE_P = 0 \<and> low_entry (stored_pa (vm_pa (mem k) pit) 0)"
proof -
  define r where "r = parent_root f"
  have at: "settled (mem k) pit" "vva pit = page_addr i" "pageno (vpt pit) = r" and lo: "low (mem k) r"
    using assms(1) by (simp_all add: fork_st_def at_page_def apart_def r_def)
  have mp: "mapping (mem k) (pageno (vpt pit)) (vva pit) = parent_map f i"
    using assms by (simp add: fork_st_def fork_maps_def page_map_def at r_def)
  have al: "unat (vva pit) mod PAGESIZE = 0" using page_aligned [of i] assms(2) at(2) by simp
  show "vm_perm (mem k) pit = (case parent_map f i of None \<Rightarrow> 0 | Some (pa, perm) \<Rightarrow> perm)"
    using vm_perm_mapping [OF at(1)] mp by simp
  obtain p where p: "vpep pit = Some (p, pageindex (vva pit) (vlevel pit))"
    "table_at (mem k) r (vva pit) (3 - vlevel pit) = Some (p, vperm pit)" using at by (auto simp: settled_def on_path_def)
  have "p \<in> tables (mem k) r" by (rule tablesI [OF p(2)]) simp
  then have le: "low_entry (entry (mem k) pit)" using lo p(1) by (simp add: low_def entry_def)
  {
    assume s: "parent_map f i = Some (pa, perm)"
    show "vm_pa (mem k) pit = pa" by (rule vm_pa_mapping(1) [OF at(1) al]) (use mp s in simp)
    have m: "mapping (mem k) (pageno (vpt pit)) (vva pit) = Some (pa, perm)" using mp s by simp
    show "perm AND 0xFFF = perm \<and> pa AND PTE_PAMASK = pa \<and> perm AND PTE_P \<noteq> 0 \<and> pa < 0x100000000"
      using mapping_low [OF m] mapping_entry(2) [OF at(1) m] le by (simp add: low_entry_def)
  }
  assume n: "parent_map f i = None"
  have e: "vm_pa (mem k) pit = (if entry (mem k) pit AND PTE_P \<noteq> 0 then entry (mem k) pit AND PTE_PAMASK else -1)"
    using at(1) aligned_low [OF al] by (cases "vlevel pit = 0") (auto simp: vm_pa_def settled_def)
  have "entry (mem k) pit AND PTE_PAMASK AND PTE_P = 0" by (simp add: pte_defs and.assoc)
  moreover have "low_entry (entry (mem k) pit AND PTE_PAMASK)" using le unfolding low_entry_def by (simp add: and.assoc)
  ultimately show "stored_pa (vm_pa (mem k) pit) 0 AND PTE_P = 0 \<and> low_entry (stored_pa (vm_pa (mem k) pit) 0)"
    unfolding e stored_pa_def by (simp add: and.assoc)
qed

lemma map_okI:
  assumes "perm AND 0xFFF = perm" and "perm AND PTE_P \<noteq> 0" and "pa AND PTE_PAMASK = pa" and "pa < 0x100000000"
  shows "map_ok pa perm"
proof -
  have "stored_pa pa perm = pa" using assms(2) by (auto simp: stored_pa_def)
  then show ?thesis using assms low_or [OF assms(3,1,4)] by (simp add: map_ok_def)
qed

text \<open>A user page is the page of a mapping with \<open>PTE_P\<close> and \<open>PTE_U\<close>.\<close>

lemma vm_user_map:
  assumes "fork_st C k0 f i pit it k" and "i < NVIRTUAL"
  shows "vm_user (mem k) pit \<longleftrightarrow> is_user (parent_map f i)"
proof (cases "parent_map f i")
  case None
  then have "vm_perm (mem k) pit = 0" using fork_st_reads(1) [OF assms] by simp
  moreover have "PTE_P OR PTE_U \<noteq> 0" by (simp add: pte_defs)
  ultimately show ?thesis using None by (simp add: vm_user_def vm_has_def is_user_def)
next
  case (Some x)
  then show ?thesis using fork_st_reads(1) [OF assms] by (cases x) (simp add: vm_user_def vm_has_def is_user_def)
qed

definition after_page :: "nat \<Rightarrow> fork_case \<Rightarrow> fork_case" where
  "after_page i f = f\<lparr>child_map := (child_map f)(i := child_page i (parent_map f i)),
     parent_map := (parent_map f)(i := parent_page i (parent_map f i)),
     new_refs := (case parent_map f i of Some (pa, perm) \<Rightarrow>
       (if 256 \<le> i \<and> is_user (parent_map f i) then (new_refs f)(pageno pa := new_refs f (pageno pa) + 1) else new_refs f)
     | None \<Rightarrow> new_refs f)\<rparr>"

text \<open>The page can be shared: it is an allocated page whose reference count can go up.\<close>

definition sharable :: "kstate \<Rightarrow> fork_case \<Rightarrow> nat \<Rightarrow> bool" where
  "sharable k0 f i \<longleftrightarrow> (case parent_map f i of None \<Rightarrow> True | Some (pa, perm) \<Rightarrow> 256 \<le> i \<and> is_user (parent_map f i) \<longrightarrow>
     pageno pa < NPAGES \<and> refcount k0 (pageno pa) \<noteq> 0 \<and> unat (refcount k0 (pageno pa)) + new_refs f (pageno pa) < 255)"

lemma after_kernel_page:
  assumes "fork_st C k0 f i pit it k" and "i < 256"
  shows "\<exists>it' k'. fork_body C cpt pit it k = Some (True, pit, it', k') \<and> fork_st C k0 (after_page i f) i pit it' k'"
proof -
  have i: "i < NVIRTUAL" using assms(2) by simp
  have va: "vva it = page_addr i" using assms(1) by (simp add: fork_st_def at_page_def)
  then have b: "vva it < PROC_START_ADDR" using page_less(2) [of i] assms(2) by simp
  define pa where "pa = vm_pa (mem k) pit"
  define perm where "perm = vm_perm (mem k) pit"
  have "map_ok pa perm \<and> (if perm AND PTE_P \<noteq> 0 then Some (pa, perm) else None) = parent_map f i"
  proof (cases "parent_map f i")
    case None
    then have "perm = 0" using fork_st_reads(1) [OF assms(1) i] by (simp add: perm_def)
    then show ?thesis using fork_st_reads(4) [OF assms(1) i None] None by (simp add: map_ok_def pa_def)
  next
    case (Some x)
    obtain q w where x: "x = (q, w)" by fastforce
    then have s: "parent_map f i = Some (q, w)" using Some by simp
    have "pa = q" "perm = w" using fork_st_reads(1) [OF assms(1) i] fork_st_reads(2) [OF assms(1) i s] s
      by (simp_all add: pa_def perm_def)
    then show ?thesis using fork_st_reads(3) [OF assms(1) i s] map_okI s by simp
  qed
  then have ok: "map_ok pa perm" and e: "(if perm AND PTE_P \<noteq> 0 then Some (pa, perm) else None) = parent_map f i" by simp_all
  obtain it' k' where t: "vm_try_map C pa perm it k = Some (0, it', k')"
    "fork_st C k0 (f\<lparr>child_map := (child_map f)(i := if perm AND PTE_P \<noteq> 0 then Some (pa, perm) else None)\<rparr>) i pit it' k'"
    by (rule child_step [OF assms(1) i ok])
  have "f\<lparr>child_map := (child_map f)(i := parent_map f i)\<rparr> = after_page i f"
    using assms(2) by (cases f) (simp add: after_page_def child_page_def parent_page_def split: option.split)
  then have "fork_st C k0 (after_page i f) i pit it' k'" using t(2) unfolding e by simp
  moreover have "fork_body C cpt pit it k = Some (True, pit, it', k')"
    using b t(1) by (simp add: fork_body_def pa_def perm_def)
  ultimately show ?thesis by blast
qed

lemma after_user_page:
  assumes "fork_st C k0 f i pit it k" and "256 \<le> i" and "i < NVIRTUAL" and "parent_map f i = Some (pa, perm)"
    and "is_user (parent_map f i)" and "sharable k0 f i"
  shows "\<exists>pit' it' k'. fork_body C cpt pit it k = Some (True, pit', it', k') \<and> fork_st C k0 (after_page i f) i pit' it' k'"
proof -
  define w where "w = shared_perm perm"
  define n where "n = pageno pa"
  have st: "n < NPAGES" "refcount k0 n \<noteq> 0" "unat (refcount k0 n) + new_refs f n < 255"
    using assms(2,4-6) by (simp_all add: sharable_def n_def)
  have va: "vva it = page_addr i" using assms(1) by (simp add: fork_st_def at_page_def)
  have nk: "\<not> (vva it < PROC_START_ADDR \<or> vva it = CONSOLE_ADDR)"
  proof -
    have "\<not> vva it < PROC_START_ADDR" using page_less(2) [of i] assms(2,3) va by simp
    moreover have "CONSOLE_ADDR < PROC_START_ADDR" by (simp add: addr_defs)
    ultimately show ?thesis by auto
  qed
  note rd = fork_st_reads(3) [OF assms(1,3,4)]
  have r: "vm_perm (mem k) pit = perm" "vm_pa (mem k) pit = pa"
    using fork_st_reads(1) [OF assms(1,3)] fork_st_reads(2) [OF assms(1,3,4)] assms(4) by simp_all
  have u: "vm_user (mem k) pit" using vm_user_map [OF assms(1,3)] assms(5) by simp
  have pw: "(if vm_writable (mem k) pit then (perm AND NOT PTE_W) OR PTE_C else perm AND NOT PTE_W) = w"
    by (simp add: vm_writable_def vm_has_def r w_def shared_perm_def)
  have sp: "w AND 0xFFF = w" "w AND PTE_P \<noteq> 0" using shared_perm_facts [of perm] rd by (simp_all add: w_def)
  have ok: "map_ok pa w" by (rule map_okI [OF sp]) (use rd in simp_all)
  obtain it' k1 where t1: "vm_try_map C pa w it k = Some (0, it', k1)"
    "fork_st C k0 (f\<lparr>child_map := (child_map f)(i := if w AND PTE_P \<noteq> 0 then Some (pa, w) else None)\<rparr>) i pit it' k1"
    "entry (mem k1) pit = entry (mem k) pit"
    by (rule child_step [OF assms(1,3) ok])
  define f1 where "f1 = f\<lparr>child_map := (child_map f)(i := Some (pa, w))\<rparr>"
  have f1: "fork_st C k0 f1 i pit it' k1" using t1(2) sp(2) by (simp add: f1_def)
  have "parent_map f1 i = Some (pa, perm)" using assms(4) by (simp add: f1_def)
  moreover have "w AND NOT perm AND (PTE_P OR PTE_W OR PTE_U) = 0" unfolding w_def by (rule shared_allowed) simp
  ultimately obtain pit' k2 where t2: "vm_try_map C pa w pit k1 = Some (0, pit', k2)"
    "fork_st C k0 (f1\<lparr>parent_map := (parent_map f1)(i := Some (pa, w))\<rparr>) i pit' it' k2"
    using parent_step [OF f1 assms(3) _ sp(2) ok] by blast
  define f2 where "f2 = f1\<lparr>parent_map := (parent_map f1)(i := Some (pa, w))\<rparr>"
  have f2: "fork_st C k0 f2 i pit' it' k2" using t2(2) by (simp add: f2_def)
  have p2: "vm_pa (mem k2) pit' = pa" by (rule fork_st_reads(2) [OF f2 assms(3), where perm = w]) (simp add: f2_def)
  have "vm_pa (mem k1) pit = vm_pa (mem k) pit" by (simp only: vm_pa_def t1(3))
  then have p1: "vm_pa (mem k1) pit = pa" using r(2) by simp
  define k' where "k' = k2\<lparr>refcount := (refcount k2)(n := refcount k2 n + 1)\<rparr>"
  have "unat (refcount k0 n) + new_refs f2 n < 255" using st(3) by (simp add: f2_def f1_def)
  from fork_refs [OF f2 st(2) this]
  have "fork_st C k0 (f2\<lparr>new_refs := (new_refs f2)(n := new_refs f2 n + 1)\<rparr>) i pit' it' k'" by (simp add: k'_def)
  moreover have "f2\<lparr>new_refs := (new_refs f2)(n := new_refs f2 n + 1)\<rparr> = after_page i f"
    using assms(2,4,5) by (cases f) (simp add: f2_def f1_def after_page_def child_page_def parent_page_def n_def w_def)
  moreover have "fork_body C cpt pit it k = Some (True, pit', it', k')"
    using nk u t1(1) t2(1) pw p1 p2 st(1) by (simp add: fork_body_def r n_def k'_def Let_def)
  ultimately show ?thesis by auto
qed

lemma after_other_page:
  assumes "fork_st C k0 f i pit it k" and "256 \<le> i" and "i < NVIRTUAL" and "\<not> is_user (parent_map f i)" and "child_map f i = None"
  shows "fork_body C cpt pit it k = Some (True, pit, it, k)" and "after_page i f = f"
proof -
  have va: "vva it = page_addr i" using assms(1) by (simp add: fork_st_def at_page_def)
  have "\<not> vva it < PROC_START_ADDR" using page_less(2) [of i] assms(2,3) va by simp
  moreover have "CONSOLE_ADDR < PROC_START_ADDR" by (simp add: addr_defs)
  ultimately have nk: "\<not> (vva it < PROC_START_ADDR \<or> vva it = CONSOLE_ADDR)" by auto
  have "\<not> vm_user (mem k) pit" using vm_user_map [OF assms(1,3)] assms(4) by simp
  then show "fork_body C cpt pit it k = Some (True, pit, it, k)" using nk by (simp add: fork_body_def)
  have c: "child_page i (parent_map f i) = None" "parent_page i (parent_map f i) = parent_map f i"
    using assms(2,4) by (simp_all add: child_page_def parent_page_def)
  have "(child_map f)(i := None) = child_map f" using assms(5) by (simp add: fun_upd_idem)
  moreover have "(parent_map f)(i := parent_map f i) = parent_map f" by simp
  moreover have "(case parent_map f i of Some (pa, perm) \<Rightarrow>
       (if 256 \<le> i \<and> is_user (parent_map f i) then (new_refs f)(pageno pa := new_refs f (pageno pa) + 1) else new_refs f)
     | None \<Rightarrow> new_refs f) = new_refs f" using assms(4) by (cases "parent_map f i") auto
  ultimately show "after_page i f = f" unfolding after_page_def c by simp
qed

lemma fork_round:
  assumes "fork_st C k0 f i pit it k" and "i < NVIRTUAL" and "sharable k0 f i" and "child_map f i = None"
  shows "\<exists>pit' it' k'. fork_loop C cpt pit it k = fork_loop C cpt pit' it' k' \<and> fork_st C k0 (after_page i f) (Suc i) pit' it' k'"
proof -
  have "\<exists>pit' it' k'. fork_body C cpt pit it k = Some (True, pit', it', k') \<and> fork_st C k0 (after_page i f) i pit' it' k'"
  proof (cases "i < 256")
    case True
    then show ?thesis using after_kernel_page [OF assms(1)] by blast
  next
    case False
    then have i: "256 \<le> i" by simp
    show ?thesis
    proof (cases "is_user (parent_map f i)")
      case True
      then obtain pa perm where "parent_map f i = Some (pa, perm)" by (auto simp: is_user_def split: option.splits)
      from after_user_page [OF assms(1) i assms(2) this True assms(3)] show ?thesis .
    next
      case False
      then show ?thesis using after_other_page [OF assms(1) i assms(2) False assms(4)] assms(1) by auto
    qed
  qed
  then obtain pit1 it1 k1 where b: "fork_body C cpt pit it k = Some (True, pit1, it1, k1)" "fork_st C k0 (after_page i f) i pit1 it1 k1"
    by blast
  define f' where "f' = after_page i f"
  have ap: "owned k1 (parent_root f')" "owned k1 (child_root f')" "low (mem k1) (parent_root f')" "low (mem k1) (child_root f')"
    and at: "at_page (parent_root f') i pit1 k1" "at_page (child_root f') i it1 k1"
    using b(2) by (simp_all add: fork_st_def apart_def f'_def)
  obtain pit2 where p: "vm_advance (mem k1) pit1 (of_nat PAGESIZE) = Some pit2" "at_page (parent_root f') (Suc i) pit2 k1"
    by (rule at_page_next [OF at(1) ap(1,3) assms(2)])
  obtain it2 where c: "vm_advance (mem k1) it1 (of_nat PAGESIZE) = Some it2" "at_page (child_root f') (Suc i) it2 k1"
    by (rule at_page_next [OF at(2) ap(2,4) assms(2)])
  have "vva pit = page_addr i" using assms(1) by (simp add: fork_st_def at_page_def)
  then have "vva pit < MEMSIZE_VIRTUAL" using page_less(1) [of i] assms(2) by simp
  then have "fork_loop C cpt pit it k = fork_loop C cpt pit2 it2 k1"
    by (subst fork_loop_eq) (use b(1) p(1) c(1) in simp)
  moreover have "fork_st C k0 f' (Suc i) pit2 it2 k1" using b(2) p(2) c(2) by (simp add: fork_st_def f'_def)
  ultimately show ?thesis unfolding f'_def by blast
qed

section \<open>All rounds\<close>

definition page_of :: "(u64 \<times> u64) option \<Rightarrow> nat" where
  "page_of x = (case x of None \<Rightarrow> 0 | Some (pa, perm) \<Rightarrow> pageno pa)"

text \<open>The user pages below \<open>n\<close> that are page \<open>m\<close>.\<close>

definition sharers :: "(nat \<Rightarrow> (u64 \<times> u64) option) \<Rightarrow> nat \<Rightarrow> nat \<Rightarrow> nat set" where
  "sharers F n m = {j. 256 \<le> j \<and> j < n \<and> is_user (F j) \<and> page_of (F j) = m}"

lemma sharers_finite [simp]: "finite (sharers F n m)"
  by (rule finite_subset [of _ "{..< n}"]) (auto simp: sharers_def)

lemma sharers_Suc:
  "sharers F (Suc n) m = (if 256 \<le> n \<and> is_user (F n) \<and> page_of (F n) = m then insert n (sharers F n m) else sharers F n m)"
  by (auto simp: sharers_def less_Suc_eq)

lemma sharers_card:
  "card (sharers F (Suc n) m) = card (sharers F n m) + (if 256 \<le> n \<and> is_user (F n) \<and> page_of (F n) = m then 1 else 0)"
proof -
  have "n \<notin> sharers F n m" by (simp add: sharers_def)
  then show ?thesis by (simp add: sharers_Suc)
qed

lemma sharers_mono: "n \<le> n' \<Longrightarrow> card (sharers F n m) \<le> card (sharers F n' m)"
  by (rule card_mono) (auto simp: sharers_def)

text \<open>After the first \<open>n\<close> pages of the parent's mapping \<open>F\<close>.\<close>

definition shared_case :: "nat \<Rightarrow> nat \<Rightarrow> (nat \<Rightarrow> (u64 \<times> u64) option) \<Rightarrow> nat \<Rightarrow> fork_case" where
  "shared_case r c F n = \<lparr>parent_root = r, child_root = c, child_map = (\<lambda>j. if j < n then child_page j (F j) else None),
     parent_map = (\<lambda>j. if j < n then parent_page j (F j) else F j), new_refs = (\<lambda>m. card (sharers F n m))\<rparr>"

lemma shared_case_Suc: "after_page n (shared_case r c F n) = shared_case r c F (Suc n)"
proof -
  let ?f = "shared_case r c F n"
  have pm: "parent_map ?f n = F n" by (simp add: shared_case_def)
  have nr: "(case F n of Some (pa, perm) \<Rightarrow>
       (if 256 \<le> n \<and> is_user (F n) then (new_refs ?f)(pageno pa := new_refs ?f (pageno pa) + 1) else new_refs ?f)
     | None \<Rightarrow> new_refs ?f) = (\<lambda>m. card (sharers F (Suc n) m))"
  proof (cases "F n")
    case None
    then show ?thesis by (simp add: shared_case_def sharers_card is_user_def)
  next
    case (Some x)
    obtain pa perm where x: "x = (pa, perm)" by fastforce
    then show ?thesis using Some by (auto simp: shared_case_def sharers_card page_of_def fun_eq_iff)
  qed
  have "(child_map ?f)(n := child_page n (F n)) = child_map (shared_case r c F (Suc n))"
    by (auto simp: shared_case_def fun_eq_iff less_Suc_eq)
  moreover have "(parent_map ?f)(n := parent_page n (F n)) = parent_map (shared_case r c F (Suc n))"
    by (auto simp: shared_case_def fun_eq_iff less_Suc_eq)
  ultimately show ?thesis
    unfolding after_page_def pm nr by (simp add: shared_case_def)
qed

text \<open>Every user page of the parent is allocated and its count can take the new references.\<close>

definition countable_pages :: "kstate \<Rightarrow> (nat \<Rightarrow> (u64 \<times> u64) option) \<Rightarrow> bool" where
  "countable_pages k F \<longleftrightarrow> (\<forall>i. 256 \<le> i \<longrightarrow> i < NVIRTUAL \<longrightarrow> is_user (F i) \<longrightarrow>
     page_of (F i) < NPAGES \<and> refcount k (page_of (F i)) \<noteq> 0
     \<and> unat (refcount k (page_of (F i))) + card (sharers F NVIRTUAL (page_of (F i))) < 256)"

lemma sharable_case: "countable_pages k F \<Longrightarrow> i < NVIRTUAL \<Longrightarrow> sharable k (shared_case r c F i) i"
proof -
  assume cp: "countable_pages k F" and i: "i < NVIRTUAL"
  have pm: "parent_map (shared_case r c F i) i = F i" by (simp add: shared_case_def)
  show ?thesis
  proof (cases "256 \<le> i \<and> is_user (F i)")
    case True
    then obtain pa perm where F: "F i = Some (pa, perm)" by (auto simp: is_user_def split: option.splits)
    have c: "pageno pa < NPAGES" "refcount k (pageno pa) \<noteq> 0" "unat (refcount k (pageno pa)) + card (sharers F NVIRTUAL (pageno pa)) < 256"
      using cp i True F by (auto simp: countable_pages_def page_of_def)
    have "Suc (card (sharers F i (pageno pa))) \<le> card (sharers F NVIRTUAL (pageno pa))"
      using sharers_card [of F i "pageno pa"] sharers_mono [of "Suc i" NVIRTUAL F "pageno pa"] True i F by (simp add: page_of_def)
    then show ?thesis using c F by (simp add: sharable_def pm) (simp add: shared_case_def)
  next
    case False
    then show ?thesis by (auto simp: sharable_def pm split: option.split)
  qed
qed

lemma fork_loop_total:
  assumes "countable_pages k0 F" and "i \<le> NVIRTUAL" and "fork_st C k0 (shared_case r c F i) i pit it k"
  shows "\<exists>pit' it' k'. fork_loop C cpt pit it k = Some (True, k') \<and> fork_st C k0 (shared_case r c F NVIRTUAL) NVIRTUAL pit' it' k'"
  using assms(2,3)
proof (induction "NVIRTUAL - i" arbitrary: i pit it k)
  case 0
  then have i: "i = NVIRTUAL" by simp
  have "vva pit = page_addr i" using 0 by (simp add: fork_st_def at_page_def)
  then have "\<not> vva pit < MEMSIZE_VIRTUAL" using page_less(1) [of i] i by simp
  then have "fork_loop C cpt pit it k = Some (True, k)" by (subst fork_loop_eq) simp
  then show ?case using 0 i by blast
next
  case (Suc n)
  then have i: "i < NVIRTUAL" by simp
  have "child_map (shared_case r c F i) i = None" by (simp add: shared_case_def)
  from fork_round [OF Suc.prems(2) i sharable_case [OF assms(1) i] this]
  obtain pit' it' k' where s: "fork_loop C cpt pit it k = fork_loop C cpt pit' it' k'" "fork_st C k0 (shared_case r c F (Suc i)) (Suc i) pit' it' k'"
    unfolding shared_case_Suc by blast
  have "n = NVIRTUAL - Suc i" "Suc i \<le> NVIRTUAL" using Suc.hyps(2) i by simp_all
  from Suc.hyps(1) [OF this s(2)] show ?case unfolding s(1) .
qed

section \<open>The system call\<close>

definition fork_ready :: "kconf \<Rightarrow> kstate \<Rightarrow> bool" where
  "fork_ready C k \<longleftrightarrow> (let r = pageno (pagetable (cur k)) in
     owned k r \<and> low (mem k) r \<and> countable_pages k (page_map (mem k) r)
     \<and> find_free_slot [1 ..< PID_MAX] k \<noteq> 0 \<and> 5 \<le> free_count C k)"

definition fork_done :: "kstate \<Rightarrow> nat \<Rightarrow> u64 \<Rightarrow> kstate \<Rightarrow> bool" where
  "fork_done k cpid cpt k' \<longleftrightarrow> (let r = pageno (pagetable (cur k)); c = pageno cpt; F = page_map (mem k) r in
     owned k' r \<and> owned k' c \<and> tables (mem k') r \<inter> tables (mem k') c = {}
     \<and> (\<forall>i < NVIRTUAL. page_map (mem k') c i = child_page i (F i) \<and> page_map (mem k') r i = parent_page i (F i))
     \<and> (\<forall>n. refcount k n \<noteq> 0 \<longrightarrow> unat (refcount k' n) = unat (refcount k n) + card (sharers F NVIRTUAL n))
     \<and> (\<forall>n. refcount k n \<noteq> 0 \<longrightarrow> n \<notin> tables (mem k) r \<longrightarrow> mem k' n = mem k n)
     \<and> ptable k' = (ptable k)(cpid := (ptable k cpid)\<lparr>pagetable := cpt, state := P_RUNNABLE,
         regs := (regs (cur k))\<lparr>reg_rax := 0\<rparr>, pid := cpid\<rparr>)
     \<and> current k' = current k)"

text \<open>An empty tree.\<close>

lemma empty_tree:
  assumes "\<And>i. m q i = 0"
  shows "tables m q = {q}" and "tree_ok m q" and "small_pages m q" and "low m q" and "open_path m q" and "mapping m q va = None"
proof -
  have z: "\<not> is_table 0" by (simp add: is_table_def pte_defs)
  have s: "table_at m q va (Suc d) = None" for va d
  proof -
    have "table_at m q va (Suc 0) = None" using assms z by (simp add: table_at.simps(2) Let_def)
    then show ?thesis by (rule table_at_down) simp
  qed
  then have t: "table_at m q va d = Some (p, perm) \<Longrightarrow> d = 0 \<and> p = q \<and> perm = initial_perm" for va d p perm
    by (cases d) auto
  show tb: "tables m q = {q}"
  proof
    show "tables m q \<subseteq> {q}" using t by (fastforce simp: tables_def)
  qed simp
  show "tree_ok m q" unfolding tree_ok_def using t by (metis same_path_0)
  show "small_pages m q" unfolding small_pages_def using t assms by (metis and_zero_eq and.commute)
  show "low m q" using assms by (simp add: low_def tb)
  show "open_path m q" unfolding open_path_def using t by blast
  have "table_at m q va 3 = None" using s [of va 2] by (simp add: numeral_3_eq_3)
  then show "mapping m q va = None" by (simp add: mapping_def)
qed

text \<open>The child's page table at the start.\<close>

lemma fork_starts:
  assumes "owned k r" and "low (mem k) r" and "r = pageno pt" and "5 \<le> free_count C k"
  obtains q k1 pit it where "q < NPAGES" and "q \<noteq> 0" and "kalloc_pagetable C k = (page_addr q, k1)" and "same_procs k k1"
    and "vmiter_at (mem k1) pt 0 = Some pit" and "vmiter_at (mem k1) (page_addr q) 0 = Some it"
    and "fork_st C k (shared_case r q (page_map (mem k) r) 0) 0 pit it k1"
proof -
  have "0 < free_count C k" using assms(4) by simp
  then obtain q where q: "free_page C k q" "q \<noteq> 0" "kalloc C PAGESIZE k = (page_addr q, take_page q k)" by (rule kalloc_succeeds)
  have ql: "q < NPAGES" and rq: "refcount k q = 0" using q(1) by (simp_all add: free_page_def)
  define k1 where "k1 = set_page q 0 (take_page q k)"
  have ka: "kalloc_pagetable C k = (page_addr q, k1)" using q ql by (simp add: kalloc_pagetable_def k1_def)
  have m1: "mem k1 t = mem k t" if "t \<noteq> q" for t using that by (simp add: k1_def take_page_def)
  have mn: "mem k1 t = mem k t" if "refcount k t \<noteq> 0" for t using m1 [of t] that rq by auto
  have mq: "mem k1 q i = 0" for i by (simp add: k1_def)
  have rc: "refcount k1 = (refcount k)(q := 1)" by (simp add: k1_def take_page_def)
  have qt: "q \<notin> tables (mem k) r" using assms(1) rq by (auto simp: owned_def)
  then have out: "mem k1 p = mem k p" if "p \<in> tables (mem k) r" for p using that m1 by metis
  note o = outside [of "mem k" r "mem k1", OF out]
  note e = empty_tree [of "mem k1" q, OF mq]
  have or: "owned k1 r"
    using assms(1) o small_outside [of "mem k" r "mem k1", OF out] by (simp add: owned_def rc)
  have oq: "owned k1 q" using e(1-3) by (simp add: owned_def rc)
  have lr: "low (mem k1) r" using assms(2) low_outside [of "mem k" r "mem k1", OF out] by simp
  have c0: "va_is_canonical 0" by (simp add: va_is_canonical_def)
  have pq: "pageno (page_addr q) = q" using ql by simp
  obtain pit where pit: "vmiter_at (mem k1) pt 0 = Some pit" by (rule vmiter_at_total [OF _ c0]) (use lr assms(3) in auto)
  obtain it where it: "vmiter_at (mem k1) (page_addr q) 0 = Some it" by (rule vmiter_at_total [OF _ c0]) (use e(4) pq in auto)
  have p0: "page_addr 0 = 0" by (simp add: page_addr_def)
  have at: "at_page r 0 pit k1" "at_page q 0 it k1"
    using vmiter_at_settled [OF _ c0 pit] vmiter_at_settled [OF _ c0 it] or oq assms(3) pq p0 by (simp_all add: at_page_def)
  have fc: "Suc (free_count C k1) = free_count C k" by (rule free_count_take [OF q(1)]) (simp add: rc)
  have "card (missing (mem k1) q) \<le> card path_nodes" by (rule card_mono) (auto simp: missing_def)
  also have "\<dots> = 4" by (simp add: path_nodes_def)
  finally have en: "card (missing (mem k1) q) \<le> free_count C k1" using fc assms(4) by linarith
  have sp: "same_procs k k1" by (simp add: k1_def same_procs_def take_page_def)
  let ?f = "shared_case r q (page_map (mem k) r) 0"
  have f: "parent_root ?f = r" "child_root ?f = q" "child_map ?f = (\<lambda>j. None)" "parent_map ?f = page_map (mem k) r" "new_refs ?f = (\<lambda>m. 0)"
    by (simp_all add: shared_case_def sharers_def)
  have "fork_maps ?f k1" unfolding fork_maps_def f by (simp add: page_map_def e(6) o(3))
  moreover have "apart ?f k1" unfolding apart_def f using or oq lr e(1,4,5) qt o(1) by simp
  moreover have "kept ?f k k1" unfolding kept_def f using sp rc rq mn o(1) e(1) by auto
  moreover have "enough C ?f k1" unfolding enough_def f by (rule en)
  ultimately have "fork_st C k ?f 0 pit it k1" unfolding fork_st_def f using at by blast
  then show ?thesis using that ql q(2) ka sp pit it by blast
qed

text \<open>C7: \<open>fork\<close> with a free process slot, free pages for the child's five tables and reference counts
  that do not overflow always returns the child's process number. The child maps the parent's
  kernel pages and user pages; every user page is the same physical page in both, read-only,
  marked copy-on-write in both if it was writable, and counted once more for every user page
  that refers to it. No contents of allocated pages and no other process change, and the
  child's registers are the parent's with a result of 0.\<close>

theorem fork_shares:
  assumes "fork_ready C k"
  shows "\<exists>cpt k'. syscall_fork C k = Some (of_nat (find_free_slot [1 ..< PID_MAX] k), k')
     \<and> fork_done k (find_free_slot [1 ..< PID_MAX] k) cpt k'"
proof -
  define r where "r = pageno (pagetable (cur k))"
  define F where "F = page_map (mem k) r"
  define cpid where "cpid = find_free_slot [1 ..< PID_MAX] k"
  have rd: "owned k r" "low (mem k) r" "countable_pages k F" "cpid \<noteq> 0" "5 \<le> free_count C k"
    using assms by (simp_all add: fork_ready_def Let_def r_def F_def cpid_def)
  obtain q k1 pit it where s: "q < NPAGES" "q \<noteq> 0" "kalloc_pagetable C k = (page_addr q, k1)" "same_procs k k1"
    "vmiter_at (mem k1) (pagetable (cur k)) 0 = Some pit" "vmiter_at (mem k1) (page_addr q) 0 = Some it"
    "fork_st C k (shared_case r q F 0) 0 pit it k1"
    unfolding F_def by (rule fork_starts [OF rd(1,2) r_def rd(5)])
  have "(0 :: nat) \<le> NVIRTUAL" by simp
  from fork_loop_total [OF rd(3) this s(7)]
  obtain pit' it' k2 where l: "fork_loop C (page_addr q) pit it k1 = Some (True, k2)"
    "fork_st C k (shared_case r q F NVIRTUAL) NVIRTUAL pit' it' k2" by blast
  define k' where "k' = set_proc cpid (\<lambda>p. p\<lparr>pagetable := page_addr q, state := P_RUNNABLE, regs := (regs (cur k2))\<lparr>reg_rax := 0\<rparr>, pid := cpid\<rparr>) k2"
  have c1: "cur k1 = cur k" by (rule cur_same [OF s(4)])
  have pq: "page_addr q \<noteq> 0" "pageno (page_addr q) = q" using s(1,2) by simp_all
  have run: "syscall_fork C k = Some (of_nat cpid, k')"
    unfolding syscall_fork_def cpid_def [symmetric] Let_def k'_def using rd(4) s(3,5,6) l(1) c1 pq(1) by simp
  have f: "parent_root (shared_case r q F NVIRTUAL) = r" "child_root (shared_case r q F NVIRTUAL) = q"
    "new_refs (shared_case r q F NVIRTUAL) = (\<lambda>m. card (sharers F NVIRTUAL m))"
    "\<And>j. j < NVIRTUAL \<Longrightarrow> child_map (shared_case r q F NVIRTUAL) j = child_page j (F j)"
    "\<And>j. j < NVIRTUAL \<Longrightarrow> parent_map (shared_case r q F NVIRTUAL) j = parent_page j (F j)"
    by (simp_all add: shared_case_def)
  have ap: "owned k2 r" "owned k2 q" "tables (mem k2) r \<inter> tables (mem k2) q = {}"
    using l(2) f(1,2) by (simp_all add: fork_st_def apart_def)
  have fm: "page_map (mem k2) q j = child_page j (F j)" "page_map (mem k2) r j = parent_page j (F j)" if "j < NVIRTUAL" for j
    using l(2) f(1,2) f(4,5) [OF that] that by (simp_all add: fork_st_def fork_maps_def)
  have kp: "same_procs k k2" "\<forall>n. refcount k n \<noteq> 0 \<longrightarrow> unat (refcount k2 n) = unat (refcount k n) + card (sharers F NVIRTUAL n)"
    "\<forall>n. refcount k n \<noteq> 0 \<longrightarrow> n \<notin> tables (mem k) r \<longrightarrow> mem k2 n = mem k n"
    using l(2) f(1,3) by (simp_all add: fork_st_def kept_def)
  have c2: "cur k2 = cur k" by (rule cur_same [OF kp(1)])
  have k': "mem k' = mem k2" "refcount k' = refcount k2" "current k' = current k"
    "ptable k' = (ptable k)(cpid := (ptable k cpid)\<lparr>pagetable := page_addr q, state := P_RUNNABLE, regs := (regs (cur k))\<lparr>reg_rax := 0\<rparr>, pid := cpid\<rparr>)"
    using kp(1) c2 by (simp_all add: k'_def set_proc_def same_procs_def)
  have ow: "owned k' x = owned k2 x" for x by (simp add: owned_def k')
  have "fork_done k cpid (page_addr q) k'"
    unfolding fork_done_def Let_def r_def [symmetric] F_def [symmetric] pq(2) k' ow using ap fm kp by blast
  then show ?thesis using run unfolding cpid_def by blast
qed

text \<open>A process with the tables of \<open>demo_tables\<close>; its page at 0x100000 is page 11.\<close>

definition demo_fork :: kstate where
  "demo_fork = \<lparr>mem = demo_tables, refcount = (\<lambda>p. if 2 \<le> p \<and> p \<le> 5 \<or> 9 \<le> p \<and> p \<le> 11 then 1 else 0),
     ptable = (\<lambda>n. \<lparr>pagetable = 0x2000, pid = n, state = (if n = 1 then P_RUNNABLE else P_FREE), regs = zero_regs, wake_up = 0\<rparr>),
     current = 1, ticks = 1\<rparr>"

lemma demo_page_map:
  assumes "i < NVIRTUAL"
  shows "page_map demo_tables 2 i = (if i = 1 then Some (0x9000, 7) else if i = 2 then Some (0xA000, 5)
    else if i = 256 then Some (0xB000, 7) else None)"
proof -
  have le: "i \<le> NVIRTUAL" using assms by simp
  have x: "pageindex (page_addr i) 3 = 0" "pageindex (page_addr i) 2 = 0" using high_index [OF le] by simp_all
  note y = page_index [OF le]
  have t: "table_at demo_tables 2 (page_addr i) 3 = (if i div 512 = 0 then Some (5, 0xFFF) else None)"
    using demo_path(3) [of "page_addr i"] x y(2) unfolding numeral_3_eq_3 by simp
  show ?thesis
  proof (cases "i div 512 = 0")
    case True
    then have "i mod 512 = i" by simp
    then show ?thesis using t True y(1)
      by (simp add: page_map_def mapping_def demo_tables_def pte_defs)
  next
    case False
    then show ?thesis using t by (auto simp: page_map_def mapping_def)
  qed
qed

lemma demo_user: "256 \<le> i \<Longrightarrow> i < NVIRTUAL \<Longrightarrow> is_user (page_map demo_tables 2 i) \<longleftrightarrow> i = 256"
  by (simp add: demo_page_map is_user_def pte_defs)

lemma demo_sharers: "sharers (page_map demo_tables 2) NVIRTUAL 11 = {256}"
proof -
  have "page_of (page_map demo_tables 2 256) = 11" by (simp add: demo_page_map page_of_def pageno_def)
  then show ?thesis using demo_user by (auto simp: sharers_def)
qed

lemma demo_fork_ready: "fork_ready demo_conf demo_fork"
proof -
  have r: "pageno (pagetable (cur demo_fork)) = 2" by (simp add: demo_fork_def cur_def pageno_def)
  have m: "mem demo_fork = demo_tables" by (simp add: demo_fork_def)
  have o: "owned demo_fork 2" by (rule demo_tree) (simp_all add: demo_fork_def)
  have lo: "low demo_tables 2" by (auto simp: low_def demo_tables_def low_entry_def PTE_PAMASK_def)
  have "page_of (page_map demo_tables 2 256) = 11" by (simp add: demo_page_map page_of_def pageno_def)
  then have c: "countable_pages demo_fork (page_map demo_tables 2)"
    using demo_user demo_sharers by (simp add: countable_pages_def demo_fork_def)
  have s: "find_free_slot [1 ..< PID_MAX] demo_fork \<noteq> 0" by (simp add: demo_fork_def upt_rec)
  have "{1, 6, 7, 8, 12} \<subseteq> {q. free_page demo_conf demo_fork q}"
    by (simp add: free_page_def allocatable_physical_address_def reserved_physical_address_def page_addr_def
        demo_fork_def demo_conf_def addr_defs round_up_page_def)
  then have "card {1 :: nat, 6, 7, 8, 12} \<le> free_count demo_conf demo_fork" unfolding free_count_def by (rule card_mono [OF free_finite])
  then have "5 \<le> free_count demo_conf demo_fork" by simp
  then show ?thesis unfolding fork_ready_def Let_def r m using o lo c s by blast
qed

lemma fork_shares_witness:
  "\<exists>cpt k'. syscall_fork demo_conf demo_fork = Some (2, k') \<and> page_map (mem k') (pageno cpt) 256 = Some (0xB000, 0x205)
     \<and> page_map (mem k') 2 256 = Some (0xB000, 0x205) \<and> unat (refcount k' 11) = 2"
proof -
  have slot: "find_free_slot [1 ..< PID_MAX] demo_fork = 2" by (simp add: demo_fork_def upt_rec)
  obtain cpt k' where f: "syscall_fork demo_conf demo_fork = Some (of_nat (find_free_slot [1 ..< PID_MAX] demo_fork), k')"
    "fork_done demo_fork (find_free_slot [1 ..< PID_MAX] demo_fork) cpt k'" using fork_shares [OF demo_fork_ready] by blast
  have r: "pageno (pagetable (cur demo_fork)) = 2" by (simp add: demo_fork_def cur_def pageno_def)
  have m: "mem demo_fork = demo_tables" by (simp add: demo_fork_def)
  have F: "page_map demo_tables 2 256 = Some (0xB000, 7)" by (simp add: demo_page_map)
  have c: "child_page 256 (Some (0xB000, 7)) = Some (0xB000, 0x205)" "parent_page 256 (Some (0xB000, 7)) = Some (0xB000, 0x205)"
    by (simp_all add: child_page_def parent_page_def is_user_def shared_perm_def pte_defs)
  have "page_map (mem k') (pageno cpt) 256 = Some (0xB000, 0x205) \<and> page_map (mem k') 2 256 = Some (0xB000, 0x205)"
    using f(2) F c unfolding fork_done_def Let_def r m by simp
  moreover have "unat (refcount k' 11) = unat (refcount demo_fork 11) + card (sharers (page_map demo_tables 2) NVIRTUAL 11)"
  proof -
    have "refcount demo_fork 11 \<noteq> 0" by (simp add: demo_fork_def)
    then show ?thesis using f(2) unfolding fork_done_def Let_def r m by blast
  qed
  ultimately show ?thesis using f(1) slot demo_sharers by (auto simp: demo_fork_def)
qed

end
