(* ===== verification/KForkIso.thy ===== *)
theory KForkIso
  imports KCow KShare
begin

text \<open>
  \<open>fork\<close> keeps the invariant of the address spaces: on success the child's table is one more
  address space, each page it shares with the parent is counted for both and writable for
  neither, and on failure the child's table and pages are given back.
\<close>

section \<open>Two trees\<close>

lemma stands_other:
  assumes "spaces M C R X k" and "r \<in> R" and "s \<in> R" and "r \<noteq> s" and "stands (mem k) r va it" and "stands (mem k) s va' it2"
    and "vm_try_map C pa perm it k = Some (res, it', k')" and "perm AND 0xFFF = perm"
  shows "stands (mem k') s va' it2"
proof -
  note st = standsD [OF assms(5)]
  have o: "owned k (pageno (vpt it))" using spacesD(1) [OF assms(1,2)] st(4) by simp
  have e: "vlevel it = 0 \<or> \<not> is_table (entry (mem k) it)"
    using st(1) not_present_no_table by (auto simp: settled_def)
  have w: "within_tree r k k'" using try_map_updates(1) [OF assms(7) o st(2) e assms(8)] st(4) by simp
  have "mem k' t = mem k t" if "t \<in> tables (mem k) s" for t
  proof -
    have "refcount k t \<noteq> 0" using spaces_table(1) [OF assms(1,3) that] by simp
    moreover have "t \<notin> tables (mem k) r" using space_invD(5) [OF spacesD(2) [OF assms(1)] assms(2-4)] that by blast
    ultimately show ?thesis using w by (simp add: within_tree_def)
  qed
  then show ?thesis using stands_outside(1) [OF assms(6)] by blast
qed

lemma stands_cleared:
  assumes "vm_try_map C pa 0 it k = Some (res, it', k')" and "stands (mem k) r va it" and "on_path (mem k') it'"
  shows "stands (mem k') r va it'"
proof -
  note st = standsD [OF assms(2)]
  have "it' = it \<and> (vlevel it = 0 \<or> k' = k)" by (rule try_map_cases [OF assms(1)]) auto
  then show ?thesis using st assms(3) by (auto simp: stands_def settled_def)
qed

text \<open>What the child maps, the parent maps at the same address, and so far only below page \<open>i\<close>.\<close>

definition covered :: "kstate \<Rightarrow> nat \<Rightarrow> nat \<Rightarrow> nat \<Rightarrow> bool" where
  "covered k p c i \<longleftrightarrow> (\<forall>va n perm. maps_in k c va n perm \<longrightarrow> va < page_addr i \<and> (\<exists>perm'. maps_in k p va n perm'))"

definition forking :: "pmem \<Rightarrow> kconf \<Rightarrow> nat set \<Rightarrow> nat \<Rightarrow> nat \<Rightarrow> nat \<Rightarrow> nat \<Rightarrow> vmiter \<Rightarrow> vmiter \<Rightarrow> kstate \<Rightarrow> bool" where
  "forking M C R p c i j pit it k \<longleftrightarrow> spaces M C R {} k \<and> p \<in> R \<and> c \<in> R \<and> p \<noteq> c \<and> covered k p c j
     \<and> stands (mem k) p (page_addr i) pit \<and> stands (mem k) c (page_addr i) it"

lemma forkingD:
  assumes "forking M C R p c i j pit it k"
  shows "spaces M C R {} k" and "p \<in> R" and "c \<in> R" and "p \<noteq> c" and "covered k p c j"
    and "stands (mem k) p (page_addr i) pit" and "stands (mem k) c (page_addr i) it"
  using assms by (simp_all add: forking_def)

lemma covered_mono:
  assumes "covered k p c i" and "i \<le> j" and "j < 2 ^ 35"
  shows "covered k p c j"
proof -
  have "page_addr i \<le> page_addr j" using page_order(1) [of j i] assms(2,3) by (simp add: linorder_not_less [symmetric])
  then show ?thesis using assms(1) unfolding covered_def by (meson order.strict_trans2)
qed

lemma covered_cong: "mapping (mem k') p = mapping (mem k) p \<Longrightarrow> mapping (mem k') c = mapping (mem k) c \<Longrightarrow> covered k' p c i = covered k p c i"
  by (simp add: covered_def maps_def)

section \<open>Pages below the process area\<close>

lemma fork_low:
  assumes "forking M C R p c i i pit it k" and "i < 256"
    and "vm_try_map C (vm_pa (mem k) pit) (vm_perm (mem k) pit) it k = Some (res, it', k')"
  shows "spaces M C R {} k'" and "\<not> res < 0 \<Longrightarrow> forking M C R p c i i pit it' k'"
proof -
  note f = forkingD [OF assms(1)]
  have va: "page_va (page_addr i)" "page_addr i < PROC_START_ADDR"
    using low_page_addr(2) [of i] page_bounds(1) [of i] assms(2) by (simp_all add: linorder_not_le)
  let ?pa = "vm_pa (mem k) pit" and ?perm = "vm_perm (mem k) pit"
  have low: "?perm AND 0xFFF = ?perm"
    and console: "new_entry ?pa ?perm = Some (a, w) \<Longrightarrow> w AND PTE_U \<noteq> 0 \<Longrightarrow> page_addr i = CONSOLE_ADDR \<and> a = CONSOLE_ADDR" for a w
  proof -
    have "?perm AND 0xFFF = ?perm \<and> (new_entry ?pa ?perm = Some (a, w) \<longrightarrow> w AND PTE_U \<noteq> 0 \<longrightarrow> page_addr i = CONSOLE_ADDR \<and> a = CONSOLE_ADDR)" for a w
    proof (cases "mapping (mem k) p (page_addr i)")
      case None
      then show ?thesis using unmapped_kptr(3) [OF f(6)] by (simp add: new_entry_def)
    next
      case (Some x)
      obtain pa perm where x: "x = (pa, perm)" by (cases x) auto
      note m = mapped_kptr [OF f(6) va(1) Some [unfolded x]]
      show ?thesis using mapping_low(1,3) [OF Some [unfolded x]] space_invD(6) [OF spacesD(2) [OF f(1)] f(2) va Some [unfolded x]]
        unfolding m(2,3) by (auto simp: new_entry_def)
    qed
    then show "?perm AND 0xFFF = ?perm" "new_entry ?pa ?perm = Some (a, w) \<Longrightarrow> w AND PTE_U \<noteq> 0 \<Longrightarrow> page_addr i = CONSOLE_ADDR \<and> a = CONSOLE_ADDR"
      by blast+
  qed
  have x0: "{} = {} \<or> ?perm = 0 \<or> vlevel it = 0" by simp
  note t = spaces_try_map [OF f(1,3,7) assms(3) low x0]
  have "space_inv C R {} (tables (mem k')) ((mapping (mem k))(c := map_page (page_addr i) (new_entry ?pa ?perm) (mapping (mem k) c))) (refcount k')"
    by (rule space_low [OF t(1) f(3) va console])
  from t(2) [OF this] t(2) [OF t(1)] show s: "spaces M C R {} k'" by (cases "res < 0") simp_all
  show "forking M C R p c i i pit it' k'" if "\<not> res < 0"
  proof -
    have "?perm AND PTE_P \<noteq> 0 \<or> ?perm = 0"
    proof (cases "mapping (mem k) p (page_addr i)")
      case None
      then show ?thesis using unmapped_kptr(3) [OF f(6)] by simp
    next
      case (Some x)
      then show ?thesis using mapped_kptr(3) [OF f(6) va(1)] mapping_low(3) by (cases x) simp
    qed
    then have st: "stands (mem k') c (page_addr i) it'"
      using t(9) stands_cleared [OF _ f(7) t(8), of C ?pa res] assms(3) that by (auto simp: linorder_not_less)
    have "maps_in k' s va n perm = maps_in k s va n perm" if "s \<in> R" for s va n perm
    proof (cases "s = c \<and> va = page_addr i")
      case True
      then show ?thesis using va(2) by (auto simp: maps_def)
    next
      case False
      then show ?thesis unfolding maps_def using t(4) [OF that] map_page_at [OF va(1), of va] by auto
    qed
    then have "covered k' p c i" using f(2,3,5) by (simp add: covered_def)
    moreover have "c \<noteq> p" using f(4) by simp
    then have "stands (mem k') p (page_addr i) pit" by (rule stands_other [OF f(1,3,2) _ f(7,6) assms(3) low])
    ultimately show ?thesis using s f(2-4) st by (simp add: forking_def)
  qed
qed

section \<open>Shared pages\<close>

lemma shared_share_ok:
  assumes "perm AND 0xFFF = perm" and "perm AND PTE_P \<noteq> 0" and "perm AND PTE_U \<noteq> 0" and "va < MEMSIZE_VIRTUAL"
  shows "share_ok va (shared_perm perm)"
proof -
  have "shared_perm perm AND PTE_U \<noteq> 0" using assms(3) unfolding user_bit shared_perm_bits by simp
  then show ?thesis using shared_perm_facts(3) [OF assms(1,2)] assms(4) by (simp add: share_ok_def)
qed

lemma fork_share_child:
  assumes "forking M C R p c i i pit it k" and "256 \<le> i" and "i < 768" and "maps_in k p (page_addr i) n perm0" and "perm0 AND PTE_U \<noteq> 0"
    and "vm_try_map C (page_addr n) (shared_perm perm0) it k = Some (res, it', k')"
  shows "res < 0 \<Longrightarrow> spaces M C R {} k'"
    and "\<not> res < 0 \<Longrightarrow> spaces M C R {(c, page_addr i)} k'" and "\<not> res < 0 \<Longrightarrow> maps_in k' c (page_addr i) n (shared_perm perm0)"
    and "maps_in k' p va m perm = maps_in k p va m perm" and "\<not> res < 0 \<Longrightarrow> covered k' p c (Suc i)"
    and "stands (mem k') p (page_addr i) pit" and "\<not> res < 0 \<Longrightarrow> stands (mem k') c (page_addr i) it'"
proof -
  note f = forkingD [OF assms(1)]
  let ?va = "page_addr i" and ?sp = "shared_perm perm0"
  have va: "page_va ?va" "PROC_START_ADDR \<le> ?va" using low_page_addr(2) [of i] page_bounds(1) [of i] assms(2,3) by simp_all
  have mp: "mapping (mem k) p ?va = Some (page_addr n, perm0)" using assms(4) by (simp add: maps_def)
  note sf = shared_perm_facts [OF mapping_low(1,3) [OF mp]]
  have x0: "{} = {} \<or> ?sp = 0 \<or> vlevel it = 0" by simp
  note t = spaces_try_map [OF f(1,3,7) assms(6) sf(1) x0]
  show st: "stands (mem k') p ?va pit"
    by (rule stands_other [OF f(1,3,2) _ f(7,6) assms(6) sf(1)]) (use f(4) in simp)
  show "\<not> res < 0 \<Longrightarrow> stands (mem k') c ?va it'" using t(9) sf(2) by simp
  have mp': "mapping (mem k') p = mapping (mem k) p" using t(4) [OF f(2)] f(4) by simp
  then show mpp: "maps_in k' p va m perm = maps_in k p va m perm" for va m perm by (simp add: maps_def)
  show "spaces M C R {} k'" if "res < 0" by (rule t(2) [OF t(1)]) (use that in simp)
  assume nz: "\<not> res < 0"
  let ?F = "(mapping (mem k))(c := map_page ?va (Some (page_addr n, ?sp)) (mapping (mem k) c))"
  have F: "mapping (mem k') s = ?F s" if "s \<in> R" for s using t(4) [OF that] nz sf(2) by (simp add: new_entry_def)
  have none: "\<not> maps_in k c ?va m w" for m w using f(5) unfolding covered_def by blast
  have i1: "space_inv C R {(c, ?va)} (tables (mem k')) (mapping (mem k)) (refcount k')"
    by (rule space_begin [OF t(1) f(3)]) (use none in blast)
  have "space_inv C R {(c, ?va)} (tables (mem k')) ?F (refcount k')"
  proof (rule space_replace [OF i1 f(3) va])
    fix pa w
    assume e: "Some (page_addr n, ?sp) = Some (pa, w)"
    have "va' = ?va" if "maps_in k c va' n w'" for va' w'
    proof -
      obtain w2 where "maps_in k p va' n w2" using f(5) \<open>maps_in k c va' n w'\<close> unfolding covered_def by blast
      then show ?thesis using space_invD(9) [OF t(1) f(2) _ assms(4)] by blast
    qed
    then show "\<exists>q. pa = page_addr q \<and> user_page C q \<and> (\<forall>s \<in> R. q \<notin> tables (mem k') s) \<and> (\<forall>va' perm'. maps_in k c va' q perm' \<longrightarrow> va' = ?va)"
      using e maps_page [OF t(1) f(2) assms(4)] by blast
  qed
  from t(2) [OF this] show "spaces M C R {(c, ?va)} k'" using nz sf(2) by (simp add: new_entry_def)
  have mc: "maps_in k' c va m w \<longleftrightarrow> (if va = ?va then m = n \<and> w = ?sp else maps_in k c va m w)" for va m w
  proof (cases "va = ?va")
    case True
    have "mapping (mem k') c ?va = Some (page_addr n, ?sp)" using F [OF f(3)] map_page_at [OF va(1) va(1)] by simp
    then show ?thesis using True va assms(4) page_addr_inj [of n m] by (auto simp: maps_def)
  next
    case False
    then show ?thesis unfolding maps_def using F [OF f(3)] map_page_at [OF va(1), of va] by auto
  qed
  then show "maps_in k' c ?va n ?sp" by simp
  show "covered k' p c (Suc i)"
    unfolding covered_def
  proof (intro allI impI)
    fix va m w
    assume m: "maps_in k' c va m w"
    show "va < page_addr (Suc i) \<and> (\<exists>w'. maps_in k' p va m w')"
    proof (cases "va = ?va")
      case True
      then show ?thesis using m mc assms(3,4) mpp page_order(1) [of i "Suc i"] by auto
    next
      case False
      then have "maps_in k c va m w" using m mc by simp
      then show ?thesis using covered_mono [OF f(5), of "Suc i"] assms(3) mpp by (auto simp: covered_def)
    qed
  qed
qed

text \<open>The parent's mapping of a page that it now shares, and the reference the child holds.\<close>

lemma fork_share_parent:
  assumes "spaces M C R {(c, page_addr i)} k" and "p \<in> R" and "c \<in> R" and "p \<noteq> c" and "256 \<le> i" and "i < 768"
    and "stands (mem k) p (page_addr i) pit" and "stands (mem k) c (page_addr i) it" and "covered k p c (Suc i)"
    and "maps_in k p (page_addr i) n perm0" and "maps_in k c (page_addr i) n w" and "w AND 0xFFF = w" and "w AND PTE_P \<noteq> 0"
    and "share_ok (page_addr i) w"
    and "vm_try_map C (page_addr n) w pit k = Some (0, pit', k1)"
    and "k' = k1\<lparr>refcount := (refcount k1)(n := refcount k1 n + 1)\<rparr>"
  shows "forking M C R p c i (Suc i) pit' it k'" and "vm_pa (mem k1) pit' = page_addr n"
proof -
  let ?va = "page_addr i"
  have va: "page_va ?va" using low_page_addr(2) [of i] assms(6) by simp
  have mp: "mapping (mem k) p ?va = Some (page_addr n, perm0)" using assms(10) by (simp add: maps_def)
  have l0: "vlevel pit = 0" by (rule mapped_kptr(4) [OF assms(7) va mp])
  then have x0: "{(c, ?va)} = {} \<or> w = 0 \<or> vlevel pit = 0" by simp
  note t = spaces_try_map [OF assms(1,2,7,15,12) x0]
  let ?F = "(mapping (mem k))(p := map_page ?va (Some (page_addr n, w)) (mapping (mem k) p))"
  have F: "mapping (mem k1) s = ?F s" if "s \<in> R" for s using t(4) [OF that] assms(13) by (simp add: new_entry_def)
  have i1: "space_inv C R {(c, ?va)} (tables (mem k1)) ?F (refcount k1)"
    by (rule space_reperm [OF t(1) assms(2,10)]) (simp add: assms(14))
  have s1: "spaces M C R {(c, ?va)} k1" by (rule t(2) [OF i1]) (use assms(13) in \<open>simp add: new_entry_def\<close>)
  have mp1: "mapping (mem k1) p ?va = Some (page_addr n, w)" using F [OF assms(2)] map_page_at [OF va va] by simp
  have n: "n < NPAGES" "PROC_START_ADDR \<le> ?va" using assms(10) by (simp_all add: maps_def)
  have mc1: "mapping (mem k1) c = mapping (mem k) c" using F [OF assms(3)] assms(4) by simp
  have mm: "maps_in k1 p ?va n w" "maps_in k1 c ?va n w"
    using mp1 mc1 assms(11) n va by (simp_all add: maps_def)
  have c_p: "c \<noteq> p" using assms(4) by simp
  have i2: "space_inv C R {} (tables (mem k1)) (mapping (mem k1)) (refcount k')"
    unfolding assms(16) using space_count [OF spacesD(2) [OF s1] assms(3,2,4) mm(2) assms(14) mm(1) assms(14)] by simp
  have mem': "mem k' = mem k1" by (simp add: assms(16))
  have "intact M C k'" using spacesD(3) [OF s1] by (simp add: intact_def mem')
  then have "spaces M C R {} k'" by (intro spaces_mem(1) [OF s1 _ i2]) (simp_all add: mem')
  moreover have st: "stands (mem k1) p ?va pit'" using t(9) assms(13) by simp
  moreover have "stands (mem k1) c ?va it" by (rule stands_other [OF assms(1-4,7,8,15,12)])
  moreover have "covered k' p c (Suc i)"
  proof -
    have "\<exists>w'. maps_in k1 p va m w'" if "maps_in k p va m w0" for va m w0
    proof (cases "va = ?va")
      case True
      then have "m = n" using that assms(10) page_addr_inj [of m n] by (auto simp: maps_def)
      then show ?thesis using mm(1) True by blast
    next
      case False
      then have "maps_in k1 p va m w0" using that F [OF assms(2)] map_page_at [OF va, of va] by (auto simp: maps_def)
      then show ?thesis by blast
    qed
    moreover have "maps_in k1 c = maps_in k c" using mc1 by (simp add: maps_def fun_eq_iff)
    ultimately show ?thesis using assms(9) unfolding covered_def mem' by metis
  qed
  ultimately show "forking M C R p c i (Suc i) pit' it k'" using assms(2-4) by (simp add: forking_def mem')
  show "vm_pa (mem k1) pit' = page_addr n" by (rule mapped_kptr(2) [OF st va mp1])
qed

section \<open>The loop and the system call\<close>

lemma fork_body_spaces:
  assumes "fork_body C (page_addr c) pit it k = Some (ok, pit', it', k')" and "forking M C R p c i i pit it k" and "i < 768"
  shows "if ok then forking M C R p c i (Suc i) pit' it' k' else spaces M C (R - {c}) {} k'"
proof -
  note f = forkingD [OF assms(2)]
  have va: "page_va (page_addr i)" using low_page_addr(2) [of i] assms(3) by simp
  have vit: "vva it = page_addr i" by (rule standsD(3) [OF f(7)])
  have fail: "free_everything (page_addr c) k1 = Some k' \<Longrightarrow> spaces M C R {} k1 \<Longrightarrow> spaces M C (R - {c}) {} k'" for k1
    by (rule free_everything_spaces [OF _ _ f(3)])
  have later: "forking M C R p c i i a b h \<Longrightarrow> forking M C R p c i (Suc i) a b h" for a b h
    using covered_mono [of h p c i "Suc i"] assms(3) by (simp add: forking_def)
  show ?thesis
  proof (cases "i < 256")
    case True
    then have "page_addr i < PROC_START_ADDR" using page_bounds(1) [of i] assms(3) by (simp add: linorder_not_le [symmetric])
    then obtain res it1 k1 where tm: "vm_try_map C (vm_pa (mem k) pit) (vm_perm (mem k) pit) it k = Some (res, it1, k1)"
      and r: "(if res < 0 then do { k \<leftarrow> free_everything (page_addr c) k1; Some (False, pit, it1, k) }
            else Some (True, pit, it1, k1)) = Some (ok, pit', it', k')"
      using assms(1) vit by (auto simp: fork_body_def bind_eq_Some_conv)
    note l = fork_low [OF assms(2) True tm]
    show ?thesis using r l(1) later [OF l(2)] fail [of k1] by (auto simp: bind_eq_Some_conv split: if_splits)
  next
    case False
    then have high: "\<not> (vva it < PROC_START_ADDR \<or> vva it = CONSOLE_ADDR)" "256 \<le> i"
      using page_bounds(1) [of i] page_order(2) [of i 184] assms(3)
      by (simp_all add: vit linorder_not_less) (simp add: page_addr_def CONSOLE_ADDR_def)
    show ?thesis
    proof (cases "is_user (mapping (mem k) p (page_addr i))")
      case nu: False
      then have "(ok, pit', it', k') = (True, pit, it, k)"
        using assms(1) high(1) stands_user(1) [OF f(6) va] by (simp add: fork_body_def)
      then show ?thesis using later [OF assms(2)] by simp
    next
      case True
      then obtain pa perm0 where mp: "mapping (mem k) p (page_addr i) = Some (pa, perm0)"
        by (cases "mapping (mem k) p (page_addr i)") (auto simp: is_user_def)
      have lo: "PROC_START_ADDR \<le> page_addr i" using page_bounds(1) [of i] assms(3) high(2) by simp
      obtain n where n: "pa = page_addr n" "maps_in k p (page_addr i) n perm0" by (rule mapped_page [OF spacesD(2) [OF f(1)] f(2) va lo mp])
      have u: "perm0 AND PTE_U \<noteq> 0" using True unfolding mp user_perm user_bits by simp
      note sf = shared_perm_facts [OF mapping_low(1,3) [OF mp]]
      have so: "share_ok (page_addr i) (shared_perm perm0)"
        by (rule shared_share_ok [OF mapping_low(1,3) [OF mp] u]) (use page_bounds(2) [of i] assms(3) in simp)
      note mk = mapped_kptr [OF f(6) va mp]
      have pw: "(if vm_writable (mem k) pit then (perm0 AND NOT PTE_W) OR PTE_C else perm0 AND NOT PTE_W) = shared_perm perm0"
        by (simp add: vm_writable_def vm_has_def mk(3) shared_perm_def)
      have vu: "vm_user (mem k) pit" using stands_user(1) [OF f(6) va] True by simp
      obtain res it1 k1 where tm: "vm_try_map C (page_addr n) (shared_perm perm0) it k = Some (res, it1, k1)"
        and r: "(if res < 0 then do { k \<leftarrow> free_everything (page_addr c) k1; Some (False, pit, it1, k) }
            else do {
              (r, pit, k) \<leftarrow> vm_try_map C (vm_pa (mem k1) pit) (shared_perm perm0) pit k1;
              assert_ok (r = 0);
              let n = pageno (vm_pa (mem k) pit);
              assert_ok (n < NPAGES);
              Some (True, pit, it1, k\<lparr>refcount := (refcount k)(n := refcount k n + 1)\<rparr>) }) = Some (ok, pit', it', k')"
        using assms(1) high(1) vu unfolding fork_body_def mk(2,3) n(1) pw Let_def by (auto simp: bind_eq_Some_conv)
      note ch = fork_share_child [OF assms(2) high(2) assms(3) n(2) u tm]
      show ?thesis
      proof (cases "res < 0")
        case True
        then show ?thesis using r fail [OF _ ch(1)] by (auto simp: bind_eq_Some_conv)
      next
        case False
        have mp1: "mapping (mem k1) p (page_addr i) = Some (page_addr n, perm0)" and m1: "maps_in k1 p (page_addr i) n perm0"
          using n(2) ch(4) [of "page_addr i" n perm0] by (simp_all add: maps_def)
        have pa1: "vm_pa (mem k1) pit = page_addr n" by (rule mapped_kptr(2) [OF ch(6) va mp1])
        obtain pit2 k2 where tm2: "vm_try_map C (page_addr n) (shared_perm perm0) pit k1 = Some (0, pit2, k2)"
          and k': "ok" "pit' = pit2" "it' = it1"
            "k' = k2\<lparr>refcount := (refcount k2)(pageno (vm_pa (mem k2) pit2) := refcount k2 (pageno (vm_pa (mem k2) pit2)) + 1)\<rparr>"
          using r False unfolding pa1 by (auto simp: bind_eq_Some_conv assert_ok_def Let_def split: if_splits)
        have nn: "pageno (page_addr n) = n" using n(2) by (simp add: maps_def)
        note fp = fork_share_parent [OF ch(2) [OF False] f(2-4) high(2) assms(3) ch(6) ch(7) [OF False] ch(5) [OF False] m1 ch(3) [OF False]
            sf(1,2) so tm2]
        have "forking M C R p c i (Suc i) pit2 it1 k'" by (rule fp(1)) (use k'(4) fp(2) nn in simp)
        then show ?thesis using k' by simp
      qed
    qed
  qed
qed

lemma fork_body_same: "fork_body C cpt pit it k = Some (ok, pit', it', k') \<Longrightarrow> same_procs k k'"
  by (auto simp: fork_body_def Let_def assert_ok_def bind_eq_Some_conv split: if_splits
      dest!: try_map_same free_everything_same) (blast intro: same_procs_trans)+

lemma fork_loop_spaces:
  assumes "fork_loop C (page_addr c) pit it k = Some (ok, k')" and "forking M C R p c i i pit it k" and "i \<le> 768"
  shows "spaces M C (if ok then R else R - {c}) {} k' \<and> same_procs k k'"
  using assms
proof (induction "768 - i" arbitrary: i pit it k)
  case 0
  then have "vva pit = page_addr 768" using standsD(3) [OF forkingD(6) [OF 0(3)]] by simp
  then have "ok" "k' = k" using 0(2) by (simp_all add: fork_loop_eq [of C "page_addr c"] page_768)
  then show ?case using forkingD(1) [OF 0(3)] by simp
next
  case (Suc d)
  have i: "i < 768" "i + 1 < 2 ^ 35" using Suc.hyps(2) by simp_all
  have "vva pit < MEMSIZE_VIRTUAL" using standsD(3) [OF forkingD(6) [OF Suc.prems(2)]] page_bounds(2) [of i] i by simp
  then obtain ok1 pit1 it1 k1 where b: "fork_body C (page_addr c) pit it k = Some (ok1, pit1, it1, k1)"
    and r: "(if \<not> ok1 then Some (False, k1) else do {
         pit \<leftarrow> vm_advance (mem k1) pit1 (of_nat PAGESIZE);
         it \<leftarrow> vm_advance (mem k1) it1 (of_nat PAGESIZE);
         fork_loop C (page_addr c) pit it k1 }) = Some (ok, k')"
    using Suc.prems(1) by (subst (asm) fork_loop_eq) (auto simp: bind_eq_Some_conv)
  note st = fork_body_spaces [OF b Suc.prems(2) i(1)]
  note sp = fork_body_same [OF b]
  show ?case
  proof (cases ok1)
    case False
    then show ?thesis using r st sp by simp
  next
    case True
    then have fk: "forking M C R p c i (Suc i) pit1 it1 k1" using st by simp
    note f = forkingD [OF fk]
    obtain pit2 it2 where a: "vm_advance (mem k1) pit1 (of_nat PAGESIZE) = Some pit2" "vm_advance (mem k1) it1 (of_nat PAGESIZE) = Some it2"
      "fork_loop C (page_addr c) pit2 it2 k1 = Some (ok, k')"
      using r True by (auto simp: bind_eq_Some_conv)
    note d1 = standsD [OF f(6)] note d2 = standsD [OF f(7)]
    have "stands (mem k1) p (page_addr (Suc i)) pit2"
      by (rule advance_page [OF a(1) d1(2,3,4) spacesD(1) [OF f(1,2)] i(2)])
    moreover have "stands (mem k1) c (page_addr (Suc i)) it2"
      by (rule advance_page [OF a(2) d2(2,3,4) spacesD(1) [OF f(1,3)] i(2)])
    ultimately have "forking M C R p c (Suc i) (Suc i) pit2 it2 k1" using f by (simp add: forking_def)
    from Suc.hyps(1) [OF _ a(3) this] Suc.hyps(2) i(1) show ?thesis using same_procs_trans [OF sp] by auto
  qed
qed

text \<open>A fresh page of zeros is an empty tree.\<close>

lemma spaces_new_table:
  assumes "spaces M C R {} k" and "card R < PID_MAX" and "kalloc_pagetable C k = (cpt, k')" and "cpt \<noteq> 0"
  obtains c where "cpt = page_addr c" and "c \<notin> R" and "spaces M C (insert c R) {} k'" and "mapping (mem k') c = (\<lambda>va. None)"
    and "same_procs k k'" and "c < NPAGES" and "c \<noteq> 0"
proof -
  obtain pa k1 where ka: "kalloc C PAGESIZE k = (pa, k1)" by fastforce
  then have e: "pa = cpt" "k' = set_page (pageno cpt) 0 k1" using assms(3,4) by (auto simp: kalloc_pagetable_def)
  obtain c where c: "cpt = page_addr c" "free_page C k c" "k1 = take_page c k" using kalloc_cases [OF ka] e assms(4) by auto
  have cn: "c < NPAGES" "pageno cpt = c" using c(1,2) by (simp_all add: free_page_def)
  note t = spaces_kalloc [OF assms(1) c(2), folded c(3)]
  have nt: "\<And>r. r \<in> R \<Longrightarrow> c \<notin> tables (mem k1) r" using t(2) by (simp add: loose_def)
  have k': "k' = set_page c 0 k1" using e(2) cn(2) by simp
  have uc: "user_page C c" using t(2) by (simp add: loose_def)
  note s = spaces_fill [OF t(1) nt, of k', unfolded k', simplified, OF uc]
  have z: "mem k' c i = 0" "refcount k' c \<noteq> 0" for i using t(2) by (simp_all add: k' loose_def)
  note et = empty_tree [where m = "mem k'" and q = c, OF z(1)]
  have own: "owned k' c" using et(1-3) z(2) by (simp add: owned_def)
  have cR: "c \<notin> R" using nt [of c] by auto
  have l: "loose C R (tables (mem k')) (mapping (mem k')) (refcount k') c"
    using t(2) by (subst loose_cong [where T = "tables (mem k1)" and F = "mapping (mem k1)" and rc = "refcount k1"]) (use s(2,3) in \<open>simp_all add: k'\<close>)
  have s1: "spaces M C R {} k'" using s(1) by (simp add: k')
  have "space_inv C (insert c R) {} (tables (mem k')) (mapping (mem k')) (refcount k')"
    by (rule space_add [OF spacesD(2) [OF s1] cR l assms(2) et(1,6)])
  then have "spaces M C (insert c R) {} k'" using spacesD(1,3) [OF s1] own by (auto simp: spaces_def)
  moreover have "same_procs k k'" using kalloc_same [OF ka] by (simp add: k')
  ultimately show ?thesis using that [OF c(1) cR _ _ _ cn(1)] et(6) c(2) by (cases "c = 0") auto
qed

lemma syscall_fork_spaces:
  assumes "syscall_fork C k = Some (v, k')" and "spaces M C R {} k" and "pageno (pagetable (cur k)) \<in> R"
    and "find_free_slot [1 ..< PID_MAX] k \<noteq> 0 \<Longrightarrow> card R < PID_MAX"
  shows "spaces M C R {} k' \<and> same_procs k k' \<or>
    (\<exists>c k1 s. s = find_free_slot [1 ..< PID_MAX] k \<and> s \<noteq> 0 \<and> c \<notin> R \<and> c < NPAGES \<and> c \<noteq> 0 \<and> spaces M C (insert c R) {} k1 \<and> same_procs k k1
      \<and> k' = set_proc s (\<lambda>p. p\<lparr>pagetable := page_addr c, state := P_RUNNABLE, regs := (regs (cur k))\<lparr>reg_rax := 0\<rparr>, pid := s\<rparr>) k1)"
proof -
  define s where "s = find_free_slot [1 ..< PID_MAX] k"
  show ?thesis
  proof (cases "s = 0")
    case True
    then show ?thesis using assms(1,2) by (simp add: syscall_fork_def s_def Let_def)
  next
    case False
    then have card: "card R < PID_MAX" using assms(4) by (simp add: s_def)
    obtain cpt k1 where kp: "kalloc_pagetable C k = (cpt, k1)" by fastforce
    show ?thesis
    proof (cases "cpt = 0")
      case True
      obtain pa k2 where ka: "kalloc C PAGESIZE k = (pa, k2)" by fastforce
      have "pa = 0" "k1 = k2" using kp ka True by (auto simp: kalloc_pagetable_def)
      then have "k1 = k" using kalloc_cases [OF ka] by auto
      then show ?thesis using assms(1,2) False kp True by (simp add: syscall_fork_def s_def Let_def)
    next
      case nz: False
      obtain c where c: "cpt = page_addr c" "c \<notin> R" "spaces M C (insert c R) {} k1" "mapping (mem k1) c = (\<lambda>va. None)" "same_procs k k1"
        "c < NPAGES" "c \<noteq> 0" by (rule spaces_new_table [OF assms(2) card kp nz])
      obtain pit it ok k2 where l: "vmiter_at (mem k1) (pagetable (cur k1)) 0 = Some pit" "vmiter_at (mem k1) (page_addr c) 0 = Some it"
        "fork_loop C (page_addr c) pit it k1 = Some (ok, k2)"
        and r: "(if \<not> ok then Some (-1, k2) else Some (of_nat s, set_proc s (\<lambda>p. p\<lparr>pagetable := cpt, state := P_RUNNABLE,
                   regs := (regs (cur k2))\<lparr>reg_rax := 0\<rparr>, pid := s\<rparr>) k2)) = Some (v, k')"
        using assms(1) False nz unfolding syscall_fork_def Let_def s_def [symmetric] kp prod.case c(1) by (auto simp only: bind_eq_Some_conv if_False prod.case)
      define p where "p = pageno (pagetable (cur k1))"
      have p: "p \<in> R" using assms(3) cur_same [OF c(5)] by (simp add: p_def)
      have R2: "p \<in> insert c R" "c \<in> insert c R" using p by simp_all
      have can: "va_is_canonical 0" by (simp add: va_is_canonical_def)
      have z: "page_addr 0 = 0" by simp
      have pn: "pageno (page_addr c) = c" using c(6) by simp
      have "stands (mem k1) p (page_addr 0) pit"
        using stands_at [OF spacesD(1) [OF c(3) R2(1), unfolded p_def] can l(1)] by (simp add: p_def z del: page_addr_0)
      moreover have "stands (mem k1) c (page_addr 0) it"
        using stands_at [of k1 "page_addr c" 0 it, unfolded pn, OF spacesD(1) [OF c(3) R2(2)] can l(2)] by (simp add: z del: page_addr_0)
      moreover have "covered k1 p c 0" using c(4) by (simp add: covered_def maps_def)
      ultimately have fk: "forking M C (insert c R) p c 0 0 pit it k1" using c(2,3) p R2 by (auto simp: forking_def)
      have "spaces M C (if ok then insert c R else insert c R - {c}) {} k2 \<and> same_procs k1 k2"
        by (rule fork_loop_spaces [OF l(3) fk]) simp
      then have s2: "spaces M C (if ok then insert c R else R) {} k2" "same_procs k k2"
        using c(2) same_procs_trans [OF c(5)] by (auto split: if_splits)
      show ?thesis
      proof (cases ok)
        case True
        then show ?thesis using r s2 c False cur_same [OF s2(2)]
          by (intro disjI2 exI [of _ c] exI [of _ k2] exI [of _ s]) (auto simp: s_def)
      next
        case False
        then show ?thesis using r s2 by simp
      qed
    qed
  qed
qed

end
