(* ===== verification/KIsol.thy ===== *)
theory KIsol
  imports KForkIso KSched
begin

text \<open>
  Isolation of the processes of \<open>src/pset3\<close>. The machine runs on events: a system call of the
  running process, an exception, or a store of the process to memory that its page table lets it
  write. The events are unrestricted; the invariant of the address spaces of all live processes is kept by
  every event whose call of \<open>sys_mmap\<close> has the arguments that the kernel handles
  (\<open>sane_event\<close>), a condition that each theorem states as its hypothesis, and which is needed: a lemma at the end
  shows a call that breaks isolation without it. In a
  reachable state a page that one process can write, the console apart, can be reached by no
  other process and is no page table.\<close>

section \<open>The state of the processes\<close>

definition live :: "kstate \<Rightarrow> nat \<Rightarrow> bool" where
  "live k p \<longleftrightarrow> p < PID_MAX \<and> state (ptable k p) \<noteq> P_FREE"

definition root :: "kstate \<Rightarrow> nat \<Rightarrow> nat" where
  "root k p = pageno (pagetable (ptable k p))"

definition roots :: "kstate \<Rightarrow> nat set" where
  "roots k = root k ` {p. live k p}"

definition procs_ok :: "kstate \<Rightarrow> bool" where
  "procs_ok k \<longleftrightarrow> state (ptable k 0) = P_FREE \<and> inj_on (root k) {p. live k p}
     \<and> (\<forall>p. live k p \<longrightarrow> pid (ptable k p) = p \<and> pagetable (ptable k p) = page_addr (root k p))"

text \<open>The invariant between two steps, and the part of it that holds while the kernel looks for the
  next process.\<close>

definition tabled :: "pmem \<Rightarrow> kconf \<Rightarrow> kstate \<Rightarrow> bool" where
  "tabled M C k \<longleftrightarrow> procs_ok k \<and> spaces M C (roots k) {} k"

definition kernel_inv :: "pmem \<Rightarrow> kconf \<Rightarrow> kstate \<Rightarrow> bool" where
  "kernel_inv M C k \<longleftrightarrow> tabled M C k \<and> current k < PID_MAX \<and> state (cur k) = P_RUNNABLE"

lemma kernel_invD:
  assumes "kernel_inv M C k"
  shows "tabled M C k" and "current k < PID_MAX" and "state (cur k) = P_RUNNABLE" and "live k (current k)"
    and "pageno (pagetable (cur k)) \<in> roots k" and "spaces M C (roots k) {} k" and "pid (cur k) = current k"
    and "pagetable (cur k) = page_addr (root k (current k))"
proof -
  show 1: "tabled M C k" "current k < PID_MAX" "state (cur k) = P_RUNNABLE" using assms by (simp_all add: kernel_inv_def)
  show l: "live k (current k)" using 1 by (simp add: live_def cur_def)
  show "pageno (pagetable (cur k)) \<in> roots k" using l by (auto simp: roots_def root_def cur_def)
  show "spaces M C (roots k) {} k" "pid (cur k) = current k" "pagetable (cur k) = page_addr (root k (current k))"
    using 1 l by (simp_all add: tabled_def procs_ok_def cur_def)
qed

text \<open>What matters in a process descriptor.\<close>

definition same_slots :: "kstate \<Rightarrow> kstate \<Rightarrow> bool" where
  "same_slots k k' \<longleftrightarrow> (\<forall>p. pagetable (ptable k' p) = pagetable (ptable k p) \<and> pid (ptable k' p) = pid (ptable k p)
     \<and> state (ptable k' p) = state (ptable k p))"

lemma same_procs_slots: "same_procs k k' \<Longrightarrow> same_slots k k' \<and> current k' = current k"
  by (simp add: same_procs_def same_slots_def)

lemma same_slotsD:
  assumes "same_slots k k'"
  shows "live k' = live k" and "root k' = root k" and "roots k' = roots k" and "procs_ok k' = procs_ok k"
proof -
  show l: "live k' = live k" "root k' = root k" using assms by (simp_all add: live_def root_def same_slots_def fun_eq_iff)
  then show "roots k' = roots k" by (simp add: roots_def)
  show "procs_ok k' = procs_ok k" using assms unfolding procs_ok_def l by (simp add: same_slots_def)
qed

lemma tabled_same:
  assumes "tabled M C k" and "same_slots k k'" and "spaces M C (roots k) {} k'"
  shows "tabled M C k'"
  using assms same_slotsD [OF assms(2)] by (simp add: tabled_def)

lemma kernel_inv_same:
  assumes "kernel_inv M C k" and "same_slots k k'" and "current k' = current k" and "spaces M C (roots k) {} k'"
  shows "kernel_inv M C k'"
  using assms tabled_same [OF kernel_invD(1) [OF assms(1)] assms(2,4)] by (simp add: kernel_inv_def cur_def same_slots_def)

lemma spaces_eq: "mem k' = mem k \<Longrightarrow> refcount k' = refcount k \<Longrightarrow> spaces M C R X k' = spaces M C R X k"
  by (simp add: spaces_def owned_def intact_def)

section \<open>Scheduling\<close>

lemma run_result: "run C p k = Some k' \<Longrightarrow> state (ptable k p) = P_RUNNABLE \<and> k' = k\<lparr>current := p\<rparr>"
  by (auto simp: run_def assert_ok_def Let_def bind_eq_Some_conv split: if_splits)

lemma schedule_loop_result:
  "schedule_loop C p k = Some k' \<Longrightarrow> \<exists>q < PID_MAX. state (ptable k q) = P_RUNNABLE \<and> k' = k\<lparr>current := q\<rparr>"
proof (rule schedule_loop.raw_induct [of "\<lambda>C p k k'. \<exists>q < PID_MAX. state (ptable k q) = P_RUNNABLE \<and> k' = k\<lparr>current := q\<rparr>"])
  fix f Ca pa ka y
  assume ih: "\<And>C p k y. f C p k = Some y \<Longrightarrow> \<exists>q < PID_MAX. state (ptable k q) = P_RUNNABLE \<and> y = k\<lparr>current := q\<rparr>"
    and s: "(let p = (pa + 1) mod PID_MAX in if ready ka p then run Ca p ka else f Ca p ka) = Some y"
  show "\<exists>q < PID_MAX. state (ptable ka q) = P_RUNNABLE \<and> y = ka\<lparr>current := q\<rparr>"
  proof (cases "ready ka ((pa + 1) mod PID_MAX)")
    case True
    then have "run Ca ((pa + 1) mod PID_MAX) ka = Some y" using s by (simp add: Let_def)
    from run_result [OF this] show ?thesis by (intro exI [of _ "(pa + 1) mod PID_MAX"]) simp
  next
    case False
    then have "f Ca ((pa + 1) mod PID_MAX) ka = Some y" using s by (simp add: Let_def)
    then show ?thesis by (rule ih)
  qed
qed

lemma kernel_inv_current:
  assumes "tabled M C k" and "q < PID_MAX" and "state (ptable k q) = P_RUNNABLE"
  shows "kernel_inv M C (k\<lparr>current := q\<rparr>)"
proof -
  have "tabled M C (k\<lparr>current := q\<rparr>)"
    by (rule tabled_same [OF assms(1)]) (use assms(1) in \<open>simp_all add: same_slots_def tabled_def spaces_eq [of "k\<lparr>current := q\<rparr>" k]\<close>)
  then show ?thesis using assms(2,3) by (simp add: kernel_inv_def cur_def)
qed

lemma schedule_inv: "schedule C k = Some k' \<Longrightarrow> tabled M C k \<Longrightarrow> kernel_inv M C k'"
  using schedule_loop_result kernel_inv_current unfolding schedule_def by blast

text \<open>Changes of registers and clocks.\<close>

lemma set_proc_slots:
  assumes "\<And>p. pagetable (f p) = pagetable p" and "\<And>p. pid (f p) = pid p" and "\<And>p. state (f p) = state p"
  shows "same_slots k (set_proc n f k)"
  using assms by (simp add: same_slots_def)

lemma set_proc_inv:
  assumes "kernel_inv M C k" and "\<And>p. pagetable (f p) = pagetable p" and "\<And>p. pid (f p) = pid p" and "\<And>p. state (f p) = state p"
  shows "kernel_inv M C (set_proc n f k)"
  by (rule kernel_inv_same [OF assms(1) set_proc_slots])
    (use assms kernel_invD(6) [OF assms(1)] in \<open>simp_all add: spaces_eq [of "set_proc n f k" k]\<close>)

section \<open>The end of a process\<close>

lemma tabled_release:
  assumes "tabled M C k" and "live k p" and "free_everything (pagetable (ptable k p)) k = Some k1"
  shows "tabled M C (set_proc p (\<lambda>p. p\<lparr>state := P_FREE, pagetable := 0\<rparr>) k1)"
proof -
  have ok: "procs_ok k" and s: "spaces M C (roots k) {} k" using assms(1) by (simp_all add: tabled_def)
  have sp: "same_procs k k1" by (rule free_everything_same [OF assms(3)])
  have r: "root k p \<in> roots k" using assms(2) by (simp add: roots_def)
  have "free_everything (page_addr (root k p)) k = Some k1" using assms(2,3) ok by (simp add: procs_ok_def)
  then have s1: "spaces M C (roots k - {root k p}) {} k1" by (rule free_everything_spaces [OF _ s r])
  let ?k = "set_proc p (\<lambda>p. p\<lparr>state := P_FREE, pagetable := 0\<rparr>) k1"
  have l: "live ?k q \<longleftrightarrow> live k q \<and> q \<noteq> p" "q \<noteq> p \<Longrightarrow> ptable ?k q = ptable k q" for q
    using sp by (simp_all add: live_def same_procs_def)
  have inj: "inj_on (root k) {q. live k q}" using ok by (simp add: procs_ok_def)
  have rt: "root ?k q = root k q" if "q \<noteq> p" for q using l(2) [OF that] by (simp only: root_def)
  have "roots ?k = root k ` {q. live k q \<and> q \<noteq> p}" unfolding roots_def l(1) by (intro image_cong refl rt) simp
  also have "\<dots> = roots k - {root k p}" using inj assms(2) by (auto simp: roots_def inj_on_def)
  finally have rts: "roots ?k = roots k - {root k p}" .
  have "inj_on (root ?k) {q. live ?k q}"
    using inj unfolding inj_on_def l(1) by (auto simp: rt)
  moreover have "state (ptable ?k 0) = P_FREE" using ok sp by (simp add: procs_ok_def same_procs_def)
  ultimately have "procs_ok ?k" using ok unfolding procs_ok_def l(1) using sp by (auto simp: rt same_procs_def)
  then show ?thesis using s1 rts by (simp add: tabled_def spaces_eq [of ?k k1])
qed

lemma syscall_exit_inv:
  assumes "syscall_exit C k = Some k'" and "kernel_inv M C k"
  shows "kernel_inv M C k'"
proof -
  note i = kernel_invD [OF assms(2)]
  obtain k1 where f: "free_everything (pagetable (ptable k (current k))) k = Some k1"
    and s: "schedule C (set_proc (pid (cur k1)) (\<lambda>p. p\<lparr>state := P_FREE, pagetable := 0\<rparr>) k1) = Some k'"
    using assms(1) by (auto simp: syscall_exit_def cur_def Let_def bind_eq_Some_conv)
  have "pid (cur k1) = current k" using cur_same [OF free_everything_same [OF f]] i(7) by simp
  then show ?thesis using schedule_inv [OF s] tabled_release [OF i(1,4) f] by simp
qed

section \<open>System calls\<close>

lemma syscall_kill_tabled:
  assumes "syscall_kill arg k = Some (v, k')" and "tabled M C k"
  shows "tabled M C k' \<and> current k' = current k"
proof -
  define n where "n = nat (sint (ucast arg :: 32 word))"
  consider "k' = k" | k1 where "n < PID_MAX" "state (ptable k n) = P_RUNNABLE" "free_everything (pagetable (ptable k n)) k = Some k1"
    "k' = set_proc n (\<lambda>p. p\<lparr>state := P_FREE, pagetable := 0\<rparr>) k1"
    using assms(1) by (auto simp: syscall_kill_def ptable_at_def n_def Let_def bind_eq_Some_conv split: if_splits)
  then show ?thesis
  proof cases
    case (2 k1)
    have "live k n" using 2(1,2) by (simp add: live_def)
    from tabled_release [OF assms(2) this 2(3)] show ?thesis
      using 2(4) free_everything_same [OF 2(3)] by (simp add: same_procs_def)
  qed (use assms(2) in simp)
qed

lemma find_free_slot_result: "find_free_slot xs k = s \<Longrightarrow> s \<noteq> 0 \<Longrightarrow> s \<in> set xs \<and> state (ptable k s) = P_FREE"
  by (induction xs) (auto split: if_splits)

lemma card_roots:
  assumes "procs_ok k" and "s < PID_MAX" and "state (ptable k s) = P_FREE"
  shows "card (roots k) < PID_MAX"
proof -
  have sub: "{p. live k p} \<subseteq> {..< PID_MAX} - {s}" using assms(3) by (auto simp: live_def)
  have "card (roots k) \<le> card {p. live k p}"
    unfolding roots_def by (rule card_image_le) (rule finite_subset [OF sub], simp)
  also have "\<dots> \<le> card ({..< PID_MAX} - {s})" by (rule card_mono [OF _ sub]) simp
  also have "\<dots> < PID_MAX" using assms(2) by simp
  finally show ?thesis .
qed

lemma tabled_added:
  assumes "tabled M C k" and "s < PID_MAX" and "s \<noteq> 0" and "state (ptable k s) = P_FREE" and "\<forall>q. q \<noteq> s \<longrightarrow> ptable k' q = ptable k q"
    and "c \<notin> roots k" and "c < NPAGES" and "spaces M C (insert c (roots k)) {} k'"
    and "pagetable (ptable k' s) = page_addr c" and "state (ptable k' s) = P_RUNNABLE" and "pid (ptable k' s) = s"
  shows "tabled M C k'" and "roots k' = insert c (roots k)"
proof -
  have ok: "procs_ok k" using assms(1) by (simp add: tabled_def)
  have l: "live k' q \<longleftrightarrow> live k q \<or> q = s" for q using assms(2,5,10) by (cases "q = s") (simp_all add: live_def)
  have s: "\<not> live k s" using assms(4) by (simp add: live_def)
  have rt: "root k' q = (if q = s then c else root k q)" for q using assms(5,7,9) by (simp add: root_def)
  show rts: "roots k' = insert c (roots k)" using s unfolding roots_def l rt by auto
  have inj: "inj_on (root k) {q. live k q}" using ok by (simp add: procs_ok_def)
  have "inj_on (root k') {q. live k' q}"
    using inj s assms(6) unfolding inj_on_def l rt by (auto simp: roots_def)
  moreover have "state (ptable k' 0) = P_FREE" using ok assms(3,5) by (simp add: procs_ok_def)
  moreover have "pid (ptable k' q) = q \<and> pagetable (ptable k' q) = page_addr (root k' q)" if "live k' q" for q
    using that ok s assms(5,9,11) by (cases "q = s") (auto simp: l rt procs_ok_def)
  ultimately have "procs_ok k'" by (simp add: procs_ok_def)
  then show "tabled M C k'" using assms(8) by (simp add: tabled_def rts)
qed

lemma tabled_new_process:
  assumes "tabled M C k" and "s < PID_MAX" and "s \<noteq> 0" and "state (ptable k s) = P_FREE" and "same_procs k k1"
    and "c \<notin> roots k" and "c < NPAGES" and "spaces M C (insert c (roots k)) {} k1"
    and "k' = set_proc s (\<lambda>p. p\<lparr>pagetable := page_addr c, state := P_RUNNABLE, regs := r, pid := s\<rparr>) k1"
  shows "tabled M C k'"
proof (rule tabled_added(1) [OF assms(1-4) _ assms(6,7)])
  have "mem k' = mem k1" "refcount k' = refcount k1" by (simp_all add: assms(9))
  then show "spaces M C (insert c (roots k)) {} k'" using assms(8) spaces_eq by blast
qed (use assms(5) in \<open>simp_all add: assms(9) same_procs_def\<close>)

lemma syscall_fork_tabled:
  assumes "syscall_fork C k = Some (v, k')" and "kernel_inv M C k"
  shows "tabled M C k' \<and> current k' = current k"
proof -
  note i = kernel_invD [OF assms(2)]
  have ok: "procs_ok k" using i(1) by (simp add: tabled_def)
  have slot: "s < PID_MAX \<and> state (ptable k s) = P_FREE" if "s = find_free_slot [1 ..< PID_MAX] k" "s \<noteq> 0" for s
    using find_free_slot_result [OF that(1) [symmetric] that(2)] by simp
  have card: "card (roots k) < PID_MAX" if "find_free_slot [1 ..< PID_MAX] k \<noteq> 0"
    using card_roots [OF ok] slot [OF refl that] by blast
  from syscall_fork_spaces [OF assms(1) i(6,5) card]
  consider "spaces M C (roots k) {} k'" "same_procs k k'"
    | c k1 s where "s = find_free_slot [1 ..< PID_MAX] k" "s \<noteq> 0" "c \<notin> roots k" "c < NPAGES" "spaces M C (insert c (roots k)) {} k1" "same_procs k k1"
      "k' = set_proc s (\<lambda>p. p\<lparr>pagetable := page_addr c, state := P_RUNNABLE, regs := (regs (cur k))\<lparr>reg_rax := 0\<rparr>, pid := s\<rparr>) k1"
    by blast
  then show ?thesis
  proof cases
    case 1
    then show ?thesis using tabled_same [OF i(1)] same_procs_slots by blast
  next
    case (2 c k1 s)
    have "tabled M C k'" using tabled_new_process [OF i(1) _ 2(2) _ 2(6,3,4,5,7)] slot [OF 2(1,2)] by blast
    moreover have "current k' = current k" using 2(6,7) by (simp add: same_procs_def)
    ultimately show ?thesis ..
  qed
qed

lemma sysret_inv:
  assumes "sysret x = Some k'" and "\<And>v k1. x = Some (v, k1) \<Longrightarrow> tabled M C k1 \<and> current k1 < PID_MAX"
  shows "kernel_inv M C k'"
proof -
  obtain v k1 where x: "x = Some (v, k1)" "state (cur k1) = P_RUNNABLE" "k' = set_proc (current k1) (\<lambda>p. p\<lparr>regs := (regs p)\<lparr>reg_rax := v\<rparr>\<rparr>) k1"
    using assms(1) by (auto simp: sysret_def assert_ok_def bind_eq_Some_conv split: if_splits)
  have "kernel_inv M C k1" using assms(2) [OF x(1)] x(2) by (simp add: kernel_inv_def)
  then show ?thesis unfolding x(3) by (rule set_proc_inv) simp_all
qed

lemma spaces_sysret:
  assumes "sysret x = Some k'" and "kernel_inv M C k" and "\<And>v k1. x = Some (v, k1) \<Longrightarrow> spaces M C (roots k) {} k1 \<and> same_procs k k1"
  shows "kernel_inv M C k'"
proof (rule sysret_inv [OF assms(1)])
  fix v k1
  assume "x = Some (v, k1)"
  from assms(3) [OF this] have s: "spaces M C (roots k) {} k1" "same_slots k k1" "current k1 = current k" using same_procs_slots by blast+
  show "tabled M C k1 \<and> current k1 < PID_MAX" using tabled_same [OF kernel_invD(1) [OF assms(2)] s(2,1)] s(3) kernel_invD(2) [OF assms(2)] by simp
qed

text \<open>The system calls with the arguments that the kernel handles.\<close>

definition sane_call :: "regstate \<Rightarrow> bool" where
  "sane_call r \<longleftrightarrow> (reg_rax r = 9 \<longrightarrow> mmap_sane (reg_rsi r) (int_result (reg_rdx r)))"

lemma kernel_syscall_inv:
  assumes "kernel_syscall C r k0 = Some k'" and "kernel_inv M C k0" and "sane_call r"
  shows "kernel_inv M C k'"
proof -
  define k where "k = set_proc (current k0) (\<lambda>p. p\<lparr>regs := r\<rparr>) k0"
  have k: "kernel_inv M C k" unfolding k_def by (rule set_proc_inv [OF assms(2)]) simp_all
  have regs: "kernel_inv M C (set_proc (current k) (\<lambda>p. p\<lparr>regs := r'\<rparr>) k)" for r' by (rule set_proc_inv [OF k]) simp_all
  note i = kernel_invD [OF k]
  have call: "(if reg_rax r = 1 then sysret (Some (of_nat (pid (cur k)), k))
     else if reg_rax r = 2 then schedule C (set_proc (current k) (\<lambda>p. p\<lparr>regs := r\<lparr>reg_rax := 0\<rparr>\<rparr>) k)
     else if reg_rax r = 4 then sysret (syscall_page_alloc C (reg_rdi r) k)
     else if reg_rax r = 5 then sysret (syscall_fork C (set_proc (current k) (\<lambda>p. p\<lparr>regs := r\<lparr>reg_rax := 0\<rparr>\<rparr>) k))
     else if reg_rax r = 6 then syscall_exit C k
     else if reg_rax r = 7 then sysret (syscall_kill (reg_rdi r) k)
     else if reg_rax r = 8 then syscall_sleep C (reg_rdi r) k
     else if reg_rax r = 9 then sysret (syscall_mmap C (reg_rdi r) (reg_rsi r) (int_result (reg_rdx r)) k)
     else if reg_rax r = 10 then sysret (syscall_munmap C (reg_rdi r) (reg_rsi r) k)
     else None) = Some k'"
    using assms(1) unfolding kernel_syscall_def Let_def k_def .
  then consider "sysret (Some (of_nat (pid (cur k)), k)) = Some k'"
    | "schedule C (set_proc (current k) (\<lambda>p. p\<lparr>regs := r\<lparr>reg_rax := 0\<rparr>\<rparr>) k) = Some k'"
    | "sysret (syscall_page_alloc C (reg_rdi r) k) = Some k'"
    | "sysret (syscall_fork C (set_proc (current k) (\<lambda>p. p\<lparr>regs := r\<lparr>reg_rax := 0\<rparr>\<rparr>) k)) = Some k'"
    | "syscall_exit C k = Some k'"
    | "sysret (syscall_kill (reg_rdi r) k) = Some k'"
    | "syscall_sleep C (reg_rdi r) k = Some k'"
    | "reg_rax r = 9" "sysret (syscall_mmap C (reg_rdi r) (reg_rsi r) (int_result (reg_rdx r)) k) = Some k'"
    | "sysret (syscall_munmap C (reg_rdi r) (reg_rsi r) k) = Some k'"
    by (auto split: if_splits)
  then show ?thesis
  proof cases
    case 1
    show ?thesis by (rule spaces_sysret [OF 1 k]) (use i(6) in auto)
  next
    case 2
    show ?thesis by (rule schedule_inv [OF 2 kernel_invD(1) [OF regs]])
  next
    case 3
    show ?thesis by (rule spaces_sysret [OF 3 k]) (rule syscall_page_alloc_spaces [OF _ i(6,5)])
  next
    case 4
    have "current (set_proc (current k) f k) = current k" for f by simp
    then show ?thesis using sysret_inv [OF 4] syscall_fork_tabled [OF _ regs] i(2) by metis
  next
    case 5
    show ?thesis by (rule syscall_exit_inv [OF 5 k])
  next
    case 6
    show ?thesis by (rule sysret_inv [OF 6]) (use syscall_kill_tabled [OF _ i(1)] i(2) in metis)
  next
    case 7
    show ?thesis
      by (rule schedule_inv [OF 7 [unfolded syscall_sleep_def Let_def]]) (rule kernel_invD(1), rule set_proc_inv [OF k], simp_all)
  next
    case 8
    then have "mmap_sane (reg_rsi r) (int_result (reg_rdx r))" using assms(3) by (simp add: sane_call_def)
    note m = syscall_mmap_spaces [OF _ i(6,5) this]
    show ?thesis by (rule spaces_sysret [OF 8(2) k]) (rule m)
  next
    case 9
    show ?thesis by (rule spaces_sysret [OF 9 k]) (rule syscall_munmap_spaces [OF _ i(6,5)])
  qed
qed

section \<open>Exceptions\<close>

lemma exception_inv:
  assumes "exception C cr2 r k0 = Some k'" and "kernel_inv M C k0"
  shows "kernel_inv M C k'"
proof -
  define k where "k = set_proc (current k0) (\<lambda>p. p\<lparr>regs := r\<rparr>) k0"
  have k: "kernel_inv M C k" unfolding k_def by (rule set_proc_inv [OF assms(2)]) simp_all
  note i = kernel_invD [OF k]
  have faulted: "tabled M C (set_proc (current k) (\<lambda>p. p\<lparr>state := P_FAULTED\<rparr>) k)"
  proof -
    let ?k = "set_proc (current k) (\<lambda>p. p\<lparr>state := P_FAULTED\<rparr>) k"
    have l: "live ?k = live k" using i(4) by (simp add: live_def fun_eq_iff)
    have rt: "root ?k = root k" by (simp add: root_def fun_eq_iff)
    have "current k \<noteq> 0" using i(1,4) by (auto simp: tabled_def procs_ok_def live_def intro: gr0I)
    then have "procs_ok ?k" using i(1) unfolding tabled_def procs_ok_def l rt by simp
    moreover have "mem ?k = mem k" "refcount ?k = refcount k" by simp_all
    then have "spaces M C (roots ?k) {} ?k" using i(6) spaces_eq unfolding roots_def l rt by blast
    ultimately show ?thesis by (simp add: tabled_def)
  qed
  show ?thesis
  proof (cases "reg_intno r = 32")
    case True
    then have s: "schedule C (k\<lparr>ticks := ticks k + 1\<rparr>) = Some k'" using assms(1) by (simp add: exception_def k_def Let_def)
    have e: "mem (k\<lparr>ticks := ticks k + 1\<rparr>) = mem k" "refcount (k\<lparr>ticks := ticks k + 1\<rparr>) = refcount k" by simp_all
    have "same_slots k (k\<lparr>ticks := ticks k + 1\<rparr>)" by (simp add: same_slots_def)
    then have "tabled M C (k\<lparr>ticks := ticks k + 1\<rparr>)"
      by (rule tabled_same [OF i(1)]) (unfold spaces_eq [OF e], rule i(6))
    then show ?thesis by (rule schedule_inv [OF s])
  next
    case False
    have pf: "reg_intno r = 14" using assms(1) False by (simp add: exception_def Let_def split: if_splits)
    obtain f where f: "(if reg_errcode r AND PTE_W \<noteq> 0 \<and> cr2 \<ge> PROC_START_ADDR \<and> cr2 \<noteq> CONSOLE_ADDR
            then cow_fault C cr2 k else Some Unresolved) = Some f"
      and o: "(case f of Killed k \<Rightarrow> Some k
       | Resolved k \<Rightarrow> (if state (cur k) = P_RUNNABLE then run C (current k) k else schedule C k)
       | Unresolved \<Rightarrow>
           (if reg_errcode r AND PTE_U = 0 then None
            else schedule C (set_proc (current k) (\<lambda>p. p\<lparr>state := P_FAULTED\<rparr>) k))) = Some k'"
      using assms(1) unfolding exception_def Let_def k_def [symmetric] if_not_P [OF False] if_P [OF pf] bind_eq_Some_conv by blast
    have keeps: "fault_keeps M C (roots k) k f"
      using f cow_fault_spaces [OF _ i(6,5)] by (auto simp: fault_keeps_def split: if_splits)
    show ?thesis
    proof (cases f)
      case Unresolved
      then show ?thesis using o schedule_inv [OF _ faulted] by (simp split: if_splits)
    next
      case (Resolved k1)
      then have s: "spaces M C (roots k) {} k1" "same_slots k k1" "current k1 = current k"
        using keeps same_procs_slots by (auto simp: fault_keeps_def)
      have k1: "kernel_inv M C k1" by (rule kernel_inv_same [OF k s(2,3,1)])
      have "run C (current k1) k1 = Some k'" using o Resolved kernel_invD(3) [OF k1] by simp
      then have "k' = k1\<lparr>current := current k1\<rparr>" using run_result by blast
      then show ?thesis using k1 by simp
    next
      case (Killed k1)
      then obtain k2 where e: "syscall_exit C k2 = Some k'" "spaces M C (roots k) {} k2" "same_procs k k2"
        using o keeps by (auto simp: fault_keeps_def)
      then have "kernel_inv M C k2" using kernel_inv_same [OF k] same_procs_slots by blast
      then show ?thesis by (rule syscall_exit_inv [OF e(1)])
    qed
  qed
qed

section \<open>Steps of the machine\<close>

text \<open>The processor's store of the word \<open>w\<close> to word \<open>i\<close> of the page at \<open>va\<close>, in user mode: the
  walk of the running process's page table must end in a page that is writable for the user.\<close>

definition user_store :: "u64 \<Rightarrow> nat \<Rightarrow> u64 \<Rightarrow> kstate \<Rightarrow> kstate option" where
  "user_store va i w k = (if \<not> page_va va \<or> 512 \<le> i then None else
     case mapping (mem k) (pageno (pagetable (cur k))) va of None \<Rightarrow> None
     | Some (pa, perm) \<Rightarrow> (if perm AND PTE_U \<noteq> 0 \<and> perm AND PTE_W \<noteq> 0 then Some (set_entry (pageno pa) i w k) else None))"

lemma user_store_inv:
  assumes "user_store va i w k = Some k'" and "kernel_inv M C k"
  shows "kernel_inv M C k'"
proof -
  note inv = kernel_invD [OF assms(2)]
  note si = spacesD(2) [OF inv(6)]
  obtain pa perm where m: "page_va va" "mapping (mem k) (pageno (pagetable (cur k))) va = Some (pa, perm)" "perm AND PTE_U \<noteq> 0"
    and k': "k' = set_entry (pageno pa) i w k"
    using assms(1) by (auto simp: user_store_def split: if_splits option.splits)
  have nt: "pageno pa \<notin> tables (mem k) s" if s: "s \<in> roots k" for s
  proof (cases "va < PROC_START_ADDR")
    case True
    then have "pa = CONSOLE_ADDR" using space_invD(6) [OF si inv(5) m(1) _ m(2,3)] by blast
    moreover have "\<not> user_page C (pageno CONSOLE_ADDR)"
      by (simp add: user_page_def pageno_def CONSOLE_ADDR_def allocatable_physical_address_def reserved_physical_address_def page_addr_def)
    ultimately show ?thesis using space_invD(3) [OF si s] by blast
  next
    case False
    then obtain n where n: "pa = page_addr n" "maps_in k (pageno (pagetable (cur k))) va n perm"
      using mapped_page [OF si inv(5) m(1) _ m(2)] by (auto simp: linorder_not_less)
    then have "pageno pa = n" by (simp add: maps_def)
    then show ?thesis using maps_page(2) [OF si inv(5) n(2) s] by simp
  qed
  have "user_page C (pageno pa) \<or> pageno pa = pageno CONSOLE_ADDR"
  proof (cases "va < PROC_START_ADDR")
    case True
    then show ?thesis using space_invD(6) [OF si inv(5) m(1) _ m(2,3)] by blast
  next
    case False
    then obtain n where n: "pa = page_addr n" "maps_in k (pageno (pagetable (cur k))) va n perm"
      using mapped_page [OF si inv(5) m(1) _ m(2)] by (auto simp: linorder_not_less)
    then have "pageno pa = n" by (simp add: maps_def)
    then show ?thesis using maps_page(1) [OF si inv(5) n(2)] by simp
  qed
  then have "intact M C k'" using spacesD(3) [OF inv(6)] by (auto simp: intact_def k' set_entry_def)
  then have "spaces M C (roots k) {} k'"
    by (intro spaces_mem(1) [OF inv(6)]) (use si nt in \<open>auto simp: k' set_entry_def\<close>)
  moreover have "same_slots k k'" "current k' = current k" by (simp_all add: k' same_slots_def set_entry_def)
  ultimately show ?thesis by (intro kernel_inv_same [OF assms(2)])
qed

text \<open>The machine runs on events: a system call of the running process with the registers it has at the
  \<open>syscall\<close> instruction, an exception with the faulting address and the registers, a store of the running
  process. Every register value is an event; what a history asks of its system calls is said
  where it is needed. The machine stops (\<open>None\<close>) where the kernel panics. The calls of \<open>memshow\<close>,
  \<open>console_show_cursor\<close> and \<open>check_keyboard\<close> on the way into the kernel are left out; KPicture shows that \<open>memshow\<close> keeps the
  invariant.\<close>

datatype event = Syscall regstate | Exception u64 regstate | Store u64 nat u64

fun machine_step :: "kconf \<Rightarrow> event \<Rightarrow> kstate \<Rightarrow> kstate option" where
  "machine_step C (Syscall r) k = kernel_syscall C r k"
| "machine_step C (Exception cr2 r) k = exception C cr2 r k"
| "machine_step C (Store va i w) k = user_store va i w k"

primrec run_events :: "kconf \<Rightarrow> event list \<Rightarrow> kstate \<Rightarrow> kstate option" where
  "run_events C [] k = Some k"
| "run_events C (e # es) k = Option.bind (machine_step C e k) (run_events C es)"

fun sane_event :: "event \<Rightarrow> bool" where
  "sane_event (Syscall r) = sane_call r"
| "sane_event _ = True"

lemma machine_step_inv: "machine_step C e k = Some k' \<Longrightarrow> sane_event e \<Longrightarrow> kernel_inv M C k \<Longrightarrow> kernel_inv M C k'"
  by (cases e) (auto intro: kernel_syscall_inv exception_inv user_store_inv)

lemma run_events_inv: "run_events C es k = Some k' \<Longrightarrow> \<forall>e \<in> set es. sane_event e \<Longrightarrow> kernel_inv M C k \<Longrightarrow> kernel_inv M C k'"
  by (induction es arbitrary: k) (auto simp: bind_eq_Some_conv intro: machine_step_inv)

section \<open>Isolation\<close>

text \<open>Process \<open>p\<close> reaches page \<open>n\<close> at \<open>va\<close>, for reading or for writing.\<close>

definition reaches :: "kstate \<Rightarrow> nat \<Rightarrow> u64 \<Rightarrow> nat \<Rightarrow> bool \<Rightarrow> bool" where
  "reaches k p va n writing \<longleftrightarrow> live k p \<and> page_va va \<and> (case mapping (mem k) (root k p) va of None \<Rightarrow> False
     | Some (pa, perm) \<Rightarrow> pageno pa = n \<and> perm AND PTE_U \<noteq> 0 \<and> (writing \<longrightarrow> perm AND PTE_W \<noteq> 0))"

definition private_page :: "kconf \<Rightarrow> kstate \<Rightarrow> nat \<Rightarrow> u64 \<Rightarrow> nat \<Rightarrow> bool" where
  "private_page C k p va n \<longleftrightarrow> allocatable_physical_address C (page_addr n) \<and> refcount k n = 1
     \<and> (\<forall>q va' w. reaches k q va' n w \<longrightarrow> q = p \<and> va' = va) \<and> (\<forall>q. live k q \<longrightarrow> n \<notin> tables (mem k) (root k q))"

lemma reaches_maps:
  assumes "kernel_inv M C k" and "reaches k p va n w"
  shows "root k p \<in> roots k" and "n = pageno CONSOLE_ADDR \<or> (\<exists>perm. maps_in k (root k p) va n perm \<and> (w \<longrightarrow> perm AND PTE_W \<noteq> 0))"
proof -
  note si = spacesD(2) [OF kernel_invD(6) [OF assms(1)]]
  obtain pa perm where m: "live k p" "page_va va" "mapping (mem k) (root k p) va = Some (pa, perm)" "n = pageno pa"
    "perm AND PTE_U \<noteq> 0" "w \<longrightarrow> perm AND PTE_W \<noteq> 0"
    using assms(2) by (auto simp: reaches_def split: option.splits)
  show r: "root k p \<in> roots k" using m(1) by (simp add: roots_def)
  show "n = pageno CONSOLE_ADDR \<or> (\<exists>perm. maps_in k (root k p) va n perm \<and> (w \<longrightarrow> perm AND PTE_W \<noteq> 0))"
  proof (cases "va < PROC_START_ADDR")
    case True
    then show ?thesis using space_invD(6) [OF si r m(2) _ m(3,5)] m(4) by blast
  next
    case False
    then obtain n' where n: "pa = page_addr n'" "maps_in k (root k p) va n' perm"
      using mapped_page [OF si r m(2) _ m(3)] by (auto simp: linorder_not_less)
    then have "n = n'" using m(4) by (simp add: maps_def)
    then show ?thesis using n(2) m(6) by blast
  qed
qed

text \<open>C1: Isolation. Take any sequence of events that the machine runs from a state with the invariant: system
  calls, exceptions and stores of the running process in any order, where every call of \<open>sys_mmap\<close> has a length
  that is a number of pages below 2^43 bytes and flags with \<open>PTE_P\<close> and no bits above the low 12 (\<open>sane_event\<close>;
  the kernel does not check this, and every other call is unrestricted). In the state it reaches, a
  page that process \<open>p\<close> can write at \<open>va\<close>, other than the console, is allocatable and
  counted once; no other process reaches it, to read or to write, \<open>p\<close> reaches it at no other
  address, and it is no page of any page table.\<close>

theorem isolation:
  assumes "kernel_inv M C k0" and "run_events C es k0 = Some k" and "\<forall>e \<in> set es. sane_event e" and "reaches k p va n True" and "n \<noteq> pageno CONSOLE_ADDR"
  shows "private_page C k p va n"
proof -
  have inv: "kernel_inv M C k" by (rule run_events_inv [OF assms(2,3,1)])
  note si = spacesD(2) [OF kernel_invD(6) [OF inv]]
  note r = reaches_maps(1) [OF inv assms(4)]
  obtain perm where m: "maps_in k (root k p) va n perm" "perm AND PTE_W \<noteq> 0" using reaches_maps(2) [OF inv assms(4)] assms(5) by blast
  have one: "refcount k n = 1" using space_invD(8) [OF si r m(1)] m(2) by (auto simp: share_ok_def)
  have "q = p \<and> va' = va" if q: "reaches k q va' n w" for q va' w
  proof -
    obtain perm' where mq: "maps_in k (root k q) va' n perm'" using reaches_maps(2) [OF inv q] assms(5) by blast
    have "root k p = root k q"
      by (rule sole_holder [OF si one]) (use r reaches_maps(1) [OF inv q] m(1) mq in \<open>auto simp: holders_def\<close>)
    moreover have "live k p" "live k q" using assms(4) q by (simp_all add: reaches_def)
    moreover have "inj_on (root k) {p. live k p}" using kernel_invD(1) [OF inv] by (simp add: tabled_def procs_ok_def)
    ultimately have "q = p" by (auto simp: inj_on_def)
    then show ?thesis using space_invD(9) [OF si r] mq m(1) by blast
  qed
  moreover have "n \<notin> tables (mem k) (root k q)" if "live k q" for q
    using maps_page(2) [OF si r m(1)] that by (simp add: roots_def)
  ultimately show ?thesis using one maps_page(1) [OF si r m(1)] unfolding private_page_def user_page_def by blast
qed

text \<open>C13: Integrity. Through any such sequence of events (with the same condition on the calls of \<open>sys_mmap\<close>) the
  memory of every page that is neither allocatable nor
  the console keeps its contents: the kernel's image with its page table, the kernel stack's
  page and the reserved pages are changed by no system call, exception or store of a process.\<close>

theorem kernel_memory_intact:
  assumes "kernel_inv M C k0" and "run_events C es k0 = Some k" and "\<forall>e \<in> set es. sane_event e"
    and "\<not> allocatable_physical_address C (page_addr t)" and "t \<noteq> pageno CONSOLE_ADDR"
  shows "mem k t = mem k0 t"
proof -
  have "intact M C k0" "intact M C k"
    using spacesD(3) [OF kernel_invD(6)] assms(1) run_events_inv [OF assms(2,3,1)] by blast+
  then show ?thesis using assms(4,5) by (simp add: intact_def user_page_def)
qed

section \<open>Two processes to try it on\<close>

text \<open>A tree whose three upper tables have one entry each, the first.\<close>

definition chain :: "pmem \<Rightarrow> nat \<Rightarrow> bool" where
  "chain m r \<longleftrightarrow> r + 3 < NPAGES \<and> (\<forall>j < 3. m (r + j) = (\<lambda>i. if i = 0 then table_entry (r + j + 1) else 0))"

lemma chain_at: "chain m r \<Longrightarrow> d \<le> 3 \<Longrightarrow> table_at m r va d = (if same_path d va 0 then Some (r + d, initial_perm) else None)"
proof (induction d)
  case (Suc d)
  then have d: "d < 3" by simp
  have m: "m (r + d) = (\<lambda>i. if i = 0 then table_entry (r + d + 1) else 0)" and n: "r + d + 1 < NPAGES"
    using Suc.prems(1) d by (simp_all add: chain_def)
  have z: "pageindex 0 l = 0" for l by (simp add: pageindex_def)
  have sp: "same_path (Suc d) va 0 \<longleftrightarrow> same_path d va 0 \<and> pageindex va (3 - d) = 0" unfolding same_path_Suc z ..
  have ih: "table_at m r va d = (if same_path d va 0 then Some (r + d, initial_perm) else None)" by (rule Suc.IH [OF Suc.prems(1)]) (use d in simp)
  have nz: "\<not> is_table 0" by (rule not_present_no_table) simp
  show ?case
  proof (cases "same_path d va 0")
    case True
    then show ?thesis unfolding sp table_at.simps(2) ih
      using table_entry_facts [OF n] nz by (cases "pageindex va (3 - d) = 0") (simp_all add: Let_def m)
  next
    case False
    then show ?thesis unfolding sp table_at.simps(2) ih by simp
  qed
qed simp

lemma chain_tree:
  assumes "chain m r"
  shows "tree_ok m r" and "small_pages m r" and "tables m r = {r .. r + 3}"
proof -
  note t = chain_at [OF assms]
  show "tree_ok m r"
    unfolding tree_ok_def
  proof (intro allI impI)
    fix va va' d d' p perm perm'
    assume a: "d \<le> 3" "d' \<le> 3" "table_at m r va d = Some (p, perm)" "table_at m r va' d' = Some (p, perm')"
    have s: "same_path d va 0" "same_path d' va' 0" "p = r + d" "p = r + d'"
      using a(3) [unfolded t [OF a(1)]] a(4) [unfolded t [OF a(2)]] by (auto split: if_splits)
    then have e: "d = d'" by simp
    then show "d = d' \<and> same_path d va va'" using same_path_trans [OF s(1) same_path_sym] s(2) by blast
  qed
  have "is_table (m p (pageindex va (3 - d)))"
    if "d < 3" "table_at m r va d = Some (p, perm)" "m p (pageindex va (3 - d)) AND PTE_P \<noteq> 0" for va d p perm
  proof -
    have d: "d \<le> 3" using that(1) by simp
    have "p = r + d" using that(2) [unfolded t [OF d]] by (auto split: if_splits)
    moreover have "m (r + d) = (\<lambda>i. if i = 0 then table_entry (r + d + 1) else 0)" "r + d + 1 < NPAGES"
      using assms that(1) by (simp_all add: chain_def)
    ultimately show ?thesis using that(3) table_entry_facts(1) by (auto split: if_splits)
  qed
  then show "small_pages m r" by (simp add: small_pages_def)
  show "tables m r = {r .. r + 3}"
  proof
    show "tables m r \<subseteq> {r .. r + 3}"
    proof
      fix p
      assume "p \<in> tables m r"
      then obtain va d perm where d: "d \<le> 3" and "table_at m r va d = Some (p, perm)" by (auto simp: tables_def)
      from this(2) [unfolded t [OF d]] d show "p \<in> {r .. r + 3}" by (auto split: if_splits)
    qed
    show "{r .. r + 3} \<subseteq> tables m r"
    proof
      fix p
      assume p: "p \<in> {r .. r + 3}"
      then have d: "p - r \<le> 3" and pe: "r + (p - r) = p" by auto
      have "table_at m r 0 (p - r) = Some (p, initial_perm)" unfolding t [OF d] pe by simp
      then show "p \<in> tables m r" by (rule tablesI [OF _ d])
    qed
  qed
qed

text \<open>Process 1 has the tables 2 to 5 and page 6, process 2 the tables 12 to 15 and page 16, each at
  0x100000.\<close>

definition demo_leaf :: "nat \<Rightarrow> nat \<Rightarrow> u64" where
  "demo_leaf q = (\<lambda>i. if i = 256 then page_addr q OR 7 else 0)"

definition demo_two :: kstate where
  "demo_two = \<lparr>mem = (\<lambda>p. if p \<in> {2, 3, 4, 12, 13, 14} then (\<lambda>i. if i = 0 then table_entry (p + 1) else 0)
       else if p = 5 then demo_leaf 6 else if p = 15 then demo_leaf 16 else (\<lambda>i. 0)),
     refcount = (\<lambda>p. if p \<in> {2 .. 6} \<union> {12 .. 16} then 1 else 0),
     ptable = (\<lambda>n. \<lparr>pagetable = (if n = 2 then 0xC000 else 0x2000), pid = n, state = (if n = 1 \<or> n = 2 then P_RUNNABLE else P_FREE),
       regs = zero_regs, wake_up = 0\<rparr>), current = 1, ticks = 1\<rparr>"

lemma demo_chain: "chain (mem demo_two) 2" "chain (mem demo_two) 12"
proof -
  have j: "j < 3 \<longleftrightarrow> j = 0 \<or> j = 1 \<or> j = (2 :: nat)" for j by auto
  show "chain (mem demo_two) 2" "chain (mem demo_two) 12" by (auto simp: chain_def demo_two_def j)
qed

lemma demo_leaf_mapping:
  assumes "chain m r" and "m (r + 3) = demo_leaf q" and "q < NPAGES" and "page_va va"
  shows "mapping m r va = (if va = page_addr 256 then Some (page_addr q, 7) else None)"
proof -
  have z: "pageindex 0 l = 0" for l by (simp add: pageindex_def)
  have x: "pageindex (page_addr 256) (3 - j) = 0" if "j < 3" for j
    using that page_index [of 256] high_index [of 256 "3 - j"] by (cases "j = 2") simp_all
  have x0: "pageindex (page_addr 256) 0 = 256" using page_index [of 256] by simp
  have sp: "same_path 3 va (page_addr 256) = same_path 3 va 0" by (simp add: same_path_def x z)
  have v: "page_va (page_addr 256)" using low_page_addr(2) [of 256] by simp
  have eq: "va = page_addr 256 \<longleftrightarrow> same_path 3 va 0 \<and> pageindex va 0 = 256"
    using page_va_same [OF assms(4) v] same_path_Suc [of 3 va "page_addr 256"] sp x0
    by (simp add: numeral_eq_Suc del: page_addr_0)
  have t: "table_at m r va 3 = (if same_path 3 va 0 then Some (r + 3, initial_perm) else None)" by (rule chain_at [OF assms(1)]) simp
  have p7: "(page_addr q OR 7) AND initial_perm = 7" "(page_addr q OR 7) AND PTE_PAMASK = page_addr q"
    using entry_parts [OF page_addr_bits [OF assms(3)], where perm = 7 and w = "0xFFF"] by (simp_all add: initial_perm_def)
  have p1: "(page_addr q OR 7) AND initial_perm AND PTE_P \<noteq> 0" unfolding and.assoc [symmetric] p7(1) by (simp add: PTE_P_def)
  show ?thesis
  proof (cases "same_path 3 va 0 \<and> pageindex va 0 = 256")
    case True
    then show ?thesis unfolding eq mapping_def t using assms(2) p1 p7 by (simp add: demo_leaf_def Let_def)
  next
    case False
    then show ?thesis unfolding eq mapping_def t using assms(2) by (auto simp: demo_leaf_def Let_def)
  qed
qed

lemma demo_two_mapping:
  assumes "page_va va"
  shows "mapping (mem demo_two) 2 va = (if va = page_addr 256 then Some (page_addr 6, 7) else None)"
    and "mapping (mem demo_two) 12 va = (if va = page_addr 256 then Some (page_addr 16, 7) else None)"
  by (rule demo_leaf_mapping [OF demo_chain(1) _ _ assms], simp add: demo_two_def, simp)
    (rule demo_leaf_mapping [OF demo_chain(2) _ _ assms], simp add: demo_two_def, simp)

lemma demo_user_page: "n \<in> {2 .. 6} \<union> {12 .. 16} \<Longrightarrow> user_page demo_conf n"
proof -
  assume "n \<in> {2 .. 6} \<union> {12 .. 16}"
  then have n: "1 \<le> n" "n < 17" by auto
  have u: "unat (page_addr n) = n * 4096" by (rule unat_page_addr) (use n in simp)
  show ?thesis
    using n by (simp add: user_page_def allocatable_physical_address_def reserved_physical_address_def word_le_nat_alt word_less_nat_alt u
        demo_conf_def addr_defs round_up_page_def)
qed

lemma demo_two_live: "live demo_two p \<longleftrightarrow> p = 1 \<or> p = 2" "root demo_two 1 = 2" "root demo_two 2 = 12" "roots demo_two = {2, 12}"
proof -
  show l: "live demo_two p \<longleftrightarrow> p = 1 \<or> p = 2" for p by (auto simp: live_def demo_two_def)
  show r: "root demo_two 1 = 2" "root demo_two 2 = 12" by (simp_all add: root_def demo_two_def pageno_def)
  have "{p. live demo_two p} = {1, 2}" using l by auto
  then show "roots demo_two = {2, 12}" using r by (simp add: roots_def)
qed

lemma demo_leaf_maps:
  assumes "\<And>va. page_va va \<Longrightarrow> F r va = (if va = page_addr 256 then Some (page_addr q, 7) else None)" and "q < NPAGES"
  shows "maps F r va n perm \<longleftrightarrow> va = page_addr 256 \<and> n = q \<and> perm = 7"
proof -
  have v: "page_va (page_addr 256)" "PROC_START_ADDR \<le> page_addr 256" using low_page_addr(2) [of 256] page_bounds(1) [of 256] by simp_all
  show ?thesis
  proof (cases "page_va va \<and> va = page_addr 256")
    case True
    then have "F r va = Some (page_addr q, 7)" using assms(1) [of va] v(1) by simp
    then show ?thesis using True v(2) assms(2) page_addr_inj [of n q] unfolding maps_def by auto
  next
    case False
    then have "va \<noteq> page_addr 256" using v(1) by auto
    then show ?thesis using assms(1) [of va] unfolding maps_def by auto
  qed
qed

lemma demo_two_maps:
  "maps_in demo_two 2 va n perm \<longleftrightarrow> va = page_addr 256 \<and> n = 6 \<and> perm = 7"
  "maps_in demo_two 12 va n perm \<longleftrightarrow> va = page_addr 256 \<and> n = 16 \<and> perm = 7"
  by (rule demo_leaf_maps, rule demo_two_mapping(1), assumption, simp)
    (rule demo_leaf_maps, rule demo_two_mapping(2), assumption, simp)

lemma demo_two_space: "space_inv demo_conf {2, 12} {} (tables (mem demo_two)) (mapping (mem demo_two)) (refcount demo_two)"
proof -
  have rc: "refcount demo_two n = (if n \<in> {2 .. 6} \<union> {12 .. 16} then 1 else 0)" for n by (simp add: demo_two_def)
  have tb: "tables (mem demo_two) 2 = {2 .. 5}" "tables (mem demo_two) 12 = {12 .. 15}"
    using chain_tree(3) [OF demo_chain(1)] chain_tree(3) [OF demo_chain(2)] by simp_all
  have none: "page_va va \<Longrightarrow> va < PROC_START_ADDR \<Longrightarrow> r \<in> {2, 12} \<Longrightarrow> mapping (mem demo_two) r va = None" for r va
    using demo_two_mapping [of va] page_bounds(1) [of 256] by (auto simp: linorder_not_less [symmetric])
  show ?thesis
  proof (rule space_invI)
    show "user_page demo_conf t" if "r \<in> {2, 12}" "t \<in> tables (mem demo_two) r" for r t
      by (rule demo_user_page) (use that tb in auto)
    show "refcount demo_two t = 1" if "r \<in> {2, 12}" "t \<in> tables (mem demo_two) r" for r t
      unfolding rc using that tb by auto
    show "tables (mem demo_two) r \<inter> tables (mem demo_two) s = {}" if "r \<in> {2, 12}" "s \<in> {2, 12}" "r \<noteq> s" for r s
      using that tb by auto
    show "\<exists>n. pa = page_addr n \<and> user_page demo_conf n \<and> (\<forall>s \<in> {2, 12}. n \<notin> tables (mem demo_two) s)"
      if "r \<in> {2, 12}" "page_va va" "PROC_START_ADDR \<le> va" "mapping (mem demo_two) r va = Some (pa, perm)" for r va pa perm
    proof -
      have "pa = page_addr 6 \<or> pa = page_addr 16" using that demo_two_mapping [OF that(2)] by (auto split: if_splits)
      then show ?thesis using demo_user_page [of 6] demo_user_page [of 16] tb by auto
    qed
    show "(r, va) \<in> {} \<or> share_ok va perm \<or> refcount demo_two n = 1" if "r \<in> {2, 12}" "maps_in demo_two r va n perm" for r va n perm
      using that unfolding rc by (auto simp: demo_two_maps)
    show "va = va'" if "r \<in> {2, 12}" "maps_in demo_two r va n perm" "maps_in demo_two r va' n perm'" for r va va' n perm perm'
      using that by (auto simp: demo_two_maps)
    show "card (holders {2, 12} {} (mapping (mem demo_two)) n) \<le> unat (refcount demo_two n)
      \<and> unat (refcount demo_two n) \<le> max 1 (card (holders {2, 12} {} (mapping (mem demo_two)) n))" for n
    proof -
      have two: "maps_in demo_two 2 (page_addr 256) 6 7" "maps_in demo_two 12 (page_addr 256) 16 7" by (simp_all add: demo_two_maps)
      have "holders {2, 12} {} (mapping (mem demo_two)) n = (if n = 6 then {2} else if n = 16 then {12} else {})"
        by (auto simp: holders_def demo_two_maps) (use two in blast)+
      then show ?thesis unfolding rc by simp
    qed
    show "refcount demo_two n = 0" if "\<not> user_page demo_conf n" for n using that demo_user_page unfolding rc by auto
  qed (use none in auto)
qed

lemma demo_two_inv: "kernel_inv (mem demo_two) demo_conf demo_two"
proof -
  have "owned demo_two r" if "r \<in> {2, 12}" for r
  proof -
    have c: "chain (mem demo_two) r" using that demo_chain by auto
    have "refcount demo_two t \<noteq> 0" if t: "t \<in> tables (mem demo_two) r" for t
      using space_invD(4) [OF demo_two_space \<open>r \<in> {2, 12}\<close> t] by simp
    then show ?thesis using chain_tree(1,2) [OF c] by (simp add: owned_def)
  qed
  then have "spaces (mem demo_two) demo_conf (roots demo_two) {} demo_two" using demo_two_space by (simp add: spaces_def intact_def demo_two_live(4))
  moreover have "procs_ok demo_two"
  proof -
    have "{p. live demo_two p} = {1, 2}" using demo_two_live(1) by auto
    moreover have "pid (ptable demo_two p) = p \<and> pagetable (ptable demo_two p) = page_addr (root demo_two p)" if "live demo_two p" for p
      using that demo_two_live by (auto simp: demo_two_def page_addr_def)
    ultimately show ?thesis using demo_two_live by (simp add: procs_ok_def) (simp add: demo_two_def)
  qed
  ultimately show ?thesis by (simp add: kernel_inv_def tabled_def cur_def) (simp add: demo_two_def)
qed

text \<open>Process 1 stores to its page; the page is its own, and process 2 has its page at the same address.\<close>

lemma isolation_witness:
  "\<exists>k. user_store (page_addr 256) 0 42 demo_two = Some k \<and> mem k 6 0 = 42 \<and> private_page demo_conf k 1 (page_addr 256) 6
     \<and> reaches demo_two 2 (page_addr 256) 16 True"
proof -
  define k where "k = set_entry 6 0 42 demo_two"
  have v: "page_va (page_addr 256)" using low_page_addr(2) [of 256] by simp
  note dm = demo_two_mapping [OF v]
  have root: "pageno (pagetable (cur demo_two)) = 2" by (simp add: cur_def demo_two_def pageno_def)
  have wu: "(7 :: u64) AND PTE_U \<noteq> 0 \<and> (7 :: u64) AND PTE_W \<noteq> 0" by (simp add: pte_defs)
  have s: "user_store (page_addr 256) 0 42 demo_two = Some k"
    using v dm(1) wu by (simp add: user_store_def root k_def)
  have step: "run_events demo_conf [Store (page_addr 256) 0 42] demo_two = Some k" using s by simp
  have "mapping (mem k) 2 = mapping (mem demo_two) 2"
  proof (rule outside(3))
    fix p
    assume "p \<in> tables (mem demo_two) 2"
    then have "p \<noteq> 6" using chain_tree(3) [OF demo_chain(1)] by auto
    then show "mem k p = mem demo_two p" by (simp add: k_def set_entry_def)
  qed
  moreover have "live k 1" "root k 1 = 2" by (simp_all add: live_def root_def k_def set_entry_def demo_two_def pageno_def)
  ultimately have r: "reaches k 1 (page_addr 256) 6 True" using v dm(1) wu by (simp add: reaches_def)
  have "private_page demo_conf k 1 (page_addr 256) 6"
    by (rule isolation [OF demo_two_inv step _ r]) (simp_all add: pageno_def CONSOLE_ADDR_def)
  moreover have "mem k 6 0 = 42" by (simp add: k_def set_entry_def)
  moreover have "reaches demo_two 2 (page_addr 256) 16 True" using v dm(2) wu demo_two_live by (simp add: reaches_def)
  ultimately show ?thesis using s by blast
qed

lemma kernel_memory_intact_witness:
  "\<exists>k. user_store (page_addr 256) 0 42 demo_two = Some k \<and> mem k \<noteq> mem demo_two \<and> mem k 64 = mem demo_two 64"
proof -
  define k where "k = set_entry 6 0 42 demo_two"
  have v: "page_va (page_addr 256)" using low_page_addr(2) [of 256] by simp
  have root: "pageno (pagetable (cur demo_two)) = 2" by (simp add: cur_def demo_two_def pageno_def)
  have wu: "(7 :: u64) AND PTE_U \<noteq> 0 \<and> (7 :: u64) AND PTE_W \<noteq> 0" by (simp add: pte_defs)
  have s: "user_store (page_addr 256) 0 42 demo_two = Some k"
    using v demo_two_mapping(1) [OF v] wu by (simp add: user_store_def root k_def)
  have step: "run_events demo_conf [Store (page_addr 256) 0 42] demo_two = Some k" using s by simp
  have "\<not> allocatable_physical_address demo_conf (page_addr 64)"
    by (simp add: allocatable_physical_address_def demo_conf_def addr_defs round_up_page_def page_addr_def)
  then have "mem k 64 = mem demo_two 64"
    by (intro kernel_memory_intact [OF demo_two_inv step]) (simp_all add: pageno_def CONSOLE_ADDR_def)
  moreover have "mem k 6 0 \<noteq> mem demo_two 6 0" by (simp add: k_def set_entry_def demo_two_def)
  then have "mem k \<noteq> mem demo_two" by metis
  ultimately show ?thesis using s by blast
qed

section \<open>What the kernel does not check\<close>

text \<open>A call of \<open>sys_mmap\<close> with address bits in its flags: process 1 asks for one page at 0x101000
  with the flags 0xC007. The kernel takes page 1 and makes the entry 0x1000 or-ed with 0xC007, which maps page
  13, a page table of process 2, for writing.\<close>

definition evil_call :: regstate where
  "evil_call = zero_regs\<lparr>reg_rax := 9, reg_rdi := 0x101000, reg_rsi := 0x1000, reg_rdx := 0xC007\<rparr>"

lemma evil_kalloc: "kalloc demo_conf 4096 (set_proc 1 f demo_two) = (0x1000, take_page 1 (set_proc 1 f demo_two))"
proof -
  have u: "[0 ..< NPAGES] = 0 # 1 # [2 ..< NPAGES]" by (simp add: upt_rec)
  have "free_page demo_conf (set_proc 1 f demo_two) 1"
    by (simp add: free_page_def allocatable_physical_address_def reserved_physical_address_def page_addr_def
      demo_two_def demo_conf_def addr_defs)
  then show ?thesis unfolding kalloc_eq u by (simp add: page_addr_def del: upt_rec_numeral)
qed

abbreviation evil_it :: "nat \<Rightarrow> u64 \<Rightarrow> vmiter" where
  "evil_it i va \<equiv> \<lparr>vpt = 0x2000, vpep = Some (5, i), vlevel = 0, vperm = 0xFFF, vva = va\<rparr>"

lemma evil_iterator:
  assumes "m 2 = mem demo_two 2" and "m 3 = mem demo_two 3" and "m 4 = mem demo_two 4" and "m 5 257 \<in> {0, 0xD007}" and "m 5 258 = 0"
  shows "vmiter_at m 0x2000 0x101000 = Some (evil_it 257 0x101000)"
    and "vm_advance m (evil_it 257 0x101000) 0x1000 = Some (evil_it 258 0x102000)"
proof -
  have e: "m 2 0 = 0x3007" "m 3 0 = 0x4007" "m 4 0 = 0x5007" unfolding assms(1-3) by (simp_all add: demo_two_def table_entry_def page_addr_def pte_defs)
  show "vmiter_at m 0x2000 0x101000 = Some (evil_it 257 0x101000)" using assms(4) e unfolding insert_iff by (auto simp: vm_eval)
  show "vm_advance m (evil_it 257 0x101000) 0x1000 = Some (evil_it 258 0x102000)"
    using assms(5) by (simp add: vm_advance_def vm_eval)
qed

lemma unchecked_flags:
  "\<exists>k. machine_step demo_conf (Syscall evil_call) demo_two = Some k \<and> reaches k 1 0x101000 13 True
     \<and> 13 \<in> tables (mem k) (root k 2) \<and> \<not> sane_event (Syscall evil_call)"
proof -
  define k1 where "k1 = set_proc 1 (\<lambda>p. p\<lparr>regs := evil_call\<rparr>) demo_two"
  let ?it = "evil_it 257 0x101000"
  define t where "t = take_page 1 k1"
  define k2 where "k2 = set_page 1 0 (set_entry 5 257 0xD007 (t))"
  define k where "k = set_proc 1 (\<lambda>p. p\<lparr>regs := (regs p)\<lparr>reg_rax := int_result 0x101000\<rparr>\<rparr>) k2"
  have ka: "kalloc demo_conf PAGESIZE k1 = (0x1000, t)" unfolding k1_def t_def by (simp only: evil_kalloc)
  have pt: "pagetable (cur k1) = 0x2000" "pagetable (cur (t)) = 0x2000" by (simp_all add: t_def k1_def cur_def demo_two_def take_page_def)
  have m1: "vmiter_at (mem k1) 0x2000 0x101000 = Some ?it" "vm_advance (mem k1) ?it 0x1000 = Some (evil_it 258 0x102000)"
    "vmiter_at (mem (t)) 0x2000 0x101000 = Some ?it"
    by ((rule evil_iterator; simp add: t_def k1_def demo_two_def demo_leaf_def take_page_def)+)
  have m2: "vm_advance (mem k2) ?it 0x1000 = Some (evil_it 258 0x102000)"
    by (rule evil_iterator; simp add: k2_def t_def k1_def demo_two_def demo_leaf_def take_page_def set_entry_def)
  have np: "\<not> vm_present (mem k1) ?it"
    by (simp add: vm_present_def vm_has_def vm_perm_def entry_def pte_defs Let_def) (simp add: k1_def demo_two_def demo_leaf_def)
  have "any_present (mem k1) 0x102000 (evil_it 258 0x102000) = Some False" by (subst any_present.simps) simp
  then have ab: "any_present (mem k1) 0x102000 ?it = Some False" by (subst any_present.simps) (simp add: m1 np)
  have a: "mmap_addr 0x101000 0x1000 k1 = Some 0x101000" using ab by (simp add: mmap_addr_def addr_defs m1 pt)
  have tm: "vm_try_map demo_conf 0x1000 0xC007 ?it (t) = Some (0, ?it, set_entry 5 257 0xD007 (t))"
    by (subst try_map_leaf) (simp_all add: pte_defs)
  have "mmap_loop demo_conf 0x101000 0x1000 0xC007 (evil_it 258 0x102000) k2 = Some (0x101000, k2)" by (subst mmap_loop.simps) simp
  then have "mmap_loop demo_conf 0x101000 0x1000 0xC007 ?it k1 = Some (0x101000, k2)"
    by (subst mmap_loop.simps) (simp add: ka [simplified] pt m1 tm m2 [unfolded k2_def, simplified] k2_def pageno_def)
  then have "syscall_mmap demo_conf 0x101000 0x1000 0xC007 k1 = Some (int_result 0x101000, k2)"
    by (simp add: syscall_mmap_def a m1 pt)
  moreover have "state (cur k2) = P_RUNNABLE" "current k2 = 1" by (simp_all add: k2_def t_def k1_def take_page_def set_entry_def cur_def demo_two_def)
  moreover have "kernel_syscall demo_conf evil_call demo_two = sysret (syscall_mmap demo_conf 0x101000 0x1000 0xC007 k1)"
    by (simp add: kernel_syscall_def evil_call_def zero_regs_def int_result_def k1_def Let_def) (simp add: demo_two_def)
  ultimately have st: "machine_step demo_conf (Syscall evil_call) demo_two = Some k" by (simp add: sysret_def k_def)
  have same: "p \<noteq> 1 \<Longrightarrow> p \<noteq> 5 \<Longrightarrow> mem k p = mem demo_two p" for p
    by (simp add: k_def k2_def t_def k1_def take_page_def set_entry_def)
  have c: "chain (mem k) 2" "chain (mem k) 12" using demo_chain by (auto simp: chain_def same)
  have l: "mem k 5 257 = 0xD007" by (simp add: k_def k2_def t_def k1_def take_page_def set_entry_def)
  have "13 \<in> tables (mem k) (root k 2)" using chain_tree(3) [OF c(2)] by (simp add: k_def k2_def t_def k1_def root_def demo_two_def take_page_def set_entry_def pageno_def)
  moreover have "reaches k 1 0x101000 13 True"
  proof -
    have "table_at (mem k) 2 0x101000 3 = Some (5, initial_perm)" using chain_at [OF c(1), of 3 "0x101000"] by (simp add: same_path_def pageindex_def less_Suc_eq numeral_3_eq_3)
    then have "mapping (mem k) 2 0x101000 = Some (0xD000, 7)" using l by (simp add: mapping_def initial_perm_def pte_defs pageindex_def)
    moreover have "live k 1" "root k 1 = 2" by (simp_all add: live_def root_def k_def k2_def t_def k1_def demo_two_def take_page_def set_entry_def pageno_def)
    ultimately show ?thesis by (simp add: reaches_def page_va_def va_is_canonical_def pte_defs pageno_def)
  qed
  moreover have "\<not> sane_event (Syscall evil_call)" by (simp add: sane_call_def evil_call_def mmap_sane_def int_result_def zero_regs_def)
  ultimately show ?thesis using st by blast
qed
end
