(* ===== verification/KStart.thy ===== *)
theory KStart
  imports KBoot KIsol
begin

text \<open>
  From the start of the machine to the first process. The kernel page table is built as an
  identity map of physical memory; every process set up at the start gets an address space of
  its own; and if memory is large enough for the images, \<open>kernel_start\<close> comes to the first
  process in a state that satisfies the invariant of theory KIsol.
\<close>

section \<open>The kernel page table\<close>

definition kroot :: "kconf \<Rightarrow> nat" where "kroot C = pageno (kernel_pagetable C)"

text \<open>The link order puts the page table into the kernel's data, below the kernel stack.\<close>

definition conf_ok :: "kconf \<Rightarrow> bool" where
  "conf_ok C \<longleftrightarrow> kernel_pagetable C = page_addr (kroot C) \<and> 64 \<le> kroot C \<and> (kroot C + 5) * PAGESIZE \<le> unat (kernel_end C)
     \<and> unat (kernel_end C) \<le> 126 * PAGESIZE \<and> 64 * PAGESIZE \<le> unat (exception_entry C) \<and> exception_entry C < kernel_end C"

lemma conf_okD:
  assumes "conf_ok C"
  shows "kernel_pagetable C = page_addr (kroot C)" and "64 \<le> kroot C" and "kroot C \<le> 121"
  using assms by (auto simp: conf_ok_def)

definition kchain :: "kconf \<Rightarrow> pmem \<Rightarrow> bool" where
  "kchain C m \<longleftrightarrow> m (kroot C) 0 = table_entry (kroot C + 1) \<and> m (kroot C + 1) 0 = table_entry (kroot C + 2)
     \<and> m (kroot C + 2) 0 = table_entry (kroot C + 3) \<and> m (kroot C + 2) 1 = table_entry (kroot C + 4)"

definition kit :: "kconf \<Rightarrow> nat \<Rightarrow> vmiter" where
  "kit C i = \<lparr>vpt = kernel_pagetable C, vpep = Some (kroot C + 3, i), vlevel = 0, vperm = initial_perm, vva = page_addr i\<rparr>"

lemma table_step:
  assumes "q < NPAGES"
  shows "table_entry q AND (PTE_P OR PTE_PS) = PTE_P" and "pageno (table_entry q AND PTE_PAMASK) = q"
    and "perm AND (table_entry q OR NOT (PTE_P OR PTE_W OR PTE_U)) = perm"
  using table_entry_facts [OF assms] by (simp_all add: is_table_def table_perm_def)

lemma kit_at:
  assumes "conf_ok C" and "kchain C m" and "i < 512" and "low_entry (m (kroot C + 3) i)"
  shows "vmiter_at m (kernel_pagetable C) (page_addr i) = Some (kit C i)"
proof -
  note c = conf_okD [OF assms(1)]
  have q: "kroot C + 1 < NPAGES" "kroot C + 2 < NPAGES" "kroot C + 3 < NPAGES" using c(3) by simp_all
  have r: "pageno (kernel_pagetable C) = kroot C" by (simp add: kroot_def)
  have i: "i \<le> NVIRTUAL" using assms(3) by simp
  have x: "pageindex (page_addr i) 3 = 0" "pageindex (page_addr i) 2 = 0" "pageindex (page_addr i) (Suc 0) = 0" "pageindex (page_addr i) 0 = i"
    using high_index [OF i, of 3] high_index [OF i, of 2] page_index [OF i] assms(3) by simp_all
  have "down_loop m 3 \<lparr>vpt = kernel_pagetable C, vpep = Some (kroot C, 0), vlevel = 3, vperm = initial_perm, vva = page_addr i\<rparr> = kit C i"
    using assms(2) table_step [OF q(1)] table_step [OF q(2)] table_step [OF q(3)] x
    by (simp add: numeral_3_eq_3 numeral_2_eq_2 entry_def kchain_def kit_def)
  then show ?thesis using assms(4) page_canonical [OF i] x r
    by (simp add: vmiter_at_def real_find_def down_def Let_def low_entry_def kit_def entry_def not_le)
qed

text \<open>The state of the table while it is filled: the entries of the first two megabytes are \<open>f\<close>.\<close>

definition ktable :: "kconf \<Rightarrow> (nat \<Rightarrow> u64) \<Rightarrow> pmem \<Rightarrow> bool" where
  "ktable C f m \<longleftrightarrow> kchain C m \<and> m (kroot C + 4) 0 = 0 \<and> (\<forall>i < 512. m (kroot C + 3) i = f i)"

definition same_but_mem :: "kstate \<Rightarrow> kstate \<Rightarrow> bool" where
  "same_but_mem k k' \<longleftrightarrow> (\<exists>m. k' = k\<lparr>mem := m\<rparr>)"

lemma same_but_memD:
  assumes "same_but_mem k k'"
  shows "refcount k' = refcount k" and "ptable k' = ptable k" and "current k' = current k" and "ticks k' = ticks k"
  using assms by (auto simp: same_but_mem_def)

lemma same_but_mem_trans: "same_but_mem k k1 \<Longrightarrow> same_but_mem k1 k2 \<Longrightarrow> same_but_mem k k2"
  by (auto simp: same_but_mem_def)

lemma same_but_mem_set_entry: "same_but_mem k (set_entry p i e k)"
  by (auto simp: same_but_mem_def set_entry_def)

lemma set_entry_mem [simp]: "mem (set_entry p i e k) = (mem k)(p := (mem k p)(i := e))"
  by (simp add: set_entry_def)

lemma clear_pages:
  "same_but_mem k (clear_pages p n k) \<and> mem (clear_pages p n k) q = (if p \<le> q \<and> q < p + n then (\<lambda>i. 0) else mem k q)"
proof (induction n)
  case 0
  show ?case by (auto simp: clear_pages_def same_but_mem_def intro: exI [of _ "mem k"])
next
  case (Suc n)
  have "clear_pages p (Suc n) k = set_page (p + n) 0 (clear_pages p n k)" by (simp add: clear_pages_def)
  then show ?case using Suc by (auto simp: same_but_mem_def set_page_def)
qed

lemma init_tables:
  "same_but_mem k (init_kernel_tables C k) \<and> ktable C (\<lambda>i. 0) (mem (init_kernel_tables C k))"
proof -
  define k0 where "k0 = clear_pages (kroot C) 5 k"
  have z: "mem k0 q = (if kroot C \<le> q \<and> q < kroot C + 5 then (\<lambda>i. 0) else mem k q)" for q
    using clear_pages [of k "kroot C" 5 q] by (simp add: k0_def)
  have s: "same_but_mem k k0" using clear_pages [of k "kroot C" 5] by (simp add: k0_def)
  have e: "page_addr q OR (PTE_P OR PTE_W OR PTE_U) = table_entry q" for q by (simp only: table_entry_def or.assoc)
  note def = init_kernel_tables_def [of C k, unfolded Let_def, folded kroot_def, folded k0_def, unfolded e]
  have "same_but_mem k (init_kernel_tables C k)" unfolding def
    by (intro same_but_mem_trans [OF s] same_but_mem_trans [OF _ same_but_mem_set_entry] same_but_mem_set_entry)
  moreover have "ktable C (\<lambda>i. 0) (mem (init_kernel_tables C k))" unfolding def ktable_def kchain_def
    by (simp only: set_entry_mem fun_upd_apply z) simp
  ultimately show ?thesis by (rule conjI)
qed

lemma ktable_set:
  assumes "ktable C f m"
  shows "ktable C (f(i := e)) (m(kroot C + 3 := (m (kroot C + 3))(i := e)))"
  using assms by (auto simp: ktable_def kchain_def)

lemma ktable_cong: "ktable C f m \<Longrightarrow> (\<And>i. i < 512 \<Longrightarrow> f i = g i) \<Longrightarrow> ktable C g m"
  by (simp add: ktable_def)

lemma kit_end:
  assumes "conf_ok C" and "ktable C f m"
  obtains it where "vmiter_at m (kernel_pagetable C) (page_addr 512) = Some it" and "vva it = page_addr 512"
proof -
  note c = conf_okD [OF assms(1)]
  have q: "kroot C + 1 < NPAGES" "kroot C + 2 < NPAGES" "kroot C + 4 < NPAGES" using c(3) by simp_all
  have r: "pageno (kernel_pagetable C) = kroot C" by (simp add: kroot_def)
  let ?it = "\<lparr>vpt = kernel_pagetable C, vpep = Some (kroot C + 4, 0), vlevel = 0, vperm = initial_perm, vva = page_addr 512\<rparr>"
  have x: "pageindex (page_addr 512) 3 = 0" "pageindex (page_addr 512) 2 = 0" "pageindex (page_addr 512) (Suc 0) = 1" "pageindex (page_addr 512) 0 = 0"
    using high_index [of 512 3] high_index [of 512 2] page_index [of 512] by simp_all
  have d: "down_loop m 3 \<lparr>vpt = kernel_pagetable C, vpep = Some (kroot C, 0), vlevel = 3, vperm = initial_perm, vva = page_addr 512\<rparr> = ?it"
    using assms(2) table_step [OF q(1)] table_step [OF q(2)] table_step [OF q(3)] x
    by (simp add: numeral_3_eq_3 numeral_2_eq_2 entry_def ktable_def kchain_def)
  have "vmiter_at m (kernel_pagetable C) (page_addr 512) = Some ?it"
    using d assms(2) page_canonical [of 512] x r by (simp add: vmiter_at_def real_find_def down_def Let_def entry_def ktable_def)
  then show ?thesis by (rule that) simp
qed

text \<open>A large enough supply of facts about an identity entry.\<close>

definition kperm :: "nat \<Rightarrow> u64" where
  "kperm i = (if i < 256 \<and> i \<noteq> 0xB8 then PTE_P OR PTE_W else PTE_P OR PTE_W OR PTE_U)"

definition kentry :: "nat \<Rightarrow> u64" where
  "kentry i = (if i = 0 then 0 else page_addr i OR kperm i)"

lemma kperm_facts: "kperm i AND 0xFFF = kperm i" "kperm i AND PTE_P \<noteq> 0" "kperm i AND PTE_W \<noteq> 0"
  "kperm i AND PTE_U \<noteq> 0 \<longleftrightarrow> \<not> (i < 256 \<and> i \<noteq> 0xB8)"
  by (simp_all add: kperm_def pte_defs)

lemma low_identity:
  assumes "i < 512" and "perm AND 0xFFF = perm"
  shows "low_entry (page_addr i OR perm)"
  using low_or [OF _ assms(2), of "page_addr i"] page_addr_bits [OF assms(1)] low_page [OF assms(1)] by simp

lemma low_kentry: "i < 512 \<Longrightarrow> low_entry (kentry i)"
  using low_identity kperm_facts(1) by (simp add: kentry_def)

lemma kit_map:
  assumes "i < 512" and "perm AND 0xFFF = perm" and "perm AND PTE_P \<noteq> 0"
  shows "vm_try_map C (page_addr i) perm (kit C i) k = Some (0, kit C i, set_entry (kroot C + 3) i (page_addr i OR perm) k)"
proof (rule try_map_leaf)
  show "vpep (kit C i) = Some (kroot C + 3, i)" by (simp add: kit_def)
  show "perm AND NOT (vperm (kit C i)) AND (PTE_P OR PTE_W OR PTE_U) = 0" by (simp add: kit_def initial_allowed)
qed (use assms page_aligned [of i] page_addr_bits [of i] in \<open>simp_all add: kit_def\<close>)

lemma page_lt: "i \<le> 512 \<Longrightarrow> page_addr i < MEMSIZE_PHYSICAL \<longleftrightarrow> i < 512"
  using low_page_addr(1) [of i] by (simp add: word_less_nat_alt addr_defs)

lemma page_lt_low: "i \<le> 512 \<Longrightarrow> page_addr i < 0x100000 \<longleftrightarrow> i < 256" "i \<le> 512 \<Longrightarrow> page_addr i = CONSOLE_ADDR \<longleftrightarrow> i = 0xB8"
  using low_page_addr(1) [of i] by (simp_all add: word_less_nat_alt word_unat_eq_iff addr_defs)

lemma page_addr_zero_iff: "i \<le> 512 \<Longrightarrow> page_addr i = 0 \<longleftrightarrow> i = 0"
  by simp

definition init_entry :: "nat \<Rightarrow> nat \<Rightarrow> u64" where
  "init_entry i j = (if 0 < j \<and> j < i then page_addr j OR (PTE_P OR PTE_W OR PTE_U) else 0)"

lemma pwu_facts: "(PTE_P OR PTE_W OR PTE_U) AND 0xFFF = PTE_P OR PTE_W OR PTE_U" "(PTE_P OR PTE_W OR PTE_U) AND PTE_P \<noteq> 0"
  by (simp_all add: pte_defs)

lemma init_entry_low: "j < 512 \<Longrightarrow> low_entry (init_entry i j)"
  using low_identity [OF _ pwu_facts(1)] by (simp add: init_entry_def)

lemma ktable_kit:
  assumes "conf_ok C" and "ktable C f m" and "i < 512" and "low_entry (f i)"
  shows "vmiter_at m (kernel_pagetable C) (page_addr i) = Some (kit C i)"
  by (rule kit_at [OF assms(1)]) (use assms(2-4) in \<open>simp_all add: ktable_def\<close>)

lemma kit_advance:
  assumes "conf_ok C" and "ktable C f m" and "i < 512" and "\<forall>j < 512. low_entry (f j)"
  obtains it where "vm_advance m (kit C i) (of_nat PAGESIZE) = Some it" and "vva it = page_addr (Suc i)"
    and "Suc i < 512 \<Longrightarrow> it = kit C (Suc i)"
proof -
  have c: "va_is_canonical (page_addr i)" "va_is_canonical (page_addr (Suc i))" using page_canonical assms(3) by simp_all
  have o: "on_path m (kit C i)" by (rule vmiter_at_path(1) [OF c(1) ktable_kit [OF assms(1-3)]]) (use assms(3,4) in simp)
  have "page_addr (Suc i) \<noteq> page_addr i"
    using low_page_addr(1) [of i] low_page_addr(1) [of "Suc i"] assms(3) by (simp add: word_unat_eq_iff)
  then have f: "vm_advance m (kit C i) (of_nat PAGESIZE) = vmiter_at m (kernel_pagetable C) (page_addr (Suc i))"
    using real_find_fresh [OF o c(2)] page_next [of i] by (simp add: vm_advance_def vm_find_def kit_def)
  show ?thesis
  proof (cases "Suc i < 512")
    case True
    show ?thesis by (rule that [of "kit C (Suc i)"]) (use f ktable_kit [OF assms(1,2) True] assms(4) True in \<open>simp_all add: kit_def\<close>)
  next
    case False
    then have i: "Suc i = 512" using assms(3) by simp
    obtain it where "vmiter_at m (kernel_pagetable C) (page_addr 512) = Some it" "vva it = page_addr 512" by (rule kit_end [OF assms(1,2)])
    then show ?thesis using that [of it] f i by simp
  qed
qed

lemma init_maps_total:
  assumes "conf_ok C" and "ktable C (init_entry i) (mem k)" and "i < 512"
  shows "\<exists>k'. init_maps C (kit C i) k = Some k' \<and> same_but_mem k k' \<and> ktable C (init_entry 512) (mem k')"
  using assms(2,3)
proof (induction "512 - i" arbitrary: i k)
  case (Suc n)
  have i: "i < 512" "i \<le> 512" using Suc.prems(2) by simp_all
  define k1 where "k1 = (if i = 0 then k else set_entry (kroot C + 3) i (page_addr i OR (PTE_P OR PTE_W OR PTE_U)) k)"
  have s: "same_but_mem k k1" using same_but_mem_set_entry by (auto simp: k1_def same_but_mem_def intro: exI [of _ "mem k"])
  have t: "ktable C (init_entry (Suc i)) (mem k1)"
  proof (cases "i = 0")
    case True
    have "ktable C (init_entry i) (mem k1)" using Suc.prems(1) True by (simp add: k1_def)
    then show ?thesis by (rule ktable_cong) (use True in \<open>auto simp: init_entry_def\<close>)
  next
    case False
    then have "ktable C ((init_entry i)(i := page_addr i OR (PTE_P OR PTE_W OR PTE_U))) (mem k1)"
      using ktable_set [OF Suc.prems(1)] by (simp add: k1_def)
    then show ?thesis by (rule ktable_cong) (use False in \<open>auto simp: init_entry_def\<close>)
  qed
  have m: "(if vva (kit C i) \<noteq> 0 then vm_map C (vva (kit C i)) (PTE_P OR PTE_W OR PTE_U) (kit C i) k else Some (kit C i, k)) = Some (kit C i, k1)"
    using kit_map [OF i(1) pwu_facts, of C k] page_addr_zero_iff [OF i(2)] by (simp add: vm_map_def assert_ok_def k1_def kit_def)
  obtain it where a: "vm_advance (mem k1) (kit C i) (of_nat PAGESIZE) = Some it" "vva it = page_addr (Suc i)" "Suc i < 512 \<Longrightarrow> it = kit C (Suc i)"
    by (rule kit_advance [OF assms(1) t i(1)]) (use init_entry_low in blast)+
  have l: "vva (kit C i) < MEMSIZE_PHYSICAL" using page_lt [OF i(2)] i(1) by (simp add: kit_def)
  have run: "init_maps C (kit C i) k = init_maps C it k1"
    by (subst init_maps.simps) (simp only: if_P [OF l] m bind.bind_lunit prod.case a(1))
  show ?case
  proof (cases "Suc i < 512")
    case True
    have "n = 512 - Suc i" using Suc.hyps(2) by simp
    from Suc.hyps(1) [OF this t True] show ?thesis unfolding run a(3) [OF True] using same_but_mem_trans [OF s] by blast
  next
    case False
    then have "Suc i = 512" using i by simp
    then show ?thesis unfolding run using a(2) t s page_lt [of 512] by (subst init_maps.simps) simp
  qed
qed simp

text \<open>The loop of \<open>kernel_start\<close> replaces the entries one by one.\<close>

definition mid_entry :: "nat \<Rightarrow> nat \<Rightarrow> u64" where
  "mid_entry i j = (if j < i then kentry j else init_entry 512 j)"

lemma mid_entry_low: "j < 512 \<Longrightarrow> low_entry (mid_entry i j)"
  using low_kentry init_entry_low by (simp add: mid_entry_def)

lemma page_zero: "page_addr 0 = 0"
  by simp

lemma kit_unmap:
  "vm_try_map C 0 0 (kit C 0) k = Some (0, kit C 0, set_entry (kroot C + 3) 0 0 k)"
  by (simp add: vm_try_map_def kit_def assert_ok_def page_zero)

lemma kernel_maps_total:
  assumes "conf_ok C" and "ktable C (mid_entry i) (mem k)" and "i \<le> 512"
  shows "\<exists>k'. kernel_maps C (page_addr i) k = Some k' \<and> same_but_mem k k' \<and> ktable C kentry (mem k')"
  using assms(2,3)
proof (induction "512 - i" arbitrary: i k)
  case 0
  then have i: "i = 512" by simp
  have "ktable C kentry (mem k)" using 0(2) by (rule ktable_cong) (simp add: mid_entry_def i)
  moreover have "same_but_mem k k" by (auto simp: same_but_mem_def intro: exI [of _ "mem k"])
  ultimately show ?case using page_lt [of 512] by (subst kernel_maps.simps) (simp add: i)
next
  case (Suc n)
  have i: "i < 512" "i \<le> 512" using Suc.hyps(2) by simp_all
  define p where "p = (if page_addr i = 0 then 0 else if page_addr i < 0x100000 \<and> page_addr i \<noteq> CONSOLE_ADDR then PTE_P OR PTE_W else PTE_P OR PTE_W OR PTE_U)"
  have p: "p = (if i = 0 then 0 else kperm i)" unfolding p_def kperm_def page_addr_zero_iff [OF i(2)] page_lt_low [OF i(2)] by simp
  define k1 where "k1 = set_entry (kroot C + 3) i (kentry i) k"
  have v: "vmiter_at (mem k) (kernel_pagetable C) (page_addr i) = Some (kit C i)"
    by (rule ktable_kit [OF assms(1) Suc.prems(1) i(1)]) (rule mid_entry_low [OF i(1)])
  have m: "vm_try_map C (page_addr i) p (kit C i) k = Some (0, kit C i, k1)"
    using kit_unmap kit_map [OF i(1) kperm_facts(1,2), where C = C and k = k] by (simp add: p k1_def kentry_def page_zero)
  have l: "page_addr i < MEMSIZE_PHYSICAL" using page_lt [OF i(2)] i(1) by simp
  have run: "kernel_maps C (page_addr i) k = kernel_maps C (page_addr (Suc i)) k1"
    using m by (subst kernel_maps.simps) (simp add: l v p_def [symmetric] assert_ok_def page_next [simplified] Let_def)
  have t: "ktable C (mid_entry (Suc i)) (mem k1)"
    using ktable_set [OF Suc.prems(1), where i = i and e = "kentry i"] unfolding k1_def set_entry_mem
    by (rule ktable_cong) (auto simp: mid_entry_def)
  have s: "same_but_mem k k1" unfolding k1_def by (rule same_but_mem_set_entry)
  have n: "n = 512 - Suc i" "Suc i \<le> 512" using Suc.hyps(2) i by simp_all
  show ?case unfolding run using Suc.hyps(1) [OF n(1) t n(2)] same_but_mem_trans [OF s] by blast
qed

text \<open>Both together.\<close>

lemma kernel_tables_built:
  assumes "conf_ok C"
  obtains k1 k2 where "init_kernel_memory C k = Some k1" and "kernel_maps C 0 (k1\<lparr>ticks := 1\<rparr>) = Some k2"
    and "ktable C kentry (mem k2)" and "refcount k2 = refcount k" and "ptable k2 = ptable k"
proof -
  define k0 where "k0 = init_kernel_tables C k"
  have s0: "same_but_mem k k0" and t0: "ktable C (init_entry 0) (mem k0)"
    using init_tables [of k C] by (auto simp: k0_def init_entry_def [abs_def])
  have "vmiter_at (mem k0) (kernel_pagetable C) (page_addr 0) = Some (kit C 0)"
    by (rule ktable_kit [OF assms t0]) (simp_all add: init_entry_def)
  moreover obtain k1 where k1: "init_maps C (kit C 0) k0 = Some k1" "same_but_mem k0 k1" "ktable C (init_entry 512) (mem k1)"
    using init_maps_total [OF assms t0] by auto
  ultimately have i: "init_kernel_memory C k = Some k1" by (simp add: init_kernel_memory_def k0_def [symmetric] page_zero)
  have "ktable C (mid_entry 0) (mem (k1\<lparr>ticks := 1\<rparr>))" using k1(3) by (simp add: mid_entry_def [abs_def])
  from kernel_maps_total [OF assms this] obtain k2 where k2: "kernel_maps C 0 (k1\<lparr>ticks := 1\<rparr>) = Some k2"
    "same_but_mem (k1\<lparr>ticks := 1\<rparr>) k2" "ktable C kentry (mem k2)" by (auto simp: page_zero)
  show ?thesis by (rule that [OF i k2(1,3)]) (use same_but_memD [OF s0] same_but_memD [OF k1(2)] same_but_memD [OF k2(2)] in simp_all)
qed

section \<open>What the processes start from\<close>

lemma unat_round_up:
  assumes "unat a \<le> 0x100000"
  shows "unat (round_up_page a) = (unat a + 4095) div 4096 * 4096"
proof -
  have "round_up_page a = round_down_page (a + 0xFFF)" by (simp add: round_up_page_def round_down_page_def)
  moreover have "unat (a + 0xFFF) = unat a + 4095" using assms by (simp add: unat_word_ariths)
  ultimately show ?thesis by (simp add: unat_round_down)
qed

lemma kernel_page_fixed:
  assumes "conf_ok C" and "j < 5"
  shows "\<not> user_page C (kroot C + j)" and "kroot C + j \<noteq> pageno CONSOLE_ADDR"
proof -
  note c = conf_okD [OF assms(1)]
  have n: "kroot C + j < 126" "64 \<le> kroot C + j" using c assms(2) by simp_all
  have u: "unat (page_addr (kroot C + j)) = (kroot C + j) * 4096" using low_page_addr(1) [of "kroot C + j"] n by simp
  have k: "(kroot C + 5) * 4096 \<le> unat (kernel_end C)" "unat (kernel_end C) \<le> 126 * 4096" using assms(1) by (simp_all add: conf_ok_def)
  then have "unat (round_up_page (kernel_end C)) = (unat (kernel_end C) + 4095) div 4096 * 4096" by (intro unat_round_up) simp
  moreover have "kroot C + 5 \<le> (unat (kernel_end C) + 4095) div 4096"
    using k(1) by (subst less_eq_div_iff_mult_less_eq) simp_all
  ultimately have "\<not> round_up_page (kernel_end C) \<le> page_addr (kroot C + j)"
    using u assms(2) by (simp add: word_le_nat_alt)
  moreover have "\<not> page_addr (kroot C + j) < KERNEL_START_ADDR" using u n by (simp add: word_less_nat_alt addr_defs)
  ultimately show "\<not> user_page C (kroot C + j)" by (simp add: user_page_def allocatable_physical_address_def)
  show "kroot C + j \<noteq> pageno CONSOLE_ADDR" using n(1) by (simp add: pageno_def addr_defs)
qed

lemma intact_ktable:
  assumes "conf_ok C" and "ktable C f M" and "intact M C k"
  shows "ktable C f (mem k)"
proof -
  have "mem k (kroot C + j) = M (kroot C + j)" if "j < 5" for j
    using assms(3) kernel_page_fixed [OF assms(1) that] unfolding intact_def by blast
  from this [of 0] this [of 1] this [of 2] this [of 3] this [of 4] assms(2)
  show ?thesis by (simp add: ktable_def kchain_def)
qed

definition kmap :: "nat \<Rightarrow> (u64 \<times> u64) option" where
  "kmap i = (if i = 0 then None else Some (page_addr i, kperm i))"

lemma kit_view:
  assumes "ktable C kentry m" and "i < 512"
  shows "vm_pa m (kit C i) = (if i = 0 then -1 else page_addr i)" and "vm_perm m (kit C i) = (if i = 0 then 0 else kperm i)"
proof -
  have e: "entry m (kit C i) = kentry i" using assms by (simp add: ktable_def kit_def entry_def)
  have "vm_pa m (kit C i) = (if i = 0 then -1 else page_addr i) \<and> vm_perm m (kit C i) = (if i = 0 then 0 else kperm i)"
  proof (cases "i = 0")
    case True
    then show ?thesis using e by (simp add: vm_pa_def vm_perm_def Let_def kentry_def)
  next
    case False
    note p = page_addr_bits [OF assms(2)]
    have w: "(page_addr i OR kperm i) AND PTE_P = kperm i AND PTE_P" "(page_addr i OR kperm i) AND PTE_PAMASK = page_addr i"
      "(page_addr i OR kperm i) AND initial_perm = kperm i"
      using entry_parts [OF p kperm_facts(1), of PTE_P i] entry_parts(1) [OF p kperm_facts(1), of initial_perm i] kperm_facts(1) [of i]
      by (simp_all add: PTE_P_def initial_perm_def)
    have a: "page_addr i AND pageoffmask 0 = 0" by (rule aligned_low) (rule page_aligned, use assms(2) in simp)
    show ?thesis using e False w kperm_facts(2) [of i] a
      by (simp add: vm_pa_def vm_perm_def Let_def kentry_def kit_def and_neg_bit)
  qed
  then show "vm_pa m (kit C i) = (if i = 0 then -1 else page_addr i)" "vm_perm m (kit C i) = (if i = 0 then 0 else kperm i)" by blast+
qed

section \<open>An address space under construction\<close>

text \<open>The tree \<open>r\<close> is being filled; its process pages are its own, and there are pages for its
  missing tables and \<open>n\<close> more.\<close>

definition setup_st :: "pmem \<Rightarrow> kconf \<Rightarrow> nat set \<Rightarrow> nat \<Rightarrow> nat \<Rightarrow> kstate \<Rightarrow> bool" where
  "setup_st M C R r n k \<longleftrightarrow> spaces M C R {} k \<and> r \<in> R \<and> low (mem k) r \<and> open_path (mem k) r
     \<and> card (missing (mem k) r) + n \<le> free_count C k \<and> (\<forall>va q p. maps_in k r va q p \<longrightarrow> refcount k q = 1)"

lemma setup_stD:
  assumes "setup_st M C R r n k"
  shows "spaces M C R {} k" and "r \<in> R" and "low (mem k) r" and "open_path (mem k) r"
    and "card (missing (mem k) r) + n \<le> free_count C k" and "owned k r" and "r < NPAGES" and "pageno (page_addr r) = r"
    and "\<forall>va q p. maps_in k r va q p \<longrightarrow> refcount k q = 1"
proof -
  show s: "spaces M C R {} k" "r \<in> R" "low (mem k) r" "open_path (mem k) r" "card (missing (mem k) r) + n \<le> free_count C k"
    "\<forall>va q p. maps_in k r va q p \<longrightarrow> refcount k q = 1"
    using assms by (simp_all add: setup_st_def)
  show "owned k r" by (rule spacesD(1) [OF s(1,2)])
  show "r < NPAGES" using spaces_table(2) [OF s(1,2) root_in_tables] by (simp add: user_page_def)
  then show "pageno (page_addr r) = r" by simp
qed

text \<open>The other trees stay as they are.\<close>

definition others :: "nat set \<Rightarrow> nat \<Rightarrow> kstate \<Rightarrow> kstate \<Rightarrow> bool" where
  "others R r k k' \<longleftrightarrow> (\<forall>s \<in> R. s \<noteq> r \<longrightarrow> (\<forall>t \<in> tables (mem k) s. mem k' t = mem k t))"

lemma others_refl [simp]: "others R r k k"
  by (simp add: others_def)

lemma others_trans:
  assumes "others R r k k1" and "others R r k1 k2"
  shows "others R r k k2"
proof -
  have "tables (mem k1) s = tables (mem k) s" if "s \<in> R" "s \<noteq> r" for s
    by (rule outside(1)) (use assms(1) that in \<open>simp add: others_def\<close>)
  then show ?thesis using assms unfolding others_def by auto
qed

lemma others_within:
  assumes "spaces M C R {} k" and "r \<in> R" and "within_tree r k k'"
  shows "others R r k k'"
proof -
  have "mem k' t = mem k t" if "s \<in> R" "s \<noteq> r" "t \<in> tables (mem k) s" for s t
  proof -
    have "refcount k t = 1" by (rule spaces_table(1) [OF assms(1) that(1,3)])
    moreover have "t \<notin> tables (mem k) r" using space_invD(5) [OF spacesD(2) [OF assms(1)] that(1) assms(2) that(2)] that(3) by blast
    ultimately show ?thesis using assms(3) by (simp add: within_tree_def)
  qed
  then show ?thesis by (simp add: others_def)
qed

text \<open>One mapping.\<close>

lemma setup_map:
  assumes "setup_st M C R r n k" and "at_page r i it k" and "i < NVIRTUAL" and "map_ok pa perm"
  obtains it' k' where "vm_try_map C pa perm it k = Some (0, it', k')" and "within_tree r k k'" and "low (mem k') r" and "open_path (mem k') r"
    and "mapping (mem k') r = map_page (page_addr i) (if perm AND PTE_P \<noteq> 0 then Some (pa, perm) else None) (mapping (mem k) r)"
    and "card (missing (mem k') r) + n \<le> free_count C k'" and "grows (mem k) (mem k') r" and "at_page r i it' k'"
proof -
  note s = setup_stD [OF assms(1)]
  have a: "settled (mem k) it" "vva it = page_addr i" "pageno (vpt it) = r" using assms(2) by (simp_all add: at_page_def)
  have vp: "vperm it = initial_perm"
    using a(1,3) open_pathD [OF s(4)] by (auto simp: settled_def on_path_def)
  have l: "vlevel it \<le> free_count C k" using level_missing [OF a(1,2) assms(3)] s(5) a(3) by simp
  obtain it' k' where t: "vm_try_map C pa perm it k = Some (0, it', k')" "within_tree r k k'" "at_page r i it' k'"
    "low (mem k') r" "open_path (mem k) r \<longrightarrow> open_path (mem k') r"
    "mapping (mem k') r = map_page (page_addr i) (if perm AND PTE_P \<noteq> 0 then Some (pa, perm) else None) (mapping (mem k) r)"
    "grows (mem k) (mem k') r" "card (missing (mem k') r) + free_count C k \<le> card (missing (mem k) r) + free_count C k'"
    by (rule try_map_page [OF s(6,3) assms(2,3,4), of C]) (simp_all add: vp initial_allowed l)
  have "card (missing (mem k') r) + n \<le> free_count C k'" using t(8) s(5) by linarith
  then show ?thesis using that [OF t(1,2,4) _ t(6) _ t(7,3)] t(5) s(4) by blast
qed

lemma at_page_stands: "at_page r i it k \<longleftrightarrow> stands (mem k) r (page_addr i) it"
  by (auto simp: at_page_def stands_def)

lemma low_map_ok: "i < 256 \<Longrightarrow> map_ok (if i = 0 then -1 else page_addr i) (if i = 0 then 0 else kperm i)"
  using low_identity [OF _ kperm_facts(1), of i i] page_addr_bits [of i] kperm_facts(1,2) [of i] page_addr_zero_iff [of i]
  by (auto simp: map_ok_def stored_pa_def)

text \<open>A page below the process area.\<close>

lemma setup_low:
  assumes "setup_st M C R r n k" and "at_page r i it k" and "i < 256"
  obtains it' k' where "vm_try_map C (if i = 0 then -1 else page_addr i) (if i = 0 then 0 else kperm i) it k = Some (0, it', k')"
    and "setup_st M C R r n k'" and "mapping (mem k') r = map_page (page_addr i) (kmap i) (mapping (mem k) r)"
    and "grows (mem k) (mem k') r" and "same_procs k k'" and "others R r k k'"
proof -
  note s = setup_stD [OF assms(1)]
  let ?pa = "if i = 0 then -1 else page_addr i" and ?perm = "if i = 0 then 0 else kperm i"
  have i: "i < NVIRTUAL" "i \<le> 512" using assms(3) by simp_all
  have pm: "?perm AND 0xFFF = ?perm" using kperm_facts(1) by simp
  have ne: "new_entry ?pa ?perm = kmap i" using kperm_facts(2) by (simp add: new_entry_def kmap_def)
  obtain it' k' where t: "vm_try_map C ?pa ?perm it k = Some (0, it', k')" "within_tree r k k'" "low (mem k') r" "open_path (mem k') r"
    "mapping (mem k') r = map_page (page_addr i) (if ?perm AND PTE_P \<noteq> 0 then Some (?pa, ?perm) else None) (mapping (mem k) r)"
    "card (missing (mem k') r) + n \<le> free_count C k'" "grows (mem k) (mem k') r"
    by (rule setup_map [OF assms(1,2) i(1) low_map_ok [OF assms(3)]])
  have va: "page_va (page_addr i)" "page_addr i < PROC_START_ADDR"
    using low_page_addr(2) [of i] page_bounds(1) [of i] assms(3) by (simp_all add: linorder_not_le)
  have x0: "{} = {} \<or> ?perm = 0 \<or> vlevel it = 0" by simp
  note st = spaces_try_map [OF s(1,2) assms(2) [unfolded at_page_stands] t(1) pm x0]
  have "a = page_addr i \<and> w = kperm i \<and> i \<noteq> 0" if "kmap i = Some (a, w)" for a w
    using that by (auto simp: kmap_def split: if_splits)
  then have con: "page_addr i = CONSOLE_ADDR \<and> a = CONSOLE_ADDR" if "kmap i = Some (a, w)" "w AND PTE_U \<noteq> 0" for a w
    using that kperm_facts(4) [of i] assms(3) page_lt_low(2) [OF i(2)] by auto
  have "space_inv C R {} (tables (mem k')) ((mapping (mem k))(r := map_page (page_addr i) (kmap i) (mapping (mem k) r))) (refcount k')"
    by (rule space_low [OF st(1) s(2) va con])
  from st(2) [OF this] ne have "spaces M C R {} k'" by simp
  moreover have mp: "mapping (mem k') r = map_page (page_addr i) (kmap i) (mapping (mem k) r)" using t(5) ne by (simp add: new_entry_def)
  moreover have "refcount k' q = 1" if m: "maps_in k' r v q p" for v q p
  proof -
    have "page_va v" "v \<noteq> page_addr i" using m va(2) by (auto simp: maps_def)
    then have "maps_in k r v q p" using m map_page_at [OF va(1)] by (simp add: maps_def mp)
    then have "refcount k q = 1" using s(9) by blast
    then show ?thesis using t(2) by (simp add: within_tree_def)
  qed
  ultimately have "setup_st M C R r n k'" using s(2) t(3,4,6) by (simp add: setup_st_def)
  then show ?thesis using that [OF t(1) _ mp t(7) _ others_within [OF s(1,2) t(2)]] t(2) by (simp add: within_tree_def)
qed

text \<open>The kernel's mappings are copied one by one.\<close>

lemma on_path_grows: "on_path m it \<Longrightarrow> grows m m' (pageno (vpt it)) \<Longrightarrow> on_path m' it"
  by (auto simp: on_path_def grows_def)

lemma at_page_at:
  assumes "setup_st M C R r n k" and "i < NVIRTUAL"
  obtains it where "vmiter_at (mem k) (page_addr r) (page_addr i) = Some it" and "at_page r i it k" and "vpt it = page_addr r"
proof -
  note s = setup_stD [OF assms(1)]
  have c: "va_is_canonical (page_addr i)" using page_canonical assms(2) by simp
  obtain it where i: "vmiter_at (mem k) (page_addr r) (page_addr i) = Some it"
    by (rule vmiter_at_total [of "mem k" "page_addr r" "page_addr i"]) (use s(3,8) c in simp_all)
  note w = vmiter_at_settled [of k "page_addr r" "page_addr i" it, unfolded s(8), OF s(6) c i]
  show ?thesis by (rule that [OF i]) (use w s(8) in \<open>simp_all add: at_page_def\<close>)
qed

lemma copy_kernel_maps_total:
  assumes "conf_ok C" and "ktable C kentry M" and "setup_st M C R r n k" and "on_path (mem k) it" and "vva it = page_addr i"
    and "vpt it = page_addr r" and "i \<le> 256" and "\<forall>j < i. mapping (mem k) r (page_addr j) = kmap j"
  shows "\<exists>k'. copy_kernel_maps C (page_addr r) it k = Some k' \<and> setup_st M C R r n k' \<and> same_procs k k' \<and> others R r k k'
    \<and> (\<forall>j < 256. mapping (mem k') r (page_addr j) = kmap j)"
  using assms(3-8)
proof (induction "256 - i" arbitrary: i it k)
  case 0
  then have i: "i = 256" by simp
  have "\<not> page_addr 256 < PROC_START_ADDR" using page_bounds(1) [of 256] by (simp add: not_less)
  then show ?case using 0 by (subst copy_kernel_maps.simps) (simp add: i)
next
  case (Suc d)
  have i: "i < 256" "i < 512" "i < NVIRTUAL" using Suc.hyps(2) by simp_all
  note s = setup_stD [OF Suc.prems(1)]
  have kt: "ktable C kentry (mem k)" by (rule intact_ktable [OF assms(1,2) spacesD(3) [OF s(1)]])
  have kv: "vmiter_at (mem k) (kernel_pagetable C) (page_addr i) = Some (kit C i)"
    by (rule ktable_kit [OF assms(1) kt i(2) low_kentry [OF i(2)]])
  obtain nit where nit: "vmiter_at (mem k) (page_addr r) (page_addr i) = Some nit" "at_page r i nit k"
    by (rule at_page_at [OF Suc.prems(1) i(3)])
  obtain it' k1 where m: "vm_try_map C (if i = 0 then -1 else page_addr i) (if i = 0 then 0 else kperm i) nit k = Some (0, it', k1)"
    "setup_st M C R r n k1" "mapping (mem k1) r = map_page (page_addr i) (kmap i) (mapping (mem k) r)" "grows (mem k) (mem k1) r"
    "same_procs k k1" "others R r k k1"
    by (rule setup_low [OF Suc.prems(1) nit(2) i(1)])
  have o: "on_path (mem k1) it" by (rule on_path_grows [OF Suc.prems(2)]) (use m(4) s(8) Suc.prems(4) in simp)
  have nx: "vva it + of_nat PAGESIZE = page_addr (Suc i)" unfolding Suc.prems(3) by (rule page_next)
  have lw: "low (mem k1) (pageno (vpt it))" using setup_stD(3,8) [OF m(2)] Suc.prems(4) by simp
  have cn: "va_is_canonical (vva it + of_nat PAGESIZE)" unfolding nx using page_canonical [of "Suc i"] i by simp
  obtain it1 where a: "vm_advance (mem k1) it (of_nat PAGESIZE) = Some it1" by (rule advance_total [OF o lw cn]) simp_all
  have o1: "on_path (mem k1) it1" "vva it1 = page_addr (Suc i)" "vpt it1 = page_addr r"
  proof -
    have "vva it \<noteq> vva it + of_nat PAGESIZE" by simp
    then have f: "vmiter_at (mem k1) (vpt it) (vva it + of_nat PAGESIZE) = Some it1"
      using a real_find_fresh [OF o cn] by (simp add: vm_advance_def vm_find_def)
    from vmiter_at_path [OF cn f] show "on_path (mem k1) it1" "vva it1 = page_addr (Suc i)" "vpt it1 = page_addr r"
      using nx Suc.prems(4) by simp_all
  qed
  have lt: "page_addr i < PROC_START_ADDR" using page_bounds(1) [of i] i by (simp add: not_le)
  have run: "copy_kernel_maps C (page_addr r) it k = copy_kernel_maps C (page_addr r) it1 k1"
    using m(1) by (subst copy_kernel_maps.simps) (simp only: Suc.prems(3) if_P [OF lt] kv nit(1) kit_view [OF kt i(2)] bind.bind_lunit
      prod.case assert_ok_def if_P [OF refl] a)
  have "mapping (mem k1) r (page_addr j) = kmap j" if "j < Suc i" for j
    using that Suc.prems(6) m(3) page_map_update [of i j] i by (cases "j = i") simp_all
  then have "\<exists>k'. copy_kernel_maps C (page_addr r) it1 k1 = Some k' \<and> setup_st M C R r n k' \<and> same_procs k1 k' \<and> others R r k1 k'
    \<and> (\<forall>j < 256. mapping (mem k') r (page_addr j) = kmap j)"
    using Suc.hyps(1) [OF _ m(2) o1] Suc.hyps(2) i(1) by simp
  then show ?case unfolding run using same_procs_trans [OF m(5)] others_trans [OF m(6)] by blast
qed

text \<open>Changes outside the tree.\<close>

lemma missing_outside:
  assumes "\<And>t. t \<in> tables m r \<Longrightarrow> m' t = m t"
  shows "missing m' r = missing m r"
proof -
  have "table_at m' r (node_addr x) (fst x) = table_at m r (node_addr x) (fst x)" if "x \<in> path_nodes" for x
    by (rule table_at_outside [OF assms]) (use that in \<open>auto simp: path_nodes_def\<close>)
  then show ?thesis unfolding missing_def by auto
qed

lemma setup_outside:
  assumes "setup_st M C R r n k" and "spaces M C R {} k'" and "\<And>t. t \<in> tables (mem k) r \<Longrightarrow> mem k' t = mem k t"
    and "\<And>q. refcount k q \<noteq> 0 \<Longrightarrow> refcount k' q = refcount k q" and "free_count C k - n + n' \<le> free_count C k'"
  shows "setup_st M C R r n' k'" and "mapping (mem k') r = mapping (mem k) r"
proof -
  note s = setup_stD [OF assms(1)]
  show m: "mapping (mem k') r = mapping (mem k) r" by (rule outside(3) [OF assms(3)])
  have "refcount k' q = 1" if "maps_in k' r v q p" for v q p
  proof -
    have "maps_in k r v q p" using that by (simp add: maps_def m)
    then have "refcount k q = 1" using s(9) by blast
    then show ?thesis using assms(4) [of q] by simp
  qed
  moreover have "card (missing (mem k) r) + n' \<le> free_count C k'" using assms(5) s(5) by linarith
  ultimately show "setup_st M C R r n' k'"
    using assms(2) s(2,3,4) low_outside [OF assms(3)] open_outside [OF assms(3)] missing_outside [OF assms(3)]
    by (simp add: setup_st_def)
qed

text \<open>A fresh page of the process.\<close>

lemma setup_fresh:
  assumes "setup_st M C R r (Suc n) k" and "256 \<le> i" and "i < NVIRTUAL" and "perm AND 0xFFF = perm" and "perm AND PTE_P \<noteq> 0"
  obtains q k1 it it' k2 where "kalloc C PAGESIZE k = (page_addr q, k1)" and "page_addr q \<noteq> 0"
    and "vmiter_at (mem k1) (page_addr r) (page_addr i) = Some it" and "vm_try_map C (page_addr q) perm it k1 = Some (0, it', k2)"
    and "setup_st M C R r n k2" and "same_procs k k2" and "others R r k k2" and "user_page C q" and "\<forall>s \<in> R. q \<notin> tables (mem k2) s"
    and "\<forall>j < 256. mapping (mem k2) r (page_addr j) = mapping (mem k) r (page_addr j)"
    and "mapping (mem k2) r (page_addr i) = Some (page_addr q, perm)"
proof -
  note s = setup_stD [OF assms(1)]
  have "0 < free_count C k" using s(5) by simp
  then obtain q where q: "free_page C k q" "q \<noteq> 0" "kalloc C PAGESIZE k = (page_addr q, take_page q k)" by (rule kalloc_succeeds)
  define k1 where "k1 = take_page q k"
  have rc: "refcount k1 = (refcount k)(q := 1)" "refcount k q = 0" "q < NPAGES"
    using q(1) by (simp_all add: k1_def take_page_def free_page_def)
  note t = spaces_kalloc [OF s(1) q(1), folded k1_def]
  have mt: "mem k1 u = mem k u" if "u \<noteq> q" for u using that by (simp add: k1_def take_page_def)
  have nt: "q \<notin> tables (mem k) u" if "u \<in> R" for u using spaces_table(1) [OF s(1) that, of q] rc(2) by auto
  have fc: "Suc (free_count C k1) = free_count C k" by (rule free_count_take [OF q(1)]) (simp add: rc)
  have s1: "setup_st M C R r n k1"
  proof (rule setup_outside(1) [OF assms(1) t(1)])
    show "mem k1 u = mem k u" if "u \<in> tables (mem k) r" for u using mt [of u] nt [OF s(2)] that by blast
    show "free_count C k - Suc n + n \<le> free_count C k1" using fc s(5) by simp
  qed (use rc in auto)
  have m1: "mapping (mem k1) r = mapping (mem k) r" by (rule t(4) [OF s(2)])
  have o1: "others R r k k1" using mt nt unfolding others_def by metis
  obtain it where it: "vmiter_at (mem k1) (page_addr r) (page_addr i) = Some it" "at_page r i it k1" by (rule at_page_at [OF s1 assms(3)])
  have ok: "map_ok (page_addr q) perm"
    using page_addr_bits [OF rc(3)] assms(4,5) low_identity [OF rc(3) assms(4)] q(2) by (auto simp: map_ok_def stored_pa_def)
  obtain it' k2 where m: "vm_try_map C (page_addr q) perm it k1 = Some (0, it', k2)" "within_tree r k1 k2" "low (mem k2) r" "open_path (mem k2) r"
    "mapping (mem k2) r = map_page (page_addr i) (if perm AND PTE_P \<noteq> 0 then Some (page_addr q, perm) else None) (mapping (mem k1) r)"
    "card (missing (mem k2) r) + n \<le> free_count C k2"
    by (rule setup_map [OF s1 it(2) assms(3) ok])
  have va: "page_va (page_addr i)" "PROC_START_ADDR \<le> page_addr i"
    using low_page_addr(2) [of i] page_bounds(1) [of i] assms(2,3) by simp_all
  have one: "\<forall>u p. maps_in k1 r (page_addr i) u p \<longrightarrow> refcount k1 u = 1" using setup_stD(9) [OF s1] by blast
  note f = spaces_map_fresh [OF t(1) s(2) it(2) [unfolded at_page_stands] m(1) assms(4,5) t(2) va one]
  have mp: "mapping (mem k2) r = map_page (page_addr i) (Some (page_addr q, perm)) (mapping (mem k) r)" using m(5) assms(5) m1 by simp
  have "refcount k2 u = 1" if h: "maps_in k2 r v u p" for v u p
  proof (cases "v = page_addr i")
    case True
    then have "u = q" using h rc(3) map_page_at [OF va(1) va(1)] by (auto simp: maps_def mp page_addr_inj)
    then show ?thesis using m(2) rc(1) by (simp add: within_tree_def)
  next
    case False
    have "page_va v" using h by (simp add: maps_def)
    then have "maps_in k1 r v u p" using h False map_page_at [OF va(1)] by (simp add: maps_def mp m1)
    then have "refcount k1 u = 1" using setup_stD(9) [OF s1] by blast
    then show ?thesis using m(2) by (simp add: within_tree_def)
  qed
  then have "setup_st M C R r n k2" using f(1) s(2) m(3,4,6) by (simp add: setup_st_def)
  moreover have "same_procs k k2" using same_procs_trans [OF kalloc_same [OF q(3)], folded k1_def] m(2) by (simp add: within_tree_def)
  moreover have "others R r k k2" by (rule others_trans [OF o1 others_within [OF t(1) s(2) m(2)]])
  moreover have "user_page C q" using q(1) by (simp add: free_page_def user_page_def)
  moreover have "mapping (mem k2) r (page_addr j) = mapping (mem k) r (page_addr j)" if "j < 256" for j
    unfolding mp using page_map_update [of i j] assms(2,3) that by simp
  moreover have "mapping (mem k2) r (page_addr i) = Some (page_addr q, perm)" unfolding mp using page_map_update [of i i] assms(3) by simp
  moreover have "page_addr q \<noteq> 0" using q(2) rc(3) by simp
  ultimately show ?thesis using that [OF q(3) [folded k1_def] _ it(1) m(1)] f(3) by simp
qed

lemma setup_fill:
  assumes "setup_st M C R r n k" and "\<forall>s \<in> R. q \<notin> tables (mem k) s" and "user_page C q" and "\<And>t. t \<noteq> q \<Longrightarrow> mem k' t = mem k t"
    and "refcount k' = refcount k"
  shows "setup_st M C R r n k'" and "mapping (mem k') r = mapping (mem k) r" and "others R r k k'"
proof -
  note s = setup_stD [OF assms(1)]
  have nt: "\<And>u. u \<in> R \<Longrightarrow> q \<notin> tables (mem k) u" using assms(2) by blast
  have sf: "spaces M C R {} k'" by (rule spaces_fill(1) [OF s(1) _ assms(4,5,3)]) (use nt in blast)+
  have fc: "free_count C k' = free_count C k" by (rule free_count_same) (simp add: assms(5))
  have mt: "mem k' t = mem k t" if "t \<in> tables (mem k) u" "u \<in> R" for t u using assms(4) [of t] nt [OF that(2)] that(1) by auto
  show "setup_st M C R r n k'" by (rule setup_outside(1) [OF assms(1) sf]) (use mt s(2,5) fc assms(5) in simp_all)
  show "mapping (mem k') r = mapping (mem k) r" by (rule setup_outside(2) [OF assms(1) sf, where n' = n]) (use mt s(2,5) fc assms(5) in simp_all)
  show "others R r k k'" using mt by (simp add: others_def)
qed

section \<open>Loading an image\<close>

text \<open>A loadable segment lies in the process area.\<close>

definition segment_ok :: "elf_program \<Rightarrow> bool" where
  "segment_ok h \<longleftrightarrow> PROC_START_ADDR \<le> p_va h \<and> unat (p_va h) + unat (p_memsz h) \<le> unat MEMSIZE_VIRTUAL"

definition seg_end :: "elf_program \<Rightarrow> nat" where
  "seg_end h = (unat (p_va h) + unat (p_memsz h) + 4095) div 4096"

definition seg_pages :: "elf_program \<Rightarrow> nat" where
  "seg_pages h = seg_end h - unat (p_va h) div 4096"

lemma segment_okD:
  assumes "segment_ok h"
  shows "seg_end h \<le> 768" and "256 \<le> unat (p_va h) div 4096" and "round_down_page (p_va h) = page_addr (unat (p_va h) div 4096)"
    and "i \<le> 768 \<Longrightarrow> page_addr i < p_va h + p_memsz h \<longleftrightarrow> i < seg_end h" and "unat (p_va h) div 4096 \<le> 768"
proof -
  have s: "unat (p_va h) + unat (p_memsz h) \<le> 768 * 4096" using assms by (simp add: segment_ok_def addr_defs)
  then have le: "unat (p_va h) + unat (p_memsz h) + 4095 \<le> 768 * 4096 + 4095" by simp
  show "seg_end h \<le> 768" unfolding seg_end_def using div_le_mono [OF le, of 4096] by simp
  show "256 \<le> unat (p_va h) div 4096"
    using assms by (subst less_eq_div_iff_mult_less_eq) (simp_all add: segment_ok_def addr_defs word_le_nat_alt)
  have "unat (p_va h) div 4096 \<le> 768 * 4096 div 4096" by (rule div_le_mono) (use s in linarith)
  then show d: "unat (p_va h) div 4096 \<le> 768" by simp
  then show "round_down_page (p_va h) = page_addr (unat (p_va h) div 4096)"
    using low_page_addr(1) [of "unat (p_va h) div 4096"] by (simp add: word_unat_eq_iff unat_round_down)
  have u: "unat (p_va h + p_memsz h) = unat (p_va h) + unat (p_memsz h)" using s by (subst unat_add_lem [THEN iffD1]) simp_all
  show "page_addr i < p_va h + p_memsz h \<longleftrightarrow> i < seg_end h" if "i \<le> 768"
  proof -
    have "page_addr i < p_va h + p_memsz h \<longleftrightarrow> i * 4096 < unat (p_va h) + unat (p_memsz h)"
      using low_page_addr(1) [of i] that by (simp add: word_less_nat_alt u)
    also have "\<dots> \<longleftrightarrow> Suc i \<le> seg_end h" unfolding seg_end_def by (subst less_eq_div_iff_mult_less_eq) auto
    finally show ?thesis by (simp add: Suc_le_eq)
  qed
qed

definition loaded :: "pmem \<Rightarrow> kconf \<Rightarrow> nat set \<Rightarrow> nat \<Rightarrow> nat \<Rightarrow> kstate \<Rightarrow> kstate \<Rightarrow> bool" where
  "loaded M C R r n k k' \<longleftrightarrow> setup_st M C R r n k' \<and> same_procs k k' \<and> others R r k k'
     \<and> (\<forall>j < 256. mapping (mem k') r (page_addr j) = mapping (mem k) r (page_addr j))"

lemma loaded_trans: "loaded M C R r n k k1 \<Longrightarrow> loaded M C R r n' k1 k2 \<Longrightarrow> loaded M C R r n' k k2"
  using same_procs_trans others_trans unfolding loaded_def by metis

lemma load_segment_total:
  assumes "segment_ok h" and "setup_st M C R r (n + (seg_end h - i)) k" and "256 \<le> i" and "i \<le> 768"
  shows "\<exists>k'. load_segment C (page_addr r) e h (page_addr i) k = Some k' \<and> loaded M C R r n k k'"
  using assms(2-4)
proof (induction "seg_end h - i" arbitrary: i k)
  case 0
  then have "\<not> page_addr i < p_va h + p_memsz h" using segment_okD(4) [OF assms(1)] by simp
  then show ?case using 0 by (subst load_segment.simps) (simp add: loaded_def)
next
  case (Suc d)
  have i: "i < 768" "i < seg_end h" using Suc.hyps(2) segment_okD(1) [OF assms(1)] by simp_all
  then have lt: "page_addr i < p_va h + p_memsz h" using segment_okD(4) [OF assms(1)] by simp
  have st: "setup_st M C R r (Suc (n + d)) k" using Suc.prems(1) unfolding Suc.hyps(2) [symmetric] by simp
  define perm where "perm = (if seg_writable h then PTE_P OR PTE_U OR PTE_W else PTE_P OR PTE_U)"
  have p: "perm AND 0xFFF = perm" "perm AND PTE_P \<noteq> 0" by (simp_all add: perm_def pte_defs)
  obtain q k1 it it' k2 where f: "kalloc C PAGESIZE k = (page_addr q, k1)" "page_addr q \<noteq> 0"
    "vmiter_at (mem k1) (page_addr r) (page_addr i) = Some it" "vm_try_map C (page_addr q) perm it k1 = Some (0, it', k2)"
    "setup_st M C R r (n + d) k2" "same_procs k k2" "others R r k k2" "user_page C q" "\<forall>s \<in> R. q \<notin> tables (mem k2) s"
    "\<forall>j < 256. mapping (mem k2) r (page_addr j) = mapping (mem k) r (page_addr j)"
    by (rule setup_fresh [OF st Suc.prems(2) i(1) p])
  have pq: "pageno (page_addr q) = q" using f(8) by (simp add: user_page_def)
  define off where "off = page_addr i - p_va h"
  define k3 where "k3 = (if off > p_filesz h then set_page q 0 k2
    else load_page q (\<lambda>j. e_bytes e (unat (p_offset h + off) + j)) (min PAGESIZE (unat (p_filesz h - off))) (set_page q 0 k2))"
  have k3: "mem k3 t = mem k2 t" if "t \<noteq> q" for t using that by (simp add: k3_def load_page_def)
  have k3': "refcount k3 = refcount k2" "same_procs k2 k3" by (simp_all add: k3_def load_page_def same_procs_def)
  note g = setup_fill [OF f(5,9,8) k3 k3'(1)]
  have run: "load_segment C (page_addr r) e h (page_addr i) k = load_segment C (page_addr r) e h (page_addr (Suc i)) k3"
    using f(3,4) by (subst load_segment.simps) (simp only: if_P [OF lt] f(1) prod.case Let_def assert_ok_def if_P [OF f(2)]
      perm_def [symmetric] bind.bind_lunit if_P [OF refl] pq off_def [symmetric] k3_def [symmetric] page_next)
  have l: "loaded M C R r (n + d) k k3"
    using g f(10) same_procs_trans [OF f(6) k3'(2)] others_trans [OF f(7) g(3)] by (simp add: loaded_def)
  have "\<exists>k'. load_segment C (page_addr r) e h (page_addr (Suc i)) k3 = Some k' \<and> loaded M C R r n k3 k'"
  proof (rule Suc.hyps(1))
    show d: "d = seg_end h - Suc i" using Suc.hyps(2) by simp
    show "setup_st M C R r (n + (seg_end h - Suc i)) k3" unfolding d [symmetric] by (rule g(1))
  qed (use Suc.prems(2) i(1) in simp_all)
  then show ?case unfolding run using loaded_trans [OF l] by blast
qed

lemma load_segments_total:
  assumes "\<forall>h \<in> set hs. segment_ok h" and "setup_st M C R r (n + sum_list (map seg_pages hs)) k"
  shows "\<exists>k'. load_segments C (page_addr r) e hs k = Some k' \<and> loaded M C R r n k k'"
  using assms
proof (induction hs arbitrary: k)
  case Nil
  then show ?case by (simp add: loaded_def)
next
  case (Cons h hs)
  have h: "segment_ok h" using Cons.prems(1) by simp
  note s = segment_okD [OF h]
  have "setup_st M C R r (n + sum_list (map seg_pages hs) + (seg_end h - unat (p_va h) div 4096)) k"
    using Cons.prems(2) unfolding list.map sum_list.Cons seg_pages_def [of h] by (simp only: ac_simps)
  from load_segment_total [OF h this s(2,5)] obtain k1 where
    k1: "load_segment C (page_addr r) e h (round_down_page (p_va h)) k = Some k1" "loaded M C R r (n + sum_list (map seg_pages hs)) k k1"
    unfolding s(3) by blast
  have "\<exists>k'. load_segments C (page_addr r) e hs k1 = Some k' \<and> loaded M C R r n k1 k'"
    by (rule Cons.IH) (use Cons.prems(1) k1(2) in \<open>simp_all add: loaded_def\<close>)
  then show ?case using k1(1) loaded_trans [OF k1(2)] by auto
qed

section \<open>Setting up a process\<close>

text \<open>A tree through which the kernel can run.\<close>

definition kernel_in :: "kstate \<Rightarrow> nat \<Rightarrow> bool" where
  "kernel_in k r \<longleftrightarrow> low (mem k) r \<and> (\<forall>j < 256. mapping (mem k) r (page_addr j) = kmap j)"

lemma kernel_in_outside:
  assumes "kernel_in k r" and "\<forall>t \<in> tables (mem k) r. mem k' t = mem k t"
  shows "kernel_in k' r"
  using assms low_outside [of "mem k" r "mem k'"] outside(3) [of "mem k" r "mem k'"] by (simp add: kernel_in_def)

definition image_ok :: "elf_image option \<Rightarrow> bool" where
  "image_ok elf \<longleftrightarrow> (case elf of None \<Rightarrow> True | Some e \<Rightarrow> (\<forall>h \<in> set (e_phdrs e). p_type h = 1 \<longrightarrow> segment_ok h))"

text \<open>The pages that a process needs: those of its segments, a root, four tables and a stack.\<close>

definition image_pages :: "elf_image option \<Rightarrow> nat" where
  "image_pages elf = (case elf of None \<Rightarrow> 0 | Some e \<Rightarrow> sum_list (map seg_pages (filter (\<lambda>h. p_type h = 1) (e_phdrs e))))"

lemma new_root:
  assumes "spaces M C R {} k" and "card R < PID_MAX" and "6 + n \<le> free_count C k"
  obtains r k1 where "kalloc_pagetable C k = (page_addr r, k1)" and "page_addr r \<noteq> 0" and "r \<notin> R" and "setup_st M C (insert r R) r (n + 1) k1"
    and "same_procs k k1" and "\<forall>s \<in> R. \<forall>t \<in> tables (mem k) s. mem k1 t = mem k t" and "mapping (mem k1) r = (\<lambda>va. None)"
proof -
  have "0 < free_count C k" using assms(3) by simp
  then obtain q where q: "free_page C k q" "q \<noteq> 0" "kalloc C PAGESIZE k = (page_addr q, take_page q k)" by (rule kalloc_succeeds)
  have qn: "q < NPAGES" "page_addr q \<noteq> 0" "pageno (page_addr q) = q" "refcount k q = 0" using q(1,2) by (simp_all add: free_page_def)
  define k1 where "k1 = set_page q 0 (take_page q k)"
  have kp: "kalloc_pagetable C k = (page_addr q, k1)" using q(3) qn by (simp add: kalloc_pagetable_def k1_def)
  obtain r where r: "page_addr q = page_addr r" "r \<notin> R" "spaces M C (insert r R) {} k1" "mapping (mem k1) r = (\<lambda>va. None)" "same_procs k k1"
    "r < NPAGES" by (rule spaces_new_table [OF assms(1,2) kp qn(2)])
  have rq: "r = q" using r(1,6) qn(1) page_addr_inj by simp
  have z: "mem k1 q i = 0" for i by (simp add: k1_def)
  note e = empty_tree [of "mem k1" q, OF z]
  have "card (missing (mem k1) q) \<le> card path_nodes" by (rule card_mono) (auto simp: missing_def)
  also have "card path_nodes = 4" by (simp add: path_nodes_def)
  finally have c: "card (missing (mem k1) q) \<le> 4" .
  have "Suc (free_count C k1) = free_count C k" by (rule free_count_take [OF q(1)]) (use qn(4) in \<open>simp add: k1_def take_page_def\<close>)
  then have "setup_st M C (insert r R) r (n + 1) k1"
    using r(3,4) e(4,5) c assms(3) by (simp add: setup_st_def rq maps_def)
  moreover have "mem k1 t = mem k t" if "s \<in> R" "t \<in> tables (mem k) s" for s t
  proof -
    have "refcount k t = 1" by (rule spaces_table(1) [OF assms(1) that])
    then show ?thesis using qn(4) by (auto simp: k1_def take_page_def)
  qed
  ultimately show ?thesis using that [of r k1] kp r(1,2,4,5) qn(2) by simp
qed

lemma free_count_eq: "refcount k' = refcount k \<Longrightarrow> free_count C k' = free_count C k"
  by (rule free_count_same) simp

lemma setup_st_eq: "mem k' = mem k \<Longrightarrow> refcount k' = refcount k \<Longrightarrow> setup_st M C R r n k' = setup_st M C R r n k"
  using spaces_eq [of k' k M C R "{}"] free_count_eq [of k' k C] by (simp add: setup_st_def)

lemma load_image_total:
  assumes "image_ok pgm" and "setup_st M C R r (n + image_pages pgm) k"
  shows "\<exists>k'. (case pgm of None \<Rightarrow> Some k | Some e \<Rightarrow> load_segments C (page_addr r) e (segments (seg_begin pgm)) k) = Some k'
     \<and> loaded M C R r n k k'"
proof (cases pgm)
  case None
  then show ?thesis using assms(2) by (simp add: loaded_def image_pages_def)
next
  case (Some e)
  let ?hs = "filter (\<lambda>h. p_type h = 1) (e_phdrs e)"
  have f: "segments (seg_begin pgm) = ?hs" using segments_filter [of "e_phdrs e"] by (simp add: seg_begin_def Some)
  have "\<forall>h \<in> set ?hs. segment_ok h" using assms(1) by (simp add: image_ok_def Some)
  then have "\<exists>k'. load_segments C (page_addr r) e ?hs k = Some k' \<and> loaded M C R r n k k'"
    by (rule load_segments_total) (use assms(2) in \<open>simp add: image_pages_def Some\<close>)
  then show ?thesis unfolding f by (simp add: Some)
qed

lemma stack_page: "MEMSIZE_VIRTUAL - of_nat PAGESIZE = page_addr 767"
  by (simp add: addr_defs page_addr_def)

lemma process_setup_total:
  assumes "conf_ok C" and "ktable C kentry M" and "tabled M C k" and "n < PID_MAX" and "n \<noteq> 0" and "state (ptable k n) = P_FREE"
    and "pid (ptable k n) = n" and "image_ok (images name)" and "6 + (image_pages (images name) + m) \<le> free_count C k"
    and "\<forall>r \<in> roots k. kernel_in k r"
  obtains k' where "process_setup C images n name k = Some k'" and "tabled M C k'" and "m \<le> free_count C k'"
    and "\<forall>r \<in> roots k'. kernel_in k' r" and "\<forall>q. q \<noteq> n \<longrightarrow> ptable k' q = ptable k q" and "state (ptable k' n) = P_RUNNABLE"
proof -
  define R where "R = roots k"
  define k0 where "k0 = set_proc n (init_process False False) k"
  have e0: "mem k0 = mem k" "refcount k0 = refcount k" by (simp_all add: k0_def)
  have s0: "spaces M C R {} k0" using assms(3) spaces_eq [OF e0] by (simp add: tabled_def R_def)
  have card: "card R < PID_MAX" using card_roots [OF _ assms(4,6)] assms(3) by (simp add: tabled_def R_def)
  have fc: "6 + (image_pages (images name) + m) \<le> free_count C k0" using assms(9) free_count_eq [OF e0(2)] by simp
  obtain r k1 where r: "kalloc_pagetable C k0 = (page_addr r, k1)" "page_addr r \<noteq> 0" "r \<notin> R"
    "setup_st M C (insert r R) r (image_pages (images name) + m + 1) k1" "same_procs k0 k1"
    "\<forall>s \<in> R. \<forall>t \<in> tables (mem k0) s. mem k1 t = mem k0 t" "mapping (mem k1) r = (\<lambda>va. None)"
    by (rule new_root [OF s0 card fc])
  define R' where "R' = insert r R"
  define k2 where "k2 = set_proc n (\<lambda>p. p\<lparr>pagetable := page_addr r\<rparr>) k1"
  have e2: "mem k2 = mem k1" "refcount k2 = refcount k1" by (simp_all add: k2_def)
  have s2: "setup_st M C R' r (image_pages (images name) + m + 1) k2" using r(4) setup_st_eq [OF e2] by (simp add: R'_def)
  obtain it where it: "vmiter_at (mem k2) (page_addr r) (page_addr 0) = Some it" "at_page r 0 it k2" "vpt it = page_addr r"
    by (rule at_page_at [OF s2, of 0]) simp_all
  have o: "on_path (mem k2) it" "vva it = page_addr 0" using it(2) by (simp_all add: at_page_def settled_def)
  obtain k3 where k3: "copy_kernel_maps C (page_addr r) it k2 = Some k3" "setup_st M C R' r (image_pages (images name) + m + 1) k3" "same_procs k2 k3"
    "others R' r k2 k3" "\<forall>j < 256. mapping (mem k3) r (page_addr j) = kmap j"
    using copy_kernel_maps_total [OF assms(1,2) s2 o it(3)] by auto
  have "setup_st M C R' r (Suc m + image_pages (images name)) k3" using k3(2) by (simp add: ac_simps)
  from load_image_total [OF assms(8) this] obtain k4 where
    k4: "(case images name of None \<Rightarrow> Some k3 | Some e \<Rightarrow> load_segments C (page_addr r) e (segments (seg_begin (images name))) k3) = Some k4"
      "loaded M C R' r (Suc m) k3 k4" by blast
  define k5 where "k5 = set_proc n (\<lambda>p. p\<lparr>regs := (regs p)\<lparr>reg_rip := image_entry (images name)\<rparr>\<rparr>) k4"
  have e5: "mem k5 = mem k4" "refcount k5 = refcount k4" by (simp_all add: k5_def)
  have s5: "setup_st M C R' r (Suc m) k5" using k4(2) setup_st_eq [OF e5] by (simp add: loaded_def)
  have pm: "(PTE_P OR PTE_W OR PTE_U) AND 0xFFF = PTE_P OR PTE_W OR PTE_U" "(PTE_P OR PTE_W OR PTE_U) AND PTE_P \<noteq> 0" by (rule pwu_facts)+
  obtain q k6 sit it' k7 where f: "kalloc C PAGESIZE k5 = (page_addr q, k6)" "page_addr q \<noteq> 0"
    "vmiter_at (mem k6) (page_addr r) (page_addr 767) = Some sit" "vm_try_map C (page_addr q) (PTE_P OR PTE_W OR PTE_U) sit k6 = Some (0, it', k7)"
    "setup_st M C R' r m k7" "same_procs k5 k7" "others R' r k5 k7"
    "\<forall>j < 256. mapping (mem k7) r (page_addr j) = mapping (mem k5) r (page_addr j)"
    by (rule setup_fresh [OF s5 _ _ pm, of 767]) simp_all
  define k8 where "k8 = set_proc n (\<lambda>p. p\<lparr>regs := (regs p)\<lparr>reg_rsp := MEMSIZE_VIRTUAL - of_nat PAGESIZE + of_nat PAGESIZE\<rparr>, state := P_RUNNABLE\<rparr>) k7"
  have run: "process_setup C images n name k = Some k8"
    unfolding process_setup_def Let_def k0_def [symmetric] r(1) prod.case k2_def [symmetric] assert_ok_def if_P [OF r(2)] bind.bind_lunit
      it(1) [unfolded page_zero] k3(1) k4(1) k5_def [symmetric] stack_page f(1) if_P [OF f(2)] f(3,4) if_P [OF refl]
    by (simp only: k8_def stack_page)
  have e8: "mem k8 = mem k7" "refcount k8 = refcount k7" by (simp_all add: k8_def)
  have p: "ptable k1 = ptable k0" "ptable k3 = ptable k2" "ptable k4 = ptable k3" "ptable k7 = ptable k5"
    using r(5) k3(3) k4(2) f(6) by (simp_all add: same_procs_def loaded_def)
  have oth: "\<forall>q. q \<noteq> n \<longrightarrow> ptable k8 q = ptable k q" by (simp add: k8_def p k5_def k2_def k0_def)
  have slot: "pagetable (ptable k8 n) = page_addr r" "state (ptable k8 n) = P_RUNNABLE" "pid (ptable k8 n) = n"
    using assms(7) by (simp_all add: k8_def p k5_def k2_def k0_def init_process_def Let_def)
  have s8: "setup_st M C R' r m k8" using f(5) setup_st_eq [OF e8] by simp
  note tb = tabled_added [OF assms(3,4,5,6) oth r(3) [unfolded R_def] setup_stD(7) [OF s8] setup_stD(1) [OF s8, unfolded R'_def R_def] slot]
  have "kernel_in k8 s" if "s \<in> roots k8" for s
  proof (cases "s = r")
    case True
    have "mapping (mem k8) r (page_addr j) = kmap j" if "j < 256" for j
      using that f(8) k4(2) k3(5) by (simp add: e8 e5 loaded_def)
    then show ?thesis using setup_stD(3) [OF s8] by (simp add: kernel_in_def True)
  next
    case False
    then have s: "s \<in> R" "s \<in> R'" using that tb(2) by (simp_all add: R_def R'_def)
    have "others R' r k2 k4" using others_trans [OF k3(4)] k4(2) by (simp add: loaded_def)
    then have o5: "others R' r k2 k5" by (simp add: others_def e5)
    have o7: "others R' r k2 k8" using others_trans [OF o5 f(7)] by (simp add: others_def e8)
    have m2: "\<forall>t \<in> tables (mem k) s. mem k2 t = mem k t" using r(6) s(1) by (simp add: e0 e2)
    then have "tables (mem k2) s = tables (mem k) s" using outside(1) [of "mem k" s "mem k2"] by blast
    then have "\<forall>t \<in> tables (mem k) s. mem k8 t = mem k t" using o7 s(2) False m2 by (simp add: others_def)
    moreover have "kernel_in k s" using assms(10) s(1) by (simp add: R_def)
    ultimately show ?thesis using kernel_in_outside by blast
  qed
  moreover have "m \<le> free_count C k8" using setup_stD(5) [OF s8] by simp
  ultimately show ?thesis using that [OF run tb(1) _ _ oth slot(2)] by blast
qed

section \<open>The first process\<close>

lemma kmap_pa:
  assumes "owned k r" and "kernel_in k r" and "r < 2 ^ 52" and "unat va div 4096 < 256" and "unat va div 4096 \<noteq> 0" and "va_is_canonical va"
  obtains it where "vmiter_at (mem k) (page_addr r) va = Some it" and "vm_pa (mem k) it = va"
proof -
  define j where "j = unat va div 4096"
  have rn: "pageno (page_addr r) = r" using assms(3) by simp
  obtain it where it: "vmiter_at (mem k) (page_addr r) va = Some it"
    by (rule vmiter_at_total [of "mem k" "page_addr r" va]) (use assms(2,6) rn in \<open>simp_all add: kernel_in_def\<close>)
  note w = vmiter_at_settled [of k "page_addr r" va it, unfolded rn, OF assms(1,6) it]
  have pj: "page_addr j = round_down_page va"
    using low_page_addr(1) [of j] assms(4) by (simp add: word_unat_eq_iff unat_round_down j_def)
  have ix: "pageindex va l = pageindex (page_addr j) l" for l
  proof -
    have "(va XOR page_addr j) AND NOT (pageoffmask 0) = 0"
      unfolding pj by (rule bit_word_eqI) (auto simp: bit_simps pageoffmask_mask round_down_bit)
    from pageindex_cong [OF this] show ?thesis by simp
  qed
  have "mapping (mem k) r va = mapping (mem k) r (page_addr j)"
    unfolding mapping_def ix [of 0] using table_at_same_path [of 3 va "page_addr j"] ix by (simp add: same_path_def)
  also have "\<dots> = Some (page_addr j, kperm j)" using assms(2,4,5) by (simp add: kernel_in_def kmap_def j_def)
  finally have mp: "mapping (mem k) (pageno (vpt it)) (vva it) = Some (page_addr j, kperm j)" using w(2,3) rn by simp
  note e = mapping_entry [OF w(1) mp]
  have "page_addr j + (va AND pageoffmask 0) = va"
  proof -
    have "page_addr j + (va AND pageoffmask 0) = page_addr j OR (va AND pageoffmask 0)"
      by (rule disjunctive_add_eq_or) (rule bit_word_eqI, auto simp: bit_simps pj pageoffmask_mask round_down_bit)
    also have "\<dots> = va" by (rule bit_word_eqI) (auto simp: bit_simps pj pageoffmask_mask round_down_bit dest: bit_imp_le_length)
    finally show ?thesis .
  qed
  then have "vm_pa (mem k) it = va" using e(1,2,5) w(2) by (simp add: vm_pa_def Let_def)
  then show ?thesis by (rule that [OF it])
qed

lemma check_pagetable_ok:
  assumes "conf_ok C" and "ktable C kentry M" and "spaces M C R {} k" and "r \<in> R" and "kernel_in k r"
  shows "check_pagetable C (page_addr r) k = Some ()"
proof -
  note c = conf_okD [OF assms(1)]
  have o: "owned k r" by (rule spacesD(1) [OF assms(3,4)])
  have up: "user_page C r" by (rule spaces_table(2) [OF assms(3,4) root_in_tables])
  have r: "r < 512" "r \<noteq> 0" using up user_page_pos by (simp_all add: user_page_def)
  have r2: "r < 2 ^ 52" using r by simp
  have low: "va_is_canonical a" if "unat a div 4096 < 256" for a :: u64
  proof -
    have "unat a < 256 * 4096" using that by (simp add: div_less_iff_less_mult)
    then show ?thesis by (simp add: va_is_canonical_def word_le_nat_alt)
  qed
  have e: "unat (exception_entry C) div 4096 < 256" "unat (exception_entry C) div 4096 \<noteq> 0"
    using assms(1) by (auto simp: conf_ok_def word_less_nat_alt div_less_iff_less_mult div_eq_0_iff)
  have kp: "unat (kernel_pagetable C) div 4096 = kroot C" by (simp add: kroot_def pageno_def)
  have p: "unat (kernel_pagetable C) div 4096 < 256" "unat (kernel_pagetable C) div 4096 \<noteq> 0" using c(2,3) by (simp_all add: kp)
  obtain it where 1: "vmiter_at (mem k) (page_addr r) (exception_entry C) = Some it" "vm_pa (mem k) it = exception_entry C"
    by (rule kmap_pa [OF o assms(5) r2 e low [OF e(1)]])
  obtain it3 where 3: "vmiter_at (mem k) (page_addr r) (kernel_pagetable C) = Some it3" "vm_pa (mem k) it3 = kernel_pagetable C"
    by (rule kmap_pa [OF o assms(5) r2 p low [OF p(1)]])
  have kt: "ktable C kentry (mem k)" by (rule intact_ktable [OF assms(1,2) spacesD(3) [OF assms(3)]])
  have 2: "vmiter_at (mem k) (kernel_pagetable C) (page_addr r) = Some (kit C r)" by (rule ktable_kit [OF assms(1) kt r(1) low_kentry [OF r(1)]])
  show ?thesis
    using 1 2 3 kit_view(1) [OF kt r(1)] r(2) page_aligned [of r] r(1) by (simp add: check_pagetable_def assert_ok_def)
qed

lemma run_total:
  assumes "conf_ok C" and "ktable C kentry M" and "tabled M C k" and "p < PID_MAX" and "state (ptable k p) = P_RUNNABLE"
    and "\<forall>r \<in> roots k. kernel_in k r"
  shows "run C p k = Some (k\<lparr>current := p\<rparr>)" and "kernel_inv M C (k\<lparr>current := p\<rparr>)"
proof -
  have l: "live k p" using assms(4,5) by (simp add: live_def)
  have r: "root k p \<in> roots k" using l by (simp add: roots_def)
  have pt: "pagetable (ptable k p) = page_addr (root k p)" using assms(3) l by (simp add: tabled_def procs_ok_def)
  let ?k = "k\<lparr>current := p\<rparr>"
  have s: "spaces M C (roots k) {} ?k" using assms(3) spaces_eq [of ?k k] by (simp add: tabled_def)
  have "kernel_in ?k (root k p)" using assms(6) r by (simp add: kernel_in_def)
  then show "run C p k = Some ?k"
    using check_pagetable_ok [OF assms(1,2) s r] assms(5) pt by (simp add: run_def assert_ok_def)
  show "kernel_inv M C ?k" by (rule kernel_inv_current [OF assms(3-5)])
qed

text \<open>No process: every page is free.\<close>

lemma tabled_none:
  assumes "\<forall>q. refcount k q = 0" and "\<forall>p < PID_MAX. state (ptable k p) = P_FREE"
  shows "tabled (mem k) C k" and "roots k = {}"
proof -
  show r: "roots k = {}" using assms(2) by (auto simp: roots_def live_def)
  have "space_inv C {} {} (tables (mem k)) (mapping (mem k)) (refcount k)"
    using assms(1) by (simp add: space_inv_def holders_def)
  then have "spaces (mem k) C {} {} k" by (simp add: spaces_def intact_def)
  moreover have "\<not> live k p" for p using assms(2) by (auto simp: live_def)
  then have "procs_ok k" using assms(2) by (simp add: procs_ok_def)
  ultimately show "tabled (mem k) C k" by (simp add: tabled_def r)
qed

lemma free_count_none: "\<forall>q. refcount k q = 0 \<Longrightarrow> free_count C k = card {q. user_page C q}"
  by (simp add: free_count_def free_page_def user_page_def)

text \<open>The programs that are loaded at the start, as processes 1, 2, and so on.\<close>

definition first_programs :: "(string \<Rightarrow> elf_image option) \<Rightarrow> string \<Rightarrow> string option \<Rightarrow> string list" where
  "first_programs images first command = (let c = (case command of None \<Rightarrow> first | Some c \<Rightarrow> c) in
     if image_empty (images c) then [''allocator'', ''allocator2'', ''allocator3'', ''allocator4''] else [c])"

fun setup_all :: "kconf \<Rightarrow> (string \<Rightarrow> elf_image option) \<Rightarrow> nat \<Rightarrow> string list \<Rightarrow> kstate \<Rightarrow> kstate option" where
  "setup_all C images n [] k = Some k"
| "setup_all C images n (p # ps) k = process_setup C images n p k \<bind> setup_all C images (Suc n) ps"

lemma setup_all_total:
  assumes "conf_ok C" and "ktable C kentry M" and "tabled M C k" and "0 < n" and "n + length ps \<le> PID_MAX"
    and "\<forall>q < PID_MAX. pid (ptable k q) = q \<and> state (ptable k q) = (if 0 < q \<and> q < n then P_RUNNABLE else P_FREE)"
    and "\<forall>p \<in> set ps. image_ok (images p)" and "sum_list (map (\<lambda>p. 6 + image_pages (images p)) ps) \<le> free_count C k"
    and "\<forall>r \<in> roots k. kernel_in k r"
  shows "\<exists>k'. setup_all C images n ps k = Some k' \<and> tabled M C k' \<and> (\<forall>r \<in> roots k'. kernel_in k' r)
     \<and> (\<forall>q < PID_MAX. state (ptable k' q) = (if 0 < q \<and> q < n + length ps then P_RUNNABLE else P_FREE))"
  using assms(3-9)
proof (induction ps arbitrary: n k)
  case (Cons p ps)
  have n: "n < PID_MAX" "n \<noteq> 0" using Cons.prems(2,3) by simp_all
  have sl: "state (ptable k n) = P_FREE" "pid (ptable k n) = n" using Cons.prems(4) n by simp_all
  have im: "image_ok (images p)" using Cons.prems(5) by simp
  have fc: "6 + (image_pages (images p) + sum_list (map (\<lambda>p. 6 + image_pages (images p)) ps)) \<le> free_count C k"
    using Cons.prems(6) by simp
  obtain k1 where k1: "process_setup C images n p k = Some k1" "tabled M C k1"
    "sum_list (map (\<lambda>p. 6 + image_pages (images p)) ps) \<le> free_count C k1" "\<forall>r \<in> roots k1. kernel_in k1 r"
    "\<forall>q. q \<noteq> n \<longrightarrow> ptable k1 q = ptable k q" "state (ptable k1 n) = P_RUNNABLE"
    by (rule process_setup_total [where images = images and name = p, OF assms(1,2) Cons.prems(1) n sl im fc Cons.prems(7)])
  have "live k1 n" using k1(6) n by (simp add: live_def)
  then have pid: "pid (ptable k1 n) = n" using k1(2) by (simp add: tabled_def procs_ok_def)
  have "pid (ptable k1 q) = q \<and> state (ptable k1 q) = (if 0 < q \<and> q < Suc n then P_RUNNABLE else P_FREE)" if "q < PID_MAX" for q
    using Cons.prems(4) k1(5,6) pid n that by (cases "q = n") auto
  then have "\<exists>k'. setup_all C images (Suc n) ps k1 = Some k' \<and> tabled M C k' \<and> (\<forall>r \<in> roots k'. kernel_in k' r)
     \<and> (\<forall>q < PID_MAX. state (ptable k' q) = (if 0 < q \<and> q < Suc n + length ps then P_RUNNABLE else P_FREE))"
    by (intro Cons.IH [OF k1(2)]) (use Cons.prems(3,5) k1(3,4) in simp_all)
  then show ?case using k1(1) by simp
qed simp

text \<open>C6: On a machine with enough pages for the first programs (their segments and six more pages for each), kernel_start
  never fails an assertion: it comes to process 1 with the kernel page table an identity map,
  exactly the first programs runnable, and the state satisfying the invariant from which the
  isolation of processes follows.
\<close>

theorem kernel_boots:
  assumes "conf_ok C" and "\<forall>q. refcount k q = 0" and "\<forall>p \<in> set (first_programs images first command). image_ok (images p)"
    and "sum_list (map (\<lambda>p. 6 + image_pages (images p)) (first_programs images first command)) \<le> card {q. user_page C q}"
  shows "\<exists>k'. kernel_start C images first command k = Some k' \<and> kernel_inv (mem k') C k' \<and> ktable C kentry (mem k') \<and> current k' = 1
     \<and> (\<forall>p < PID_MAX. state (ptable k' p) = (if 0 < p \<and> p \<le> length (first_programs images first command) then P_RUNNABLE else P_FREE))"
proof -
  define ps where "ps = first_programs images first command"
  have len: "0 < length ps" "1 + length ps \<le> PID_MAX" by (simp_all add: ps_def first_programs_def Let_def)
  obtain k1 k2 where b: "init_kernel_memory C k = Some k1" "kernel_maps C 0 (k1\<lparr>ticks := 1\<rparr>) = Some k2" "ktable C kentry (mem k2)"
    "refcount k2 = refcount k" by (rule kernel_tables_built [OF assms(1)])
  define k3 where "k3 = init_ptable k2"
  have e: "mem k3 = mem k2" "refcount k3 = refcount k" using b(4) by (simp_all add: k3_def init_ptable_def)
  have p3: "\<forall>q < PID_MAX. pid (ptable k3 q) = q \<and> state (ptable k3 q) = P_FREE" by (simp add: k3_def init_ptable_def)
  have z: "\<forall>q. refcount k3 q = 0" using assms(2) e by simp
  have free: "\<forall>p < PID_MAX. state (ptable k3 p) = P_FREE" using p3 by blast
  note t = tabled_none(1) [OF z free, of C] tabled_none(2) [OF z free]
  have kt: "ktable C kentry (mem k3)" using b(3) e by simp
  have "\<exists>k'. setup_all C images 1 ps k3 = Some k' \<and> tabled (mem k3) C k' \<and> (\<forall>r \<in> roots k'. kernel_in k' r)
     \<and> (\<forall>q < PID_MAX. state (ptable k' q) = (if 0 < q \<and> q < 1 + length ps then P_RUNNABLE else P_FREE))"
    by (rule setup_all_total [OF assms(1) kt t(1) _ len(2)]) (use p3 assms(3,4) t(2) free_count_none [OF z] in \<open>auto simp: ps_def\<close>)
  then obtain k4 where k4: "setup_all C images 1 ps k3 = Some k4" "tabled (mem k3) C k4" "\<forall>r \<in> roots k4. kernel_in k4 r"
    "\<forall>q < PID_MAX. state (ptable k4 q) = (if 0 < q \<and> q < 1 + length ps then P_RUNNABLE else P_FREE)" by blast
  have one: "state (ptable k4 1) = P_RUNNABLE" "(1 :: nat) < PID_MAX" using k4(4) len by simp_all
  note r = run_total [OF assms(1) kt k4(2) one(2,1) k4(3)]
  define k5 where "k5 = k4\<lparr>current := 1\<rparr>"
  have run: "kernel_start C images first command k = Some k5"
    using b(1,2) k4(1) r(1)
    by (auto simp: kernel_start_def Let_def k3_def [symmetric] k5_def ps_def first_programs_def numeral_eq_Suc bind_eq_Some_conv split: if_splits)
  have inv: "kernel_inv (mem k3) C k5" using r(2) by (simp add: k5_def)
  then have "ktable C kentry (mem k5)" by (intro intact_ktable [OF assms(1) kt]) (rule spacesD(3) [OF kernel_invD(6)])
  moreover have "kernel_inv (mem k5) C k5" using inv by (simp add: kernel_inv_def tabled_def spaces_def intact_def)
  ultimately show ?thesis using run k4(4) unfolding ps_def [symmetric] by (intro exI [of _ k5]) (simp add: k5_def less_Suc_eq_le)
qed

definition demo_image :: elf_image where
  "demo_image = \<lparr>e_entry = 0x100000, e_phdrs = [\<lparr>p_type = 6, p_flags = 4, p_offset = 64, p_va = 0, p_filesz = 56, p_memsz = 56\<rparr>,
      \<lparr>p_type = 1, p_flags = 7, p_offset = 0x1000, p_va = 0x100000, p_filesz = 0x100, p_memsz = 0x1800\<rparr>], e_bytes = (\<lambda>i. of_nat i)\<rparr>"

lemma demo_pages: "8 \<le> card {q. user_page demo_conf q}"
proof -
  have "user_page demo_conf q" if "1 \<le> q" "q < 9" for q
  proof -
    have "unat (page_addr q) = q * 4096" using low_page_addr(1) [of q] that by simp
    then show ?thesis using that by (simp add: user_page_def allocatable_physical_address_def reserved_physical_address_def demo_conf_def addr_defs
      word_less_nat_alt word_le_nat_alt)
  qed
  then have "{1 ..< 9} \<subseteq> {q. user_page demo_conf q}" by auto
  moreover have "finite {q. user_page demo_conf q}" by (rule finite_subset [of _ "{..< NPAGES}"]) (auto simp: user_page_def)
  ultimately have "card {1 ..< 9 :: nat} \<le> card {q. user_page demo_conf q}" by (intro card_mono)
  then show ?thesis by simp
qed

lemma kernel_boots_witness:
  "\<exists>k'. kernel_start demo_conf (\<lambda>name. Some demo_image) ''hello'' None empty_kernel = Some k' \<and> kernel_inv (mem k') demo_conf k'
     \<and> ktable demo_conf kentry (mem k') \<and> state (ptable k' 1) = P_RUNNABLE \<and> state (ptable k' 2) = P_FREE"
proof -
  let ?im = "\<lambda>name :: string. Some demo_image"
  have f: "first_programs ?im ''hello'' None = [''hello'']" by (simp add: first_programs_def image_empty_def demo_image_def)
  have c: "conf_ok demo_conf" by (simp add: conf_ok_def kroot_def pageno_def demo_conf_def page_addr_def)
  have z: "\<forall>q. refcount empty_kernel q = 0" by (simp add: empty_kernel_def)
  have "segment_ok (e_phdrs demo_image ! 1)" "seg_pages (e_phdrs demo_image ! 1) = 2"
    by (simp_all add: demo_image_def segment_ok_def addr_defs seg_pages_def seg_end_def)
  then have i: "image_ok (Some demo_image)" "image_pages (Some demo_image) = 2"
    by (simp_all add: image_ok_def image_pages_def demo_image_def)
  show ?thesis using kernel_boots [of demo_conf empty_kernel ?im "''hello''" None] f c z i demo_pages by fastforce
qed

end
