(* ===== verification/WArith.thy ===== *)
theory WArith
  imports Prelude
begin

text \<open>
  The arithmetic and the character traits of \<open>src/pset3/lib.hh\<close>: positions of bits, rounding to
  multiples and to powers of two. They are templates in the source; the definitions are for a word
  of any width, and the compiler's builtins count bits as its manual says. \<open>None\<close> is a division by
  zero or a shift by the width of the type, both undefined.
\<close>

section \<open>Bit positions\<close>

text \<open>\<open>__builtin_clz\<close> counts the zero bits above the highest one bit, \<open>__builtin_ffs\<close> is one more
  than the number of zero bits below the lowest.\<close>

definition builtin_clz :: "'a :: len word \<Rightarrow> nat" where
  "builtin_clz x = length (takeWhile (\<lambda>i. \<not> bit x i) (rev [0 ..< LENGTH('a)]))"

definition builtin_ffs :: "'a :: len word \<Rightarrow> nat" where
  "builtin_ffs x = (if x = 0 then 0 else Suc (length (takeWhile (\<lambda>i. \<not> bit x i) [0 ..< LENGTH('a)])))"

definition msb :: "'a :: len word \<Rightarrow> nat" where
  "msb x = (if x \<noteq> 0 then LENGTH('a) - builtin_clz x else 0)"

definition lsb :: "'a :: len word \<Rightarrow> nat" where
  "lsb x = builtin_ffs x"

section \<open>Rounding\<close>

definition round_down :: "'a :: len word \<Rightarrow> 'a word \<Rightarrow> 'a word option" where
  "round_down x m = (if m = 0 then None else Some (x - x mod m))"

definition round_up :: "'a :: len word \<Rightarrow> 'a word \<Rightarrow> 'a word option" where
  "round_up x m = round_down (x + m - 1) m"

definition shift_one :: "nat \<Rightarrow> 'a :: len word option" where
  "shift_one n = (if n < LENGTH('a) then Some (push_bit n 1) else None)"

definition round_down_pow2 :: "'a :: len word \<Rightarrow> 'a word option" where
  "round_down_pow2 x = (if x \<noteq> 0 then shift_one (msb x - 1) else Some 0)"

definition round_up_pow2 :: "'a :: len word \<Rightarrow> 'a word option" where
  "round_up_pow2 x = (if x \<noteq> 0 then shift_one (msb (x - 1)) else Some 0)"

section \<open>Character traits\<close>

text \<open>An \<open>int\<close> as a word of 32 bits; the differences are unsigned, so that characters below the
  first of a range wrap around.\<close>

definition isspace_i :: "32 word \<Rightarrow> bool" where
  "isspace_i c \<longleftrightarrow> 9 \<le>s c \<and> c \<le>s 13 \<or> c = 32"
definition isdigit_c :: "32 word \<Rightarrow> bool" where "isdigit_c c \<longleftrightarrow> c - 48 < 10"
definition islower_c :: "32 word \<Rightarrow> bool" where "islower_c c \<longleftrightarrow> c - 97 < 26"
definition isupper_c :: "32 word \<Rightarrow> bool" where "isupper_c c \<longleftrightarrow> c - 65 < 26"
definition isalpha_c :: "32 word \<Rightarrow> bool" where "isalpha_c c \<longleftrightarrow> (c OR 0x20) - 97 < 26"
definition isalnum_c :: "32 word \<Rightarrow> bool" where "isalnum_c c \<longleftrightarrow> isalpha_c c \<or> isdigit_c c"
definition tolower_c :: "32 word \<Rightarrow> 32 word" where "tolower_c c = (if isupper_c c then c + 97 - 65 else c)"
definition toupper_c :: "32 word \<Rightarrow> 32 word" where "toupper_c c = (if islower_c c then c + 65 - 97 else c)"

section \<open>What they compute\<close>

lemma unat_lt_bit: "unat (x :: 'a :: len word) < 2 ^ n \<longleftrightarrow> (\<forall>i. n \<le> i \<longrightarrow> \<not> bit x i)"
proof
  assume h: "unat x < 2 ^ n"
  show "\<forall>i. n \<le> i \<longrightarrow> \<not> bit x i"
  proof (intro allI impI notI)
    fix i
    assume i: "n \<le> i" "bit x i"
    then have b: "bit (unat x) i" by (simp add: bit_unsigned_iff bit_imp_le_length)
    have "unat x < 2 ^ i" using h i(1) by (meson less_le_trans one_le_numeral power_increasing)
    then have "unat x div 2 ^ i = 0" by simp
    then show False using b by (simp add: bit_iff_odd)
  qed
next
  assume h: "\<forall>i. n \<le> i \<longrightarrow> \<not> bit x i"
  have "take_bit n x = x" by (rule bit_word_eqI) (use h in \<open>auto simp: bit_take_bit_iff intro: leI\<close>)
  then have "take_bit n (unat x) = unat x" by (metis unsigned_take_bit_eq)
  then show "unat x < 2 ^ n" by (metis take_bit_nat_less_exp)
qed

text \<open>The highest bit.\<close>

lemma msb_iff:
  assumes "(x :: 'a :: len word) \<noteq> 0"
  shows "0 < msb x" and "msb x \<le> LENGTH('a)" and "2 ^ (msb x - 1) \<le> unat x" and "unat x < 2 ^ msb x"
proof -
  define l where "l = rev [0 ..< LENGTH('a)]"
  define c where "c = builtin_clz x"
  obtain i where i: "bit x i" "i < LENGTH('a)" using assms by (metis bit_eq_iff bit_imp_le_length bit_0_eq bot_apply bot_bool_def)
  have c: "c = length (takeWhile (\<lambda>i. \<not> bit x i) l)" by (simp add: c_def builtin_clz_def l_def)
  have lc: "c < LENGTH('a)"
  proof (rule ccontr)
    assume "\<not> c < LENGTH('a)"
    then have "takeWhile (\<lambda>i. \<not> bit x i) l = l"
      by (metis c l_def length_rev length_upt minus_nat.diff_0 not_less takeWhile_eq_take take_all_iff)
    then have "\<not> bit x i" using i(2) by (simp add: takeWhile_eq_all_conv l_def)
    then show False using i(1) by simp
  qed
  have nth: "l ! k = LENGTH('a) - 1 - k" if "k < LENGTH('a)" for k using that by (simp add: l_def rev_nth)
  have at: "bit x (LENGTH('a) - 1 - c)" using nth_length_takeWhile [of "\<lambda>i. \<not> bit x i" l] lc nth [OF lc] by (simp add: c l_def)
  have above: "\<not> bit x j" if "LENGTH('a) - c \<le> j" for j
  proof (cases "j < LENGTH('a)")
    case True
    then have k: "LENGTH('a) - 1 - j < c" using that by linarith
    then have "takeWhile (\<lambda>i. \<not> bit x i) l ! (LENGTH('a) - 1 - j) \<in> set (takeWhile (\<lambda>i. \<not> bit x i) l)" by (simp add: c)
    moreover have "takeWhile (\<lambda>i. \<not> bit x i) l ! (LENGTH('a) - 1 - j) = j"
      using takeWhile_nth [of "LENGTH('a) - 1 - j" "\<lambda>i. \<not> bit x i" l] k nth [of "LENGTH('a) - 1 - j"] True by (simp add: c)
    ultimately show ?thesis using set_takeWhileD by metis
  next
    case False
    then show ?thesis by (auto dest: bit_imp_le_length)
  qed
  have m: "msb x = LENGTH('a) - c" using assms by (simp add: msb_def c_def)
  show "0 < msb x" "msb x \<le> LENGTH('a)" using lc by (simp_all add: m)
  show "unat x < 2 ^ msb x" unfolding unat_lt_bit m using above by blast
  show "2 ^ (msb x - 1) \<le> unat x"
  proof (rule ccontr)
    assume "\<not> 2 ^ (msb x - 1) \<le> unat x"
    then have "\<not> bit x (LENGTH('a) - 1 - c)" using unat_lt_bit [of x "msb x - 1"] by (simp add: m)
    then show False using at by simp
  qed
qed

lemma msb_unique: "2 ^ k \<le> unat (x :: 'a :: len word) \<Longrightarrow> unat x < 2 ^ Suc k \<Longrightarrow> msb x = Suc k"
proof -
  assume h: "2 ^ k \<le> unat x" "unat x < 2 ^ Suc k"
  then have nz: "x \<noteq> 0" by auto
  note m = msb_iff [OF nz]
  have "(2 :: nat) ^ k < 2 ^ msb x" "(2 :: nat) ^ (msb x - 1) < 2 ^ Suc k" using h m(3,4) by linarith+
  then have "k < msb x" "msb x - 1 < Suc k" by (simp_all only: power_strict_increasing_iff)
  then show "msb x = Suc k" by linarith
qed

text \<open>The lowest bit.\<close>

lemma lsb_least:
  assumes "(x :: 'a :: len word) \<noteq> 0"
  shows "0 < lsb x" and "bit x (lsb x - 1)" and "i < lsb x - 1 \<Longrightarrow> \<not> bit x i"
proof -
  define l where "l = [0 ..< LENGTH('a)]"
  define c where "c = length (takeWhile (\<lambda>i. \<not> bit x i) l)"
  have v: "lsb x = Suc c" using assms by (simp add: lsb_def builtin_ffs_def c_def l_def)
  obtain i where i: "bit x i" "i < LENGTH('a)" using assms by (metis bit_eq_iff bit_imp_le_length bit_0_eq bot_apply bot_bool_def)
  have lc: "c < LENGTH('a)"
  proof (rule ccontr)
    assume "\<not> c < LENGTH('a)"
    then have "takeWhile (\<lambda>i. \<not> bit x i) l = l"
      by (metis c_def l_def length_upt minus_nat.diff_0 not_less takeWhile_eq_take take_all_iff)
    then have "\<not> bit x i" using i(2) by (simp add: takeWhile_eq_all_conv l_def)
    then show False using i(1) by simp
  qed
  have "bit x (l ! c)" using nth_length_takeWhile [of "\<lambda>i. \<not> bit x i" l] lc by (simp add: c_def l_def)
  then show "bit x (lsb x - 1)" using lc by (simp add: v l_def)
  show "0 < lsb x" by (simp add: v)
  show "\<not> bit x i" if "i < lsb x - 1" for i
  proof -
    have k: "i < c" using that by (simp add: v)
    then have "takeWhile (\<lambda>i. \<not> bit x i) l ! i \<in> set (takeWhile (\<lambda>i. \<not> bit x i) l)" by (simp add: c_def)
    moreover have "takeWhile (\<lambda>i. \<not> bit x i) l ! i = i"
      using takeWhile_nth [of i "\<lambda>i. \<not> bit x i" l] k lc by (simp add: c_def l_def)
    ultimately show ?thesis using set_takeWhileD by metis
  qed
qed

text \<open>Multiples.\<close>

lemma round_down_multiple:
  assumes "(m :: 'a :: len word) \<noteq> 0"
  obtains r where "round_down x m = Some r" and "unat r = unat x div unat m * unat m"
proof (rule that)
  show "round_down x m = Some (x - x mod m)" using assms by (simp add: round_down_def)
  have "x mod m \<le> x" by (simp add: word_le_nat_alt unat_mod)
  then show "unat (x - x mod m) = unat x div unat m * unat m"
    by (simp add: unat_sub unat_mod minus_mod_eq_div_mult [symmetric])
qed

lemma round_up_multiple:
  assumes "(m :: 'a :: len word) \<noteq> 0" and "unat x + unat m \<le> 2 ^ LENGTH('a)"
  obtains r where "round_up x m = Some r" and "unat x \<le> unat r" and "unat r < unat x + unat m" and "unat m dvd unat r"
proof -
  have m: "0 < unat m" using assms(1) by (simp add: unat_gt_0)
  have "x + m - 1 = x + (m - 1)" by simp
  moreover have "unat (m - 1) = unat m - 1" using assms(1) by (simp add: unat_minus_one)
  ultimately have u: "unat (x + m - 1) = unat x + unat m - 1"
    using assms(2) m by (simp only:) (subst unat_add_lem [THEN iffD1]; simp)
  obtain r where r: "round_down (x + m - 1) m = Some r" "unat r = unat (x + m - 1) div unat m * unat m"
    by (rule round_down_multiple [OF assms(1)])
  have q: "unat x + unat m - 1 = unat r + (unat x + unat m - 1) mod unat m" using r(2) u by simp
  have l: "(unat x + unat m - 1) mod unat m < unat m" using m by simp
  show ?thesis
  proof (rule that)
    show "round_up x m = Some r" using r(1) by (simp add: round_up_def)
    show "unat x \<le> unat r" "unat r < unat x + unat m" using q l m by linarith+
    show "unat m dvd unat r" by (simp add: r(2))
  qed
qed

text \<open>Powers of two.\<close>

lemma unat_shift_one:
  assumes "n < LENGTH('a)"
  obtains r where "shift_one n = Some (r :: 'a :: len word)" and "unat r = 2 ^ n"
proof (rule that)
  show "shift_one n = Some (push_bit n 1 :: 'a word)" using assms by (simp add: shift_one_def)
  have "unat (of_nat (2 ^ n) :: 'a word) = 2 ^ n" using assms by (simp only: unsigned_of_nat take_bit_nat_eq_self power_strict_increasing_iff one_less_numeral_iff semiring_norm of_nat_eq_id id_apply)
  then show "unat (push_bit n 1 :: 'a word) = 2 ^ n" by (simp add: push_bit_eq_mult)
qed

lemma round_down_pow2_eq:
  assumes "(x :: 'a :: len word) \<noteq> 0"
  obtains r k where "round_down_pow2 x = Some r" and "unat r = 2 ^ k" and "unat r \<le> unat x" and "unat x < 2 * unat r"
proof -
  note m = msb_iff [OF assms]
  have l: "msb x - 1 < LENGTH('a)" using m(1,2) by linarith
  obtain r where r: "shift_one (msb x - 1) = Some (r :: 'a word)" "unat r = 2 ^ (msb x - 1)" by (rule unat_shift_one [OF l])
  have "2 * (2 :: nat) ^ (msb x - 1) = 2 ^ msb x" using m(1) by (simp add: power_eq_if)
  then show ?thesis using that [of r "msb x - 1"] r m(3,4) assms by (simp add: round_down_pow2_def)
qed

lemma round_up_pow2_eq:
  assumes "(x :: 'a :: len word) \<noteq> 0"
  shows "if unat x \<le> 2 ^ (LENGTH('a) - 1)
    then \<exists>r k. round_up_pow2 x = Some r \<and> unat r = 2 ^ k \<and> unat x \<le> unat r \<and> (r = 1 \<or> unat r < 2 * unat x)
    else round_up_pow2 x = None"
proof -
  have u: "unat (x - 1) = unat x - 1" using assms by (simp add: unat_minus_one)
  have x0: "0 < unat x" using assms by (simp add: unat_gt_0)
  show ?thesis
  proof (cases "x = 1")
    case True
    have z: "msb (x - 1) = 0" by (simp add: True msb_def)
    obtain r where r: "shift_one 0 = Some (r :: 'a word)" "unat r = 2 ^ 0" by (rule unat_shift_one [of 0]) simp
    have "round_up_pow2 x = Some r" using r(1) z assms by (simp add: round_up_pow2_def)
    moreover have "r = 1" using r(2) by (simp add: word_unat_eq_iff)
    ultimately have "round_up_pow2 x = Some r \<and> unat r = 2 ^ 0 \<and> unat x \<le> unat r \<and> (r = 1 \<or> unat r < 2 * unat x)" using True by simp
    moreover have "unat x \<le> 2 ^ (LENGTH('a) - 1)" by (simp add: True)
    ultimately show ?thesis by (simp only: if_True) blast
  next
    case False
    then have nz: "x - 1 \<noteq> 0" by simp
    note m = msb_iff [OF nz, unfolded u]
    have d: "2 * (2 :: nat) ^ (msb (x - 1) - 1) = 2 ^ msb (x - 1)" using m(1) by (simp add: power_eq_if)
    show ?thesis
    proof (cases "unat x \<le> 2 ^ (LENGTH('a) - 1)")
      case True
      have "(2 :: nat) ^ (msb (x - 1) - 1) < 2 ^ (LENGTH('a) - 1)" using m(3) True x0 by linarith
      then have "msb (x - 1) - 1 < LENGTH('a) - 1" by (simp only: power_strict_increasing_iff)
      then have l: "msb (x - 1) < LENGTH('a)" by linarith
      obtain r where r: "shift_one (msb (x - 1)) = Some (r :: 'a word)" "unat r = 2 ^ msb (x - 1)" by (rule unat_shift_one [OF l])
      have "unat x \<le> unat r" "unat r < 2 * unat x" using r(2) m(3,4) x0 d by linarith+
      then show ?thesis using r True assms by (auto simp: round_up_pow2_def)
    next
      case big: False
      then have "(2 :: nat) ^ (LENGTH('a) - 1) < 2 ^ msb (x - 1)" using m(4) by linarith
      then have "LENGTH('a) - 1 < msb (x - 1)" by (simp only: power_strict_increasing_iff)
      then have "\<not> msb (x - 1) < LENGTH('a)" by linarith
      then show ?thesis using big assms by (simp add: round_up_pow2_def shift_one_def)
    qed
  qed
qed

text \<open>\<open>round_up_pow2\<close> is the least power of two that is not below its argument, and
  \<open>round_down_pow2\<close> the greatest that is not above it; but above the highest power of two of the
  type, \<open>round_up_pow2\<close> shifts by the width of the type, which is undefined.\<close>

theorem pow2_rounding:
  assumes "(x :: 'a :: len word) \<noteq> 0"
  shows "(\<exists>r k. round_down_pow2 x = Some r \<and> unat r = 2 ^ k \<and> unat r \<le> unat x \<and> unat x < 2 * unat r)
    \<and> (if unat x \<le> 2 ^ (LENGTH('a) - 1)
       then \<exists>r k. round_up_pow2 x = Some r \<and> unat r = 2 ^ k \<and> unat x \<le> unat r \<and> (r = 1 \<or> unat r < 2 * unat x)
       else round_up_pow2 x = None)"
  using round_down_pow2_eq [OF assms] round_up_pow2_eq [OF assms] by metis

lemma pow2_rounding_witness:
  "(\<exists>r k. round_down_pow2 (100 :: 32 word) = Some r \<and> unat r = 2 ^ k \<and> unat r \<le> 100 \<and> 100 < 2 * unat r)
    \<and> round_up_pow2 (0xC0000000 :: 32 word) = None"
  using pow2_rounding [of "100 :: 32 word"] pow2_rounding [of "0xC0000000 :: 32 word"] by simp

section \<open>Letters\<close>

lemma letter_ranges:
  "isdigit_c c \<longleftrightarrow> 48 \<le> unat c \<and> unat c < 58"
  "islower_c c \<longleftrightarrow> 97 \<le> unat c \<and> unat c < 123"
  "isupper_c c \<longleftrightarrow> 65 \<le> unat c \<and> unat c < 91"
proof -
  have u: "unat c < 2 ^ 32" using unsigned_less [of c] by simp
  show "isdigit_c c \<longleftrightarrow> 48 \<le> unat c \<and> unat c < 58"
    "islower_c c \<longleftrightarrow> 97 \<le> unat c \<and> unat c < 123"
    "isupper_c c \<longleftrightarrow> 65 \<le> unat c \<and> unat c < 91"
    using u by (auto simp: isdigit_c_def islower_c_def isupper_c_def word_less_nat_alt unat_sub_if')
qed

lemma isalpha_small: "\<forall>k \<in> set [0 ..< 128]. isalpha_c (of_nat k) = (isupper_c (of_nat k) \<or> islower_c (of_nat k))"
  by code_simp

text \<open>The bit trick of \<open>isalpha\<close> is right for every \<open>int\<close>, and case conversions only change letters.\<close>

lemma isalpha_c_iff: "isalpha_c c \<longleftrightarrow> isupper_c c \<or> islower_c c"
proof (cases "unat c < 128")
  case True
  then have "unat c \<in> set [0 ..< 128]" by simp
  from isalpha_small [THEN bspec, OF this] show ?thesis by simp
next
  case False
  have "unat c \<le> unat (c OR 0x20)" using le_word_or2 [of c "0x20"] by (simp add: word_le_nat_alt)
  moreover have "unat (c OR 0x20) < 2 ^ 32" using unsigned_less [of "c OR 0x20"] by simp
  ultimately have "\<not> isalpha_c c" using False by (auto simp: isalpha_c_def word_less_nat_alt unat_sub_if')
  then show ?thesis using False by (simp add: letter_ranges)
qed

lemma case_conversion:
  "isupper_c c \<Longrightarrow> islower_c (tolower_c c) \<and> toupper_c (tolower_c c) = c"
  "islower_c c \<Longrightarrow> isupper_c (toupper_c c) \<and> tolower_c (toupper_c c) = c"
  "\<not> isalpha_c c \<Longrightarrow> tolower_c c = c \<and> toupper_c c = c"
proof -
  show "isupper_c c \<Longrightarrow> islower_c (tolower_c c) \<and> toupper_c (tolower_c c) = c"
    by (simp add: tolower_c_def toupper_c_def isupper_c_def islower_c_def)
  show "islower_c c \<Longrightarrow> isupper_c (toupper_c c) \<and> tolower_c (toupper_c c) = c"
    by (simp add: tolower_c_def toupper_c_def isupper_c_def islower_c_def)
  show "\<not> isalpha_c c \<Longrightarrow> tolower_c c = c \<and> toupper_c c = c"
    by (simp add: isalpha_c_iff tolower_c_def toupper_c_def)
qed

end
