(* ===== verification/KView.thy ===== *)
theory KView
  imports KStart WArith
begin

text \<open>
  The memory viewer (\<open>src/pset3/k-memviewer.cc\<close>, and \<open>memshow\<close> of \<open>kernel.cc\<close>): it walks over all page tables, notes for each
  physical page who uses it, and draws a character for each page; it reports pages that are used in a way
  they should not be. Its loops come to an end on every page table. The marks are a list of words, one for each page; they are kept in a page of their own, whose
  contents are not part of the model of memory. What is drawn is a list of cells with their contents; the
  headlines are left out, and so is the text of the reports.
\<close>

unbundle bit_operations_syntax

section \<open>Marks\<close>

definition MAXPN :: nat where "MAXPN = 1024"
definition maxpa :: u64 where "maxpa = of_nat (MAXPN * PAGESIZE)"
definition VA_LOWEND :: u64 where "VA_LOWEND = 0x0000800000000000"

definition f_kernel :: "32 word" where "f_kernel = 1"
definition f_user :: "32 word" where "f_user = 2"
definition f_nonidentity :: "32 word" where "f_nonidentity = 4"

definition f_process :: "nat \<Rightarrow> 32 word" where
  "f_process p = (if 29 \<le> p then push_bit 31 4 else if 1 \<le> p then push_bit p 4 else 0)"

record memusage =
  mv_page :: u64
  marks :: "32 word list"
  separate_tables :: bool

definition mark :: "u64 \<Rightarrow> 32 word \<Rightarrow> 32 word list \<Rightarrow> 32 word list" where
  "mark pa flags v = (if pa < maxpa then v[pageno pa := v ! pageno pa OR flags] else v)"

definition marked_pid :: "32 word \<Rightarrow> nat" where "marked_pid v = lsb (drop_bit 3 v)"

text \<open>The loops over the tables of a tree, and over the pages that a process can use.\<close>

partial_function (option) mark_ptables :: "pmem \<Rightarrow> (ptiter \<Rightarrow> bool) \<Rightarrow> 32 word \<Rightarrow> ptiter \<Rightarrow> 32 word list \<Rightarrow> 32 word list option" where
  "mark_ptables m go_on flags it v = (if go_on it then do {
       let v = mark (pt_pa m it) flags v;
       it \<leftarrow> pt_next m it;
       mark_ptables m go_on flags it v }
     else Some v)"

partial_function (option) mark_pages :: "pmem \<Rightarrow> 32 word \<Rightarrow> vmiter \<Rightarrow> 32 word list \<Rightarrow> 32 word list option" where
  "mark_pages m pidflag it v = (if vva it < VA_LOWEND then
       (if vm_user m it then do {
          let v = (if vva it = vm_pa m it then mark (vm_pa m it) (f_user OR pidflag) v
            else mark (vm_pa m it) (f_user OR f_nonidentity OR pidflag) v);
          it \<leftarrow> vm_next m it;
          mark_pages m pidflag it v }
        else do {
          it \<leftarrow> vm_next_range m it;
          mark_pages m pidflag it v })
     else Some v)"

fun mark_processes :: "kconf \<Rightarrow> kstate \<Rightarrow> nat list \<Rightarrow> bool \<Rightarrow> 32 word list \<Rightarrow> (bool \<times> 32 word list) option" where
  "mark_processes C k [] sep v = Some (sep, v)"
| "mark_processes C k (n # ns) sep v = (let p = ptable k n; pidflag = f_process n in
     if state p \<noteq> P_FREE \<and> pagetable p \<noteq> 0 \<and> pagetable p \<noteq> kernel_pagetable C then do {
       it \<leftarrow> ptiter_at (mem k) (pagetable p);
       v \<leftarrow> mark_ptables (mem k) (\<lambda>it. pt_va it < VA_LOWEND) (f_kernel OR pidflag) it v;
       let v = mark (pagetable p) (f_kernel OR pidflag) v;
       it \<leftarrow> vmiter_at (mem k) (pagetable p) 0;
       v \<leftarrow> mark_pages (mem k) pidflag it v;
       mark_processes C k ns True v }
     else mark_processes C k ns sep v)"

text \<open>Without a page table of its own for any process, the owner is guessed from the address.\<close>

partial_function (option) mark_owners :: "kstate \<Rightarrow> vmiter \<Rightarrow> 32 word list \<Rightarrow> 32 word list option" where
  "mark_owners k it v = (if vva it < VA_LOWEND then
       (if vm_user (mem k) it \<and> vm_pa (mem k) it < MEMSIZE_PHYSICAL \<and> refcount k (pageno (vm_pa (mem k) it)) \<noteq> 0 then do {
          let own = (ucast ((vm_pa (mem k) it - PROC_START_ADDR) div 0x40000) :: 32 word);
          let v = mark (vm_pa (mem k) it) (f_user OR (let p = sint (own + 1) in f_process (nat p))) v;
          it \<leftarrow> vm_next (mem k) it;
          mark_owners k it v }
        else do {
          it \<leftarrow> vm_next_range (mem k) it;
          mark_owners k it v })
     else Some v)"

definition refresh :: "kconf \<Rightarrow> memusage \<Rightarrow> kstate \<Rightarrow> (memusage \<times> kstate) option" where
  "refresh C mu k = do {
     let (pa, k) = (if mv_page mu = 0 then kalloc C PAGESIZE k else (mv_page mu, k));
     assert_ok (pa \<noteq> 0);
     it \<leftarrow> ptiter_at (mem k) (kernel_pagetable C);
     v \<leftarrow> mark_ptables (mem k) (\<lambda>it. \<not> pt_done it) f_kernel it (replicate MAXPN 0);
     let v = mark pa f_kernel (mark (kernel_pagetable C) f_kernel v);
     (sep, v) \<leftarrow> mark_processes C k [1 ..< PID_MAX] False v;
     v \<leftarrow> (if sep then Some v else do {
       it \<leftarrow> vmiter_at (mem k) (kernel_pagetable C) 0;
       mark_owners k it v });
     Some (\<lparr>mv_page = pa, marks = v, separate_tables = sep\<rparr>, k) }"

section \<open>Symbols\<close>

datatype page_error = ReservedMapped nat | KernelDataMapped nat | KernelAllocatedMapped nat | FreedMapped nat

definition colors :: "16 word list" where "colors = [0xF, 0xC, 0xA, 0x9, 0xE]"

definition names :: "16 word list" where
  "names = [75, 49, 50, 51, 52, 53, 54, 55, 56, 57, 65, 66, 67, 68, 69, 70, 71, 72, 73, 74, 75, 76, 77, 78, 79, 80, 81, 82, 83, 84, 63, 63]"

text \<open>The character and colors for the page at \<open>pa\<close>, and the reports (of \<open>page_error\<close>).\<close>

definition symbol_at :: "kconf \<Rightarrow> memusage \<Rightarrow> kstate \<Rightarrow> u64 \<Rightarrow> 16 word \<times> page_error list" where
  "symbol_at C mu k pa = (let is_reserved = reserved_physical_address pa;
       is_kernel = (\<not> is_reserved \<and> \<not> allocatable_physical_address C pa) in
     if maxpa \<le> pa then (if is_kernel then 75 OR 0x4000 else if is_reserved then 63 OR 0x4000 else 63 OR 0xF000, [])
     else (let v = marks mu ! pageno pa; pid = marked_pid v; used = (refcount k (pageno pa) \<noteq> 0) in
       if CONSOLE_ADDR \<le> pa \<and> pa < CONSOLE_ADDR + of_nat PAGESIZE then (67 OR 0x0700, [])
       else if is_reserved \<and> pid \<noteq> 0 then (82 OR 0x0C00, [ReservedMapped pid])
       else if is_reserved then (82 OR 0x0700, [])
       else if is_kernel \<and> pid \<noteq> 0 \<and> separate_tables mu then (75 OR 0xCD00, [KernelDataMapped pid])
       else if is_kernel then (75 OR 0x0D00, [])
       else if MEMSIZE_PHYSICAL \<le> pa then (32 OR 0x0700, [])
       else (let vx = v AND NOT f_nonidentity in
         if vx = 0 then (if used then 76 OR 0x0300 else 46 OR 0x0700, [])
         else if vx = f_kernel then (75 OR 0x0D00, [])
         else if vx = f_user then (46 OR 0x0700, [])
         else if v AND f_kernel \<noteq> 0 \<and> v AND f_user \<noteq> 0 \<and> separate_tables mu then (42 OR 0xF400, [KernelAllocatedMapped pid])
         else (let ch = push_bit 8 (colors ! (pid mod 5));
                   ch = (if v AND f_kernel \<noteq> 0 then 0x4000 OR (if ch = 0x0C00 then 0x0F00 else ch) else ch);
                   freed = (\<not> used \<and> v AND f_nonidentity \<noteq> 0);
                   ch = (if freed then ch OR 0xF000 else ch) in
           (if f_process pid OR f_kernel OR f_user OR f_nonidentity < v then 83 OR 0x0F00 else ch OR names ! pid,
            if freed then [FreedMapped pid] else [])))))"

section \<open>Drawing\<close>

definition sympos :: "nat \<Rightarrow> nat \<Rightarrow> nat" where "sympos initial_row pn = (initial_row + pn div 64) * 80 + (12 + pn mod 64)"

text \<open>Pages that the process can use have foreground and background exchanged.\<close>

definition user_colors :: "16 word \<Rightarrow> 16 word" where
  "user_colors ch = (if ch = 0x0F00 OR 83 then ch XOR 0xFE00
     else (let z = (ch AND 0x0F00) XOR drop_bit 4 (ch AND 0xF000) in ch XOR (z OR push_bit 4 z)))"

partial_function (option) virtual_loop :: "kconf \<Rightarrow> memusage \<Rightarrow> kstate \<Rightarrow> vmiter \<Rightarrow> ((nat \<times> 16 word) list \<times> page_error list) option" where
  "virtual_loop C mu k it = (if vva it < of_nat (768 * PAGESIZE) then do {
       let (ch, errs) = (if \<not> vm_present (mem k) it then (32, [])
         else (let (ch, errs) = symbol_at C mu k (vm_pa (mem k) it) in (if vm_user (mem k) it then user_colors ch else ch, errs)));
       it' \<leftarrow> vm_advance (mem k) it (of_nat PAGESIZE);
       (cells, errs') \<leftarrow> virtual_loop C mu k it';
       Some ((sympos 11 (pageno (vva it)), ch) # cells, errs @ errs') }
     else Some ([], []))"

definition console_memviewer_virtual :: "kconf \<Rightarrow> memusage \<Rightarrow> proc \<Rightarrow> kstate \<Rightarrow> ((nat \<times> 16 word) list \<times> page_error list) option" where
  "console_memviewer_virtual C mu vmp k = do {
     assert_ok (pagetable vmp \<noteq> 0);
     it \<leftarrow> vmiter_at (mem k) (pagetable vmp) 0;
     virtual_loop C mu k it }"

definition console_memviewer :: "kconf \<Rightarrow> memusage \<Rightarrow> proc option \<Rightarrow> kstate \<Rightarrow>
    ((nat \<times> 16 word) list \<times> page_error list \<times> memusage \<times> kstate) option" where
  "console_memviewer C mu vmp k = do {
     assert_ok (state (ptable k 0) = P_FREE);
     (mu, k) \<leftarrow> refresh C mu k;
     let phys = map (\<lambda>pn. (sympos 1 pn, symbol_at C mu k (page_addr pn))) [0 ..< 512];
     (cells, errs) \<leftarrow> (case vmp of Some p \<Rightarrow> console_memviewer_virtual C mu p k | None \<Rightarrow> Some ([], []));
     Some (map (\<lambda>(pos, ch, errs). (pos, ch)) phys @ cells, concat (map (\<lambda>(pos, ch, errs). errs) phys) @ errs, mu, k) }"

text \<open>\<open>memshow\<close> chooses the process whose address space is drawn: another one from time to time, passing over
  processes that are free. The result is the process, if there is one.\<close>

record shown =
  last_ticks :: "32 word"
  showing :: nat

fun search_process :: "nat \<Rightarrow> nat \<Rightarrow> kstate \<Rightarrow> proc option \<times> nat" where
  "search_process 0 s k = (None, s)"
| "search_process (Suc n) s k = (if state (ptable k s) \<noteq> P_FREE \<and> pagetable (ptable k s) \<noteq> 0 then (Some (ptable k s), s)
     else search_process n ((s + 1) mod PID_MAX) k)"

definition HZ :: u64 where "HZ = 100"

definition memshow :: "kconf \<Rightarrow> shown \<Rightarrow> memusage \<Rightarrow> kstate \<Rightarrow>
    (shown \<times> (nat \<times> 16 word) list \<times> page_error list \<times> memusage \<times> kstate) option" where
  "memshow C sh mu k = (let sh = (if last_ticks sh = 0 \<or> HZ div 2 \<le> ticks k - ucast (last_ticks sh)
        then \<lparr>last_ticks = ucast (ticks k), showing = (showing sh + 1) mod PID_MAX\<rparr> else sh);
     (p, s) = search_process PID_MAX (showing sh) k in
     map_option (Pair (sh\<lparr>showing := s\<rparr>)) (console_memviewer C mu p k))"

section \<open>The loops come to an end\<close>

text \<open>The iterator over tables goes on to greater addresses, or up.\<close>

definition further :: "nat \<Rightarrow> bool \<Rightarrow> ptiter \<Rightarrow> ptiter \<Rightarrow> bool" where
  "further stop skip it it' \<longleftrightarrow> (pt_done it' \<longrightarrow> pva it' = VA_NONCANONMAX + 1 \<and> plevel it' = 3)
     \<and> (unat (pva it) < unat (pva it') \<or> pva it' = pva it \<and> stop \<le> plevel it' \<and> (skip \<longrightarrow> plevel it < plevel it'))"

lemma next_after:
  assumes "unat (a :: u64) < 2 ^ 48" and "l \<le> 3"
  shows "unat a < unat ((a OR pageoffmask l) + 1)"
  unfolding next_entry [OF assms] using dividend_less_div_times [of "2 ^ (12 + l * 9)" "unat a"] by (simp add: add.commute)

lemma pt_down_loop_total:
  assumes "on_tables m r it" and "1 \<le> stop" and "stop \<le> plevel it"
  shows "\<exists>it'. pt_down_loop m stop skip it = Some it' \<and> further stop skip it it'"
  using assms
proof (induction "(2 ^ 48 - unat (pva it)) * 16 + (3 - stop) * 4 + plevel it" arbitrary: it stop skip rule: less_induct)
  case less
  define e where "e = m (fst (ppep it)) (snd (ppep it))"
  define va where "va = (pva it OR pageoffmask (plevel it)) + 1"
  note oo = less.prems(1) [unfolded on_tables_def]
  have fd: "faded m m r" by (simp add: faded_def)
  have nd: "\<not> pt_done it" using oo by (simp add: pt_done_def VA_NONCANONMAX_def word_less_nat_alt)
  note eq = pt_down_loop.simps [of m stop skip it, unfolded Let_def, folded e_def, folded va_def]
  show ?case
  proof (cases "is_table e \<and> \<not> skip")
    case down: True
    show ?thesis
    proof (cases "plevel it = stop")
      case True
      then show ?thesis using eq down nd by (simp add: is_table_def further_def)
    next
      case False
      define it1 where "it1 = it\<lparr>plevel := plevel it - 1, ppep := (pageno (e AND PTE_PAMASK), pageindex (pva it) (plevel it - 1))\<rparr>"
      have l: "3 - (plevel it - 1) = Suc (3 - plevel it)" "1 \<le> plevel it - 1" "stop \<le> plevel it - 1" using False less.prems oo by auto
      obtain perm where "table_at m r (pva it) (Suc (3 - plevel it)) = Some (pageno (e AND PTE_PAMASK), perm)"
        using on_tables_entry [OF less.prems(1) fd] down by (auto simp: e_def)
      then have o1: "on_tables m r it1" using oo l(1,2) by (simp add: on_tables_def it1_def)
      have "\<exists>it'. pt_down_loop m stop skip it1 = Some it' \<and> further stop skip it1 it'"
        by (rule less.hyps [OF _ o1 less.prems(2)]) (use l in \<open>simp_all add: it1_def\<close>)
      then show ?thesis using eq down False by (auto simp: is_table_def further_def it1_def)
    qed
  next
    case side: False
    show ?thesis
    proof (cases "(va XOR pva it) AND NOT (pageoffmask (plevel it + 1)) = 0")
      case True
      define it1 where "it1 = it\<lparr>ppep := (fst (ppep it), snd (ppep it) + 1), pva := va\<rparr>"
      have o1: "on_tables m r it1" unfolding it1_def by (rule on_tables_next [OF less.prems(1) va_def True])
      have lt: "unat (pva it) < unat va" "unat va < 2 ^ 48"
        using next_after [of "pva it" "plevel it"] oo o1 by (simp_all add: va_def on_tables_def it1_def)
      have "\<exists>it'. pt_down_loop m stop False it1 = Some it' \<and> further stop False it1 it'"
        by (rule less.hyps [OF _ o1 less.prems(2)]) (use lt less.prems(3) in \<open>simp_all add: it1_def\<close>)
      then show ?thesis using eq side True lt by (auto simp: is_table_def further_def it1_def)
    next
      case up: False
      show ?thesis
      proof (cases "plevel it = 3")
        case True
        then show ?thesis using eq side up oo
          by (auto simp: is_table_def further_def VA_NONCANONMAX_def)
      next
        case False
        define it1 where "it1 = it\<lparr>plevel := 3, ppep := (pageno (ppt it), pageindex (pva it) 3)\<rparr>"
        have o1: "on_tables m r it1" using oo by (simp add: on_tables_def it1_def)
        have "plevel it + 1 \<le> 3" using oo False by simp
        then have "\<exists>it'. pt_down_loop m (plevel it + 1) False it1 = Some it' \<and> further (plevel it + 1) False it1 it'"
          by (intro less.hyps [OF _ o1]) (use less.prems(2,3) in \<open>simp_all add: it1_def\<close>)
        then show ?thesis using eq side up False less.prems(3) by (auto simp: is_table_def further_def it1_def)
      qed
    qed
  qed
qed

definition pt_stand :: "pmem \<Rightarrow> nat \<Rightarrow> ptiter \<Rightarrow> bool" where
  "pt_stand m r it \<longleftrightarrow> at_table m m r it \<and> (pt_done it \<longrightarrow> pva it = VA_NONCANONMAX + 1 \<and> plevel it = 3)"

lemma pt_down_stand:
  assumes "on_tables m r it"
  shows "\<exists>it'. pt_down m skip it = Some it' \<and> pt_stand m r it' \<and> further 1 skip it it'"
proof -
  have s: "1 \<le> plevel it" using assms by (simp add: on_tables_def)
  obtain it' where it': "pt_down_loop m 1 skip it = Some it'" "further 1 skip it it'"
    using pt_down_loop_total [OF assms _ s] by auto
  have "at_table m m r it'" by (rule pt_down_loop_inv [OF it'(1) assms]) (use s in \<open>simp_all add: faded_def\<close>)
  then show ?thesis using it' by (auto simp: pt_down_def pt_stand_def further_def)
qed

lemma ptiter_at_stand: "\<exists>it. ptiter_at m pt = Some it \<and> pt_stand m (pageno pt) it"
proof -
  have "on_tables m (pageno pt) \<lparr>ppt = pt, ppep = (pageno pt, 0), plevel = 3, pva = 0\<rparr>"
    by (simp add: on_tables_def pageindex_def)
  from pt_down_stand [OF this] show ?thesis by (auto simp: ptiter_at_def)
qed

text \<open>What the iterator visits are tables.\<close>

lemma pt_stand_table:
  assumes "pt_stand m r it" and "\<not> pt_done it"
  shows "on_tables m r it" and "\<exists>t \<in> tables m r. pt_pa m it = page_addr t"
proof -
  show o: "on_tables m r it" using assms by (simp add: pt_stand_def at_table_def)
  have "is_table (m (fst (ppep it)) (snd (ppep it)))" using assms by (simp add: pt_stand_def at_table_def)
  then obtain perm where t: "table_at m r (pva it) (Suc (3 - plevel it)) = Some (pageno (pt_pa m it), perm)"
    using on_tables_entry [OF o] by (auto simp: pt_pa_def faded_def)
  have "Suc (3 - plevel it) \<le> 3" using o by (auto simp: on_tables_def)
  then have "pageno (pt_pa m it) \<in> tables m r" by (rule tablesI [OF t])
  moreover have "page_addr (pageno (pt_pa m it)) = pt_pa m it"
    by (rule page_addr_pageno) (simp add: pt_pa_def and.assoc)
  ultimately show "\<exists>t \<in> tables m r. pt_pa m it = page_addr t" by metis
qed

declare mark_ptables.simps [simp del] mark_pages.simps [simp del] virtual_loop.simps [simp del]

lemma mark_ptables_total:
  assumes "pt_stand m r it" and "Q v" and "\<And>t v. t \<in> tables m r \<Longrightarrow> Q v \<Longrightarrow> Q (mark (page_addr t) flags v)"
    and "\<And>it. pt_stand m r it \<Longrightarrow> go_on it \<Longrightarrow> \<not> pt_done it"
  shows "\<exists>v'. mark_ptables m go_on flags it v = Some v' \<and> Q v'"
  using assms(1,2)
proof (induction "(2 ^ 48 - unat (pva it)) * 4 + (3 - plevel it)" arbitrary: it v rule: less_induct)
  case less
  show ?case
  proof (cases "go_on it")
    case True
    note st = pt_stand_table [OF less.prems(1) assms(4) [OF less.prems(1) True]]
    obtain it1 where it1: "pt_next m it = Some it1" "pt_stand m r it1" "further 1 True it it1"
      using pt_down_stand [OF st(1)] by (auto simp: pt_next_def)
    have l: "unat (pva it) < 2 ^ 48" using st(1) by (simp add: on_tables_def)
    have l1: "plevel it1 \<le> 3" using it1(2,3) by (auto simp: pt_stand_def at_table_def on_tables_def)
    have "\<exists>v'. mark_ptables m go_on flags it1 (mark (pt_pa m it) flags v) = Some v' \<and> Q v'"
    proof (rule less.hyps [OF _ it1(2)])
      show "(2 ^ 48 - unat (pva it1)) * 4 + (3 - plevel it1) < (2 ^ 48 - unat (pva it)) * 4 + (3 - plevel it)"
        using it1(3) l l1 by (auto simp: further_def)
      show "Q (mark (pt_pa m it) flags v)" using st(2) assms(3) less.prems(2) by auto
    qed
    then show ?thesis using True it1(1) by (simp add: mark_ptables.simps [of m go_on flags it] Let_def)
  next
    case False
    then show ?thesis using less.prems(2) by (simp add: mark_ptables.simps [of m go_on flags it])
  qed
qed

lemma low_half_not_done: "pt_stand m r it \<Longrightarrow> pt_va it < VA_LOWEND \<Longrightarrow> \<not> pt_done it"
  by (auto simp: pt_stand_def pt_va_def VA_LOWEND_def VA_NONCANONMAX_def pageoffmask_def)

text \<open>The iterator over addresses moves on within the lower half, or to its end.\<close>

definition low_half :: "u64 \<Rightarrow> bool" where
  "low_half va \<longleftrightarrow> page_va va \<and> va < VA_LOWEND"

lemma lower_half: "low_half va \<longleftrightarrow> unat va < 2 ^ 47 \<and> unat va mod 4096 = 0"
  by (auto simp: low_half_def page_va_def va_is_canonical_def VA_LOWEND_def word_less_nat_alt word_le_nat_alt)

lemma range_end:
  assumes "low_half a" and "l \<le> 3"
  defines "b \<equiv> (a OR pageoffmask l) + 1"
  shows "unat a < unat b" and "low_half b \<or> b = VA_LOWEND"
proof -
  define n where "n = 12 + l * 9"
  have a: "unat a < 2 ^ 47" using assms(1) by (simp add: lower_half)
  have e: "unat b = (unat a div 2 ^ n + 1) * 2 ^ n"
    unfolding b_def n_def by (rule next_entry [OF _ assms(2)]) (use a in simp)
  show "unat a < unat b" unfolding b_def by (rule next_after [OF _ assms(2)]) (use a in simp)
  have n: "12 \<le> n" "n \<le> 39" using assms(2) by (simp_all add: n_def)
  have p: "(2 :: nat) ^ 47 = 2 ^ (47 - n) * 2 ^ n" using n by (simp flip: power_add)
  have p2: "(2 :: nat) ^ n = 2 ^ (n - 12) * 4096"
  proof -
    have "n = (n - 12) + 12" using n by simp
    then have "(2 :: nat) ^ n = 2 ^ (n - 12) * 2 ^ 12" by (metis power_add)
    then show ?thesis by simp
  qed
  have "unat a div 2 ^ n < 2 ^ (47 - n)" using a unfolding p by (simp add: div_less_iff_less_mult)
  then have le: "unat b \<le> 2 ^ 47" unfolding e p by (intro mult_le_mono1) simp
  have m: "unat b mod 4096 = 0" unfolding e p2 by simp
  show "low_half b \<or> b = VA_LOWEND"
  proof (cases "unat b = 2 ^ 47")
    case True
    then have "b = VA_LOWEND" by (simp add: VA_LOWEND_def word_unat_eq_iff)
    then show ?thesis ..
  next
    case False
    then show ?thesis using le m by (simp add: lower_half)
  qed
qed

lemma find_end:
  assumes "on_path m it" and "vva it < VA_LOWEND"
  shows "\<exists>it'. real_find m it VA_LOWEND = Some it' \<and> vva it' = VA_LOWEND"
proof -
  have "vlevel it = 3 \<or> (vva it XOR VA_LOWEND) AND NOT (pageoffmask (vlevel it + 1)) \<noteq> 0"
  proof (cases "vlevel it = 3")
    case False
    then have l: "vlevel it \<le> 2" using assms(1) by (simp add: on_path_def)
    have "unat (vva it) < 2 ^ 47" using assms(2) by (simp add: VA_LOWEND_def word_less_nat_alt)
    then have "\<not> bit (unat (vva it)) 47" by (simp add: bit_iff_odd)
    then have "\<not> bit (vva it) 47" by (simp add: bit_unsigned_iff)
    moreover have "bit VA_LOWEND 47"
    proof -
      have e: "VA_LOWEND = push_bit 47 1" by (simp add: VA_LOWEND_def push_bit_eq_mult)
      show ?thesis unfolding e bit_push_bit_iff bit_1_iff by simp
    qed
    ultimately have "bit ((vva it XOR VA_LOWEND) AND NOT (pageoffmask (vlevel it + 1))) 47"
      using l by (simp add: bit_and_iff bit_xor_iff bit_not_iff pageoffmask_mask bit_mask_iff)
    then show ?thesis by auto
  qed simp
  moreover have "\<not> va_is_canonical VA_LOWEND" by (simp add: va_is_canonical_def VA_LOWEND_def)
  ultimately have "real_find m it VA_LOWEND = down m (it\<lparr>vlevel := 3, vperm := 0, vpep := None, vva := VA_LOWEND\<rparr>)"
    by (simp add: real_find_def)
  then show ?thesis by (simp add: down_def numeral_3_eq_3 entry_def PTE_P_def)
qed

lemma range_move:
  assumes "stands m r va it" and "low_half va" and "low m r" and "small_pages m r" and "l \<le> 3"
  shows "\<exists>it'. real_find m it ((va OR pageoffmask l) + 1) = Some it' \<and> unat va < unat (vva it')
    \<and> vva it' = (va OR pageoffmask l) + 1 \<and> (vva it' < VA_LOWEND \<longrightarrow> stands m r (vva it') it' \<and> low_half (vva it'))"
proof -
  define b where "b = (va OR pageoffmask l) + 1"
  note st = standsD [OF assms(1)]
  have lt: "unat va < unat b" and b: "low_half b \<or> b = VA_LOWEND" using range_end [OF assms(2,5)] by (simp_all add: b_def)
  have "\<exists>it'. real_find m it b = Some it' \<and> vva it' = b \<and> (b < VA_LOWEND \<longrightarrow> stands m r b it')"
  proof (cases "b < VA_LOWEND")
    case True
    then have c: "va_is_canonical b" using b by (auto simp: low_half_def page_va_def)
    obtain it' where f: "vmiter_at m (vpt it) b = Some it'" using vmiter_at_total [OF _ c, of m "vpt it"] assms(3) st(4) by auto
    note w = vmiter_at_path [OF c f]
    have "settled m it'" by (rule settledI [OF w(1,4)]) (use assms(4) w(3) st(4) in simp)
    then show ?thesis using real_find_fresh [OF st(2) c] f w(2,3) st(4) by (simp add: stands_def)
  next
    case False
    then have "b = VA_LOWEND" using b by (auto simp: low_half_def)
    then show ?thesis using find_end [OF st(2)] assms(2) st(3) by (auto simp: low_half_def)
  qed
  then show ?thesis using lt b by (auto simp: b_def [symmetric] low_half_def)
qed

text \<open>The pages that the user can reach in an address space, with their addresses.\<close>

definition user_at :: "pmem \<Rightarrow> nat \<Rightarrow> u64 \<Rightarrow> nat \<Rightarrow> bool" where
  "user_at m r va n \<longleftrightarrow> low_half va \<and> (\<exists>perm. mapping m r va = Some (page_addr n, perm) \<and> is_user (Some (page_addr n, perm)))"

text \<open>Nothing is mapped between an address and the next one.\<close>

lemma skipped:
  assumes "stands m r va it" and "low_half va" and "low_half va'" and "unat va < unat va'"
    and "unat va' < unat ((va OR pageoffmask l) + 1)" and "l = 0 \<or> l = vlevel it"
  shows "mapping m r va' = None"
proof -
  note st = standsD [OF assms(1)]
  have l3: "l \<le> 3" using assms(6) st(2) by (auto simp: on_path_def)
  define n where "n = 12 + l * 9"
  define q where "q = unat va div 2 ^ n"
  have a: "unat va < 2 ^ 48" using assms(2) by (simp add: lower_half)
  have "unat va' < (q + 1) * 2 ^ n" using assms(5) unfolding next_entry [OF a l3] by (simp add: n_def q_def)
  then have "unat va' div 2 ^ n < q + 1" by (simp add: div_less_iff_less_mult)
  moreover have "q \<le> unat va' div 2 ^ n" unfolding q_def by (rule div_le_mono) (use assms(4) in simp)
  ultimately have q': "unat va' div 2 ^ n = q" by simp
  have "0 < l"
  proof (rule ccontr)
    assume "\<not> 0 < l"
    then have n: "(2 :: nat) ^ n = 4096" by (simp add: n_def)
    have "unat va = 4096 * (unat va div 4096)" "unat va' = 4096 * (unat va' div 4096)"
      using assms(2,3) by (auto simp: lower_half)
    then have "unat va = unat va'" using q' unfolding q_def n by metis
    then show False using assms(4) by simp
  qed
  then have lv: "l = vlevel it" "0 < vlevel it" using assms(6) by simp_all
  have e: "entry m it AND PTE_P = 0" using st(1) lv by (simp add: settled_def)
  obtain p where p: "vpep it = Some (p, pageindex va l)" "table_at m r va (3 - l) = Some (p, vperm it)"
    using st lv by (auto simp: on_path_def)
  have l: "3 - (3 - l) = l" "Suc (3 - l) \<le> 3" using l3 \<open>0 < l\<close> by simp_all
  have "pageindex va' l' = pageindex va l'" if "l \<le> l'" for l'
  proof -
    have ex: "12 + l' * 9 = n + (l' - l) * 9" using that by (simp add: n_def diff_mult_distrib)
    have "unat x div 2 ^ (12 + l' * 9) = unat x div 2 ^ n div 2 ^ ((l' - l) * 9)" for x :: u64
      unfolding ex by (simp add: power_add div_mult2_eq)
    then show ?thesis unfolding pageindex_div using q' q_def by simp
  qed
  then have "same_path (Suc (3 - l)) va' va" unfolding same_path_def using l3 by auto
  then have "table_at m r va' (Suc (3 - l)) = table_at m r va (Suc (3 - l))" by (rule table_at_same_path)
  also have "\<dots> = None" using p not_present_no_table [OF e] l(1) by (simp add: table_at.simps(2) entry_def Let_def)
  finally have "table_at m r va' 3 = None" by (rule table_at_down [OF _ l(2)])
  then show ?thesis by (simp add: mapping_def)
qed

lemma mark_pages_total:
  assumes "stands m r (vva it) it \<and> low_half (vva it) \<or> vva it = VA_LOWEND" and "low m r" and "small_pages m r"
    and "Q {a. a < vva it} v"
    and "\<And>va n v D. user_at m r va n \<Longrightarrow> Q D v \<Longrightarrow>
      Q (insert va D) (mark (page_addr n) (if va = page_addr n then f_user OR flag else f_user OR f_nonidentity OR flag) v)"
    and "\<And>D E v. Q D v \<Longrightarrow> (\<And>va n. va \<in> E \<Longrightarrow> va \<notin> D \<Longrightarrow> \<not> user_at m r va n) \<Longrightarrow> Q E v"
  shows "\<exists>v'. mark_pages m flag it v = Some v' \<and> Q {a. a < VA_LOWEND} v'"
  using assms(1,4)
proof (induction "2 ^ 64 - unat (vva it)" arbitrary: it v rule: less_induct)
  case less
  show ?case
  proof (cases "vva it < VA_LOWEND")
    case True
    then have st: "stands m r (vva it) it" and lh: "low_half (vva it)" using less.prems(1) by auto
    have pv: "page_va (vva it)" using lh by (simp add: low_half_def)
    have lv: "vlevel it \<le> 3" using standsD(2) [OF st] by (simp add: on_path_def)
    have small: "unat (w :: u64) < 2 ^ 64" for w using unsigned_less [of w] by simp
    have rest: "\<exists>v'. mark_pages m flag it1 w = Some v' \<and> Q {a. a < VA_LOWEND} v'"
      if "real_find m it ((vva it OR pageoffmask l) + 1) = Some it1" "l = 0 \<or> l = vlevel it" "Q D w"
        "{a. a < vva it} \<subseteq> D" "vva it \<notin> D \<longrightarrow> \<not> is_user (mapping m r (vva it))" for it1 w l D
    proof -
      have l: "l \<le> 3" using that(2) lv by auto
      have n: "unat (vva it) < unat (vva it1)" "vva it1 < VA_LOWEND \<longrightarrow> stands m r (vva it1) it1 \<and> low_half (vva it1)"
        "vva it1 = (vva it OR pageoffmask l) + 1"
        using range_move [OF st lh assms(2,3) l] that(1) by auto
      have "low_half (vva it1) \<or> vva it1 = VA_LOWEND" unfolding n(3) by (rule range_end [OF lh l])
      then have s1: "stands m r (vva it1) it1 \<and> low_half (vva it1) \<or> vva it1 = VA_LOWEND" using n(2) by (auto simp: low_half_def)
      have "Q {a. a < vva it1} w"
      proof (rule assms(6) [OF that(3)])
        fix va q
        assume a: "va \<in> {a. a < vva it1}" "va \<notin> D"
        show "\<not> user_at m r va q"
        proof
          assume u: "user_at m r va q"
          have "vva it \<le> va" using a(2) that(4) by (auto simp: not_less [symmetric])
          moreover have "va \<noteq> vva it" using u a(2) that(5) by (auto simp: user_at_def)
          ultimately have "unat (vva it) < unat va" by (simp add: word_le_nat_alt word_unat_eq_iff)
          moreover have "unat va < unat ((vva it OR pageoffmask l) + 1)" using a(1) n(3) by (simp add: word_less_nat_alt)
          ultimately have "mapping m r va = None" using u by (intro skipped [OF st lh _ _ _ that(2)]) (auto simp: user_at_def)
          then show False using u by (simp add: user_at_def)
        qed
      qed
      then show ?thesis by (intro less.hyps s1) (use n(1) small [of "vva it1"] in auto)
    qed
    show ?thesis
    proof (cases "vm_user m it")
      case us: True
      then have "is_user (mapping m r (vva it))" using stands_user(1) [OF st pv] by simp
      then obtain pa perm where mp: "mapping m r (vva it) = Some (pa, perm)" "is_user (Some (pa, perm))"
        by (auto simp: is_user_def split: option.splits)
      have pa: "vm_pa m it = pa" by (rule mapped_kptr(2) [OF st pv mp(1)])
      have "page_addr (pageno pa) = pa"
        by (rule page_addr_pageno) (use mp(1) in \<open>auto simp: mapping_def Let_def and.assoc split: option.splits if_splits\<close>)
      then obtain n where n: "pa = page_addr n" by metis
      define w where "w = mark pa (if vva it = pa then f_user OR flag else f_user OR f_nonidentity OR flag) v"
      have w: "Q (insert (vva it) {a. a < vva it}) w"
        unfolding w_def n by (rule assms(5) [OF _ less.prems(2)]) (use mp lh n in \<open>auto simp: user_at_def\<close>)
      define l where "l = (if 0 < vlevel it \<and> vm_perm m it = 0 then vlevel it else 0)"
      have l3: "l = 0 \<or> l = vlevel it" "l \<le> 3" using lv by (auto simp: l_def)
      obtain it1 where it1: "real_find m it ((vva it OR pageoffmask l) + 1) = Some it1"
        using range_move [OF st lh assms(2,3) l3(2)] by auto
      have nx: "vm_next m it = Some it1" using it1 by (simp add: vm_next_def l_def Let_def)
      have "mark_pages m flag it v = mark_pages m flag it1 w"
        using us True nx pa by (simp add: mark_pages.simps [of m flag it v] w_def Let_def)
      then show ?thesis using rest [OF it1 l3(1) w] by auto
    next
      case False
      obtain it1 where it1: "real_find m it ((vva it OR pageoffmask (vlevel it)) + 1) = Some it1"
        using range_move [OF st lh assms(2,3) lv] by auto
      then have "mark_pages m flag it v = mark_pages m flag it1 v"
        using False True by (simp add: mark_pages.simps [of m flag it v] vm_next_range_def vm_last_va_def)
      moreover have "\<not> is_user (mapping m r (vva it))" using False stands_user(1) [OF st pv] by simp
      ultimately show ?thesis using rest [OF it1 _ less.prems(2)] by auto
    qed
  next
    case False
    then have "vva it = VA_LOWEND" using less.prems(1) by (auto simp: low_half_def)
    then show ?thesis using less.prems(2) by (simp add: mark_pages.simps [of m flag it v])
  qed
qed

end
