(* ===== verification/KPicture.thy ===== *)
theory KPicture
  imports KView
begin

text \<open>
  The memory viewer tells the truth: in every state with the kernel's invariant \<open>refresh\<close> comes to an end with
  marks that say who uses a page, the symbols report no page table error, and the whole of \<open>memshow\<close>
  fails no assertion. The marks are complete for the pages that processes can use; for page tables only that no other
  page is marked as one.
\<close>

section \<open>The marks are right\<close>

lemma mark_length [simp]: "length (mark pa flags v) = length v"
  by (simp add: mark_def)

lemma bit_mark:
  assumes "length v = MAXPN" and "n < MAXPN"
  shows "bit (mark (page_addr t) flags v ! n) b \<longleftrightarrow> bit (v ! n) b \<or> page_addr n = page_addr t \<and> bit flags b"
proof -
  have n: "n < 1024" using assms(2) by (simp add: MAXPN_def)
  have un: "unat (page_addr n) = n * 4096" "pageno (page_addr n) = n" using unat_page_addr [of n] n by simp_all
  have mx: "unat maxpa = 1024 * 4096" by (simp add: maxpa_def MAXPN_def)
  show ?thesis
  proof (cases "page_addr n = page_addr t")
    case True
    then have "page_addr t < maxpa" using un(1) mx n by (simp add: word_less_nat_alt)
    then show ?thesis using True un(2) assms by (auto simp: mark_def bit_or_iff)
  next
    case False
    have "pageno (page_addr t) \<noteq> n \<or> \<not> page_addr t < maxpa"
    proof (rule ccontr)
      assume a: "\<not> ?thesis"
      have "unat (page_addr t) mod 4096 = 0"
      proof -
        have "unat (page_addr t) = t * 4096 mod 2 ^ 64" unfolding page_addr_def unat_of_nat by simp
        also have "\<dots> = (t mod 2 ^ 52) * 4096" using mult_mod_right [of 4096 t "2 ^ 52"] by (simp add: mult.commute)
        finally show ?thesis by simp
      qed
      then have "unat (page_addr t) = unat (page_addr t) div 4096 * 4096" by auto
      then have "unat (page_addr t) = n * 4096" using a by (simp add: pageno_def)
      then show False using un(1) False by (simp add: word_unat_eq_iff)
    qed
    then show ?thesis using False by (auto simp: mark_def)
  qed
qed

lemma mark_bits:
  "bit f_kernel b \<longleftrightarrow> b = 0" "bit f_user b \<longleftrightarrow> b = 1" "bit f_nonidentity b \<longleftrightarrow> b = 2"
  "0 < p \<Longrightarrow> p < PID_MAX \<Longrightarrow> bit (f_process p) b \<longleftrightarrow> b = p + 2"
proof -
  show "bit f_kernel b \<longleftrightarrow> b = 0" by (simp add: f_kernel_def bit_1_iff)
  have u: "f_user = push_bit 1 1" "f_nonidentity = push_bit 2 1" by (simp_all add: f_user_def f_nonidentity_def)
  show "bit f_user b \<longleftrightarrow> b = 1" "bit f_nonidentity b \<longleftrightarrow> b = 2" unfolding u bit_push_bit_iff bit_1_iff by auto
  assume p: "0 < p" "p < PID_MAX"
  have "push_bit p (4 :: 32 word) = push_bit (p + 2) 1" by (simp add: push_bit_eq_mult power_add mult.commute)
  then have "f_process p = push_bit (p + 2) 1" using p by (simp add: f_process_def)
  then show "bit (f_process p) b \<longleftrightarrow> b = p + 2" using p(2) by (simp only: bit_push_bit_iff bit_1_iff) auto
qed

text \<open>Which processes have page \<open>n\<close> among their tables, and which can use it.\<close>

definition table_of :: "kstate \<Rightarrow> nat \<Rightarrow> nat \<Rightarrow> bool" where
  "table_of k p n \<longleftrightarrow> live k p \<and> (\<exists>t \<in> tables (mem k) (root k p). page_addr n = page_addr t)"

definition user_of :: "kstate \<Rightarrow> nat \<Rightarrow> nat \<Rightarrow> bool" where
  "user_of k p n \<longleftrightarrow> live k p \<and> (\<exists>va. user_at (mem k) (root k p) va n)"

definition sound_mark :: "kstate \<Rightarrow> (nat \<Rightarrow> bool) \<Rightarrow> nat \<Rightarrow> 32 word \<Rightarrow> bool" where
  "sound_mark k K n w \<longleftrightarrow> (\<forall>b. bit w b \<longrightarrow> (if b = 0 then K n \<or> (\<exists>p. table_of k p n)
     else if b \<le> 2 then \<exists>p. user_of k p n else table_of k (b - 2) n \<or> user_of k (b - 2) n))"

definition full_mark :: "nat \<Rightarrow> 32 word \<Rightarrow> bool" where
  "full_mark p w \<longleftrightarrow> bit w 1 \<and> bit w (p + 2)"

definition marked :: "kstate \<Rightarrow> (nat \<Rightarrow> bool) \<Rightarrow> (nat \<times> u64) set \<Rightarrow> 32 word list \<Rightarrow> bool" where
  "marked k K D v \<longleftrightarrow> length v = MAXPN \<and> (\<forall>n < MAXPN. sound_mark k K n (v ! n)
     \<and> (\<forall>p va. (p, va) \<in> D \<longrightarrow> live k p \<longrightarrow> user_at (mem k) (root k p) va n \<longrightarrow> full_mark p (v ! n)))"

lemma marked_mark:
  assumes "marked k K D v" and "\<And>n. n < MAXPN \<Longrightarrow> page_addr n = page_addr t \<Longrightarrow> sound_mark k K n flags"
  shows "marked k K D (mark (page_addr t) flags v)"
proof -
  have l: "length v = MAXPN" using assms(1) by (simp add: marked_def)
  note b = bit_mark [OF l]
  have "sound_mark k K n (mark (page_addr t) flags v ! n)" if "n < MAXPN" for n
    using assms(1) assms(2) [OF that] that unfolding marked_def sound_mark_def b [OF that] by blast
  moreover have "full_mark p (mark (page_addr t) flags v ! n)" if "n < MAXPN" "full_mark p (v ! n)" for n p
    using that(2) unfolding full_mark_def b [OF that(1)] by blast
  ultimately show ?thesis using assms(1) unfolding marked_def by auto
qed

lemma marked_sub: "marked k K D v \<Longrightarrow> (\<And>p va n. (p, va) \<in> E \<Longrightarrow> (p, va) \<notin> D \<Longrightarrow> live k p \<Longrightarrow> \<not> user_at (mem k) (root k p) va n)
    \<Longrightarrow> marked k K E v"
  unfolding marked_def by blast

lemma marked_grow: "marked k K D v \<Longrightarrow> (\<And>p va n. (p, va) \<in> E \<Longrightarrow> (p, va) \<notin> D \<Longrightarrow> n < MAXPN \<Longrightarrow> user_at (mem k) (root k p) va n \<Longrightarrow> full_mark p (v ! n))
    \<Longrightarrow> marked k K E v"
  unfolding marked_def by blast

text \<open>What is marked for one process.\<close>

lemma mark_process:
  assumes "live k p" and "0 < p" and "owned k (root k p)" and "low (mem k) (root k p)" and "pagetable (ptable k p) = page_addr (root k p)"
    and "pageno (pagetable (ptable k p)) = root k p" and "marked k K D v"
  shows "\<exists>pit v1 it v2. ptiter_at (mem k) (pagetable (ptable k p)) = Some pit
    \<and> mark_ptables (mem k) (\<lambda>it. pt_va it < VA_LOWEND) (f_kernel OR f_process p) pit v = Some v1
    \<and> vmiter_at (mem k) (pagetable (ptable k p)) 0 = Some it
    \<and> mark_pages (mem k) (f_process p) it (mark (pagetable (ptable k p)) (f_kernel OR f_process p) v1) = Some v2
    \<and> marked k K (D \<union> {p} \<times> {va. va < VA_LOWEND}) v2"
proof -
  define r where "r = root k p"
  define m where "m = mem k"
  have pn: "p < PID_MAX" using assms(1) by (simp add: live_def)
  note fb = mark_bits(1-3) mark_bits(4) [OF assms(2) pn]
  have tm: "marked k K E (mark (page_addr t) (f_kernel OR f_process p) w)" if "marked k K E w" "t \<in> tables m r" for t w E
  proof (rule marked_mark [OF that(1)])
    fix n
    assume "page_addr n = page_addr t"
    then have "table_of k p n" using assms(1) that(2) by (auto simp: table_of_def m_def r_def)
    then show "sound_mark k K n (f_kernel OR f_process p)" using assms(2) by (auto simp: sound_mark_def bit_or_iff fb)
  qed
  obtain pit where pit: "ptiter_at m (page_addr r) = Some pit" "pt_stand m r pit"
    using ptiter_at_stand [of m "page_addr r"] assms(5,6) by (auto simp: r_def)
  have "\<exists>v1. mark_ptables m (\<lambda>it. pt_va it < VA_LOWEND) (f_kernel OR f_process p) pit v = Some v1 \<and> marked k K D v1"
    by (rule mark_ptables_total [where Q = "marked k K D", OF pit(2) assms(7)]) (use tm low_half_not_done in \<open>simp_all\<close>)
  then obtain v1 where v1: "mark_ptables m (\<lambda>it. pt_va it < VA_LOWEND) (f_kernel OR f_process p) pit v = Some v1" "marked k K D v1"
    by (elim exE conjE) (rule that)
  define v1' where "v1' = mark (page_addr r) (f_kernel OR f_process p) v1"
  have v1': "marked k K D v1'" unfolding v1'_def by (rule tm [OF v1(2) root_in_tables])
  have c: "va_is_canonical 0" by (simp add: va_is_canonical_def)
  have rr: "pageno (page_addr r) = r" using assms(5,6) by (simp add: r_def)
  obtain it where it: "vmiter_at m (page_addr r) 0 = Some it"
    using vmiter_at_total [OF _ c, of m "page_addr r"] assms(4) unfolding rr by (auto simp: m_def r_def)
  have st: "stands m r 0 it"
    using stands_at [of k "page_addr r" 0 it] assms(3) c it unfolding rr by (simp add: m_def r_def)
  have z: "vva it = 0" by (rule standsD(3) [OF st])
  have sp: "small_pages m r" using assms(3) by (simp add: owned_def m_def r_def)
  have "\<exists>v2. mark_pages m (f_process p) it v1' = Some v2 \<and> marked k K (D \<union> {p} \<times> {va. va < VA_LOWEND}) v2"
  proof (rule mark_pages_total [where Q = "\<lambda>A. marked k K (D \<union> {p} \<times> A)"])
    show "stands m r (vva it) it \<and> low_half (vva it) \<or> vva it = VA_LOWEND"
      using st unfolding z by (simp add: lower_half)
    show "low m r" "small_pages m r" using assms(4) sp by (simp_all add: m_def r_def)
    show "marked k K (D \<union> {p} \<times> {a. a < vva it}) v1'" using v1' by (simp add: z)
  next
    fix va n w A
    assume u: "user_at m r va n" and w: "marked k K (D \<union> {p} \<times> A) w"
    define fl where "fl = (if va = page_addr n then f_user OR f_process p else f_user OR f_nonidentity OR f_process p)"
    have un: "user_at m r va i = (page_addr i = page_addr n)" for i using u by (auto simp: user_at_def)
    have uo: "user_of k p i" if "page_addr i = page_addr n" for i
      using assms(1) un [of i] that by (auto simp: user_of_def m_def r_def)
    have fbits: "bit fl b \<Longrightarrow> b = 1 \<or> b = 2 \<or> b = p + 2" "bit fl 1" "bit fl (p + 2)" for b
      by (auto simp: fl_def bit_or_iff fb split: if_splits)
    have w1: "marked k K (D \<union> {p} \<times> A) (mark (page_addr n) fl w)"
    proof (rule marked_mark [OF w])
      fix i
      assume "page_addr i = page_addr n"
      then have us: "user_of k p i" by (rule uo)
      show "sound_mark k K i fl"
        unfolding sound_mark_def
      proof (intro allI impI)
        fix b
        assume "bit fl b"
        then consider "b = 1" | "b = 2" | "b = p + 2" using fbits(1) by blast
        then show "if b = 0 then K i \<or> (\<exists>p. table_of k p i) else if b \<le> 2 then \<exists>p. user_of k p i
            else table_of k (b - 2) i \<or> user_of k (b - 2) i"
          by cases (use us assms(2) in auto)
      qed
    qed
    have l: "length w = MAXPN" using w by (simp add: marked_def)
    have fm: "full_mark p (mark (page_addr n) fl w ! i)" if "i < MAXPN" "page_addr i = page_addr n" for i
      using that(2) fbits(2,3) unfolding full_mark_def bit_mark [OF l that(1)] by blast
    show "marked k K (D \<union> {p} \<times> insert va A) (mark (page_addr n) fl w)"
      by (rule marked_grow [OF w1]) (use un fm in \<open>auto simp: m_def r_def\<close>)
  next
    fix A B w
    assume w: "marked k K (D \<union> {p} \<times> A) w" and no: "\<And>va n. va \<in> B \<Longrightarrow> va \<notin> A \<Longrightarrow> \<not> user_at m r va n"
    show "marked k K (D \<union> {p} \<times> B) w" by (rule marked_sub [OF w]) (use no in \<open>auto simp: m_def r_def\<close>)
  qed
  then show ?thesis using pit(1) v1(1) it unfolding v1'_def by (auto simp: assms(5) m_def [symmetric] r_def [symmetric])
qed

section \<open>Refreshing\<close>

text \<open>What the viewer relies on: the kernel's own tables are in the kernel's memory, and no entry of a table points
  above 4 GB (the iterator checks it).\<close>

definition viewer_ready :: "pmem \<Rightarrow> kconf \<Rightarrow> kstate \<Rightarrow> bool" where
  "viewer_ready M C k \<longleftrightarrow> kernel_pagetable C = page_addr (kroot C)
     \<and> (\<forall>t \<in> tables M (kroot C). t < NPAGES \<and> \<not> user_page C t \<and> t \<noteq> pageno CONSOLE_ADDR) \<and> (\<forall>r \<in> roots k. low (mem k) r)"

text \<open>The page of the marks: it will be allocated, or nobody else uses it.\<close>

definition viewer_page :: "kconf \<Rightarrow> kstate \<Rightarrow> u64 \<Rightarrow> bool" where
  "viewer_page C k pa \<longleftrightarrow> (if pa = 0 then 0 < free_count C k else \<exists>q. pa = page_addr q \<and> spare C (roots k) k q)"

lemma live_facts:
  assumes "tabled M C k" and "viewer_ready M C k" and "live k p"
  shows "0 < p" and "owned k (root k p)" and "low (mem k) (root k p)" and "pagetable (ptable k p) = page_addr (root k p)"
    and "pageno (pagetable (ptable k p)) = root k p" and "pagetable (ptable k p) \<noteq> 0" and "pagetable (ptable k p) \<noteq> kernel_pagetable C"
    and "root k p \<in> roots k" and "state (ptable k p) \<noteq> P_FREE"
proof -
  show r: "root k p \<in> roots k" using assms(3) by (simp add: roots_def)
  have s: "spaces M C (roots k) {} k" and ok: "procs_ok k" using assms(1) by (simp_all add: tabled_def)
  note u = spaces_table(2) [OF s r root_in_tables]
  have n: "root k p < NPAGES" "root k p \<noteq> 0" using user_page_less [OF u] user_page_pos [OF u] by simp_all
  show st: "state (ptable k p) \<noteq> P_FREE" using assms(3) by (simp add: live_def)
  show "0 < p" using st ok by (cases p) (simp_all add: procs_ok_def)
  show "owned k (root k p)" by (rule spacesD(1) [OF s r])
  show "low (mem k) (root k p)" using assms(2) r by (simp add: viewer_ready_def)
  show pt: "pagetable (ptable k p) = page_addr (root k p)" using ok assms(3) by (simp add: procs_ok_def)
  show "pageno (pagetable (ptable k p)) = root k p" "pagetable (ptable k p) \<noteq> 0" using n by (simp_all add: pt)
  have "root k p \<noteq> kroot C" using u assms(2) root_in_tables [of "kroot C" M] by (auto simp: viewer_ready_def)
  moreover have "kroot C = pageno (kernel_pagetable C)" by (simp add: kroot_def)
  moreover have "pageno (page_addr (root k p)) = root k p" using n(1) by simp
  ultimately show "pagetable (ptable k p) \<noteq> kernel_pagetable C" unfolding pt by metis
qed

lemma mark_processes_total:
  assumes "tabled M C k" and "viewer_ready M C k" and "set ns \<subseteq> {1 ..< PID_MAX}" and "marked k K D v"
  shows "\<exists>v'. mark_processes C k ns sep v = Some (sep \<or> (\<exists>p \<in> set ns. live k p), v')
    \<and> marked k K (D \<union> set ns \<times> {va. va < VA_LOWEND}) v'"
  using assms(3,4)
proof (induction ns arbitrary: sep v D)
  case (Cons n ns)
  have n: "n < PID_MAX" using Cons.prems(1) by simp
  show ?case
  proof (cases "live k n")
    case True
    note f = live_facts [OF assms(1,2) True]
    obtain pit v1 it v2 where b: "ptiter_at (mem k) (pagetable (ptable k n)) = Some pit"
      "mark_ptables (mem k) (\<lambda>it. pt_va it < VA_LOWEND) (f_kernel OR f_process n) pit v = Some v1"
      "vmiter_at (mem k) (pagetable (ptable k n)) 0 = Some it"
      "mark_pages (mem k) (f_process n) it (mark (pagetable (ptable k n)) (f_kernel OR f_process n) v1) = Some v2"
      "marked k K (D \<union> {n} \<times> {va. va < VA_LOWEND}) v2"
      using mark_process [OF True f(1-5) Cons.prems(2)] by (elim exE conjE) (rule that)
    have "mark_processes C k (n # ns) sep v = mark_processes C k ns True v2"
      using f(6,7,9) b by (simp add: Let_def)
    moreover obtain v3 where "mark_processes C k ns True v2 = Some (True \<or> (\<exists>p \<in> set ns. live k p), v3)"
      "marked k K (D \<union> {n} \<times> {va. va < VA_LOWEND} \<union> set ns \<times> {va. va < VA_LOWEND}) v3"
      using Cons.IH [of "D \<union> {n} \<times> {va. va < VA_LOWEND}" v2 True] Cons.prems(1) b(5) by auto
    moreover have "D \<union> {n} \<times> {va. va < VA_LOWEND} \<union> set ns \<times> {va. va < VA_LOWEND} = D \<union> set (n # ns) \<times> {va. va < VA_LOWEND}" by auto
    ultimately show ?thesis using True by simp
  next
    case False
    then have "state (ptable k n) = P_FREE" using n by (simp add: live_def)
    then have e: "mark_processes C k (n # ns) sep v = mark_processes C k ns sep v" by (simp add: Let_def)
    obtain v3 where v3: "mark_processes C k ns sep v = Some (sep \<or> (\<exists>p \<in> set ns. live k p), v3)"
      "marked k K (D \<union> set ns \<times> {va. va < VA_LOWEND}) v3" using Cons.IH [of D v sep] Cons.prems by auto
    have "marked k K (D \<union> set (n # ns) \<times> {va. va < VA_LOWEND}) v3"
      by (rule marked_sub [OF v3(2)]) (use False in auto)
    then show ?thesis using v3(1) False unfolding e by simp
  qed
qed simp

text \<open>The pages that only the kernel uses.\<close>

definition kernel_page :: "kconf \<Rightarrow> kstate \<Rightarrow> nat \<Rightarrow> nat \<Rightarrow> bool" where
  "kernel_page C k q n \<longleftrightarrow> page_addr n = page_addr q \<or> (\<exists>t \<in> tables (mem k) (kroot C). page_addr n = page_addr t)"

text \<open>After \<open>refresh\<close>: the state of the processes is as before, and the marks are right.\<close>

definition viewed :: "pmem \<Rightarrow> kconf \<Rightarrow> memusage \<Rightarrow> kstate \<Rightarrow> bool" where
  "viewed M C mu k \<longleftrightarrow> kernel_inv M C k \<and> viewer_ready M C k \<and> separate_tables mu \<and> (\<exists>q. mv_page mu = page_addr q \<and> spare C (roots k) k q
     \<and> marked k (kernel_page C k q) (UNIV \<times> {va. va < VA_LOWEND}) (marks mu))"

lemma refresh_marks:
  assumes "kernel_inv M C k" and "viewer_ready M C k" and "spare C (roots k) k q" and "mv_page mu = page_addr q"
  shows "\<exists>mu'. refresh C mu k = Some (mu', k) \<and> viewed M C mu' k"
proof -
  note i = kernel_invD [OF assms(1)]
  have qn: "user_page C q" using assms(3) by (simp add: loose_def)
  have q: "page_addr q \<noteq> 0" using user_page_less [OF qn] user_page_pos [OF qn] by simp
  have kp: "kernel_pagetable C = page_addr (kroot C)" "pageno (kernel_pagetable C) = kroot C"
    using assms(2) by (simp_all add: viewer_ready_def kroot_def)
  define K where "K = kernel_page C k q"
  have km: "marked k K {} (mark (page_addr t) f_kernel v)"
    if "marked k K {} v" "t = q \<or> t \<in> tables (mem k) (kroot C)" for t v
  proof (rule marked_mark [OF that(1)])
    fix n
    assume "page_addr n = page_addr t"
    then have "K n" using that(2) by (auto simp: K_def kernel_page_def)
    then show "sound_mark k K n f_kernel" by (simp add: sound_mark_def mark_bits(1))
  qed
  obtain it where it: "ptiter_at (mem k) (kernel_pagetable C) = Some it" "pt_stand (mem k) (kroot C) it"
    using ptiter_at_stand [of "mem k" "kernel_pagetable C"] unfolding kp(2) by blast
  have "marked k K {} (replicate MAXPN 0)" by (simp add: marked_def sound_mark_def)
  then have "\<exists>v. mark_ptables (mem k) (\<lambda>it. \<not> pt_done it) f_kernel it (replicate MAXPN 0) = Some v \<and> marked k K {} v"
    by (intro mark_ptables_total [where Q = "marked k K {}", OF it(2)]) (use km in simp_all)
  then obtain v where v: "mark_ptables (mem k) (\<lambda>it. \<not> pt_done it) f_kernel it (replicate MAXPN 0) = Some v" "marked k K {} v" by blast
  define v1 where "v1 = mark (page_addr q) f_kernel (mark (kernel_pagetable C) f_kernel v)"
  have v1: "marked k K {} v1" unfolding v1_def kp(1) by (intro km v(2)) simp_all
  obtain v2 where v2: "mark_processes C k [1 ..< PID_MAX] False v1 = Some (\<exists>p \<in> {1 ..< PID_MAX}. live k p, v2)"
    "marked k K ({1 ..< PID_MAX} \<times> {va. va < VA_LOWEND}) v2"
    using mark_processes_total [OF i(1) assms(2) _ v1, of "[1 ..< PID_MAX]" False] by auto
  have "0 < current k" by (rule live_facts(1) [OF i(1) assms(2) i(4)])
  then have s: "\<exists>p \<in> {1 ..< PID_MAX}. live k p" using i(2,4) by (intro bexI [of _ "current k"]) simp_all
  have m: "marked k K (UNIV \<times> {va. va < VA_LOWEND}) v2"
  proof (rule marked_sub [OF v2(2)])
    fix p va n
    assume "(p, va) \<in> UNIV \<times> {va. va < VA_LOWEND}" "(p, va) \<notin> {1 ..< PID_MAX} \<times> {va. va < VA_LOWEND}" "live k p"
    then show "\<not> user_at (mem k) (root k p) va n" using live_facts(1) [OF i(1) assms(2), of p] by (auto simp: live_def)
  qed
  define mu' where "mu' = \<lparr>mv_page = page_addr q, marks = v2, separate_tables = True\<rparr>"
  have "refresh C mu k = Some (mu', k)"
    using it(1) v(1) v2(1) [unfolded v1_def] s q by (simp add: refresh_def assms(4) assert_ok_def mu'_def)
  moreover have "viewed M C mu' k" using assms(1-3) m by (auto simp: viewed_def mu'_def K_def)
  ultimately show ?thesis by blast
qed

lemma take_page_ready:
  assumes "kernel_inv M C k" and "viewer_ready M C k" and "free_page C k q"
  shows "kernel_inv M C (take_page q k)" and "viewer_ready M C (take_page q k)"
    and "spare C (roots (take_page q k)) (take_page q k) q" and "roots (take_page q k) = roots k"
proof -
  note sp = spaces_kalloc [OF kernel_invD(6) [OF assms(1)] assms(3)]
  have sl: "same_slots k (take_page q k)" by (simp add: same_slots_def take_page_def)
  show r: "roots (take_page q k) = roots k" by (rule same_slotsD [OF sl])
  show "kernel_inv M C (take_page q k)" by (rule kernel_inv_same [OF assms(1) sl _ sp(1)]) (simp add: take_page_def)
  have "low (mem (take_page q k)) s" if "s \<in> roots k" for s
  proof -
    have "mem (take_page q k) t = mem k t" if "t \<in> tables (mem k) s" for t
      using spaces_table(1) [OF kernel_invD(6) [OF assms(1)] \<open>s \<in> roots k\<close> that] assms(3) by (auto simp: take_page_def free_page_def)
    then show ?thesis using low_outside [of "mem k" s "mem (take_page q k)"] assms(2) that by (simp add: viewer_ready_def)
  qed
  then show "viewer_ready M C (take_page q k)" using assms(2) by (simp add: viewer_ready_def r)
  show "spare C (roots (take_page q k)) (take_page q k) q" unfolding r by (rule sp(2))
qed

lemma refresh_total:
  assumes "kernel_inv M C k" and "viewer_ready M C k" and "viewer_page C k (mv_page mu)"
  shows "\<exists>mu' k'. refresh C mu k = Some (mu', k') \<and> viewed M C mu' k' \<and> ptable k' = ptable k"
proof (cases "mv_page mu = 0")
  case True
  then obtain q where q: "free_page C k q" "q \<noteq> 0" "kalloc C PAGESIZE k = (page_addr q, take_page q k)"
    using assms(3) kalloc_succeeds [of C k] by (auto simp: viewer_page_def)
  note t = take_page_ready [OF assms(1,2) q(1)]
  obtain mu' where r: "refresh C (mu\<lparr>mv_page := page_addr q\<rparr>) (take_page q k) = Some (mu', take_page q k)" "viewed M C mu' (take_page q k)"
    using refresh_marks [OF t(1-3)] by force
  have "page_addr q \<noteq> 0" using q(1,2) by (simp add: free_page_def)
  then have "refresh C mu k = refresh C (mu\<lparr>mv_page := page_addr q\<rparr>) (take_page q k)"
    using True q(3) by (simp add: refresh_def)
  then show ?thesis using r by (simp add: take_page_def)
next
  case False
  then obtain q where "mv_page mu = page_addr q" "spare C (roots k) k q" using assms(3) by (auto simp: viewer_page_def)
  then obtain mu' where "refresh C mu k = Some (mu', k)" "viewed M C mu' k" using refresh_marks [OF assms(1,2)] by blast
  then show ?thesis by blast
qed

section \<open>What is drawn\<close>

lemma and_flag: "w AND f_kernel \<noteq> 0 \<longleftrightarrow> bit w 0" "w AND f_user \<noteq> 0 \<longleftrightarrow> bit w 1" "w AND f_nonidentity \<noteq> 0 \<longleftrightarrow> bit w 2"
proof -
  have e: "w AND f \<noteq> 0 \<longleftrightarrow> bit w i" if "\<And>b. bit f b \<longleftrightarrow> b = i" for f :: "32 word" and i
  proof
    assume "w AND f \<noteq> 0"
    then obtain b where "bit (w AND f) b" using bit_eq_iff [of "w AND f" 0] by auto
    then show "bit w i" unfolding bit_and_iff that by blast
  next
    assume "bit w i"
    then have "bit (w AND f) i" unfolding bit_and_iff that by simp
    then show "w AND f \<noteq> 0" by auto
  qed
  show "w AND f_kernel \<noteq> 0 \<longleftrightarrow> bit w 0" "w AND f_user \<noteq> 0 \<longleftrightarrow> bit w 1" "w AND f_nonidentity \<noteq> 0 \<longleftrightarrow> bit w 2"
    by (rule e, rule mark_bits)+
qed

lemma marked_pid_bits:
  assumes "marked_pid v \<noteq> 0"
  shows "bit v (marked_pid v + 2)" and "0 < j \<Longrightarrow> j < marked_pid v \<Longrightarrow> \<not> bit v (j + 2)"
proof -
  define x where "x = drop_bit 3 v"
  have l: "marked_pid v = lsb x" by (simp add: marked_pid_def x_def)
  have "x \<noteq> 0" using assms by (auto simp: l lsb_def builtin_ffs_def)
  note b = lsb_least [OF this]
  have "bit x (lsb x - 1) \<longleftrightarrow> bit v (lsb x + 2)" using b(1) by (simp add: x_def bit_drop_bit_eq)
  then show "bit v (marked_pid v + 2)" using b(2) by (simp add: l)
  assume j: "0 < j" "j < marked_pid v"
  then have "\<not> bit x (j - 1)" by (intro b(3)) (simp add: l)
  moreover have "3 + (j - 1) = j + 2" using j(1) by simp
  ultimately show "\<not> bit v (j + 2)" by (simp add: x_def bit_drop_bit_eq)
qed

lemma marked_pid_none: "marked_pid v = 0 \<Longrightarrow> 3 \<le> b \<Longrightarrow> \<not> bit v b"
proof -
  assume a: "marked_pid v = 0" "3 \<le> b"
  have "drop_bit 3 v = 0"
  proof (rule ccontr)
    assume "drop_bit 3 v \<noteq> 0"
    then have "0 < lsb (drop_bit 3 v)" by (rule lsb_least(1))
    then show False using a(1) by (simp add: marked_pid_def)
  qed
  then have "\<not> bit (drop_bit 3 v) (b - 3)" by simp
  then show ?thesis using a(2) by (simp add: bit_drop_bit_eq)
qed

text \<open>The pages of processes.\<close>

lemma numbered: "n < MAXPN \<Longrightarrow> m < NPAGES \<Longrightarrow> page_addr n = page_addr m \<longleftrightarrow> n = m"
  using page_order(2) [of n m] by (simp add: MAXPN_def)

lemma table_of_page:
  assumes "tabled M C k" and "table_of k p n" and "n < MAXPN"
  shows "user_page C n" and "refcount k n = 1" and "n \<in> tables (mem k) (root k p)" and "root k p \<in> roots k"
proof -
  show r: "root k p \<in> roots k" using assms(2) by (auto simp: table_of_def roots_def)
  obtain t where t: "t \<in> tables (mem k) (root k p)" "page_addr n = page_addr t" using assms(2) by (auto simp: table_of_def)
  have s: "spaces M C (roots k) {} k" using assms(1) by (simp add: tabled_def)
  note u = spaces_table [OF s r t(1)]
  have "n = t" using numbered [OF assms(3) user_page_less [OF u(2)]] t(2) by simp
  then show "user_page C n" "refcount k n = 1" "n \<in> tables (mem k) (root k p)" using u t(1) by simp_all
qed

lemma user_of_page:
  assumes "tabled M C k" and "user_of k p n" and "n < MAXPN" and "page_addr n \<noteq> CONSOLE_ADDR"
  shows "user_page C n" and "refcount k n \<noteq> 0" and "\<not> table_of k p' n" and "\<exists>va perm. maps_in k (root k p) va n perm"
    and "root k p \<in> roots k"
proof -
  show r: "root k p \<in> roots k" using assms(2) by (auto simp: user_of_def roots_def)
  have s: "space_inv C (roots k) {} (tables (mem k)) (mapping (mem k)) (refcount k)" using assms(1) by (simp add: tabled_def spaces_def)
  obtain va perm where v: "page_va va" "mapping (mem k) (root k p) va = Some (page_addr n, perm)" "perm AND PTE_U \<noteq> 0"
    using assms(2) by (auto simp: user_of_def user_at_def low_half_def is_user_def user_bits)
  have "PROC_START_ADDR \<le> va" using space_invD(6) [OF s r v(1) _ v(2,3)] assms(4) by (auto simp: not_le [symmetric])
  then obtain m where m: "page_addr n = page_addr m" "user_page C m" using space_invD(7) [OF s r v(1) _ v(2)] by blast
  then have nm: "n = m" using numbered [OF assms(3)] user_page_less by blast
  then have mp: "maps_in k (root k p) va n perm" using v m(2) user_page_less \<open>PROC_START_ADDR \<le> va\<close> by (simp add: maps_def)
  then show "\<exists>va perm. maps_in k (root k p) va n perm" by blast
  show "user_page C n" using m(2) nm by simp
  show "refcount k n \<noteq> 0" using held_page [OF s r mp] by auto
  show "\<not> table_of k p' n" using maps_page(2) [OF s r mp] table_of_page [OF assms(1) _ assms(3)] by blast
qed

text \<open>A page that only the kernel uses is not a page of a process.\<close>

lemma kernel_page_kind:
  assumes "kernel_inv M C k" and "viewer_ready M C k" and "spare C (roots k) k q" and "kernel_page C k q n" and "n < MAXPN"
  shows "n = q \<or> \<not> user_page C n"
proof -
  have "mem k t = M t" if "t \<in> tables M (kroot C)" for t
    using assms(2) that spacesD(3) [OF kernel_invD(6) [OF assms(1)]] by (auto simp: viewer_ready_def intact_def)
  then have tb: "tables (mem k) (kroot C) = tables M (kroot C)" by (rule outside(1))
  have q: "user_page C q" using assms(3) by (simp add: loose_def)
  then show ?thesis
    using assms(4) tb numbered [OF assms(5)] user_page_less [OF q] assms(2) by (auto simp: kernel_page_def viewer_ready_def)
qed

lemma kernel_page_alone:
  assumes "kernel_inv M C k" and "viewer_ready M C k" and "spare C (roots k) k q" and "kernel_page C k q n" and "n < MAXPN"
    and "page_addr n \<noteq> CONSOLE_ADDR"
  shows "\<not> user_of k p n" and "\<not> table_of k p n"
proof -
  note t = kernel_invD(1) [OF assms(1)]
  consider "n = q" | "\<not> user_page C n" using kernel_page_kind [OF assms(1-5)] by blast
  then have "\<not> user_of k p n \<and> \<not> table_of k p n"
  proof cases
    case 1
    then have "\<not> maps_in k r va n perm \<and> n \<notin> tables (mem k) r" if "r \<in> roots k" for r va perm
      using assms(3) that by (auto simp: loose_def)
    then show ?thesis using user_of_page(4,5) [OF t _ assms(5,6), of p] table_of_page(3,4) [OF t _ assms(5), of p] by blast
  next
    case 2
    then show ?thesis using user_of_page(1) [OF t _ assms(5,6)] table_of_page(1) [OF t _ assms(5)] by blast
  qed
  then show "\<not> user_of k p n" "\<not> table_of k p n" by simp_all
qed

text \<open>The marks of a page that is not the console's.\<close>

lemma viewed_marks:
  assumes "viewed M C mu k" and "n < MAXPN" and "page_addr n \<noteq> CONSOLE_ADDR"
  defines "v \<equiv> marks mu ! n"
  shows "bit v 1 \<longleftrightarrow> (\<exists>p. user_of k p n)" and "0 < p \<Longrightarrow> bit v (p + 2) \<Longrightarrow> table_of k p n \<or> user_of k p n" and "user_of k p n \<Longrightarrow> bit v (p + 2)"
    and "bit v 2 \<Longrightarrow> \<exists>p. user_of k p n" and "bit v 0 \<Longrightarrow> \<not> user_of k p n"
    and "bit v 0 \<Longrightarrow> user_page C n \<Longrightarrow> mv_page mu = page_addr n \<or> (\<exists>p. table_of k p n)"
proof -
  obtain q where i: "kernel_inv M C k" "viewer_ready M C k" and q: "spare C (roots k) k q" "mv_page mu = page_addr q"
    and m: "marked k (kernel_page C k q) (UNIV \<times> {va. va < VA_LOWEND}) (marks mu)" using assms(1) by (auto simp: viewed_def)
  note t = kernel_invD(1) [OF i(1)]
  have s: "sound_mark k (kernel_page C k q) n v" using m assms(2) by (simp add: marked_def v_def)
  have f: "full_mark p v" if "user_of k p n" for p
  proof -
    obtain va where va: "live k p" "user_at (mem k) (root k p) va n" using \<open>user_of k p n\<close> by (auto simp: user_of_def)
    then have "va < VA_LOWEND" by (simp add: user_at_def low_half_def)
    then show ?thesis using m va assms(2) by (auto simp: marked_def v_def)
  qed
  show "bit v 1 \<longleftrightarrow> (\<exists>p. user_of k p n)" using f s by (auto simp: full_mark_def sound_mark_def split: if_splits)
  show "user_of k p n \<Longrightarrow> bit v (p + 2)" using f by (simp add: full_mark_def)
  show "bit v 2 \<Longrightarrow> \<exists>p. user_of k p n" using s by (auto simp: sound_mark_def split: if_splits)
  show "table_of k p n \<or> user_of k p n" if "0 < p" "bit v (p + 2)"
    using s that unfolding sound_mark_def by (auto dest: spec [of _ "p + 2"])
  show "mv_page mu = page_addr n \<or> (\<exists>p. table_of k p n)" if "bit v 0" "user_page C n"
  proof -
    have "kernel_page C k q n \<or> (\<exists>p. table_of k p n)" using s that by (auto simp: sound_mark_def split: if_splits)
    moreover have "n = q" if "kernel_page C k q n" using kernel_page_kind [OF i q(1) that assms(2)] \<open>user_page C n\<close> by blast
    ultimately show ?thesis using q(2) by blast
  qed
  show "\<not> user_of k p n" if "bit v 0"
  proof -
    have "kernel_page C k q n \<or> (\<exists>p. table_of k p n)" using s that by (auto simp: sound_mark_def split: if_splits)
    then show ?thesis using kernel_page_alone(1) [OF i q(1) _ assms(2,3)] user_of_page(3) [OF t _ assms(2,3)] by blast
  qed
qed

lemma page_of_console: "n < MAXPN \<Longrightarrow> CONSOLE_ADDR \<le> page_addr n \<and> page_addr n < CONSOLE_ADDR + of_nat PAGESIZE \<longleftrightarrow> page_addr n = CONSOLE_ADDR"
proof -
  assume n: "n < MAXPN"
  have u: "unat (page_addr n) = n * 4096" by (rule low_page_addr) (use n in \<open>simp add: MAXPN_def\<close>)
  show ?thesis by (auto simp: word_le_nat_alt word_less_nat_alt word_unat_eq_iff u CONSOLE_ADDR_def)
qed

lemma user_page_kind:
  assumes "user_page C n"
  shows "\<not> reserved_physical_address (page_addr n)" and "allocatable_physical_address C (page_addr n)"
    and "page_addr n < MEMSIZE_PHYSICAL" and "page_addr n < maxpa" and "page_addr n \<noteq> CONSOLE_ADDR" and "pageno (page_addr n) = n"
    and "n < MAXPN"
proof -
  show a: "allocatable_physical_address C (page_addr n)" using assms by (simp add: user_page_def)
  then show "\<not> reserved_physical_address (page_addr n)" "page_addr n < MEMSIZE_PHYSICAL" by (simp_all add: allocatable_physical_address_def)
  then show "page_addr n < maxpa" by (simp add: maxpa_def MAXPN_def MEMSIZE_PHYSICAL_def word_less_nat_alt)
  show "page_addr n \<noteq> CONSOLE_ADDR" by (rule console_not_user [OF assms])
  show "pageno (page_addr n) = n" "n < MAXPN" using user_page_less [OF assms] by (simp_all add: MAXPN_def)
qed

lemma symbol_quiet:
  assumes "viewed M C mu k" and "page_addr (pageno pa) = pa"
  shows "snd (symbol_at C mu k pa) = []"
proof (cases "maxpa \<le> pa \<or> pa = CONSOLE_ADDR")
  case True
  then show ?thesis
    by (auto simp: symbol_at_def Let_def CONSOLE_ADDR_def maxpa_def MAXPN_def)
next
  case False
  define n where "n = pageno pa"
  have pn: "pa = page_addr n" using assms(2) by (simp add: n_def)
  have n: "n < MAXPN" using False by (auto simp: n_def pageno_def maxpa_def MAXPN_def word_le_nat_alt)
  have c: "page_addr n \<noteq> CONSOLE_ADDR" using False pn by simp
  define v where "v = marks mu ! n"
  note w = viewed_marks [OF assms(1) n c, folded v_def]
  have t: "tabled M C k" using assms(1) kernel_invD(1) by (auto simp: viewed_def)
  have pid: "user_page C n" if "marked_pid v \<noteq> 0"
    using w(2) [of "marked_pid v"] marked_pid_bits(1) [OF that] that user_of_page(1) [OF t _ n c] table_of_page(1) [OF t _ n] by blast
  have p: "reserved_physical_address pa \<longrightarrow> marked_pid v = 0" "\<not> allocatable_physical_address C pa \<longrightarrow> marked_pid v = 0"
    using pid user_page_kind(1,2) [of C n] unfolding pn by blast+
  have k: "\<not> (v AND f_kernel \<noteq> 0 \<and> v AND f_user \<noteq> 0)" unfolding and_flag using w(1,5) by blast
  have f: "\<not> (refcount k n = 0 \<and> v AND f_nonidentity \<noteq> 0)" unfolding and_flag using w(4) user_of_page(2) [OF t _ n c] by blast
  have "pageno pa = n" by (simp add: n_def)
  then show ?thesis using False p k f page_of_console [OF n] unfolding symbol_at_def Let_def v_def pn by auto
qed

text \<open>The picture of an address space: for every page its symbol, if it is mapped.\<close>

definition virtual_symbol :: "kconf \<Rightarrow> memusage \<Rightarrow> kstate \<Rightarrow> nat \<Rightarrow> nat \<Rightarrow> 16 word" where
  "virtual_symbol C mu k r i = (case mapping (mem k) r (page_addr i) of None \<Rightarrow> 32
     | Some (pa, perm) \<Rightarrow> (let ch = fst (symbol_at C mu k pa) in if is_user (Some (pa, perm)) then user_colors ch else ch))"

lemma virtual_loop_total:
  assumes "viewed M C mu k" and "r \<in> roots k" and "stands (mem k) r (page_addr i) it" and "i \<le> 768"
  shows "virtual_loop C mu k it = Some (map (\<lambda>i. (sympos 11 i, virtual_symbol C mu k r i)) [i ..< 768], [])"
  using assms(3,4)
proof (induction "768 - i" arbitrary: i it)
  case 0
  then have "\<not> vva it < of_nat (768 * PAGESIZE)" using standsD(3) [OF 0(2)] page_768 by (simp add: MEMSIZE_VIRTUAL_def)
  then show ?case using 0 by (simp add: virtual_loop.simps [of C mu k it])
next
  case (Suc d)
  then have i: "i < 768" "i < 2 ^ 35" "i + 1 < 2 ^ 35" "Suc i < 2 ^ 35" by simp_all
  have s: "spaces M C (roots k) {} k" "low (mem k) r"
    using assms(1,2) kernel_invD(6) by (auto simp: viewed_def viewer_ready_def)
  note st = standsD [OF Suc.prems(1)]
  have v: "page_va (page_addr i)" by (rule low_page_addr [OF i(2)])
  have lt: "vva it < of_nat (768 * PAGESIZE)" using st(3) page_bounds(2) [OF i(2)] i(1) by (simp add: MEMSIZE_VIRTUAL_def)
  have no: "pageno (vva it) = i" using st(3) i(1) by simp
  have c: "va_is_canonical (vva it + of_nat PAGESIZE)"
    using low_page_addr(2) [OF i(4)] unfolding st(3) page_next by (simp add: page_va_def)
  obtain it1 where it1: "vm_advance (mem k) it (of_nat PAGESIZE) = Some it1"
    by (rule advance_total [OF st(2) _ c]) (use s(2) st(4) in simp_all)
  have st1: "stands (mem k) r (page_addr (Suc i)) it1" by (rule advance_page [OF it1 st(2-4) spacesD(1) [OF s(1) assms(2)] i(3)])
  have d: "d = 768 - Suc i" using Suc.hyps(2) by simp
  have rest: "virtual_loop C mu k it1 = Some (map (\<lambda>i. (sympos 11 i, virtual_symbol C mu k r i)) [Suc i ..< 768], [])"
    by (rule Suc.hyps(1) [OF d st1]) (use i(1) in simp)
  have sy: "(if \<not> vm_present (mem k) it then (32, [])
         else (let (ch, errs) = symbol_at C mu k (vm_pa (mem k) it) in (if vm_user (mem k) it then user_colors ch else ch, errs)))
      = (virtual_symbol C mu k r i, [])"
  proof (cases "mapping (mem k) r (page_addr i)")
    case None
    then show ?thesis using stands_user(2) [OF Suc.prems(1) v] by (simp add: virtual_symbol_def)
  next
    case (Some x)
    obtain pa perm where x: "x = (pa, perm)" by (cases x)
    then have mp: "mapping (mem k) r (page_addr i) = Some (pa, perm)" using Some by simp
    have "page_addr (pageno pa) = pa"
      by (rule page_addr_pageno) (use mp in \<open>auto simp: mapping_def Let_def and.assoc split: option.splits if_splits\<close>)
    from symbol_quiet [OF assms(1) this] show ?thesis
      using mp mapped_kptr(2) [OF Suc.prems(1) v mp] stands_user [OF Suc.prems(1) v]
      by (simp add: virtual_symbol_def Let_def split_beta)
  qed
  have "[i ..< 768] = i # [Suc i ..< 768]" using i(1) by (simp add: upt_conv_Cons)
  then show ?case using lt it1 rest no unfolding virtual_loop.simps [of C mu k it] sy by simp
qed

lemma search_process_finds:
  assumes "s < PID_MAX" and "j < n" and "live k ((s + j) mod PID_MAX)" and "\<And>p. live k p \<Longrightarrow> pagetable (ptable k p) \<noteq> 0"
  shows "\<exists>s'. live k s' \<and> search_process n s k = (Some (ptable k s'), s')"
  using assms(1-3)
proof (induction n arbitrary: s j)
  case (Suc n)
  show ?case
  proof (cases "live k s")
    case True
    then show ?thesis using assms(4) by (auto simp: live_def)
  next
    case False
    then have st: "state (ptable k s) = P_FREE" using Suc.prems(1) by (simp add: live_def)
    have "j \<noteq> 0"
    proof
      assume "j = 0"
      then show False using False Suc.prems(1,3) by simp
    qed
    then obtain j' where j': "j = Suc j'" by (cases j) auto
    have "((s + 1) mod PID_MAX + j') mod PID_MAX = (s + j) mod PID_MAX" by (simp add: j' mod_add_left_eq)
    then have "\<exists>s'. live k s' \<and> search_process n ((s + 1) mod PID_MAX) k = (Some (ptable k s'), s')"
      by (intro Suc.IH [of _ j']) (use Suc.prems(2,3) j' in simp_all)
    then show ?thesis using st by simp
  qed
qed simp

text \<open>C27: \<open>memshow\<close> works in every state with the kernel's invariant: if one page is free for the marks (or they
  have their page already) it fails no assertion, its loops end, it reports no page table error, it finds a process that is
  running, waiting or faulted, and the picture has the symbol of every physical page and of every
  page of that process's address space; the processes are not changed.\<close>

theorem memshow_quiet:
  assumes "kernel_inv M C k" and "viewer_ready M C k" and "viewer_page C k (mv_page mu)" and "showing sh < PID_MAX"
  shows "\<exists>sh' mu' k'. memshow C sh mu k = Some (sh', map (\<lambda>n. (sympos 1 n, fst (symbol_at C mu' k' (page_addr n)))) [0 ..< 512]
       @ map (\<lambda>i. (sympos 11 i, virtual_symbol C mu' k' (root k' (showing sh')) i)) [0 ..< 768], [], mu', k')
     \<and> viewed M C mu' k' \<and> ptable k' = ptable k \<and> live k' (showing sh')"
proof -
  define sh1 where "sh1 = (if last_ticks sh = 0 \<or> HZ div 2 \<le> ticks k - ucast (last_ticks sh)
        then \<lparr>last_ticks = ucast (ticks k), showing = (showing sh + 1) mod PID_MAX\<rparr> else sh)"
  have s1: "showing sh1 < PID_MAX" using assms(4) by (simp add: sh1_def)
  note t = kernel_invD(1) [OF assms(1)]
  have "live k ((showing sh1 + (current k + (16 - showing sh1)) mod 16) mod PID_MAX)"
  proof -
    have "(showing sh1 + (current k + (16 - showing sh1)) mod 16) mod 16 = (current k + 16) mod 16" using s1 by (simp add: mod_add_right_eq)
    also have "\<dots> = current k" using kernel_invD(2) [OF assms(1)] by simp
    finally show ?thesis using kernel_invD(4) [OF assms(1)] by simp
  qed
  then obtain s where s: "live k s" "search_process PID_MAX (showing sh1) k = (Some (ptable k s), s)"
    using search_process_finds [OF s1, of "(current k + (16 - showing sh1)) mod 16" PID_MAX k] live_facts(6) [OF t assms(2)] by auto
  obtain mu' k' where r: "refresh C mu k = Some (mu', k')" "viewed M C mu' k'" "ptable k' = ptable k"
    using refresh_total [OF assms(1-3)] by blast
  have iv: "kernel_inv M C k'" "viewer_ready M C k'" using r(2) by (simp_all add: viewed_def)
  have ls: "live k' s" using s(1) r(3) by (simp add: live_def)
  note f = live_facts [OF kernel_invD(1) [OF iv(1)] iv(2) ls]
  define R where "R = root k' s"
  have z: "page_addr 0 = 0" by (simp add: page_addr_def)
  have c: "va_is_canonical 0" by (simp add: va_is_canonical_def)
  have pn: "pageno (page_addr R) = R" using f(4,5) by (simp add: R_def)
  have lw: "low (mem k') (pageno (page_addr R))" unfolding pn using f(3) by (simp add: R_def)
  obtain it where it: "vmiter_at (mem k') (page_addr R) 0 = Some it" by (rule vmiter_at_total [OF lw c])
  have "stands (mem k') R (page_addr 0) it"
    using stands_at [of k' "page_addr R" 0 it] f(2) c it unfolding pn z by (simp add: R_def)
  from virtual_loop_total [OF r(2) _ this] have vl: "virtual_loop C mu' k' it = Some (map (\<lambda>i. (sympos 11 i, virtual_symbol C mu' k' R i)) [0 ..< 768], [])"
    using f(8) by (simp add: R_def)
  have vv: "console_memviewer_virtual C mu' (ptable k s) k' = Some (map (\<lambda>i. (sympos 11 i, virtual_symbol C mu' k' R i)) [0 ..< 768], [])"
    using f(4,6) it vl r(3) by (simp add: console_memviewer_virtual_def assert_ok_def R_def)
  have q: "snd (symbol_at C mu' k' (page_addr n)) = []" if "n < 512" for n
    by (rule symbol_quiet [OF r(2)]) (use that in simp)
  have free: "state (ptable k 0) = P_FREE" using t by (simp add: tabled_def procs_ok_def)
  have "console_memviewer C mu (Some (ptable k s)) k = Some (map (\<lambda>n. (sympos 1 n, fst (symbol_at C mu' k' (page_addr n)))) [0 ..< 512]
       @ map (\<lambda>i. (sympos 11 i, virtual_symbol C mu' k' R i)) [0 ..< 768], [], mu', k')"
    using free r(1) vv q by (simp add: console_memviewer_def assert_ok_def split_beta)
  then have "memshow C sh mu k = Some (sh1\<lparr>showing := s\<rparr>, map (\<lambda>n. (sympos 1 n, fst (symbol_at C mu' k' (page_addr n)))) [0 ..< 512]
       @ map (\<lambda>i. (sympos 11 i, virtual_symbol C mu' k' R i)) [0 ..< 768], [], mu', k')"
    using s(2) unfolding memshow_def sh1_def [symmetric] Let_def by simp
  then show ?thesis using r(2,3) ls by (intro exI [of _ "sh1\<lparr>showing := s\<rparr>"] exI [of _ mu'] exI [of _ k']) (simp add: R_def)
qed

definition new_viewer :: memusage where
  "new_viewer = \<lparr>mv_page = 0, marks = [], separate_tables = False\<rparr>"

lemma demo_two_free: "free_page demo_conf demo_two 1"
proof -
  have "unat (page_addr 1) = 4096" using unat_page_addr [of 1] by simp
  then show ?thesis
    by (simp add: free_page_def allocatable_physical_address_def reserved_physical_address_def demo_conf_def addr_defs
        word_less_nat_alt word_le_nat_alt demo_two_def round_up_page_def)
qed

lemma demo_two_ready: "viewer_ready (mem demo_two) demo_conf demo_two" "viewer_page demo_conf demo_two (mv_page new_viewer)"
proof -
  have c: "conf_ok demo_conf" by (simp add: conf_ok_def kroot_def pageno_def demo_conf_def page_addr_def)
  have kr: "64 \<le> kroot demo_conf" "kroot demo_conf < NPAGES" using conf_okD [OF c] by simp_all
  have z: "mem demo_two (kroot demo_conf) i = 0" for i using kr by (auto simp: demo_two_def)
  have tb: "tables (mem demo_two) (kroot demo_conf) = {kroot demo_conf}" by (rule empty_tree [of "mem demo_two", OF z])
  have l: "low_entry (page_addr q OR 7)" if "q < NPAGES" for q
    using low_table_entry [OF that] by (simp add: table_entry_def pte_defs or.assoc)
  have lt: "low_entry (mem demo_two t i)" for t i
    by (auto simp: demo_two_def demo_leaf_def intro!: l low_table_entry)
  then have "low (mem demo_two) r" for r by (simp add: low_def)
  then show "viewer_ready (mem demo_two) demo_conf demo_two"
    using conf_okD(1) [OF c] tb kr(2) kernel_page_fixed [OF c, of 0] by (simp add: viewer_ready_def)
  have "0 < free_count demo_conf demo_two" using demo_two_free by (auto simp: free_count_def card_gt_0_iff)
  then show "viewer_page demo_conf demo_two (mv_page new_viewer)" by (simp add: viewer_page_def new_viewer_def)
qed

lemma memshow_quiet_witness:
  "\<exists>sh cells mu k. memshow demo_conf \<lparr>last_ticks = 0, showing = 0\<rparr> new_viewer demo_two = Some (sh, cells, [], mu, k)
     \<and> length cells = 1280 \<and> live k (showing sh)"
proof -
  obtain sh mu k where r: "memshow demo_conf \<lparr>last_ticks = 0, showing = 0\<rparr> new_viewer demo_two =
      Some (sh, map (\<lambda>n. (sympos 1 n, fst (symbol_at demo_conf mu k (page_addr n)))) [0 ..< 512]
       @ map (\<lambda>i. (sympos 11 i, virtual_symbol demo_conf mu k (root k (showing sh)) i)) [0 ..< 768], [], mu, k)" "live k (showing sh)"
    using memshow_quiet [OF demo_two_inv demo_two_ready, of "\<lparr>last_ticks = 0, showing = 0\<rparr>"] by auto
  show ?thesis by (rule exI, rule exI, rule exI, rule exI, rule conjI, rule r(1)) (use r(2) in simp)
qed

section \<open>What a symbol says\<close>

text \<open>The test for more than one process: the mark is greater than that of the lowest process.\<close>

lemma higher_mark:
  assumes "0 < p" and "p < PID_MAX" and "bit v (p + 2)" and "\<And>j. 0 < j \<Longrightarrow> j < p \<Longrightarrow> \<not> bit v (j + 2)"
  shows "f_process p OR f_kernel OR f_user OR f_nonidentity < v \<longleftrightarrow> (\<exists>b > p + 2. bit v b)"
proof -
  define x where "x = f_process p OR f_kernel OR f_user OR f_nonidentity"
  have x: "bit x b \<longleftrightarrow> b < 3 \<or> b = p + 2" for b
    unfolding x_def bit_or_iff mark_bits(1-3) mark_bits(4) [OF assms(1,2)] by auto
  show ?thesis
  proof (cases "\<exists>b > p + 2. bit v b")
    case True
    then obtain b where b: "p + 2 < b" "bit v b" by blast
    have "drop_bit (p + 3) x = 0" by (rule bit_word_eqI) (simp add: bit_drop_bit_eq x)
    then have "unat x div 2 ^ (p + 3) = 0" by (metis drop_bit_eq_div unat_drop_bit_eq unsigned_0)
    moreover have "bit (drop_bit (p + 3) v) (b - (p + 3))" using b by (simp add: bit_drop_bit_eq)
    then have "drop_bit (p + 3) v \<noteq> 0" by auto
    then have "unat v div 2 ^ (p + 3) \<noteq> 0" by (metis drop_bit_eq_div unat_drop_bit_eq unsigned_eq_0_iff)
    ultimately have "unat x < unat v" by (metis div_le_mono le_zero_eq not_le)
    then show ?thesis using True by (simp add: word_less_nat_alt x_def)
  next
    case False
    have "v AND x = v"
    proof (rule bit_word_eqI)
      fix b
      have "b < 3 \<or> b = p + 2" if "bit v b"
      proof (rule ccontr)
        assume h: "\<not> ?thesis"
        have "b \<le> p + 2" using False that by (auto simp: not_less)
        then have "0 < b - 2" "b - 2 < p" "b = (b - 2) + 2" using h by auto
        then show False using assms(4) [of "b - 2"] that by simp
      qed
      then show "bit (v AND x) b = bit v b" by (auto simp: bit_and_iff x)
    qed
    then have "v \<le> x" by (metis word_and_le1)
    then have "\<not> x < v" by (simp only: not_less)
    then show ?thesis using False unfolding x_def by blast
  qed
qed

text \<open>The symbol of a page by the processes that can use it.\<close>

definition picture :: "kstate \<Rightarrow> nat \<Rightarrow> 16 word" where
  "picture k n = (case sorted_list_of_set {p. user_of k p n} of
       [] \<Rightarrow> if refcount k n \<noteq> 0 then 76 OR 0x0300 else 46 OR 0x0700
     | [p] \<Rightarrow> push_bit 8 (colors ! (p mod 5)) OR names ! p
     | _ \<Rightarrow> 83 OR 0x0F00)"

lemma symbol_mark:
  assumes "user_page C n" and "marks mu ! n = v"
  shows "symbol_at C mu k (page_addr n) = (let pid = marked_pid v; used = (refcount k n \<noteq> 0); vx = v AND NOT f_nonidentity in
         if vx = 0 then (if used then 76 OR 0x0300 else 46 OR 0x0700, [])
         else if vx = f_kernel then (75 OR 0x0D00, [])
         else if vx = f_user then (46 OR 0x0700, [])
         else if v AND f_kernel \<noteq> 0 \<and> v AND f_user \<noteq> 0 \<and> separate_tables mu then (42 OR 0xF400, [KernelAllocatedMapped pid])
         else (let ch = push_bit 8 (colors ! (pid mod 5));
                   ch = (if v AND f_kernel \<noteq> 0 then 0x4000 OR (if ch = 0x0C00 then 0x0F00 else ch) else ch);
                   freed = (\<not> used \<and> v AND f_nonidentity \<noteq> 0);
                   ch = (if freed then ch OR 0xF000 else ch) in
           (if f_process pid OR f_kernel OR f_user OR f_nonidentity < v then 83 OR 0x0F00 else ch OR names ! pid,
            if freed then [FreedMapped pid] else [])))"
proof -
  note u = user_page_kind [OF assms(1)]
  have c: "\<not> (CONSOLE_ADDR \<le> page_addr n \<and> page_addr n < CONSOLE_ADDR + of_nat PAGESIZE)" using page_of_console [OF u(7)] u(5) by blast
  have m: "\<not> maxpa \<le> page_addr n" "\<not> MEMSIZE_PHYSICAL \<le> page_addr n" using u(3,4) by (simp_all add: not_le)
  show ?thesis by (simp only: symbol_at_def Let_def u(1,2,6) assms(2) c m if_False if_True simp_thms)
qed

lemma finite_users [simp]: "finite {p. user_of k p n}"
  by (rule finite_subset [of _ "{..< PID_MAX}"]) (auto simp: user_of_def live_def)

lemma picture_none: "{p. user_of k p n} = {} \<Longrightarrow> picture k n = (if refcount k n \<noteq> 0 then 76 OR 0x0300 else 46 OR 0x0700)"
  by (simp add: picture_def)

lemma picture_some:
  assumes "user_of k p n"
  shows "picture k n = (if {p. user_of k p n} = {p} then push_bit 8 (colors ! (p mod 5)) OR names ! p else 83 OR 0x0F00)"
proof (cases "{p. user_of k p n} = {p}")
  case True
  then show ?thesis by (simp add: picture_def)
next
  case False
  define S where "S = {p. user_of k p n}"
  obtain p' where "p' \<in> S" "p' \<noteq> p" "p \<in> S" using False assms by (auto simp: S_def)
  then have "2 \<le> card S" using card_le_Suc0_iff_eq [of S] by (metis S_def finite_users not_less_eq_eq numeral_2_eq_2)
  then have "2 \<le> length (sorted_list_of_set S)" by simp
  then obtain a b xs where "sorted_list_of_set S = a # b # xs" by (metis One_nat_def Suc_1 Suc_le_length_iff)
  then show ?thesis using False by (simp add: picture_def S_def)
qed

text \<open>The process of the mark is the lowest one that can use the page; the mark is greater than its own mark if there are others.\<close>

lemma lowest_user:
  assumes "\<And>p. 0 < p \<Longrightarrow> bit v (p + 2) \<longleftrightarrow> user_of k p n" and "\<not> user_of k 0 n" and "user_of k p0 n"
  defines "p \<equiv> marked_pid v"
  shows "user_of k p n" and "0 < p" and "bit v (p + 2)"
    and "f_process p OR f_kernel OR f_user OR f_nonidentity < v \<longleftrightarrow> {p. user_of k p n} \<noteq> {p}"
proof -
  have "0 < p0" using assms(2,3) by (cases p0) auto
  then have "p \<noteq> 0" using marked_pid_none [of v "p0 + 2"] assms(1,3) by (auto simp: p_def)
  note pb = marked_pid_bits [of v, folded p_def, OF this]
  show p: "user_of k p n" "0 < p" "bit v (p + 2)" using pb(1) assms(1) \<open>p \<noteq> 0\<close> by simp_all
  then have pm: "p < PID_MAX" by (simp add: user_of_def live_def)
  have least: "p \<le> p'" if "user_of k p' n" for p'
  proof (rule ccontr)
    assume "\<not> p \<le> p'"
    moreover have "0 < p'" using that assms(2) by (cases p') auto
    ultimately show False using pb(2) [of p'] assms(1) [of p'] that by simp
  qed
  have "(\<exists>b > p + 2. bit v b) \<longleftrightarrow> (\<exists>p' > p. user_of k p' n)"
  proof
    assume "\<exists>b > p + 2. bit v b"
    then obtain b where b: "p + 2 < b" "bit v b" by blast
    then have "b - 2 + 2 = b" "p < b - 2" by simp_all
    then show "\<exists>p' > p. user_of k p' n" using assms(1) [of "b - 2"] b(2) by auto
  next
    assume "\<exists>p' > p. user_of k p' n"
    then obtain p' where "p < p'" "user_of k p' n" by blast
    then show "\<exists>b > p + 2. bit v b" using assms(1) [of p'] by (intro exI [of _ "p' + 2"]) simp
  qed
  also have "\<dots> \<longleftrightarrow> {p. user_of k p n} \<noteq> {p}"
  proof
    assume "\<exists>p' > p. user_of k p' n"
    then obtain p' where "p' \<in> {p. user_of k p n}" "p' \<noteq> p" by auto
    then show "{p. user_of k p n} \<noteq> {p}" by blast
  next
    assume "{p. user_of k p n} \<noteq> {p}"
    then obtain p' where "user_of k p' n" "p' \<noteq> p" using p(1) by blast
    then show "\<exists>p' > p. user_of k p' n" using least [of p'] by (intro exI [of _ p']) simp
  qed
  finally show "f_process p OR f_kernel OR f_user OR f_nonidentity < v \<longleftrightarrow> {p. user_of k p n} \<noteq> {p}"
    using higher_mark [OF p(2) pm pb(1) pb(2)] by simp
qed

text \<open>C28: After \<open>refresh\<close> the symbol of a page that the allocator manages tells the truth, when the page is no page
  table and not the viewer's own: a free page is a dot; a page that is allocated but that no process can use is an L,
  a leak; a page of one process has the letter and color of the process; a page of several processes is an S.\<close>

theorem memory_picture:
  assumes "viewed M C mu k" and "user_page C n" and "\<And>p. \<not> table_of k p n" and "mv_page mu \<noteq> page_addr n"
  shows "symbol_at C mu k (page_addr n) = (picture k n, [])"
proof -
  note u = user_page_kind [OF assms(2)]
  define v where "v = marks mu ! n"
  note w = viewed_marks [OF assms(1) u(7,5), folded v_def]
  have t: "tabled M C k" and sep: "separate_tables mu" using assms(1) kernel_invD(1) by (auto simp: viewed_def)
  have b0: "\<not> bit v 0" using w(6) assms(2-4) by blast
  have bp: "bit v (p + 2) \<longleftrightarrow> user_of k p n" if "0 < p" for p using w(2,3) assms(3) that by blast
  have zero: "\<not> user_of k 0 n" using t by (simp add: user_of_def live_def tabled_def procs_ok_def)
  have fk: "v AND f_kernel = 0" using b0 and_flag(1) by blast
  have nf: "\<not> (refcount k n = 0 \<and> v AND f_nonidentity \<noteq> 0)"
    unfolding and_flag using w(4) user_of_page(2) [OF t _ u(7,5)] by blast
  note sy = symbol_mark [OF assms(2) v_def [symmetric], of k]
  show ?thesis
  proof (cases "\<exists>p. user_of k p n")
    case False
    have "\<not> bit v b" for b
    proof -
      consider "b = 0" | "b = 1" | "b = 2" | "3 \<le> b" by linarith
      then show ?thesis
      proof cases
        case 4
        then have "0 < b - 2" "b - 2 + 2 = b" by simp_all
        then show ?thesis using bp [of "b - 2"] False by simp
      qed (use b0 w(1,4) False in auto)
    qed
    then have "v = 0" by (intro bit_word_eqI) simp
    then show ?thesis using False unfolding sy by (simp add: Let_def picture_none)
  next
    case True
    then obtain p0 where "user_of k p0 n" by blast
    note p = lowest_user [where v = v, OF bp zero this]
    have "bit (v AND NOT f_nonidentity) (marked_pid v + 2)"
      using p(2,3) by (auto simp: bit_and_iff bit_not_iff mark_bits(3) dest: bit_imp_le_length)
    then have nz: "v AND NOT f_nonidentity \<noteq> 0" "v AND NOT f_nonidentity \<noteq> f_kernel" "v AND NOT f_nonidentity \<noteq> f_user"
      using p(2) by (auto simp: mark_bits(1,2))
    have "symbol_at C mu k (page_addr n) = (if {p. user_of k p n} = {marked_pid v}
        then push_bit 8 (colors ! (marked_pid v mod 5)) OR names ! marked_pid v else 83 OR 0x0F00, [])"
      using nz fk nf p(4) unfolding sy Let_def by auto
    then show ?thesis using picture_some [OF p(1)] by presburger
  qed
qed

text \<open>Page 6 belongs to process 1, and is shown as a red 1.\<close>

definition demo_viewed :: kstate where
  "demo_viewed = take_page 1 demo_two"

lemma demo_users:
  "user_of demo_viewed p 6 \<longleftrightarrow> p = 1" "\<not> table_of demo_viewed p 6" "user_page demo_conf 6"
  "spare demo_conf (roots demo_viewed) demo_viewed q \<Longrightarrow> page_addr q \<noteq> page_addr 6"
proof -
  note sp = spaces_kalloc [OF kernel_invD(6) [OF demo_two_inv] demo_two_free]
  have l: "live demo_viewed p \<longleftrightarrow> p = 1 \<or> p = 2" "root demo_viewed p = root demo_two p" for p
    using demo_two_live(1) [of p] by (simp_all add: demo_viewed_def take_page_def live_def root_def)
  have m: "mapping (mem demo_viewed) r = mapping (mem demo_two) r" "tables (mem demo_viewed) r = tables (mem demo_two) r" if "r \<in> {2, 12}" for r
    using sp(3,4) [of r] that by (simp_all add: demo_viewed_def demo_two_live(4))
  have v: "low_half (page_addr 256)" using low_page_addr [of 256] by (simp add: lower_half)
  have d: "page_addr 6 \<noteq> page_addr 16" using page_addr_inj [of 6 16] by simp
  have lp: "low_half va \<Longrightarrow> page_va va" for va by (simp add: low_half_def)
  have u: "user_at (mem demo_viewed) 2 (page_addr 256) 6"
    using v demo_two_mapping(1) [OF lp [OF v]] m(1) [of 2] by (simp add: user_at_def is_user_def pte_defs)
  have n: "\<not> user_at (mem demo_viewed) 12 va 6" for va
    using demo_two_mapping(2) [OF lp, of va] m(1) [of 12] d by (auto simp: user_at_def split: if_splits)
  show "user_of demo_viewed p 6 \<longleftrightarrow> p = 1" using u n demo_two_live(2,3) l by (auto simp: user_of_def)
  show up: "user_page demo_conf 6" by (rule demo_user_page) simp
  have "tables (mem demo_two) 2 = {2 .. 5}" "tables (mem demo_two) 12 = {12 .. 15}"
    using chain_tree(3) [OF demo_chain(1)] chain_tree(3) [OF demo_chain(2)] by simp_all
  then have "t \<noteq> 6 \<and> t < NPAGES" if "live demo_viewed p" "t \<in> tables (mem demo_viewed) (root demo_viewed p)" for p t
    using that l m(2) demo_two_live(2,3) by auto
  then show "\<not> table_of demo_viewed p 6" using page_addr_inj [of 6] by (fastforce simp: table_of_def)
  assume q: "spare demo_conf (roots demo_viewed) demo_viewed q"
  have r2: "roots demo_viewed = roots demo_two" unfolding demo_viewed_def
    by (rule take_page_ready(4) [OF demo_two_inv demo_two_ready(1) demo_two_free])
  have "maps_in demo_viewed 2 (page_addr 256) 6 7"
    using demo_two_maps(1) [of "page_addr 256" 6 7] m(1) [of 2] by (simp add: maps_def)
  then have "q \<noteq> 6" using q r2 demo_two_live(4) by (auto simp: loose_def)
  moreover have "q < NPAGES" using q user_page_less by (auto simp: loose_def)
  ultimately show "page_addr q \<noteq> page_addr 6" using page_addr_inj [of q 6] by simp
qed

lemma memory_picture_witness:
  "\<exists>mu. refresh demo_conf (new_viewer\<lparr>mv_page := page_addr 1\<rparr>) demo_viewed = Some (mu, demo_viewed)
     \<and> symbol_at demo_conf mu demo_viewed (page_addr 6) = (0x0C31, [])"
proof -
  note t = take_page_ready [OF demo_two_inv demo_two_ready(1) demo_two_free, folded demo_viewed_def]
  obtain mu where mu: "refresh demo_conf (new_viewer\<lparr>mv_page := page_addr 1\<rparr>) demo_viewed = Some (mu, demo_viewed)"
    "viewed (mem demo_two) demo_conf mu demo_viewed"
    using refresh_marks [OF t(1-3), of "new_viewer\<lparr>mv_page := page_addr 1\<rparr>"] by auto
  obtain q where "mv_page mu = page_addr q" "spare demo_conf (roots demo_viewed) demo_viewed q" using mu(2) by (auto simp: viewed_def)
  then have "mv_page mu \<noteq> page_addr 6" using demo_users(4) by simp
  note pic = memory_picture [OF mu(2) demo_users(3,2) this]
  have "{p. user_of demo_viewed p 6} = {1}" using demo_users(1) by blast
  then have "picture demo_viewed 6 = 0x0C31" by (simp add: picture_def colors_def names_def)
  then show ?thesis using mu(1) pic by metis
qed

end
