(* ===== verification/KHard.thy ===== *)
theory KHard
  imports Kernel
begin

text \<open>
  Further parts of \<open>src/pset3/k-hardware.cc\<close>: the segment and gate descriptors, the keyboard, the
  search in the symbol table, and the walk over the frames of a stack. What a device register
  holds is an argument; so are the symbol table, which a tool of the build appends to the
  kernel, and the page table that the processor uses.
\<close>

section \<open>Descriptors\<close>

definition X86SEG_S :: u64 where "X86SEG_S = push_bit 44 1"
definition X86SEG_P :: u64 where "X86SEG_P = push_bit 47 1"
definition SEGSEL_KERN_CODE :: u64 where "SEGSEL_KERN_CODE = 8"

definition set_app_segment :: "u64 \<Rightarrow> 32 word \<Rightarrow> u64" where
  "set_app_segment type dpl = type OR X86SEG_S OR push_bit 45 (scast dpl) OR X86SEG_P"

definition set_sys_segment :: "u64 \<Rightarrow> u64 \<Rightarrow> u64 \<Rightarrow> 32 word \<Rightarrow> u64 \<times> u64" where
  "set_sys_segment addr sz type dpl =
     (push_bit 16 (addr AND 0xFFFFFF) OR push_bit 32 (addr AND 0xFF000000) OR ((sz - 1) AND 0xFFFF)
        OR push_bit 48 ((sz - 1) AND 0xF0000) OR type OR push_bit 45 (scast dpl) OR X86SEG_P,
      drop_bit 32 addr)"

definition set_gate :: "u64 \<Rightarrow> 32 word \<Rightarrow> 32 word \<Rightarrow> 32 word \<Rightarrow> (u64 \<times> u64) option" where
  "set_gate addr type dpl ist = (if type < 16 \<and> dpl < 4 \<and> ist < 8 then
     Some ((addr AND 0xFFFF) OR push_bit 16 SEGSEL_KERN_CODE OR push_bit 32 (scast ist) OR push_bit 40 (scast type)
        OR push_bit 45 (scast dpl) OR X86SEG_P OR push_bit 32 (addr AND 0xFFFF0000),
      drop_bit 32 addr) else None)"

text \<open>The fields as the processor reads them.\<close>

definition bits_of :: "u64 \<Rightarrow> nat \<Rightarrow> nat \<Rightarrow> nat" where
  "bits_of w i n = unat (drop_bit i w AND mask n)"

definition gate_address :: "u64 \<times> u64 \<Rightarrow> u64" where
  "gate_address g = (fst g AND 0xFFFF) OR (drop_bit 32 (fst g) AND 0xFFFF0000) OR push_bit 32 (snd g)"

definition segment_base :: "u64 \<times> u64 \<Rightarrow> u64" where
  "segment_base s = (drop_bit 16 (fst s) AND 0xFFFFFF) OR (drop_bit 32 (fst s) AND 0xFF000000) OR push_bit 32 (snd s)"

definition segment_limit :: "u64 \<times> u64 \<Rightarrow> u64" where
  "segment_limit s = (fst s AND 0xFFFF) OR (drop_bit 32 (fst s) AND 0xF0000)"

lemma hex_masks: "(0xFFFF :: u64) = mask 16" "(0xFFFFFF :: u64) = mask 24" "(0xFFFF0000 :: u64) = push_bit 16 (mask 16)"
  "(0xFF000000 :: u64) = push_bit 24 (mask 8)" "(0xF0000 :: u64) = push_bit 16 (mask 4)"
  by (simp_all add: mask_eq_exp_minus_1)

lemma small_bits: "unat (w :: 32 word) < 2 ^ n \<Longrightarrow> n \<le> i \<Longrightarrow> \<not> bit w i"
proof
  assume h: "unat w < 2 ^ n" "n \<le> i" "bit w i"
  have "unat w < 2 ^ i" using h(1,2) by (meson less_le_trans one_le_numeral power_increasing)
  moreover have "bit (unat w) i" using h(3) by (simp add: bit_unsigned_iff bit_imp_le_length)
  ultimately show False by (simp add: bit_iff_odd)
qed

lemma small_scast:
  assumes "unat (w :: 32 word) < 2 ^ n" and "n \<le> 31"
  shows "bit (scast w :: u64) i \<longleftrightarrow> i < n \<and> bit w i"
proof (cases "i < 31")
  case True
  then show ?thesis using small_bits [OF assms(1), of i] by (auto simp: bit_signed_iff intro: leI)
next
  case False
  then have "\<not> bit w i" "\<not> bit w 31" using small_bits [OF assms(1)] assms(2) by simp_all
  then show ?thesis using False by (simp add: bit_signed_iff min_def)
qed

lemma small_unat: "unat (w :: 32 word) < 2 ^ n \<Longrightarrow> n \<le> 31 \<Longrightarrow> unat (scast w :: u64) = unat w"
proof -
  assume h: "unat w < 2 ^ n" "n \<le> 31"
  have "(scast w :: u64) = ucast w"
  proof (rule bit_word_eqI)
    fix i
    have "bit w i \<Longrightarrow> i < n" using small_bits [OF h(1)] not_le by blast
    then show "bit (scast w :: u64) i = bit (ucast w :: u64) i" if "i < LENGTH(64)"
      using that by (auto simp: small_scast [OF h] bit_unsigned_iff)
  qed
  then show ?thesis by (simp add: unsigned_ucast_eq take_bit_nat_eq_self_iff) (use unsigned_less [of w, where 'a = nat] in simp)
qed

lemma flag_bits:
  "bit SEGSEL_KERN_CODE i \<longleftrightarrow> i = 3" "bit X86SEG_P i \<longleftrightarrow> i = 47" "bit X86SEG_S i \<longleftrightarrow> i = 44"
proof -
  have s: "SEGSEL_KERN_CODE = push_bit 3 1" by (simp add: SEGSEL_KERN_CODE_def)
  show "bit SEGSEL_KERN_CODE i \<longleftrightarrow> i = 3" unfolding s by (simp only: bit_push_bit_iff bit_1_iff) auto
  show "bit X86SEG_P i \<longleftrightarrow> i = 47" unfolding X86SEG_P_def by (simp only: bit_push_bit_iff bit_1_iff) auto
  show "bit X86SEG_S i \<longleftrightarrow> i = 44" unfolding X86SEG_S_def by (simp only: bit_push_bit_iff bit_1_iff) auto
qed

text \<open>Every bit of a gate's first word comes from one field.\<close>

lemma gate_bits:
  assumes "unat (type :: 32 word) < 2 ^ 4" and "unat (dpl :: 32 word) < 2 ^ 2" and "unat (ist :: 32 word) < 2 ^ 3" and "i < 64"
  shows "bit ((addr AND 0xFFFF) OR push_bit 16 SEGSEL_KERN_CODE OR push_bit 32 (scast ist) OR push_bit 40 (scast type)
        OR push_bit 45 (scast dpl) OR X86SEG_P OR push_bit 32 (addr AND 0xFFFF0000)) i
    \<longleftrightarrow> (if i < 16 then bit addr i else if i < 32 then i = 19 else if i < 40 then i < 35 \<and> bit ist (i - 32)
        else if i < 45 then i < 44 \<and> bit type (i - 40) else if i < 48 then i = 47 \<or> i < 47 \<and> bit dpl (i - 45) else bit addr (i - 32))"
proof -
  note b = small_scast [OF assms(1)] small_scast [OF assms(2)] small_scast [OF assms(3)]
  note d = bit_or_iff bit_and_iff bit_push_bit_iff bit_mask_iff bit_1_iff
  consider "i < 16" | "16 \<le> i" "i < 32" | "32 \<le> i" "i < 40" | "40 \<le> i" "i < 45" | "45 \<le> i" "i < 48" | "48 \<le> i" by linarith
  then show ?thesis
  proof cases
    case 1
    then show ?thesis unfolding hex_masks by (simp add: flag_bits d b)
  next
    case 2
    then show ?thesis using assms(4) unfolding hex_masks by (auto simp: flag_bits d b)
  next
    case 3
    then show ?thesis using assms(4) unfolding hex_masks by (auto simp: flag_bits d b)
  next
    case 4
    then show ?thesis using assms(4) unfolding hex_masks by (auto simp: flag_bits d b)
  next
    case 5
    then show ?thesis using assms(4) unfolding hex_masks by (auto simp: flag_bits d b)
  next
    case 6
    then show ?thesis using assms(4) unfolding hex_masks by (auto simp: flag_bits d b)
  qed
qed

text \<open>A gate holds its handler's address and its type, privilege and stack numbers.\<close>

lemma gate_roundtrip:
  assumes "set_gate addr type dpl ist = Some g"
  shows "gate_address g = addr" and "bits_of (fst g) 40 4 = unat type" and "bits_of (fst g) 45 2 = unat dpl"
    and "bits_of (fst g) 32 3 = unat ist" and "bit (fst g) 47"
proof -
  have c: "unat type < 2 ^ 4" "unat dpl < 2 ^ 2" "unat ist < 2 ^ 3"
    and g: "fst g = (addr AND 0xFFFF) OR push_bit 16 SEGSEL_KERN_CODE OR push_bit 32 (scast ist) OR push_bit 40 (scast type)
        OR push_bit 45 (scast dpl) OR X86SEG_P OR push_bit 32 (addr AND 0xFFFF0000)" "snd g = drop_bit 32 addr"
    using assms by (auto simp: set_gate_def word_less_nat_alt split: if_splits)
  note b = gate_bits [OF c, of _ addr, folded g(1)]
  note d = bit_or_iff bit_and_iff bit_push_bit_iff bit_drop_bit_eq bit_mask_iff o_apply
  show "gate_address g = addr"
  proof (rule bit_word_eqI)
    fix i
    assume "i < LENGTH(64)"
    then consider "i < 16" | "16 \<le> i" "i < 32" | "32 \<le> i" "i < 64" by fastforce
    then show "bit (gate_address g) i = bit addr i"
      by cases (auto simp: gate_address_def hex_masks g(2) d b)
  qed
  have "bits_of (fst g) 40 4 = unat (scast type :: u64)" "bits_of (fst g) 45 2 = unat (scast dpl :: u64)" "bits_of (fst g) 32 3 = unat (scast ist :: u64)"
    unfolding bits_of_def by (rule arg_cong [where f = unat], rule bit_word_eqI, auto simp: d b small_scast [OF c(1)] small_scast [OF c(2)] small_scast [OF c(3)])+
  then show "bits_of (fst g) 40 4 = unat type" "bits_of (fst g) 45 2 = unat dpl" "bits_of (fst g) 32 3 = unat ist"
    using small_unat [OF c(1)] small_unat [OF c(2)] small_unat [OF c(3)] by simp_all
  show "bit (fst g) 47" by (simp add: b)
qed

text \<open>So does a system segment, for its base and its limit.\<close>

lemma sys_bits:
  assumes "unat (dpl :: 32 word) < 2 ^ 2" and "\<And>i. bit type i \<Longrightarrow> 40 \<le> i \<and> i < 44" and "i < 64"
  shows "bit (fst (set_sys_segment addr sz type dpl)) i
    \<longleftrightarrow> (if i < 16 then bit (sz - 1) i else if i < 40 then bit addr (i - 16) else if i < 45 then bit type i
        else if i < 48 then i = 47 \<or> i < 47 \<and> bit dpl (i - 45)
        else if i < 56 then False else bit addr (i - 32))"
proof -
  have "unat dpl < 2 ^ 2" using assms(1) by simp
  note b = small_scast [OF this]
  note d = bit_or_iff bit_and_iff bit_push_bit_iff bit_mask_iff
  define S where "S = sz - 1"
  have t: "\<not> bit type i" if "i < 40 \<or> 44 \<le> i" for i using assms(2) [of i] that by linarith
  consider "i < 16" | "16 \<le> i" "i < 40" | "40 \<le> i" "i < 45" | "45 \<le> i" "i < 48" | "48 \<le> i" "i < 56" | "56 \<le> i"
    by linarith
  then show ?thesis
    by cases (use assms(3) in \<open>auto simp: set_sys_segment_def hex_masks S_def [symmetric] flag_bits d b t\<close>)
qed

text \<open>The upper bits of the limit are shifted by 48 instead of 32 and fall out of the word: the
  descriptor has the limit modulo \<open>2 ^ 16\<close>.\<close>

lemma segment_roundtrip:
  assumes "unat (dpl :: 32 word) < 4" and "\<And>i. bit type i \<Longrightarrow> 40 \<le> i \<and> i < 44"
  shows "segment_base (set_sys_segment addr sz type dpl) = addr" and "segment_limit (set_sys_segment addr sz type dpl) = (sz - 1) AND 0xFFFF"
proof -
  have c: "unat dpl < 2 ^ 2" using assms(1) by simp
  note b = sys_bits [OF c assms(2)]
  note d = bit_or_iff bit_and_iff bit_push_bit_iff bit_drop_bit_eq bit_mask_iff o_apply
  have s: "snd (set_sys_segment addr sz type dpl) = drop_bit 32 addr" by (simp add: set_sys_segment_def)
  show "segment_base (set_sys_segment addr sz type dpl) = addr"
  proof (rule bit_word_eqI)
    fix i
    assume "i < LENGTH(64)"
    then consider "i < 24" | "24 \<le> i" "i < 32" | "32 \<le> i" "i < 64" by fastforce
    then show "bit (segment_base (set_sys_segment addr sz type dpl)) i = bit addr i"
      by cases (auto simp: segment_base_def hex_masks s d b)
  qed
  show "segment_limit (set_sys_segment addr sz type dpl) = (sz - 1) AND 0xFFFF"
  proof (rule bit_word_eqI)
    fix i
    assume "i < LENGTH(64)"
    then consider "i < 16" | "16 \<le> i" "i < 20" | "20 \<le> i" "i < 64" by fastforce
    then show "bit (segment_limit (set_sys_segment addr sz type dpl)) i = bit ((sz - 1) AND 0xFFFF) i"
      by cases (auto simp: segment_limit_def hex_masks d b)
  qed
qed

text \<open>A gate descriptor gives back the handler address, type, privilege level and stack number it was
  made of, and a system segment its base; but of the segment's limit only the low 16 bits
  arrive, because the upper bits are shifted out of the word.\<close>

theorem descriptors_roundtrip:
  assumes "set_gate addr type dpl ist = Some g" and "unat sdpl < 4" and "\<And>i. bit stype i \<Longrightarrow> 40 \<le> i \<and> i < 44"
  shows "gate_address g = addr \<and> bits_of (fst g) 40 4 = unat type \<and> bits_of (fst g) 45 2 = unat dpl \<and> bits_of (fst g) 32 3 = unat ist
    \<and> bit (fst g) 47 \<and> segment_base (set_sys_segment base sz stype sdpl) = base
    \<and> segment_limit (set_sys_segment base sz stype sdpl) = (sz - 1) AND 0xFFFF"
  using gate_roundtrip [OF assms(1)] segment_roundtrip [OF assms(2,3)] by blast

lemma descriptors_roundtrip_witness:
  "\<exists>g. set_gate 0x123456789ABCDEF0 14 3 0 = Some g \<and> gate_address g = 0x123456789ABCDEF0 \<and> bits_of (fst g) 45 2 = 3
    \<and> segment_limit (set_sys_segment 0x48000 0x20000 (push_bit 40 1) 0) = 0xFFFF"
proof -
  have b: "40 \<le> i \<and> i < 44" if "bit (push_bit 40 1 :: u64) i" for i
    using that by (simp only: bit_push_bit_iff bit_1_iff) simp
  obtain g where g: "set_gate 0x123456789ABCDEF0 14 3 0 = Some g" by (simp add: set_gate_def)
  have m: "(0x1FFFF AND 0xFFFF :: u64) = 0xFFFF" by simp
  have d: "unat (0 :: 32 word) < 4" by simp
  note r = descriptors_roundtrip [where stype = "push_bit 40 1" and base = "0x48000" and sz = "0x20000", OF g d b]
  have "gate_address g = 0x123456789ABCDEF0 \<and> bits_of (fst g) 45 2 = 3
    \<and> segment_limit (set_sys_segment 0x48000 0x20000 (push_bit 40 1) 0) = 0xFFFF" using r m by simp
  then show ?thesis using g by blast
qed

section \<open>The keyboard\<close>

definition CKEY :: "u8 \<Rightarrow> u8" where "CKEY cn = 0x80 + cn"
definition KEY_SHIFT :: u8 where "KEY_SHIFT = 0xFA"
definition KEY_CONTROL :: u8 where "KEY_CONTROL = 0xFB"
definition KEY_ALT :: u8 where "KEY_ALT = 0xFC"
definition KEY_CAPSLOCK :: u8 where "KEY_CAPSLOCK = 0xFD"
definition KEY_NUMLOCK :: u8 where "KEY_NUMLOCK = 0xFE"
definition KEY_SCROLLLOCK :: u8 where "KEY_SCROLLLOCK = 0xFF"

definition keymap :: "u8 list" where
  "keymap =
    [0, 27, CKEY 0, CKEY 1, CKEY 2, CKEY 3, CKEY 4, CKEY 5, CKEY 6, CKEY 7, CKEY 8, CKEY 9, CKEY 10, CKEY 11, 8, 9,
     113, 119, 101, 114, 116, 121, 117, 105, 111, 112, CKEY 12, CKEY 13, CKEY 14, KEY_CONTROL, 97, 115,
     100, 102, 103, 104, 106, 107, 108, CKEY 15, CKEY 16, CKEY 17, KEY_SHIFT, CKEY 18, 122, 120, 99, 118,
     98, 110, 109, CKEY 19, CKEY 20, CKEY 21, KEY_SHIFT, 42, KEY_ALT, 32, KEY_CAPSLOCK, 0, 0, 0, 0, 0,
     0, 0, 0, 0, 0, KEY_NUMLOCK, KEY_SCROLLLOCK, 55, 56, 57, 45, 52, 53, 54, 43, 49,
     50, 51, 48, 46] @ replicate 12 0 @ replicate 16 0 @ replicate 16 0 @ replicate 16 0 @
    [0, 0, 0, 0, 0, 0, 0, 0, 0, 0, 0, 0, CKEY 14, KEY_CONTROL, 0, 0] @ replicate 16 0 @
    [0, 0, 0, 0, 0, 47, 0, 0, KEY_ALT, 0, 0, 0, 0, 0, 0, 0,
     0, 0, 0, 0, 0, 0, 0, 0xC4, 0xC0, 0xC6, 0, 0xC3, 0, 0xC1, 0, 0xC5,
     0xC2, 0xC7, 0xC8, 0xC9, 0, 0, 0, 0, 0, 0, 0, 0, 0, 0, 0, 0] @ replicate 16 0 @ replicate 16 0"

definition complex_keymap :: "u8 list list" where
  "complex_keymap =
    [[49, 33, 0, 0], [50, 64, 0, 0], [51, 35, 0, 0], [52, 36, 0, 0], [53, 37, 0, 0], [54, 94, 0, 0x1E], [55, 38, 0, 0], [56, 42, 0, 0],
     [57, 40, 0, 0], [48, 41, 0, 0], [45, 95, 0, 0x1F], [61, 43, 0, 0], [91, 123, 0x1B, 0], [93, 125, 0x1D, 0], [10, 10, 13, 13],
     [59, 58, 0, 0], [39, 34, 0, 0], [96, 126, 0, 0], [92, 124, 0x1C, 0], [44, 60, 0, 0], [46, 62, 0, 0], [47, 63, 0, 0]]"

record keyboard =
  modifiers :: u8
  last_escape :: u8

text \<open>The argument is the byte that waits in the data register, if the status register says so.\<close>

definition keyboard_readc :: "u8 option \<Rightarrow> keyboard \<Rightarrow> int \<times> keyboard" where
  "keyboard_readc port k = (case port of None \<Rightarrow> (-1, k) | Some data \<Rightarrow>
     let escape = last_escape k; k = k\<lparr>last_escape := 0\<rparr> in
     if data = 0xE0 then (0, k\<lparr>last_escape := 0x80\<rparr>)
     else if data AND 0x80 \<noteq> 0 then
       (let ch = keymap ! unat ((data AND 0x7F) OR escape) in
        (0, if KEY_SHIFT \<le> ch \<and> ch < KEY_CAPSLOCK
            then k\<lparr>modifiers := modifiers k AND NOT (push_bit (unat (ch - KEY_SHIFT)) 1)\<rparr> else k))
     else
       (let ch = keymap ! unat (data OR escape) in
        if 97 \<le> ch \<and> ch \<le> 122 then
          (int (unat (if modifiers k AND 2 \<noteq> 0 then ch - 0x60
             else if (modifiers k AND 1 = 0) \<noteq> (modifiers k AND 8 = 0) then ch - 0x20 else ch)), k)
        else if KEY_CAPSLOCK \<le> ch then (0, k\<lparr>modifiers := modifiers k XOR push_bit (unat (ch - KEY_SHIFT)) 1\<rparr>)
        else if KEY_SHIFT \<le> ch then (0, k\<lparr>modifiers := modifiers k OR push_bit (unat (ch - KEY_SHIFT)) 1\<rparr>)
        else if CKEY 0 \<le> ch \<and> ch \<le> CKEY 21
        then (int (unat (complex_keymap ! unat (ch - CKEY 0) ! unat (modifiers k AND 3))), k)
        else if ch < 0x80 \<and> modifiers k AND 2 \<noteq> 0 then (0, k)
        else (int (unat ch), k)))"

text \<open>The keys behind a sequence of bytes: whether each was pressed or released, and its code. The byte
  \<open>0xE0\<close> says that the next key is from the extended half of the keyboard.\<close>

definition key_at :: "bool \<Rightarrow> u8 \<Rightarrow> bool \<times> u8" where
  "key_at ext b = (b AND 0x80 = 0, keymap ! unat ((b AND 0x7F) OR (if ext then 0x80 else 0)))"

fun key_events :: "bool \<Rightarrow> u8 list \<Rightarrow> (bool \<times> u8) list" where
  "key_events ext [] = []"
| "key_events ext (b # bs) = (if b = 0xE0 then key_events True bs else key_at ext b # key_events False bs)"

definition typed :: "u8 list \<Rightarrow> keyboard" where
  "typed bs = fold (\<lambda>b k. snd (keyboard_readc (Some b) k)) bs \<lparr>modifiers = 0, last_escape = 0\<rparr>"

definition held :: "u8 \<Rightarrow> (bool \<times> u8) list \<Rightarrow> bool" where
  "held key es \<longleftrightarrow> (let l = filter (\<lambda>e. snd e = key) es in l \<noteq> [] \<and> fst (last l))"

definition toggled :: "u8 \<Rightarrow> (bool \<times> u8) list \<Rightarrow> bool" where
  "toggled key es \<longleftrightarrow> odd (length (filter (\<lambda>e. fst e \<and> snd e = key) es))"

lemma key_events_snoc:
  "key_events ext (bs @ [b]) = key_events ext bs @ (if b = 0xE0 then [] else [key_at (if bs = [] then ext else last bs = 0xE0) b])"
  by (induction bs arbitrary: ext) auto

lemma held_snoc: "held key (es @ [e]) = (if snd e = key then fst e else held key es)"
  by (simp add: held_def Let_def)

lemma toggled_snoc: "toggled key (es @ [e]) = (if fst e \<and> snd e = key then \<not> toggled key es else toggled key es)"
  by (simp add: toggled_def)

definition bits_for :: "u8 \<Rightarrow> (bool \<times> u8) list \<Rightarrow> bool" where
  "bits_for m es \<longleftrightarrow> bit m 0 = held KEY_SHIFT es \<and> bit m 1 = held KEY_CONTROL es \<and> bit m 2 = held KEY_ALT es
     \<and> bit m 3 = toggled KEY_CAPSLOCK es \<and> bit m 4 = toggled KEY_NUMLOCK es \<and> bit m 5 = toggled KEY_SCROLLLOCK es"

text \<open>What a key does to the modifiers.\<close>

definition after_key :: "bool \<times> u8 \<Rightarrow> u8 \<Rightarrow> u8" where
  "after_key e m = (case e of (pressed, ch) \<Rightarrow>
     if pressed then (if KEY_CAPSLOCK \<le> ch then m XOR push_bit (unat (ch - KEY_SHIFT)) 1
       else if KEY_SHIFT \<le> ch then m OR push_bit (unat (ch - KEY_SHIFT)) 1 else m)
     else (if KEY_SHIFT \<le> ch \<and> ch < KEY_CAPSLOCK then m AND NOT (push_bit (unat (ch - KEY_SHIFT)) 1) else m))"

lemmas key_defs = KEY_SHIFT_def KEY_CONTROL_def KEY_ALT_def KEY_CAPSLOCK_def KEY_NUMLOCK_def KEY_SCROLLLOCK_def

lemma high_keys:
  assumes "KEY_SHIFT \<le> ch"
  shows "ch \<in> {KEY_SHIFT, KEY_CONTROL, KEY_ALT, KEY_CAPSLOCK, KEY_NUMLOCK, KEY_SCROLLLOCK}"
proof -
  have "250 \<le> unat ch" "unat ch < 256" using assms unsigned_less [of ch, where 'a = nat] by (simp_all add: KEY_SHIFT_def word_le_nat_alt)
  then consider "unat ch = 250" | "unat ch = 251" | "unat ch = 252" | "unat ch = 253" | "unat ch = 254" | "unat ch = 255" by linarith
  then show ?thesis by cases (simp_all add: key_defs word_unat_eq_iff)
qed

lemma after_key_bits:
  assumes "bits_for m es"
  shows "bits_for (after_key e m) (es @ [e])"
proof -
  obtain p ch where e: "e = (p, ch)" by (cases e)
  show ?thesis
  proof (cases "KEY_SHIFT \<le> ch")
    case True
    have "push_bit (unat (ch - KEY_SHIFT)) 1 = (1 :: u8)" if "ch = KEY_SHIFT" using that by simp
    from high_keys [OF True] show ?thesis
      using assms by (auto simp: e after_key_def bits_for_def held_snoc toggled_snoc bit_simps key_defs)
  next
    case False
    then have n: "ch \<noteq> KEY_SHIFT" "ch \<noteq> KEY_CONTROL" "ch \<noteq> KEY_ALT" "ch \<noteq> KEY_CAPSLOCK" "ch \<noteq> KEY_NUMLOCK" "ch \<noteq> KEY_SCROLLLOCK" "\<not> KEY_CAPSLOCK \<le> ch"
      by (auto simp: key_defs word_le_nat_alt)
    then show ?thesis using assms False by (simp add: e after_key_def bits_for_def held_snoc toggled_snoc)
  qed
qed

lemma readc_modifiers:
  assumes "last_escape k = (if ext then 0x80 else 0)"
  shows "modifiers (snd (keyboard_readc (Some b) k)) = (if b = 0xE0 then modifiers k else after_key (key_at ext b) (modifiers k))"
    and "last_escape (snd (keyboard_readc (Some b) k)) = (if b = 0xE0 then 0x80 else 0)"
proof -
  have lt: "\<not> KEY_SHIFT \<le> ch" "\<not> KEY_CAPSLOCK \<le> ch" if "97 \<le> ch" "ch \<le> 122" for ch
    using that by (auto simp: key_defs word_le_nat_alt)
  have low: "b AND 0x7F = b" if "b AND 0x80 = 0"
  proof -
    have "b = (b AND 0x80) OR (b AND NOT 0x80)" by (rule bit_word_eqI) (auto simp: bit_simps)
    moreover have "(NOT 0x80 :: u8) = 0x7F" by (simp add: word_unat_eq_iff)
    ultimately show ?thesis using that by (metis or.left_neutral)
  qed
  define e where "e = last_escape k"
  have e: "e = (if ext then 0x80 else 0)" using assms by (simp add: e_def)
  show "modifiers (snd (keyboard_readc (Some b) k)) = (if b = 0xE0 then modifiers k else after_key (key_at ext b) (modifiers k))"
  proof (cases "b = 0xE0")
    case False
    show ?thesis
    proof (cases "b AND 0x80 = 0")
      case True
      define ch where "ch = keymap ! unat (b OR e)"
      have k: "key_at ext b = (True, ch)" using True low [OF True] by (simp add: key_at_def ch_def e)
      show ?thesis unfolding k using False True
        by (auto simp: keyboard_readc_def Let_def e_def [symmetric] ch_def [symmetric] after_key_def lt)
    next
      case rel: False
      define ch where "ch = keymap ! unat ((b AND 0x7F) OR e)"
      have k: "key_at ext b = (False, ch)" using rel by (simp add: key_at_def ch_def e)
      show ?thesis unfolding k using False rel
        by (auto simp: keyboard_readc_def Let_def e_def [symmetric] ch_def [symmetric] after_key_def)
    qed
  qed (simp add: keyboard_readc_def Let_def)
  show "last_escape (snd (keyboard_readc (Some b) k)) = (if b = 0xE0 then 0x80 else 0)"
    by (auto simp: keyboard_readc_def Let_def)
qed

text \<open>After any sequence of bytes from the keyboard the modifier bits are right: shift, control and
  alt are set exactly if the last event of their key was a press (two keys of the same name
  count as one, so releasing either clears the bit), and the lock keys are set exactly if they
  were pressed an odd number of times.\<close>

theorem keyboard_modifiers: "bits_for (modifiers (typed bs)) (key_events False bs)"
proof -
  have "bits_for (modifiers (typed bs)) (key_events False bs) \<and> last_escape (typed bs) = (if bs \<noteq> [] \<and> last bs = 0xE0 then 0x80 else 0)"
  proof (induction bs rule: rev_induct)
    case Nil
    show ?case by (simp add: typed_def bits_for_def held_def toggled_def)
  next
    case (snoc b bs)
    define ext where "ext \<longleftrightarrow> bs \<noteq> [] \<and> last bs = 0xE0"
    have t: "typed (bs @ [b]) = snd (keyboard_readc (Some b) (typed bs))" by (simp add: typed_def)
    have "last_escape (typed bs) = (if ext then 0x80 else 0)" using snoc by (simp add: ext_def)
    note r = readc_modifiers [OF this, of b, folded t]
    have ev: "key_events False (bs @ [b]) = key_events False bs @ (if b = 0xE0 then [] else [key_at ext b])"
      by (cases "bs = []") (simp_all add: key_events_snoc ext_def)
    show ?case unfolding r ev using snoc after_key_bits [of "modifiers (typed bs)" "key_events False bs"] by simp
  qed
  then show ?thesis ..
qed

end
