(* ===== verification/KTrace.thy ===== *)
theory KTrace
  imports KHard KMap KCow "HOL-Library.Product_Lexorder" "HOL-Library.Multiset"
begin

text \<open>
  Finding out where a process is: the search in the symbol table and the walk over the frames of a
  stack (\<open>lookup_symbol\<close>, \<open>backtracer\<close> and \<open>log_backtrace\<close> of \<open>src/pset3/k-hardware.cc\<close>). The symbol table is an argument, and
  what is logged is a value.
\<close>

section \<open>The symbol table\<close>

record elf_symbol =
  st_name :: "32 word"
  st_info :: u8
  st_other :: u8
  st_shndx :: "16 word"
  st_value :: u64
  st_size :: u64

definition in_symbol :: "elf_symbol list \<Rightarrow> nat \<Rightarrow> u64 \<Rightarrow> bool" where
  "in_symbol tab m addr \<longleftrightarrow> (let sym = tab ! m in st_value sym \<le> addr
     \<and> (if m + 1 = length tab then addr < st_value sym + 0x1000 else addr < st_value (tab ! (m + 1)))
     \<and> (st_size sym = 0 \<or> addr \<le> st_value sym + st_size sym))"

function lookup_loop :: "elf_symbol list \<Rightarrow> u64 \<Rightarrow> nat \<Rightarrow> nat \<Rightarrow> nat option" where
  "lookup_loop tab addr l r = (if l < r then
     let m = l + (r - l) div 2; sym = tab ! m in
     if in_symbol tab m addr then (if st_value sym = 0 then None else Some m)
     else if st_value sym < addr then lookup_loop tab addr (m + 1) r
     else lookup_loop tab addr l m
   else None)"
  by pat_completeness auto
termination by (relation "measure (\<lambda>(tab, addr, l, r). r - l)") auto

declare lookup_loop.simps [simp del]

definition SYMTAB_ADDR :: u64 where "SYMTAB_ADDR = 0x1000000"

definition map_symtab :: "kconf \<Rightarrow> kstate \<Rightarrow> kstate" where
  "map_symtab C k = (let p = pageno (kernel_pagetable C) + 2; i = unat (SYMTAB_ADDR div 0x200000) in
     if mem k p i = 0 then set_entry p i (SYMTAB_ADDR OR PTE_P OR PTE_W OR PTE_PS) k else k)"

definition lookup_symbol :: "kconf \<Rightarrow> elf_symbol list \<Rightarrow> u64 \<Rightarrow> kstate \<Rightarrow> ((32 word \<times> u64) option \<times> kstate)" where
  "lookup_symbol C tab addr k =
     (map_option (\<lambda>m. (st_name (tab ! m), st_value (tab ! m))) (lookup_loop tab addr 0 (length tab)), map_symtab C k)"

text \<open>What the search needs of the table: it is sorted by address, and no two symbols start at
  the address that is looked up.\<close>

definition symbols_sorted :: "elf_symbol list \<Rightarrow> bool" where
  "symbols_sorted tab \<longleftrightarrow> (\<forall>i j. i \<le> j \<longrightarrow> j < length tab \<longrightarrow> st_value (tab ! i) \<le> st_value (tab ! j))"

definition shared_start :: "elf_symbol list \<Rightarrow> u64 \<Rightarrow> bool" where
  "shared_start tab addr \<longleftrightarrow> (\<exists>i. i + 1 < length tab \<and> st_value (tab ! i) = addr \<and> st_value (tab ! (i + 1)) = addr)"

lemma symbols_le: "symbols_sorted tab \<Longrightarrow> i \<le> j \<Longrightarrow> j < length tab \<Longrightarrow> st_value (tab ! i) \<le> st_value (tab ! j)"
  by (simp add: symbols_sorted_def)

text \<open>What the comparison with one symbol says about the others.\<close>

lemma not_left:
  assumes "symbols_sorted tab" and "m < length tab" and "st_value (tab ! m) \<le> addr" and "j < m"
  shows "\<not> in_symbol tab j addr"
proof -
  have "st_value (tab ! (j + 1)) \<le> st_value (tab ! m)" by (rule symbols_le [OF assms(1)]) (use assms(2,4) in simp_all)
  then have "st_value (tab ! (j + 1)) \<le> addr" using assms(3) by simp
  moreover have "j + 1 \<noteq> length tab" using assms(2,4) by simp
  ultimately show ?thesis by (simp add: in_symbol_def Let_def not_less)
qed

lemma not_right:
  assumes "symbols_sorted tab" and "\<not> shared_start tab addr" and "j < length tab" and "addr \<le> st_value (tab ! m)" and "m < j"
  shows "\<not> in_symbol tab j addr"
proof
  assume "in_symbol tab j addr"
  then have "st_value (tab ! j) \<le> addr" by (simp add: in_symbol_def Let_def)
  moreover have "st_value (tab ! m) \<le> st_value (tab ! (m + 1))" "st_value (tab ! (m + 1)) \<le> st_value (tab ! j)"
    using assms(3,5) by (simp_all add: symbols_le [OF assms(1)])
  ultimately have "st_value (tab ! m) = addr" "st_value (tab ! (m + 1)) = addr" using assms(4) by (meson dual_order.trans order_antisym)+
  then show False using assms(2,3,5) by (auto simp: shared_start_def)
qed

lemma in_symbol_unique:
  assumes "symbols_sorted tab" and "in_symbol tab i addr" and "in_symbol tab j addr" and "i < length tab" and "j < length tab"
  shows "i = j"
proof (rule ccontr)
  assume "i \<noteq> j"
  then consider "i < j" | "j < i" by linarith
  then show False
    using not_left [OF assms(1), of j addr i] not_left [OF assms(1), of i addr j] assms by cases (auto simp: in_symbol_def Let_def)
qed

lemma lookup_loop_correct:
  assumes "symbols_sorted tab" and "\<not> shared_start tab addr" and "r \<le> length tab"
    and "\<forall>j < length tab. in_symbol tab j addr \<longrightarrow> l \<le> j \<and> j < r"
  shows "lookup_loop tab addr l r = Some m \<longleftrightarrow> m < length tab \<and> in_symbol tab m addr \<and> st_value (tab ! m) \<noteq> 0"
  using assms
proof (induction tab addr l r rule: lookup_loop.induct)
  case (1 tab addr l r)
  note sorted = 1(3) and unshared = 1(4)
  show ?case
  proof (cases "l < r")
    case False
    then show ?thesis using 1(6) by (subst lookup_loop.simps) auto
  next
    case True
    define k where "k = l + (r - l) div 2"
    have k: "l \<le> k" "k < r" "k < length tab" using True 1(5) by (auto simp: k_def)
    have step: "lookup_loop tab addr l r = (if in_symbol tab k addr then (if st_value (tab ! k) = 0 then None else Some k)
       else if st_value (tab ! k) < addr then lookup_loop tab addr (k + 1) r else lookup_loop tab addr l k)"
      using True by (subst lookup_loop.simps) (simp add: Let_def k_def)
    consider "in_symbol tab k addr" | "\<not> in_symbol tab k addr" "st_value (tab ! k) < addr" | "\<not> in_symbol tab k addr" "addr \<le> st_value (tab ! k)"
      by (meson not_le)
    then show ?thesis
    proof cases
      case hit: 1
      have "m = k" if "m < length tab" "in_symbol tab m addr" using in_symbol_unique [OF sorted that(2) hit that(1) k(3)] .
      then show ?thesis unfolding step using hit k(3) by auto
    next
      case 2
      have "\<forall>j < length tab. in_symbol tab j addr \<longrightarrow> k + 1 \<le> j \<and> j < r"
        using not_left [OF sorted k(3), of addr] 2 1(6) by (metis Suc_eq_plus1 Suc_leI less_imp_le linorder_neqE_nat)
      then show ?thesis unfolding step using 1(1) [OF True k_def refl 2(1,2) sorted unshared 1(5)] 2 by simp
    next
      case 3
      have "\<forall>j < length tab. in_symbol tab j addr \<longrightarrow> l \<le> j \<and> j < k"
        using not_right [OF sorted unshared, of _ k] 3 1(6) by (metis linorder_neqE_nat)
      moreover have "\<not> st_value (tab ! k) < addr" using 3 by simp
      ultimately show ?thesis unfolding step using 1(2) [OF True k_def refl 3(1) _ sorted unshared] 3(1) k(3) by simp
    qed
  qed
qed

text \<open>C35: The binary search of a symbol table that is sorted by address, with no two symbols that start at the address
  looked up, always ends, and finds the symbol that the
  address belongs to, if there is one: the symbol starts at or before the address, the next one after it,
  and the address is within its size if it has one. If two symbols start at the address
  the search may then go to the left of the one that it looks for.\<close>

theorem lookup_symbol_correct:
  assumes "symbols_sorted tab" and "\<not> shared_start tab addr"
  shows "fst (lookup_symbol C tab addr k) = Some x \<longleftrightarrow>
    (\<exists>m < length tab. in_symbol tab m addr \<and> st_value (tab ! m) \<noteq> 0 \<and> x = (st_name (tab ! m), st_value (tab ! m)))"
proof -
  have "lookup_loop tab addr 0 (length tab) = Some m \<longleftrightarrow> m < length tab \<and> in_symbol tab m addr \<and> st_value (tab ! m) \<noteq> 0" for m
    by (rule lookup_loop_correct [OF assms]) simp_all
  then show ?thesis by (auto simp: lookup_symbol_def)
qed

definition sym :: "32 word \<Rightarrow> u8 \<Rightarrow> u64 \<Rightarrow> u64 \<Rightarrow> elf_symbol" where
  "sym n info v sz = \<lparr>st_name = n, st_info = info, st_other = 0, st_shndx = 1, st_value = v, st_size = sz\<rparr>"

definition demo_symbols :: "elf_symbol list" where
  "demo_symbols = [sym 0 0 0 0, sym 1 0x12 0x40000 0x80, sym 9 0x12 0x40080 0, sym 20 0x12 0x40200 0x40]"

lemma lookup_symbol_correct_witness: "fst (lookup_symbol demo_conf demo_symbols 0x40100 empty_kernel) = Some (9, 0x40080)"
proof -
  have v: "map st_value demo_symbols = [0, 0x40000, 0x40080, 0x40200]" by (simp add: demo_symbols_def sym_def)
  have "sorted (map st_value demo_symbols)" unfolding v by simp
  then have "symbols_sorted demo_symbols" by (auto simp: symbols_sorted_def sorted_iff_nth_mono)
  moreover have "\<not> shared_start demo_symbols 0x40100" by (auto simp: shared_start_def demo_symbols_def sym_def nth_Cons')
  ultimately show ?thesis
    using lookup_symbol_correct [of demo_symbols "0x40100" demo_conf empty_kernel "(9, 0x40080)"]
    by (simp add: demo_symbols_def sym_def in_symbol_def Let_def) (auto intro!: exI [of _ 2])
qed

text \<open>With two symbols at one address the search can fail although the second of them matches.\<close>

lemma lookup_symbol_misses:
  "let tab = [sym 1 0x12 0x40000 0x10, sym 1 0x12 0x40000 0x10, sym 5 0x12 0x40000 0x20] in
     in_symbol tab 2 0x40000 \<and> symbols_sorted tab \<and> lookup_loop tab 0x40000 0 (length tab) = None"
  by (simp add: Let_def in_symbol_def sym_def lookup_loop.simps symbols_sorted_def nth_Cons')

section \<open>The table as the build makes it\<close>

text \<open>\<open>mkchickadeesymtab\<close> sorts the symbols after the first one, in the order of \<open>symbol_less\<close>: symbols of sections and files
  come first, then objects and functions by address. \<open>std::stable_sort\<close> is \<open>sort_key\<close>, with the key that
  \<open>symbol_less\<close> compares.\<close>

definition special :: "elf_symbol \<Rightarrow> bool" where "special a \<longleftrightarrow> 2 < st_info a AND 0x0F"

definition symbol_less :: "elf_symbol \<Rightarrow> elf_symbol \<Rightarrow> bool" where
  "symbol_less a b \<longleftrightarrow> (if special a \<or> special b then special a \<and> \<not> special b
     else st_value a < st_value b \<or> (st_value a = st_value b \<and> st_size a < st_size b))"

definition symbol_key :: "elf_symbol \<Rightarrow> nat \<times> nat \<times> nat" where
  "symbol_key a = (if special a then (0, 0, 0) else (1, unat (st_value a), unat (st_size a)))"

lemma symbol_less_key: "symbol_less a b \<longleftrightarrow> symbol_key a < symbol_key b"
  by (auto simp: symbol_less_def symbol_key_def less_prod_def' word_less_nat_alt word_unat_eq_iff)

text \<open>The loop looks for the first symbol, from the third on, that is less than the one before it.\<close>

fun first_unsorted :: "elf_symbol list \<Rightarrow> nat \<Rightarrow> nat" where
  "first_unsorted (a # b # tab) i = (if symbol_less b a then i else first_unsorted (b # tab) (i + 1))"
| "first_unsorted _ i = i"

definition sort_symtab :: "elf_symbol list \<Rightarrow> elf_symbol list \<times> bool" where
  "sort_symtab tab = (if 2 < length tab \<and> first_unsorted (tl tab) 2 < length tab
     then (hd tab # sort_key symbol_key (tl tab), True) else (tab, False))"

lemma first_unsorted_end:
  "first_unsorted tab i < i + length tab - 1 \<longleftrightarrow> \<not> sorted_wrt (\<lambda>a b. \<not> symbol_less b a) tab" if "tab \<noteq> []"
  using that
proof (induction tab i rule: first_unsorted.induct)
  case (1 a b tab i)
  have tr: "\<not> symbol_less x y" if "\<not> symbol_less z y" "\<not> symbol_less x z" for x y z
    using that by (simp add: symbol_less_key not_less)
  show ?case
  proof (cases "symbol_less b a")
    case False
    then have "first_unsorted (a # b # tab) i < i + length (a # b # tab) - 1 \<longleftrightarrow> \<not> sorted_wrt (\<lambda>a b. \<not> symbol_less b a) (b # tab)"
      using 1 by simp
    also have "sorted_wrt (\<lambda>a b. \<not> symbol_less b a) (b # tab) \<longleftrightarrow> sorted_wrt (\<lambda>a b. \<not> symbol_less b a) (a # b # tab)"
      using False tr by auto
    finally show ?thesis .
  qed simp
qed simp_all

lemma sort_symtab_sorted:
  assumes "tab \<noteq> []"
  shows "mset (fst (sort_symtab tab)) = mset tab \<and> hd (fst (sort_symtab tab)) = hd tab
    \<and> sorted (map symbol_key (tl (fst (sort_symtab tab))))"
proof -
  have sw: "sorted_wrt (\<lambda>a b. \<not> symbol_less b a) t \<longleftrightarrow> sorted (map symbol_key t)" for t
    by (simp add: symbol_less_key not_less sorted_map)
  obtain a t where tab: "tab = a # t" using assms by (cases tab) simp_all
  show ?thesis
  proof (cases "2 < length tab \<and> first_unsorted (tl tab) 2 < length tab")
    case True
    then show ?thesis by (simp add: sort_symtab_def tab)
  next
    case False
    have "sorted (map symbol_key t)"
    proof (cases "2 < length tab")
      case True
      then have "\<not> first_unsorted t 2 < 2 + length t - 1" "t \<noteq> []" using False tab by auto
      then show ?thesis using first_unsorted_end sw by blast
    next
      case False
      then show ?thesis using tab by (cases t) simp_all
    qed
    then show ?thesis using False tab by (simp add: sort_symtab_def)
  qed
qed

text \<open>So the table is what the search needs, provided that the special symbols have no address: symbols of
  files have none, those of sections have one and may lead the search astray.\<close>

lemma sort_symtab_searchable:
  assumes "tab \<noteq> []" and "st_value (hd tab) = 0" and "\<forall>s \<in> set tab. special s \<longrightarrow> st_value s = 0"
  shows "symbols_sorted (fst (sort_symtab tab))"
proof -
  define t where "t = fst (sort_symtab tab)"
  have t: "mset t = mset tab" "hd t = hd tab" "sorted (map symbol_key (tl t))" using sort_symtab_sorted [OF assms(1)] by (simp_all add: t_def)
  have "t \<noteq> []" "\<forall>s \<in> set t. special s \<longrightarrow> st_value s = 0" using t(1) assms(1,3) by (metis mset_zero_iff, metis set_mset_mset)
  then obtain a r where r: "t = a # r" "st_value a = 0" "\<forall>s \<in> set r. special s \<longrightarrow> st_value s = 0" "sorted (map symbol_key r)"
    using t(2,3) assms(2) by (cases t) auto
  have le: "st_value x \<le> st_value y" if "symbol_key x \<le> symbol_key y" "special x \<longrightarrow> st_value x = 0" for x y
    using that by (auto simp: symbol_key_def less_eq_prod_def word_le_nat_alt word_less_nat_alt split: if_splits)
  have "st_value (t ! i) \<le> st_value (t ! j)" if "i \<le> j" "j < length t" for i j
  proof (cases i)
    case 0
    then show ?thesis using r(1,2) by simp
  next
    case (Suc n)
    have "j \<noteq> 0" using that(1) Suc by simp
    then obtain l where "j = Suc l" using not0_implies_Suc by blast
    then have j: "j = Suc l" "n \<le> l" "l < length r" using that r(1) Suc by simp_all
    have "symbol_key (r ! n) \<le> symbol_key (r ! l)" using sorted_nth_mono [OF r(4), of n l] j by simp
    then show ?thesis using le r(3) j Suc r(1) by simp
  qed
  then show ?thesis unfolding symbols_sorted_def t_def by blast
qed

section \<open>The frames of a stack\<close>

record backtracer =
  bt_rbp :: u64
  bt_rsp :: u64
  bt_top :: u64
  bt_pt :: u64

definition bt_check :: "pmem \<Rightarrow> backtracer \<Rightarrow> backtracer option" where
  "bt_check m b = (if bt_rbp b < bt_rsp b \<or> bt_top b < bt_rbp b \<or> bt_top b - bt_rbp b < 16 \<or> bt_pt b = 0
     then Some (b\<lparr>bt_rbp := 0, bt_rsp := 0\<rparr>)
     else do {
       it \<leftarrow> vmiter_at m (bt_pt b) (bt_rbp b);
       p \<leftarrow> range_perm m it 16;
       Some (if p AND PTE_P = 0 \<or> bt_rbp b AND 7 \<noteq> 0 then b\<lparr>bt_rbp := 0, bt_rsp := 0\<rparr> else b) })"

text \<open>Reading through a null pointer or at an address that is not a multiple of 8 is a fault of the kernel. Every other
  physical address can be read: the kernel's own page table maps physical memory to itself, and the model does not
  look at it here.\<close>

definition read_word :: "pmem \<Rightarrow> u64 \<Rightarrow> u64 option" where
  "read_word m a = (if a \<noteq> 0 \<and> a AND 7 = 0 then Some (m (pageno a) (unat a mod PAGESIZE div 8)) else None)"

definition deref_rbp :: "pmem \<Rightarrow> backtracer \<Rightarrow> u64 \<Rightarrow> u64 option" where
  "deref_rbp m b off = do {
     it \<leftarrow> vmiter_at m (bt_pt b) (bt_rbp b + off);
     read_word m (vm_kptr m it) }"

definition bt_new :: "pmem \<Rightarrow> regstate \<Rightarrow> u64 \<Rightarrow> u64 \<Rightarrow> backtracer option" where
  "bt_new m rg stack_top pt = bt_check m \<lparr>bt_rbp = reg_rbp rg, bt_rsp = reg_rsp rg, bt_top = stack_top, bt_pt = pt\<rparr>"

definition bt_step :: "pmem \<Rightarrow> backtracer \<Rightarrow> backtracer option" where
  "bt_step m b = (let b = b\<lparr>bt_rsp := bt_rbp b + 16\<rparr> in do {
     rbp \<leftarrow> deref_rbp m b 0;
     bt_check m (b\<lparr>bt_rbp := rbp\<rparr>) })"

text \<open>The loop of \<open>log_backtrace\<close> goes through the return addresses. A line is logged for each
  that has a symbol or is not zero; before the loop there may be a warning of a stack overflow.\<close>

partial_function (option) frames :: "pmem \<Rightarrow> backtracer \<Rightarrow> u64 list option" where
  "frames m b = (if bt_rsp b \<noteq> 0 then do {
       ret_rip \<leftarrow> deref_rbp m b 8;
       b \<leftarrow> bt_step m b;
       rips \<leftarrow> frames m b;
       Some (ret_rip # rips) }
     else Some [])"

definition frame_line :: "elf_symbol list \<Rightarrow> nat \<times> u64 \<Rightarrow> (nat \<times> u64 \<times> 32 word option) option" where
  "frame_line tab fr = (case fr of (frame, rip) \<Rightarrow> (case lookup_loop tab rip 0 (length tab) of
     Some i \<Rightarrow> Some (frame, rip, Some (st_name (tab ! i)))
   | None \<Rightarrow> if rip \<noteq> 0 then Some (frame, rip, None) else None))"

definition log_backtrace :: "elf_symbol list \<Rightarrow> pmem \<Rightarrow> backtracer \<Rightarrow> (bool \<times> (nat \<times> u64 \<times> 32 word option) list) option" where
  "log_backtrace tab m b = do {
     rips \<leftarrow> frames m b;
     Some (bt_rsp b \<noteq> bt_rbp b \<and> round_up_page (bt_rsp b) = round_down_page (bt_rbp b),
       List.map_filter (frame_line tab) (zip [1 ..< length rips + 1] rips)) }"

definition log_backtrace_proc :: "elf_symbol list \<Rightarrow> pmem \<Rightarrow> proc \<Rightarrow> (bool \<times> (nat \<times> u64 \<times> 32 word option) list) option" where
  "log_backtrace_proc tab m p = do {
     b \<leftarrow> bt_new m (regs p) (round_up_page (reg_rsp (regs p))) (pagetable p);
     log_backtrace tab m b }"

subsection \<open>It ends\<close>

text \<open>\<open>range_perm\<close> does not look at the next page if the size is at most a page, wherever in its page the
  address is.\<close>

lemma range_perm_page:
  assumes "sz \<le> of_nat PAGESIZE" and "vlevel it \<le> 3"
  shows "range_perm m it sz = Some (if vm_perm m it AND PTE_P \<noteq> 0 then vm_perm m it else 0)"
proof -
  consider "vlevel it = 0" | "vlevel it = 1" | "vlevel it = 2" | "vlevel it = 3" using assms(2) by linarith
  then have "unat (pageoffmask (vlevel it) + 1) \<ge> 4096" by cases (simp_all add: pageoffmask_def)
  then have "\<not> pageoffmask (vlevel it) + 1 < sz" using assms(1) by (simp add: word_less_nat_alt word_le_nat_alt)
  then show ?thesis by (simp add: range_perm_def Let_def)
qed

lemma and_7: "a AND 7 = 0 \<longleftrightarrow> unat (a :: u64) mod 8 = 0"
proof -
  have "a AND 7 = take_bit 3 a" by (simp add: take_bit_eq_mask mask_eq_exp_minus_1)
  then have "a AND 7 = 0 \<longleftrightarrow> unat (take_bit 3 a) = 0" by (simp add: unat_eq_0)
  also have "unat (take_bit 3 a) = unat a mod 8" by (simp add: take_bit_eq_mod unat_mod)
  finally show ?thesis .
qed

lemma same_page_facts:
  assumes "unat a div 4096 = unat (b :: u64) div 4096"
  shows "mapping m r a = mapping m r b" and "va_is_canonical a = va_is_canonical b"
proof -
  have ix: "pageindex a l = pageindex b l" for l
  proof -
    have "x div 2 ^ (12 + l * 9) = x div 4096 div 2 ^ (l * 9)" for x :: nat by (simp add: power_add div_mult2_eq)
    then show ?thesis by (simp only: pageindex_div assms)
  qed
  then have "table_at m r a 3 = table_at m r b 3" by (intro table_at_same_path) (simp add: same_path_def)
  then show "mapping m r a = mapping m r b" unfolding mapping_def ix [of 0] by simp
  have "va_is_canonical c \<longleftrightarrow> unat c div 4096 < 2 ^ 35 \<or> 2 ^ 52 - 2 ^ 35 \<le> unat c div 4096" for c :: u64
    by (auto simp: va_is_canonical_def word_le_nat_alt)
  then show "va_is_canonical a = va_is_canonical b" by (simp only: assms)
qed

text \<open>The iterator at any address.\<close>

lemma look_up:
  assumes "owned k r" and "low (mem k) r" and "pageno pt = r"
  obtains it where "vmiter_at (mem k) pt va = Some it" and "vlevel it \<le> 3"
    and "vm_perm (mem k) it AND PTE_P \<noteq> 0 \<Longrightarrow> va_is_canonical va \<and> mapping (mem k) r va \<noteq> None"
    and "va_is_canonical va \<Longrightarrow> settled (mem k) it \<and> vva it = va \<and> vpt it = pt"
proof (cases "va_is_canonical va")
  case True
  obtain it where it: "vmiter_at (mem k) pt va = Some it"
    by (rule vmiter_at_total [of "mem k" pt va]) (use assms True in simp_all)
  note w = vmiter_at_settled [of k pt va it, unfolded assms(3), OF assms(1) True it]
  have "vlevel it \<le> 3" using w(1) by (simp add: settled_def on_path_def)
  then show ?thesis by (rule that [OF it]) (use vm_perm_mapping [OF w(1)] w True assms(3) in \<open>auto split: option.splits\<close>)
next
  case False
  let ?it = "\<lparr>vpt = pt, vpep = None, vlevel = 3, vperm = 0, vva = va\<rparr>"
  have "down_loop (mem k) 3 ?it = ?it" by (simp add: numeral_3_eq_3 entry_def pte_defs)
  then have it: "vmiter_at (mem k) pt va = Some ?it"
    using False by (simp add: vmiter_at_def real_find_def down_def Let_def entry_def)
  show ?thesis by (rule that [OF it]) (use False in \<open>simp_all add: vm_perm_def entry_def Let_def\<close>)
qed

text \<open>A frame that has been checked: it lies in the page \<open>q\<close> of the stack, whose end is the top.\<close>

definition frame_ok :: "kstate \<Rightarrow> nat \<Rightarrow> nat \<Rightarrow> backtracer \<Rightarrow> bool" where
  "frame_ok k r q b \<longleftrightarrow> unat (bt_top b) = (q + 1) * 4096 \<and> q * 4096 \<le> unat (bt_rsp b) \<and> bt_rsp b \<le> bt_rbp b
     \<and> unat (bt_rbp b) + 16 \<le> (q + 1) * 4096 \<and> unat (bt_rbp b) mod 8 = 0 \<and> pageno (bt_pt b) = r
     \<and> va_is_canonical (bt_rbp b) \<and> mapping (mem k) r (bt_rbp b) \<noteq> None"

definition no_null :: "pmem \<Rightarrow> nat \<Rightarrow> bool" where
  "no_null m r \<longleftrightarrow> (\<forall>va perm. mapping m r va \<noteq> Some (0, perm))"

lemma check_total:
  assumes "owned k r" and "low (mem k) r" and "pageno (bt_pt b) = r" and "unat (bt_top b) = (q + 1) * 4096" and "q * 4096 \<le> unat (bt_rsp b)"
  obtains b' where "bt_check (mem k) b = Some b'" and "bt_rsp b' = 0 \<or> b' = b \<and> frame_ok k r q b"
proof (cases "bt_rbp b < bt_rsp b \<or> bt_top b < bt_rbp b \<or> bt_top b - bt_rbp b < 16 \<or> bt_pt b = 0")
  case True
  then show ?thesis by (intro that [of "b\<lparr>bt_rbp := 0, bt_rsp := 0\<rparr>"]) (simp_all add: bt_check_def)
next
  case False
  obtain it where it: "vmiter_at (mem k) (bt_pt b) (bt_rbp b) = Some it" "vlevel it \<le> 3"
    "vm_perm (mem k) it AND PTE_P \<noteq> 0 \<Longrightarrow> va_is_canonical (bt_rbp b) \<and> mapping (mem k) r (bt_rbp b) \<noteq> None"
    using look_up [OF assms(1-3), of "bt_rbp b"] by blast
  have sz: "(16 :: u64) \<le> of_nat PAGESIZE" by simp
  define p where "p = (if vm_perm (mem k) it AND PTE_P \<noteq> 0 then vm_perm (mem k) it else 0)"
  have c: "bt_check (mem k) b = Some (if p AND PTE_P = 0 \<or> bt_rbp b AND 7 \<noteq> 0 then b\<lparr>bt_rbp := 0, bt_rsp := 0\<rparr> else b)"
    using False it(1) range_perm_page [OF sz it(2), of "mem k"] by (simp add: bt_check_def p_def)
  show ?thesis
  proof (cases "p AND PTE_P = 0 \<or> bt_rbp b AND 7 \<noteq> 0")
    case True
    then show ?thesis using that [OF c] by simp
  next
    case ok: False
    then have m: "va_is_canonical (bt_rbp b)" "mapping (mem k) r (bt_rbp b) \<noteq> None" using it(3) by (simp_all add: p_def split: if_splits)
    have "unat (bt_top b - bt_rbp b) = unat (bt_top b) - unat (bt_rbp b)" using False by (simp add: unat_sub not_less)
    moreover have "unat (bt_rbp b) \<le> unat (bt_top b)" "16 \<le> unat (bt_top b - bt_rbp b)"
      using False by (simp_all add: word_less_nat_alt not_less)
    ultimately have "unat (bt_rbp b) + 16 \<le> unat (bt_top b)" by linarith
    then have "frame_ok k r q b" using m assms(3,4,5) False ok by (simp add: frame_ok_def and_7 not_less)
    then show ?thesis using that [OF c] ok by simp
  qed
qed

lemma deref_total:
  assumes "owned k r" and "low (mem k) r" and "no_null (mem k) r" and "unat (bt_rbp b + off) = unat (bt_rbp b) + unat off"
    and "unat (bt_rbp b) div 4096 = q" and "unat (bt_rbp b) + unat off < (q + 1) * 4096" and "unat off mod 8 = 0"
    and "unat (bt_rbp b) mod 8 = 0" and "pageno (bt_pt b) = r" and "va_is_canonical (bt_rbp b)" and "mapping (mem k) r (bt_rbp b) \<noteq> None"
  shows "deref_rbp (mem k) b off \<noteq> None"
proof -
  define va where "va = bt_rbp b + off"
  have u: "unat va = unat (bt_rbp b) + unat off" using assms(4) by (simp add: va_def)
  have "q * 4096 \<le> unat va" using assms(5) u by (metis div_times_less_eq_dividend le_add1 order_trans)
  then have d: "unat va div 4096 = unat (bt_rbp b) div 4096"
    using assms(5,6) u by (simp add: div_nat_eqI)
  note sp = same_page_facts [OF d]
  obtain it where it: "vmiter_at (mem k) (bt_pt b) va = Some it" "va_is_canonical va \<Longrightarrow> settled (mem k) it \<and> vva it = va \<and> vpt it = bt_pt b"
    using look_up [OF assms(1,2,9), of va] by blast
  have s: "settled (mem k) it" "vva it = va" "vpt it = bt_pt b" using it(2) sp(2) assms(10) by simp_all
  obtain pa perm where m: "mapping (mem k) r va = Some (pa, perm)" using assms(11) sp(1) by auto
  have "mapping (mem k) (pageno (vpt it)) (vva it) = Some (pa, perm)" using m s(2,3) assms(9) by simp
  note e = mapping_entry [OF s(1) this]
  have pa: "pa \<noteq> 0" "pa AND PTE_PAMASK = pa" using assms(3) m mapping_low(2) [OF m] by (auto simp: no_null_def)
  have bits: "\<not> bit pa n" if "n < 12" for n
  proof -
    have "pa = push_bit 12 (of_nat (pageno pa))" using page_addr_pageno(1) [OF pa(2)] page_addr_push by simp
    then show ?thesis using that by (metis bit_push_bit_iff not_less)
  qed
  define a where "a = vm_kptr (mem k) it"
  have "a = pa + (va AND pageoffmask 0)" using e(1,2,5) s(2) by (simp add: a_def vm_kptr_def vm_pa_def Let_def)
  also have "\<dots> = pa OR (va AND pageoffmask 0)"
    by (rule disjunctive_add_eq_or) (rule bit_word_eqI, use bits in \<open>auto simp: bit_simps pageoffmask_mask\<close>)
  finally have a: "a = pa OR (va AND pageoffmask 0)" .
  obtain n where n: "bit pa n" using pa(1) by (metis bit_0_eq bit_eq_iff bot_apply bot_bool_def)
  have "a \<noteq> 0" using n unfolding a by (metis bit_or_iff bit_0_eq bot_apply bot_bool_def)
  moreover have "va AND 7 = 0" using u assms(7,8) by (simp add: and_7 mod_add_eq [symmetric])
  then have "a AND 7 = 0"
  proof -
    assume v: "va AND 7 = 0"
    have "bit (a AND 7) i = bit (va AND 7) i" for i
    proof (cases "i < 3")
      case True
      then show ?thesis using bits [of i] unfolding a by (auto simp: bit_simps pageoffmask_mask dest: bit_imp_le_length)
    next
      case False
      have "(7 :: u64) = mask 3" by (simp add: mask_eq_exp_minus_1)
      then show ?thesis using False by (simp only: bit_and_iff bit_mask_iff) simp
    qed
    then show ?thesis using v by (metis bit_eq_iff)
  qed
  ultimately show ?thesis using it(1) by (simp add: deref_rbp_def va_def [symmetric] read_word_def a_def [symmetric])
qed

lemma deref_frame:
  assumes "owned k r" and "low (mem k) r" and "no_null (mem k) r" and "frame_ok k r q b" and "off = 0 \<or> off = 8"
  shows "deref_rbp (mem k) (b\<lparr>bt_rsp := rsp\<rparr>) off \<noteq> None"
proof -
  have f: "unat (bt_top b) = (q + 1) * 4096" "q * 4096 \<le> unat (bt_rbp b)" "unat (bt_rbp b) + 16 \<le> (q + 1) * 4096" "unat (bt_rbp b) mod 8 = 0"
    "pageno (bt_pt b) = r" "va_is_canonical (bt_rbp b)" "mapping (mem k) r (bt_rbp b) \<noteq> None"
    using assms(4) by (auto simp: frame_ok_def word_le_nat_alt)
  have o: "unat off \<le> 8" "unat off mod 8 = 0" using assms(5) by auto
  have d: "unat (bt_rbp b) div 4096 = q" using f(2,3) by (intro div_nat_eqI) (simp_all add: mult.commute)
  have "unat (bt_top b) < 2 ^ 64" using unsigned_less [of "bt_top b"] by simp
  then have s: "unat (bt_rbp b) + unat off < 2 ^ 64" using f(1,3) o(1) by linarith
  then have u: "unat (bt_rbp b + off) = unat (bt_rbp b) + unat off" by (subst unat_add_lem [THEN iffD1]) simp_all
  show ?thesis by (rule deref_total [OF assms(1-3), where q = q]) (use u d f o in simp_all)
qed

lemma frames_total:
  assumes "owned k r" and "low (mem k) r" and "no_null (mem k) r" and "bt_rsp b = 0 \<or> frame_ok k r q b"
  shows "\<exists>rips. frames (mem k) b = Some rips \<and> (bt_rsp b \<noteq> 0 \<longrightarrow> length rips * 16 \<le> (q + 1) * 4096 - unat (bt_rsp b)) \<and> (bt_rsp b = 0 \<longrightarrow> rips = [])"
  using assms(4)
proof (induction "(q + 1) * 4096 - unat (bt_rsp b)" arbitrary: b rule: less_induct)
  case less
  show ?case
  proof (cases "bt_rsp b = 0")
    case True
    then show ?thesis by (subst frames.simps) simp
  next
    case False
    then have f: "frame_ok k r q b" using less.prems by simp
    then have v: "unat (bt_top b) = (q + 1) * 4096" "q * 4096 \<le> unat (bt_rsp b)" "unat (bt_rsp b) \<le> unat (bt_rbp b)"
      "unat (bt_rbp b) + 16 \<le> (q + 1) * 4096" "pageno (bt_pt b) = r"
      by (simp_all add: frame_ok_def word_le_nat_alt)
    obtain rip where rip: "deref_rbp (mem k) b 8 = Some rip"
      using deref_frame [OF assms(1-3) f, of 8 "bt_rsp b"] by auto
    define b1 where "b1 = b\<lparr>bt_rsp := bt_rbp b + 16\<rparr>"
    obtain w where w: "deref_rbp (mem k) b1 0 = Some w"
      using deref_frame [OF assms(1-3) f, of 0 "bt_rbp b + 16"] by (auto simp: b1_def)
    have "unat (bt_top b) < 2 ^ 64" using unsigned_less [of "bt_top b"] by simp
    then have u: "unat (bt_rbp b + 16) = unat (bt_rbp b) + 16" using v(1,4) by (subst unat_add_lem [THEN iffD1]) simp_all
    define b2 where "b2 = b1\<lparr>bt_rbp := w\<rparr>"
    have b2: "bt_top b2 = bt_top b" "bt_pt b2 = bt_pt b" "unat (bt_rsp b2) = unat (bt_rbp b) + 16" by (simp_all add: b2_def b1_def u)
    obtain b3 where b3: "bt_check (mem k) b2 = Some b3" "bt_rsp b3 = 0 \<or> b3 = b2 \<and> frame_ok k r q b2"
      using check_total [OF assms(1,2), of b2 q] v b2 by auto
    have st: "bt_step (mem k) b = Some b3" using w b3(1) by (simp add: bt_step_def b1_def b2_def)
    have "\<exists>rips. frames (mem k) b3 = Some rips \<and> length rips * 16 + 16 \<le> (q + 1) * 4096 - unat (bt_rsp b)"
    proof (cases "bt_rsp b3 = 0")
      case True
      then have "frames (mem k) b3 = Some []" by (subst frames.simps) simp
      then show ?thesis using v by auto
    next
      case nz: False
      then have e: "b3 = b2" "frame_ok k r q b3" using b3(2) by auto
      have "(q + 1) * 4096 - unat (bt_rsp b3) < (q + 1) * 4096 - unat (bt_rsp b)" unfolding e(1) b2(3) using v(2-4) by linarith
      from less.hyps [OF this] e(2) obtain rips where
        "frames (mem k) b3 = Some rips" "length rips * 16 \<le> (q + 1) * 4096 - unat (bt_rsp b3)" using nz by auto
      then have "frames (mem k) b3 = Some rips \<and> length rips * 16 + 16 \<le> (q + 1) * 4096 - unat (bt_rsp b)"
        using v(2-4) unfolding e(1) b2(3) by linarith
      then show ?thesis by blast
    qed
    then obtain rips where r: "frames (mem k) b3 = Some rips" "length rips * 16 + 16 \<le> (q + 1) * 4096 - unat (bt_rsp b)" by blast
    have "frames (mem k) b = Some (rip # rips)" using False rip st r(1) by (subst frames.simps) simp
    then show ?thesis using r(2) False by simp
  qed
qed

lemma round_up_cases: "round_up_page a = 0 \<or> (\<exists>q. unat (round_up_page a) = (q + 1) * 4096 \<and> q * 4096 \<le> unat a)"
proof -
  have "round_up_page a = round_down_page (a + 0xFFF)" by (simp add: round_up_page_def round_down_page_def)
  then have u: "unat (round_up_page a) = unat (a + 0xFFF) div 4096 * 4096" by (simp add: unat_round_down)
  show ?thesis
  proof (cases "unat a + 4095 < 2 ^ 64 \<and> unat a \<noteq> 0")
    case True
    then have s: "unat (a + 0xFFF) = unat a + 4095" by (simp add: unat_word_ariths)
    obtain n where n: "unat a = Suc n" using True not0_implies_Suc by blast
    have "(n + 4096) div 4096 = n div 4096 + 1" by simp
    then have "unat (round_up_page a) = (n div 4096 + 1) * 4096" using u s n by (simp add: add.commute)
    moreover have "n div 4096 * 4096 \<le> unat a" using div_times_less_eq_dividend [of n 4096] n by simp
    ultimately show ?thesis by blast
  next
    case False
    have "unat a < 2 ^ 64" using unsigned_less [of a] by simp
    then have "unat (a + 0xFFF) < 4096" using False by (auto simp: unat_plus_if')
    then have "unat (round_up_page a) = 0" using u by simp
    then show ?thesis by (simp add: unat_eq_0)
  qed
qed

text \<open>C36: A backtrace of a process always ends, without a fault of the kernel and with at most 256 frames,
  whatever the registers and the stack of the process hold: every frame lies in the page of the
  stack pointer, above the frame before it. It holds for page tables that are well formed, as
  those of the kernel's processes are, and do not map page 0 of physical memory.\<close>

theorem backtrace_ends:
  assumes "owned k (pageno (pagetable p))" and "low (mem k) (pageno (pagetable p))" and "no_null (mem k) (pageno (pagetable p))"
  shows "\<exists>warn lines. log_backtrace_proc tab (mem k) p = Some (warn, lines) \<and> length lines \<le> 256"
proof -
  define rsp where "rsp = reg_rsp (regs p)"
  define b0 where "b0 = \<lparr>bt_rbp = reg_rbp (regs p), bt_rsp = rsp, bt_top = round_up_page rsp, bt_pt = pagetable p\<rparr>"
  have new: "bt_new (mem k) (regs p) (round_up_page (reg_rsp (regs p))) (pagetable p) = bt_check (mem k) b0"
    by (simp add: bt_new_def b0_def rsp_def)
  have lines: "length (List.map_filter (frame_line tab) (zip [1 ..< length rips + 1] rips)) \<le> length rips" for rips
  proof -
    have "length (List.map_filter (frame_line tab) xs) \<le> length xs" for xs by (induction xs) (simp_all add: List.map_filter_simps split: option.split)
    from this [of "zip [1 ..< length rips + 1] rips"] show ?thesis by simp
  qed
  have ends: ?thesis if "bt_check (mem k) b0 = Some b" "frames (mem k) b = Some rips" "length rips \<le> 256" for b rips
    using that lines [of rips] new by (simp add: log_backtrace_proc_def log_backtrace_def)
  show ?thesis
  proof (cases "\<exists>q. unat (round_up_page rsp) = (q + 1) * 4096 \<and> q * 4096 \<le> unat rsp")
    case True
    then obtain q where q: "unat (round_up_page rsp) = (q + 1) * 4096" "q * 4096 \<le> unat rsp" by blast
    obtain b where b: "bt_check (mem k) b0 = Some b" "bt_rsp b = 0 \<or> b = b0 \<and> frame_ok k (pageno (pagetable p)) q b0"
      using check_total [OF assms(1,2), of b0 q] q by (auto simp: b0_def)
    then have ok: "bt_rsp b = 0 \<or> frame_ok k (pageno (pagetable p)) q b" by auto
    obtain rips where r: "frames (mem k) b = Some rips" "bt_rsp b \<noteq> 0 \<longrightarrow> length rips * 16 \<le> (q + 1) * 4096 - unat (bt_rsp b)"
      "bt_rsp b = 0 \<longrightarrow> rips = []" using frames_total [OF assms ok] by blast
    have "length rips \<le> 256"
    proof (cases "bt_rsp b = 0")
      case False
      then have "bt_rsp b = rsp" using b(2) by (auto simp: b0_def)
      then show ?thesis using r(2) False q(2) by simp
    qed (use r(3) in simp)
    then show ?thesis by (rule ends [OF b(1) r(1)])
  next
    case False
    then have "round_up_page rsp = 0" using round_up_cases [of rsp] by blast
    then have "bt_top b0 < bt_rbp b0 \<or> bt_top b0 - bt_rbp b0 < 16" by (cases "bt_rbp b0 = 0") (simp_all add: b0_def word_gt_0)
    then have c: "bt_check (mem k) b0 = Some (b0\<lparr>bt_rbp := 0, bt_rsp := 0\<rparr>)" by (auto simp: bt_check_def)
    have "frames (mem k) (b0\<lparr>bt_rbp := 0, bt_rsp := 0\<rparr>) = Some []" by (subst frames.simps) simp
    then show ?thesis by (rule ends [OF c]) simp
  qed
qed

definition demo_stack :: proc where
  "demo_stack = (cur demo_cow)\<lparr>regs := zero_regs\<lparr>reg_rsp := 0x1F00, reg_rbp := 0x1F10\<rparr>\<rparr>"

lemma demo_no_null: "no_null demo_tables 2"
proof -
  have "mapping demo_tables 2 va \<noteq> Some (0, perm)" for va perm
  proof (cases "table_at demo_tables 2 va (Suc (Suc (Suc 0)))")
    case (Some pp)
    then have pp: "pp = (5, 0xFFF)" using demo_path(3) [of va] by (auto split: if_splits)
    show ?thesis using Some pp
      by (auto simp: mapping_def numeral_3_eq_3 demo_tables_def pte_defs Let_def split: if_splits)
  qed (simp add: mapping_def numeral_3_eq_3)
  then show ?thesis by (simp add: no_null_def)
qed

lemma backtrace_ends_witness:
  "\<exists>warn lines. log_backtrace_proc demo_symbols demo_tables demo_stack = Some (warn, lines) \<and> length lines \<le> 256"
proof -
  have p: "pageno (pagetable demo_stack) = 2" by (simp add: demo_stack_def demo_cow_def cur_def demo_root)
  have m: "mem demo_cow = demo_tables" by (simp add: demo_cow_def)
  have lo: "low demo_tables 2" by (auto simp: low_def demo_tables_def low_entry_def PTE_PAMASK_def)
  show ?thesis using backtrace_ends [of demo_cow demo_stack demo_symbols] demo_owned lo demo_no_null by (simp add: p m)
qed

end
