(* ===== verification/BootLd.thy ===== *)
theory BootLd
  imports Prelude
begin

text \<open>
  The boot loader (\<open>src/pset3/boot.cc\<close>). It reads the kernel, an ELF image that starts at sector 1 of the disk, and
  loads its segments. Memory is a function from addresses to bytes and the disk one from offsets to bytes;
  waiting for the drive is not modelled. Every address can be written: that a segment would
  overwrite the loader or lie outside memory is no error here. A bad magic number makes the loader hang: \<open>None\<close>.
\<close>

unbundle bit_operations_syntax

section \<open>Reading a sector\<close>

text \<open>What \<open>boot_readsect\<close> writes to the ports of the drive, and the sector that the drive sends then.\<close>

definition ata_command :: "32 word \<Rightarrow> (nat \<times> u8) list" where
  "ata_command src_sect = [(0x1F2, 1), (0x1F3, ucast src_sect), (0x1F4, ucast (drop_bit 8 src_sect)), (0x1F5, ucast (drop_bit 16 src_sect)),
     (0x1F6, ucast (drop_bit 24 src_sect OR 0xE0)), (0x1F7, 0x20)]"

definition ata_sector :: "(nat \<times> u8) list \<Rightarrow> nat" where
  "ata_sector ws = (let port = (\<lambda>p. case map_of (rev ws) p of Some b \<Rightarrow> unat b | None \<Rightarrow> 0) in
     port 0x1F3 + 2 ^ 8 * port 0x1F4 + 2 ^ 16 * port 0x1F5 + 2 ^ 24 * (port 0x1F6 mod 16))"

definition SECTORSIZE :: nat where "SECTORSIZE = 512"

definition boot_readsect :: "(nat \<Rightarrow> u8) \<Rightarrow> u64 \<Rightarrow> 32 word \<Rightarrow> (nat \<Rightarrow> u8) \<Rightarrow> (nat \<Rightarrow> u8)" where
  "boot_readsect disk dst src_sect m = (\<lambda>a. if unat dst \<le> a \<and> a < unat dst + SECTORSIZE
     then disk (ata_sector (ata_command src_sect) * SECTORSIZE + (a - unat dst)) else m a)"

lemma ata_sector_command:
  assumes "unat s < 2 ^ 28"
  shows "ata_sector (ata_command s) = unat s"
proof -
  have u8: "unat (ucast w :: u8) = unat w mod 2 ^ 8" for w :: "32 word" by (simp add: unsigned_ucast_eq take_bit_eq_mod)
  have dr: "unat (drop_bit n s) = unat s div 2 ^ n" for n by (metis drop_bit_eq_div unat_drop_bit_eq)
  have "unat (drop_bit 24 s OR 0xE0) = (unat s div 2 ^ 24) OR 0xE0" by (simp add: unsigned_or_eq dr)
  moreover have "((x :: nat) OR 0xE0) mod 2 ^ 8 mod 16 = x mod 16" for x
  proof -
    have "take_bit 4 (x OR 0xE0) = take_bit 4 x" by (simp add: take_bit_or)
    then have "(x OR 0xE0) mod 16 = x mod 16" by (simp add: take_bit_eq_mod)
    then show ?thesis by (simp add: mod_mod_cancel)
  qed
  ultimately have "ata_sector (ata_command s) = unat s mod 2 ^ 8 + 2 ^ 8 * (unat s div 2 ^ 8 mod 2 ^ 8) + 2 ^ 16 * (unat s div 2 ^ 16 mod 2 ^ 8)
      + 2 ^ 24 * (unat s div 2 ^ 24 mod 16)"
    by (simp add: ata_sector_def ata_command_def u8 dr)
  also have "\<dots> = unat s"
  proof -
    define n a b c where "n = unat s" and "a = n div 2 ^ 8" and "b = n div 2 ^ 16" and "c = n div 2 ^ 24"
    have "c mod 16 = c" using assms by (simp add: n_def c_def)
    moreover have "c = b div 2 ^ 8" "b = a div 2 ^ 8" by (simp_all add: a_def b_def c_def flip: div_mult2_eq)
    moreover have sp: "x = 256 * (x div 2 ^ 8) + x mod 2 ^ 8" for x :: nat by simp
    note sp [of b] sp [of a] sp [of n]
    ultimately have "n mod 2 ^ 8 + 256 * (a mod 2 ^ 8) + 65536 * (b mod 2 ^ 8) + 16777216 * c = n"
      unfolding a_def by linarith
    then show ?thesis using \<open>c mod 16 = c\<close> by (simp add: n_def a_def b_def c_def)
  qed
  finally show ?thesis .
qed

section \<open>Reading a segment\<close>

lemma unat64: "unat (z :: u64) < 2 ^ 64"
  using unsigned_less [of z] by simp

partial_function (option) read_sectors :: "(nat \<Rightarrow> u8) \<Rightarrow> u64 \<Rightarrow> u64 \<Rightarrow> 32 word \<Rightarrow> (nat \<Rightarrow> u8) \<Rightarrow> (nat \<Rightarrow> u8) option" where
  "read_sectors disk ptr end_ptr src_sect m = (if ptr < end_ptr
     then read_sectors disk (ptr + of_nat SECTORSIZE) end_ptr (src_sect + 1) (boot_readsect disk ptr src_sect m) else Some m)"

function clear_bss :: "u64 \<Rightarrow> u64 \<Rightarrow> (nat \<Rightarrow> u8) \<Rightarrow> (nat \<Rightarrow> u8)" where
  "clear_bss end_ptr memsz m = (if end_ptr < memsz then clear_bss (end_ptr + 1) memsz (m(unat end_ptr := 0)) else m)"
  by pat_completeness auto
termination
proof (relation "measure (\<lambda>(e, z, m). unat z - unat e)")
  fix e z :: u64 and m :: "nat \<Rightarrow> u8"
  assume l: "e < z"
  then have "unat e + 1 < 2 ^ 64" using unat64 [of z] by (simp add: word_less_nat_alt)
  then have "unat (e + 1) = unat e + 1" by (simp add: unat_word_ariths)
  then show "((e + 1, z, m(unat e := 0)), (e, z, m)) \<in> measure (\<lambda>(e, z, m). unat z - unat e)" using l by (simp add: word_less_nat_alt)
qed simp

declare clear_bss.simps [simp del]

definition boot_readseg :: "(nat \<Rightarrow> u8) \<Rightarrow> u64 \<Rightarrow> 32 word \<Rightarrow> u64 \<Rightarrow> u64 \<Rightarrow> (nat \<Rightarrow> u8) \<Rightarrow> (nat \<Rightarrow> u8) option" where
  "boot_readseg disk ptr src_sect filesz memsz m = (let end_ptr = ptr + filesz; memsz = memsz + ptr; ptr = ptr AND NOT (of_nat SECTORSIZE - 1) in
     map_option (clear_bss end_ptr memsz) (read_sectors disk ptr end_ptr src_sect m))"

lemma clear_bss_eq:
  "clear_bss e z m = (\<lambda>a. if unat e \<le> a \<and> a < unat z then 0 else m a)"
proof (induction e z m rule: clear_bss.induct)
  case (1 e z m)
  show ?case
  proof (cases "e < z")
    case True
    then have "unat e + 1 < 2 ^ 64" using unat64 [of z] by (simp add: word_less_nat_alt)
    then have u: "unat (e + 1) = unat e + 1" by (simp add: unat_word_ariths)
    have "clear_bss e z m = clear_bss (e + 1) z (m(unat e := 0))" using True by (subst clear_bss.simps) simp
    then show ?thesis unfolding 1 [OF True] u using True by (auto simp: fun_eq_iff word_less_nat_alt)
  next
    case False
    then show ?thesis by (subst clear_bss.simps) (auto simp: fun_eq_iff word_less_nat_alt)
  qed
qed

lemma read_sectors_eq:
  assumes "unat e \<le> 2 ^ 64 - 512" and "unat p mod 512 = 0" and "unat s + n \<le> 2 ^ 28"
    and "n = (unat e - unat p + 511) div 512"
  shows "read_sectors disk p e s m = Some (\<lambda>a. if unat p \<le> a \<and> a < unat p + n * 512
     then disk (unat s * 512 + (a - unat p)) else m a)"
  using assms(2-4)
proof (induction n arbitrary: p s m)
  case 0
  then have "\<not> p < e" by (auto simp: word_less_nat_alt)
  then show ?case by (subst read_sectors.simps) (auto simp: fun_eq_iff)
next
  case (Suc n)
  have l: "unat p < unat e" using Suc.prems(3) by (cases "unat p < unat e") simp_all
  have up: "unat (p + 512) = unat p + 512" using l assms(1) by (simp add: unat_word_ariths)
  have us: "unat (s + 1) = unat s + 1" using Suc.prems(2) by (simp add: unat_word_ariths)
  have n: "n = (unat e - unat (p + 512) + 511) div 512" using Suc.prems(3) l unfolding up by (cases "unat e \<le> unat p + 512") auto
  have ih: "read_sectors disk (p + 512) e (s + 1) m' = Some (\<lambda>a. if unat (p + 512) \<le> a \<and> a < unat (p + 512) + n * 512
     then disk (unat (s + 1) * 512 + (a - unat (p + 512))) else m' a)" for m'
    by (rule Suc.IH) (use Suc.prems n up us in simp_all)
  have c: "ata_sector (ata_command s) = unat s" by (rule ata_sector_command) (use Suc.prems(2) in simp)
  have "read_sectors disk p e s m = read_sectors disk (p + 512) e (s + 1) (boot_readsect disk p s m)"
    using l by (subst read_sectors.simps) (simp add: word_less_nat_alt SECTORSIZE_def)
  then show ?case unfolding ih up us by (auto simp: fun_eq_iff boot_readsect_def c SECTORSIZE_def)
qed

text \<open>The range of memory that loading a segment may change: from the start of a sector to the end of the
  last sector or of the segment.\<close>

definition seg_range :: "nat \<Rightarrow> nat \<Rightarrow> nat \<Rightarrow> nat set" where
  "seg_range va filesz memsz = {va - va mod 512 ..< max (va + memsz) ((va + filesz + 511) div 512 * 512)}"

definition seg_sane :: "nat \<Rightarrow> nat \<Rightarrow> nat \<Rightarrow> nat \<Rightarrow> bool" where
  "seg_sane sect va filesz memsz \<longleftrightarrow> filesz \<le> memsz \<and> va + memsz \<le> 2 ^ 64 - 512 \<and> sect + (filesz + 1023) div 512 \<le> 2 ^ 28"

lemma unat_sector_start: "unat (p AND NOT (of_nat SECTORSIZE - 1)) = unat (p :: u64) - unat p mod 512"
proof -
  have m: "(of_nat SECTORSIZE - 1 :: u64) = mask 9" by (simp add: SECTORSIZE_def mask_eq_exp_minus_1)
  have "p AND NOT (mask 9) = push_bit 9 (drop_bit 9 p)" by (rule bit_word_eqI) (auto simp: bit_simps)
  moreover have u: "unat p div 512 * 512 < 2 ^ 64" by (rule order.strict_trans1 [OF div_times_less_eq_dividend unat64])
  ultimately have "unat (p AND NOT (mask 9)) = take_bit 64 (push_bit 9 (drop_bit 9 (unat p)))"
    by (simp add: unsigned_push_bit_eq unsigned_drop_bit_eq take_bit_nat_eq_self [OF unat64])
  also have "\<dots> = take_bit 64 (unat p div 512 * 512)" by (simp add: push_bit_eq_mult drop_bit_eq_div)
  also have "\<dots> = unat p div 512 * 512" by (rule take_bit_nat_eq_self [OF u])
  finally show ?thesis unfolding m by (simp add: minus_mod_eq_div_mult)
qed

lemma boot_readseg_eq:
  assumes "seg_sane (unat s) (unat va) (unat filesz) (unat memsz)"
  shows "\<exists>m'. boot_readseg disk va s filesz memsz m = Some m'
    \<and> (\<forall>i < unat memsz. m' (unat va + i) = (if i < unat filesz then disk (unat s * 512 + unat va mod 512 + i) else 0))
    \<and> (\<forall>a. a \<notin> seg_range (unat va) (unat filesz) (unat memsz) \<longrightarrow> m' a = m a)"
proof -
  define v f z q where "v = unat va" and "f = unat filesz" and "z = unat memsz" and "q = v - v mod 512"
  have sane: "f \<le> z" "v + z \<le> 2 ^ 64 - 512" "unat s + (f + 1023) div 512 \<le> 2 ^ 28"
    using assms by (simp_all add: seg_sane_def v_def f_def z_def)
  have e: "unat (va + filesz) = v + f" "unat (memsz + va) = v + z" using sane by (simp_all add: unat_word_ariths v_def f_def z_def)
  define p where "p = va AND NOT (of_nat SECTORSIZE - 1)"
  have p: "unat p = q" using unat_sector_start by (simp add: p_def q_def v_def)
  have qv: "v = q + v mod 512" "q mod 512 = 0" "v mod 512 < 512"
    by (simp_all add: q_def minus_mod_eq_mult_div)
  define n where "n = (v + f - q + 511) div 512"
  have n: "n = (v mod 512 + f + 511) div 512" using qv(1) by (simp add: n_def)
  have "n \<le> (f + 1023) div 512" unfolding n using qv(3) by (intro div_le_mono) simp
  then have sn: "unat s + n \<le> 2 ^ 28" using sane(3) by linarith
  have rs: "read_sectors disk p (va + filesz) s m = Some (\<lambda>a. if unat p \<le> a \<and> a < unat p + n * 512
     then disk (unat s * 512 + (a - unat p)) else m a)"
    by (rule read_sectors_eq) (use e p qv sn sane in \<open>simp_all add: n_def\<close>)
  have nf: "v + f \<le> q + n * 512" "q + n * 512 = (v + f + 511) div 512 * 512"
  proof -
    obtain c where c: "q = c * 512" using qv(2) by (metis mod_0_imp_dvd dvdE mult.commute)
    have "v + f + 511 = v mod 512 + f + 511 + c * 512" using qv(1) c by linarith
    then have "(v + f + 511) div 512 = c + n" unfolding n by (simp only: div_mult_self1 [of 512])
    then show eq: "q + n * 512 = (v + f + 511) div 512 * 512" using c by (simp add: algebra_simps)
    show "v + f \<le> q + n * 512" unfolding eq using div_mult_mod_eq [of "v + f + 511" 512] mod_less_divisor [of 512 "v + f + 511"] by linarith
  qed
  define m' where "m' = clear_bss (va + filesz) (memsz + va) (\<lambda>a. if q \<le> a \<and> a < q + n * 512 then disk (unat s * 512 + (a - q)) else m a)"
  have m': "m' a = (if v + f \<le> a \<and> a < v + z then 0 else if q \<le> a \<and> a < q + n * 512 then disk (unat s * 512 + (a - q)) else m a)" for a
    unfolding m'_def clear_bss_eq e by simp
  have "boot_readseg disk va s filesz memsz m = Some m'"
    unfolding boot_readseg_def Let_def p_def [symmetric] rs p m'_def by simp
  moreover have "m' (v + i) = (if i < f then disk (unat s * 512 + v mod 512 + i) else 0)" if "i < z" for i
  proof -
    have vi: "v + i - q = v mod 512 + i" "q \<le> v + i" using qv(1) by linarith+
    show ?thesis
    proof (cases "i < f")
      case True
      then have "v + i < q + n * 512" using nf(1) by linarith
      then show ?thesis unfolding m' using True vi by (simp add: add.assoc)
    next
      case False
      then show ?thesis unfolding m' using that by simp
    qed
  qed
  moreover have "m' a = m a" if "a \<notin> seg_range v f z" for a
  proof -
    have "seg_range v f z = {q ..< max (v + z) (q + n * 512)}" unfolding seg_range_def q_def [symmetric] nf(2) ..
    then have "\<not> (q \<le> a \<and> (a < v + z \<or> a < q + n * 512))" using that by auto
    moreover have "q \<le> v" by (simp add: q_def)
    ultimately show ?thesis unfolding m' by auto
  qed
  ultimately show ?thesis unfolding v_def f_def z_def by blast
qed

section \<open>Loading the kernel\<close>

fun le :: "(nat \<Rightarrow> u8) \<Rightarrow> nat \<Rightarrow> nat \<Rightarrow> nat" where
  "le m a 0 = 0"
| "le m a (Suc n) = unat (m a) + 256 * le m (a + 1) n"

definition ELFHDR :: nat where "ELFHDR = 0x3000"
definition KERNEL_START_SECTOR :: "32 word" where "KERNEL_START_SECTOR = 1"

primrec boot_loop :: "(nat \<Rightarrow> u8) \<Rightarrow> nat \<Rightarrow> u64 \<Rightarrow> (nat \<Rightarrow> u8) \<Rightarrow> (nat \<Rightarrow> u8) option" where
  "boot_loop disk 0 ph m = Some m"
| "boot_loop disk (Suc n) ph m = (let field = (\<lambda>off. of_nat (le m (unat ph + off) 8) :: u64) in
     boot_readseg disk (field 0x10) (KERNEL_START_SECTOR + ucast (field 8 div of_nat SECTORSIZE)) (field 0x20) (field 0x28) m
       \<bind> boot_loop disk n (ph + 56))"

definition boot :: "(nat \<Rightarrow> u8) \<Rightarrow> (nat \<Rightarrow> u8) \<Rightarrow> (u64 \<times> (nat \<Rightarrow> u8)) option" where
  "boot disk m = do {
     m \<leftarrow> boot_readseg disk (of_nat ELFHDR) KERNEL_START_SECTOR 4096 4096 m;
     if le m ELFHDR 4 \<noteq> 0x464C457F then None
     else do {
       m \<leftarrow> boot_loop disk (le m (ELFHDR + 0x38) 2) (of_nat ELFHDR + of_nat (le m (ELFHDR + 0x20) 8)) m;
       Some (of_nat (le m (ELFHDR + 0x18) 8), m) } }"

section \<open>A kernel image that can be loaded\<close>

definition kernel_image :: "(nat \<Rightarrow> u8) \<Rightarrow> nat \<Rightarrow> u8" where
  "kernel_image disk i = disk (512 + i)"

record segment_header =
  sg_offset :: nat
  sg_va :: nat
  sg_filesz :: nat
  sg_memsz :: nat

definition img_phoff :: "(nat \<Rightarrow> u8) \<Rightarrow> nat" where "img_phoff disk = le (kernel_image disk) 0x20 8"
definition img_phnum :: "(nat \<Rightarrow> u8) \<Rightarrow> nat" where "img_phnum disk = le (kernel_image disk) 0x38 2"

definition img_seg :: "(nat \<Rightarrow> u8) \<Rightarrow> nat \<Rightarrow> segment_header" where
  "img_seg disk k = (let field = (\<lambda>off. le (kernel_image disk) (img_phoff disk + 56 * k + off) 8) in
     \<lparr>sg_offset = field 8, sg_va = field 0x10, sg_filesz = field 0x20, sg_memsz = field 0x28\<rparr>)"

definition touched :: "segment_header \<Rightarrow> nat set" where
  "touched g = seg_range (sg_va g) (sg_filesz g) (sg_memsz g)"

text \<open>The headers are in the first page; loading a segment touches neither that page's copy nor a segment before it;
  offsets in the file and addresses are the same modulo the size of a sector.\<close>

definition bootable :: "(nat \<Rightarrow> u8) \<Rightarrow> bool" where
  "bootable disk \<longleftrightarrow> le (kernel_image disk) 0 4 = 0x464C457F \<and> img_phoff disk + 56 * img_phnum disk \<le> 4096
     \<and> (\<forall>k < img_phnum disk. let g = img_seg disk k in
         seg_sane (1 + sg_offset g div 512) (sg_va g) (sg_filesz g) (sg_memsz g) \<and> sg_va g mod 512 = sg_offset g mod 512
         \<and> touched g \<inter> {ELFHDR ..< ELFHDR + 4096} = {}
         \<and> (\<forall>j < k. touched g \<inter> {sg_va (img_seg disk j) ..< sg_va (img_seg disk j) + sg_memsz (img_seg disk j)} = {}))"

definition seg_loaded :: "(nat \<Rightarrow> u8) \<Rightarrow> (nat \<Rightarrow> u8) \<Rightarrow> nat \<Rightarrow> bool" where
  "seg_loaded disk m k \<longleftrightarrow> (let g = img_seg disk k in
     \<forall>i < sg_memsz g. m (sg_va g + i) = (if i < sg_filesz g then kernel_image disk (sg_offset g + i) else 0))"

lemma le_cong: "(\<And>i. i < n \<Longrightarrow> m (a + i) = m' (b + i)) \<Longrightarrow> le m a n = le m' b n"
proof (induction n arbitrary: a b)
  case (Suc n)
  have "m (a + 1 + i) = m' (b + 1 + i)" if "i < n" for i using Suc.prems [of "i + 1"] that by (simp add: add.assoc)
  then show ?case using Suc.IH [of "a + 1" "b + 1"] Suc.prems [of 0] by simp
qed simp

lemma le_bound: "le m a n < 256 ^ n"
proof (induction n arbitrary: a)
  case (Suc n)
  have "unat (m a) < 256" using unsigned_less [of "m a"] by simp
  moreover have "le m (a + 1) n + 1 \<le> 256 ^ n" using Suc [of "a + 1"] by simp
  ultimately show ?case by simp
qed simp

lemma unat_field: "unat (of_nat (le m a 8) :: u64) = le m a 8"
proof -
  have "le m a 8 < 2 ^ 64" using le_bound [of m a 8] by simp
  then show ?thesis by (simp add: unat_of_nat)
qed

definition header_read :: "(nat \<Rightarrow> u8) \<Rightarrow> (nat \<Rightarrow> u8) \<Rightarrow> bool" where
  "header_read disk m \<longleftrightarrow> (\<forall>i < 4096. m (ELFHDR + i) = kernel_image disk i)"

lemma boot_loop_step:
  assumes "bootable disk" and "header_read disk m" and "unat ph = ELFHDR + img_phoff disk + 56 * k" and "k < img_phnum disk"
    and "\<forall>j < k. seg_loaded disk m j"
  shows "\<exists>m'. boot_loop disk (Suc n) ph m = boot_loop disk n (ph + 56) m' \<and> header_read disk m' \<and> (\<forall>j < k + 1. seg_loaded disk m' j)"
proof -
  define g where "g = img_seg disk k"
  have "let g = img_seg disk k in
         seg_sane (1 + sg_offset g div 512) (sg_va g) (sg_filesz g) (sg_memsz g) \<and> sg_va g mod 512 = sg_offset g mod 512
         \<and> touched g \<inter> {ELFHDR ..< ELFHDR + 4096} = {}
         \<and> (\<forall>j < k. touched g \<inter> {sg_va (img_seg disk j) ..< sg_va (img_seg disk j) + sg_memsz (img_seg disk j)} = {})"
    using assms(1,4) unfolding bootable_def by blast
  then have b: "seg_sane (1 + sg_offset g div 512) (sg_va g) (sg_filesz g) (sg_memsz g)" "sg_va g mod 512 = sg_offset g mod 512"
    "touched g \<inter> {ELFHDR ..< ELFHDR + 4096} = {}"
    "\<And>j. j < k \<Longrightarrow> touched g \<inter> {sg_va (img_seg disk j) ..< sg_va (img_seg disk j) + sg_memsz (img_seg disk j)} = {}"
    by (simp_all only: Let_def g_def [symmetric])
  have ph: "img_phoff disk + 56 * k + 56 \<le> 4096" using assms(1,4) unfolding bootable_def by linarith
  have field: "le m (unat ph + off) 8 = le (kernel_image disk) (img_phoff disk + 56 * k + off) 8" if "off \<le> 48" for off
  proof (rule le_cong)
    fix i :: nat assume "i < 8"
    then have "img_phoff disk + 56 * k + off + i < 4096" using ph that by linarith
    then show "m (unat ph + off + i) = kernel_image disk (img_phoff disk + 56 * k + off + i)"
      using assms(2) unfolding assms(3) header_read_def by (metis add.assoc)
  qed
  define w where "w = (\<lambda>off. of_nat (le m (unat ph + off) 8) :: u64)"
  have w: "unat (w 8) = sg_offset g" "unat (w 0x10) = sg_va g" "unat (w 0x20) = sg_filesz g" "unat (w 0x28) = sg_memsz g"
    by (simp_all add: w_def unat_field field g_def img_seg_def)
  define sect where "sect = KERNEL_START_SECTOR + ucast (w 8 div of_nat SECTORSIZE)"
  have small: "1 + sg_offset g div 512 \<le> 2 ^ 28" using b(1) by (simp add: seg_sane_def)
  have sect: "unat sect = 1 + sg_offset g div 512"
  proof -
    have "unat (w 8 div of_nat SECTORSIZE) = sg_offset g div 512" by (simp add: SECTORSIZE_def unat_div w(1))
    moreover have "unat (ucast (w 8 div of_nat SECTORSIZE) :: 32 word) = unat (w 8 div of_nat SECTORSIZE)"
      using small calculation by (simp add: unsigned_ucast_eq take_bit_nat_eq_self)
    ultimately show ?thesis using small by (simp add: sect_def KERNEL_START_SECTOR_def unat_word_ariths)
  qed
  obtain m' where m': "boot_readseg disk (w 0x10) sect (w 0x20) (w 0x28) m = Some m'"
    "\<And>i. i < sg_memsz g \<Longrightarrow> m' (sg_va g + i) = (if i < sg_filesz g then disk (unat sect * 512 + sg_va g mod 512 + i) else 0)"
    "\<And>a. a \<notin> touched g \<Longrightarrow> m' a = m a"
    using boot_readseg_eq [of sect "w 0x10" "w 0x20" "w 0x28" disk m] b(1) unfolding w sect touched_def by blast
  have "boot_loop disk (Suc n) ph m = boot_loop disk n (ph + 56) m'"
    using m'(1) by (simp add: w_def [symmetric] sect_def)
  moreover have "m' (ELFHDR + i) = m (ELFHDR + i)" if "i < 4096" for i
    by (rule m'(3)) (use b(3) that in \<open>auto simp: disjoint_iff\<close>)
  then have "header_read disk m'" using assms(2) by (simp add: header_read_def)
  moreover have "seg_loaded disk m' j" if "j < k" for j
  proof -
    have "m' (sg_va (img_seg disk j) + i) = m (sg_va (img_seg disk j) + i)" if "i < sg_memsz (img_seg disk j)" for i
      by (rule m'(3)) (use b(4) [OF \<open>j < k\<close>] that in \<open>auto simp: disjoint_iff\<close>)
    then show ?thesis using assms(5) that by (simp add: seg_loaded_def Let_def)
  qed
  moreover have "seg_loaded disk m' k"
  proof -
    have "unat sect * 512 + sg_va g mod 512 = 512 + sg_offset g" unfolding sect b(2) using div_mult_mod_eq [of "sg_offset g" 512] by simp
    then show ?thesis using m'(2) by (simp add: seg_loaded_def g_def [symmetric] kernel_image_def add.assoc [symmetric])
  qed
  ultimately show ?thesis by (metis Suc_eq_plus1 less_Suc_eq)
qed

lemma boot_loop_ok:
  assumes "bootable disk"
  shows "header_read disk m \<Longrightarrow> unat ph = ELFHDR + img_phoff disk + 56 * k \<Longrightarrow> k + n = img_phnum disk \<Longrightarrow> \<forall>j < k. seg_loaded disk m j \<Longrightarrow>
    \<exists>m'. boot_loop disk n ph m = Some m' \<and> header_read disk m' \<and> (\<forall>j < img_phnum disk. seg_loaded disk m' j)"
proof (induction n arbitrary: ph m k)
  case (Suc n)
  have k: "k < img_phnum disk" using Suc.prems(3) by simp
  obtain m' where m': "boot_loop disk (Suc n) ph m = boot_loop disk n (ph + 56) m'" "header_read disk m'" "\<forall>j < k + 1. seg_loaded disk m' j"
    using boot_loop_step [OF assms Suc.prems(1,2) k Suc.prems(4)] by blast
  have "img_phoff disk + 56 * k \<le> 4096" using assms k unfolding bootable_def by linarith
  then have "unat (ph + 56) = ELFHDR + img_phoff disk + 56 * (k + 1)" using Suc.prems(2) by (simp add: unat_word_ariths ELFHDR_def)
  from Suc.IH [OF m'(2) this _ m'(3)] Suc.prems(3) show ?case unfolding m'(1) by simp
qed simp

text \<open>C39: The boot loader loads every kernel image whose headers are in its first page and whose segments
  do not get into each other's way: it jumps to the entry point of the image, and at that moment each segment is at its
  address, with the bytes of the file followed by zeros.\<close>

theorem boot_loads_kernel:
  assumes "bootable disk"
  shows "\<exists>m'. boot disk m = Some (of_nat (le (kernel_image disk) 0x18 8), m') \<and> (\<forall>k < img_phnum disk. seg_loaded disk m' k)"
proof -
  have s: "seg_sane (unat KERNEL_START_SECTOR) (unat (of_nat ELFHDR :: u64)) (unat (4096 :: u64)) (unat (4096 :: u64))"
    by (simp add: seg_sane_def KERNEL_START_SECTOR_def ELFHDR_def)
  obtain m1 where m1: "boot_readseg disk (of_nat ELFHDR) KERNEL_START_SECTOR 4096 4096 m = Some m1" "header_read disk m1"
    using boot_readseg_eq [OF s, of disk m] by (auto simp: header_read_def kernel_image_def KERNEL_START_SECTOR_def ELFHDR_def)
  have le: "le x (ELFHDR + i) n = le (kernel_image disk) i n" if "header_read disk x" "i + n \<le> 4096" for x i n
    by (rule le_cong) (use that in \<open>simp add: header_read_def add.assoc\<close>)
  have ph: "unat (of_nat ELFHDR + of_nat (img_phoff disk) :: u64) = ELFHDR + img_phoff disk + 56 * 0"
  proof -
    have "img_phoff disk \<le> 4096" using assms unfolding bootable_def by linarith
    then show ?thesis by (simp add: unat_word_ariths unat_of_nat ELFHDR_def)
  qed
  have l: "le m1 ELFHDR 4 = 0x464C457F" "le m1 (ELFHDR + 0x38) 2 = img_phnum disk" "le m1 (ELFHDR + 0x20) 8 = img_phoff disk"
    using le [OF m1(2), of 0 4] le [OF m1(2), of "0x38" 2] le [OF m1(2), of "0x20" 8] assms
    by (simp_all add: img_phnum_def img_phoff_def bootable_def)
  obtain m' where m': "boot_loop disk (img_phnum disk) (of_nat ELFHDR + of_nat (img_phoff disk)) m1 = Some m'" "header_read disk m'"
    "\<forall>j < img_phnum disk. seg_loaded disk m' j"
    using boot_loop_ok [OF assms m1(2) ph, of "img_phnum disk"] by auto
  have "boot disk m = Some (of_nat (le (kernel_image disk) 0x18 8), m')"
    using le [OF m'(2), of "0x18" 8] by (simp add: boot_def m1(1) l m'(1))
  then show ?thesis using m'(3) by blast
qed

text \<open>A disk with a kernel of one segment: three bytes and two zeros at 0x40000.\<close>

definition demo_disk :: "nat \<Rightarrow> u8" where
  "demo_disk a = (case map_of [(512, 0x7F), (513, 0x45), (514, 0x4C), (515, 0x46), (538, 4), (544, 64), (568, 1),
     (585, 0x10), (594, 4), (608, 3), (616, 5), (4608, 11), (4609, 12), (4610, 13)] a of Some b \<Rightarrow> b | None \<Rightarrow> 0)"

lemma le_numeral: "le m a (numeral v) = unat (m a) + 256 * le m (a + 1) (pred_numeral v)"
  by (simp add: numeral_eq_Suc)

lemma boot_loads_kernel_witness:
  "\<exists>m'. boot demo_disk (\<lambda>a. 0xFF) = Some (0x40000, m') \<and> m' 0x40000 = 11 \<and> m' 0x40002 = 13 \<and> m' 0x40003 = 0 \<and> m' 0x40004 = 0"
proof -
  have f: "img_phoff demo_disk = 64" "img_phnum demo_disk = 1" "le (kernel_image demo_disk) 0x18 8 = 0x40000" "le (kernel_image demo_disk) 0 4 = 0x464C457F"
    by (simp_all add: img_phoff_def img_phnum_def kernel_image_def demo_disk_def le_numeral)
  have g: "img_seg demo_disk 0 = \<lparr>sg_offset = 0x1000, sg_va = 0x40000, sg_filesz = 3, sg_memsz = 5\<rparr>"
    by (simp add: img_seg_def f kernel_image_def demo_disk_def le_numeral)
  have "bootable demo_disk"
    by (auto simp: bootable_def f g seg_sane_def touched_def seg_range_def ELFHDR_def)
  from boot_loads_kernel [OF this, of "\<lambda>a. 0xFF"] obtain m' where
    m': "boot demo_disk (\<lambda>a. 0xFF) = Some (0x40000, m')" "seg_loaded demo_disk m' 0" unfolding f by auto
  have l: "m' (0x40000 + i) = (if i < 3 then kernel_image demo_disk (0x1000 + i) else 0)" if "i < 5" for i
    using m'(2) that by (simp add: seg_loaded_def g)
  have "m' 0x40000 = 11 \<and> m' 0x40002 = 13 \<and> m' 0x40003 = 0 \<and> m' 0x40004 = 0"
    using l [of 0] l [of 2] l [of 3] l [of 4] by (simp add: kernel_image_def demo_disk_def)
  then show ?thesis using m'(1) by blast
qed

end
