(* ===== verification/ShTok.thy ===== *)
theory ShTok
  imports Prelude
begin

text \<open>
  The tokenizer of the shell (src/pset5/helpers.cc and the iterator of src/pset5/sh61.hh).
  A C string is the list of its characters up to the terminating NUL, so reading at the
  index just past the list gives NUL, and an iterator's position \<open>_s\<close> is the rest of the line. \<open>str\<close> returns an option because its
  loop counts positions up to \<open>_len\<close> with \<open>!=\<close>; the lemmas show that it never overshoots
  on an iterator made by \<open>update\<close>, that every \<open>++\<close> moves forward, and that quoting a word
  and reading it back is the identity.
\<close>

section \<open>Characters\<close>

abbreviation NUL :: char where "NUL \<equiv> CHR 0x00"

definition char_at :: "string \<Rightarrow> nat \<Rightarrow> char" where
  "char_at s i = (if i < length s then s ! i else NUL)"

definition isspace :: "char \<Rightarrow> bool" where
  "isspace c = (c \<in> {CHR '' '', CHR 0x09, CHR 0x0A, CHR 0x0B, CHR 0x0C, CHR 0x0D})"

definition isdigit :: "char \<Rightarrow> bool" where
  "isdigit c = (48 \<le> (of_char c :: nat) \<and> (of_char c :: nat) \<le> 57)"

definition isalpha :: "char \<Rightarrow> bool" where
  "isalpha c = (65 \<le> (of_char c :: nat) \<and> (of_char c :: nat) \<le> 90 \<or> 97 \<le> (of_char c :: nat) \<and> (of_char c :: nat) \<le> 122)"

definition isshellspecial :: "char \<Rightarrow> bool" where
  "isshellspecial c = (c \<in> set ''<>&|;()#$={}'')"

section \<open>Tokens\<close>

datatype token_type = TYPE_NORMAL | TYPE_REDIRECT_OP | TYPE_SEQUENCE | TYPE_BACKGROUND | TYPE_PIPE
  | TYPE_AND | TYPE_OR | TYPE_LPAREN | TYPE_RPAREN | TYPE_VARIABLE | TYPE_EQUAL | TYPE_DEF
  | TYPE_DEFAULT | TYPE_LBRACE | TYPE_RBRACE | TYPE_OTHER

record token_iter =
  it_s :: string
  it_type :: token_type
  it_quoted :: bool
  it_len :: nat

text \<open>The parser's first position: leading spaces skipped, a comment line is empty.\<close>

definition parser_start :: "string \<Rightarrow> string" where
  "parser_start s = (let t = dropWhile isspace s in if char_at t 0 = CHR ''#'' then [] else t)"

definition skip_blank :: "string \<Rightarrow> string" where
  "skip_blank s = (let t = dropWhile isspace s in if char_at t 0 = CHR ''#'' then [] else t)"

text \<open>The loop that reads an ordinary word: its length and whether it has quotes or escapes,
  given the open quote (NUL outside quotes).\<close>

fun scan_word :: "char \<Rightarrow> string \<Rightarrow> nat \<times> bool" where
  "scan_word q [] = (0, False)"
| "scan_word q (c # cs) =
    (if q \<noteq> NUL \<or> \<not> isspace c \<and> \<not> isshellspecial c then
       (if (c = CHR 0x22 \<or> c = CHR 0x27) \<and> q = NUL then map_prod Suc (\<lambda>_. True) (scan_word c cs)
        else if c = q then map_prod Suc id (scan_word NUL cs)
        else if c = CHR 0x5C \<and> q \<noteq> CHR 0x27 then
          (case cs of [] \<Rightarrow> (1, False) | _ # ds \<Rightarrow> map_prod ((+) 2) (\<lambda>_. True) (scan_word q ds))
        else map_prod Suc id (scan_word q cs))
     else (0, False))"

definition operator_type :: "char \<Rightarrow> token_type" where
  "operator_type c =
    (if c = CHR '';'' then TYPE_SEQUENCE
     else if c = CHR ''&'' then TYPE_BACKGROUND
     else if c = CHR ''|'' then TYPE_PIPE
     else if c = CHR ''('' then TYPE_LPAREN
     else if c = CHR '')'' then TYPE_RPAREN
     else if c = CHR ''$'' then TYPE_VARIABLE
     else if c = CHR ''='' then TYPE_EQUAL
     else if c = CHR ''{'' then TYPE_LBRACE
     else if c = CHR ''}'' then TYPE_RBRACE
     else TYPE_OTHER)"

definition redirect_len :: "string \<Rightarrow> nat \<Rightarrow> nat" where
  "redirect_len s n =
    (if char_at s (n + 1) = CHR ''>'' then n + 2
     else n + 1 + length (takeWhile isdigit (drop (n + 1) s)))"

definition update_iter :: "string \<Rightarrow> token_iter" where
  "update_iter s0 =
    (let s = skip_blank s0; n = length (takeWhile isdigit s) in
     if char_at s n = CHR ''<'' \<or> char_at s n = CHR ''>'' then
       \<lparr>it_s = s, it_type = TYPE_REDIRECT_OP, it_quoted = False, it_len = redirect_len s n\<rparr>
     else if n = 0 \<and> (char_at s 0 = CHR ''&'' \<or> char_at s 0 = CHR ''|'') \<and> char_at s 1 = char_at s 0 then
       \<lparr>it_s = s, it_type = (if char_at s 0 = CHR ''&'' then TYPE_AND else TYPE_OR), it_quoted = False, it_len = 2\<rparr>
     else if n = 0 \<and> char_at s 0 = CHR '':'' \<and> (char_at s 1 = CHR ''='' \<or> char_at s 1 = CHR ''-'') then
       \<lparr>it_s = s, it_type = (if char_at s 1 = CHR ''='' then TYPE_DEF else TYPE_DEFAULT), it_quoted = False, it_len = 2\<rparr>
     else if n = 0 \<and> isshellspecial (char_at s 0) then
       \<lparr>it_s = s, it_type = operator_type (char_at s 0), it_quoted = False, it_len = 1\<rparr>
     else if n = 0 \<and> char_at s 0 = NUL then
       \<lparr>it_s = s, it_type = TYPE_SEQUENCE, it_quoted = False, it_len = 0\<rparr>
     else (case scan_word NUL (drop n s) of (k, b) \<Rightarrow>
       \<lparr>it_s = s, it_type = TYPE_NORMAL, it_quoted = b, it_len = n + k\<rparr>))"

definition iter_next :: "token_iter \<Rightarrow> token_iter" where
  "iter_next it = update_iter (drop (it_len it) (it_s it))"

text \<open>\<open>_s == _estr\<close>: the position is that of the terminating NUL.\<close>

definition at_end :: "token_iter \<Rightarrow> bool" where
  "at_end it = (char_at (it_s it) 0 = NUL)"

text \<open>The quoting loop of \<open>str\<close>: \<open>n\<close> characters are left up to \<open>_len\<close>. None: the position
  passes \<open>_len\<close> (the loop then runs on past the end of the line).\<close>

fun unquote :: "char \<Rightarrow> nat \<Rightarrow> string \<Rightarrow> string option" where
  "unquote q 0 s = Some []"
| "unquote q (Suc n) [] = None"
| "unquote q (Suc n) (c # cs) =
    (if (c = CHR 0x22 \<or> c = CHR 0x27) \<and> q = NUL then unquote c n cs
     else if c = q then unquote NUL n cs
     else if c = CHR 0x5C \<and> cs \<noteq> [] \<and> q \<noteq> CHR 0x27 then
       (case n of 0 \<Rightarrow> None | Suc m \<Rightarrow> map_option ((#) (hd cs)) (unquote q m (tl cs)))
     else map_option ((#) c) (unquote q n cs))"

definition iter_str :: "token_iter \<Rightarrow> string option" where
  "iter_str it = (if \<not> it_quoted it then Some (take (it_len it) (it_s it)) else unquote NUL (it_len it) (it_s it))"

section \<open>Progress\<close>

named_theorems tok_defs "definitions of the tokenizer"
declare char_at_def [tok_defs] Let_def [tok_defs]

lemma skip_blank_length [simp]: "length (skip_blank s) \<le> length s"
  by (simp add: skip_blank_def Let_def length_dropWhile_le)

lemma it_s_update: "it_s (update_iter s) = skip_blank s"
  by (simp add: update_iter_def Let_def split: prod.split)

lemma parser_start_skip: "parser_start s = skip_blank s"
  by (simp add: parser_start_def skip_blank_def)

lemma hd_skip_blank:
  assumes "skip_blank s = c # t"
  shows "\<not> isspace c \<and> c \<noteq> CHR ''#''"
proof -
  have t: "dropWhile isspace s = c # t" and "c \<noteq> CHR ''#''"
    using assms by (cases "dropWhile isspace s"; simp add: skip_blank_def char_at_def split: if_splits)+
  moreover have "\<not> isspace c" using hd_dropWhile [of isspace s] t by simp
  ultimately show ?thesis by blast
qed

lemma skip_blank_idem [simp]: "skip_blank (skip_blank s) = skip_blank s"
proof (cases "skip_blank s")
  case Nil
  then show ?thesis by (simp add: skip_blank_def char_at_def)
next
  case (Cons c t)
  then show ?thesis using hd_skip_blank [OF Cons] by (simp add: skip_blank_def [of "c # t"] char_at_def)
qed

lemma scan_word_le: "fst (scan_word q s) \<le> length s"
proof (induction q s rule: scan_word.induct)
  case (2 q c cs)
  then show ?case by (cases cs) auto
qed simp

lemma scan_word_pos:
  assumes "\<not> isspace c" and "\<not> isshellspecial c"
  shows "0 < fst (scan_word NUL (c # s))"
  using assms by (auto split: list.splits)

text \<open>Away from the end every token has a character, and no token reaches past the end.\<close>

lemma update_len_le: "it_len (update_iter s) \<le> length (it_s (update_iter s))"
proof -
  define t where "t = skip_blank s"
  define n where "n = length (takeWhile isdigit t)"
  have n: "n \<le> length t" unfolding n_def by (rule length_takeWhile_le)
  have at: "char_at t i \<noteq> NUL \<Longrightarrow> i < length t" for i by (simp add: char_at_def split: if_splits)
  have "redirect_len t n \<le> length t" if "char_at t n \<noteq> NUL"
    using at [OF that] at [of "n + 1"] length_takeWhile_le [of isdigit "drop (n + 1) t"]
    by (auto simp: redirect_len_def)
  moreover have "n + fst (scan_word NUL (drop n t)) \<le> length t"
    using scan_word_le [of NUL "drop n t"] n by simp
  moreover have "2 \<le> length t" if "char_at t 1 \<noteq> NUL" using at [OF that] by simp
  moreover have "Suc 0 \<le> length t" if "isshellspecial (char_at t 0)"
    using at [of 0] that by (cases t) (auto simp: isshellspecial_def)
  ultimately show ?thesis unfolding update_iter_def t_def [symmetric] n_def [symmetric] Let_def
    by (auto split: prod.splits)
qed

lemma update_len_pos:
  assumes "\<not> at_end (update_iter s)"
  shows "0 < it_len (update_iter s)"
proof -
  define t where "t = skip_blank s"
  have ne: "char_at t 0 \<noteq> NUL" using assms by (simp add: at_end_def it_s_update t_def)
  then obtain c u where t: "t = c # u" "c \<noteq> NUL" by (cases t) (auto simp: char_at_def)
  have c: "\<not> isspace c" "c \<noteq> CHR ''#''" using hd_skip_blank t by (simp_all add: t_def)
  have w: "0 < fst (scan_word NUL (c # u))" if "\<not> isshellspecial c" by (rule scan_word_pos [OF c(1) that])
  show ?thesis unfolding update_iter_def t_def [symmetric] Let_def
    using w t(2) by (auto simp: redirect_len_def t(1) char_at_def simp del: scan_word.simps split: prod.splits)
qed

lemma iter_next_shorter:
  assumes "\<not> at_end (update_iter s)"
  shows "length (it_s (iter_next (update_iter s))) < length (it_s (update_iter s))"
proof -
  have "it_s (update_iter s) \<noteq> []" using assms by (auto simp: at_end_def char_at_def)
  moreover have "length (it_s (iter_next (update_iter s))) \<le> length (drop (it_len (update_iter s)) (it_s (update_iter s)))"
    by (simp only: iter_next_def it_s_update skip_blank_length)
  ultimately show ?thesis using update_len_pos [OF assms] by (cases "it_s (update_iter s)") auto
qed

text \<open>The end of the line stays the end.\<close>

lemma update_Nil [simp]: "update_iter [] = \<lparr>it_s = [], it_type = TYPE_SEQUENCE, it_quoted = False, it_len = 0\<rparr>"
  by (simp add: update_iter_def skip_blank_def char_at_def isshellspecial_def)

section \<open>The text of a token\<close>

lemma unquote_scan: "\<exists>w. unquote q (fst (scan_word q s)) s = Some w"
proof (induction q s rule: scan_word.induct)
  case (2 q c cs)
  then show ?case by (cases cs) auto
qed simp

lemma unquote_digits:
  assumes "\<forall>c \<in> set ds. isdigit c"
  shows "unquote NUL (length ds + n) (ds @ s) = map_option ((@) ds) (unquote NUL n s)"
  using assms
proof (induction ds)
  case (Cons d ds)
  then have "d \<noteq> CHR 0x22" "d \<noteq> CHR 0x27" "d \<noteq> NUL" "d \<noteq> CHR 0x5C" by (auto simp: isdigit_def)
  then show ?case using Cons by (simp add: option.map_comp comp_def)
qed (cases "unquote NUL n s"; simp)

lemma iter_str_total: "\<exists>w. iter_str (update_iter s) = Some w"
proof (cases "it_quoted (update_iter s)")
  case True
  define t where "t = skip_blank s"
  define ds where "ds = takeWhile isdigit t"
  have t: "t = ds @ drop (length ds) t" unfolding ds_def by (metis append_eq_conv_conj takeWhile_eq_take)
  have len: "it_len (update_iter s) = length ds + fst (scan_word NUL (drop (length ds) t))"
    using True by (auto simp: update_iter_def Let_def t_def [symmetric] ds_def [symmetric] split: if_splits prod.splits)
  obtain w where "unquote NUL (fst (scan_word NUL (drop (length ds) t))) (drop (length ds) t) = Some w"
    using unquote_scan by blast
  then have "unquote NUL (it_len (update_iter s)) (ds @ drop (length ds) t) = Some (ds @ w)"
    unfolding len by (subst unquote_digits) (auto simp: ds_def dest: set_takeWhileD)
  then show ?thesis using True t by (simp add: iter_str_def it_s_update t_def)
qed (simp add: iter_str_def)

section \<open>Quoting\<close>

text \<open>A word as a user can always write it: in double quotes, every character escaped.\<close>

definition sh_quote :: "string \<Rightarrow> string" where
  "sh_quote w = CHR 0x22 # concat (map (\<lambda>c. [CHR 0x5C, c]) w) @ [CHR 0x22]"

definition ends_word :: "string \<Rightarrow> bool" where
  "ends_word rest = (rest = [] \<or> isspace (hd rest))"

lemma scan_word_end: "ends_word rest \<Longrightarrow> scan_word NUL rest = (0, False)"
  by (cases rest) (auto simp: ends_word_def)

lemma scan_escaped:
  assumes "ends_word rest"
  shows "fst (scan_word (CHR 0x22) (concat (map (\<lambda>c. [CHR 0x5C, c]) w) @ CHR 0x22 # rest)) = 2 * length w + 1"
  by (induction w) (simp_all add: scan_word_end [OF assms])

lemma unquote_escaped:
  "unquote (CHR 0x22) (2 * length w + 1) (concat (map (\<lambda>c. [CHR 0x5C, c]) w) @ CHR 0x22 # rest) = Some w"
  by (induction w) simp_all

lemma length_escaped: "length (concat (map (\<lambda>c. [CHR 0x5C, c]) w)) = 2 * length w"
  by (induction w) simp_all

lemma update_quoted:
  assumes "ends_word rest"
  shows "update_iter (sh_quote w @ rest)
     = \<lparr>it_s = sh_quote w @ rest, it_type = TYPE_NORMAL, it_quoted = True, it_len = length (sh_quote w)\<rparr>"
proof -
  have "skip_blank (sh_quote w @ rest) = sh_quote w @ rest"
    by (simp add: skip_blank_def sh_quote_def char_at_def isspace_def)
  then show ?thesis
    using scan_escaped [OF assms, of w] by (cases "scan_word (CHR 0x22) (concat (map (\<lambda>c. [CHR 0x5C, c]) w) @ CHR 0x22 # rest)")
      (simp add: update_iter_def sh_quote_def char_at_def isspace_def isdigit_def isshellspecial_def length_escaped)
qed

lemma iter_str_quoted:
  assumes "ends_word rest"
  shows "iter_str (update_iter (sh_quote w @ rest)) = Some w"
proof -
  have "unquote NUL (length (sh_quote w)) (sh_quote w @ rest) = Some w"
    using unquote_escaped [of w rest] by (simp add: sh_quote_def length_escaped)
  then show ?thesis by (simp add: iter_str_def update_quoted [OF assms])
qed

end
