(* ===== verification/ShParse.thy ===== *)
theory ShParse
  imports ShTok
begin

text \<open>
  The parser of the shell (src/pset5/sh61.cc, \<open>parse_line\<close>) and the structures it builds.
  The linked lists of commands, pipelines and conditionals are lists; the structure under
  construction is always the last of its list. A result None is undefined behaviour of the
  C++ library: \<open>back\<close> or \<open>pop_back\<close> of something empty.
\<close>

section \<open>Commands, pipelines, conditionals\<close>

abbreviation (input) O_RDONLY :: "32 word" where "O_RDONLY \<equiv> 0"
abbreviation (input) O_WRONLY :: "32 word" where "O_WRONLY \<equiv> 1"
abbreviation (input) O_CREAT :: "32 word" where "O_CREAT \<equiv> 0x40"
abbreviation (input) O_TRUNC :: "32 word" where "O_TRUNC \<equiv> 0x200"
abbreviation (input) O_APPEND :: "32 word" where "O_APPEND \<equiv> 0x400"

record command =
  args :: "string list"
  cpid :: int
  read_fd :: int
  cpgid :: int
  is_cd :: bool
  is_variable_def :: bool
  redirection :: "string list"
  perms :: "32 word list"

definition new_command :: command where
  "new_command = \<lparr>args = [], cpid = -1, read_fd = -1, cpgid = 0, is_cd = False, is_variable_def = False,
     redirection = [[], [], []],
     perms = [O_RDONLY, O_WRONLY OR O_CREAT OR O_TRUNC, O_WRONLY OR O_CREAT OR O_TRUNC]\<rparr>"

record pipeline =
  commands :: "command list"
  next_is_or :: bool

record conditional =
  pipelines :: "pipeline list"
  is_background :: bool

definition new_pipeline :: pipeline where
  "new_pipeline = \<lparr>commands = [new_command], next_is_or = False\<rparr>"

definition new_conditional :: conditional where
  "new_conditional = \<lparr>pipelines = [new_pipeline], is_background = False\<rparr>"

type_synonym variables = "string \<Rightarrow> string option"

text \<open>\<open>std::map::insert\<close>: an element with the same key is kept.\<close>

definition var_insert :: "string \<Rightarrow> string \<Rightarrow> variables \<Rightarrow> variables" where
  "var_insert k v m = (case m k of None \<Rightarrow> m(k \<mapsto> v) | Some _ \<Rightarrow> m)"

section \<open>The parser's state\<close>

record parse_state =
  ps_list :: "conditional list"
  ps_var :: variables
  is_variable :: bool
  prev_word :: string

primrec upd_last :: "('a \<Rightarrow> 'a) \<Rightarrow> 'a list \<Rightarrow> 'a list" where
  "upd_last f [] = []"
| "upd_last f (x # xs) = (if xs = [] then [f x] else x # upd_last f xs)"

definition on_conditional :: "(conditional \<Rightarrow> conditional) \<Rightarrow> parse_state \<Rightarrow> parse_state" where
  "on_conditional f st = st\<lparr>ps_list := upd_last f (ps_list st)\<rparr>"

definition on_pipeline :: "(pipeline \<Rightarrow> pipeline) \<Rightarrow> parse_state \<Rightarrow> parse_state" where
  "on_pipeline f = on_conditional (\<lambda>c. c\<lparr>pipelines := upd_last f (pipelines c)\<rparr>)"

definition on_command :: "(command \<Rightarrow> command) \<Rightarrow> parse_state \<Rightarrow> parse_state" where
  "on_command f = on_pipeline (\<lambda>p. p\<lparr>commands := upd_last f (commands p)\<rparr>)"

definition curr_command :: "parse_state \<Rightarrow> command" where
  "curr_command st = last (commands (last (pipelines (last (ps_list st)))))"

definition push_conditional :: "parse_state \<Rightarrow> parse_state" where
  "push_conditional st = st\<lparr>ps_list := ps_list st @ [new_conditional]\<rparr>"

definition push_pipeline :: "bool \<Rightarrow> parse_state \<Rightarrow> parse_state" where
  "push_pipeline is_or st = on_conditional (\<lambda>c. c\<lparr>pipelines := pipelines c @ [new_pipeline]\<rparr>)
     (on_pipeline (\<lambda>p. p\<lparr>next_is_or := is_or\<rparr>) st)"

definition push_command :: "parse_state \<Rightarrow> parse_state" where
  "push_command = on_pipeline (\<lambda>p. p\<lparr>commands := commands p @ [new_command]\<rparr>)"

section \<open>One token\<close>

definition append_perm :: "nat \<Rightarrow> command \<Rightarrow> command" where
  "append_perm i c = c\<lparr>perms := (perms c)[i := (perms c ! i AND NOT O_TRUNC) OR O_APPEND]\<rparr>"

definition redirect :: "string \<Rightarrow> string \<Rightarrow> command \<Rightarrow> command" where
  "redirect oper f c =
    (if oper = ''<'' then c\<lparr>redirection := (redirection c)[0 := f]\<rparr>
     else if oper = ''>'' \<or> oper = ''>>'' then
       (if oper = ''>>'' then append_perm 1 c else c)\<lparr>redirection := (redirection c)[1 := f]\<rparr>
     else (if oper = ''2>>'' then append_perm 2 c else c)\<lparr>redirection := (redirection c)[2 := f]\<rparr>)"

definition parse_rbrace :: "token_iter \<Rightarrow> parse_state \<Rightarrow> (parse_state \<times> token_iter) option" where
  "parse_rbrace it st =
    (let nx = iter_next it in
     if at_end nx then Some (st, nx)
     else do {
       w \<leftarrow> iter_str nx;
       assert_ok (args (curr_command st) \<noteq> []);
       Some (on_command (\<lambda>c. c\<lparr>args := butlast (args c) @ [prev_word st @ w]\<rparr>) (st\<lparr>prev_word := prev_word st @ w\<rparr>), nx)
     })"

definition parse_equal :: "token_iter \<Rightarrow> parse_state \<Rightarrow> (parse_state \<times> token_iter) option" where
  "parse_equal it st = do {
     w \<leftarrow> iter_str (iter_next it);
     Some (on_command (\<lambda>c. c\<lparr>is_variable_def := True\<rparr>) (st\<lparr>ps_var := var_insert (prev_word st) w (ps_var st)\<rparr>), iter_next it)
   }"

definition parse_redirect :: "token_iter \<Rightarrow> parse_state \<Rightarrow> (parse_state \<times> token_iter) option" where
  "parse_redirect it st = do {
     oper \<leftarrow> iter_str it;
     f \<leftarrow> iter_str (iter_next it);
     Some (on_command (redirect oper f) st, iter_next it)
   }"

text \<open>The value of a variable reference: the name, less a last character that is not a letter,
  is looked up and that character is put back.\<close>

definition expand :: "variables \<Rightarrow> string \<Rightarrow> string option" where
  "expand vars w = do {
     assert_ok (w \<noteq> []);
     let name = (if isalpha (last w) then w else butlast w);
     let back = (if isalpha (last w) then [] else [last w]);
     Some ((case vars name of Some v \<Rightarrow> v | None \<Rightarrow> []) @ back)
   }"

definition parse_word :: "token_iter \<Rightarrow> parse_state \<Rightarrow> (parse_state \<times> token_iter) option" where
  "parse_word it st = do {
     w \<leftarrow> iter_str it;
     let st1 = (if w = ''cd'' then on_command (\<lambda>c. c\<lparr>is_cd := True\<rparr>) st else st);
     if is_variable st1 then do {
       v \<leftarrow> expand (ps_var st1) w;
       Some (on_command (\<lambda>c. c\<lparr>args := args c @ [v]\<rparr>) (st1\<lparr>is_variable := False, prev_word := v\<rparr>), it)
     } else Some (on_command (\<lambda>c. c\<lparr>args := args c @ [w]\<rparr>) (st1\<lparr>prev_word := w\<rparr>), it)
   }"

definition parse_token :: "token_iter \<Rightarrow> parse_state \<Rightarrow> (parse_state \<times> token_iter) option" where
  "parse_token it st =
    (case it_type it of
       TYPE_LBRACE \<Rightarrow> Some (st, it)
     | TYPE_RBRACE \<Rightarrow> parse_rbrace it st
     | TYPE_VARIABLE \<Rightarrow> Some (st\<lparr>is_variable := True\<rparr>, it)
     | TYPE_EQUAL \<Rightarrow> parse_equal it st
     | TYPE_BACKGROUND \<Rightarrow> Some (push_conditional (on_conditional (\<lambda>c. c\<lparr>is_background := True\<rparr>) st), it)
     | TYPE_SEQUENCE \<Rightarrow> Some (push_conditional st, it)
     | TYPE_AND \<Rightarrow> Some (push_pipeline False st, it)
     | TYPE_OR \<Rightarrow> Some (push_pipeline True st, it)
     | TYPE_PIPE \<Rightarrow> Some (push_command st, it)
     | TYPE_REDIRECT_OP \<Rightarrow> parse_redirect it st
     | _ \<Rightarrow> parse_word it st)"

section \<open>The line\<close>

text \<open>The loop of \<open>parse_line\<close>: \<open>s\<close> is the position the iterator is moved to, where \<open>update\<close>
  reads the next token.\<close>

lemma parse_token_pos:
  assumes "parse_token it st = Some (st', it')"
  shows "it' = it \<or> it' = iter_next it"
  using assms
  by (auto simp: parse_token_def parse_rbrace_def parse_equal_def parse_redirect_def parse_word_def Let_def bind_eq_Some_conv
    split: token_type.splits if_splits)

lemma parse_loop_shorter:
  assumes e: "\<not> at_end (update_iter s)" and "parse_token (update_iter s) st = Some (st', it')"
  shows "length (drop (it_len it') (it_s it')) < length s"
proof -
  have ne: "0 < length (it_s (update_iter s))" using e by (auto simp: at_end_def char_at_def)
  have le: "length (it_s (update_iter s)) \<le> length s" by (simp add: it_s_update)
  from parse_token_pos [OF assms(2)] show ?thesis
  proof
    assume "it' = update_iter s"
    with le diff_less [OF update_len_pos [OF e] ne] show ?thesis by (simp del: diff_less)
  next
    assume "it' = iter_next (update_iter s)"
    with iter_next_shorter [OF e] le show ?thesis by simp
  qed
qed

function parse_loop :: "string \<Rightarrow> parse_state \<Rightarrow> parse_state option" where
  "parse_loop s st =
    (let it = update_iter s in
     if at_end it then Some st
     else (case parse_token it st of None \<Rightarrow> None
       | Some (st', it') \<Rightarrow> parse_loop (drop (it_len it') (it_s it')) st'))"
  by pat_completeness auto

termination
  by (relation "measure (\<lambda>(s, _). length s)") (auto dest: parse_loop_shorter simp del: length_drop)

declare parse_loop.simps [simp del]

definition parse_line :: "variables \<Rightarrow> string \<Rightarrow> (variables \<times> conditional list) option" where
  "parse_line vars s = do {
     st \<leftarrow> parse_loop (parser_start s)
       \<lparr>ps_list = [new_conditional], ps_var = vars, is_variable = False, prev_word = []\<rparr>;
     Some (ps_var st, ps_list st)
   }"

section \<open>Writing a command line\<close>

text \<open>The syntax a command line has (variables aside), its text and the structures it stands
  for. Words are written quoted, so they may hold any character.\<close>

datatype redir_op = R_IN | R_OUT | R_APPEND | R_ERR | R_ERR_APPEND

datatype item = Word string | Redir redir_op string

type_synonym pipe_syntax = "item list \<times> item list list"

text \<open>A chain is a first pipeline and the later ones with their operator (True: \<open>||\<close>); a
  script is a list of chains, each with its separator (True: \<open>&\<close>).\<close>

type_synonym chain_syntax = "pipe_syntax \<times> (bool \<times> pipe_syntax) list"

definition op_text :: "redir_op \<Rightarrow> string" where
  "op_text r = (case r of R_IN \<Rightarrow> ''<'' | R_OUT \<Rightarrow> ''>'' | R_APPEND \<Rightarrow> ''>>'' | R_ERR \<Rightarrow> ''2>'' | R_ERR_APPEND \<Rightarrow> ''2>>'')"

fun item_text :: "item \<Rightarrow> string" where
  "item_text (Word w) = sh_quote w @ '' ''"
| "item_text (Redir r f) = op_text r @ '' '' @ sh_quote f @ '' ''"

definition cmd_text :: "item list \<Rightarrow> string" where
  "cmd_text is = concat (map item_text is)"

definition pipe_text :: "pipe_syntax \<Rightarrow> string" where
  "pipe_text p = cmd_text (fst p) @ concat (map (\<lambda>c. ''| '' @ cmd_text c) (snd p))"

definition chain_text :: "chain_syntax \<Rightarrow> string" where
  "chain_text ch = pipe_text (fst ch) @ concat (map (\<lambda>(b, p). (if b then ''|| '' else ''&& '') @ pipe_text p) (snd ch))"

definition script_text :: "(chain_syntax \<times> bool) list \<Rightarrow> string" where
  "script_text sc = concat (map (\<lambda>(ch, bg). chain_text ch @ (if bg then ''& '' else ''; '')) sc)"

fun item_command :: "command \<Rightarrow> item \<Rightarrow> command" where
  "item_command c (Word w) = (if w = ''cd'' then c\<lparr>is_cd := True\<rparr> else c)\<lparr>args := args c @ [w]\<rparr>"
| "item_command c (Redir r f) =
    (case r of
       R_IN \<Rightarrow> c\<lparr>redirection := (redirection c)[0 := f]\<rparr>
     | R_OUT \<Rightarrow> c\<lparr>redirection := (redirection c)[1 := f]\<rparr>
     | R_APPEND \<Rightarrow> (append_perm 1 c)\<lparr>redirection := (redirection c)[1 := f]\<rparr>
     | R_ERR \<Rightarrow> c\<lparr>redirection := (redirection c)[2 := f]\<rparr>
     | R_ERR_APPEND \<Rightarrow> (append_perm 2 c)\<lparr>redirection := (redirection c)[2 := f]\<rparr>)"

definition the_command :: "item list \<Rightarrow> command" where
  "the_command is = foldl item_command new_command is"

definition the_pipeline :: "pipe_syntax \<Rightarrow> bool \<Rightarrow> pipeline" where
  "the_pipeline p is_or = \<lparr>commands = the_command (fst p) # map the_command (snd p), next_is_or = is_or\<rparr>"

text \<open>Each pipeline carries the operator that follows it.\<close>

fun the_pipelines :: "pipe_syntax \<Rightarrow> (bool \<times> pipe_syntax) list \<Rightarrow> pipeline list" where
  "the_pipelines p [] = [the_pipeline p False]"
| "the_pipelines p ((b, q) # rest) = the_pipeline p b # the_pipelines q rest"

definition the_conditional :: "chain_syntax \<Rightarrow> bool \<Rightarrow> conditional" where
  "the_conditional ch bg = \<lparr>pipelines = the_pipelines (fst ch) (snd ch), is_background = bg\<rparr>"

section \<open>Reading it back\<close>

lemma skip_blank_space: "skip_blank (CHR '' '' # s) = skip_blank s"
  by (simp add: skip_blank_def isspace_def)

lemma update_space: "update_iter (CHR '' '' # s) = update_iter s"
  by (simp only: update_iter_def skip_blank_space)

lemma parse_loop_space: "parse_loop (CHR '' '' # s) st = parse_loop s st"
  by (subst (1 2) parse_loop.simps) (simp add: update_space)

lemma parse_loop_Nil: "parse_loop [] st = Some st"
  by (subst parse_loop.simps) (simp add: at_end_def char_at_def)

lemma ends_word_space [simp]: "ends_word (CHR '' '' # s)"
  by (simp add: ends_word_def isspace_def)

lemma upd_last_eq_Nil [simp]: "upd_last f xs = [] \<longleftrightarrow> xs = []"
  by (cases xs) auto

lemma upd_last_comp: "upd_last f (upd_last g xs) = upd_last (\<lambda>x. f (g x)) xs"
  by (induction xs) auto

lemma upd_last_append [simp]: "upd_last f (xs @ [x]) = xs @ [f x]"
  by (induction xs) auto

lemma upd_last_id: "upd_last (\<lambda>x. x) xs = xs"
  by (induction xs) auto

lemma on_command_id: "on_command (\<lambda>c. c) st = st"
proof -
  have "p\<lparr>commands := commands p\<rparr> = p" "c\<lparr>pipelines := pipelines c\<rparr> = c" "st\<lparr>ps_list := ps_list st\<rparr> = st" for p :: pipeline and c :: conditional
    by simp_all
  then show ?thesis by (simp add: on_command_def on_pipeline_def on_conditional_def upd_last_id)
qed

lemma on_command_comp: "on_command f (on_command g st) = on_command (\<lambda>c. f (g c)) st"
  by (simp add: on_command_def on_pipeline_def on_conditional_def upd_last_comp)

lemma on_command_sel [simp]:
  "ps_var (on_command f st) = ps_var st" "is_variable (on_command f st) = is_variable st"
  "prev_word (on_command f st) = prev_word st"
  by (simp_all add: on_command_def on_pipeline_def on_conditional_def)

lemma on_command_prev: "on_command f (st\<lparr>prev_word := w\<rparr>) = (on_command f st)\<lparr>prev_word := w\<rparr>"
  by (simp add: on_command_def on_pipeline_def on_conditional_def)

lemma parse_quoted_word:
  assumes "\<not> is_variable st"
  shows "parse_loop (sh_quote w @ CHR '' '' # s) st
    = parse_loop s ((on_command (\<lambda>c. item_command c (Word w)) st)\<lparr>prev_word := w\<rparr>)"
proof -
  define it where "it = update_iter (sh_quote w @ CHR '' '' # s)"
  have u: "it = \<lparr>it_s = sh_quote w @ CHR '' '' # s, it_type = TYPE_NORMAL, it_quoted = True, it_len = length (sh_quote w)\<rparr>"
    unfolding it_def by (rule update_quoted) simp
  have str: "iter_str it = Some w" unfolding it_def by (rule iter_str_quoted) simp
  have e: "\<not> at_end it" unfolding at_end_def u by (simp add: char_at_def sh_quote_def)
  have "parse_word it st = Some ((on_command (\<lambda>c. item_command c (Word w)) st)\<lparr>prev_word := w\<rparr>, it)"
    using assms str by (cases "w = ''cd''") (simp_all add: parse_word_def on_command_prev on_command_comp)
  moreover have "it_type it = TYPE_NORMAL" by (simp add: u)
  ultimately have t: "parse_token it st = Some ((on_command (\<lambda>c. item_command c (Word w)) st)\<lparr>prev_word := w\<rparr>, it)"
    by (simp add: parse_token_def)
  have d: "drop (it_len it) (it_s it) = CHR '' '' # s" by (simp add: u)
  show ?thesis
    by (subst parse_loop.simps) (simp add: it_def [symmetric] Let_def e t d parse_loop_space)
qed

text \<open>An operator followed by a space is read as itself.\<close>

lemma update_op:
  "update_iter (CHR ''|'' # CHR '' '' # s) = \<lparr>it_s = CHR ''|'' # CHR '' '' # s, it_type = TYPE_PIPE, it_quoted = False, it_len = 1\<rparr>"
  "update_iter (CHR '';'' # CHR '' '' # s) = \<lparr>it_s = CHR '';'' # CHR '' '' # s, it_type = TYPE_SEQUENCE, it_quoted = False, it_len = 1\<rparr>"
  "update_iter (CHR ''&'' # CHR '' '' # s) = \<lparr>it_s = CHR ''&'' # CHR '' '' # s, it_type = TYPE_BACKGROUND, it_quoted = False, it_len = 1\<rparr>"
  "update_iter (CHR ''&'' # CHR ''&'' # CHR '' '' # s) = \<lparr>it_s = CHR ''&'' # CHR ''&'' # CHR '' '' # s, it_type = TYPE_AND, it_quoted = False, it_len = 2\<rparr>"
  "update_iter (CHR ''|'' # CHR ''|'' # CHR '' '' # s) = \<lparr>it_s = CHR ''|'' # CHR ''|'' # CHR '' '' # s, it_type = TYPE_OR, it_quoted = False, it_len = 2\<rparr>"
  by (simp_all add: update_iter_def skip_blank_def char_at_def isspace_def isdigit_def isshellspecial_def operator_type_def)

lemma update_redirect:
  "update_iter (op_text r @ CHR '' '' # s) = \<lparr>it_s = op_text r @ CHR '' '' # s, it_type = TYPE_REDIRECT_OP, it_quoted = False, it_len = length (op_text r)\<rparr>"
  by (cases r) (simp_all add: op_text_def update_iter_def redirect_len_def skip_blank_def char_at_def isspace_def isdigit_def)

lemma parse_loop_op:
  "parse_loop (CHR ''|'' # CHR '' '' # s) st = parse_loop s (push_command st)"
  "parse_loop (CHR '';'' # CHR '' '' # s) st = parse_loop s (push_conditional st)"
  "parse_loop (CHR ''&'' # CHR '' '' # s) st = parse_loop s (push_conditional (on_conditional (\<lambda>c. c\<lparr>is_background := True\<rparr>) st))"
  "parse_loop (CHR ''&'' # CHR ''&'' # CHR '' '' # s) st = parse_loop s (push_pipeline False st)"
  "parse_loop (CHR ''|'' # CHR ''|'' # CHR '' '' # s) st = parse_loop s (push_pipeline True st)"
  by (subst parse_loop.simps; simp add: update_op at_end_def char_at_def parse_token_def parse_loop_space)+

lemma parse_redirect_text:
  "parse_loop (op_text r @ CHR '' '' # sh_quote f @ CHR '' '' # s) st
    = parse_loop s (on_command (\<lambda>c. item_command c (Redir r f)) st)"
proof -
  define it where "it = update_iter (op_text r @ CHR '' '' # sh_quote f @ CHR '' '' # s)"
  have u: "it = \<lparr>it_s = op_text r @ CHR '' '' # sh_quote f @ CHR '' '' # s, it_type = TYPE_REDIRECT_OP, it_quoted = False, it_len = length (op_text r)\<rparr>"
    unfolding it_def by (rule update_redirect)
  have e: "\<not> at_end it" unfolding at_end_def u by (cases r) (simp_all add: char_at_def op_text_def)
  have nx: "iter_next it = update_iter (sh_quote f @ CHR '' '' # s)" by (simp add: iter_next_def u update_space)
  have str: "iter_str it = Some (op_text r)" by (simp add: iter_str_def u)
  have strf: "iter_str (iter_next it) = Some f" unfolding nx by (rule iter_str_quoted) simp
  have r: "redirect (op_text r) f = (\<lambda>c. item_command c (Redir r f))"
    by (cases r) (simp_all add: redirect_def op_text_def fun_eq_iff)
  have "it_type it = TYPE_REDIRECT_OP" by (simp add: u)
  then have t: "parse_token it st = Some (on_command (\<lambda>c. item_command c (Redir r f)) st, iter_next it)"
    unfolding r [symmetric] by (simp add: parse_token_def parse_redirect_def str strf)
  have d: "drop (it_len (iter_next it)) (it_s (iter_next it)) = CHR '' '' # s"
    unfolding nx by (subst (1 2) update_quoted) simp_all
  show ?thesis
    by (subst parse_loop.simps) (simp add: it_def [symmetric] Let_def e t d parse_loop_space)
qed

text \<open>The items of a command, up to the last word seen.\<close>

lemma parse_cmd_text:
  assumes "\<not> is_variable st"
  shows "\<exists>pw. parse_loop (cmd_text is @ s) st = parse_loop s ((on_command (\<lambda>c. foldl item_command c is) st)\<lparr>prev_word := pw\<rparr>)"
  using assms
proof (induction "is" arbitrary: st)
  case Nil
  show ?case by (rule exI [of _ "prev_word st"]) (simp add: cmd_text_def on_command_id)
next
  case (Cons i "is")
  define st1 where "st1 = (case i of Word w \<Rightarrow> (on_command (\<lambda>c. item_command c i) st)\<lparr>prev_word := w\<rparr> | Redir r f \<Rightarrow> on_command (\<lambda>c. item_command c i) st)"
  have e: "parse_loop (item_text i @ cmd_text is @ s) st = parse_loop (cmd_text is @ s) st1"
    using parse_quoted_word [OF Cons.prems] parse_redirect_text by (cases i) (simp_all add: st1_def del: item_command.simps)
  have "\<not> is_variable st1" using Cons.prems by (simp add: st1_def split: item.split)
  from Cons.IH [OF this] obtain pw where
    "parse_loop (cmd_text is @ s) st1 = parse_loop s ((on_command (\<lambda>c. foldl item_command c is) st1)\<lparr>prev_word := pw\<rparr>)" by blast
  moreover have "(on_command (\<lambda>c. foldl item_command c is) st1)\<lparr>prev_word := pw\<rparr>
      = (on_command (\<lambda>c. foldl item_command c (i # is)) st)\<lparr>prev_word := pw\<rparr>"
    by (simp add: st1_def on_command_prev on_command_comp split: item.split)
  ultimately show ?case using e by (auto simp: cmd_text_def)
qed

text \<open>A state whose last command, pipeline and conditional are still empty, after the given
  conditionals, pipelines and commands.\<close>

definition at_command :: "conditional list \<Rightarrow> pipeline list \<Rightarrow> command list \<Rightarrow> command \<Rightarrow> variables \<Rightarrow> string \<Rightarrow> parse_state" where
  "at_command cs ps ks k vars pw =
     \<lparr>ps_list = cs @ [\<lparr>pipelines = ps @ [\<lparr>commands = ks @ [k], next_is_or = False\<rparr>], is_background = False\<rparr>],
      ps_var = vars, is_variable = False, prev_word = pw\<rparr>"

lemma at_command_steps:
  "on_command f (at_command cs ps ks k vars pw) = at_command cs ps ks (f k) vars pw"
  "push_command (at_command cs ps ks k vars pw) = at_command cs ps (ks @ [k]) new_command vars pw"
  "push_pipeline b (at_command cs ps ks k vars pw) = at_command cs (ps @ [\<lparr>commands = ks @ [k], next_is_or = b\<rparr>]) [] new_command vars pw"
  "push_conditional (at_command cs ps ks k vars pw) =
     at_command (cs @ [\<lparr>pipelines = ps @ [\<lparr>commands = ks @ [k], next_is_or = False\<rparr>], is_background = False\<rparr>]) [] [] new_command vars pw"
  "push_conditional (on_conditional (\<lambda>c. c\<lparr>is_background := True\<rparr>) (at_command cs ps ks k vars pw)) =
     at_command (cs @ [\<lparr>pipelines = ps @ [\<lparr>commands = ks @ [k], next_is_or = False\<rparr>], is_background = True\<rparr>]) [] [] new_command vars pw"
  "(at_command cs ps ks k vars pw)\<lparr>prev_word := pw'\<rparr> = at_command cs ps ks k vars pw'"
  by (simp_all add: at_command_def on_command_def on_pipeline_def on_conditional_def push_command_def push_pipeline_def
    push_conditional_def new_conditional_def new_pipeline_def upd_last_comp)

lemma parse_cmd_at:
  "\<exists>pw'. parse_loop (cmd_text is @ s) (at_command cs ps ks new_command vars pw) = parse_loop s (at_command cs ps ks (the_command is) vars pw')"
proof -
  have "\<not> is_variable (at_command cs ps ks new_command vars pw)" by (simp add: at_command_def)
  from parse_cmd_text [OF this, of "is" s] show ?thesis by (simp add: at_command_steps the_command_def)
qed

lemma parse_pipe_rest:
  "\<exists>pw'. parse_loop (concat (map (\<lambda>c. ''| '' @ cmd_text c) cmds) @ s) (at_command cs ps ks k vars pw)
     = parse_loop s (at_command cs ps (butlast (ks @ k # map the_command cmds)) (last (k # map the_command cmds)) vars pw')"
proof (induction cmds arbitrary: ks k pw)
  case Nil
  show ?case by (rule exI [of _ pw]) simp
next
  case (Cons c cmds)
  let ?s = "concat (map (\<lambda>c. ''| '' @ cmd_text c) cmds) @ s"
  obtain pw1 where "parse_loop (cmd_text c @ ?s) (at_command cs ps (ks @ [k]) new_command vars pw)
      = parse_loop ?s (at_command cs ps (ks @ [k]) (the_command c) vars pw1)"
    using parse_cmd_at by blast
  moreover obtain pw2 where "parse_loop ?s (at_command cs ps (ks @ [k]) (the_command c) vars pw1)
      = parse_loop s (at_command cs ps (butlast ((ks @ [k]) @ the_command c # map the_command cmds))
          (last (the_command c # map the_command cmds)) vars pw2)"
    using Cons.IH [of "ks @ [k]" "the_command c" pw1] by blast
  ultimately show ?case by (auto simp: parse_loop_op at_command_steps)
qed

text \<open>A pipeline: the state after it has its commands, all but the last complete.\<close>

definition after_pipe :: "conditional list \<Rightarrow> pipeline list \<Rightarrow> pipe_syntax \<Rightarrow> variables \<Rightarrow> string \<Rightarrow> parse_state" where
  "after_pipe cs ps p vars pw =
     at_command cs ps (butlast (commands (the_pipeline p False))) (last (commands (the_pipeline p False))) vars pw"

lemma after_pipe_steps:
  "push_pipeline b (after_pipe cs ps p vars pw) = at_command cs (ps @ [the_pipeline p b]) [] new_command vars pw"
  "push_conditional (after_pipe cs ps p vars pw)
     = at_command (cs @ [\<lparr>pipelines = ps @ [the_pipeline p False], is_background = False\<rparr>]) [] [] new_command vars pw"
  "push_conditional (on_conditional (\<lambda>c. c\<lparr>is_background := True\<rparr>) (after_pipe cs ps p vars pw))
     = at_command (cs @ [\<lparr>pipelines = ps @ [the_pipeline p False], is_background = True\<rparr>]) [] [] new_command vars pw"
proof -
  have "commands (the_pipeline p b) \<noteq> []" "the_pipeline p b = \<lparr>commands = commands (the_pipeline p False), next_is_or = b\<rparr>" for b
    by (simp_all add: the_pipeline_def)
  note e = this(2) [symmetric]
  have bl: "butlast (commands (the_pipeline p False)) @ [last (commands (the_pipeline p False))] = commands (the_pipeline p False)"
    by (simp add: the_pipeline_def)
  show "push_pipeline b (after_pipe cs ps p vars pw) = at_command cs (ps @ [the_pipeline p b]) [] new_command vars pw"
    and "push_conditional (after_pipe cs ps p vars pw)
     = at_command (cs @ [\<lparr>pipelines = ps @ [the_pipeline p False], is_background = False\<rparr>]) [] [] new_command vars pw"
    and "push_conditional (on_conditional (\<lambda>c. c\<lparr>is_background := True\<rparr>) (after_pipe cs ps p vars pw))
     = at_command (cs @ [\<lparr>pipelines = ps @ [the_pipeline p False], is_background = True\<rparr>]) [] [] new_command vars pw"
    by (simp_all only: after_pipe_def at_command_steps bl e)
qed

lemma parse_pipe:
  "\<exists>pw'. parse_loop (pipe_text p @ s) (at_command cs ps [] new_command vars pw) = parse_loop s (after_pipe cs ps p vars pw')"
proof -
  let ?s = "concat (map (\<lambda>c. ''| '' @ cmd_text c) (snd p)) @ s"
  obtain pw1 where "parse_loop (cmd_text (fst p) @ ?s) (at_command cs ps [] new_command vars pw)
      = parse_loop ?s (at_command cs ps [] (the_command (fst p)) vars pw1)"
    using parse_cmd_at by blast
  moreover obtain pw2 where "parse_loop ?s (at_command cs ps [] (the_command (fst p)) vars pw1) = parse_loop s (after_pipe cs ps p vars pw2)"
    using parse_pipe_rest [of "snd p" s cs ps "[]" "the_command (fst p)" vars pw1] by (auto simp: after_pipe_def the_pipeline_def)
  ultimately show ?thesis unfolding pipe_text_def append_assoc by metis
qed

lemma parse_chain_rest:
  "\<exists>pw' p'. parse_loop (concat (map (\<lambda>(b, p). (if b then ''|| '' else ''&& '') @ pipe_text p) rest) @ s) (after_pipe cs ps p vars pw)
     = parse_loop s (after_pipe cs (butlast (ps @ the_pipelines p rest)) p' vars pw')
     \<and> the_pipeline p' False = last (the_pipelines p rest)"
proof (induction rest arbitrary: ps p pw)
  case Nil
  show ?case by (intro exI [of _ pw] exI [of _ p]) simp
next
  case (Cons bq rest)
  obtain b q where bq: "bq = (b, q)" by (cases bq)
  let ?s = "concat (map (\<lambda>(b, p). (if b then ''|| '' else ''&& '') @ pipe_text p) rest) @ s"
  have "parse_loop ((if b then ''|| '' else ''&& '') @ pipe_text q @ ?s) (after_pipe cs ps p vars pw)
      = parse_loop (pipe_text q @ ?s) (at_command cs (ps @ [the_pipeline p b]) [] new_command vars pw)"
    by (simp add: parse_loop_op after_pipe_steps)
  moreover obtain pw1 where "parse_loop (pipe_text q @ ?s) (at_command cs (ps @ [the_pipeline p b]) [] new_command vars pw)
      = parse_loop ?s (after_pipe cs (ps @ [the_pipeline p b]) q vars pw1)"
    using parse_pipe by blast
  moreover have "the_pipelines q rest \<noteq> []" by (cases "(q, rest)" rule: the_pipelines.cases) auto
  ultimately show ?case using Cons.IH [of "ps @ [the_pipeline p b]" q pw1] by (auto simp: bq)
qed

lemma parse_chain:
  "\<exists>pw'. parse_loop (chain_text ch @ (if bg then ''& '' else ''; '') @ s) (at_command cs [] [] new_command vars pw)
     = parse_loop s (at_command (cs @ [the_conditional ch bg]) [] [] new_command vars pw')"
proof -
  let ?sep = "(if bg then ''& '' else ''; '') @ s"
  let ?r = "concat (map (\<lambda>(b, p). (if b then ''|| '' else ''&& '') @ pipe_text p) (snd ch)) @ ?sep"
  obtain pw1 where "parse_loop (pipe_text (fst ch) @ ?r) (at_command cs [] [] new_command vars pw) = parse_loop ?r (after_pipe cs [] (fst ch) vars pw1)"
    using parse_pipe by blast
  moreover obtain pw2 p' where "parse_loop ?r (after_pipe cs [] (fst ch) vars pw1)
       = parse_loop ?sep (after_pipe cs (butlast (the_pipelines (fst ch) (snd ch))) p' vars pw2)"
     and p': "the_pipeline p' False = last (the_pipelines (fst ch) (snd ch))"
    using parse_chain_rest [of "snd ch" ?sep cs "[]" "fst ch" vars pw1] by auto
  moreover have "the_pipelines (fst ch) (snd ch) \<noteq> []" by (cases "(fst ch, snd ch)" rule: the_pipelines.cases) auto
  ultimately show ?thesis
    by (auto simp: chain_text_def parse_loop_op after_pipe_steps the_conditional_def)
qed

lemma parse_script:
  "\<exists>pw'. parse_loop (script_text sc @ s) (at_command cs [] [] new_command vars pw)
     = parse_loop s (at_command (cs @ map (\<lambda>(ch, bg). the_conditional ch bg) sc) [] [] new_command vars pw')"
proof (induction sc arbitrary: cs pw)
  case Nil
  show ?case by (rule exI [of _ pw]) (simp add: script_text_def)
next
  case (Cons x sc)
  obtain ch bg where x: "x = (ch, bg)" by (cases x)
  obtain pw1 where "parse_loop (chain_text ch @ (if bg then ''& '' else ''; '') @ script_text sc @ s) (at_command cs [] [] new_command vars pw)
     = parse_loop (script_text sc @ s) (at_command (cs @ [the_conditional ch bg]) [] [] new_command vars pw1)"
    using parse_chain by blast
  then show ?case using Cons.IH [of "cs @ [the_conditional ch bg]" pw1] by (simp add: x script_text_def)
qed

lemma parse_loop_spaces:
  assumes "\<forall>c \<in> set ws. isspace c"
  shows "parse_loop ws st = Some st"
proof -
  have "skip_blank ws = []" using assms by (simp add: skip_blank_def dropWhile_eq_Nil_conv char_at_def)
  then show ?thesis by (subst parse_loop.simps) (simp add: at_end_def it_s_update char_at_def)
qed

lemma parse_line_script:
  assumes "\<forall>c \<in> set ws. isspace c"
  shows "parse_line vars (script_text sc @ ws) = Some (vars, map (\<lambda>(ch, bg). the_conditional ch bg) sc @ [new_conditional])"
proof -
  have start: "\<lparr>ps_list = [new_conditional], ps_var = vars, is_variable = False, prev_word = []\<rparr> = at_command [] [] [] new_command vars []"
    by (simp add: at_command_def new_conditional_def new_pipeline_def)
  have skip: "parse_loop (skip_blank s) st = parse_loop s st" for s st
    by (subst (1 2) parse_loop.simps) (simp add: update_iter_def)
  obtain pw where "parse_loop (script_text sc @ ws) (at_command [] [] [] new_command vars [])
      = Some (at_command (map (\<lambda>(ch, bg). the_conditional ch bg) sc) [] [] new_command vars pw)"
    using parse_script [of sc ws "[]" vars "[]"] by (auto simp: parse_loop_spaces [OF assms])
  then show ?thesis
    by (simp add: parse_line_def parser_start_skip skip start) (simp add: at_command_def new_conditional_def new_pipeline_def)
qed

text \<open>C11: parsing inverts writing: the line written for any script of and-or chains of
  pipelines of commands with redirections, its words quoted so that they may hold any
  characters, is parsed into the structures of that script (and an empty conditional after the
  last separator); the variables are unchanged and no undefined behaviour is met.\<close>

theorem parse_line_roundtrip:
  "parse_line vars (script_text sc @ [CHR 0x0A]) = Some (vars, map (\<lambda>(ch, bg). the_conditional ch bg) sc @ [new_conditional])"
  by (rule parse_line_script) (simp add: isspace_def)

section \<open>Variables\<close>

text \<open>Unquoted words of letters.\<close>

definition letters :: "string \<Rightarrow> bool" where
  "letters w = (w \<noteq> [] \<and> (\<forall>c \<in> set w. isalpha c))"

lemma isalpha_ordinary:
  assumes "isalpha c"
  shows "\<not> isspace c" "\<not> isshellspecial c" "c \<noteq> CHR 0x22" "c \<noteq> CHR 0x27" "c \<noteq> CHR 0x5C" "c \<noteq> NUL" "\<not> isdigit c"
    "c \<noteq> CHR '':''" "c \<noteq> CHR ''#''" "c \<noteq> CHR ''<''" "c \<noteq> CHR ''>''" "c \<noteq> CHR ''&''" "c \<noteq> CHR ''|''"
  using assms by (auto simp: isalpha_def isspace_def isshellspecial_def isdigit_def)

lemma scan_letters:
  assumes "\<forall>c \<in> set w. isalpha c" and "rest = [] \<or> isspace (hd rest) \<or> isshellspecial (hd rest)"
  shows "scan_word NUL (w @ rest) = (length w, False)"
  using assms(1)
proof (induction w)
  case Nil
  show ?case using assms(2) by (cases rest) auto
next
  case (Cons c w)
  then show ?case using isalpha_ordinary [of c] by simp
qed

lemma update_letters:
  assumes "letters w" and "rest = [] \<or> isspace (hd rest) \<or> isshellspecial (hd rest)"
  shows "update_iter (w @ rest) = \<lparr>it_s = w @ rest, it_type = TYPE_NORMAL, it_quoted = False, it_len = length w\<rparr>"
proof -
  obtain c u where w: "w = c # u" "isalpha c" using assms(1) by (cases w) (auto simp: letters_def)
  have "skip_blank (w @ rest) = w @ rest"
    using isalpha_ordinary [OF w(2)] by (simp add: skip_blank_def char_at_def w(1))
  moreover have "scan_word NUL (w @ rest) = (length w, False)"
    using assms by (intro scan_letters) (auto simp: letters_def)
  ultimately show ?thesis
    using isalpha_ordinary [OF w(2)] by (simp add: update_iter_def char_at_def w(1) del: scan_word.simps)
qed

lemma parse_loop_word:
  assumes "letters w" and "rest = [] \<or> isspace (hd rest) \<or> isshellspecial (hd rest)" and "\<not> is_variable st"
  shows "parse_loop (w @ rest) st = parse_loop rest ((on_command (\<lambda>c. item_command c (Word w)) st)\<lparr>prev_word := w\<rparr>)"
proof -
  define it where "it = update_iter (w @ rest)"
  have u: "it = \<lparr>it_s = w @ rest, it_type = TYPE_NORMAL, it_quoted = False, it_len = length w\<rparr>"
    unfolding it_def by (rule update_letters [OF assms(1,2)])
  have ne: "\<not> at_end it" using assms(1) isalpha_ordinary
    by (cases w) (auto simp: u at_end_def char_at_def letters_def)
  have "iter_str it = Some w" by (simp add: u iter_str_def)
  then have "parse_word it st = Some ((on_command (\<lambda>c. item_command c (Word w)) st)\<lparr>prev_word := w\<rparr>, it)"
    using assms(3) by (cases "w = ''cd''") (simp_all add: parse_word_def on_command_prev on_command_comp)
  moreover have "it_type it = TYPE_NORMAL" by (simp add: u)
  ultimately have t: "parse_token it st = Some ((on_command (\<lambda>c. item_command c (Word w)) st)\<lparr>prev_word := w\<rparr>, it)"
    by (simp add: parse_token_def)
  have d: "drop (it_len it) (it_s it) = rest" by (simp add: u)
  show ?thesis by (subst parse_loop.simps) (simp add: it_def [symmetric] Let_def ne t d)
qed

lemma parse_loop_assign:
  assumes "letters w"
  shows "parse_loop (CHR ''='' # w) st
     = Some (on_command (\<lambda>c. c\<lparr>is_variable_def := True\<rparr>) (st\<lparr>ps_var := var_insert (prev_word st) w (ps_var st)\<rparr>))"
proof -
  define it where "it = update_iter (CHR ''='' # w)"
  have u: "it = \<lparr>it_s = CHR ''='' # w, it_type = TYPE_EQUAL, it_quoted = False, it_len = 1\<rparr>"
    by (simp add: it_def update_iter_def skip_blank_def char_at_def isspace_def isdigit_def isshellspecial_def operator_type_def)
  have nx: "iter_next it = \<lparr>it_s = w, it_type = TYPE_NORMAL, it_quoted = False, it_len = length w\<rparr>"
    using update_letters [OF assms, of "[]"] by (simp add: iter_next_def u)
  have "parse_equal it st = Some (on_command (\<lambda>c. c\<lparr>is_variable_def := True\<rparr>) (st\<lparr>ps_var := var_insert (prev_word st) w (ps_var st)\<rparr>), iter_next it)"
    by (simp add: parse_equal_def nx iter_str_def)
  then have t: "parse_token it st = Some (on_command (\<lambda>c. c\<lparr>is_variable_def := True\<rparr>) (st\<lparr>ps_var := var_insert (prev_word st) w (ps_var st)\<rparr>), iter_next it)"
    by (simp add: parse_token_def u)
  show ?thesis
    by (subst parse_loop.simps) (simp add: it_def [symmetric] Let_def t nx parse_loop_Nil, simp add: u at_end_def char_at_def)
qed

text \<open>The first assignment to a shell variable is the last one: \<open>name=value\<close> defines a new
  variable, but for a variable that has a value it changes nothing, and the line still counts
  as a variable definition.\<close>

theorem reassignment_ignored:
  assumes "letters name" and "letters val"
  shows "parse_line vars (name @ ''='' @ val) = Some
     (case vars name of None \<Rightarrow> vars(name \<mapsto> val) | Some _ \<Rightarrow> vars,
      [new_conditional\<lparr>pipelines := [new_pipeline\<lparr>commands :=
         [new_command\<lparr>args := [name], is_cd := (name = ''cd''), is_variable_def := True\<rparr>]\<rparr>]\<rparr>])"
proof -
  define st where "st = at_command [] [] [] new_command vars []"
  have start: "\<lparr>ps_list = [new_conditional], ps_var = vars, is_variable = False, prev_word = []\<rparr> = st"
    by (simp add: st_def at_command_def new_conditional_def new_pipeline_def)
  have skip: "parser_start (name @ CHR ''='' # val) = name @ CHR ''='' # val"
  proof -
    obtain c u where "name = c # u" "isalpha c" using assms(1) by (cases name) (auto simp: letters_def)
    then show ?thesis using isalpha_ordinary [of c] by (simp add: parser_start_def char_at_def)
  qed
  have "parse_loop (name @ CHR ''='' # val) st
     = parse_loop (CHR ''='' # val) ((on_command (\<lambda>c. item_command c (Word name)) st)\<lparr>prev_word := name\<rparr>)"
    by (rule parse_loop_word [OF assms(1)]) (simp_all add: isshellspecial_def st_def at_command_def)
  then show ?thesis
    by (simp add: parse_line_def skip start parse_loop_assign [OF assms(2)])
      (simp add: st_def at_command_steps, simp add: at_command_def var_insert_def new_conditional_def new_pipeline_def new_command_def
        on_command_def on_pipeline_def on_conditional_def split: option.splits)
qed

lemma reassignment_ignored_witness:
  "map_option fst (parse_line (\<lambda>_. Some ''a'') ''x=b'') = Some (\<lambda>_. Some ''a'')"
  using reassignment_ignored [of "''x''" "''b''" "\<lambda>_. Some ''a''"] by (simp add: letters_def isalpha_def)

text \<open>The token after a closing brace is joined to the word, whatever it is: in
  \<open>echo ${x} | cat\<close> the pipe becomes part of an argument and \<open>cat\<close> another argument.\<close>

theorem brace_swallows_operator:
  "parse_line vars ''echo ${x} | cat'' = Some (vars,
     [new_conditional\<lparr>pipelines := [new_pipeline\<lparr>commands :=
        [new_command\<lparr>args := [''echo'', (case vars ''x'' of Some v \<Rightarrow> v | None \<Rightarrow> []) @ ''|'', ''cat'']\<rparr>]\<rparr>]\<rparr>])"
  by (simp add: parse_line_def parser_start_def parse_loop.simps parse_token_def parse_rbrace_def parse_word_def parse_equal_def
    update_iter_def skip_blank_def char_at_def isspace_def isdigit_def isshellspecial_def operator_type_def isalpha_def
    at_end_def iter_str_def iter_next_def expand_def on_command_def on_pipeline_def on_conditional_def curr_command_def
    new_conditional_def new_pipeline_def new_command_def Let_def split: option.split)

end
