(* ===== verification/ShRun.thy ===== *)
theory ShRun
  imports ShParse
begin

text \<open>
  Running a command line (src/pset5/sh61.cc: \<open>command::run\<close>, \<open>run_list\<close>, \<open>main\<close>;
  src/pset5/helpers.cc: \<open>claim_foreground\<close>). The system calls are a parameter, a record of
  functions on a world; \<open>fork\<close> is given what the child goes on to do, as data: the sequence of
  calls of a command's process up to \<open>execvp\<close>, or the conditional a subshell runs. A result
  None is a failed assertion or undefined behaviour.
\<close>

section \<open>The operating system\<close>

text \<open>What the child of \<open>command::run\<close> does: \<open>A_open\<close> opens, duplicates and closes a
  redirection, or prints the error and exits with status 1; \<open>A_exec\<close> likewise if it fails.\<close>

datatype child_act = A_setpgid int | A_close int | A_dup2 int int | A_assert bool
  | A_open string "32 word" nat | A_exec "string list"

datatype child = Cmd "child_act list" | Subshell conditional int

datatype fgets_result = Got string | Got_eof | Got_eintr | Got_error

record 'w shell_os =
  os_pipe :: "'w \<Rightarrow> (int \<times> int \<times> int) \<times> 'w"
  os_fork :: "child \<Rightarrow> 'w \<Rightarrow> int \<times> 'w"
  os_setpgid :: "int \<Rightarrow> int \<Rightarrow> 'w \<Rightarrow> 'w"
  os_close :: "int \<Rightarrow> 'w \<Rightarrow> 'w"
  os_chdir :: "string \<Rightarrow> 'w \<Rightarrow> 'w"
  os_errno :: "'w \<Rightarrow> int"
  os_waitpid :: "int \<Rightarrow> 32 word \<Rightarrow> 'w \<Rightarrow> (int \<times> 32 word) \<times> 'w"
  os_reap :: "'w \<Rightarrow> int \<times> 'w"
  os_sigint :: "'w \<Rightarrow> bool \<times> 'w"
  os_open_tty :: "'w \<Rightarrow> int \<times> 'w"
  os_dupfd :: "int \<Rightarrow> int \<Rightarrow> 'w \<Rightarrow> int \<times> 'w"
  os_cloexec :: "int \<Rightarrow> 'w \<Rightarrow> 'w"
  os_getpgrp :: "'w \<Rightarrow> int"
  os_tcgetpgrp :: "int \<Rightarrow> 'w \<Rightarrow> int"
  os_tcsetpgrp :: "int \<Rightarrow> int \<Rightarrow> 'w \<Rightarrow> int \<times> 'w"
  os_feof :: "'w \<Rightarrow> bool"
  os_fgets :: "nat \<Rightarrow> 'w \<Rightarrow> fgets_result \<times> 'w"
  os_clearerr :: "'w \<Rightarrow> 'w"
  os_prompt :: "'w \<Rightarrow> 'w"

text \<open>The shell's own static state: the flag the signal handler sets, and the terminal.\<close>

record 'w shell =
  world :: 'w
  interrupted :: bool
  ttyfd :: int
  shell_owns_foreground :: bool
  shell_pgid :: int

definition on_world :: "('w \<Rightarrow> 'w) \<Rightarrow> 'w shell \<Rightarrow> 'w shell" where
  "on_world f sh = sh\<lparr>world := f (world sh)\<rparr>"

definition get_world :: "('w \<Rightarrow> 'a \<times> 'w) \<Rightarrow> 'w shell \<Rightarrow> 'a \<times> 'w shell" where
  "get_world f sh = (case f (world sh) of (a, w) \<Rightarrow> (a, sh\<lparr>world := w\<rparr>))"

section \<open>The foreground process group\<close>

definition init_tty :: "'w shell_os \<Rightarrow> 'w shell \<Rightarrow> 'w shell option" where
  "init_tty OS sh =
    (case get_world (os_open_tty OS) sh of (fd, sh1) \<Rightarrow> do {
       assert_ok (0 \<le> fd);
       (case get_world (os_dupfd OS fd 10) sh1 of (tfd, sh2) \<Rightarrow> do {
          assert_ok (0 \<le> tfd);
          let sh3 = on_world (os_cloexec OS tfd) (on_world (os_close OS fd) sh2);
          let g = os_getpgrp OS (world sh3);
          Some (sh3\<lparr>ttyfd := tfd, shell_pgid := g, shell_owns_foreground := (g = os_tcgetpgrp OS tfd (world sh3))\<rparr>)
        })
     })"

definition claim_foreground :: "'w shell_os \<Rightarrow> int \<Rightarrow> 'w shell \<Rightarrow> (int \<times> 'w shell) option" where
  "claim_foreground OS pgid sh = do {
     sh1 \<leftarrow> (if ttyfd sh < 0 then init_tty OS sh else Some sh);
     Some (if shell_owns_foreground sh1 \<and> pgid \<noteq> 0 then get_world (os_tcsetpgrp OS (ttyfd sh1) pgid) sh1
       else if shell_owns_foreground sh1 then get_world (os_tcsetpgrp OS (ttyfd sh1) (shell_pgid sh1)) sh1
       else (0, sh1))
   }"

section \<open>One command\<close>

definition redirect_acts :: "command \<Rightarrow> child_act list" where
  "redirect_acts c = concat (map (\<lambda>i. if redirection c ! i = [] then [] else [A_open (redirection c ! i) (perms c ! i) i]) [0, 1, 2])"

text \<open>The calls of the child, given the ends of the pipe to the next command, if there is one,
  and whether there is a previous one.\<close>

definition child_acts :: "command \<Rightarrow> (int \<times> int) option \<Rightarrow> bool \<Rightarrow> child_act list" where
  "child_acts c nxt prv =
     [A_setpgid (cpgid c)]
     @ (case nxt of None \<Rightarrow> [] | Some (r, w) \<Rightarrow> [A_close r, A_dup2 w 1, A_close w])
     @ (if prv then [A_assert (read_fd c \<noteq> -1), A_dup2 (read_fd c) 0, A_close (read_fd c)] else [])
     @ redirect_acts c @ [A_exec (args c)]"

definition make_pipe :: "'w shell_os \<Rightarrow> bool \<Rightarrow> 'w shell \<Rightarrow> ((int \<times> int) option \<times> 'w shell) option" where
  "make_pipe OS needed sh =
    (if needed then
       (case get_world (os_pipe OS) sh of ((r, rfd, wfd), sh1) \<Rightarrow> do {
          assert_ok (r = 0);
          Some (Some (rfd, wfd), sh1)
        })
     else Some (None, sh))"

definition fork_command :: "'w shell_os \<Rightarrow> bool \<Rightarrow> command \<Rightarrow> command list \<Rightarrow> (int \<times> int) option \<Rightarrow> 'w shell
    \<Rightarrow> command \<times> command list \<times> 'w shell" where
  "fork_command OS prv c rest fds sh =
    (case get_world (os_fork OS (Cmd (child_acts c fds prv))) sh of (p, sh1) \<Rightarrow>
       let sh2 = on_world (os_setpgid OS p (cpgid c)) sh1;
           c' = c\<lparr>cpgid := (if cpgid c = 0 then p else cpgid c), cpid := p\<rparr>
       in (case (fds, rest) of
             (Some (r, w), n # rest') \<Rightarrow> (c', n\<lparr>read_fd := r\<rparr> # rest', on_world (os_close OS w) sh2)
           | _ \<Rightarrow> (c', rest, sh2)))"

text \<open>\<open>command::run\<close> on a command with the commands after it in its pipeline; \<open>prv\<close>: it has one
  before it. The text of \<open>cd\<close> reads its first argument, which must exist.\<close>

definition command_run :: "'w shell_os \<Rightarrow> bool \<Rightarrow> command \<Rightarrow> command list \<Rightarrow> 'w shell
    \<Rightarrow> (command \<times> command list \<times> 'w shell) option" where
  "command_run OS prv c rest sh = do {
     assert_ok (cpid c = -1);
     assert_ok (args c \<noteq> []);
     if is_variable_def c then Some (c, rest, sh)
     else do {
       (fds, sh1) \<leftarrow> make_pipe OS (rest \<noteq> []) sh;
       if is_cd c then do {
         assert_ok (1 < length (args c));
         Some (c, rest, on_world (os_chdir OS (args c ! 1)) sh1)
       } else Some (fork_command OS prv c rest fds sh1)
     }
   }"

section \<open>The list\<close>

text \<open>The locals of \<open>run_list\<close>: the rest of the list, of the conditional's pipelines and of the
  pipeline's commands, each from the current one on, and the commands of the pipeline already
  passed. \<open>parent\<close> is \<open>p\<close>: nonzero but in a subshell.\<close>

record rstate =
  conds :: "conditional list"
  pipes :: "pipeline list"
  passed :: "command list"
  cmds :: "command list"
  run :: bool
  status :: "32 word"
  pgid :: int
  parent :: bool

datatype outcome = Continue rstate | Return | Exit_subshell

definition WIFEXITED :: "32 word \<Rightarrow> bool" where
  "WIFEXITED s = (s AND 0x7F = 0)"

definition WEXITSTATUS :: "32 word \<Rightarrow> 32 word" where
  "WEXITSTATUS s = drop_bit 8 (s AND 0xFF00)"

definition succeeded :: "32 word \<Rightarrow> bool" where
  "succeeded s = (WIFEXITED s \<and> WEXITSTATUS s = 0)"

text \<open>A check of the interrupt flag (the handler may have run since the last one): True, with the
  flag cleared, if the list is to be abandoned.\<close>

definition check_interrupt :: "'w shell_os \<Rightarrow> bool \<Rightarrow> 'w shell \<Rightarrow> bool \<times> 'w shell" where
  "check_interrupt OS bg sh =
    (case get_world (os_sigint OS) sh of (b, sh1) \<Rightarrow>
       if (interrupted sh1 \<or> b) \<and> \<not> bg then (True, sh1\<lparr>interrupted := False\<rparr>)
       else (False, sh1\<lparr>interrupted := interrupted sh1 \<or> b\<rparr>))"

text \<open>The parent forks a subshell for each background conditional at the front of the list.\<close>

fun spawn :: "'w shell_os \<Rightarrow> int \<Rightarrow> conditional list \<Rightarrow> 'w shell \<Rightarrow> conditional list \<times> 'w shell" where
  "spawn OS g [] sh = ([], sh)"
| "spawn OS g (c # cs) sh =
    (if is_background c then spawn OS g cs (snd (get_world (os_fork OS (Subshell c g)) sh)) else (c # cs, sh))"

text \<open>The first pipeline and command of a conditional.\<close>

definition enter :: "conditional list \<Rightarrow> rstate \<Rightarrow> rstate option" where
  "enter cs s =
    (case cs of [] \<Rightarrow> None
     | c # _ \<Rightarrow> (case pipelines c of [] \<Rightarrow> None
        | p # ps \<Rightarrow> Some (s\<lparr>conds := cs, pipes := p # ps, passed := [], cmds := commands p\<rparr>)))"

definition close_read_ends :: "'w shell_os \<Rightarrow> command list \<Rightarrow> 'w shell \<Rightarrow> 'w shell" where
  "close_read_ends OS cs sh = foldl (\<lambda>sh c. if read_fd c \<noteq> -1 then on_world (os_close OS (read_fd c)) sh else sh) sh cs"

text \<open>Waiting for the pipeline's last process: whether the loop goes on, and the status.\<close>

definition await :: "'w shell_os \<Rightarrow> bool \<Rightarrow> int \<Rightarrow> int \<Rightarrow> 32 word \<Rightarrow> 'w shell \<Rightarrow> (bool \<times> 32 word \<times> 'w shell) option" where
  "await OS bg g p st sh =
    (if p = -1 then Some (True, st, sh)
     else do {
       sh1 \<leftarrow> (if bg then Some sh else map_option snd (claim_foreground OS g sh));
       (case get_world (os_waitpid OS p st) sh1 of ((e, st'), sh2) \<Rightarrow> do {
          sh3 \<leftarrow> (if bg then Some sh2 else map_option snd (claim_foreground OS 0 sh2));
          Some (e = 0 \<or> e = p, st', sh3)
        })
     })"

text \<open>The end of a pipeline: the choice of the next one.\<close>

definition next_pipeline :: "rstate \<Rightarrow> outcome option" where
  "next_pipeline s =
    (case pipes s of [] \<Rightarrow> None
     | p # ps \<Rightarrow>
        let s1 = s\<lparr>run := (if succeeded (status s) then \<not> next_is_or p else next_is_or p)\<rparr> in
        (case ps of
           q # _ \<Rightarrow> Some (Continue (s1\<lparr>pipes := ps, passed := [], cmds := commands q\<rparr>))
         | [] \<Rightarrow>
            (if \<not> parent s then Some Exit_subshell
             else (case tl (conds s) of [] \<Rightarrow> Some Return
                | cs \<Rightarrow> map_option Continue (enter cs (s1\<lparr>run := True, status := 0\<rparr>))))))"

definition end_pipeline :: "'w shell_os \<Rightarrow> int \<Rightarrow> rstate \<Rightarrow> 'w shell \<Rightarrow> (outcome \<times> 'w shell) option" where
  "end_pipeline OS p s sh = do {
     let bg = is_background (hd (conds s));
     (ok, st, sh1) \<leftarrow> await OS bg (pgid s) p (status s) (close_read_ends OS (passed s @ cmds s) sh);
     if \<not> ok then Some (Return, sh1)
     else do {
       out \<leftarrow> next_pipeline (s\<lparr>status := st\<rparr>);
       Some (out, sh1)
     }
   }"

text \<open>Running the current command: None in the first component if an interrupt ends the list.\<close>

definition run_current :: "'w shell_os \<Rightarrow> rstate \<Rightarrow> 'w shell \<Rightarrow> (rstate option \<times> 'w shell) option" where
  "run_current OS s sh =
    (case cmds s of [] \<Rightarrow> None
     | c # rest \<Rightarrow>
        if run s \<and> args c \<noteq> [] then
          let bg = is_background (hd (conds s)) in
          (case check_interrupt OS bg sh of (stop, sh1) \<Rightarrow>
             if stop then Some (None, sh1)
             else do {
               (c', rest', sh2) \<leftarrow> command_run OS (passed s \<noteq> []) (c\<lparr>cpgid := pgid s\<rparr>) rest sh1;
               (case check_interrupt OS bg sh2 of (stop', sh3) \<Rightarrow>
                  if stop' then Some (None, sh3)
                  else Some (Some (s\<lparr>cmds := c' # rest', pgid := cpgid c',
                         status := (if is_cd c' then (if os_errno OS (world sh3) \<noteq> 0 then 1 else 0) else status s)\<rparr>), sh3))
             })
        else Some (Some s, sh))"

definition finish_command :: "'w shell_os \<Rightarrow> rstate \<Rightarrow> 'w shell \<Rightarrow> (outcome \<times> 'w shell) option" where
  "finish_command OS s sh =
    (case cmds s of [] \<Rightarrow> None
     | c # rest \<Rightarrow>
        if rest = [] \<or> args (hd rest) = [] then end_pipeline OS (cpid c) s sh
        else Some (Continue (s\<lparr>passed := passed s @ [c], cmds := rest\<rparr>), sh))"

text \<open>One round of the loop.\<close>

definition run_step :: "'w shell_os \<Rightarrow> rstate \<Rightarrow> 'w shell \<Rightarrow> (outcome \<times> 'w shell) option" where
  "run_step OS s sh = do {
     assert_ok (conds s \<noteq> [] \<and> pipes s \<noteq> [] \<and> cmds s \<noteq> []);
     (case check_interrupt OS (is_background (hd (conds s))) sh of (stop, sh1) \<Rightarrow>
        if stop then Some (Return, sh1)
        else (case (if parent s then spawn OS (pgid s) (conds s) sh1 else (conds s, sh1)) of (cs, sh2) \<Rightarrow>
          if cs = [] then Some (Return, sh2)
          else do {
            s1 \<leftarrow> (if parent s \<and> is_background (hd (conds s)) then enter cs s else Some s);
            (so, sh3) \<leftarrow> run_current OS s1 sh2;
            (case so of None \<Rightarrow> Some (Return, sh3) | Some s2 \<Rightarrow> finish_command OS s2 sh3)
          }))
   }"

section \<open>The loop ends\<close>

text \<open>What is left: the commands not yet passed.\<close>

definition psize :: "pipeline list \<Rightarrow> nat" where
  "psize ps = sum_list (map (\<lambda>p. length (commands p)) ps)"

definition csize :: "conditional list \<Rightarrow> nat" where
  "csize cs = sum_list (map (\<lambda>c. psize (pipelines c)) cs)"

definition rsize :: "rstate \<Rightarrow> nat" where
  "rsize s = length (cmds s) + psize (tl (pipes s)) + csize (tl (conds s))"

lemma sizes [simp]:
  "psize [] = 0" "psize (p # ps) = length (commands p) + psize ps"
  "csize [] = 0" "csize (c # cs) = psize (pipelines c) + csize cs"
  by (simp_all add: psize_def csize_def)

lemma enter_size: "enter cs s = Some s' \<Longrightarrow> rsize s' = csize cs"
  by (auto simp: enter_def rsize_def split: list.splits)

lemma spawn_size: "csize (fst (spawn OS g cs sh)) \<le> csize cs"
  by (induction OS g cs sh rule: spawn.induct) auto

lemma spawn_first: "cs \<noteq> [] \<Longrightarrow> is_background (hd cs) \<Longrightarrow> csize (fst (spawn OS g cs sh)) \<le> csize (tl cs)"
  by (cases cs) (simp_all add: spawn_size)

lemma next_pipeline_size:
  assumes "next_pipeline s = Some (Continue s')" and "cmds s \<noteq> []"
  shows "rsize s' < rsize s"
  using assms enter_size
  by (fastforce simp: next_pipeline_def Let_def rsize_def split: list.splits if_splits)

lemma finish_command_size:
  assumes "finish_command OS s sh = Some (Continue s', sh')"
  shows "rsize s' < rsize s"
proof (cases "cmds s")
  case Nil
  then show ?thesis using assms by (simp add: finish_command_def)
next
  case (Cons c rest)
  show ?thesis
  proof (cases "rest = [] \<or> args (hd rest) = []")
    case True
    then obtain st where n: "next_pipeline (s\<lparr>status := st\<rparr>) = Some (Continue s')"
      using assms Cons by (auto simp: finish_command_def end_pipeline_def Let_def bind_eq_Some_conv split: prod.splits if_splits)
    show ?thesis using next_pipeline_size [OF n] Cons by (simp add: rsize_def)
  next
    case False
    then show ?thesis using assms Cons by (auto simp: finish_command_def rsize_def)
  qed
qed

lemma command_run_length: "command_run OS prv c rest sh = Some (c', rest', sh') \<Longrightarrow> length rest' = length rest"
  by (auto simp: command_run_def fork_command_def bind_eq_Some_conv Let_def split: if_splits prod.splits option.splits list.splits)

lemma run_current_size:
  assumes "run_current OS s sh = Some (Some s', sh')"
  shows "rsize s' = rsize s"
proof (cases "cmds s")
  case Nil
  then show ?thesis using assms by (simp add: run_current_def)
next
  case (Cons c rest)
  show ?thesis
  proof (cases "run s \<and> args c \<noteq> []")
    case True
    define bg where "bg = is_background (hd (conds s))"
    obtain stop sh1 where k1: "check_interrupt OS bg sh = (stop, sh1)" by fastforce
    have ns: "\<not> stop" using assms Cons True k1 by (auto simp: run_current_def Let_def bg_def)
    obtain c' rest' sh2 where r: "command_run OS (passed s \<noteq> []) (c\<lparr>cpgid := pgid s\<rparr>) rest sh1 = Some (c', rest', sh2)"
      using assms Cons True k1 ns
      by (cases "command_run OS (passed s \<noteq> []) (c\<lparr>cpgid := pgid s\<rparr>) rest sh1") (auto simp: run_current_def Let_def bg_def)
    obtain stop' sh3 where k2: "check_interrupt OS bg sh2 = (stop', sh3)" by fastforce
    have "\<exists>st. s' = s\<lparr>cmds := c' # rest', pgid := cpgid c', status := st\<rparr>"
      using assms Cons True k1 ns r k2 by (cases stop') (auto simp: run_current_def Let_def bg_def)
    then show ?thesis using command_run_length [OF r] Cons by (auto simp: rsize_def)
  qed (use assms Cons in \<open>auto simp: run_current_def\<close>)
qed

lemma run_step_size:
  assumes "run_step OS s sh = Some (Continue s', sh')"
  shows "rsize s' < rsize s"
proof -
  from assms obtain s1 s2 sh2 sh3 sh1 cs where
    ne: "conds s \<noteq> []" "cmds s \<noteq> []"
    and cs: "(if parent s then spawn OS (pgid s) (conds s) sh1 else (conds s, sh1)) = (cs, sh2)"
    and s1: "(if parent s \<and> is_background (hd (conds s)) then enter cs s else Some s) = Some s1"
    and s2: "run_current OS s1 sh2 = Some (Some s2, sh3)" and f: "finish_command OS s2 sh3 = Some (Continue s', sh')"
    by (auto simp: run_step_def bind_eq_Some_conv assert_ok_def split: if_splits prod.splits option.splits)
  have "rsize s1 \<le> rsize s"
  proof (cases "parent s \<and> is_background (hd (conds s))")
    case True
    then have "rsize s1 = csize cs" "csize cs \<le> csize (tl (conds s))"
      using s1 enter_size cs spawn_first [OF ne(1), of OS "pgid s" sh1] by auto
    then show ?thesis by (simp add: rsize_def)
  qed (use s1 in auto)
  then show ?thesis using finish_command_size [OF f] run_current_size [OF s2] by simp
qed

text \<open>The loop: its result tells whether a subshell reached its end, where it exits.\<close>

function run_loop :: "'w shell_os \<Rightarrow> rstate \<Rightarrow> 'w shell \<Rightarrow> (bool \<times> 'w shell) option" where
  "run_loop OS s sh =
    (case run_step OS s sh of
       None \<Rightarrow> None
     | Some (Return, sh') \<Rightarrow> Some (False, sh')
     | Some (Exit_subshell, sh') \<Rightarrow> Some (True, sh')
     | Some (Continue s', sh') \<Rightarrow> run_loop OS s' sh')"
  by pat_completeness auto

termination
  by (relation "measure (\<lambda>(_, s, _). rsize s)") (auto dest: run_step_size)

declare run_loop.simps [simp del]

definition run_from :: "'w shell_os \<Rightarrow> bool \<Rightarrow> int \<Rightarrow> conditional list \<Rightarrow> 'w shell \<Rightarrow> (bool \<times> 'w shell) option" where
  "run_from OS par g cs sh = do {
     s \<leftarrow> enter cs \<lparr>conds = [], pipes = [], passed = [], cmds = [], run = True, status = 0, pgid = g, parent = par\<rparr>;
     run_loop OS s sh
   }"

definition run_list :: "'w shell_os \<Rightarrow> conditional list \<Rightarrow> 'w shell \<Rightarrow> (bool \<times> 'w shell) option" where
  "run_list OS cs sh = run_from OS True 0 cs sh"

text \<open>The subshell of a background conditional: \<open>run_list\<close> from the fork on.\<close>

definition run_subshell :: "'w shell_os \<Rightarrow> int \<Rightarrow> conditional \<Rightarrow> 'w shell \<Rightarrow> (bool \<times> 'w shell) option" where
  "run_subshell OS g c sh = run_from OS False g [c] sh"

section \<open>The main loop\<close>

abbreviation BUFSIZ :: nat where "BUFSIZ \<equiv> 8192"

definition cstr :: "string \<Rightarrow> string" where
  "cstr s = takeWhile (\<lambda>c. c \<noteq> NUL) s"

definition line_complete :: "string \<Rightarrow> bool" where
  "line_complete buf = (length buf = BUFSIZ - 1 \<or> buf \<noteq> [] \<and> last buf = CHR 0x0A)"

definition run_line :: "'w shell_os \<Rightarrow> variables \<Rightarrow> string \<Rightarrow> 'w shell \<Rightarrow> (variables \<times> 'w shell) option" where
  "run_line OS vars buf sh = do {
     (vars', ls) \<leftarrow> parse_line vars buf;
     (_, sh') \<leftarrow> run_list OS ls sh;
     Some (vars', sh'\<lparr>interrupted := False\<rparr>)
   }"

partial_function (option) reap_zombies :: "'w shell_os \<Rightarrow> 'w shell \<Rightarrow> 'w shell option" where
  "reap_zombies OS sh =
    (case get_world (os_reap OS) sh of (p, sh') \<Rightarrow> if 0 < p then reap_zombies OS sh' else Some sh')"

definition read_more :: "'w shell_os \<Rightarrow> string \<Rightarrow> 'w shell \<Rightarrow> string option \<times> 'w shell" where
  "read_more OS buf sh =
    (case get_world (os_fgets OS (BUFSIZ - length buf)) sh of (r, sh1) \<Rightarrow>
       (case r of
          Got s \<Rightarrow> (Some (cstr (buf @ s)), sh1)
        | Got_eintr \<Rightarrow> (Some buf, on_world (os_clearerr OS) sh1)
        | Got_eof \<Rightarrow> (None, sh1)
        | Got_error \<Rightarrow> (None, sh1)))"

partial_function (option) main_loop ::
  "'w shell_os \<Rightarrow> bool \<Rightarrow> string \<Rightarrow> bool \<Rightarrow> variables \<Rightarrow> 'w shell \<Rightarrow> (variables \<times> 'w shell) option" where
  "main_loop OS quiet buf needprompt vars sh =
    (if os_feof OS (world sh) then Some (vars, sh)
     else (let sh0 = (if needprompt \<and> \<not> quiet then on_world (os_prompt OS) sh else sh) in
       (case read_more OS buf sh0 of
          (None, sh1) \<Rightarrow> Some (vars, sh1)
        | (Some buf', sh1) \<Rightarrow>
            (if line_complete buf' then do {
               (vars', sh2) \<leftarrow> run_line OS vars buf' sh1;
               sh3 \<leftarrow> reap_zombies OS sh2;
               main_loop OS quiet [] True vars' sh3
             } else do {
               sh3 \<leftarrow> reap_zombies OS sh1;
               main_loop OS quiet buf' (needprompt \<and> quiet) vars sh3
             }))))"

end
