(* ===== verification/ShSem.thy ===== *)
theory ShSem
  imports ShRun
begin

text \<open>
  What running a line means. The reference semantics is on the syntax of a line: a chain
  \<open>p1 op p2 op ...\<close> is evaluated from the left, a pipeline after \<open>&&\<close> (\<open>||\<close>) runs exactly if what
  came before succeeded (failed), and the status of a pipeline is that of its last command.
  Theorem \<open>run_line_andor\<close> composes the parser and the runner and shows that together they
  implement it, on an operating system that satisfies the laws of \<open>quiet_os\<close>. The other
  theorems show where the runner leaves that semantics: failed forks, \<open>cd\<close>, unfinished lines.
\<close>

section \<open>The reference semantics\<close>

fun item_word :: "item \<Rightarrow> string list" where
  "item_word (Word w) = [w]"
| "item_word (Redir r f) = []"

definition argv :: "item list \<Rightarrow> string list" where
  "argv is = concat (map item_word is)"

definition pipe_argvs :: "pipe_syntax \<Rightarrow> string list list" where
  "pipe_argvs p = map argv (fst p # snd p)"

definition pipe_ok :: "(string list \<Rightarrow> 32 word) \<Rightarrow> pipe_syntax \<Rightarrow> bool" where
  "pipe_ok st p = succeeded (st (last (pipe_argvs p)))"

definition then_pipe :: "(string list \<Rightarrow> 32 word) \<Rightarrow> string list list \<times> bool \<Rightarrow> bool \<times> pipe_syntax \<Rightarrow> string list list \<times> bool" where
  "then_pipe st r q = (if snd r \<noteq> fst q then (fst r @ pipe_argvs (snd q), pipe_ok st (snd q)) else r)"

definition chain_runs :: "(string list \<Rightarrow> 32 word) \<Rightarrow> chain_syntax \<Rightarrow> string list list" where
  "chain_runs st ch = fst (foldl (then_pipe st) (pipe_argvs (fst ch), pipe_ok st (fst ch)) (snd ch))"

section \<open>The laws of the operating system\<close>

definition exec_argv :: "child_act list \<Rightarrow> string list" where
  "exec_argv acts = (case last acts of A_exec a \<Rightarrow> a | _ \<Rightarrow> [])"

text \<open>Inside \<open>I\<close>, no signal arrives, \<open>pipe\<close> and \<open>fork\<close> succeed, a forked command ends with the
  status \<open>st\<close> gives its arguments, and \<open>waitpid\<close> reports it; \<open>hist\<close> is the record of the commands
  started, \<open>pend\<close> the status a process ends with; the other calls change neither.\<close>

definition same :: "('w \<Rightarrow> bool) \<Rightarrow> ('w \<Rightarrow> string list list) \<Rightarrow> ('w \<Rightarrow> int \<Rightarrow> 32 word) \<Rightarrow> 'w \<Rightarrow> 'w \<Rightarrow> bool" where
  "same I hist pend w w' = (I w' \<and> hist w' = hist w \<and> pend w' = pend w)"

definition quiet_os :: "'w shell_os \<Rightarrow> ('w \<Rightarrow> bool) \<Rightarrow> ('w \<Rightarrow> string list list) \<Rightarrow> ('w \<Rightarrow> int \<Rightarrow> 32 word) \<Rightarrow> (string list \<Rightarrow> 32 word) \<Rightarrow> bool" where
  "quiet_os OS I hist pend st \<longleftrightarrow>
    (\<forall>w. I w \<longrightarrow>
       (\<exists>w'. os_sigint OS w = (False, w') \<and> same I hist pend w w')
     \<and> (\<exists>r f w'. os_pipe OS w = ((0, r, f), w') \<and> same I hist pend w w')
     \<and> (\<forall>acts. \<exists>p w'. os_fork OS (Cmd acts) w = (p, w') \<and> 0 < p \<and> I w' \<and> hist w' = hist w @ [exec_argv acts]
           \<and> pend w' p = st (exec_argv acts))
     \<and> (\<forall>p s. 0 < p \<longrightarrow> (\<exists>w'. os_waitpid OS p s w = ((p, pend w p), w') \<and> same I hist pend w w'))
     \<and> (\<forall>p g. same I hist pend w (os_setpgid OS p g w))
     \<and> (\<forall>fd. same I hist pend w (os_close OS fd w))
     \<and> (\<forall>fd g. \<exists>r w'. os_tcsetpgrp OS fd g w = (r, w') \<and> same I hist pend w w'))"

lemma quiet_laws:
  assumes "quiet_os OS I hist pend st" and "I w"
  shows "\<exists>w'. os_sigint OS w = (False, w') \<and> same I hist pend w w'"
    and "\<exists>r f w'. os_pipe OS w = ((0, r, f), w') \<and> same I hist pend w w'"
    and "\<exists>p w'. os_fork OS (Cmd acts) w = (p, w') \<and> 0 < p \<and> I w' \<and> hist w' = hist w @ [exec_argv acts] \<and> pend w' p = st (exec_argv acts)"
    and "0 < q \<Longrightarrow> \<exists>w'. os_waitpid OS q s w = ((q, pend w q), w') \<and> same I hist pend w w'"
    and "same I hist pend w (os_setpgid OS p g w)"
    and "same I hist pend w (os_close OS fd w)"
    and "\<exists>r w'. os_tcsetpgrp OS fd g w = (r, w') \<and> same I hist pend w w'"
  using assms unfolding quiet_os_def by blast+

section \<open>Calls that change nothing\<close>

definition good :: "('w \<Rightarrow> bool) \<Rightarrow> 'w shell \<Rightarrow> bool" where
  "good I sh = (I (world sh) \<and> \<not> interrupted sh \<and> 0 \<le> ttyfd sh)"

definition quiet :: "('w \<Rightarrow> bool) \<Rightarrow> ('w \<Rightarrow> string list list) \<Rightarrow> ('w \<Rightarrow> int \<Rightarrow> 32 word) \<Rightarrow> 'w shell \<Rightarrow> 'w shell \<Rightarrow> bool" where
  "quiet I hist pend sh sh' = (good I sh' \<and> hist (world sh') = hist (world sh) \<and> pend (world sh') = pend (world sh))"

lemma quiet_trans: "quiet I hist pend a b \<Longrightarrow> quiet I hist pend b c \<Longrightarrow> quiet I hist pend a c"
  by (simp add: quiet_def)

lemma quiet_good: "quiet I hist pend a b \<Longrightarrow> good I b"
  by (simp add: quiet_def)

lemma quiet_refl: "good I a \<Longrightarrow> quiet I hist pend a a"
  by (simp add: quiet_def)

lemma quiet_same: "good I sh \<Longrightarrow> same I hist pend (world sh) w' \<Longrightarrow> quiet I hist pend sh (sh\<lparr>world := w'\<rparr>)"
  by (simp add: quiet_def good_def same_def)

lemma quiet_close:
  assumes "quiet_os OS I hist pend st" and "good I sh"
  shows "quiet I hist pend sh (on_world (os_close OS fd) sh)"
  using quiet_laws(6) [OF assms(1), of "world sh" fd] assms(2)
  unfolding on_world_def by (intro quiet_same) (simp_all add: good_def)

lemma quiet_setpgid:
  assumes "quiet_os OS I hist pend st" and "good I sh"
  shows "quiet I hist pend sh (on_world (os_setpgid OS p g) sh)"
  using quiet_laws(5) [OF assms(1), of "world sh" p g] assms(2)
  unfolding on_world_def by (intro quiet_same) (simp_all add: good_def)

lemma quiet_check:
  assumes "quiet_os OS I hist pend st" and "good I sh"
  obtains sh' where "check_interrupt OS bg sh = (False, sh')" and "quiet I hist pend sh sh'"
proof -
  have I: "I (world sh)" and i: "\<not> interrupted sh" using assms(2) by (simp_all add: good_def)
  obtain w' where w: "os_sigint OS (world sh) = (False, w')" "same I hist pend (world sh) w'"
    using quiet_laws(1) [OF assms(1) I] by blast
  show thesis
    by (rule that [of "sh\<lparr>world := w'\<rparr>"])
      (use i in \<open>simp_all add: check_interrupt_def get_world_def w(1) quiet_same [OF assms(2) w(2)]\<close>)
qed

lemma quiet_close_read_ends:
  assumes "quiet_os OS I hist pend st" and "good I sh"
  shows "quiet I hist pend sh (close_read_ends OS cs sh)"
  using assms(2)
proof (induction cs arbitrary: sh)
  case Nil
  then show ?case by (simp add: close_read_ends_def quiet_refl)
next
  case (Cons c cs)
  define sh1 where "sh1 = (if read_fd c \<noteq> -1 then on_world (os_close OS (read_fd c)) sh else sh)"
  have q: "quiet I hist pend sh sh1"
    using quiet_close [OF assms(1) Cons.prems] quiet_refl [OF Cons.prems] by (simp add: sh1_def)
  have "close_read_ends OS (c # cs) sh = close_read_ends OS cs sh1" by (simp add: close_read_ends_def sh1_def)
  then show ?case using quiet_trans [OF q Cons.IH [OF quiet_good [OF q]]] by simp
qed

lemma quiet_claim:
  assumes "quiet_os OS I hist pend st" and "good I sh"
  obtains r sh' where "claim_foreground OS g sh = Some (r, sh')" and "quiet I hist pend sh sh'"
proof -
  have I: "I (world sh)" and t: "\<not> ttyfd sh < 0" using assms(2) by (simp_all add: good_def)
  define g' where "g' = (if g \<noteq> 0 then g else shell_pgid sh)"
  obtain r w' where w: "os_tcsetpgrp OS (ttyfd sh) g' (world sh) = (r, w')" "same I hist pend (world sh) w'"
    using quiet_laws(7) [OF assms(1) I] by blast
  show thesis
  proof (cases "shell_owns_foreground sh")
    case True
    then have "claim_foreground OS g sh = Some (r, sh\<lparr>world := w'\<rparr>)"
      using w(1) t by (simp add: claim_foreground_def get_world_def g'_def split: if_splits)
    then show thesis using that quiet_same [OF assms(2) w(2)] by blast
  next
    case False
    then have "claim_foreground OS g sh = Some (0, sh)" using t by (simp add: claim_foreground_def)
    then show thesis using that quiet_refl [OF assms(2)] by blast
  qed
qed

section \<open>One command\<close>

definition plain :: "command \<Rightarrow> bool" where
  "plain c = (args c \<noteq> [] \<and> \<not> is_cd c \<and> \<not> is_variable_def c \<and> cpid c = -1)"

lemma plain_updates [simp]: "plain (c\<lparr>read_fd := r\<rparr>) = plain c" "plain (c\<lparr>cpgid := g\<rparr>) = plain c"
  by (simp_all add: plain_def)

lemma exec_child_acts [simp]: "exec_argv (child_acts c fds prv) = args c"
  by (simp add: exec_argv_def child_acts_def)

lemma quiet_make_pipe:
  assumes "quiet_os OS I hist pend st" and "good I sh"
  obtains fds sh' where "make_pipe OS needed sh = Some (fds, sh')" and "quiet I hist pend sh sh'" and "fds = None \<longleftrightarrow> \<not> needed"
proof (cases needed)
  case True
  have I: "I (world sh)" using assms(2) by (simp add: good_def)
  obtain r f w' where w: "os_pipe OS (world sh) = ((0, r, f), w')" "same I hist pend (world sh) w'"
    using quiet_laws(2) [OF assms(1) I] by blast
  have "make_pipe OS needed sh = Some (Some (r, f), sh\<lparr>world := w'\<rparr>)"
    by (simp add: make_pipe_def get_world_def w(1) True)
  then show thesis using that quiet_same [OF assms(2) w(2)] True by blast
next
  case False
  show thesis by (rule that [of None sh]) (simp_all add: False make_pipe_def quiet_refl [OF assms(2)])
qed

text \<open>A started command: its process is in the record and will end with its status.\<close>

definition started :: "('w \<Rightarrow> bool) \<Rightarrow> ('w \<Rightarrow> string list list) \<Rightarrow> ('w \<Rightarrow> int \<Rightarrow> 32 word) \<Rightarrow> (string list \<Rightarrow> 32 word)
    \<Rightarrow> 'w shell \<Rightarrow> command \<Rightarrow> 'w shell \<Rightarrow> bool" where
  "started I hist pend st sh c sh' =
    (good I sh' \<and> 0 < cpid c \<and> hist (world sh') = hist (world sh) @ [args c] \<and> pend (world sh') (cpid c) = st (args c))"

lemma started_quiet:
  "started I hist pend st sh c sh1 \<Longrightarrow> quiet I hist pend sh1 sh2 \<Longrightarrow> started I hist pend st sh c sh2"
  "quiet I hist pend sh0 sh \<Longrightarrow> started I hist pend st sh c sh1 \<Longrightarrow> started I hist pend st sh0 c sh1"
  by (simp_all add: started_def quiet_def)

lemma fork_command_started:
  assumes "quiet_os OS I hist pend st" and "good I sh" and "plain c" and "list_all plain rest"
    and "fds = None \<longleftrightarrow> rest = []"
  obtains c' rest' sh' where "fork_command OS prv c rest fds sh = (c', rest', sh')" and "started I hist pend st sh c' sh'"
    and "args c' = args c" and "is_cd c' = is_cd c" and "map args rest' = map args rest" and "list_all plain rest'"
proof -
  have I: "I (world sh)" using assms(2) by (simp add: good_def)
  obtain p w where f: "os_fork OS (Cmd (child_acts c fds prv)) (world sh) = (p, w)" "0 < p" "I w"
      "hist w = hist (world sh) @ [args c]" "pend w p = st (args c)"
    using quiet_laws(3) [OF assms(1) I, of "child_acts c fds prv"] by auto
  define sh1 where "sh1 = sh\<lparr>world := w\<rparr>"
  define c' where "c' = c\<lparr>cpgid := (if cpgid c = 0 then p else cpgid c), cpid := p\<rparr>"
  define sh2 where "sh2 = on_world (os_setpgid OS p (cpgid c)) sh1"
  have s1: "started I hist pend st sh c' sh1" using f assms(2) by (simp add: started_def good_def sh1_def c'_def)
  have g1: "good I sh1" using s1 by (simp add: started_def)
  have q: "quiet I hist pend sh1 sh2" unfolding sh2_def by (rule quiet_setpgid [OF assms(1) g1])
  have s2: "started I hist pend st sh c' sh2" by (rule started_quiet(1) [OF s1 q])
  have fork: "get_world (os_fork OS (Cmd (child_acts c fds prv))) sh = (p, sh1)" by (simp add: get_world_def f(1) sh1_def)
  show thesis
  proof (cases rest)
    case Nil
    then have "fork_command OS prv c rest fds sh = (c', [], sh2)"
      using assms(5) fork by (simp add: fork_command_def c'_def sh2_def)
    then show thesis using that s2 Nil by (simp add: c'_def)
  next
    case (Cons n rest1)
    then obtain r w where fds: "fds = Some (r, w)" using assms(5) by (cases fds) auto
    have "fork_command OS prv c rest fds sh = (c', n\<lparr>read_fd := r\<rparr> # rest1, on_world (os_close OS w) sh2)"
      using fork by (simp add: fork_command_def fds Cons c'_def sh2_def)
    moreover have "started I hist pend st sh c' (on_world (os_close OS w) sh2)"
      by (rule started_quiet(1) [OF s2 quiet_close [OF assms(1) quiet_good [OF q]]])
    ultimately show thesis using that assms(4) Cons by (simp add: c'_def)
  qed
qed

lemma command_run_started:
  assumes "quiet_os OS I hist pend st" and "good I sh" and "plain c" and "list_all plain rest"
  obtains c' rest' sh' where "command_run OS prv c rest sh = Some (c', rest', sh')" and "started I hist pend st sh c' sh'"
    and "args c' = args c" and "\<not> is_cd c'" and "map args rest' = map args rest" and "list_all plain rest'"
proof -
  obtain fds sh1 where p: "make_pipe OS (rest \<noteq> []) sh = Some (fds, sh1)" "quiet I hist pend sh sh1" "fds = None \<longleftrightarrow> rest = []"
    using quiet_make_pipe [OF assms(1,2)] by metis
  obtain c' rest' sh' where f: "fork_command OS prv c rest fds sh1 = (c', rest', sh')" "started I hist pend st sh1 c' sh'"
      "args c' = args c" "is_cd c' = is_cd c" "map args rest' = map args rest" "list_all plain rest'"
    using fork_command_started [OF assms(1) quiet_good [OF p(2)] assms(3,4) p(3)] by metis
  have "command_run OS prv c rest sh = Some (c', rest', sh')"
    using assms(3) p(1) f(1) by (simp add: command_run_def plain_def)
  then show thesis using that started_quiet(2) [OF p(2) f(2)] f(3-6) assms(3) by (simp add: plain_def)
qed

section \<open>One round\<close>

text \<open>In a foreground conditional of the shell itself, a round is a command and its aftermath.\<close>

lemma run_step_foreground:
  assumes "quiet_os OS I hist pend st" and "good I sh"
    and s: "conds s = c # cs" "\<not> is_background c" "pipes s \<noteq> []" "cmds s \<noteq> []"
  obtains sh1 where "quiet I hist pend sh sh1"
    and "run_step OS s sh = (case run_current OS s sh1 of None \<Rightarrow> None
       | Some (None, sh3) \<Rightarrow> Some (Return, sh3) | Some (Some s2, sh3) \<Rightarrow> finish_command OS s2 sh3)"
proof -
  obtain sh1 where k: "check_interrupt OS False sh = (False, sh1)" "quiet I hist pend sh sh1"
    using quiet_check [OF assms(1,2)] by blast
  have "run_step OS s sh = (case run_current OS s sh1 of None \<Rightarrow> None
       | Some (None, sh3) \<Rightarrow> Some (Return, sh3) | Some (Some s2, sh3) \<Rightarrow> finish_command OS s2 sh3)"
    using s k(1) by (cases "parent s"; cases "run_current OS s sh1") (auto simp: run_step_def)
  then show thesis using that k(2) by blast
qed

lemma run_current_skip: "cmds s = k # ks \<Longrightarrow> \<not> run s \<Longrightarrow> run_current OS s sh = Some (Some s, sh)"
  by (simp add: run_current_def)

lemma run_current_plain:
  assumes "quiet_os OS I hist pend st" and "good I sh"
    and s: "conds s = c # cs" "\<not> is_background c" "cmds s = k # ks" "run s" "list_all plain (k # ks)"
  obtains k' ks' sh' where
    "run_current OS s sh = Some (Some (s\<lparr>cmds := k' # ks', pgid := cpgid k'\<rparr>), sh')"
    and "started I hist pend st sh k' sh'" and "args k' = args k" and "map args ks' = map args ks" and "list_all plain ks'"
proof -
  obtain sh1 where k1: "check_interrupt OS False sh = (False, sh1)" "quiet I hist pend sh sh1"
    using quiet_check [OF assms(1,2)] by blast
  have p: "plain (k\<lparr>cpgid := pgid s\<rparr>)" "list_all plain ks" using s(5) by simp_all
  obtain k' ks' sh2 where r: "command_run OS (passed s \<noteq> []) (k\<lparr>cpgid := pgid s\<rparr>) ks sh1 = Some (k', ks', sh2)"
      "started I hist pend st sh1 k' sh2" "args k' = args k" "\<not> is_cd k'" "map args ks' = map args ks" "list_all plain ks'"
    using command_run_started [OF assms(1) quiet_good [OF k1(2)] p, of "passed s \<noteq> []"] by auto
  have g2: "good I sh2" using r(2) by (simp add: started_def)
  obtain sh3 where k3: "check_interrupt OS False sh2 = (False, sh3)" "quiet I hist pend sh2 sh3"
    using quiet_check [OF assms(1) g2] by blast
  have "run_current OS s sh = Some (Some (s\<lparr>cmds := k' # ks', pgid := cpgid k'\<rparr>), sh3)"
    using s k1(1) k3(1) r(1,4) by (simp add: run_current_def plain_def)
  moreover have "started I hist pend st sh k' sh3"
    using started_quiet(1) [OF _ k3(2)] started_quiet(2) [OF k1(2) r(2)] by blast
  ultimately show thesis using that r(3,5,6) by blast
qed

section \<open>One pipeline\<close>

text \<open>What the loop does when the pipeline is over.\<close>

definition go_on :: "'w shell_os \<Rightarrow> rstate \<Rightarrow> 'w shell \<Rightarrow> (bool \<times> 'w shell) option" where
  "go_on OS s sh = (case next_pipeline s of None \<Rightarrow> None
     | Some (Continue s') \<Rightarrow> run_loop OS s' sh
     | Some Return \<Rightarrow> Some (False, sh)
     | Some Exit_subshell \<Rightarrow> Some (True, sh))"

lemma go_on_fields: "go_on OS (s\<lparr>passed := a, cmds := b\<rparr>) sh = go_on OS s sh"
  by (simp add: go_on_def next_pipeline_def Let_def enter_def split: list.split)

lemma run_loop_step:
  "run_step OS s sh = Some (Continue s', sh') \<Longrightarrow> run_loop OS s sh = run_loop OS s' sh'"
  by (subst run_loop.simps) simp

lemma run_loop_finish:
  assumes "quiet_os OS I hist pend st" and "good I sh"
    and s: "conds s = c # cs" "\<not> is_background c" "pipes s \<noteq> []" "cmds s = k # ks"
    and cur: "\<And>sh1. quiet I hist pend sh sh1 \<Longrightarrow> \<exists>s2 sh2. run_current OS s sh1 = Some (Some s2, sh2) \<and> Q s2 sh2"
  obtains s2 sh2 where "Q s2 sh2"
    and "run_loop OS s sh = (case finish_command OS s2 sh2 of None \<Rightarrow> None
       | Some (Continue s', sh') \<Rightarrow> run_loop OS s' sh' | Some (Return, sh') \<Rightarrow> Some (False, sh')
       | Some (Exit_subshell, sh') \<Rightarrow> Some (True, sh'))"
proof -
  have "cmds s \<noteq> []" using s(4) by simp
  then obtain sh1 where q: "quiet I hist pend sh sh1"
    and r: "run_step OS s sh = (case run_current OS s sh1 of None \<Rightarrow> None
       | Some (None, sh3) \<Rightarrow> Some (Return, sh3) | Some (Some s2, sh3) \<Rightarrow> finish_command OS s2 sh3)"
    using run_step_foreground [OF assms(1,2) s(1-3)] by blast
  obtain s2 sh2 where "run_current OS s sh1 = Some (Some s2, sh2)" "Q s2 sh2" using cur [OF q] by blast
  moreover from this have "run_step OS s sh = finish_command OS s2 sh2" by (simp add: r)
  ultimately show thesis using that by (subst (asm) run_loop.simps) simp
qed

text \<open>A pipeline that is not to run is passed over.\<close>

lemma pipeline_skipped:
  assumes "quiet_os OS I hist pend st"
  shows "good I sh \<Longrightarrow> conds s = c # cs \<Longrightarrow> \<not> is_background c \<Longrightarrow> pipes s \<noteq> [] \<Longrightarrow> cmds s \<noteq> [] \<Longrightarrow> list_all plain (cmds s) \<Longrightarrow> \<not> run s
    \<Longrightarrow> \<exists>sh'. quiet I hist pend sh sh' \<and> run_loop OS s sh = go_on OS s sh'"
proof (induction "cmds s" arbitrary: s sh)
  case (Cons k ks)
  define Q where "Q = (\<lambda>s2 sh2. s2 = s \<and> quiet I hist pend sh sh2)"
  have cur: "\<exists>s2 sh2. run_current OS s sh1 = Some (Some s2, sh2) \<and> Q s2 sh2" if "quiet I hist pend sh sh1" for sh1
    using run_current_skip [OF Cons.hyps(2) [symmetric] Cons.prems(7)] that by (auto simp: Q_def)
  obtain s2 sh2 where Q: "Q s2 sh2" and r: "run_loop OS s sh = (case finish_command OS s2 sh2 of None \<Rightarrow> None
       | Some (Continue s', sh') \<Rightarrow> run_loop OS s' sh' | Some (Return, sh') \<Rightarrow> Some (False, sh')
       | Some (Exit_subshell, sh') \<Rightarrow> Some (True, sh'))"
    using run_loop_finish [OF assms Cons.prems(1-4) Cons.hyps(2) [symmetric] cur] by blast
  have q: "quiet I hist pend sh sh2" and s2: "s2 = s" using Q by (simp_all add: Q_def)
  have k: "plain k" "list_all plain ks" using Cons.prems(6) Cons.hyps(2) [symmetric] by simp_all
  show ?case
  proof (cases "ks = []")
    case True
    define sh3 where "sh3 = close_read_ends OS (passed s @ cmds s) sh2"
    have q3: "quiet I hist pend sh sh3"
      unfolding sh3_def by (rule quiet_trans [OF q quiet_close_read_ends [OF assms quiet_good [OF q]]])
    have "finish_command OS s sh2 = map_option (\<lambda>out. (out, sh3)) (next_pipeline s)"
      using True k(1) Cons.hyps(2) [symmetric] Cons.prems(2,3)
      by (cases "next_pipeline s") (simp_all add: finish_command_def end_pipeline_def await_def plain_def sh3_def)
    then have "run_loop OS s sh = go_on OS s sh3"
      using r s2 by (cases "next_pipeline s") (simp_all add: go_on_def split: outcome.split)
    then show ?thesis using q3 by blast
  next
    case False
    define s' where "s' = s\<lparr>passed := passed s @ [k], cmds := ks\<rparr>"
    have "args (hd ks) \<noteq> []" using k(2) False by (cases ks) (auto simp: plain_def)
    then have "run_loop OS s sh = run_loop OS s' sh2"
      using r s2 False Cons.hyps(2) [symmetric] by (simp add: finish_command_def s'_def)
    moreover obtain sh' where "quiet I hist pend sh2 sh'" "run_loop OS s' sh2 = go_on OS s' sh'"
      using Cons.hyps(1) [of s' sh2] quiet_good [OF q] Cons.prems k(2) False by (auto simp: s'_def)
    moreover have "go_on OS s' sh' = go_on OS s sh'" by (simp only: s'_def go_on_fields)
    ultimately show ?thesis using quiet_trans [OF q] by auto
  qed
qed simp

text \<open>A pipeline that is to run: its commands are started and the last one is waited for.\<close>

lemma finish_last:
  assumes "quiet_os OS I hist pend st" and "started I hist pend st sh0 k sh"
    and s: "cmds s = [k]" "conds s = c # cs" "\<not> is_background c"
  obtains sh' where "quiet I hist pend sh sh'" and "finish_command OS s sh
     = map_option (\<lambda>out. (out, sh')) (next_pipeline (s\<lparr>status := st (args k)\<rparr>))"
proof -
  have g: "good I sh" and p: "0 < cpid k" and pe: "pend (world sh) (cpid k) = st (args k)"
    using assms(2) by (simp_all add: started_def)
  define sh1 where "sh1 = close_read_ends OS (passed s @ [k]) sh"
  have q1: "quiet I hist pend sh sh1" unfolding sh1_def by (rule quiet_close_read_ends [OF assms(1) g])
  obtain r2 sh2 where c2: "claim_foreground OS (pgid s) sh1 = Some (r2, sh2)" "quiet I hist pend sh1 sh2"
    using quiet_claim [OF assms(1) quiet_good [OF q1]] by blast
  have q2: "quiet I hist pend sh sh2" by (rule quiet_trans [OF q1 c2(2)])
  then have I2: "I (world sh2)" and pe2: "pend (world sh2) (cpid k) = st (args k)"
    using pe by (simp_all add: quiet_def good_def)
  obtain w where w: "os_waitpid OS (cpid k) (status s) (world sh2) = ((cpid k, st (args k)), w)" "same I hist pend (world sh2) w"
    using quiet_laws(4) [OF assms(1) I2 p] pe2 by metis
  define sh3 where "sh3 = sh2\<lparr>world := w\<rparr>"
  have q3: "quiet I hist pend sh sh3"
    unfolding sh3_def by (rule quiet_trans [OF q2 quiet_same [OF quiet_good [OF q2] w(2)]])
  obtain r4 sh4 where c4: "claim_foreground OS 0 sh3 = Some (r4, sh4)" "quiet I hist pend sh3 sh4"
    using quiet_claim [OF assms(1) quiet_good [OF q3]] by blast
  have "await OS False (pgid s) (cpid k) (status s) sh1 = Some (True, st (args k), sh4)"
    using p c2(1) w(1) c4(1) by (simp add: await_def get_world_def sh3_def)
  then have "finish_command OS s sh = map_option (\<lambda>out. (out, sh4)) (next_pipeline (s\<lparr>status := st (args k)\<rparr>))"
    using s by (cases "next_pipeline (s\<lparr>status := st (args k)\<rparr>)") (simp_all add: finish_command_def end_pipeline_def sh1_def)
  then show thesis using that quiet_trans [OF q3 c4(2)] by blast
qed

lemma pipeline_run:
  assumes "quiet_os OS I hist pend st"
  shows "good I sh \<Longrightarrow> conds s = c # cs \<Longrightarrow> \<not> is_background c \<Longrightarrow> pipes s \<noteq> [] \<Longrightarrow> cmds s \<noteq> [] \<Longrightarrow> list_all plain (cmds s) \<Longrightarrow> run s
    \<Longrightarrow> \<exists>g sh'. good I sh' \<and> hist (world sh') = hist (world sh) @ map args (cmds s)
         \<and> run_loop OS s sh = go_on OS (s\<lparr>status := st (args (last (cmds s))), pgid := g\<rparr>) sh'"
proof (induction "length (cmds s)" arbitrary: s sh)
  case (Suc n)
  obtain k ks where ks: "cmds s = k # ks" using Suc.prems(5) by (cases "cmds s") auto
  define Q where "Q = (\<lambda>s2 sh2. \<exists>k' ks'. s2 = s\<lparr>cmds := k' # ks', pgid := cpgid k'\<rparr> \<and> started I hist pend st sh k' sh2
      \<and> args k' = args k \<and> map args ks' = map args ks \<and> list_all plain ks')"
  have cur: "\<exists>s2 sh2. run_current OS s sh1 = Some (Some s2, sh2) \<and> Q s2 sh2" if q: "quiet I hist pend sh sh1" for sh1
  proof -
    have pl: "list_all plain (k # ks)" using Suc.prems(6) ks by simp
    obtain k' ks' sh' where "run_current OS s sh1 = Some (Some (s\<lparr>cmds := k' # ks', pgid := cpgid k'\<rparr>), sh')"
      "started I hist pend st sh1 k' sh'" "args k' = args k" "map args ks' = map args ks" "list_all plain ks'"
      using run_current_plain [OF assms quiet_good [OF q] Suc.prems(2,3) ks Suc.prems(7) pl] by metis
    then show ?thesis using started_quiet(2) [OF q] unfolding Q_def by blast
  qed
  obtain s2 sh2 where Q: "Q s2 sh2" and r: "run_loop OS s sh = (case finish_command OS s2 sh2 of None \<Rightarrow> None
       | Some (Continue s', sh') \<Rightarrow> run_loop OS s' sh' | Some (Return, sh') \<Rightarrow> Some (False, sh')
       | Some (Exit_subshell, sh') \<Rightarrow> Some (True, sh'))"
    using run_loop_finish [OF assms Suc.prems(1-4) ks cur] by blast
  obtain k' ks' where s2: "s2 = s\<lparr>cmds := k' # ks', pgid := cpgid k'\<rparr>" and st: "started I hist pend st sh k' sh2"
    and k': "args k' = args k" "map args ks' = map args ks" "list_all plain ks'"
    using Q unfolding Q_def by blast
  have g2: "good I sh2" and h2: "hist (world sh2) = hist (world sh) @ [args k]"
    using st k'(1) by (simp_all add: started_def)
  show ?case
  proof (cases "ks = []")
    case True
    then have nil: "ks' = []" using k'(2) by simp
    have c: "cmds s2 = [k']" "conds s2 = c # cs" using s2 nil Suc.prems(2) by simp_all
    obtain sh' where f: "quiet I hist pend sh2 sh'" "finish_command OS s2 sh2
        = map_option (\<lambda>out. (out, sh')) (next_pipeline (s2\<lparr>status := st (args k')\<rparr>))"
      using finish_last [OF assms st c Suc.prems(3)] by blast
    have "run_loop OS s sh = go_on OS (s2\<lparr>status := st (args k')\<rparr>) sh'"
      using r f(2) by (cases "next_pipeline (s2\<lparr>status := st (args k')\<rparr>)") (simp_all add: go_on_def split: outcome.split)
    also have "s2\<lparr>status := st (args k')\<rparr> = (s\<lparr>status := st (args k), pgid := cpgid k'\<rparr>)\<lparr>passed := passed s, cmds := [k']\<rparr>"
      by (cases s) (simp add: s2 nil k'(1))
    also have "go_on OS \<dots> sh' = go_on OS (s\<lparr>status := st (args k), pgid := cpgid k'\<rparr>) sh'" by (rule go_on_fields)
    finally show ?thesis using f(1) h2 ks True by (auto simp: quiet_def)
  next
    case False
    define s' where "s' = s2\<lparr>passed := passed s2 @ [k'], cmds := ks'\<rparr>"
    have ne: "ks' \<noteq> []" using False k'(2) by auto
    then have "args (hd ks') \<noteq> []" using k'(3) by (cases ks') (auto simp: plain_def)
    then have rl: "run_loop OS s sh = run_loop OS s' sh2"
      using r s2 ne by (simp add: finish_command_def s'_def)
    have n: "n = length (cmds s')" using Suc.hyps(2) ks arg_cong [OF k'(2), of length] by (simp add: s'_def)
    have pre: "conds s' = c # cs" "pipes s' \<noteq> []" "cmds s' \<noteq> []" "list_all plain (cmds s')" "run s'"
      using Suc.prems ne k'(3) by (simp_all add: s'_def s2)
    obtain g sh' where IH: "good I sh'" "hist (world sh') = hist (world sh2) @ map args (cmds s')"
      "run_loop OS s' sh2 = go_on OS (s'\<lparr>status := st (args (last (cmds s'))), pgid := g\<rparr>) sh'"
      using Suc.hyps(1) [OF n g2 pre(1) Suc.prems(3) pre(2-5)] by blast
    have e: "args (last (cmds s)) = args (last ks')" using k'(2) ne False ks by (metis last_ConsR last_map)
    have "s'\<lparr>status := st (args (last (cmds s'))), pgid := g\<rparr>
        = (s\<lparr>status := st (args (last ks')), pgid := g\<rparr>)\<lparr>passed := passed s @ [k'], cmds := ks'\<rparr>"
      by (cases s) (simp add: s'_def s2)
    then have go: "run_loop OS s sh = go_on OS (s\<lparr>status := st (args (last (cmds s))), pgid := g\<rparr>) sh'"
      using rl IH(3) by (simp only: go_on_fields e)
    have "hist (world sh') = hist (world sh) @ map args (cmds s)" using IH(2) h2 k'(2) ks by (simp add: s'_def)
    then show ?thesis using IH(1) go by blast
  qed
qed simp

section \<open>A chain, a script\<close>

definition fine_pipe :: "pipe_syntax \<Rightarrow> bool" where
  "fine_pipe p = list_all (\<lambda>is. argv is \<noteq> [] \<and> ''cd'' \<notin> set (argv is)) (fst p # snd p)"

definition fine_chain :: "chain_syntax \<Rightarrow> bool" where
  "fine_chain ch = (fine_pipe (fst ch) \<and> list_all (\<lambda>q. fine_pipe (snd q)) (snd ch))"

lemma fold_items:
  "args (foldl item_command c is) = args c @ argv is"
  "is_cd (foldl item_command c is) = (is_cd c \<or> ''cd'' \<in> set (argv is))"
  "is_variable_def (foldl item_command c is) = is_variable_def c" "cpid (foldl item_command c is) = cpid c"
proof (induction "is" arbitrary: c)
  case (Cons i "is")
  {
    case 1 show ?case using Cons.IH(1) by (cases i) (auto simp: argv_def append_perm_def split: redir_op.split)
  next
    case 2 show ?case using Cons.IH(2) by (cases i) (auto simp: argv_def append_perm_def split: redir_op.split)
  next
    case 3 show ?case using Cons.IH(3) by (cases i) (auto simp: argv_def append_perm_def split: redir_op.split)
  next
    case 4 show ?case using Cons.IH(4) by (cases i) (auto simp: argv_def append_perm_def split: redir_op.split)
  }
qed (simp_all add: argv_def)

lemma the_command_args [simp]: "args (the_command is) = argv is"
  by (simp add: the_command_def fold_items new_command_def)

lemma the_command_plain: "argv is \<noteq> [] \<Longrightarrow> ''cd'' \<notin> set (argv is) \<Longrightarrow> plain (the_command is)"
  by (simp add: plain_def) (simp add: the_command_def fold_items new_command_def)

lemma the_pipeline_args: "map args (commands (the_pipeline p b)) = pipe_argvs p"
  by (simp add: the_pipeline_def pipe_argvs_def)

lemma the_pipeline_plain: "fine_pipe p \<Longrightarrow> list_all plain (commands (the_pipeline p b))"
  by (auto simp: fine_pipe_def the_pipeline_def list_all_iff intro: the_command_plain)

lemma the_pipeline_last: "args (last (commands (the_pipeline p b))) = last (pipe_argvs p)"
  by (subst the_pipeline_args [of p b, symmetric], subst last_map) (simp_all add: the_pipeline_def)

text \<open>The state at the start of a pipeline, and what follows a chain.\<close>

definition at_pipe :: "conditional list \<Rightarrow> pipe_syntax \<Rightarrow> (bool \<times> pipe_syntax) list \<Rightarrow> bool \<Rightarrow> 32 word \<Rightarrow> int \<Rightarrow> rstate" where
  "at_pipe cs p rest b stat g = \<lparr>conds = cs, pipes = the_pipelines p rest, passed = [],
     cmds = commands (hd (the_pipelines p rest)), run = b, status = stat, pgid = g, parent = True\<rparr>"

lemma the_pipelines_Cons: "\<exists>b. the_pipelines p rest = the_pipeline p b # (case rest of [] \<Rightarrow> [] | (b, q) # r \<Rightarrow> the_pipelines q r)
    \<and> b = (case rest of [] \<Rightarrow> False | (b, q) # r \<Rightarrow> b)"
  by (cases "(p, rest)" rule: the_pipelines.cases) auto

text \<open>The rest of the list: its first conditional, entered with the status reset, or the return.\<close>

definition next_cond :: "'w shell_os \<Rightarrow> conditional list \<Rightarrow> int \<Rightarrow> 'w shell \<Rightarrow> (bool \<times> 'w shell) option" where
  "next_cond OS cs g sh = (case cs of [] \<Rightarrow> Some (False, sh) | _ \<Rightarrow> run_from OS True g cs sh)"

definition succ_or :: "32 word \<Rightarrow> bool \<Rightarrow> bool" where
  "succ_or stat is_or = (succeeded stat \<noteq> is_or)"

lemma go_on_next:
  "go_on OS ((at_pipe cs p ((b, q) # rest) r stat g)\<lparr>status := stat', pgid := g'\<rparr>) sh
     = run_loop OS (at_pipe cs q rest (succeeded stat' \<noteq> b) stat' g') sh"
proof -
  obtain b' tl' where q: "the_pipelines q rest = the_pipeline q b' # tl'" using the_pipelines_Cons by blast
  show ?thesis by (simp add: go_on_def next_pipeline_def at_pipe_def Let_def q the_pipeline_def)
qed

lemma go_on_last:
  "go_on OS ((at_pipe (c # cs) p [] r stat g)\<lparr>status := stat', pgid := g'\<rparr>) sh = next_cond OS cs g' sh"
  by (auto simp: go_on_def next_pipeline_def at_pipe_def Let_def next_cond_def run_from_def enter_def split: list.split)

lemma run_at_pipe:
  assumes "quiet_os OS I hist pend st" and "good I sh" and "fine_pipe p" and "\<not> is_background c"
  shows "\<exists>g' sh'. good I sh' \<and> hist (world sh') = hist (world sh) @ (if r then pipe_argvs p else [])
     \<and> run_loop OS (at_pipe (c # cs) p rest r stat g) sh
        = go_on OS ((at_pipe (c # cs) p rest r stat g)\<lparr>status := (if r then st (last (pipe_argvs p)) else stat), pgid := g'\<rparr>) sh'"
proof -
  define s where "s = at_pipe (c # cs) p rest r stat g"
  obtain b where b: "hd (the_pipelines p rest) = the_pipeline p b" "the_pipelines p rest \<noteq> []"
    using the_pipelines_Cons [of p rest] by auto
  have pre: "conds s = c # cs" "pipes s \<noteq> []" "cmds s \<noteq> []" "list_all plain (cmds s)" "run s = r"
    using b the_pipeline_plain [OF assms(3)] by (simp_all add: s_def at_pipe_def the_pipeline_def)
  have cm: "cmds s = commands (the_pipeline p b)" "status s = stat" "pgid s = g" using b by (simp_all add: s_def at_pipe_def)
  show ?thesis
  proof (cases r)
    case True
    then obtain g' sh' where "good I sh'" "hist (world sh') = hist (world sh) @ map args (cmds s)"
        "run_loop OS s sh = go_on OS (s\<lparr>status := st (args (last (cmds s))), pgid := g'\<rparr>) sh'"
      using pipeline_run [OF assms(1,2) pre(1) assms(4) pre(2-4)] pre(5) by blast
    then show ?thesis using True unfolding s_def [symmetric]
      by (intro exI [of _ g'] exI [of _ sh']) (simp add: cm(1) the_pipeline_args the_pipeline_last)
  next
    case False
    then obtain sh' where q: "quiet I hist pend sh sh'" "run_loop OS s sh = go_on OS s sh'"
      using pipeline_skipped [OF assms(1,2) pre(1) assms(4) pre(2-4)] pre(5) by blast
    have "s = s\<lparr>status := stat, pgid := g\<rparr>" using cm(2,3) by (cases s) simp
    then show ?thesis using q False unfolding s_def [symmetric]
      by (intro exI [of _ g] exI [of _ sh']) (simp add: quiet_def)
  qed
qed

lemma fold_then_pipe: "fst (foldl (then_pipe st) (a @ x, ok) rest) = a @ fst (foldl (then_pipe st) (x, ok) rest)"
  by (induction rest arbitrary: x ok) (auto simp: then_pipe_def)

lemma run_at_chain:
  assumes "quiet_os OS I hist pend st" and "\<not> is_background c"
  shows "good I sh \<Longrightarrow> fine_pipe p \<Longrightarrow> list_all (\<lambda>q. fine_pipe (snd q)) rest
    \<Longrightarrow> \<exists>g' sh'. good I sh'
       \<and> hist (world sh') = hist (world sh) @ fst (foldl (then_pipe st) (if r then (pipe_argvs p, pipe_ok st p) else ([], succeeded stat)) rest)
       \<and> run_loop OS (at_pipe (c # cs) p rest r stat g) sh = next_cond OS cs g' sh'"
proof (induction rest arbitrary: p r stat g sh)
  case Nil
  from run_at_pipe [OF assms(1) Nil.prems(1,2) assms(2), of r cs "[]" stat g] show ?case
    unfolding go_on_last by (cases r) auto
next
  case (Cons bq rest)
  obtain b q where bq: "bq = (b, q)" by (cases bq)
  define stat' where "stat' = (if r then st (last (pipe_argvs p)) else stat)"
  define R where "R = (if r then pipe_argvs p else [])"
  obtain g1 sh1 where p: "good I sh1" "hist (world sh1) = hist (world sh) @ R"
      "run_loop OS (at_pipe (c # cs) p ((b, q) # rest) r stat g) sh = run_loop OS (at_pipe (c # cs) q rest (succeeded stat' \<noteq> b) stat' g1) sh1"
    using run_at_pipe [OF assms(1) Cons.prems(1,2) assms(2), of r cs "(b, q) # rest" stat g]
    unfolding go_on_next R_def stat'_def by blast
  have fine: "fine_pipe q" "list_all (\<lambda>q. fine_pipe (snd q)) rest" using Cons.prems(3) by (simp_all add: bq)
  obtain g2 sh2 where IH: "good I sh2" "hist (world sh2) = hist (world sh1)
        @ fst (foldl (then_pipe st) (if succeeded stat' \<noteq> b then (pipe_argvs q, pipe_ok st q) else ([], succeeded stat')) rest)"
      "run_loop OS (at_pipe (c # cs) q rest (succeeded stat' \<noteq> b) stat' g1) sh1 = next_cond OS cs g2 sh2"
    using Cons.IH [OF p(1) fine] by blast
  have acc: "(if r then (pipe_argvs p, pipe_ok st p) else ([], succeeded stat)) = (R, succeeded stat')"
    by (simp add: R_def stat'_def pipe_ok_def)
  have "hist (world sh2) = hist (world sh) @ fst (foldl (then_pipe st) (R, succeeded stat') (bq # rest))"
    using IH(2) p(2) fold_then_pipe [of st R "[]" "succeeded stat'" rest] fold_then_pipe [of st R "pipe_argvs q" "pipe_ok st q" rest]
    by (cases "succeeded stat' = b") (simp_all add: then_pipe_def bq)
  then show ?case unfolding acc using IH(1,3) p(3) bq by (intro exI [of _ g2] exI [of _ sh2]) simp
qed

text \<open>The empty conditional after the last separator runs nothing.\<close>

lemma run_empty:
  assumes "quiet_os OS I hist pend st" and "good I sh"
  shows "\<exists>sh'. quiet I hist pend sh sh' \<and> run_from OS True g [new_conditional] sh = Some (False, sh')"
proof -
  define s where "s = \<lparr>conds = [new_conditional], pipes = [new_pipeline], passed = [], cmds = [new_command], run = True, status = 0, pgid = g, parent = True\<rparr>"
  have e: "run_from OS True g [new_conditional] sh = run_loop OS s sh"
    by (simp add: run_from_def enter_def new_conditional_def new_pipeline_def s_def)
  have pre: "conds s = new_conditional # []" "\<not> is_background new_conditional" "pipes s \<noteq> []" "cmds s \<noteq> []"
    by (simp_all add: s_def new_conditional_def)
  obtain sh1 where q1: "quiet I hist pend sh sh1"
    and r: "run_step OS s sh = (case run_current OS s sh1 of None \<Rightarrow> None
       | Some (None, sh3) \<Rightarrow> Some (Return, sh3) | Some (Some s2, sh3) \<Rightarrow> finish_command OS s2 sh3)"
    using run_step_foreground [OF assms pre] by blast
  have "run_current OS s sh1 = Some (Some s, sh1)" by (simp add: run_current_def s_def new_command_def)
  moreover have "finish_command OS s sh1 = Some (Return, close_read_ends OS [new_command] sh1)"
    by (simp add: finish_command_def end_pipeline_def await_def next_pipeline_def Let_def s_def, simp add: new_command_def new_conditional_def)
  ultimately have "run_loop OS s sh = Some (False, close_read_ends OS [new_command] sh1)"
    using r by (subst run_loop.simps) simp
  then show ?thesis using e quiet_trans [OF q1 quiet_close_read_ends [OF assms(1) quiet_good [OF q1]]] by auto
qed

lemma enter_chain:
  "run_from OS True g (the_conditional ch bg # cs) sh = run_loop OS (at_pipe (the_conditional ch bg # cs) (fst ch) (snd ch) True 0 g) sh"
proof -
  obtain b tl' where q: "the_pipelines (fst ch) (snd ch) = the_pipeline (fst ch) b # tl'" using the_pipelines_Cons by blast
  show ?thesis by (simp add: run_from_def enter_def the_conditional_def q at_pipe_def)
qed

lemma run_script:
  assumes "quiet_os OS I hist pend st"
  shows "good I sh \<Longrightarrow> list_all (\<lambda>x. fine_chain (fst x) \<and> \<not> snd x) sc
    \<Longrightarrow> \<exists>sh'. good I sh' \<and> hist (world sh') = hist (world sh) @ concat (map (\<lambda>x. chain_runs st (fst x)) sc)
       \<and> run_from OS True g (map (\<lambda>(ch, bg). the_conditional ch bg) sc @ [new_conditional]) sh = Some (False, sh')"
proof (induction sc arbitrary: g sh)
  case Nil
  then show ?case using run_empty [OF assms Nil(1), of g] by (auto simp: quiet_def)
next
  case (Cons x sc)
  obtain ch bg where x: "x = (ch, bg)" by (cases x)
  have bg: "\<not> is_background (the_conditional ch bg)" and f: "fine_pipe (fst ch)" "list_all (\<lambda>q. fine_pipe (snd q)) (snd ch)"
    and rest: "list_all (\<lambda>x. fine_chain (fst x) \<and> \<not> snd x) sc"
    using Cons.prems(2) by (simp_all add: x fine_chain_def the_conditional_def)
  let ?cs = "map (\<lambda>(ch, bg). the_conditional ch bg) sc @ [new_conditional]"
  obtain g1 sh1 where 1: "good I sh1" "hist (world sh1) = hist (world sh) @ chain_runs st ch"
      "run_loop OS (at_pipe (the_conditional ch bg # ?cs) (fst ch) (snd ch) True 0 g) sh = next_cond OS ?cs g1 sh1"
    using run_at_chain [OF assms bg Cons.prems(1) f, of True 0 ?cs g] by (auto simp: chain_runs_def)
  have n: "next_cond OS ?cs g1 sh1 = run_from OS True g1 ?cs sh1" by (simp add: next_cond_def split: list.split)
  obtain sh2 where "good I sh2" "hist (world sh2) = hist (world sh1) @ concat (map (\<lambda>x. chain_runs st (fst x)) sc)"
      "run_from OS True g1 ?cs sh1 = Some (False, sh2)"
    using Cons.IH [OF 1(1) rest] by blast
  then show ?case using 1 n enter_chain [of OS g ch bg ?cs sh] by (auto simp: x)
qed

lemma run_line_script:
  assumes "quiet_os OS I hist pend st" and "good I sh"
    and "list_all (\<lambda>x. fine_chain (fst x) \<and> \<not> snd x) sc"
  obtains sh' where "run_line OS vars (script_text sc @ [CHR 0x0A]) sh = Some (vars, sh')" and "good I sh'"
     and "hist (world sh') = hist (world sh) @ concat (map (\<lambda>x. chain_runs st (fst x)) sc)"
proof -
  obtain sh' where r: "good I sh'" "hist (world sh') = hist (world sh) @ concat (map (\<lambda>x. chain_runs st (fst x)) sc)"
      "run_from OS True 0 (map (\<lambda>(ch, bg). the_conditional ch bg) sc @ [new_conditional]) sh = Some (False, sh')"
    using run_script [OF assms, of 0] by blast
  have "parse_line vars (script_text sc @ [CHR 0x0A]) = Some (vars, map (\<lambda>(ch, bg). the_conditional ch bg) sc @ [new_conditional])"
    by (rule parse_line_script) (simp add: isspace_def)
  then have "run_line OS vars (script_text sc @ [CHR 0x0A]) sh = Some (vars, sh'\<lparr>interrupted := False\<rparr>)"
    using r(3) by (simp add: run_line_def run_list_def)
  moreover have "good I (sh'\<lparr>interrupted := False\<rparr>)" using r(1) by (simp add: good_def)
  ultimately show thesis using that [of "sh'\<lparr>interrupted := False\<rparr>"] r(2) by simp
qed

section \<open>A system to try it on\<close>

text \<open>The record of the commands started, the lines still to be read, and \<open>errno\<close>.\<close>

record tape =
  tape_log :: "string list list"
  tape_in :: "string list"
  tape_errno :: int

definition tape_fgets :: "nat \<Rightarrow> tape \<Rightarrow> fgets_result \<times> tape" where
  "tape_fgets n w = (case tape_in w of [] \<Rightarrow> (Got_eof, w) | l # ls \<Rightarrow> (Got l, w\<lparr>tape_in := ls\<rparr>))"

definition tape_os :: "int \<Rightarrow> (string list \<Rightarrow> 32 word) \<Rightarrow> tape shell_os" where
  "tape_os child_pid st = \<lparr>os_pipe = (\<lambda>w. ((0, 3, 4), w)),
     os_fork = (\<lambda>ch w. (child_pid, case ch of Cmd acts \<Rightarrow> w\<lparr>tape_log := tape_log w @ [exec_argv acts]\<rparr> | Subshell _ _ \<Rightarrow> w)),
     os_setpgid = (\<lambda>p g w. w), os_close = (\<lambda>fd w. w), os_chdir = (\<lambda>d w. w), os_errno = tape_errno,
     os_waitpid = (\<lambda>p s w. ((p, st (last (tape_log w))), w)), os_reap = (\<lambda>w. (-1, w)), os_sigint = (\<lambda>w. (False, w)),
     os_open_tty = (\<lambda>w. (3, w)), os_dupfd = (\<lambda>fd n w. (n, w)), os_cloexec = (\<lambda>fd w. w), os_getpgrp = (\<lambda>w. 1),
     os_tcgetpgrp = (\<lambda>fd w. 1), os_tcsetpgrp = (\<lambda>fd g w. (0, w)), os_feof = (\<lambda>w. tape_in w = []),
     os_fgets = tape_fgets, os_clearerr = (\<lambda>w. w), os_prompt = (\<lambda>w. w)\<rparr>"

definition tape_shell :: "string list \<Rightarrow> int \<Rightarrow> tape shell" where
  "tape_shell ls e = \<lparr>world = \<lparr>tape_log = [], tape_in = ls, tape_errno = e\<rparr>, interrupted = False, ttyfd = 10, shell_owns_foreground = True, shell_pgid = 1\<rparr>"

lemma tape_quiet: "quiet_os (tape_os 7 st) (\<lambda>_. True) tape_log (\<lambda>w _. st (last (tape_log w))) st"
  by (simp add: quiet_os_def tape_os_def same_def)

lemma tape_good: "good (\<lambda>_. True) (tape_shell ls e)"
  by (simp add: good_def tape_shell_def)

section \<open>Lines and files\<close>

text \<open>Running a line of foreground and-or chains starts exactly the commands the reference
  semantics of the line runs, in order, and the shell is ready for the next line: parser and
  runner together implement \<open>&&\<close>, \<open>||\<close>, \<open>|\<close> and \<open>;\<close>.\<close>

theorem run_line_andor:
  assumes "quiet_os OS I hist pend st" and "good I sh"
    and "list_all (\<lambda>x. fine_chain (fst x) \<and> \<not> snd x) sc"
  shows "\<exists>sh'. run_line OS vars (script_text sc @ [CHR 0x0A]) sh = Some (vars, sh') \<and> good I sh'
     \<and> hist (world sh') = hist (world sh) @ concat (map (\<lambda>x. chain_runs st (fst x)) sc)"
  using run_line_script [OF assms] by metis

definition demo_chain :: chain_syntax where
  "demo_chain = (([Word ''false''], []), [(False, [Word ''a''], []), (True, [Word ''b'', Redir R_OUT ''f''], [[Word ''c'']])])"

lemma demo_fine: "fine_chain demo_chain"
  by (simp add: demo_chain_def fine_chain_def fine_pipe_def argv_def)

lemma run_line_andor_witness:
  "\<exists>sh'. run_line (tape_os 7 (\<lambda>a. if a = [''false''] then 0x100 else 0)) (\<lambda>_. None) (script_text [(demo_chain, False)] @ [CHR 0x0A]) (tape_shell [] 0)
       = Some (\<lambda>_. None, sh')
     \<and> tape_log (world sh') = [[''false''], [''b''], [''c'']]"
proof -
  let ?st = "\<lambda>a. if a = [''false''] then 0x100 else (0 :: 32 word)"
  have f: "list_all (\<lambda>x. fine_chain (fst x) \<and> \<not> snd x) [(demo_chain, False)]" by (simp add: demo_fine)
  have "chain_runs ?st demo_chain = [[''false''], [''b''], [''c'']]"
    by (simp add: chain_runs_def demo_chain_def pipe_argvs_def pipe_ok_def argv_def then_pipe_def succeeded_def WIFEXITED_def WEXITSTATUS_def)
  then show ?thesis
    using run_line_andor [OF tape_quiet [of ?st] tape_good [of "[]" 0] f, of "\<lambda>_. None"] by (auto simp: tape_shell_def)
qed

text \<open>The laws of the input \<open>N\<close>: \<open>fgets\<close> gives the lines of the file in turn, one per call when
  they fit, then reports the end; no child is left to be reaped between two lines.\<close>

definition file_os :: "'w shell_os \<Rightarrow> ('w \<Rightarrow> bool) \<Rightarrow> ('w \<Rightarrow> string list) \<Rightarrow> ('w \<Rightarrow> string list list) \<Rightarrow> ('w \<Rightarrow> int \<Rightarrow> 32 word) \<Rightarrow> bool" where
  "file_os OS J N hist pend \<longleftrightarrow>
    (\<forall>w. J w \<longrightarrow>
       (os_feof OS w \<longrightarrow> N w = [])
     \<and> (\<forall>n. N w = [] \<longrightarrow> (\<exists>w'. os_fgets OS n w = (Got_eof, w') \<and> same J hist pend w w'))
     \<and> (\<forall>n l ls. N w = l # ls \<longrightarrow> length l < n \<longrightarrow> (\<exists>w'. os_fgets OS n w = (Got l, w') \<and> same J hist pend w w' \<and> N w' = ls))
     \<and> (\<exists>p w'. os_reap OS w = (p, w') \<and> p \<le> 0 \<and> same (\<lambda>v. J v \<and> N v = N w) hist pend w w'))"

lemma file_laws:
  assumes "file_os OS J N hist pend" and "J w"
  shows "os_feof OS w \<Longrightarrow> N w = []"
    and "N w = [] \<Longrightarrow> \<exists>w'. os_fgets OS n w = (Got_eof, w') \<and> same J hist pend w w'"
    and "N w = l # ls \<Longrightarrow> length l < n \<Longrightarrow> \<exists>w'. os_fgets OS n w = (Got l, w') \<and> same J hist pend w w' \<and> N w' = ls"
    and "\<exists>p w'. os_reap OS w = (p, w') \<and> p \<le> 0 \<and> same (\<lambda>v. J v \<and> N v = N w) hist pend w w'"
  using assms unfolding file_os_def by blast+

text \<open>The texts that are a line of the file: foreground chains, no NUL character, within the
  buffer.\<close>

definition line_text :: "(chain_syntax \<times> bool) list \<Rightarrow> string" where
  "line_text sc = script_text sc @ [CHR 0x0A]"

definition fine_line :: "(chain_syntax \<times> bool) list \<Rightarrow> bool" where
  "fine_line sc = (list_all (\<lambda>x. fine_chain (fst x) \<and> \<not> snd x) sc \<and> NUL \<notin> set (script_text sc) \<and> length (line_text sc) < BUFSIZ)"

definition line_runs :: "(string list \<Rightarrow> 32 word) \<Rightarrow> (chain_syntax \<times> bool) list \<Rightarrow> string list list" where
  "line_runs st sc = concat (map (\<lambda>x. chain_runs st (fst x)) sc)"

lemma cstr_id: "NUL \<notin> set s \<Longrightarrow> cstr s = s"
  by (auto simp: cstr_def takeWhile_eq_all_conv)

lemma reap_none:
  assumes "get_world (os_reap OS) sh = (p, sh')" and "p \<le> 0"
  shows "reap_zombies OS sh = Some sh'"
  using assms by (subst reap_zombies.simps) simp

lemma main_loop_line:
  assumes "\<forall>ls. quiet_os OS (\<lambda>w. J w \<and> N w = ls) hist pend st" and "file_os OS J N hist pend"
    and "good J sh" and "N (world sh) = line_text sc # ls" and "fine_line sc"
  obtains sh' where "main_loop OS True [] np vars sh = main_loop OS True [] True vars sh'" and "good J sh'"
    and "N (world sh') = ls" and "hist (world sh') = hist (world sh) @ line_runs st sc"
proof -
  have J: "J (world sh)" using assms(3) by (simp add: good_def)
  have len: "length (line_text sc) < BUFSIZ" using assms(5) by (simp add: fine_line_def)
  obtain w1 where f: "os_fgets OS BUFSIZ (world sh) = (Got (line_text sc), w1)" "same J hist pend (world sh) w1" "N w1 = ls"
    using file_laws(3) [OF assms(2) J assms(4) len] by blast
  define sh1 where "sh1 = sh\<lparr>world := w1\<rparr>"
  have g1: "good (\<lambda>w. J w \<and> N w = ls) sh1" and h1: "hist (world sh1) = hist (world sh)"
    using f(2,3) assms(3) by (simp_all add: good_def same_def sh1_def)
  have c: "cstr (line_text sc) = line_text sc" using assms(5) by (intro cstr_id) (simp add: fine_line_def line_text_def)
  have r: "read_more OS [] sh = (Some (line_text sc), sh1)" by (simp add: read_more_def get_world_def f(1) c sh1_def)
  obtain sh2 where 2: "run_line OS vars (line_text sc) sh1 = Some (vars, sh2)" "good (\<lambda>w. J w \<and> N w = ls) sh2"
      "hist (world sh2) = hist (world sh1) @ line_runs st sc"
    using run_line_script [OF spec [OF assms(1)] g1, of sc vars] assms(5) by (auto simp: fine_line_def line_text_def line_runs_def)
  have J2: "J (world sh2)" and N2: "N (world sh2) = ls" using 2(2) by (simp_all add: good_def)
  obtain p w3 where w3: "os_reap OS (world sh2) = (p, w3)" "p \<le> 0" "same (\<lambda>v. J v \<and> N v = ls) hist pend (world sh2) w3"
    using file_laws(4) [OF assms(2) J2] N2 by auto
  define sh3 where "sh3 = sh2\<lparr>world := w3\<rparr>"
  have z: "reap_zombies OS sh2 = Some sh3" by (rule reap_none [OF _ w3(2)]) (simp add: get_world_def w3(1) sh3_def)
  have "line_complete (line_text sc)" by (simp add: line_complete_def line_text_def)
  moreover have "\<not> os_feof OS (world sh)" using file_laws(1) [OF assms(2) J] assms(4) by auto
  ultimately have "main_loop OS True [] np vars sh = main_loop OS True [] True vars sh3"
    by (subst main_loop.simps) (simp add: r 2(1) z)
  then show thesis
    using that w3(3) 2(2,3) h1 by (auto simp: sh3_def good_def same_def)
qed

lemma main_loop_lines:
  assumes "\<forall>ls. quiet_os OS (\<lambda>w. J w \<and> N w = ls) hist pend st" and "file_os OS J N hist pend"
  shows "good J sh \<Longrightarrow> N (world sh) = map line_text scs \<Longrightarrow> list_all fine_line scs
    \<Longrightarrow> \<exists>sh'. main_loop OS True [] np vars sh = Some (vars, sh') \<and> hist (world sh') = hist (world sh) @ concat (map (line_runs st) scs)"
proof (induction scs arbitrary: sh np)
  case Nil
  then have J: "J (world sh)" by (simp add: good_def)
  show ?case
  proof (cases "os_feof OS (world sh)")
    case True
    then show ?thesis by (subst main_loop.simps) simp
  next
    case False
    obtain w1 where f: "os_fgets OS BUFSIZ (world sh) = (Got_eof, w1)" "same J hist pend (world sh) w1"
      using file_laws(2) [OF assms(2) J] Nil by auto
    then show ?thesis using False by (subst main_loop.simps) (simp add: read_more_def get_world_def same_def)
  qed
next
  case (Cons sc scs)
  have N: "N (world sh) = line_text sc # map line_text scs" and fl: "fine_line sc" using Cons.prems(2,3) by simp_all
  obtain sh1 where 1: "main_loop OS True [] np vars sh = main_loop OS True [] True vars sh1" "good J sh1"
      "N (world sh1) = map line_text scs" "hist (world sh1) = hist (world sh) @ line_runs st sc"
    using main_loop_line [OF assms Cons.prems(1) N fl] by blast
  obtain sh2 where "main_loop OS True [] True vars sh1 = Some (vars, sh2)"
      "hist (world sh2) = hist (world sh1) @ concat (map (line_runs st) scs)"
    using Cons.IH [OF 1(2,3)] Cons.prems(3) by auto
  then show ?case using 1(1,4) by auto
qed

text \<open>C5: with a file whose lines are foreground and-or chains of quoted commands without \<open>cd\<close> (\<open>fine_line\<close>), on a system where
  nothing else happens (\<open>quiet_os\<close>), the shell reads its file to the end and returns, having started exactly the commands of
  its lines' reference semantics, line after line.\<close>

theorem shell_runs_file:
  assumes "\<forall>ls. quiet_os OS (\<lambda>w. J w \<and> N w = ls) hist pend st" and "file_os OS J N hist pend"
    and "good J sh" and "N (world sh) = map line_text scs" and "list_all fine_line scs"
  shows "\<exists>sh'. main_loop OS True [] True vars sh = Some (vars, sh') \<and> hist (world sh') = hist (world sh) @ concat (map (line_runs st) scs)"
  by (rule main_loop_lines [OF assms])

lemma tape_quiet_file: "\<forall>ls. quiet_os (tape_os 7 st) (\<lambda>w. True \<and> tape_in w = ls) tape_log (\<lambda>w _. st (last (tape_log w))) st"
  by (simp add: quiet_os_def tape_os_def same_def)

lemma tape_file: "file_os (tape_os 7 st) (\<lambda>_. True) tape_in tape_log (\<lambda>w _. st (last (tape_log w)))"
  by (auto simp: file_os_def tape_os_def same_def tape_fgets_def)

lemma shell_runs_file_witness:
  "\<exists>sh'. main_loop (tape_os 7 (\<lambda>a. if a = [''false''] then 0x100 else 0)) True [] True (\<lambda>_. None)
       (tape_shell [line_text [(demo_chain, False)], line_text [(demo_chain, False)]] 0) = Some (\<lambda>_. None, sh')
     \<and> tape_log (world sh') = [[''false''], [''b''], [''c''], [''false''], [''b''], [''c'']]"
proof -
  let ?st = "\<lambda>a. if a = [''false''] then 0x100 else (0 :: 32 word)"
  have f: "list_all fine_line [[(demo_chain, False)], [(demo_chain, False)]]"
    by (simp add: fine_line_def demo_fine line_text_def script_text_def)
      (simp add: demo_chain_def chain_text_def pipe_text_def cmd_text_def op_text_def sh_quote_def)
  have "line_runs ?st [(demo_chain, False)] = [[''false''], [''b''], [''c'']]"
    by (simp add: line_runs_def chain_runs_def demo_chain_def pipe_argvs_def pipe_ok_def argv_def then_pipe_def succeeded_def WIFEXITED_def WEXITSTATUS_def)
  then show ?thesis
    using shell_runs_file [OF tape_quiet_file [of ?st] tape_file [of ?st] tape_good
        [of "[line_text [(demo_chain, False)], line_text [(demo_chain, False)]]" 0] _ f, of "\<lambda>_. None"]
    by (auto simp: tape_shell_def)
qed

section \<open>Where the shell leaves the semantics\<close>

text \<open>The end of the input without a newline is dropped: what \<open>fgets\<close> returned last is never
  parsed or run when it does not end a line.\<close>

theorem unfinished_line_dropped:
  assumes "\<not> os_feof OS (world sh)" and "os_fgets OS BUFSIZ (world sh) = (Got s, w1)" and "NUL \<notin> set s"
    and "length s < BUFSIZ - 1" and "CHR 0x0A \<notin> set s" and "os_reap OS w1 = (p, w2)" and "p \<le> 0" and "os_feof OS w2"
  shows "main_loop OS True [] np vars sh = Some (vars, sh\<lparr>world := w2\<rparr>)"
proof -
  have r: "read_more OS [] sh = (Some s, sh\<lparr>world := w1\<rparr>)"
    by (simp add: read_more_def get_world_def assms(2) cstr_id [OF assms(3)])
  have z: "reap_zombies OS (sh\<lparr>world := w1\<rparr>) = Some (sh\<lparr>world := w2\<rparr>)"
    by (rule reap_none [OF _ assms(7)]) (simp add: get_world_def assms(6))
  have "\<not> line_complete s" using assms(4,5) last_in_set [of s] by (auto simp: line_complete_def simp del: last_in_set)
  then have "main_loop OS True [] np vars sh = main_loop OS True s np vars (sh\<lparr>world := w2\<rparr>)"
    using assms(1) by (subst main_loop.simps) (simp add: r z)
  also have "\<dots> = Some (vars, sh\<lparr>world := w2\<rparr>)"
    using assms(8) by (subst main_loop.simps) simp
  finally show ?thesis .
qed

lemma unfinished_line_dropped_witness:
  "main_loop (tape_os 7 (\<lambda>_. 0)) True [] True (\<lambda>_. None) (tape_shell [''reboot''] 0) = Some (\<lambda>_. None, tape_shell [] 0)"
  using unfinished_line_dropped [of "tape_os 7 (\<lambda>_. 0)" "tape_shell [''reboot''] 0" "''reboot''" "world (tape_shell [] 0)" "-1" "world (tape_shell [] 0)" True "\<lambda>_. None"]
  by (simp add: tape_shell_def tape_os_def tape_fgets_def)

text \<open>One command alone in a foreground pipeline, with a pipeline after it.\<close>

definition lone_command :: "conditional \<Rightarrow> pipeline \<Rightarrow> pipeline \<Rightarrow> command \<Rightarrow> 32 word \<Rightarrow> rstate" where
  "lone_command c p q k stat = \<lparr>conds = [c], pipes = [p, q], passed = [], cmds = [k], run = True, status = stat, pgid = 0, parent = True\<rparr>"

definition no_signals :: "'w shell_os \<Rightarrow> bool" where
  "no_signals OS \<longleftrightarrow> (\<forall>w. os_sigint OS w = (False, w))"

lemma check_no_signals: "no_signals OS \<Longrightarrow> \<not> interrupted sh \<Longrightarrow> check_interrupt OS bg sh = (False, sh)"
  by (simp add: no_signals_def check_interrupt_def get_world_def)

lemma spawn_foreground: "\<not> is_background c \<Longrightarrow> spawn OS g (c # cs) sh = (c # cs, sh)"
  by simp

text \<open>A command whose process cannot be created counts as successful: the shell does not exit
  with an error but goes on to the next pipeline exactly if it follows \<open>&&\<close>.\<close>

theorem fork_failure_succeeds:
  assumes "no_signals OS" and "\<forall>ch w. fst (os_fork OS ch w) = -1"
    and "\<not> interrupted sh" and "\<not> is_background c" and "plain k" and "read_fd k = -1"
  shows "\<exists>s' sh'. run_step OS (lone_command c p q k 0) sh = Some (Continue s', sh')
     \<and> run s' = (\<not> next_is_or p) \<and> cmds s' = commands q"
proof -
  define k0 where "k0 = k\<lparr>cpgid := 0\<rparr>"
  have k0: "args k0 \<noteq> []" "\<not> is_cd k0" "\<not> is_variable_def k0" "cpid k0 = -1" "read_fd k0 = -1" "cpgid k0 = 0"
    using assms(5,6) by (simp_all add: plain_def k0_def)
  obtain w1 where f: "os_fork OS (Cmd (child_acts k0 None False)) (world sh) = (-1, w1)"
    using assms(2) by (cases "os_fork OS (Cmd (child_acts k0 None False)) (world sh)") (metis fst_conv)
  define sh2 where "sh2 = on_world (os_setpgid OS (-1) 0) (sh\<lparr>world := w1\<rparr>)"
  define k1 where "k1 = k0\<lparr>cpgid := -1, cpid := -1\<rparr>"
  have k1: "read_fd k1 = -1" "cpid k1 = -1" "\<not> is_cd k1" "cpgid k1 = -1" using k0 by (simp_all add: k1_def)
  have i2: "\<not> interrupted sh2" using assms(3) by (simp add: sh2_def on_world_def)
  have "fork_command OS False k0 [] None sh = (k1, [], sh2)"
    using k0(6) by (simp add: fork_command_def get_world_def f sh2_def k1_def)
  then have run: "command_run OS False k0 [] sh = Some (k1, [], sh2)"
    using k0 by (simp add: command_run_def make_pipe_def)
  have "args k \<noteq> []" using assms(5) by (simp add: plain_def)
  then have "run_current OS (lone_command c p q k 0) sh = Some (Some ((lone_command c p q k 0)\<lparr>cmds := [k1], pgid := -1\<rparr>), sh2)"
    using run k1 by (simp add: run_current_def lone_command_def check_no_signals [OF assms(1,3)] check_no_signals [OF assms(1) i2]
      k0_def [symmetric])
  then have "run_step OS (lone_command c p q k 0) sh = finish_command OS ((lone_command c p q k 0)\<lparr>cmds := [k1], pgid := -1\<rparr>) sh2"
    using assms(4) by (simp add: run_step_def lone_command_def check_no_signals [OF assms(1,3)])
  then show ?thesis
    using k1 by (simp add: finish_command_def end_pipeline_def await_def next_pipeline_def lone_command_def close_read_ends_def
      succeeded_def WIFEXITED_def WEXITSTATUS_def)
qed

definition ls_command :: command where
  "ls_command = new_command\<lparr>args := [''ls'']\<rparr>"

lemma fork_failure_succeeds_witness:
  "\<exists>s' sh'. run_step (tape_os (-1) (\<lambda>_. 0)) (lone_command new_conditional (new_pipeline\<lparr>next_is_or := True\<rparr>) new_pipeline ls_command 0)
       (tape_shell [] 0) = Some (Continue s', sh') \<and> \<not> run s'"
proof -
  have "no_signals (tape_os (-1) (\<lambda>_. 0))" "\<forall>ch w. fst (os_fork (tape_os (-1) (\<lambda>_. 0)) ch w) = -1" "\<not> interrupted (tape_shell [] 0)"
    "\<not> is_background new_conditional" "plain ls_command" "read_fd ls_command = -1"
    by (simp_all add: no_signals_def tape_os_def tape_shell_def plain_def ls_command_def new_command_def new_conditional_def)
  from fork_failure_succeeds [OF this, of "new_pipeline\<lparr>next_is_or := True\<rparr>" new_pipeline] show ?thesis by fastforce
qed

text \<open>The status of \<open>cd\<close> is whatever \<open>errno\<close> was: a successful \<open>chdir\<close> leaves it alone, so
  after any earlier failed call (the shell's own \<open>waitpid\<close> with no children left, say) \<open>cd d && q\<close>
  does not run \<open>q\<close> although the directory was changed, and with \<open>||\<close> it does. A \<open>cd\<close> without a
  directory reads past the end of its arguments.\<close>

theorem cd_status_is_errno:
  assumes "no_signals OS" and "\<forall>d w. os_errno OS (os_chdir OS d w) = os_errno OS w"
    and "\<not> interrupted sh" and "\<not> is_background c" and "is_cd k" and "\<not> is_variable_def k" and "cpid k = -1" and "read_fd k = -1"
  shows "(1 < length (args k) \<longrightarrow> (\<exists>s'. run_step OS (lone_command c p q k 0) sh
           = Some (Continue s', on_world (os_chdir OS (args k ! 1)) sh)
         \<and> run s' = ((os_errno OS (world sh) = 0) \<noteq> next_is_or p) \<and> cmds s' = commands q))
     \<and> (length (args k) = 1 \<longrightarrow> run_step OS (lone_command c p q k 0) sh = None)"
proof -
  define k0 where "k0 = k\<lparr>cpgid := 0\<rparr>"
  have k0: "is_cd k0" "\<not> is_variable_def k0" "cpid k0 = -1" "read_fd k0 = -1" "cpgid k0 = 0" "args k0 = args k"
    using assms(5-8) by (simp_all add: k0_def)
  define sh2 where "sh2 = on_world (os_chdir OS (args k ! 1)) sh"
  have i2: "\<not> interrupted sh2" and e2: "os_errno OS (world sh2) = os_errno OS (world sh)"
    using assms(2,3) by (simp_all add: sh2_def on_world_def)
  have run: "command_run OS False k0 [] sh = (if args k = [] then None else if 1 < length (args k) then Some (k0, [], sh2) else None)"
    using k0 by (simp add: command_run_def make_pipe_def sh2_def)
  have step: "run_step OS (lone_command c p q k 0) sh = (case run_current OS (lone_command c p q k 0) sh of None \<Rightarrow> None
       | Some (None, sh3) \<Rightarrow> Some (Return, sh3) | Some (Some s2, sh3) \<Rightarrow> finish_command OS s2 sh3)"
    using assms(4) by (cases "run_current OS (lone_command c p q k 0) sh")
      (auto simp: run_step_def check_no_signals [OF assms(1,3)], simp_all add: lone_command_def)
  have "\<exists>s'. run_step OS (lone_command c p q k 0) sh = Some (Continue s', sh2)
       \<and> run s' = ((os_errno OS (world sh) = 0) \<noteq> next_is_or p) \<and> cmds s' = commands q" if l: "1 < length (args k)"
  proof -
    have ne: "args k \<noteq> []" using l by auto
    then have "run_current OS (lone_command c p q k 0) sh
        = Some (Some ((lone_command c p q k 0)\<lparr>cmds := [k0], pgid := 0, status := (if os_errno OS (world sh) \<noteq> 0 then 1 else 0)\<rparr>), sh2)"
      using run k0 e2 l by (simp add: run_current_def lone_command_def check_no_signals [OF assms(1,3)] check_no_signals [OF assms(1) i2]
        k0_def [symmetric])
    then show ?thesis
      using k0 unfolding step by (simp add: finish_command_def end_pipeline_def await_def next_pipeline_def lone_command_def
        close_read_ends_def succeeded_def WIFEXITED_def WEXITSTATUS_def)
  qed
  moreover have "run_step OS (lone_command c p q k 0) sh = None" if l: "length (args k) = 1"
  proof -
    have "args k \<noteq> []" using l by auto
    then show ?thesis using run l unfolding step
      by (simp add: run_current_def lone_command_def check_no_signals [OF assms(1,3)] k0_def [symmetric])
  qed
  ultimately show ?thesis unfolding sh2_def by blast
qed

definition cd_command :: command where
  "cd_command = new_command\<lparr>args := [''cd'', ''x''], is_cd := True\<rparr>"

lemma cd_status_is_errno_witness:
  "\<exists>s' sh'. run_step (tape_os 7 (\<lambda>_. 0)) (lone_command new_conditional new_pipeline new_pipeline cd_command 0)
       (tape_shell [] 10) = Some (Continue s', sh') \<and> \<not> run s'"
proof -
  have "no_signals (tape_os 7 (\<lambda>_. 0))" "\<forall>d w. os_errno (tape_os 7 (\<lambda>_. 0)) (os_chdir (tape_os 7 (\<lambda>_. 0)) d w) = os_errno (tape_os 7 (\<lambda>_. 0)) w"
    "\<not> interrupted (tape_shell [] 10)" "\<not> is_background new_conditional" "is_cd cd_command" "\<not> is_variable_def cd_command"
    "cpid cd_command = -1" "read_fd cd_command = -1"
    by (simp_all add: no_signals_def tape_os_def tape_shell_def cd_command_def new_command_def new_conditional_def)
  from cd_status_is_errno [OF this, of new_pipeline new_pipeline] show ?thesis
    by (auto simp: cd_command_def tape_os_def tape_shell_def new_pipeline_def)
qed

end
