(* ===== verification/WMem.thy ===== *)
theory WMem
  imports Prelude
begin

text \<open>
  The memory and string functions of \<open>src/pset3/lib.cc\<close>, which the kernel and its programs use
  instead of the C library. Memory maps addresses to bytes; objects do not reach the end of the
  address space, so addresses are natural numbers. A function that reads memory until it meets
  some byte is a \<open>partial_function\<close>: \<open>None\<close> is a run past the end of the address space.
\<close>

type_synonym wmem = "nat \<Rightarrow> u8"

section \<open>Blocks\<close>

fun lib_memcpy :: "nat \<Rightarrow> nat \<Rightarrow> nat \<Rightarrow> wmem \<Rightarrow> wmem" where
  "lib_memcpy d s 0 m = m"
| "lib_memcpy d s (Suc n) m = lib_memcpy (d + 1) (s + 1) n (m(d := m s))"

text \<open>The loop of \<open>memmove\<close> that goes down.\<close>

fun move_down :: "nat \<Rightarrow> nat \<Rightarrow> nat \<Rightarrow> wmem \<Rightarrow> wmem" where
  "move_down d s 0 m = m"
| "move_down d s (Suc n) m = move_down (d - 1) (s - 1) n (m(d - 1 := m (s - 1)))"

definition memmove :: "nat \<Rightarrow> nat \<Rightarrow> nat \<Rightarrow> wmem \<Rightarrow> wmem" where
  "memmove d s n m = (if s < d \<and> s + n > d then move_down (d + n) (s + n) n m else lib_memcpy d s n m)"

fun lib_memset :: "nat \<Rightarrow> u8 \<Rightarrow> nat \<Rightarrow> wmem \<Rightarrow> wmem" where
  "lib_memset p c 0 m = m"
| "lib_memset p c (Suc n) m = lib_memset (p + 1) c n (m(p := c))"

definition compare_bytes :: "u8 \<Rightarrow> u8 \<Rightarrow> int" where
  "compare_bytes a b = of_bool (a > b) - of_bool (a < b)"

fun memcmp :: "wmem \<Rightarrow> nat \<Rightarrow> nat \<Rightarrow> nat \<Rightarrow> int" where
  "memcmp m a b 0 = 0"
| "memcmp m a b (Suc n) = (if m a \<noteq> m b then compare_bytes (m a) (m b) else memcmp m (a + 1) (b + 1) n)"

fun memchr :: "wmem \<Rightarrow> nat \<Rightarrow> u8 \<Rightarrow> nat \<Rightarrow> nat option" where
  "memchr m s c 0 = None"
| "memchr m s c (Suc n) = (if m s = c then Some s else memchr m (s + 1) c n)"

section \<open>Strings\<close>

partial_function (option) strlen_loop :: "wmem \<Rightarrow> nat \<Rightarrow> nat \<Rightarrow> nat option" where
  "strlen_loop m s n = (if m s \<noteq> 0 then strlen_loop m (s + 1) (n + 1) else Some n)"

definition strlen :: "wmem \<Rightarrow> nat \<Rightarrow> nat option" where
  "strlen m s = strlen_loop m s 0"

fun strnlen :: "wmem \<Rightarrow> nat \<Rightarrow> nat \<Rightarrow> nat" where
  "strnlen m s 0 = 0"
| "strnlen m s (Suc maxlen) = (if m s \<noteq> 0 then Suc (strnlen m (s + 1) maxlen) else 0)"

partial_function (option) strcpy :: "nat \<Rightarrow> nat \<Rightarrow> wmem \<Rightarrow> wmem option" where
  "strcpy d s m = (let m = m(d := m s) in if m d \<noteq> 0 then strcpy (d + 1) (s + 1) m else Some m)"

fun strncpy :: "nat \<Rightarrow> nat \<Rightarrow> nat \<Rightarrow> wmem \<Rightarrow> wmem" where
  "strncpy d s 0 m = m"
| "strncpy d s (Suc maxlen) m = (if m s \<noteq> 0 then strncpy (d + 1) (s + 1) maxlen (m(d := m s)) else lib_memset d 0 (Suc maxlen) m)"

definition strlcpy :: "nat \<Rightarrow> nat \<Rightarrow> nat \<Rightarrow> wmem \<Rightarrow> (nat \<times> wmem) option" where
  "strlcpy d s maxlen m = do {
     n \<leftarrow> strlen m s;
     Some (n, if maxlen \<noteq> 0 then (let nn = (if n > maxlen - 1 then maxlen - 1 else n) in (lib_memcpy d s nn m)(d + nn := 0)) else m) }"

partial_function (option) strcmp :: "wmem \<Rightarrow> nat \<Rightarrow> nat \<Rightarrow> int option" where
  "strcmp m a b = (let ac = m a; bc = m b in
     if ac = 0 \<or> bc = 0 \<or> ac \<noteq> bc then Some (compare_bytes ac bc) else strcmp m (a + 1) (b + 1))"

fun strncmp :: "wmem \<Rightarrow> nat \<Rightarrow> nat \<Rightarrow> nat \<Rightarrow> int" where
  "strncmp m a b 0 = 0"
| "strncmp m a b (Suc n) = (let ac = m a; bc = m b in
     if ac = 0 \<or> bc = 0 \<or> ac \<noteq> bc then compare_bytes ac bc else strncmp m (a + 1) (b + 1) n)"

definition isupper :: "u8 \<Rightarrow> bool" where "isupper c \<longleftrightarrow> c - 65 < 26"
definition tolower :: "u8 \<Rightarrow> u8" where "tolower c = (if isupper c then c + 97 - 65 else c)"

partial_function (option) strcasecmp :: "wmem \<Rightarrow> nat \<Rightarrow> nat \<Rightarrow> int option" where
  "strcasecmp m a b = (let ac = tolower (m a); bc = tolower (m b) in
     if ac = 0 \<or> bc = 0 \<or> ac \<noteq> bc then Some (compare_bytes ac bc) else strcasecmp m (a + 1) (b + 1))"

fun strncasecmp :: "wmem \<Rightarrow> nat \<Rightarrow> nat \<Rightarrow> nat \<Rightarrow> int" where
  "strncasecmp m a b 0 = 0"
| "strncasecmp m a b (Suc n) = (let ac = tolower (m a); bc = tolower (m b) in
     if ac = 0 \<or> bc = 0 \<or> ac \<noteq> bc then compare_bytes ac bc else strncasecmp m (a + 1) (b + 1) n)"

text \<open>\<open>Some None\<close> is a null pointer.\<close>

partial_function (option) strchr :: "wmem \<Rightarrow> nat \<Rightarrow> u8 \<Rightarrow> nat option option" where
  "strchr m s c = (if m s \<noteq> 0 \<and> m s \<noteq> c then strchr m (s + 1) c else Some (if m s = c then Some s else None))"

partial_function (option) strstr_loop :: "wmem \<Rightarrow> nat \<Rightarrow> nat \<Rightarrow> nat \<Rightarrow> nat \<Rightarrow> nat option option" where
  "strstr_loop m hs ns i j = (if m (hs + i) \<noteq> 0 \<and> m (ns + j) \<noteq> 0 then
       (if m (hs + i + j) = m (ns + j) then strstr_loop m hs ns i (j + 1) else strstr_loop m hs ns (i + 1) 0)
     else Some (if m (ns + j) = 0 then Some (hs + i) else None))"

definition strstr :: "wmem \<Rightarrow> nat \<Rightarrow> nat \<Rightarrow> nat option option" where
  "strstr m hs ns = strstr_loop m hs ns 0 0"

section \<open>Copying\<close>

lemma memcpy_up: "d \<le> s \<or> s + n \<le> d \<Longrightarrow> lib_memcpy d s n m x = (if d \<le> x \<and> x < d + n then m (s + (x - d)) else m x)"
proof (induction d s n m rule: lib_memcpy.induct)
  case (2 d s n m)
  have c: "d + 1 \<le> s + 1 \<or> s + 1 + n \<le> d + 1" using 2(2) by auto
  have e: "Suc (s + x - Suc d) = s + x - d" if "Suc d \<le> x" using that by simp
  show ?case using 2(1) [OF c] 2(2) e by (auto simp: fun_upd_def Suc_diff_le)
qed auto

lemma move_down_eq: "n \<le> s \<Longrightarrow> n \<le> d \<Longrightarrow> s \<le> d \<Longrightarrow>
  move_down d s n m x = (if d - n \<le> x \<and> x < d then m (s - (d - x)) else m x)"
proof (induction d s n m rule: move_down.induct)
  case (2 d s n m)
  have c: "n \<le> s - 1" "n \<le> d - 1" "s - 1 \<le> d - 1" using 2(2-4) by auto
  have "d - 1 \<noteq> s - 1 - (d - 1 - x)" if "x < d - 1" using that 2(2-4) by auto
  moreover have "s - 1 - (d - 1 - x) = s - (d - x)" if "x < d - 1" using that by auto
  ultimately show ?case using 2(1) [OF c] 2(2-4) by (auto simp: fun_upd_def)
qed auto

text \<open>\<open>memmove\<close> copies as if through a temporary buffer, wherever source and destination lie;
  \<open>lib_memcpy\<close> agrees with it unless the destination starts inside the source.\<close>

theorem memmove_copies:
  "memmove d s n m = (\<lambda>x. if d \<le> x \<and> x < d + n then m (s + (x - d)) else m x)
    \<and> (lib_memcpy d s n m = memmove d s n m \<or> s < d \<and> d < s + n)"
proof
  show e: "memmove d s n m = (\<lambda>x. if d \<le> x \<and> x < d + n then m (s + (x - d)) else m x)"
  proof
    fix x
    show "memmove d s n m x = (if d \<le> x \<and> x < d + n then m (s + (x - d)) else m x)"
    proof (cases "s < d \<and> s + n > d")
      case True
      have "s + n - (d + n - x) = s + (x - d)" if "d \<le> x" "x < d + n" using that by auto
      then show ?thesis using True move_down_eq [of n "s + n" "d + n" m x] by (auto simp: memmove_def)
    next
      case False
      then show ?thesis using memcpy_up [of d s n m x] by (auto simp: memmove_def)
    qed
  qed
  show "lib_memcpy d s n m = memmove d s n m \<or> s < d \<and> d < s + n" by (auto simp: memmove_def)
qed

lemma memset_eq: "lib_memset p c n m x = (if p \<le> x \<and> x < p + n then c else m x)"
  by (induction p c n m rule: lib_memset.induct) (auto simp: fun_upd_def)

section \<open>Strings in memory\<close>

text \<open>The string at an address.\<close>

definition c_string :: "wmem \<Rightarrow> nat \<Rightarrow> u8 list \<Rightarrow> bool" where
  "c_string m a s \<longleftrightarrow> (\<forall>i < length s. m (a + i) = s ! i) \<and> m (a + length s) = 0 \<and> 0 \<notin> set s"

lemma cstr_Nil [simp]: "c_string m a [] \<longleftrightarrow> m a = 0"
  by (simp add: c_string_def)

lemma cstr_Cons [simp]: "c_string m a (c # s) \<longleftrightarrow> m a = c \<and> c \<noteq> 0 \<and> c_string m (Suc a) s"
  by (auto simp: c_string_def nth_Cons less_Suc_eq_0_disj split: nat.splits)

lemma cstr_nth: "c_string m a s \<Longrightarrow> i < length s \<Longrightarrow> m (a + i) = s ! i \<and> s ! i \<noteq> 0"
  by (metis c_string_def nth_mem)

lemma cstr_end: "c_string m a s \<Longrightarrow> m (a + length s) = 0"
  by (simp add: c_string_def)

lemma strlen_loop_eq: "c_string m a s \<Longrightarrow> strlen_loop m a n = Some (n + length s)"
  by (induction s arbitrary: a n) (subst strlen_loop.simps; simp)+

lemma strlen_eq [simp]: "c_string m a s \<Longrightarrow> strlen m a = Some (length s)"
  by (simp add: strlen_def strlen_loop_eq)

section \<open>Comparing\<close>

text \<open>The order of dictionaries.\<close>

definition lex_compare :: "u8 list \<Rightarrow> u8 list \<Rightarrow> int" where
  "lex_compare s t = (if s = t then 0 else if ord_class.lexordp s t then -1 else 1)"

lemma lex_compare_Nil: "lex_compare [] t = (if t = [] then 0 else -1)" "lex_compare (x # s) [] = 1"
  by (cases t; simp add: lex_compare_def)+

lemma lex_compare_Cons: "lex_compare (x # s) (y # t) = (if x \<noteq> y then compare_bytes x y else lex_compare s t)"
  by (auto simp: lex_compare_def compare_bytes_def not_less)

lemma compare_zero: "compare_bytes x 0 = (if x = 0 then 0 else 1)" "compare_bytes 0 x = (if x = 0 then 0 else -1)"
  by (auto simp: compare_bytes_def word_greater_zero_iff)

lemma strcmp_eq: "c_string m a s \<Longrightarrow> c_string m b t \<Longrightarrow> strcmp m a b = Some (lex_compare s t)"
proof (induction s arbitrary: a b t)
  case Nil
  then show ?case by (subst strcmp.simps) (cases t; simp add: lex_compare_Nil compare_zero Let_def)
next
  case (Cons x s)
  show ?case
  proof (cases t)
    case Nil
    then show ?thesis using Cons.prems by (subst strcmp.simps) (simp add: lex_compare_Nil compare_zero Let_def)
  next
    case (Cons y t')
    then show ?thesis using Cons.prems Cons.IH [of "Suc a" "Suc b" t']
      by (subst strcmp.simps) (simp add: lex_compare_Cons Let_def)
  qed
qed

lemma strncmp_eq: "c_string m a s \<Longrightarrow> c_string m b t \<Longrightarrow> strncmp m a b n = lex_compare (take n s) (take n t)"
proof (induction n arbitrary: a b s t)
  case (Suc n)
  show ?case
  proof (cases s)
    case Nil
    then show ?thesis using Suc.prems by (cases t) (simp_all add: lex_compare_Nil compare_zero Let_def)
  next
    case s: (Cons x s')
    show ?thesis
    proof (cases t)
      case Nil
      then show ?thesis using Suc.prems s by (simp add: lex_compare_Nil compare_zero Let_def)
    next
      case (Cons y t')
      then show ?thesis using Suc.prems s Suc.IH [of "Suc a" s' "Suc b" t'] by (simp add: lex_compare_Cons Let_def)
    qed
  qed
qed (simp add: lex_compare_def)

text \<open>\<open>strcmp\<close> and \<open>strncmp\<close> compare in the order of dictionaries, by unsigned bytes, and
  \<open>strcmp\<close> never runs past the end of its arguments.\<close>

theorem strcmp_lexicographic:
  assumes "c_string m a s" and "c_string m b t"
  shows "strcmp m a b = Some (lex_compare s t) \<and> (\<forall>n. strncmp m a b n = lex_compare (take n s) (take n t))"
  using strcmp_eq [OF assms] strncmp_eq [OF assms] by blast

definition demo_text :: wmem where
  "demo_text = (\<lambda>x. if x = 10 then 97 else if x = 11 then 98 else if x = 20 then 97 else if x = 21 then 200 else 0)"

lemma strcmp_lexicographic_witness:
  "strcmp demo_text 10 20 = Some (-1) \<and> strncmp demo_text 10 20 1 = 0 \<and> strncmp demo_text 10 20 5 = -1"
proof -
  have c: "c_string demo_text 10 [97, 98]" "c_string demo_text 20 [97, 200]" by (simp_all add: demo_text_def)
  have l: "lex_compare [97, 98] [97, 200] = -1" "lex_compare (take 1 [97, 98]) (take 1 [97, 200]) = 0"
    "lex_compare (take 5 [97, 98]) (take 5 [97, 200]) = -1"
    by (simp_all add: lex_compare_def)
  show ?thesis using strcmp_lexicographic [OF c] l by metis
qed

section \<open>Searching\<close>

definition occurs :: "u8 list \<Rightarrow> u8 list \<Rightarrow> nat \<Rightarrow> bool" where
  "occurs h n i \<longleftrightarrow> take (length n) (drop i h) = n"

lemma occurs_length: "occurs h n i \<Longrightarrow> n \<noteq> [] \<Longrightarrow> i + length n \<le> length h"
proof -
  assume o: "occurs h n i" and n: "n \<noteq> []"
  have "length (take (length n) (drop i h)) = length n" using o by (simp add: occurs_def)
  then show ?thesis using n by (cases "i \<le> length h") auto
qed

lemma strstr_loop_eq:
  assumes "c_string m hs h" and "c_string m ns n" and "i \<le> length h" and "j \<le> length n"
    and "take j (drop i h) = take j n" and "\<forall>i' < i. \<not> occurs h n i'"
  shows "strstr_loop m hs ns i j = Some (if \<exists>k \<le> length h. occurs h n k
    then Some (hs + (LEAST k. occurs h n k)) else None)"
  using assms(3-6)
proof (induction "(length h - i, length n - j)" arbitrary: i j rule: wf_induct_rule [OF wf_lex_prod [OF wf_less_than wf_less_than]])
  case 1
  note IH = 1(1) and p = 1(2-5)
  have j: "m (ns + j) = 0 \<longleftrightarrow> j = length n" using cstr_nth [OF assms(2), of j] cstr_end [OF assms(2)] p(2) by (cases "j = length n") auto
  have i: "m (hs + i) = 0 \<longleftrightarrow> i = length h" using cstr_nth [OF assms(1), of i] cstr_end [OF assms(1)] p(1) by (cases "i = length h") auto
  consider (found) "j = length n" | (over) "j < length n" "i = length h" | (go) "j < length n" "i < length h"
    using p(1,2) by linarith
  then show ?case
  proof cases
    case found
    then have o: "occurs h n i" using p(3) by (simp add: occurs_def)
    have "(LEAST k. occurs h n k) = i"
    proof (rule Least_equality [where P = "occurs h n", OF o])
      fix y
      assume "occurs h n y"
      then show "i \<le> y" using p(4) by (meson not_le)
    qed
    then show ?thesis using found j o p(1) by (subst strstr_loop.simps) auto
  next
    case over
    have "\<not> occurs h n k" for k
    proof (cases "k < i")
      case False
      have "n \<noteq> []" using over(1) by auto
      then show ?thesis using occurs_length [of h n k] over False by (cases "n = []") auto
    qed (use p(4) in blast)
    then show ?thesis using over i j by (subst strstr_loop.simps) auto
  next
    case go
    have ns: "m (ns + j) = n ! j" using cstr_nth [OF assms(2) go(1)] by simp
    have tk: "i + j \<le> length h"
    proof -
      have "length (take j (drop i h)) = j" unfolding p(3) using go(1) by simp
      then show ?thesis using go(2) by simp
    qed
    show ?thesis
    proof (cases "m (hs + i + j) = m (ns + j)")
      case True
      have "i + j \<noteq> length h" using True ns cstr_nth [OF assms(2) go(1)] cstr_end [OF assms(1)] by (metis add.assoc)
      then have lt: "i + j < length h" using tk by simp
      have "h ! (i + j) = n ! j" using cstr_nth [OF assms(1) lt] True ns by (simp add: add.assoc)
      then have t: "take (Suc j) (drop i h) = take (Suc j) n"
        using p(3) lt go(1) by (simp add: take_Suc_conv_app_nth)
      have "strstr_loop m hs ns i j = strstr_loop m hs ns i (j + 1)" using True go i j by (subst strstr_loop.simps) simp
      also have "\<dots> = Some (if \<exists>k \<le> length h. occurs h n k then Some (hs + (LEAST k. occurs h n k)) else None)"
        by (rule IH) (use go t p in auto)
      finally show ?thesis .
    next
      case False
      have no: "\<not> occurs h n i"
      proof
        assume o: "occurs h n i"
        have "n \<noteq> []" using go(1) by auto
        then have "i + j < length h" using occurs_length [OF o] go(1) by simp
        moreover have "take (length n) (drop i h) ! j = n ! j" using o by (simp add: occurs_def)
        ultimately have "h ! (i + j) = n ! j" using go(1) by simp
        then show False using False ns cstr_nth [OF assms(1), of "i + j"] \<open>i + j < length h\<close> by (simp add: add.assoc)
      qed
      have "strstr_loop m hs ns i j = strstr_loop m hs ns (i + 1) 0" using False go i j by (subst strstr_loop.simps) simp
      also have "\<dots> = Some (if \<exists>k \<le> length h. occurs h n k then Some (hs + (LEAST k. occurs h n k)) else None)"
        by (rule IH) (use go p no in \<open>auto simp: less_Suc_eq\<close>)
      finally show ?thesis .
    qed
  qed
qed

text \<open>\<open>strstr\<close> always returns, and returns the first occurrence of the second string in the
  first, or a null pointer if there is none.\<close>

theorem strstr_first:
  assumes "c_string m hs h" and "c_string m ns n"
  shows "strstr m hs ns = Some (if \<exists>k \<le> length h. occurs h n k then Some (hs + (LEAST k. occurs h n k)) else None)"
  unfolding strstr_def by (rule strstr_loop_eq [OF assms]) simp_all

lemma strstr_first_witness: "strstr demo_text 10 11 = Some (Some 11)"
proof -
  have c: "c_string demo_text 10 [97, 98]" "c_string demo_text 11 [98]" by (simp_all add: demo_text_def)
  have o: "occurs [97, 98] [98] k \<longleftrightarrow> k = 1" for k :: nat
    by (cases k; cases "k - 1") (auto simp: occurs_def)
  show ?thesis using strstr_first [OF c] unfolding o by (auto simp: Least_equality)
qed

end
