(* ===== verification/WNum.thy ===== *)
theory WNum
  imports WMem
begin

text \<open>
  Reading and writing numbers: \<open>from_chars_ulong\<close>, \<open>strtoul\<close>, \<open>strtol\<close> and \<open>print_number\<close> of
  \<open>src/pset3/lib.cc\<close>. A pointer into a string that is only read is the list of the bytes from
  there to the end; an end pointer is the number of bytes before it.
\<close>

section \<open>Reading\<close>

definition E_INVAL :: int where "E_INVAL = -22"
definition E_RANGE :: int where "E_RANGE = -34"

text \<open>The byte under a pointer, as a \<open>char\<close>, which is signed.\<close>

definition signed_char :: "u8 list \<Rightarrow> int" where
  "signed_char s = (case s of [] \<Rightarrow> 0 | c # s \<Rightarrow> sint c)"

definition isspace_c :: "u8 \<Rightarrow> bool" where
  "isspace_c c \<longleftrightarrow> 9 \<le> sint c \<and> sint c \<le> 13 \<or> sint c = 32"

text \<open>The tests on one character of \<open>from_chars_ulong\<close>.\<close>

definition digit_of :: "int \<Rightarrow> u8 \<Rightarrow> u64 option" where
  "digit_of base b = (let c = sint b in
     if 48 \<le> c \<and> c < 48 + base then Some (of_int (c - 48))
     else if 97 \<le> c \<and> c < 97 + base - 10 then Some (of_int (c - 97 + 10))
     else if 65 \<le> c \<and> c < 65 + base - 10 then Some (of_int (c - 65 + 10))
     else None)"

fun from_chars_loop :: "int \<Rightarrow> u8 list \<Rightarrow> u64 \<Rightarrow> bool \<Rightarrow> nat \<Rightarrow> u64 \<times> bool \<times> nat" where
  "from_chars_loop base [] x overflow n = (x, overflow, n)"
| "from_chars_loop base (c # s) x overflow n = (case digit_of base c of
     None \<Rightarrow> (x, overflow, n)
   | Some digit \<Rightarrow>
       if x > (-1 - digit) div of_int base then from_chars_loop base s x True (n + 1)
       else from_chars_loop base s (x * of_int base + digit) overflow (n + 1))"

text \<open>Pointer, error code and value.\<close>

definition from_chars_ulong :: "u8 list \<Rightarrow> u64 \<Rightarrow> int \<Rightarrow> nat \<times> int \<times> u64" where
  "from_chars_ulong s value base = (let (x, overflow, n) = from_chars_loop base s 0 False 0 in
     if n = 0 then (n, E_INVAL, value) else if overflow then (n, E_RANGE, value) else (n, 0, x))"

definition from_chars_long :: "u8 list \<Rightarrow> u64 \<Rightarrow> int \<Rightarrow> nat \<times> int \<times> u64" where
  "from_chars_long s value base = (let negative = (s \<noteq> [] \<and> signed_char s = 45);
       (p, ec, x) = from_chars_ulong (drop (of_bool negative) s) 0 base; p = of_bool negative + p in
     if ec = E_INVAL then (0, E_INVAL, value)
     else if ec = E_RANGE \<or> x > push_bit 63 1 - of_bool (\<not> negative) then (p, E_RANGE, value)
     else (p, 0, if negative then - x else x))"

text \<open>The characters skipped and the base.\<close>

definition strtol_fix_base :: "u8 list \<Rightarrow> int \<Rightarrow> nat \<times> int" where
  "strtol_fix_base t base = (let t0 = signed_char t; t1 = signed_char (drop 1 t) in
     if base = 0 then
       (if t0 = 48 then
          (if t1 = 120 \<or> t1 = 88 then (2, 16)
           else if t1 = 111 \<or> t1 = 79 then (2, 8)
           else if t1 = 98 \<or> t1 = 66 then (2, 2)
           else (0, 8))
        else (0, 10))
     else if base = 16 \<and> t0 = 48 \<and> (t1 = 120 \<or> t1 = 88) then (2, base)
     else (0, base))"

text \<open>White space, sign, prefix and digits: the sign, the characters before and with the digits,
  the error code and the value.\<close>

definition strto_scan :: "u8 list \<Rightarrow> int \<Rightarrow> bool \<times> nat \<times> int \<times> u64" where
  "strto_scan s base = (let
     t = length (takeWhile isspace_c s);
     negative = (signed_char (drop t s) = 45);
     t = t + of_bool (negative \<or> signed_char (drop t s) = 43);
     (skip, base) = strtol_fix_base (drop t s) base;
     t = t + skip;
     (p, ec, x) = from_chars_ulong (drop t s) 0 base
   in (negative, if ec = E_INVAL then 0 else t + p, ec, x))"

definition strtoul :: "u8 list \<Rightarrow> int \<Rightarrow> u64 \<times> nat" where
  "strtoul s base = (let (negative, endptr, ec, x) = strto_scan s base;
     x = (if ec = E_RANGE then -1 else x) in (if negative then - x else x, endptr))"

definition strtol :: "u8 list \<Rightarrow> int \<Rightarrow> u64 \<times> nat" where
  "strtol s base = (let (negative, endptr, ec, x) = strto_scan s base;
     bound = push_bit 63 1 - of_bool (\<not> negative);
     x = (if ec = E_RANGE \<or> x > bound then bound else x) in (if negative then - x else x, endptr))"

section \<open>Writing\<close>

definition FLAG_ALT :: "32 word" where "FLAG_ALT = push_bit 0 1"
definition FLAG_ZERO :: "32 word" where "FLAG_ZERO = push_bit 1 1"
definition FLAG_LEFTJUSTIFY :: "32 word" where "FLAG_LEFTJUSTIFY = push_bit 2 1"
definition FLAG_SPACEPOSITIVE :: "32 word" where "FLAG_SPACEPOSITIVE = push_bit 3 1"
definition FLAG_PLUSPOSITIVE :: "32 word" where "FLAG_PLUSPOSITIVE = push_bit 4 1"
definition FLAG_THOUSANDS :: "32 word" where "FLAG_THOUSANDS = push_bit 5 1"
definition FLAG_NUMERIC :: "32 word" where "FLAG_NUMERIC = push_bit 6 1"
definition FLAG_SIGNED :: "32 word" where "FLAG_SIGNED = push_bit 7 1"
definition FLAG_NEGATIVE :: "32 word" where "FLAG_NEGATIVE = push_bit 8 1"
definition FLAG_ALT2 :: "32 word" where "FLAG_ALT2 = push_bit 9 1"

lemmas flag_defs = FLAG_ALT_def FLAG_ZERO_def FLAG_LEFTJUSTIFY_def FLAG_SPACEPOSITIVE_def FLAG_PLUSPOSITIVE_def
  FLAG_THOUSANDS_def FLAG_NUMERIC_def FLAG_SIGNED_def FLAG_NEGATIVE_def FLAG_ALT2_def

definition upper_digits :: "u8 list" where
  "upper_digits = [48, 49, 50, 51, 52, 53, 54, 55, 56, 57, 65, 66, 67, 68, 69, 70]"

definition lower_digits :: "u8 list" where
  "lower_digits = [48, 49, 50, 51, 52, 53, 54, 55, 56, 57, 97, 98, 99, 100, 101, 102]"

text \<open>The loop of \<open>print_number\<close>, which fills the buffer downwards from \<open>pos\<close>; a write before its
  start is undefined.\<close>

fun print_loop :: "u8 list \<Rightarrow> u64 \<Rightarrow> nat \<Rightarrow> int option \<Rightarrow> u64 \<Rightarrow> u8 list \<Rightarrow> u8 list option" where
  "print_loop digits base 0 thousands_pos val buf = None"
| "print_loop digits base (Suc pos) thousands_pos val buf = (let group = (if base = 10 then 3 else 4);
     (thousands_pos, val, buf) =
       (if Some (int (Suc pos)) = thousands_pos
        then (Some (int pos - group), val, (if base = 10 then 44 else 39) # buf)
        else (thousands_pos, val div base, digits ! unat (val mod base) # buf))
   in if val \<noteq> 0 \<and> pos \<noteq> 0 then print_loop digits base pos thousands_pos val buf else Some buf)"

definition print_number :: "nat \<Rightarrow> u64 \<Rightarrow> int \<Rightarrow> 32 word \<Rightarrow> u8 list option" where
  "print_number sz val base flags = (let
     digits = (if base < 0 then lower_digits else upper_digits);
     base = (if base < 0 then - base else base);
     pos = sz - 1;
     thousands_pos = (if flags AND FLAG_THOUSANDS \<noteq> 0 then Some (int pos - (if base = 10 then 3 else 4)) else None)
   in print_loop digits (of_int base) pos thousands_pos val [])"

section \<open>Digits\<close>

definition digit_char :: "nat \<Rightarrow> u8" where
  "digit_char d = of_nat (if d < 10 then 48 + d else 87 + d)"

definition horner :: "nat \<Rightarrow> nat list \<Rightarrow> nat \<Rightarrow> nat" where
  "horner b ds v = foldl (\<lambda>v d. v * b + d) v ds"

lemma horner_simps [simp]: "horner b [] v = v" "horner b (d # ds) v = horner b ds (v * b + d)"
  by (simp_all add: horner_def)

lemma horner_ge: "1 \<le> b \<Longrightarrow> v \<le> horner b ds v"
proof (induction ds arbitrary: v)
  case (Cons d ds)
  have "v \<le> v * b + d" using Cons.prems by (cases b) simp_all
  also have "\<dots> \<le> horner b ds (v * b + d)" by (rule Cons.IH [OF Cons.prems])
  finally show ?case by simp
qed simp

lemma sint_small_byte: "n < 128 \<Longrightarrow> sint (of_nat n :: u8) = int n"
proof -
  assume n: "n < 128"
  have l: "LENGTH(8) - Suc 0 = 7" by simp
  have "signed_take_bit 7 (int n) = int n" by (rule signed_take_bit_int_eq_self) (use n in simp_all)
  then show ?thesis unfolding signed_of_nat l of_int_eq_id id_apply .
qed

lemma digit_of_char: "d < nat base \<Longrightarrow> base \<le> 36 \<Longrightarrow> digit_of base (digit_char d) = Some (of_nat d)"
proof -
  assume d: "d < nat base" "base \<le> 36"
  have s: "sint (digit_char d) = int (if d < 10 then 48 + d else 87 + d)"
    unfolding digit_char_def by (rule sint_small_byte) (use d in auto)
  show ?thesis using d by (auto simp: digit_of_def s Let_def)
qed

text \<open>The overflow test is exact.\<close>

lemma overflow_test:
  assumes "2 \<le> base" and "base \<le> 36" and "d < nat base"
  shows "(x :: u64) > (-1 - of_nat d) div of_int base \<longleftrightarrow> 2 ^ 64 \<le> unat x * nat base + d"
    and "unat x * nat base + d < 2 ^ 64 \<Longrightarrow> unat (x * of_int base + of_nat d) = unat x * nat base + d"
proof -
  define b where "b = nat base"
  have b: "2 \<le> b" "b \<le> 36" "d < b" using assms by (simp_all add: b_def)
  have wb: "(of_int base :: u64) = of_nat b" using assms(1) by (simp add: b_def)
  have ub: "unat (of_nat b :: u64) = b" "unat (of_nat d :: u64) = d" by (rule unat64_of_nat; use b in simp)+
  have "unat (-1 - of_nat d :: u64) = 2 ^ 64 - 1 - d"
  proof -
    have "(of_nat d :: u64) \<le> -1" by simp
    then have "unat (-1 - of_nat d :: u64) = unat (-1 :: u64) - unat (of_nat d :: u64)" by (rule unat_sub)
    also have "unat (-1 :: u64) = 2 ^ 64 - 1" by (simp add: unsigned_minus_1_eq_mask mask_eq_exp_minus_1)
    finally show ?thesis using ub(2) by simp
  qed
  then have "unat ((-1 - of_nat d) div of_nat b :: u64) = (2 ^ 64 - 1 - d) div b" by (simp add: unat_div ub)
  moreover have "(2 ^ 64 - 1 - d) div b < unat x \<longleftrightarrow> 2 ^ 64 - 1 - d < unat x * b"
    by (rule div_less_iff_less_mult) (use b in simp)
  moreover have "2 ^ 64 - 1 - d < unat x * b \<longleftrightarrow> 2 ^ 64 \<le> unat x * b + d"
  proof -
    have "P - 1 - d < y \<longleftrightarrow> P \<le> y + d" if "d < P" for P y :: nat using that by auto
    from this [of "2 ^ 64"] show ?thesis using b by simp
  qed
  ultimately show "(x :: u64) > (-1 - of_nat d) div of_int base \<longleftrightarrow> 2 ^ 64 \<le> unat x * nat base + d"
    unfolding wb word_less_nat_alt by (simp add: b_def)
  assume l: "unat x * nat base + d < 2 ^ 64"
  have "x * of_int base + of_nat d = of_nat (unat x * b + d)" unfolding wb by simp
  then show "unat (x * of_int base + of_nat d) = unat x * nat base + d"
    using unat64_of_nat [of "unat x * b + d"] l by (simp add: b_def)
qed

lemma from_chars_overflowed:
  assumes "base \<le> 36" and "\<forall>d \<in> set ds. d < nat base" and "rest = [] \<or> digit_of base (hd rest) = None"
  shows "\<exists>x'. from_chars_loop base (map digit_char ds @ rest) x True n = (x', True, n + length ds)"
  using assms(2)
proof (induction ds arbitrary: x n)
  case Nil
  then show ?case using assms(3) by (cases rest) auto
next
  case (Cons d ds)
  have dg: "digit_of base (digit_char d) = Some (of_nat d)" using digit_of_char [of d base] Cons.prems assms(1) by simp
  have IH: "\<exists>x'. from_chars_loop base (map digit_char ds @ rest) y True (Suc n) = (x', True, Suc n + length ds)" for y
    using Cons.IH [of y "Suc n"] Cons.prems by simp
  show ?case using IH dg by simp
qed

lemma from_chars_digits:
  assumes "2 \<le> base" and "base \<le> 36" and "\<forall>d \<in> set ds. d < nat base" and "rest = [] \<or> digit_of base (hd rest) = None"
  shows "\<exists>x'. from_chars_loop base (map digit_char ds @ rest) x False n = (x', 2 ^ 64 \<le> horner (nat base) ds (unat x), n + length ds)
    \<and> (horner (nat base) ds (unat x) < 2 ^ 64 \<longrightarrow> unat x' = horner (nat base) ds (unat x))"
  using assms(3)
proof (induction ds arbitrary: x n)
  case Nil
  have "unat x < 2 ^ 64" using unsigned_less [of x] by simp
  then show ?case using assms(4) by (cases rest) auto
next
  case (Cons d ds)
  have d: "d < nat base" using Cons.prems by simp
  have dg: "digit_of base (digit_char d) = Some (of_nat d)" by (rule digit_of_char [OF d assms(2)])
  note ov = overflow_test [OF assms(1,2) d]
  have ge: "unat x * nat base + d \<le> horner (nat base) ds (unat x * nat base + d)" by (rule horner_ge) (use assms(1) in simp)
  show ?case
  proof (cases "2 ^ 64 \<le> unat x * nat base + d")
    case True
    have big: "2 ^ 64 \<le> horner (nat base) ds (unat x * nat base + d)" by (rule order_trans [OF True ge])
    obtain x' where x': "from_chars_loop base (map digit_char ds @ rest) x True (n + 1) = (x', True, n + 1 + length ds)"
      using from_chars_overflowed [OF assms(2) _ assms(4), of ds x "n + 1"] Cons.prems by auto
    have "from_chars_loop base (map digit_char (d # ds) @ rest) x False n = (x', True, n + 1 + length ds)"
      using dg ov(1) [of x] True x' by simp
    then show ?thesis using big by (simp add: not_less)
  next
    case False
    then have l: "unat x * nat base + d < 2 ^ 64" by simp
    have e: "from_chars_loop base (map digit_char (d # ds) @ rest) x False n
        = from_chars_loop base (map digit_char ds @ rest) (x * of_int base + of_nat d) False (n + 1)"
      using dg ov(1) [of x] False by simp
    show ?thesis unfolding e using Cons.IH [of "x * of_int base + of_nat d" "n + 1"] Cons.prems ov(2) [OF l] by simp
  qed
qed

lemma from_chars_eq:
  assumes "2 \<le> base" and "base \<le> 36" and "\<forall>d \<in> set ds. d < nat base" and "rest = [] \<or> digit_of base (hd rest) = None" and "ds \<noteq> []"
  shows "from_chars_ulong (map digit_char ds @ rest) 0 base = (if 2 ^ 64 \<le> horner (nat base) ds 0 then (length ds, E_RANGE, 0)
    else (length ds, 0, of_nat (horner (nat base) ds 0)))"
proof -
  obtain x' where x': "from_chars_loop base (map digit_char ds @ rest) 0 False 0 = (x', 2 ^ 64 \<le> horner (nat base) ds 0, length ds)"
    "horner (nat base) ds 0 < 2 ^ 64 \<longrightarrow> unat x' = horner (nat base) ds 0"
    using from_chars_digits [OF assms(1-4), of 0 0] by auto
  have "x' = of_nat (horner (nat base) ds 0)" if "horner (nat base) ds 0 < 2 ^ 64"
  proof -
    have h: "horner (nat base) ds 0 = unat x'" using x'(2) that by simp
    show ?thesis unfolding h by simp
  qed
  then show ?thesis using x'(1) assms(5) by (auto simp: from_chars_ulong_def Let_def)
qed

section \<open>Numbers with white space and a sign\<close>

text \<open>The texts that \<open>strtol\<close> reads in a base other than 0: white space, a sign, digits, and a
  rest that does not start with a digit and does not make the digits a prefix.\<close>

record number_text =
  blanks :: "u8 list"
  sign :: "u8 list"
  digits_of :: "nat list"
  after_digits :: "u8 list"

definition number_text_ok :: "int \<Rightarrow> number_text \<Rightarrow> bool" where
  "number_text_ok base t \<longleftrightarrow> 2 \<le> base \<and> base \<le> 36 \<and> (\<forall>c \<in> set (blanks t). isspace_c c) \<and> sign t \<in> {[], [43], [45]}
     \<and> digits_of t \<noteq> [] \<and> (\<forall>d \<in> set (digits_of t). d < nat base)
     \<and> (after_digits t = [] \<or> digit_of base (hd (after_digits t)) = None \<and> (base = 16 \<longrightarrow> hd (after_digits t) \<notin> {88, 120}))"

definition text_of :: "number_text \<Rightarrow> u8 list" where
  "text_of t = blanks t @ sign t @ map digit_char (digits_of t) @ after_digits t"

definition value_of :: "int \<Rightarrow> number_text \<Rightarrow> nat" where
  "value_of base t = horner (nat base) (digits_of t) 0"

definition negative_text :: "number_text \<Rightarrow> bool" where "negative_text t \<longleftrightarrow> sign t = [45]"

definition text_length :: "number_text \<Rightarrow> nat" where
  "text_length t = length (blanks t) + length (sign t) + length (digits_of t)"

lemma sint_digit_char: "d < 36 \<Longrightarrow> sint (digit_char d) = int (if d < 10 then 48 + d else 87 + d)"
  unfolding digit_char_def by (rule sint_small_byte) auto

lemma char_sints: "sint (43 :: u8) = 43" "sint (45 :: u8) = 45" "sint (88 :: u8) = 88" "sint (120 :: u8) = 120"
  using sint_small_byte [of 43] sint_small_byte [of 45] sint_small_byte [of 88] sint_small_byte [of 120] by simp_all

lemma takeWhile_blanks:
  assumes "\<forall>c \<in> set ws. P c" and "r = [] \<or> \<not> P (hd r)"
  shows "takeWhile P (ws @ r) = ws"
  using assms by (cases r) auto

lemma no_prefix:
  assumes "number_text_ok base t"
  shows "strtol_fix_base (map digit_char (digits_of t) @ after_digits t) base = (0, base)"
proof (cases "base = 16")
  case False
  then show ?thesis using assms by (simp add: strtol_fix_base_def number_text_ok_def Let_def)
next
  case True
  obtain d ds where ds: "digits_of t = d # ds" using assms by (cases "digits_of t") (auto simp: number_text_ok_def)
  have "signed_char (ds' @ after_digits t) \<noteq> 120 \<and> signed_char (ds' @ after_digits t) \<noteq> 88" if e: "ds' = map digit_char ds" for ds'
  proof (cases ds)
    case Nil
    show ?thesis
    proof (cases "after_digits t")
      case (Cons c r)
      then have "c \<notin> {88, 120}" using assms True by (auto simp: number_text_ok_def)
      then have "sint c \<noteq> sint (88 :: u8) \<and> sint c \<noteq> sint (120 :: u8)" by (simp only: signed_word_eqI insert_iff) (metis signed_word_eqI)
      then show ?thesis using Nil Cons e by (simp add: signed_char_def char_sints)
    qed (use Nil e in \<open>simp add: signed_char_def\<close>)
  next
    case (Cons c r)
    then have "c < 16" using assms ds True by (auto simp: number_text_ok_def)
    then show ?thesis using Cons e sint_digit_char [of c] by (auto simp: signed_char_def)
  qed
  then show ?thesis using True ds by (simp add: strtol_fix_base_def Let_def)
qed

lemma scan_number:
  assumes "number_text_ok base t"
  shows "strto_scan (text_of t) base = (negative_text t, text_length t,
    if 2 ^ 64 \<le> value_of base t then (E_RANGE, 0) else (0, of_nat (value_of base t)))"
proof -
  define b where "b = map digit_char (digits_of t) @ after_digits t"
  have ok: "2 \<le> base" "base \<le> 36" "\<forall>c \<in> set (blanks t). isspace_c c" "sign t \<in> {[], [43], [45]}" "digits_of t \<noteq> []"
    "\<forall>d \<in> set (digits_of t). d < nat base" "after_digits t = [] \<or> digit_of base (hd (after_digits t)) = None"
    using assms by (auto simp: number_text_ok_def)
  obtain d ds where ds: "digits_of t = d # ds" using ok(5) by (cases "digits_of t") auto
  have d: "d < 36" using ok(2,6) ds by auto
  have hb: "signed_char b = sint (digit_char d)" "b \<noteq> []" "hd b = digit_char d" by (simp_all add: b_def ds signed_char_def)
  have nd: "\<not> isspace_c (digit_char d)" "sint (digit_char d) \<noteq> 45" "sint (digit_char d) \<noteq> 43"
    using sint_digit_char [OF d] by (auto simp: isspace_c_def)
  have tw: "takeWhile isspace_c (text_of t) = blanks t"
    unfolding text_of_def
  proof (rule takeWhile_blanks [OF ok(3)])
    show "sign t @ map digit_char (digits_of t) @ after_digits t = [] \<or> \<not> isspace_c (hd (sign t @ map digit_char (digits_of t) @ after_digits t))"
      using ok(4) nd(1) ds by (auto simp: isspace_c_def char_sints)
  qed
  have dr: "drop (length (blanks t)) (text_of t) = sign t @ b" by (simp add: text_of_def b_def)
  have sg: "signed_char (sign t @ b) = 45 \<longleftrightarrow> sign t = [45]" "signed_char (sign t @ b) = 43 \<longleftrightarrow> sign t = [43]"
    using ok(4) hb nd by (auto simp: signed_char_def char_sints split: list.splits)
  have ln: "of_bool (sign t = [45] \<or> sign t = [43]) = length (sign t)" using ok(4) by auto
  have dr2: "drop (length (blanks t) + length (sign t)) (text_of t) = b" by (simp add: text_of_def b_def)
  have fb: "strtol_fix_base b base = (0, base)" unfolding b_def by (rule no_prefix [OF assms])
  note fc = from_chars_eq [OF ok(1,2,6,7,5), folded b_def]
  show ?thesis
    unfolding strto_scan_def Let_def tw dr sg ln dr2 fb prod.case add_0_right fc
    by (simp add: negative_text_def text_length_def value_of_def E_INVAL_def E_RANGE_def)
qed

lemma strtol_value:
  assumes "number_text_ok base t"
  shows "strtol (text_of t) base
      = (of_int (max (- (2 ^ 63)) (min (2 ^ 63 - 1) ((if negative_text t then -1 else 1) * int (value_of base t)))), text_length t)
    \<and> strtoul (text_of t) base
      = ((if 2 ^ 64 \<le> value_of base t then (if negative_text t then 1 else -1)
          else of_int ((if negative_text t then -1 else 1) * int (value_of base t))), text_length t)"
proof -
  define v where "v = value_of base t"
  note sc = scan_number [OF assms, folded v_def]
  have bound: "(push_bit 63 1 :: u64) = of_nat (2 ^ 63)" by simp
  have e: "E_RANGE \<noteq> 0" by (simp add: E_RANGE_def)
  show ?thesis
  proof (cases "2 ^ 64 \<le> v")
    case True
    then have "int v \<ge> 2 ^ 64" by (metis of_nat_le_iff of_nat_numeral of_nat_power)
    then have "max (- (2 ^ 63)) (min (2 ^ 63 - 1) ((if negative_text t then -1 else 1) * int v)) = (if negative_text t then - (2 ^ 63) else 2 ^ 63 - 1)"
      by simp
    then show ?thesis using sc True e unfolding v_def [symmetric]
      by (simp add: strtol_def strtoul_def Let_def)
  next
    case False
    then have v: "v < 2 ^ 64" by simp
    have uv: "unat (of_nat v :: u64) = v" by (rule unat64_of_nat [OF v])
    have gt: "(9223372036854775808 :: u64) < of_nat v \<longleftrightarrow> 9223372036854775808 < v"
      "(9223372036854775807 :: u64) < of_nat v \<longleftrightarrow> 9223372036854775807 < v"
      by (simp_all add: word_less_nat_alt uv)
    have mm: "max (- (2 ^ 63)) (min (2 ^ 63 - 1) ((if negative_text t then -1 else 1) * int v))
        = (if v > 2 ^ 63 - of_bool (\<not> negative_text t) then (if negative_text t then - (2 ^ 63) else 2 ^ 63 - 1)
           else (if negative_text t then -1 else 1) * int v)"
      by auto
    show ?thesis using sc False e unfolding v_def [symmetric] mm
      by (cases "negative_text t") (simp_all add: strtol_def strtoul_def Let_def gt)
  qed
qed

text \<open>\<open>strtol\<close> reads every number, of whatever size, in bases 2 to 36, after white space and a
  sign, and clamps it to the range of a \<open>long\<close>; \<open>strtoul\<close> reads it modulo \<open>2 ^ 64\<close> after
  negation if the digits fit 64 bits, and else returns all ones, but 1 (not all ones) after a
  minus sign. The end pointer is at the first character after the digits.\<close>

theorem strtol_clamps:
  assumes "number_text_ok base t"
  shows "strtol (text_of t) base
      = (of_int (max (- (2 ^ 63)) (min (2 ^ 63 - 1) ((if negative_text t then -1 else 1) * int (value_of base t)))), text_length t)
    \<and> strtoul (text_of t) base
      = ((if 2 ^ 64 \<le> value_of base t then (if negative_text t then 1 else -1)
          else of_int ((if negative_text t then -1 else 1) * int (value_of base t))), text_length t)"
  by (rule strtol_value [OF assms])

definition demo_number :: number_text where
  "demo_number = \<lparr>blanks = [32, 9], sign = [45], digits_of = [4, 2], after_digits = [32]\<rparr>"

lemma strtol_clamps_witness:
  "strtol [32, 9, 45, 52, 50, 32] 10 = (-42, 5) \<and> strtoul [32, 9, 45, 52, 50, 32] 10 = (-42, 5)"
proof -
  have b: "sint (9 :: u8) = 9" "sint (32 :: u8) = 32" using sint_small_byte [of 9] sint_small_byte [of 32] by simp_all
  have ok: "number_text_ok 10 demo_number"
    by (simp add: number_text_ok_def demo_number_def isspace_c_def digit_of_def b)
  have t: "text_of demo_number = [32, 9, 45, 52, 50, 32]" by (simp add: text_of_def demo_number_def digit_char_def)
  have v: "value_of 10 demo_number = 42" "negative_text demo_number" "text_length demo_number = 5"
    by (simp_all add: value_of_def negative_text_def text_length_def demo_number_def)
  show ?thesis using strtol_clamps [OF ok] v unfolding t by simp
qed

text \<open>The digit test of \<open>from_chars_ulong\<close> is wrong for bases above 10: the characters after \<open>9\<close> in
  ASCII, from the colon on, are read as digits, and in bases above 17 an upper-case A has the
  value 17.\<close>

theorem digits_misread:
  assumes "10 < base" and "base \<le> 36"
  shows "strtoul [58] base = (10, 1) \<and> (17 < base \<longrightarrow> strtoul [65] base = (17, 1))"
proof -
  have b: "sint (58 :: u8) = 58" "sint (65 :: u8) = 65" using sint_small_byte [of 58] sint_small_byte [of 65] by simp_all
  have sp: "\<not> isspace_c 58" "\<not> isspace_c 65" by (simp_all add: isspace_c_def b)
  have d: "digit_of base 58 = Some 10" "17 < base \<Longrightarrow> digit_of base 65 = Some 17" using assms by (simp_all add: digit_of_def b)
  have scan: "strtoul [c] base = (x, 1)" if "\<not> isspace_c c" "sint c \<in> {58, 65}" "digit_of base c = Some x" for c x
  proof -
    have f: "strtol_fix_base [c] base = (0, base)" using that(2) assms by (auto simp: strtol_fix_base_def signed_char_def Let_def)
    have "from_chars_loop base [c] 0 False 0 = (x, False, 1)"
      using that(3) by (simp add: not_less)
    then have "from_chars_ulong [c] 0 base = (1, 0, x)" by (simp add: from_chars_ulong_def)
    moreover have "takeWhile isspace_c [c] = []" "signed_char [c] \<noteq> 45" "signed_char [c] \<noteq> 43" using that by (auto simp: signed_char_def)
    ultimately have "strto_scan [c] base = (False, 1, 0, x)" using f by (simp add: strto_scan_def E_INVAL_def Let_def)
    then show ?thesis by (simp add: strtoul_def E_RANGE_def)
  qed
  show ?thesis using scan [OF sp(1) _ d(1)] scan [OF sp(2) _ d(2)] b by simp
qed

lemma digits_misread_witness: "strtoul [58] 16 = (10, 1) \<and> strtoul [65] 36 = (17, 1)"
  using digits_misread [of 16] digits_misread [of 36] by simp

section \<open>Printing\<close>

text \<open>The digits of a number, most significant first.\<close>

function digits :: "nat \<Rightarrow> nat \<Rightarrow> nat list" where
  "digits b n = (if b < 2 \<or> n < b then [n] else digits b (n div b) @ [n mod b])"
  by pat_completeness auto
termination by (relation "measure snd") auto

declare digits.simps [simp del]

lemma digits_nonempty [simp]: "digits b n \<noteq> []"
  by (subst digits.simps) simp

lemma digits_less: "2 \<le> b \<Longrightarrow> d \<in> set (digits b n) \<Longrightarrow> d < b"
proof (induction b n rule: digits.induct)
  case (1 b n)
  show ?case
  proof (cases "n < b")
    case True
    then show ?thesis using 1(3) digits.simps [of b n] by simp
  next
    case False
    then have "d \<in> set (digits b (n div b)) \<or> d = n mod b" using 1(2,3) digits.simps [of b n] by auto
    then show ?thesis using 1(1) [OF _ 1(2)] 1(2) False by auto
  qed
qed

lemma horner_append: "horner b (ds @ [d]) v = horner b ds v * b + d"
  by (simp add: horner_def)

lemma digits_horner: "2 \<le> b \<Longrightarrow> horner b (digits b n) 0 = n"
proof (induction b n rule: digits.induct)
  case (1 b n)
  show ?case
  proof (cases "n < b")
    case True
    then show ?thesis using digits.simps [of b n] by simp
  next
    case False
    then have "digits b n = digits b (n div b) @ [n mod b]" using 1(2) digits.simps [of b n] by auto
    then show ?thesis using 1 False by (simp add: horner_append)
  qed
qed

lemma digits_length: "2 \<le> b \<Longrightarrow> n < b ^ e \<Longrightarrow> 0 < e \<Longrightarrow> length (digits b n) \<le> e"
proof (induction b n arbitrary: e rule: digits.induct)
  case (1 b n)
  show ?case
  proof (cases "n < b")
    case True
    then show ?thesis using 1(4) digits.simps [of b n] by simp
  next
    case False
    then have d: "digits b n = digits b (n div b) @ [n mod b]" using 1(2) digits.simps [of b n] by auto
    have e: "1 < e"
    proof (rule ccontr)
      assume "\<not> 1 < e"
      then have "e = 1" using 1(4) by simp
      then show False using 1(3) False by simp
    qed
    then have "n < b ^ (e - 1) * b" using 1(3) by (cases e) (simp_all add: mult.commute)
    then have "n div b < b ^ (e - 1)" by (rule less_mult_imp_div_less)
    then have "length (digits b (n div b)) \<le> e - 1" by (intro 1(1)) (use 1(2) False e in auto)
    then show ?thesis using d e by simp
  qed
qed

lemma print_loop_digits:
  assumes "2 \<le> b" and "b < 2 ^ 64" and "length (digits b (unat val)) \<le> pos"
  shows "print_loop tbl (of_nat b) pos None val buf = Some (map (\<lambda>d. tbl ! d) (digits b (unat val)) @ buf)"
  using assms(3)
proof (induction pos arbitrary: val buf)
  case 0
  then show ?case by simp
next
  case (Suc pos)
  have ub: "unat (of_nat b :: u64) = b" by (rule unat64_of_nat [OF assms(2)])
  have dm: "unat (val div of_nat b) = unat val div b" "unat (val mod of_nat b) = unat val mod b" by (simp_all add: unat_div unat_mod ub)
  show ?case
  proof (cases "unat val < b")
    case True
    then have "val div of_nat b = 0" using dm(1) by (simp add: unat_eq_0)
    then show ?thesis using True digits.simps [of b "unat val"] dm(2) by (simp add: Let_def)
  next
    case False
    then have d: "digits b (unat val) = digits b (unat val div b) @ [unat val mod b]" using assms(1) digits.simps [of b "unat val"] by auto
    have "unat (val div of_nat b) \<noteq> 0" unfolding dm using False assms(1) by (simp add: div_eq_0_iff)
    then have nz: "val div of_nat b \<noteq> 0" by (metis unat_0)
    have l: "length (digits b (unat (val div of_nat b))) \<le> pos" using Suc.prems d dm(1) by simp
    then have "pos \<noteq> 0" using digits_nonempty by (metis le_zero_eq length_0_conv)
    then show ?thesis using nz Suc.IH [OF l, of "tbl ! (unat val mod b) # buf"] d dm by (simp add: Let_def)
  qed
qed

lemma table_digits: "d < 16 \<Longrightarrow> lower_digits ! d = digit_char d" "d < 10 \<Longrightarrow> upper_digits ! d = digit_char d"
  by (simp_all add: lower_digits_def upper_digits_def digit_char_def less_Suc_eq numeral_nat nth_Cons' split: nat.splits)
    (elim disjE; simp)+

text \<open>The numbers of \<open>print_number\<close> in bases 10 and (lower-case) 16, in its buffer of 32 bytes.\<close>

lemma print_number_plain:
  assumes "base = 10 \<or> base = -16" and "flags AND FLAG_THOUSANDS = 0"
  shows "print_number 32 val base flags = Some (map digit_char (digits (nat (abs base)) (unat val)))"
proof -
  have v: "unat val < 2 ^ 64" using unsigned_less [of val] by simp
  show ?thesis
  proof (cases "base = 10")
    case True
    have "unat val < 10 ^ 20" using v by simp
    then have "length (digits 10 (unat val)) \<le> 20" by (intro digits_length) simp_all
    then have "print_loop upper_digits (of_nat 10) 31 None val [] = Some (map (\<lambda>d. upper_digits ! d) (digits 10 (unat val)) @ [])"
      by (intro print_loop_digits) simp_all
    moreover have "map (\<lambda>d. upper_digits ! d) (digits 10 (unat val)) = map digit_char (digits 10 (unat val))"
      using digits_less [of 10 _ "unat val"] table_digits(2) by auto
    ultimately show ?thesis using True assms(2) by (simp add: print_number_def Let_def)
  next
    case False
    then have b: "base = -16" using assms(1) by simp
    have "unat val < 16 ^ 16" using v by simp
    then have "length (digits 16 (unat val)) \<le> 16" by (intro digits_length) simp_all
    then have "print_loop lower_digits (of_nat 16) 31 None val [] = Some (map (\<lambda>d. lower_digits ! d) (digits 16 (unat val)) @ [])"
      by (intro print_loop_digits) simp_all
    moreover have "map (\<lambda>d. lower_digits ! d) (digits 16 (unat val)) = map digit_char (digits 16 (unat val))"
      using digits_less [of 16 _ "unat val"] table_digits(1) by auto
    ultimately show ?thesis using b assms(2) by (simp add: print_number_def Let_def)
  qed
qed

end
