(* ===== verification/WPrint.thy ===== *)
theory WPrint
  imports WNum
begin

text \<open>
  Formatted output of \<open>src/pset3/lib.cc\<close>: \<open>printer::vprintf\<close>, \<open>vsnprintf\<close> and the console.
  A printer only receives characters, so \<open>vprintf\<close> is modelled as the list of the characters
  and colors that it sends. Arguments are a list of values with the type under which they were
  passed; taking one with another type, or one too many, is undefined (\<open>None\<close>).
\<close>

section \<open>Arguments\<close>

datatype varg = VInt "32 word" | VLong u64 | VPtr u64 | VStr "u8 list"

fun va_int :: "varg list \<Rightarrow> (32 word \<times> varg list) option" where
  "va_int (VInt w # args) = Some (w, args)"
| "va_int _ = None"

fun va_long :: "varg list \<Rightarrow> (u64 \<times> varg list) option" where
  "va_long (VLong w # args) = Some (w, args)"
| "va_long _ = None"

fun va_ptr :: "varg list \<Rightarrow> (u64 \<times> varg list) option" where
  "va_ptr (VPtr w # args) = Some (w, args)"
| "va_ptr _ = None"

fun va_str :: "varg list \<Rightarrow> (u8 list \<times> varg list) option" where
  "va_str (VStr s # args) = Some (s, args)"
| "va_str _ = None"

text \<open>A value stored in an \<open>int\<close>.\<close>

definition to_int :: "int \<Rightarrow> int" where
  "to_int n = signed_take_bit 31 n"

section \<open>A conversion\<close>

definition flag_chars :: "u8 list" where "flag_chars = [35, 48, 45, 32, 43, 39]"

fun index_of :: "u8 \<Rightarrow> u8 list \<Rightarrow> nat option" where
  "index_of c [] = None"
| "index_of c (x # xs) = (if x = c then Some 0 else map_option Suc (index_of c xs))"

fun parse_flags :: "u8 list \<Rightarrow> 32 word \<Rightarrow> 32 word \<times> u8 list" where
  "parse_flags [] flags = (flags, [])"
| "parse_flags (c # s) flags = (case index_of c flag_chars of
     Some i \<Rightarrow> parse_flags s (flags OR push_bit i 1)
   | None \<Rightarrow> (flags, c # s))"

text \<open>A decimal number in the format, as an \<open>int\<close>.\<close>

fun read_int :: "int \<Rightarrow> u8 list \<Rightarrow> (int \<times> u8 list) option" where
  "read_int n [] = Some (n, [])"
| "read_int n (c # s) = (if 48 \<le> sint c \<and> sint c \<le> 57
     then (if 10 * n + sint c < 2 ^ 31 then read_int (10 * n + sint c - 48) s else None)
     else Some (n, c # s))"

definition parse_width :: "u8 list \<Rightarrow> varg list \<Rightarrow> (int \<times> u8 list \<times> varg list) option" where
  "parse_width s args =
     (if 49 \<le> signed_char s \<and> signed_char s \<le> 57 then do { (w, s) \<leftarrow> read_int 0 s; Some (w, s, args) }
      else if signed_char s = 42 then do { (w, args) \<leftarrow> va_int args; Some (sint w, tl s, args) }
      else Some (-1, s, args))"

definition parse_precision :: "u8 list \<Rightarrow> varg list \<Rightarrow> (int \<times> u8 list \<times> varg list) option" where
  "parse_precision s args =
     (if signed_char s = 46 then do {
        let s = tl s;
        (p, s, args) \<leftarrow>
          (if 48 \<le> signed_char s \<and> signed_char s \<le> 57 then do { (p, s) \<leftarrow> read_int 0 s; Some (p, s, args) }
           else if signed_char s = 42 then do { (p, args) \<leftarrow> va_int args; Some (sint p, tl s, args) }
           else Some (-1, s, args));
        Some (if p < 0 then 0 else p, s, args) }
      else Some (-1, s, args))"

definition parse_length :: "u8 list \<Rightarrow> bool \<times> u8 list" where
  "parse_length s = (if signed_char s \<in> {108, 116, 122} then (True, tl s) else if signed_char s = 104 then (False, tl s) else (False, s))"

text \<open>What is printed: a number with its flags, base and magnitude, or a string; \<open>%C\<close> prints
  nothing and sets the color.\<close>

datatype conv = Number "32 word" int u64 | Text "u8 list" | Color "32 word"

definition byte_text :: "u8 \<Rightarrow> u8 list" where
  "byte_text c = (if c = 0 then [] else [c])"

definition signed_arg :: "bool \<Rightarrow> varg list \<Rightarrow> (int \<times> varg list) option" where
  "signed_arg long args = (if long then do { (w, args) \<leftarrow> va_long args; Some (sint w, args) }
     else do { (w, args) \<leftarrow> va_int args; Some (sint w, args) })"

definition unsigned_arg :: "bool \<Rightarrow> varg list \<Rightarrow> (u64 \<times> varg list) option" where
  "unsigned_arg long args = (if long then va_long args else do { (w, args) \<leftarrow> va_int args; Some (ucast w, args) })"

definition convert :: "bool \<Rightarrow> 32 word \<Rightarrow> u8 list \<Rightarrow> varg list \<Rightarrow> (conv \<times> varg list) option" where
  "convert long flags s args = (let c = signed_char s in
     if c = 100 \<or> c = 105 then do {
       (x, args) \<leftarrow> signed_arg long args;
       assert_ok (x \<noteq> - (2 ^ 63));
       Some (Number (flags OR (FLAG_NUMERIC OR FLAG_SIGNED OR (if x < 0 then FLAG_NEGATIVE else 0))) 10
               (of_int (if x < 0 then - x else x)), args) }
     else if c = 117 then do { (x, args) \<leftarrow> unsigned_arg long args; Some (Number (flags OR FLAG_NUMERIC) 10 x, args) }
     else if c = 120 then do { (x, args) \<leftarrow> unsigned_arg long args; Some (Number (flags OR FLAG_NUMERIC) (-16) x, args) }
     else if c = 88 then do { (x, args) \<leftarrow> unsigned_arg long args; Some (Number (flags OR FLAG_NUMERIC) 16 x, args) }
     else if c = 112 then do { (x, args) \<leftarrow> va_ptr args;
       Some (Number (flags OR (FLAG_ALT OR FLAG_ALT2 OR FLAG_NUMERIC)) (-16) x, args) }
     else if c = 115 then do { (x, args) \<leftarrow> va_str args; Some (Text x, args) }
     else if c = 67 then do { (x, args) \<leftarrow> va_int args; Some (Color x, args) }
     else if c = 99 then do { (x, args) \<leftarrow> va_int args; Some (Text (byte_text (ucast x)), args) }
     else Some (Text (case s of [] \<Rightarrow> [37] | c # s \<Rightarrow> [c]), args))"

definition number_prefix :: "32 word \<Rightarrow> int \<Rightarrow> u64 \<Rightarrow> u8 list" where
  "number_prefix flags base num =
     (if flags AND FLAG_SIGNED \<noteq> 0 then
        (if flags AND FLAG_NEGATIVE \<noteq> 0 then [45]
         else if flags AND FLAG_PLUSPOSITIVE \<noteq> 0 then [43]
         else if flags AND FLAG_SPACEPOSITIVE \<noteq> 0 then [32] else [])
      else if flags AND FLAG_ALT \<noteq> 0 \<and> (base = 16 \<or> base = -16) \<and> (num \<noteq> 0 \<or> flags AND FLAG_ALT2 \<noteq> 0)
      then (if base = -16 then [48, 120] else [48, 88]) else [])"

text \<open>The padding around the text.\<close>

definition lay_out :: "32 word \<Rightarrow> int \<Rightarrow> int \<Rightarrow> u8 list \<Rightarrow> int \<Rightarrow> u8 list \<Rightarrow> u8 list" where
  "lay_out flags width datalen prefix zeros data = (let
     width = to_int (width - (datalen + zeros + int (length prefix)));
     (before, width) = (if flags AND FLAG_LEFTJUSTIFY = 0 then (replicate (nat width) 32, min width 0) else ([], width))
   in before @ prefix @ replicate (nat zeros) 48 @ take (nat datalen) data @ replicate (nat width) 32)"

definition print_conv :: "32 word \<Rightarrow> int \<Rightarrow> int \<Rightarrow> conv \<Rightarrow> u8 list option" where
  "print_conv flags width precision cv = (case cv of
     Color c \<Rightarrow> Some []
   | Text data \<Rightarrow> Some (lay_out flags width
       (to_int (if precision \<ge> 0 then min (int (length data)) precision else int (length data))) [] 0 data)
   | Number flags base num \<Rightarrow> do {
       data \<leftarrow> print_number 32 num base flags;
       let prefix = number_prefix flags base num;
       let datalen = to_int (int (length data));
       let zeros = (if precision \<ge> 0 then (if precision > datalen then precision - datalen else 0)
         else if flags AND FLAG_ZERO \<noteq> 0 \<and> flags AND FLAG_LEFTJUSTIFY = 0 \<and> datalen + int (length prefix) < width
         then width - datalen - int (length prefix) else 0);
       Some (lay_out flags width datalen prefix zeros data) })"

text \<open>One conversion, after the percent sign: the characters, the color from there on, the rest of
  the format and of the arguments.\<close>

definition directive :: "32 word \<Rightarrow> u8 list \<Rightarrow> varg list \<Rightarrow> (u8 list \<times> 32 word \<times> u8 list \<times> varg list) option" where
  "directive color s args = do {
     let (flags, s) = parse_flags s 0;
     (width, s, args) \<leftarrow> parse_width s args;
     (precision, s, args) \<leftarrow> parse_precision s args;
     let (long, s) = parse_length s;
     (cv, args) \<leftarrow> convert long flags s args;
     out \<leftarrow> print_conv flags width precision cv;
     Some (out, case cv of Color c \<Rightarrow> c | _ \<Rightarrow> color, tl s, args) }"

section \<open>The format\<close>

lemma parse_flags_length: "parse_flags s flags = (flags', s') \<Longrightarrow> length s' \<le> length s"
  by (induction s flags rule: parse_flags.induct) (auto split: option.splits dest: le_SucI)

lemma read_int_length: "read_int n s = Some (n', s') \<Longrightarrow> length s' \<le> length s"
  by (induction n s rule: read_int.induct) (auto split: if_splits dest: le_SucI)

lemma parse_width_length: "parse_width s args = Some (w, s', args') \<Longrightarrow> length s' \<le> length s"
  by (auto simp: parse_width_def split: if_splits Option.bind_splits dest: read_int_length)

lemma parse_precision_length: "parse_precision s args = Some (w, s', args') \<Longrightarrow> length s' \<le> length s"
  by (auto simp: parse_precision_def Let_def split: if_splits Option.bind_splits dest: read_int_length)

lemma directive_length:
  assumes "directive color s args = Some (out, color', s', args')"
  shows "length s' \<le> length s"
proof -
  obtain flags s1 where f: "parse_flags s 0 = (flags, s1)" by fastforce
  obtain w s2 a2 where w: "parse_width s1 args = Some (w, s2, a2)"
    using assms f by (cases "parse_width s1 args") (auto simp: directive_def)
  obtain p s3 a3 where p: "parse_precision s2 a2 = Some (p, s3, a3)"
    using assms f w by (cases "parse_precision s2 a2") (auto simp: directive_def)
  obtain l s4 where l: "parse_length s3 = (l, s4)" by fastforce
  have "s' = tl s4" using assms f w p l by (auto simp: directive_def split: Option.bind_splits)
  moreover have "length s4 \<le> length s3" using l by (auto simp: parse_length_def split: if_splits)
  ultimately show ?thesis
    using parse_flags_length [OF f] parse_width_length [OF w] parse_precision_length [OF p] by simp
qed

function vprintf :: "32 word \<Rightarrow> u8 list \<Rightarrow> varg list \<Rightarrow> (u8 \<times> 32 word) list option" where
  "vprintf color [] args = Some []"
| "vprintf color (c # s) args =
     (if c \<noteq> 37 then map_option ((#) (c, color)) (vprintf color s args)
      else case directive color s args of None \<Rightarrow> None
        | Some (out, color', s', args') \<Rightarrow> map_option ((@) (map (\<lambda>c. (c, color)) out)) (vprintf color' s' args'))"
  by pat_completeness auto
termination by (relation "measure (\<lambda>(color, s, args). length s)") (auto dest: directive_length)

section \<open>Printing and reading a number\<close>

definition decimal_text :: "int \<Rightarrow> u8 list" where
  "decimal_text n = (if n < 0 then [45] else []) @ map digit_char (digits 10 (nat (abs n)))"

lemma to_int_small: "- (2 ^ 31) \<le> n \<Longrightarrow> n < 2 ^ 31 \<Longrightarrow> to_int n = n"
  unfolding to_int_def by (rule signed_take_bit_int_eq_self) simp_all

lemma abs_long:
  assumes "sint (x :: u64) \<noteq> - (2 ^ 63)"
  shows "unat (of_int (abs (sint x)) :: u64) = nat (abs (sint x))" and "nat (abs (sint x)) < 2 ^ 63"
proof -
  have r: "- (2 ^ 63) \<le> sint x" "sint x < 2 ^ 63" using sint_greater_eq [of x] sint_less [of x] by simp_all
  then have "abs (sint x) < 2 ^ 63" using assms by (cases "sint x < 0") auto
  then show b: "nat (abs (sint x)) < 2 ^ 63" by simp
  have "(of_int (abs (sint x)) :: u64) = of_nat (nat (abs (sint x)))" by simp
  then show "unat (of_int (abs (sint x)) :: u64) = nat (abs (sint x))" using unat64_of_nat [of "nat (abs (sint x))"] b by simp
qed

lemma long_number:
  assumes "sint (x :: u64) \<noteq> - (2 ^ 63)" and "flags = FLAG_NUMERIC OR FLAG_SIGNED OR (if sint x < 0 then FLAG_NEGATIVE else 0)"
  shows "print_conv 0 (-1) (-1) (Number flags 10 (of_int (if sint x < 0 then - sint x else sint x))) = Some (decimal_text (sint x))"
proof -
  define ds where "ds = map digit_char (digits 10 (nat (abs (sint x))))"
  have a: "(if sint x < 0 then - sint x else sint x) = abs (sint x)" by simp
  have "flags AND FLAG_THOUSANDS = 0" unfolding assms(2) flag_defs by (cases "sint x < 0") simp_all
  then have pn: "print_number 32 (of_int (abs (sint x))) 10 flags = Some ds"
    using print_number_plain [of 10 flags "of_int (abs (sint x))"] abs_long(1) [OF assms(1)] by (simp add: ds_def)
  have pf: "number_prefix flags 10 num = (if sint x < 0 then [45] else [])" for num
    unfolding number_prefix_def assms(2) flag_defs by (cases "sint x < 0") simp_all
  have z: "flags AND FLAG_ZERO = 0" "flags AND FLAG_LEFTJUSTIFY = 0" unfolding assms(2) flag_defs by (cases "sint x < 0"; simp)+
  have "nat (abs (sint x)) < 10 ^ 20" using abs_long(2) [OF assms(1)] by simp
  then have len: "length ds \<le> 20" unfolding ds_def length_map by (intro digits_length) simp_all
  have l: "to_int (int (length ds)) = int (length ds)" by (rule to_int_small) (use len in simp_all)
  have w0: "to_int (- 1 - int (length ds)) = - 1 - int (length ds)" by (rule to_int_small) (use len in simp_all)
  have w1: "to_int (- 2 - int (length ds)) = - 2 - int (length ds)" by (rule to_int_small) (use len in simp_all)
  show ?thesis
    using z l w0 w1 by (simp add: print_conv_def a pn pf lay_out_def decimal_text_def ds_def [symmetric] Let_def)
qed

text \<open>C33: what \<open>%ld\<close> prints for a \<open>long\<close> is its decimal notation, and \<open>strtol\<close> reads it back, for every
  value but the least one, whose negation is undefined.\<close>

theorem print_read_long:
  assumes "sint (x :: u64) \<noteq> - (2 ^ 63)"
  shows "vprintf color [37, 108, 100] [VLong x] = Some (map (\<lambda>c. (c, color)) (decimal_text (sint x)))
    \<and> strtol (decimal_text (sint x)) 10 = (x, length (decimal_text (sint x)))"
proof
  have s: "sint (108 :: u8) = 108" "sint (100 :: u8) = 100" using sint_small_byte [of 108] sint_small_byte [of 100] by simp_all
  have "directive color [108, 100] [VLong x] = Some (decimal_text (sint x), color, [], [])"
    using assms long_number [OF assms refl]
    by (simp add: directive_def flag_chars_def parse_width_def parse_precision_def parse_length_def signed_char_def s
        convert_def signed_arg_def Let_def)
  then show "vprintf color [37, 108, 100] [VLong x] = Some (map (\<lambda>c. (c, color)) (decimal_text (sint x)))" by simp
  define t where "t = \<lparr>blanks = [], sign = (if sint x < 0 then [45] else []), digits_of = digits 10 (nat (abs (sint x))), after_digits = []\<rparr>"
  have ok: "number_text_ok 10 t" using digits_less [of 10 _ "nat (abs (sint x))"] by (auto simp: number_text_ok_def t_def)
  have tx: "text_of t = decimal_text (sint x)" by (simp add: text_of_def t_def decimal_text_def)
  have v: "value_of 10 t = nat (abs (sint x))" by (simp add: value_of_def t_def digits_horner)
  have ln: "text_length t = length (decimal_text (sint x))" by (simp add: text_length_def t_def decimal_text_def)
  have n: "negative_text t \<longleftrightarrow> sint x < 0" by (simp add: negative_text_def t_def)
  have r: "- (2 ^ 63) \<le> sint x" "sint x < 2 ^ 63" using sint_greater_eq [of x] sint_less [of x] by simp_all
  have "(if sint x < 0 then -1 else 1) * int (nat (abs (sint x))) = sint x" by auto
  then have c: "max (- (2 ^ 63)) (min (2 ^ 63 - 1) ((if sint x < 0 then -1 else 1) * int (nat (abs (sint x))))) = sint x"
    using r by simp
  show "strtol (decimal_text (sint x)) 10 = (x, length (decimal_text (sint x)))"
    using strtol_value [OF ok] unfolding tx v ln n c by simp
qed

lemma print_read_long_witness:
  "vprintf 7 [37, 108, 100] [VLong (-12)] = Some [(45, 7), (49, 7), (50, 7)] \<and> strtol [45, 49, 50] 10 = (-12, 3)"
proof -
  have s: "sint (-12 :: u64) = -12" by simp
  have d: "digits 10 12 = [1, 2]" by (simp add: digits.simps)
  have t: "decimal_text (-12) = [45, 49, 50]" by (simp add: decimal_text_def d digit_char_def)
  show ?thesis using print_read_long [of "-12" 7] unfolding s t by simp
qed

section \<open>Printing into a buffer\<close>

record string_printer =
  sp_s :: nat
  sp_end :: nat
  sp_n :: nat
  sp_mem :: wmem

definition sp_putc :: "u8 \<Rightarrow> string_printer \<Rightarrow> string_printer" where
  "sp_putc c sp = (let sp = (if sp_s sp < sp_end sp
       then sp\<lparr>sp_mem := (sp_mem sp)(sp_s sp := c), sp_s := sp_s sp + 1\<rparr> else sp) in sp\<lparr>sp_n := sp_n sp + 1\<rparr>)"

definition vsnprintf :: "nat \<Rightarrow> nat \<Rightarrow> u8 list \<Rightarrow> varg list \<Rightarrow> wmem \<Rightarrow> (nat \<times> wmem) option" where
  "vsnprintf s sz format args m = do {
     out \<leftarrow> vprintf 0 format args;
     let sp = fold (\<lambda>(c, color). sp_putc c) out \<lparr>sp_s = s, sp_end = s + sz, sp_n = 0, sp_mem = m\<rparr>;
     Some (sp_n sp, if sz \<noteq> 0 \<and> sp_s sp < sp_end sp then (sp_mem sp)(sp_s sp := 0)
       else if sz \<noteq> 0 then (sp_mem sp)(sp_end sp - 1 := 0) else sp_mem sp) }"

definition snprintf :: "nat \<Rightarrow> nat \<Rightarrow> u8 list \<Rightarrow> varg list \<Rightarrow> wmem \<Rightarrow> (int \<times> wmem) option" where
  "snprintf s sz format args m = do { (n, m) \<leftarrow> vsnprintf s sz format args m; Some (to_int (int n), m) }"

lemma sp_putc_eq:
  "sp_putc c \<lparr>sp_s = s, sp_end = e, sp_n = n, sp_mem = m\<rparr>
    = (if s < e then \<lparr>sp_s = s + 1, sp_end = e, sp_n = n + 1, sp_mem = m(s := c)\<rparr>
       else \<lparr>sp_s = s, sp_end = e, sp_n = n + 1, sp_mem = m\<rparr>)"
  by (simp add: sp_putc_def)

lemma sp_fold:
  "s \<le> e \<Longrightarrow> fold (\<lambda>(c, color). sp_putc c) out \<lparr>sp_s = s, sp_end = e, sp_n = n, sp_mem = m\<rparr>
    = \<lparr>sp_s = s + min (length out) (e - s), sp_end = e, sp_n = n + length out,
       sp_mem = (\<lambda>x. if s \<le> x \<and> x < s + min (length out) (e - s) then fst (out ! (x - s)) else m x)\<rparr>"
proof (induction out arbitrary: s n m)
  case (Cons p out)
  obtain c color where p: "p = (c, color)" by fastforce
  show ?case
  proof (cases "s < e")
    case True
    have fn: "(\<lambda>x. if Suc s \<le> x \<and> x < Suc s + min (length out) (e - Suc s) then fst (out ! (x - Suc s)) else (m(s := c)) x)
        = (\<lambda>x. if s \<le> x \<and> x < s + min (length (p # out)) (e - s) then fst ((p # out) ! (x - s)) else m x)"
    proof
      fix x
      show "(if Suc s \<le> x \<and> x < Suc s + min (length out) (e - Suc s) then fst (out ! (x - Suc s)) else (m(s := c)) x)
        = (if s \<le> x \<and> x < s + min (length (p # out)) (e - s) then fst ((p # out) ! (x - s)) else m x)"
        using True p by (cases "x = s") (auto simp: nth_Cons' min_def)
    qed
    have mn: "Suc s + min (length out) (e - Suc s) = s + min (length (p # out)) (e - s)" using True by auto
    have st: "fold (\<lambda>(c, color). sp_putc c) (p # out) \<lparr>sp_s = s, sp_end = e, sp_n = n, sp_mem = m\<rparr>
        = fold (\<lambda>(c, color). sp_putc c) out \<lparr>sp_s = Suc s, sp_end = e, sp_n = n + 1, sp_mem = m(s := c)\<rparr>"
      using True p by (simp add: sp_putc_eq)
    show ?thesis unfolding st Cons.IH [OF Suc_leI [OF True]] unfolding fn unfolding mn by simp
  next
    case False
    then have e: "s = e" using Cons.prems by simp
    show ?thesis using Cons.IH [of s] p unfolding e by (auto simp: sp_putc_eq fun_eq_iff)
  qed
qed (auto simp: fun_eq_iff)

lemma vsnprintf_text:
  "vsnprintf s sz format args m = (case vprintf 0 format args of None \<Rightarrow> None | Some out \<Rightarrow>
     Some (length out, \<lambda>x. if x < s \<or> s + sz \<le> x then m x
       else if x < s + min (length out) (sz - 1) then fst (out ! (x - s))
       else if x = s + min (length out) (sz - 1) then 0 else m x))"
proof (cases "vprintf 0 format args")
  case (Some out)
  note f = sp_fold [of s "s + sz" out 0 m]
  show ?thesis
  proof (cases "length out < sz")
    case True
    then have "min (length out) (s + sz - s) = length out" "min (length out) (sz - 1) = length out" by auto
    then show ?thesis using f Some True by (auto simp: vsnprintf_def fun_eq_iff)
  next
    case False
    then have "min (length out) (s + sz - s) = sz" "min (length out) (sz - 1) = sz - 1" by auto
    then show ?thesis using f Some False by (cases "sz = 0") (auto simp: vsnprintf_def Let_def fun_eq_iff)
  qed
qed (simp add: vsnprintf_def)

text \<open>C34: \<open>vsnprintf\<close> returns the length of the whole text, whatever the size of the buffer, and
  writes only inside the buffer: the beginning of the text, as much as fits before a
  terminating zero.\<close>

theorem vsnprintf_bounds:
  "vsnprintf s sz format args m = (case vprintf 0 format args of None \<Rightarrow> None | Some out \<Rightarrow>
     Some (length out, \<lambda>x. if x < s \<or> s + sz \<le> x then m x
       else if x < s + min (length out) (sz - 1) then fst (out ! (x - s))
       else if x = s + min (length out) (sz - 1) then 0 else m x))"
  by (rule vsnprintf_text)

end
