(* ===== verification/WConsole.thy ===== *)
theory WConsole
  imports WPrint
begin

text \<open>
  The console of \<open>src/pset3/lib.cc\<close>: 25 rows of 80 cells and a cursor. Its abstract meaning is an
  endless tape of rows on which characters are written one after the other; the console is
  the window over the last rows that have been reached.
\<close>

abbreviation COLUMNS :: nat where "COLUMNS \<equiv> 80"
abbreviation CELLS :: nat where "CELLS \<equiv> 2000"

section \<open>The console\<close>

text \<open>The memory from \<open>console\<close> on, and \<open>cursorpos\<close>.\<close>

record console =
  cells :: "nat \<Rightarrow> 16 word"
  cursorpos :: nat

text \<open>\<open>cell_\<close> is the offset from \<open>console\<close>.\<close>

record console_printer =
  cp_cells :: "nat \<Rightarrow> 16 word"
  cell :: nat
  scrolls :: bool

definition console_clear :: "console \<Rightarrow> console" where
  "console_clear c = c\<lparr>cells := fold (\<lambda>i m. m(i := 0x0720)) [0 ..< CELLS] (cells c), cursorpos := 0\<rparr>"

definition start_printer :: "int \<Rightarrow> bool \<Rightarrow> console \<Rightarrow> console_printer" where
  "start_printer cpos scroll c = \<lparr>cp_cells = cells c,
     cell = (if cpos < 0 then cursorpos c else if cpos \<le> int CELLS then nat cpos else 0), scrolls = scroll\<rparr>"

definition scroll_cells :: "(nat \<Rightarrow> 16 word) \<Rightarrow> nat \<Rightarrow> 16 word" where
  "scroll_cells m = fold (\<lambda>i m. m(i := 0)) [CELLS - COLUMNS ..< CELLS]
     (fold (\<lambda>i m. m(i := m (i + COLUMNS))) [0 ..< CELLS - COLUMNS] m)"

definition scroll :: "console_printer \<Rightarrow> console_printer" where
  "scroll cp = (if scrolls cp then cp\<lparr>cp_cells := scroll_cells (cp_cells cp), cell := cell cp - COLUMNS\<rparr> else cp\<lparr>cell := 0\<rparr>)"

function make_room :: "console_printer \<Rightarrow> console_printer" where
  "make_room cp = (if cell cp \<ge> CELLS then make_room (scroll cp) else cp)"
  by pat_completeness auto
termination by (relation "measure cell") (auto simp: scroll_def)

text \<open>Filling the row with blanks.\<close>

fun fill_row :: "nat \<Rightarrow> 16 word \<Rightarrow> console_printer \<Rightarrow> console_printer" where
  "fill_row 0 w cp = cp"
| "fill_row (Suc n) w cp = fill_row n w (cp\<lparr>cp_cells := (cp_cells cp)(cell cp := w), cell := cell cp + 1\<rparr>)"

definition glyph :: "u8 \<Rightarrow> 32 word \<Rightarrow> 16 word" where
  "glyph c color = ucast ((ucast c :: 32 word) OR color)"

definition console_putc :: "u8 \<times> 32 word \<Rightarrow> console_printer \<Rightarrow> console_printer" where
  "console_putc x cp = (case x of (c, color) \<Rightarrow> let cp = make_room cp in
     if c = 10 then fill_row (COLUMNS - cell cp mod COLUMNS) (glyph 32 color) cp
     else cp\<lparr>cp_cells := (cp_cells cp)(cell cp := glyph c color), cell := cell cp + 1\<rparr>)"

text \<open>The position returned and the console.\<close>

definition console_write :: "int \<Rightarrow> (u8 \<times> 32 word) list \<Rightarrow> console \<Rightarrow> nat \<times> console" where
  "console_write cpos out c = (let cp = fold console_putc out (start_printer cpos (cpos < 0) c) in
     (cell cp, c\<lparr>cells := cp_cells cp, cursorpos := (if cpos < 0 then cell cp else cursorpos c)\<rparr>))"

definition console_puts :: "int \<Rightarrow> 32 word \<Rightarrow> u8 list \<Rightarrow> console \<Rightarrow> nat \<times> console" where
  "console_puts cpos color s c = console_write cpos (map (\<lambda>x. (x, color)) s) c"

definition console_vprintf :: "int \<Rightarrow> 32 word \<Rightarrow> u8 list \<Rightarrow> varg list \<Rightarrow> console \<Rightarrow> (nat \<times> console) option" where
  "console_vprintf cpos color format args c = do { out \<leftarrow> vprintf color format args; Some (console_write cpos out c) }"

section \<open>The tape\<close>

text \<open>The abstract console: a tape of cells, zero where nothing has been, and a position on it.\<close>

definition tape_putc :: "u8 \<times> 32 word \<Rightarrow> (nat \<Rightarrow> 16 word) \<times> nat \<Rightarrow> (nat \<Rightarrow> 16 word) \<times> nat" where
  "tape_putc x tp = (case x of (c, color) \<Rightarrow> case tp of (t, p) \<Rightarrow>
     if c = 10 then (let q = (p div COLUMNS + 1) * COLUMNS in ((\<lambda>i. if p \<le> i \<and> i < q then glyph 32 color else t i), q))
     else (t(p := glyph c color), p + 1))"

text \<open>How many rows have left the window when position \<open>p\<close> has been reached.\<close>

definition rows_gone :: "nat \<Rightarrow> nat" where
  "rows_gone p = (p - (CELLS - (COLUMNS - 1))) div COLUMNS"

definition window :: "nat \<Rightarrow> (nat \<Rightarrow> 16 word) \<times> nat \<Rightarrow> console_printer \<Rightarrow> bool" where
  "window k tp cp \<longleftrightarrow> snd tp = cell cp + COLUMNS * k \<and> cell cp \<le> CELLS \<and> scrolls cp
     \<and> (k = 0 \<or> CELLS - COLUMNS < cell cp)
     \<and> (\<forall>i < CELLS. cp_cells cp i = fst tp (i + COLUMNS * k)) \<and> (\<forall>i \<ge> CELLS + COLUMNS * k. fst tp i = 0)"

lemma copy_up: "n \<le> CELLS - COLUMNS \<Longrightarrow> fold (\<lambda>i m. m(i := m (i + COLUMNS))) [0 ..< n] m = (\<lambda>i. if i < n then m (i + COLUMNS) else m i)"
  by (induction n) (auto simp: fun_eq_iff less_Suc_eq)

lemma fill_range: "a \<le> b \<Longrightarrow> fold (\<lambda>i m. m(i := w)) [a ..< b] m = (\<lambda>i. if a \<le> i \<and> i < b then w else m i)"
  by (induction b rule: dec_induct) (auto simp: fun_eq_iff less_Suc_eq)

lemma scroll_cells_eq:
  "scroll_cells m = (\<lambda>i. if i < CELLS - COLUMNS then m (i + COLUMNS) else if i < CELLS then 0 else m i)"
  unfolding scroll_cells_def by (subst copy_up, simp, subst fill_range) (auto simp: fun_eq_iff)

lemma fill_row_cells:
  "fill_row n w \<lparr>cp_cells = m, cell = p, scrolls = s\<rparr>
    = \<lparr>cp_cells = (\<lambda>i. if p \<le> i \<and> i < p + n then w else m i), cell = p + n, scrolls = s\<rparr>"
proof (induction n arbitrary: m p)
  case (Suc n)
  have "(\<lambda>i. if Suc p \<le> i \<and> i < Suc p + n then w else (m(p := w)) i) = (\<lambda>i. if p \<le> i \<and> i < p + Suc n then w else m i)"
    by (auto simp: fun_eq_iff)
  then show ?case using Suc [of "m(p := w)" "Suc p"] by (simp add: fun_upd_def)
qed (auto simp: fun_eq_iff)

lemma fill_row_eq:
  "fill_row n w cp = cp\<lparr>cp_cells := (\<lambda>i. if cell cp \<le> i \<and> i < cell cp + n then w else cp_cells cp i), cell := cell cp + n\<rparr>"
proof -
  obtain m p s where cp: "cp = \<lparr>cp_cells = m, cell = p, scrolls = s\<rparr>" by (cases cp)
  show ?thesis unfolding cp fill_row_cells by (simp cong: if_cong)
qed

lemma window_rows: "window k (t, p) cp \<Longrightarrow> k = rows_gone p"
proof -
  assume w: "window k (t, p) cp"
  then have p: "p = cell cp + COLUMNS * k" "cell cp \<le> CELLS" "k = 0 \<or> CELLS - COLUMNS < cell cp" by (auto simp: window_def)
  show ?thesis
  proof (cases "k = 0")
    case True
    then show ?thesis using p by (simp add: rows_gone_def)
  next
    case False
    then have c: "1920 < cell cp" using p(3) by simp
    have "(cell cp + 80 * k - 1921) div 80 = (cell cp - 1921 + 80 * k) div 80" using c by simp
    also have "\<dots> = (cell cp - 1921) div 80 + k" by simp
    also have "(cell cp - 1921) div 80 = 0" using p(2) by simp
    finally show ?thesis using p(1) by (simp add: rows_gone_def)
  qed
qed

text \<open>Before a character is written, the cell is inside the console.\<close>

definition inside :: "nat \<Rightarrow> (nat \<Rightarrow> 16 word) \<times> nat \<Rightarrow> console_printer \<Rightarrow> bool" where
  "inside k tp cp \<longleftrightarrow> snd tp = cell cp + COLUMNS * k \<and> cell cp < CELLS \<and> scrolls cp \<and> (k = 0 \<or> CELLS - COLUMNS \<le> cell cp)
     \<and> (\<forall>i < CELLS. cp_cells cp i = fst tp (i + COLUMNS * k)) \<and> (\<forall>i \<ge> CELLS + COLUMNS * k. fst tp i = 0)"

declare make_room.simps [simp del]

lemma make_room_window:
  assumes "window k tp cp"
  shows "\<exists>k'. inside k' tp (make_room cp)" and "\<forall>i \<ge> CELLS. cp_cells (make_room cp) i = cp_cells cp i"
proof -
  have w: "snd tp = cell cp + COLUMNS * k" "cell cp \<le> CELLS" "scrolls cp" "k = 0 \<or> CELLS - COLUMNS < cell cp"
    "\<forall>i < CELLS. cp_cells cp i = fst tp (i + COLUMNS * k)" "\<forall>i \<ge> CELLS + COLUMNS * k. fst tp i = 0"
    using assms by (auto simp: window_def)
  have "(\<exists>k'. inside k' tp (make_room cp)) \<and> (\<forall>i \<ge> CELLS. cp_cells (make_room cp) i = cp_cells cp i)"
  proof (cases "cell cp \<ge> CELLS")
    case False
    then have "make_room cp = cp" by (simp add: make_room.simps [of cp])
    then show ?thesis using w False by (auto simp: inside_def intro!: exI [of _ k])
  next
    case True
    then have c: "cell cp = CELLS" using w(2) by simp
    define cp1 where "cp1 = scroll cp"
    have cp1: "cell cp1 = CELLS - COLUMNS" "scrolls cp1" "cp_cells cp1 = scroll_cells (cp_cells cp)"
      using w(3) c by (simp_all add: cp1_def scroll_def)
    have "make_room cp = make_room cp1" using True make_room.simps [of cp] by (simp add: cp1_def)
    moreover have "make_room cp1 = cp1" using cp1(1) by (simp add: make_room.simps [of cp1])
    ultimately have "make_room cp = cp1" by simp
    moreover have "inside (Suc k) tp cp1"
      unfolding inside_def
    proof (intro conjI allI impI)
      fix i
      assume i: "i < CELLS"
      have e: "i + COLUMNS * Suc k = i + COLUMNS + COLUMNS * k" by simp
      show "cp_cells cp1 i = fst tp (i + COLUMNS * Suc k)"
      proof (cases "i < CELLS - COLUMNS")
        case True
        then have "i + COLUMNS < CELLS" by simp
        then show ?thesis using True w(5) unfolding cp1 scroll_cells_eq e by simp
      next
        case False
        then have "CELLS + COLUMNS * k \<le> i + COLUMNS + COLUMNS * k" by simp
        then have "fst tp (i + COLUMNS + COLUMNS * k) = 0" using w(6) by blast
        then show ?thesis using False i unfolding cp1 scroll_cells_eq e by simp
      qed
    qed (use w(1,6) c cp1 in auto)
    ultimately show ?thesis using cp1(3) by (auto simp: scroll_cells_eq)
  qed
  then show "\<exists>k'. inside k' tp (make_room cp)" "\<forall>i \<ge> CELLS. cp_cells (make_room cp) i = cp_cells cp i" by blast+
qed

lemma row_end: "c + (COLUMNS - c mod COLUMNS) = (c div COLUMNS + 1) * COLUMNS"
proof -
  define q where "q = c div 80"
  define r where "r = c mod 80"
  have "c = q * 80 + r" by (simp add: q_def r_def)
  moreover have "r < 80" by (simp add: r_def)
  ultimately show ?thesis unfolding q_def [symmetric] r_def [symmetric] by arith
qed

lemma row_fits: "c < CELLS \<Longrightarrow> c + (COLUMNS - c mod COLUMNS) \<le> CELLS"
proof -
  assume c: "c < CELLS"
  have "c div 80 < 25" by (rule less_mult_imp_div_less) (use c in simp)
  then have "(c div 80 + 1) * 80 \<le> 2000" by simp
  then show ?thesis by (simp only: row_end)
qed

lemma putc_window:
  assumes "window k tp cp"
  shows "\<exists>k'. window k' (tape_putc x tp) (console_putc x cp)" and "\<forall>i \<ge> CELLS. cp_cells (console_putc x cp) i = cp_cells cp i"
proof -
  obtain c color where x: "x = (c, color)" by fastforce
  obtain t p where tp: "tp = (t, p)" by fastforce
  define cp1 where "cp1 = make_room cp"
  obtain k' where "inside k' tp cp1" using make_room_window(1) [OF assms] unfolding cp1_def by blast
  then have w: "p = cell cp1 + COLUMNS * k'" "cell cp1 < CELLS" "scrolls cp1" "k' = 0 \<or> CELLS - COLUMNS \<le> cell cp1"
    "\<forall>i < CELLS. cp_cells cp1 i = t (i + COLUMNS * k')" "\<forall>i \<ge> CELLS + COLUMNS * k'. t i = 0"
    by (auto simp: inside_def tp)
  have out: "\<forall>i \<ge> CELLS. cp_cells cp1 i = cp_cells cp i" using make_room_window(2) [OF assms] by (simp add: cp1_def)
  have "window k' (tape_putc x tp) (console_putc x cp) \<and> (\<forall>i \<ge> CELLS. cp_cells (console_putc x cp) i = cp_cells cp i)"
  proof (cases "c = 10")
    case False
    then have "console_putc x cp = cp1\<lparr>cp_cells := (cp_cells cp1)(cell cp1 := glyph c color), cell := cell cp1 + 1\<rparr>"
      by (simp add: console_putc_def x cp1_def Let_def)
    moreover have "tape_putc x tp = (t(p := glyph c color), p + 1)" using False by (simp add: tape_putc_def x tp)
    ultimately show ?thesis using w out by (auto simp: window_def)
  next
    case True
    define n where "n = COLUMNS - cell cp1 mod COLUMNS"
    have n: "cell cp1 + n \<le> CELLS" unfolding n_def by (rule row_fits [OF w(2)])
    have "0 < n" by (simp add: n_def)
    have pd: "p div 80 = cell cp1 div 80 + k'" unfolding w(1) by simp
    have "cell cp1 + n = (cell cp1 div 80 + 1) * 80" unfolding n_def by (rule row_end)
    then have q: "(p div COLUMNS + 1) * COLUMNS = p + n" unfolding pd w(1) by (simp add: algebra_simps)
    have "console_putc x cp = fill_row n (glyph 32 color) cp1" using True by (simp add: console_putc_def x cp1_def n_def Let_def)
    moreover have "tape_putc x tp = ((\<lambda>i. if p \<le> i \<and> i < p + n then glyph 32 color else t i), p + n)"
      using True q by (simp add: tape_putc_def x tp Let_def)
    ultimately show ?thesis using w out n \<open>0 < n\<close> by (auto simp: window_def fill_row_eq)
  qed
  then show "\<exists>k'. window k' (tape_putc x tp) (console_putc x cp)" "\<forall>i \<ge> CELLS. cp_cells (console_putc x cp) i = cp_cells cp i" by blast+
qed

lemma write_window:
  "window k tp cp \<Longrightarrow> \<exists>k'. window k' (fold tape_putc out tp) (fold console_putc out cp)
     \<and> (\<forall>i \<ge> CELLS. cp_cells (fold console_putc out cp) i = cp_cells cp i)"
proof (induction out arbitrary: k tp cp)
  case (Cons x out)
  obtain k' where k': "window k' (tape_putc x tp) (console_putc x cp)" using putc_window(1) [OF Cons.prems] by blast
  show ?case using Cons.IH [OF k'] putc_window(2) [OF Cons.prems, of x] by simp
qed auto

text \<open>C32: writing to the console at the cursor is writing on an endless tape that starts with the
  contents of the console: afterwards the console shows the rows of the tape from the number
  of rows that have scrolled away on, the cursor is where the tape's position is, and no
  memory outside the console has been touched.\<close>

theorem console_is_window:
  assumes "cursorpos c \<le> CELLS"
  shows "console_write (-1) out c = (case fold tape_putc out (\<lambda>i. if i < CELLS then cells c i else 0, cursorpos c) of
    (t, p) \<Rightarrow> (p - COLUMNS * rows_gone p,
      c\<lparr>cells := (\<lambda>i. if i < CELLS then t (i + COLUMNS * rows_gone p) else cells c i), cursorpos := p - COLUMNS * rows_gone p\<rparr>))"
proof -
  define cp where "cp = start_printer (-1) True c"
  define tp where "tp = (\<lambda>i. if i < CELLS then cells c i else 0, cursorpos c)"
  have "window 0 tp cp" using assms by (simp add: window_def tp_def cp_def start_printer_def)
  from write_window [OF this] obtain k where k: "window k (fold tape_putc out tp) (fold console_putc out cp)"
    "\<forall>i \<ge> CELLS. cp_cells (fold console_putc out cp) i = cp_cells cp i" by blast
  obtain t p where tp': "fold tape_putc out tp = (t, p)" by fastforce
  have r: "k = rows_gone p" by (rule window_rows) (use k(1) tp' in simp)
  have w: "cell (fold console_putc out cp) = p - COLUMNS * k"
    "\<And>i. i < CELLS \<Longrightarrow> cp_cells (fold console_putc out cp) i = t (i + COLUMNS * k)"
    using k(1) unfolding tp' window_def by auto
  have "cp_cells (fold console_putc out cp) = (\<lambda>i. if i < CELLS then t (i + COLUMNS * k) else cells c i)"
    using w(2) k(2) by (auto simp: fun_eq_iff cp_def start_printer_def)
  then show ?thesis using w(1) tp' unfolding r tp_def [symmetric] by (simp add: console_write_def cp_def Let_def)
qed

definition demo_console :: console where
  "demo_console = \<lparr>cells = (\<lambda>i. 0), cursorpos = 1999\<rparr>"

lemma console_is_window_witness:
  "fst (console_write (-1) [(65, 0x700), (66, 0x700)] demo_console) = 1921
     \<and> cells (snd (console_write (-1) [(65, 0x700), (66, 0x700)] demo_console)) 1920 = 0x742"
proof -
  have c: "cursorpos demo_console \<le> CELLS" by (simp add: demo_console_def)
  have f: "fold tape_putc [(65, 0x700), (66, 0x700)] (\<lambda>i. if i < CELLS then cells demo_console i else 0, cursorpos demo_console)
      = ((\<lambda>i. if i = 1999 then 0x741 else if i = 2000 then 0x742 else 0), 2001)"
    by (auto simp: tape_putc_def glyph_def demo_console_def fun_eq_iff)
  show ?thesis unfolding console_is_window [OF c] f by (simp add: rows_gone_def)
qed

end
