(* ===== verification/WRand.thy ===== *)
theory WRand
  imports Prelude
begin

text \<open>
  The pseudorandom numbers of \<open>src/pset3/lib.cc\<close>: a linear congruential generator and numbers
  from a range by rejection. The generator goes through all its states, so the rejection
  loop ends.
\<close>

section \<open>The generator\<close>

record rng =
  rand_seed_set :: bool
  rand_seed :: u64

definition RAND_MAX :: nat where "RAND_MAX = 0x7FFFFFFF"

definition srand :: "32 word \<Rightarrow> rng \<Rightarrow> rng" where
  "srand seed g = g\<lparr>rand_seed := push_bit 32 (ucast seed) OR ucast seed, rand_seed_set := True\<rparr>"

definition next_seed :: "u64 \<Rightarrow> u64" where
  "next_seed x = x * 6364136223846793005 + 1"

definition rand_value :: "u64 \<Rightarrow> nat" where
  "rand_value x = unat (drop_bit 32 x AND of_nat RAND_MAX)"

definition rand :: "rng \<Rightarrow> nat \<times> rng" where
  "rand g = (let g = (if \<not> rand_seed_set g then srand 819234718 g else g);
     g = g\<lparr>rand_seed := next_seed (rand_seed g)\<rparr> in (rand_value (rand_seed g), g))"

text \<open>The loop of \<open>rand(min, max)\<close>.\<close>

partial_function (option) rand_loop :: "int \<Rightarrow> nat \<Rightarrow> nat \<Rightarrow> rng \<Rightarrow> (int \<times> rng) option" where
  "rand_loop mn dv tp g = (let (r, g) = rand g in if r < tp then Some (mn + int (r div dv), g) else rand_loop mn dv tp g)"

text \<open>The arguments are values of type \<open>int\<close>; \<open>max - min + 1\<close> overflows if it reaches \<open>2 ^ 31\<close>,
  which the assertions do not exclude.\<close>

definition rand_range :: "int \<Rightarrow> int \<Rightarrow> rng \<Rightarrow> (int \<times> rng) option" where
  "rand_range mn mx g = do {
     assert_ok (mn \<le> mx);
     assert_ok (mx - mn \<le> int RAND_MAX);
     assert_ok (mx - mn + 1 \<le> int RAND_MAX);
     let width = nat (mx - mn + 1);
     let dv = (RAND_MAX + 1) div width;
     let tp = dv * width;
     assert_ok (tp > 0 \<and> tp \<le> RAND_MAX + 1);
     rand_loop mn dv tp g }"

section \<open>Its period\<close>

definition lcg_sum :: "nat \<Rightarrow> int" where
  "lcg_sum n = (\<Sum>i < n. 6364136223846793005 ^ i)"

lemma lcg_sum_Suc: "lcg_sum (Suc n) = lcg_sum n * 6364136223846793005 + 1"
proof (induction n)
  case (Suc n)
  have "lcg_sum (Suc (Suc n)) = lcg_sum (Suc n) + 6364136223846793005 ^ Suc n" by (simp add: lcg_sum_def)
  also have "\<dots> = lcg_sum n * 6364136223846793005 + 1 + 6364136223846793005 ^ Suc n" using Suc by simp
  also have "\<dots> = (lcg_sum n + 6364136223846793005 ^ n) * 6364136223846793005 + 1" by (simp add: algebra_simps)
  also have "lcg_sum n + 6364136223846793005 ^ n = lcg_sum (Suc n)" by (simp add: lcg_sum_def)
  finally show ?case .
qed (simp add: lcg_sum_def)

lemma lcg_sum_add: "lcg_sum (n + m) = lcg_sum n + 6364136223846793005 ^ n * lcg_sum m"
proof (induction m)
  case (Suc m)
  have "lcg_sum (n + Suc m) = lcg_sum (n + m) + 6364136223846793005 ^ (n + m)" by (simp add: lcg_sum_def)
  then show ?case using Suc by (simp add: lcg_sum_def power_add algebra_simps)
qed (simp add: lcg_sum_def)

lemma iterate_zero: "(next_seed ^^ n) 0 = of_int (lcg_sum n)"
  by (induction n) (simp_all add: lcg_sum_Suc next_seed_def, simp add: lcg_sum_def)

lemma power_mod_4: "(6364136223846793005 :: int) ^ n mod 4 = 1"
proof -
  have "(6364136223846793005 :: int) ^ n mod 4 = (6364136223846793005 mod 4) ^ n mod 4" by (rule power_mod [symmetric])
  also have "\<dots> = 1" by simp
  finally show ?thesis .
qed

lemma lcg_sum_double: "\<exists>c. odd c \<and> lcg_sum (2 * n) = lcg_sum n * (2 * c)"
proof -
  define c where "c = (1 + 6364136223846793005 ^ n) div (2 :: int)"
  have m: "(1 + 6364136223846793005 ^ n) mod (4 :: int) = 2" using power_mod_4 [of n] by presburger
  then have "odd c" "1 + 6364136223846793005 ^ n = 2 * c" unfolding c_def by presburger+
  moreover have "lcg_sum (n + n) = lcg_sum n * (1 + 6364136223846793005 ^ n)"
    using lcg_sum_add [of n n] by (simp add: algebra_simps)
  then have "lcg_sum (2 * n) = lcg_sum n * (1 + 6364136223846793005 ^ n)" by (simp only: mult_2)
  ultimately show ?thesis by metis
qed

lemma lcg_sum_odd: "odd (lcg_sum n) \<longleftrightarrow> odd n"
proof (induction n)
  case (Suc n)
  then show ?case by (simp add: lcg_sum_Suc)
qed (simp add: lcg_sum_def)

lemma lcg_coprime: "coprime ((2 :: int) ^ k) (6364136223846793005 ^ n)"
  by simp

lemma lcg_sum_dvd: "0 < n \<Longrightarrow> 2 ^ k dvd lcg_sum n \<Longrightarrow> 2 ^ k dvd n"
proof (induction n arbitrary: k rule: less_induct)
  case (less n)
  show ?case
  proof (cases "k = 0 \<or> odd n")
    case True
    then show ?thesis using lcg_sum_odd less.prems(2) by (cases k) (auto dest: dvd_mult_left)
  next
    case False
    then obtain k' where k: "k = Suc k'" by (cases k) auto
    obtain m where m: "n = 2 * m" using False by (auto elim: evenE)
    obtain c where c: "odd c" "lcg_sum n = lcg_sum m * (2 * c)" using lcg_sum_double [of m] m by auto
    have "2 * 2 ^ k' dvd 2 * (lcg_sum m * c)" using less.prems(2) c(2) k by (simp add: mult_ac)
    then have "2 ^ k' dvd lcg_sum m * c" by simp
    moreover have "coprime (2 ^ k') c" using c(1) by simp
    ultimately have "2 ^ k' dvd lcg_sum m" by (simp add: coprime_dvd_mult_left_iff)
    then have "2 ^ k' dvd m" by (intro less.IH) (use less.prems(1) m in auto)
    then show ?thesis unfolding k m by simp
  qed
qed

lemma lcg_sum_power: "2 ^ k dvd lcg_sum (2 ^ k)"
proof (induction k)
  case (Suc k)
  obtain c where "lcg_sum (2 * 2 ^ k) = lcg_sum (2 ^ k) * (2 * c)" using lcg_sum_double [of "2 ^ k"] by blast
  then show ?case using Suc by (simp add: mult_ac)
qed simp

lemma word_of_int_zero: "(of_int a :: u64) = 0 \<longleftrightarrow> 2 ^ 64 dvd a"
  using word_of_int_eq_0_iff [of a, where 'a = 64] by simp

lemma seeds_distinct: "inj_on (\<lambda>n. (next_seed ^^ n) 0) {..< 2 ^ 64}"
proof -
  have "n = m" if "n \<le> m" "m < 2 ^ 64" "(next_seed ^^ n) 0 = (next_seed ^^ m) 0" for n m :: nat
  proof (rule ccontr)
    assume ne: "n \<noteq> m"
    then have pos: "0 < m - n" using that(1) by simp
    have "lcg_sum m = lcg_sum n + 6364136223846793005 ^ n * lcg_sum (m - n)" using lcg_sum_add [of n "m - n"] that(1) by simp
    then have "(of_int (6364136223846793005 ^ n * lcg_sum (m - n)) :: u64) = 0"
      using that(3) unfolding iterate_zero by simp
    then have "2 ^ 64 dvd 6364136223846793005 ^ n * lcg_sum (m - n)" by (simp only: word_of_int_zero)
    then have "2 ^ 64 dvd lcg_sum (m - n)" by (simp only: coprime_dvd_mult_right_iff [OF lcg_coprime])
    then have "2 ^ 64 dvd m - n" by (rule lcg_sum_dvd [OF pos])
    then have "2 ^ 64 \<le> m - n" using pos by (rule dvd_imp_le)
    then show False using that(2) by simp
  qed
  then show ?thesis unfolding inj_on_def by (metis lessThan_iff nat_le_linear)
qed

text \<open>Every seed leads to every other one.\<close>

lemma seed_reaches_zero: "\<exists>n > 0. (next_seed ^^ n) x = 0"
proof -
  let ?f = "\<lambda>n. (next_seed ^^ n) 0"
  have "card (?f ` {..< 2 ^ 64}) = card (UNIV :: u64 set)" using card_image [OF seeds_distinct] by (simp add: card_word)
  then have "?f ` {..< 2 ^ 64} = UNIV" by (intro card_subset_eq) simp_all
  then obtain n where n: "n < 2 ^ 64" "x = ?f n" by blast
  have "(next_seed ^^ (2 ^ 64 - n)) x = (next_seed ^^ (2 ^ 64 - n + n)) 0" unfolding n(2) by (simp only: funpow_add o_apply)
  also have "\<dots> = of_int (lcg_sum (2 ^ 64))" using n(1) by (simp add: iterate_zero)
  also have "\<dots> = 0" unfolding word_of_int_zero by (rule lcg_sum_power)
  finally have "(next_seed ^^ (2 ^ 64 - n)) x = 0" .
  then show ?thesis using n(1) by (intro exI [of _ "2 ^ 64 - n"]) simp
qed

section \<open>Numbers from a range\<close>

definition seeded :: "rng \<Rightarrow> u64" where
  "seeded g = (if rand_seed_set g then rand_seed g else rand_seed (srand 819234718 g))"

lemma rand_eq: "rand g = (rand_value (next_seed (seeded g)), \<lparr>rand_seed_set = True, rand_seed = next_seed (seeded g)\<rparr>)"
  by (cases g) (simp add: rand_def seeded_def srand_def Let_def)

lemma rand_loop_returns:
  "rand_value ((next_seed ^^ Suc n) (seeded g)) < tp \<Longrightarrow> \<exists>r g'. rand_loop mn dv tp g = Some (mn + int (r div dv), g') \<and> r < tp"
proof (induction n arbitrary: g)
  case 0
  then show ?case by (subst rand_loop.simps) (simp add: rand_eq, blast)
next
  case (Suc n)
  show ?case
  proof (cases "rand_value (next_seed (seeded g)) < tp")
    case True
    then show ?thesis by (subst rand_loop.simps) (simp add: rand_eq, blast)
  next
    case False
    define g1 where "g1 = \<lparr>rand_seed_set = True, rand_seed = next_seed (seeded g)\<rparr>"
    have "rand_loop mn dv tp g = rand_loop mn dv tp g1" by (subst rand_loop.simps) (use False in \<open>simp add: rand_eq g1_def\<close>)
    moreover have "seeded g1 = next_seed (seeded g)" by (simp add: seeded_def g1_def)
    then have "rand_value ((next_seed ^^ Suc n) (seeded g1)) < tp" using Suc.prems by (simp add: funpow_swap1)
    ultimately show ?thesis using Suc.IH [of g1] by simp
  qed
qed

text \<open>\<open>rand(min, max)\<close> always returns, whatever the seed, a number between its arguments (if
  \<open>max - min\<close> is less than \<open>RAND_MAX\<close>; at \<open>RAND_MAX\<close> its arithmetic overflows), and equally
  many values of \<open>rand\<close> lead to each number.\<close>

theorem rand_range_total:
  assumes "mn \<le> mx"
  shows "(if mx - mn < int RAND_MAX then \<exists>v g'. rand_range mn mx g = Some (v, g') \<and> mn \<le> v \<and> v \<le> mx else rand_range mn mx g = None)
    \<and> (mx < v' \<or> v' < mn \<or> card {r. r < (RAND_MAX + 1) div nat (mx - mn + 1) * nat (mx - mn + 1)
           \<and> mn + int (r div ((RAND_MAX + 1) div nat (mx - mn + 1))) = v'} = (RAND_MAX + 1) div nat (mx - mn + 1))"
proof
  define w where "w = nat (mx - mn + 1)"
  define d where "d = (RAND_MAX + 1) div w"
  have w: "0 < w" "int w = mx - mn + 1" using assms by (simp_all add: w_def)
  show "if mx - mn < int RAND_MAX then \<exists>v g'. rand_range mn mx g = Some (v, g') \<and> mn \<le> v \<and> v \<le> mx else rand_range mn mx g = None"
  proof (cases "mx - mn < int RAND_MAX")
    case True
    then have wl: "w \<le> RAND_MAX" using w by linarith
    then have "1 \<le> d" unfolding d_def using w(1) by (simp add: div_greater_zero_iff Suc_leI)
    then have tp: "0 < d * w" "d * w \<le> RAND_MAX + 1" using w(1) by (simp_all add: d_def)
    obtain n where n: "0 < n" "(next_seed ^^ n) (seeded g) = 0" using seed_reaches_zero by blast
    then have "rand_value ((next_seed ^^ Suc (n - 1)) (seeded g)) < d * w" using tp(1) by (simp add: rand_value_def)
    from rand_loop_returns [OF this] obtain r g' where r: "rand_loop mn d (d * w) g = Some (mn + int (r div d), g')" "r < d * w" by blast
    have run: "rand_range mn mx g = rand_loop mn d (d * w) g"
      unfolding rand_range_def w_def [symmetric] Let_def d_def [symmetric] using assms True tp by simp
    have "r div d < w" by (rule less_mult_imp_div_less) (use r(2) in \<open>simp add: mult.commute\<close>)
    then have "mn + int (r div d) \<le> mx" using w(2) by linarith
    then show ?thesis using run r(1) True by simp
  next
    case False
    then show ?thesis using assms by (auto simp: rand_range_def assert_ok_def)
  qed
  show "mx < v' \<or> v' < mn \<or> card {r. r < (RAND_MAX + 1) div nat (mx - mn + 1) * nat (mx - mn + 1)
           \<and> mn + int (r div ((RAND_MAX + 1) div nat (mx - mn + 1))) = v'} = (RAND_MAX + 1) div nat (mx - mn + 1)"
  proof (cases "mn \<le> v' \<and> v' \<le> mx")
    case True
    define i where "i = nat (v' - mn)"
    have i: "i < w" "\<And>q :: nat. mn + int q = v' \<longleftrightarrow> q = i" using True w(2) by (auto simp: i_def)
    have "{r. r < d * w \<and> mn + int (r div d) = v'} = {d * i ..< d * i + d}"
    proof (cases "d = 0")
      case False
      have le: "d * i + d \<le> d * w" using i(1) by (metis Suc_leI mult_Suc_right add.commute mult_le_mono2)
      have eq: "r div d = i \<longleftrightarrow> d * i \<le> r \<and> r < d * i + d" for r
      proof
        assume "r div d = i"
        then have "r = d * i + r mod d" by (metis mult_div_mod_eq)
        moreover have "r mod d < d" using False by simp
        ultimately show "d * i \<le> r \<and> r < d * i + d" by linarith
      next
        assume "d * i \<le> r \<and> r < d * i + d"
        then show "r div d = i" by (intro div_nat_eqI) (simp_all add: mult.commute)
      qed
      show ?thesis
      proof (rule set_eqI)
        fix r
        have "r < d * w \<and> mn + int (r div d) = v' \<longleftrightarrow> r < d * w \<and> d * i \<le> r \<and> r < d * i + d" by (simp only: i(2) eq)
        then show "r \<in> {r. r < d * w \<and> mn + int (r div d) = v'} \<longleftrightarrow> r \<in> {d * i ..< d * i + d}"
          using le unfolding mem_Collect_eq atLeastLessThan_iff by linarith
      qed
    qed simp
    then have "card {r. r < d * w \<and> mn + int (r div d) = v'} = d" by simp
    then show ?thesis unfolding d_def w_def by blast
  qed auto
qed

lemma rand_range_total_witness:
  "\<exists>v g'. rand_range 1 6 \<lparr>rand_seed_set = True, rand_seed = 5\<rparr> = Some (v, g') \<and> 1 \<le> v \<and> v \<le> 6"
  using rand_range_total [of 1 6 "\<lparr>rand_seed_set = True, rand_seed = 5\<rparr>" 1] by (simp add: RAND_MAX_def)

end
