(* ===== verification/ULib.thy ===== *)
theory ULib
  imports WPrint
begin

text \<open>
  How a process of WeensyOS gives up (\<open>src/pset3/u-lib.cc\<close>): \<open>panic\<close> and \<open>assert_fail\<close> make a message in a
  buffer of 240 bytes on the stack and hand it to the kernel. The result here is the memory at the system call;
  \<open>s\<close> is the address of the buffer. An access outside the buffer is undefined and yields \<open>None\<close>.
\<close>

definition BUFSIZE :: nat where "BUFSIZE = 240"

definition panic :: "nat \<Rightarrow> u8 list \<Rightarrow> varg list \<Rightarrow> wmem \<Rightarrow> wmem option" where
  "panic s format args m = do {
     (n, m) \<leftarrow> vsnprintf s (BUFSIZE - 1) format args m;
     let len = to_int (int n);
     if 0 < len then do {
       assert_ok (nat (len - 1) < BUFSIZE);
       if m (s + nat (len - 1)) \<noteq> 10 then do {
         let off = nat (len - (if len = int BUFSIZE - 1 then 1 else 0));
         assert_ok (off + 1 < BUFSIZE);
         Some (m(s + off := 10, s + off + 1 := 0)) }
       else Some m }
     else Some m }"

text \<open>The formats \<open>"%s:%d: %s\n%s:%d: user assertion '%s' failed\n"\<close> and, without a description,
  \<open>"%s:%d: user assertion '%s' failed\n"\<close>.\<close>

definition failed_format :: "u8 list" where
  "failed_format = [37, 115, 58, 37, 100, 58, 32, 117, 115, 101, 114, 32, 97, 115, 115, 101, 114, 116, 105, 111, 110, 32, 39, 37, 115, 39, 32,
     102, 97, 105, 108, 101, 100, 10]"

definition described_format :: "u8 list" where
  "described_format = [37, 115, 58, 37, 100, 58, 32, 37, 115, 10] @ failed_format"

text \<open>\<open>assert_fail\<close> moves the cursor first; the result is its position with the memory.\<close>

definition assert_fail :: "nat \<Rightarrow> u8 list \<Rightarrow> 32 word \<Rightarrow> u8 list \<Rightarrow> u8 list option \<Rightarrow> wmem \<Rightarrow> (nat \<times> wmem) option" where
  "assert_fail s filename line msg description m = do {
     (n, m) \<leftarrow> (case description of
        Some d \<Rightarrow> snprintf s BUFSIZE described_format [VStr filename, VInt line, VStr d, VStr filename, VInt line, VStr msg] m
      | None \<Rightarrow> snprintf s BUFSIZE failed_format [VStr filename, VInt line, VStr msg] m);
     Some (23 * 80, m) }"

text \<open>The bytes that the kernel is to find.\<close>

definition panic_message :: "u8 list \<Rightarrow> u8 list" where
  "panic_message text = (if length text < BUFSIZE - 1 then text @ (if text = [] \<or> last text = 10 then [] else [10])
     else take (BUFSIZE - 2) text @ [10])"

definition stores :: "wmem \<Rightarrow> nat \<Rightarrow> u8 list \<Rightarrow> wmem \<Rightarrow> bool" where
  "stores m s bs m' \<longleftrightarrow> (\<forall>i < length bs. m' (s + i) = bs ! i) \<and> (\<forall>x. x < s \<or> s + BUFSIZE \<le> x \<longrightarrow> m' x = m x)"

text \<open>C40: the message of a \<open>panic\<close> of a process is in its buffer, complete with a newline and a terminating zero, if
  the text has fewer than 239 characters. A text of 239 characters is cut to 238, with a newline and a zero after it. If it has
  more than 240 the process reads behind its buffer, because \<open>vsnprintf\<close> returns the length of the whole text.
  (With exactly 240 it reads the last byte of the buffer, which nobody wrote.)\<close>

theorem panic_message_stored:
  assumes "vprintf 0 format args = Some out" and "length out < 2 ^ 31" and "length out \<noteq> BUFSIZE"
  shows "if length out < BUFSIZE then \<exists>m'. panic s format args m = Some m' \<and> stores m s (panic_message (map fst out) @ [0]) m'
    else panic s format args m = None"
proof -
  let ?t = "map fst out" and ?n = "min (length out) (BUFSIZE - 2)"
  define m1 where "m1 = (\<lambda>x. if x < s \<or> s + (BUFSIZE - 1) \<le> x then m x else if x < s + ?n then ?t ! (x - s) else if x = s + ?n then 0 else m x)"
  have v: "vsnprintf s (BUFSIZE - 1) format args m = Some (length out, m1)"
    using assms(1) by (auto simp: vsnprintf_text m1_def BUFSIZE_def fun_eq_iff)
  have l: "to_int (int (length out)) = int (length out)" by (rule to_int_small) (use assms(2) in simp_all)
  have n1: "nat (int (length out) - 1) = length out - 1" by simp
  have run: "panic s format args m = (if out = [] then Some m1 else do {
       assert_ok (length out - 1 < BUFSIZE);
       if m1 (s + (length out - 1)) \<noteq> 10 then do {
         let off = length out - (if length out = BUFSIZE - 1 then 1 else 0);
         assert_ok (off + 1 < BUFSIZE);
         Some (m1(s + off := 10, s + off + 1 := 0)) }
       else Some m1 })"
    unfolding panic_def v using to_int_small [of 0] by (cases "out = []") (simp_all add: l Let_def BUFSIZE_def n1 add.commute [of s])
  show ?thesis
  proof (cases "length out < BUFSIZE")
    case False
    then have "\<not> length out - 1 < BUFSIZE" using assms(3) by simp
    then show ?thesis unfolding run using False by (auto simp: BUFSIZE_def)
  next
    case True
    then have inside: "length out - Suc 0 < 240" by (simp add: BUFSIZE_def)
    consider "out = []" | "out \<noteq> []" "length out < BUFSIZE - 1" | "length out = BUFSIZE - 1" using True unfolding BUFSIZE_def by (cases "out = []"; cases "length out = 239") simp_all
    then have "\<exists>m'. panic s format args m = Some m' \<and> stores m s (panic_message ?t @ [0]) m'"
    proof cases
      case 1
      then show ?thesis unfolding run by (auto simp: stores_def panic_message_def m1_def BUFSIZE_def)
    next
      case 2
      have lst: "m1 (s + (length out - 1)) = last ?t" using 2 by (auto simp: m1_def BUFSIZE_def last_conv_nth)
      show ?thesis
      proof (cases "last ?t = 10")
        case True
        then have "panic s format args m = Some m1" unfolding run using 2 lst inside by (simp add: BUFSIZE_def)
        moreover have "stores m s (?t @ [0]) m1" using 2 by (auto simp: stores_def m1_def BUFSIZE_def nth_append)
        ultimately show ?thesis using 2 True by (simp add: panic_message_def BUFSIZE_def)
      next
        case no: False
        then have "panic s format args m = Some (m1(s + length out := 10, s + length out + 1 := 0))"
          unfolding run using 2 lst inside by (simp add: BUFSIZE_def Let_def)
        moreover have "stores m s (?t @ [10, 0]) (m1(s + length out := 10, s + length out + 1 := 0))"
          using 2 by (auto simp: stores_def m1_def BUFSIZE_def nth_append nth_Cons')
        ultimately show ?thesis using 2 no by (simp add: panic_message_def BUFSIZE_def)
      qed
    next
      case 3
      have z: "m1 (s + (length out - 1)) = 0" using 3 by (simp add: m1_def BUFSIZE_def)
      then have "panic s format args m = Some (m1(s + 238 := 10, s + 239 := 0))"
        unfolding run using 3 by (auto simp: BUFSIZE_def Let_def)
      moreover have "stores m s (take 238 ?t @ [10, 0]) (m1(s + 238 := 10, s + 239 := 0))"
        using 3 by (auto simp: stores_def m1_def BUFSIZE_def nth_append nth_Cons')
      ultimately show ?thesis using 3 by (simp add: panic_message_def BUFSIZE_def)
    qed
    then show ?thesis using True by simp
  qed
qed

lemma panic_message_stored_witness: "panic 0 (replicate 300 65) [] (\<lambda>x. 0) = None"
proof -
  have "vprintf 0 (replicate n 65) [] = Some (replicate n (65, 0))" for n by (induction n) simp_all
  from panic_message_stored [OF this [of 300], of 0 "\<lambda>x. 0"] show ?thesis by (simp add: BUFSIZE_def)
qed

end
