(* ===== verification/Spec2Isabelle.thy ===== *)
theory Spec2Isabelle
  imports M61 IoCareful SlowIo61 FtxBank KStart KPicture KTrace BootLd ShSem WConsole WRand WArith ULib
begin

text \<open>
  A verification library for the CS 61 problem sets: a debugging allocator (\<open>src/pset1\<close>), a small
  operating system kernel with its C library (\<open>src/pset3\<close>), a caching I/O library and the programs
  that copy files with it (\<open>src/pset4\<close>, \<open>src/pset6\<close>), a shell (\<open>src/pset5\<close>), and a bank of accounts in
  a file shared by threads (\<open>src/pset6\<close>). The parts do not call each other, except that the bank
  runs on the I/O library with its file locks and the kernel uses the C library.

  Conventions. A function of the source is a definition of the same name that takes the state
  it changes and returns it. A failed assertion, a panic, undefined behaviour (a read outside an
  object, say) and a loop that never ends are the value \<open>None\<close> of an option; a theorem that a call
  returns says \<open>= Some\<close>. Where the program tells errors apart they are a sum type. Machine integers are words (\<open>u64\<close>, \<open>u8\<close>, 32 bits for \<open>int\<close>), or integers with the
  range written out where the code relies on no overflow. Loops are structural recursion,
  recursion with a measure, or \<open>partial_function (option)\<close> if they may run forever. Loops with a
  bound use it as fuel: \<open>kalloc\<close> tries its 512 pages once each (the loop of the source has the
  same bound), and \<open>try_map\<close> adds at most one table for each level above the iterator, so that its
  fuel is the level at which it starts.

  Theory Prelude has what all parts share: machine types, rounding, byte ranges of a memory, and
  C++'s ordered maps, stated as the locale \<open>ordered_map\<close> and interpreted on sorted lists.

  Allocator (M61; \<open>m61.cc\<close>, \<open>m61.hh\<close>). The state is the 8 MiB buffer with its free list, the map of
  active allocations, the set of freed ones, and the statistics. The operations \<open>m61_malloc\<close>,
  \<open>m61_free\<close>, \<open>m61_calloc\<close>, \<open>m61_realloc\<close>, the statistics, the leak report and the container allocator are complete;
  a diagnosis is a value of \<open>m61_error\<close>, its printed text is not modelled, and where \<open>mmap\<close> puts the buffer is a
  parameter. The invariants \<open>heap_ok\<close> and \<open>stats_ok\<close> are kept along every history of calls and writes of a client,
  \<open>full_ok\<close> along those without \<open>m61_realloc\<close> (which leaks bytes when it shrinks a block); from them follow that blocks are disjoint, that nothing is lost without \<open>realloc\<close>, when an allocation fails, and
  that overruns, double frees and wild frees are told apart.

  I/O library (Posix, Io61, Io61Read, Io61Write, Io61Pos; \<open>pset6/io61.cc\<close>, which is \<open>pset4/io61.cc\<close> text
  for text). The system calls are a record \<open>posix\<close> of functions over an arbitrary type of
  system states; what the code relies on is stated as named hypotheses on that record (\<open>reads_file\<close>, \<open>writes_file\<close>, \<open>seeks_file\<close> and so on:
  a file is a byte sequence with a position; short counts and a bounded number of interruptions are possible), and every property with such a
  hypothesis has a witness on a concrete system, \<open>mem_os\<close>. The state is \<open>io61_file\<close>: a single-slot
  cache with its tags, and the mapping if there is one. Io61Read shows that reading is reading the file,
  Io61Write that what is written arrives once and in order, Io61Pos the positioned operations,
  which share one cache slot for reading and writing.

  Copying programs (IoClients, IoCareful, Io61Api, SlowIo61; the eleven programs of \<open>pset4\<close> whose names end in \<open>cat61\<close>, \<open>reverse61\<close> or
  \<open>gather61\<close>, and the libraries \<open>slow-io61.cc\<close> and \<open>syscall-io61.cc\<close>). IoClients models them over the interface of the library, the record
  \<open>io61_api\<close>; the laws of an input and an output are the locales \<open>io_pair\<close> and \<open>io_seek_pair\<close>, inside which the
  programs are shown to copy, or to reverse. Io61Api interprets the locales on \<open>io61.cc\<close> (\<open>fast\<close>, \<open>fast_seek\<close>) and
  SlowIo61 on \<open>slow-io61.cc\<close> (\<open>slow\<close>), so that both libraries have the same result. IoCareful has the two programs that
  look at \<open>errno\<close> to retry interrupted calls, over the locale \<open>careful_pair\<close> (\<open>careful\<close> on \<open>io61.cc\<close>).

  Bank (Filelock, Ftx, FtxXfer, FtxBank; the locks of \<open>pset6/io61.cc\<close>, \<open>ftxdb.hh\<close>, \<open>ftxhelpers.cc\<close>, \<open>ftxxfer.cc\<close>, \<open>ftxrocket.cc\<close>,
  \<open>ftxunlocked.cc\<close>, \<open>ftxblockchain.cc\<close>). Filelock has the locks: a file of chunks with an owner and a count,
  a mutex and a condition variable; a thread that waits is returned to its caller as asleep. Its histories take lock and unlock calls with any
  ranges, as long as the code's behaviour is defined. Ftx has the
  account records and their text. FtxXfer cuts a transfer thread into the steps between which
  other threads can run, with the flags of the account objects; FtxBank runs them in any order: the sum of the balances is conserved
  and from every reachable state all threads can finish. Both need a database of at most 2^18 accounts (larger ones have accounts that cannot
  be locked) and amounts that are not negative: the set \<open>A\<close> of possible amounts is a parameter of the step relation, and
  \<open>negative_draw\<close> shows what a negative one does.

  Kernel (\<open>kernel.cc\<close>, \<open>kernel.hh\<close>, \<open>k-vmiter.cc\<close>, \<open>k-vmiter.hh\<close>, parts of \<open>k-hardware.cc\<close> and \<open>x86-64.h\<close>). The state \<open>kstate\<close> is
  physical memory as pages of 512 words, the reference counts, the process table, the current
  process and the clock. The kernel's own variables are fields of the state beside memory; \<open>kconf\<close>
  holds the addresses that the linker chooses.
  \<^item> KMem: the page allocator. VMiter: the two iterators over page tables, \<open>try_map\<close>. Kernel: processes,
    system calls, exceptions. KSched: the scheduler and \<open>sys_sleep\<close>. KBoot: program images, \<open>process_setup\<close>, the
    kernel page table and \<open>kernel_start\<close>.
  \<^item> PTree: a page table as an abstract map from addresses to pages with permissions (\<open>mapping\<close>), and
    the tables it is made of. KMap: \<open>try_map\<close> refines an update of this map; a copy-on-write
    fault. KTotal, KFork, KShare: when mapping cannot fail, and what \<open>fork\<close> does to both processes; five free
    pages are enough for it (a root and four tables).
  \<^item> KSpace: all address spaces together, and their agreement with the reference counts
    (\<open>space_inv\<close>). KGuard, KLoops, KMmap, KCow, KForkIso: every operation keeps it. KIsol: the
    machine, which runs on a list of events (system calls, exceptions, stores of the running process to memory that its
    page table lets it write), its invariant \<open>kernel_inv\<close>, and the isolation of processes. KStart: \<open>kernel_start\<close>
    succeeds and establishes \<open>kernel_inv\<close>.
  \<^item> KHard: segment and gate descriptors as the processor reads them, and the keyboard with its modifier
    keys. KTrace: the search in the symbol table, the order in which the build sorts that table, and the walk over
    the stack of a process, which ends whatever the stack holds.
  \<^item> KView: the memory viewer (\<open>k-memviewer.cc\<close>, \<open>memshow\<close>), whose loops end on every page table. KPicture: its marks
    and symbols are right in every state with \<open>kernel_inv\<close>, and it reports no error there. It relies on the kernel's own
    tables being outside the pages that are allocated, and on tables without entries above 4 GB (\<open>viewer_ready\<close>). The calls of
    \<open>memshow\<close> are no steps of KIsol; KPicture shows that one keeps \<open>kernel_inv\<close>.
  \<^item> BootLd: the boot loader (\<open>boot.cc\<close>), with the disk as a function from offsets to bytes.
  The events of KIsol are any; its theorems have the hypothesis \<open>sane_event\<close>, which says that a call of \<open>sys_mmap\<close> has a length that is a number
  of pages below 2^43 bytes and flags with \<open>PTE_P\<close> and no address bits (\<open>mmap_sane\<close>). The kernel does not check this, and
  without it isolation fails (\<open>unchecked_flags\<close>). The machine stops at a step that panics.

  C library of the kernel (WMem, WNum, WPrint, WConsole, WRand, WArith; \<open>lib.cc\<close>, \<open>lib.hh\<close>): memory and string functions over a memory of bytes,
  reading and printing numbers, \<open>vprintf\<close> as the list of characters that it sends to its
  printer, \<open>vsnprintf\<close>, the console as 25 rows of cells with a cursor, random numbers, bit
  searches and rounding at every word width. The argument list of
  \<open>printf\<close> is a list of typed values. The console is shown to be the window on the end of an
  endless tape. ULib: how a process makes the message of a panic (\<open>u-lib.cc\<close>).

  Shell (ShTok, ShParse, ShRun, ShSem; \<open>sh61.cc\<close>, \<open>sh61.hh\<close>, \<open>helpers.cc\<close>): the tokenizer on a list of characters, \<open>parse_line\<close>
  with its list of chains, pipelines and commands, running a line over the record \<open>shell_os\<close> of the system
  calls, and the main loop. ShParse shows that a line printed from its structures is parsed back; ShSem
  that the commands started are those of a reference semantics on and-or chains.

  Not modelled, because it is not part of the state of these programs or cannot be read in the
  repository: the text of diagnoses; command line options, timers and profiling; the programs
  that copy between the I/O library and \<open>stdio\<close> or sockets; device registers, the tables of segments and interrupts as a whole
  and other inline assembly; test programs; the rest of the build tools; the headlines of the memory
  viewer and the page that holds its marks; \<open>bomb.cc\<close>, whose functions exist only as
  machine code. The manifest lists these parts with the reasons.
\<close>

end
